(* ===== verification/C_Prelude.thy ===== *)
theory C_Prelude
  imports Main "HOL-Library.Word"
begin

unbundle bit_operations_syntax

section \<open>Shared vocabulary of the development\<close>

text \<open>
  The types, the C arithmetic and the generic facts that every component uses:
  \<^item> fixed-width unsigned integers as words, byte strings as lists of \<open>u8\<close>;
  \<^item> C's truncating \<open>/\<close> and \<open>%\<close> on \<open>int\<close>;
  \<^item> the overflow tests the sources write as \<open>UINT64_MAX - a < b\<close>;
  \<^item> the index scan \<open>for (i...) if (...) best = i\<close> of the lookup and eviction loops,
    as a locale whose laws the loops of the key-value store satisfy.
  The collections \<open>c_arith\<close> and \<open>c_bytes\<close> carry the arithmetic and the byte-string
  facts into the component proofs.
\<close>

named_theorems c_arith \<open>facts on C integer arithmetic\<close>
named_theorems c_bytes \<open>facts on byte strings and slices\<close>

type_synonym u8 = "8 word"
type_synonym u32 = "32 word"
type_synonym u64 = "64 word"
type_synonym bytes = "u8 list"

subsection \<open>C integer arithmetic\<close>

text \<open>Division and remainder of C's \<open>int\<close>: truncation towards zero.\<close>

definition c_div :: "int \<Rightarrow> int \<Rightarrow> int" where
  "c_div a b = sgn a * sgn b * (\<bar>a\<bar> div \<bar>b\<bar>)"

definition c_mod :: "int \<Rightarrow> int \<Rightarrow> int" where
  "c_mod a b = a - b * c_div a b"

lemma c_div_nonneg [c_arith]: "0 \<le> a \<Longrightarrow> 0 < b \<Longrightarrow> c_div a b = a div b"
  by (cases "a = 0") (auto simp: c_div_def)

lemma c_mod_nonneg [c_arith]: "0 \<le> a \<Longrightarrow> 0 < b \<Longrightarrow> c_mod a b = a mod b"
  by (simp add: c_mod_def c_div_nonneg minus_mult_div_eq_mod)

text \<open>Rounding up a percentage, as \<open>x / 100 + (x % 100 != 0)\<close>.\<close>

lemma ceil_percent: "(n + 99) div 100 = n div 100 + (if n mod 100 = 0 then 0 else 1)" for n :: nat
proof -
  define q r where "q = n div 100" and "r = n mod 100"
  have n: "n = r + 99 + 100 * q - 99" and r: "r < 100" by (simp_all add: q_def r_def)
  then have "(n + 99) div 100 = (r + 99 + 100 * q) div 100" by simp
  also have "\<dots> = q + (r + 99) div 100" by simp
  also have "(r + 99) div 100 = (if r = 0 then 0 else 1)"
    using r by (auto intro: div_nat_eqI)
  finally show ?thesis by (simp add: q_def r_def)
qed

text \<open>The largest value of a 64-bit word, \<open>UINT64_MAX\<close> of the sources.\<close>

abbreviation u64_max :: u64 where
  "u64_max \<equiv> - 1"

lemma unat_u64_max [c_arith]: "unat u64_max = 2 ^ 64 - 1"
  by (simp add: unsigned_minus_1_eq_mask mask_eq_exp_minus_1)

lemma unat_max_minus [c_arith]: "unat (u64_max - a) = 2 ^ 64 - 1 - unat a"
proof -
  have "a \<le> u64_max" by simp
  then have "unat (u64_max - a) = unat u64_max - unat a"
    by (rule unat_sub)
  then show ?thesis by (simp add: unat_u64_max)
qed

lemma unat_u64_bound: "unat (a::u64) < 18446744073709551616"
  using unsigned_less [of a] by simp

lemma unat_u32_bound: "unat (a::u32) < 4294967296"
  using unsigned_less [of a] by simp

lemma unat_u8_bound: "unat (a::u8) < 256"
  using unsigned_less [of a] by simp

text \<open>The sources guard a sum by \<open>b > UINT64_MAX - a\<close>; the guard is exact.\<close>

lemma u64_overflow_iff [c_arith]: "u64_max - a < b \<longleftrightarrow> 2 ^ 64 \<le> unat a + unat b"
  using unat_u64_bound [of a] unat_u64_bound [of b]
  by (simp add: word_less_nat_alt unat_max_minus) linarith

lemma unat_add_exact: "unat (a::u64) + unat b < 2 ^ 64 \<Longrightarrow> unat (a + b) = unat a + unat b"
  by (simp add: unat_word_ariths)

lemma unat_ucast_u32_u64 [simp]: "unat (ucast (x::u32) :: u64) = unat x"
proof -
  have "unat x < 2 ^ 64" using unat_u32_bound [of x] by simp
  then show ?thesis by (simp add: unsigned_ucast_eq take_bit_eq_mod)
qed

subsection \<open>Slices of byte strings\<close>

definition bslice :: "nat \<Rightarrow> nat \<Rightarrow> 'a list \<Rightarrow> 'a list" where
  "bslice off n xs = take n (drop off xs)"

lemma length_bslice [simp]: "off + n \<le> length xs \<Longrightarrow> length (bslice off n xs) = n"
  by (simp add: bslice_def)

lemma bslice_append_left [c_bytes]:
  "off + n \<le> length xs \<Longrightarrow> bslice off n (xs @ ys) = bslice off n xs"
  by (simp add: bslice_def)

lemma bslice_append_right [c_bytes]:
  "length xs \<le> off \<Longrightarrow> bslice off n (xs @ ys) = bslice (off - length xs) n ys"
  by (simp add: bslice_def)

lemma bslice_exact [c_bytes]: "length xs = n \<Longrightarrow> bslice 0 n (xs @ ys) = xs"
  by (simp add: bslice_def)

subsection \<open>Index scans\<close>

text \<open>
  A loop that walks a list, skips the elements that are no candidates and keeps the index
  of the best one so far: an element replaces the incumbent only when it is strictly
  better.
\<close>

fun scan_best :: "('e \<Rightarrow> bool) \<Rightarrow> ('e \<Rightarrow> 'e \<Rightarrow> bool) \<Rightarrow> nat \<Rightarrow> 'e list \<Rightarrow>
    (nat \<times> 'e) option \<Rightarrow> (nat \<times> 'e) option" where
  "scan_best cand better i [] best = best"
| "scan_best cand better i (e # es) best =
     (if cand e \<and> (case best of None \<Rightarrow> True | Some (j, b) \<Rightarrow> better e b)
      then scan_best cand better (Suc i) es (Some (i, e))
      else scan_best cand better (Suc i) es best)"

text \<open>
  The contract of such a loop: \<open>better\<close> is a strict weak order. Then the scan returns a
  candidate no other candidate is better than, and nothing exactly when there is no
  candidate.
\<close>

locale best_scan =
  fixes cand :: "'e \<Rightarrow> bool"
    and better :: "'e \<Rightarrow> 'e \<Rightarrow> bool"
  assumes better_irrefl: "\<not> better x x"
    and better_trans: "better x y \<Longrightarrow> better y z \<Longrightarrow> better x z"
    and worse_trans: "\<not> better x y \<Longrightarrow> \<not> better y z \<Longrightarrow> \<not> better x z"
begin

lemma scan_from_best:
  "\<exists>k e. scan_best cand better i es (Some (j, b)) = Some (k, e) \<and> \<not> better b e \<and>
     (\<forall>x \<in> set es. cand x \<longrightarrow> \<not> better x e) \<and>
     (k = j \<and> e = b \<or> i \<le> k \<and> k < i + length es \<and> es ! (k - i) = e \<and> cand e)"
proof (induction es arbitrary: i j b)
  case Nil
  then show ?case using better_irrefl by simp
next
  case (Cons x es)
  show ?case
  proof (cases "cand x \<and> better x b")
    case True
    from Cons.IH [of "Suc i" i x] obtain k e where
      r: "scan_best cand better (Suc i) es (Some (i, x)) = Some (k, e)" "\<not> better x e"
        "\<forall>y \<in> set es. cand y \<longrightarrow> \<not> better y e"
      and k: "k = i \<and> e = x \<or> Suc i \<le> k \<and> k < Suc i + length es \<and> es ! (k - Suc i) = e \<and> cand e"
      by blast
    have "i \<le> k \<and> k < i + length (x # es) \<and> (x # es) ! (k - i) = e \<and> cand e"
      using k True by (auto simp: nth_Cons')
    moreover have "\<not> better b e"
      using True r(2) better_trans by blast
    ultimately show ?thesis
      using True r by auto
  next
    case False
    from Cons.IH [of "Suc i" j b] obtain k e where
      r: "scan_best cand better (Suc i) es (Some (j, b)) = Some (k, e)" "\<not> better b e"
        "\<forall>y \<in> set es. cand y \<longrightarrow> \<not> better y e"
      and k: "k = j \<and> e = b \<or> Suc i \<le> k \<and> k < Suc i + length es \<and> es ! (k - Suc i) = e \<and> cand e"
      by blast
    have "k = j \<and> e = b \<or> i \<le> k \<and> k < i + length (x # es) \<and> (x # es) ! (k - i) = e \<and> cand e"
      using k by (auto simp: nth_Cons')
    moreover have "cand x \<longrightarrow> \<not> better x e"
      using False r(2) worse_trans by blast
    ultimately show ?thesis
      using False r by auto
  qed
qed

lemma scan_None_iff: "scan_best cand better i es None = None \<longleftrightarrow> (\<forall>x \<in> set es. \<not> cand x)"
proof (induction es arbitrary: i)
  case (Cons x es)
  have "scan_best cand better (Suc i) es (Some (i, x)) \<noteq> None"
    using scan_from_best [of "Suc i" es i x] by auto
  with Cons show ?case by auto
qed simp

lemma scan_Some:
  assumes "scan_best cand better i es None = Some (k, e)"
  shows "i \<le> k \<and> k < i + length es \<and> es ! (k - i) = e \<and> cand e \<and>
    (\<forall>x \<in> set es. cand x \<longrightarrow> \<not> better x e)"
  using assms
proof (induction es arbitrary: i)
  case Nil
  then show ?case by simp
next
  case (Cons x es)
  show ?case
  proof (cases "cand x")
    case True
    then have "scan_best cand better (Suc i) es (Some (i, x)) = Some (k, e)"
      using Cons.prems by simp
    with scan_from_best [of "Suc i" es i x] show ?thesis
      using True by (auto simp: nth_Cons')
  next
    case False
    then show ?thesis
      using Cons.prems Cons.IH [of "Suc i"] by (auto simp: nth_Cons')
  qed
qed

end

end
