(* ===== verification/C_Double.thy ===== *)
theory C_Double
  imports Complex_Main
begin

section \<open>Double-precision arithmetic\<close>

text \<open>
  The eviction score of the key-value store is computed in C \<open>double\<close>. A finite double
  is a rational number here and every operation is the exact one followed by \<open>d_round\<close>,
  IEEE~754 rounding to a 53-bit significand, to nearest with ties to even. The exponent is
  not bounded: the scores lie between \<open>2^-70\<close> and \<open>2^100\<close>, far from overflow and from
  the subnormal range, and a product below \<open>0.01\<close> is flushed to zero by the code itself.
  The lemmas are what the score's ranking rests on: rounding is monotone, keeps signs and
  leaves a value that already is a double alone.
\<close>

fun nbits :: "nat \<Rightarrow> nat" where
  "nbits n = (if n = 0 then 0 else Suc (nbits (n div 2)))"

declare nbits.simps [simp del]

lemma nbits_bounds: "0 < n \<Longrightarrow> 0 < nbits n \<and> 2 ^ (nbits n - 1) \<le> n \<and> n < 2 ^ nbits n"
proof (induction n rule: nbits.induct)
  case (1 n)
  show ?case
  proof (cases "n div 2 = 0")
    case True
    then have "n = 1" using 1(2) by simp
    then show ?thesis by (simp add: nbits.simps)
  next
    case False
    then have ih: "0 < nbits (n div 2)" "2 ^ (nbits (n div 2) - 1) \<le> n div 2" "n div 2 < 2 ^ nbits (n div 2)"
      using 1 by simp_all
    then obtain k where k: "nbits (n div 2) = Suc k" by (cases "nbits (n div 2)") simp_all
    have "nbits n = Suc (Suc k)" using 1(2) k by (subst nbits.simps) simp
    then show ?thesis using ih unfolding k by (simp, arith)
  qed
qed

text \<open>The binary exponent of a positive rational: \<open>2^d_exp x \<le> x < 2^(d_exp x + 1)\<close>.\<close>

definition d_exp :: "rat \<Rightarrow> int" where
  "d_exp x = (let (p, q) = quotient_of x; e = int (nbits (nat p)) - int (nbits (nat q))
              in if 2 powi e \<le> x then e else e - 1)"

text \<open>Rounding to an integer, ties to even.\<close>

definition round_even :: "rat \<Rightarrow> int" where
  "round_even x = (let f = \<lfloor>x\<rfloor>; d = x - of_int f
     in if d < 1 / 2 then f else if 1 / 2 < d then f + 1 else if even f then f else f + 1)"

definition d_round :: "rat \<Rightarrow> rat" where
  "d_round x =
     (if x = 0 then 0
      else let u = 2 powi (d_exp \<bar>x\<bar> - 52) in sgn x * (of_int (round_even (\<bar>x\<bar> / u)) * u))"

definition d_add :: "rat \<Rightarrow> rat \<Rightarrow> rat" where "d_add x y = d_round (x + y)"
definition d_mul :: "rat \<Rightarrow> rat \<Rightarrow> rat" where "d_mul x y = d_round (x * y)"
definition d_div :: "rat \<Rightarrow> rat \<Rightarrow> rat" where "d_div x y = d_round (x / y)"
definition d_of_nat :: "nat \<Rightarrow> rat" where "d_of_nat n = d_round (of_nat n)"

lemma powi2_add: "(2::rat) powi a * 2 powi b = 2 powi (a + b)"
  by (simp add: power_int_add)

lemma d_exp_bounds:
  assumes "0 < x"
  shows "2 powi d_exp x \<le> x" and "x < 2 powi (d_exp x + 1)"
proof -
  obtain p q where pq: "quotient_of x = (p, q)" by fastforce
  have q: "0 < q" and x: "x = of_int p / of_int q"
    using quotient_of_denom_pos [OF pq] quotient_of_div [OF pq] by simp_all
  have p: "0 < p" using assms x q by (simp add: zero_less_divide_iff)
  define a b where "a = nbits (nat p)" and "b = nbits (nat q)"
  have pa: "0 < a" "(2::nat) ^ (a - 1) \<le> nat p" "nat p < 2 ^ a"
    and qb: "0 < b" "(2::nat) ^ (b - 1) \<le> nat q" "nat q < 2 ^ b"
    using nbits_bounds [of "nat p"] nbits_bounds [of "nat q"] p q by (simp_all add: a_def b_def)
  have P: "(2::rat) powi (int a - 1) \<le> of_int p" "of_int p < (2::rat) powi int a"
  proof -
    have "(2::rat) powi (int a - 1) = 2 ^ (a - 1)"
      using pa(1) by (simp add: power_int_def nat_diff_distrib)
    also have "\<dots> \<le> of_nat (nat p)"
      using pa(2) by (metis of_nat_le_iff of_nat_numeral of_nat_power)
    finally show "(2::rat) powi (int a - 1) \<le> of_int p" using p by simp
    have "of_nat (nat p) < (2::rat) ^ a"
      using pa(3) by (metis of_nat_less_iff of_nat_numeral of_nat_power)
    then show "of_int p < (2::rat) powi int a" using p by (simp add: power_int_def)
  qed
  have Q: "(2::rat) powi (int b - 1) \<le> of_int q" "of_int q < (2::rat) powi int b"
  proof -
    have "(2::rat) powi (int b - 1) = 2 ^ (b - 1)"
      using qb(1) by (simp add: power_int_def nat_diff_distrib)
    also have "\<dots> \<le> of_nat (nat q)"
      using qb(2) by (metis of_nat_le_iff of_nat_numeral of_nat_power)
    finally show "(2::rat) powi (int b - 1) \<le> of_int q" using q by simp
    have "of_nat (nat q) < (2::rat) ^ b"
      using qb(3) by (metis of_nat_less_iff of_nat_numeral of_nat_power)
    then show "of_int q < (2::rat) powi int b" using q by (simp add: power_int_def)
  qed
  define e where "e = int a - int b"
  have lo: "2 powi (e - 1) \<le> x"
  proof -
    have "2 powi (e - 1) * of_int q \<le> 2 powi (e - 1) * (2::rat) powi int b"
      using Q(2) by (intro mult_left_mono) simp_all
    also have "\<dots> = 2 powi (int a - 1)"
      unfolding powi2_add by (simp add: e_def)
    also have "\<dots> \<le> of_int p" by (rule P)
    finally show ?thesis using q by (simp add: x pos_le_divide_eq)
  qed
  have hi: "x < 2 powi (e + 1)"
  proof -
    have "of_int p < (2::rat) powi int a" by (rule P)
    also have "\<dots> = 2 powi (e + 1) * 2 powi (int b - 1)"
      unfolding powi2_add by (simp add: e_def)
    also have "\<dots> \<le> 2 powi (e + 1) * of_int q"
      using Q(1) by (intro mult_left_mono) simp_all
    finally show ?thesis using q by (simp add: x pos_divide_less_eq)
  qed
  have "d_exp x = (if 2 powi e \<le> x then e else e - 1)"
    by (simp add: d_exp_def pq a_def b_def e_def)
  then show "2 powi d_exp x \<le> x" and "x < 2 powi (d_exp x + 1)"
    using lo hi by (auto simp: not_le)
qed

lemma powi2_less_iff: "(2::rat) powi a < 2 powi b \<longleftrightarrow> a < b"
  using power_int_strict_increasing [of a b "2::rat"] power_int_increasing [of b a "2::rat"]
  by (cases "a < b") (simp_all add: not_less)

lemma d_exp_eqI:
  assumes "2 powi e \<le> x" and "x < 2 powi (e + 1)"
  shows "d_exp x = e"
proof -
  have "0 < x" using assms(1) by (rule less_le_trans [rotated]) simp
  note b = d_exp_bounds [OF this]
  have "2 powi e < (2::rat) powi (d_exp x + 1)" "2 powi d_exp x < (2::rat) powi (e + 1)"
    using assms b by linarith+
  then show ?thesis by (simp add: powi2_less_iff)
qed

lemma d_exp_mono: "0 < x \<Longrightarrow> x \<le> y \<Longrightarrow> d_exp x \<le> d_exp y"
proof -
  assume "0 < x" "x \<le> y"
  then have "2 powi d_exp x \<le> x" "y < 2 powi (d_exp y + 1)" using d_exp_bounds by auto
  then have "2 powi d_exp x < (2::rat) powi (d_exp y + 1)" using \<open>x \<le> y\<close> by linarith
  then show ?thesis by (simp add: powi2_less_iff)
qed

subsection \<open>Rounding to an integer\<close>

lemma round_even_of_int [simp]: "round_even (of_int n) = n"
  by (simp add: round_even_def)

lemma round_even_numeral [simp]: "round_even (numeral n) = numeral n"
  using round_even_of_int [of "numeral n"] by simp

lemma round_even_near: "of_int (round_even x) \<le> x + 1 / 2 \<and> x - 1 / 2 \<le> of_int (round_even x)"
  unfolding round_even_def Let_def by (auto split: if_splits; linarith)

lemma round_even_mono:
  assumes "x \<le> y"
  shows "round_even x \<le> round_even y"
proof (cases "\<lfloor>x\<rfloor> = \<lfloor>y\<rfloor>")
  case True
  then show ?thesis using assms by (auto simp: round_even_def Let_def)
next
  case False
  then have "\<lfloor>x\<rfloor> + 1 \<le> \<lfloor>y\<rfloor>" using floor_mono [OF assms] by linarith
  moreover have "round_even x \<le> \<lfloor>x\<rfloor> + 1" and "\<lfloor>y\<rfloor> \<le> round_even y"
    by (simp_all add: round_even_def Let_def)
  ultimately show ?thesis by linarith
qed

subsection \<open>Rounding to a double\<close>

text \<open>The significand of a positive value has 53 bits, so it rounds within its binade.\<close>

lemma d_round_pos:
  assumes "0 < x"
  obtains n where "d_round x = of_int n * 2 powi (d_exp x - 52)" and "2 ^ 52 \<le> n" and "n \<le> 2 ^ 53"
    and "n = round_even (x / 2 powi (d_exp x - 52))"
proof
  define u where "u = (2::rat) powi (d_exp x - 52)"
  let ?n = "round_even (x / u)"
  have u: "0 < u" by (simp add: u_def)
  show "d_round x = of_int ?n * 2 powi (d_exp x - 52)"
    using assms by (simp add: d_round_def Let_def u_def)
  have "2 powi 52 * u = 2 powi d_exp x" and "2 powi 53 * u = 2 powi (d_exp x + 1)"
    unfolding u_def powi2_add by (simp_all add: algebra_simps)
  then have "2 ^ 52 * u \<le> x" and "x < 2 ^ 53 * u"
    using d_exp_bounds [OF assms] by simp_all
  then have "of_int (2 ^ 52) \<le> x / u" and "x / u \<le> of_int (2 ^ 53)"
    using u by (simp_all add: pos_le_divide_eq pos_divide_le_eq)
  then show "2 ^ 52 \<le> ?n" and "?n \<le> 2 ^ 53"
    using round_even_mono round_even_of_int by metis+
  show "?n = round_even (x / 2 powi (d_exp x - 52))" by (simp add: u_def)
qed

lemma d_round_binade:
  assumes "0 < x"
  shows "2 powi d_exp x \<le> d_round x" and "d_round x \<le> 2 powi (d_exp x + 1)"
proof -
  obtain n where n: "d_round x = of_int n * 2 powi (d_exp x - 52)" "2 ^ 52 \<le> n" "n \<le> 2 ^ 53"
    using assms by (rule d_round_pos)
  have "2 powi 52 * 2 powi (d_exp x - 52) \<le> d_round x"
    unfolding n(1) using n(2) by (intro mult_right_mono) (simp_all add: of_int_le_numeral_power_cancel_iff)
  then show "2 powi d_exp x \<le> d_round x" unfolding powi2_add by simp
  have "d_round x \<le> 2 powi 53 * 2 powi (d_exp x - 52)"
    unfolding n(1) using n(3) by (intro mult_right_mono) (simp_all add: of_int_le_numeral_power_cancel_iff)
  then show "d_round x \<le> 2 powi (d_exp x + 1)" unfolding powi2_add by (simp add: algebra_simps)
qed

lemma d_round_0 [simp]: "d_round 0 = 0"
  by (simp add: d_round_def)

lemma d_round_positive: "0 < x \<Longrightarrow> 0 < d_round x"
  using d_round_binade(1) [of x] by (rule less_le_trans [rotated]) simp_all

lemma d_round_nonneg: "0 \<le> x \<Longrightarrow> 0 \<le> d_round x"
  using d_round_positive [of x] by (cases "x = 0") auto

lemma d_round_mono:
  assumes "0 \<le> x" and "x \<le> y"
  shows "d_round x \<le> d_round y"
proof (cases "x = 0")
  case True
  then show ?thesis using assms d_round_nonneg by simp
next
  case False
  then have x: "0 < x" and y: "0 < y" using assms by simp_all
  show ?thesis
  proof (cases "d_exp x = d_exp y")
    case True
    define u where "u = (2::rat) powi (d_exp y - 52)"
    have "x / u \<le> y / u" using assms(2) by (simp add: divide_right_mono u_def)
    then have "of_int (round_even (x / u)) * u \<le> of_int (round_even (y / u)) * u"
      by (intro mult_right_mono) (simp_all add: round_even_mono u_def)
    then show ?thesis using x y True by (simp add: d_round_def Let_def u_def)
  next
    case False
    then have "d_exp x + 1 \<le> d_exp y" using d_exp_mono [OF x assms(2)] by simp
    then have "(2::rat) powi (d_exp x + 1) \<le> 2 powi d_exp y" by (rule power_int_increasing) simp_all
    then show ?thesis
      using d_round_binade(2) [OF x] d_round_binade(1) [OF y] by linarith
  qed
qed

text \<open>A value with an integral significand of at most 53 bits is a double already.\<close>

lemma d_round_exact:
  assumes "2 ^ 52 \<le> n" and "n \<le> 2 ^ 53"
  shows "d_round (of_int n * 2 powi e) = of_int n * 2 powi e"
proof (cases "n = 2 ^ 53")
  case True
  have x: "of_int n * (2::rat) powi e = 2 powi (e + 53)"
    unfolding True using powi2_add [of 53 e] by (simp add: add.commute)
  have "d_exp ((2::rat) powi (e + 53)) = e + 53"
    by (rule d_exp_eqI) (simp_all add: powi2_less_iff)
  moreover have "(2::rat) powi (e + 53) / 2 powi (e + 1) = of_int (2 ^ 52)"
    by (simp add: power_int_add)
  ultimately show ?thesis
    unfolding x by (simp add: d_round_def Let_def power_int_add)
next
  case False
  then have n: "n < 2 ^ 53" using assms(2) by simp
  define x where "x = of_int n * (2::rat) powi e"
  have "2 powi 52 * 2 powi e \<le> x" and "x < 2 powi 53 * 2 powi e"
    unfolding x_def using assms(1) n
    by (simp_all add: of_int_less_numeral_power_cancel_iff numeral_power_le_of_int_cancel_iff)
  then have "2 powi (e + 52) \<le> x" and "x < 2 powi (e + 52 + 1)"
    unfolding powi2_add by (simp_all add: algebra_simps)
  then have "d_exp x = e + 52" by (rule d_exp_eqI)
  moreover have "0 < x" using \<open>2 powi (e + 52) \<le> x\<close> by (rule less_le_trans [rotated]) simp
  ultimately have "d_round x = of_int (round_even (x / 2 powi e)) * 2 powi e"
    by (simp add: d_round_def Let_def)
  then show ?thesis by (simp add: x_def)
qed

lemma d_round_idem: "0 \<le> x \<Longrightarrow> d_round (d_round x) = d_round x"
proof (cases "x = 0")
  case False
  assume "0 \<le> x"
  with False have "0 < x" by simp
  then obtain n where n: "d_round x = of_int n * 2 powi (d_exp x - 52)" "2 ^ 52 \<le> n" "n \<le> 2 ^ 53"
    by (rule d_round_pos)
  then show ?thesis using d_round_exact by simp
qed simp

lemma d_mul_mono: "0 \<le> x \<Longrightarrow> x \<le> x' \<Longrightarrow> 0 \<le> y \<Longrightarrow> y \<le> y' \<Longrightarrow> d_mul x y \<le> d_mul x' y'"
  unfolding d_mul_def by (intro d_round_mono mult_mono mult_nonneg_nonneg) auto

lemma d_add_mono: "0 \<le> x \<Longrightarrow> x \<le> x' \<Longrightarrow> 0 \<le> y \<Longrightarrow> y \<le> y' \<Longrightarrow> d_add x y \<le> d_add x' y'"
  unfolding d_add_def by (intro d_round_mono add_mono add_nonneg_nonneg) auto

lemma d_div_mono: "0 \<le> x \<Longrightarrow> x \<le> x' \<Longrightarrow> 0 < y' \<Longrightarrow> y' \<le> y \<Longrightarrow> d_div x y \<le> d_div x' y'"
  unfolding d_div_def by (intro d_round_mono frac_le divide_nonneg_nonneg) auto

lemma d_ops_nonneg [simp]:
  "0 \<le> x \<Longrightarrow> 0 \<le> y \<Longrightarrow> 0 \<le> d_mul x y" "0 \<le> x \<Longrightarrow> 0 \<le> y \<Longrightarrow> 0 \<le> d_add x y"
  "0 \<le> x \<Longrightarrow> 0 \<le> y \<Longrightarrow> 0 \<le> d_div x y" "0 \<le> d_of_nat n"
  by (simp_all add: d_mul_def d_add_def d_div_def d_of_nat_def d_round_nonneg)

lemma d_of_nat_mono: "m \<le> n \<Longrightarrow> d_of_nat m \<le> d_of_nat n"
  unfolding d_of_nat_def by (rule d_round_mono) simp_all

lemma d_of_nat_pos: "0 < n \<Longrightarrow> 0 < d_of_nat n"
  unfolding d_of_nat_def by (rule d_round_positive) simp

text \<open>A factor of at most one never raises a double, a factor of at least one never lowers it.\<close>

lemma d_mul_le_left: "0 \<le> x \<Longrightarrow> d_round x = x \<Longrightarrow> 0 \<le> f \<Longrightarrow> f \<le> 1 \<Longrightarrow> d_mul x f \<le> x"
  using d_round_mono [of "x * f" x] by (simp add: d_mul_def mult_left_le)

lemma d_mul_ge_left: "0 \<le> x \<Longrightarrow> d_round x = x \<Longrightarrow> 1 \<le> f \<Longrightarrow> x \<le> d_mul x f"
  using d_round_mono [of x "x * f"] mult_left_mono [of 1 f x] by (simp add: d_mul_def)

end
