(* ===== verification/Sha1_Standard.thy ===== *)
theory Sha1_Standard
  imports C_Prelude
begin

unbundle bit_operations_syntax

section \<open>SHA-1 as the standard states it\<close>

text \<open>
  The secure hash algorithm SHA-1 of FIPS 180-4, written from the standard and not from the
  repository: its logical functions, constants, padding rule, message schedule and rounds, over byte
  strings. The theory \<open>Kv_Sha1\<close> measures the code against it. A test vector of the standard is
  evaluated in the kernel.
\<close>

subsection \<open>Functions and constants (sections 4.1.1, 4.2.1 and 5.3.1)\<close>

definition fips_Ch :: "u32 \<Rightarrow> u32 \<Rightarrow> u32 \<Rightarrow> u32" where
  "fips_Ch x y z = (x AND y) XOR (NOT x AND z)"

definition fips_Parity :: "u32 \<Rightarrow> u32 \<Rightarrow> u32 \<Rightarrow> u32" where
  "fips_Parity x y z = x XOR y XOR z"

definition fips_Maj :: "u32 \<Rightarrow> u32 \<Rightarrow> u32 \<Rightarrow> u32" where
  "fips_Maj x y z = (x AND y) XOR (x AND z) XOR (y AND z)"

definition fips_f :: "nat \<Rightarrow> u32 \<Rightarrow> u32 \<Rightarrow> u32 \<Rightarrow> u32" where
  "fips_f t = (if t \<le> 19 then fips_Ch else if t \<le> 39 then fips_Parity else if t \<le> 59 then fips_Maj else fips_Parity)"

definition fips_K :: "nat \<Rightarrow> u32" where
  "fips_K t = (if t \<le> 19 then 0x5a827999 else if t \<le> 39 then 0x6ed9eba1 else if t \<le> 59 then 0x8f1bbcdc else 0xca62c1d6)"

definition fips_H0 :: "u32 \<times> u32 \<times> u32 \<times> u32 \<times> u32" where
  "fips_H0 = (0x67452301, 0xefcdab89, 0x98badcfe, 0x10325476, 0xc3d2e1f0)"

subsection \<open>Padding and parsing (sections 5.1.1 and 5.2.1)\<close>

text \<open>A number as \<open>n\<close> bytes, the most significant first, and a word from its bytes.\<close>

definition be_bytes :: "nat \<Rightarrow> int \<Rightarrow> bytes" where
  "be_bytes n x = map (\<lambda>i. of_int (x div 256 ^ (n - 1 - i))) [0..<n]"

definition be_word :: "bytes \<Rightarrow> u32" where
  "be_word bs = foldl (\<lambda>w b. w * 256 + ucast b) 0 bs"

text \<open>
  A message of \<open>l\<close> bits is followed by a one bit, by the smallest number \<open>k\<close> of zero bits with
  \<open>l + 1 + k = 448\<close> modulo 512, and by \<open>l\<close> as 64 bits. On whole bytes the one bit and the first seven zeros are
  the byte \<open>0x80\<close>.
\<close>

definition fips_zero_bits :: "nat \<Rightarrow> nat" where
  "fips_zero_bits l = nat ((448 - (int l + 1)) mod 512)"

definition fips_pad :: "bytes \<Rightarrow> bytes" where
  "fips_pad p = p @ [0x80] @ replicate ((fips_zero_bits (8 * length p) - 7) div 8) 0 @ be_bytes 8 (8 * int (length p))"

definition fips_blocks :: "bytes \<Rightarrow> u32 list list" where
  "fips_blocks m = map (\<lambda>i. map (\<lambda>j. be_word (take 4 (drop (64 * i + 4 * j) m))) [0..<16]) [0..<length m div 64]"

subsection \<open>Hash computation (section 6.1.2)\<close>

definition fips_schedule :: "u32 list \<Rightarrow> u32 list" where
  "fips_schedule M =
     foldl (\<lambda>W t. W @ [word_rotl 1 (W ! (t - 3) XOR W ! (t - 8) XOR W ! (t - 14) XOR W ! (t - 16))]) M [16..<80]"

fun fips_round :: "u32 list \<Rightarrow> u32 \<times> u32 \<times> u32 \<times> u32 \<times> u32 \<Rightarrow> nat \<Rightarrow> u32 \<times> u32 \<times> u32 \<times> u32 \<times> u32" where
  "fips_round W (a, b, c, d, e) t =
     (word_rotl 5 a + fips_f t b c d + e + fips_K t + W ! t, a, word_rotl 30 b, c, d)"

fun fips_add :: "u32 \<times> u32 \<times> u32 \<times> u32 \<times> u32 \<Rightarrow> u32 \<times> u32 \<times> u32 \<times> u32 \<times> u32 \<Rightarrow> u32 \<times> u32 \<times> u32 \<times> u32 \<times> u32" where
  "fips_add (h0, h1, h2, h3, h4) (a, b, c, d, e) = (a + h0, b + h1, c + h2, d + h3, e + h4)"

definition fips_block :: "u32 \<times> u32 \<times> u32 \<times> u32 \<times> u32 \<Rightarrow> u32 list \<Rightarrow> u32 \<times> u32 \<times> u32 \<times> u32 \<times> u32" where
  "fips_block H M = fips_add H (foldl (fips_round (fips_schedule M)) H [0..<80])"

fun fips_digest :: "u32 \<times> u32 \<times> u32 \<times> u32 \<times> u32 \<Rightarrow> bytes" where
  "fips_digest (h0, h1, h2, h3, h4) = concat (map (\<lambda>h. be_bytes 4 (uint h)) [h0, h1, h2, h3, h4])"

definition fips_sha1 :: "bytes \<Rightarrow> bytes" where
  "fips_sha1 p = fips_digest (foldl fips_block fips_H0 (fips_blocks (fips_pad p)))"

text \<open>Two hexadecimal digits per byte, in lower case.\<close>

definition hex_string :: "bytes \<Rightarrow> string" where
  "hex_string bs = concat (map (\<lambda>b. [''0123456789abcdef'' ! (unat b div 16), ''0123456789abcdef'' ! (unat b mod 16)]) bs)"

text \<open>The padding fills whole blocks, and no shorter one does.\<close>

lemma fips_zero_bits_spec: "(l + 1 + fips_zero_bits l) mod 512 = 448" "fips_zero_bits l < 512"
proof -
  define z where "z = (448 - (int l + 1)) mod 512"
  have z: "0 \<le> z" "z < 512" "(int l + 1 + z) mod 512 = 448" by (simp_all add: z_def mod_simps)
  have n: "fips_zero_bits l = nat z" by (simp add: fips_zero_bits_def z_def)
  show "fips_zero_bits l < 512" using z n by linarith
  have "int ((l + 1 + fips_zero_bits l) mod 512) = 448" using z by (simp add: n zmod_int add_ac)
  then show "(l + 1 + fips_zero_bits l) mod 512 = 448" by linarith
qed

subsection \<open>A test vector\<close>

text \<open>
  Words named by the integers they stand for, so that the simplifier computes with numerals below
  \<open>2 ^ 32\<close>.
\<close>

definition word_at :: "int \<Rightarrow> u32" where
  "word_at = word_of_int"

lemma word_at_uint: "0 \<le> x \<Longrightarrow> x < 4294967296 \<Longrightarrow> uint (word_at x) = x"
  by (simp add: word_at_def uint_word_of_int take_bit_eq_mod)

lemma word_at_0: "word_at 0 = 0"
  by (simp add: word_at_def)

lemma word_at_low: "ucast (word_at x) = (word_of_int x :: u8)"
  unfolding word_at_def by transfer simp

lemma word_at_mod: "word_at (x mod 4294967296) = word_at x"
  unfolding word_at_def by transfer (simp add: take_bit_eq_mod)

lemma word_at_plus: "word_at x + word_at y = word_at ((x + y) mod 4294967296)"
  unfolding word_at_mod unfolding word_at_def by simp

lemma word_at_and: "word_at x AND word_at y = word_at (x AND y)"
  unfolding word_at_def by transfer simp

lemma word_at_xor: "word_at x XOR word_at y = word_at (x XOR y)"
  unfolding word_at_def by transfer simp

lemma word_at_not: "NOT (word_at x) = word_at (NOT x mod 4294967296)"
  unfolding word_at_mod unfolding word_at_def by transfer simp

text \<open>A rotation is a shift and the bits that it drops.\<close>

lemma word_rotl_shifts: "0 < n \<Longrightarrow> n < 32 \<Longrightarrow> word_rotl n v = push_bit n v OR drop_bit (32 - n) v" for v :: u32
proof (rule bit_word_eqI)
  fix i assume n: "0 < n" "n < 32" and "i < LENGTH(32)"
  then have i: "i < 32" by simp
  show "bit (word_rotl n v) i = bit (push_bit n v OR drop_bit (32 - n) v) i"
  proof (cases "n \<le> i")
    case True
    then have "(i + (32 - n)) mod 32 = i - n" using n i by (simp add: mod_if)
    then show ?thesis
      using True n i by (auto simp: bit_word_rotl_iff bit_or_iff bit_push_bit_iff bit_drop_bit_eq dest: bit_imp_le_length)
  next
    case False
    then have "(i + (32 - n)) mod 32 = 32 - n + i" using n i by simp
    then show ?thesis
      using False n i by (simp add: bit_word_rotl_iff bit_or_iff bit_push_bit_iff bit_drop_bit_eq)
  qed
qed

lemma word_at_rotl:
  assumes "0 \<le> x" "x < 4294967296" "0 < n" "n < 32"
  shows "word_rotl n (word_at x) = word_at (x * 2 ^ n mod 4294967296 OR x div 2 ^ (32 - n))"
proof -
  have "push_bit n (word_at x) = word_at (x * 2 ^ n)"
    unfolding word_at_def by transfer (simp add: push_bit_eq_mult)
  moreover have "drop_bit (32 - n) (word_at x) = word_at (x div 2 ^ (32 - n))"
    using assms unfolding word_at_def by (transfer fixing: x n) (simp add: take_bit_eq_mod drop_bit_eq_div)
  moreover have "word_at y OR word_at z = word_at (y OR z)" for y z
    unfolding word_at_def by transfer simp
  ultimately show ?thesis using assms by (metis word_rotl_shifts word_at_mod)
qed

lemmas word_at_eval = word_at_plus word_at_and word_at_xor word_at_not word_at_rotl word_at_uint

text \<open>The example of the standard with one block: the message \<open>abc\<close>, its schedule, and its digest.\<close>

definition abc_schedule :: "u32 list" where
  "abc_schedule = map word_at
    [0x61626380, 0, 0, 0, 0, 0, 0, 0,
     0, 0, 0, 0, 0, 0, 0, 0x00000018,
     0xc2c4c700, 0, 0x00000030, 0x85898e01, 0, 0x00000060, 0x0b131c03, 0x00000030,
     0x85898ec1, 0x16263806, 0, 0x00000180, 0x2c4c700c, 0x000000f0, 0x93afb507, 0x5898e048,
     0x8e9a9202, 0x00000600, 0xb131c0f0, 0x16263bc6, 0x4ebed41e, 0x626380a1, 0x16263806, 0x000018c0,
     0xd2e138c4, 0x00000f00, 0x3afb5079, 0x898e04e5, 0xe2ba3c2b, 0x000060c0, 0x053a37cd, 0x74458547,
     0xda9415ed, 0x26380a16, 0x626383a1, 0x4ebf54de, 0x3835b44b, 0x0000f600, 0x1e84c7a3, 0x98e04d98,
     0x651d16a0, 0x62658ca1, 0x458544d6, 0x44584cb7, 0x7ba06619, 0x6380aea2, 0x0ae55269, 0x627b49a1,
     0x7cd45c9d, 0x000f0000, 0xfb50753a, 0xec6765e8, 0xba3c2be2, 0x0060c000, 0x3a37cd05, 0x458546f4,
     0xb8599dd6, 0x380a1a26, 0x01e02203, 0xe7cc3456, 0xe6e60b69, 0x00f60a00, 0x5795ef4f, 0x822e0879]"

lemma abc_schedule: "fips_schedule (map word_at [0x61626380, 0, 0, 0, 0, 0, 0, 0, 0, 0, 0, 0, 0, 0, 0, 24]) = abc_schedule"
  by (simp add: fips_schedule_def abc_schedule_def word_at_eval word_at_0)

lemma abc_constants:
  "fips_H0 = (word_at 0x67452301, word_at 0xefcdab89, word_at 0x98badcfe, word_at 0x10325476, word_at 0xc3d2e1f0)"
  "fips_K t = word_at (if t \<le> 19 then 0x5a827999 else if t \<le> 39 then 0x6ed9eba1 else if t \<le> 59 then 0x8f1bbcdc else 0xca62c1d6)"
  by (simp_all add: fips_H0_def fips_K_def word_at_def)

lemmas fips_eval = word_at_eval abc_constants fips_f_def fips_Ch_def fips_Parity_def fips_Maj_def

lemma abc_rounds_40:
  "foldl (fips_round abc_schedule) fips_H0 (0 # 1 # [2..<40]) =
     (word_at 0x32de1cba, word_at 0x4c986405, word_at 0xf718e5cf, word_at 0x03d447f6, word_at 0xf72eec32)"
  by (simp add: abc_schedule_def fips_eval)

lemma abc_rounds_80:
  "foldl (fips_round abc_schedule)
     (word_at 0x32de1cba, word_at 0x4c986405, word_at 0xf718e5cf, word_at 0x03d447f6, word_at 0xf72eec32) [40..<80] =
     (word_at 0x42541b35, word_at 0x5738d5e1, word_at 0x21834873, word_at 0x681e6df6, word_at 0xd8fdf6ad)"
  by (simp add: abc_schedule_def fips_eval)

lemma fips_sha1_abc: "hex_string (fips_sha1 [97, 98, 99]) = ''a9993e364706816aba3e25717850c26c9cd0d89d''"
proof -
  have "fips_blocks (fips_pad [97, 98, 99]) = [[0x61626380, 0, 0, 0, 0, 0, 0, 0, 0, 0, 0, 0, 0, 0, 0, 24]]" by code_simp
  also have "\<dots> = [map word_at [0x61626380, 0, 0, 0, 0, 0, 0, 0, 0, 0, 0, 0, 0, 0, 0, 24]]" by (simp add: word_at_def)
  finally have blocks: "fips_blocks (fips_pad [97, 98, 99]) = \<dots>" .
  have "[0..<80::nat] = (0 # 1 # [2..<40]) @ [40..<80]" by (simp add: upt_conv_Cons)
  then have "foldl (fips_round abc_schedule) fips_H0 [0..<80] =
      (word_at 0x42541b35, word_at 0x5738d5e1, word_at 0x21834873, word_at 0x681e6df6, word_at 0xd8fdf6ad)"
    by (simp only: foldl_append abc_rounds_40 abc_rounds_80)
  then have "foldl fips_block fips_H0 (fips_blocks (fips_pad [97, 98, 99])) =
      (word_at 0xa9993e36, word_at 0x4706816a, word_at 0xba3e2571, word_at 0x7850c26c, word_at 0x9cd0d89d)"
    unfolding blocks by (simp add: fips_block_def abc_schedule fips_eval del: upt_rec_numeral list.map)
  then show ?thesis by (simp add: fips_sha1_def be_bytes_def word_at_uint word_at_low hex_string_def upt_rec [of _ 4])
qed

end
