(* ===== verification/Kv_Sha1.thy ===== *)
theory Kv_Sha1
  imports Sha1_Standard
begin

unbundle bit_operations_syntax

section \<open>The SHA-1 keying of checkpoint files\<close>

text \<open>
  \<open>ds4_kvstore.c\<close> carries its own SHA-1, fed in chunks through \<open>sha1_init\<close>,
  \<open>sha1_update\<close> and \<open>sha1_final\<close>. The context struct keeps a 64-byte block that is
  only valid up to \<open>used\<close>. This theory translates the five functions and the two
  entry points and shows that the streaming code computes a one-shot function (padding, then
  one compression per 64-byte block), whatever the chunking and whatever the uninitialised
  block held, and that this function is the one that the theory \<open>Sha1_Standard\<close> takes from FIPS 180-4.
\<close>

record sha1_ctx =
  sc_h :: "u32 list"
  sc_bytes :: u64
  sc_block :: bytes
  sc_used :: nat

definition rol32 :: "u32 \<Rightarrow> nat \<Rightarrow> u32" where
  "rol32 v n = push_bit n v OR drop_bit (32 - n) v"

subsection \<open>Compression of one block\<close>

definition sha1_be32 :: "bytes \<Rightarrow> nat \<Rightarrow> u32" where
  "sha1_be32 block i =
     push_bit 24 (ucast (block ! (i * 4))) OR push_bit 16 (ucast (block ! (i * 4 + 1))) OR
     push_bit 8 (ucast (block ! (i * 4 + 2))) OR ucast (block ! (i * 4 + 3))"

fun sha1_extend :: "nat \<Rightarrow> u32 list \<Rightarrow> u32 list" where
  "sha1_extend 0 w = w"
| "sha1_extend (Suc n) w =
     (let i = length w
      in sha1_extend n
           (w @ [rol32 (w ! (i - 3) XOR w ! (i - 8) XOR w ! (i - 14) XOR w ! (i - 16)) 1]))"

definition sha1_schedule :: "bytes \<Rightarrow> u32 list" where
  "sha1_schedule block = sha1_extend 64 (map (sha1_be32 block) [0..<16])"

fun sha1_rounds :: "nat \<Rightarrow> u32 list \<Rightarrow> u32 \<times> u32 \<times> u32 \<times> u32 \<times> u32 \<Rightarrow>
    u32 \<times> u32 \<times> u32 \<times> u32 \<times> u32" where
  "sha1_rounds i [] s = s"
| "sha1_rounds i (x # w) (a, b, cc, d, e) =
     (let (f, k) =
        (if i < 20 then ((b AND cc) OR ((NOT b) AND d), 0x5a827999)
         else if i < 40 then (b XOR cc XOR d, 0x6ed9eba1)
         else if i < 60 then ((b AND cc) OR (b AND d) OR (cc AND d), 0x8f1bbcdc)
         else (b XOR cc XOR d, 0xca62c1d6));
        tmp = rol32 a 5 + f + e + k + x
      in sha1_rounds (Suc i) w (tmp, a, rol32 b 30, cc, d))"

definition sha1_transform :: "u32 list \<Rightarrow> bytes \<Rightarrow> u32 list" where
  "sha1_transform h block =
     (let (a, b, cc, d, e) =
        sha1_rounds 0 (sha1_schedule block) (h ! 0, h ! 1, h ! 2, h ! 3, h ! 4)
      in [h ! 0 + a, h ! 1 + b, h ! 2 + cc, h ! 3 + d, h ! 4 + e])"

subsection \<open>The streaming interface\<close>

definition sha1_init :: "sha1_ctx \<Rightarrow> sha1_ctx" where
  "sha1_init c = c\<lparr>sc_h := [0x67452301, 0xefcdab89, 0x98badcfe, 0x10325476, 0xc3d2e1f0],
     sc_bytes := 0, sc_used := 0\<rparr>"

text \<open>
  One turn of the copy loop of \<open>sha1_update\<close>: \<open>memcpy\<close> of as many bytes as the block
  has room for, then a compression when the block is full. A context with
  \<open>used > 64\<close> never arises; the loop is left there.
\<close>

function sha1_feed :: "sha1_ctx \<Rightarrow> bytes \<Rightarrow> sha1_ctx" where
  "sha1_feed c p =
     (if p = [] \<or> 64 < sc_used c then c
      else let n = min (64 - sc_used c) (length p);
               blk = take (sc_used c) (sc_block c) @ take n p @ drop (sc_used c + n) (sc_block c);
               used = sc_used c + n
           in if used = 64
              then sha1_feed (c\<lparr>sc_block := blk, sc_h := sha1_transform (sc_h c) blk, sc_used := 0\<rparr>)
                     (drop n p)
              else sha1_feed (c\<lparr>sc_block := blk, sc_used := used\<rparr>) (drop n p))"
  by pat_completeness auto
termination
  by (relation "measures [\<lambda>(c, p). length p, \<lambda>(c, p). sc_used c]") auto

declare sha1_feed.simps [simp del]

definition sha1_update :: "sha1_ctx \<Rightarrow> bytes \<Rightarrow> sha1_ctx" where
  "sha1_update c p = sha1_feed (c\<lparr>sc_bytes := sc_bytes c + of_nat (length p)\<rparr>) p"

text \<open>The loop \<open>while (c->used != 56) sha1_update(c, &zero, 1)\<close> of \<open>sha1_final\<close>.\<close>

lemma sha1_feed_one:
  assumes "sc_used c < 64"
  shows "sha1_feed c [x] =
    (let blk = take (sc_used c) (sc_block c) @ [x] @ drop (sc_used c + 1) (sc_block c)
     in if sc_used c = 63
        then c\<lparr>sc_block := blk, sc_h := sha1_transform (sc_h c) blk, sc_used := 0\<rparr>
        else c\<lparr>sc_block := blk, sc_used := sc_used c + 1\<rparr>)"
  using assms
  by (subst sha1_feed.simps, subst sha1_feed.simps, subst (2) sha1_feed.simps) (auto simp: Let_def)

lemma sc_used_update_one:
  "sc_used c < 64 \<Longrightarrow> sc_used (sha1_update c [x]) = (if sc_used c = 63 then 0 else sc_used c + 1)"
  by (simp add: sha1_update_def sha1_feed_one Let_def)

function sha1_pad_zeros :: "sha1_ctx \<Rightarrow> sha1_ctx" where
  "sha1_pad_zeros c =
     (if sc_used c = 56 \<or> 64 \<le> sc_used c then c else sha1_pad_zeros (sha1_update c [0]))"
  by pat_completeness auto
termination
  by (relation "measure (\<lambda>c. if sc_used c \<le> 56 then 56 - sc_used c else 120 - sc_used c)")
    (auto simp: sc_used_update_one)

declare sha1_pad_zeros.simps [simp del]

definition sha1_be64 :: "u64 \<Rightarrow> bytes" where
  "sha1_be64 bits = rev (map (\<lambda>i. ucast (drop_bit (8 * i) bits)) [0..<8])"

definition sha1_digest :: "u32 list \<Rightarrow> bytes" where
  "sha1_digest h =
     concat (map (\<lambda>x. [ucast (drop_bit 24 x), ucast (drop_bit 16 x), ucast (drop_bit 8 x), ucast x]) h)"

definition sha1_final :: "sha1_ctx \<Rightarrow> bytes" where
  "sha1_final c =
     (let bits = sc_bytes c * 8;
          c1 = sha1_update c [0x80];
          c2 = sha1_pad_zeros c1;
          c3 = sha1_update c2 (sha1_be64 bits)
      in sha1_digest (sc_h c3))"

definition hex20 :: "bytes \<Rightarrow> string" where
  "hex20 bs = concat (map (\<lambda>b. [''0123456789abcdef'' ! unat (drop_bit 4 b),
     ''0123456789abcdef'' ! unat (b AND 15)]) bs)"

text \<open>
  \<open>ds4_kvstore_sha1_bytes_hex\<close> runs on a stack context that starts uninitialised:
  \<open>sha1_junk\<close> stands for what the stack holds.
\<close>

definition sha1_junk :: sha1_ctx where
  "sha1_junk = \<lparr>sc_h = [], sc_bytes = 0, sc_block = replicate 64 0, sc_used = 0\<rparr>"

definition sha1_bytes_hex_from :: "sha1_ctx \<Rightarrow> bytes \<Rightarrow> string" where
  "sha1_bytes_hex_from c p = hex20 (sha1_final (sha1_update (sha1_init c) p))"

definition sha1_bytes_hex :: "bytes \<Rightarrow> string" where
  "sha1_bytes_hex p = sha1_bytes_hex_from sha1_junk p"

subsection \<open>The one-shot function\<close>

text \<open>
  The compressions of the complete 64-byte blocks of a byte string, the
  bytes left over, and the padded message.
\<close>

function sha1_absorb :: "u32 list \<Rightarrow> bytes \<Rightarrow> u32 list" where
  "sha1_absorb h p =
     (if length p < 64 then h else sha1_absorb (sha1_transform h (take 64 p)) (drop 64 p))"
  by pat_completeness auto
termination
  by (relation "measure (length \<circ> snd)") auto

declare sha1_absorb.simps [simp del]

definition sha1_left :: "bytes \<Rightarrow> bytes" where
  "sha1_left p = drop (64 * (length p div 64)) p"

definition sha1_pad :: "bytes \<Rightarrow> bytes" where
  "sha1_pad p = p @ [0x80] @ replicate ((119 - length p mod 64) mod 64) 0 @
     sha1_be64 (of_nat (length p) * 8)"

definition sha1_iv :: "u32 list" where
  "sha1_iv = [0x67452301, 0xefcdab89, 0x98badcfe, 0x10325476, 0xc3d2e1f0]"

definition sha1_reference :: "bytes \<Rightarrow> bytes" where
  "sha1_reference p = sha1_digest (sha1_absorb sha1_iv (sha1_pad p))"

lemma sha1_absorb_short: "length p < 64 \<Longrightarrow> sha1_absorb h p = h"
  by (simp add: sha1_absorb.simps)

lemma sha1_absorb_block:
  "length b = 64 \<Longrightarrow> sha1_absorb h (b @ p) = sha1_absorb (sha1_transform h b) p"
  by (subst sha1_absorb.simps) simp

lemma sha1_left_short: "length p < 64 \<Longrightarrow> sha1_left p = p"
  by (simp add: sha1_left_def)

lemma sha1_left_blocks: "64 dvd length b \<Longrightarrow> sha1_left (b @ p) = sha1_left p"
  by (auto simp: sha1_left_def elim!: dvdE)

lemma sha1_left_block: "length b = 64 \<Longrightarrow> sha1_left (b @ p) = sha1_left p"
  by (rule sha1_left_blocks) simp

lemma length_sha1_left: "length (sha1_left p) = length p mod 64"
  by (simp add: sha1_left_def minus_mult_div_eq_mod)

lemma sha1_absorb_append:
  "sha1_absorb h (p @ q) = sha1_absorb (sha1_absorb h p) (sha1_left p @ q)"
proof (induction h p rule: sha1_absorb.induct)
  case (1 h p)
  show ?case
  proof (cases "length p < 64")
    case True
    then show ?thesis by (simp add: sha1_absorb_short sha1_left_short)
  next
    case False
    define b where "b = take 64 p"
    define r where "r = drop 64 p"
    have p: "p = b @ r" and b: "length b = 64"
      using False by (simp_all add: b_def r_def)
    have "sha1_absorb (sha1_transform h b) (r @ q) =
        sha1_absorb (sha1_absorb (sha1_transform h b) r) (sha1_left r @ q)"
      using "1.IH" [OF False] by (simp add: b_def r_def)
    then show ?thesis
      by (simp add: p sha1_absorb_block sha1_left_block b)
  qed
qed

lemma sha1_left_append: "sha1_left (sha1_left p @ q) = sha1_left (p @ q)"
proof -
  define b where "b = take (64 * (length p div 64)) p"
  have p: "p = b @ sha1_left p"
    by (simp add: b_def sha1_left_def)
  have "64 * (length p div 64) \<le> length p" by simp
  then have "64 dvd length b" by (simp add: b_def min_absorb2)
  then have "sha1_left (b @ (sha1_left p @ q)) = sha1_left (sha1_left p @ q)"
    by (simp only: sha1_left_blocks)
  then show ?thesis
    using p by (metis append.assoc)
qed

lemma sha1_absorb_append3:
  "sha1_absorb h (p @ q @ r) = sha1_absorb (sha1_absorb h (p @ q)) (sha1_left (p @ q) @ r)"
  using sha1_absorb_append [of h "p @ q" r] by simp

lemma sha1_left_append3: "sha1_left (p @ q @ r) = sha1_left (sha1_left (p @ q) @ r)"
  using sha1_left_append [of "p @ q" r] by simp

subsection \<open>The streaming code refines it\<close>

text \<open>
  A context stands for its chaining value, the bytes pending in the block and the byte
  count. Bytes of the block past \<open>used\<close> are stale and do not count.
\<close>

definition sha1_ok :: "sha1_ctx \<Rightarrow> bool" where
  "sha1_ok c \<longleftrightarrow> length (sc_block c) = 64 \<and> sc_used c < 64"

definition sc_pending :: "sha1_ctx \<Rightarrow> bytes" where
  "sc_pending c = take (sc_used c) (sc_block c)"

lemma length_sc_pending: "sha1_ok c \<Longrightarrow> length (sc_pending c) = sc_used c"
  by (simp add: sha1_ok_def sc_pending_def)


lemma sha1_feed_refines:
  assumes "sha1_ok c"
  shows "sha1_ok (sha1_feed c p) \<and>
    sc_h (sha1_feed c p) = sha1_absorb (sc_h c) (sc_pending c @ p) \<and>
    sc_pending (sha1_feed c p) = sha1_left (sc_pending c @ p) \<and>
    sc_bytes (sha1_feed c p) = sc_bytes c"
  using assms
proof (induction c p rule: sha1_feed.induct)
  case (1 c p)
  note ok = "1.prems"
  define n where "n = min (64 - sc_used c) (length p)"
  define blk where "blk = take (sc_used c) (sc_block c) @ take n p @ drop (sc_used c + n) (sc_block c)"
  have used: "sc_used c < 64" and lb: "length (sc_block c) = 64"
    using ok by (simp_all add: sha1_ok_def)
  have blk64: "length blk = 64"
    using used lb by (simp add: blk_def n_def)
  consider (empty) "p = []" | (full) "p \<noteq> []" "sc_used c + n = 64"
    | (part) "p \<noteq> []" "sc_used c + n \<noteq> 64" by blast
  then show ?case
  proof cases
    case empty
    then have "sha1_feed c p = c" by (simp add: sha1_feed.simps)
    then show ?thesis
      using ok empty used length_sc_pending [OF ok] by (simp add: sha1_absorb_short sha1_left_short)
  next
    case full
    define c' where "c' = c\<lparr>sc_block := blk, sc_h := sha1_transform (sc_h c) blk, sc_used := 0\<rparr>"
    have step: "sha1_feed c p = sha1_feed c' (drop n p)"
      using full used by (subst sha1_feed.simps) (simp add: Let_def n_def blk_def c'_def)
    have ok': "sha1_ok c'" and pend: "sc_pending c' = []"
      and hc': "sc_h c' = sha1_transform (sc_h c) blk" and bc': "sc_bytes c' = sc_bytes c"
      using blk64 by (simp_all add: c'_def sha1_ok_def sc_pending_def)
    have blk: "blk = sc_pending c @ take n p"
      using full lb by (simp add: blk_def sc_pending_def)
    then have split: "sc_pending c @ p = blk @ drop n p" by simp
    have "sc_used c \<le> 64" using used by simp
    from "1.IH"(1) [OF _ n_def blk_def refl full(2)] ok' full(1) used
    have "sha1_ok (sha1_feed c' (drop n p)) \<and>
      sc_h (sha1_feed c' (drop n p)) = sha1_absorb (sc_h c') (sc_pending c' @ drop n p) \<and>
      sc_pending (sha1_feed c' (drop n p)) = sha1_left (sc_pending c' @ drop n p) \<and>
      sc_bytes (sha1_feed c' (drop n p)) = sc_bytes c'"
      by (simp add: c'_def)
    then show ?thesis
      unfolding step split
      by (simp add: pend hc' bc' sha1_absorb_block sha1_left_block blk64)
  next
    case part
    then have n: "n = length p" and small: "sc_used c + length p < 64"
      using used by (auto simp: n_def min_def split: if_splits)
    define c' where "c' = c\<lparr>sc_block := blk, sc_used := sc_used c + n\<rparr>"
    have "sha1_feed c p = c'"
      using part used n by (subst sha1_feed.simps, subst sha1_feed.simps)
        (simp add: Let_def n_def blk_def c'_def)
    moreover have "sc_pending c' = sc_pending c @ p"
      using n small lb by (simp add: c'_def sc_pending_def blk_def)
    moreover have "length (sc_pending c @ p) < 64"
      using small length_sc_pending [OF ok] by simp
    ultimately show ?thesis
      using blk64 small n by (simp add: c'_def sha1_ok_def sha1_absorb_short sha1_left_short)
  qed
qed

lemma sha1_update_refines:
  assumes "sha1_ok c"
  shows "sha1_ok (sha1_update c p)"
    and "sc_h (sha1_update c p) = sha1_absorb (sc_h c) (sc_pending c @ p)"
    and "sc_pending (sha1_update c p) = sha1_left (sc_pending c @ p)"
    and "sc_bytes (sha1_update c p) = sc_bytes c + of_nat (length p)"
proof -
  let ?c = "c\<lparr>sc_bytes := sc_bytes c + of_nat (length p)\<rparr>"
  have "sha1_ok ?c" and "sc_pending ?c = sc_pending c"
    using assms by (simp_all add: sha1_ok_def sc_pending_def)
  then show "sha1_ok (sha1_update c p)"
    and "sc_h (sha1_update c p) = sha1_absorb (sc_h c) (sc_pending c @ p)"
    and "sc_pending (sha1_update c p) = sha1_left (sc_pending c @ p)"
    and "sc_bytes (sha1_update c p) = sc_bytes c + of_nat (length p)"
    using sha1_feed_refines [of ?c p] by (simp_all add: sha1_update_def)
qed

lemmas sha1_update_ok = sha1_update_refines(1)

text \<open>The padding loop ends at 56 pending bytes and has fed exactly the missing zeros.\<close>

definition sha1_zeros :: "nat \<Rightarrow> nat" where
  "sha1_zeros used = (120 - used) mod 64"

lemma sha1_zeros_step:
  "used < 64 \<Longrightarrow> used \<noteq> 56 \<Longrightarrow>
    sha1_zeros used = Suc (sha1_zeros (if used = 63 then 0 else used + 1))"
  unfolding sha1_zeros_def by (cases "used < 56") (auto simp: mod_if)

lemma sha1_pad_zeros_refines:
  assumes "sha1_ok c"
  shows "sha1_ok (sha1_pad_zeros c) \<and> sc_used (sha1_pad_zeros c) = 56 \<and>
    sc_h (sha1_pad_zeros c) =
      sha1_absorb (sc_h c) (sc_pending c @ replicate (sha1_zeros (sc_used c)) 0) \<and>
    sc_pending (sha1_pad_zeros c) = sha1_left (sc_pending c @ replicate (sha1_zeros (sc_used c)) 0)"
  using assms
proof (induction c rule: sha1_pad_zeros.induct)
  case (1 c)
  have used: "sc_used c < 64" using "1.prems" by (simp add: sha1_ok_def)
  show ?case
  proof (cases "sc_used c = 56")
    case True
    then have "sha1_pad_zeros c = c" by (simp add: sha1_pad_zeros.simps)
    moreover have "length (sc_pending c) < 64" using used length_sc_pending [OF "1.prems"] by simp
    ultimately show ?thesis
      using True "1.prems" by (simp add: sha1_zeros_def sha1_absorb_short sha1_left_short)
  next
    case False
    let ?c = "sha1_update c [0]"
    have step: "sha1_pad_zeros c = sha1_pad_zeros ?c"
      using False used by (subst sha1_pad_zeros.simps) simp
    have ok: "sha1_ok ?c" using "1.prems" by (rule sha1_update_ok)
    have z: "sha1_zeros (sc_used c) = Suc (sha1_zeros (sc_used ?c))"
      using sha1_zeros_step [OF used False] used by (simp add: sc_used_update_one)
    have "\<not> (sc_used c = 56 \<or> 64 \<le> sc_used c)" using False used by simp
    note IH = "1.IH" [OF this ok]
    have rep: "sc_pending c @ replicate (Suc (sha1_zeros (sc_used ?c))) 0 =
      sc_pending c @ [0] @ replicate (sha1_zeros (sc_used ?c)) 0" by simp
    show ?thesis
      unfolding step z rep sha1_absorb_append3 sha1_left_append3
      using IH by (simp only: sha1_update_refines(2,3) [OF "1.prems"])
  qed
qed

lemma sha1_final_refines:
  assumes "sha1_ok c" and "sc_h c = sha1_absorb sha1_iv p" and "sc_pending c = sha1_left p"
    and "sc_bytes c = of_nat (length p)"
  shows "sha1_final c = sha1_reference p"
proof -
  let ?c1 = "sha1_update c [0x80]"
  let ?c2 = "sha1_pad_zeros ?c1"
  let ?k = "sha1_zeros (sc_used ?c1)"
  let ?len = "sha1_be64 (sc_bytes c * 8)"
  let ?c3 = "sha1_update ?c2 ?len"
  have ok1: "sha1_ok ?c1" using assms(1) by (rule sha1_update_ok)
  have h1: "sc_h ?c1 = sha1_absorb sha1_iv (p @ [0x80])"
    using sha1_update_refines(2) [OF assms(1), of "[0x80]"]
    by (simp add: assms(2,3) sha1_absorb_append [of _ p])
  have p1: "sc_pending ?c1 = sha1_left (p @ [0x80])"
    using sha1_update_refines(3) [OF assms(1), of "[0x80]"] by (simp add: assms(3) sha1_left_append)
  note pad = sha1_pad_zeros_refines [OF ok1, unfolded h1 p1]
  have ok2: "sha1_ok ?c2" using pad by blast
  have h2: "sc_h ?c2 = sha1_absorb sha1_iv (p @ [0x80] @ replicate ?k 0)"
    using pad unfolding sha1_absorb_append3 by blast
  have p2: "sc_pending ?c2 = sha1_left (p @ [0x80] @ replicate ?k 0)"
    using pad unfolding sha1_left_append3 by blast
  have h3: "sc_h ?c3 = sha1_absorb sha1_iv ((p @ [0x80] @ replicate ?k 0) @ ?len)"
    using sha1_update_refines(2) [OF ok2, of ?len]
    unfolding h2 p2 sha1_absorb_append [of _ "p @ [0x80] @ replicate ?k 0"] .
  have "length (sc_pending ?c1) = sc_used ?c1" using ok1 by (rule length_sc_pending)
  then have "sc_used ?c1 = Suc (length p) mod 64"
    unfolding p1 length_sha1_left by simp
  then have "?k = (119 - length p mod 64) mod 64"
    unfolding sha1_zeros_def by (cases "length p mod 64 = 63") (simp_all add: mod_Suc)
  then show ?thesis
    using h3 by (simp add: sha1_final_def sha1_reference_def sha1_pad_def Let_def assms(4))
qed

lemma sha1_init_refines:
  assumes "length (sc_block c) = 64"
  shows "sha1_ok (sha1_init c)" and "sc_h (sha1_init c) = sha1_iv"
    and "sc_pending (sha1_init c) = []" and "sc_bytes (sha1_init c) = 0"
  using assms by (simp_all add: sha1_init_def sha1_iv_def sha1_ok_def sc_pending_def)

lemma sha1_final_init:
  assumes "length (sc_block c) = 64"
  shows "sha1_final (sha1_update (sha1_init c) p) = sha1_reference p"
proof -
  note init = sha1_init_refines [OF assms]
  note upd = sha1_update_refines [OF init(1), of p, unfolded init(2-4) append_Nil add_0_left]
  show ?thesis by (rule sha1_final_refines [OF upd])
qed

lemma length_sha1_pad: "64 dvd length (sha1_pad p)"
proof -
  define r where "r = length p mod 64"
  have r: "r < 64" by (simp add: r_def)
  have "length p = 64 * (length p div 64) + r" by (simp add: r_def)
  moreover have "length (sha1_pad p) = length p + 9 + (119 - r) mod 64"
    by (simp add: sha1_pad_def sha1_be64_def r_def)
  moreover have "(119 - r) mod 64 = (if r \<le> 55 then 55 - r else 119 - r)"
  proof (cases "r \<le> 55")
    case True
    then have "119 - r = 64 + (55 - r)" by simp
    then have "(119 - r) mod 64 = (55 - r) mod 64" by (metis mod_add_self1)
    then show ?thesis using True by simp
  next
    case False
    then show ?thesis using r by simp
  qed
  ultimately have "length (sha1_pad p) = 64 * (length p div 64 + (if r \<le> 55 then 1 else 2))"
    using r by auto
  then show ?thesis by simp
qed

subsection \<open>The one-shot function is the standard's\<close>

lemma rol32_rotl: "0 < n \<Longrightarrow> n < 32 \<Longrightarrow> rol32 v n = word_rotl n v"
  by (simp add: rol32_def word_rotl_shifts)

lemma choose_eq: "(x AND y) OR (NOT x AND z) = fips_Ch x y z"
  by (rule bit_word_eqI) (auto simp: fips_Ch_def bit_and_iff bit_or_iff bit_xor_iff bit_not_iff)

lemma majority_eq: "(x AND y) OR (x AND z) OR (y AND z) = fips_Maj x y z"
  by (rule bit_word_eqI) (auto simp: fips_Maj_def bit_and_iff bit_or_iff bit_xor_iff)

lemma sha1_rounds_fips:
  "length W \<le> 80 \<Longrightarrow> sha1_rounds i (drop i W) s = foldl (fips_round W) s [i..<length W]"
proof (induction "length W - i" arbitrary: i s)
  case 0
  then show ?case by simp
next
  case (Suc n)
  obtain a b cc d e where s: "s = (a, b, cc, d, e)" by (metis prod_cases5)
  have i: "i < length W" using Suc.hyps(2) by simp
  then have "sha1_rounds i (drop i W) s = sha1_rounds (Suc i) (drop (Suc i) W) (fips_round W s i)"
    by (simp add: s Cons_nth_drop_Suc [symmetric] choose_eq majority_eq rol32_rotl fips_f_def fips_K_def fips_Parity_def Let_def)
  also have "\<dots> = foldl (fips_round W) (fips_round W s i) [Suc i..<length W]"
    using Suc.hyps Suc.prems i by simp
  finally show ?case using i by (simp add: upt_conv_Cons)
qed

lemma sha1_extend_fips:
  "sha1_extend n w = foldl (\<lambda>W t. W @ [word_rotl 1 (W ! (t - 3) XOR W ! (t - 8) XOR W ! (t - 14) XOR W ! (t - 16))]) w
     [length w..<length w + n]"
  by (induction n arbitrary: w) (simp_all add: rol32_rotl Let_def upt_conv_Cons del: upt_Suc)

lemma length_sha1_extend: "length (sha1_extend n w) = length w + n"
  by (induction n arbitrary: w) (simp_all add: Let_def)

lemma add_byte: "w * 256 + ucast b = push_bit 8 w OR ucast b" for w :: u32 and b :: u8
proof -
  have "push_bit 8 w AND ucast b = 0"
    by (rule bit_word_eqI) (auto simp: bit_and_iff bit_push_bit_iff bit_ucast_iff dest: bit_imp_le_length)
  then have "push_bit 8 w + ucast b = push_bit 8 w OR ucast b" by (rule disjunctive_add_eq_or [THEN trans]) simp
  then show ?thesis by (simp add: push_bit_eq_mult)
qed

lemma sha1_be32_fips:
  assumes "4 * i + 4 \<le> length b"
  shows "sha1_be32 b i = be_word (take 4 (drop (4 * i) b))"
proof -
  have "take 4 (drop (4 * i) b) = [b ! (4 * i), b ! (4 * i + 1), b ! (4 * i + 2), b ! (4 * i + 3)]"
    using assms by (intro nth_equalityI) (auto simp: less_Suc_eq numeral_eq_Suc nth_Cons')
  then show ?thesis
    by (simp add: be_word_def sha1_be32_def add_byte push_bit_or push_bit_push_bit or.assoc mult.commute)
qed

text \<open>The five words of the code's array.\<close>

definition sha1_chain :: "u32 list \<Rightarrow> u32 \<times> u32 \<times> u32 \<times> u32 \<times> u32" where
  "sha1_chain h = (h ! 0, h ! 1, h ! 2, h ! 3, h ! 4)"

lemma sha1_transform_fips:
  assumes "length b = 64"
  shows "sha1_chain (sha1_transform h b) = fips_block (sha1_chain h) (map (\<lambda>j. be_word (take 4 (drop (4 * j) b))) [0..<16])"
proof -
  define M where "M = map (\<lambda>j. be_word (take 4 (drop (4 * j) b))) [0..<16]"
  have M: "map (sha1_be32 b) [0..<16] = M" using assms by (auto simp: M_def intro!: sha1_be32_fips)
  have len: "length M = 16" by (simp add: M_def)
  have n: "16 + 64 = (80::nat)" by simp
  note ext = sha1_extend_fips [of 64 M, unfolded len n] and l80 = length_sha1_extend [of 64 M, unfolded len n]
  have W: "sha1_schedule b = fips_schedule M" by (simp only: sha1_schedule_def M fips_schedule_def ext)
  have len: "length (fips_schedule M) = 80" using l80 by (simp only: fips_schedule_def ext)
  have rounds: "sha1_rounds 0 (fips_schedule M) s = foldl (fips_round (fips_schedule M)) s [0..<80]" for s
    using sha1_rounds_fips [of "fips_schedule M" 0 s] by (simp only: len drop_0 order_refl simp_thms)
  obtain a b' c d e where r: "foldl (fips_round (fips_schedule M)) (sha1_chain h) [0..<80] = (a, b', c, d, e)" by (metis prod_cases5)
  have "sha1_chain (sha1_transform h b) = fips_add (sha1_chain h) (a, b', c, d, e)"
    by (simp only: sha1_transform_def W sha1_chain_def [of h, symmetric] rounds r Let_def prod.case)
      (simp add: sha1_chain_def add.commute)
  then show ?thesis by (simp only: fips_block_def r M_def [symmetric])
qed

lemma fips_blocks_step:
  assumes "64 \<le> length m"
  shows "fips_blocks m = map (\<lambda>j. be_word (take 4 (drop (4 * j) (take 64 m)))) [0..<16] # fips_blocks (drop 64 m)"
proof -
  have n: "length m div 64 = Suc (length (drop 64 m) div 64)" using assms by (simp add: le_div_geq)
  have "take 4 (drop (4 * j) (take 64 m)) = take 4 (drop (4 * j) m)" if "j < 16" for j
    using that by (simp add: drop_take min_def)
  then have head: "map (\<lambda>j. be_word (take 4 (drop (4 * j) m))) [0..<16] = map (\<lambda>j. be_word (take 4 (drop (4 * j) (take 64 m)))) [0..<16]"
    by (intro map_cong) simp_all
  show ?thesis
    unfolding fips_blocks_def n head [symmetric]
    by (simp add: upt_conv_Cons map_Suc_upt [symmetric] add.assoc [symmetric] comp_def del: upt_Suc upt_rec_numeral)
      (simp add: add.commute add.left_commute del: upt_rec_numeral)
qed

lemma sha1_absorb_fips: "sha1_chain (sha1_absorb h p) = foldl fips_block (sha1_chain h) (fips_blocks p)"
proof (induction h p rule: sha1_absorb.induct)
  case (1 h p)
  then show ?case
  proof (cases "length p < 64")
    case False
    then show ?thesis
      using "1.IH" [OF False] by (subst sha1_absorb.simps) (simp add: fips_blocks_step sha1_transform_fips)
  qed (simp add: sha1_absorb_short fips_blocks_def)
qed

text \<open>The bytes of a word and of the length field.\<close>

lemma low_byte: "k + 8 \<le> LENGTH('a) \<Longrightarrow> (ucast (drop_bit k (word_of_int x :: 'a::len word)) :: u8) = word_of_int (x div 2 ^ k)"
  by transfer (auto intro!: bit_eqI simp: bit_simps drop_bit_eq_div [symmetric])

lemma sha1_digest_fips:
  assumes "length h = 5"
  shows "sha1_digest h = fips_digest (sha1_chain h)"
proof -
  have four: "[0..<4] = [0, 1, 2, 3::nat]" by code_simp
  have "ucast (drop_bit k x) = (word_of_int (uint x div 2 ^ k) :: u8)" if "k \<le> 24" for k and x :: u32
    using low_byte [where 'a = 32, of k "uint x"] that by simp
  from this [of 24] this [of 16] this [of 8] this [of 0]
  have "[ucast (drop_bit 24 x), ucast (drop_bit 16 x), ucast (drop_bit 8 x), ucast x] = be_bytes 4 (uint x)" for x :: u32
    by (simp add: be_bytes_def four)
  moreover have "h = [h ! 0, h ! 1, h ! 2, h ! 3, h ! 4]"
    using assms by (intro nth_equalityI) (auto simp: less_Suc_eq numeral_eq_Suc)
  ultimately show ?thesis unfolding sha1_digest_def sha1_chain_def fips_digest.simps by (metis (no_types, lifting) map_cong)
qed

lemma sha1_be64_fips: "sha1_be64 (of_nat n * 8) = be_bytes 8 (8 * int n)"
proof -
  have eight: "[0..<8] = [0, 1, 2, 3, 4, 5, 6, 7::nat]" by code_simp
  have "sha1_be64 (word_of_int x) = be_bytes 8 x" for x
    unfolding sha1_be64_def be_bytes_def eight using low_byte [where 'a = 64, of 0 x] by (simp add: low_byte)
  from this [of "8 * int n"] show ?thesis by (simp add: mult.commute)
qed

lemma sha1_pad_fips: "sha1_pad p = fips_pad p"
proof -
  define r where "r = length p mod 64"
  define z where "z = (448 - (8 * int (length p) + 1)) mod 512"
  have r: "r < 64" by (simp add: r_def)
  have "int (length p) = 64 * int (length p div 64) + int r" by (simp add: r_def zmod_int zdiv_int)
  then have "z = (447 - 8 * int r + 512 * (- int (length p div 64))) mod 512" unfolding z_def by (simp add: algebra_simps)
  then have z: "z = (447 - 8 * int r) mod 512" by (simp only: mod_mult_self2)
  have "(nat z - 7) div 8 = (119 - r) mod 64"
  proof (cases "r \<le> 55")
    case True
    then have "z = 447 - 8 * int r" unfolding z by (intro mod_pos_pos_trivial) auto
    then have "(nat z - 7) div 8 = 55 - r" using True by (simp add: nat_diff_distrib)
    moreover have "119 - r = 55 - r + 64" using True by simp
    then have "(119 - r) mod 64 = 55 - r" using True by (simp only: mod_add_self2) simp
    ultimately show ?thesis by simp
  next
    case False
    have "z = (447 - 8 * int r + 512) mod 512" unfolding z by (simp only: mod_add_self2)
    also have "\<dots> = 959 - 8 * int r" using False r by (subst mod_pos_pos_trivial) auto
    finally have "(nat z - 7) div 8 = 119 - r" using False r by (simp add: nat_diff_distrib)
    then show ?thesis using False r by simp
  qed
  then show ?thesis
    by (simp add: sha1_pad_def fips_pad_def sha1_be64_fips fips_zero_bits_def r_def z_def)
qed

lemma length_sha1_transform: "length (sha1_transform h b) = 5"
  by (simp add: sha1_transform_def split: prod.splits)

lemma length_sha1_absorb: "length h = 5 \<Longrightarrow> length (sha1_absorb h p) = 5"
  by (induction h p rule: sha1_absorb.induct) (subst sha1_absorb.simps, simp add: length_sha1_transform)

lemma sha1_reference_fips: "sha1_reference p = fips_sha1 p"
proof -
  have "length sha1_iv = 5" "sha1_chain sha1_iv = fips_H0" by (simp_all add: sha1_iv_def sha1_chain_def fips_H0_def)
  then show ?thesis
    by (simp add: sha1_reference_def fips_sha1_def sha1_digest_fips length_sha1_absorb sha1_absorb_fips sha1_pad_fips)
qed

lemma hex20_fips: "hex20 bs = hex_string bs"
proof -
  have "b AND 15 = take_bit 4 b" for b :: u8 by (simp add: take_bit_eq_mask mask_numeral)
  then have "unat (b AND 15) = unat b mod 16" for b :: u8 by (simp add: take_bit_eq_mod unat_mod)
  moreover have "unat (drop_bit 4 b) = unat b div 16" for b :: u8 by (simp add: drop_bit_eq_div unat_div)
  ultimately show ?thesis by (simp add: hex20_def hex_string_def)
qed

text \<open>
  C39. \<open>ds4_kvstore_sha1_bytes_hex\<close> computes SHA-1: for every byte string and whatever
  the uninitialised context on the stack held (only its block has its 64 bytes), the hex
  string is that of the digest of FIPS 180-4, as the theory \<open>Sha1_Standard\<close> states it
  independently of the code: padding, schedule, rounds, constants and byte order.
\<close>

theorem sha1_bytes_hex_correct:
  assumes "length (sc_block c) = 64"
  shows "sha1_bytes_hex_from c p = hex_string (fips_sha1 p)"
  by (simp add: sha1_bytes_hex_from_def sha1_final_init assms sha1_reference_fips hex20_fips)

text \<open>The test vector of the standard, run through the code's streaming functions.\<close>

theorem sha1_bytes_hex_correct_witness:
  "sha1_bytes_hex_from sha1_junk [97, 98, 99] = ''a9993e364706816aba3e25717850c26c9cd0d89d''"
  using sha1_bytes_hex_correct [of sha1_junk "[97, 98, 99]"] by (simp add: sha1_junk_def fips_sha1_abc)

text \<open>
  Chunking does not matter: hashing a byte string fed in any two pieces gives the
  digest of the concatenation, for every context in a legal state.
\<close>

theorem sha1_update_chunks:
  assumes "length (sc_block c) = 64"
  shows "sha1_final (sha1_update (sha1_update (sha1_init c) p) q) =
    sha1_final (sha1_update (sha1_init c) (p @ q))"
proof -
  note init = sha1_init_refines [OF assms]
  note upd = sha1_update_refines [OF init(1), of p, unfolded init(2-4) append_Nil add_0_left]
  note upd2 = sha1_update_refines [OF upd(1), of q, unfolded upd(2-4), folded sha1_absorb_append,
      unfolded sha1_left_append of_nat_add [symmetric] length_append [symmetric]]
  show ?thesis
    by (simp only: sha1_final_refines [OF upd2] sha1_final_init [OF assms])
qed

theorem sha1_update_chunks_witness:
  "sha1_final (sha1_update (sha1_update (sha1_init sha1_junk) [97]) [98, 99]) =
     sha1_final (sha1_update (sha1_init sha1_junk) ([97] @ [98, 99]))"
  by (rule sha1_update_chunks) (simp add: sha1_junk_def)

end
