(* ===== verification/Kv_Format.thy ===== *)
theory Kv_Format
  imports Kv_Sha1
begin

unbundle bit_operations_syntax

section \<open>The checkpoint file format\<close>

text \<open>
  The fixed 48-byte header of a checkpoint file, its little-endian fields, the reason codes
  and extension flags it carries, and the file names (\<open>ds4_kvstore.c\<close>, the constants
  of \<open>ds4_kvstore.h\<close>). A header is written by \<open>ds4_kvstore_fill_header\<close> and read
  back by \<open>ds4_kvstore_read_header\<close>, which consumes the header and the four bytes of
  the text length from an open file; the model reads them off a byte string and returns
  the bytes that follow.
\<close>

subsection \<open>Little-endian fields\<close>

definition le_put32 :: "u32 \<Rightarrow> bytes" where
  "le_put32 v = [ucast v, ucast (drop_bit 8 v), ucast (drop_bit 16 v), ucast (drop_bit 24 v)]"

definition kv_le_put64 :: "u64 \<Rightarrow> bytes" where
  "kv_le_put64 v = map (\<lambda>i. ucast (drop_bit (8 * i) v)) [0..<8]"

definition le_get32 :: "bytes \<Rightarrow> u32" where
  "le_get32 p = ucast (p ! 0) OR push_bit 8 (ucast (p ! 1)) OR
     push_bit 16 (ucast (p ! 2)) OR push_bit 24 (ucast (p ! 3))"

definition kv_le_get64 :: "bytes \<Rightarrow> u64" where
  "kv_le_get64 p = foldl (\<lambda>v i. push_bit 8 v OR ucast (p ! i)) 0 (rev [0..<8])"

lemma length_le_put32 [simp]: "length (le_put32 v) = 4"
  by (simp add: le_put32_def)

lemma length_kv_le_put64 [simp]: "length (kv_le_put64 v) = 8"
  by (simp add: kv_le_put64_def)

text \<open>Shifting a value right by a byte and back loses nothing once its low byte is put back.\<close>

lemma le_byte_step: "push_bit 8 (drop_bit 8 w) OR ucast (ucast (w :: 'a::len word) :: u8) = w"
  by (rule bit_word_eqI) (auto simp: bit_simps)

lemma le_byte_step_at:
  "push_bit 8 (drop_bit (n + 8) w) OR ucast (ucast (drop_bit n (w :: 'a::len word)) :: u8) = drop_bit n w"
  using le_byte_step [of "drop_bit n w"] by (simp add: add.commute)

lemma le_get_put32: "le_get32 (le_put32 v) = v"
proof -
  have "le_get32 (le_put32 v) =
      push_bit 8 (push_bit 8 (push_bit 8 (ucast (ucast (drop_bit 24 v) :: u8)) OR
        ucast (ucast (drop_bit 16 v) :: u8)) OR ucast (ucast (drop_bit 8 v) :: u8)) OR
        ucast (ucast v :: u8)"
    by (simp add: le_get32_def le_put32_def push_bit_or ac_simps)
  also have "ucast (ucast (drop_bit 24 v) :: u8) = drop_bit 24 v"
    by (rule bit_word_eqI) (auto simp: bit_simps dest: bit_imp_le_length)
  also have "push_bit 8 (drop_bit 24 v) OR ucast (ucast (drop_bit 16 v) :: u8) = drop_bit 16 v"
    using le_byte_step_at [of 16 v] by simp
  also have "push_bit 8 (drop_bit 16 v) OR ucast (ucast (drop_bit 8 v) :: u8) = drop_bit 8 v"
    using le_byte_step_at [of 8 v] by simp
  finally show ?thesis
    by (simp only: le_byte_step)
qed

lemma kv_le_get_put64: "kv_le_get64 (kv_le_put64 v) = v"
proof -
  have "foldl (\<lambda>x i. push_bit 8 x OR ucast (kv_le_put64 v ! i)) 0 (rev [8 - k..<8]) =
      drop_bit (64 - 8 * k) v" if "k \<le> 8" for k
    using that
  proof (induction k)
    case 0
    then show ?case by (simp add: drop_bit_word_beyond)
  next
    case (Suc k)
    have *: "[8 - Suc k..<8] = (7 - k) # [8 - k..<8]"
    proof -
      have "Suc (7 - k) = 8 - k" using Suc.prems by simp
      then show ?thesis using Suc.prems by (subst upt_conv_Cons) simp_all
    qed
    have "kv_le_put64 v ! (7 - k) = ucast (drop_bit (64 - 8 * Suc k) v)"
      using Suc.prems by (simp add: kv_le_put64_def del: upt.simps) (simp add: diff_mult_distrib2)
    moreover have "64 - 8 * k = (64 - 8 * Suc k) + 8"
      using Suc.prems by simp
    ultimately show ?case
      unfolding * using Suc by (simp only: rev.simps foldl_append foldl_Cons foldl_Nil
          le_byte_step_at Suc_leD)
  qed
  from this [of 8] show ?thesis by (simp add: kv_le_get64_def)
qed

subsection \<open>Reasons and extension flags\<close>

datatype kvstore_reason =
    REASON_UNKNOWN | REASON_COLD | REASON_CONTINUED | REASON_EVICT | REASON_SHUTDOWN
  | REASON_AGENT_SYSTEM | REASON_AGENT_SESSION | REASON_BANK_EVICT | REASON_BANK_SHUTDOWN
  | REASON_BANK_CHECKPOINT

fun reason_num :: "kvstore_reason \<Rightarrow> u8" where
  "reason_num REASON_UNKNOWN = 0"
| "reason_num REASON_COLD = 1"
| "reason_num REASON_CONTINUED = 2"
| "reason_num REASON_EVICT = 3"
| "reason_num REASON_SHUTDOWN = 4"
| "reason_num REASON_AGENT_SYSTEM = 5"
| "reason_num REASON_AGENT_SESSION = 6"
| "reason_num REASON_BANK_EVICT = 7"
| "reason_num REASON_BANK_SHUTDOWN = 8"
| "reason_num REASON_BANK_CHECKPOINT = 9"

text \<open>\<open>None\<close> is the null pointer.\<close>

definition kvstore_reason_code :: "string option \<Rightarrow> u8" where
  "kvstore_reason_code reason =
     (case reason of None \<Rightarrow> reason_num REASON_UNKNOWN
      | Some s \<Rightarrow>
          if s = ''cold'' then reason_num REASON_COLD
          else if s = ''continued'' then reason_num REASON_CONTINUED
          else if s = ''evict'' then reason_num REASON_EVICT
          else if s = ''shutdown'' then reason_num REASON_SHUTDOWN
          else if s = ''agent-system'' then reason_num REASON_AGENT_SYSTEM
          else if s = ''agent-session'' then reason_num REASON_AGENT_SESSION
          else if s = ''bank-evict'' then reason_num REASON_BANK_EVICT
          else if s = ''bank-shutdown'' then reason_num REASON_BANK_SHUTDOWN
          else if s = ''bank-checkpoint'' then reason_num REASON_BANK_CHECKPOINT
          else reason_num REASON_UNKNOWN)"

definition EXT_TOOL_MAP :: u8 where "EXT_TOOL_MAP = 1"
definition EXT_RESPONSES_VISIBLE :: u8 where "EXT_RESPONSES_VISIBLE = 2"
definition EXT_THINKING_VISIBLE :: u8 where "EXT_THINKING_VISIBLE = 4"
definition EXT_SESSION_TITLE :: u8 where "EXT_SESSION_TITLE = 8"
definition EXT_BANK_REPLAY_V1 :: u8 where "EXT_BANK_REPLAY_V1 = 16"
definition EXT_IMAGE_PIXELS_V2 :: u8 where "EXT_IMAGE_PIXELS_V2 = 32"

definition kvstore_key_kind :: "u8 \<Rightarrow> string" where
  "kvstore_key_kind ext =
     (if ext AND EXT_IMAGE_PIXELS_V2 \<noteq> 0 then ''image-pixels''
      else if ext AND EXT_RESPONSES_VISIBLE \<noteq> 0 then ''responses-visible''
      else if ext AND EXT_THINKING_VISIBLE \<noteq> 0 then ''thinking-visible''
      else ''token-text'')"

subsection \<open>The fixed header\<close>

record kv_entry =
  e_sha :: string
  e_path :: string
  e_quant_bits :: u8
  e_model_id :: u8
  e_reason :: u8
  e_tokens :: u32
  e_hits :: u32
  e_ctx_size :: u32
  e_ext_flags :: u8
  e_created_at :: u64
  e_last_used :: u64
  e_payload_bytes :: u64
  e_text_bytes :: u64
  e_file_size :: u64

definition kv_entry_zero :: kv_entry where
  "kv_entry_zero = \<lparr>e_sha = [], e_path = [], e_quant_bits = 0, e_model_id = 0, e_reason = 0,
     e_tokens = 0, e_hits = 0, e_ctx_size = 0, e_ext_flags = 0, e_created_at = 0, e_last_used = 0,
     e_payload_bytes = 0, e_text_bytes = 0, e_file_size = 0\<rparr>"

definition KVSTORE_FIXED_HEADER :: nat where "KVSTORE_FIXED_HEADER = 48"

definition kvstore_fill_header :: "u8 \<Rightarrow> u8 \<Rightarrow> u8 \<Rightarrow> u8 \<Rightarrow> u32 \<Rightarrow> u32 \<Rightarrow> u32 \<Rightarrow>
    u64 \<Rightarrow> u64 \<Rightarrow> u64 \<Rightarrow> bytes" where
  "kvstore_fill_header model_id quant_bits reason ext_flags tokens hits ctx_size
     created_at last_used payload_bytes =
     [75, 86, 67, 1, quant_bits, reason, ext_flags, model_id] @
     le_put32 tokens @ le_put32 hits @ le_put32 ctx_size @
     [2, 0, 0, 0] @
     kv_le_put64 created_at @ kv_le_put64 last_used @ kv_le_put64 payload_bytes"

text \<open>
  The result is the header fields in an otherwise zeroed entry, the text length and the
  bytes after it; \<open>None\<close> is \<open>false\<close>.
\<close>

definition kvstore_read_header :: "bytes \<Rightarrow> (kv_entry \<times> u32 \<times> bytes) option" where
  "kvstore_read_header fp =
     (let h = take 48 fp; tb = bslice 48 4 fp in
      if length h \<noteq> 48 then None
      else if h ! 0 \<noteq> 75 \<or> h ! 1 \<noteq> 86 \<or> h ! 2 \<noteq> 67 \<or> h ! 3 \<noteq> 1 then None
      else if h ! 20 \<noteq> 2 then None
      else if length tb \<noteq> 4 then None
      else
        let e = kv_entry_zero\<lparr>e_quant_bits := h ! 4,
              e_reason := (if h ! 5 \<le> reason_num REASON_BANK_CHECKPOINT then h ! 5
                           else reason_num REASON_UNKNOWN),
              e_ext_flags := h ! 6, e_model_id := h ! 7,
              e_tokens := le_get32 (bslice 8 4 h), e_hits := le_get32 (bslice 12 4 h),
              e_ctx_size := le_get32 (bslice 16 4 h),
              e_created_at := kv_le_get64 (bslice 24 8 h), e_last_used := kv_le_get64 (bslice 32 8 h),
              e_payload_bytes := kv_le_get64 (bslice 40 8 h),
              e_text_bytes := ucast (le_get32 tb)\<rparr>
        in if e_tokens e \<noteq> 0 \<and> (e_quant_bits e = 2 \<or> e_quant_bits e = 4)
           then Some (e, le_get32 tb, drop 52 fp) else None)"

lemma length_kvstore_fill_header [simp]:
  "length (kvstore_fill_header m q r x t h c ca lu pb) = 48"
  by (simp add: kvstore_fill_header_def)

text \<open>Every field of a filled header sits at the offset where the reader looks for it.\<close>

lemma fill_header_fields:
  fixes m q r x t h c ca lu pb
  defines "hdr \<equiv> kvstore_fill_header m q r x t h c ca lu pb"
  shows "hdr ! 0 = 75" "hdr ! 1 = 86" "hdr ! 2 = 67" "hdr ! 3 = 1" "hdr ! 4 = q" "hdr ! 5 = r"
    "hdr ! 6 = x" "hdr ! 7 = m" "hdr ! 20 = 2"
    "bslice 8 4 hdr = le_put32 t" "bslice 12 4 hdr = le_put32 h" "bslice 16 4 hdr = le_put32 c"
    "bslice 24 8 hdr = kv_le_put64 ca" "bslice 32 8 hdr = kv_le_put64 lu" "bslice 40 8 hdr = kv_le_put64 pb"
  by (simp_all add: hdr_def kvstore_fill_header_def bslice_def nth_append le_put32_def kv_le_put64_def
      upt_rec)

text \<open>
  What a header that was written and read back says: the fields as given, except that a
  reason past the last known one reads as unknown.
\<close>

definition kv_header_entry :: "u8 \<Rightarrow> u8 \<Rightarrow> u8 \<Rightarrow> u8 \<Rightarrow> u32 \<Rightarrow> u32 \<Rightarrow> u32 \<Rightarrow>
    u64 \<Rightarrow> u64 \<Rightarrow> u64 \<Rightarrow> u32 \<Rightarrow> kv_entry" where
  "kv_header_entry m q r x t h c ca lu pb tlen = kv_entry_zero\<lparr>e_quant_bits := q,
     e_reason := (if r \<le> 9 then r else 0), e_ext_flags := x, e_model_id := m, e_tokens := t,
     e_hits := h, e_ctx_size := c, e_created_at := ca, e_last_used := lu, e_payload_bytes := pb,
     e_text_bytes := ucast tlen\<rparr>"

lemma read_fill_header_tb:
  assumes "length tb = 4"
  shows "kvstore_read_header (kvstore_fill_header m q r x t h c ca lu pb @ tb @ rest) =
    (if t \<noteq> 0 \<and> (q = 2 \<or> q = 4)
     then Some (kv_header_entry m q r x t h c ca lu pb (le_get32 tb), le_get32 tb, rest) else None)"
proof -
  let ?hdr = "kvstore_fill_header m q r x t h c ca lu pb"
  let ?fp = "?hdr @ tb @ rest"
  have "take 48 ?fp = ?hdr" and "bslice 48 4 ?fp = tb" and "drop 52 ?fp = rest"
    using assms by (simp_all add: bslice_def)
  then show ?thesis
    using assms
    by (simp add: kvstore_read_header_def fill_header_fields Let_def le_get_put32 kv_le_get_put64
        kv_header_entry_def del: One_nat_def)
qed

lemma read_fill_header:
  assumes "t \<noteq> 0" and "q = 2 \<or> q = 4"
  shows "kvstore_read_header (kvstore_fill_header m q r x t h c ca lu pb @ le_put32 tlen @ rest) =
    Some (kv_header_entry m q r x t h c ca lu pb tlen, tlen, rest)"
  using assms by (simp add: read_fill_header_tb le_get_put32)

text \<open>
  The header round-trips: for every field value, what \<open>ds4_kvstore_fill_header\<close> and
  the length field wrote reads back field by field (a reason past the last known code as
  unknown) with the file positioned at the text, exactly when the token count is not zero
  and the quantisation is 2 or 4; otherwise the header is refused.
\<close>

theorem header_roundtrip:
  "kvstore_read_header (kvstore_fill_header m q r x t h c ca lu pb @ le_put32 tlen @ rest) =
    (if t \<noteq> 0 \<and> (q = 2 \<or> q = 4)
     then Some (kv_entry_zero\<lparr>e_quant_bits := q, e_reason := (if r \<le> 9 then r else 0),
       e_ext_flags := x, e_model_id := m, e_tokens := t, e_hits := h, e_ctx_size := c,
       e_created_at := ca, e_last_used := lu, e_payload_bytes := pb, e_text_bytes := ucast tlen\<rparr>,
       tlen, rest)
     else None)"
  by (simp add: read_fill_header_tb le_get_put32 kv_header_entry_def)

lemma read_header_Some:
  assumes "kvstore_read_header fp = Some (e, tlen, rest)"
  shows "52 \<le> length fp"
    and "e = kv_header_entry (fp ! 7) (fp ! 4) (fp ! 5) (fp ! 6) (le_get32 (bslice 8 4 fp))
      (le_get32 (bslice 12 4 fp)) (le_get32 (bslice 16 4 fp)) (kv_le_get64 (bslice 24 8 fp))
      (kv_le_get64 (bslice 32 8 fp)) (kv_le_get64 (bslice 40 8 fp)) tlen"
    and "tlen = le_get32 (bslice 48 4 fp)" and "rest = drop 52 fp"
    and "e_tokens e \<noteq> 0" and "e_quant_bits e = 2 \<or> e_quant_bits e = 4"
proof -
  let ?h = "take 48 fp"
  from assms have g: "length ?h = 48" "length (bslice 48 4 fp) = 4"
    by (auto simp only: kvstore_read_header_def Let_def split: if_split_asm)
  from g show "52 \<le> length fp" by (simp add: bslice_def)
  have sl: "bslice off n ?h = bslice off n fp" if "off + n \<le> 48" for off n
    using that by (simp add: bslice_def take_drop [symmetric] min_def drop_take)
  note eq = assms [unfolded kvstore_read_header_def Let_def, simplified g sl nth_take]
  show "e = kv_header_entry (fp ! 7) (fp ! 4) (fp ! 5) (fp ! 6) (le_get32 (bslice 8 4 fp))
      (le_get32 (bslice 12 4 fp)) (le_get32 (bslice 16 4 fp)) (kv_le_get64 (bslice 24 8 fp))
      (kv_le_get64 (bslice 32 8 fp)) (kv_le_get64 (bslice 40 8 fp)) tlen"
    and "tlen = le_get32 (bslice 48 4 fp)" and "rest = drop 52 fp"
    and "e_tokens e \<noteq> 0" and "e_quant_bits e = 2 \<or> e_quant_bits e = 4"
    using eq by (auto simp: sl kv_header_entry_def split: if_split_asm)
qed

lemma read_header_text_bytes:
  "kvstore_read_header fp = Some (e, tlen, rest) \<Longrightarrow> e_text_bytes e = ucast tlen"
  by (drule read_header_Some(2)) (simp add: kv_header_entry_def)

subsection \<open>File names and paths\<close>

definition c_isxdigit :: "char \<Rightarrow> bool" where
  "c_isxdigit c \<longleftrightarrow> (let n = of_char c :: nat in
     48 \<le> n \<and> n \<le> 57 \<or> 65 \<le> n \<and> n \<le> 70 \<or> 97 \<le> n \<and> n \<le> 102)"

definition c_tolower :: "char \<Rightarrow> char" where
  "c_tolower c = (let n = of_char c :: nat in if 65 \<le> n \<and> n \<le> 90 then char_of (n + 32) else c)"

definition kvstore_sha_hex_name :: "string \<Rightarrow> string option" where
  "kvstore_sha_hex_name name =
     (if length name \<noteq> 43 \<or> drop 40 name \<noteq> ''.kv'' then None
      else if \<not> list_all c_isxdigit (take 40 name) then None
      else Some (map c_tolower (take 40 name)))"

definition kvstore_path_join :: "string \<Rightarrow> string \<Rightarrow> string" where
  "kvstore_path_join dir name =
     (if dir = [] \<or> last dir \<noteq> CHR ''/'' then dir @ ''/'' @ name else dir @ name)"

definition kvstore_path_for_sha :: "string \<Rightarrow> string \<Rightarrow> string" where
  "kvstore_path_for_sha dir sha = kvstore_path_join dir (take 40 sha @ ''.kv'')"

text \<open>
  \<open>kv_mkdir_p\<close> makes every proper prefix that ends before a slash, then the path
  itself; \<open>mk\<close> says whether \<open>mkdir\<close> of a path succeeds or finds it there.
\<close>

definition kv_mkdir_p :: "(string \<Rightarrow> bool) \<Rightarrow> string \<Rightarrow> bool" where
  "kv_mkdir_p mk path \<longleftrightarrow> path \<noteq> [] \<and>
     list_all (\<lambda>i. path ! i = CHR ''/'' \<longrightarrow> mk (take i path)) [1..<length path] \<and> mk path"

definition lower_hex :: "string \<Rightarrow> bool" where
  "lower_hex s \<longleftrightarrow> list_all (\<lambda>c. c \<in> set ''0123456789abcdef'') s"

lemma lower_hex_char:
  "c \<in> set ''0123456789abcdef'' \<Longrightarrow> c_isxdigit c \<and> c_tolower c = c"
  by (auto simp: c_isxdigit_def c_tolower_def Let_def)

lemma sha_hex_name_lower:
  assumes "length sha = 40" and "lower_hex sha"
  shows "kvstore_sha_hex_name (take 40 sha @ ''.kv'') = Some sha"
proof -
  have "list_all c_isxdigit sha" and "map c_tolower sha = sha"
    using assms(2) lower_hex_char by (auto simp: lower_hex_def list_all_iff map_idI)
  then show ?thesis
    using assms(1) by (simp add: kvstore_sha_hex_name_def)
qed

lemma length_hex20: "length (hex20 bs) = 2 * length bs"
  by (induction bs) (simp_all add: hex20_def)

lemma hex_digit_mem: "i < 16 \<Longrightarrow> ''0123456789abcdef'' ! i \<in> set ''0123456789abcdef''"
  by (rule nth_mem) simp

lemma lower_hex_hex20: "lower_hex (hex20 bs)"
proof -
  have "unat (drop_bit 4 b) < 16" and "unat (b AND 15) < 16" for b :: u8
  proof -
    have "unat (drop_bit 4 b) = unat b div 16"
      by (simp add: drop_bit_eq_div unat_div_distrib)
    moreover have "unat b < 256" by (rule unat_u8_bound)
    ultimately show "unat (drop_bit 4 b) < 16"
      by (simp add: less_mult_imp_div_less)
    have "b AND 15 = take_bit 4 b" by (simp add: take_bit_eq_mask mask_eq_exp_minus_1)
    then show "unat (b AND 15) < 16" by (simp add: take_bit_eq_mod unat_mod_distrib)
  qed
  note small = this
  define hx where "hx = ''0123456789abcdef''"
  have "i < 16 \<Longrightarrow> hx ! i \<in> set hx" for i
    unfolding hx_def by (rule hex_digit_mem)
  then show ?thesis
    unfolding lower_hex_def hex20_def hx_def [symmetric] by (auto simp: list_all_iff small)
qed

lemma length_sha1_reference: "length (sha1_reference p) = 20"
proof -
  have "length h = 5 \<Longrightarrow> length (sha1_absorb h q) = 5" for h q
  proof (induction h q rule: sha1_absorb.induct)
    case (1 h p)
    then show ?case
      by (subst sha1_absorb.simps) (auto simp: sha1_transform_def Let_def split: prod.splits)
  qed
  moreover have "length (sha1_digest h) = 4 * length h" for h
    by (induction h) (simp_all add: sha1_digest_def)
  ultimately show ?thesis
    by (simp add: sha1_reference_def sha1_iv_def)
qed

lemma sha1_bytes_hex_eq: "sha1_bytes_hex p = hex20 (sha1_reference p)"
  by (simp add: sha1_bytes_hex_def sha1_bytes_hex_from_def sha1_final_init sha1_junk_def)

lemma length_sha1_bytes_hex [simp]: "length (sha1_bytes_hex p) = 40"
  by (simp add: sha1_bytes_hex_eq length_hex20 length_sha1_reference)

lemma lower_hex_sha1 [simp]: "lower_hex (sha1_bytes_hex p)"
  by (simp add: sha1_bytes_hex_eq lower_hex_hex20)

lemma path_join_inj: "kvstore_path_join dir a = kvstore_path_join dir b \<longleftrightarrow> a = b"
  by (simp add: kvstore_path_join_def)

end
