(* ===== verification/Kv_Policy.thy ===== *)
theory Kv_Policy
  imports Kv_Format
begin

unbundle bit_operations_syntax

section \<open>The store's state and its pure policy\<close>

text \<open>
  The options and the state of a store (\<open>ds4_kvstore_options\<close>, \<open>ds4_kvstore\<close>) and
  the functions of \<open>ds4_kvstore.c\<close> that decide without touching a file: how many tokens
  a checkpoint covers, when the continued and the bank tiers are due, whether a file of a
  given size fits the budget, and which entries automatic replay may use. The entry array
  with its length and capacity is a list. C's \<open>int\<close> is the integers: the token counts are
  far from the bounds of the type, where overflow would be undefined.
\<close>

record kv_options =
  opt_min_tokens :: int
  opt_cold_max_tokens :: int
  opt_continued_interval_tokens :: int
  opt_boundary_trim_tokens :: int
  opt_boundary_align_tokens :: int

definition kvstore_default_options :: kv_options where
  "kvstore_default_options = \<lparr>opt_min_tokens = 512, opt_cold_max_tokens = 30000,
     opt_continued_interval_tokens = 10000, opt_boundary_trim_tokens = 32,
     opt_boundary_align_tokens = 2048\<rparr>"

record kvstore =
  kc_enabled :: bool
  kc_dir :: string
  kc_budget_bytes :: u64
  kc_reject_different_quant :: bool
  kc_opt :: kv_options
  kc_continued_last_store_tokens :: int
  kc_entry :: "kv_entry list"

definition kvstore_zero :: kvstore where
  "kvstore_zero = \<lparr>kc_enabled = False, kc_dir = [], kc_budget_bytes = 0,
     kc_reject_different_quant = False,
     kc_opt = \<lparr>opt_min_tokens = 0, opt_cold_max_tokens = 0, opt_continued_interval_tokens = 0,
       opt_boundary_trim_tokens = 0, opt_boundary_align_tokens = 0\<rparr>,
     kc_continued_last_store_tokens = 0, kc_entry = []\<rparr>"

definition kvstore_clear :: "kvstore \<Rightarrow> kvstore" where
  "kvstore_clear kc = kc\<lparr>kc_entry := []\<rparr>"

definition kv_cache_push :: "kvstore \<Rightarrow> kv_entry \<Rightarrow> kvstore" where
  "kv_cache_push kc e = kc\<lparr>kc_entry := kc_entry kc @ [e]\<rparr>"

definition kvstore_close :: "kvstore \<Rightarrow> kvstore" where
  "kvstore_close kc = kvstore_zero"

subsection \<open>Byte and token sequences\<close>

definition kvstore_byte_prefix_match :: "bytes \<Rightarrow> bytes \<Rightarrow> bool" where
  "kvstore_byte_prefix_match text prefix \<longleftrightarrow>
     length prefix \<le> length text \<and> (length prefix = 0 \<or> take (length prefix) text = prefix)"

lemma byte_prefix_match_iff: "kvstore_byte_prefix_match text p \<longleftrightarrow> (\<exists>s. text = p @ s)"
  by (auto simp: kvstore_byte_prefix_match_def)
    (metis append_take_drop_id)

definition kvstore_tokens_copy_prefix :: "int list option \<Rightarrow> int \<Rightarrow> int list" where
  "kvstore_tokens_copy_prefix src n =
     (case src of None \<Rightarrow> [] | Some v \<Rightarrow>
        let m = (if n > int (length v) then int (length v) else n) in take (nat m) v)"

definition tokens_append :: "int list \<Rightarrow> int list option \<Rightarrow> int list" where
  "tokens_append dst src = (case src of None \<Rightarrow> dst | Some v \<Rightarrow> dst @ v)"

text \<open>
  The rendered text of a token sequence and the effective prompt of a text hit;
  \<open>token_text\<close> and \<open>tokenize\<close> are the engine's detokenizer and its rendered-chat
  tokenizer.
\<close>

definition kvstore_render_tokens_text :: "(int \<Rightarrow> bytes) \<Rightarrow> int list \<Rightarrow> bytes" where
  "kvstore_render_tokens_text token_text tokens = concat (map token_text tokens)"

definition kvstore_build_prompt :: "(bytes \<Rightarrow> int list) \<Rightarrow> int list \<Rightarrow> bytes option \<Rightarrow> int list" where
  "kvstore_build_prompt tokenize exact_prefix suffix_text =
     tokens_append exact_prefix
       (Some (tokenize (case suffix_text of None \<Rightarrow> [] | Some s \<Rightarrow> s)))"

definition tokens_starts_with :: "int list \<Rightarrow> int list \<Rightarrow> bool" where
  "tokens_starts_with tokens prefix \<longleftrightarrow>
     \<not> length tokens < length prefix \<and> list_all2 (=) (take (length prefix) tokens) prefix"

subsection \<open>How many tokens a checkpoint covers\<close>

definition kvstore_store_len :: "kvstore \<Rightarrow> int \<Rightarrow> int" where
  "kvstore_store_len kc tokens =
     (let trim = opt_boundary_trim_tokens (kc_opt kc);
          align = opt_boundary_align_tokens (kc_opt kc);
          min_tokens = opt_min_tokens (kc_opt kc)
      in if tokens > min_tokens + trim
         then let s0 = tokens - trim;
                  stable = (if align > 0 then s0 - c_mod s0 align else s0)
              in if stable \<ge> min_tokens then stable else tokens
         else tokens)"

fun chat_anchor_loop :: "int \<Rightarrow> int \<Rightarrow> int \<Rightarrow> int list \<Rightarrow> int \<Rightarrow> int" where
  "chat_anchor_loop user assistant i [] last_user = last_user"
| "chat_anchor_loop user assistant i (t # ts) last_user =
     (if t = assistant then last_user
      else chat_anchor_loop user assistant (i + 1) ts (if t = user then i else last_user))"

definition kvstore_chat_anchor_pos :: "kvstore \<Rightarrow> int list option \<Rightarrow> int \<Rightarrow> int \<Rightarrow> int" where
  "kvstore_chat_anchor_pos kc prompt user assistant =
     (case prompt of None \<Rightarrow> -1 | Some v \<Rightarrow>
        if user < 0 \<or> assistant < 0 then -1
        else let last_user = chat_anchor_loop user assistant 0 v (-1)
             in if last_user \<ge> opt_min_tokens (kc_opt kc) then last_user else -1)"

subsection \<open>Pacing of the continued and the bank tier\<close>

definition kv_cache_continued_step :: "kvstore \<Rightarrow> int" where
  "kv_cache_continued_step kc =
     (let interval = opt_continued_interval_tokens (kc_opt kc);
          align = opt_boundary_align_tokens (kc_opt kc)
      in if \<not> kc_enabled kc \<or> interval \<le> 0 then 0
         else if align > 0
         then let step = c_div (interval + align - 1) align * align
              in if step \<le> 0 then align else step
         else interval)"

definition kvstore_continued_store_target :: "kvstore \<Rightarrow> int \<Rightarrow> int" where
  "kvstore_continued_store_target kc live_tokens =
     (let step = kv_cache_continued_step kc in
      if step \<le> 0 then 0
      else if live_tokens < opt_min_tokens (kc_opt kc) then 0
      else if c_mod live_tokens step \<noteq> 0 then 0
      else if live_tokens \<le> kc_continued_last_store_tokens kc then 0
      else live_tokens)"

definition kvstore_note_store :: "kvstore \<Rightarrow> int \<Rightarrow> kvstore" where
  "kvstore_note_store kc tokens =
     (if tokens > kc_continued_last_store_tokens kc
      then kc\<lparr>kc_continued_last_store_tokens := tokens\<rparr> else kc)"

definition kvstore_bank_checkpoint_due :: "kvstore \<Rightarrow> int \<Rightarrow> int \<Rightarrow> bool" where
  "kvstore_bank_checkpoint_due kc committed stored_tokens =
     (let step = kv_cache_continued_step kc in
      if step \<le> 0 then False
      else if committed < opt_min_tokens (kc_opt kc) then False
      else if committed < stored_tokens + step then False
      else True)"

text \<open>The result pairs the returned value with the store.\<close>

definition kvstore_suppress_continued_store :: "kvstore \<Rightarrow> int \<Rightarrow> int \<times> kvstore" where
  "kvstore_suppress_continued_store kc tokens =
     (if kvstore_continued_store_target kc tokens \<noteq> tokens then (-1, kc)
      else (kc_continued_last_store_tokens kc, kvstore_note_store kc tokens))"

definition kvstore_restore_suppressed_continued :: "kvstore \<Rightarrow> int \<Rightarrow> int \<Rightarrow> kvstore" where
  "kvstore_restore_suppressed_continued kc old_tokens suppressed_tokens =
     (if old_tokens \<ge> 0 \<and> kc_continued_last_store_tokens kc = suppressed_tokens
      then kc\<lparr>kc_continued_last_store_tokens := old_tokens\<rparr> else kc)"

subsection \<open>Sizes and the budget\<close>

definition kv_cache_file_size_bytes :: "u64 \<Rightarrow> u64 \<Rightarrow> u64 \<Rightarrow> u64 option" where
  "kv_cache_file_size_bytes text_bytes payload_bytes trailer_bytes =
     (let fixed = 52 :: u64 in
      if u64_max - fixed < text_bytes \<or>
         u64_max - fixed - text_bytes < payload_bytes \<or>
         u64_max - fixed - text_bytes - payload_bytes < trailer_bytes
      then None
      else Some (fixed + text_bytes + payload_bytes + trailer_bytes))"

definition kv_cache_budget_required :: "u64 \<Rightarrow> u64 option" where
  "kv_cache_budget_required file_bytes =
     (let slack0 = file_bytes div 100;
          slack = (if file_bytes mod 100 \<noteq> 0 then slack0 + 1 else slack0)
      in if u64_max - file_bytes < slack then None else Some (file_bytes + slack))"

text \<open>The result is the verdict, the file size and the required size (0 where not written).\<close>

definition kvstore_file_size_fits :: "kvstore \<Rightarrow> u64 \<Rightarrow> u64 \<Rightarrow> u64 \<Rightarrow> bool \<times> u64 \<times> u64" where
  "kvstore_file_size_fits kc text_bytes payload_bytes trailer_bytes =
     (case kv_cache_file_size_bytes text_bytes payload_bytes trailer_bytes of
        None \<Rightarrow> (False, 0, 0)
      | Some file_bytes \<Rightarrow>
          if kc_budget_bytes kc = 0 then (True, file_bytes, 0)
          else case kv_cache_budget_required file_bytes of
                 None \<Rightarrow> (False, file_bytes, 0)
               | Some required \<Rightarrow> (required \<le> kc_budget_bytes kc, file_bytes, required))"

subsection \<open>Which entries automatic replay may use\<close>

definition kv_cache_reason_family :: "u8 \<Rightarrow> int" where
  "kv_cache_reason_family reason =
     (if reason_num REASON_COLD \<le> reason \<and> reason \<le> reason_num REASON_SHUTDOWN then 1
      else if reason_num REASON_AGENT_SYSTEM \<le> reason \<and> reason \<le> reason_num REASON_AGENT_SESSION then 2
      else if reason_num REASON_BANK_EVICT \<le> reason \<and> reason \<le> reason_num REASON_BANK_CHECKPOINT then 3
      else 0)"

definition kv_cache_reason_is_anchor :: "u8 \<Rightarrow> bool" where
  "kv_cache_reason_is_anchor reason \<longleftrightarrow>
     reason = reason_num REASON_COLD \<or> reason = reason_num REASON_EVICT \<or>
     reason = reason_num REASON_SHUTDOWN \<or> reason = reason_num REASON_BANK_EVICT \<or>
     reason = reason_num REASON_BANK_SHUTDOWN \<or> reason = reason_num REASON_BANK_CHECKPOINT"

definition kv_entry_is_bank_replay_v1 :: "kv_entry \<Rightarrow> bool" where
  "kv_entry_is_bank_replay_v1 e \<longleftrightarrow>
     kv_cache_reason_family (e_reason e) = 3 \<and> e_ext_flags e AND EXT_BANK_REPLAY_V1 \<noteq> 0"

definition kv_entry_is_automatic_exact_replay :: "kv_entry \<Rightarrow> bool" where
  "kv_entry_is_automatic_exact_replay e =
     (if kv_cache_reason_family (e_reason e) = 1
      then e_ext_flags e AND EXT_BANK_REPLAY_V1 = 0
      else kv_entry_is_bank_replay_v1 e)"

definition kv_reopened_header_matches_entry :: "kv_entry \<Rightarrow> u32 \<Rightarrow> kv_entry \<Rightarrow> bool" where
  "kv_reopened_header_matches_entry hdr text_bytes e \<longleftrightarrow>
     e_model_id hdr = e_model_id e \<and> e_quant_bits hdr = e_quant_bits e \<and>
     e_ctx_size hdr = e_ctx_size e \<and> e_tokens hdr = e_tokens e \<and>
     ucast text_bytes = e_text_bytes e"

subsection \<open>Lemmas\<close>

lemma copy_prefix_Some [simp]:
  "0 \<le> n \<Longrightarrow> kvstore_tokens_copy_prefix (Some v) n = take (nat n) v"
  by (simp add: kvstore_tokens_copy_prefix_def Let_def)

lemma tokens_starts_with_iff: "tokens_starts_with t p \<longleftrightarrow> take (length p) t = p"
  by (auto simp: tokens_starts_with_def list.rel_eq not_less) (metis length_take min.cobounded1)

lemma continued_step_aligned:
  assumes "kc_enabled kc" and "0 < opt_continued_interval_tokens (kc_opt kc)"
    and "0 < opt_boundary_align_tokens (kc_opt kc)"
  shows "opt_boundary_align_tokens (kc_opt kc) dvd kv_cache_continued_step kc"
    and "opt_continued_interval_tokens (kc_opt kc) \<le> kv_cache_continued_step kc"
    and "kv_cache_continued_step kc <
      opt_continued_interval_tokens (kc_opt kc) + opt_boundary_align_tokens (kc_opt kc)"
proof -
  define n where "n = opt_continued_interval_tokens (kc_opt kc)"
  define a where "a = opt_boundary_align_tokens (kc_opt kc)"
  have pos: "0 < n" "0 < a" using assms by (simp_all add: n_def a_def)
  define q where "q = (n + a - 1) div a * a"
  have q: "q = n + a - 1 - (n + a - 1) mod a"
    by (simp add: q_def minus_mod_eq_div_mult)
  moreover have "0 \<le> (n + a - 1) mod a" "(n + a - 1) mod a < a"
    using pos by simp_all
  ultimately have b: "n \<le> q" "q < n + a" by linarith+
  have "kv_cache_continued_step kc = q"
    using assms(1) pos b
    by (simp add: kv_cache_continued_step_def Let_def n_def [symmetric] a_def [symmetric] q_def c_arith)
  then show "opt_boundary_align_tokens (kc_opt kc) dvd kv_cache_continued_step kc"
    and "opt_continued_interval_tokens (kc_opt kc) \<le> kv_cache_continued_step kc"
    and "kv_cache_continued_step kc <
      opt_continued_interval_tokens (kc_opt kc) + opt_boundary_align_tokens (kc_opt kc)"
    using b by (simp_all add: n_def [symmetric] a_def [symmetric] q_def)
qed

lemma continued_target_cases:
  obtains "kvstore_continued_store_target kc n = 0"
  | "kvstore_continued_store_target kc n = n" "0 < kv_cache_continued_step kc"
    "opt_min_tokens (kc_opt kc) \<le> n" "c_mod n (kv_cache_continued_step kc) = 0"
    "kc_continued_last_store_tokens kc < n"
  unfolding kvstore_continued_store_target_def Let_def by (meson not_le)

lemma continued_step_note [simp]:
  "kv_cache_continued_step (kc\<lparr>kc_continued_last_store_tokens := n\<rparr>) = kv_cache_continued_step kc"
  by (simp add: kv_cache_continued_step_def)

lemma file_size_bytes_exact:
  "kv_cache_file_size_bytes t p r =
     (if 52 + unat t + unat p + unat r < 2 ^ 64 then Some (52 + t + p + r) else None)"
proof -
  have unat_52: "unat (52 :: u64) = 52" by simp
  show ?thesis
  proof (cases "52 + unat t < 2 ^ 64")
    case False
    then have "u64_max - 52 < t" by (simp only: u64_overflow_iff unat_52 not_less)
    with False show ?thesis by (simp add: kv_cache_file_size_bytes_def)
  next
    case t: True
    then have ut: "unat (52 + t) = 52 + unat t" by (subst unat_add_exact) simp_all
    have a1: "u64_max - 52 - t = u64_max - (52 + t)" by simp
    show ?thesis
    proof (cases "52 + unat t + unat p < 2 ^ 64")
      case False
      then have "u64_max - 52 - t < p" by (simp only: a1 u64_overflow_iff ut)
      with False show ?thesis by (simp add: kv_cache_file_size_bytes_def)
    next
      case p: True
      then have up: "unat (52 + t + p) = 52 + unat t + unat p"
        using ut by (subst unat_add_exact) simp_all
      have a2: "u64_max - 52 - t - p = u64_max - (52 + t + p)" by simp
      have "\<not> u64_max - 52 < t" and "\<not> u64_max - 52 - t < p"
        using t p by (simp_all only: a1 u64_overflow_iff ut unat_52 not_le)
      moreover have "u64_max - 52 - t - p < r \<longleftrightarrow> \<not> 52 + unat t + unat p + unat r < 2 ^ 64"
        by (simp only: a2 u64_overflow_iff up not_less)
      ultimately show ?thesis
        by (simp add: kv_cache_file_size_bytes_def Let_def)
    qed
  qed
qed

lemma file_size_bytes_unat:
  assumes "kv_cache_file_size_bytes t p r = Some f"
  shows "unat f = 52 + unat t + unat p + unat r"
proof -
  have b: "52 + unat t + unat p + unat r < 2 ^ 64" and f: "f = 52 + t + p + r"
    using assms by (auto simp: file_size_bytes_exact split: if_splits)
  have "unat (52 + t) = 52 + unat t" using b by (subst unat_add_exact) simp_all
  moreover from this have "unat (52 + t + p) = 52 + unat t + unat p"
    using b by (subst unat_add_exact) simp_all
  ultimately show ?thesis
    unfolding f using b by (subst unat_add_exact) simp_all
qed

text \<open>The reserved size: the file plus one per cent, rounded up.\<close>

lemma budget_slack:
  obtains s where "unat s = (unat f + 99) div 100"
    and "kv_cache_budget_required f = (if u64_max - f < s then None else Some (f + s))"
proof
  let ?s = "if f mod 100 \<noteq> 0 then f div 100 + 1 else f div 100"
  have d: "unat (f div 100) = unat f div 100" and m: "unat (f mod 100) = unat f mod 100"
    by (simp_all add: unat_div_distrib unat_mod_distrib)
  have lt: "unat f div 100 < 2 ^ 64 - 1"
    using unat_u64_bound [of f] by simp
  have "f mod 100 \<noteq> 0 \<longleftrightarrow> unat f mod 100 \<noteq> 0"
    using m by (metis unat_eq_zero)
  moreover have "unat (f div 100 + 1) = unat f div 100 + 1"
    using lt d by (subst unat_add_exact) simp_all
  ultimately show "unat ?s = (unat f + 99) div 100"
    using d ceil_percent [of "unat f"] by (cases "unat f mod 100 = 0") auto
  show "kv_cache_budget_required f = (if u64_max - f < ?s then None else Some (f + ?s))"
    by (simp only: kv_cache_budget_required_def Let_def)
qed

lemma budget_required_exact:
  "kv_cache_budget_required f = None \<longleftrightarrow> 2 ^ 64 \<le> unat f + (unat f + 99) div 100"
  "kv_cache_budget_required f = Some r \<Longrightarrow> unat r = unat f + (unat f + 99) div 100"
proof -
  obtain s where s: "unat s = (unat f + 99) div 100"
    and eq: "kv_cache_budget_required f = (if u64_max - f < s then None else Some (f + s))"
    by (rule budget_slack)
  show "kv_cache_budget_required f = None \<longleftrightarrow> 2 ^ 64 \<le> unat f + (unat f + 99) div 100"
    unfolding eq u64_overflow_iff s by simp
  assume "kv_cache_budget_required f = Some r"
  then have "r = f + s" and "\<not> 2 ^ 64 \<le> unat f + unat s"
    unfolding eq u64_overflow_iff by (simp_all split: if_splits)
  then show "unat r = unat f + (unat f + 99) div 100"
    using unat_add_exact [of f s] s by simp
qed

lemma file_size_fits_exact:
  defines "fsz t p r \<equiv> 52 + unat t + unat p + unat r"
  shows "fst (kvstore_file_size_fits kc t p r) \<longleftrightarrow>
    fsz t p r < 2 ^ 64 \<and>
    (kc_budget_bytes kc = 0 \<or> fsz t p r + (fsz t p r + 99) div 100 \<le> unat (kc_budget_bytes kc))"
proof (cases "kv_cache_file_size_bytes t p r")
  case None
  then have "\<not> fsz t p r < 2 ^ 64"
    by (auto simp: file_size_bytes_exact fsz_def split: if_splits)
  with None show ?thesis by (simp add: kvstore_file_size_fits_def)
next
  case (Some f)
  then have f: "unat f = fsz t p r" and lt: "fsz t p r < 2 ^ 64"
    using file_size_bytes_unat [OF Some] by (auto simp: fsz_def file_size_bytes_exact split: if_splits)
  show ?thesis
  proof (cases "kv_cache_budget_required f")
    case None
    then have big: "2 ^ 64 \<le> fsz t p r + (fsz t p r + 99) div 100"
      by (simp only: budget_required_exact(1) f)
    have "\<not> fsz t p r + (fsz t p r + 99) div 100 \<le> unat (kc_budget_bytes kc)"
      using unat_u64_bound [of "kc_budget_bytes kc"] big by simp
    with Some None lt show ?thesis by (simp add: kvstore_file_size_fits_def)
  next
    case (Some q)
    then have "unat q = fsz t p r + (fsz t p r + 99) div 100"
      using f budget_required_exact(2) by simp
    with Some \<open>kv_cache_file_size_bytes t p r = Some f\<close> show ?thesis
      using lt by (simp add: kvstore_file_size_fits_def word_le_nat_alt)
  qed
qed

subsection \<open>Properties\<close>

text \<open>
  A checkpoint boundary: \<open>ds4_kvstore_store_len\<close> either keeps the whole prompt or
  cuts it to the last aligned position at least \<open>trim\<close> tokens before its end; the cut is
  never below the minimum and loses less than one alignment unit beyond the trim.
\<close>

theorem store_len_boundary:
  fixes kc tokens
  defines "low \<equiv> opt_min_tokens (kc_opt kc)" and "trim \<equiv> opt_boundary_trim_tokens (kc_opt kc)"
    and "align \<equiv> opt_boundary_align_tokens (kc_opt kc)"
    and "r \<equiv> kvstore_store_len kc tokens"
  assumes "0 \<le> low" and "0 \<le> trim" and "0 < align"
  shows "(if low + trim < tokens \<and> low \<le> (tokens - trim) div align * align
      then r = (tokens - trim) div align * align \<and> align dvd r \<and> low \<le> r \<and>
        r \<le> tokens - trim \<and> tokens - trim < r + align
      else r = tokens)"
proof -
  define s0 where "s0 = tokens - trim"
  define q where "q = s0 div align * align"
  have q: "q = s0 - s0 mod align"
    by (simp add: q_def minus_mod_eq_div_mult)
  have "low + trim < tokens \<Longrightarrow> c_mod s0 align = s0 mod align"
    using assms(5-7) by (simp add: c_mod_nonneg s0_def)
  then have "r = (if low + trim < tokens \<and> low \<le> q then q else tokens)"
    using assms(5-7) q unfolding r_def kvstore_store_len_def
    by (auto simp: Let_def c_arith align_def [symmetric] trim_def [symmetric] low_def [symmetric]
        s0_def [symmetric])
  moreover have "align dvd q" "q \<le> s0" "s0 < q + align"
    using assms(7) q by (simp_all add: q_def)
  ultimately show ?thesis
    by (auto simp: q_def s0_def)
qed

theorem store_len_boundary_witness:
  "kvstore_store_len (kvstore_zero\<lparr>kc_opt := kvstore_default_options\<rparr>) 5000 = 4096"
  using store_len_boundary [of "kvstore_zero\<lparr>kc_opt := kvstore_default_options\<rparr>" 5000]
  by (simp add: kvstore_zero_def kvstore_default_options_def)

text \<open>
  The stores of the continued tier along a growing conversation: each token count in turn
  is offered, and a due one is stored and noted.
\<close>

fun continued_stores :: "kvstore \<Rightarrow> int list \<Rightarrow> int list" where
  "continued_stores kc [] = []"
| "continued_stores kc (n # ns) =
     (let t = kvstore_continued_store_target kc n in
      if t = 0 then continued_stores kc ns
      else t # continued_stores (kvstore_note_store kc t) ns)"

lemma continued_stores_lower:
  assumes "0 \<le> kc_continued_last_store_tokens kc"
  shows "\<forall>t \<in> set (continued_stores kc ns). kc_continued_last_store_tokens kc < t \<and>
      kv_cache_continued_step kc dvd t \<and> opt_min_tokens (kc_opt kc) \<le> t \<and> 0 < kv_cache_continued_step kc"
    and "sorted_wrt (<) (continued_stores kc ns)"
proof -
  have "(\<forall>t \<in> set (continued_stores kc ns). kc_continued_last_store_tokens kc < t \<and>
      kv_cache_continued_step kc dvd t \<and> opt_min_tokens (kc_opt kc) \<le> t \<and> 0 < kv_cache_continued_step kc) \<and>
      sorted_wrt (<) (continued_stores kc ns)"
    using assms
  proof (induction kc ns rule: continued_stores.induct)
    case (2 kc n ns)
    show ?case
    proof (cases "kvstore_continued_store_target kc n = 0")
      case True
      then show ?thesis using 2 by (simp add: Let_def)
    next
      case False
      then have t: "kvstore_continued_store_target kc n = n" "0 < kv_cache_continued_step kc"
        "opt_min_tokens (kc_opt kc) \<le> n" "c_mod n (kv_cache_continued_step kc) = 0"
        "kc_continued_last_store_tokens kc < n"
        by (rule_tac [!] continued_target_cases [of kc n]) simp_all
      define kc' where "kc' = kc\<lparr>kc_continued_last_store_tokens := n\<rparr>"
      have kc': "kvstore_note_store kc n = kc'" using t(5) by (simp add: kvstore_note_store_def kc'_def)
      have "kv_cache_continued_step kc dvd n"
        using t 2(3) by (simp add: c_mod_nonneg dvd_eq_mod_eq_0)
      moreover have "(\<forall>u \<in> set (continued_stores kc' ns). n < u \<and> kv_cache_continued_step kc dvd u \<and>
          opt_min_tokens (kc_opt kc) \<le> u \<and> 0 < kv_cache_continued_step kc) \<and>
          sorted_wrt (<) (continued_stores kc' ns)"
        using 2(2) [OF refl False] t 2(3) by (simp add: kc' [unfolded kc'_def] kc'_def)
      ultimately show ?thesis
        using t False by (auto simp: Let_def kc')
    qed
  qed simp
  then show "\<forall>t \<in> set (continued_stores kc ns). kc_continued_last_store_tokens kc < t \<and>
      kv_cache_continued_step kc dvd t \<and> opt_min_tokens (kc_opt kc) \<le> t \<and> 0 < kv_cache_continued_step kc"
    and "sorted_wrt (<) (continued_stores kc ns)" by blast+
qed

text \<open>
  Pacing of the continued tier: however the token count moves, the positions that
  \<open>ds4_kvstore_continued_store_target\<close> and \<open>ds4_kvstore_note_store\<close> let through lie at
  least one step apart, each is a multiple of the step and at least the minimum; with an
  alignment the step is a multiple of it within one unit above the configured interval.
\<close>

theorem continued_stores_paced:
  assumes "0 \<le> kc_continued_last_store_tokens kc"
  shows "sorted_wrt (\<lambda>a b. a + kv_cache_continued_step kc \<le> b) (continued_stores kc ns) \<and>
    (\<forall>t \<in> set (continued_stores kc ns). kv_cache_continued_step kc dvd t \<and>
      opt_min_tokens (kc_opt kc) \<le> t \<and> kc_continued_last_store_tokens kc < t)"
proof -
  note low = continued_stores_lower [OF assms, of ns]
  have "sorted_wrt (\<lambda>a b. a + kv_cache_continued_step kc \<le> b) (continued_stores kc ns)"
  proof (rule sorted_wrt_mono_rel [OF _ low(2)])
    fix a b
    assume "a \<in> set (continued_stores kc ns)" "b \<in> set (continued_stores kc ns)" "a < b"
    with low(1) have "kv_cache_continued_step kc dvd b - a" "0 < b - a" by (auto intro: dvd_diff)
    then have "kv_cache_continued_step kc \<le> b - a" by (rule zdvd_imp_le)
    then show "a + kv_cache_continued_step kc \<le> b" by simp
  qed
  with low(1) show ?thesis by blast
qed

theorem continued_stores_paced_witness:
  "let kc = kvstore_zero\<lparr>kc_enabled := True, kc_opt := kvstore_default_options\<rparr>
   in sorted_wrt (\<lambda>a b. a + kv_cache_continued_step kc \<le> b) (continued_stores kc [10240, 10300, 20480]) \<and>
    (\<forall>t \<in> set (continued_stores kc [10240, 10300, 20480]). kv_cache_continued_step kc dvd t \<and>
      opt_min_tokens (kc_opt kc) \<le> t \<and> kc_continued_last_store_tokens kc < t)"
  unfolding Let_def by (rule continued_stores_paced) (simp add: kvstore_zero_def)

text \<open>
  Suppression is exact and reversible: a suppressed boundary and everything below it is
  no longer due, and restoring the returned value gives the store back.
\<close>

theorem suppress_restore_continued:
  assumes "kvstore_suppress_continued_store kc n = (old, kc')" and "0 \<le> old"
  shows "kvstore_restore_suppressed_continued kc' old n = kc \<and>
    (\<forall>m \<le> n. kvstore_continued_store_target kc' m = 0)"
proof -
  have t: "kvstore_continued_store_target kc n = n" and old: "old = kc_continued_last_store_tokens kc"
    and kc': "kc' = kvstore_note_store kc n"
    using assms by (auto simp: kvstore_suppress_continued_store_def split: if_splits)
  have "kvstore_continued_store_target kc' m = 0" if "m \<le> n" for m
    using that by (auto simp: kc' kvstore_note_store_def kvstore_continued_store_target_def Let_def)
  moreover have "kvstore_restore_suppressed_continued kc' old n = kc"
    using assms(2)
    by (cases kc) (auto simp: kc' old kvstore_note_store_def kvstore_restore_suppressed_continued_def)
  ultimately show ?thesis by blast
qed

theorem suppress_restore_continued_witness:
  "kvstore_restore_suppressed_continued
     (snd (kvstore_suppress_continued_store
        (kvstore_zero\<lparr>kc_enabled := True, kc_opt := kvstore_default_options\<rparr>) 10240)) 0 10240 =
   kvstore_zero\<lparr>kc_enabled := True, kc_opt := kvstore_default_options\<rparr>"
proof -
  let ?kc = "kvstore_zero\<lparr>kc_enabled := True, kc_opt := kvstore_default_options\<rparr>"
  have "kvstore_continued_store_target ?kc 10240 = 10240"
    by (simp add: kvstore_continued_store_target_def kv_cache_continued_step_def kvstore_zero_def
        kvstore_default_options_def c_arith)
  then have "kvstore_suppress_continued_store ?kc 10240 =
      (0, snd (kvstore_suppress_continued_store ?kc 10240))"
    by (simp add: kvstore_suppress_continued_store_def kvstore_zero_def)
  from suppress_restore_continued [OF this] show ?thesis by simp
qed

text \<open>
  The budget test is exact in the integers: \<open>ds4_kvstore_file_size_fits\<close> accepts just
  when the file's true size is below \<open>2^64\<close> and, under a budget, the size plus one per
  cent rounded up is within it; no 64-bit sum in it wraps.
\<close>

theorem file_size_fits_iff:
  "fst (kvstore_file_size_fits kc t p r) \<longleftrightarrow>
     (let total = 52 + unat t + unat p + unat r
      in total < 2 ^ 64 \<and> (kc_budget_bytes kc = 0 \<or>
           total + (total + 99) div 100 \<le> unat (kc_budget_bytes kc)))"
  unfolding file_size_fits_exact Let_def ..

lemma chat_anchor_loop_cases:
  fixes u a :: int and ts :: "int list"
  defines "pre \<equiv> takeWhile (\<lambda>t. t \<noteq> a) ts"
  shows "u \<notin> set pre \<and> chat_anchor_loop u a i ts l = l \<or>
    (\<exists>k < length pre. chat_anchor_loop u a i ts l = i + int k \<and> pre ! k = u \<and>
       (\<forall>j < length pre. k < j \<longrightarrow> pre ! j \<noteq> u))"
  unfolding pre_def
proof (induction ts arbitrary: i l)
  case (Cons t ts)
  let ?pre = "takeWhile (\<lambda>t. t \<noteq> a) ts"
  show ?case
  proof (cases "t = a")
    case False
    let ?l = "if t = u then i else l"
    consider (none) "u \<notin> set ?pre" "chat_anchor_loop u a (i + 1) ts ?l = ?l"
      | (some) k where "k < length ?pre" "chat_anchor_loop u a (i + 1) ts ?l = i + 1 + int k"
        "?pre ! k = u" "\<forall>j < length ?pre. k < j \<longrightarrow> ?pre ! j \<noteq> u"
      using Cons.IH [of "i + 1" ?l] by blast
    then show ?thesis
    proof cases
      case none
      have "\<forall>j < length (t # ?pre). 0 < j \<longrightarrow> (t # ?pre) ! j \<noteq> u"
        using none(1) by (auto simp: nth_Cons' in_set_conv_nth)
      then show ?thesis using none False by (cases "t = u") auto
    next
      case some
      have "\<forall>j < length (t # ?pre). Suc k < j \<longrightarrow> (t # ?pre) ! j \<noteq> u"
        using some(4) by (auto simp: nth_Cons')
      then show ?thesis
        using some False by (intro disjI2 exI [of _ "Suc k"]) simp
    qed
  qed simp
qed simp

text \<open>
  The chat anchor is the last user marker before the first assistant marker, when there
  is one at or past the minimum; otherwise there is none (\<open>-1\<close>).
\<close>

theorem chat_anchor_pos_spec:
  fixes kc v user assistant
  defines "pre \<equiv> takeWhile (\<lambda>t. t \<noteq> assistant) v" and "low \<equiv> opt_min_tokens (kc_opt kc)"
    and "r \<equiv> kvstore_chat_anchor_pos kc (Some v) user assistant"
  assumes "0 \<le> low" and "0 \<le> user" and "0 \<le> assistant"
  shows "(r = -1 \<or> 0 \<le> r \<and> nat r < length pre \<and> pre ! nat r = user \<and>
      (\<forall>j. nat r < j \<and> j < length pre \<longrightarrow> pre ! j \<noteq> user) \<and> low \<le> r) \<and>
    (\<forall>j < length pre. pre ! j = user \<and> low \<le> int j \<longrightarrow> int j \<le> r)"
proof -
  let ?l = "chat_anchor_loop user assistant 0 v (-1)"
  have r: "r = (if low \<le> ?l then ?l else -1)"
    using assms(5,6) by (simp add: r_def low_def kvstore_chat_anchor_pos_def Let_def)
  consider (none) "user \<notin> set pre" "?l = -1"
    | (some) k where "k < length pre" "?l = int k" "pre ! k = user"
      "\<forall>j < length pre. k < j \<longrightarrow> pre ! j \<noteq> user"
    using chat_anchor_loop_cases [of user assistant v 0 "-1"] unfolding pre_def by auto
  then show ?thesis
  proof cases
    case none
    then show ?thesis by (auto simp: r in_set_conv_nth)
  next
    case some
    have "int j \<le> r" if "j < length pre" "pre ! j = user" "low \<le> int j" for j
    proof -
      have "\<not> k < j" using that some(4) by blast
      then show ?thesis using some(2) that(3) by (simp add: r)
    qed
    then show ?thesis using some by (auto simp: r)
  qed
qed

theorem chat_anchor_pos_spec_witness:
  "(3::int) \<le> kvstore_chat_anchor_pos kvstore_zero (Some [7, 5, 1, 5, 2, 9, 5]) 5 9"
  using chat_anchor_pos_spec [of kvstore_zero 5 9 "[7, 5, 1, 5, 2, 9, 5]"]
  by (auto simp: kvstore_zero_def dest: spec [of _ "3::nat"])

end
