(* ===== verification/Kv_Files.thy ===== *)
theory Kv_Files
  imports Kv_Policy "HOL-Library.AList"
begin

unbundle bit_operations_syntax

section \<open>Checkpoint files on disk\<close>

text \<open>
  The file operations the store uses, and the functions of \<open>ds4_kvstore.c\<close> that read and
  rewrite one file: \<open>ds4_kvstore_read_entry_file\<close>, \<open>kv_cache_refresh\<close>,
  \<open>ds4_kvstore_touch_file\<close> and \<open>kv_cache_file_text_matches\<close>.

  The disk is an association list from paths to contents, in directory order; a record of
  predicates says which system calls succeed (\<open>os\<close>), so that every error branch of the
  code is a branch of the model. \<open>os_fwrites p\<close> stands for the results of
  \<open>fseek\<close> and \<open>fwrite\<close> on \<open>p\<close>, which only fill the stream's buffer, and
  \<open>os_flushes p\<close> for \<open>fflush\<close> and \<open>fclose\<close>, which move the buffer to the file;
  \<open>os_spill p b\<close> is what reaches the file when writing \<open>b\<close> fails. Each predicate has one answer per
  path for the duration of an operation: a second flush of the same stream does not fail after a first one
  that succeeded.
\<close>

subsection \<open>The disk\<close>

type_synonym files = "(string \<times> bytes) list"

record os_env =
  os_readable :: "string \<Rightarrow> bool"
  os_writable :: "string \<Rightarrow> bool"
  os_unlinkable :: "string \<Rightarrow> bool"
  os_renamable :: "string \<Rightarrow> bool"
  os_fwrites :: "string \<Rightarrow> bool"
  os_flushes :: "string \<Rightarrow> bool"
  os_truncates :: "string \<Rightarrow> bool"
  os_spill :: "string \<Rightarrow> bytes \<Rightarrow> bytes"
  os_listable :: "string \<Rightarrow> bool"
  os_mkdirable :: "string \<Rightarrow> bool"
  os_time :: u64
  os_pid :: string

definition os_fine :: os_env where
  "os_fine = \<lparr>os_readable = (\<lambda>_. True), os_writable = (\<lambda>_. True), os_unlinkable = (\<lambda>_. True),
     os_renamable = (\<lambda>_. True), os_fwrites = (\<lambda>_. True),
     os_flushes = (\<lambda>_. True), os_truncates = (\<lambda>_. True), os_spill = (\<lambda>_ b. b),
     os_listable = (\<lambda>_. True),
     os_mkdirable = (\<lambda>_. True), os_time = 1000, os_pid = ''42''\<rparr>"

lemma os_fine_sel [simp]:
  "os_readable os_fine p" "os_writable os_fine p" "os_unlinkable os_fine p" "os_renamable os_fine p"
  "os_fwrites os_fine p" "os_flushes os_fine p" "os_truncates os_fine p" "os_listable os_fine p" "os_mkdirable os_fine p"
  "os_time os_fine = 1000" "os_pid os_fine = ''42''"
  by (simp_all add: os_fine_def)

definition fs_get :: "files \<Rightarrow> string \<Rightarrow> bytes option" where
  "fs_get fs p = map_of fs p"

definition fs_put :: "string \<Rightarrow> bytes \<Rightarrow> files \<Rightarrow> files" where
  "fs_put p b fs = AList.update p b fs"

definition fs_del :: "string \<Rightarrow> files \<Rightarrow> files" where
  "fs_del p fs = AList.delete p fs"

text \<open>\<open>rename\<close> replaces the target atomically; a missing source is an error.\<close>

definition fs_rename :: "string \<Rightarrow> string \<Rightarrow> files \<Rightarrow> files" where
  "fs_rename a b fs = (case fs_get fs a of None \<Rightarrow> fs | Some c \<Rightarrow> fs_put b c (fs_del a fs))"

text \<open>The names \<open>readdir\<close> returns for a directory, in directory order.\<close>

definition fs_names :: "string \<Rightarrow> files \<Rightarrow> string list" where
  "fs_names dir fs =
     (let pre = kvstore_path_join dir [] in
      map (drop (length pre))
        (filter (\<lambda>p. take (length pre) p = pre \<and> drop (length pre) p \<noteq> [] \<and>
           CHR ''/'' \<notin> set (drop (length pre) p)) (map fst fs)))"

text \<open>
  What the store relies on: a path that was written reads back, other paths are untouched,
  a removed path is gone.
\<close>

locale file_disk =
  fixes get :: "'fs \<Rightarrow> 'p \<Rightarrow> 'c option"
    and put :: "'p \<Rightarrow> 'c \<Rightarrow> 'fs \<Rightarrow> 'fs"
    and del :: "'p \<Rightarrow> 'fs \<Rightarrow> 'fs"
    and ren :: "'p \<Rightarrow> 'p \<Rightarrow> 'fs \<Rightarrow> 'fs"
  assumes get_put: "get (put p c fs) q = (if q = p then Some c else get fs q)"
    and get_del: "get (del p fs) q = (if q = p then None else get fs q)"
    and ren_eq: "get fs a = Some c \<Longrightarrow> ren a b fs = put b c (del a fs)"
begin

lemma get_ren:
  "get fs a = Some c \<Longrightarrow> get (ren a b fs) q = (if q = b then Some c else if q = a then None else get fs q)"
  by (simp add: ren_eq get_put get_del)

text \<open>Writing a temporary file and renaming it publishes the whole content at once.\<close>

lemma publish:
  assumes "t \<noteq> p"
  shows "get (ren t p (put t c fs)) p = Some c"
    and "get (ren t p (put t c fs)) t = None"
    and "q \<noteq> p \<Longrightarrow> q \<noteq> t \<Longrightarrow> get (ren t p (put t c fs)) q = get fs q"
    and "get (put t c fs) p = get fs p"
  using assms by (simp_all add: get_ren [where c = c] get_put)

end

interpretation disk: file_disk fs_get fs_put fs_del fs_rename
  by unfold_locales
    (simp_all add: fs_get_def fs_put_def fs_del_def fs_rename_def update_conv' delete_conv')

lemma distinct_put: "distinct (map fst fs) \<Longrightarrow> distinct (map fst (fs_put p c fs))"
  by (simp add: fs_put_def distinct_update)

lemma distinct_del: "distinct (map fst fs) \<Longrightarrow> distinct (map fst (fs_del p fs))"
  by (simp add: fs_del_def distinct_delete)

lemma path_join_split: "kvstore_path_join dir n = kvstore_path_join dir [] @ n"
  by (simp add: kvstore_path_join_def)

lemma fs_names_iff:
  "n \<in> set (fs_names dir fs) \<longleftrightarrow>
     n \<noteq> [] \<and> CHR ''/'' \<notin> set n \<and> kvstore_path_join dir n \<in> fst ` set fs"
proof -
  define pre where "pre = kvstore_path_join dir []"
  define ok where "ok p \<longleftrightarrow> take (length pre) p = pre \<and> drop (length pre) p \<noteq> [] \<and>
    CHR ''/'' \<notin> set (drop (length pre) p)" for p
  have mem: "n \<in> set (fs_names dir fs) \<longleftrightarrow> (\<exists>p \<in> fst ` set fs. ok p \<and> n = drop (length pre) p)"
    by (auto simp: fs_names_def Let_def pre_def ok_def)
  have "p = pre @ n" if "ok p" "n = drop (length pre) p" for p
    using that by (metis append_take_drop_id ok_def)
  moreover have "ok (pre @ n) \<longleftrightarrow> n \<noteq> [] \<and> CHR ''/'' \<notin> set n" by (simp add: ok_def)
  ultimately show ?thesis
    unfolding mem path_join_split [of dir n] pre_def [symmetric]
    by (metis append_eq_conv_conj)
qed

lemma fs_get_in: "fs_get fs p = Some c \<Longrightarrow> p \<in> fst ` set fs"
  by (force simp: fs_get_def dest: map_of_SomeD)

subsection \<open>Reading one file\<close>

definition kvstore_read_entry_file :: "os_env \<Rightarrow> files \<Rightarrow> string \<Rightarrow> string \<Rightarrow> kv_entry option" where
  "kvstore_read_entry_file os fs path sha =
     (case fs_get fs path of None \<Rightarrow> None
      | Some bs \<Rightarrow>
          if length bs < 52 then None
          else if \<not> os_readable os path then None
          else case kvstore_read_header bs of None \<Rightarrow> None
          | Some (e, text_bytes, _) \<Rightarrow>
              let fixed = 52 :: u64; tb = ucast text_bytes :: u64 in
              if u64_max - fixed < tb \<or> u64_max - fixed - tb < e_payload_bytes e then None
              else let expected = fixed + tb + e_payload_bytes e;
                       size = of_nat (length bs) :: u64
                   in if size < expected then None
                      else Some (e\<lparr>e_sha := sha, e_path := path, e_file_size := size\<rparr>))"

fun kv_cache_scan :: "os_env \<Rightarrow> files \<Rightarrow> string list \<Rightarrow> kvstore \<Rightarrow> kvstore" where
  "kv_cache_scan os fs [] kc = kc"
| "kv_cache_scan os fs (n # ns) kc =
     (case kvstore_sha_hex_name n of None \<Rightarrow> kv_cache_scan os fs ns kc
      | Some sha \<Rightarrow>
          case kvstore_read_entry_file os fs (kvstore_path_join (kc_dir kc) n) sha of
            Some e \<Rightarrow> kv_cache_scan os fs ns (kv_cache_push kc e)
          | None \<Rightarrow> kv_cache_scan os fs ns kc)"

definition kv_cache_refresh :: "os_env \<Rightarrow> files \<Rightarrow> kvstore \<Rightarrow> kvstore" where
  "kv_cache_refresh os fs kc =
     (if \<not> kc_enabled kc then kc
      else let kc1 = kvstore_clear kc in
           if \<not> os_listable os (kc_dir kc) then kc1
           else kv_cache_scan os fs (fs_names (kc_dir kc) fs) kc1)"

definition kvstore_touch_file :: "os_env \<Rightarrow> files \<Rightarrow> string \<Rightarrow> u32 \<Rightarrow> bool \<times> files" where
  "kvstore_touch_file os fs path hits =
     (case fs_get fs path of None \<Rightarrow> (False, fs)
      | Some bs \<Rightarrow>
          if \<not> os_writable os path then (False, fs)
          else case kvstore_read_header bs of None \<Rightarrow> (False, fs)
          | Some (e, text_bytes, _) \<Rightarrow>
              if \<not> os_fwrites os path then (False, fs)
              else (True, if \<not> os_flushes os path then fs
                 else fs_put path
                     (kvstore_fill_header (e_model_id e) (e_quant_bits e) (e_reason e) (e_ext_flags e)
                        (e_tokens e) hits (e_ctx_size e) (e_created_at e) (os_time os)
                        (e_payload_bytes e) @ drop 48 bs) fs))"

definition kv_cache_file_text_matches :: "os_env \<Rightarrow> files \<Rightarrow> string \<Rightarrow> string \<Rightarrow> bytes \<Rightarrow> bool" where
  "kv_cache_file_text_matches os fs path sha text =
     (if length text > 2 ^ 32 - 1 then False
      else if \<not> os_readable os path then False
      else case fs_get fs path of None \<Rightarrow> False
      | Some bs \<Rightarrow>
          case kvstore_read_header bs of None \<Rightarrow> False
          | Some (hdr, text_bytes, rest) \<Rightarrow>
              if text_bytes \<noteq> of_nat (length text) then False
              else let stored = take (unat text_bytes) rest in
                   if length stored \<noteq> unat text_bytes then False
                   else sha1_bytes_hex stored = sha \<and> (length text = 0 \<or> stored = text))"

subsection \<open>The layout of a record\<close>

text \<open>The bytes of a complete record, as \<open>ds4_kvstore_store_live_prefix_text\<close> writes them.\<close>

definition kv_record_bytes :: "u8 \<Rightarrow> u8 \<Rightarrow> u8 \<Rightarrow> u8 \<Rightarrow> u32 \<Rightarrow> u32 \<Rightarrow> u32 \<Rightarrow> u64 \<Rightarrow> u64 \<Rightarrow>
    bytes \<Rightarrow> bytes \<Rightarrow> bytes \<Rightarrow> bytes" where
  "kv_record_bytes m q r x t h c ca lu text payload trailer =
     kvstore_fill_header m q r x t h c ca lu (of_nat (length payload)) @
     le_put32 (of_nat (length text)) @ text @ payload @ trailer"

lemma length_kv_record_bytes:
  "length (kv_record_bytes m q r x t h c ca lu text payload trailer) =
     52 + length text + length payload + length trailer"
  by (simp add: kv_record_bytes_def)

lemma read_header_record:
  assumes "t \<noteq> 0" and "q = 2 \<or> q = 4"
  shows "kvstore_read_header (kv_record_bytes m q r x t h c ca lu text payload trailer) =
    Some (kv_header_entry m q r x t h c ca lu (of_nat (length payload)) (of_nat (length text)),
      of_nat (length text), text @ payload @ trailer)"
  unfolding kv_record_bytes_def by (rule read_fill_header [OF assms])

lemma unat_of_nat_u64: "n < 2 ^ 64 \<Longrightarrow> unat (of_nat n :: u64) = n"
  by (simp add: unat_of_nat take_bit_eq_mod)

lemma unat_of_nat_u32: "n < 2 ^ 32 \<Longrightarrow> unat (of_nat n :: u32) = n"
  by (simp add: unat_of_nat take_bit_eq_mod)

text \<open>The entry a complete record reads as.\<close>

definition kv_record_entry :: "string \<Rightarrow> string \<Rightarrow> u8 \<Rightarrow> u8 \<Rightarrow> u8 \<Rightarrow> u8 \<Rightarrow> u32 \<Rightarrow> u32 \<Rightarrow> u32 \<Rightarrow>
    u64 \<Rightarrow> u64 \<Rightarrow> bytes \<Rightarrow> bytes \<Rightarrow> bytes \<Rightarrow> kv_entry" where
  "kv_record_entry path sha m q r x t h c ca lu text payload trailer =
     (kv_header_entry m q r x t h c ca lu (of_nat (length payload)) (of_nat (length text)))
       \<lparr>e_sha := sha, e_path := path,
        e_file_size := of_nat (52 + length text + length payload + length trailer)\<rparr>"

lemma read_entry_file_record:
  assumes "fs_get fs path = Some (kv_record_bytes m q r x t h c ca lu text payload trailer)"
    and "os_readable os path" and "t \<noteq> 0" and "q = 2 \<or> q = 4" and "length text < 2 ^ 32"
    and "52 + length text + length payload + length trailer < 2 ^ 64"
  shows "kvstore_read_entry_file os fs path sha =
    Some (kv_record_entry path sha m q r x t h c ca lu text payload trailer)"
proof -
  let ?tb = "ucast (of_nat (length text) :: u32) :: u64"
  let ?pb = "of_nat (length payload) :: u64"
  have tb: "unat ?tb = length text" and pb: "unat ?pb = length payload"
    using assms(5,6) by (simp_all add: unat_of_nat_u32 unat_of_nat_u64)
  have f: "kv_cache_file_size_bytes ?tb ?pb 0 = Some (52 + ?tb + ?pb + 0)"
    unfolding file_size_bytes_exact tb pb using assms(6) by simp
  have "\<not> (u64_max - 52 < ?tb \<or> u64_max - 52 - ?tb < ?pb)"
    using f by (auto simp: kv_cache_file_size_bytes_def Let_def split: if_splits)
  moreover have "unat (52 + ?tb + ?pb) = 52 + length text + length payload"
    using file_size_bytes_unat [OF f] tb pb by simp
  then have "\<not> (of_nat (52 + length text + length payload + length trailer) :: u64) < 52 + ?tb + ?pb"
    using assms(6) by (simp add: word_less_nat_alt unat_of_nat_u64 del: of_nat_add of_nat_numeral)
  ultimately show ?thesis
    using assms(1-4)
    by (simp add: kvstore_read_entry_file_def Let_def read_header_record length_kv_record_bytes
        kv_record_entry_def kv_header_entry_def del: of_nat_add of_nat_numeral)
qed

subsection \<open>Properties\<close>

text \<open>The entries a directory holds: every file with a checkpoint name that reads as one.\<close>

definition kv_name_entry :: "os_env \<Rightarrow> files \<Rightarrow> string \<Rightarrow> string \<Rightarrow> kv_entry option" where
  "kv_name_entry os fs dir n = (case kvstore_sha_hex_name n of None \<Rightarrow> None
     | Some sha \<Rightarrow> kvstore_read_entry_file os fs (kvstore_path_join dir n) sha)"

definition kv_dir_entries :: "os_env \<Rightarrow> files \<Rightarrow> string \<Rightarrow> kv_entry list" where
  "kv_dir_entries os fs dir = List.map_filter (kv_name_entry os fs dir) (fs_names dir fs)"

lemma kv_cache_scan_Cons:
  "kv_cache_scan os fs (n # ns) kc = (case kv_name_entry os fs (kc_dir kc) n of
     None \<Rightarrow> kv_cache_scan os fs ns kc | Some e \<Rightarrow> kv_cache_scan os fs ns (kv_cache_push kc e))"
  by (simp add: kv_name_entry_def split: option.split)

lemma kv_cache_scan_eq:
  "kv_cache_scan os fs ns kc = kc\<lparr>kc_entry := kc_entry kc @
     List.map_filter (kv_name_entry os fs (kc_dir kc)) ns\<rparr>"
  by (induction ns arbitrary: kc)
    (auto simp: kv_cache_scan_Cons map_filter_simps kv_cache_push_def simp del: kv_cache_scan.simps(2)
      split: option.splits)

lemma kv_cache_refresh_eq:
  "kc_enabled kc \<Longrightarrow> os_listable os (kc_dir kc) \<Longrightarrow>
    kv_cache_refresh os fs kc = kc\<lparr>kc_entry := kv_dir_entries os fs (kc_dir kc)\<rparr>"
  by (simp add: kv_cache_refresh_def Let_def kv_cache_scan_eq kvstore_clear_def kv_dir_entries_def)

lemma kv_cache_refresh_fields [simp]:
  "kc_enabled (kv_cache_refresh os fs kc) = kc_enabled kc"
  "kc_dir (kv_cache_refresh os fs kc) = kc_dir kc"
  "kc_budget_bytes (kv_cache_refresh os fs kc) = kc_budget_bytes kc"
  "kc_reject_different_quant (kv_cache_refresh os fs kc) = kc_reject_different_quant kc"
  "kc_opt (kv_cache_refresh os fs kc) = kc_opt kc"
  "kc_continued_last_store_tokens (kv_cache_refresh os fs kc) = kc_continued_last_store_tokens kc"
  by (simp_all add: kv_cache_refresh_def Let_def kv_cache_scan_eq kvstore_clear_def)

lemma read_entry_file_Some:
  assumes "kvstore_read_entry_file os fs path sha = Some e"
  obtains bs hdr tb rest where "fs_get fs path = Some bs" and "os_readable os path"
    and "kvstore_read_header bs = Some (hdr, tb, rest)"
    and "e = hdr\<lparr>e_sha := sha, e_path := path, e_file_size := of_nat (length bs)\<rparr>"
    and "\<not> (u64_max - 52 < ucast tb \<or> u64_max - 52 - ucast tb < e_payload_bytes hdr)"
    and "\<not> of_nat (length bs) < 52 + ucast tb + e_payload_bytes hdr"
  using assms
  by (auto simp: kvstore_read_entry_file_def Let_def split: option.splits if_splits prod.splits)

lemma mem_kv_dir_entries:
  "e \<in> set (kv_dir_entries os fs dir) \<longleftrightarrow> (\<exists>n sha. n \<in> set (fs_names dir fs) \<and>
     kvstore_sha_hex_name n = Some sha \<and>
     kvstore_read_entry_file os fs (kvstore_path_join dir n) sha = Some e)"
  unfolding kv_dir_entries_def map_filter_def kv_name_entry_def
  by (auto simp: image_iff split: option.splits)

lemma record_length_guard:
  fixes tb :: u32 and p :: u64 and k :: nat
  shows "\<not> (u64_max - 52 < ucast tb \<or> u64_max - 52 - ucast tb < p) \<and>
      \<not> of_nat k < 52 + ucast tb + p \<longleftrightarrow>
      52 + unat tb + unat p < 2 ^ 64 \<and> 52 + unat tb + unat p \<le> k mod 2 ^ 64"
proof (cases "52 + unat tb + unat p < 2 ^ 64")
  case True
  then have f: "kv_cache_file_size_bytes (ucast tb) p 0 = Some (52 + ucast tb + p + 0)"
    by (simp add: file_size_bytes_exact)
  moreover have "unat (52 + ucast tb + p) = 52 + unat tb + unat p"
    using file_size_bytes_unat [OF f] by simp
  moreover have "unat (of_nat k :: u64) = k mod 2 ^ 64"
    by (simp add: unat_of_nat take_bit_eq_mod)
  ultimately show ?thesis
    using True by (auto simp: kv_cache_file_size_bytes_def Let_def word_less_nat_alt split: if_splits)
next
  case False
  then have "kv_cache_file_size_bytes (ucast tb) p 0 = None"
    by (simp add: file_size_bytes_exact)
  then show ?thesis
    using False by (auto simp: kv_cache_file_size_bytes_def Let_def split: if_splits)
qed

lemma read_entry_file_iff:
  "kvstore_read_entry_file os fs path sha = Some e \<longleftrightarrow>
    (\<exists>bs hdr tb rest. fs_get fs path = Some bs \<and> os_readable os path \<and>
      kvstore_read_header bs = Some (hdr, tb, rest) \<and>
      52 + unat tb + unat (e_payload_bytes hdr) < 2 ^ 64 \<and>
      52 + unat tb + unat (e_payload_bytes hdr) \<le> length bs mod 2 ^ 64 \<and>
      e = hdr\<lparr>e_sha := sha, e_path := path, e_file_size := of_nat (length bs)\<rparr>)" (is "?l \<longleftrightarrow> ?r")
proof
  assume ?l
  then obtain bs hdr tb rest where o: "fs_get fs path = Some bs" "os_readable os path"
      "kvstore_read_header bs = Some (hdr, tb, rest)"
      "e = hdr\<lparr>e_sha := sha, e_path := path, e_file_size := of_nat (length bs)\<rparr>"
    and "\<not> (u64_max - 52 < ucast tb \<or> u64_max - 52 - ucast tb < e_payload_bytes hdr)"
      "\<not> of_nat (length bs) < 52 + ucast tb + e_payload_bytes hdr"
    by (rule read_entry_file_Some)
  then show ?r using record_length_guard [of tb "e_payload_bytes hdr" "length bs"] o by metis
next
  assume ?r
  then obtain bs hdr tb rest where o: "fs_get fs path = Some bs" "os_readable os path"
      "kvstore_read_header bs = Some (hdr, tb, rest)"
      "e = hdr\<lparr>e_sha := sha, e_path := path, e_file_size := of_nat (length bs)\<rparr>"
    and "\<not> (u64_max - 52 < ucast tb \<or> u64_max - 52 - ucast tb < e_payload_bytes hdr) \<and>
      \<not> of_nat (length bs) < 52 + ucast tb + e_payload_bytes hdr"
    unfolding record_length_guard by blast
  moreover have "\<not> length bs < 52" using read_header_Some(1) [OF o(3)] by simp
  ultimately show ?l
    by (simp add: kvstore_read_entry_file_def Let_def)
qed

text \<open>
  \<open>kv_cache_refresh\<close> makes the entry list exactly the directory's valid checkpoints:
  an entry is listed just when a file whose name is forty hex digits and \<open>.kv\<close> reads as
  a record at least as long as its header says, and it carries that file's path and size.
\<close>

theorem refresh_lists_directory:
  assumes "kc_enabled kc" and "os_listable os (kc_dir kc)"
  shows "e \<in> set (kc_entry (kv_cache_refresh os fs kc)) \<longleftrightarrow>
    (\<exists>n sha bs hdr tb rest. n \<in> set (fs_names (kc_dir kc) fs) \<and> kvstore_sha_hex_name n = Some sha \<and>
      fs_get fs (kvstore_path_join (kc_dir kc) n) = Some bs \<and>
      os_readable os (kvstore_path_join (kc_dir kc) n) \<and>
      kvstore_read_header bs = Some (hdr, tb, rest) \<and>
      52 + unat tb + unat (e_payload_bytes hdr) < 2 ^ 64 \<and>
      52 + unat tb + unat (e_payload_bytes hdr) \<le> length bs mod 2 ^ 64 \<and>
      e = hdr\<lparr>e_sha := sha, e_path := kvstore_path_join (kc_dir kc) n,
        e_file_size := of_nat (length bs)\<rparr>)"
  using assms by (simp add: kv_cache_refresh_eq mem_kv_dir_entries read_entry_file_iff)

definition wit_store :: kvstore where
  "wit_store = kvstore_zero\<lparr>kc_enabled := True, kc_dir := ''/kv'', kc_budget_bytes := 1000,
     kc_opt := kvstore_default_options\<rparr>"

lemma wit_store_sel [simp]:
  "kc_enabled wit_store" "kc_dir wit_store = ''/kv''" "kc_budget_bytes wit_store = 1000"
  "kc_reject_different_quant wit_store = False" "kc_opt wit_store = kvstore_default_options"
  by (simp_all add: wit_store_def kvstore_zero_def)

definition wit_name :: string where
  "wit_name = replicate 40 (CHR ''a'') @ ''.kv''"

definition wit_record :: bytes where
  "wit_record = kv_record_bytes 0 2 1 0 7 3 4096 10 20 [65, 66] [1, 2, 3] []"

definition wit_files :: files where
  "wit_files = [(''/kv/'' @ wit_name, wit_record), (''/kv/readme'', [1, 2, 3])]"

theorem refresh_lists_directory_witness:
  "kv_record_entry (''/kv/'' @ wit_name) (replicate 40 (CHR ''a'')) 0 2 1 0 7 3 4096 10 20
     [65, 66] [1, 2, 3] [] \<in> set (kc_entry (kv_cache_refresh os_fine wit_files wit_store))"
proof -
  have "fs_get wit_files (''/kv/'' @ wit_name) = Some wit_record"
    by (simp add: wit_files_def fs_get_def)
  moreover have "kvstore_sha_hex_name wit_name = Some (replicate 40 (CHR ''a''))"
    by code_simp
  moreover have "wit_name \<in> set (fs_names ''/kv'' wit_files)"
    by code_simp
  moreover have "kvstore_read_header wit_record = Some (kv_header_entry 0 2 1 0 7 3 4096 10 20 3 2, 2, [65, 66, 1, 2, 3])"
    unfolding wit_record_def by (subst read_header_record) simp_all
  moreover have "length wit_record = 57"
    by (simp add: wit_record_def length_kv_record_bytes)
  ultimately show ?thesis
    by (subst refresh_lists_directory)
      (auto simp: kvstore_path_join_def kv_record_entry_def kv_header_entry_def)
qed

lemma drop48_split: "drop 48 bs = bslice 48 4 bs @ drop 52 bs" for bs :: bytes
proof -
  have "drop 52 bs = drop 4 (drop 48 bs)" by simp
  then show ?thesis unfolding bslice_def by (simp only: append_take_drop_id)
qed

text \<open>Touching a file leaves its length field, text and payload in place.\<close>

lemma touch_file_header:
  assumes "kvstore_read_header bs = Some (e, tb, rest)"
  shows "kvstore_read_header (kvstore_fill_header (e_model_id e) (e_quant_bits e) (e_reason e)
      (e_ext_flags e) (e_tokens e) hits (e_ctx_size e) (e_created_at e) now (e_payload_bytes e) @
      drop 48 bs) = Some (e\<lparr>e_hits := hits, e_last_used := now\<rparr>, tb, rest)"
proof -
  note r = read_header_Some [OF assms]
  have len: "length (bslice 48 4 bs) = 4"
    using r(1) by simp
  show ?thesis
    unfolding drop48_split [of bs] using r(3-6) by (simp add: read_fill_header_tb [OF len]) (simp add: r(2) kv_header_entry_def)
qed

text \<open>
  \<open>ds4_kvstore_touch_file\<close> changes the hit count and the time of last use of the
  entry and nothing else: the rewritten file reads as the same record with those two
  fields, its text and payload bytes stay, and no other file changes; a touch that reports
  failure, or whose write is lost when the stream is closed, leaves the disk as it was.
\<close>

theorem touch_file_updates_usage:
  assumes "kvstore_touch_file os fs path hits = (ok, fs')"
    and "kvstore_read_entry_file os fs path sha = Some e"
  shows "kvstore_read_entry_file os fs' path sha =
      Some (if ok \<and> os_flushes os path then e\<lparr>e_hits := hits, e_last_used := os_time os\<rparr> else e) \<and>
    (\<forall>q. q \<noteq> path \<longrightarrow> fs_get fs' q = fs_get fs q) \<and>
    map_option (drop 48) (fs_get fs' path) = map_option (drop 48) (fs_get fs path) \<and>
    (\<not> (ok \<and> os_flushes os path) \<longrightarrow> fs' = fs)"
proof -
  from assms(2) obtain bs hdr tb rest where o: "fs_get fs path = Some bs" "os_readable os path"
      "kvstore_read_header bs = Some (hdr, tb, rest)"
      "52 + unat tb + unat (e_payload_bytes hdr) < 2 ^ 64"
      "52 + unat tb + unat (e_payload_bytes hdr) \<le> length bs mod 2 ^ 64"
      "e = hdr\<lparr>e_sha := sha, e_path := path, e_file_size := of_nat (length bs)\<rparr>"
    unfolding read_entry_file_iff by blast
  let ?bs = "kvstore_fill_header (e_model_id hdr) (e_quant_bits hdr) (e_reason hdr)
      (e_ext_flags hdr) (e_tokens hdr) hits (e_ctx_size hdr) (e_created_at hdr) (os_time os)
      (e_payload_bytes hdr) @ drop 48 bs"
  show ?thesis
  proof (cases "ok \<and> os_flushes os path")
    case False
    then have "fs' = fs"
      using assms(1) o(1,3) by (auto simp: kvstore_touch_file_def split: if_splits)
    then show ?thesis using False assms(2) by auto
  next
    case True
    have fs': "fs' = fs_put path ?bs fs"
      using True assms(1) o(1,3) by (auto simp: kvstore_touch_file_def split: if_splits)
    have len: "length ?bs = length bs"
      using read_header_Some(1) [OF o(3)] by simp
    have "kvstore_read_entry_file os fs' path sha = Some (e\<lparr>e_hits := hits, e_last_used := os_time os\<rparr>)"
      unfolding read_entry_file_iff fs' disk.get_put
      using o len touch_file_header [OF o(3), of hits "os_time os"] by (simp add: len)
    then show ?thesis
      using True o(1) by (simp add: fs' disk.get_put)
  qed
qed

theorem touch_file_updates_usage_witness:
  "let (ok, fs') = kvstore_touch_file os_fine wit_files (''/kv/'' @ wit_name) 4 in
   ok \<and> kvstore_read_entry_file os_fine fs' (''/kv/'' @ wit_name) [] =
     Some ((kv_record_entry (''/kv/'' @ wit_name) [] 0 2 1 0 7 3 4096 10 20 [65, 66] [1, 2, 3] [])
       \<lparr>e_hits := 4, e_last_used := 1000\<rparr>)"
proof -
  have get: "fs_get wit_files (''/kv/'' @ wit_name) = Some wit_record"
    by (simp add: wit_files_def fs_get_def)
  obtain ok fs' where t: "kvstore_touch_file os_fine wit_files (''/kv/'' @ wit_name) 4 = (ok, fs')"
    by fastforce
  have r: "kvstore_read_entry_file os_fine wit_files (''/kv/'' @ wit_name) [] =
      Some (kv_record_entry (''/kv/'' @ wit_name) [] 0 2 1 0 7 3 4096 10 20 [65, 66] [1, 2, 3] [])"
    by (rule read_entry_file_record [OF get [unfolded wit_record_def]]) simp_all
  have ok: ok
    using t get by (simp add: kvstore_touch_file_def wit_record_def read_header_record)
  show ?thesis
    unfolding t Let_def prod.case using touch_file_updates_usage [OF t r] ok by simp
qed

end
