(* ===== verification/Kv_Evict.thy ===== *)
theory Kv_Evict
  imports Kv_Files C_Double "HOL-Library.Multiset"
begin

unbundle bit_operations_syntax

section \<open>Eviction\<close>

text \<open>
  The eviction score, the choice of a victim and the eviction loop of
  \<open>ds4_kvstore.c\<close> (\<open>ds4_kvstore_entry_eviction_score\<close>, \<open>ds4_kvstore_evict\<close>) and
  \<open>ds4_kvstore_open\<close>, which evicts once. The score is computed in doubles; the only
  library function it calls, \<open>exp2\<close>, is implementation-defined in its last bits, so it is a
  parameter, and \<open>exp2_decay\<close> states what the ranking needs of it on the arguments the
  code passes, which are never positive.
\<close>

subsection \<open>The score\<close>

record eviction_context =
  ic_text :: "bytes option"
  ic_text_len :: nat
  ic_model_id :: u8
  ic_quant_bits :: u8
  ic_ctx_size :: u32
  ic_reject_different_quant :: bool

definition kv_cache_incoming_supersedes_continued ::
    "kv_entry \<Rightarrow> eviction_context option \<Rightarrow> bool" where
  "kv_cache_incoming_supersedes_continued e incoming =
     (case incoming of None \<Rightarrow> False
      | Some ic \<Rightarrow>
          case ic_text ic of None \<Rightarrow> False
          | Some text \<Rightarrow>
              if e_reason e \<noteq> reason_num REASON_CONTINUED \<and>
                 e_reason e \<noteq> reason_num REASON_BANK_CHECKPOINT then False
              else if e_text_bytes e = 0 then False
              else if unat (e_text_bytes e) \<ge> ic_text_len ic then False
              else if e_model_id e \<noteq> ic_model_id ic then False
              else if ic_reject_different_quant ic \<and> e_quant_bits e \<noteq> ic_quant_bits ic then False
              else if ic_ctx_size ic > e_ctx_size e then False
              else sha1_bytes_hex (take (unat (e_text_bytes e)) text) = e_sha e)"

definition KV_CACHE_MIN_EFFECTIVE_HITS :: rat where
  "KV_CACHE_MIN_EFFECTIVE_HITS = d_round (1 / 100)"
definition KV_CACHE_CONTINUED_PREFIX_MIN_FACTOR :: rat where
  "KV_CACHE_CONTINUED_PREFIX_MIN_FACTOR = d_round (5 / 100)"
definition KV_CACHE_CONTINUED_PREFIX_HIT_FACTOR :: rat where
  "KV_CACHE_CONTINUED_PREFIX_HIT_FACTOR = d_round (45 / 100)"
definition KV_CACHE_ANCHOR_REASON_SCORE_FACTOR :: rat where
  "KV_CACHE_ANCHOR_REASON_SCORE_FACTOR = 2"
definition KVSTORE_HIT_HALF_LIFE_SECONDS :: u64 where
  "KVSTORE_HIT_HALF_LIFE_SECONDS = 6 * 60 * 60"

definition kv_used_at :: "kv_entry \<Rightarrow> u64" where
  "kv_used_at e = (if e_last_used e \<noteq> 0 then e_last_used e else e_created_at e)"

definition kv_effective_hits :: "(rat \<Rightarrow> rat) \<Rightarrow> kv_entry \<Rightarrow> u64 \<Rightarrow> rat" where
  "kv_effective_hits exp2 e now =
     (let hits = d_of_nat (unat (e_hits e)); used_at = kv_used_at e in
      if used_at = 0 then 0
      else if now > used_at
      then let elapsed = d_of_nat (unat (now - used_at));
               h = d_mul hits (exp2 (d_div (- elapsed) (d_of_nat (unat KVSTORE_HIT_HALF_LIFE_SECONDS))))
           in if h < KV_CACHE_MIN_EFFECTIVE_HITS then 0 else h
      else hits)"

definition kvstore_entry_eviction_score :: "(rat \<Rightarrow> rat) \<Rightarrow> kv_entry \<Rightarrow> int list option \<Rightarrow> u64 \<Rightarrow>
    eviction_context option \<Rightarrow> rat" where
  "kvstore_entry_eviction_score exp2 e live now incoming =
     (if e_file_size e = 0 then 0
      else let effective_hits = kv_effective_hits exp2 e now;
               s0 = d_div (d_mul (d_add effective_hits 1) (d_of_nat (unat (e_tokens e))))
                      (d_of_nat (unat (e_file_size e)));
               s1 = (if kv_cache_reason_is_anchor (e_reason e)
                     then d_mul s0 KV_CACHE_ANCHOR_REASON_SCORE_FACTOR else s0)
           in if kv_cache_incoming_supersedes_continued e incoming
              then let h = (if effective_hits > 0
                            then d_div effective_hits (d_add effective_hits 1) else 0)
                   in d_mul s1 (d_add KV_CACHE_CONTINUED_PREFIX_MIN_FACTOR
                        (d_mul KV_CACHE_CONTINUED_PREFIX_HIT_FACTOR h))
              else s1)"

subsection \<open>The loop\<close>

text \<open>An entry replaces the victim when its score is lower, or equal and used earlier.\<close>

definition kv_evict_before :: "(kv_entry \<Rightarrow> rat) \<Rightarrow> kv_entry \<Rightarrow> kv_entry \<Rightarrow> bool" where
  "kv_evict_before score e v \<longleftrightarrow>
     score e < score v \<or> score e = score v \<and> e_last_used e < e_last_used v"

text \<open>The victim starts as entry 0 and the scan at entry 1.\<close>

fun kv_evict_victim :: "(kv_entry \<Rightarrow> rat) \<Rightarrow> kv_entry list \<Rightarrow> (nat \<times> kv_entry) option" where
  "kv_evict_victim score [] = None"
| "kv_evict_victim score (e # es) =
     scan_best (\<lambda>_. True) (kv_evict_before score) 1 es (Some (0, e))"

definition fs_unlink :: "os_env \<Rightarrow> string \<Rightarrow> files \<Rightarrow> bool \<times> files" where
  "fs_unlink os p fs =
     (if fs_get fs p \<noteq> None \<and> os_unlinkable os p then (True, fs_del p fs) else (False, fs))"

interpretation victim: best_scan "\<lambda>_. True" "kv_evict_before score" for score
  by unfold_locales (auto simp: kv_evict_before_def)

lemma kv_evict_victim_scan:
  "kv_evict_victim score es = scan_best (\<lambda>_. True) (kv_evict_before score) 0 es None"
  by (cases es) simp_all

lemma kv_evict_victim_Some:
  "kv_evict_victim score es = Some (v, e) \<Longrightarrow>
     v < length es \<and> es ! v = e \<and> (\<forall>x \<in> set es. \<not> kv_evict_before score x e)"
  using victim.scan_Some [of score 0 es v e] by (simp add: kv_evict_victim_scan)

lemma kv_evict_victim_None: "kv_evict_victim score es = None \<longleftrightarrow> es = []"
  unfolding kv_evict_victim_scan victim.scan_None_iff by (cases es) auto

function kv_evict_loop :: "os_env \<Rightarrow> (kv_entry \<Rightarrow> rat) \<Rightarrow> u64 \<Rightarrow> u64 \<Rightarrow> kv_entry list \<Rightarrow> files \<Rightarrow>
    kv_entry list \<times> files" where
  "kv_evict_loop os score target tot es fs =
     (if tot > target
      then case kv_evict_victim score es of
             None \<Rightarrow> (es, fs)
           | Some (v, e) \<Rightarrow>
               let (gone, fs1) = fs_unlink os (e_path e) fs;
                   tot1 = (if gone then if tot \<ge> e_file_size e then tot - e_file_size e else 0 else 0)
               in kv_evict_loop os score target tot1 (take v es @ drop (Suc v) es) fs1
      else (es, fs))"
  by pat_completeness auto
termination
  by (relation "measure (\<lambda>(os, score, target, tot, es, fs). length es)")
    (auto dest: kv_evict_victim_Some)

declare kv_evict_loop.simps [simp del]

definition kvstore_evict :: "(rat \<Rightarrow> rat) \<Rightarrow> os_env \<Rightarrow> int list option \<Rightarrow> u64 \<Rightarrow>
    eviction_context option \<Rightarrow> kvstore \<Rightarrow> files \<Rightarrow> kvstore \<times> files" where
  "kvstore_evict exp2 os live extra_bytes incoming kc fs =
     (if \<not> kc_enabled kc \<or> kc_budget_bytes kc = 0 then (kc, fs)
      else if extra_bytes > kc_budget_bytes kc then (kc, fs)
      else let kc1 = kv_cache_refresh os fs kc;
               now = os_time os;
               tot = foldl (\<lambda>t e. t + e_file_size e) 0 (kc_entry kc1);
               target = kc_budget_bytes kc - extra_bytes;
               (es, fs1) = kv_evict_loop os
                 (\<lambda>e. kvstore_entry_eviction_score exp2 e live now incoming) target tot
                 (kc_entry kc1) fs
           in (kc1\<lparr>kc_entry := es\<rparr>, fs1))"

definition KVSTORE_DEFAULT_MB :: u64 where "KVSTORE_DEFAULT_MB = 4096"

definition kvstore_open :: "(rat \<Rightarrow> rat) \<Rightarrow> os_env \<Rightarrow> string option \<Rightarrow> u64 \<Rightarrow> bool \<Rightarrow> kv_options \<Rightarrow>
    files \<Rightarrow> bool \<times> kvstore \<times> files" where
  "kvstore_open exp2 os dir budget_mb reject_different_quant opt fs =
     (case dir of None \<Rightarrow> (False, kvstore_zero, fs)
      | Some d \<Rightarrow>
          if \<not> kv_mkdir_p (os_mkdirable os) d then (False, kvstore_zero, fs)
          else let mb = (if budget_mb = 0 then KVSTORE_DEFAULT_MB else budget_mb);
                   kc = kvstore_zero\<lparr>kc_enabled := True, kc_dir := d,
                     kc_budget_bytes := mb * 1024 * 1024,
                     kc_reject_different_quant := reject_different_quant, kc_opt := opt\<rparr>;
                   (kc1, fs1) = kvstore_evict exp2 os None 0 None kc fs
               in (True, kc1, fs1))"

subsection \<open>How the score ranks\<close>

text \<open>What the ranking needs of \<open>exp2\<close> on arguments that are not positive.\<close>

definition exp2_decay :: "(rat \<Rightarrow> rat) \<Rightarrow> bool" where
  "exp2_decay f \<longleftrightarrow> (\<forall>x y. x \<le> y \<longrightarrow> y \<le> 0 \<longrightarrow> 0 \<le> f x \<and> f x \<le> f y \<and> f y \<le> 1)"

lemma exp2_decayD: "exp2_decay f \<Longrightarrow> x \<le> y \<Longrightarrow> y \<le> 0 \<Longrightarrow> 0 \<le> f x \<and> f x \<le> f y \<and> f y \<le> 1"
  unfolding exp2_decay_def by blast

text \<open>A stand-in for \<open>exp2\<close> that satisfies it: exact on the integers, a step function between.\<close>

definition exp2_steps :: "rat \<Rightarrow> rat" where
  "exp2_steps x = 2 powi \<lfloor>x\<rfloor>"

lemma exp2_steps_decay: "exp2_decay exp2_steps"
proof -
  have "2 powi \<lfloor>x\<rfloor> \<le> (2::rat) powi \<lfloor>y\<rfloor>" if "x \<le> y" for x y :: rat
    using that by (intro power_int_increasing floor_mono) simp_all
  moreover have "2 powi \<lfloor>y\<rfloor> \<le> (1::rat)" if "y \<le> 0" for y :: rat
    using power_int_increasing [of "\<lfloor>y\<rfloor>" 0 "2::rat"] that by simp
  ultimately show ?thesis by (simp add: exp2_decay_def exp2_steps_def)
qed

lemma d_div_minus: "0 \<le> x \<Longrightarrow> 0 < y \<Longrightarrow> d_div (- x) y = - d_div x y"
  by (simp add: d_div_def d_round_def Let_def)

lemma d_round_d_of_nat [simp]: "d_round (d_of_nat n) = d_of_nat n"
  unfolding d_of_nat_def by (rule d_round_idem) simp

lemma d_round_d_div: "0 \<le> x \<Longrightarrow> 0 \<le> y \<Longrightarrow> d_round (d_div x y) = d_div x y"
  unfolding d_div_def by (rule d_round_idem) simp

lemma d_round_d_mul: "0 \<le> x \<Longrightarrow> 0 \<le> y \<Longrightarrow> d_round (d_mul x y) = d_mul x y"
  unfolding d_mul_def by (rule d_round_idem) simp

lemma half_life_pos: "0 < d_of_nat (unat KVSTORE_HIT_HALF_LIFE_SECONDS)"
  by (rule d_of_nat_pos) (simp add: KVSTORE_HIT_HALF_LIFE_SECONDS_def)

text \<open>More hits and a later use never lower the effective hits.\<close>

lemma effective_hits_mono:
  assumes "exp2_decay exp2" and "e_hits e \<le> e_hits e'" and "kv_used_at e \<le> kv_used_at e'"
  shows "0 \<le> kv_effective_hits exp2 e now"
    and "kv_effective_hits exp2 e now \<le> kv_effective_hits exp2 e' now"
proof -
  define L where "L = d_of_nat (unat KVSTORE_HIT_HALF_LIFE_SECONDS)"
  define dec where "dec u = exp2 (d_div (- d_of_nat (unat (now - u))) L)" for u
  define hh where "hh e = d_of_nat (unat (e_hits e))" for e :: kv_entry
  have L: "0 < L" unfolding L_def by (rule half_life_pos)
  have arg: "d_div (- d_of_nat n) L \<le> 0" for n
    using L by (simp add: d_div_minus)
  have dec: "0 \<le> dec u" "dec u \<le> 1" for u
    using exp2_decayD [OF assms(1) order_refl arg] by (simp_all add: dec_def)
  have decm: "dec u \<le> dec u'" if "u \<le> u'" "u' < now" for u u'
  proof -
    have "u' \<le> now" "u \<le> now" using that by simp_all
    then have "unat (now - u') \<le> unat (now - u)"
      using that(1) by (simp add: unat_sub word_le_nat_alt diff_le_mono2)
    then have "d_div (d_of_nat (unat (now - u'))) L \<le> d_div (d_of_nat (unat (now - u))) L"
      using L by (intro d_div_mono d_of_nat_mono) simp_all
    then have "d_div (- d_of_nat (unat (now - u))) L \<le> d_div (- d_of_nat (unat (now - u'))) L"
      using L by (simp add: d_div_minus)
    then show ?thesis
      unfolding dec_def using exp2_decayD [OF assms(1) _ arg] by blast
  qed
  have eff: "kv_effective_hits exp2 x now =
      (if kv_used_at x = 0 then 0
       else if kv_used_at x < now
       then if d_mul (hh x) (dec (kv_used_at x)) < KV_CACHE_MIN_EFFECTIVE_HITS then 0
         else d_mul (hh x) (dec (kv_used_at x))
       else hh x)" for x
    by (simp add: kv_effective_hits_def Let_def dec_def L_def hh_def)
  have hh: "0 \<le> hh x" for x by (simp add: hh_def)
  have nonneg: "0 \<le> kv_effective_hits exp2 x now" for x
    unfolding eff using hh dec by simp
  show "0 \<le> kv_effective_hits exp2 e now" by (rule nonneg)
  have hm: "hh e \<le> hh e'"
    unfolding hh_def using assms(2) by (intro d_of_nat_mono) (simp add: word_le_nat_alt)
  have le: "d_mul (hh e) (dec u) \<le> hh e" for u
    by (rule d_mul_le_left) (simp_all add: hh dec hh_def)
  have both: "d_mul (hh e) (dec (kv_used_at e)) \<le> d_mul (hh e') (dec (kv_used_at e'))"
    if "kv_used_at e' < now"
    using that hm hh dec decm [OF assms(3)] by (intro d_mul_mono) simp_all
  have "kv_used_at e' = 0 \<Longrightarrow> kv_used_at e = 0" using assms(3) by simp
  then have "kv_used_at e' = 0 \<Longrightarrow> kv_effective_hits exp2 e now = 0" by (simp add: eff)
  then consider "kv_effective_hits exp2 e now = 0"
    | "kv_used_at e' \<noteq> 0" "kv_effective_hits exp2 e now \<noteq> 0"
    by blast
  then show "kv_effective_hits exp2 e now \<le> kv_effective_hits exp2 e' now"
  proof cases
    case 1
    then show ?thesis using nonneg by simp
  next
    case 2
    show ?thesis
    proof (cases "kv_used_at e' < now")
      case True
      then have "kv_used_at e < now" using assms(3) by simp
      then show ?thesis using True 2 both [OF True] by (auto simp: eff split: if_splits)
    next
      case False
      then show ?thesis
        using 2 hm le [of "kv_used_at e"] by (auto simp: eff split: if_splits)
    qed
  qed
qed

text \<open>The factor of a superseded entry lies between zero and one.\<close>

definition kv_superseded_factor :: "rat \<Rightarrow> rat" where
  "kv_superseded_factor eh = d_add KV_CACHE_CONTINUED_PREFIX_MIN_FACTOR
     (d_mul KV_CACHE_CONTINUED_PREFIX_HIT_FACTOR (if eh > 0 then d_div eh (d_add eh 1) else 0))"

lemma d_round_1 [simp]: "d_round 1 = 1"
  using d_round_exact [of "2 ^ 52" "-52"] by (simp add: power_int_def power_divide)

lemma d_round_le_1: "0 \<le> x \<Longrightarrow> x \<le> 1 \<Longrightarrow> d_round x \<le> 1"
  using d_round_mono [of x 1] by simp

lemma d_round_half: "0 \<le> x \<Longrightarrow> x \<le> 1 / 2 \<Longrightarrow> d_round x \<le> 1 / 2"
proof -
  have "d_round (1 / 2) = 1 / 2"
    using d_round_exact [of "2 ^ 52" "-53"] by (simp add: power_int_def power_divide)
  then show "0 \<le> x \<Longrightarrow> x \<le> 1 / 2 \<Longrightarrow> d_round x \<le> 1 / 2"
    using d_round_mono [of x "1 / 2"] by simp
qed

lemma kv_superseded_factor_bounds:
  assumes "0 \<le> eh" and "d_round eh = eh"
  shows "0 \<le> kv_superseded_factor eh" and "kv_superseded_factor eh \<le> 1"
proof -
  define h where "h = (if eh > 0 then d_div eh (d_add eh 1) else 0)"
  have "d_round eh \<le> d_round (eh + 1)" using assms(1) by (intro d_round_mono) simp_all
  then have le: "eh \<le> d_add eh 1" using assms(2) by (simp add: d_add_def)
  have h: "0 \<le> h" "h \<le> 1"
  proof -
    show "0 \<le> h" using assms(1) by (simp add: h_def)
    show "h \<le> 1"
    proof (cases "eh > 0")
      case True
      then have "0 \<le> eh / d_add eh 1" "eh / d_add eh 1 \<le> 1" using le by (simp_all add: divide_le_eq)
      then show ?thesis using True by (simp add: h_def d_div_def d_round_le_1)
    qed (simp add: h_def)
  qed
  define a where "a = KV_CACHE_CONTINUED_PREFIX_MIN_FACTOR"
  define b where "b = d_mul KV_CACHE_CONTINUED_PREFIX_HIT_FACTOR h"
  have a: "0 \<le> a" "a \<le> 1 / 2"
    unfolding a_def KV_CACHE_CONTINUED_PREFIX_MIN_FACTOR_def
    by (intro d_round_nonneg d_round_half; simp)+
  define c where "c = KV_CACHE_CONTINUED_PREFIX_HIT_FACTOR"
  have c: "0 \<le> c" "c \<le> 1 / 2"
    unfolding c_def KV_CACHE_CONTINUED_PREFIX_HIT_FACTOR_def
    by (intro d_round_nonneg d_round_half; simp)+
  have "c * h \<le> 1 / 2 * 1" using c h by (intro mult_mono) simp_all
  then have b: "0 \<le> b" "b \<le> 1 / 2"
    unfolding b_def c_def [symmetric] d_mul_def using c h
    by (intro d_round_nonneg d_round_half; simp)+
  have f: "kv_superseded_factor eh = d_add a b"
    by (simp add: kv_superseded_factor_def a_def b_def h_def)
  show "0 \<le> kv_superseded_factor eh" unfolding f using a b by simp
  show "kv_superseded_factor eh \<le> 1" unfolding f d_add_def using a b by (intro d_round_le_1) simp_all
qed

lemma effective_hits_double:
  assumes "exp2_decay exp2"
  shows "d_round (kv_effective_hits exp2 e now) = kv_effective_hits exp2 e now"
proof -
  have "0 \<le> exp2 (d_div (- d_of_nat n) (d_of_nat (unat KVSTORE_HIT_HALF_LIFE_SECONDS)))" for n
    using exp2_decayD [OF assms order_refl,
        of "d_div (- d_of_nat n) (d_of_nat (unat KVSTORE_HIT_HALF_LIFE_SECONDS))"] half_life_pos
    by (simp add: d_div_minus)
  then show ?thesis
    by (auto simp: kv_effective_hits_def Let_def d_round_d_mul)
qed

text \<open>The score before the superseded factor.\<close>

definition kv_base_score :: "(rat \<Rightarrow> rat) \<Rightarrow> kv_entry \<Rightarrow> u64 \<Rightarrow> rat" where
  "kv_base_score exp2 e now =
     (let s0 = d_div (d_mul (d_add (kv_effective_hits exp2 e now) 1) (d_of_nat (unat (e_tokens e))))
                 (d_of_nat (unat (e_file_size e)))
      in if kv_cache_reason_is_anchor (e_reason e) then d_mul s0 2 else s0)"

lemma eviction_score_eq:
  "e_file_size e \<noteq> 0 \<Longrightarrow> kvstore_entry_eviction_score exp2 e live now incoming =
     (if kv_cache_incoming_supersedes_continued e incoming
      then d_mul (kv_base_score exp2 e now) (kv_superseded_factor (kv_effective_hits exp2 e now))
      else kv_base_score exp2 e now)"
  unfolding kvstore_entry_eviction_score_def kv_base_score_def kv_superseded_factor_def
    KV_CACHE_ANCHOR_REASON_SCORE_FACTOR_def Let_def by simp

lemma base_score_mono:
  assumes "exp2_decay exp2" and "e_hits e \<le> e_hits e'" and "kv_used_at e \<le> kv_used_at e'"
    and "e_tokens e \<le> e_tokens e'" and "e_file_size e' \<le> e_file_size e" and "e_file_size e' \<noteq> 0"
    and "kv_cache_reason_is_anchor (e_reason e) \<longrightarrow> kv_cache_reason_is_anchor (e_reason e')"
  shows "kv_base_score exp2 e now \<le> kv_base_score exp2 e' now"
proof -
  define s where "s x = d_div (d_mul (d_add (kv_effective_hits exp2 x now) 1) (d_of_nat (unat (e_tokens x))))
    (d_of_nat (unat (e_file_size x)))" for x
  note eh = effective_hits_mono [OF assms(1-3), of now]
  have "0 < unat (e_file_size e')" using assms(6) by (simp add: unat_gt_0)
  then have le: "s e \<le> s e'"
    unfolding s_def using assms(4,5) eh
    by (intro d_div_mono d_mul_mono d_add_mono d_of_nat_mono d_of_nat_pos) (simp_all add: word_le_nat_alt)
  have s: "0 \<le> s e" "0 \<le> s e'" "d_round (s e') = s e'"
    using eh by (simp_all add: s_def d_round_d_div)
  have "s e' \<le> d_mul (s e') 2" using s by (intro d_mul_ge_left) simp_all
  moreover have "d_mul (s e) 2 \<le> d_mul (s e') 2" using s le by (intro d_mul_mono) simp_all
  ultimately show ?thesis
    using assms(7) le by (auto simp: kv_base_score_def Let_def s_def [symmetric])
qed

lemma base_score_double:
  assumes "exp2_decay exp2"
  shows "0 \<le> kv_base_score exp2 e now" and "d_round (kv_base_score exp2 e now) = kv_base_score exp2 e now"
  using effective_hits_mono(1) [OF assms order_refl order_refl, of e now]
  by (simp_all add: kv_base_score_def Let_def d_round_d_div d_round_d_mul)

text \<open>
  The eviction score respects dominance. If an entry has at least as many hits as
  another, was used no earlier, covers at least as many tokens in no larger a file, is an
  anchor whenever the other is, and is superseded by the incoming checkpoint only when the
  other is superseded too and their hits and use are the same, then it scores at least as
  high, at every time and in rounded double arithmetic: eviction never prefers it strictly.
\<close>

theorem eviction_score_dominance:
  assumes "exp2_decay exp2" and "e_hits e \<le> e_hits e'" and "kv_used_at e \<le> kv_used_at e'"
    and "e_tokens e \<le> e_tokens e'" and "e_file_size e' \<le> e_file_size e" and "e_file_size e' \<noteq> 0"
    and "kv_cache_reason_is_anchor (e_reason e) \<longrightarrow> kv_cache_reason_is_anchor (e_reason e')"
    and "kv_cache_incoming_supersedes_continued e' incoming \<longrightarrow>
      kv_cache_incoming_supersedes_continued e incoming \<and> e_hits e' = e_hits e \<and>
      kv_used_at e' = kv_used_at e"
  shows "kvstore_entry_eviction_score exp2 e live now incoming \<le>
    kvstore_entry_eviction_score exp2 e' live now incoming"
proof -
  let ?s = "\<lambda>x. kv_base_score exp2 x now"
  let ?eh = "\<lambda>x. kv_effective_hits exp2 x now"
  have le: "?s e \<le> ?s e'" using assms(1-7) by (rule base_score_mono)
  have eh: "0 \<le> ?eh x" "d_round (?eh x) = ?eh x" for x
    using effective_hits_mono(1) [OF assms(1)] effective_hits_double [OF assms(1)] by auto
  note f = kv_superseded_factor_bounds [OF eh]
  note b = base_score_double [OF assms(1)]
  have nz: "e_file_size e \<noteq> 0" using assms(5,6) by auto
  have down: "d_mul (?s e) (kv_superseded_factor (?eh e)) \<le> ?s e"
    using b f by (intro d_mul_le_left) simp_all
  have "?eh e' = ?eh e" if "e_hits e' = e_hits e" "kv_used_at e' = kv_used_at e"
    unfolding kv_effective_hits_def that by simp
  moreover have "d_mul (?s e) (kv_superseded_factor (?eh e)) \<le> d_mul (?s e') (kv_superseded_factor (?eh e))"
    using le b f by (intro d_mul_mono) simp_all
  ultimately show ?thesis
    using assms(8) le down by (auto simp: eviction_score_eq [OF nz] eviction_score_eq [OF assms(6)])
qed

definition wit_entry :: "string \<Rightarrow> u8 \<Rightarrow> u32 \<Rightarrow> u64 \<Rightarrow> u64 \<Rightarrow> kv_entry" where
  "wit_entry path reason hits used sz = kv_entry_zero\<lparr>e_path := path, e_reason := reason,
     e_hits := hits, e_tokens := 1000, e_last_used := used, e_file_size := sz\<rparr>"

theorem eviction_score_dominance_witness:
  "kvstore_entry_eviction_score exp2_steps (wit_entry ''a'' 2 1 10 200) None 50000 None \<le>
   kvstore_entry_eviction_score exp2_steps (wit_entry ''b'' 1 3 40000 100) None 50000 None"
  by (rule eviction_score_dominance [OF exp2_steps_decay])
    (simp_all add: wit_entry_def kv_entry_zero_def kv_used_at_def kv_cache_reason_is_anchor_def
      kv_cache_incoming_supersedes_continued_def)

subsection \<open>What the loop removes\<close>

lemma kv_evict_loop_stop: "\<not> target < tot \<Longrightarrow> kv_evict_loop os score target tot es fs = (es, fs)"
  by (simp add: kv_evict_loop.simps)

lemma kv_evict_loop_Nil: "kv_evict_loop os score target tot [] fs = ([], fs)"
  by (simp add: kv_evict_loop.simps)

lemma kv_evict_loop_step:
  assumes "target < tot" and "kv_evict_victim score es = Some (v, e)"
  shows "kv_evict_loop os score target tot es fs =
    (let (gone, fs1) = fs_unlink os (e_path e) fs;
         tot1 = (if gone then if tot \<ge> e_file_size e then tot - e_file_size e else 0 else 0)
     in kv_evict_loop os score target tot1 (take v es @ drop (Suc v) es) fs1)"
  using assms by (subst kv_evict_loop.simps) simp

lemma mset_remove_nth: "v < length es \<Longrightarrow> mset es = add_mset (es ! v) (mset (take v es @ drop (Suc v) es))"
  by (subst id_take_nth_drop [of v es]) simp_all

lemma set_remove_nth: "v < length es \<Longrightarrow> set es = insert (es ! v) (set (take v es @ drop (Suc v) es))"
  by (subst id_take_nth_drop [of v es]) auto

lemma kv_evict_loop_ranked:
  assumes "kv_evict_loop os score target tot es fs = (es', fs')"
  shows "\<exists>vs. mset es = mset vs + mset es' \<and>
    (\<forall>v \<in> set vs. \<forall>k \<in> set es'. \<not> kv_evict_before score k v)"
  using assms
proof (induction os score target tot es fs rule: kv_evict_loop.induct)
  case (1 os score target tot es fs)
  show ?case
  proof (cases "target < tot \<and> es \<noteq> []")
    case False
    then have "es' = es" using "1.prems" by (auto simp: kv_evict_loop_stop kv_evict_loop_Nil)
    then show ?thesis by (intro exI [of _ "[]"]) simp
  next
    case True
    then obtain v e where v: "kv_evict_victim score es = Some (v, e)"
      using kv_evict_victim_None [of score es] by (cases "kv_evict_victim score es") auto
    obtain gone fs1 where u: "fs_unlink os (e_path e) fs = (gone, fs1)" by fastforce
    define tot1 where "tot1 = (if gone then if tot \<ge> e_file_size e then tot - e_file_size e else 0 else 0)"
    let ?es = "take v es @ drop (Suc v) es"
    have vi: "v < length es" "es ! v = e" "\<forall>x \<in> set es. \<not> kv_evict_before score x e"
      using kv_evict_victim_Some [OF v] by simp_all
    have "kv_evict_loop os score target tot1 ?es fs1 = (es', fs')"
      using "1.prems" True v u by (simp add: kv_evict_loop_step tot1_def)
    then obtain vs where vs: "mset ?es = mset vs + mset es'"
        "\<forall>v \<in> set vs. \<forall>k \<in> set es'. \<not> kv_evict_before score k v"
      using "1.IH" [OF conjunct1 [OF True] v refl u [symmetric] refl tot1_def] by blast
    have m: "mset es = mset (e # vs) + mset es'"
      using mset_remove_nth [OF vi(1)] vi(2) vs(1) by simp
    then have "set es' \<subseteq> set es"
      by (metis mset_subset_eq_add_right set_mset_mono set_mset_mset)
    then have "\<forall>x \<in> set (e # vs). \<forall>k \<in> set es'. \<not> kv_evict_before score k x"
      using vs(2) vi(3) by auto
    with m show ?thesis by blast
  qed
qed

subsection \<open>The list follows the directory\<close>

lemma fs_names_del:
  "fs_names dir (fs_del p fs) = filter (\<lambda>n. kvstore_path_join dir n \<noteq> p) (fs_names dir fs)"
proof -
  define pre where "pre = kvstore_path_join dir []"
  have "map fst (fs_del p fs) = filter (\<lambda>q. q \<noteq> p) (map fst fs)"
    by (induction fs) (simp_all add: fs_del_def)
  moreover have "kvstore_path_join dir n = pre @ n" for n
    unfolding pre_def by (rule path_join_split)
  moreover have "take (length pre) q = pre \<Longrightarrow> pre @ drop (length pre) q = q" for q
    by (metis append_take_drop_id)
  then have "map (drop (length pre)) (filter (\<lambda>p. take (length pre) p = pre \<and> drop (length pre) p \<noteq> [] \<and>
      CHR ''/'' \<notin> set (drop (length pre) p)) (filter (\<lambda>q. q \<noteq> p) ps)) =
    filter (\<lambda>n. pre @ n \<noteq> p) (map (drop (length pre)) (filter (\<lambda>p. take (length pre) p = pre \<and>
      drop (length pre) p \<noteq> [] \<and> CHR ''/'' \<notin> set (drop (length pre) p)) ps))" for ps
    by (induction ps) auto
  ultimately show ?thesis
    unfolding fs_names_def Let_def pre_def [symmetric] by simp
qed

lemma read_entry_file_path: "kvstore_read_entry_file os fs path sha = Some e \<Longrightarrow> e_path e = path"
  by (auto simp: read_entry_file_iff)

lemma kv_name_entry_path: "kv_name_entry os fs dir n = Some e \<Longrightarrow> e_path e = kvstore_path_join dir n"
  by (auto simp: kv_name_entry_def dest: read_entry_file_path split: option.splits)

lemma read_entry_file_cong:
  "fs_get fs path = fs_get fs' path \<Longrightarrow>
     kvstore_read_entry_file os fs path sha = kvstore_read_entry_file os fs' path sha"
  by (simp add: kvstore_read_entry_file_def)

lemma kv_name_entry_del:
  "kvstore_path_join dir n \<noteq> p \<Longrightarrow> kv_name_entry os (fs_del p fs) dir n = kv_name_entry os fs dir n"
  using read_entry_file_cong [of "fs_del p fs" "kvstore_path_join dir n" fs]
  by (simp add: kv_name_entry_def disk.get_del split: option.split)

lemma kv_dir_entries_del:
  "kv_dir_entries os (fs_del p fs) dir = filter (\<lambda>e. e_path e \<noteq> p) (kv_dir_entries os fs dir)"
proof -
  have "List.map_filter (kv_name_entry os (fs_del p fs) dir)
      (filter (\<lambda>n. kvstore_path_join dir n \<noteq> p) ns) =
    filter (\<lambda>e. e_path e \<noteq> p) (List.map_filter (kv_name_entry os fs dir) ns)" for ns
    by (induction ns)
      (auto simp: map_filter_simps kv_name_entry_del kv_name_entry_path split: option.splits)
  then show ?thesis by (simp add: kv_dir_entries_def fs_names_del)
qed

lemma distinct_fs_names:
  assumes "distinct (map fst fs)"
  shows "distinct (fs_names dir fs)"
proof -
  define pre where "pre = kvstore_path_join dir []"
  have "inj_on (drop (length pre)) {p. take (length pre) p = pre}"
    by (rule inj_onI) (metis append_take_drop_id mem_Collect_eq)
  then have "inj_on (drop (length pre)) (set (filter (\<lambda>p. take (length pre) p = pre \<and>
      drop (length pre) p \<noteq> [] \<and> CHR ''/'' \<notin> set (drop (length pre) p)) (map fst fs)))"
    by (rule inj_on_subset) auto
  then show ?thesis
    unfolding fs_names_def Let_def pre_def [symmetric] distinct_map using assms by simp
qed

lemma distinct_kv_dir_entries:
  assumes "distinct (map fst fs)"
  shows "distinct (map e_path (kv_dir_entries os fs dir))"
proof -
  have "distinct ns \<Longrightarrow> distinct (map e_path (List.map_filter (kv_name_entry os fs dir) ns))" for ns
  proof (induction ns)
    case (Cons n ns)
    have "kvstore_path_join dir n \<notin> e_path ` set (List.map_filter (kv_name_entry os fs dir) ns)"
    proof
      assume "kvstore_path_join dir n \<in> e_path ` set (List.map_filter (kv_name_entry os fs dir) ns)"
      then obtain m e where "m \<in> set ns" "kv_name_entry os fs dir m = Some e"
          "kvstore_path_join dir n = e_path e"
        by (auto simp: map_filter_def)
      then show False
        using Cons.prems kv_name_entry_path [of os fs dir m e] by (auto simp: path_join_inj)
    qed
    then show ?case
      using Cons by (auto simp: map_filter_simps dest: kv_name_entry_path split: option.splits)
  qed (simp add: map_filter_simps)
  then show ?thesis by (simp add: kv_dir_entries_def distinct_fs_names [OF assms])
qed

lemma remove_nth_filter:
  assumes "distinct (map f es)" and "v < length es"
  shows "take v es @ drop (Suc v) es = filter (\<lambda>x. f x \<noteq> f (es ! v)) es"
proof -
  have s: "es = take v es @ es ! v # drop (Suc v) es" by (rule id_take_nth_drop [OF assms(2)])
  have "distinct (map f (take v es @ es ! v # drop (Suc v) es))" using assms(1) s by simp
  then have "\<forall>x \<in> set (take v es). f x \<noteq> f (es ! v)" "\<forall>x \<in> set (drop (Suc v) es). f x \<noteq> f (es ! v)"
    by (force simp: image_iff)+
  then have "filter (\<lambda>x. f x \<noteq> f (es ! v)) (take v es @ es ! v # drop (Suc v) es) =
      take v es @ drop (Suc v) es"
    by simp
  then show ?thesis using s by simp
qed

definition kv_sizes :: "kv_entry list \<Rightarrow> nat" where
  "kv_sizes es = sum_list (map (\<lambda>e. unat (e_file_size e)) es)"

lemma kv_sizes_remove:
  "v < length es \<Longrightarrow> kv_sizes es = unat (e_file_size (es ! v)) + kv_sizes (take v es @ drop (Suc v) es)"
  unfolding kv_sizes_def by (subst id_take_nth_drop [of v es]) simp_all

lemma kv_evict_total:
  assumes "kv_sizes es < 2 ^ 64"
  shows "unat (foldl (\<lambda>t e. t + e_file_size e) 0 es) = kv_sizes es"
proof -
  have "unat t + kv_sizes es < 2 ^ 64 \<Longrightarrow>
      unat (foldl (\<lambda>t e. t + e_file_size e) t es) = unat t + kv_sizes es" for t
    by (induction es arbitrary: t) (simp_all add: kv_sizes_def unat_add_exact)
  from this [of 0] show ?thesis using assms by simp
qed

text \<open>
  With every unlink succeeding, the entries the loop keeps are exactly those left in the
  directory, they fit the target, and each removal was needed.
\<close>

lemma kv_evict_loop_fits:
  assumes "kv_evict_loop os score target tot es fs = (es', fs')"
    and "distinct (map fst fs)" and "es = kv_dir_entries os fs dir"
    and "\<forall>e \<in> set es. os_unlinkable os (e_path e)" and "unat tot = kv_sizes es"
  shows "es' = kv_dir_entries os fs' dir \<and> kv_sizes es' \<le> unat target \<and>
    (\<forall>p. p \<notin> e_path ` set es \<longrightarrow> fs_get fs' p = fs_get fs p) \<and>
    (\<forall>e \<in> set es'. fs_get fs' (e_path e) = fs_get fs (e_path e)) \<and>
    (\<exists>vs. mset es = mset vs + mset es' \<and> (\<forall>v \<in> set vs. fs_get fs' (e_path v) = None) \<and>
       (vs \<noteq> [] \<longrightarrow> unat target < kv_sizes es - kv_sizes (butlast vs)))"
  using assms
proof (induction os score target tot es fs rule: kv_evict_loop.induct)
  case (1 os score target tot es fs)
  show ?case
  proof (cases "target < tot \<and> es \<noteq> []")
    case False
    then have "es' = es" "fs' = fs"
      using "1.prems"(1) by (auto simp: kv_evict_loop_stop kv_evict_loop_Nil)
    moreover have "kv_sizes es \<le> unat target"
      using False "1.prems"(5) by (auto simp: not_less word_le_nat_alt kv_sizes_def)
    ultimately show ?thesis
      using "1.prems"(3) by (auto intro!: exI [of _ "[]"])
  next
    case True
    then obtain v e where v: "kv_evict_victim score es = Some (v, e)"
      using kv_evict_victim_None [of score es] by (cases "kv_evict_victim score es") auto
    have vi: "v < length es" "es ! v = e"
      using kv_evict_victim_Some [OF v] by simp_all
    then have e: "e \<in> set es" by auto
    have "fs_get fs (e_path e) \<noteq> None"
      using e "1.prems"(3) by (auto simp: mem_kv_dir_entries read_entry_file_iff)
    then have u: "fs_unlink os (e_path e) fs = (True, fs_del (e_path e) fs)"
      using e "1.prems"(4) by (simp add: fs_unlink_def)
    define tot1 where "tot1 = (if True then if tot \<ge> e_file_size e then tot - e_file_size e else 0 else 0)"
    let ?es = "take v es @ drop (Suc v) es"
    let ?fs = "fs_del (e_path e) fs"
    have rest: "kv_evict_loop os score target tot1 ?es ?fs = (es', fs')"
      using "1.prems"(1) True v u by (simp add: kv_evict_loop_step tot1_def)
    have flt: "?es = filter (\<lambda>x. e_path x \<noteq> e_path e) es"
      using remove_nth_filter [of e_path es v] vi distinct_kv_dir_entries [OF "1.prems"(2)]
        "1.prems"(3) by simp
    have sz: "kv_sizes es = unat (e_file_size e) + kv_sizes ?es"
      using kv_sizes_remove [OF vi(1)] vi(2) by simp
    have "e_file_size e \<le> tot" using sz "1.prems"(5) by (simp add: word_le_nat_alt)
    then have t1: "unat tot1 = kv_sizes ?es"
      using sz "1.prems"(5) by (simp add: tot1_def unat_sub)
    have sub: "set ?es \<subseteq> set es" using set_remove_nth [OF vi(1)] by blast
    have "?es = kv_dir_entries os ?fs dir"
      using flt "1.prems"(3) by (simp add: kv_dir_entries_del)
    from "1.IH" [OF conjunct1 [OF True] v refl u [symmetric] refl tot1_def rest
        distinct_del [OF "1.prems"(2)] this] "1.prems"(4) sub t1
    obtain vs where es': "es' = kv_dir_entries os fs' dir" "kv_sizes es' \<le> unat target"
      and other: "\<forall>p. p \<notin> e_path ` set ?es \<longrightarrow> fs_get fs' p = fs_get ?fs p"
      and kept: "\<forall>e \<in> set es'. fs_get fs' (e_path e) = fs_get ?fs (e_path e)"
      and vs: "mset ?es = mset vs + mset es'" "\<forall>v \<in> set vs. fs_get fs' (e_path v) = None"
        "vs \<noteq> [] \<longrightarrow> unat target < kv_sizes ?es - kv_sizes (butlast vs)"
      by blast
    have ne: "e_path e \<notin> e_path ` set ?es" unfolding flt by auto
    have "set es' \<subseteq> set ?es"
      using vs(1) by (metis mset_subset_eq_add_right set_mset_mono set_mset_mset)
    have "fs_get fs' p = fs_get fs p" if "p \<notin> e_path ` set es" for p
    proof -
      have "p \<notin> e_path ` set ?es" and "p \<noteq> e_path e" using that sub e by auto
      then show ?thesis using other by (simp add: disk.get_del)
    qed
    moreover have "\<forall>x \<in> set es'. fs_get fs' (e_path x) = fs_get fs (e_path x)"
    proof
      fix x assume x: "x \<in> set es'"
      then have "x \<in> set ?es" using \<open>set es' \<subseteq> set ?es\<close> by blast
      then have "e_path x \<noteq> e_path e" using ne by (metis image_eqI)
      then show "fs_get fs' (e_path x) = fs_get fs (e_path x)"
        using kept x by (simp add: disk.get_del)
    qed
    moreover have "mset es = mset (e # vs) + mset es'"
      using mset_remove_nth [OF vi(1)] vi(2) vs(1) by simp
    moreover have "\<forall>x \<in> set (e # vs). fs_get fs' (e_path x) = None"
      using vs(2) other ne by (simp add: disk.get_del)
    moreover have "unat target < kv_sizes es - kv_sizes (butlast (e # vs))"
      using vs(3) sz True "1.prems"(5) by (auto simp: kv_sizes_def word_less_nat_alt)
    ultimately show ?thesis using es' by blast
  qed
qed

subsection \<open>Properties of eviction\<close>

lemma kvstore_evict_run:
  assumes "kc_enabled kc" and "kc_budget_bytes kc \<noteq> 0" and "extra \<le> kc_budget_bytes kc"
    and "os_listable os (kc_dir kc)"
    and "kvstore_evict exp2 os live extra incoming kc fs = (kc', fs')"
  obtains es where "kv_evict_loop os (\<lambda>e. kvstore_entry_eviction_score exp2 e live (os_time os) incoming)
      (kc_budget_bytes kc - extra) (foldl (\<lambda>t e. t + e_file_size e) 0 (kv_dir_entries os fs (kc_dir kc)))
      (kv_dir_entries os fs (kc_dir kc)) fs = (es, fs')"
    and "kc' = kc\<lparr>kc_entry := es\<rparr>"
  using assms by (auto simp: kvstore_evict_def Let_def kv_cache_refresh_eq leD split: prod.splits)

lemma kvstore_evict_fits:
  assumes "kvstore_evict exp2 os live extra incoming kc fs = (kc', fs')"
    and "kc_enabled kc" and "kc_budget_bytes kc \<noteq> 0" and "extra \<le> kc_budget_bytes kc"
    and "os_listable os (kc_dir kc)" and "distinct (map fst fs)"
    and "\<forall>e \<in> set (kv_dir_entries os fs (kc_dir kc)). os_unlinkable os (e_path e)"
    and "kv_sizes (kv_dir_entries os fs (kc_dir kc)) < 2 ^ 64"
  shows "kv_sizes (kv_dir_entries os fs' (kc_dir kc)) + unat extra \<le> unat (kc_budget_bytes kc)"
proof -
  obtain es where es: "kv_evict_loop os
      (\<lambda>e. kvstore_entry_eviction_score exp2 e live (os_time os) incoming)
      (kc_budget_bytes kc - extra) (foldl (\<lambda>t e. t + e_file_size e) 0 (kv_dir_entries os fs (kc_dir kc)))
      (kv_dir_entries os fs (kc_dir kc)) fs = (es, fs')" and "kc' = kc\<lparr>kc_entry := es\<rparr>"
    using assms(2-5,1) by (rule kvstore_evict_run)
  show ?thesis
    using kv_evict_loop_fits [OF es assms(6) refl assms(7) kv_evict_total [OF assms(8)]] assms(4)
    by (auto simp: unat_sub word_le_nat_alt)
qed

text \<open>
  C10. Eviction makes room. When the directory can be listed, its files can be removed and
  their sizes sum without wrapping, the checkpoints left after
  \<open>ds4_kvstore_evict\<close> and the incoming bytes fit the budget together; the store's list is
  again the directory's; files that are no checkpoints, and the checkpoints kept, are
  untouched; and every removal was necessary: without the last victim's, the rest would
  still exceed the target.
\<close>

theorem evict_makes_room:
  assumes "kvstore_evict exp2 os live extra incoming kc fs = (kc', fs')"
    and "kc_enabled kc" and "kc_budget_bytes kc \<noteq> 0" and "extra \<le> kc_budget_bytes kc"
    and "os_listable os (kc_dir kc)" and "distinct (map fst fs)"
    and "\<forall>e \<in> set (kv_dir_entries os fs (kc_dir kc)). os_unlinkable os (e_path e)"
    and "kv_sizes (kv_dir_entries os fs (kc_dir kc)) < 2 ^ 64"
  shows "kc_entry kc' = kv_dir_entries os fs' (kc_dir kc) \<and>
    kv_sizes (kc_entry kc') + unat extra \<le> unat (kc_budget_bytes kc) \<and>
    (\<forall>p. p \<notin> e_path ` set (kv_dir_entries os fs (kc_dir kc)) \<longrightarrow> fs_get fs' p = fs_get fs p) \<and>
    (\<forall>e \<in> set (kc_entry kc'). fs_get fs' (e_path e) = fs_get fs (e_path e)) \<and>
    (\<exists>vs. mset (kv_dir_entries os fs (kc_dir kc)) = mset vs + mset (kc_entry kc') \<and>
      (\<forall>v \<in> set vs. fs_get fs' (e_path v) = None) \<and>
      (vs \<noteq> [] \<longrightarrow> unat (kc_budget_bytes kc) <
         kv_sizes (kv_dir_entries os fs (kc_dir kc)) - kv_sizes (butlast vs) + unat extra))"
proof -
  obtain es where es: "kv_evict_loop os
      (\<lambda>e. kvstore_entry_eviction_score exp2 e live (os_time os) incoming)
      (kc_budget_bytes kc - extra) (foldl (\<lambda>t e. t + e_file_size e) 0 (kv_dir_entries os fs (kc_dir kc)))
      (kv_dir_entries os fs (kc_dir kc)) fs = (es, fs')" and kc': "kc' = kc\<lparr>kc_entry := es\<rparr>"
    using assms(2-5,1) by (rule kvstore_evict_run)
  have le: "unat extra \<le> unat (kc_budget_bytes kc)" using assms(4) by (simp add: word_le_nat_alt)
  have t: "unat (kc_budget_bytes kc - extra) = unat (kc_budget_bytes kc) - unat extra"
    by (rule unat_sub [OF assms(4)])
  have ent: "kc_entry kc' = es" by (simp add: kc')
  note r = kv_evict_loop_fits [OF es assms(6) refl assms(7) kv_evict_total [OF assms(8)], unfolded t]
  note fits = kvstore_evict_fits [OF assms]
  from r obtain vs where vs: "mset (kv_dir_entries os fs (kc_dir kc)) = mset vs + mset es"
      "\<forall>v \<in> set vs. fs_get fs' (e_path v) = None"
      "vs \<noteq> [] \<longrightarrow> unat (kc_budget_bytes kc) - unat extra <
        kv_sizes (kv_dir_entries os fs (kc_dir kc)) - kv_sizes (butlast vs)"
    by blast
  have "vs \<noteq> [] \<longrightarrow> unat (kc_budget_bytes kc) <
      kv_sizes (kv_dir_entries os fs (kc_dir kc)) - kv_sizes (butlast vs) + unat extra"
    using vs(3) le by linarith
  moreover have "kv_sizes es + unat extra \<le> unat (kc_budget_bytes kc)"
    using r fits by simp
  ultimately show ?thesis using r vs(1,2) unfolding ent by blast
qed

text \<open>
  What eviction removes ranks below what it keeps. The store's list splits into
  victims and survivors, and no survivor scores lower than a victim, nor as low with an
  earlier last use, whether or not the unlinks succeed.
\<close>

theorem evict_removes_lowest_ranked:
  assumes "kvstore_evict exp2 os live extra incoming kc fs = (kc', fs')"
    and "kc_enabled kc" and "kc_budget_bytes kc \<noteq> 0" and "extra \<le> kc_budget_bytes kc"
    and "os_listable os (kc_dir kc)"
  shows "\<exists>vs. mset (kv_dir_entries os fs (kc_dir kc)) = mset vs + mset (kc_entry kc') \<and>
    (\<forall>v \<in> set vs. \<forall>k \<in> set (kc_entry kc').
       let score = \<lambda>e. kvstore_entry_eviction_score exp2 e live (os_time os) incoming in
       score v < score k \<or> score v = score k \<and> e_last_used v \<le> e_last_used k)"
proof -
  obtain es where es: "kv_evict_loop os
      (\<lambda>e. kvstore_entry_eviction_score exp2 e live (os_time os) incoming)
      (kc_budget_bytes kc - extra) (foldl (\<lambda>t e. t + e_file_size e) 0 (kv_dir_entries os fs (kc_dir kc)))
      (kv_dir_entries os fs (kc_dir kc)) fs = (es, fs')" and kc': "kc' = kc\<lparr>kc_entry := es\<rparr>"
    using assms(2-5,1) by (rule kvstore_evict_run)
  have eq: "\<not> kv_evict_before sc k v \<longleftrightarrow>
      (let score = sc in score v < score k \<or> score v = score k \<and> e_last_used v \<le> e_last_used k)" for sc k v
    by (auto simp: kv_evict_before_def Let_def)
  show ?thesis
    using kv_evict_loop_ranked [OF es] unfolding eq by (simp add: kc')
qed

text \<open>
  C40. A victim that cannot be removed ends the eviction at once: the loop sets its running
  total to zero, so when the lowest-ranked checkpoint of a directory over the target has a
  path that cannot be unlinked, no file is removed, and the list loses only that entry
  while the directory stays over the target.
\<close>

theorem evict_stops_at_failed_unlink:
  assumes "kvstore_evict exp2 os live extra incoming kc fs = (kc', fs')"
    and "kc_enabled kc" and "kc_budget_bytes kc \<noteq> 0" and "extra \<le> kc_budget_bytes kc"
    and "os_listable os (kc_dir kc)"
    and "kv_sizes (kv_dir_entries os fs (kc_dir kc)) < 2 ^ 64"
    and "unat (kc_budget_bytes kc - extra) < kv_sizes (kv_dir_entries os fs (kc_dir kc))"
    and "kv_evict_victim (\<lambda>e. kvstore_entry_eviction_score exp2 e live (os_time os) incoming)
      (kv_dir_entries os fs (kc_dir kc)) = Some (v, e)"
    and "\<not> os_unlinkable os (e_path e)"
  shows "fs' = fs \<and> kc_entry kc' = (let es = kv_dir_entries os fs (kc_dir kc) in take v es @ drop (Suc v) es)"
proof -
  obtain es where es: "kv_evict_loop os
      (\<lambda>e. kvstore_entry_eviction_score exp2 e live (os_time os) incoming)
      (kc_budget_bytes kc - extra) (foldl (\<lambda>t e. t + e_file_size e) 0 (kv_dir_entries os fs (kc_dir kc)))
      (kv_dir_entries os fs (kc_dir kc)) fs = (es, fs')" and kc': "kc' = kc\<lparr>kc_entry := es\<rparr>"
    using assms(2-5,1) by (rule kvstore_evict_run)
  have "kc_budget_bytes kc - extra < foldl (\<lambda>t e. t + e_file_size e) 0 (kv_dir_entries os fs (kc_dir kc))"
    using assms(7) by (simp add: word_less_nat_alt kv_evict_total [OF assms(6)])
  moreover have "fs_unlink os (e_path e) fs = (False, fs)"
    using assms(9) by (simp add: fs_unlink_def)
  ultimately show ?thesis
    using es by (auto simp: kv_evict_loop_step [OF _ assms(8)] kv_evict_loop_stop kc' Let_def)
qed

definition wit_name2 :: string where
  "wit_name2 = replicate 40 (CHR ''b'') @ ''.kv''"

definition wit_files2 :: files where
  "wit_files2 = wit_files @
     [(''/kv/'' @ wit_name2, kv_record_bytes 0 2 2 0 5 0 4096 10 30 [67] [4, 5] [])]"

definition wit_entries2 :: "kv_entry list" where
  "wit_entries2 = [kv_record_entry (''/kv/'' @ wit_name) (replicate 40 (CHR ''a''))
       0 2 1 0 7 3 4096 10 20 [65, 66] [1, 2, 3] [],
     kv_record_entry (''/kv/'' @ wit_name2) (replicate 40 (CHR ''b''))
       0 2 2 0 5 0 4096 10 30 [67] [4, 5] []]"

lemma wit_dir_entries2:
  assumes "\<forall>p. os_readable os p"
  shows "kv_dir_entries os wit_files2 ''/kv'' = wit_entries2"
proof -
  have n: "fs_names ''/kv'' wit_files2 = [wit_name, ''readme'', wit_name2]"
    by code_simp
  have a: "kvstore_sha_hex_name wit_name = Some (replicate 40 (CHR ''a''))"
    "kvstore_sha_hex_name wit_name2 = Some (replicate 40 (CHR ''b''))"
    "kvstore_sha_hex_name ''readme'' = None"
    by code_simp+
  have j: "kvstore_path_join ''/kv'' m = ''/kv/'' @ m" for m
    by (simp add: kvstore_path_join_def)
  have g1: "fs_get wit_files2 (''/kv/'' @ wit_name) =
      Some (kv_record_bytes 0 2 1 0 7 3 4096 10 20 [65, 66] [1, 2, 3] [])"
    by (simp add: wit_files2_def wit_files_def wit_record_def fs_get_def)
  have "wit_name2 \<noteq> wit_name" "wit_name2 \<noteq> ''readme''" by code_simp+
  then have g2: "fs_get wit_files2 (''/kv/'' @ wit_name2) =
      Some (kv_record_bytes 0 2 2 0 5 0 4096 10 30 [67] [4, 5] [])"
    by (simp add: wit_files2_def wit_files_def fs_get_def)
  show ?thesis
    unfolding kv_dir_entries_def n
    by (simp add: map_filter_simps kv_name_entry_def a j wit_entries2_def
        read_entry_file_record [OF g1, simplified] read_entry_file_record [OF g2, simplified] assms)
qed

lemma wit_distinct2: "distinct (map fst wit_files2)"
  by code_simp

lemma wit_sizes2: "kv_sizes wit_entries2 = 112"
  by (simp add: kv_sizes_def wit_entries2_def kv_record_entry_def)

theorem evict_makes_room_witness:
  "let (kc', fs') = kvstore_evict exp2_steps os_fine None 20 None (wit_store\<lparr>kc_budget_bytes := 100\<rparr>) wit_files2
   in kv_sizes (kc_entry kc') + 20 \<le> 100 \<and> kc_entry kc' = kv_dir_entries os_fine fs' ''/kv'' \<and>
      fs_get fs' ''/kv/readme'' = Some [1, 2, 3]"
proof -
  let ?kc = "wit_store\<lparr>kc_budget_bytes := 100\<rparr>"
  obtain kc' fs' where r: "kvstore_evict exp2_steps os_fine None 20 None ?kc wit_files2 = (kc', fs')"
    by fastforce
  have d: "kv_dir_entries os_fine wit_files2 ''/kv'' = wit_entries2"
    by (rule wit_dir_entries2) simp
  have readme: "''/kv/readme'' \<notin> e_path ` set wit_entries2" by code_simp
  have "fs_get wit_files2 ''/kv/readme'' = Some [1, 2, 3]" by code_simp
  then show ?thesis
    unfolding r Let_def prod.case using evict_makes_room [OF r] readme
    by (auto simp: d wit_distinct2 wit_sizes2)
qed

theorem evict_removes_lowest_ranked_witness:
  "let (kc', fs') = kvstore_evict exp2_steps os_fine None 20 None (wit_store\<lparr>kc_budget_bytes := 100\<rparr>) wit_files2
   in \<exists>vs. mset wit_entries2 = mset vs + mset (kc_entry kc')"
proof -
  let ?kc = "wit_store\<lparr>kc_budget_bytes := 100\<rparr>"
  obtain kc' fs' where r: "kvstore_evict exp2_steps os_fine None 20 None ?kc wit_files2 = (kc', fs')"
    by fastforce
  have d: "kv_dir_entries os_fine wit_files2 ''/kv'' = wit_entries2"
    by (rule wit_dir_entries2) simp
  show ?thesis
    unfolding r Let_def prod.case using evict_removes_lowest_ranked [OF r] by (auto simp: d)
qed

theorem evict_stops_at_failed_unlink_witness:
  "let os = os_fine\<lparr>os_unlinkable := \<lambda>_. False\<rparr>;
       (kc', fs') = kvstore_evict exp2_steps os None 20 None (wit_store\<lparr>kc_budget_bytes := 100\<rparr>) wit_files2
   in fs' = wit_files2 \<and> length (kc_entry kc') = 1"
proof -
  let ?os = "os_fine\<lparr>os_unlinkable := \<lambda>_. False\<rparr>"
  let ?kc = "wit_store\<lparr>kc_budget_bytes := 100\<rparr>"
  let ?sc = "\<lambda>e. kvstore_entry_eviction_score exp2_steps e None (os_time ?os) None"
  obtain kc' fs' where r: "kvstore_evict exp2_steps ?os None 20 None ?kc wit_files2 = (kc', fs')"
    by fastforce
  have d: "kv_dir_entries ?os wit_files2 ''/kv'' = wit_entries2"
    by (rule wit_dir_entries2) simp
  obtain v e where v: "kv_evict_victim ?sc wit_entries2 = Some (v, e)"
    using kv_evict_victim_None [of ?sc wit_entries2]
    by (cases "kv_evict_victim ?sc wit_entries2") (auto simp: wit_entries2_def)
  have "v < length wit_entries2" using kv_evict_victim_Some [OF v] by simp
  moreover have "length wit_entries2 = 2" by (simp add: wit_entries2_def)
  ultimately show ?thesis
    unfolding r Let_def prod.case using evict_stops_at_failed_unlink [OF r, of v e] v
    by (simp add: d wit_sizes2)
qed

end
