(* ===== verification/Kv_Store.thy ===== *)
theory Kv_Store
  imports Kv_Evict
begin

unbundle bit_operations_syntax

section \<open>Storing a checkpoint\<close>

text \<open>
  \<open>ds4_kvstore_store_live_prefix_text\<close> and what it calls: the check for a compatible file
  under the same name, the in-place rewrite of that file's trailer, the copy of the staged
  payload, and the publication of a new file by a temporary file and \<open>rename\<close>; then the
  two wrappers \<open>ds4_kvstore_store_live_prefix\<close> and \<open>ds4_kvstore_maybe_store_continued\<close>.

  The engine and the session are other components: what the store reads of them is in the
  records \<open>kv_engine\<close> and \<open>kv_session\<close>. The staged payload is a file outside the
  store's directory, given by its contents. The server's trailer hooks are functions of the
  text. Log lines and error texts are not modelled.
\<close>

subsection \<open>What the store reads of other components\<close>

record kv_engine =
  en_quant_bits :: int
  en_model_id :: int
  en_token_text :: "int \<Rightarrow> bytes"
  en_tokenize :: "bytes \<Rightarrow> int list"

text \<open>A staged payload: its length and the contents of its file, \<open>None\<close> when it cannot be opened.\<close>

record staged_payload =
  sp_bytes :: u64
  sp_src :: "bytes option"

record kv_session =
  ses_tokens :: "int list option"
  ses_ctx :: int
  ses_stage :: "staged_payload option"

record trailer_hooks =
  th_ext_flag :: u8
  th_serialized_size :: "(bytes \<Rightarrow> bool \<times> u64) option"
  th_write :: "(bytes \<Rightarrow> bool \<times> bytes \<times> u64) option"

subsection \<open>The staged payload\<close>

definition SESSION_IO_CHUNK :: nat where "SESSION_IO_CHUNK = 8 * 1024 * 1024"

text \<open>The result is success and the bytes written to the destination.\<close>

function payload_copy_file_bytes :: "bytes \<Rightarrow> bool \<Rightarrow> nat \<Rightarrow> bool \<times> bytes" where
  "payload_copy_file_bytes src dst_ok bytes =
     (if bytes = 0 then (True, [])
      else let n = (if bytes > SESSION_IO_CHUNK then SESSION_IO_CHUNK else bytes) in
           if length (take n src) \<noteq> n then (False, [])
           else if \<not> dst_ok then (False, [])
           else let (ok, out) = payload_copy_file_bytes (drop n src) dst_ok (bytes - n)
                in (ok, take n src @ out))"
  by pat_completeness auto
termination
  by (relation "measure (\<lambda>(_, _, n). n)") (auto simp: SESSION_IO_CHUNK_def)

declare payload_copy_file_bytes.simps [simp del]

definition session_write_staged_payload :: "staged_payload \<Rightarrow> bool \<Rightarrow> bool \<times> bytes" where
  "session_write_staged_payload staged dst_ok =
     (case sp_src staged of None \<Rightarrow> (False, [])
      | Some src \<Rightarrow> payload_copy_file_bytes src dst_ok (unat (sp_bytes staged)))"

lemma payload_copy_exact:
  "fst (payload_copy_file_bytes src True n) \<longleftrightarrow> n \<le> length src"
  "n \<le> length src \<Longrightarrow> payload_copy_file_bytes src True n = (True, take n src)"
proof -
  have *: "(fst (payload_copy_file_bytes src d n) \<longleftrightarrow> n \<le> length src) \<and>
    (n \<le> length src \<longrightarrow> payload_copy_file_bytes src d n = (True, take n src))" if d for d
    using that
  proof (induction src d n rule: payload_copy_file_bytes.induct)
    case (1 src d n)
    define m where "m = (if n > SESSION_IO_CHUNK then SESSION_IO_CHUNK else n)"
    have m: "m \<le> n" "n \<noteq> 0 \<Longrightarrow> 0 < m" by (auto simp: m_def SESSION_IO_CHUNK_def)
    show ?case
    proof (cases "n = 0 \<or> length (take m src) \<noteq> m")
      case True
      then show ?thesis
        using m by (auto simp: payload_copy_file_bytes.simps [of src d n] Let_def m_def [symmetric])
    next
      case False
      then have ml: "m \<le> length src" by (simp add: min_def split: if_splits)
      obtain ok out where r: "payload_copy_file_bytes (drop m src) d (n - m) = (ok, out)" by fastforce
      note ih = "1.IH" [of m, OF _ m_def _ _ "1.prems", simplified r]
      have "take m src @ take (n - m) (drop m src) = take n src"
        using m(1) by (metis le_add_diff_inverse take_add)
      then show ?thesis
        using False ml m ih r "1.prems"
        by (auto simp: payload_copy_file_bytes.simps [of src True n] Let_def m_def [symmetric])
    qed
  qed
  from * [of True] show "fst (payload_copy_file_bytes src True n) \<longleftrightarrow> n \<le> length src"
    "n \<le> length src \<Longrightarrow> payload_copy_file_bytes src True n = (True, take n src)" by simp_all
qed

lemma write_staged_ok:
  "session_write_staged_payload staged True = (True, data) \<Longrightarrow> length data = unat (sp_bytes staged)"
  by (auto simp: session_write_staged_payload_def split: option.splits)
    (metis fst_conv length_take min.absorb2 payload_copy_exact prod.inject)

subsection \<open>Trailers\<close>

definition kv_trailer_serialized_size :: "trailer_hooks option \<Rightarrow> bytes \<Rightarrow> bool \<times> u64" where
  "kv_trailer_serialized_size hooks text =
     (case hooks of None \<Rightarrow> (True, 0)
      | Some h \<Rightarrow> case th_serialized_size h of None \<Rightarrow> (True, 0) | Some f \<Rightarrow> f text)"

text \<open>The result is success, the bytes written and the number of bytes reported.\<close>

definition kv_trailer_write :: "trailer_hooks option \<Rightarrow> bytes \<Rightarrow> bool \<times> bytes \<times> u64" where
  "kv_trailer_write hooks text =
     (case hooks of None \<Rightarrow> (True, [], 0)
      | Some h \<Rightarrow> case th_write h of None \<Rightarrow> (True, [], 0) | Some f \<Rightarrow> f text)"

definition hook_ext_flag :: "trailer_hooks option \<Rightarrow> u8" where
  "hook_ext_flag hooks = (case hooks of None \<Rightarrow> 0 | Some h \<Rightarrow> th_ext_flag h)"

definition kv_has_trailer_hooks :: "trailer_hooks option \<Rightarrow> bool" where
  "kv_has_trailer_hooks hooks = (case hooks of None \<Rightarrow> False
     | Some h \<Rightarrow> th_write h \<noteq> None \<and> th_serialized_size h \<noteq> None)"

text \<open>The file after \<open>ftruncate\<close> to \<open>n\<close> bytes, which also extends a shorter file by zeros.\<close>

definition ftruncate_bytes :: "nat \<Rightarrow> bytes \<Rightarrow> bytes" where
  "ftruncate_bytes n bs = take n bs @ replicate (n - length bs) 0"

definition kv_cache_rewrite_trailer :: "os_env \<Rightarrow> files \<Rightarrow> string \<Rightarrow> bytes \<Rightarrow> trailer_hooks option \<Rightarrow> files" where
  "kv_cache_rewrite_trailer os fs path text hooks =
     (let (size_ok, trailer_est) = kv_trailer_serialized_size hooks text in
      if \<not> kv_has_trailer_hooks hooks \<or> \<not> size_ok \<or> trailer_est = 0 then fs
      else if \<not> os_writable os path then fs
      else case fs_get fs path of None \<Rightarrow> fs
      | Some bs \<Rightarrow>
          case kvstore_read_header bs of None \<Rightarrow> fs
          | Some (hdr, text_bytes, _) \<Rightarrow>
              let endp = 52 + ucast text_bytes + e_payload_bytes hdr :: u64 in
              if unat endp > 2 ^ 63 - 1 \<or> \<not> os_truncates os path then fs
              else let bs1 = ftruncate_bytes (unat endp) bs;
                       (ok, data, ignored) = kv_trailer_write hooks text
                   in if \<not> os_flushes os path then fs_put path (bs1 @ os_spill os path data) fs
                      else if \<not> (ok \<and> ignored > 0 \<and> os_fwrites os path) then fs_put path (bs1 @ data) fs
                      else fs_put path
                        (kvstore_fill_header (e_model_id hdr) (e_quant_bits hdr) (e_reason hdr)
                           (e_ext_flags hdr OR hook_ext_flag hooks) (e_tokens hdr) (e_hits hdr)
                           (e_ctx_size hdr) (e_created_at hdr) (os_time os) (e_payload_bytes hdr) @
                         drop 48 (bs1 @ data)) fs)"

subsection \<open>An existing file under the same name\<close>

definition kv_cache_existing_compatible :: "os_env \<Rightarrow> kvstore \<Rightarrow> files \<Rightarrow> string \<Rightarrow> string \<Rightarrow> bytes \<Rightarrow>
    int \<Rightarrow> int \<Rightarrow> int \<Rightarrow> u8 \<Rightarrow> u8 \<Rightarrow> bool \<times> files" where
  "kv_cache_existing_compatible os kc fs path sha text model_id quant_bits ctx_size reason ext_flags =
     (if fs_get fs path = None then (False, fs)
      else case kvstore_read_entry_file os fs path sha of
        None \<Rightarrow> (False, fs)
      | Some e \<Rightarrow>
          let expected = kv_entry_zero\<lparr>e_reason := reason, e_ext_flags := ext_flags\<rparr>;
              compatible = (e_model_id e = word_of_int model_id \<and>
                (\<not> kc_reject_different_quant kc \<or> e_quant_bits e = word_of_int quant_bits) \<and>
                e_ctx_size e \<le> word_of_int ctx_size \<and>
                kv_entry_is_automatic_exact_replay e \<and>
                kv_entry_is_automatic_exact_replay expected \<and>
                kv_cache_file_text_matches os fs path sha text)
          in if \<not> compatible then (False, snd (fs_unlink os path fs)) else (True, fs))"

subsection \<open>Publishing a new file\<close>

definition kv_store_tmp :: "os_env \<Rightarrow> string \<Rightarrow> string" where
  "kv_store_tmp os path = path @ ''.tmp.'' @ os_pid os"

definition kv_store_publish :: "os_env \<Rightarrow> kvstore \<Rightarrow> string \<Rightarrow> u8 \<Rightarrow> u8 \<Rightarrow> u8 \<Rightarrow> u8 \<Rightarrow> u32 \<Rightarrow> u32 \<Rightarrow> bytes \<Rightarrow>
    staged_payload \<Rightarrow> trailer_hooks option \<Rightarrow> files \<Rightarrow> bool \<times> files" where
  "kv_store_publish os kc path model_id quant_bits reason_code ext_flags tokens ctx_size text staged hooks fs =
     (let tmp = kv_store_tmp os path in
      if \<not> os_writable os tmp then (False, fs)
      else let now = os_time os;
               h = kvstore_fill_header model_id quant_bits reason_code ext_flags tokens 0 ctx_size
                     now now (sp_bytes staged);
               tb = le_put32 (of_nat (length text));
               (pay_ok, payload) = session_write_staged_payload staged (os_fwrites os tmp);
               (tr_ok, trailer, trailer_bytes) = kv_trailer_write hooks text;
               content = h @ tb @ text @ payload @ trailer;
               wrote = (os_fwrites os tmp \<and> pay_ok \<and> tr_ok \<and> os_flushes os tmp);
               fs1 = fs_put tmp (if wrote then content else os_spill os tmp content) fs;
               (fits, _, _) = kvstore_file_size_fits kc (of_nat (length text)) (sp_bytes staged) trailer_bytes
           in if wrote \<and> fits \<and> os_renamable os tmp then (True, fs_rename tmp path fs1)
              else (False, snd (fs_unlink os tmp fs1)))"

definition c_strz :: "bytes \<Rightarrow> bytes" where
  "c_strz = takeWhile (\<lambda>c. c \<noteq> 0)"

definition kv_store_text :: "kv_engine \<Rightarrow> int list \<Rightarrow> bytes option \<Rightarrow> bytes \<times> bool" where
  "kv_store_text eng store_tokens override =
     (case override of
        Some ov \<Rightarrow> if c_strz ov \<noteq> [] then (c_strz ov, True)
                  else (kvstore_render_tokens_text (en_token_text eng) store_tokens, False)
      | None \<Rightarrow> (kvstore_render_tokens_text (en_token_text eng) store_tokens, False))"

text \<open>The second half: no compatible file exists, so the payload is staged and a file published.\<close>

definition kv_store_new_file :: "(rat \<Rightarrow> rat) \<Rightarrow> os_env \<Rightarrow> kv_engine \<Rightarrow> kv_session \<Rightarrow> int \<Rightarrow> nat \<Rightarrow> string \<Rightarrow> u8 \<Rightarrow> u8 \<Rightarrow>
    bytes \<Rightarrow> u64 \<Rightarrow> trailer_hooks option \<Rightarrow> staged_payload option \<Rightarrow> kvstore \<Rightarrow> files \<Rightarrow>
    bool \<times> kvstore \<times> files" where
  "kv_store_new_file exp2 os eng ses ctx_size n_tokens path reason_code ext_flags text trailer_est hooks
       staged_in kc fs =
     (case (case staged_in of Some s \<Rightarrow> Some s | None \<Rightarrow> ses_stage ses) of
        None \<Rightarrow> (False, kc, fs)
      | Some staged \<Rightarrow>
          let (fits, est_file_bytes, _) =
                kvstore_file_size_fits kc (of_nat (length text)) (sp_bytes staged) trailer_est in
          if \<not> fits then (False, kc, fs)
          else let incoming = \<lparr>ic_text = Some text, ic_text_len = length text,
                     ic_model_id = word_of_int (en_model_id eng),
                     ic_quant_bits = word_of_int (en_quant_bits eng),
                     ic_ctx_size = word_of_int ctx_size,
                     ic_reject_different_quant = kc_reject_different_quant kc\<rparr>;
                   (kc1, fs1) = kvstore_evict exp2 os (ses_tokens ses) est_file_bytes (Some incoming) kc fs;
                   (ok, fs2) = kv_store_publish os kc1 path (word_of_int (en_model_id eng))
                      (word_of_int (en_quant_bits eng)) reason_code ext_flags (of_nat n_tokens)
                      (word_of_int ctx_size) text staged hooks fs1
               in (ok, kc1, fs2))"

definition kv_store_live_mismatch :: "kv_session \<Rightarrow> int list \<Rightarrow> bool" where
  "kv_store_live_mismatch ses store_tokens = (case ses_tokens ses of None \<Rightarrow> True
     | Some live \<Rightarrow> length live \<noteq> length store_tokens \<or> \<not> tokens_starts_with live store_tokens)"

definition kvstore_store_live_prefix_text :: "(rat \<Rightarrow> rat) \<Rightarrow> os_env \<Rightarrow> kv_engine \<Rightarrow> kv_session \<Rightarrow> int \<Rightarrow>
    int list option \<Rightarrow> int \<Rightarrow> string option \<Rightarrow> bytes option \<Rightarrow> u8 \<Rightarrow> trailer_hooks option \<Rightarrow>
    staged_payload option \<Rightarrow> kvstore \<Rightarrow> files \<Rightarrow> bool \<times> kvstore \<times> files" where
  "kvstore_store_live_prefix_text exp2 os eng ses ctx_size tokens store_len reason override text_ext
       hooks staged_in kc fs =
     (if \<not> kc_enabled kc then (False, kc, fs)
      else if tokens = None \<or> store_len < opt_min_tokens (kc_opt kc) then (False, kc, fs)
      else let store_tokens = kvstore_tokens_copy_prefix tokens store_len in
      if en_quant_bits eng \<noteq> 2 \<and> en_quant_bits eng \<noteq> 4 then (False, kc, fs)
      else if staged_in = None \<and> kv_store_live_mismatch ses store_tokens then (False, kc, fs)
      else let (text, text_override) = kv_store_text eng store_tokens override in
      if length text > 2 ^ 32 - 1 then (False, kc, fs)
      else let (size_ok, trailer_est) = kv_trailer_serialized_size hooks text in
      if \<not> size_ok then (False, kc, fs)
      else let sha = sha1_bytes_hex text;
               path = kvstore_path_for_sha (kc_dir kc) sha;
               reason_code = kvstore_reason_code reason;
               ext0 = (if trailer_est > 0 then hook_ext_flag hooks else 0);
               ext_flags = (if text_override then ext0 OR text_ext else ext0);
               (existing, fs1) = kv_cache_existing_compatible os kc fs path sha text (en_model_id eng)
                  (en_quant_bits eng) ctx_size reason_code ext_flags in
      if existing then (True, kc, kv_cache_rewrite_trailer os fs1 path text hooks)
      else kv_store_new_file exp2 os eng ses ctx_size (length store_tokens) path reason_code ext_flags text
             trailer_est hooks staged_in kc fs1)"

definition kvstore_store_live_prefix :: "(rat \<Rightarrow> rat) \<Rightarrow> os_env \<Rightarrow> kv_engine \<Rightarrow> kv_session \<Rightarrow>
    int list option \<Rightarrow> int \<Rightarrow> string option \<Rightarrow> trailer_hooks option \<Rightarrow> kvstore \<Rightarrow> files \<Rightarrow>
    bool \<times> kvstore \<times> files" where
  "kvstore_store_live_prefix exp2 os eng ses tokens store_len reason hooks kc fs =
     kvstore_store_live_prefix_text exp2 os eng ses (ses_ctx ses) tokens store_len reason None 0
       hooks None kc fs"

definition kvstore_maybe_store_continued :: "(rat \<Rightarrow> rat) \<Rightarrow> os_env \<Rightarrow> kv_engine \<Rightarrow> kv_session \<Rightarrow>
    trailer_hooks option \<Rightarrow> kvstore \<Rightarrow> files \<Rightarrow> bool \<times> kvstore \<times> files" where
  "kvstore_maybe_store_continued exp2 os eng ses hooks kc fs =
     (case ses_tokens ses of None \<Rightarrow> (False, kc, fs)
      | Some tokens \<Rightarrow>
          let target = kvstore_continued_store_target kc (int (length tokens)) in
          if target = 0 then (False, kc, fs)
          else let (ok, kc1, fs1) = kvstore_store_live_prefix exp2 os eng ses (Some tokens) target
                      (Some ''continued'') hooks kc fs
               in if ok then (True, kvstore_note_store kc1 target, fs1) else (False, kc1, fs1))"

subsection \<open>How a store can end\<close>

text \<open>The text a store writes, the path it writes to and the flags it records.\<close>

definition kv_key_text :: "kv_engine \<Rightarrow> int list option \<Rightarrow> int \<Rightarrow> bytes option \<Rightarrow> bytes" where
  "kv_key_text eng tokens store_len override =
     fst (kv_store_text eng (kvstore_tokens_copy_prefix tokens store_len) override)"

definition kv_key_path :: "kvstore \<Rightarrow> bytes \<Rightarrow> string" where
  "kv_key_path kc text = kvstore_path_for_sha (kc_dir kc) (sha1_bytes_hex text)"

definition kv_key_ext :: "kv_engine \<Rightarrow> int list option \<Rightarrow> int \<Rightarrow> bytes option \<Rightarrow> u8 \<Rightarrow> trailer_hooks option \<Rightarrow> u8" where
  "kv_key_ext eng tokens store_len override text_ext hooks =
     (let (text, text_override) = kv_store_text eng (kvstore_tokens_copy_prefix tokens store_len) override;
          ext0 = (if snd (kv_trailer_serialized_size hooks text) > 0 then hook_ext_flag hooks else 0)
      in if text_override then ext0 OR text_ext else ext0)"

lemma store_live_prefix_text_cases:
  assumes "kvstore_store_live_prefix_text exp2 os eng ses ctx_size tokens store_len reason override
      text_ext hooks staged_in kc fs = (ok, kc', fs')"
  defines "text \<equiv> kv_key_text eng tokens store_len override"
  defines "exist \<equiv> kv_cache_existing_compatible os kc fs (kv_key_path kc text) (sha1_bytes_hex text) text
      (en_model_id eng) (en_quant_bits eng) ctx_size (kvstore_reason_code reason)
      (kv_key_ext eng tokens store_len override text_ext hooks)"
  obtains (untouched) "\<not> ok" "kc' = kc" "fs' = fs"
  | (existing) "ok" "kc' = kc" "fst exist"
      "fs' = kv_cache_rewrite_trailer os (snd exist) (kv_key_path kc text) text hooks"
  | (new_file) "\<not> fst exist" "length text < 2 ^ 32" "en_quant_bits eng = 2 \<or> en_quant_bits eng = 4"
      "kv_store_new_file exp2 os eng ses ctx_size (length (kvstore_tokens_copy_prefix tokens store_len))
        (kv_key_path kc text) (kvstore_reason_code reason)
        (kv_key_ext eng tokens store_len override text_ext hooks) text
        (snd (kv_trailer_serialized_size hooks text)) hooks staged_in kc (snd exist) = (ok, kc', fs')"
proof -
  obtain ov where t: "kv_store_text eng (kvstore_tokens_copy_prefix tokens store_len) override = (text, ov)"
    by (simp add: text_def kv_key_text_def prod_eq_iff)
  obtain so te where se: "kv_trailer_serialized_size hooks text = (so, te)" by fastforce
  let ?guard = "\<not> kc_enabled kc \<or> tokens = None \<or> store_len < opt_min_tokens (kc_opt kc) \<or>
    en_quant_bits eng \<noteq> 2 \<and> en_quant_bits eng \<noteq> 4 \<or>
    staged_in = None \<and> kv_store_live_mismatch ses (kvstore_tokens_copy_prefix tokens store_len) \<or>
    length text > 2 ^ 32 - 1 \<or> \<not> so"
  obtain ex fs1 where ex: "exist = (ex, fs1)" by fastforce
  have ext: "kv_key_ext eng tokens store_len override text_ext hooks =
      (if ov then (if te > 0 then hook_ext_flag hooks else 0) OR text_ext
       else if te > 0 then hook_ext_flag hooks else 0)"
    by (simp add: kv_key_ext_def t se)
  note def = assms(1) [unfolded kvstore_store_live_prefix_text_def t Let_def prod.case se
      ext [symmetric] kv_key_path_def [symmetric] exist_def [symmetric] ex]
  show thesis
  proof (cases ?guard)
    case True
    then have "(ok, kc', fs') = (False, kc, fs)" using def by (auto split: if_split_asm)
    then show thesis by (intro untouched) simp_all
  next
    case False
    then have "(if ex then (True, kc, kv_cache_rewrite_trailer os fs1 (kv_key_path kc text) text hooks)
      else kv_store_new_file exp2 os eng ses ctx_size (length (kvstore_tokens_copy_prefix tokens store_len))
        (kv_key_path kc text) (kvstore_reason_code reason)
        (kv_key_ext eng tokens store_len override text_ext hooks) text te hooks staged_in kc fs1) =
        (ok, kc', fs')"
      using def by (auto split: if_split_asm)
    then show thesis
      using False existing new_file by (auto simp: ex se split: if_split_asm)
  qed
qed

subsection \<open>What each step does to the disk\<close>

lemma fs_unlink_get:
  "fs_get (snd (fs_unlink os p fs)) q = fs_get fs q \<or> q = p \<and> fs_get (snd (fs_unlink os p fs)) q = None"
  by (auto simp: fs_unlink_def disk.get_del)

lemma kv_evict_loop_get:
  "kv_evict_loop os score target tot es fs = (es', fs') \<Longrightarrow>
     fs_get fs' q = fs_get fs q \<or> fs_get fs' q = None"
proof (induction os score target tot es fs rule: kv_evict_loop.induct)
  case (1 os score target tot es fs)
  show ?case
  proof (cases "target < tot \<and> es \<noteq> []")
    case False
    then show ?thesis using "1.prems" by (auto simp: kv_evict_loop_stop kv_evict_loop_Nil)
  next
    case True
    then obtain v e where v: "kv_evict_victim score es = Some (v, e)"
      using kv_evict_victim_None [of score es] by (cases "kv_evict_victim score es") auto
    obtain gone fs1 where u: "fs_unlink os (e_path e) fs = (gone, fs1)" by fastforce
    define tot1 where "tot1 = (if gone then if tot \<ge> e_file_size e then tot - e_file_size e else 0 else 0)"
    have "kv_evict_loop os score target tot1 (take v es @ drop (Suc v) es) fs1 = (es', fs')"
      using "1.prems" True v u by (simp add: kv_evict_loop_step tot1_def)
    then have "fs_get fs' q = fs_get fs1 q \<or> fs_get fs' q = None"
      by (rule "1.IH" [OF conjunct1 [OF True] v refl u [symmetric] refl tot1_def])
    then show ?thesis using fs_unlink_get [of os "e_path e" fs q] u by auto
  qed
qed

lemma kvstore_evict_get:
  "kvstore_evict exp2 os live extra incoming kc fs = (kc', fs') \<Longrightarrow>
     fs_get fs' q = fs_get fs q \<or> fs_get fs' q = None"
  by (auto simp: kvstore_evict_def Let_def dest: kv_evict_loop_get split: if_splits prod.splits)

lemma refresh_set_entries [simp]: "(kv_cache_refresh os fs kc)\<lparr>kc_entry := es\<rparr> = kc\<lparr>kc_entry := es\<rparr>"
  by (simp add: kv_cache_refresh_def Let_def kvstore_clear_def kv_cache_scan_eq)

lemma kvstore_evict_fields:
  "kvstore_evict exp2 os live extra incoming kc fs = (kc', fs') \<Longrightarrow>
     \<exists>es. kc' = kc\<lparr>kc_entry := es\<rparr>"
  by (auto simp: kvstore_evict_def Let_def split: if_splits prod.splits intro: exI [of _ "kc_entry kc"])

lemma tmp_neq [simp]: "kv_store_tmp os path \<noteq> path" "path \<noteq> kv_store_tmp os path"
  by (simp_all add: kv_store_tmp_def)

lemma kv_store_publish_get:
  assumes "kv_store_publish os kc path m q r x t c text staged hooks fs = (ok, fs')"
    and "p \<noteq> kv_store_tmp os path"
  shows "\<not> ok \<Longrightarrow> fs_get fs' p = fs_get fs p"
    and "ok \<Longrightarrow> p \<noteq> path \<Longrightarrow> fs_get fs' p = fs_get fs p"
    and "ok \<Longrightarrow> \<exists>payload trailer. fs_get fs' path =
      Some (kv_record_bytes m q r x t 0 c (os_time os) (os_time os) text payload trailer) \<and>
      length payload = unat (sp_bytes staged)"
proof -
  let ?tmp = "kv_store_tmp os path"
  obtain pay_ok payload where pay: "session_write_staged_payload staged (os_fwrites os ?tmp) = (pay_ok, payload)"
    by fastforce
  obtain tr_ok trailer tb where tr: "kv_trailer_write hooks text = (tr_ok, trailer, tb)"
    by (metis prod_cases3)
  obtain fits f1 f2 where fits: "kvstore_file_size_fits kc (of_nat (length text)) (sp_bytes staged) tb = (fits, f1, f2)"
    by (metis prod_cases3)
  let ?content = "kvstore_fill_header m q r x t 0 c (os_time os) (os_time os) (sp_bytes staged) @
    le_put32 (of_nat (length text)) @ text @ payload @ trailer"
  define wrote where "wrote = (os_fwrites os ?tmp \<and> pay_ok \<and> tr_ok \<and> os_flushes os ?tmp)"
  let ?fs1 = "fs_put ?tmp (if wrote then ?content else os_spill os ?tmp ?content) fs"
  have def: "(ok, fs') = (if \<not> os_writable os ?tmp then (False, fs)
    else if wrote \<and> fits \<and> os_renamable os ?tmp then (True, fs_rename ?tmp path ?fs1)
    else (False, snd (fs_unlink os ?tmp ?fs1)))"
    using assms(1) unfolding kv_store_publish_def Let_def pay tr fits prod.case wrote_def by simp
  show "\<not> ok \<Longrightarrow> fs_get fs' p = fs_get fs p"
    using def assms(2) fs_unlink_get [of os ?tmp ?fs1 p] by (auto simp: disk.get_put split: if_splits)
  show "ok \<Longrightarrow> p \<noteq> path \<Longrightarrow> fs_get fs' p = fs_get fs p"
    using def assms(2) by (auto simp: disk.publish(3) split: if_splits)
  show "\<exists>payload trailer. fs_get fs' path =
      Some (kv_record_bytes m q r x t 0 c (os_time os) (os_time os) text payload trailer) \<and>
      length payload = unat (sp_bytes staged)" if ok
  proof -
    have w: wrote and fs': "fs' = fs_rename ?tmp path ?fs1" using def that by (auto split: if_splits)
    then have len: "length payload = unat (sp_bytes staged)"
      using pay write_staged_ok [of staged payload] by (simp add: wrote_def)
    have "fs_get fs' path = Some ?content" using w by (simp add: fs' disk.publish(1))
    moreover have "?content = kv_record_bytes m q r x t 0 c (os_time os) (os_time os) text payload trailer"
      by (simp add: kv_record_bytes_def len)
    ultimately show ?thesis using len by auto
  qed
qed

text \<open>The trailer rewrite keeps the text and the payload of a record that is long enough.\<close>

lemma drop_ftruncate:
  "n \<le> length bs \<Longrightarrow> ftruncate_bytes n bs = take n bs"
  by (simp add: ftruncate_bytes_def)

lemma kv_cache_rewrite_trailer_get:
  "p \<noteq> path \<Longrightarrow> fs_get (kv_cache_rewrite_trailer os fs path text hooks) p = fs_get fs p"
  by (auto simp: kv_cache_rewrite_trailer_def Let_def disk.get_put split: option.splits prod.splits)

definition kv_same_record :: "bytes \<Rightarrow> bytes \<Rightarrow> bool" where
  "kv_same_record bs bs' \<longleftrightarrow>
     (case (kvstore_read_header bs, kvstore_read_header bs') of
        (Some (h, tb, rest), Some (h', tb', rest')) \<Rightarrow>
          tb' = tb \<and> h' = h\<lparr>e_ext_flags := e_ext_flags h', e_last_used := e_last_used h'\<rparr> \<and>
          take (unat tb + unat (e_payload_bytes h)) rest' = take (unat tb + unat (e_payload_bytes h)) rest
      | _ \<Rightarrow> False)"

lemma kv_same_record_refl: "kvstore_read_header bs = Some r \<Longrightarrow> kv_same_record bs bs"
  by (cases r) (simp add: kv_same_record_def)

lemma read_header_cong:
  assumes "kvstore_read_header fp = Some (e, tlen, rest)" and "take 52 fp' = take 52 fp"
  shows "kvstore_read_header fp' = Some (e, tlen, drop 52 fp')"
proof -
  have "take 48 fp' = take 48 fp" "bslice 48 4 fp' = bslice 48 4 fp"
    using arg_cong [OF assms(2), of "take 48"] arg_cong [OF assms(2), of "drop 48"]
    by (simp_all add: bslice_def take_drop)
  then show ?thesis
    using assms(1) by (auto simp: kvstore_read_header_def Let_def split: if_split_asm)
qed

lemma same_record_append:
  assumes "kvstore_read_header bs = Some (h, tb, rest)"
    and "52 + unat tb + unat (e_payload_bytes h) \<le> length bs"
  defines "n \<equiv> 52 + unat tb + unat (e_payload_bytes h)"
  shows "kv_same_record bs (take n bs @ data)"
    and "kv_same_record bs (kvstore_fill_header (e_model_id h) (e_quant_bits h) (e_reason h) x
        (e_tokens h) (e_hits h) (e_ctx_size h) (e_created_at h) now (e_payload_bytes h) @
        drop 48 (take n bs @ data))"
proof -
  note r = read_header_Some [OF assms(1)]
  have len: "length (bslice 48 4 bs) = 4" using r(1) by simp
  have n: "52 \<le> n" "n \<le> length bs" using assms(2) by (simp_all add: n_def)
  have d52: "drop 52 (take n bs @ data) = take (n - 52) rest @ data"
    using n r(4) by (simp add: drop_take)
  have hdr: "kvstore_read_header (take n bs @ data) = Some (h, tb, take (n - 52) rest @ data)"
    using read_header_cong [OF assms(1), of "take n bs @ data"] n d52 by simp
  have nn: "n - 52 = unat tb + unat (e_payload_bytes h)" by (simp add: n_def)
  have long: "n - 52 \<le> length rest" using n r(4) by simp
  show "kv_same_record bs (take n bs @ data)"
    unfolding kv_same_record_def assms(1) hdr using long by (simp add: nn)
  have "bslice 48 4 (take n bs @ data) = bslice 48 4 bs"
    using n by (subst bslice_append_left) (simp_all add: bslice_def drop_take)
  then have split: "drop 48 (take n bs @ data) = bslice 48 4 bs @ take (n - 52) rest @ data"
    using d52 drop48_split [of "take n bs @ data"] by simp
  have "kvstore_read_header (kvstore_fill_header (e_model_id h) (e_quant_bits h) (e_reason h) x
        (e_tokens h) (e_hits h) (e_ctx_size h) (e_created_at h) now (e_payload_bytes h) @
        drop 48 (take n bs @ data)) =
      Some (h\<lparr>e_ext_flags := x, e_last_used := now\<rparr>, tb, take (n - 52) rest @ data)"
    unfolding split using r(3,5,6)
    by (simp add: read_fill_header_tb [OF len]) (simp add: r(2) kv_header_entry_def)
  then show "kv_same_record bs (kvstore_fill_header (e_model_id h) (e_quant_bits h) (e_reason h) x
        (e_tokens h) (e_hits h) (e_ctx_size h) (e_created_at h) now (e_payload_bytes h) @
        drop 48 (take n bs @ data))"
    unfolding kv_same_record_def assms(1) using long by (simp add: nn)
qed

lemma kv_cache_rewrite_trailer_same:
  assumes "fs_get fs path = Some bs" and "kvstore_read_header bs = Some (h, tb, rest)"
    and "52 + unat tb + unat (e_payload_bytes h) < 2 ^ 64"
    and "52 + unat tb + unat (e_payload_bytes h) \<le> length bs"
  shows "\<exists>bs'. fs_get (kv_cache_rewrite_trailer os fs path text hooks) path = Some bs' \<and>
    kv_same_record bs bs'"
proof -
  have "kv_cache_file_size_bytes (ucast tb) (e_payload_bytes h) 0 =
      Some (52 + ucast tb + e_payload_bytes h + 0)"
    using assms(3) by (simp add: file_size_bytes_exact)
  then have endp: "unat (52 + ucast tb + e_payload_bytes h) = 52 + unat tb + unat (e_payload_bytes h)"
    by (drule_tac file_size_bytes_unat) simp
  have same: "\<exists>bs'. fs_get fs path = Some bs' \<and> kv_same_record bs bs'"
    using assms(1,2) kv_same_record_refl by blast
  obtain so est where so: "kv_trailer_serialized_size hooks text = (so, est)" by fastforce
  obtain ok data ign where tw: "kv_trailer_write hooks text = (ok, data, ign)" by (metis prod_cases3)
  note app = same_record_append [OF assms(2,4)]
  show ?thesis
    unfolding kv_cache_rewrite_trailer_def so tw Let_def prod.case assms(1) option.case assms(2) endp
      drop_ftruncate [OF assms(4)]
    using same app by (simp add: disk.get_put del: drop_append)
qed

lemma existing_compatible_cases:
  assumes "kv_cache_existing_compatible os kc fs path sha text m q c r x = (ok, fs')"
  shows "ok \<Longrightarrow> fs' = fs \<and> (\<exists>e. kvstore_read_entry_file os fs path sha = Some e)"
    and "\<not> ok \<Longrightarrow> fs' = fs \<or> fs' = fs_del path fs"
  using assms
  by (auto simp: kv_cache_existing_compatible_def Let_def fs_unlink_def split: if_splits option.splits)

lemma existing_compatibleD:
  assumes "kv_cache_existing_compatible os kc fs path sha text m q c r x = (True, fs')"
  shows "\<exists>e. kvstore_read_entry_file os fs path sha = Some e \<and> e_model_id e = word_of_int m \<and>
    (kc_reject_different_quant kc \<longrightarrow> e_quant_bits e = word_of_int q) \<and> e_ctx_size e \<le> word_of_int c \<and>
    kv_entry_is_automatic_exact_replay e \<and> kv_cache_file_text_matches os fs path sha text"
  using assms by (auto simp: kv_cache_existing_compatible_def Let_def split: if_splits option.splits)

lemma kv_store_new_file_cases:
  assumes "kv_store_new_file exp2 os eng ses ctx n path r x text est hooks staged_in kc fs = (ok, kc', fs')"
  obtains (refused) "\<not> ok" "kc' = kc" "fs' = fs"
  | (published) staged est_file est_req inc fs1 where
      "(case staged_in of Some s \<Rightarrow> Some s | None \<Rightarrow> ses_stage ses) = Some staged"
      "kvstore_file_size_fits kc (of_nat (length text)) (sp_bytes staged) est = (True, est_file, est_req)"
      "kvstore_evict exp2 os (ses_tokens ses) est_file inc kc fs = (kc', fs1)"
      "kv_store_publish os kc' path (word_of_int (en_model_id eng)) (word_of_int (en_quant_bits eng)) r x
         (of_nat n) (word_of_int ctx) text staged hooks fs1 = (ok, fs')"
  using assms unfolding kv_store_new_file_def Let_def
  by (auto split: option.splits prod.splits if_splits)

subsection \<open>Properties of the store\<close>

text \<open>
  C2. A store never leaves a torn checkpoint, whichever system calls fail. After
  \<open>ds4_kvstore_store_live_prefix_text\<close> every path but the temporary file holds what it
  held before, or is gone, or is the checkpoint's own path and holds either one complete
  record of the text just stored, or the record it held, with the same text and payload and only
  flags, time and trailer rewritten; that record was one of this text, for this model, no larger a
  context, where required this quantisation, and of a kind that is replayed exactly.
\<close>

theorem store_never_tears:
  assumes "kvstore_store_live_prefix_text exp2 os eng ses ctx_size tokens store_len reason override
      text_ext hooks staged_in kc fs = (ok, kc', fs')"
    and "p \<noteq> kv_store_tmp os (kv_key_path kc (kv_key_text eng tokens store_len override))"
  shows "fs_get fs' p = fs_get fs p \<or> fs_get fs' p = None \<or>
    p = kv_key_path kc (kv_key_text eng tokens store_len override) \<and>
      ((\<exists>payload trailer. fs_get fs' p = Some (kv_record_bytes (word_of_int (en_model_id eng))
          (word_of_int (en_quant_bits eng)) (kvstore_reason_code reason)
          (kv_key_ext eng tokens store_len override text_ext hooks)
          (of_nat (length (kvstore_tokens_copy_prefix tokens store_len))) 0 (word_of_int ctx_size)
          (os_time os) (os_time os) (kv_key_text eng tokens store_len override) payload trailer)) \<or>
       (\<exists>bs bs' e. fs_get fs p = Some bs \<and> fs_get fs' p = Some bs' \<and> kv_same_record bs bs' \<and>
          kvstore_read_entry_file os fs p (sha1_bytes_hex (kv_key_text eng tokens store_len override)) = Some e \<and>
          e_model_id e = word_of_int (en_model_id eng) \<and> e_ctx_size e \<le> word_of_int ctx_size \<and>
          (kc_reject_different_quant kc \<longrightarrow> e_quant_bits e = word_of_int (en_quant_bits eng)) \<and>
          kv_entry_is_automatic_exact_replay e \<and>
          kv_cache_file_text_matches os fs p (sha1_bytes_hex (kv_key_text eng tokens store_len override))
            (kv_key_text eng tokens store_len override)))"
  using assms(1)
proof (cases rule: store_live_prefix_text_cases)
  case untouched
  then show ?thesis by simp
next
  case existing
  let ?text = "kv_key_text eng tokens store_len override"
  let ?path = "kv_key_path kc ?text"
  obtain ex fs1 where e: "kv_cache_existing_compatible os kc fs ?path (sha1_bytes_hex ?text) ?text
      (en_model_id eng) (en_quant_bits eng) ctx_size (kvstore_reason_code reason)
      (kv_key_ext eng tokens store_len override text_ext hooks) = (ex, fs1)" by fastforce
  have "fs1 = fs" and ent: "\<exists>e. kvstore_read_entry_file os fs ?path (sha1_bytes_hex ?text) = Some e"
    using existing_compatible_cases(1) [OF e] existing(3) e by simp_all
  then have fs': "fs' = kv_cache_rewrite_trailer os fs ?path ?text hooks" using existing(4) e by simp
  obtain bs h tb rest where "fs_get fs ?path = Some bs" "kvstore_read_header bs = Some (h, tb, rest)"
      "52 + unat tb + unat (e_payload_bytes h) < 2 ^ 64"
      "52 + unat tb + unat (e_payload_bytes h) \<le> length bs mod 2 ^ 64"
    using ent unfolding read_entry_file_iff by blast
  moreover from this have "52 + unat tb + unat (e_payload_bytes h) \<le> length bs"
    using mod_less_eq_dividend order_trans by blast
  ultimately have "\<exists>bs'. fs_get fs' ?path = Some bs' \<and> kv_same_record bs bs'"
    unfolding fs' by (intro kv_cache_rewrite_trailer_same)
  moreover have ex: "ex = True" using existing(3) e by simp
  obtain en where "kvstore_read_entry_file os fs ?path (sha1_bytes_hex ?text) = Some en" "e_model_id en = word_of_int (en_model_id eng)"
      "kc_reject_different_quant kc \<longrightarrow> e_quant_bits en = word_of_int (en_quant_bits eng)" "e_ctx_size en \<le> word_of_int ctx_size"
      "kv_entry_is_automatic_exact_replay en" "kv_cache_file_text_matches os fs ?path (sha1_bytes_hex ?text) ?text"
    using existing_compatibleD [OF e [unfolded ex]] by blast
  ultimately show ?thesis
    using kv_cache_rewrite_trailer_get [of p ?path os fs ?text hooks] \<open>fs_get fs ?path = Some bs\<close>
    by (cases "p = ?path") (auto simp: fs')
next
  case new_file
  let ?text = "kv_key_text eng tokens store_len override"
  let ?path = "kv_key_path kc ?text"
  obtain ex fs0 where e: "kv_cache_existing_compatible os kc fs ?path (sha1_bytes_hex ?text) ?text
      (en_model_id eng) (en_quant_bits eng) ctx_size (kvstore_reason_code reason)
      (kv_key_ext eng tokens store_len override text_ext hooks) = (ex, fs0)" by fastforce
  have "fs0 = fs \<or> fs0 = fs_del ?path fs"
    using existing_compatible_cases(2) [OF e] new_file(1) e by simp
  then have fs0: "fs_get fs0 p = fs_get fs p \<or> fs_get fs0 p = None"
    by (auto simp: disk.get_del split: if_splits)
  from new_file(4) [unfolded e snd_conv] show ?thesis
  proof (cases rule: kv_store_new_file_cases)
    case refused
    then show ?thesis using fs0 by auto
  next
    case (published staged est_file est_req inc fs1)
    have fs1: "fs_get fs1 p = fs_get fs p \<or> fs_get fs1 p = None"
      using kvstore_evict_get [OF published(3), of p] fs0 by auto
    note pub = kv_store_publish_get [OF published(4) assms(2)]
    show ?thesis
    proof (cases "ok \<and> p = ?path")
      case True
      then show ?thesis using pub(3) by blast
    next
      case False
      then have "fs_get fs' p = fs_get fs1 p" using pub(1,2) by blast
      then show ?thesis using fs1 by auto
    qed
  qed
qed

lemma map_fst_put:
  "map fst (fs_put p b fs) = (if p \<in> fst ` set fs then map fst fs else map fst fs @ [p])"
  by (induction fs) (auto simp: fs_put_def)

lemma fs_names_append:
  assumes "map fst fs' = map fst fs @ [p]"
  shows "fs_names dir fs' = fs_names dir fs \<or>
    (\<exists>n. p = kvstore_path_join dir n \<and> fs_names dir fs' = fs_names dir fs @ [n])"
proof -
  define pre where "pre = kvstore_path_join dir []"
  have pj: "kvstore_path_join dir n = pre @ n" for n
    unfolding pre_def by (rule path_join_split)
  have "take (length pre) p = pre \<Longrightarrow> p = pre @ drop (length pre) p"
    by (metis append_take_drop_id)
  then show ?thesis
    unfolding fs_names_def Let_def assms pre_def [symmetric] pj by auto
qed

text \<open>A file whose name is no checkpoint name does not show in the listing.\<close>

lemma kv_dir_entries_put_other:
  assumes "\<And>n. p = kvstore_path_join dir n \<Longrightarrow> kvstore_sha_hex_name n = None"
  shows "kv_dir_entries os (fs_put p b fs) dir = kv_dir_entries os fs dir"
proof -
  have e: "kv_name_entry os (fs_put p b fs) dir n = kv_name_entry os fs dir n" for n
  proof (cases "p = kvstore_path_join dir n")
    case True
    then show ?thesis using assms [OF True] by (simp add: kv_name_entry_def)
  next
    case False
    then have "fs_get (fs_put p b fs) (kvstore_path_join dir n) = fs_get fs (kvstore_path_join dir n)"
      by (simp add: disk.get_put)
    then show ?thesis
      by (simp add: kv_name_entry_def read_entry_file_cong [of "fs_put p b fs" _ fs] split: option.split)
  qed
  have "fs_names dir (fs_put p b fs) = fs_names dir fs \<or>
      (\<exists>n. p = kvstore_path_join dir n \<and> fs_names dir (fs_put p b fs) = fs_names dir fs @ [n])"
  proof (cases "p \<in> fst ` set fs")
    case True
    then show ?thesis by (simp add: fs_names_def map_fst_put)
  next
    case False
    then show ?thesis by (intro fs_names_append) (simp add: map_fst_put)
  qed
  then show ?thesis
  proof
    assume "fs_names dir (fs_put p b fs) = fs_names dir fs"
    then show ?thesis by (simp add: kv_dir_entries_def e map_filter_def)
  next
    assume "\<exists>n. p = kvstore_path_join dir n \<and> fs_names dir (fs_put p b fs) = fs_names dir fs @ [n]"
    then obtain n where n: "p = kvstore_path_join dir n" "fs_names dir (fs_put p b fs) = fs_names dir fs @ [n]"
      by blast
    have "kv_name_entry os fs dir n = None" using assms [OF n(1)] by (simp add: kv_name_entry_def)
    then show ?thesis by (simp add: kv_dir_entries_def n(2) e map_filter_def)
  qed
qed

lemma tmp_name_is_no_checkpoint:
  "kv_store_tmp os (kv_key_path kc text) = kvstore_path_join (kc_dir kc) n \<Longrightarrow>
     kvstore_sha_hex_name n = None"
proof -
  assume a: "kv_store_tmp os (kv_key_path kc text) = kvstore_path_join (kc_dir kc) n"
  have "kv_store_tmp os (kv_key_path kc text) =
      kvstore_path_join (kc_dir kc) (sha1_bytes_hex text @ ''.kv.tmp.'' @ os_pid os)"
    by (simp add: kv_store_tmp_def kv_key_path_def kvstore_path_for_sha_def kvstore_path_join_def)
  then have "n = sha1_bytes_hex text @ ''.kv.tmp.'' @ os_pid os"
    using a by (simp add: path_join_inj)
  then show ?thesis by (simp add: kvstore_sha_hex_name_def)
qed

text \<open>
  The temporary file of a store is invisible: whatever it contains, listing the
  directory gives the same checkpoints with and without it, so an interrupted
  store is never loaded or counted.
\<close>

theorem temporary_file_invisible:
  "kv_dir_entries os' (fs_put (kv_store_tmp os (kv_key_path kc text)) junk fs) (kc_dir kc) =
   kv_dir_entries os' fs (kc_dir kc)"
  by (rule kv_dir_entries_put_other) (rule tmp_name_is_no_checkpoint)

subsection \<open>A store that meets no failure\<close>

definition os_works :: "os_env \<Rightarrow> bool" where
  "os_works os \<longleftrightarrow> (\<forall>p. os_readable os p \<and> os_writable os p \<and> os_unlinkable os p \<and> os_renamable os p \<and>
     os_fwrites os p \<and> os_flushes os p \<and> os_truncates os p \<and> os_listable os p)"

lemma fs_del_put: "fs_del p (fs_put p c fs) = fs_del p fs"
  by (induction fs) (auto simp: fs_del_def fs_put_def)

lemma kv_sizes_filter_le: "kv_sizes (filter P es) \<le> kv_sizes es"
  by (induction es) (simp_all add: kv_sizes_def)

lemma kv_sizes_split:
  assumes "distinct (map e_path es)"
  shows "kv_sizes es \<le> kv_sizes (filter (\<lambda>e. e_path e \<noteq> p) es) + n \<or>
    (\<exists>e \<in> set es. e_path e = p \<and> n < unat (e_file_size e))"
  using assms
proof (induction es)
  case (Cons e es)
  show ?case
  proof (cases "e_path e = p")
    case True
    then have "p \<notin> e_path ` set es" using Cons.prems by simp
    then have "filter (\<lambda>e. e_path e \<noteq> p) es = es" by (intro filter_True) (metis image_eqI)
    then show ?thesis using True by (auto simp: kv_sizes_def)
  next
    case False
    then show ?thesis using Cons by (auto simp: kv_sizes_def)
  qed
qed (simp add: kv_sizes_def)

text \<open>Writing one file adds at most its length to the listed sizes.\<close>

lemma kv_sizes_put:
  assumes "distinct (map fst fs)"
  shows "kv_sizes (kv_dir_entries os (fs_put p c fs) dir) \<le> kv_sizes (kv_dir_entries os fs dir) + length c"
proof -
  let ?es = "kv_dir_entries os (fs_put p c fs) dir"
  have "unat (e_file_size e) \<le> length c" if "e \<in> set ?es" "e_path e = p" for e
    using that by (auto simp: mem_kv_dir_entries read_entry_file_iff disk.get_put unat_of_nat take_bit_eq_mod)
  then have "kv_sizes ?es \<le> kv_sizes (filter (\<lambda>e. e_path e \<noteq> p) ?es) + length c"
    using kv_sizes_split [OF distinct_kv_dir_entries [OF distinct_put [OF assms]], of os p c dir p "length c"]
    by (meson not_less)
  also have "filter (\<lambda>e. e_path e \<noteq> p) ?es = filter (\<lambda>e. e_path e \<noteq> p) (kv_dir_entries os fs dir)"
    unfolding kv_dir_entries_del [symmetric] fs_del_put ..
  finally show ?thesis using kv_sizes_filter_le add_le_mono1 order_trans by blast
qed

lemma publish_success:
  assumes "os_works os" and "sp_src staged = Some src" and "unat (sp_bytes staged) \<le> length src"
    and "kv_trailer_write hooks text = (True, trailer, tb)"
    and "fst (kvstore_file_size_fits kc (of_nat (length text)) (sp_bytes staged) tb)"
  shows "kv_store_publish os kc path m q r x t c text staged hooks fs = (True, fs_put path
    (kv_record_bytes m q r x t 0 c (os_time os) (os_time os) text (take (unat (sp_bytes staged)) src) trailer)
    (fs_del (kv_store_tmp os path) fs))"
proof -
  have "session_write_staged_payload staged True = (True, take (unat (sp_bytes staged)) src)"
    using assms(2,3) by (simp add: session_write_staged_payload_def payload_copy_exact)
  moreover have "fs_rename a b (fs_put a z fs) = fs_put b z (fs_del a fs)" for a b z
    using disk.ren_eq [of "fs_put a z fs" a z b] by (simp add: disk.get_put fs_del_put)
  moreover have "(of_nat (length (take (unat (sp_bytes staged)) src)) :: u64) = sp_bytes staged"
    using assms(3) by simp
  moreover obtain a b where "kvstore_file_size_fits kc (of_nat (length text)) (sp_bytes staged) tb = (True, a, b)"
    using assms(5) by (metis prod.collapse)
  ultimately show ?thesis
    using assms(1,4)
    by (simp add: kv_store_publish_def Let_def os_works_def kv_record_bytes_def)
qed

lemma fits_smaller_trailer:
  assumes "fst (kvstore_file_size_fits kc t p r)" and "unat r' \<le> unat r"
    and "kc_budget_bytes kc' = kc_budget_bytes kc"
  shows "fst (kvstore_file_size_fits kc' t p r')"
proof -
  let ?a = "52 + unat t + unat p + unat r'"
  let ?b = "52 + unat t + unat p + unat r"
  have "?a \<le> ?b" using assms(2) by simp
  then have "?a + (?a + 99) div 100 \<le> ?b + (?b + 99) div 100"
    by (intro add_mono div_le_mono) simp_all
  then show ?thesis
    using assms unfolding file_size_fits_exact by auto
qed

lemma fits_estimate:
  assumes "kvstore_file_size_fits kc t p r = (True, f, q)"
  shows "unat f = 52 + unat t + unat p + unat r" and "kc_budget_bytes kc \<noteq> 0 \<Longrightarrow> f \<le> kc_budget_bytes kc"
proof -
  have "kv_cache_file_size_bytes t p r = Some f"
    using assms by (auto simp: kvstore_file_size_fits_def split: option.splits if_splits)
  then show f: "unat f = 52 + unat t + unat p + unat r" by (rule file_size_bytes_unat)
  assume "kc_budget_bytes kc \<noteq> 0"
  moreover have "fst (kvstore_file_size_fits kc t p r)" using assms by simp
  ultimately show "f \<le> kc_budget_bytes kc"
    unfolding file_size_fits_exact word_le_nat_alt f by simp
qed

lemma kv_evict_loop_distinct:
  "kv_evict_loop os score target tot es fs = (es', fs') \<Longrightarrow> distinct (map fst fs) \<Longrightarrow> distinct (map fst fs')"
proof (induction os score target tot es fs rule: kv_evict_loop.induct)
  case (1 os score target tot es fs)
  show ?case
  proof (cases "target < tot \<and> es \<noteq> []")
    case False
    then show ?thesis using "1.prems" by (auto simp: kv_evict_loop_stop kv_evict_loop_Nil)
  next
    case True
    then obtain v e where v: "kv_evict_victim score es = Some (v, e)"
      using kv_evict_victim_None [of score es] by (cases "kv_evict_victim score es") auto
    obtain gone fs1 where u: "fs_unlink os (e_path e) fs = (gone, fs1)" by fastforce
    define tot1 where "tot1 = (if gone then if tot \<ge> e_file_size e then tot - e_file_size e else 0 else 0)"
    have "kv_evict_loop os score target tot1 (take v es @ drop (Suc v) es) fs1 = (es', fs')"
      using "1.prems"(1) True v u by (simp add: kv_evict_loop_step tot1_def)
    moreover have "distinct (map fst fs1)"
      using u "1.prems"(2) by (auto simp: fs_unlink_def distinct_del split: if_splits)
    ultimately show ?thesis
      by (rule "1.IH" [OF conjunct1 [OF True] v refl u [symmetric] refl tot1_def])
  qed
qed

lemma kvstore_evict_distinct:
  "kvstore_evict exp2 os live extra incoming kc fs = (kc', fs') \<Longrightarrow> distinct (map fst fs) \<Longrightarrow>
     distinct (map fst fs')"
  by (auto simp: kvstore_evict_def Let_def dest: kv_evict_loop_distinct split: if_splits prod.splits)

text \<open>A complete record under the path of its text's hash is listed.\<close>

lemma record_listed:
  assumes "fs_get fs (kv_key_path kc key) =
      Some (kv_record_bytes m q r x (of_nat n) h c ca lu text payload trailer)"
    and "os_readable os (kv_key_path kc key)" and "0 < n" and "n < 2 ^ 32" and "q = 2 \<or> q = 4"
    and "length text < 2 ^ 32" and "52 + length text + length payload + length trailer < 2 ^ 64"
  shows "kv_record_entry (kv_key_path kc key) (sha1_bytes_hex key) m q r x (of_nat n) h c ca lu text
    payload trailer \<in> set (kv_dir_entries os fs (kc_dir kc))"
proof -
  let ?n = "sha1_bytes_hex key @ ''.kv''"
  have path: "kv_key_path kc key = kvstore_path_join (kc_dir kc) ?n"
    by (simp add: kv_key_path_def kvstore_path_for_sha_def)
  have name: "kvstore_sha_hex_name ?n = Some (sha1_bytes_hex key)"
    using sha_hex_name_lower [of "sha1_bytes_hex key"] by simp
  have "CHR ''/'' \<notin> set (sha1_bytes_hex key)"
    using lower_hex_sha1 [of key] by (auto simp: lower_hex_def list_all_iff)
  then have "?n \<in> set (fs_names (kc_dir kc) fs)"
    using fs_get_in [OF assms(1)] by (simp add: fs_names_iff path)
  moreover have "(of_nat n :: u32) \<noteq> 0"
    using assms(3,4) by (metis unat_of_nat_u32 unat_0 less_numeral_extra(3))
  then have "kvstore_read_entry_file os fs (kv_key_path kc key) (sha1_bytes_hex key) =
      Some (kv_record_entry (kv_key_path kc key) (sha1_bytes_hex key) m q r x (of_nat n) h c ca lu text
        payload trailer)"
    using assms by (intro read_entry_file_record)
  ultimately show ?thesis
    unfolding mem_kv_dir_entries path using name by blast
qed

lemma store_reaches_new_file:
  assumes "kc_enabled kc" and "tokens \<noteq> None" and "opt_min_tokens (kc_opt kc) \<le> store_len"
    and "en_quant_bits eng = 2 \<or> en_quant_bits eng = 4"
    and "staged_in \<noteq> None \<or> \<not> kv_store_live_mismatch ses (kvstore_tokens_copy_prefix tokens store_len)"
    and "length (kv_key_text eng tokens store_len override) < 2 ^ 32"
    and es: "kv_trailer_serialized_size hooks (kv_key_text eng tokens store_len override) = (True, est)"
    and e: "kv_cache_existing_compatible os kc fs (kv_key_path kc (kv_key_text eng tokens store_len override))
      (sha1_bytes_hex (kv_key_text eng tokens store_len override)) (kv_key_text eng tokens store_len override)
      (en_model_id eng) (en_quant_bits eng) ctx_size (kvstore_reason_code reason)
      (kv_key_ext eng tokens store_len override text_ext hooks) = (False, fs0)"
  shows "kvstore_store_live_prefix_text exp2 os eng ses ctx_size tokens store_len reason
      override text_ext hooks staged_in kc fs =
    kv_store_new_file exp2 os eng ses ctx_size (length (kvstore_tokens_copy_prefix tokens store_len))
      (kv_key_path kc (kv_key_text eng tokens store_len override)) (kvstore_reason_code reason)
      (kv_key_ext eng tokens store_len override text_ext hooks) (kv_key_text eng tokens store_len override)
      est hooks staged_in kc fs0"
proof -
  define key where "key = kv_key_text eng tokens store_len override"
  define toks where "toks = kvstore_tokens_copy_prefix tokens store_len"
  obtain ov where t: "kv_store_text eng toks override = (key, ov)"
    by (simp add: key_def kv_key_text_def toks_def prod_eq_iff)
  have x: "kv_key_ext eng tokens store_len override text_ext hooks =
      (if ov then (if est > 0 then hook_ext_flag hooks else 0) OR text_ext
       else if est > 0 then hook_ext_flag hooks else 0)"
    using t es by (simp add: kv_key_ext_def toks_def key_def)
  have "\<not> length key > 2 ^ 32 - 1" using assms(6) by (simp add: key_def)
  then show ?thesis
    using assms(1-5)
    unfolding kvstore_store_live_prefix_text_def toks_def [symmetric] t Let_def prod.case key_def [symmetric]
      es [folded key_def] x [symmetric] kv_key_path_def [symmetric] e [folded key_def]
    by auto
qed

text \<open>
  C15. When no system call fails, a store succeeds and keeps the budget. For a token
  prefix that passes the guards and matches the live session, a text of less than
  \<open>2^32\<close> bytes, a staged payload of the announced length, a trailer no longer than its
  estimate and an estimate that fits the budget, and no compatible file in the way,
  \<open>ds4_kvstore_store_live_prefix_text\<close> returns true; the file under the text's hash is the
  complete record; a listing of the directory shows it with its fields; and all
  checkpoints of the directory together stay within the budget.
\<close>

theorem store_publishes_within_budget:
  fixes tokens :: "int list option" and store_len :: int and eng :: kv_engine
    and override :: "bytes option" and kc :: kvstore
    and key :: bytes and toks :: "int list" and path sha :: string
  defines "toks \<equiv> kvstore_tokens_copy_prefix tokens store_len"
  defines "key \<equiv> kv_key_text eng tokens store_len override"
  defines "sha \<equiv> sha1_bytes_hex key"
  defines "path \<equiv> kv_key_path kc key"
  assumes works: "os_works os" and en: "kc_enabled kc" and bud: "kc_budget_bytes kc \<noteq> 0"
    and dist: "distinct (map fst fs)" and sizes: "kv_sizes (kv_dir_entries os fs (kc_dir kc)) < 2 ^ 64"
    and tk: "tokens \<noteq> None" and mn: "opt_min_tokens (kc_opt kc) \<le> store_len"
    and qb: "en_quant_bits eng = 2 \<or> en_quant_bits eng = 4"
    and lv: "staged_in \<noteq> None \<or> \<not> kv_store_live_mismatch ses toks"
    and ne: "0 < length toks" and tl: "length toks < 2 ^ 32" and kl: "length key < 2 ^ 32"
    and es: "kv_trailer_serialized_size hooks key = (True, est)"
    and tw: "kv_trailer_write hooks key = (True, trailer, of_nat (length trailer))"
    and te: "length trailer \<le> unat est"
    and ex: "\<not> fst (kv_cache_existing_compatible os kc fs path sha key (en_model_id eng)
      (en_quant_bits eng) ctx_size (kvstore_reason_code reason)
      (kv_key_ext eng tokens store_len override text_ext hooks))"
    and st: "(case staged_in of Some s \<Rightarrow> Some s | None \<Rightarrow> ses_stage ses) = Some staged"
    and src: "sp_src staged = Some src" and sl: "unat (sp_bytes staged) \<le> length src"
    and fit: "fst (kvstore_file_size_fits kc (of_nat (length key)) (sp_bytes staged) est)"
  shows "\<exists>kc' fs'. kvstore_store_live_prefix_text exp2 os eng ses ctx_size tokens store_len reason
        override text_ext hooks staged_in kc fs = (True, kc', fs') \<and>
    fs_get fs' path = Some (kv_record_bytes (word_of_int (en_model_id eng)) (word_of_int (en_quant_bits eng))
        (kvstore_reason_code reason) (kv_key_ext eng tokens store_len override text_ext hooks)
        (of_nat (length toks)) 0 (word_of_int ctx_size) (os_time os) (os_time os) key
        (take (unat (sp_bytes staged)) src) trailer) \<and>
    kv_record_entry path sha (word_of_int (en_model_id eng)) (word_of_int (en_quant_bits eng))
        (kvstore_reason_code reason) (kv_key_ext eng tokens store_len override text_ext hooks)
        (of_nat (length toks)) 0 (word_of_int ctx_size) (os_time os) (os_time os) key
        (take (unat (sp_bytes staged)) src) trailer \<in> set (kv_dir_entries os fs' (kc_dir kc)) \<and>
    kv_sizes (kv_dir_entries os fs' (kc_dir kc)) \<le> unat (kc_budget_bytes kc)"
proof -
  let ?m = "word_of_int (en_model_id eng)" and ?q = "word_of_int (en_quant_bits eng)"
  let ?x = "kv_key_ext eng tokens store_len override text_ext hooks"
  let ?pay = "take (unat (sp_bytes staged)) src"
  let ?rec = "kv_record_bytes ?m ?q (kvstore_reason_code reason) ?x (of_nat (length toks)) 0
    (word_of_int ctx_size) (os_time os) (os_time os) key ?pay trailer"
  obtain fs0 where e: "kv_cache_existing_compatible os kc fs path sha key (en_model_id eng)
      (en_quant_bits eng) ctx_size (kvstore_reason_code reason) ?x = (False, fs0)"
    using ex by (metis prod.collapse)
  have "fs0 = fs \<or> fs0 = fs_del path fs"
    using existing_compatible_cases(2) [OF e] by simp
  then have fs0: "distinct (map fst fs0)" "kv_sizes (kv_dir_entries os fs0 (kc_dir kc)) < 2 ^ 64"
    using dist sizes kv_sizes_filter_le [of "\<lambda>e. e_path e \<noteq> path" "kv_dir_entries os fs (kc_dir kc)"]
    by (auto simp: distinct_del kv_dir_entries_del intro: le_less_trans)
  obtain f req where f: "kvstore_file_size_fits kc (of_nat (length key)) (sp_bytes staged) est = (True, f, req)"
    using fit by (metis prod.collapse)
  define inc where "inc = Some \<lparr>ic_text = Some key, ic_text_len = length key, ic_model_id = ?m,
    ic_quant_bits = ?q, ic_ctx_size = word_of_int ctx_size,
    ic_reject_different_quant = kc_reject_different_quant kc\<rparr>"
  obtain kc1 fs1 where ev: "kvstore_evict exp2 os (ses_tokens ses) f inc kc fs0 = (kc1, fs1)" by fastforce
  have room: "kv_sizes (kv_dir_entries os fs1 (kc_dir kc)) + unat f \<le> unat (kc_budget_bytes kc)"
    using kvstore_evict_fits [OF ev en bud] fits_estimate(2) [OF f bud] fs0 works by (simp add: os_works_def)
  have d1: "distinct (map fst fs1)"
    using kvstore_evict_distinct [OF ev fs0(1)] .
  have kc1: "kc_budget_bytes kc1 = kc_budget_bytes kc" using kvstore_evict_fields [OF ev] by auto
  have f64: "unat f = 52 + length key + unat (sp_bytes staged) + unat est"
    using fits_estimate(1) [OF f] kl by (simp add: unat_of_nat_u64)
  have tr64: "unat (of_nat (length trailer) :: u64) = length trailer"
    using te unat_u64_bound [of est] by (simp add: unat_of_nat_u64)
  have pub: "kv_store_publish os kc1 path ?m ?q (kvstore_reason_code reason) ?x (of_nat (length toks))
      (word_of_int ctx_size) key staged hooks fs1 = (True, fs_put path ?rec (fs_del (kv_store_tmp os path) fs1))"
    using te by (intro publish_success [OF works src sl tw] fits_smaller_trailer [OF fit _ kc1]) (simp only: tr64)
  define fs' where "fs' = fs_put path ?rec (fs_del (kv_store_tmp os path) fs1)"
  have new: "kv_store_new_file exp2 os eng ses ctx_size (length toks) path (kvstore_reason_code reason) ?x
      key est hooks staged_in kc fs0 = (True, kc1, fs')"
    unfolding kv_store_new_file_def st option.case f Let_def prod.case inc_def [symmetric] ev pub fs'_def
    by simp
  have run: "kvstore_store_live_prefix_text exp2 os eng ses ctx_size tokens store_len reason
      override text_ext hooks staged_in kc fs = (True, kc1, fs')"
    using store_reaches_new_file [OF en tk mn qb lv [unfolded toks_def] kl [unfolded key_def]
        es [unfolded key_def] e [unfolded path_def sha_def key_def]]
      new by (simp add: path_def key_def toks_def)
  have get: "fs_get fs' path = Some ?rec" by (simp add: fs'_def disk.get_put)
  have len: "52 + length key + length ?pay + length trailer \<le> unat f"
    using f64 te sl by simp
  moreover have "kv_sizes (kv_dir_entries os fs' (kc_dir kc)) \<le>
      kv_sizes (kv_dir_entries os (fs_del (kv_store_tmp os path) fs1) (kc_dir kc)) + length ?rec"
    unfolding fs'_def by (rule kv_sizes_put [OF distinct_del [OF d1]])
  moreover have "kv_sizes (kv_dir_entries os (fs_del (kv_store_tmp os path) fs1) (kc_dir kc)) \<le>
      kv_sizes (kv_dir_entries os fs1 (kc_dir kc))"
    unfolding kv_dir_entries_del by (rule kv_sizes_filter_le)
  ultimately have fitsb: "kv_sizes (kv_dir_entries os fs' (kc_dir kc)) \<le> unat (kc_budget_bytes kc)"
    using room by (simp only: length_kv_record_bytes)
  have listed: "kv_record_entry path sha ?m ?q (kvstore_reason_code reason) ?x (of_nat (length toks)) 0
      (word_of_int ctx_size) (os_time os) (os_time os) key ?pay trailer \<in> set (kv_dir_entries os fs' (kc_dir kc))"
    unfolding sha_def path_def using get works qb ne tl kl len unat_u64_bound [of f]
    by (intro record_listed) (auto simp: path_def os_works_def)
  show ?thesis using run get listed fitsb by blast
qed

definition wit_engine :: kv_engine where
  "wit_engine = \<lparr>en_quant_bits = 2, en_model_id = 0, en_token_text = (\<lambda>t. [word_of_int t]),
     en_tokenize = map (\<lambda>b. int (unat b))\<rparr>"

definition wit_session :: kv_session where
  "wit_session = \<lparr>ses_tokens = Some [65, 66, 67], ses_ctx = 4096,
     ses_stage = Some \<lparr>sp_bytes = 4, sp_src = Some [9, 8, 7, 6]\<rparr>\<rparr>"

definition wit_small_store :: kvstore where
  "wit_small_store = wit_store\<lparr>kc_opt := kvstore_default_options\<lparr>opt_min_tokens := 2\<rparr>\<rparr>"

definition wit_disk :: files where
  "wit_disk = [(''/kv/readme'', [1, 2, 3])]"

lemma wit_small_store_sel [simp]:
  "kc_enabled wit_small_store" "kc_dir wit_small_store = ''/kv''" "kc_budget_bytes wit_small_store = 1000"
  "opt_min_tokens (kc_opt wit_small_store) = 2"
  by (simp_all add: wit_small_store_def)

lemma wit_engine_sel [simp]:
  "en_quant_bits wit_engine = 2" "en_model_id wit_engine = 0" "en_token_text wit_engine t = [word_of_int t]"
  by (simp_all add: wit_engine_def)

lemma wit_session_sel [simp]:
  "ses_tokens wit_session = Some [65, 66, 67]"
  "ses_stage wit_session = Some \<lparr>sp_bytes = 4, sp_src = Some [9, 8, 7, 6]\<rparr>"
  by (simp_all add: wit_session_def)

lemma wit_key: "kv_key_text wit_engine (Some [65, 66, 67]) 3 None = [65, 66, 67]"
  by (simp add: kv_key_text_def kv_store_text_def wit_engine_def kvstore_render_tokens_text_def)

lemma wit_no_file: "fs_get wit_disk (kv_key_path wit_small_store key) = None"
proof -
  have "kv_key_path wit_small_store key \<noteq> ''/kv/readme''"
  proof
    assume a: "kv_key_path wit_small_store key = ''/kv/readme''"
    have "length (kv_key_path wit_small_store key) = 47"
      by (simp add: kv_key_path_def kvstore_path_for_sha_def kvstore_path_join_def)
    then show False using a by simp
  qed
  then show ?thesis by (simp add: wit_disk_def fs_get_def)
qed

lemma wit_empty_listing: "kv_dir_entries os wit_disk ''/kv'' = []"
proof -
  have "fs_names ''/kv'' wit_disk = [''readme'']" by code_simp
  moreover have "kvstore_sha_hex_name ''readme'' = None" by code_simp
  ultimately show ?thesis by (simp add: kv_dir_entries_def kv_name_entry_def map_filter_simps)
qed

lemma wit_distinct_disk: "distinct (map fst wit_disk)"
  by (simp add: wit_disk_def)

theorem store_never_tears_witness:
  "let os = os_fine\<lparr>os_flushes := \<lambda>_. False, os_unlinkable := \<lambda>_. False\<rparr>;
       (ok, kc', fs') = kvstore_store_live_prefix_text exp2_steps os wit_engine wit_session 4096
         (Some [65, 66, 67]) 3 (Some ''cold'') None 0 None None wit_small_store wit_disk
   in fs_get fs' ''/kv/readme'' = Some [1, 2, 3] \<or> fs_get fs' ''/kv/readme'' = None"
proof -
  let ?os = "os_fine\<lparr>os_flushes := \<lambda>_. False, os_unlinkable := \<lambda>_. False\<rparr>"
  obtain ok kc' fs' where r: "kvstore_store_live_prefix_text exp2_steps ?os wit_engine wit_session 4096
      (Some [65, 66, 67]) 3 (Some ''cold'') None 0 None None wit_small_store wit_disk = (ok, kc', fs')"
    by (metis prod_cases3)
  have len: "length (kv_key_path wit_small_store key) = 47" for key
    by (simp add: kv_key_path_def kvstore_path_for_sha_def kvstore_path_join_def)
  have "''/kv/readme'' \<noteq> kv_key_path wit_small_store key" for key
  proof
    assume "''/kv/readme'' = kv_key_path wit_small_store key"
    from this [symmetric] show False using len [of key] by simp
  qed
  moreover have "''/kv/readme'' \<noteq> kv_store_tmp ?os (kv_key_path wit_small_store key)" for key
  proof
    assume a: "''/kv/readme'' = kv_store_tmp ?os (kv_key_path wit_small_store key)"
    have "length (kv_store_tmp ?os (kv_key_path wit_small_store key)) = 54" by (simp add: kv_store_tmp_def len)
    then show False using a [symmetric] by simp
  qed
  moreover have "fs_get wit_disk ''/kv/readme'' = Some [1, 2, 3]" by code_simp
  ultimately show ?thesis
    unfolding Let_def r prod.case using store_never_tears [OF r, of "''/kv/readme''"] by simp
qed

theorem store_publishes_within_budget_witness:
  "\<exists>kc' fs'. kvstore_store_live_prefix_text exp2_steps os_fine wit_engine wit_session 4096
      (Some [65, 66, 67]) 3 (Some ''cold'') None 0 None None wit_small_store wit_disk = (True, kc', fs') \<and>
    fs_get fs' (kv_key_path wit_small_store [65, 66, 67]) =
      Some (kv_record_bytes 0 2 1 0 3 0 4096 1000 1000 [65, 66, 67] [9, 8, 7, 6] [])"
proof -
  have works: "os_works os_fine" by (simp add: os_works_def)
  have ext: "kv_key_ext wit_engine (Some [65, 66, 67]) 3 None 0 None = 0"
    by (simp add: kv_key_ext_def kv_store_text_def kv_trailer_serialized_size_def)
  have fit: "fst (kvstore_file_size_fits wit_small_store 3 4 0)"
    by (simp add: file_size_fits_exact)
  have ex: "\<not> fst (kv_cache_existing_compatible os_fine wit_small_store wit_disk
      (kv_key_path wit_small_store [65, 66, 67]) sha key m q c r x)" for sha key m q c r x
    by (simp add: kv_cache_existing_compatible_def wit_no_file)
  have code: "kvstore_reason_code (Some ''cold'') = 1" by (simp add: kvstore_reason_code_def)
  show ?thesis
    using store_publishes_within_budget [of os_fine wit_small_store wit_disk "Some [65, 66, 67]" 3 wit_engine
        None wit_session None None 0 "[]" 4096 "Some ''cold''" 0 "\<lparr>sp_bytes = 4, sp_src = Some [9, 8, 7, 6]\<rparr>"
        "[9, 8, 7, 6]" exp2_steps]
      works ex fit
    unfolding wit_key ext code
    by (simp add: wit_empty_listing kv_sizes_def kv_store_live_mismatch_def wit_distinct_disk
        tokens_starts_with_iff kv_trailer_serialized_size_def kv_trailer_write_def) blast
qed

end
