(* ===== verification/Kv_Lookup.thy ===== *)
theory Kv_Lookup
  imports Kv_Store "HOL-Library.Sublist"
begin

unbundle bit_operations_syntax

section \<open>Finding and loading checkpoints\<close>

text \<open>
  The lookups of \<open>ds4_kvstore.c\<close>, by hash of the prompt's prefix
  (\<open>kv_find_text_prefix\<close> and its wrappers) and by the longest common prefix of the
  stored text (\<open>kv_find_text_lcp\<close> and its wrappers), and the two loaders that reopen the
  file a lookup chose: \<open>kv_restore_bank_entry\<close> with its callers, into a bank of the batch
  context, and \<open>ds4_kvstore_try_load_text\<close>, into the serial session.

  Another process may change the directory between a lookup and the reopen, so a loader
  takes the disk twice: as the lookup lists it and as the reopen finds it. The bank and the
  session are other components; their operations are the fields of \<open>bank_ops\<close> and
  \<open>session_ops\<close> over an abstract state.
\<close>

subsection \<open>Lookup by prefix hash\<close>

definition kv_prefix_candidate :: "kvstore \<Rightarrow> bytes \<Rightarrow> int \<Rightarrow> int \<Rightarrow> int \<Rightarrow> bool \<Rightarrow> u8 \<Rightarrow> u8 \<Rightarrow> kv_entry \<Rightarrow> bool" where
  "kv_prefix_candidate kc prompt model_id quant_bits ctx_size require_suffix identity_mask identity_flags e =
     (if \<not> kv_entry_is_automatic_exact_replay e then False
      else if e_ext_flags e AND identity_mask \<noteq> identity_flags AND identity_mask then False
      else if unat (e_text_bytes e) > length prompt then False
      else if (require_suffix \<or> kv_entry_is_bank_replay_v1 e) \<and> unat (e_text_bytes e) = length prompt then False
      else if sint (e_tokens e) < opt_min_tokens (kc_opt kc) then False
      else if e_model_id e \<noteq> word_of_int model_id then False
      else if word_of_int ctx_size < e_ctx_size e then False
      else if kc_reject_different_quant kc \<and> e_quant_bits e \<noteq> word_of_int quant_bits then False
      else sha1_bytes_hex (take (unat (e_text_bytes e)) prompt) = e_sha e)"

definition kv_prefix_better :: "kv_entry \<Rightarrow> kv_entry \<Rightarrow> bool" where
  "kv_prefix_better e b \<longleftrightarrow>
     \<not> e_text_bytes e < e_text_bytes b \<and> \<not> (e_text_bytes e = e_text_bytes b \<and> e_tokens e \<le> e_tokens b)"

definition kv_index :: "(nat \<times> kv_entry) option \<Rightarrow> int" where
  "kv_index best = (case best of None \<Rightarrow> -1 | Some (i, _) \<Rightarrow> int i)"

definition kv_find_text_prefix :: "os_env \<Rightarrow> files \<Rightarrow> bytes option \<Rightarrow> int \<Rightarrow> int \<Rightarrow> int \<Rightarrow> bool \<Rightarrow> u8 \<Rightarrow> u8 \<Rightarrow>
    kvstore \<Rightarrow> int \<times> kvstore" where
  "kv_find_text_prefix os fs prompt_text model_id quant_bits ctx_size require_suffix identity_mask
       identity_flags kc =
     (case prompt_text of None \<Rightarrow> (-1, kc)
      | Some p \<Rightarrow>
          let prompt = c_strz p; kc1 = kv_cache_refresh os fs kc in
          (kv_index (scan_best
             (kv_prefix_candidate kc1 prompt model_id quant_bits ctx_size require_suffix identity_mask
                identity_flags) kv_prefix_better 0 (kc_entry kc1) None), kc1))"

definition kvstore_find_text_prefix :: "os_env \<Rightarrow> files \<Rightarrow> bytes option \<Rightarrow> int \<Rightarrow> int \<Rightarrow> int \<Rightarrow> kvstore \<Rightarrow>
    int \<times> kvstore" where
  "kvstore_find_text_prefix os fs prompt model_id quant_bits ctx_size kc =
     kv_find_text_prefix os fs prompt model_id quant_bits ctx_size False 0 0 kc"

definition kvstore_find_bank_text_prefix :: "os_env \<Rightarrow> files \<Rightarrow> bytes option \<Rightarrow> int \<Rightarrow> int \<Rightarrow> int \<Rightarrow> kvstore \<Rightarrow>
    int \<times> kvstore" where
  "kvstore_find_bank_text_prefix os fs prompt model_id quant_bits ctx_size kc =
     kv_find_text_prefix os fs prompt model_id quant_bits ctx_size True 0 0 kc"

definition kvstore_find_bank_text_prefix_identity :: "os_env \<Rightarrow> files \<Rightarrow> bytes option \<Rightarrow> int \<Rightarrow> int \<Rightarrow> int \<Rightarrow>
    u8 \<Rightarrow> kvstore \<Rightarrow> int \<times> kvstore" where
  "kvstore_find_bank_text_prefix_identity os fs prompt model_id quant_bits ctx_size identity_flags kc =
     kv_find_text_prefix os fs prompt model_id quant_bits ctx_size True EXT_IMAGE_PIXELS_V2 identity_flags kc"

subsection \<open>Lookup by longest common prefix\<close>

fun lcp_len :: "bytes \<Rightarrow> bytes \<Rightarrow> nat" where
  "lcp_len (a # as) (b # bs) = (if a = b then Suc (lcp_len as bs) else 0)"
| "lcp_len _ _ = 0"

text \<open>The common prefix of the prompt with the text in the entry's file, 0 when it cannot be read.\<close>

definition kv_entry_lcp :: "os_env \<Rightarrow> files \<Rightarrow> bytes \<Rightarrow> kv_entry \<Rightarrow> nat" where
  "kv_entry_lcp os fs prompt e =
     (let want = (if unat (e_text_bytes e) < length prompt then unat (e_text_bytes e) else length prompt) in
      if \<not> os_readable os (e_path e) then 0
      else case fs_get fs (e_path e) of None \<Rightarrow> 0
      | Some bs \<Rightarrow>
          case kvstore_read_header bs of None \<Rightarrow> 0
          | Some (hdr, text_bytes, rest) \<Rightarrow>
              if ucast text_bytes \<noteq> e_text_bytes e then 0
              else lcp_len (take want rest) prompt)"

definition kv_lcp_candidate :: "os_env \<Rightarrow> files \<Rightarrow> kvstore \<Rightarrow> bytes \<Rightarrow> int \<Rightarrow> int \<Rightarrow> int \<Rightarrow> nat \<Rightarrow> u8 \<Rightarrow> u8 \<Rightarrow>
    kv_entry \<Rightarrow> bool" where
  "kv_lcp_candidate os fs kc prompt model_id quant_bits ctx_size min_lcp identity_mask identity_flags e =
     (if \<not> kv_entry_is_automatic_exact_replay e then False
      else if e_ext_flags e AND identity_mask \<noteq> identity_flags AND identity_mask then False
      else if sint (e_tokens e) < opt_min_tokens (kc_opt kc) then False
      else if e_model_id e \<noteq> word_of_int model_id then False
      else if word_of_int ctx_size < e_ctx_size e then False
      else if kc_reject_different_quant kc \<and> e_quant_bits e \<noteq> word_of_int quant_bits then False
      else if unat (e_text_bytes e) < min_lcp then False
      else if e_text_bytes e > 8 * of_nat (length prompt) then False
      else if \<not> os_readable os (e_path e) \<or> fs_get fs (e_path e) = None then False
      else let lcp = kv_entry_lcp os fs prompt e in
           if lcp < min_lcp then False
           else if 8 * (of_nat lcp :: u64) < e_text_bytes e then False
           else True)"

definition kv_lcp_better :: "os_env \<Rightarrow> files \<Rightarrow> bytes \<Rightarrow> kv_entry \<Rightarrow> kv_entry \<Rightarrow> bool" where
  "kv_lcp_better os fs prompt e b \<longleftrightarrow>
     \<not> kv_entry_lcp os fs prompt e < kv_entry_lcp os fs prompt b \<and>
     \<not> (kv_entry_lcp os fs prompt e = kv_entry_lcp os fs prompt b \<and> e_text_bytes e \<ge> e_text_bytes b)"

text \<open>The result is the index, the length of the common prefix and the store.\<close>

definition kv_find_text_lcp :: "os_env \<Rightarrow> files \<Rightarrow> bytes option \<Rightarrow> int \<Rightarrow> int \<Rightarrow> int \<Rightarrow> nat \<Rightarrow> u8 \<Rightarrow> u8 \<Rightarrow>
    kvstore \<Rightarrow> int \<times> nat \<times> kvstore" where
  "kv_find_text_lcp os fs prompt_text model_id quant_bits ctx_size min_lcp identity_mask identity_flags kc =
     (case prompt_text of None \<Rightarrow> (-1, 0, kc)
      | Some p \<Rightarrow>
          if min_lcp = 0 then (-1, 0, kc)
          else let prompt = c_strz p in
               if length prompt < min_lcp then (-1, 0, kc)
               else let kc1 = kv_cache_refresh os fs kc;
                        best = scan_best
                          (kv_lcp_candidate os fs kc1 prompt model_id quant_bits ctx_size min_lcp
                             identity_mask identity_flags)
                          (kv_lcp_better os fs prompt) 0 (kc_entry kc1) None
                    in (kv_index best,
                        case best of None \<Rightarrow> 0 | Some (_, e) \<Rightarrow> kv_entry_lcp os fs prompt e, kc1))"

definition kvstore_find_text_lcp :: "os_env \<Rightarrow> files \<Rightarrow> bytes option \<Rightarrow> int \<Rightarrow> int \<Rightarrow> int \<Rightarrow> nat \<Rightarrow>
    kvstore \<Rightarrow> int \<times> nat \<times> kvstore" where
  "kvstore_find_text_lcp os fs prompt model_id quant_bits ctx_size min_lcp kc =
     kv_find_text_lcp os fs prompt model_id quant_bits ctx_size min_lcp 0 0 kc"

definition kvstore_find_text_lcp_identity :: "os_env \<Rightarrow> files \<Rightarrow> bytes option \<Rightarrow> int \<Rightarrow> int \<Rightarrow> int \<Rightarrow> nat \<Rightarrow>
    u8 \<Rightarrow> kvstore \<Rightarrow> int \<times> nat \<times> kvstore" where
  "kvstore_find_text_lcp_identity os fs prompt model_id quant_bits ctx_size min_lcp identity_flags kc =
     kv_find_text_lcp os fs prompt model_id quant_bits ctx_size min_lcp EXT_IMAGE_PIXELS_V2 identity_flags kc"

subsection \<open>Restoring a bank\<close>

text \<open>\<open>bk_restore\<close> reads the payload from the open file; \<open>None\<close> tokens is the null pointer.\<close>

record 'bank bank_ops =
  bk_restore :: "bytes \<Rightarrow> u64 \<Rightarrow> 'bank \<Rightarrow> bool \<times> 'bank"
  bk_committed :: "'bank \<Rightarrow> int list option"

text \<open>The checks on a reopened file, up to the cached text; \<open>None\<close> is a failed check.\<close>

definition kv_check_reopened :: "kv_entry \<Rightarrow> kv_entry \<Rightarrow> u32 \<Rightarrow> bytes \<Rightarrow> bytes option \<Rightarrow> bytes option" where
  "kv_check_reopened e hdr text_bytes rest prompt =
     (if \<not> kv_entry_is_automatic_exact_replay hdr then None
      else if \<not> kv_reopened_header_matches_entry hdr text_bytes e then None
      else if (case prompt of None \<Rightarrow> False | Some p \<Rightarrow> unat text_bytes \<ge> length p) then None
      else let cached_text = take (unat text_bytes) rest in
           if length cached_text \<noteq> unat text_bytes then None
           else if sha1_bytes_hex cached_text \<noteq> e_sha e then None
           else if (case prompt of None \<Rightarrow> False
                    | Some p \<Rightarrow> \<not> kvstore_byte_prefix_match p cached_text) then None
           else Some cached_text)"

text \<open>The result is the tokens loaded, the record's text, the store, the disk and the bank.\<close>

definition kv_restore_bank_entry :: "'bank bank_ops \<Rightarrow> os_env \<Rightarrow> nat \<Rightarrow> bytes option \<Rightarrow> kvstore \<Rightarrow> files \<Rightarrow> 'bank \<Rightarrow>
    int \<times> bytes option \<times> kvstore \<times> files \<times> 'bank" where
  "kv_restore_bank_entry ops os idx prompt kc fs bank =
     (let e = kc_entry kc ! idx; path = e_path e in
      if \<not> os_readable os path then (0, None, kc, fs, bank)
      else case fs_get fs path of None \<Rightarrow> (0, None, kc, fs, bank)
      | Some bs \<Rightarrow>
          case kvstore_read_header bs of None \<Rightarrow> (0, None, kc, fs, bank)
          | Some (hdr, text_bytes, rest) \<Rightarrow>
              case kv_check_reopened e hdr text_bytes rest prompt of None \<Rightarrow> (0, None, kc, fs, bank)
              | Some cached_text \<Rightarrow>
                  let (restored, bank1) = bk_restore ops (drop (unat text_bytes) rest) (e_payload_bytes hdr) bank in
                  if \<not> restored then (0, None, kc, fs, bank1)
                  else if \<not> (case bk_committed ops bank1 of None \<Rightarrow> False
                             | Some htok \<Rightarrow> of_nat (length htok) = e_tokens hdr)
                  then (0, None, kc, snd (fs_unlink os path fs), bank1)
                  else let loaded = sint (e_tokens hdr) in
                       if loaded > 0
                       then let hits = e_hits e + 1;
                                kc1 = kc\<lparr>kc_entry := (kc_entry kc)[idx := e\<lparr>e_hits := hits, e_last_used := os_time os\<rparr>]\<rparr>
                            in (loaded, Some cached_text, kc1, snd (kvstore_touch_file os fs path hits), bank1)
                       else (loaded, None, kc, fs, bank1))"

definition kvstore_try_restore_bank_text :: "'bank bank_ops \<Rightarrow> os_env \<Rightarrow> kv_engine \<Rightarrow> int \<Rightarrow> bytes option \<Rightarrow> kvstore \<Rightarrow>
    files \<Rightarrow> files \<Rightarrow> 'bank \<Rightarrow> int \<times> bytes option \<times> kvstore \<times> files \<times> 'bank" where
  "kvstore_try_restore_bank_text ops os eng ctx_size prompt_text kc fs0 fs bank =
     (if \<not> kc_enabled kc \<or> prompt_text = None then (0, None, kc, fs, bank)
      else if en_quant_bits eng \<noteq> 2 \<and> en_quant_bits eng \<noteq> 4 then (0, None, kc, fs, bank)
      else let (idx, kc1) = kvstore_find_bank_text_prefix os fs0 prompt_text (en_model_id eng)
                 (en_quant_bits eng) ctx_size kc in
      if idx < 0 then (0, None, kc1, fs, bank)
      else kv_restore_bank_entry ops os (nat idx) (map_option c_strz prompt_text) kc1 fs bank)"

definition kvstore_try_restore_bank_entry :: "'bank bank_ops \<Rightarrow> os_env \<Rightarrow> int \<Rightarrow> kvstore \<Rightarrow> files \<Rightarrow> 'bank \<Rightarrow>
    int \<times> bytes option \<times> kvstore \<times> files \<times> 'bank" where
  "kvstore_try_restore_bank_entry ops os idx kc fs bank =
     (if \<not> kc_enabled kc then (0, None, kc, fs, bank)
      else if idx < 0 \<or> idx \<ge> int (length (kc_entry kc)) then (0, None, kc, fs, bank)
      else kv_restore_bank_entry ops os (nat idx) None kc fs bank)"

subsection \<open>Loading into the serial session\<close>

text \<open>\<open>se_load\<close> returns success, what is left of the file and the session.\<close>

record 'ses session_ops =
  se_load :: "bytes \<Rightarrow> u64 \<Rightarrow> 'ses \<Rightarrow> bool \<times> bytes \<times> 'ses"
  se_tokens :: "'ses \<Rightarrow> int list option"
  se_invalidate :: "'ses \<Rightarrow> 'ses"
  se_ctx :: "'ses \<Rightarrow> int"

record load_result =
  lr_tokens :: int
  lr_text_bytes :: u32
  lr_quant_bits :: u8
  lr_ext_flags :: u8
  lr_path :: "string option"

definition load_result_zero :: load_result where
  "load_result_zero = \<lparr>lr_tokens = 0, lr_text_bytes = 0, lr_quant_bits = 0, lr_ext_flags = 0, lr_path = None\<rparr>"

definition kvstore_load_result_free :: "load_result \<Rightarrow> load_result" where
  "kvstore_load_result_free r = load_result_zero"

definition kv_check_loaded :: "kv_entry \<Rightarrow> kv_entry \<Rightarrow> u32 \<Rightarrow> bytes \<Rightarrow> int \<Rightarrow> bytes \<Rightarrow> bool" where
  "kv_check_loaded e hdr text_bytes rest model_id prompt =
     (if \<not> kv_entry_is_automatic_exact_replay hdr then False
      else if \<not> kv_reopened_header_matches_entry hdr text_bytes e then False
      else if e_model_id hdr \<noteq> word_of_int model_id then False
      else if kv_entry_is_bank_replay_v1 hdr \<and> unat text_bytes = length prompt then False
      else if unat text_bytes > length prompt then False
      else let cached_text = take (unat text_bytes) rest in
           if length cached_text \<noteq> unat text_bytes then False
           else if sha1_bytes_hex cached_text \<noteq> e_sha e then False
           else kvstore_byte_prefix_match prompt cached_text)"

text \<open>
  What a load returns: the tokens loaded, the effective prompt, the result, the file bytes
  handed to the trailer hook (\<open>None\<close> when it is not called), the store, the disk and the
  session.
\<close>

record 'ses load_out =
  lo_loaded :: int
  lo_prompt :: "int list"
  lo_result :: load_result
  lo_trailer :: "bytes option"
  lo_kc :: kvstore
  lo_fs :: files
  lo_ses :: 'ses

definition kv_load_miss :: "kvstore \<Rightarrow> files \<Rightarrow> 'ses \<Rightarrow> 'ses load_out" where
  "kv_load_miss kc fs ses = \<lparr>lo_loaded = 0, lo_prompt = [], lo_result = load_result_zero, lo_trailer = None,
     lo_kc = kc, lo_fs = fs, lo_ses = ses\<rparr>"

text \<open>
  The part from the reopen on; \<open>hook\<close> is the extension flag of the trailer hooks when
  they have a loader.
\<close>

definition kv_load_entry :: "'ses session_ops \<Rightarrow> os_env \<Rightarrow> kv_engine \<Rightarrow> bytes \<Rightarrow> u8 option \<Rightarrow> kv_entry \<Rightarrow>
    kvstore \<Rightarrow> files \<Rightarrow> 'ses \<Rightarrow> 'ses load_out" where
  "kv_load_entry ops os eng prompt hook e kc fs ses =
     (let path = e_path e in
      if \<not> os_readable os path then kv_load_miss kc fs ses
      else case fs_get fs path of None \<Rightarrow> kv_load_miss kc fs ses
      | Some bs \<Rightarrow>
          case kvstore_read_header bs of None \<Rightarrow> kv_load_miss kc fs ses
          | Some (hdr, text_bytes, rest) \<Rightarrow>
              if \<not> kv_check_loaded e hdr text_bytes rest (en_model_id eng) prompt then kv_load_miss kc fs ses
              else let (ok, tail, ses1) = se_load ops (drop (unat text_bytes) rest) (e_payload_bytes hdr) ses in
              if \<not> ok then kv_load_miss kc fs (se_invalidate ops ses1)
              else case se_tokens ops ses1 of
                None \<Rightarrow> kv_load_miss kc (snd (fs_unlink os path fs)) (se_invalidate ops ses1)
              | Some toks \<Rightarrow>
                  if int (length toks) \<noteq> sint (e_tokens hdr)
                  then kv_load_miss kc (snd (fs_unlink os path fs)) (se_invalidate ops ses1)
                  else let loaded = sint (e_tokens hdr);
                           eff = kvstore_build_prompt (en_tokenize eng) toks
                                   (Some (drop (unat text_bytes) prompt));
                           tr = (case hook of None \<Rightarrow> None
                                 | Some flag \<Rightarrow> if e_ext_flags hdr AND flag \<noteq> 0 then Some tail else None)
                       in if loaded > 0
                          then \<lparr>lo_loaded = loaded, lo_prompt = eff,
                                lo_result = \<lparr>lr_tokens = loaded, lr_text_bytes = text_bytes,
                                  lr_quant_bits = e_quant_bits hdr, lr_ext_flags = e_ext_flags hdr,
                                  lr_path = Some path\<rparr>,
                                lo_trailer = tr, lo_kc = kc\<lparr>kc_continued_last_store_tokens := loaded\<rparr>,
                                lo_fs = snd (kvstore_touch_file os fs path (e_hits hdr + 1)), lo_ses = ses1\<rparr>
                          else (kv_load_miss kc fs ses1)\<lparr>lo_loaded := loaded, lo_prompt := eff,
                            lo_trailer := tr\<rparr>)"

definition kvstore_try_load_text :: "'ses session_ops \<Rightarrow> os_env \<Rightarrow> kv_engine \<Rightarrow> bytes option \<Rightarrow> u8 option \<Rightarrow>
    kvstore \<Rightarrow> files \<Rightarrow> files \<Rightarrow> 'ses \<Rightarrow> 'ses load_out" where
  "kvstore_try_load_text ops os eng prompt_text hook kc fs0 fs ses =
     (case prompt_text of None \<Rightarrow> kv_load_miss kc fs ses
      | Some p \<Rightarrow>
      if \<not> kc_enabled kc then kv_load_miss kc fs ses
      else if en_quant_bits eng \<noteq> 2 \<and> en_quant_bits eng \<noteq> 4 then kv_load_miss kc fs ses
      else let (idx, kc1) = kvstore_find_text_prefix os fs0 prompt_text (en_model_id eng)
                  (en_quant_bits eng) (se_ctx ops ses) kc in
           if idx < 0 then kv_load_miss kc1 fs ses
           else kv_load_entry ops os eng (c_strz p) hook (kc_entry kc1 ! nat idx) kc1 fs ses)"

subsection \<open>What the lookups return\<close>

interpretation prefix: best_scan cand kv_prefix_better for cand
  by unfold_locales (auto simp: kv_prefix_better_def)

interpretation lcp: best_scan cand "kv_lcp_better os fs prompt" for cand os fs prompt
  by unfold_locales (auto simp: kv_lcp_better_def)

lemma kv_prefix_candidate_iff:
  "kv_prefix_candidate kc prompt m q c rs msk flags e \<longleftrightarrow>
     kv_entry_is_automatic_exact_replay e \<and> e_ext_flags e AND msk = flags AND msk \<and>
     unat (e_text_bytes e) \<le> length prompt \<and>
     (rs \<or> kv_entry_is_bank_replay_v1 e \<longrightarrow> unat (e_text_bytes e) \<noteq> length prompt) \<and>
     opt_min_tokens (kc_opt kc) \<le> sint (e_tokens e) \<and> e_model_id e = word_of_int m \<and>
     e_ctx_size e \<le> word_of_int c \<and> (kc_reject_different_quant kc \<longrightarrow> e_quant_bits e = word_of_int q) \<and>
     sha1_bytes_hex (take (unat (e_text_bytes e)) prompt) = e_sha e"
  by (auto simp: kv_prefix_candidate_def)

lemma kv_find_text_prefix_run:
  assumes "kv_find_text_prefix os fs (Some p) m q c rs msk flags kc = (idx, kc')"
    and "kc_enabled kc" and "os_listable os (kc_dir kc)"
  shows "kc' = kc\<lparr>kc_entry := kv_dir_entries os fs (kc_dir kc)\<rparr>"
    and "idx < 0 \<longleftrightarrow> idx = -1"
    and "idx = -1 \<longleftrightarrow> (\<forall>e \<in> set (kc_entry kc'). \<not> kv_prefix_candidate kc (c_strz p) m q c rs msk flags e)"
    and "idx \<ge> 0 \<Longrightarrow> nat idx < length (kc_entry kc') \<and>
      kv_prefix_candidate kc (c_strz p) m q c rs msk flags (kc_entry kc' ! nat idx) \<and>
      (\<forall>e \<in> set (kc_entry kc'). kv_prefix_candidate kc (c_strz p) m q c rs msk flags e \<longrightarrow>
        \<not> kv_prefix_better e (kc_entry kc' ! nat idx))"
proof -
  let ?es = "kv_dir_entries os fs (kc_dir kc)"
  have cand: "kv_prefix_candidate (kc\<lparr>kc_entry := es\<rparr>) = kv_prefix_candidate kc" for es
    by (intro ext) (simp add: kv_prefix_candidate_def)
  define best where "best = scan_best (kv_prefix_candidate kc (c_strz p) m q c rs msk flags)
    kv_prefix_better 0 ?es None"
  have idx: "idx = kv_index best" and kc': "kc' = kc\<lparr>kc_entry := ?es\<rparr>"
    using assms by (auto simp: kv_find_text_prefix_def Let_def kv_cache_refresh_eq best_def cand)
  show "kc' = kc\<lparr>kc_entry := ?es\<rparr>" by (rule kc')
  show "idx < 0 \<longleftrightarrow> idx = -1" by (auto simp: idx kv_index_def split: option.splits)
  show "idx = -1 \<longleftrightarrow> (\<forall>e \<in> set (kc_entry kc'). \<not> kv_prefix_candidate kc (c_strz p) m q c rs msk flags e)"
    using prefix.scan_None_iff [of "kv_prefix_candidate kc (c_strz p) m q c rs msk flags" 0 ?es]
    by (auto simp: idx kv_index_def kc' best_def [symmetric] split: option.splits)
  assume "idx \<ge> 0"
  then obtain i e where b: "best = Some (i, e)" by (cases best) (auto simp: idx kv_index_def)
  then show "nat idx < length (kc_entry kc') \<and>
      kv_prefix_candidate kc (c_strz p) m q c rs msk flags (kc_entry kc' ! nat idx) \<and>
      (\<forall>e \<in> set (kc_entry kc'). kv_prefix_candidate kc (c_strz p) m q c rs msk flags e \<longrightarrow>
        \<not> kv_prefix_better e (kc_entry kc' ! nat idx))"
    using prefix.scan_Some [OF b [unfolded best_def]] by (simp add: idx kv_index_def kc')
qed

text \<open>
  C27. The lookup returns the longest usable checkpoint. Among the checkpoints of the
  directory that automatic replay may use, that fit the prompt's length (strictly where a
  suffix is required or the record is a bank record), the model, the context, the
  quantisation, the minimum of tokens and the identity flags, and whose name is the hash of
  the prompt's prefix of their length, it returns one with the longest text, and among
  those with the most tokens; it returns -1 exactly when there is none.
\<close>

theorem find_text_prefix_longest:
  assumes "kv_find_text_prefix os fs (Some p) m q c rs msk flags kc = (idx, kc')"
    and "kc_enabled kc" and "os_listable os (kc_dir kc)"
  shows "let es = kv_dir_entries os fs (kc_dir kc); prompt = c_strz p;
      usable = (\<lambda>e. kv_entry_is_automatic_exact_replay e \<and> e_ext_flags e AND msk = flags AND msk \<and>
        unat (e_text_bytes e) \<le> length prompt \<and>
        (rs \<or> kv_entry_is_bank_replay_v1 e \<longrightarrow> unat (e_text_bytes e) \<noteq> length prompt) \<and>
        opt_min_tokens (kc_opt kc) \<le> sint (e_tokens e) \<and> e_model_id e = word_of_int m \<and>
        e_ctx_size e \<le> word_of_int c \<and> (kc_reject_different_quant kc \<longrightarrow> e_quant_bits e = word_of_int q) \<and>
        sha1_bytes_hex (take (unat (e_text_bytes e)) prompt) = e_sha e)
    in kc_entry kc' = es \<and>
      (idx = -1 \<and> (\<forall>e \<in> set es. \<not> usable e) \<or>
       0 \<le> idx \<and> nat idx < length es \<and> usable (es ! nat idx) \<and>
       (\<forall>e \<in> set es. usable e \<longrightarrow> e_text_bytes e < e_text_bytes (es ! nat idx) \<or>
          e_text_bytes e = e_text_bytes (es ! nat idx) \<and> e_tokens e \<le> e_tokens (es ! nat idx)))"
proof -
  note r = kv_find_text_prefix_run [OF assms]
  have b: "\<not> kv_prefix_better e x \<longleftrightarrow> e_text_bytes e < e_text_bytes x \<or>
      e_text_bytes e = e_text_bytes x \<and> e_tokens e \<le> e_tokens x" for e x
    by (simp add: kv_prefix_better_def)
  show ?thesis
    unfolding Let_def kv_prefix_candidate_iff [symmetric] b [symmetric]
    using r by (cases "idx < 0") simp_all
qed

definition wit_hit_disk :: files where
  "wit_hit_disk = [(kv_key_path wit_small_store [65, 66, 67],
     kv_record_bytes 0 2 1 0 3 0 4096 10 20 [65, 66, 67] [9, 8, 7, 6] [])]"

definition wit_hit_entry :: kv_entry where
  "wit_hit_entry = kv_record_entry (kv_key_path wit_small_store [65, 66, 67]) (sha1_bytes_hex [65, 66, 67])
     0 2 1 0 3 0 4096 10 20 [65, 66, 67] [9, 8, 7, 6] []"

lemma sha1_no_slash: "CHR ''/'' \<notin> set (sha1_bytes_hex key)"
  using lower_hex_sha1 [of key] by (auto simp: lower_hex_def list_all_iff)

lemma wit_hit_get: "fs_get wit_hit_disk (kv_key_path wit_small_store [65, 66, 67]) =
    Some (kv_record_bytes 0 2 1 0 3 0 4096 10 20 [65, 66, 67] [9, 8, 7, 6] [])"
  by (simp add: wit_hit_disk_def fs_get_def)

lemma wit_hit_listing: "kv_dir_entries os_fine wit_hit_disk ''/kv'' = [wit_hit_entry]"
proof -
  let ?n = "sha1_bytes_hex [65, 66, 67] @ ''.kv''"
  have path: "kv_key_path wit_small_store [65, 66, 67] = ''/kv/'' @ ?n"
    by (simp add: kv_key_path_def kvstore_path_for_sha_def kvstore_path_join_def)
  have "fs_names ''/kv'' wit_hit_disk = [?n]"
    using sha1_no_slash [of "[65, 66, 67]"]
    by (simp add: fs_names_def kvstore_path_join_def wit_hit_disk_def path)
  moreover have "kvstore_sha_hex_name ?n = Some (sha1_bytes_hex [65, 66, 67])"
    using sha_hex_name_lower [of "sha1_bytes_hex [65, 66, 67]"] by simp
  moreover have "kvstore_read_entry_file os_fine wit_hit_disk (kv_key_path wit_small_store [65, 66, 67])
      (sha1_bytes_hex [65, 66, 67]) = Some wit_hit_entry"
    unfolding wit_hit_entry_def by (rule read_entry_file_record [OF wit_hit_get]) simp_all
  moreover have "kvstore_path_join ''/kv'' ?n = kv_key_path wit_small_store [65, 66, 67]"
    by (simp add: path kvstore_path_join_def)
  ultimately show ?thesis by (simp add: kv_dir_entries_def kv_name_entry_def map_filter_simps)
qed

lemma wit_hit_entry_sel:
  "e_text_bytes wit_hit_entry = 3" "e_sha wit_hit_entry = sha1_bytes_hex [65, 66, 67]"
  "e_tokens wit_hit_entry = 3" "e_model_id wit_hit_entry = 0" "e_ctx_size wit_hit_entry = 4096"
  "e_quant_bits wit_hit_entry = 2" "e_ext_flags wit_hit_entry = 0" "e_reason wit_hit_entry = 1"
  "e_path wit_hit_entry = kv_key_path wit_small_store [65, 66, 67]" "e_payload_bytes wit_hit_entry = 4"
  by (simp_all add: wit_hit_entry_def kv_record_entry_def kv_header_entry_def kv_entry_zero_def)

lemma wit_hit_usable:
  "kv_entry_is_automatic_exact_replay wit_hit_entry" "\<not> kv_entry_is_bank_replay_v1 wit_hit_entry"
  by (simp_all add: kv_entry_is_automatic_exact_replay_def kv_entry_is_bank_replay_v1_def
      kv_cache_reason_family_def wit_hit_entry_sel)

theorem find_text_prefix_longest_witness:
  "let (idx, kc') = kv_find_text_prefix os_fine wit_hit_disk (Some [65, 66, 67, 68]) 0 2 4096 True 0 0
     wit_small_store in idx = 0 \<and> kc_entry kc' = [wit_hit_entry]"
proof -
  obtain idx kc' where r: "kv_find_text_prefix os_fine wit_hit_disk (Some [65, 66, 67, 68]) 0 2 4096 True 0 0
      wit_small_store = (idx, kc')" by fastforce
  show ?thesis
    unfolding r Let_def prod.case
    using find_text_prefix_longest [OF r]
    by (auto simp: wit_hit_listing Let_def wit_hit_entry_sel wit_hit_usable c_strz_def)
qed

text \<open>The byte loop computes the longest common prefix, and reading no further than it can reach is enough.\<close>

lemma lcp_len_longest: "lcp_len a b = length (longest_common_prefix a b)"
  by (induction a b rule: lcp_len.induct) simp_all

lemma lcp_len_take: "lcp_len (take (min n (length b)) a) b = lcp_len (take n a) b"
  by (induction a b arbitrary: n rule: lcp_len.induct) (auto simp: take_Cons split: nat.splits)

lemma lcp_len_le: "lcp_len a b \<le> length b"
  by (induction a b rule: lcp_len.induct) auto

lemma kv_entry_lcp_spec:
  assumes "fs_get fs (e_path e) = Some bs" and "kvstore_read_header bs = Some (hdr, tb, rest)"
    and "ucast tb = e_text_bytes e" and "os_readable os (e_path e)"
  shows "kv_entry_lcp os fs prompt e = length (longest_common_prefix (take (unat tb) rest) prompt)"
proof -
  have "unat (e_text_bytes e) = unat tb" by (simp flip: assms(3))
  then have w: "(if unat (e_text_bytes e) < length prompt then unat (e_text_bytes e) else length prompt) =
      min (unat tb) (length prompt)"
    by simp
  show ?thesis
    unfolding kv_entry_lcp_def Let_def w using assms by (simp add: lcp_len_longest [symmetric] lcp_len_take)
qed

lemma kv_entry_lcp_pos:
  assumes "0 < kv_entry_lcp os fs prompt e"
  obtains bs hdr tb rest where "fs_get fs (e_path e) = Some bs"
    "kvstore_read_header bs = Some (hdr, tb, rest)" "ucast tb = e_text_bytes e" "os_readable os (e_path e)"
  using assms by (auto simp: kv_entry_lcp_def Let_def split: if_splits option.splits)

lemma kv_find_text_lcp_run:
  assumes "kv_find_text_lcp os fs (Some p) m q c min_lcp msk flags kc = (idx, l, kc')" and "0 \<le> idx"
    and "kc_enabled kc" and "os_listable os (kc_dir kc)"
  defines "es \<equiv> kv_dir_entries os fs (kc_dir kc)"
  defines "cand \<equiv> kv_lcp_candidate os fs kc (c_strz p) m q c min_lcp msk flags"
  shows "kc' = kc\<lparr>kc_entry := es\<rparr> \<and> 0 < min_lcp \<and> nat idx < length es \<and> cand (es ! nat idx) \<and>
    l = kv_entry_lcp os fs (c_strz p) (es ! nat idx) \<and>
    (\<forall>x \<in> set es. cand x \<longrightarrow> \<not> kv_lcp_better os fs (c_strz p) x (es ! nat idx))"
proof -
  have cd: "kv_lcp_candidate os fs (kc\<lparr>kc_entry := es\<rparr>) = kv_lcp_candidate os fs kc" for es
    by (intro ext) (simp add: kv_lcp_candidate_def)
  define best where "best = scan_best cand (kv_lcp_better os fs (c_strz p)) 0 es None"
  have r: "0 < min_lcp" "idx = kv_index best" "kc' = kc\<lparr>kc_entry := es\<rparr>"
      "l = (case best of None \<Rightarrow> 0 | Some (_, e) \<Rightarrow> kv_entry_lcp os fs (c_strz p) e)"
    using assms(1-4)
    by (auto simp: kv_find_text_lcp_def Let_def kv_cache_refresh_eq best_def cand_def es_def cd split: if_splits)
  then obtain i e where b: "best = Some (i, e)"
    using assms(2) by (cases best) (auto simp: kv_index_def)
  show ?thesis
    using lcp.scan_Some [OF b [unfolded best_def]] r b by (simp add: kv_index_def)
qed

text \<open>
  The partial lookup returns the deepest salvage. When it returns an entry, the file
  of that entry can be read, the length it reports is the exact common prefix of the
  prompt with the whole stored text although it reads only as far as the prompt
  goes, that length reaches the minimum and an eighth of the stored text, and
  no other eligible checkpoint shares a longer prefix, nor an equal one with a shorter text.
\<close>

theorem find_text_lcp_deepest:
  assumes "kv_find_text_lcp os fs (Some p) m q c min_lcp msk flags kc = (idx, l, kc')" and "0 \<le> idx"
    and "kc_enabled kc" and "os_listable os (kc_dir kc)" and "length p < 2 ^ 61"
  shows "let es = kv_dir_entries os fs (kc_dir kc); e = es ! nat idx; prompt = c_strz p in
    kc_entry kc' = es \<and> nat idx < length es \<and>
    (\<exists>bs hdr tb rest. fs_get fs (e_path e) = Some bs \<and> kvstore_read_header bs = Some (hdr, tb, rest) \<and>
       unat tb = unat (e_text_bytes e) \<and>
       l = length (longest_common_prefix (take (unat tb) rest) prompt)) \<and>
    0 < min_lcp \<and> min_lcp \<le> l \<and> unat (e_text_bytes e) \<le> 8 * l \<and>
    kv_entry_is_automatic_exact_replay e \<and> e_model_id e = word_of_int m \<and> e_ctx_size e \<le> word_of_int c \<and>
    (\<forall>x \<in> set es. kv_lcp_candidate os fs kc prompt m q c min_lcp msk flags x \<longrightarrow>
       kv_entry_lcp os fs prompt x < l \<or>
       kv_entry_lcp os fs prompt x = l \<and> e_text_bytes e \<le> e_text_bytes x)"
proof -
  define es where "es = kv_dir_entries os fs (kc_dir kc)"
  define e where "e = es ! nat idx"
  define prompt where "prompt = c_strz p"
  note r = kv_find_text_lcp_run [OF assms(1-4), folded es_def prompt_def, folded e_def]
  have l: "l = kv_entry_lcp os fs prompt e" and cand: "kv_lcp_candidate os fs kc prompt m q c min_lcp msk flags e"
    using r by simp_all
  then have c: "kv_entry_is_automatic_exact_replay e" "e_model_id e = word_of_int m"
      "e_ctx_size e \<le> word_of_int c" "min_lcp \<le> l" "\<not> 8 * (of_nat l :: u64) < e_text_bytes e"
    by (auto simp: kv_lcp_candidate_def Let_def split: if_splits)
  have pos: "0 < kv_entry_lcp os fs prompt e" using r c(4) l by auto
  then obtain bs hdr tb rest where f: "fs_get fs (e_path e) = Some bs"
      "kvstore_read_header bs = Some (hdr, tb, rest)" "ucast tb = e_text_bytes e" "os_readable os (e_path e)"
    by (rule kv_entry_lcp_pos)
  have spec: "l = length (longest_common_prefix (take (unat tb) rest) prompt)"
    using kv_entry_lcp_spec [OF f] l by simp
  have "length prompt \<le> length p" unfolding prompt_def c_strz_def by (rule length_takeWhile_le)
  then have "l < 2 ^ 61" using spec lcp_len_le [of "take (unat tb) rest" prompt] assms(5)
    by (simp add: lcp_len_longest [symmetric])
  then have "unat (8 * (of_nat l :: u64)) = 8 * l"
    by (simp add: unat_word_ariths unat_of_nat take_bit_eq_mod)
  then have "unat (e_text_bytes e) \<le> 8 * l" using c(5) by (simp add: word_less_nat_alt)
  moreover have "unat tb = unat (e_text_bytes e)" by (simp flip: f(3))
  moreover have "\<forall>x \<in> set es. kv_lcp_candidate os fs kc prompt m q c min_lcp msk flags x \<longrightarrow>
       kv_entry_lcp os fs prompt x < l \<or>
       kv_entry_lcp os fs prompt x = l \<and> e_text_bytes e \<le> e_text_bytes x"
    using r by (auto simp: kv_lcp_better_def)
  ultimately show ?thesis
    unfolding Let_def es_def [symmetric] e_def [symmetric] prompt_def [symmetric]
    using r c(1-4) f(1,2) spec by auto
qed

theorem find_text_lcp_deepest_witness:
  "let (idx, l, kc') = kv_find_text_lcp os_fine wit_hit_disk (Some [65, 66, 90]) 0 2 4096 1 0 0 wit_small_store
   in idx = 0 \<and> l = 2"
proof -
  obtain idx l kc' where r: "kv_find_text_lcp os_fine wit_hit_disk (Some [65, 66, 90]) 0 2 4096 1 0 0
      wit_small_store = (idx, l, kc')" by (metis prod_cases3)
  have hdr: "kvstore_read_header (kv_record_bytes 0 2 1 0 3 0 4096 10 20 [65, 66, 67] [9, 8, 7, 6] []) =
      Some (kv_header_entry 0 2 1 0 3 0 4096 10 20 4 3, 3, [65, 66, 67, 9, 8, 7, 6])"
    by (subst read_header_record) simp_all
  have lcp: "kv_entry_lcp os_fine wit_hit_disk [65, 66, 90] wit_hit_entry = 2"
    by (simp add: kv_entry_lcp_def wit_hit_entry_sel wit_hit_get hdr)
  have "kv_lcp_candidate os_fine wit_hit_disk kc [65, 66, 90] 0 2 4096 1 0 0 wit_hit_entry"
    if "kc_reject_different_quant kc = False" "opt_min_tokens (kc_opt kc) = 2" for kc
    using that lcp by (simp add: kv_lcp_candidate_def Let_def wit_hit_entry_sel wit_hit_usable wit_hit_get)
  then have idx: "idx = 0"
    using r by (simp add: kv_find_text_lcp_def Let_def kv_cache_refresh_eq c_strz_def wit_hit_listing
        kv_index_def wit_small_store_def)
  show ?thesis
    unfolding r Let_def prod.case
    using find_text_lcp_deepest [OF r] idx
    by (auto simp: wit_hit_listing Let_def c_strz_def wit_hit_entry_sel wit_hit_get hdr)
qed

subsection \<open>What a load has checked\<close>

lemma kv_check_loadedE:
  assumes "kv_check_loaded e hdr tb rest m prompt"
  obtains suffix where "kv_entry_is_automatic_exact_replay hdr" "kv_reopened_header_matches_entry hdr tb e"
    "e_model_id hdr = word_of_int m" "length (take (unat tb) rest) = unat tb"
    "sha1_bytes_hex (take (unat tb) rest) = e_sha e" "prompt = take (unat tb) rest @ suffix"
    "drop (unat tb) prompt = suffix" "kv_entry_is_bank_replay_v1 hdr \<Longrightarrow> suffix \<noteq> []"
proof -
  have c: "kv_entry_is_automatic_exact_replay hdr" "kv_reopened_header_matches_entry hdr tb e"
      "e_model_id hdr = word_of_int m" "length (take (unat tb) rest) = unat tb"
      "sha1_bytes_hex (take (unat tb) rest) = e_sha e" "kvstore_byte_prefix_match prompt (take (unat tb) rest)"
      "kv_entry_is_bank_replay_v1 hdr \<Longrightarrow> unat tb \<noteq> length prompt"
    using assms by (auto simp: kv_check_loaded_def Let_def split: if_splits)
  then obtain u where u: "prompt = take (unat tb) rest @ u" by (auto simp: byte_prefix_match_iff)
  then have d: "drop (unat tb) prompt = u" using c(4) by simp
  moreover have "u \<noteq> []" if "kv_entry_is_bank_replay_v1 hdr"
    using c(7) [OF that] u c(4) by auto
  ultimately show thesis using c u that by blast
qed

lemma kv_load_miss_loaded [simp]: "lo_loaded (kv_load_miss kc fs ses) = 0"
  by (simp add: kv_load_miss_def)

lemma kv_load_entry_hit:
  assumes "kv_load_entry ops os eng prompt hook e kc fs ses = out" and "0 < lo_loaded out"
  obtains bs hdr tb rest tail toks where
    "fs_get fs (e_path e) = Some bs" "kvstore_read_header bs = Some (hdr, tb, rest)"
    "kv_check_loaded e hdr tb rest (en_model_id eng) prompt"
    "se_load ops (drop (unat tb) rest) (e_payload_bytes hdr) ses = (True, tail, lo_ses out)"
    "se_tokens ops (lo_ses out) = Some toks" "int (length toks) = sint (e_tokens hdr)"
    "lo_loaded out = sint (e_tokens hdr)"
    "lo_prompt out = toks @ en_tokenize eng (drop (unat tb) prompt)"
    "lo_kc out = kc\<lparr>kc_continued_last_store_tokens := sint (e_tokens hdr)\<rparr>"
    "lo_fs out = snd (kvstore_touch_file os fs (e_path e) (e_hits hdr + 1))"
proof -
  note def = assms(1) [unfolded kv_load_entry_def Let_def]
  have r: "os_readable os (e_path e)"
  proof (rule ccontr)
    assume "\<not> os_readable os (e_path e)"
    then show False using def assms(2)  by auto
  qed
  obtain bs where bs: "fs_get fs (e_path e) = Some bs"
    using def assms(2) r by (cases "fs_get fs (e_path e)") auto
  obtain hdr tb rest where h: "kvstore_read_header bs = Some (hdr, tb, rest)"
    using def assms(2) r bs by (cases "kvstore_read_header bs") auto
  have c: "kv_check_loaded e hdr tb rest (en_model_id eng) prompt"
  proof (rule ccontr)
    assume "\<not> (kv_check_loaded e hdr tb rest (en_model_id eng) prompt)"
    then show False using def assms(2) r bs h by auto
  qed
  obtain ok tail ses1 where l: "se_load ops (drop (unat tb) rest) (e_payload_bytes hdr) ses = (ok, tail, ses1)"
    by (metis prod_cases3)
  have ok: "ok"
  proof (rule ccontr)
    assume "\<not> ok"
    then show False using def assms(2) r bs h c l by auto
  qed
  obtain toks where t: "se_tokens ops ses1 = Some toks"
    using def assms(2) r bs h c l ok by (cases "se_tokens ops ses1") auto
  have n: "int (length toks) = sint (e_tokens hdr)"
  proof (rule ccontr)
    assume "\<not> (int (length toks) = sint (e_tokens hdr))"
    then show False using def assms(2) r bs h c l ok t by auto
  qed
  have pos: "0 < sint (e_tokens hdr)"
  proof (rule ccontr)
    assume "\<not> (0 < sint (e_tokens hdr))"
    then show False using def assms(2) r bs h c l ok t n by auto
  qed
  show thesis
    by (rule that [OF bs h c])
      (use def r bs h c l ok t n pos in \<open>auto simp: kvstore_build_prompt_def tokens_append_def\<close>)
qed

text \<open>
  C1. A load from disk is safe against hash collisions, stale listings and files changed
  since the lookup. When \<open>ds4_kvstore_try_load_text\<close> reports tokens, whatever the other
  processes did to the directory in between, the file it read holds a text that is byte for
  byte a prefix of the prompt, a proper one for a bank record; the text's hash is the
  file's name; the record is for this model, no larger a context and, where required, this
  quantisation; the session accepted the record's payload, read right behind the text, and holds
  exactly as many tokens as the header of the file that was read records, which is what the load
  reports; and the effective prompt is that token history followed by the tokens of the rest of the
  prompt.
\<close>

theorem load_text_safe:
  assumes "kvstore_try_load_text ops os eng (Some p) hook kc fs0 fs ses = out" and "0 < lo_loaded out"
    and "os_listable os (kc_dir kc)"
  shows "\<exists>e \<in> set (kv_dir_entries os fs0 (kc_dir kc)). \<exists>bs hdr tb rest suffix toks.
    fs_get fs (e_path e) = Some bs \<and> kvstore_read_header bs = Some (hdr, tb, rest) \<and>
    length (take (unat tb) rest) = unat tb \<and> c_strz p = take (unat tb) rest @ suffix \<and>
    (kv_entry_is_bank_replay_v1 hdr \<longrightarrow> suffix \<noteq> []) \<and>
    sha1_bytes_hex (take (unat tb) rest) = e_sha e \<and>
    kv_entry_is_automatic_exact_replay hdr \<and> e_model_id hdr = word_of_int (en_model_id eng) \<and>
    e_ctx_size hdr \<le> word_of_int (se_ctx ops ses) \<and>
    (kc_reject_different_quant kc \<longrightarrow> e_quant_bits hdr = word_of_int (en_quant_bits eng)) \<and>
    opt_min_tokens (kc_opt kc) \<le> lo_loaded out \<and>
    (\<exists>tail. se_load ops (drop (unat tb) rest) (e_payload_bytes hdr) ses = (True, tail, lo_ses out)) \<and>
    se_tokens ops (lo_ses out) = Some toks \<and> int (length toks) = sint (e_tokens hdr) \<and>
    lo_loaded out = sint (e_tokens hdr) \<and>
    lo_prompt out = toks @ en_tokenize eng suffix \<and>
    kc_continued_last_store_tokens (lo_kc out) = lo_loaded out"
proof -
  obtain idx kc1 where find: "kvstore_find_text_prefix os fs0 (Some p) (en_model_id eng) (en_quant_bits eng)
      (se_ctx ops ses) kc = (idx, kc1)" by fastforce
  have en: "kc_enabled kc" and idx: "0 \<le> idx"
    and load: "kv_load_entry ops os eng (c_strz p) hook (kc_entry kc1 ! nat idx) kc1 fs ses = out"
    using assms(1,2) unfolding kvstore_try_load_text_def option.case find Let_def prod.case
    by (auto split: if_splits simp: not_less)
  let ?e = "kc_entry kc1 ! nat idx"
  note run = kv_find_text_prefix_run [OF find [unfolded kvstore_find_text_prefix_def] en assms(3)]
  have in_dir: "?e \<in> set (kv_dir_entries os fs0 (kc_dir kc))"
    using run(1) run(4) [OF idx] by auto
  have cand: "kv_prefix_candidate kc (c_strz p) (en_model_id eng) (en_quant_bits eng) (se_ctx ops ses)
      False 0 0 ?e" using run(4) [OF idx] by simp
  note cand = cand [unfolded kv_prefix_candidate_iff]
  from load assms(2) show ?thesis
  proof (cases rule: kv_load_entry_hit)
    case (1 bs hdr tb rest tail toks)
    have payload: "\<exists>tail. se_load ops (drop (unat tb) rest) (e_payload_bytes hdr) ses = (True, tail, lo_ses out)"
      using 1(4) by blast
    from 1(3) show ?thesis
    proof (cases rule: kv_check_loadedE)
      case (1 suffix)
      note hit = \<open>fs_get fs (e_path ?e) = Some bs\<close> \<open>kvstore_read_header bs = Some (hdr, tb, rest)\<close>
        \<open>se_tokens ops (lo_ses out) = Some toks\<close> \<open>int (length toks) = sint (e_tokens hdr)\<close>
        \<open>lo_loaded out = sint (e_tokens hdr)\<close>
        \<open>lo_prompt out = toks @ en_tokenize eng (drop (unat tb) (c_strz p))\<close>
        \<open>lo_kc out = kc1\<lparr>kc_continued_last_store_tokens := sint (e_tokens hdr)\<rparr>\<close>
      have m: "e_ctx_size hdr = e_ctx_size ?e" "e_quant_bits hdr = e_quant_bits ?e" "e_tokens hdr = e_tokens ?e"
        using 1(2) by (simp_all add: kv_reopened_header_matches_entry_def)
      have p: "lo_prompt out = toks @ en_tokenize eng suffix" using hit(6) 1(7) by simp
      have k: "kc_continued_last_store_tokens (lo_kc out) = lo_loaded out" using hit(5,7) by simp
      show ?thesis
        by (rule bexI [OF _ in_dir], rule exI [of _ bs], rule exI [of _ hdr], rule exI [of _ tb],
            rule exI [of _ rest], rule exI [of _ suffix], rule exI [of _ toks], intro conjI)
          (use hit(1-5) payload 1(1,3-6,8) m p k cand in \<open>simp_all\<close>)
    qed
  qed
qed

definition wit_session_ops :: "int list option session_ops" where
  "wit_session_ops = \<lparr>se_load = (\<lambda>data n s. (True, drop (unat n) data, Some (map (\<lambda>b. int (unat b)) (take 3 data)))),
     se_tokens = (\<lambda>s. s), se_invalidate = (\<lambda>_. None), se_ctx = (\<lambda>_. 4096)\<rparr>"

lemma wit_hit_header:
  "kvstore_read_header (kv_record_bytes 0 2 1 0 3 0 4096 10 20 [65, 66, 67] [9, 8, 7, 6] []) =
     Some (kv_header_entry 0 2 1 0 3 0 4096 10 20 4 3, 3, [65, 66, 67, 9, 8, 7, 6])"
  by (subst read_header_record) simp_all

lemma wit_hit_find:
  "kvstore_find_text_prefix os_fine wit_hit_disk (Some [65, 66, 67, 68]) 0 2 4096 wit_small_store =
     (0, wit_small_store\<lparr>kc_entry := [wit_hit_entry]\<rparr>)"
  by (simp add: kvstore_find_text_prefix_def kv_find_text_prefix_def Let_def kv_cache_refresh_eq
      wit_hit_listing c_strz_def kv_index_def kv_prefix_candidate_iff wit_hit_entry_sel wit_hit_usable
      wit_small_store_def)

theorem load_text_safe_witness:
  "let out = kvstore_try_load_text wit_session_ops os_fine wit_engine (Some [65, 66, 67, 68]) None
     wit_small_store wit_hit_disk wit_hit_disk None
   in lo_loaded out = 3 \<and> se_tokens wit_session_ops (lo_ses out) = Some [9, 8, 7] \<and>
      length (lo_prompt out) = 4"
proof -
  define out where "out = kvstore_try_load_text wit_session_ops os_fine wit_engine (Some [65, 66, 67, 68])
    None wit_small_store wit_hit_disk wit_hit_disk None"
  have chk: "kv_check_loaded wit_hit_entry (kv_header_entry 0 2 1 0 3 0 4096 10 20 4 3) 3
      [65, 66, 67, 9, 8, 7, 6] 0 [65, 66, 67, 68]"
    by (simp add: kv_check_loaded_def Let_def wit_hit_entry_sel kv_header_entry_def kv_entry_zero_def
        kv_entry_is_automatic_exact_replay_def kv_entry_is_bank_replay_v1_def kv_cache_reason_family_def
        kv_reopened_header_matches_entry_def kvstore_byte_prefix_match_def)
  have l: "lo_loaded out = 3" and t: "se_tokens wit_session_ops (lo_ses out) = Some [9, 8, 7]"
    using wit_hit_find chk
    by (simp_all add: out_def kvstore_try_load_text_def kv_load_entry_def Let_def wit_session_ops_def
        wit_hit_entry_sel wit_hit_get wit_hit_header c_strz_def kv_header_entry_def kv_entry_zero_def)
  have "\<exists>toks. length toks = 3 \<and> lo_prompt out = toks @ en_tokenize wit_engine [68]"
    using load_text_safe [OF out_def [symmetric]] l
    by (auto simp: wit_hit_listing wit_hit_entry_sel wit_hit_get wit_hit_header c_strz_def)
  then have "length (lo_prompt out) = 4"
    by (auto simp: wit_engine_def)
  then show ?thesis using l t by (simp add: out_def [symmetric])
qed

lemma kv_check_reopenedE:
  assumes "kv_check_reopened e hdr tb rest (Some prompt) = Some t"
  obtains suffix where "kv_reopened_header_matches_entry hdr tb e" "t = take (unat tb) rest"
    "sha1_bytes_hex t = e_sha e" "prompt = t @ suffix" "suffix \<noteq> []"
proof -
  have c: "kv_reopened_header_matches_entry hdr tb e" "t = take (unat tb) rest" "sha1_bytes_hex t = e_sha e"
      "length t = unat tb" "unat tb < length prompt" "kvstore_byte_prefix_match prompt t"
    using assms by (auto simp: kv_check_reopened_def Let_def split: if_splits)
  then obtain u where "prompt = t @ u" by (auto simp: byte_prefix_match_iff)
  moreover from this have "u \<noteq> []" using c(4,5) by auto
  ultimately show thesis using c that by blast
qed

lemma kv_restore_bank_entry_hit:
  assumes "kv_restore_bank_entry ops os idx prompt kc fs bank = (loaded, rec_text, kc', fs', bank')"
    and "0 < loaded"
  obtains bs hdr tb rest t toks where "fs_get fs (e_path (kc_entry kc ! idx)) = Some bs"
    "kvstore_read_header bs = Some (hdr, tb, rest)"
    "kv_check_reopened (kc_entry kc ! idx) hdr tb rest prompt = Some t" "rec_text = Some t"
    "bk_committed ops bank' = Some toks" "of_nat (length toks) = e_tokens hdr" "loaded = sint (e_tokens hdr)"
    "kc' = kc\<lparr>kc_entry := (kc_entry kc)[idx := (kc_entry kc ! idx)
       \<lparr>e_hits := e_hits (kc_entry kc ! idx) + 1, e_last_used := os_time os\<rparr>]\<rparr>"
proof -
  let ?e = "kc_entry kc ! idx"
  note def = assms(1) [unfolded kv_restore_bank_entry_def Let_def]
  have r: "os_readable os (e_path ?e)" by (rule ccontr) (use def assms(2) in auto)
  obtain bs where bs: "fs_get fs (e_path ?e) = Some bs"
    using def assms(2) r by (cases "fs_get fs (e_path ?e)") auto
  obtain hdr tb rest where h: "kvstore_read_header bs = Some (hdr, tb, rest)"
    using def assms(2) r bs by (cases "kvstore_read_header bs") auto
  obtain t where c: "kv_check_reopened ?e hdr tb rest prompt = Some t"
    using def assms(2) r bs h by (cases "kv_check_reopened ?e hdr tb rest prompt") auto
  obtain ok bank1 where l: "bk_restore ops (drop (unat tb) rest) (e_payload_bytes hdr) bank = (ok, bank1)"
    by fastforce
  have ok: ok by (rule ccontr) (use def assms(2) r bs h c l in auto)
  have b: "case bk_committed ops bank1 of None \<Rightarrow> False | Some htok \<Rightarrow> of_nat (length htok) = e_tokens hdr"
    by (rule ccontr) (use def assms(2) r bs h c l ok in auto)
  then obtain toks where t: "bk_committed ops bank1 = Some toks" "of_nat (length toks) = e_tokens hdr"
    by (auto split: option.splits)
  have pos: "0 < sint (e_tokens hdr)"
    by (rule ccontr) (use def assms(2) r bs h c l ok b in auto)
  show thesis
    by (rule that [OF bs h c]) (use def r bs h c l ok b t pos in auto)
qed

text \<open>
  C31. A bank restore gives a strict prefix. When
  \<open>ds4_kvstore_try_restore_bank_text\<close> reports tokens, whatever happened to the directory
  since the lookup, the text it returns was read from the chosen entry's file, hashes to
  that file's name and is followed in the prompt by at least one more byte, so the
  frontier is always recomputed; the bank has committed exactly the recorded number of
  tokens; and the entry's hit count in the store's list is one higher.
\<close>

theorem restore_bank_text_strict:
  assumes "kvstore_try_restore_bank_text ops os eng ctx_size (Some p) kc fs0 fs bank =
      (loaded, rec_text, kc', fs', bank')" and "0 < loaded" and "os_listable os (kc_dir kc)"
  shows "\<exists>i < length (kv_dir_entries os fs0 (kc_dir kc)). \<exists>t suffix toks hdr tb rest bs.
    let e = kv_dir_entries os fs0 (kc_dir kc) ! i in
    rec_text = Some t \<and> fs_get fs (e_path e) = Some bs \<and> kvstore_read_header bs = Some (hdr, tb, rest) \<and>
    t = take (unat tb) rest \<and> sha1_bytes_hex t = e_sha e \<and> c_strz p = t @ suffix \<and> suffix \<noteq> [] \<and>
    e_model_id hdr = word_of_int (en_model_id eng) \<and> e_ctx_size hdr \<le> word_of_int ctx_size \<and>
    bk_committed ops bank' = Some toks \<and> of_nat (length toks) = e_tokens hdr \<and> loaded = sint (e_tokens hdr) \<and>
    kc_entry kc' = (kv_dir_entries os fs0 (kc_dir kc))[i := e\<lparr>e_hits := e_hits e + 1, e_last_used := os_time os\<rparr>]"
proof -
  obtain idx kc1 where find: "kvstore_find_bank_text_prefix os fs0 (Some p) (en_model_id eng)
      (en_quant_bits eng) ctx_size kc = (idx, kc1)" by fastforce
  have en: "kc_enabled kc" and idx: "0 \<le> idx"
    and load: "kv_restore_bank_entry ops os (nat idx) (Some (c_strz p)) kc1 fs bank =
      (loaded, rec_text, kc', fs', bank')"
    using assms(1,2) unfolding kvstore_try_restore_bank_text_def find Let_def prod.case
    by (auto split: if_splits simp: not_less)
  let ?e = "kc_entry kc1 ! nat idx"
  note run = kv_find_text_prefix_run [OF find [unfolded kvstore_find_bank_text_prefix_def] en assms(3)]
  have es: "kc_entry kc1 = kv_dir_entries os fs0 (kc_dir kc)" using run(1) by simp
  have lt: "nat idx < length (kv_dir_entries os fs0 (kc_dir kc))"
    and cand: "kv_prefix_candidate kc (c_strz p) (en_model_id eng) (en_quant_bits eng) ctx_size True 0 0 ?e"
    using run(4) [OF idx] es by auto
  note cand = cand [unfolded kv_prefix_candidate_iff]
  from load assms(2) show ?thesis
  proof (cases rule: kv_restore_bank_entry_hit)
    case hit: (1 bs hdr tb rest t toks)
    from hit(3) show ?thesis
    proof (cases rule: kv_check_reopenedE)
      case (1 suffix)
      have m: "e_ctx_size hdr = e_ctx_size ?e" "e_model_id hdr = e_model_id ?e"
        using 1(1) by (simp_all add: kv_reopened_header_matches_entry_def)
      show ?thesis
        unfolding Let_def es [symmetric]
        by (rule exI [of _ "nat idx"], rule conjI, use lt es in simp, rule exI [of _ t],
            rule exI [of _ suffix], rule exI [of _ toks], rule exI [of _ hdr], rule exI [of _ tb],
            rule exI [of _ rest], rule exI [of _ bs], intro conjI)
          (use hit 1 m cand in simp_all)
    qed
  qed
qed

definition wit_bank_ops :: "int list option bank_ops" where
  "wit_bank_ops = \<lparr>bk_restore = (\<lambda>data n b. (True, Some (map (\<lambda>b. int (unat b)) (take 3 data)))),
     bk_committed = (\<lambda>b. b)\<rparr>"

theorem restore_bank_text_strict_witness:
  "let (loaded, rec_text, kc', fs', bank') = kvstore_try_restore_bank_text wit_bank_ops os_fine wit_engine 4096
       (Some [65, 66, 67, 68]) wit_small_store wit_hit_disk wit_hit_disk None
   in loaded = 3 \<and> rec_text = Some [65, 66, 67]"
proof -
  obtain loaded rec_text kc' fs' bank' where r: "kvstore_try_restore_bank_text wit_bank_ops os_fine wit_engine
      4096 (Some [65, 66, 67, 68]) wit_small_store wit_hit_disk wit_hit_disk None =
      (loaded, rec_text, kc', fs', bank')" by (metis prod_cases5)
  have find: "kvstore_find_bank_text_prefix os_fine wit_hit_disk (Some [65, 66, 67, 68]) 0 2 4096 wit_small_store =
      (0, wit_small_store\<lparr>kc_entry := [wit_hit_entry]\<rparr>)"
    by (simp add: kvstore_find_bank_text_prefix_def kv_find_text_prefix_def Let_def kv_cache_refresh_eq
        wit_hit_listing c_strz_def kv_index_def kv_prefix_candidate_iff wit_hit_entry_sel wit_hit_usable
        wit_small_store_def)
  have chk: "kv_check_reopened wit_hit_entry (kv_header_entry 0 2 1 0 3 0 4096 10 20 4 3) 3
      [65, 66, 67, 9, 8, 7, 6] (Some [65, 66, 67, 68]) = Some [65, 66, 67]"
    by (simp add: kv_check_reopened_def Let_def wit_hit_entry_sel kv_header_entry_def kv_entry_zero_def
        kv_entry_is_automatic_exact_replay_def kv_entry_is_bank_replay_v1_def kv_cache_reason_family_def
        kv_reopened_header_matches_entry_def kvstore_byte_prefix_match_def)
  have l: "loaded = 3"
    using r find chk
    by (auto simp: kvstore_try_restore_bank_text_def kv_restore_bank_entry_def Let_def wit_bank_ops_def
        wit_hit_entry_sel wit_hit_get wit_hit_header c_strz_def kv_header_entry_def kv_entry_zero_def)
  show ?thesis
    unfolding r Let_def prod.case using restore_bank_text_strict [OF r] l
    by (auto simp: wit_hit_listing wit_hit_entry_sel wit_hit_get wit_hit_header Let_def)
qed

text \<open>
  C22. What was stored is found. When the directory holds a complete record under the hash
  of its text, of a serial reason and at least the minimum of tokens, for this model, a
  context no larger than the asker's and a permitted quantisation, then for every prompt
  that extends the text, \<open>ds4_kvstore_find_text_prefix\<close> returns an entry, and
  one that covers at least this text.
\<close>

theorem stored_text_is_found:
  assumes "fs_get fs (kv_key_path kc key) =
      Some (kv_record_bytes (word_of_int m) q r x (of_nat n) h c ca lu key payload trailer)"
    and "kc_enabled kc" and "os_listable os (kc_dir kc)" and "os_readable os (kv_key_path kc key)"
    and "q = 2 \<or> q = 4" and "kc_reject_different_quant kc \<longrightarrow> q = word_of_int quant"
    and "kv_cache_reason_family r = 1" and "x AND EXT_BANK_REPLAY_V1 = 0"
    and "0 < n" and "n < 2 ^ 31" and "opt_min_tokens (kc_opt kc) \<le> int n" and "c \<le> word_of_int ctx"
    and "length key < 2 ^ 32" and "52 + length key + length payload + length trailer < 2 ^ 64"
    and "c_strz p = key @ sfx"
  shows "let (idx, kc') = kvstore_find_text_prefix os fs (Some p) m quant ctx kc in
    0 \<le> idx \<and> nat idx < length (kc_entry kc') \<and>
    length key \<le> unat (e_text_bytes (kc_entry kc' ! nat idx))"
proof -
  obtain idx kc' where find: "kvstore_find_text_prefix os fs (Some p) m quant ctx kc = (idx, kc')" by fastforce
  note run = kv_find_text_prefix_run [OF find [unfolded kvstore_find_text_prefix_def] assms(2,3)]
  define e where "e = kv_record_entry (kv_key_path kc key) (sha1_bytes_hex key) (word_of_int m) q r x (of_nat n) h c ca lu
    key payload trailer"
  have listed: "e \<in> set (kc_entry kc')"
    using record_listed [OF assms(1,4,9) _ assms(5,13,14)] assms(10) run(1) by (simp add: e_def)
  have "r \<le> 4" using assms(7) by (auto simp: kv_cache_reason_family_def split: if_splits)
  then have fam: "r \<le> 9" by (rule order_trans) simp
  have sel: "e_reason e = r" "e_ext_flags e = x" "e_text_bytes e = ucast (of_nat (length key) :: u32)"
    "e_tokens e = of_nat n" "e_model_id e = word_of_int m" "e_ctx_size e = c" "e_quant_bits e = q"
    "e_sha e = sha1_bytes_hex key"
    using fam by (simp_all add: e_def kv_record_entry_def kv_header_entry_def kv_entry_zero_def)
  have len: "unat (e_text_bytes e) = length key"
    using assms(13) by (simp add: sel unat_of_nat_u32)
  have "sint (of_nat n :: u32) = int n"
    using assms(10) by (simp add: signed_of_nat signed_take_bit_int_eq_self)
  then have cand: "kv_prefix_candidate kc (c_strz p) m quant ctx False 0 0 e"
    using assms(6-8,11,12,15) len
    by (simp add: kv_prefix_candidate_iff sel kv_entry_is_automatic_exact_replay_def
        kv_entry_is_bank_replay_v1_def)
  then have idx: "0 \<le> idx" using listed run(2,3) by auto
  have "\<not> kv_prefix_better e (kc_entry kc' ! nat idx)"
    using run(4) [OF idx] listed cand by blast
  then have "e_text_bytes e \<le> e_text_bytes (kc_entry kc' ! nat idx)"
    by (auto simp: kv_prefix_better_def)
  then show ?thesis
    unfolding find Let_def prod.case using run(4) [OF idx] idx len by (simp add: word_le_nat_alt)
qed

theorem stored_text_is_found_witness:
  "let (idx, kc') = kvstore_find_text_prefix os_fine wit_hit_disk (Some [65, 66, 67, 68]) 0 2 4096 wit_small_store
   in 0 \<le> idx \<and> 3 \<le> unat (e_text_bytes (kc_entry kc' ! nat idx))"
proof -
  have "\<not> kc_reject_different_quant wit_small_store" by (simp add: wit_small_store_def)
  then show ?thesis
    using stored_text_is_found [of wit_hit_disk wit_small_store "[65, 66, 67]" 0 2 1 0 3 0 4096 10 20
        "[9, 8, 7, 6]" "[]" os_fine 2 4096 "[65, 66, 67, 68]" "[68]"]
    by (simp add: wit_hit_get kv_cache_reason_family_def c_strz_def Let_def split: prod.splits)
qed

end
