(* ===== verification/Mem_Census.thy ===== *)
theory Mem_Census
  imports C_Prelude
begin

unbundle bit_operations_syntax

section \<open>The allocation census\<close>

text \<open>
  The pure core of the memory census, \<open>ds4_mem_census.h\<close>: the saturating ledger cell of
  one consumer class, the table of model sources, the residency resolver, the mapping of a
  typed observation to the legacy interface, the reconciliation arithmetic and the parser
  of the trim failure-injection spec. A pointer is its 64-bit address, null is 0; a C
  string is a \<open>string\<close> without its terminator; the fault counter that the code passes
  by address is an argument and a result. Signed 64-bit arithmetic is on the integers:
  the lemmas show that no step leaves the range.
\<close>

subsection \<open>Classes and cells\<close>

datatype mem_consumer_class =
    MEMC_ENGINE_OTHER | MEMC_WEIGHT_ARENA | MEMC_WEIGHT_SPAN | MEMC_WEIGHT_WHOLE
  | MEMC_WEIGHT_DERIVED | MEMC_WEIGHT_IMPORT | MEMC_WEIGHT_ARTIFACT | MEMC_WEIGHT_HOST_PIN
  | MEMC_STAGE_PIN | MEMC_SCALARS_MIRROR | MEMC_SESSION_TENSORS | MEMC_KV_PRIMARY
  | MEMC_BATCH_BANK | MEMC_SCRATCH_STICKY | MEMC_KERNEL_PARTIALS | MEMC_GRAPH_EXEC | MEMC_DIAG

definition MEMC_COUNT :: int where "MEMC_COUNT = 17"

datatype mem_domain = MEMD_UNIFIED_DEVICE | MEMD_PINNED_HOST

definition MEMD_COUNT :: int where "MEMD_COUNT = 2"

record mem_cell =
  mc_requested :: u64
  mc_committed :: u64
  mc_freed_requested :: u64
  mc_freed_committed :: u64
  mc_alloc_calls :: u64
  mc_free_calls :: u64

definition mem_cell_zero :: mem_cell where
  "mem_cell_zero = \<lparr>mc_requested = 0, mc_committed = 0, mc_freed_requested = 0, mc_freed_committed = 0,
     mc_alloc_calls = 0, mc_free_calls = 0\<rparr>"

definition mem_sat_add :: "u64 \<Rightarrow> u64 \<Rightarrow> u64 \<Rightarrow> u64 \<times> u64" where
  "mem_sat_add a b faults = (if b > u64_max - a then (u64_max, faults + 1) else (a + b, faults))"

definition mem_cell_note_alloc :: "mem_cell \<Rightarrow> u64 \<Rightarrow> u64 \<Rightarrow> u64 \<Rightarrow> mem_cell \<times> u64" where
  "mem_cell_note_alloc c requested committed faults =
     (let (req, f1) = mem_sat_add (mc_requested c) requested faults;
          (com, f2) = mem_sat_add (mc_committed c) committed f1
      in (c\<lparr>mc_requested := req, mc_committed := com, mc_alloc_calls := mc_alloc_calls c + 1\<rparr>, f2))"

definition mem_cell_note_free :: "mem_cell \<Rightarrow> u64 \<Rightarrow> u64 \<Rightarrow> u64 \<Rightarrow> mem_cell \<times> u64" where
  "mem_cell_note_free c requested committed faults =
     (let live_req = mc_requested c - mc_freed_requested c;
          live_com = mc_committed c - mc_freed_committed c;
          (r, f1) = (if requested > live_req then (live_req, faults + 1) else (requested, faults));
          (m, f2) = (if committed > live_com then (live_com, f1 + 1) else (committed, f1));
          (fr, f3) = mem_sat_add (mc_freed_requested c) r f2;
          (fc, f4) = mem_sat_add (mc_freed_committed c) m f3
      in (c\<lparr>mc_freed_requested := fr, mc_freed_committed := fc, mc_free_calls := mc_free_calls c + 1\<rparr>, f4))"

definition mem_cell_live :: "mem_cell \<Rightarrow> u64" where
  "mem_cell_live c = mc_committed c - mc_freed_committed c"

definition mem_cell_slack :: "mem_cell \<Rightarrow> u64" where
  "mem_cell_slack c =
     (let live_com = mc_committed c - mc_freed_committed c;
          live_req = mc_requested c - mc_freed_requested c
      in if live_com > live_req then live_com - live_req else 0)"

subsection \<open>Model sources\<close>

definition MSRC_MAX :: nat where "MSRC_MAX = 8"

datatype model_source_role = MSRC_ROLE_PRIMARY | MSRC_ROLE_AUXILIARY | MSRC_ROLE_DRAFTER

fun msrc_role_num :: "model_source_role \<Rightarrow> int" where
  "msrc_role_num MSRC_ROLE_PRIMARY = 0"
| "msrc_role_num MSRC_ROLE_AUXILIARY = 1"
| "msrc_role_num MSRC_ROLE_DRAFTER = 2"

record model_source =
  ms_map_base :: u64
  ms_map_len :: u64
  ms_role :: int
  ms_fd :: int
  ms_residency :: u8
  ms_name :: string
  ms_path :: string

text \<open>\<open>cap\<close> is the size of the destination array; \<open>None\<close> is the null pointer.\<close>

definition msrc_copy_str :: "nat \<Rightarrow> string option \<Rightarrow> string" where
  "msrc_copy_str cap src = (case src of None \<Rightarrow> [] | Some s \<Rightarrow> take (cap - 1) s)"

fun msrc_index :: "u64 \<Rightarrow> model_source list \<Rightarrow> nat" where
  "msrc_index p [] = 0"
| "msrc_index p (s # ss) = (if ms_map_base s = p then 0 else Suc (msrc_index p ss))"

text \<open>The table is the list of its bound rows; the result is the handle, the table and the faults.\<close>

definition model_source_bind :: "model_source list \<Rightarrow> u64 \<Rightarrow> u64 \<Rightarrow> int \<Rightarrow> int \<Rightarrow> int \<Rightarrow> string option \<Rightarrow>
    string option \<Rightarrow> u64 \<Rightarrow> int \<times> model_source list \<times> u64" where
  "model_source_bind t map_base map_len role fd residency name path faults =
     (if map_base = 0 \<or> map_len = 0 then (-1, t, faults + 1)
      else let i = msrc_index map_base t;
               row = \<lparr>ms_map_base = map_base, ms_map_len = map_len, ms_role = role, ms_fd = fd,
                 ms_residency = word_of_int residency, ms_name = msrc_copy_str 24 name,
                 ms_path = msrc_copy_str 192 path\<rparr>
           in if i = length t
              then if length t \<ge> MSRC_MAX then (-1, t, faults + 1) else (int i, t @ [row], faults)
              else (int i, t[i := row], faults))"

fun msrc_contains :: "u64 \<Rightarrow> nat \<Rightarrow> model_source list \<Rightarrow> int" where
  "msrc_contains q i [] = -1"
| "msrc_contains q i (s # ss) =
     (if q \<ge> ms_map_base s \<and> q - ms_map_base s < ms_map_len s then int i else msrc_contains q (Suc i) ss)"

definition model_source_find :: "model_source list \<Rightarrow> u64 \<Rightarrow> int" where
  "model_source_find t p =
     (if p = 0 then -1
      else let i = msrc_index p t in if i < length t then int i else msrc_contains p 0 t)"

definition model_source_role_name :: "int \<Rightarrow> string" where
  "model_source_role_name role =
     (if role = msrc_role_num MSRC_ROLE_PRIMARY then ''primary''
      else if role = msrc_role_num MSRC_ROLE_AUXILIARY then ''auxiliary''
      else if role = msrc_role_num MSRC_ROLE_DRAFTER then ''drafter'' else ''unknown'')"

subsection \<open>Residency\<close>

datatype residency = RESIDENCY_EAGER_DEVICE | RESIDENCY_LAZY_COPY_DEVICE | RESIDENCY_HOST_MAPPED

record residency_inputs =
  ri_explicit_val :: "string option"
  ri_legacy_no_hbm :: bool
  ri_legacy_no_fd :: bool
  ri_legacy_direct :: bool

datatype residency_error = RES_UNKNOWN_VALUE | RES_LEVER_CONFLICT

definition msrc_str_eq :: "string option \<Rightarrow> string option \<Rightarrow> bool" where
  "msrc_str_eq a b = (case a of None \<Rightarrow> False | Some x \<Rightarrow> (case b of None \<Rightarrow> False | Some y \<Rightarrow> x = y))"

definition residency_resolve :: "residency_inputs option \<Rightarrow> residency_error + residency" where
  "residency_resolve inp =
     (case inp of None \<Rightarrow> Inl RES_UNKNOWN_VALUE
      | Some i \<Rightarrow>
          if ri_explicit_val i \<noteq> None \<and> ri_explicit_val i \<noteq> Some []
          then if ri_legacy_no_hbm i \<or> ri_legacy_no_fd i \<or> ri_legacy_direct i then Inl RES_LEVER_CONFLICT
               else if msrc_str_eq (ri_explicit_val i) (Some ''eager'') then Inr RESIDENCY_EAGER_DEVICE
               else if msrc_str_eq (ri_explicit_val i) (Some ''lazy'') then Inr RESIDENCY_LAZY_COPY_DEVICE
               else if msrc_str_eq (ri_explicit_val i) (Some ''mapped'') then Inr RESIDENCY_HOST_MAPPED
               else Inl RES_UNKNOWN_VALUE
          else if ri_legacy_direct i then Inr RESIDENCY_HOST_MAPPED
          else if ri_legacy_no_hbm i
          then Inr (if ri_legacy_no_fd i then RESIDENCY_HOST_MAPPED else RESIDENCY_LAZY_COPY_DEVICE)
          else Inr RESIDENCY_EAGER_DEVICE)"

fun residency_name :: "residency \<Rightarrow> string" where
  "residency_name RESIDENCY_EAGER_DEVICE = ''eager''"
| "residency_name RESIDENCY_LAZY_COPY_DEVICE = ''lazy''"
| "residency_name RESIDENCY_HOST_MAPPED = ''mapped''"

subsection \<open>Observations and reconciliation\<close>

datatype mem_obs_status = MEMOBS_OK | MEMOBS_UNSUPPORTED | MEMOBS_QUERY_ERROR
datatype mem_obs_source = MEMOBS_SRC_NONE | MEMOBS_SRC_CUDA_FREE | MEMOBS_SRC_MEMINFO_AVAILABLE

record mem_observation =
  mo_status :: mem_obs_status
  mo_source :: mem_obs_source
  mo_free_bytes :: u64
  mo_total_bytes :: u64
  mo_cuda_free_bytes :: u64
  mo_meminfo_avail_bytes :: u64

text \<open>The outputs come in with their old values and come out; the first component is the code.\<close>

definition mem_obs_to_legacy :: "mem_observation option \<Rightarrow> u64 \<Rightarrow> u64 \<Rightarrow> int \<times> u64 \<times> u64" where
  "mem_obs_to_legacy obs free_bytes total_bytes =
     (case obs of None \<Rightarrow> (1, free_bytes, total_bytes)
      | Some v \<Rightarrow> if mo_status v \<noteq> MEMOBS_OK then (1, free_bytes, total_bytes)
                  else (0, mo_free_bytes v, mo_total_bytes v))"

record mem_reconcile =
  mr_observed_delta :: int
  mr_census_growth :: int
  mr_explained :: int
  mr_residual :: int
  mr_flagged :: bool

abbreviation i64_max :: int where "i64_max \<equiv> 9223372036854775807"

definition mem_i64_clamp :: "u64 \<Rightarrow> int" where
  "mem_i64_clamp v = (if uint v > i64_max then i64_max else uint v)"

definition mem_i64_sat_add :: "int \<Rightarrow> int \<Rightarrow> int" where
  "mem_i64_sat_add a b =
     (if b > 0 \<and> a > i64_max - b then i64_max
      else if b < 0 \<and> a < - i64_max - b then - i64_max else a + b)"

definition mem_reconcile_compute :: "u64 \<Rightarrow> u64 \<Rightarrow> u64 \<Rightarrow> u64 \<Rightarrow> u64 \<Rightarrow> u64 \<Rightarrow> mem_reconcile" where
  "mem_reconcile_compute boot_raw now_raw boot_census_live now_census_live onetime_bytes tol_bytes =
     (let observed = mem_i64_clamp boot_raw - mem_i64_clamp now_raw;
          growth = mem_i64_clamp now_census_live - mem_i64_clamp boot_census_live;
          explained = mem_i64_sat_add growth (mem_i64_clamp onetime_bytes);
          residual = mem_i64_sat_add observed (- explained);
          mag = (if residual < 0 then - residual else residual)
      in \<lparr>mr_observed_delta = observed, mr_census_growth = growth, mr_explained = explained,
          mr_residual = residual, mr_flagged = (mag > mem_i64_clamp tol_bytes)\<rparr>)"

subsection \<open>The trim failure-injection spec\<close>

datatype trim_inject_site = TRIM_INJECT_OFF | TRIM_INJECT_UNMAP | TRIM_INJECT_RELEASE

fun mem_prefix_match :: "string \<Rightarrow> string \<Rightarrow> string option" where
  "mem_prefix_match s [] = Some s"
| "mem_prefix_match [] (p # ps) = None"
| "mem_prefix_match (c # s) (p # ps) = (if c \<noteq> p then None else mem_prefix_match s ps)"

definition is_digit :: "char \<Rightarrow> bool" where
  "is_digit c \<longleftrightarrow> 48 \<le> (of_char c :: nat) \<and> (of_char c :: nat) \<le> 57"

definition digit_val :: "char \<Rightarrow> nat" where
  "digit_val c = of_char c - 48"

fun trim_digits :: "u64 \<Rightarrow> string \<Rightarrow> u64 option" where
  "trim_digits n [] = Some n"
| "trim_digits n (c # cs) =
     (if \<not> is_digit c then None
      else let n' = n * 10 + of_nat (digit_val c) in if n' > 4294967295 then None else trim_digits n' cs)"

definition trim_inject_parse :: "string option \<Rightarrow> (trim_inject_site \<times> u32) option" where
  "trim_inject_parse spec =
     (case spec of None \<Rightarrow> None
      | Some s \<Rightarrow>
          case (case mem_prefix_match s ''unmap:'' of
                  Some ds \<Rightarrow> Some (TRIM_INJECT_UNMAP, ds)
                | None \<Rightarrow> map_option (\<lambda>ds. (TRIM_INJECT_RELEASE, ds)) (mem_prefix_match s ''release:'')) of
            None \<Rightarrow> None
          | Some (site, ds) \<Rightarrow>
              if ds = [] \<or> \<not> is_digit (hd ds) then None
              else case trim_digits 0 ds of None \<Rightarrow> None
              | Some n \<Rightarrow> if n = 0 then None else Some (site, ucast n))"

subsection \<open>The cell is an exact ledger\<close>

lemma sat_add_cases:
  obtains "unat a + unat b < 2 ^ 64" "mem_sat_add a b f = (a + b, f)" "unat (a + b) = unat a + unat b"
  | "2 ^ 64 \<le> unat a + unat b" "mem_sat_add a b f = (u64_max, f + 1)"
proof (cases "2 ^ 64 \<le> unat a + unat b")
  case True
  then show thesis using that(2) by (simp only: mem_sat_add_def u64_overflow_iff if_True)
next
  case False
  then have "unat (a + b) = unat a + unat b" by (intro unat_add_exact) simp
  moreover have "mem_sat_add a b f = (a + b, f)"
    using False by (simp only: mem_sat_add_def u64_overflow_iff if_False)
  ultimately show thesis using False that(1) by simp
qed

definition mem_cell_ok :: "mem_cell \<Rightarrow> bool" where
  "mem_cell_ok c \<longleftrightarrow> mc_freed_requested c \<le> mc_requested c \<and> mc_freed_committed c \<le> mc_committed c"

datatype cell_op = Op_alloc u64 u64 | Op_free u64 u64

fun mem_cell_step :: "cell_op \<Rightarrow> mem_cell \<times> u64 \<Rightarrow> mem_cell \<times> u64" where
  "mem_cell_step (Op_alloc r m) (c, f) = mem_cell_note_alloc c r m f"
| "mem_cell_step (Op_free r m) (c, f) = mem_cell_note_free c r m f"

fun op_requested :: "cell_op \<Rightarrow> int" where
  "op_requested (Op_alloc r m) = int (unat r)"
| "op_requested (Op_free r m) = - int (unat r)"

fun op_committed :: "cell_op \<Rightarrow> int" where
  "op_committed (Op_alloc r m) = int (unat m)"
| "op_committed (Op_free r m) = - int (unat m)"

definition live_requested :: "mem_cell \<Rightarrow> int" where
  "live_requested c = int (unat (mc_requested c)) - int (unat (mc_freed_requested c))"

definition live_committed :: "mem_cell \<Rightarrow> int" where
  "live_committed c = int (unat (mc_committed c)) - int (unat (mc_freed_committed c))"

lemma unat_le_max: "unat (a :: u64) \<le> unat u64_max"
  using unat_u64_bound [of a] by (simp add: unat_u64_max)

lemma note_alloc_step:
  assumes "mem_cell_ok c" and "mem_cell_note_alloc c r m f = (c', f')"
  shows "mem_cell_ok c' \<and> (\<exists>k \<le> 2. f' = f + of_nat k \<and>
    (k = 0 \<longrightarrow> live_requested c' = live_requested c + int (unat r) \<and>
       live_committed c' = live_committed c + int (unat m)))"
proof -
  have ok: "unat (mc_freed_requested c) \<le> unat (mc_requested c)"
      "unat (mc_freed_committed c) \<le> unat (mc_committed c)"
    using assms(1) by (simp_all add: mem_cell_ok_def word_le_nat_alt)
  obtain x f1 where x: "mem_sat_add (mc_requested c) r f = (x, f1)" by fastforce
  obtain y f2 where y: "mem_sat_add (mc_committed c) m f1 = (y, f2)" by fastforce
  have c': "c' = c\<lparr>mc_requested := x, mc_committed := y, mc_alloc_calls := mc_alloc_calls c + 1\<rparr>" "f' = f2"
    using assms(2) by (auto simp: mem_cell_note_alloc_def x y)
  have X: "mc_freed_requested c \<le> x \<and> (f1 = f + 1 \<or> f1 = f \<and> unat x = unat (mc_requested c) + unat r)"
    using ok x by (cases rule: sat_add_cases [of "mc_requested c" r f]) (auto simp: word_le_nat_alt unat_le_max)
  have Y: "mc_freed_committed c \<le> y \<and> (f2 = f1 + 1 \<or> f2 = f1 \<and> unat y = unat (mc_committed c) + unat m)"
    using ok y by (cases rule: sat_add_cases [of "mc_committed c" m f1]) (auto simp: word_le_nat_alt unat_le_max)
  have okc: "mem_cell_ok c'" using X Y by (simp add: mem_cell_ok_def c')
  consider "f1 = f + 1" "f2 = f1 + 1" | "f1 = f + 1" "f2 = f1" | "f1 = f" "f2 = f1 + 1"
    | "f1 = f" "f2 = f" "unat x = unat (mc_requested c) + unat r" "unat y = unat (mc_committed c) + unat m"
    using X Y by auto
  then show ?thesis
  proof cases
    case 1
    then have "f' = f + of_nat 2" by (simp add: c')
    then show ?thesis using okc by (intro conjI exI [of _ 2]) simp_all
  next
    case 2
    then show ?thesis using okc by (intro conjI exI [of _ 1]) (simp_all add: c')
  next
    case 3
    then show ?thesis using okc by (intro conjI exI [of _ 1]) (simp_all add: c')
  next
    case 4
    then show ?thesis using okc
      by (intro conjI exI [of _ 0]) (simp_all add: c' live_requested_def live_committed_def)
  qed
qed

text \<open>A clamped amount never overflows the freed counter, so only the clamp counts a fault.\<close>

lemma clamped_free:
  assumes "fr \<le> tot" and "(a, f1) = (if r > tot - fr then (tot - fr, f + 1) else (r, f))"
  shows "mem_sat_add fr a g = (fr + a, g)" and "fr + a \<le> tot"
    and "f1 = f + 1 \<or> f1 = f \<and> unat (fr + a) = unat fr + unat r"
proof -
  have le: "unat fr \<le> unat tot" using assms(1) by (simp add: word_le_nat_alt)
  have live: "unat (tot - fr) = unat tot - unat fr" by (rule unat_sub [OF assms(1)])
  have a: "unat a \<le> unat tot - unat fr"
    using assms(2) live by (auto simp: word_less_nat_alt split: if_splits)
  then have "unat fr + unat a < 2 ^ 64" using le unat_u64_bound [of tot] by simp
  then have u: "unat (fr + a) = unat fr + unat a" by (rule unat_add_exact)
  show "mem_sat_add fr a g = (fr + a, g)"
    using \<open>unat fr + unat a < 2 ^ 64\<close> by (cases rule: sat_add_cases [of fr a g]) auto
  show "fr + a \<le> tot" using u a le by (simp add: word_le_nat_alt)
  show "f1 = f + 1 \<or> f1 = f \<and> unat (fr + a) = unat fr + unat r"
    using assms(2) u by (auto split: if_splits)
qed

lemma note_free_step:
  assumes "mem_cell_ok c" and "mem_cell_note_free c r m f = (c', f')"
  shows "mem_cell_ok c' \<and> (\<exists>k \<le> 2. f' = f + of_nat k \<and>
    (k = 0 \<longrightarrow> live_requested c' = live_requested c - int (unat r) \<and>
       live_committed c' = live_committed c - int (unat m)))"
proof -
  have ok: "mc_freed_requested c \<le> mc_requested c" "mc_freed_committed c \<le> mc_committed c"
    using assms(1) by (simp_all add: mem_cell_ok_def)
  obtain a f1 where a: "(a, f1) = (if r > mc_requested c - mc_freed_requested c
      then (mc_requested c - mc_freed_requested c, f + 1) else (r, f))" by (metis prod.collapse)
  obtain b f2 where b: "(b, f2) = (if m > mc_committed c - mc_freed_committed c
      then (mc_committed c - mc_freed_committed c, f1 + 1) else (m, f1))" by (metis prod.collapse)
  note A = clamped_free [OF ok(1) a] and B = clamped_free [OF ok(2) b]
  have c': "c' = c\<lparr>mc_freed_requested := mc_freed_requested c + a,
      mc_freed_committed := mc_freed_committed c + b, mc_free_calls := mc_free_calls c + 1\<rparr>" "f' = f2"
    using assms(2) unfolding mem_cell_note_free_def Let_def a [symmetric] prod.case b [symmetric] A(1) B(1)
    by auto
  have okc: "mem_cell_ok c'" using A(2) B(2) by (simp add: mem_cell_ok_def c')
  consider "f1 = f + 1" "f2 = f1 + 1" | "f1 = f + 1" "f2 = f1" | "f1 = f" "f2 = f1 + 1"
    | "f1 = f" "f2 = f" "unat (mc_freed_requested c + a) = unat (mc_freed_requested c) + unat r"
      "unat (mc_freed_committed c + b) = unat (mc_freed_committed c) + unat m"
    using A(3) B(3) by auto
  then show ?thesis
  proof cases
    case 1
    then have "f' = f + of_nat 2" by (simp add: c')
    then show ?thesis using okc by (intro conjI exI [of _ 2]) simp_all
  next
    case 2
    then show ?thesis using okc by (intro conjI exI [of _ 1]) (simp_all add: c')
  next
    case 3
    then show ?thesis using okc by (intro conjI exI [of _ 1]) (simp_all add: c')
  next
    case 4
    then show ?thesis using okc
      by (intro conjI exI [of _ 0]) (simp_all add: c' live_requested_def live_committed_def)
  qed
qed

lemma cell_run:
  assumes "mem_cell_ok c" and "fold mem_cell_step ops (c, f) = (c', f')"
  shows "mem_cell_ok c' \<and> (\<exists>k \<le> 2 * length ops. f' = f + of_nat k \<and>
    (k = 0 \<longrightarrow> live_requested c' = live_requested c + sum_list (map op_requested ops) \<and>
       live_committed c' = live_committed c + sum_list (map op_committed ops)))"
  using assms
proof (induction ops arbitrary: c f)
  case Nil
  then show ?case by auto
next
  case (Cons op ops)
  obtain c1 f1 where s: "mem_cell_step op (c, f) = (c1, f1)" by fastforce
  have "mem_cell_ok c1 \<and> (\<exists>k \<le> 2. f1 = f + of_nat k \<and>
    (k = 0 \<longrightarrow> live_requested c1 = live_requested c + op_requested op \<and>
       live_committed c1 = live_committed c + op_committed op))"
    using s note_alloc_step [OF Cons.prems(1)] note_free_step [OF Cons.prems(1)] by (cases op) auto
  then obtain k where k: "mem_cell_ok c1" "k \<le> 2" "f1 = f + of_nat k"
    "k = 0 \<longrightarrow> live_requested c1 = live_requested c + op_requested op \<and>
       live_committed c1 = live_committed c + op_committed op" by blast
  from Cons.IH [OF k(1), of f1] Cons.prems(2) s obtain l where l: "mem_cell_ok c'" "l \<le> 2 * length ops"
      "f' = f1 + of_nat l"
      "l = 0 \<longrightarrow> live_requested c' = live_requested c1 + sum_list (map op_requested ops) \<and>
       live_committed c' = live_committed c1 + sum_list (map op_committed ops)" by auto
  show ?case
    using k l by (intro conjI exI [of _ "k + l"]) auto
qed

text \<open>
  A census cell is an exact ledger unless it says otherwise. After any sequence of
  allocation and release notes on a fresh cell, the freed totals never exceed the allocated
  ones, so live bytes and slack never wrap; and if the fault counter is still zero, live
  committed and requested bytes are exactly the sums of all notes, and the slack is their
  difference.
\<close>

theorem census_cell_ledger:
  assumes "fold mem_cell_step ops (mem_cell_zero, 0) = (c, faults)" and "length ops < 2 ^ 62"
  shows "mc_freed_requested c \<le> mc_requested c \<and> mc_freed_committed c \<le> mc_committed c \<and>
    unat (mem_cell_live c) = unat (mc_committed c) - unat (mc_freed_committed c) \<and>
    (faults = 0 \<longrightarrow>
      int (unat (mem_cell_live c)) = sum_list (map op_committed ops) \<and>
      int (unat (mem_cell_slack c)) =
        max 0 (sum_list (map op_committed ops) - sum_list (map op_requested ops)))"
proof -
  have "mem_cell_ok mem_cell_zero" by (simp add: mem_cell_ok_def mem_cell_zero_def)
  from cell_run [OF this assms(1)] obtain k where ok: "mem_cell_ok c" and k: "k \<le> 2 * length ops"
    "faults = of_nat k" and ex: "k = 0 \<longrightarrow> live_requested c = sum_list (map op_requested ops) \<and>
       live_committed c = sum_list (map op_committed ops)"
    by (auto simp: live_requested_def live_committed_def mem_cell_zero_def)
  have le: "mc_freed_requested c \<le> mc_requested c" "mc_freed_committed c \<le> mc_committed c"
    using ok by (simp_all add: mem_cell_ok_def)
  note sub = unat_sub [OF le(1)] unat_sub [OF le(2)]
  have nat: "unat (mc_freed_requested c) \<le> unat (mc_requested c)"
    "unat (mc_freed_committed c) \<le> unat (mc_committed c)" using le by (simp_all add: word_le_nat_alt)
  have "k < 2 ^ 64" using k(1) assms(2) by simp
  then have "unat (of_nat k :: u64) = k" by (simp add: unat_of_nat take_bit_eq_mod)
  then have k0: "k = 0" if "faults = 0" using k(2) that by simp
  have live: "int (unat (mem_cell_live c)) = live_committed c"
    using nat by (simp add: mem_cell_live_def sub live_committed_def of_nat_diff)
  have sl: "unat (mem_cell_slack c) = (unat (mc_committed c) - unat (mc_freed_committed c)) -
      (unat (mc_requested c) - unat (mc_freed_requested c))"
  proof (cases "mc_committed c - mc_freed_committed c > mc_requested c - mc_freed_requested c")
    case True
    then have "mc_requested c - mc_freed_requested c \<le> mc_committed c - mc_freed_committed c" by simp
    from unat_sub [OF this] show ?thesis using True by (simp add: mem_cell_slack_def Let_def sub)
  next
    case False
    then show ?thesis by (simp add: mem_cell_slack_def Let_def sub word_less_nat_alt)
  qed
  have slack: "int (unat (mem_cell_slack c)) = max 0 (live_committed c - live_requested c)"
    unfolding sl live_committed_def live_requested_def using nat by linarith
  show ?thesis using le sub live slack ex k0 by (auto simp: mem_cell_live_def)
qed

theorem census_cell_ledger_witness:
  "let (c, faults) = fold mem_cell_step [Op_alloc 100 128, Op_alloc 50 64, Op_free 100 128] (mem_cell_zero, 0)
   in faults = 0 \<and> uint (mem_cell_live c) = 64 \<and> uint (mem_cell_slack c) = 14"
proof -
  let ?ops = "[Op_alloc 100 128, Op_alloc 50 64, Op_free 100 128]"
  obtain c f where r: "fold mem_cell_step ?ops (mem_cell_zero, 0) = (c, f)" by fastforce
  have f: "f = 0"
    using r by (simp add: mem_cell_note_alloc_def mem_cell_note_free_def mem_sat_add_def mem_cell_zero_def Let_def)
  show ?thesis
    unfolding r Let_def prod.case using census_cell_ledger [OF r] f by simp
qed

subsection \<open>The source table\<close>

definition msrc_ok :: "model_source list \<Rightarrow> bool" where
  "msrc_ok t \<longleftrightarrow> length t \<le> MSRC_MAX \<and> distinct (map ms_map_base t) \<and>
     (\<forall>s \<in> set t. ms_map_base s \<noteq> 0 \<and> ms_map_len s \<noteq> 0)"

lemma msrc_index_le: "msrc_index p t \<le> length t"
  by (induction t) auto

lemma msrc_index_less: "msrc_index p t < length t \<longleftrightarrow> p \<in> ms_map_base ` set t"
  by (induction t) auto

lemma msrc_index_base: "msrc_index p t < length t \<Longrightarrow> ms_map_base (t ! msrc_index p t) = p"
  by (induction t) (auto split: if_splits)

lemma msrc_index_unique:
  "distinct (map ms_map_base t) \<Longrightarrow> i < length t \<Longrightarrow> msrc_index (ms_map_base (t ! i)) t = i"
proof (induction t arbitrary: i)
  case (Cons s t)
  show ?case
  proof (cases i)
    case (Suc j)
    then have "j < length t" using Cons.prems(2) by simp
    moreover from this have "ms_map_base s \<noteq> ms_map_base (t ! j)" using Cons.prems(1) by auto
    ultimately show ?thesis using Suc Cons.IH [of j] Cons.prems(1) by simp
  qed simp
qed simp

lemma map_base_update:
  "i < length t \<Longrightarrow> ms_map_base row = ms_map_base (t ! i) \<Longrightarrow>
     map ms_map_base (t[i := row]) = map ms_map_base t"
  by (metis length_map list_update_id map_update nth_map)

text \<open>
  Handles are stable and resolve. Binding a source to a well-formed table keeps it
  well-formed: at most eight rows, distinct non-null bases, non-empty extents. Binding
  fails, with one fault and an unchanged table, exactly for a null base, an empty extent
  or a ninth base. Otherwise the handle is the row of the new descriptor, a base that was
  bound keeps its handle, every other row stays as it was, and looking up the base
  gives the handle.
\<close>

theorem model_source_bind_stable:
  assumes "model_source_bind t base len role fd residency name path faults = (h, t', faults')"
    and "msrc_ok t"
  shows "msrc_ok t' \<and>
    (h = -1 \<longleftrightarrow> base = 0 \<or> len = 0 \<or> base \<notin> ms_map_base ` set t \<and> length t = MSRC_MAX) \<and>
    (h = -1 \<longrightarrow> t' = t \<and> faults' = faults + 1) \<and>
    (h \<noteq> -1 \<longrightarrow> faults' = faults \<and> 0 \<le> h \<and> nat h < length t' \<and>
      ms_map_base (t' ! nat h) = base \<and> ms_map_len (t' ! nat h) = len \<and> ms_role (t' ! nat h) = role \<and>
      model_source_find t' base = h \<and>
      (\<forall>i < length t. i \<noteq> nat h \<longrightarrow> t' ! i = t ! i) \<and>
      (\<forall>i < length t. ms_map_base (t ! i) = base \<longrightarrow> h = int i))"
proof -
  let ?i = "msrc_index base t"
  define row where "row = \<lparr>ms_map_base = base, ms_map_len = len, ms_role = role, ms_fd = fd,
    ms_residency = word_of_int residency, ms_name = msrc_copy_str 24 name, ms_path = msrc_copy_str 192 path\<rparr>"
  have ok: "length t \<le> MSRC_MAX" "distinct (map ms_map_base t)"
      "\<forall>s \<in> set t. ms_map_base s \<noteq> 0 \<and> ms_map_len s \<noteq> 0"
    using assms(2) by (simp_all add: msrc_ok_def)
  note def = assms(1) [unfolded model_source_bind_def Let_def row_def [symmetric]]
  consider (bad) "base = 0 \<or> len = 0" | (full) "base \<noteq> 0" "len \<noteq> 0" "?i = length t" "length t = MSRC_MAX"
    | (new) "base \<noteq> 0" "len \<noteq> 0" "?i = length t" "length t < MSRC_MAX"
    | (old) "base \<noteq> 0" "len \<noteq> 0" "?i < length t"
    using ok(1) msrc_index_le [of base t] by fastforce
  then show ?thesis
  proof cases
    case bad
    then show ?thesis using def assms(2) by auto
  next
    case full
    then have "base \<notin> ms_map_base ` set t" using msrc_index_less [of base t] by simp
    then show ?thesis using def full assms(2) by simp
  next
    case new
    then have fresh: "base \<notin> ms_map_base ` set t" using msrc_index_less [of base t] by simp
    have r: "h = int (length t)" "t' = t @ [row]" "faults' = faults" using def new by simp_all
    have "msrc_index base t' = length t"
      using msrc_index_unique [of t' "length t"] fresh ok(2) by (simp add: r row_def)
    moreover have "msrc_ok t'" using fresh ok new by (auto simp: msrc_ok_def r row_def)
    moreover have "\<forall>i < length t. ms_map_base (t ! i) \<noteq> base" using fresh by auto
    ultimately show ?thesis using new fresh
      by (auto simp: r nth_append model_source_find_def row_def)
  next
    case old
    have r: "h = int ?i" "t' = t[?i := row]" "faults' = faults" using def old by simp_all
    have bases: "map ms_map_base t' = map ms_map_base t"
      using map_base_update [OF old(3), of row] msrc_index_base [OF old(3)] by (simp add: r row_def)
    have "ms_map_base s \<noteq> 0 \<and> ms_map_len s \<noteq> 0" if "s \<in> set t'" for s
    proof -
      have "s = row \<or> s \<in> set t" using that set_update_subset_insert [of t ?i row] by (auto simp: r)
      then show ?thesis using ok(3) old by (auto simp: row_def)
    qed
    then have ok': "msrc_ok t'" using ok bases by (simp add: msrc_ok_def r(2))
    have "msrc_index base t' = ?i"
      using msrc_index_unique [of t' ?i] ok' old by (simp add: msrc_ok_def r row_def)
    moreover have "\<forall>i < length t. ms_map_base (t ! i) = base \<longrightarrow> ?i = i"
      using msrc_index_unique [OF ok(2)] by auto
    moreover have "base \<in> ms_map_base ` set t" using old(3) msrc_index_less by blast
    ultimately show ?thesis using old ok' by (auto simp: r model_source_find_def row_def)
  qed
qed

definition wit_sources :: "model_source list" where
  "wit_sources = [\<lparr>ms_map_base = 4096, ms_map_len = 8192, ms_role = 0, ms_fd = 3, ms_residency = 0,
     ms_name = ''base'', ms_path = ''m.gguf''\<rparr>]"

theorem model_source_bind_stable_witness:
  "let (h, t', faults') = model_source_bind wit_sources 65536 4096 2 4 0 (Some ''drafter'') None 0
   in h = 1 \<and> model_source_find t' 65536 = 1 \<and> t' ! 0 = wit_sources ! 0"
proof -
  obtain h t' f' where r: "model_source_bind wit_sources 65536 4096 2 4 0 (Some ''drafter'') None 0 = (h, t', f')"
    by (metis prod_cases3)
  have ok: "msrc_ok wit_sources" by (simp add: msrc_ok_def wit_sources_def MSRC_MAX_def)
  have h: "h = 1" using r by (simp add: model_source_bind_def wit_sources_def MSRC_MAX_def)
  show ?thesis
    unfolding r Let_def prod.case using model_source_bind_stable [OF r ok] h
    by (simp add: wit_sources_def)
qed

definition msrc_holds :: "model_source \<Rightarrow> u64 \<Rightarrow> bool" where
  "msrc_holds s q \<longleftrightarrow> q \<ge> ms_map_base s \<and> q - ms_map_base s < ms_map_len s"

lemma msrc_contains_cases:
  "msrc_contains q i t = -1 \<and> (\<forall>s \<in> set t. \<not> msrc_holds s q) \<or>
   (\<exists>j < length t. msrc_contains q i t = int (i + j) \<and> msrc_holds (t ! j) q)"
proof (induction t arbitrary: i)
  case (Cons s t)
  show ?case
  proof (cases "msrc_holds s q")
    case True
    then show ?thesis by (intro disjI2 exI [of _ 0]) (simp add: msrc_holds_def)
  next
    case False
    then have c: "msrc_contains q i (s # t) = msrc_contains q (Suc i) t" by (auto simp: msrc_holds_def)
    from Cons.IH [of "Suc i"] show ?thesis
    proof
      assume "\<exists>j < length t. msrc_contains q (Suc i) t = int (Suc i + j) \<and> msrc_holds (t ! j) q"
      then obtain j where "j < length t" "msrc_contains q (Suc i) t = int (Suc i + j)" "msrc_holds (t ! j) q"
        by blast
      then show ?thesis unfolding c by (intro disjI2 exI [of _ "Suc j"]) simp
    qed (use False c in auto)
  qed
qed simp

text \<open>
  A pointer resolves to the one source that contains it. In a well-formed table whose
  extents do not overlap, \<open>ds4_model_source_find\<close> returns handle \<open>i\<close> exactly when row
  \<open>i\<close>'s extent contains the address, whether it is the base or an interior address, and
  -1 exactly when no row contains it.
\<close>

theorem model_source_find_owner:
  assumes "msrc_ok t" and "p \<noteq> 0"
    and "\<forall>i < length t. \<forall>j < length t. \<forall>q. msrc_holds (t ! i) q \<and> msrc_holds (t ! j) q \<longrightarrow> i = j"
  shows "(\<forall>i < length t. model_source_find t p = int i \<longleftrightarrow> msrc_holds (t ! i) p) \<and>
    (model_source_find t p = -1 \<longleftrightarrow> (\<forall>i < length t. \<not> msrc_holds (t ! i) p))"
proof -
  have "model_source_find t p = -1 \<and> (\<forall>i < length t. \<not> msrc_holds (t ! i) p) \<or>
    (\<exists>j < length t. model_source_find t p = int j \<and> msrc_holds (t ! j) p)"
  proof (cases "msrc_index p t < length t")
    case True
    have "t ! msrc_index p t \<in> set t" using True by simp
    then have "0 < ms_map_len (t ! msrc_index p t)"
      using assms(1) by (auto simp: msrc_ok_def word_neq_0_conv)
    then have "msrc_holds (t ! msrc_index p t) p"
      using msrc_index_base [OF True] by (simp add: msrc_holds_def)
    then show ?thesis using True assms(2) by (auto simp: model_source_find_def Let_def)
  next
    case False
    then show ?thesis
      using msrc_contains_cases [of p 0 t] assms(2) by (auto simp: model_source_find_def Let_def)
  qed
  then show ?thesis using assms(3) by (auto simp: int_eq_iff)
qed

theorem model_source_find_owner_witness:
  "model_source_find wit_sources 5000 = 0 \<and> model_source_find wit_sources 12288 = -1"
proof -
  have ok: "msrc_ok wit_sources" by (simp add: msrc_ok_def wit_sources_def MSRC_MAX_def)
  have "msrc_holds (wit_sources ! 0) 5000" "\<not> msrc_holds (wit_sources ! 0) 12288"
    by (simp_all add: msrc_holds_def wit_sources_def)
  moreover have "length wit_sources = 1" by (simp add: wit_sources_def)
  ultimately show ?thesis
    using model_source_find_owner [OF ok, of 5000] model_source_find_owner [OF ok, of 12288] by simp
qed

subsection \<open>Reconciliation\<close>

lemma mem_i64_clamp_range: "0 \<le> mem_i64_clamp v \<and> mem_i64_clamp v \<le> i64_max"
  by (simp add: mem_i64_clamp_def)

lemma mem_i64_sat_add_spec:
  assumes "- i64_max \<le> a" "a \<le> i64_max" "- i64_max \<le> b" "b \<le> i64_max"
  shows "mem_i64_sat_add a b = max (- i64_max) (min i64_max (a + b))"
  using assms by (auto simp: mem_i64_sat_add_def)

text \<open>
  The reconciliation never overflows and is exact on real values. For all inputs
  every field of the result lies strictly above the smallest 64-bit integer, so each
  subtraction and negation of the code is defined. When every input is below \<open>2^61\<close>, the
  residual is exactly the observed drop less the census growth less the one-time charges,
  and the flag is raised exactly when its magnitude exceeds the tolerance.
\<close>

theorem reconcile_exact:
  "let r = mem_reconcile_compute boot_raw now_raw boot_live now_live onetime tol in
    \<bar>mr_observed_delta r\<bar> \<le> i64_max \<and> \<bar>mr_census_growth r\<bar> \<le> i64_max \<and>
    \<bar>mr_explained r\<bar> \<le> i64_max \<and> \<bar>mr_residual r\<bar> \<le> i64_max \<and>
    (uint boot_raw < 2 ^ 61 \<and> uint now_raw < 2 ^ 61 \<and> uint boot_live < 2 ^ 61 \<and> uint now_live < 2 ^ 61 \<and>
      uint onetime < 2 ^ 61 \<and> uint tol < 2 ^ 61 \<longrightarrow>
      mr_residual r = uint boot_raw - uint now_raw - (uint now_live - uint boot_live) - uint onetime \<and>
      (mr_flagged r \<longleftrightarrow>
        uint tol < \<bar>uint boot_raw - uint now_raw - (uint now_live - uint boot_live) - uint onetime\<bar>))"
proof -
  define a b c d e t where "a = mem_i64_clamp boot_raw" and "b = mem_i64_clamp now_raw"
    and "c = mem_i64_clamp boot_live" and "d = mem_i64_clamp now_live" and "e = mem_i64_clamp onetime"
    and "t = mem_i64_clamp tol"
  have rng: "0 \<le> a" "a \<le> i64_max" "0 \<le> b" "b \<le> i64_max" "0 \<le> c" "c \<le> i64_max" "0 \<le> d" "d \<le> i64_max"
      "0 \<le> e" "e \<le> i64_max" "0 \<le> t" "t \<le> i64_max"
    unfolding a_def b_def c_def d_def e_def t_def using mem_i64_clamp_range by blast+
  define x where "x = mem_i64_sat_add (d - c) e"
  have x: "x = max (- i64_max) (min i64_max (d - c + e))"
    unfolding x_def using rng by (intro mem_i64_sat_add_spec) simp_all
  then have xr: "- i64_max \<le> x" "x \<le> i64_max" by simp_all
  define y where "y = mem_i64_sat_add (a - b) (- x)"
  have y: "y = max (- i64_max) (min i64_max (a - b + - x))"
    unfolding y_def using rng xr by (intro mem_i64_sat_add_spec) simp_all
  then have yr: "- i64_max \<le> y" "y \<le> i64_max" by simp_all
  have r: "mem_reconcile_compute boot_raw now_raw boot_live now_live onetime tol =
      \<lparr>mr_observed_delta = a - b, mr_census_growth = d - c, mr_explained = x, mr_residual = y,
       mr_flagged = ((if y < 0 then - y else y) > t)\<rparr>"
    by (simp add: mem_reconcile_compute_def Let_def a_def b_def c_def d_def e_def t_def x_def y_def)
  have small: "mem_i64_clamp v = uint v" if "uint v < 2 ^ 61" for v
    using that by (simp add: mem_i64_clamp_def)
  have "y = a - b - (d - c) - e" if "a < 2 ^ 61" "b < 2 ^ 61" "c < 2 ^ 61" "d < 2 ^ 61" "e < 2 ^ 61"
  proof -
    have "x = d - c + e" unfolding x using that rng by simp
    then show ?thesis unfolding y using that rng by simp
  qed
  then show ?thesis
    unfolding r Let_def using rng xr yr small by (auto simp: a_def b_def c_def d_def e_def t_def abs_if)
qed

theorem reconcile_exact_witness:
  "let r = mem_reconcile_compute 1000 400 50 150 200 100 in mr_residual r = 300 \<and> mr_flagged r"
  using reconcile_exact [of 1000 400 50 150 200 100] by (simp add: Let_def)

subsection \<open>The injection spec\<close>

lemma mem_prefix_match_iff: "mem_prefix_match s p = Some r \<longleftrightarrow> s = p @ r"
  by (induction s p rule: mem_prefix_match.induct) auto

fun decimal :: "nat \<Rightarrow> string \<Rightarrow> nat" where
  "decimal n [] = n"
| "decimal n (c # cs) = decimal (n * 10 + digit_val c) cs"

lemma decimal_mono: "n \<le> decimal n ds"
proof (induction ds arbitrary: n)
  case (Cons c ds)
  have "n \<le> n * 10 + digit_val c" by simp
  also have "\<dots> \<le> decimal (n * 10 + digit_val c) ds" by (rule Cons.IH)
  finally show ?case by simp
qed simp

lemma trim_digits_spec:
  "unat n \<le> 4294967295 \<Longrightarrow>
   trim_digits n ds = (if list_all is_digit ds \<and> decimal (unat n) ds \<le> 4294967295
     then Some (of_nat (decimal (unat n) ds)) else None)"
proof (induction ds arbitrary: n)
  case (Cons c ds)
  define n' where "n' = n * 10 + of_nat (digit_val c)"
  show ?case
  proof (cases "is_digit c")
    case True
    then have d: "digit_val c \<le> 9" unfolding is_digit_def digit_val_def by linarith
    have u: "unat n' = unat n * 10 + digit_val c"
      using Cons.prems d by (simp add: n'_def unat_word_ariths unat_of_nat take_bit_eq_mod)
    show ?thesis
    proof (cases "n' > 4294967295")
      case True
      then have "\<not> unat n * 10 + digit_val c \<le> 4294967295" using u by (simp add: word_less_nat_alt)
      then have "\<not> decimal (unat n * 10 + digit_val c) ds \<le> 4294967295"
        using decimal_mono [of "unat n * 10 + digit_val c" ds] by linarith
      then show ?thesis using True by (simp add: n'_def [symmetric])
    next
      case False
      then have "unat n' \<le> 4294967295" by (simp add: word_less_nat_alt not_less)
      from Cons.IH [OF this] show ?thesis
        using False True u by (simp add: n'_def [symmetric])
    qed
  qed simp
qed simp

text \<open>
  The spec parser accepts exactly its grammar: \<open>unmap:\<close> or \<open>release:\<close> followed by
  one or more decimal digits whose value lies between 1 and \<open>2^32 - 1\<close>, and returns that
  value; every other string, and every longer number, is refused, with no
  overflow on the way.
\<close>

theorem trim_inject_parse_iff:
  "trim_inject_parse (Some s) = Some (site, n) \<longleftrightarrow>
     (\<exists>ds. (site = TRIM_INJECT_UNMAP \<and> s = ''unmap:'' @ ds \<or> site = TRIM_INJECT_RELEASE \<and> s = ''release:'' @ ds) \<and>
        ds \<noteq> [] \<and> list_all is_digit ds \<and> 0 < decimal 0 ds \<and> decimal 0 ds < 2 ^ 32 \<and> n = of_nat (decimal 0 ds))"
proof -
  have val: "(if ds = [] \<or> \<not> is_digit (hd ds) then None
      else case trim_digits 0 ds of None \<Rightarrow> None | Some m \<Rightarrow> if m = 0 then None else Some (st, ucast m)) =
    Some (site, n) \<longleftrightarrow> st = site \<and> ds \<noteq> [] \<and> list_all is_digit ds \<and> 0 < decimal 0 ds \<and>
      decimal 0 ds < 2 ^ 32 \<and> n = of_nat (decimal 0 ds)" for ds st
  proof (cases "list_all is_digit ds \<and> decimal 0 ds \<le> 4294967295")
    case True
    then have t: "trim_digits 0 ds = Some (of_nat (decimal 0 ds))" using trim_digits_spec [of 0 ds] by simp
    have z: "(of_nat (decimal 0 ds) :: u64) = 0 \<longleftrightarrow> decimal 0 ds = 0"
    proof -
      have "unat (of_nat (decimal 0 ds) :: u64) = decimal 0 ds"
        using True by (simp add: unat_of_nat take_bit_eq_mod)
      then show ?thesis by (metis unat_eq_zero)
    qed
    have u: "(ucast (of_nat (decimal 0 ds) :: u64) :: u32) = of_nat (decimal 0 ds)"
      using True by (simp add: unsigned_of_nat take_bit_nat_eq_self)
    show ?thesis using True t z u by (cases ds) auto
  next
    case False
    then have "trim_digits 0 ds = None" using trim_digits_spec [of 0 ds] by simp
    then show ?thesis using False by auto
  qed
  show ?thesis
  proof (cases "mem_prefix_match s ''unmap:''")
    case (Some ds)
    then have "s = ''unmap:'' @ ds" by (simp add: mem_prefix_match_iff)
    then show ?thesis using Some val [of ds TRIM_INJECT_UNMAP] by (auto simp: trim_inject_parse_def)
  next
    case None
    then have nu: "s \<noteq> ''unmap:'' @ ds" for ds using mem_prefix_match_iff [of s "''unmap:''" ds] by auto
    show ?thesis
    proof (cases "mem_prefix_match s ''release:''")
      case None2: None
      then have "s \<noteq> ''release:'' @ ds" for ds using mem_prefix_match_iff [of s "''release:''" ds] by auto
      then show ?thesis using None None2 nu by (auto simp: trim_inject_parse_def)
    next
      case (Some ds)
      then have "s = ''release:'' @ ds" by (simp add: mem_prefix_match_iff)
      then show ?thesis using None Some nu val [of ds TRIM_INJECT_RELEASE] by (auto simp: trim_inject_parse_def)
    qed
  qed
qed

end
