(* ===== verification/Mem_Gov.thy ===== *)
theory Mem_Gov
  imports Mem_Census
begin

section \<open>The shadow governor\<close>

text \<open>
  \<open>ds4_mem_gov.h\<close>: leases, claims and quotes, the checked requester-aware evaluator, the
  comparison of its verdict with the live one, and the mode vocabulary. The C pointers to
  ledger, observation and claim are never null at the call sites and are values here; the
  enumerations that travel as \<open>int\<close> and are range-checked by the code stay integers.
\<close>

subsection \<open>Types\<close>

datatype gov_consumer = GOVC_ENGINE_BOOT | GOVC_PREWARM | GOVC_BATCH_BANK_PLAN | GOVC_SERIAL_SESSION
  | GOVC_STATIC_BATCH

definition GOVC_COUNT :: nat where "GOVC_COUNT = 5"

record gov_lease =
  gl_intent :: u64
  gl_resident :: u64
  gl_reservation :: u64

record gov_ledger =
  lg_lease :: "gov_lease list"
  lg_floor_bytes :: u64
  lg_substrate_outstanding :: u64
  lg_epoch :: u64

record gov_claim =
  cl_requester :: int
  cl_memc :: int
  cl_domain :: int
  cl_proposed_outstanding :: u64
  cl_operation_transient :: u64
  cl_class_limit :: u64

datatype gov_status = GOV_ADMIT | GOV_REFUSE_CLASS | GOV_REFUSE_LIVE | GOV_RETRY_OBS | GOV_UNSUPPORTED | GOV_FAULT

datatype gov_cmp = GOV_CMP_AGREE | GOV_CMP_LIVE_STRICTER | GOV_CMP_SHADOW_STRICTER | GOV_CMP_VERDICT_CLASS
  | GOV_CMP_OBS_POLICY | GOV_CMP_FAULT

definition gov_compare :: "gov_status \<Rightarrow> gov_status \<Rightarrow> gov_cmp" where
  "gov_compare live_status shadow_status =
     (if shadow_status = GOV_FAULT then GOV_CMP_FAULT
      else if shadow_status = GOV_RETRY_OBS \<or> shadow_status = GOV_UNSUPPORTED then GOV_CMP_OBS_POLICY
      else if live_status = shadow_status then GOV_CMP_AGREE
      else if live_status = GOV_ADMIT then GOV_CMP_SHADOW_STRICTER
      else if shadow_status = GOV_ADMIT then GOV_CMP_LIVE_STRICTER
      else GOV_CMP_VERDICT_CLASS)"

datatype gov_mode = GOV_MODE_OFF | GOV_MODE_OBSERVE | GOV_MODE_ENFORCE

text \<open>\<open>None\<close> is the result -1. The byte after the end of the string is its terminator.\<close>

definition c_char :: "string \<Rightarrow> nat \<Rightarrow> char" where
  "c_char s i = (if i < length s then s ! i else CHR 0x00)"

function gov_mode_match :: "string \<Rightarrow> string \<Rightarrow> nat \<Rightarrow> bool" where
  "gov_mode_match t s i =
     (if i > length t then False
      else if c_char t i \<noteq> c_char s i then False
      else if c_char t i = CHR 0x00 then True
      else gov_mode_match t s (Suc i))"
  by pat_completeness auto
termination
  by (relation "measure (\<lambda>(t, s, i). Suc (length t) - i)") auto

declare gov_mode_match.simps [simp del]

definition gov_mode_parse :: "string option \<Rightarrow> gov_mode option" where
  "gov_mode_parse s =
     (case s of None \<Rightarrow> None
      | Some s \<Rightarrow>
          if c_char s 0 = CHR ''o'' \<and> c_char s 1 = CHR ''f'' \<and> c_char s 2 = CHR ''f'' \<and> c_char s 3 = CHR 0x00
          then Some GOV_MODE_OFF
          else if c_char s 0 = CHR ''o'' \<and> c_char s 1 = CHR ''b''
          then if gov_mode_match ''observe'' s 0 then Some GOV_MODE_OBSERVE else None
          else if c_char s 0 = CHR ''e'' \<and> c_char s 1 = CHR ''n''
          then if gov_mode_match ''enforce'' s 0 then Some GOV_MODE_ENFORCE else None
          else None)"

fun gov_mode_name :: "gov_mode \<Rightarrow> string" where
  "gov_mode_name GOV_MODE_OFF = ''off''"
| "gov_mode_name GOV_MODE_OBSERVE = ''observe''"
| "gov_mode_name GOV_MODE_ENFORCE = ''enforce''"

record gov_quote =
  gq_status :: gov_status
  gq_retryable :: bool
  gq_requester :: int
  gq_memc :: int
  gq_domain :: int
  gq_obs_status :: mem_obs_status
  gq_obs_source :: mem_obs_source
  gq_obs_free :: u64
  gq_obs_total :: u64
  gq_class_limit :: u64
  gq_proposed_class_bytes :: u64
  gq_floor_bytes :: u64
  gq_other_reservations :: u64
  gq_substrate_outstanding :: u64
  gq_old_intent :: u64
  gq_proposed_intent :: u64
  gq_total_prospective_intent :: u64
  gq_operation_transient :: u64
  gq_available :: u64
  gq_required :: u64
  gq_deficit :: u64
  gq_epoch :: u64

definition gov_quote_zero :: gov_quote where
  "gov_quote_zero = \<lparr>gq_status = GOV_ADMIT, gq_retryable = False, gq_requester = 0, gq_memc = 0, gq_domain = 0,
     gq_obs_status = MEMOBS_OK, gq_obs_source = MEMOBS_SRC_NONE, gq_obs_free = 0, gq_obs_total = 0,
     gq_class_limit = 0, gq_proposed_class_bytes = 0, gq_floor_bytes = 0, gq_other_reservations = 0,
     gq_substrate_outstanding = 0, gq_old_intent = 0, gq_proposed_intent = 0, gq_total_prospective_intent = 0,
     gq_operation_transient = 0, gq_available = 0, gq_required = 0, gq_deficit = 0, gq_epoch = 0\<rparr>"

subsection \<open>Operations\<close>

definition gov_lease_publish :: "gov_ledger \<Rightarrow> int \<Rightarrow> u64 \<Rightarrow> u64 \<Rightarrow> u64 \<Rightarrow> u64 \<Rightarrow> bool \<times> gov_ledger \<times> u64" where
  "gov_lease_publish lg consumer intent resident reservation faults =
     (if consumer < 0 \<or> consumer \<ge> int GOVC_COUNT \<or> resident > intent then (False, lg, faults + 1)
      else (True, lg\<lparr>lg_lease := (lg_lease lg)[nat consumer :=
          \<lparr>gl_intent = intent, gl_resident = resident, gl_reservation = reservation\<rparr>]\<rparr>, faults))"

text \<open>
  The loop over the leases: reservations of others, unfunded intent of others, total
  prospective intent and overflow faults; \<open>None\<close> is the early return on a corrupt lease.
\<close>

fun gov_sums :: "int \<Rightarrow> u64 \<Rightarrow> int \<Rightarrow> gov_lease list \<Rightarrow> u64 \<times> u64 \<times> u64 \<times> u64 \<Rightarrow> u64 \<times> u64 \<times> u64 \<times> u64 \<times> bool" where
  "gov_sums req proposed c [] (other, unf, tot, ovf) = (other, unf, tot, ovf, True)"
| "gov_sums req proposed c (l # ls) (other, unf, tot, ovf) =
     (if gl_resident l > gl_intent l then (other, unf, tot, ovf, False)
      else let (other1, ovf1) = (if c \<noteq> req then mem_sat_add other (gl_reservation l) ovf else (other, ovf));
               (unf1, ovf2) = (if c \<noteq> req then mem_sat_add unf (gl_intent l - gl_resident l) ovf1 else (unf, ovf1));
               (tot1, ovf3) = mem_sat_add tot (if c = req then proposed else gl_intent l) ovf2
           in gov_sums req proposed (c + 1) ls (other1, unf1, tot1, ovf3))"

definition gov_evaluate :: "gov_ledger \<Rightarrow> mem_observation \<Rightarrow> gov_claim \<Rightarrow> gov_quote" where
  "gov_evaluate lg obs cl =
     (if cl_requester cl < 0 \<or> cl_requester cl \<ge> int GOVC_COUNT \<or> cl_memc cl < 0 \<or> cl_memc cl \<ge> MEMC_COUNT \<or>
         cl_domain cl < 0 \<or> cl_domain cl \<ge> MEMD_COUNT
      then gov_quote_zero\<lparr>gq_status := GOV_FAULT\<rparr>
      else let q0 = gov_quote_zero\<lparr>gq_requester := cl_requester cl, gq_memc := cl_memc cl,
             gq_domain := cl_domain cl, gq_epoch := lg_epoch lg, gq_obs_status := mo_status obs,
             gq_obs_source := mo_source obs, gq_class_limit := cl_class_limit cl,
             gq_proposed_class_bytes := cl_proposed_outstanding cl, gq_floor_bytes := lg_floor_bytes lg,
             gq_substrate_outstanding := lg_substrate_outstanding lg,
             gq_operation_transient := cl_operation_transient cl,
             gq_old_intent := gl_intent (lg_lease lg ! nat (cl_requester cl)),
             gq_proposed_intent := cl_proposed_outstanding cl\<rparr>;
           (other, unf, tot, ovf, sane) = gov_sums (cl_requester cl) (cl_proposed_outstanding cl) 0
             (lg_lease lg) (0, 0, 0, 0);
           q1 = q0\<lparr>gq_other_reservations := other, gq_total_prospective_intent := tot\<rparr> in
      if \<not> sane then q1\<lparr>gq_status := GOV_FAULT\<rparr>
      else if ovf \<noteq> 0 then q1\<lparr>gq_status := GOV_FAULT\<rparr>
      else if mo_status obs = MEMOBS_UNSUPPORTED then q1\<lparr>gq_status := GOV_UNSUPPORTED\<rparr>
      else if mo_status obs \<noteq> MEMOBS_OK then q1\<lparr>gq_status := GOV_RETRY_OBS, gq_retryable := True\<rparr>
      else let q2 = q1\<lparr>gq_obs_free := mo_free_bytes obs, gq_obs_total := mo_total_bytes obs,
             gq_available := mo_free_bytes obs\<rparr> in
      if cl_class_limit cl \<noteq> 0 \<and> cl_proposed_outstanding cl > cl_class_limit cl
      then q2\<lparr>gq_status := GOV_REFUSE_CLASS\<rparr>
      else let resident = gl_resident (lg_lease lg ! nat (cl_requester cl));
               unfunded = (if cl_proposed_outstanding cl > resident then cl_proposed_outstanding cl - resident else 0);
               (r1, o1) = mem_sat_add (lg_floor_bytes lg) (lg_substrate_outstanding lg) ovf;
               (r2, o2) = mem_sat_add r1 other o1;
               (r3, o3) = mem_sat_add r2 unf o2;
               (r4, o4) = mem_sat_add r3 unfunded o3;
               (r5, o5) = mem_sat_add r4 (cl_operation_transient cl) o4;
               q3 = q2\<lparr>gq_required := r5\<rparr> in
      if o5 \<noteq> 0 then q3\<lparr>gq_status := GOV_FAULT\<rparr>
      else if mo_free_bytes obs \<ge> r5 then q3\<lparr>gq_status := GOV_ADMIT\<rparr>
      else q3\<lparr>gq_status := GOV_REFUSE_LIVE, gq_retryable := True, gq_deficit := r5 - mo_free_bytes obs\<rparr>)"

subsection \<open>Checked sums\<close>

text \<open>How one saturating addition moves the fault count, and that an unmoved count means an exact sum.\<close>

lemma sat_add_count:
  assumes "mem_sat_add a b f = (v, g)" and "unat f + 1 < 2 ^ 64"
  shows "unat f \<le> unat g \<and> unat g \<le> unat f + 1 \<and>
    (unat g = unat f \<longleftrightarrow> unat a + unat b < 2 ^ 64) \<and> (unat g = unat f \<longrightarrow> unat v = unat a + unat b)"
proof -
  have "unat (f + 1) = unat f + 1" using assms(2) by (subst unat_add_exact) simp_all
  then show ?thesis
    using assms(1) by (cases rule: sat_add_cases [of a b f]) auto
qed

fun gov_weigh :: "(gov_lease \<Rightarrow> nat) \<Rightarrow> nat \<Rightarrow> int \<Rightarrow> int \<Rightarrow> gov_lease list \<Rightarrow> nat" where
  "gov_weigh g own req c [] = 0"
| "gov_weigh g own req c (l # ls) = (if c = req then own else g l) + gov_weigh g own req (c + 1) ls"

lemma gov_weigh_sum:
  "gov_weigh g own req c ls = (\<Sum>i<length ls. if c + int i = req then own else g (ls ! i))"
proof (induction ls arbitrary: c)
  case (Cons l ls)
  have "(\<Sum>i<length (l # ls). if c + int i = req then own else g ((l # ls) ! i)) =
      (if c = req then own else g l) + (\<Sum>i<length ls. if c + int (Suc i) = req then own else g (ls ! i))"
    by (simp only: length_Cons sum.lessThan_Suc_shift nth_Cons_0 nth_Cons_Suc) simp
  also have "(\<Sum>i<length ls. if c + int (Suc i) = req then own else g (ls ! i)) = gov_weigh g own req (c + 1) ls"
    unfolding Cons.IH by (simp add: algebra_simps)
  finally show ?case by simp
qed simp

text \<open>
  An accumulator against the exact total it stands for. \<open>gov_exact\<close> says that the fault
  count moved exactly when one of the three totals leaves the range, and that otherwise the
  accumulators hold them.
\<close>

definition gov_exact :: "nat \<Rightarrow> nat \<Rightarrow> nat \<Rightarrow> u64 \<Rightarrow> u64 \<times> u64 \<times> u64 \<times> u64 \<times> bool \<Rightarrow> bool" where
  "gov_exact A B C f r = (case r of (a, b, c, g, sane) \<Rightarrow> sane \<and> unat f \<le> unat g \<and>
     (unat g = unat f \<longleftrightarrow> A < 2 ^ 64 \<and> B < 2 ^ 64 \<and> C < 2 ^ 64) \<and>
     (unat g = unat f \<longrightarrow> unat a = A \<and> unat b = B \<and> unat c = C))"

lemma gov_sums_exact:
  assumes "\<forall>l \<in> set ls. gl_resident l \<le> gl_intent l" and "unat ovf + 3 * length ls + 3 < 2 ^ 64"
  shows "gov_exact (unat other + gov_weigh (\<lambda>l. unat (gl_reservation l)) 0 req c ls)
    (unat unf + gov_weigh (\<lambda>l. unat (gl_intent l) - unat (gl_resident l)) 0 req c ls)
    (unat tot + gov_weigh (\<lambda>l. unat (gl_intent l)) (unat proposed) req c ls) ovf
    (gov_sums req proposed c ls (other, unf, tot, ovf))"
  using assms
proof (induction ls arbitrary: c other unf tot ovf)
  case Nil
  have "unat other < 2 ^ 64" "unat unf < 2 ^ 64" "unat tot < 2 ^ 64"
    using unat_u64_bound [of other] unat_u64_bound [of unf] unat_u64_bound [of tot] by simp_all
  then show ?case by (simp add: gov_exact_def)
next
  case (Cons l ls)
  have sane: "gl_resident l \<le> gl_intent l" using Cons.prems(1) by simp
  define res where "res = (if c = req then 0 else gl_reservation l)"
  define deb where "deb = (if c = req then 0 else gl_intent l - gl_resident l)"
  define int' where "int' = (if c = req then proposed else gl_intent l)"
  have zero: "mem_sat_add x 0 f = (x, f)" for x f by (simp add: mem_sat_add_def)
  obtain o1 f1 where a1: "mem_sat_add other res ovf = (o1, f1)" by fastforce
  obtain u1 f2 where a2: "mem_sat_add unf deb f1 = (u1, f2)" by fastforce
  obtain t1 f3 where a3: "mem_sat_add tot int' f2 = (t1, f3)" by fastforce
  have step: "gov_sums req proposed c (l # ls) (other, unf, tot, ovf) =
      gov_sums req proposed (c + 1) ls (o1, u1, t1, f3)"
    using sane a1 a2 a3 zero by (cases "c = req") (simp_all add: res_def deb_def int'_def Let_def leD)
  have c1: "unat ovf \<le> unat f1" "unat f1 \<le> unat ovf + 1" "unat f1 = unat ovf \<longleftrightarrow> unat other + unat res < 2 ^ 64"
      "unat f1 = unat ovf \<Longrightarrow> unat o1 = unat other + unat res"
    using sat_add_count [OF a1] Cons.prems(2) by simp_all
  have c2: "unat f1 \<le> unat f2" "unat f2 \<le> unat f1 + 1" "unat f2 = unat f1 \<longleftrightarrow> unat unf + unat deb < 2 ^ 64"
      "unat f2 = unat f1 \<Longrightarrow> unat u1 = unat unf + unat deb"
    using sat_add_count [OF a2] c1 Cons.prems(2) by simp_all
  have c3: "unat f2 \<le> unat f3" "unat f3 \<le> unat f2 + 1" "unat f3 = unat f2 \<longleftrightarrow> unat tot + unat int' < 2 ^ 64"
      "unat f3 = unat f2 \<Longrightarrow> unat t1 = unat tot + unat int'"
    using sat_add_count [OF a3] c1 c2 Cons.prems(2) by simp_all
  let ?R = "gov_weigh (\<lambda>l. unat (gl_reservation l)) 0 req (c + 1) ls"
  let ?U = "gov_weigh (\<lambda>l. unat (gl_intent l) - unat (gl_resident l)) 0 req (c + 1) ls"
  let ?T = "gov_weigh (\<lambda>l. unat (gl_intent l)) (unat proposed) req (c + 1) ls"
  have ih: "gov_exact (unat o1 + ?R) (unat u1 + ?U) (unat t1 + ?T) f3
      (gov_sums req proposed (c + 1) ls (o1, u1, t1, f3))"
    using Cons.prems c1 c2 c3 by (intro Cons.IH) simp_all
  have w: "gov_weigh (\<lambda>l. unat (gl_reservation l)) 0 req c (l # ls) = unat res + ?R"
      "gov_weigh (\<lambda>l. unat (gl_intent l) - unat (gl_resident l)) 0 req c (l # ls) = unat deb + ?U"
      "gov_weigh (\<lambda>l. unat (gl_intent l)) (unat proposed) req c (l # ls) = unat int' + ?T"
    using sane by (simp_all add: res_def deb_def int'_def unat_sub)
  show ?case
    unfolding step w
  proof (cases "unat f3 = unat ovf")
    case True
    then have "unat f1 = unat ovf" "unat f2 = unat f1" "unat f3 = unat f2" using c1 c2 c3 by linarith+
    then have "unat o1 = unat other + unat res" "unat u1 = unat unf + unat deb" "unat t1 = unat tot + unat int'"
      using c1 c2 c3 by blast+
    then show "gov_exact (unat other + (unat res + ?R)) (unat unf + (unat deb + ?U)) (unat tot + (unat int' + ?T))
        ovf (gov_sums req proposed (c + 1) ls (o1, u1, t1, f3))"
      using ih True by (simp add: gov_exact_def add.assoc split: prod.splits)
  next
    case False
    then have big: "\<not> (unat other + unat res < 2 ^ 64 \<and> unat unf + unat deb < 2 ^ 64 \<and> unat tot + unat int' < 2 ^ 64)"
      using c1 c2 c3 by linarith
    have "unat ovf < unat f3" using False c1 c2 c3 by linarith
    then show "gov_exact (unat other + (unat res + ?R)) (unat unf + (unat deb + ?U)) (unat tot + (unat int' + ?T))
        ovf (gov_sums req proposed (c + 1) ls (o1, u1, t1, f3))"
      using ih big by (auto simp: gov_exact_def split: prod.splits)
  qed
qed

lemma sat_chain:
  assumes "mem_sat_add a b 0 = (v1, g1)" and "mem_sat_add v1 c g1 = (v2, g2)" and "mem_sat_add v2 d g2 = (v3, g3)"
    and "mem_sat_add v3 e g3 = (v4, g4)" and "mem_sat_add v4 f g4 = (v5, g5)"
  shows "(g5 = 0 \<longleftrightarrow> unat a + unat b + unat c + unat d + unat e + unat f < 2 ^ 64) \<and>
    (g5 = 0 \<longrightarrow> unat v5 = unat a + unat b + unat c + unat d + unat e + unat f)"
proof -
  note 1 = sat_add_count [OF assms(1)]
  have g1: "unat g1 \<le> 1" using 1 by simp
  note 2 = sat_add_count [OF assms(2)]
  have g2: "unat g2 \<le> 2" using 2 g1 by simp
  note 3 = sat_add_count [OF assms(3)]
  have g3: "unat g3 \<le> 3" using 3 g2 by simp
  note 4 = sat_add_count [OF assms(4)]
  have g4: "unat g4 \<le> 4" using 4 g3 by simp
  note 5 = sat_add_count [OF assms(5)]
  have z: "g5 = 0 \<longleftrightarrow> unat g5 = 0" by (simp add: unat_eq_zero)
  let ?s = "unat a + unat b + unat c + unat d + unat e + unat f"
  have exact: "unat v5 = ?s \<and> ?s < 2 ^ 64" if "unat g5 = 0"
  proof -
    have "unat g4 = 0" "unat g3 = 0" "unat g2 = 0" "unat g1 = 0" using that 2 3 4 5 g1 g2 g3 g4 by simp_all
    then show ?thesis using that 1 2 3 4 5 by simp
  qed
  have "unat g5 = 0" if "?s < 2 ^ 64"
  proof -
    have e1: "unat g1 = 0" "unat v1 = unat a + unat b" using that 1 by simp_all
    have e2: "unat g2 = 0" "unat v2 = unat v1 + unat c" using that 2 e1 by simp_all
    have e3: "unat g3 = 0" "unat v3 = unat v2 + unat d" using that 3 e1 e2 by simp_all
    have e4: "unat g4 = 0" "unat v4 = unat v3 + unat e" using that 4 e1 e2 e3 by simp_all
    show ?thesis using that 5 e1 e2 e3 e4 by simp
  qed
  then show ?thesis unfolding z using exact by blast
qed

lemma gov_weigh_others:
  assumes "r < length ls"
  shows "gov_weigh g own (int r) 0 ls = own + (\<Sum>i<length ls. if i = r then 0 else g (ls ! i))"
proof -
  have "(\<Sum>i<length ls. if i = r then own else g (ls ! i)) =
      (\<Sum>i<length ls. if i = r then own else 0) + (\<Sum>i<length ls. if i = r then 0 else g (ls ! i))"
    unfolding sum.distrib [symmetric] by (rule sum.cong) simp_all
  also have "(\<Sum>i<length ls. if i = r then own else 0) = own" using assms by simp
  finally show ?thesis by (simp add: gov_weigh_sum)
qed

text \<open>The evaluator once the sums over the leases and the chain of the live test are known.\<close>

lemma gov_evaluate_run:
  assumes "0 \<le> cl_requester cl" and "cl_requester cl < int GOVC_COUNT" and "0 \<le> cl_memc cl"
    and "cl_memc cl < MEMC_COUNT" and "0 \<le> cl_domain cl" and "cl_domain cl < MEMD_COUNT"
    and sums: "gov_sums (cl_requester cl) (cl_proposed_outstanding cl) 0 (lg_lease lg) (0, 0, 0, 0) =
      (other, unf, tot, ovf, True)"
    and c1: "mem_sat_add (lg_floor_bytes lg) (lg_substrate_outstanding lg) ovf = (v1, g1)"
    and c2: "mem_sat_add v1 other g1 = (v2, g2)" and c3: "mem_sat_add v2 unf g2 = (v3, g3)"
    and c4: "mem_sat_add v3 (if cl_proposed_outstanding cl > gl_resident (lg_lease lg ! nat (cl_requester cl))
        then cl_proposed_outstanding cl - gl_resident (lg_lease lg ! nat (cl_requester cl)) else 0) g3 = (v4, g4)"
    and c5: "mem_sat_add v4 (cl_operation_transient cl) g4 = (v5, g5)"
  shows "gq_status (gov_evaluate lg obs cl) =
      (if ovf \<noteq> 0 then GOV_FAULT
       else if mo_status obs = MEMOBS_UNSUPPORTED then GOV_UNSUPPORTED
       else if mo_status obs \<noteq> MEMOBS_OK then GOV_RETRY_OBS
       else if cl_class_limit cl \<noteq> 0 \<and> cl_class_limit cl < cl_proposed_outstanding cl then GOV_REFUSE_CLASS
       else if g5 \<noteq> 0 then GOV_FAULT
       else if v5 \<le> mo_free_bytes obs then GOV_ADMIT else GOV_REFUSE_LIVE)"
    and "gq_status (gov_evaluate lg obs cl) = GOV_REFUSE_LIVE \<Longrightarrow>
      gq_retryable (gov_evaluate lg obs cl) \<and> gq_deficit (gov_evaluate lg obs cl) = v5 - mo_free_bytes obs \<and>
      mo_free_bytes obs < v5 \<and> g5 = 0 \<and> ovf = 0"
  using assms(1-6) unfolding gov_evaluate_def Let_def sums prod.case c1 c2 c3 c4 c5
  by (auto simp: gov_quote_zero_def not_le dest: leD split: if_splits)

text \<open>
  C11. The evaluator decides by exact arithmetic. For a claim in range against a ledger of
  sane leases, the verdict of \<open>ds4_gov_evaluate\<close> is the one unbounded arithmetic gives: a
  fault exactly when a sum leaves 64 bits, then the observation policy, then the class cap,
  then the live test of floor, substrate, the other consumers' reservations and unfunded
  intents, the claimant's own unfunded spend and its transient against the free bytes.
  A refused claim carries the exact deficit, so nothing is admitted by wrap-around, and
  the claimant's own reservation is not charged to it.
\<close>

theorem gov_evaluate_exact:
  assumes "length (lg_lease lg) = GOVC_COUNT" and "\<forall>l \<in> set (lg_lease lg). gl_resident l \<le> gl_intent l"
    and "0 \<le> cl_requester cl" and "cl_requester cl < int GOVC_COUNT" and "0 \<le> cl_memc cl"
    and "cl_memc cl < MEMC_COUNT" and "0 \<le> cl_domain cl" and "cl_domain cl < MEMD_COUNT"
  shows "let r = nat (cl_requester cl);
      others = (\<lambda>g. \<Sum>i<GOVC_COUNT. if i = r then 0 else g (lg_lease lg ! i));
      proposed = unat (cl_proposed_outstanding cl);
      reserved = others (\<lambda>l. unat (gl_reservation l));
      debt = others (\<lambda>l. unat (gl_intent l) - unat (gl_resident l));
      prospective = proposed + others (\<lambda>l. unat (gl_intent l));
      need = unat (lg_floor_bytes lg) + unat (lg_substrate_outstanding lg) + reserved + debt +
        (proposed - unat (gl_resident (lg_lease lg ! r))) + unat (cl_operation_transient cl);
      q = gov_evaluate lg obs cl
    in gq_status q =
        (if 2 ^ 64 \<le> reserved \<or> 2 ^ 64 \<le> debt \<or> 2 ^ 64 \<le> prospective then GOV_FAULT
         else if mo_status obs = MEMOBS_UNSUPPORTED then GOV_UNSUPPORTED
         else if mo_status obs \<noteq> MEMOBS_OK then GOV_RETRY_OBS
         else if cl_class_limit cl \<noteq> 0 \<and> unat (cl_class_limit cl) < proposed then GOV_REFUSE_CLASS
         else if 2 ^ 64 \<le> need then GOV_FAULT
         else if need \<le> unat (mo_free_bytes obs) then GOV_ADMIT else GOV_REFUSE_LIVE) \<and>
      (gq_status q = GOV_REFUSE_LIVE \<longrightarrow> gq_retryable q \<and>
        unat (gq_deficit q) = need - unat (mo_free_bytes obs))"
proof -
  define ls where "ls = lg_lease lg"
  define r where "r = nat (cl_requester cl)"
  define pr where "pr = cl_proposed_outstanding cl"
  have rq: "cl_requester cl = int r" "r < length ls" using assms(1,3,4) by (simp_all add: r_def ls_def)
  have len: "length ls = GOVC_COUNT" using assms(1) by (simp add: ls_def)
  define R where "R = (\<Sum>i<GOVC_COUNT. if i = r then 0 else unat (gl_reservation (ls ! i)))"
  define D where "D = (\<Sum>i<GOVC_COUNT. if i = r then 0 else unat (gl_intent (ls ! i)) - unat (gl_resident (ls ! i)))"
  define P where "P = unat pr + (\<Sum>i<GOVC_COUNT. if i = r then 0 else unat (gl_intent (ls ! i)))"
  obtain other unf tot ovf sane where sums: "gov_sums (int r) pr 0 ls (0, 0, 0, 0) = (other, unf, tot, ovf, sane)"
    by (metis prod_cases5)
  have ex: "gov_exact R D P 0 (other, unf, tot, ovf, sane)"
    using gov_sums_exact [of ls 0 0 "int r" 0 0 0 pr] assms(2) sums
    unfolding gov_weigh_others [OF rq(2)] len R_def [symmetric] D_def [symmetric] P_def [symmetric]
    by (simp add: ls_def GOVC_COUNT_def R_def D_def P_def)
  have z: "ovf = 0 \<longleftrightarrow> unat ovf = 0" by (simp add: unat_eq_zero)
  have sane: "sane = True" and ovf: "ovf = 0 \<longleftrightarrow> R < 2 ^ 64 \<and> D < 2 ^ 64 \<and> P < 2 ^ 64"
    and vals: "ovf = 0 \<Longrightarrow> unat other = R \<and> unat unf = D"
    using ex unfolding z by (simp_all add: gov_exact_def)
  define res where "res = gl_resident (ls ! r)"
  define spend where "spend = (if pr > res then pr - res else 0)"
  have spend: "unat spend = unat pr - unat res"
    by (auto simp: spend_def unat_sub less_imp_le word_less_nat_alt word_le_nat_alt)
  obtain v1 g1 where c1: "mem_sat_add (lg_floor_bytes lg) (lg_substrate_outstanding lg) ovf = (v1, g1)" by fastforce
  obtain v2 g2 where c2: "mem_sat_add v1 other g1 = (v2, g2)" by fastforce
  obtain v3 g3 where c3: "mem_sat_add v2 unf g2 = (v3, g3)" by fastforce
  obtain v4 g4 where c4: "mem_sat_add v3 spend g3 = (v4, g4)" by fastforce
  obtain v5 g5 where c5: "mem_sat_add v4 (cl_operation_transient cl) g4 = (v5, g5)" by fastforce
  define N where "N = unat (lg_floor_bytes lg) + unat (lg_substrate_outstanding lg) + R + D +
    (unat pr - unat res) + unat (cl_operation_transient cl)"
  have need: "g5 = 0 \<longleftrightarrow> N < 2 ^ 64" "g5 = 0 \<Longrightarrow> unat v5 = N" if "ovf = 0"
    using sat_chain [OF c1 [unfolded that] c2 c3 c4 c5] vals [OF that] spend by (simp_all add: N_def)
  note run = gov_evaluate_run [OF assms(3-8) sums [unfolded sane pr_def ls_def, folded rq(1)] c1 c2 c3
      c4 [unfolded spend_def pr_def res_def ls_def r_def] c5, of obs]
  have ov: "ovf \<noteq> 0 \<longleftrightarrow> 2 ^ 64 \<le> R \<or> 2 ^ 64 \<le> D \<or> 2 ^ 64 \<le> P" using ovf by auto
  have cap: "cl_class_limit cl < cl_proposed_outstanding cl \<longleftrightarrow> unat (cl_class_limit cl) < unat pr"
    by (simp add: word_less_nat_alt pr_def)
  have st: "gq_status (gov_evaluate lg obs cl) =
      (if 2 ^ 64 \<le> R \<or> 2 ^ 64 \<le> D \<or> 2 ^ 64 \<le> P then GOV_FAULT
       else if mo_status obs = MEMOBS_UNSUPPORTED then GOV_UNSUPPORTED
       else if mo_status obs \<noteq> MEMOBS_OK then GOV_RETRY_OBS
       else if cl_class_limit cl \<noteq> 0 \<and> unat (cl_class_limit cl) < unat pr then GOV_REFUSE_CLASS
       else if 2 ^ 64 \<le> N then GOV_FAULT
       else if N \<le> unat (mo_free_bytes obs) then GOV_ADMIT else GOV_REFUSE_LIVE)"
    unfolding run(1) ov [symmetric] cap using need by (auto simp: word_le_nat_alt)
  have df: "gq_retryable (gov_evaluate lg obs cl) \<and>
      unat (gq_deficit (gov_evaluate lg obs cl)) = N - unat (mo_free_bytes obs)"
    if "gq_status (gov_evaluate lg obs cl) = GOV_REFUSE_LIVE"
    using run(2) [OF that] need by (auto simp: unat_sub less_imp_le)
  show ?thesis
    unfolding Let_def r_def [symmetric] ls_def [symmetric] pr_def [symmetric] R_def [symmetric]
      D_def [symmetric] P_def [symmetric] res_def [symmetric] N_def [symmetric]
    using st df by blast
qed

definition wit_ledger :: gov_ledger where
  "wit_ledger = \<lparr>lg_lease = replicate 5 \<lparr>gl_intent = 100, gl_resident = 60, gl_reservation = 10\<rparr>,
     lg_floor_bytes = 1000, lg_substrate_outstanding = 5, lg_epoch = 2\<rparr>"

definition wit_claim :: gov_claim where
  "wit_claim = \<lparr>cl_requester = 3, cl_memc = 12, cl_domain = 0, cl_proposed_outstanding = 160,
     cl_operation_transient = 7, cl_class_limit = 0\<rparr>"

definition wit_obs :: "u64 \<Rightarrow> mem_observation" where
  "wit_obs n = \<lparr>mo_status = MEMOBS_OK, mo_source = MEMOBS_SRC_CUDA_FREE, mo_free_bytes = n,
     mo_total_bytes = 9000, mo_cuda_free_bytes = 0, mo_meminfo_avail_bytes = 0\<rparr>"

theorem gov_evaluate_exact_witness:
  "gq_status (gov_evaluate wit_ledger (wit_obs 1312) wit_claim) = GOV_ADMIT \<and>
   gq_status (gov_evaluate wit_ledger (wit_obs 1311) wit_claim) = GOV_REFUSE_LIVE"
proof -
  have len: "length (lg_lease wit_ledger) = GOVC_COUNT" by (simp add: wit_ledger_def GOVC_COUNT_def)
  have sane: "\<forall>l \<in> set (lg_lease wit_ledger). gl_resident l \<le> gl_intent l" by (simp add: wit_ledger_def)
  have cl: "0 \<le> cl_requester wit_claim" "cl_requester wit_claim < int GOVC_COUNT" "0 \<le> cl_memc wit_claim"
      "cl_memc wit_claim < MEMC_COUNT" "0 \<le> cl_domain wit_claim" "cl_domain wit_claim < MEMD_COUNT"
    by (simp_all add: wit_claim_def GOVC_COUNT_def MEMC_COUNT_def MEMD_COUNT_def)
  have five: "{..<GOVC_COUNT} = {0, 1, 2, 3, 4}" by (auto simp: GOVC_COUNT_def)
  show ?thesis
    using gov_evaluate_exact [OF len sane cl, of "wit_obs 1312"]
      gov_evaluate_exact [OF len sane cl, of "wit_obs 1311"]
    unfolding Let_def five
    by (simp add: wit_ledger_def wit_claim_def wit_obs_def nth_replicate)
qed

subsection \<open>The mode vocabulary and published leases\<close>

lemma gov_mode_match_eq:
  assumes "CHR 0x00 \<notin> set t" and "CHR 0x00 \<notin> set s" and "i \<le> length t" and "i \<le> length s"
    and "take i t = take i s"
  shows "gov_mode_match t s i \<longleftrightarrow> t = s"
  using assms
proof (induction t s i rule: gov_mode_match.induct)
  case (1 t s i)
  have end0: "c_char t i = CHR 0x00 \<longleftrightarrow> i = length t" "c_char s i = CHR 0x00 \<longleftrightarrow> i = length s"
    using "1.prems"(1-4) by (auto simp: c_char_def dest: nth_mem)
  show ?case
  proof (cases "c_char t i = c_char s i")
    case False
    then have "t \<noteq> s" by auto
    then show ?thesis using False "1.prems"(3) by (simp add: gov_mode_match.simps [of t s i])
  next
    case same: True
    show ?thesis
    proof (cases "c_char t i = CHR 0x00")
      case True
      then have "i = length t" "i = length s" using end0 same by auto
      then show ?thesis
        using same True "1.prems"(5) by (subst gov_mode_match.simps) simp
    next
      case False
      then have l: "i < length t" "i < length s" using end0 same "1.prems"(3,4) by (auto simp: le_less)
      then have "take (Suc i) t = take (Suc i) s"
        using "1.prems"(5) same by (simp add: take_Suc_conv_app_nth c_char_def)
      then have "gov_mode_match t s (Suc i) \<longleftrightarrow> t = s"
        using "1.IH" same False l "1.prems" by simp
      then show ?thesis using same False l by (simp add: gov_mode_match.simps [of t s i])
    qed
  qed
qed

text \<open>
  The mode parser accepts exactly the three names. For a string without embedded
  terminator, \<open>ds4_gov_mode_parse\<close> returns a mode just when the string is that mode's
  name; every other string, prefixes and extensions of the names included, is refused.
\<close>

theorem gov_mode_parse_iff:
  assumes "CHR 0x00 \<notin> set s"
  shows "gov_mode_parse (Some s) = Some m \<longleftrightarrow> s = gov_mode_name m"
proof -
  have off: "c_char s 0 = CHR ''o'' \<and> c_char s 1 = CHR ''f'' \<and> c_char s 2 = CHR ''f'' \<and> c_char s 3 = CHR 0x00
      \<longleftrightarrow> s = ''off''" (is "?l \<longleftrightarrow> ?r")
  proof
    assume l: ?l
    then have "2 < length s" by (auto simp: c_char_def split: if_splits)
    then obtain x y z rest where s: "s = x # y # z # rest"
      by (metis One_nat_def Suc_1 length_Suc_conv less_nat_zero_code list.exhaust list.size(3) not_less_eq)
    then show ?r using l assms by (cases rest) (auto simp: c_char_def)
  qed (simp add: c_char_def)
  have ob: "gov_mode_match ''observe'' s 0 \<longleftrightarrow> s = ''observe''"
    using gov_mode_match_eq [of "''observe''" s 0] assms by auto
  have en: "gov_mode_match ''enforce'' s 0 \<longleftrightarrow> s = ''enforce''"
    using gov_mode_match_eq [of "''enforce''" s 0] assms by auto
  show ?thesis
    unfolding gov_mode_parse_def option.case off ob en
    by (cases m) (auto simp: c_char_def)
qed

theorem gov_mode_parse_iff_witness:
  "gov_mode_parse (Some ''observe'') = Some GOV_MODE_OBSERVE \<and>
   gov_mode_parse (Some ''offx'') \<noteq> Some GOV_MODE_OFF"
  using gov_mode_parse_iff [of "''observe''" GOV_MODE_OBSERVE] gov_mode_parse_iff [of "''offx''" GOV_MODE_OFF]
  by simp

lemma gov_lease_publish_sane:
  assumes "gov_lease_publish lg c i r v f = (ok, lg', f')"
    and "length (lg_lease lg) = GOVC_COUNT" and "\<forall>l \<in> set (lg_lease lg). gl_resident l \<le> gl_intent l"
  shows "length (lg_lease lg') = GOVC_COUNT \<and> (\<forall>l \<in> set (lg_lease lg'). gl_resident l \<le> gl_intent l)"
proof (cases "c < 0 \<or> c \<ge> int GOVC_COUNT \<or> r > i")
  case True
  then show ?thesis using assms by (simp add: gov_lease_publish_def)
next
  case False
  then have lg': "lg' = lg\<lparr>lg_lease := (lg_lease lg)[nat c := \<lparr>gl_intent = i, gl_resident = r, gl_reservation = v\<rparr>]\<rparr>"
    using assms(1) by (simp add: gov_lease_publish_def)
  have "set ((lg_lease lg)[nat c := x]) \<subseteq> insert x (set (lg_lease lg))" for x
    by (rule set_update_subset_insert)
  then show ?thesis using assms(2,3) False by (fastforce simp: lg' not_less)
qed

end
