(* ===== verification/Mem_Seqlock.thy ===== *)
theory Mem_Seqlock
  imports C_Prelude
begin

unbundle bit_operations_syntax

section \<open>The versioned snapshot protocol\<close>

text \<open>
  The epoch functions of \<open>ds4_mem_gov.h\<close> and the protocol they make: a writer brackets its
  stores by \<open>write_begin\<close> and \<open>write_end\<close>, a reader copies the cells one by one between
  \<open>read_begin\<close> and \<open>read_verify\<close>, and every such step may interleave with every other. The
  fences are sequentially consistent, so the steps are atomic and ordered. The writer is
  single, which is the protocol's stated precondition.

  The state has ghost fields for the proof only: how often the epoch was raised, and the
  count and the data at the last \<open>read_begin\<close>.
\<close>

definition gov_epoch_write_begin :: "u64 \<Rightarrow> u64 \<Rightarrow> u64 \<times> u64" where
  "gov_epoch_write_begin epoch faults =
     (epoch + 1, if epoch AND 1 \<noteq> 0 then faults + 1 else faults)"

definition gov_epoch_write_end :: "u64 \<Rightarrow> u64 \<Rightarrow> u64 \<times> u64" where
  "gov_epoch_write_end epoch faults =
     (epoch + 1, if \<not> epoch AND 1 \<noteq> 0 then faults + 1 else faults)"

definition gov_epoch_read_begin :: "u64 \<Rightarrow> u64" where
  "gov_epoch_read_begin epoch = epoch"

definition gov_epoch_read_verify :: "u64 \<Rightarrow> u64 \<Rightarrow> bool" where
  "gov_epoch_read_verify epoch began \<longleftrightarrow> epoch = began \<and> \<not> began AND 1 \<noteq> 0"

datatype reader = Reader_idle | Reader_copying | Reader_accepted | Reader_discarded

record seq_state =
  sq_epoch :: u64
  sq_faults :: u64
  sq_data :: "u64 list"
  sq_writing :: bool
  sq_reader :: reader
  sq_began :: u64
  sq_copy :: "u64 list"
  sq_raised :: nat
  sq_raised_at :: nat
  sq_data_at :: "u64 list"

inductive seq_step :: "seq_state \<Rightarrow> seq_state \<Rightarrow> bool" where
  w_begin: "\<not> sq_writing s \<Longrightarrow> gov_epoch_write_begin (sq_epoch s) (sq_faults s) = (e, f) \<Longrightarrow>
    seq_step s (s\<lparr>sq_epoch := e, sq_faults := f, sq_writing := True, sq_raised := Suc (sq_raised s)\<rparr>)"
| w_store: "sq_writing s \<Longrightarrow> seq_step s (s\<lparr>sq_data := (sq_data s)[i := v]\<rparr>)"
| w_end: "sq_writing s \<Longrightarrow> gov_epoch_write_end (sq_epoch s) (sq_faults s) = (e, f) \<Longrightarrow>
    seq_step s (s\<lparr>sq_epoch := e, sq_faults := f, sq_writing := False, sq_raised := Suc (sq_raised s)\<rparr>)"
| r_begin: "sq_reader s \<noteq> Reader_copying \<Longrightarrow>
    seq_step s (s\<lparr>sq_reader := Reader_copying, sq_began := gov_epoch_read_begin (sq_epoch s), sq_copy := [],
      sq_raised_at := sq_raised s, sq_data_at := sq_data s\<rparr>)"
| r_copy: "sq_reader s = Reader_copying \<Longrightarrow> length (sq_copy s) < length (sq_data s) \<Longrightarrow>
    seq_step s (s\<lparr>sq_copy := sq_copy s @ [sq_data s ! length (sq_copy s)]\<rparr>)"
| r_verify: "sq_reader s = Reader_copying \<Longrightarrow> length (sq_copy s) = length (sq_data s) \<Longrightarrow>
    seq_step s (s\<lparr>sq_reader := (if gov_epoch_read_verify (sq_epoch s) (sq_began s)
      then Reader_accepted else Reader_discarded)\<rparr>)"

definition seq_init :: "u64 list \<Rightarrow> seq_state" where
  "seq_init d = \<lparr>sq_epoch = 0, sq_faults = 0, sq_data = d, sq_writing = False, sq_reader = Reader_idle,
     sq_began = 0, sq_copy = [], sq_raised = 0, sq_raised_at = 0, sq_data_at = d\<rparr>"

definition seq_reachable :: "u64 list \<Rightarrow> seq_state \<Rightarrow> bool" where
  "seq_reachable d s \<longleftrightarrow> seq_step\<^sup>*\<^sup>* (seq_init d) s"

subsection \<open>The invariant\<close>

lemma odd_of_nat: "(of_nat n :: u64) AND 1 \<noteq> 0 \<longleftrightarrow> odd n"
proof -
  have "(of_nat n :: u64) AND 1 = of_nat (n mod 2)"
    by (simp add: and_one_eq mod_2_eq_odd)
  then show ?thesis by (cases "even n") (auto simp: mod_2_eq_odd)
qed

text \<open>
  The epoch is the count of raises, odd exactly while the writer is inside its bracket.
  As long as no raise happened since \<open>read_begin\<close> at an even epoch, the data is what it
  was then and the copy is a prefix of it; an accepted copy is the data of that moment
  unless the epoch went once around.
\<close>

definition seq_inv :: "seq_state \<Rightarrow> bool" where
  "seq_inv s \<longleftrightarrow> sq_epoch s = of_nat (sq_raised s) \<and> (sq_writing s \<longleftrightarrow> odd (sq_raised s)) \<and> sq_faults s = 0 \<and>
     sq_began s = of_nat (sq_raised_at s) \<and> sq_raised_at s \<le> sq_raised s \<and>
     length (sq_data s) = length (sq_data_at s) \<and>
     (sq_reader s = Reader_copying \<and> even (sq_raised_at s) \<and> sq_raised s = sq_raised_at s \<longrightarrow>
        sq_data s = sq_data_at s \<and> take (length (sq_copy s)) (sq_data_at s) = sq_copy s) \<and>
     (sq_reader s = Reader_accepted \<and> sq_raised s < 2 ^ 64 \<longrightarrow>
        sq_copy s = sq_data_at s \<and> even (sq_raised_at s))"

lemma seq_inv_init: "seq_inv (seq_init d)"
  by (simp add: seq_inv_def seq_init_def)

lemma seq_inv_step: "seq_step s t \<Longrightarrow> seq_inv s \<Longrightarrow> seq_inv t"
proof (induction rule: seq_step.induct)
  case (w_begin s e f)
  then have "sq_epoch s AND 1 = 0" using odd_of_nat [of "sq_raised s"] by (auto simp: seq_inv_def)
  then have "e = of_nat (Suc (sq_raised s))" "f = sq_faults s"
    using w_begin by (auto simp: gov_epoch_write_begin_def seq_inv_def)
  then show ?case using w_begin(1,3) by (auto simp: seq_inv_def simp del: of_nat_Suc)
next
  case (w_store s i v)
  then show ?case by (auto simp: seq_inv_def)
next
  case (w_end s e f)
  then have "sq_epoch s AND 1 \<noteq> 0" using odd_of_nat [of "sq_raised s"] by (auto simp: seq_inv_def)
  then have "e = of_nat (Suc (sq_raised s))" "f = sq_faults s"
    using w_end by (auto simp: gov_epoch_write_end_def seq_inv_def)
  then show ?case using w_end(1,3) by (auto simp: seq_inv_def simp del: of_nat_Suc)
next
  case (r_begin s)
  then show ?case by (auto simp: seq_inv_def gov_epoch_read_begin_def)
next
  case (r_copy s)
  then show ?case by (auto simp: seq_inv_def take_Suc_conv_app_nth)
next
  case (r_verify s)
  have "sq_raised s = sq_raised_at s" if "gov_epoch_read_verify (sq_epoch s) (sq_began s)" "sq_raised s < 2 ^ 64"
  proof -
    have "(of_nat (sq_raised s) :: u64) = of_nat (sq_raised_at s)"
      using that(1) r_verify(3) by (auto simp: gov_epoch_read_verify_def seq_inv_def)
    moreover have "unat (of_nat n :: u64) = n" if "n < 2 ^ 64" for n
      using that by (simp add: unat_of_nat take_bit_eq_mod)
    moreover have "sq_raised_at s < 2 ^ 64" using that(2) r_verify(3) by (simp add: seq_inv_def)
    ultimately show ?thesis using that(2) by metis
  qed
  moreover have "even (sq_raised_at s)" if "gov_epoch_read_verify (sq_epoch s) (sq_began s)"
  proof -
    have "sq_began s = of_nat (sq_raised_at s)" using r_verify(3) by (simp add: seq_inv_def)
    moreover have "sq_began s AND 1 = 0" using that by (simp add: gov_epoch_read_verify_def)
    ultimately show ?thesis using odd_of_nat [of "sq_raised_at s"] by simp
  qed
  ultimately show ?case using r_verify by (auto simp: seq_inv_def)
qed

lemma seq_reachable_inv: "seq_reachable d s \<Longrightarrow> seq_inv s"
  unfolding seq_reachable_def
  by (induction rule: rtranclp_induct) (auto intro: seq_inv_init seq_inv_step)

text \<open>
  C32. An accepted snapshot is coherent. In every interleaving of one writer with a reader,
  when \<open>ds4_gov_epoch_read_verify\<close> accepts, the cells the reader copied one by one are
  together exactly the data as it stood at \<open>ds4_gov_epoch_read_begin\<close>, a moment at which
  no write bracket was open, as long as the epoch has not been raised \<open>2^64\<close> times; and
  the single-writer tripwire never fires.
\<close>

theorem accepted_snapshot_coherent:
  assumes "seq_reachable d s"
  shows "sq_faults s = 0 \<and>
    (sq_reader s = Reader_accepted \<and> sq_raised s < 2 ^ 64 \<longrightarrow>
       sq_copy s = sq_data_at s \<and> even (sq_raised_at s))"
  using seq_reachable_inv [OF assms] by (simp add: seq_inv_def)

text \<open>
  A run of the protocol: the reader copies the one cell and verifies, then the writer opens
  a bracket and stores, which leaves the accepted copy as it was.
\<close>

definition wit_accepted :: seq_state where
  "wit_accepted = (seq_init [7])\<lparr>sq_reader := Reader_accepted, sq_copy := [7]\<rparr>"

lemma wit_accepted_reachable: "seq_reachable [7] wit_accepted"
proof -
  define a where "a = (seq_init [7])\<lparr>sq_reader := Reader_copying\<rparr>"
  have "seq_step (seq_init [7]) a"
    using seq_step.r_begin [of "seq_init [7]"] by (simp add: a_def seq_init_def gov_epoch_read_begin_def)
  moreover have "seq_step a (a\<lparr>sq_copy := [7]\<rparr>)"
    using seq_step.r_copy [of a] by (simp add: a_def seq_init_def)
  moreover have "seq_step (a\<lparr>sq_copy := [7]\<rparr>) wit_accepted"
    using seq_step.r_verify [of "a\<lparr>sq_copy := [7]\<rparr>"]
    by (simp add: a_def seq_init_def wit_accepted_def gov_epoch_read_verify_def)
  ultimately show ?thesis unfolding seq_reachable_def
    by (meson converse_rtranclp_into_rtranclp rtranclp.rtrancl_refl)
qed

theorem accepted_snapshot_coherent_witness:
  "sq_reader wit_accepted = Reader_accepted \<and> sq_copy wit_accepted = sq_data_at wit_accepted"
proof -
  have "sq_reader wit_accepted = Reader_accepted" "sq_raised wit_accepted < 2 ^ 64"
    by (simp_all add: wit_accepted_def seq_init_def)
  then show ?thesis using accepted_snapshot_coherent [OF wit_accepted_reachable] by blast
qed

end
