(* ===== verification/Weight_Identity.thy ===== *)
theory Weight_Identity
  imports C_Prelude
begin

unbundle bit_operations_syntax

section \<open>The weight-file fingerprint\<close>

text \<open>
  \<open>ds4_weight_identity.h\<close>: the strided FNV-1a sample that identifies a weight file. The
  mapped file is its list of bytes and its size their number; offsets are natural numbers,
  as a mapping is far shorter than \<open>2^64\<close> bytes. The first part is the code; the second
  describes the sample as a list of positions and shows that the code hashes exactly these.
\<close>

definition WFP_EDGE :: nat where "WFP_EDGE = 4194304"
definition WFP_STRIDE :: nat where "WFP_STRIDE = 16777216"
definition WFP_PAGE :: nat where "WFP_PAGE = 4096"

definition wfp_fnv1a :: "bytes \<Rightarrow> u64 \<Rightarrow> u64" where
  "wfp_fnv1a b h = foldl (\<lambda>h c. (h XOR ucast c) * 1099511628211) h b"

definition wfp_size_bytes :: "nat \<Rightarrow> bytes" where
  "wfp_size_bytes n = map (\<lambda>i. ucast (drop_bit (8 * i) (of_nat n :: u64))) [0..<8]"

function wfp_stride_loop :: "bytes \<Rightarrow> nat \<Rightarrow> u64 \<Rightarrow> u64" where
  "wfp_stride_loop b off h =
     (if off + WFP_PAGE \<le> length b - WFP_EDGE
      then wfp_stride_loop b (off + WFP_STRIDE) (wfp_fnv1a (bslice off WFP_PAGE b) h)
      else h)"
  by pat_completeness auto
termination
  by (relation "measure (\<lambda>(b, off, h). length b - off)") (auto simp: WFP_STRIDE_def WFP_PAGE_def WFP_EDGE_def)

declare wfp_stride_loop.simps [simp del]

definition weight_content_fingerprint :: "bytes \<Rightarrow> u64" where
  "weight_content_fingerprint b =
     (let h = wfp_fnv1a (wfp_size_bytes (length b)) 1469598103934665603 in
      if length b = 0 then h
      else if length b \<le> 2 * WFP_EDGE then wfp_fnv1a b h
      else let h1 = wfp_fnv1a (take WFP_EDGE b) h;
               h2 = wfp_stride_loop b WFP_STRIDE h1
           in wfp_fnv1a (drop (length b - WFP_EDGE) b) h2)"

subsection \<open>The sample\<close>

text \<open>The positions of the sampled pages, and of the whole sample, of a file of \<open>n\<close> bytes.\<close>

function wfp_page_positions :: "nat \<Rightarrow> nat \<Rightarrow> nat list" where
  "wfp_page_positions n off =
     (if off + WFP_PAGE \<le> n - WFP_EDGE
      then [off..<off + WFP_PAGE] @ wfp_page_positions n (off + WFP_STRIDE) else [])"
  by pat_completeness auto
termination
  by (relation "measure (\<lambda>(n, off). n - off)") (auto simp: WFP_STRIDE_def WFP_PAGE_def WFP_EDGE_def)

declare wfp_page_positions.simps [simp del]

definition wfp_positions :: "nat \<Rightarrow> nat list" where
  "wfp_positions n =
     (if n \<le> 2 * WFP_EDGE then [0..<n]
      else [0..<WFP_EDGE] @ wfp_page_positions n WFP_STRIDE @ [n - WFP_EDGE..<n])"

lemma fnv1a_append: "wfp_fnv1a (a @ b) h = wfp_fnv1a b (wfp_fnv1a a h)"
  by (simp add: wfp_fnv1a_def)

lemma map_nth_interval: "i \<le> j \<Longrightarrow> j \<le> length b \<Longrightarrow> map ((!) b) [i..<j] = take (j - i) (drop i b)"
  by (rule nth_equalityI) simp_all

lemma stride_loop_positions:
  "wfp_stride_loop b off h = wfp_fnv1a (map ((!) b) (wfp_page_positions (length b) off)) h"
proof (induction b off h rule: wfp_stride_loop.induct)
  case (1 b off h)
  show ?case
  proof (cases "off + WFP_PAGE \<le> length b - WFP_EDGE")
    case True
    then have "map ((!) b) [off..<off + WFP_PAGE] = bslice off WFP_PAGE b"
      using map_nth_interval [of off "off + WFP_PAGE" b] by (simp add: bslice_def)
    then show ?thesis
      using True 1 by (simp add: wfp_stride_loop.simps [of b off] wfp_page_positions.simps [of _ off] fnv1a_append)
  next
    case False
    then show ?thesis
      by (simp add: wfp_stride_loop.simps [of b off] wfp_page_positions.simps [of _ off] wfp_fnv1a_def)
  qed
qed

lemma fingerprint_positions:
  "weight_content_fingerprint b =
     wfp_fnv1a (wfp_size_bytes (length b) @ map ((!) b) (wfp_positions (length b))) 1469598103934665603"
proof -
  have all: "map ((!) b) [0..<length b] = b" by (rule map_nth)
  have hd: "map ((!) b) [0..<WFP_EDGE] = take WFP_EDGE b" if "\<not> length b \<le> 2 * WFP_EDGE"
    using that map_nth_interval [of 0 WFP_EDGE b] by simp
  have tl: "map ((!) b) [length b - WFP_EDGE..<length b] = drop (length b - WFP_EDGE) b"
    using map_nth_interval [of "length b - WFP_EDGE" "length b" b] by simp
  show ?thesis
    by (auto simp: weight_content_fingerprint_def Let_def wfp_positions_def fnv1a_append stride_loop_positions
        all hd tl wfp_fnv1a_def)
qed

lemma page_positions_bounds:
  "x \<in> set (wfp_page_positions n off) \<Longrightarrow> off \<le> x \<and> x < n - WFP_EDGE"
proof (induction n off rule: wfp_page_positions.induct)
  case (1 n off)
  then show ?case
    by (auto simp: wfp_page_positions.simps [of n off] split: if_splits)
qed

lemma distinct_page_positions: "distinct (wfp_page_positions n off)"
proof (induction n off rule: wfp_page_positions.induct)
  case (1 n off)
  have "WFP_PAGE \<le> WFP_STRIDE" by (simp add: WFP_PAGE_def WFP_STRIDE_def)
  then show ?case
    using 1 by (auto simp: wfp_page_positions.simps [of n off] dest: page_positions_bounds)
qed

lemma positions_bounds: "x \<in> set (wfp_positions n) \<Longrightarrow> x < n"
  by (auto simp: wfp_positions_def dest: page_positions_bounds split: if_splits)

lemma distinct_positions: "distinct (wfp_positions n)"
proof (cases "n \<le> 2 * WFP_EDGE")
  case False
  have "WFP_EDGE \<le> WFP_STRIDE" by (simp add: WFP_EDGE_def WFP_STRIDE_def)
  then show ?thesis
    using False by (auto simp: wfp_positions_def distinct_page_positions dest: page_positions_bounds)
qed (simp add: wfp_positions_def)

text \<open>One step of the hash is injective in the state and in the byte: the prime has an inverse.\<close>

lemma fnv_prime_inverse: "(1099511628211 :: u64) * 14886173955864302971 = 1"
  by simp

lemma fnv_mult_inj:
  assumes "x * 1099511628211 = y * (1099511628211 :: u64)"
  shows "x = y"
proof -
  have "x * 1099511628211 * 14886173955864302971 = y * (1099511628211 :: u64) * 14886173955864302971" using assms by simp
  then show ?thesis by (simp only: mult.assoc fnv_prime_inverse mult_1_right)
qed

lemma xor_cancel: "x XOR w = y XOR w \<longleftrightarrow> x = y" for x y w :: u64
proof
  assume "x XOR w = y XOR w"
  then have "(x XOR w) XOR w = (y XOR w) XOR w" by simp
  then show "x = y" by (simp only: xor.assoc xor_self_eq xor.right_neutral)
qed simp

lemma fnv_step_inj: "(x XOR w) * 1099511628211 = (y XOR v) * (1099511628211 :: u64) \<longleftrightarrow> x XOR w = y XOR v"
  using fnv_mult_inj [of "x XOR w" "y XOR v"] by auto

lemma fnv1a_Cons: "wfp_fnv1a (c # b) h = wfp_fnv1a b ((h XOR ucast c) * 1099511628211)"
  by (simp add: wfp_fnv1a_def)

lemma fnv_state_inj: "wfp_fnv1a b x = wfp_fnv1a b y \<longleftrightarrow> x = y"
proof (induction b arbitrary: x y)
  case Nil
  then show ?case by (simp add: wfp_fnv1a_def)
next
  case (Cons c b)
  then show ?case by (simp only: fnv1a_Cons fnv_step_inj xor_cancel)
qed

lemma fnv_one_byte: "wfp_fnv1a (a @ c # b) h = wfp_fnv1a (a @ d # b) h \<longleftrightarrow> c = d"
proof -
  have u: "unat (ucast x :: u64) = unat x" for x :: u8
  proof -
    have "unat x < 2 ^ 64" using unat_u8_bound [of x] by simp
    then show ?thesis by (simp add: unsigned_ucast_eq take_bit_eq_mod)
  qed
  have "(ucast c :: u64) = ucast d \<longleftrightarrow> c = d"
    using u [of c] u [of d] by (metis word_unat_eq_iff)
  then show ?thesis
    by (simp only: fnv1a_append fnv1a_Cons fnv_state_inj fnv_step_inj xor.commute [of "wfp_fnv1a a h"] xor_cancel)
qed

text \<open>
  The fingerprint is what it samples. It depends on the size and the sampled bytes
  only: two files of the same size that agree at every sampled position have the
  same fingerprint. And no single sampled byte can change unnoticed: two files of the
  same size that differ at exactly one position, a sampled one, have different
  fingerprints.
\<close>

theorem fingerprint_detects_sampled_byte:
  assumes "length a = length b"
  shows "((\<forall>i \<in> set (wfp_positions (length a)). a ! i = b ! i) \<longrightarrow>
      weight_content_fingerprint a = weight_content_fingerprint b) \<and>
    (\<forall>k \<in> set (wfp_positions (length a)). a ! k \<noteq> b ! k \<and> (\<forall>i < length a. i \<noteq> k \<longrightarrow> a ! i = b ! i) \<longrightarrow>
      weight_content_fingerprint a \<noteq> weight_content_fingerprint b)"
proof (intro conjI impI ballI)
  assume "\<forall>i \<in> set (wfp_positions (length a)). a ! i = b ! i"
  then have m: "map ((!) a) (wfp_positions (length a)) = map ((!) b) (wfp_positions (length a))" by simp
  show "weight_content_fingerprint a = weight_content_fingerprint b"
    unfolding fingerprint_positions assms [symmetric] m ..
next
  fix k assume k: "k \<in> set (wfp_positions (length a))"
    and d: "a ! k \<noteq> b ! k \<and> (\<forall>i < length a. i \<noteq> k \<longrightarrow> a ! i = b ! i)"
  obtain ps qs where pq: "wfp_positions (length a) = ps @ k # qs" using split_list [OF k] by blast
  have "k \<notin> set ps \<union> set qs" using distinct_positions [of "length a"] by (auto simp: pq)
  moreover have "\<forall>i \<in> set ps \<union> set qs. i < length a"
    using positions_bounds [of _ "length a"] by (auto simp: pq)
  ultimately have "\<forall>i \<in> set ps \<union> set qs. a ! i = b ! i" using d by metis
  then have e: "map ((!) a) ps = map ((!) b) ps" "map ((!) a) qs = map ((!) b) qs" by auto
  show "weight_content_fingerprint a \<noteq> weight_content_fingerprint b"
    using d fnv_one_byte [of "wfp_size_bytes (length a) @ map ((!) b) ps" "a ! k" "map ((!) b) qs"]
    unfolding fingerprint_positions assms [symmetric] pq by (simp add: e)
qed

theorem fingerprint_detects_sampled_byte_witness:
  "weight_content_fingerprint [1, 2, 3] \<noteq> weight_content_fingerprint [1, 9, 3]"
proof -
  have "(1 :: nat) \<in> set (wfp_positions (length [1, 2, 3 :: u8]))"
    by (simp add: wfp_positions_def WFP_EDGE_def)
  moreover have "[1, 2, 3 :: u8] ! 1 \<noteq> [1, 9, 3] ! 1 \<and>
      (\<forall>i < length [1, 2, 3 :: u8]. i \<noteq> 1 \<longrightarrow> [1, 2, 3 :: u8] ! i = [1, 9, 3] ! i)"
    by (auto simp: less_Suc_eq numeral_3_eq_3)
  ultimately show ?thesis
    by (rule fingerprint_detects_sampled_byte [of "[1, 2, 3]" "[1, 9, 3]", THEN conjunct2, THEN bspec,
          THEN mp, rotated]) simp
qed

end
