(* ===== verification/Json_Text.thy ===== *)
theory Json_Text
  imports C_Prelude C_Double
begin

unbundle bit_operations_syntax

section \<open>JSON text: the request parser's primitives and the escaper\<close>

text \<open>
  The cursor functions of \<open>ds4_server.c\<close> that read requests, and the functions that write
  strings into responses. A cursor \<open>const char **p\<close> is the byte string from the cursor to the
  terminator; reading at its end gives the terminator, a zero byte. A function that returns
  \<open>false\<close> is \<open>None\<close>, one that moves the cursor returns the rest of the text. A growing \<open>buf\<close>
  is its contents. A \<open>char *\<close> handed out is the contents of its buffer; a reader that uses
  \<open>strlen\<close> sees them up to the first zero byte, \<open>cstr\<close>.

  The C library is modelled where the sources use it: \<open>isspace\<close> in the C locale and \<open>strtod\<close>
  with its full C syntax (infinities, NaN and hexadecimal numbers included).
\<close>

subsection \<open>Characters\<close>

abbreviation ch_quote :: u8 where "ch_quote \<equiv> 34"
abbreviation ch_comma :: u8 where "ch_comma \<equiv> 44"
abbreviation ch_slash :: u8 where "ch_slash \<equiv> 47"
abbreviation ch_colon :: u8 where "ch_colon \<equiv> 58"
abbreviation ch_lbrack :: u8 where "ch_lbrack \<equiv> 91"
abbreviation ch_bslash :: u8 where "ch_bslash \<equiv> 92"
abbreviation ch_rbrack :: u8 where "ch_rbrack \<equiv> 93"
abbreviation ch_lbrace :: u8 where "ch_lbrace \<equiv> 123"
abbreviation ch_rbrace :: u8 where "ch_rbrace \<equiv> 125"

text \<open>The byte under the cursor, the cursor moved by one, and a C string literal.\<close>

definition cur :: "bytes \<Rightarrow> u8" where
  "cur p = (case p of [] \<Rightarrow> 0 | c # _ \<Rightarrow> c)"

definition lit :: "string \<Rightarrow> bytes" where
  "lit s = map of_char s"

definition cstr :: "bytes \<Rightarrow> bytes" where
  "cstr = takeWhile (\<lambda>c. c \<noteq> 0)"

definition c_isspace :: "u8 \<Rightarrow> bool" where
  "c_isspace c \<longleftrightarrow> c = 32 \<or> 9 \<le> c \<and> c \<le> 13"

definition c_isdigit :: "u8 \<Rightarrow> bool" where
  "c_isdigit c \<longleftrightarrow> 48 \<le> c \<and> c \<le> 57"

subsection \<open>White space, literals, hexadecimal digits\<close>

definition json_ws :: "bytes \<Rightarrow> bytes" where
  "json_ws p = dropWhile c_isspace p"

definition json_lit :: "string \<Rightarrow> bytes \<Rightarrow> bytes option" where
  "json_lit s p =
     (if take (length s) p = lit s then Some (drop (length s) p) else None)"

definition json_hex :: "u8 \<Rightarrow> int" where
  "json_hex c =
     (if 48 \<le> c \<and> c \<le> 57 then uint c - 48
      else if 97 \<le> c \<and> c \<le> 102 then 10 + uint c - 97
      else if 65 \<le> c \<and> c \<le> 70 then 10 + uint c - 65
      else - 1)"

definition utf8_put :: "bytes \<Rightarrow> u32 \<Rightarrow> bytes" where
  "utf8_put b cp =
     (if cp \<le> 0x7f then b @ [ucast cp]
      else if cp \<le> 0x7ff then b @ [ucast (0xc0 OR drop_bit 6 cp), ucast (0x80 OR (cp AND 0x3f))]
      else if cp \<le> 0xffff then b @ [ucast (0xe0 OR drop_bit 12 cp), ucast (0x80 OR (drop_bit 6 cp AND 0x3f)),
        ucast (0x80 OR (cp AND 0x3f))]
      else b @ [ucast (0xf0 OR drop_bit 18 cp), ucast (0x80 OR (drop_bit 12 cp AND 0x3f)),
        ucast (0x80 OR (drop_bit 6 cp AND 0x3f)), ucast (0x80 OR (cp AND 0x3f))])"

text \<open>The four hexadecimal digits of a \<open>\u\<close> escape, from the byte after the \<open>u\<close>.\<close>

fun json_u16_digits :: "nat \<Rightarrow> u32 \<Rightarrow> bytes \<Rightarrow> u32 option" where
  "json_u16_digits 0 cp p = Some cp"
| "json_u16_digits (Suc n) cp p =
     (let h = json_hex (cur p)
      in if h < 0 then None else json_u16_digits n (push_bit 4 cp OR word_of_int h) (drop 1 p))"

definition json_u16 :: "bytes \<Rightarrow> (u32 \<times> bytes) option" where
  "json_u16 p =
     (if cur p \<noteq> ch_bslash \<or> cur (drop 1 p) \<noteq> 117 then None
      else case json_u16_digits 4 0 (drop 2 p) of
             None \<Rightarrow> None
           | Some cp \<Rightarrow> Some (cp, drop 6 p))"

lemma json_u16_digits_shorter: "json_u16_digits n cp p = Some v \<Longrightarrow> n \<le> length p"
proof (induction n arbitrary: cp p)
  case (Suc n)
  then have "json_hex (cur p) \<ge> 0" and "n \<le> length (drop 1 p)"
    by (auto simp: Let_def split: if_splits simp del: length_drop dest!: Suc.IH)
  moreover from this have "p \<noteq> []" by (auto simp: cur_def json_hex_def)
  ultimately show ?case by (cases p) auto
qed simp

lemma json_u16_shorter: "json_u16 p = Some (cp, q) \<Longrightarrow> length q + 6 \<le> length p"
  unfolding json_u16_def
  by (auto split: if_splits option.splits dest!: json_u16_digits_shorter simp: cur_def split: list.splits)

subsection \<open>Strings\<close>

text \<open>
  The code unit of a \<open>\u\<close> escape, with the second unit of a surrogate pair. The second escape is
  consumed whether or not it is a low surrogate.
\<close>

definition json_u_escape :: "bytes \<Rightarrow> (u32 \<times> bytes) option" where
  "json_u_escape p =
     (case json_u16 p of
        None \<Rightarrow> None
      | Some (cp, p1) \<Rightarrow>
          Some (if 0xd800 \<le> cp \<and> cp \<le> 0xdbff
                then case json_u16 p1 of
                       None \<Rightarrow> (cp, p1)
                     | Some (lo, p2) \<Rightarrow>
                         if 0xdc00 \<le> lo \<and> lo \<le> 0xdfff
                         then (0x10000 + push_bit 10 (cp - 0xd800) + (lo - 0xdc00), p2)
                         else (cp, p2)
                else (cp, p1)))"

lemma json_u_escape_shorter: "json_u_escape p = Some (cp, q) \<Longrightarrow> length q < length p"
  unfolding json_u_escape_def
  by (auto split: option.splits if_splits dest!: json_u16_shorter)

text \<open>The one-character escapes of the \<open>switch\<close>.\<close>

definition json_simple_escape :: "u8 \<Rightarrow> u8 option" where
  "json_simple_escape e =
     (if e = ch_quote then Some ch_quote
      else if e = ch_bslash then Some ch_bslash
      else if e = ch_slash then Some ch_slash
      else if e = 98 then Some 8
      else if e = 102 then Some 12
      else if e = 110 then Some 10
      else if e = 114 then Some 13
      else if e = 116 then Some 9
      else None)"

function json_string_loop :: "bytes \<Rightarrow> bytes \<Rightarrow> (bytes \<times> bytes) option" where
  "json_string_loop b [] = None"
| "json_string_loop b (c # q) =
     (if c = 0 then None
      else if c = ch_quote then Some (b, q)
      else if c \<noteq> ch_bslash then json_string_loop (b @ [c]) q
      else case json_simple_escape (cur q) of
             Some v \<Rightarrow> json_string_loop (b @ [v]) (drop 1 q)
           | None \<Rightarrow>
               if cur q \<noteq> 117 then None
               else case json_u_escape (c # q) of
                      None \<Rightarrow> None
                    | Some (cp, p') \<Rightarrow> json_string_loop (utf8_put b cp) p')"
  by pat_completeness auto
termination
  by (relation "measure (\<lambda>(b, p). length p)") (auto dest!: json_u_escape_shorter)

declare json_string_loop.simps(2) [simp del]

definition json_string :: "bytes \<Rightarrow> (bytes \<times> bytes) option" where
  "json_string p0 =
     (let p = json_ws p0
      in if cur p \<noteq> ch_quote then None else json_string_loop [] (drop 1 p))"

lemma json_ws_shorter: "length (json_ws p) \<le> length p"
  by (simp add: json_ws_def length_dropWhile_le)

lemma json_string_loop_shorter: "json_string_loop b p = Some (s, r) \<Longrightarrow> length r < length p"
proof (induction b p rule: json_string_loop.induct)
  case (2 b c q)
  show ?case
    using "2.prems" "2.IH" unfolding json_string_loop.simps(2) [of b c q]
    by (fastforce split: if_splits option.splits dest: json_u_escape_shorter)
qed simp

lemma json_string_shorter: "json_string p = Some (s, q) \<Longrightarrow> length q < length p"
  using json_ws_shorter [of p]
  by (auto simp: json_string_def Let_def split: if_splits dest!: json_string_loop_shorter)

subsection \<open>Numbers\<close>

text \<open>
  \<open>strtod\<close> in the C locale: leading white space, a sign, then \<open>inf\<close> or \<open>infinity\<close>, \<open>nan\<close> with
  an optional parenthesised tag, a hexadecimal or a decimal number. The value is the exact one
  rounded to double, an infinity beyond the largest double.
\<close>

datatype c_double = D_fin rat | D_inf bool | D_nan

definition c_lower :: "u8 \<Rightarrow> u8" where
  "c_lower c = (if 65 \<le> c \<and> c \<le> 90 then c + 32 else c)"

definition starts_nocase :: "string \<Rightarrow> bytes \<Rightarrow> bool" where
  "starts_nocase s p \<longleftrightarrow> map c_lower (take (length s) p) = lit s"

definition is_nchar :: "u8 \<Rightarrow> bool" where
  "is_nchar c \<longleftrightarrow> c_isdigit c \<or> 65 \<le> c \<and> c \<le> 90 \<or> 97 \<le> c \<and> c \<le> 122 \<or> c = 95"

definition digits_val :: "int \<Rightarrow> bytes \<Rightarrow> int" where
  "digits_val base ds = foldl (\<lambda>n d. base * n + json_hex d) 0 ds"

text \<open>An exponent part: the marker, an optional sign and at least one digit; otherwise none.\<close>

definition strtod_exponent :: "u8 \<Rightarrow> bytes \<Rightarrow> int \<times> bytes" where
  "strtod_exponent mark p =
     (if p = [] \<or> c_lower (cur p) \<noteq> mark then (0, p)
      else let q = drop 1 p;
               q1 = (if cur q = 43 \<or> cur q = 45 then drop 1 q else q);
               ds = takeWhile c_isdigit q1
           in if ds = [] then (0, p)
              else ((if cur q = 45 then - digits_val 10 ds else digits_val 10 ds), dropWhile c_isdigit q1))"

definition d_overflow :: "bool \<Rightarrow> rat \<Rightarrow> c_double" where
  "d_overflow neg x =
     (let r = (if \<bar>x\<bar> < 2 powi (- 1022) then of_int (round_even (x * 2 ^ 1074)) / 2 ^ 1074 else d_round x)
      in if r \<ge> 2 ^ 1024 then D_inf neg else D_fin (if neg then - r else r))"

text \<open>The digits around the radix point, in decimal or hexadecimal, then the exponent.\<close>

definition strtod_mantissa :: "(u8 \<Rightarrow> bool) \<Rightarrow> bytes \<Rightarrow> (bytes \<times> bytes \<times> bytes) option" where
  "strtod_mantissa isdig p =
     (let i = takeWhile isdig p; p1 = dropWhile isdig p;
          f = (if cur p1 = 46 then takeWhile isdig (drop 1 p1) else []);
          p2 = (if cur p1 = 46 then dropWhile isdig (drop 1 p1) else p1)
      in if i = [] \<and> f = [] then None else Some (i, f, p2))"

definition strtod_decimal :: "bool \<Rightarrow> bytes \<Rightarrow> (c_double \<times> bytes) option" where
  "strtod_decimal neg p =
     (case strtod_mantissa c_isdigit p of
        None \<Rightarrow> None
      | Some (i, f, p2) \<Rightarrow>
          let (e, p3) = strtod_exponent 101 p2
          in Some (d_overflow neg (of_int (digits_val 10 (i @ f)) * 10 powi (e - int (length f))), p3))"

definition strtod_number :: "bool \<Rightarrow> bytes \<Rightarrow> (c_double \<times> bytes) option" where
  "strtod_number neg p =
     (case (if starts_nocase ''0x'' p then strtod_mantissa (\<lambda>c. json_hex c \<ge> 0) (drop 2 p) else None) of
        Some (i, f, p2) \<Rightarrow>
          let (e, p3) = strtod_exponent 112 p2
          in Some (d_overflow neg (of_int (digits_val 16 (i @ f)) * 2 powi (e - 4 * int (length f))), p3)
      | None \<Rightarrow> strtod_decimal neg p)"

definition strtod_nan_tag :: "bytes \<Rightarrow> bytes" where
  "strtod_nan_tag p =
     (let q = dropWhile is_nchar (drop 1 p)
      in if cur p = 40 \<and> cur q = 41 then drop 1 q else p)"

definition strtod :: "bytes \<Rightarrow> (c_double \<times> bytes) option" where
  "strtod p0 =
     (let p1 = json_ws p0; neg = (cur p1 = 45);
          p = (if cur p1 = 43 \<or> cur p1 = 45 then drop 1 p1 else p1)
      in if starts_nocase ''infinity'' p then Some (D_inf neg, drop 8 p)
         else if starts_nocase ''inf'' p then Some (D_inf neg, drop 3 p)
         else if starts_nocase ''nan'' p then Some (D_nan, strtod_nan_tag (drop 3 p))
         else strtod_number neg p)"

definition json_number :: "bytes \<Rightarrow> (c_double \<times> bytes) option" where
  "json_number p = strtod (json_ws p)"

text \<open>
  The conversion \<open>(int)v\<close> truncates a finite double in range; \<open>None\<close> stands for the undefined
  conversion of a NaN, which neither comparison catches.
\<close>

definition json_int_clamp :: "c_double \<Rightarrow> int option" where
  "json_int_clamp v =
     (case v of
        D_nan \<Rightarrow> None
      | D_inf neg \<Rightarrow> Some (if neg then 0 else 2147483647)
      | D_fin x \<Rightarrow> Some (if x < 0 then 0 else if x > 2147483647 then 2147483647 else \<lfloor>x\<rfloor>))"

definition json_int :: "bytes \<Rightarrow> (int option \<times> bytes) option" where
  "json_int p = (case json_number p of None \<Rightarrow> None | Some (v, q) \<Rightarrow> Some (json_int_clamp v, q))"

definition json_bool :: "bytes \<Rightarrow> (bool \<times> bytes) option" where
  "json_bool p0 =
     (let p = json_ws p0
      in case json_lit ''true'' p of
           Some q \<Rightarrow> Some (True, q)
         | None \<Rightarrow> (case json_lit ''false'' p of Some q \<Rightarrow> Some (False, q) | None \<Rightarrow> None))"

text \<open>A conversion consumes at least one byte.\<close>

lemma strtod_exponent_shorter: "strtod_exponent m p = (e, q) \<Longrightarrow> length q \<le> length p"
proof -
  assume a: "strtod_exponent m p = (e, q)"
  define r where "r = (if cur (drop 1 p) = 43 \<or> cur (drop 1 p) = 45 then drop 1 (drop 1 p) else drop 1 p)"
  have "length (dropWhile c_isdigit r) \<le> length p"
    using length_dropWhile_le [of c_isdigit r] by (auto simp: r_def split: if_splits)
  then show ?thesis using a by (auto simp: strtod_exponent_def Let_def r_def split: if_splits)
qed

lemma strtod_mantissa_shorter:
  assumes "strtod_mantissa d p = Some (i, f, q)"
  shows "length q < length p"
proof -
  have split: "length p = length (takeWhile d p) + length (dropWhile d p)" for p
    by (metis length_append takeWhile_dropWhile_id)
  have "length q + length i + length f \<le> length p"
    using assms split [of p] split [of "drop 1 (dropWhile d p)"]
    by (auto simp: strtod_mantissa_def Let_def split: if_splits)
  moreover have "i \<noteq> [] \<or> f \<noteq> []" using assms by (auto simp: strtod_mantissa_def Let_def split: if_splits)
  then have "0 < length i + length f" by auto
  ultimately show ?thesis by linarith
qed

lemma strtod_number_shorter: "strtod_number neg p = Some (v, q) \<Longrightarrow> length q < length p"
  unfolding strtod_number_def strtod_decimal_def
  by (auto simp: Let_def split: option.splits prod.splits if_splits
      dest!: strtod_mantissa_shorter strtod_exponent_shorter)

lemma strtod_nan_tag_shorter: "length (strtod_nan_tag p) \<le> length p"
  using length_dropWhile_le [of is_nchar "drop 1 p"] by (auto simp: strtod_nan_tag_def Let_def)

lemma starts_nocase_length: "starts_nocase s p \<Longrightarrow> length s \<le> length p"
proof -
  assume "starts_nocase s p"
  then have "length (take (length s) p) = length s" unfolding starts_nocase_def by (metis length_map lit_def)
  then show ?thesis by simp
qed

lemma json_number_shorter:
  assumes "json_number p = Some (v, q)"
  shows "length q < length p"
proof -
  define p1 where "p1 = json_ws (json_ws p)"
  define r where "r = (if cur p1 = 43 \<or> cur p1 = 45 then drop 1 p1 else p1)"
  have r: "length r \<le> length p"
    using json_ws_shorter [of p] json_ws_shorter [of "json_ws p"] by (auto simp: r_def p1_def)
  have "length q < length r"
    using assms strtod_nan_tag_shorter [of "drop 3 r"]
    unfolding json_number_def strtod_def Let_def p1_def [symmetric] r_def [symmetric]
    by (auto split: if_splits dest!: starts_nocase_length dest: strtod_number_shorter)
  with r show ?thesis by simp
qed

subsection \<open>Skipping values\<close>

definition JSON_MAX_NESTING :: int where "JSON_MAX_NESTING = 256"

text \<open>
  The three mutually recursive functions, with the \<open>for (;;)\<close> loops of the array and the object
  as functions of their own. The recursion ends because every value consumes text; that is shown
  together with termination, since the loops go on from where the nested call stopped.
\<close>

function (sequential) json_skip_value_depth :: "bytes \<Rightarrow> int \<Rightarrow> bytes option"
  and json_skip_array_depth :: "bytes \<Rightarrow> int \<Rightarrow> bytes option"
  and json_skip_elements :: "bytes \<Rightarrow> int \<Rightarrow> bytes option"
  and json_skip_object_depth :: "bytes \<Rightarrow> int \<Rightarrow> bytes option"
  and json_skip_members :: "bytes \<Rightarrow> int \<Rightarrow> bytes option"
where
  "json_skip_value_depth p0 depth =
     (let p = json_ws p0 in
      if cur p = ch_quote then map_option snd (json_string p)
      else if cur p = ch_lbrace then json_skip_object_depth p depth
      else if cur p = ch_lbrack then json_skip_array_depth p depth
      else case json_lit ''true'' p of Some q \<Rightarrow> Some q | None \<Rightarrow>
           (case json_lit ''false'' p of Some q \<Rightarrow> Some q | None \<Rightarrow>
           (case json_lit ''null'' p of Some q \<Rightarrow> Some q | None \<Rightarrow> map_option snd (json_number p))))"
| "json_skip_array_depth p0 depth =
     (if depth \<ge> JSON_MAX_NESTING then None
      else let p = json_ws p0 in
      if cur p \<noteq> ch_lbrack then None
      else let q = json_ws (drop 1 p) in
      if cur q = ch_rbrack then Some (drop 1 q)
      else json_skip_elements q depth)"
| "json_skip_elements p depth =
     (case json_skip_value_depth p (depth + 1) of
        None \<Rightarrow> None
      | Some p1 \<Rightarrow>
          let q = json_ws p1 in
          if cur q = ch_rbrack then Some (drop 1 q)
          else if cur q \<noteq> ch_comma then None
          else json_skip_elements (drop 1 q) depth)"
| "json_skip_object_depth p0 depth =
     (if depth \<ge> JSON_MAX_NESTING then None
      else let p = json_ws p0 in
      if cur p \<noteq> ch_lbrace then None
      else let q = json_ws (drop 1 p) in
      if cur q = ch_rbrace then Some (drop 1 q)
      else json_skip_members q depth)"
| "json_skip_members p depth =
     (case json_string p of
        None \<Rightarrow> None
      | Some (key, p1) \<Rightarrow>
          let q = json_ws p1 in
          if cur q \<noteq> ch_colon then None
          else case json_skip_value_depth (drop 1 q) (depth + 1) of
                 None \<Rightarrow> None
               | Some p2 \<Rightarrow>
                   let r = json_ws p2 in
                   if cur r = ch_rbrace then Some (drop 1 r)
                   else if cur r \<noteq> ch_comma then None
                   else json_skip_members (drop 1 r) depth)"
  by pat_completeness auto

lemma json_lit_shorter: "json_lit s p = Some q \<Longrightarrow> length q \<le> length p"
  by (auto simp: json_lit_def split: if_splits)

lemma cur_nonempty: "cur p = c \<Longrightarrow> c \<noteq> 0 \<Longrightarrow> 0 < length p"
  by (cases p) (auto simp: cur_def)

lemmas json_skip_pinduct = json_skip_value_depth_json_skip_array_depth_json_skip_elements_json_skip_object_depth_json_skip_members.pinduct

lemma ws_step: "length q \<le> length p \<Longrightarrow> length (drop n (json_ws q)) \<le> length p"
  using json_ws_shorter [of q] by simp

lemma json_skip_shorter_dom:
  "json_skip_value_depth_json_skip_array_depth_json_skip_elements_json_skip_object_depth_json_skip_members_dom (Inl (Inl (p, d))) \<Longrightarrow>
     json_skip_value_depth p d = Some q \<Longrightarrow> length q \<le> length p"
  "json_skip_value_depth_json_skip_array_depth_json_skip_elements_json_skip_object_depth_json_skip_members_dom (Inl (Inr (p, d))) \<Longrightarrow>
     json_skip_array_depth p d = Some q \<Longrightarrow> length q \<le> length p"
  "json_skip_value_depth_json_skip_array_depth_json_skip_elements_json_skip_object_depth_json_skip_members_dom (Inr (Inl (p, d))) \<Longrightarrow>
     json_skip_elements p d = Some q \<Longrightarrow> length q \<le> length p"
  "json_skip_value_depth_json_skip_array_depth_json_skip_elements_json_skip_object_depth_json_skip_members_dom (Inr (Inr (Inl (p, d)))) \<Longrightarrow>
     json_skip_object_depth p d = Some q \<Longrightarrow> length q \<le> length p"
  "json_skip_value_depth_json_skip_array_depth_json_skip_elements_json_skip_object_depth_json_skip_members_dom (Inr (Inr (Inr (p, d)))) \<Longrightarrow>
     json_skip_members p d = Some q \<Longrightarrow> length q \<le> length p"
proof (induction p d and p d and p d and p d and p d arbitrary: q and q and q and q and q rule: json_skip_pinduct)
  case (1 p0 depth)
  show ?case
    using 1 json_ws_shorter [of p0]
    by (subst (asm) (1) json_skip_value_depth.psimps)
      (auto simp: Let_def split: if_splits option.splits dest!: json_string_shorter json_number_shorter json_lit_shorter
        dest: less_imp_le order_trans)
next
  case (2 p0 depth)
  note u = json_skip_array_depth.psimps [OF 2(1)]
  show ?case
  proof (cases "cur (json_ws (drop 1 (json_ws p0))) = ch_rbrack")
    case True
    then show ?thesis
      using 2(1,3) ws_step [of "drop 1 (json_ws p0)" p0 1] ws_step [of p0 p0 1]
      by (auto simp: u Let_def split: if_splits)
  next
    case False
    then have "length q \<le> length (json_ws (drop 1 (json_ws p0)))"
      using 2(2,3) by (auto simp: u Let_def split: if_splits)
    then show ?thesis using ws_step [of "drop 1 (json_ws p0)" p0 0] ws_step [of p0 p0 1] by simp
  qed
next
  case (3 p depth)
  note u = json_skip_elements.psimps [OF 3(1)]
  from 3(1,4) obtain p1 where p1: "json_skip_value_depth p (depth + 1) = Some p1"
    by (auto simp: u split: option.splits)
  have l1: "length p1 \<le> length p" by (rule 3(2) [OF p1])
  show ?case
  proof (cases "cur (json_ws p1) = ch_comma")
    case True
    then have "length q \<le> length (drop 1 (json_ws p1))"
      using 3(1,4) p1 3(3) [OF p1 refl] by (auto simp: u Let_def)
    then show ?thesis using ws_step [OF l1, of 1] by simp
  next
    case False
    then have "q = drop 1 (json_ws p1)"
      using 3(1,4) p1 by (auto simp: u Let_def split: if_splits)
    then show ?thesis using ws_step [OF l1, of 1] by simp
  qed
next
  case (4 p0 depth)
  note u = json_skip_object_depth.psimps [OF 4(1)]
  show ?case
  proof (cases "cur (json_ws (drop 1 (json_ws p0))) = ch_rbrace")
    case True
    then show ?thesis
      using 4(1,3) ws_step [of "drop 1 (json_ws p0)" p0 1] ws_step [of p0 p0 1]
      by (auto simp: u Let_def split: if_splits)
  next
    case False
    then have "length q \<le> length (json_ws (drop 1 (json_ws p0)))"
      using 4(2,3) by (auto simp: u Let_def split: if_splits)
    then show ?thesis using ws_step [of "drop 1 (json_ws p0)" p0 0] ws_step [of p0 p0 1] by simp
  qed
next
  case (5 p depth)
  note u = json_skip_members.psimps [OF 5(1)]
  from 5(1,4) obtain key p1 where p1: "json_string p = Some (key, p1)"
    by (auto simp: u split: option.splits)
  from 5(1,4) p1 obtain p2 where c: "cur (json_ws p1) = ch_colon"
    and p2: "json_skip_value_depth (drop 1 (json_ws p1)) (depth + 1) = Some p2"
    by (auto simp: u Let_def split: option.splits if_splits)
  have "length p2 \<le> length (drop 1 (json_ws p1))"
    using 5(2) [OF p1 refl refl _ p2] c by simp
  then have l2: "length p2 \<le> length p"
    using ws_step [of p1 p 1] json_string_shorter [OF p1] by simp
  show ?case
  proof (cases "cur (json_ws p2) = ch_comma")
    case True
    then have "length q \<le> length (drop 1 (json_ws p2))"
      using 5(1,4) p1 c p2 5(3) [OF p1 refl refl _ p2 refl]
      by (auto simp: u Let_def)
    then show ?thesis using ws_step [OF l2, of 1] by simp
  next
    case False
    then have "q = drop 1 (json_ws p2)"
      using 5(1,4) p1 c p2 by (auto simp: u Let_def split: if_splits)
    then show ?thesis using ws_step [OF l2, of 1] by simp
  qed
qed

lemma json_skip_total: "All json_skip_value_depth_json_skip_array_depth_json_skip_elements_json_skip_object_depth_json_skip_members_dom"
proof (rule "json_skip_value_depth_json_skip_array_depth_json_skip_elements_json_skip_object_depth_json_skip_members.termination" [where R = "measure (\<lambda>x. case x of
    Inl (Inl (p, d)) \<Rightarrow> 4 * length p + 1 | Inl (Inr (p, d)) \<Rightarrow> 4 * length p
  | Inr (Inl (p, d)) \<Rightarrow> 4 * length p + 2 | Inr (Inr (Inl (p, d))) \<Rightarrow> 4 * length p
  | Inr (Inr (Inr (p, d))) \<Rightarrow> 4 * length p + 2)"], goal_cases)
  case 1
  then show ?case by simp
next
  case (2 p0 depth p)
  then show ?case using json_ws_shorter [of p0] by simp
next
  case (3 p0 depth p)
  then show ?case using json_ws_shorter [of p0] by simp
next
  case (4 p0 depth p q)
  then have "0 < length (json_ws p0)" by (auto dest: cur_nonempty)
  then show ?case using 4 json_ws_shorter [of p0] json_ws_shorter [of "drop 1 (json_ws p0)"] 
    by (simp del: length_greater_0_conv)
next
  case (5 p depth)
  then show ?case by simp
next
  case (6 p depth p1 q)
  then have "0 < length (json_ws p1)" by (auto dest: cur_nonempty)
  then show ?case using 6 json_ws_shorter [of p1] json_skip_shorter_dom(1) [of p "depth + 1" p1] 
    by (simp del: length_greater_0_conv)
next
  case (7 p0 depth p q)
  then have "0 < length (json_ws p0)" by (auto dest: cur_nonempty)
  then show ?case using 7 json_ws_shorter [of p0] json_ws_shorter [of "drop 1 (json_ws p0)"] 
    by (simp del: length_greater_0_conv)
next
  case (8 p depth kp key p1 q)
  then show ?case using json_ws_shorter [of p1] json_string_shorter [of p key p1] by simp
next
  case (9 p depth kp key p1 q p2 r)
  then show ?case using json_ws_shorter [of p1] json_string_shorter [of p key p1] json_ws_shorter [of p2]
    json_skip_shorter_dom(1) [of "drop 1 q" "depth + 1" p2] by simp
qed

termination json_skip_value_depth
  by (rule json_skip_total)

declare json_skip_value_depth.simps [simp del] json_skip_array_depth.simps [simp del]
  json_skip_elements.simps [simp del] json_skip_object_depth.simps [simp del] json_skip_members.simps [simp del]

lemmas json_skip_simps = json_skip_value_depth.simps json_skip_array_depth.simps
  json_skip_elements.simps json_skip_object_depth.simps json_skip_members.simps

lemma json_skip_loops_shorter:
  "json_skip_elements p d = Some q \<Longrightarrow> length q \<le> length p"
  "json_skip_members p d = Some q \<Longrightarrow> length q \<le> length p"
  by (rule json_skip_shorter_dom(3) [OF json_skip_total [THEN spec]], assumption)
    (rule json_skip_shorter_dom(5) [OF json_skip_total [THEN spec]])

lemma json_skip_brackets_shorter:
  "json_skip_array_depth p d = Some q \<Longrightarrow> length q < length p"
  "json_skip_object_depth p d = Some q \<Longrightarrow> length q < length p"
proof -
  have less: "length q < length p"
    if "cur (json_ws p) = c" "c \<noteq> 0" "length q \<le> length (json_ws (drop 1 (json_ws p)))" for c
    using cur_nonempty [OF that(1,2)] that(3) json_ws_shorter [of p] json_ws_shorter [of "drop 1 (json_ws p)"]
    by (simp del: length_greater_0_conv)
  show "json_skip_array_depth p d = Some q \<Longrightarrow> length q < length p"
    by (rule less [of ch_lbrack]) (auto simp: json_skip_array_depth.simps Let_def split: if_splits
        dest!: json_skip_loops_shorter)
  show "json_skip_object_depth p d = Some q \<Longrightarrow> length q < length p"
    by (rule less [of ch_lbrace]) (auto simp: json_skip_object_depth.simps Let_def split: if_splits
        dest!: json_skip_loops_shorter)
qed

lemma json_lit_shorter_strict: "json_lit s p = Some q \<Longrightarrow> s \<noteq> [] \<Longrightarrow> length q < length p"
proof -
  assume a: "json_lit s p = Some q" and s: "s \<noteq> []"
  then have "length (take (length s) p) = length s" by (metis json_lit_def length_map lit_def option.discI)
  then show ?thesis using a s by (cases s) (auto simp: json_lit_def split: if_splits)
qed

lemma json_skip_value_depth_shorter:
  assumes "json_skip_value_depth p d = Some q"
  shows "length q < length p"
proof -
  have "length q < length (json_ws p)"
    using assms unfolding json_skip_value_depth.simps [of p d] Let_def
    by (auto split: if_splits option.splits dest: json_string_shorter json_number_shorter
        json_skip_brackets_shorter json_lit_shorter_strict)
  then show ?thesis using json_ws_shorter [of p] by simp
qed

definition json_skip_value :: "bytes \<Rightarrow> bytes option" where
  "json_skip_value p = json_skip_value_depth p 0"

lemma json_skip_value_shorter: "json_skip_value p = Some q \<Longrightarrow> length q < length p"
  unfolding json_skip_value_def by (rule json_skip_value_depth_shorter)

subsection \<open>Raw values, minified values and message contents\<close>

definition json_raw_value :: "bytes \<Rightarrow> (bytes \<times> bytes) option" where
  "json_raw_value p0 =
     (let start = json_ws p0
      in case json_skip_value start of
           None \<Rightarrow> None
         | Some q \<Rightarrow> Some (take (length start - length q) start, q))"

fun json_minify_loop :: "bool \<Rightarrow> bool \<Rightarrow> bytes \<Rightarrow> bytes" where
  "json_minify_loop in_string escape [] = []"
| "json_minify_loop in_string escape (c # s) =
     (if in_string
      then c # (if escape then json_minify_loop True False s
                else if c = ch_bslash then json_minify_loop True True s
                else if c = ch_quote then json_minify_loop False False s
                else json_minify_loop True False s)
      else if c = ch_quote then c # json_minify_loop True escape s
      else if \<not> c_isspace c then c # json_minify_loop False escape s
      else json_minify_loop False escape s)"

definition json_minify_raw_value :: "bytes option \<Rightarrow> bytes" where
  "json_minify_raw_value json =
     (let p0 = (case json of None \<Rightarrow> lit ''null'' | Some j \<Rightarrow> j)
      in case json_raw_value p0 of
           None \<Rightarrow> p0
         | Some (raw, q) \<Rightarrow> json_minify_loop False False raw)"

text \<open>After an element of a content array: an optional comma between white space.\<close>

definition json_skip_separator :: "bytes \<Rightarrow> bytes" where
  "json_skip_separator p0 =
     (let p = json_ws p0 in json_ws (if cur p = ch_comma then drop 1 p else p))"

lemma json_skip_separator_shorter: "length (json_skip_separator p) \<le> length p"
  using json_ws_shorter [of p] json_ws_shorter [of "json_ws p"] json_ws_shorter [of "drop 1 (json_ws p)"]
  by (auto simp: json_skip_separator_def Let_def)

text \<open>The members of one content part: the text is kept, everything else skipped.\<close>

definition json_content_member :: "bytes \<Rightarrow> bytes \<Rightarrow> (bytes \<times> bytes) option" where
  "json_content_member b p =
     (case json_string p of
        None \<Rightarrow> None
      | Some (key, p1) \<Rightarrow>
          let q = json_ws p1 in
          if cur q \<noteq> ch_colon then None
          else if cstr key = lit ''text''
          then map_option (\<lambda>(s, r). (b @ cstr s, r)) (json_string (drop 1 q))
          else map_option (\<lambda>r. (b, r)) (json_skip_value (drop 1 q)))"

lemma json_content_member_shorter: "json_content_member b p = Some (b', q) \<Longrightarrow> length q < length p"
proof (cases "json_string p")
  case (Some kp)
  assume a: "json_content_member b p = Some (b', q)"
  obtain key p1 where kp: "kp = (key, p1)" by fastforce
  have "length q < length (drop 1 (json_ws p1))"
    using a Some kp by (auto simp: json_content_member_def Let_def split: if_splits
        dest!: json_string_shorter json_skip_value_shorter)
  then show ?thesis using ws_step [of p1 p 1] json_string_shorter [of p key p1] Some kp by simp
qed (simp add: json_content_member_def)

function json_content_object :: "bytes \<Rightarrow> bytes \<Rightarrow> (bytes \<times> bytes) option" where
  "json_content_object b p =
     (if cur p = 0 \<or> cur p = ch_rbrace then Some (b, p)
      else case json_content_member b p of
             None \<Rightarrow> None
           | Some (b', q) \<Rightarrow> json_content_object b' (json_skip_separator q))"
  by pat_completeness auto
termination
  by (relation "measure (\<lambda>(b, p). length p)")
    (auto dest!: json_content_member_shorter intro: le_less_trans [OF json_skip_separator_shorter])

declare json_content_object.simps [simp del]

lemma json_content_object_shorter: "json_content_object b p = Some (b', q) \<Longrightarrow> length q \<le> length p"
proof (induction b p rule: json_content_object.induct)
  case (1 b p)
  show ?case
  proof (cases "cur p = 0 \<or> cur p = ch_rbrace")
    case True
    then show ?thesis using "1.prems" by (auto simp: json_content_object.simps [of b p])
  next
    case False
    then obtain b1 r where r: "json_content_member b p = Some (b1, r)"
      using "1.prems" by (auto simp: json_content_object.simps [of b p] split: option.splits)
    then have "json_content_object b1 (json_skip_separator r) = Some (b', q)"
      using "1.prems" False by (simp add: json_content_object.simps [of b p])
    then have "length q \<le> length (json_skip_separator r)" using "1.IH" [OF False r refl] by simp
    then show ?thesis
      using json_skip_separator_shorter [of r] json_content_member_shorter [OF r] by simp
  qed
qed

definition json_content_part :: "bytes \<Rightarrow> bytes \<Rightarrow> (bytes \<times> bytes) option" where
  "json_content_part b p =
     (if cur p = ch_quote then map_option (\<lambda>(s, q). (b @ cstr s, q)) (json_string p)
      else if cur p = ch_lbrace
      then case json_content_object b (json_ws (drop 1 p)) of
             None \<Rightarrow> None
           | Some (b', q) \<Rightarrow> if cur q \<noteq> ch_rbrace then None else Some (b', drop 1 q)
      else map_option (\<lambda>q. (b, q)) (json_skip_value p))"

lemma json_content_part_shorter:
  assumes "json_content_part b p = Some (b', q)"
  shows "length q < length p"
proof (cases "cur p = ch_lbrace")
  case True
  then obtain r where r: "json_content_object b (json_ws (drop 1 p)) = Some (b', r)" and q: "q = drop 1 r"
    using assms by (auto simp: json_content_part_def split: option.splits if_splits)
  have "0 < length p" using True by (auto dest: cur_nonempty)
  then show ?thesis
    using json_content_object_shorter [OF r] json_ws_shorter [of "drop 1 p"] q
    by (simp del: length_greater_0_conv)
qed (use assms in \<open>auto simp: json_content_part_def split: if_splits
       dest!: json_string_shorter json_skip_value_shorter\<close>)

function json_content_array :: "bytes \<Rightarrow> bytes \<Rightarrow> (bytes \<times> bytes) option" where
  "json_content_array b p =
     (if cur p = 0 then None
      else if cur p = ch_rbrack then Some (b, drop 1 p)
      else case json_content_part b p of
             None \<Rightarrow> None
           | Some (b', q) \<Rightarrow> json_content_array b' (json_skip_separator q))"
  by pat_completeness auto
termination
  by (relation "measure (\<lambda>(b, p). length p)")
    (auto dest!: json_content_part_shorter intro: le_less_trans [OF json_skip_separator_shorter])

declare json_content_array.simps [simp del]

definition json_content :: "bytes \<Rightarrow> (bytes \<times> bytes) option" where
  "json_content p0 =
     (let p = json_ws p0 in
      if cur p = ch_quote then json_string p
      else case json_lit ''null'' p of
             Some q \<Rightarrow> Some ([], q)
           | None \<Rightarrow>
               if cur p \<noteq> ch_lbrack then map_option (\<lambda>q. ([], q)) (json_skip_value p)
               else json_content_array [] (json_ws (drop 1 p)))"

text \<open>Replacing a field: the old value stays when the text is refused.\<close>

definition json_string_replace :: "bytes \<Rightarrow> bytes option \<Rightarrow> bytes option \<times> bytes option" where
  "json_string_replace p dst =
     (case json_string p of None \<Rightarrow> (dst, None) | Some (s, q) \<Rightarrow> (Some s, Some q))"

definition json_raw_value_replace :: "bytes \<Rightarrow> bytes option \<Rightarrow> bytes option \<times> bytes option" where
  "json_raw_value_replace p dst =
     (case json_raw_value p of None \<Rightarrow> (dst, None) | Some (s, q) \<Rightarrow> (Some s, Some q))"

subsection \<open>Escaping\<close>

definition hex_digit :: "nat \<Rightarrow> u8" where
  "hex_digit n = (if n < 10 then of_nat (48 + n) else of_nat (87 + n))"

text \<open>One byte as \<open>json_escape\<close> writes it; \<open>%04x\<close> of a byte below 32 gives two zeros and two digits.\<close>

definition json_escape_byte :: "u8 \<Rightarrow> bytes" where
  "json_escape_byte c =
     (if c = ch_quote \<or> c = ch_bslash then [ch_bslash, c]
      else if c = 10 then [ch_bslash, 110]
      else if c = 13 then [ch_bslash, 114]
      else if c = 9 then [ch_bslash, 116]
      else if c < 0x20 then [ch_bslash, 117, 48, 48, hex_digit (unat c div 16), hex_digit (unat c mod 16)]
      else [c])"

definition json_escape :: "bytes \<Rightarrow> bytes \<Rightarrow> bytes" where
  "json_escape b s = b @ [ch_quote] @ concat (map json_escape_byte (cstr s)) @ [ch_quote]"

definition json_escape_n :: "bytes \<Rightarrow> bytes option \<Rightarrow> nat \<Rightarrow> bytes" where
  "json_escape_n b s n = json_escape b (take n (case s of None \<Rightarrow> [] | Some x \<Rightarrow> x))"

definition json_escape_fragment_n :: "bytes \<Rightarrow> bytes \<Rightarrow> nat \<Rightarrow> bytes" where
  "json_escape_fragment_n b s n = b @ concat (map json_escape_byte (take n s))"

subsection \<open>Escaping and reading back\<close>

lemma json_u16_control:
  fixes c :: u8
  assumes "c < 0x20"
  shows "json_u16 (ch_bslash # 117 # 48 # 48 # hex_digit (unat c div 16) # hex_digit (unat c mod 16) # r) = Some (ucast c, r)"
proof -
  have z: "json_hex 48 = 0" by (simp add: json_hex_def)
  have n4: "(4::nat) = Suc (Suc (Suc (Suc 0)))" by simp
  have four: "json_u16_digits 4 0 (48 # 48 # h # k # r) =
      (if json_hex h < 0 \<or> json_hex k < 0 then None
       else Some (push_bit 4 (word_of_int (json_hex h)) OR word_of_int (json_hex k)))" for h k
    unfolding n4 json_u16_digits.simps Let_def by (simp add: cur_def z)
  have "unat c < 32" using assms by (simp add: word_less_nat_alt)
  then have "unat c \<in> set (upt 0 32)" by simp
  moreover have "\<forall>n \<in> set (upt 0 32). json_hex (hex_digit (n div 16)) \<ge> 0 \<and> json_hex (hex_digit (n mod 16)) \<ge> 0 \<and>
      push_bit 4 (word_of_int (json_hex (hex_digit (n div 16)))) OR word_of_int (json_hex (hex_digit (n mod 16))) = (ucast (of_nat n :: u8) :: u32)"
    by code_simp
  ultimately have "json_hex (hex_digit (unat c div 16)) \<ge> 0 \<and> json_hex (hex_digit (unat c mod 16)) \<ge> 0 \<and>
      push_bit 4 (word_of_int (json_hex (hex_digit (unat c div 16)))) OR word_of_int (json_hex (hex_digit (unat c mod 16))) = (ucast (of_nat (unat c) :: u8) :: u32)"
    by blast
  then show ?thesis
    by (simp add: json_u16_def cur_def four)
qed

lemma json_string_loop_escape:
  "0 \<notin> set s \<Longrightarrow> json_string_loop b (concat (map json_escape_byte s) @ ch_quote # rest) = Some (b @ s, rest)"
proof (induction s arbitrary: b)
  case Nil
  then show ?case by (simp add: json_string_loop.simps)
next
  case (Cons c s)
  have "json_string_loop b (json_escape_byte c @ r) = json_string_loop (b @ [c]) r" for r
  proof -
    consider "c = ch_quote \<or> c = ch_bslash" | "c = 10" | "c = 13" | "c = 9"
      | "c < 0x20" "c \<noteq> 10" "c \<noteq> 13" "c \<noteq> 9" | "\<not> c < 0x20" "c \<noteq> ch_quote" "c \<noteq> ch_bslash" by blast
    then show ?thesis
    proof cases
      case 5
      have u: "json_u_escape (ch_bslash # 117 # 48 # 48 # hex_digit (unat c div 16) # hex_digit (unat c mod 16) # r) = Some (ucast c, r)"
      proof -
        have "unat (ucast c :: u32) = unat c" using unat_u8_bound [of c] by (simp add: unsigned_ucast_eq take_bit_eq_mod)
        then have "\<not> 0xd800 \<le> (ucast c :: u32)" using unat_u8_bound [of c] by (simp add: word_le_nat_alt)
        then show ?thesis using json_u16_control [OF 5(1), of r] by (simp add: json_u_escape_def)
      qed
      have "utf8_put b (ucast c) = b @ [c]"
      proof -
        have "unat (ucast c :: u32) = unat c" using unat_u8_bound [of c] by (simp add: unsigned_ucast_eq take_bit_eq_mod)
        then have "(ucast c :: u32) \<le> 0x7f" using 5(1) by (simp add: word_le_nat_alt word_less_nat_alt)
        moreover have "ucast (ucast c :: u32) = c" by (rule bit_word_eqI) (simp add: bit_unsigned_iff)
        ultimately show ?thesis by (simp add: utf8_put_def)
      qed
      moreover have "json_escape_byte c = [ch_bslash, 117, 48, 48, hex_digit (unat c div 16), hex_digit (unat c mod 16)]"
        using 5 by (auto simp: json_escape_byte_def)
      ultimately show ?thesis
        using u by (simp add: json_string_loop.simps(2) [of b ch_bslash] json_simple_escape_def cur_def)
    next
      case 6
      then show ?thesis using Cons.prems by (auto simp: json_escape_byte_def json_string_loop.simps(2) [of b c])
    qed (auto simp: json_escape_byte_def json_string_loop.simps(2) [of b ch_bslash] json_simple_escape_def cur_def)
  qed
  then show ?case using Cons by simp
qed

lemma cstr_no_zero: "0 \<notin> set (cstr s)"
  by (auto simp: cstr_def dest: set_takeWhileD)

text \<open>
  What the escaper writes, the parser reads back. For every C string, \<open>json_string\<close> on the
  output of \<open>json_escape\<close>, followed by any text, returns the string unchanged and stops exactly
  after the closing quote.
\<close>

theorem json_escape_roundtrip:
  "json_string (json_escape [] s @ rest) = Some (cstr s, rest)"
proof -
  have "json_ws (json_escape [] s @ rest) = json_escape [] s @ rest"
    by (simp add: json_ws_def json_escape_def c_isspace_def)
  then show ?thesis
    using json_string_loop_escape [OF cstr_no_zero, of "[]" s rest]
    by (simp add: json_string_def json_escape_def cur_def)
qed

subsection \<open>Skipping is exact on JSON texts\<close>

text \<open>
  A reference grammar: JSON values and their rendering with a string \<open>w\<close> of white space at every
  token boundary. Strings are rendered by the escaper, numbers are decimal integers. The nesting of
  a value counts its arrays and objects on the deepest path.
\<close>

datatype json = JNull | JBool bool | JNum bool bytes | JStr bytes | JArr "json list" | JObj "(bytes \<times> json) list"

fun json_join :: "bytes \<Rightarrow> bytes list \<Rightarrow> bytes" where
  "json_join sep [] = []"
| "json_join sep [x] = x"
| "json_join sep (x # y # zs) = x @ sep @ json_join sep (y # zs)"

fun json_render :: "bytes \<Rightarrow> json \<Rightarrow> bytes" where
  "json_render w JNull = lit ''null''"
| "json_render w (JBool b) = lit (if b then ''true'' else ''false'')"
| "json_render w (JNum neg ds) = (if neg then [45] else []) @ ds"
| "json_render w (JStr s) = json_escape [] s"
| "json_render w (JArr vs) = ch_lbrack # w @ json_join (w @ [ch_comma] @ w) (map (json_render w) vs) @ w @ [ch_rbrack]"
| "json_render w (JObj ms) = ch_lbrace # w @ json_join (w @ [ch_comma] @ w)
     (map (\<lambda>(k, v). json_escape [] k @ w @ [ch_colon] @ w @ json_render w v) ms) @ w @ [ch_rbrace]"

fun json_ok :: "json \<Rightarrow> bool" where
  "json_ok (JNum neg ds) \<longleftrightarrow> ds \<noteq> [] \<and> (\<forall>d \<in> set ds. c_isdigit d)"
| "json_ok (JArr vs) \<longleftrightarrow> (\<forall>v \<in> set vs. json_ok v)"
| "json_ok (JObj ms) \<longleftrightarrow> (\<forall>m \<in> set ms. json_ok (snd m))"
| "json_ok v \<longleftrightarrow> True"

fun json_nesting :: "json \<Rightarrow> nat" where
  "json_nesting (JArr vs) = Suc (Max (insert 0 (set (map json_nesting vs))))"
| "json_nesting (JObj ms) = Suc (Max (insert 0 (set (map (\<lambda>(k, v). json_nesting v) ms))))"
| "json_nesting v = 0"

definition json_delim :: "bytes \<Rightarrow> bool" where
  "json_delim r \<longleftrightarrow> r = [] \<or> c_isspace (hd r) \<or> hd r \<in> {ch_comma, ch_rbrack, ch_rbrace}"

lemma json_ws_skip: "\<forall>c \<in> set w. c_isspace c \<Longrightarrow> json_ws (w @ p) = json_ws p"
  by (simp add: json_ws_def dropWhile_append)

lemma json_ws_stay: "\<not> c_isspace c \<Longrightarrow> json_ws (c # p) = c # p"
  by (simp add: json_ws_def)

lemma json_delim_ws: "\<forall>c \<in> set w. c_isspace c \<Longrightarrow> json_delim p \<Longrightarrow> json_delim (w @ p)"
  by (cases w) (auto simp: json_delim_def)

lemma digits_prefix:
  "\<forall>d \<in> set ds. c_isdigit d \<Longrightarrow> json_delim r \<Longrightarrow> takeWhile c_isdigit (ds @ r) = ds \<and> dropWhile c_isdigit (ds @ r) = r"
  by (cases r) (auto simp: json_delim_def c_isspace_def c_isdigit_def word_le_nat_alt takeWhile_append dropWhile_append)

lemma delim_cur: "json_delim r \<Longrightarrow> cur r \<noteq> 46 \<and> c_lower (cur r) \<noteq> 101 \<and> c_lower (cur r) \<noteq> 120"
proof -
  assume "json_delim r"
  then consider "r = []" | c r' where "r = c # r'" "c = 32 \<or> 9 \<le> c \<and> c \<le> 13 \<or> c = ch_comma \<or> c = ch_rbrack \<or> c = ch_rbrace"
    by (cases r) (auto simp: json_delim_def c_isspace_def)
  then show ?thesis
  proof cases
    case 2
    have "c = 32 \<or> unat c \<le> 13 \<or> c = ch_comma \<or> c = ch_rbrack \<or> c = ch_rbrace"
      using 2(2) by (auto simp: word_le_nat_alt)
    then have "unat c \<noteq> 46 \<and> unat (c_lower c) \<noteq> 101 \<and> unat (c_lower c) \<noteq> 120"
      by (auto simp: c_lower_def word_le_nat_alt)
    then show ?thesis using 2(1) by (auto simp: cur_def)
  qed (simp add: cur_def c_lower_def)
qed

lemma json_number_digits:
  assumes "ds \<noteq> []" and "\<forall>d \<in> set ds. c_isdigit d" and "json_delim r"
  shows "\<exists>v. json_number ((if neg then [45] else []) @ ds @ r) = Some (v, r)"
proof -
  obtain d ds' where ds: "ds = d # ds'" using assms(1) by (cases ds) auto
  have d: "48 \<le> unat d" "unat d \<le> 57" using assms(2) ds by (auto simp: c_isdigit_def word_le_nat_alt)
  have nsp: "\<not> c_isspace d" using d by (auto simp: c_isspace_def word_le_nat_alt)
  have low: "c_lower d = d" using d by (auto simp: c_lower_def word_le_nat_alt)
  have sgn: "d \<noteq> 43" "d \<noteq> 45" using d by auto
  have no: "\<not> starts_nocase (x # xs) (ds @ r)" if "of_char x \<noteq> d" for x xs
    using that low by (auto simp: starts_nocase_def ds lit_def)
  have letters: "of_char (CHR ''i'') \<noteq> d" "of_char (CHR ''n'') \<noteq> d" using d by auto
  have hex: "\<not> starts_nocase ''0x'' (ds @ r)"
  proof
    assume h: "starts_nocase ''0x'' (ds @ r)"
    show False
    proof (cases ds')
      case Nil
      then show False using h delim_cur [OF assms(3)] by (cases r) (auto simp: starts_nocase_def ds lit_def cur_def)
    next
      case (Cons e es)
      then have "48 \<le> unat e" "unat e \<le> 57" using assms(2) ds by (auto simp: c_isdigit_def word_le_nat_alt)
      then have "unat (c_lower e) \<le> 57" by (auto simp: c_lower_def word_le_nat_alt)
      then show False using h by (auto simp: starts_nocase_def ds lit_def Cons)
    qed
  qed
  have "strtod_mantissa c_isdigit (ds @ r) = Some (ds, [], r)"
    using digits_prefix [OF assms(2,3)] delim_cur [OF assms(3)] assms(1) by (simp add: strtod_mantissa_def)
  moreover have "strtod_exponent 101 r = (0, r)"
    using delim_cur [OF assms(3)] by (simp add: strtod_exponent_def)
  ultimately obtain v where v: "strtod_number neg (ds @ r) = Some (v, r)"
    using hex by (simp add: strtod_number_def strtod_decimal_def)
  define p where "p = (if neg then [45] else []) @ ds @ r"
  have ws: "json_ws p = p" using nsp by (auto simp: p_def ds json_ws_def c_isspace_def)
  have "strtod p = strtod_number neg (ds @ r)"
    using no [of "CHR ''i''"] no [of "CHR ''n''"] letters sgn
    unfolding strtod_def Let_def ws by (cases neg) (simp_all add: p_def ds cur_def)
  then show ?thesis using v ws by (auto simp: json_number_def p_def)
qed

lemma json_escape_front: "json_escape [] s = ch_quote # concat (map json_escape_byte (cstr s)) @ [ch_quote]"
  by (simp add: json_escape_def)

lemma json_string_escape_ws:
  "\<forall>c \<in> set w. c_isspace c \<Longrightarrow> json_string (w @ json_escape [] s @ r) = Some (cstr s, r)"
  using json_string_loop_escape [OF cstr_no_zero, of "[]" s r]
  by (simp add: json_string_def json_ws_skip json_escape_front json_ws_stay c_isspace_def cur_def)

lemma skip_value_scalar:
  assumes w: "\<forall>c \<in> set w. c_isspace c" and ok: "json_ok v" and r: "json_delim r"
    and v: "json_nesting v = 0"
  shows "json_skip_value_depth (w @ json_render w' v @ r) d = Some r"
proof (cases v)
  case v: (JNum neg ds)
  then have ds: "ds \<noteq> []" "\<forall>d \<in> set ds. c_isdigit d" using ok by auto
  obtain x where x: "json_number ((if neg then [45] else []) @ ds @ r) = Some (x, r)"
    using json_number_digits [OF ds r] by blast
  obtain c p where p: "(if neg then [45] else []) @ ds @ r = c # p" "c = 45 \<or> c_isdigit c"
    using ds by (cases ds; cases neg) auto
  then have c: "unat c = 45 \<or> 48 \<le> unat c \<and> unat c \<le> 57" by (auto simp: c_isdigit_def word_le_nat_alt)
  then have nsp: "\<not> c_isspace c" and other: "c \<noteq> ch_quote" "c \<noteq> ch_lbrace" "c \<noteq> ch_lbrack" "c \<noteq> 116" "c \<noteq> 102" "c \<noteq> 110"
    by (auto simp: c_isspace_def word_le_nat_alt)
  then show ?thesis
    using x p v w by (simp add: json_skip_value_depth.simps json_ws_skip json_ws_stay cur_def json_lit_def lit_def)
next
  case v: (JStr s)
  show ?thesis
    using w json_string_escape_ws [of "[]" s r] v
    by (simp add: json_skip_value_depth.simps json_ws_skip json_escape_front json_ws_stay c_isspace_def cur_def)
qed (use w v in \<open>auto simp: json_skip_value_depth.simps json_ws_skip json_ws_stay c_isspace_def cur_def json_lit_def lit_def\<close>)

text \<open>A value renders to a text that does not start with white space.\<close>

lemma render_front: "json_ok v \<Longrightarrow> \<exists>c p. json_render w v = c # p \<and> \<not> c_isspace c \<and> c \<noteq> ch_rbrack \<and> c \<noteq> ch_rbrace"
proof (cases v)
  case (JNum neg ds)
  assume "json_ok v"
  then obtain d ds' where ds: "ds = d # ds'" "c_isdigit d" using JNum by (cases ds) auto
  then have "\<not> c_isspace d \<and> d \<noteq> ch_rbrack \<and> d \<noteq> ch_rbrace" by (auto simp: c_isspace_def c_isdigit_def word_le_nat_alt)
  then show ?thesis using JNum ds by (cases neg) (auto simp: c_isspace_def)
qed (auto simp: c_isspace_def lit_def json_escape_front)

abbreviation json_skips :: "bytes \<Rightarrow> json \<Rightarrow> bool" where
  "json_skips w v \<equiv> \<forall>w' r d. d \<le> JSON_MAX_NESTING \<longrightarrow> (\<forall>c \<in> set w'. c_isspace c) \<longrightarrow> json_delim r \<longrightarrow>
     json_skip_value_depth (w' @ json_render w v @ r) d =
       (if d + int (json_nesting v) \<le> JSON_MAX_NESTING then Some r else None)"

lemma skip_elements_render:
  assumes "\<forall>c \<in> set w. c_isspace c" and "\<forall>v \<in> set vs. json_skips w v" and "vs \<noteq> []" and "\<forall>c \<in> set w'. c_isspace c"
    and d: "d + 1 \<le> JSON_MAX_NESTING"
  shows "json_skip_elements (w' @ json_join (w @ [ch_comma] @ w) (map (json_render w) vs) @ w @ ch_rbrack # r) d =
    (if \<forall>v \<in> set vs. d + 1 + int (json_nesting v) \<le> JSON_MAX_NESTING then Some r else None)"
  using assms(2,3,4)
proof (induction vs arbitrary: w' rule: induct_list012)
  case (2 v)
  have "json_delim (w @ ch_rbrack # r)" using assms(1) by (intro json_delim_ws) (auto simp: json_delim_def)
  then have "json_skip_value_depth (w' @ json_render w v @ w @ ch_rbrack # r) (d + 1) =
      (if d + 1 + int (json_nesting v) \<le> JSON_MAX_NESTING then Some (w @ ch_rbrack # r) else None)"
    using 2 d by simp
  then show ?case
    using assms(1) by (simp add: json_skip_elements.simps json_ws_skip json_ws_stay c_isspace_def cur_def)
next
  case (3 v u vs)
  define tail where "tail = w @ json_join (w @ [ch_comma] @ w) (map (json_render w) (u # vs)) @ w @ ch_rbrack # r"
  have "json_delim (w @ ch_comma # tail)" using assms(1) by (intro json_delim_ws) (auto simp: json_delim_def)
  then have v: "json_skip_value_depth (w' @ json_render w v @ w @ ch_comma # tail) (d + 1) =
      (if d + 1 + int (json_nesting v) \<le> JSON_MAX_NESTING then Some (w @ ch_comma # tail) else None)"
    using 3 d by simp
  have rest: "json_skip_elements tail d =
      (if \<forall>v \<in> set (u # vs). d + 1 + int (json_nesting v) \<le> JSON_MAX_NESTING then Some r else None)"
    unfolding tail_def using 3 assms(1) by (intro "3.IH"(2)) auto
  have shape: "w' @ json_join (w @ [ch_comma] @ w) (map (json_render w) (v # u # vs)) @ w @ ch_rbrack # r =
      w' @ json_render w v @ w @ ch_comma # tail" by (simp add: tail_def)
  show ?case
    unfolding shape
    by (subst json_skip_elements.simps)
      (auto simp: v rest json_ws_skip [OF assms(1)] json_ws_stay c_isspace_def cur_def)
qed simp

abbreviation json_member :: "bytes \<Rightarrow> bytes \<times> json \<Rightarrow> bytes" where
  "json_member w \<equiv> \<lambda>(k, v). json_escape [] k @ w @ [ch_colon] @ w @ json_render w v"

lemma skip_member_render:
  assumes w: "\<forall>c \<in> set w. c_isspace c" and v: "json_skips w (snd m)" and w': "\<forall>c \<in> set w'. c_isspace c"
    and r: "json_delim r" and d: "d + 1 \<le> JSON_MAX_NESTING"
  shows "json_skip_members (w' @ json_member w m @ r) d =
    (if d + 1 + int (json_nesting (snd m)) \<le> JSON_MAX_NESTING
     then (let q = json_ws r in if cur q = ch_rbrace then Some (drop 1 q) else if cur q \<noteq> ch_comma then None
           else json_skip_members (drop 1 q) d)
     else None)"
proof -
  obtain k x where m: "m = (k, x)" by fastforce
  have "json_string (w' @ json_member w m @ r) = Some (cstr k, w @ ch_colon # w @ json_render w x @ r)"
    using json_string_escape_ws [OF w', of k] m by simp
  moreover have "json_skip_value_depth (w @ json_render w x @ r) (d + 1) =
      (if d + 1 + int (json_nesting x) \<le> JSON_MAX_NESTING then Some r else None)"
    using v w r m d by simp
  ultimately show ?thesis
    using w m by (subst json_skip_members.simps)
      (simp add: json_ws_skip json_ws_stay c_isspace_def cur_def Let_def)
qed

lemma skip_members_render:
  assumes w: "\<forall>c \<in> set w. c_isspace c" and "\<forall>m \<in> set ms. json_skips w (snd m)" and "ms \<noteq> []" and "\<forall>c \<in> set w'. c_isspace c"
    and d: "d + 1 \<le> JSON_MAX_NESTING"
  shows "json_skip_members (w' @ json_join (w @ [ch_comma] @ w) (map (json_member w) ms) @ w @ ch_rbrace # r) d =
    (if \<forall>m \<in> set ms. d + 1 + int (json_nesting (snd m)) \<le> JSON_MAX_NESTING then Some r else None)"
  using assms(2,3,4)
proof (induction ms arbitrary: w' rule: induct_list012)
  case (2 m)
  have "json_delim (w @ ch_rbrace # r)" using w by (intro json_delim_ws) (auto simp: json_delim_def)
  then show ?case
    using skip_member_render [OF w, of m w' "w @ ch_rbrace # r" d] 2 w d
    by (simp add: json_ws_skip json_ws_stay c_isspace_def cur_def)
next
  case (3 m n ms)
  define tail where "tail = w @ json_join (w @ [ch_comma] @ w) (map (json_member w) (n # ms)) @ w @ ch_rbrace # r"
  have "json_delim (w @ ch_comma # tail)" using w by (intro json_delim_ws) (auto simp: json_delim_def)
  then have v: "json_skip_members (w' @ json_member w m @ w @ ch_comma # tail) d =
      (if d + 1 + int (json_nesting (snd m)) \<le> JSON_MAX_NESTING then json_skip_members tail d else None)"
    using skip_member_render [OF w, of m w' "w @ ch_comma # tail" d] 3 w d
    by (simp add: json_ws_skip json_ws_stay c_isspace_def cur_def)
  have rest: "json_skip_members tail d =
      (if \<forall>m \<in> set (n # ms). d + 1 + int (json_nesting (snd m)) \<le> JSON_MAX_NESTING then Some r else None)"
    unfolding tail_def using 3 w by (intro "3.IH"(2)) auto
  have shape: "w' @ json_join (w @ [ch_comma] @ w) (map (json_member w) (m # n # ms)) @ w @ ch_rbrace # r =
      w' @ json_member w m @ w @ ch_comma # tail" by (simp add: tail_def split: prod.splits)
  show ?case unfolding shape v rest by auto
qed simp

lemma max_le_iff_all: "finite A \<Longrightarrow> d + int (Suc (Max (insert 0 A))) \<le> n \<longleftrightarrow> d + 1 \<le> n \<and> (\<forall>x \<in> A. d + 1 + int x \<le> n)"
proof -
  assume "finite A"
  then have "Max (insert 0 A) \<le> k \<longleftrightarrow> (\<forall>x \<in> A. x \<le> k)" for k by simp
  moreover have "d + int (Suc x) \<le> n \<longleftrightarrow> d + 1 \<le> n \<and> x \<le> nat (n - d - 1)" for x by auto
  moreover have "x \<le> nat (n - d - 1) \<longleftrightarrow> d + 1 + int x \<le> n" if "d + 1 \<le> n" for x using that by auto
  ultimately show ?thesis by metis
qed

lemma skips_brackets:
  assumes w: "\<forall>c \<in> set w. c_isspace c" and w': "\<forall>c \<in> set w'. c_isspace c"
  shows "(\<forall>v \<in> set vs. json_ok v \<and> json_skips w v) \<Longrightarrow>
      json_skip_value_depth (w' @ json_render w (JArr vs) @ r) d =
        (if d + int (json_nesting (JArr vs)) \<le> JSON_MAX_NESTING then Some r else None)"
    and "(\<forall>m \<in> set ms. json_skips w (snd m)) \<Longrightarrow>
      json_skip_value_depth (w' @ json_render w (JObj ms) @ r) d =
        (if d + int (json_nesting (JObj ms)) \<le> JSON_MAX_NESTING then Some r else None)"
proof -
  assume vs: "\<forall>v \<in> set vs. json_ok v \<and> json_skips w v"
  define body where "body = json_join (w @ [ch_comma] @ w) (map (json_render w) vs)"
  have arr: "json_skip_array_depth (ch_lbrack # w @ body @ w @ ch_rbrack # r) d =
      (if d + 1 \<le> JSON_MAX_NESTING \<and> (\<forall>v \<in> set vs. d + 1 + int (json_nesting v) \<le> JSON_MAX_NESTING)
       then Some r else None)"
  proof (cases vs)
    case Nil
    then show ?thesis using w
      by (simp add: body_def json_skip_array_depth.simps json_ws_skip json_ws_stay c_isspace_def cur_def)
  next
    case (Cons v vs')
    obtain c p where c: "json_render w v = c # p" "\<not> c_isspace c" "c \<noteq> ch_rbrack"
      using render_front [of v w] vs Cons by auto
    obtain p' where b: "body = c # p'" using c Cons by (cases vs') (auto simp: body_def)
    have "d + 1 \<le> JSON_MAX_NESTING \<Longrightarrow> json_skip_elements (body @ w @ ch_rbrack # r) d =
        (if \<forall>v \<in> set vs. d + 1 + int (json_nesting v) \<le> JSON_MAX_NESTING then Some r else None)"
      unfolding body_def using skip_elements_render [OF w, of vs "[]"] vs Cons by simp
    then show ?thesis
      using b c w by (auto simp: json_skip_array_depth.simps json_ws_skip json_ws_stay c_isspace_def cur_def)
  qed
  show "json_skip_value_depth (w' @ json_render w (JArr vs) @ r) d =
        (if d + int (json_nesting (JArr vs)) \<le> JSON_MAX_NESTING then Some r else None)"
    using arr w' unfolding json_nesting.simps
    by (subst max_le_iff_all) (auto simp: json_skip_value_depth.simps json_ws_skip json_ws_stay c_isspace_def cur_def body_def)
next
  assume ms: "\<forall>m \<in> set ms. json_skips w (snd m)"
  define body where "body = json_join (w @ [ch_comma] @ w) (map (json_member w) ms)"
  have obj: "json_skip_object_depth (ch_lbrace # w @ body @ w @ ch_rbrace # r) d =
      (if d + 1 \<le> JSON_MAX_NESTING \<and> (\<forall>m \<in> set ms. d + 1 + int (json_nesting (snd m)) \<le> JSON_MAX_NESTING)
       then Some r else None)"
  proof (cases ms)
    case Nil
    then show ?thesis using w
      by (simp add: body_def json_skip_object_depth.simps json_ws_skip json_ws_stay c_isspace_def cur_def)
  next
    case (Cons m ms')
    obtain p' where b: "body = ch_quote # p'"
      using Cons by (cases m; cases ms') (auto simp: body_def json_escape_front)
    have "d + 1 \<le> JSON_MAX_NESTING \<Longrightarrow> json_skip_members (body @ w @ ch_rbrace # r) d =
        (if \<forall>m \<in> set ms. d + 1 + int (json_nesting (snd m)) \<le> JSON_MAX_NESTING then Some r else None)"
      unfolding body_def using skip_members_render [OF w, of ms "[]"] ms Cons by simp
    then show ?thesis
      using b w by (auto simp: json_skip_object_depth.simps json_ws_skip json_ws_stay c_isspace_def cur_def)
  qed
  show "json_skip_value_depth (w' @ json_render w (JObj ms) @ r) d =
        (if d + int (json_nesting (JObj ms)) \<le> JSON_MAX_NESTING then Some r else None)"
    using obj w' unfolding json_nesting.simps
    by (subst max_le_iff_all) (auto simp: json_skip_value_depth.simps json_ws_skip json_ws_stay c_isspace_def cur_def body_def
      case_prod_beta)
qed

lemma json_render_skips: "json_ok v \<Longrightarrow> \<forall>c \<in> set w. c_isspace c \<Longrightarrow> json_skips w v"
proof (induction v)
  case (JArr vs)
  then show ?case by (intro allI impI skips_brackets(1)) auto
next
  case (JObj ms)
  then show ?case by (intro allI impI skips_brackets(2)) (auto simp: snds.simps)
qed (simp_all add: skip_value_scalar del: json_render.simps)

text \<open>
  C35. Skipping a value is exact and bounded. On every rendered JSON value, with any white space
  between its tokens and followed by a delimiter, \<open>json_skip_value\<close> stops exactly after the value
  when its nesting is at most 256, and refuses it when it is deeper, however much text follows.
\<close>

theorem json_skip_render:
  assumes "json_ok v" and "\<forall>c \<in> set w. c_isspace c" and "json_delim r"
  shows "json_skip_value (w @ json_render w v @ r) = (if json_nesting v \<le> 256 then Some r else None)"
  using json_render_skips [OF assms(1,2)] assms(2,3) by (simp add: json_skip_value_def JSON_MAX_NESTING_def)

text \<open>Brackets nested to a given depth.\<close>

fun wit_nest :: "nat \<Rightarrow> json" where
  "wit_nest 0 = JNum False [49]"
| "wit_nest (Suc n) = JArr [wit_nest n]"

lemma wit_nest_ok: "json_ok (wit_nest n) \<and> json_nesting (wit_nest n) = n"
  by (induction n) (simp_all add: c_isdigit_def)

theorem json_skip_render_witness:
  "json_skip_value ([32] @ json_render [32] (wit_nest 256) @ [ch_comma]) = Some [ch_comma] \<and>
   json_skip_value ([32] @ json_render [32] (wit_nest 257) @ [ch_comma]) = None"
  using json_skip_render [of "wit_nest 256" "[32]" "[ch_comma]"] json_skip_render [of "wit_nest 257" "[32]" "[ch_comma]"]
    wit_nest_ok [of 256] wit_nest_ok [of 257] by (simp add: c_isspace_def json_delim_def)

subsection \<open>Minifying\<close>

lemma minify_outside: "\<forall>c \<in> set p. c \<noteq> ch_quote \<Longrightarrow>
  json_minify_loop False False (p @ q) = filter (\<lambda>c. \<not> c_isspace c) p @ json_minify_loop False False q"
  by (induction p) auto

lemma minify_string: "json_minify_loop True False (concat (map json_escape_byte s) @ ch_quote # q) =
    concat (map json_escape_byte s) @ ch_quote # json_minify_loop False False q"
proof (induction s)
  case (Cons c s)
  have h: "hex_digit n \<noteq> ch_bslash \<and> hex_digit n \<noteq> ch_quote" if "n < 16" for n
  proof -
    have "\<forall>n \<in> set (upt 0 16). hex_digit n \<noteq> ch_bslash \<and> hex_digit n \<noteq> ch_quote" by code_simp
    then show ?thesis using that by simp
  qed
  have "unat c div 16 < 16" using unat_u8_bound [of c] by (simp add: div_less_iff_less_mult)
  then show ?case using Cons h by (auto simp: json_escape_byte_def)
qed simp

lemma minify_escape: "json_minify_loop False False (json_escape [] s @ q) = json_escape [] s @ json_minify_loop False False q"
  by (simp add: json_escape_front minify_string)

lemma spaces_gone: "\<forall>c \<in> set w. c_isspace c \<Longrightarrow>
  json_minify_loop False False (w @ q) = json_minify_loop False False q"
  by (subst minify_outside) (auto simp: c_isspace_def)

abbreviation json_minifies :: "bytes \<Rightarrow> json \<Rightarrow> bool" where
  "json_minifies w v \<equiv> \<forall>q. json_minify_loop False False (json_render w v @ q) =
     json_render [] v @ json_minify_loop False False q"

lemma minify_join:
  assumes w: "\<forall>c \<in> set w. c_isspace c"
    and "\<forall>x \<in> set xs. \<forall>q. json_minify_loop False False (f x @ q) = g x @ json_minify_loop False False q"
  shows "json_minify_loop False False (json_join (w @ [ch_comma] @ w) (map f xs) @ q) =
    json_join [ch_comma] (map g xs) @ json_minify_loop False False q"
  using assms(2)
  by (induction xs rule: induct_list012) (simp_all add: spaces_gone [OF w] c_isspace_def)

lemma json_render_minifies: "json_ok v \<Longrightarrow> \<forall>c \<in> set w. c_isspace c \<Longrightarrow> json_minifies w v"
proof (induction v)
  case (JNum neg ds)
  have "c \<noteq> ch_quote \<and> \<not> c_isspace c" if "c \<in> set ((if neg then [45] else []) @ ds)" for c
    using that JNum by (auto simp: c_isdigit_def c_isspace_def word_le_nat_alt split: if_splits)
  then show ?case by (subst json_render.simps, subst minify_outside) auto
next
  case (JArr vs)
  then have "\<forall>v \<in> set vs. json_minifies w v" by auto
  then show ?case
    using minify_join [OF JArr.prems(2), of vs "json_render w" "json_render []"]
    by (simp add: spaces_gone [OF JArr.prems(2)] c_isspace_def)
next
  case (JObj ms)
  have "\<forall>m \<in> set ms. \<forall>q. json_minify_loop False False (json_member w m @ q) = json_member [] m @ json_minify_loop False False q"
  proof (intro ballI allI)
    fix m q assume m: "m \<in> set ms"
    obtain k x where kx: "m = (k, x)" by fastforce
    have "json_minifies w x" using JObj m kx by (auto simp: snds.simps)
    then show "json_minify_loop False False (json_member w m @ q) = json_member [] m @ json_minify_loop False False q"
      by (simp add: kx minify_escape spaces_gone [OF JObj.prems(2)] c_isspace_def)
  qed
  then show ?case
    using minify_join [OF JObj.prems(2), of ms "json_member w" "json_member []"]
    by (simp add: spaces_gone [OF JObj.prems(2)] c_isspace_def)
qed (auto simp: lit_def c_isspace_def minify_escape)

text \<open>
  Minifying removes exactly the white space between tokens. The minified text of a rendered
  value of legal nesting is its compact rendering: the bytes inside strings, escapes and white
  space included, stay as they are, and whatever follows the value is dropped.
\<close>

theorem json_minify_render:
  assumes "json_ok v" and "\<forall>c \<in> set w. c_isspace c" and "json_delim r" and "json_nesting v \<le> 256"
  shows "json_minify_raw_value (Some (w @ json_render w v @ r)) = json_render [] v"
proof -
  obtain c p where c: "json_render w v = c # p" "\<not> c_isspace c" using render_front [OF assms(1)] by blast
  have ws: "json_ws (w @ json_render w v @ r) = json_render w v @ r"
    using assms(2) c by (simp add: json_ws_skip json_ws_stay)
  have "json_skip_value (json_render w v @ r) = Some r"
    using json_render_skips [OF assms(1,2), rule_format, of 0 "[]" r] assms(3,4)
    by (simp add: json_skip_value_def JSON_MAX_NESTING_def)
  then have "json_raw_value (w @ json_render w v @ r) = Some (json_render w v, r)"
    by (simp add: json_raw_value_def ws)
  then show ?thesis
    using json_render_minifies [OF assms(1,2), rule_format, of "[]"] by (simp add: json_minify_raw_value_def)
qed

theorem json_minify_render_witness:
  "json_minify_raw_value (Some ([10] @ json_render [10] (JObj [(lit ''a b'', JArr [JNull, JStr (lit '' c'')])]) @ [])) =
    json_render [] (JObj [(lit ''a b'', JArr [JNull, JStr (lit '' c'')])])"
  by (rule json_minify_render) (simp_all add: c_isspace_def json_delim_def)

subsection \<open>Two corner cases\<close>

text \<open>
  A high surrogate followed by an escape that is no low surrogate: the second escape is consumed
  and lost. In \<open>"\ud83d\u0041"\<close> the letter A disappears, and the lone surrogate is encoded as three
  bytes.
\<close>

lemma json_string_drops_unit:
  "json_string [34, 92, 117, 100, 56, 51, 100, 92, 117, 48, 48, 52, 49, 34] = Some ([0xed, 0xa0, 0xbd], [])"
  by code_simp

text \<open>The text \<open>nan\<close> is accepted as an integer, with an undefined conversion.\<close>

lemma json_int_nan: "json_int [110, 97, 110] = Some (None, [])"
  by code_simp

end
