(* ===== verification/Server_Text.thy ===== *)
theory Server_Text
  imports Json_Text
begin

unbundle bit_operations_syntax

section \<open>Growing buffers, stop sequences and safe cuts of streamed text\<close>

text \<open>
  The text plumbing of \<open>ds4_server.c\<close>: the \<open>buf\<close> type with its capacity, the list of stop
  sequences of a request, and the two functions that decide how much of a text that is still
  growing may be sent. A size is a 64-bit word in the buffer, where the arithmetic may wrap, and
  a natural number elsewhere, where texts in memory bound it.
\<close>

subsection \<open>Buffers\<close>

text \<open>The bytes before the terminator and the size of the allocation, 0 for no allocation.\<close>

record buf =
  b_data :: bytes
  b_cap :: u64

definition b_len :: "buf \<Rightarrow> u64" where
  "b_len b = of_nat (length (b_data b))"

definition buf_empty :: buf where
  "buf_empty = \<lparr>b_data = [], b_cap = 0\<rparr>"

text \<open>
  \<open>None\<close> stands for a call that does not return: the process exits, or the doubling wraps to
  zero and goes on forever.
\<close>

partial_function (option) buf_grow :: "u64 \<Rightarrow> u64 \<Rightarrow> u64 option" where
  "buf_grow cap need = (if cap < need then buf_grow (cap * 2) need else Some cap)"

definition buf_reserve :: "buf \<Rightarrow> u64 \<Rightarrow> buf option" where
  "buf_reserve b add =
     (if add > u64_max - b_len b - 1 then None
      else let need = b_len b + add + 1
           in if need \<le> b_cap b then Some b
              else case buf_grow (if b_cap b \<noteq> 0 then b_cap b * 2 else 256) need of
                     None \<Rightarrow> None
                   | Some cap \<Rightarrow> Some (b\<lparr>b_cap := cap\<rparr>))"

definition buf_append :: "buf \<Rightarrow> bytes \<Rightarrow> buf option" where
  "buf_append b p =
     (case buf_reserve b (of_nat (length p)) of
        None \<Rightarrow> None
      | Some b' \<Rightarrow> Some (b'\<lparr>b_data := b_data b' @ p\<rparr>))"

definition buf_putc :: "buf \<Rightarrow> u8 \<Rightarrow> buf option" where
  "buf_putc b c = buf_append b [c]"

definition buf_puts :: "buf \<Rightarrow> bytes \<Rightarrow> buf option" where
  "buf_puts b s = buf_append b (cstr s)"

definition buf_take :: "buf \<Rightarrow> bytes \<times> buf" where
  "buf_take b = (if b_cap b = 0 then ([], b) else (b_data b, buf_empty))"

definition buf_free :: "buf \<Rightarrow> buf" where
  "buf_free b = buf_empty"

text \<open>
  The invariant: no allocation and no data, or an allocation of a power of two from 256 up that
  holds the data and its terminator.
\<close>

definition buf_ok :: "buf \<Rightarrow> bool" where
  "buf_ok b \<longleftrightarrow> b_cap b = 0 \<and> b_data b = [] \<or>
     (\<exists>k. 8 \<le> k \<and> k \<le> 63 \<and> b_cap b = 2 ^ k \<and> length (b_data b) < 2 ^ k)"

lemma unat_pow2_u64: "k \<le> 63 \<Longrightarrow> unat (2 ^ k :: u64) = 2 ^ k"
proof -
  assume "k \<le> 63"
  then have "(2::nat) ^ k < 2 ^ 64" using power_strict_increasing [of k 64 "2::nat"] by simp
  then have "unat (of_nat (2 ^ k) :: u64) = 2 ^ k" by (simp only: unat_of_nat take_bit_eq_mod) simp
  then show ?thesis by simp
qed

lemma buf_grow_pow2:
  assumes "k \<le> 63" and "unat need \<le> 2 ^ 63"
  shows "\<exists>j. k \<le> j \<and> j \<le> 63 \<and> buf_grow (2 ^ k) need = Some (2 ^ j) \<and> unat need \<le> 2 ^ j"
  using assms(1)
proof (induction "63 - k" arbitrary: k)
  case 0
  then have "\<not> (2::u64) ^ k < need" using assms(2) unat_pow2_u64 [of k] by (simp add: word_less_nat_alt)
  then show ?case using 0 assms(2) by (intro exI [of _ k]) (simp add: buf_grow.simps)
next
  case (Suc n)
  show ?case
  proof (cases "(2::u64) ^ k < need")
    case True
    have "\<exists>j. Suc k \<le> j \<and> j \<le> 63 \<and> buf_grow (2 ^ Suc k) need = Some (2 ^ j) \<and> unat need \<le> 2 ^ j"
      using Suc by (intro Suc.hyps(1)) auto
    then obtain j where "Suc k \<le> j" "j \<le> 63" "buf_grow (2 ^ Suc k) need = Some (2 ^ j)" "unat need \<le> 2 ^ j" by blast
    then show ?thesis
      using True by (intro exI [of _ j]) (simp add: buf_grow.simps [of "2 ^ k"] mult.commute)
  next
    case False
    then show ?thesis
      using Suc.prems unat_pow2_u64 [of k] by (intro exI [of _ k]) (simp add: buf_grow.simps word_less_nat_alt)
  qed
qed

text \<open>
  Appending returns and keeps the buffer in order. A buffer in order, appended to while data,
  addition and terminator fit 2^63 bytes, gets the bytes after its data, and its allocation, a
  power of two, holds them with the terminator: the doubling loop ends and nothing is written out
  of bounds.
\<close>

theorem buf_append_returns:
  assumes "buf_ok b" and "length (b_data b) + length p + 1 \<le> 2 ^ 63"
  shows "\<exists>b'. buf_append b p = Some b' \<and> b_data b' = b_data b @ p \<and> buf_ok b' \<and>
    length (b_data b') + 1 \<le> unat (b_cap b')"
proof -
  define n where "n = length (b_data b) + length p + 1"
  have n: "n < 2 ^ 64" "n \<le> 2 ^ 63" using assms(2) by (simp_all add: n_def)
  have len: "unat (b_len b) = length (b_data b)" "unat (of_nat (length p) :: u64) = length p"
    using n by (simp_all add: b_len_def n_def unat_of_nat take_bit_eq_mod)
  have need: "b_len b + of_nat (length p) + 1 = of_nat n" by (simp add: b_len_def n_def)
  have un: "unat (of_nat n :: u64) = n" using n by (simp add: unat_of_nat take_bit_eq_mod)
  have "(1::u64) \<le> u64_max - b_len b" using unat_max_minus [of "b_len b"] len n by (simp add: word_le_nat_alt n_def)
  then have "unat (u64_max - b_len b - 1) = 2 ^ 64 - 1 - length (b_data b) - 1"
    using unat_sub [of 1 "u64_max - b_len b"] unat_max_minus [of "b_len b"] len(1) by simp
  then have fits: "\<not> of_nat (length p) > u64_max - b_len b - 1"
    using n len by (simp add: word_less_nat_alt n_def)
  have app: "\<exists>b'. buf_append b p = Some b' \<and> b_data b' = b_data b @ p \<and> buf_ok b' \<and>
      length (b_data b') + 1 \<le> unat (b_cap b')"
    if "\<exists>j. 8 \<le> j \<and> j \<le> 63 \<and> buf_reserve b (of_nat (length p)) = Some (b\<lparr>b_cap := 2 ^ j\<rparr>) \<and> n \<le> 2 ^ j"
  proof -
    from that obtain j where j: "8 \<le> j" "j \<le> 63" "n \<le> 2 ^ j"
      "buf_reserve b (of_nat (length p)) = Some (b\<lparr>b_cap := 2 ^ j\<rparr>)" by blast
    then have "buf_append b p = Some (b\<lparr>b_cap := 2 ^ j, b_data := b_data b @ p\<rparr>)" by (simp add: buf_append_def)
    moreover have "buf_ok (b\<lparr>b_cap := 2 ^ j, b_data := b_data b @ p\<rparr>)"
      unfolding buf_ok_def using j by (intro disjI2 exI [of _ j]) (simp add: n_def)
    ultimately show ?thesis using j unat_pow2_u64 [of j] by (simp add: n_def)
  qed
  show ?thesis
  proof (cases "of_nat n \<le> b_cap b")
    case True
    then have "b_cap b \<noteq> 0" using un by (auto simp: word_le_nat_alt n_def)
    then obtain k where k: "8 \<le> k" "k \<le> 63" "b_cap b = 2 ^ k" using assms(1) by (auto simp: buf_ok_def)
    have "buf_reserve b (of_nat (length p)) = Some b"
      using True fits need by (simp add: buf_reserve_def Let_def)
    moreover have "b = b\<lparr>b_cap := 2 ^ k\<rparr>" using k by simp
    moreover have "n \<le> 2 ^ k" using True un unat_pow2_u64 [OF k(2)] k by (simp add: word_le_nat_alt)
    ultimately show ?thesis using k by (intro app exI [of _ k]) simp
  next
    case False
    define c where "c = (if b_cap b \<noteq> 0 then b_cap b * 2 else 256)"
    have "\<exists>k. 8 \<le> k \<and> k \<le> 63 \<and> c = 2 ^ k"
    proof (cases "b_cap b = 0")
      case True
      then show ?thesis by (intro exI [of _ 8]) (simp add: c_def)
    next
      case cap: False
      then obtain k where k: "8 \<le> k" "k \<le> 63" "b_cap b = 2 ^ k" using assms(1) by (auto simp: buf_ok_def)
      have "2 ^ k < n" using False un unat_pow2_u64 [OF k(2)] k by (simp add: word_le_nat_alt not_le)
      then have "(2::nat) ^ k < 2 ^ 63" using n by linarith
      then have "k < 63" by (rule power_less_imp_less_exp [rotated]) simp
      then show ?thesis using k cap by (intro exI [of _ "Suc k"]) (simp add: c_def mult.commute)
    qed
    then obtain k where k: "8 \<le> k" "k \<le> 63" "c = 2 ^ k" by blast
    obtain j where "k \<le> j" "j \<le> 63" "buf_grow c (of_nat n) = Some (2 ^ j)" "n \<le> 2 ^ j"
      using buf_grow_pow2 [OF k(2), of "of_nat n"] un n k(3) by auto
    then show ?thesis
      using False fits need k by (intro app exI [of _ j]) (simp add: buf_reserve_def Let_def c_def)
  qed
qed

theorem buf_append_returns_witness:
  "\<exists>b'. buf_append buf_empty [1, 2, 3] = Some b' \<and> b_data b' = [1, 2, 3] \<and> 4 \<le> unat (b_cap b')"
  using buf_append_returns [of buf_empty "[1, 2, 3]"] by (auto simp: buf_ok_def buf_empty_def)

subsection \<open>Stop sequences\<close>

record stop_list =
  sl_v :: "bytes list"
  sl_max_len :: nat

definition stop_list_clear :: "stop_list \<Rightarrow> stop_list" where
  "stop_list_clear stops = stops\<lparr>sl_v := [], sl_max_len := 0\<rparr>"

definition stop_list_push :: "stop_list \<Rightarrow> bytes option \<Rightarrow> stop_list" where
  "stop_list_push stops so =
     (case so of
        None \<Rightarrow> stops
      | Some s0 \<Rightarrow>
          let s = cstr s0
          in if s = [] then stops
             else stops\<lparr>sl_v := sl_v stops @ [s], sl_max_len := max (sl_max_len stops) (length s)\<rparr>)"

text \<open>The elements of an array of stops: strings are kept, other values skipped.\<close>

function parse_stop_array :: "bytes \<Rightarrow> stop_list \<Rightarrow> stop_list \<times> bytes option" where
  "parse_stop_array p out =
     (if cur p = 0 then (out, None)
      else if cur p = ch_rbrack then (out, Some (drop 1 p))
      else if cur p = ch_quote
      then case json_string p of
             None \<Rightarrow> (out, None)
           | Some (s, q) \<Rightarrow> parse_stop_array (json_skip_separator q) (stop_list_push out (Some s))
      else case json_skip_value p of
             None \<Rightarrow> (out, None)
           | Some q \<Rightarrow> parse_stop_array (json_skip_separator q) out)"
  by pat_completeness auto
termination
  by (relation "measure (\<lambda>(p, out). length p)")
    (auto dest!: json_string_shorter json_skip_value_shorter intro: le_less_trans [OF json_skip_separator_shorter])

declare parse_stop_array.simps [simp del]

definition parse_stop :: "bytes \<Rightarrow> stop_list \<Rightarrow> stop_list \<times> bytes option" where
  "parse_stop p0 out0 =
     (let p = json_ws p0; out = stop_list_clear out0 in
      if cur p = ch_quote
      then case json_string p of
             None \<Rightarrow> (out, None)
           | Some (s, q) \<Rightarrow> (stop_list_push out (Some s), Some q)
      else if cur p \<noteq> ch_lbrack then (out, json_skip_value p)
      else parse_stop_array (json_ws (drop 1 p)) out)"

text \<open>\<open>strstr\<close>: the offset of the first occurrence.\<close>

fun strstr :: "bytes \<Rightarrow> bytes \<Rightarrow> nat option" where
  "strstr [] needle = (if needle = [] then Some 0 else None)"
| "strstr (c # s) needle =
     (if take (length needle) (c # s) = needle then Some 0 else map_option Suc (strstr s needle))"

text \<open>
  The loop keeps the position and the length of the best stop; both are those of the stop itself,
  so it is the index scan of the prelude over the stops that occur, with an earlier position
  better.
\<close>

definition stop_pos :: "bytes \<Rightarrow> nat \<Rightarrow> bytes \<Rightarrow> nat option" where
  "stop_pos t start s = map_option ((+) start) (strstr (drop start t) s)"

definition stop_list_find_from :: "stop_list \<Rightarrow> bytes option \<Rightarrow> nat \<Rightarrow> (nat \<times> nat) option" where
  "stop_list_find_from stops txto start =
     (case txto of
        None \<Rightarrow> None
      | Some t \<Rightarrow>
          map_option (\<lambda>(i, s). (the (stop_pos t start s), length s))
            (scan_best (\<lambda>s. stop_pos t start s \<noteq> None) (\<lambda>s b. the (stop_pos t start s) < the (stop_pos t start b))
               0 (sl_v stops) None))"

definition stop_list_stream_safe_len :: "stop_list \<Rightarrow> nat \<Rightarrow> nat" where
  "stop_list_stream_safe_len stops text_len =
     (if sl_v stops = [] \<or> sl_max_len stops \<le> 1 then text_len
      else let hold = sl_max_len stops - 1
           in if text_len > hold then text_len - hold else 0)"

text \<open>Lists built by pushing: no empty stop, and the longest length is recorded.\<close>

definition stop_list_ok :: "stop_list \<Rightarrow> bool" where
  "stop_list_ok stops \<longleftrightarrow> (\<forall>s \<in> set (sl_v stops). s \<noteq> [] \<and> length s \<le> sl_max_len stops \<and> 0 \<notin> set s)"

lemma cstr_no_0 [simp]: "0 \<notin> set (cstr s)"
  by (auto simp: cstr_def dest: set_takeWhileD)

lemma stop_list_push_ok: "stop_list_ok st \<Longrightarrow> stop_list_ok (stop_list_push st s)"
  by (fastforce simp: stop_list_ok_def stop_list_push_def Let_def split: option.splits)

lemma parse_stop_array_ok: "stop_list_ok st \<Longrightarrow> stop_list_ok (fst (parse_stop_array p st))"
proof (induction p st rule: parse_stop_array.induct)
  case (1 p out)
  then show ?case
    using stop_list_push_ok [OF "1.prems"]
    by (subst parse_stop_array.simps) (auto split: option.splits prod.splits)
qed

lemma parse_stop_ok: "stop_list_ok (fst (parse_stop p st))"
  by (auto simp: parse_stop_def Let_def split: option.splits intro!: stop_list_push_ok parse_stop_array_ok)
    (auto simp: stop_list_ok_def stop_list_clear_def)

definition occurs_at :: "bytes \<Rightarrow> bytes \<Rightarrow> nat \<Rightarrow> bool" where
  "occurs_at t s k \<longleftrightarrow> take (length s) (drop k t) = s \<and> k + length s \<le> length t"

lemma strstr_spec: "s \<noteq> [] \<Longrightarrow>
  (case strstr t s of None \<Rightarrow> \<forall>k. \<not> occurs_at t s k | Some k \<Rightarrow> occurs_at t s k \<and> (\<forall>j < k. \<not> occurs_at t s j))"
proof (induction t)
  case Nil
  then show ?case by (simp add: occurs_at_def)
next
  case (Cons c t)
  have suc: "occurs_at (c # t) s (Suc k) \<longleftrightarrow> occurs_at t s k" for k by (simp add: occurs_at_def)
  have zero: "occurs_at (c # t) s 0 \<longleftrightarrow> take (length s) (c # t) = s"
  proof -
    have "length s \<le> length (c # t)" if "take (length s) (c # t) = s"
      using arg_cong [OF that, of length] by simp
    then show ?thesis unfolding occurs_at_def by auto
  qed
  show ?case
  proof (cases "take (length s) (c # t) = s")
    case True
    then show ?thesis using zero by simp
  next
    case False
    have all: "(\<forall>j < Suc k. P j) \<longleftrightarrow> P 0 \<and> (\<forall>j < k. P (Suc j))" for P k by (simp add: All_less_Suc2)
    have every: "(\<forall>k. P k) \<longleftrightarrow> P 0 \<and> (\<forall>k. P (Suc k))" for P :: "nat \<Rightarrow> bool" by (metis not0_implies_Suc)
    show ?thesis
      using False Cons zero every [of "\<lambda>k. \<not> occurs_at (c # t) s k"]
      by (auto split: option.splits simp: suc all)
  qed
qed

lemma occurs_at_drop: "start \<le> length t \<Longrightarrow> occurs_at (drop start t) s k \<longleftrightarrow> occurs_at t s (start + k)"
  by (auto simp: occurs_at_def add.commute)

lemma stop_pos_spec:
  assumes "s \<noteq> []" and "start \<le> length t"
  shows "case stop_pos t start s of
      None \<Rightarrow> \<forall>k \<ge> start. \<not> occurs_at t s k
    | Some p \<Rightarrow> start \<le> p \<and> occurs_at t s p \<and> (\<forall>k \<ge> start. occurs_at t s k \<longrightarrow> p \<le> k)"
proof -
  have shift: "(\<forall>k \<ge> start. P k) \<longleftrightarrow> (\<forall>j. P (start + j))" for P by (metis le_add1 le_Suc_ex)
  show ?thesis
    using strstr_spec [OF assms(1), of "drop start t"]
    by (auto simp: stop_pos_def shift occurs_at_drop [OF assms(2)] split: option.splits)
      (meson linorder_not_le)
qed

interpretation stop_scan: best_scan "\<lambda>s. stop_pos t start s \<noteq> None"
    "\<lambda>s b. the (stop_pos t start s) < the (stop_pos t start b)" for t start
  by unfold_locales auto

lemma stop_list_find_from_None:
  assumes "stop_list_ok stops" and "start \<le> length t"
  shows "stop_list_find_from stops (Some t) start = None \<longleftrightarrow> (\<forall>s \<in> set (sl_v stops). \<forall>k \<ge> start. \<not> occurs_at t s k)"
proof -
  have "stop_pos t start s = None \<longleftrightarrow> (\<forall>k \<ge> start. \<not> occurs_at t s k)" if "s \<in> set (sl_v stops)" for s
    using stop_pos_spec [of s, OF _ assms(2)] that assms(1) by (auto simp: stop_list_ok_def split: option.splits)
  then show ?thesis using stop_scan.scan_None_iff [of t start 0 "sl_v stops"] by (simp add: stop_list_find_from_def del: not_None_eq)
qed

lemma stop_list_find_from_Some:
  assumes "stop_list_ok stops" and "start \<le> length t" and "stop_list_find_from stops (Some t) start = Some (p, l)"
  shows "\<exists>s \<in> set (sl_v stops). length s = l \<and> start \<le> p \<and> occurs_at t s p"
    and "\<forall>s \<in> set (sl_v stops). \<forall>k \<ge> start. occurs_at t s k \<longrightarrow> p \<le> k"
proof -
  obtain i s where scan: "scan_best (\<lambda>s. stop_pos t start s \<noteq> None)
        (\<lambda>s b. the (stop_pos t start s) < the (stop_pos t start b)) 0 (sl_v stops) None = Some (i, s)"
    and p: "p = the (stop_pos t start s)" and l: "l = length s"
    using assms(3) by (auto simp: stop_list_find_from_def)
  note best = stop_scan.scan_Some [OF scan]
  have s: "s \<in> set (sl_v stops)" using best by auto
  have pos: "case stop_pos t start x of
      None \<Rightarrow> \<forall>k \<ge> start. \<not> occurs_at t x k
    | Some p \<Rightarrow> start \<le> p \<and> occurs_at t x p \<and> (\<forall>k \<ge> start. occurs_at t x k \<longrightarrow> p \<le> k)" if "x \<in> set (sl_v stops)" for x
    using stop_pos_spec [of x, OF _ assms(2)] that assms(1) by (auto simp: stop_list_ok_def)
  show "\<exists>s \<in> set (sl_v stops). length s = l \<and> start \<le> p \<and> occurs_at t s p"
    using pos [OF s] s best p l by (auto split: option.splits)
  show "\<forall>s \<in> set (sl_v stops). \<forall>k \<ge> start. occurs_at t s k \<longrightarrow> p \<le> k"
  proof (intro ballI allI impI)
    fix x k assume x: "x \<in> set (sl_v stops)" "start \<le> k" "occurs_at t x k"
    then obtain q where q: "stop_pos t start x = Some q" "q \<le> k" using pos [OF x(1)] by (auto split: option.splits)
    then have "\<not> the (stop_pos t start x) < the (stop_pos t start s)" using best x(1) by auto
    then show "p \<le> k" using p q by simp
  qed
qed

text \<open>
  Streaming never leaks the beginning of a stop sequence. With a stop list of a parsed request,
  when no stop occurs in the text generated so far, the part that \<open>stop_list_stream_safe_len\<close>
  releases ends at or before the first stop of every longer text, wherever \<open>stop_list_find_from\<close>
  finds it later.
\<close>

theorem stop_stream_safe:
  assumes "stops = fst (parse_stop body st0)"
    and "stop_list_find_from stops (Some t) 0 = None"
    and "stop_list_find_from stops (Some (t @ u)) 0 = Some (pos, len)"
  shows "stop_list_stream_safe_len stops (length t) \<le> pos"
proof -
  have ok: "stop_list_ok stops" using parse_stop_ok assms(1) by simp
  obtain s where s: "s \<in> set (sl_v stops)" "occurs_at (t @ u) s pos"
    using stop_list_find_from_Some(1) [OF ok _ assms(3)] by auto
  have len: "length s \<le> sl_max_len stops" using ok s by (auto simp: stop_list_ok_def)
  have "\<not> occurs_at t s pos" using stop_list_find_from_None [OF ok, of 0 t] assms(2) s by auto
  then have "length t < pos + length s"
    using s(2) by (cases "pos + length s \<le> length t") (auto simp: occurs_at_def)
  then show ?thesis using len s by (auto simp: stop_list_stream_safe_len_def Let_def)
qed

definition wit_stop_body :: bytes where
  "wit_stop_body = [34, 69, 78, 68, 34]"

theorem stop_stream_safe_witness:
  "let stops = fst (parse_stop wit_stop_body \<lparr>sl_v = [], sl_max_len = 0\<rparr>)
   in stop_list_find_from stops (Some (lit ''abE'' @ lit ''ND'')) 0 = Some (2, 3) \<and>
      stop_list_stream_safe_len stops 3 \<le> 2"
proof -
  let ?st = "\<lparr>sl_v = [], sl_max_len = 0\<rparr>"
  have none: "stop_list_find_from (fst (parse_stop wit_stop_body ?st)) (Some (lit ''abE'')) 0 = None"
    and some: "stop_list_find_from (fst (parse_stop wit_stop_body ?st)) (Some (lit ''abE'' @ lit ''ND'')) 0 = Some (2, 3)"
    by code_simp+
  show ?thesis
    using some stop_stream_safe [OF refl none some] by (simp add: Let_def lit_def numeral_3_eq_3 [symmetric])
qed

subsection \<open>Cutting at a character boundary\<close>

definition utf8_expected_len :: "u8 \<Rightarrow> nat" where
  "utf8_expected_len c =
     (if c < 0x80 then 1
      else if 0xc2 \<le> c \<and> c \<le> 0xdf then 2
      else if 0xe0 \<le> c \<and> c \<le> 0xef then 3
      else if 0xf0 \<le> c \<and> c \<le> 0xf4 then 4
      else 1)"

definition utf8_cont :: "u8 \<Rightarrow> bool" where
  "utf8_cont c \<longleftrightarrow> c AND 0xc0 = 0x80"

text \<open>The loop that walks back over at most four continuation bytes.\<close>

function utf8_walk_back :: "bytes \<Rightarrow> nat \<Rightarrow> nat \<Rightarrow> nat \<Rightarrow> nat" where
  "utf8_walk_back s start p cont =
     (if p > start \<and> cont < 4 \<and> utf8_cont (s ! (p - 1))
      then utf8_walk_back s start (p - 1) (Suc cont) else p)"
  by pat_completeness auto
termination
  by (relation "measure (\<lambda>(s, start, p, cont). p)") auto

declare utf8_walk_back.simps [simp del]

definition utf8_stream_safe_len :: "bytes option \<Rightarrow> nat \<Rightarrow> nat \<Rightarrow> nat" where
  "utf8_stream_safe_len so start limit =
     (case so of
        None \<Rightarrow> limit
      | Some s \<Rightarrow>
          if limit \<le> start then limit
          else let p = utf8_walk_back s start limit 0 in
          if p = limit then if utf8_expected_len (s ! (limit - 1)) > 1 then limit - 1 else limit
          else if p = start \<and> utf8_cont (s ! p) then start
          else let lead = p - 1; need = utf8_expected_len (s ! lead)
               in if limit - lead < need then lead else limit)"

definition utf8_trim_tail_dup :: "bytes option \<Rightarrow> bytes option" where
  "utf8_trim_tail_dup so =
     (case so of None \<Rightarrow> None
      | Some s \<Rightarrow> Some (take (utf8_stream_safe_len (Some (cstr s)) 0 (length (cstr s))) (cstr s)))"

text \<open>
  A character of UTF-8 by its shape: a lead byte that announces the length, then continuation
  bytes.
\<close>

definition utf8_char :: "bytes \<Rightarrow> bool" where
  "utf8_char u \<longleftrightarrow> u \<noteq> [] \<and> \<not> utf8_cont (hd u) \<and> length u = utf8_expected_len (hd u) \<and>
     (\<forall>c \<in> set (tl u). utf8_cont c)"

lemma utf8_char_length: "utf8_char u \<Longrightarrow> 1 \<le> length u \<and> length u \<le> 4"
  by (auto simp: utf8_char_def utf8_expected_len_def)

lemma utf8_walk_back_conts:
  assumes "\<forall>c \<in> set t. utf8_cont c" and "start \<le> length a" and "cont + length t \<le> 3"
    and "start = length a \<or> \<not> utf8_cont (last a)"
  shows "utf8_walk_back (a @ t) start (length a + length t) cont = length a"
  using assms(1,3)
proof (induction t arbitrary: cont rule: rev_induct)
  case Nil
  have "last a = a ! (length a - 1)" if "start < length a" using that by (intro last_conv_nth) auto
  then show ?case using assms(2,4) by (subst utf8_walk_back.simps) auto
next
  case (snoc c t)
  have "utf8_walk_back (a @ t @ [c]) start (length a + length t) (Suc cont) =
      utf8_walk_back (a @ t) start (length a + length t) (Suc cont)" for cont
  proof -
    have "utf8_walk_back (x @ y) start p k = utf8_walk_back x start p k" if "p \<le> length x" for x y p k
      using that
    proof (induction x start p k rule: utf8_walk_back.induct)
      case (1 s start p cont)
      then show ?case
        by (subst (1 2) utf8_walk_back.simps) (auto simp: nth_append)
    qed
    from this [of "length a + length t" "a @ t" "[c]"] show ?thesis by simp
  qed
  then show ?case
    using snoc assms(2) by (subst utf8_walk_back.simps) (auto simp: nth_append)
qed

lemma utf8_safe_after_lead:
  assumes t: "\<forall>x \<in> set t. utf8_cont x" and "length t \<le> 3" and c: "\<not> utf8_cont c" and "start \<le> length a"
  shows "utf8_stream_safe_len (Some (a @ c # t)) start (length a + Suc (length t)) =
    (if Suc (length t) < utf8_expected_len c then length a else length a + Suc (length t))"
proof -
  have w: "utf8_walk_back (a @ c # t) start (Suc (length a + length t)) 0 = Suc (length a)"
    using utf8_walk_back_conts [OF t, of start "a @ [c]" 0] assms(2-4) by simp
  show ?thesis
  proof (cases t)
    case Nil
    then show ?thesis using w assms(4) by (simp add: utf8_stream_safe_len_def Let_def)
  next
    case (Cons x y)
    then have "Suc (length a) \<noteq> Suc (length a + length t)" by simp
    moreover have "start \<noteq> Suc (length a)" using assms(4) by simp
    moreover have "(a @ c # t) ! length a = c" by simp
    ultimately show ?thesis using w assms(4) by (simp add: utf8_stream_safe_len_def Let_def)
  qed
qed

text \<open>
  A streamed text is cut exactly before an unfinished character. When the text after the start
  is a sequence of whole UTF-8 characters followed by a proper beginning of one more, the length
  \<open>utf8_stream_safe_len\<close> allows is that of the whole characters: nothing incomplete is sent and
  no complete character is held back.
\<close>

theorem utf8_stream_cut:
  assumes "\<forall>u \<in> set us. utf8_char u" and "utf8_char v" and "k < length v"
  shows "utf8_stream_safe_len (Some (pre @ concat us @ take k v)) (length pre) (length pre + length (concat us) + k) =
    length pre + length (concat us)"
proof -
  define a where "a = pre @ concat us"
  have len: "length a + k = length pre + length (concat us) + k" "length pre \<le> length a" by (simp_all add: a_def)
  have cut: "utf8_stream_safe_len (Some (a @ take k v)) (length pre) (length a + k) = length a"
  proof (cases "k = 0")
    case True
    show ?thesis
    proof (cases us rule: rev_cases)
      case Nil
      then show ?thesis using True by (simp add: utf8_stream_safe_len_def a_def)
    next
      case (snoc us' u)
      obtain c t where u: "u = c # t" and c: "\<not> utf8_cont c" and t: "\<forall>x \<in> set t. utf8_cont x"
        and n: "Suc (length t) = utf8_expected_len c"
        using assms(1) snoc by (cases u) (auto simp: utf8_char_def)
      have "length t \<le> 3" using utf8_char_length [of u] assms(1) snoc u by simp
      then show ?thesis
        using utf8_safe_after_lead [OF t _ c, of "length pre" "pre @ concat us'"] True n
        by (simp add: a_def snoc u add.assoc)
    qed
  next
    case False
    obtain c t where v: "v = c # t" and c: "\<not> utf8_cont c" and t: "\<forall>x \<in> set t. utf8_cont x"
      and n: "Suc (length t) = utf8_expected_len c"
      using assms(2) by (cases v) (auto simp: utf8_char_def)
    obtain j where j: "k = Suc j" "j < length t" using False assms(3) v by (cases k) auto
    have "length t \<le> 3" using utf8_char_length [of v] assms(2) v by simp
    then show ?thesis
      using utf8_safe_after_lead [of "take j t" c "length pre" a] t c n j len(2)
      by (auto simp: v dest: in_set_takeD)
  qed
  then show ?thesis by (simp add: a_def add.assoc)
qed

theorem utf8_stream_cut_witness:
  "utf8_stream_safe_len (Some ([] @ concat [[65], [0xc3, 0xa9]] @ take 2 [0xe2, 0x82, 0xac])) (length ([] :: bytes))
     (length ([] :: bytes) + length (concat [[65], [0xc3, 0xa9 :: u8]]) + 2) = 3"
  using utf8_stream_cut [of "[[65], [0xc3, 0xa9]]" "[0xe2, 0x82, 0xac]" 2 "[]"]
  by (simp add: utf8_char_def utf8_expected_len_def utf8_cont_def)

end
