(* ===== verification/Image_Input.thy ===== *)
theory Image_Input
  imports Server_Text
begin

unbundle bit_operations_syntax

section \<open>Images in requests\<close>

text \<open>
  The image part of \<open>ds4_server.c\<close>: the base64 decoder, the image list with its limits, the data
  URI, the cache key of a prompt with images and the expansion of image placeholders in the token
  list. An error message is a constructor of \<open>image_error\<close>. Decoding pixels is the job of another
  library; the two functions the server calls there, the pixel hash and the probe that gives the
  grid of an image, are parameters.
\<close>

datatype image_error =
    Err_base64_length | Err_decoded_limit | Err_request_limit | Err_base64_data | Err_base64_padding
  | Err_unavailable | Err_media_type bytes | Err_count | Err_magic | Err_data_uri
  | Err_format | Err_role | Err_reference | Err_unreferenced
  | Err_no_placeholder | Err_pixels | Err_key_overflow | Err_prompt_too_large | Err_ambiguous_pad | Err_pad_count

subsection \<open>Base64\<close>

definition CHAT_IMAGE_MAX_COUNT :: nat where "CHAT_IMAGE_MAX_COUNT = 4"
definition CHAT_IMAGE_MAX_BYTES :: nat where "CHAT_IMAGE_MAX_BYTES = 10 * 1024 * 1024"
definition CHAT_IMAGE_TOTAL_MAX :: nat where "CHAT_IMAGE_TOTAL_MAX = 20 * 1024 * 1024"

definition base64_value :: "u8 \<Rightarrow> int" where
  "base64_value c =
     (if 65 \<le> c \<and> c \<le> 90 then uint c - 65
      else if 97 \<le> c \<and> c \<le> 122 then 26 + uint c - 97
      else if 48 \<le> c \<and> c \<le> 57 then 52 + uint c - 48
      else if c = 43 then 62
      else if c = 47 then 63
      else - 1)"

text \<open>One group of four characters: its 24 bits, or nothing when it is not legal where it stands.\<close>

definition base64_group :: "bool \<Rightarrow> u8 \<Rightarrow> u8 \<Rightarrow> u8 \<Rightarrow> u8 \<Rightarrow> u32 option" where
  "base64_group lst s0 s1 s2 s3 =
     (let a = base64_value s0; b = base64_value s1;
          c = (if s2 = 61 then - 2 else base64_value s2);
          d = (if s3 = 61 then - 2 else base64_value s3)
      in if a < 0 \<or> b < 0 \<or> c = - 1 \<or> d = - 1 \<or> (\<not> lst \<and> (c < 0 \<or> d < 0)) \<or> (c = - 2 \<and> d \<noteq> - 2) \<or>
            (c = - 2 \<and> b AND 15 \<noteq> 0) \<or> (d = - 2 \<and> c \<ge> 0 \<and> c AND 3 \<noteq> 0)
         then None
         else Some (push_bit 18 (word_of_int a) OR push_bit 12 (word_of_int b) OR
                push_bit 6 (word_of_int (if c < 0 then 0 else c)) OR word_of_int (if d < 0 then 0 else d)))"

text \<open>The loop; each of the three bytes of a group is stored while there is room.\<close>

fun base64_loop :: "nat \<Rightarrow> bytes \<Rightarrow> bytes \<Rightarrow> bytes option" where
  "base64_loop decoded dst (s0 # s1 # s2 # s3 # rest) =
     (case base64_group (rest = []) s0 s1 s2 s3 of
        None \<Rightarrow> None
      | Some v \<Rightarrow>
          base64_loop decoded
            (take decoded (dst @ [ucast (drop_bit 16 v), ucast (drop_bit 8 v), ucast v])) rest)"
| "base64_loop decoded dst src = Some dst"

definition base64_decode_image :: "bytes option \<Rightarrow> nat \<Rightarrow> image_error + bytes" where
  "base64_decode_image srco request_remaining =
     (let src = (case srco of None \<Rightarrow> [] | Some s \<Rightarrow> cstr s); n = length src in
      if n = 0 \<or> n mod 4 \<noteq> 0 then Inl Err_base64_length
      else let padding = (if src ! (n - 1) = 61 then 1 else 0) + (if n > 1 \<and> src ! (n - 2) = 61 then 1 else 0);
               decoded = n div 4 * 3 - padding in
      if decoded = 0 \<or> decoded > CHAT_IMAGE_MAX_BYTES then Inl Err_decoded_limit
      else if decoded > request_remaining then Inl Err_request_limit
      else case base64_loop decoded [] src of
             None \<Rightarrow> Inl Err_base64_data
           | Some dst \<Rightarrow> if length dst \<noteq> decoded then Inl Err_base64_padding else Inr dst)"

subsection \<open>The image list\<close>

datatype chat_image_mime = CHAT_IMAGE_PNG | CHAT_IMAGE_JPEG

record qwen_image_info =
  qi_grid_h :: u32
  qi_grid_w :: u32
  qi_token_count :: u32

record chat_image =
  ci_mime :: chat_image_mime
  ci_data :: bytes
  ci_info :: qwen_image_info
  ci_token_offset :: nat
  ci_pixel_hash :: u64
  ci_marker_start :: nat
  ci_marker_end :: nat

record chat_images =
  cs_v :: "chat_image list"
  cs_total_bytes :: nat

definition chat_image_magic_matches :: "chat_image_mime \<Rightarrow> bytes \<Rightarrow> bool" where
  "chat_image_magic_matches mime data =
     (case mime of
        CHAT_IMAGE_PNG \<Rightarrow> length data \<ge> 8 \<and> take 8 data = [0x89, 80, 78, 71, 13, 10, 0x1a, 10]
      | CHAT_IMAGE_JPEG \<Rightarrow> length data \<ge> 3 \<and> data ! 0 = 0xff \<and> data ! 1 = 0xd8 \<and> data ! 2 = 0xff)"

definition chat_image_new :: "chat_image_mime \<Rightarrow> bytes \<Rightarrow> chat_image" where
  "chat_image_new mime data =
     \<lparr>ci_mime = mime, ci_data = data, ci_info = \<lparr>qi_grid_h = 0, qi_grid_w = 0, qi_token_count = 0\<rparr>,
      ci_token_offset = 0, ci_pixel_hash = 0, ci_marker_start = 0, ci_marker_end = 0\<rparr>"

definition chat_image_mime_of :: "bytes \<Rightarrow> chat_image_mime option" where
  "chat_image_mime_of m =
     (if cstr m = lit ''image/png'' then Some CHAT_IMAGE_PNG
      else if cstr m = lit ''image/jpeg'' then Some CHAT_IMAGE_JPEG else None)"

text \<open>The new list and the index of the new image; the list stays as it was on every error.\<close>

definition chat_images_add_base64 :: "chat_images \<Rightarrow> bytes option \<Rightarrow> bytes option \<Rightarrow> image_error + (chat_images \<times> nat)" where
  "chat_images_add_base64 images mime_type payload =
     (if mime_type = None \<or> payload = None then Inl Err_unavailable
      else case chat_image_mime_of (the mime_type) of
             None \<Rightarrow> Inl (Err_media_type (cstr (the mime_type)))
           | Some mime \<Rightarrow>
               if length (cs_v images) \<ge> CHAT_IMAGE_MAX_COUNT then Inl Err_count
               else if cs_total_bytes images > CHAT_IMAGE_TOTAL_MAX then Inl Err_request_limit
               else case base64_decode_image payload (CHAT_IMAGE_TOTAL_MAX - cs_total_bytes images) of
                      Inl e \<Rightarrow> Inl e
                    | Inr data \<Rightarrow>
                        if \<not> chat_image_magic_matches mime data then Inl Err_magic
                        else Inr (images\<lparr>cs_v := cs_v images @ [chat_image_new mime data],
                                         cs_total_bytes := cs_total_bytes images + length data\<rparr>,
                                  length (cs_v images)))"

definition chat_images_add_data_uri :: "chat_images \<Rightarrow> bytes option \<Rightarrow> image_error + (chat_images \<times> nat)" where
  "chat_images_add_data_uri images urio =
     (case urio of
        None \<Rightarrow> Inl Err_data_uri
      | Some uri0 \<Rightarrow>
          let uri = cstr uri0 in
          if take 5 uri \<noteq> lit ''data:'' then Inl Err_data_uri
          else case strstr (drop 5 uri) (lit '';base64,'') of
                 None \<Rightarrow> Inl Err_data_uri
               | Some sep \<Rightarrow>
                   if sep = 0 then Inl Err_data_uri
                   else chat_images_add_base64 images (Some (take sep (drop 5 uri)))
                          (Some (drop (sep + 8) (drop 5 uri))))"

subsection \<open>Base64, by the standard\<close>

text \<open>The encoder of RFC 4648, as the reference for the decoder.\<close>

definition base64_char :: "nat \<Rightarrow> u8" where
  "base64_char n =
     (if n < 26 then of_nat (65 + n) else if n < 52 then of_nat (71 + n)
      else if n < 62 then of_nat (n - 4) else if n = 62 then 43 else 47)"

fun base64_encode :: "bytes \<Rightarrow> bytes" where
  "base64_encode [] = []"
| "base64_encode [x] = [base64_char (unat x div 4), base64_char (unat x mod 4 * 16), 61, 61]"
| "base64_encode [x, y] = [base64_char (unat x div 4), base64_char (unat x mod 4 * 16 + unat y div 16),
     base64_char (unat y mod 16 * 4), 61]"
| "base64_encode (x # y # z # rest) = base64_char (unat x div 4) #
     base64_char (unat x mod 4 * 16 + unat y div 16) # base64_char (unat y mod 16 * 4 + unat z div 64) #
     base64_char (unat z mod 64) # base64_encode rest"

lemma base64_char_value: "n < 64 \<Longrightarrow> base64_value (base64_char n) = int n \<and> base64_char n \<noteq> 61 \<and> base64_char n \<noteq> 0"
proof -
  assume "n < 64"
  moreover have "\<forall>n \<in> set (upt 0 64). base64_value (base64_char n) = int n \<and> base64_char n \<noteq> 61 \<and> base64_char n \<noteq> 0"
    by code_simp
  ultimately show ?thesis by simp
qed

lemma base64_value_char:
  assumes "base64_value c \<ge> 0"
  shows "base64_char (nat (base64_value c)) = c \<and> nat (base64_value c) < 64 \<and> c \<noteq> 61 \<and> c \<noteq> 0"
proof -
  define n where "n = unat c"
  have back_c: "of_nat n = c" by (simp add: n_def)
  have eq: "c = numeral k \<longleftrightarrow> n = unat (numeral k :: u8)" for k by (simp add: n_def word_unat_eq_iff)
  have val: "base64_value c = (if 65 \<le> n \<and> n \<le> 90 then int n - 65 else if 97 \<le> n \<and> n \<le> 122 then int n - 71
      else if 48 \<le> n \<and> n \<le> 57 then int n + 4 else if n = 43 then 62 else if n = 47 then 63 else - 1)"
    unfolding base64_value_def eq by (simp add: word_le_nat_alt n_def)
  have ne: "c \<noteq> 0 \<longleftrightarrow> n \<noteq> 0" by (simp add: n_def unat_eq_0)
  have ch: "base64_char (nat (base64_value c)) = of_nat n \<and> nat (base64_value c) < 64 \<and> n \<noteq> 61 \<and> n \<noteq> 0"
  proof -
    consider "65 \<le> n" "n \<le> 90" | "97 \<le> n" "n \<le> 122" | "48 \<le> n" "n \<le> 57" | "n = 43" | "n = 47"
      using assms unfolding val by (auto split: if_splits)
    then show ?thesis
    proof cases
      case 1
      then have "nat (base64_value c) = n - 65" unfolding val by simp
      moreover have "n - 65 < 26" using 1 by simp
      ultimately show ?thesis using 1 by (simp add: base64_char_def del: of_nat_add)
    next
      case 2
      then have "nat (base64_value c) = n - 71" unfolding val by simp
      moreover have "\<not> n - 71 < 26" "n - 71 < 52" using 2 by simp_all
      ultimately show ?thesis using 2 by (simp add: base64_char_def del: of_nat_add)
    next
      case 3
      then have "nat (base64_value c) = n + 4" unfolding val by simp
      moreover have "\<not> n + 4 < 26" "\<not> n + 4 < 52" "n + 4 < 62" using 3 by simp_all
      ultimately show ?thesis using 3 by (simp add: base64_char_def del: of_nat_add)
    qed (simp_all add: val base64_char_def)
  qed
  then show ?thesis using back_c ne eq [of "num.Bit1 (num.Bit0 (num.Bit1 (num.Bit1 (num.Bit1 num.One))))"] by simp
qed

lemma or_disjoint: "unat x < 2 ^ k \<Longrightarrow> push_bit k a OR x = push_bit k a + (x::u32)"
proof -
  assume a: "unat x < 2 ^ k"
  have "\<not> bit x i" if "k \<le> i" for i
  proof -
    have "unat x < 2 ^ i" using a power_increasing [OF that, of "2::nat"] by linarith
    then have "\<not> bit (unat x) i" by (simp add: bit_iff_odd)
    then show ?thesis by (simp add: bit_unsigned_iff)
  qed
  then show ?thesis by (intro disjunctive_add [symmetric]) (auto simp: bit_push_bit_iff)
qed

lemma int_and_15: "(b::int) AND 15 = b mod 16" and int_and_3: "(b::int) AND 3 = b mod 4"
  using take_bit_eq_mask [of 4 b] take_bit_eq_mask [of 2 b]
  by (simp_all add: take_bit_eq_mod mask_eq_exp_minus_1)

lemma div_mod_mult_add: "k < m \<Longrightarrow> (q * m + k) div m = q \<and> (q * m + k) mod m = k" for q m k :: nat
  by simp

lemma add_mult_less: "q < a \<Longrightarrow> r < b \<Longrightarrow> a * b \<le> n \<Longrightarrow> q * b + r < n" for q r a b n :: nat
proof -
  assume "q < a" "r < b" "a * b \<le> n"
  moreover from this have "Suc q * b \<le> a * b" by (intro mult_le_mono1) simp
  ultimately show ?thesis by simp
qed

lemma nat_mod_16_4: "0 \<le> x \<Longrightarrow> 16 dvd x \<Longrightarrow> nat x mod 16 = 0" "0 \<le> x \<Longrightarrow> 4 dvd x \<Longrightarrow> nat x mod 4 = 0"
  by presburger+

text \<open>The 24 bits of a group and its three bytes, as numbers.\<close>

lemma group_bits:
  assumes "A < 64" and "B < 64" and "C < 64" and "D < 64"
  defines "v \<equiv> push_bit 18 (of_nat A) OR push_bit 12 (of_nat B) OR push_bit 6 (of_nat C) OR (of_nat D :: u32)"
  shows "unat (ucast (drop_bit 16 v) :: u8) = A * 4 + B div 16"
    and "unat (ucast (drop_bit 8 v) :: u8) = B mod 16 * 16 + C div 4"
    and "unat (ucast v :: u8) = C mod 4 * 64 + D"
proof -
  have small: "unat (of_nat n :: u32) = n" if "n < 2 ^ 24" for n
    using that by (simp add: unat_of_nat take_bit_eq_mod)
  have sh: "push_bit k (of_nat n) OR (of_nat m :: u32) = of_nat (n * 2 ^ k + m)" if "m < 2 ^ k" "m < 2 ^ 24" for n m k
    using or_disjoint [of "of_nat m" k "of_nat n"] that small [of m] by (simp add: push_bit_eq_mult mult.commute)
  define n where "n = A * 2 ^ 18 + (B * 2 ^ 12 + (C * 2 ^ 6 + D))"
  have v: "v = of_nat n"
    using assms(1-4) by (simp add: v_def n_def sh or.assoc del: of_nat_add of_nat_mult of_nat_power)
  have n: "n < 2 ^ 24" using assms(1-4) by (simp add: n_def)
  have byte: "unat (ucast (w::u32) :: u8) = unat w mod 256" for w
    by (simp add: unsigned_ucast_eq take_bit_eq_mod)
  have dr: "unat (drop_bit k v) = n div 2 ^ k" for k
  proof -
    have "unat (drop_bit k v) = drop_bit k (unat v)" by (simp add: unat_drop_bit_eq)
    then show ?thesis using small [OF n] by (simp add: v drop_bit_eq_div)
  qed
  define X Y Z where "X = A * 4 + B div 16" and "Y = B mod 16 * 16 + C div 4" and "Z = C mod 4 * 64 + D"
  have lt: "X < 256" "Y < 256" "Z < 256"
    using assms(1-4) by (auto simp: X_def Y_def Z_def div_less_iff_less_mult intro!: add_mult_less)
  have xyz: "n = X * 65536 + (Y * 256 + Z)"
  proof -
    have scale: "k * m = k div j * (j * m) + k mod j * m" for k j m :: nat
      by (metis distrib_right div_mult_mod_eq mult.assoc)
    show ?thesis using scale [of B 4096 16] scale [of C 64 4] by (simp add: n_def X_def Y_def Z_def)
  qed
  have "n div 65536 = X" "n div 256 = X * 256 + Y" "n mod 256 = Z"
    using div_mod_mult_add [of "Y * 256 + Z" 65536 X] div_mod_mult_add [of Z 256 "X * 256 + Y"] lt
    by (simp_all add: xyz algebra_simps)
  then show "unat (ucast (drop_bit 16 v) :: u8) = X" "unat (ucast (drop_bit 8 v) :: u8) = Y" "unat (ucast v :: u8) = Z"
    unfolding byte dr using lt small [OF n] by (simp_all add: v)
qed

lemma group_values:
  assumes "base64_group lst s0 s1 s2 s3 = Some v"
  obtains A B C D where "A < 64" "B < 64" "C < 64" "D < 64" "s0 = base64_char A" "s1 = base64_char B"
    "v = push_bit 18 (of_nat A) OR push_bit 12 (of_nat B) OR push_bit 6 (of_nat C) OR of_nat D"
    "s2 = base64_char C \<and> s3 = base64_char D \<or>
     lst \<and> s2 = base64_char C \<and> s3 = 61 \<and> D = 0 \<and> C mod 4 = 0 \<or>
     lst \<and> s2 = 61 \<and> s3 = 61 \<and> C = 0 \<and> D = 0 \<and> B mod 16 = 0"
proof -
  define val where "val s = nat (base64_value s)" for s
  define C where "C = (if s2 = 61 then 0 else val s2)"
  define D where "D = (if s3 = 61 then 0 else val s3)"
  have s0: "base64_value s0 \<ge> 0" and s1: "base64_value s1 \<ge> 0"
    using assms by (auto simp: base64_group_def Let_def split: if_splits)
  have m1: "base64_value s \<ge> 0 \<or> base64_value s = - 1" for s by (auto simp: base64_value_def word_le_def)
  have s2: "s2 = 61 \<or> base64_value s2 \<ge> 0" and s3: "s3 = 61 \<or> base64_value s3 \<ge> 0"
    using assms m1 [of s2] m1 [of s3] by (auto simp: base64_group_def Let_def split: if_splits)
  have lt: "C < 64" "D < 64" using s2 s3 base64_value_char by (auto simp: C_def D_def val_def)
  have ch: "s2 \<noteq> 61 \<Longrightarrow> s2 = base64_char C" "s3 \<noteq> 61 \<Longrightarrow> s3 = base64_char D"
    using s2 s3 base64_value_char by (auto simp: C_def D_def val_def)
  have v: "v = push_bit 18 (of_nat (val s0)) OR push_bit 12 (of_nat (val s1)) OR push_bit 6 (of_nat C) OR of_nat D"
    using assms s0 s1 s2 s3 by (auto simp: base64_group_def Let_def val_def C_def D_def split: if_splits)
  have pad: "s2 = 61 \<Longrightarrow> lst \<and> s3 = 61 \<and> val s1 mod 16 = 0" "s3 = 61 \<Longrightarrow> s2 \<noteq> 61 \<Longrightarrow> lst \<and> C mod 4 = 0"
    using assms s0 s1 s2 s3 by (auto simp: base64_group_def Let_def val_def C_def int_and_15 int_and_3
        dvd_eq_mod_eq_0 [symmetric] split: if_splits dest: nat_mod_16_4)
  show thesis
  proof (rule that [of "val s0" "val s1" C D])
    show "s2 = base64_char C \<and> s3 = base64_char D \<or> lst \<and> s2 = base64_char C \<and> s3 = 61 \<and> D = 0 \<and> C mod 4 = 0 \<or>
        lst \<and> s2 = 61 \<and> s3 = 61 \<and> C = 0 \<and> D = 0 \<and> val s1 mod 16 = 0"
      using ch pad by (auto simp: C_def D_def)
  qed (use base64_value_char [OF s0] base64_value_char [OF s1] lt v in \<open>auto simp: val_def\<close>)
qed

text \<open>What the loop accepts is an encoding.\<close>

lemma base64_loop_encodes:
  "base64_loop n dst src = Some r \<Longrightarrow> length src mod 4 = 0 \<Longrightarrow> \<exists>d. src = base64_encode d"
proof (induction n dst src rule: base64_loop.induct)
  case (1 n dst s0 s1 s2 s3 rest)
  obtain v where v: "base64_group (rest = []) s0 s1 s2 s3 = Some v" using "1.prems" by (auto split: option.splits)
  obtain A B C D where lt: "A < 64" "B < 64" "C < 64" "D < 64" and s01: "s0 = base64_char A" "s1 = base64_char B"
    and "v = push_bit 18 (of_nat A) OR push_bit 12 (of_nat B) OR push_bit 6 (of_nat C) OR of_nat D"
    and s23: "s2 = base64_char C \<and> s3 = base64_char D \<or>
     rest = [] \<and> s2 = base64_char C \<and> s3 = 61 \<and> D = 0 \<and> C mod 4 = 0 \<or>
     rest = [] \<and> s2 = 61 \<and> s3 = 61 \<and> C = 0 \<and> D = 0 \<and> B mod 16 = 0"
    by (rule group_values [OF v])
  define x y z where "x = (of_nat (A * 4 + B div 16) :: u8)" and "y = (of_nat (B mod 16 * 16 + C div 4) :: u8)"
    and "z = (of_nat (C mod 4 * 64 + D) :: u8)"
  have un: "unat (of_nat k :: u8) = k" if "k < 256" for k using that by (simp add: unat_of_nat take_bit_eq_mod)
  define b1 b0 c1 c0 where "b1 = B div 16" and "b0 = B mod 16" and "c1 = C div 4" and "c0 = C mod 4"
  have "B = b1 * 16 + b0" "C = c1 * 4 + c0" by (simp_all add: b1_def b0_def c1_def c0_def)
  moreover have "b1 < 4" "b0 < 16" "c1 < 16" "c0 < 4"
    using lt by (auto simp: b1_def b0_def c1_def c0_def div_less_iff_less_mult)
  ultimately have parts: "B = b1 * 16 + b0" "b1 < 4" "b0 < 16" "C = c1 * 4 + c0" "c1 < 16" "c0 < 4" by blast+
  have u: "unat x = A * 4 + b1" "unat y = b0 * 16 + c1" "unat z = c0 * 64 + D"
    unfolding x_def y_def z_def b1_def [symmetric] b0_def [symmetric] c1_def [symmetric] c0_def [symmetric]
    by (rule un add_mult_less [of A 64] add_mult_less [of b0 16] add_mult_less [of c0 4], use lt parts in simp)+
  have qr: "(q * m + k) div m = q" "(q * m + k) mod m = k" if "k < m" for q m k :: nat
    using that by simp_all
  have enc: "unat x div 4 = A" "unat x mod 4 * 16 + unat y div 16 = B" "unat y mod 16 * 4 + unat z div 64 = C"
    "unat z mod 64 = D"
    using lt parts by (simp_all add: u qr)
  obtain e where e: "rest = base64_encode e"
    using "1.IH" [OF v] "1.prems" v by (cases "rest = []") (auto intro: exI [of _ "[]"])
  show ?case
  proof (cases "s2 = base64_char C \<and> s3 = base64_char D")
    case True
    then show ?thesis using s01 enc e by (intro exI [of _ "x # y # z # e"]) simp
  next
    case False
    then consider "rest = []" "s2 = base64_char C" "s3 = 61" "C mod 4 = 0"
      | "rest = []" "s2 = 61" "s3 = 61" "C = 0" "B mod 16 = 0" using s23 by argo
    then show ?thesis
    proof cases
      case 1
      have "unat y mod 16 * 4 = C" using parts 1(4) by (simp add: u qr c0_def [symmetric])
      then show ?thesis using 1 s01 enc by (intro exI [of _ "[x, y]"]) simp
    next
      case 2
      have "unat x mod 4 * 16 = B" using parts 2(5) by (simp add: u qr b0_def [symmetric])
      then show ?thesis using 2 s01 enc by (intro exI [of _ "[x]"]) simp
    qed
  qed
qed (auto intro: exI [of _ "[]"])

text \<open>Every encoding is decoded.\<close>

lemma group_of_chars:
  assumes "A < 64" and "B < 64" and "C < 64" and "D < 64"
  defines "v \<equiv> push_bit 18 (of_nat A) OR push_bit 12 (of_nat B) OR push_bit 6 (of_nat C) OR (of_nat D :: u32)"
  shows "base64_group lst (base64_char A) (base64_char B) (base64_char C) (base64_char D) = Some v"
    and "D = 0 \<Longrightarrow> C mod 4 = 0 \<Longrightarrow> base64_group True (base64_char A) (base64_char B) (base64_char C) 61 = Some v"
    and "D = 0 \<Longrightarrow> C = 0 \<Longrightarrow> B mod 16 = 0 \<Longrightarrow> base64_group True (base64_char A) (base64_char B) 61 61 = Some v"
  using base64_char_value [OF assms(1)] base64_char_value [OF assms(2)] base64_char_value [OF assms(3)]
    base64_char_value [OF assms(4)]
  by (auto simp: base64_group_def Let_def v_def int_and_15 int_and_3 zmod_int [symmetric] of_nat_mod [symmetric]
      simp del: of_nat_mod)

lemma six_bits: "unat (x::u8) div 4 < 64" "unat x mod 4 * 16 + unat (y::u8) div 16 < 64"
    "unat y mod 16 * 4 + unat (z::u8) div 64 < 64" "unat z mod 64 < 64" "unat x mod 4 * 16 < 64" "unat y mod 16 * 4 < 64"
proof -
  show "unat x div 4 < 64" using unat_u8_bound [of x] by (simp add: div_less_iff_less_mult)
  have "unat y div 16 < 16" "unat z div 64 < 4"
    using unat_u8_bound [of y] unat_u8_bound [of z] by (simp_all add: div_less_iff_less_mult)
  then show "unat x mod 4 * 16 + unat y div 16 < 64" "unat y mod 16 * 4 + unat z div 64 < 64"
    by (auto intro: add_mult_less [where a = 4] add_mult_less [where a = 16])
  show "unat z mod 64 < 64" by simp
  show "unat x mod 4 * 16 < 64" "unat y mod 16 * 4 < 64"
    using add_mult_less [of "unat x mod 4" 4 0 16 64] add_mult_less [of "unat y mod 16" 16 0 4 64] by simp_all
qed

lemma six_bits_join:
  "unat (x::u8) div 4 * 4 + (unat x mod 4 * 16 + unat (y::u8) div 16) div 16 = unat x"
  "(unat x mod 4 * 16 + unat y div 16) mod 16 * 16 + (unat y mod 16 * 4 + unat (z::u8) div 64) div 4 = unat y"
  "(unat y mod 16 * 4 + unat z div 64) mod 4 * 64 + unat z mod 64 = unat z"
proof -
  have "unat y div 16 < 16" "unat z div 64 < 4"
    using unat_u8_bound [of y] unat_u8_bound [of z] by (simp_all add: div_less_iff_less_mult)
  then show "unat x div 4 * 4 + (unat x mod 4 * 16 + unat y div 16) div 16 = unat x"
    "(unat x mod 4 * 16 + unat y div 16) mod 16 * 16 + (unat y mod 16 * 4 + unat z div 64) div 4 = unat y"
    "(unat y mod 16 * 4 + unat z div 64) mod 4 * 64 + unat z mod 64 = unat z"
    using div_mod_mult_add by simp_all
qed

text \<open>The group of three bytes, padded with zero bytes at the end of the text.\<close>

definition base64_bits :: "u8 \<Rightarrow> u8 \<Rightarrow> u8 \<Rightarrow> u32" where
  "base64_bits x y z = push_bit 18 (of_nat (unat x div 4)) OR push_bit 12 (of_nat (unat x mod 4 * 16 + unat y div 16)) OR
     push_bit 6 (of_nat (unat y mod 16 * 4 + unat z div 64)) OR of_nat (unat z mod 64)"

lemma base64_bits_bytes:
  "ucast (drop_bit 16 (base64_bits x y z)) = x" "ucast (drop_bit 8 (base64_bits x y z)) = y" "ucast (base64_bits x y z) = z"
  by (simp_all only: word_unat_eq_iff base64_bits_def six_bits_join
      group_bits [OF six_bits(1) [of x] six_bits(2) [of x y] six_bits(3) [of y z] six_bits(4) [of z]])

lemma encode_groups:
  "base64_group lst (base64_char (unat x div 4)) (base64_char (unat x mod 4 * 16 + unat y div 16))
     (base64_char (unat y mod 16 * 4 + unat z div 64)) (base64_char (unat z mod 64)) = Some (base64_bits x y z)"
  "base64_group True (base64_char (unat x div 4)) (base64_char (unat x mod 4 * 16 + unat y div 16))
     (base64_char (unat y mod 16 * 4)) 61 = Some (base64_bits x y 0)"
  "base64_group True (base64_char (unat x div 4)) (base64_char (unat x mod 4 * 16)) 61 61 = Some (base64_bits x 0 0)"
  using group_of_chars(1) [OF six_bits(1) [of x] six_bits(2) [of x y] six_bits(3) [of y z] six_bits(4) [of z]]
    group_of_chars(2) [OF six_bits(1) [of x] six_bits(2) [of x y] six_bits(3) [of y 0] six_bits(4) [of 0]]
    group_of_chars(3) [OF six_bits(1) [of x] six_bits(2) [of x 0] six_bits(3) [of 0 0] six_bits(4) [of 0]]
  by (simp_all add: base64_bits_def)

lemma encode_nonempty: "base64_encode d = [] \<longleftrightarrow> d = []"
  by (cases d rule: base64_encode.cases) simp_all

lemma base64_loop_decodes: "base64_loop (length dst + length d) dst (base64_encode d) = Some (dst @ d)"
proof (induction d arbitrary: dst rule: base64_encode.induct)
  case (4 x y z rest)
  from "4.IH" [of "dst @ [x, y, z]"] show ?case by (simp add: encode_groups base64_bits_bytes)
qed (simp_all add: encode_groups base64_bits_bytes)

definition base64_padding :: "bytes \<Rightarrow> nat" where
  "base64_padding src = (let n = length src in
     (if src ! (n - 1) = 61 then 1 else 0) + (if n > 1 \<and> src ! (n - 2) = 61 then 1 else 0))"

lemma base64_padding_append: "2 \<le> length s \<Longrightarrow> base64_padding (p @ s) = base64_padding s"
proof -
  assume "2 \<le> length s"
  then have "(p @ s) ! (length (p @ s) - k) = s ! (length s - k)" if "k \<le> 2" for k
    using that by (auto simp: nth_append)
  moreover have "1 < length (p @ s) \<longleftrightarrow> 1 < length s" using \<open>2 \<le> length s\<close> by simp
  ultimately show ?thesis unfolding base64_padding_def Let_def by simp
qed

lemma base64_padding_le: "base64_padding s \<le> 2"
  by (simp add: base64_padding_def Let_def)

lemma encode_length:
  "length (base64_encode d) mod 4 = 0 \<and> 0 \<notin> set (base64_encode d) \<and>
   (d \<noteq> [] \<longrightarrow> 4 \<le> length (base64_encode d) \<and>
      length (base64_encode d) div 4 * 3 - base64_padding (base64_encode d) = length d)"
proof (induction d rule: base64_encode.induct)
  case (4 x y z rest)
  have ch: "\<forall>k < 64. base64_char k \<noteq> 61 \<and> base64_char k \<noteq> 0" using base64_char_value by blast
  show ?case
  proof (cases "rest = []")
    case True
    then show ?thesis using ch six_bits by (simp add: base64_padding_def)
  next
    case False
    define q where "q = [base64_char (unat x div 4), base64_char (unat x mod 4 * 16 + unat y div 16),
      base64_char (unat y mod 16 * 4 + unat z div 64), base64_char (unat z mod 64)]"
    define e where "e = base64_encode rest"
    have enc: "base64_encode (x # y # z # rest) = q @ e" by (simp add: q_def e_def)
    have e: "length e mod 4 = 0" "0 \<notin> set e" "4 \<le> length e" "length e div 4 * 3 - base64_padding e = length rest"
      using "4.IH" False by (simp_all add: e_def)
    have q: "length q = 4" "0 \<notin> set q" using ch six_bits by (auto simp: q_def)
    have "3 \<le> length e div 4 * 3" using e(3) by (simp add: div_greater_zero_iff Suc_le_eq)
    moreover have "base64_padding (q @ e) = base64_padding e" using e(3) by (intro base64_padding_append) simp
    ultimately show ?thesis
      using e q base64_padding_le [of e] unfolding enc by simp
  qed
qed (use base64_char_value six_bits in \<open>auto simp: base64_padding_def\<close>)

lemma base64_decode_image_unfold:
  "base64_decode_image (Some src) remaining =
     (let n = length (cstr src); decoded = n div 4 * 3 - base64_padding (cstr src) in
      if n = 0 \<or> n mod 4 \<noteq> 0 then Inl Err_base64_length
      else if decoded = 0 \<or> decoded > CHAT_IMAGE_MAX_BYTES then Inl Err_decoded_limit
      else if decoded > remaining then Inl Err_request_limit
      else case base64_loop decoded [] (cstr src) of
             None \<Rightarrow> Inl Err_base64_data
           | Some dst \<Rightarrow> if length dst \<noteq> decoded then Inl Err_base64_padding else Inr dst)"
  by (simp add: base64_decode_image_def base64_padding_def Let_def)

text \<open>
  The base64 decoder accepts exactly the canonical encodings. It returns bytes for a C string
  just when the string is the RFC 4648 encoding of those bytes, they are not empty and fit the
  image limit and what is left of the request; unused bits, misplaced padding and foreign
  characters are refused.
\<close>

theorem base64_decode_iff:
  "base64_decode_image (Some src) remaining = Inr d \<longleftrightarrow>
     cstr src = base64_encode d \<and> d \<noteq> [] \<and> length d \<le> CHAT_IMAGE_MAX_BYTES \<and> length d \<le> remaining"
proof
  assume a: "base64_decode_image (Some src) remaining = Inr d"
  define n where "n = length (cstr src)"
  define decoded where "decoded = n div 4 * 3 - base64_padding (cstr src)"
  have n: "n \<noteq> 0" "n mod 4 = 0" and lim: "decoded \<noteq> 0" "decoded \<le> CHAT_IMAGE_MAX_BYTES" "decoded \<le> remaining"
    and loop: "base64_loop decoded [] (cstr src) = Some d"
    using a unfolding base64_decode_image_unfold Let_def n_def [symmetric] decoded_def [symmetric]
    by (auto split: if_splits option.splits)
  obtain e where e: "cstr src = base64_encode e" using base64_loop_encodes [OF loop] n by (auto simp: n_def)
  then have "e \<noteq> []" using n by (auto simp: n_def encode_nonempty)
  then have "decoded = length e" using encode_length [of e] e by (simp add: decoded_def n_def)
  then have "d = e" using base64_loop_decodes [of "[]" e] loop e by simp
  then show "cstr src = base64_encode d \<and> d \<noteq> [] \<and> length d \<le> CHAT_IMAGE_MAX_BYTES \<and> length d \<le> remaining"
    using e \<open>decoded = length e\<close> lim \<open>e \<noteq> []\<close> by simp
next
  assume a: "cstr src = base64_encode d \<and> d \<noteq> [] \<and> length d \<le> CHAT_IMAGE_MAX_BYTES \<and> length d \<le> remaining"
  then have "length (cstr src) div 4 * 3 - base64_padding (cstr src) = length d" "length (cstr src) \<noteq> 0"
    "length (cstr src) mod 4 = 0" using encode_length [of d] by auto
  then show "base64_decode_image (Some src) remaining = Inr d"
    using a base64_loop_decodes [of "[]" d] by (simp add: base64_decode_image_unfold)
qed

subsection \<open>The limits hold\<close>

definition images_ok :: "chat_images \<Rightarrow> bool" where
  "images_ok im \<longleftrightarrow> length (cs_v im) \<le> CHAT_IMAGE_MAX_COUNT \<and> cs_total_bytes im \<le> CHAT_IMAGE_TOTAL_MAX \<and>
     cs_total_bytes im = sum_list (map (\<lambda>i. length (ci_data i)) (cs_v im)) \<and>
     (\<forall>i \<in> set (cs_v im). ci_data i \<noteq> [] \<and> length (ci_data i) \<le> CHAT_IMAGE_MAX_BYTES \<and>
        chat_image_magic_matches (ci_mime i) (ci_data i))"

lemma chat_images_add_base64_ok:
  assumes "images_ok im" and "chat_images_add_base64 im m p = Inr (im', k)"
  shows "images_ok im' \<and> k = length (cs_v im) \<and> cs_v im' = butlast (cs_v im') @ [last (cs_v im')] \<and> butlast (cs_v im') = cs_v im"
proof -
  obtain mt pl mime data where p: "p = Some pl" "m = Some mt" "chat_image_mime_of mt = Some mime"
    and n: "length (cs_v im) < CHAT_IMAGE_MAX_COUNT"
    and d: "base64_decode_image (Some pl) (CHAT_IMAGE_TOTAL_MAX - cs_total_bytes im) = Inr data"
    and mg: "chat_image_magic_matches mime data"
    and im': "im' = im\<lparr>cs_v := cs_v im @ [chat_image_new mime data], cs_total_bytes := cs_total_bytes im + length data\<rparr>"
    and k: "k = length (cs_v im)"
    using assms(2) by (auto simp: chat_images_add_base64_def split: if_splits option.splits sum.splits)
  have "data \<noteq> [] \<and> length data \<le> CHAT_IMAGE_MAX_BYTES \<and> length data \<le> CHAT_IMAGE_TOTAL_MAX - cs_total_bytes im"
  proof -
    define n decoded where "n = length (cstr pl)" and "decoded = length (cstr pl) div 4 * 3 - base64_padding (cstr pl)"
    have "decoded \<noteq> 0" "decoded \<le> CHAT_IMAGE_MAX_BYTES" "decoded \<le> CHAT_IMAGE_TOTAL_MAX - cs_total_bytes im" "length data = decoded"
      using d unfolding base64_decode_image_unfold Let_def decoded_def [symmetric]
      by (auto split: if_splits option.splits)
    then show ?thesis by auto
  qed
  then show ?thesis
    using assms(1) n mg k unfolding im' images_ok_def by (auto simp: chat_image_new_def)
qed

lemma chat_images_add_data_uri_ok:
  "images_ok im \<Longrightarrow> chat_images_add_data_uri im u = Inr (im', k) \<Longrightarrow> images_ok im'"
  by (auto simp: chat_images_add_data_uri_def Let_def split: option.splits if_splits dest: chat_images_add_base64_ok)

subsection \<open>The cache key of a prompt with images\<close>

definition QWEN_IMAGE_CACHE_PREFIX :: bytes where
  "QWEN_IMAGE_CACHE_PREFIX = 0xff # lit ''DS4IMG2:''"

definition QWEN_IMAGE_CACHE_MARKER_LEN :: nat where "QWEN_IMAGE_CACHE_MARKER_LEN = 53"

definition QWEN_IMAGE_PAD :: bytes where "QWEN_IMAGE_PAD = lit ''<|image_pad|>''"

definition c_isxdigit :: "u8 \<Rightarrow> bool" where
  "c_isxdigit c \<longleftrightarrow> json_hex c \<ge> 0"

definition qwen_image_cache_marker_at :: "bytes \<Rightarrow> bool" where
  "qwen_image_cache_marker_at p \<longleftrightarrow> QWEN_IMAGE_CACHE_MARKER_LEN \<le> length p \<and>
     take 9 p = QWEN_IMAGE_CACHE_PREFIX \<and> p ! 25 = 58 \<and> p ! 34 = 58 \<and> p ! 43 = 58 \<and> p ! 52 = 0xfe \<and>
     (\<forall>i \<in> set [9..<52]. i = 25 \<or> i = 34 \<or> i = 43 \<or> c_isxdigit (p ! i))"

text \<open>\<open>%0nx\<close>.\<close>

definition hex_pad :: "nat \<Rightarrow> nat \<Rightarrow> bytes" where
  "hex_pad n v = map (\<lambda>i. hex_digit (v div 16 ^ (n - 1 - i) mod 16)) [0..<n]"

definition qwen_image_marker :: "u64 \<Rightarrow> qwen_image_info \<Rightarrow> bytes" where
  "qwen_image_marker h info = QWEN_IMAGE_CACHE_PREFIX @ hex_pad 16 (unat h) @ [58] @ hex_pad 8 (unat (qi_grid_h info)) @
     [58] @ hex_pad 8 (unat (qi_grid_w info)) @ [58] @ hex_pad 8 (unat (qi_token_count info)) @ [0xfe]"

text \<open>The loop over the images: the text up to the next placeholder, then the image's marker.\<close>

fun qwen_cache_text_loop :: "(bytes \<Rightarrow> u64 option) \<Rightarrow> bytes \<Rightarrow> bytes \<Rightarrow> chat_image list \<Rightarrow>
    image_error + (bytes \<times> chat_image list)" where
  "qwen_cache_text_loop pixel_hash key cursor [] = Inr (key @ cursor, [])"
| "qwen_cache_text_loop pixel_hash key cursor (im # ims) =
     (case strstr cursor QWEN_IMAGE_PAD of
        None \<Rightarrow> Inl Err_no_placeholder
      | Some k \<Rightarrow>
          case (if ci_pixel_hash im = 0 then pixel_hash (ci_data im) else Some (ci_pixel_hash im)) of
            None \<Rightarrow> Inl Err_pixels
          | Some h \<Rightarrow>
              let through_pad = k + length QWEN_IMAGE_PAD;
                  key1 = key @ take through_pad cursor;
                  marker = qwen_image_marker h (ci_info im);
                  key2 = key1 @ marker;
                  im' = im\<lparr>ci_pixel_hash := h, ci_marker_start := length key1, ci_marker_end := length key2\<rparr>
              in if length marker \<noteq> QWEN_IMAGE_CACHE_MARKER_LEN then Inl Err_key_overflow
                 else case qwen_cache_text_loop pixel_hash key2 (drop through_pad cursor) ims of
                        Inl e \<Rightarrow> Inl e
                      | Inr (r, ims') \<Rightarrow> Inr (r, im' # ims'))"

definition qwen_image_cache_text_build :: "(bytes \<Rightarrow> u64 option) \<Rightarrow> bytes option \<Rightarrow> chat_image list \<Rightarrow>
    (image_error + (bytes \<times> chat_image list)) option" where
  "qwen_image_cache_text_build pixel_hash txto images =
     (case txto of
        None \<Rightarrow> None
      | Some t \<Rightarrow> if images = [] \<or> length images > CHAT_IMAGE_MAX_COUNT then None
                 else Some (qwen_cache_text_loop pixel_hash [] (cstr t) images))"

function qwen_cache_text_strip_loop :: "bytes \<Rightarrow> bytes" where
  "qwen_cache_text_strip_loop [] = []"
| "qwen_cache_text_strip_loop (c # s) =
     (if qwen_image_cache_marker_at (c # s)
      then qwen_cache_text_strip_loop (drop QWEN_IMAGE_CACHE_MARKER_LEN (c # s))
      else c # qwen_cache_text_strip_loop s)"
  by pat_completeness auto
termination
  by (relation "measure length") (auto simp: QWEN_IMAGE_CACHE_MARKER_LEN_def)

definition qwen_image_cache_text_strip :: "bytes option \<Rightarrow> bytes option" where
  "qwen_image_cache_text_strip key = map_option (\<lambda>k. qwen_cache_text_strip_loop (cstr k)) key"

text \<open>\<open>INT_MAX\<close> when the common prefix ends outside every marker.\<close>

fun qwen_image_cache_token_cap :: "chat_image list \<Rightarrow> nat \<Rightarrow> int" where
  "qwen_image_cache_token_cap [] cache_lcp = 2147483647"
| "qwen_image_cache_token_cap (im # ims) cache_lcp =
     (if ci_marker_start im \<le> cache_lcp \<and> cache_lcp < ci_marker_end im then int (ci_token_offset im)
      else qwen_image_cache_token_cap ims cache_lcp)"

lemma hex_pad_digits: "length (hex_pad n v) = n" "i < n \<Longrightarrow> c_isxdigit (hex_pad n v ! i)"
    "c \<in> set (hex_pad n v) \<Longrightarrow> c \<noteq> 0"
proof -
  have h: "c_isxdigit (hex_digit k) \<and> hex_digit k \<noteq> 0" if "k < 16" for k
  proof -
    have "\<forall>k \<in> set [0..<16]. c_isxdigit (hex_digit k) \<and> hex_digit k \<noteq> 0" by code_simp
    then show ?thesis using that by simp
  qed
  show "length (hex_pad n v) = n" by (simp add: hex_pad_def)
  show "i < n \<Longrightarrow> c_isxdigit (hex_pad n v ! i)" using h by (simp add: hex_pad_def)
  show "c \<in> set (hex_pad n v) \<Longrightarrow> c \<noteq> 0" using h by (auto simp: hex_pad_def)
qed

lemma prefix_length: "length QWEN_IMAGE_CACHE_PREFIX = 9"
  by (simp add: QWEN_IMAGE_CACHE_PREFIX_def lit_def)

lemma marker_length: "length (qwen_image_marker h info) = 53"
  by (simp add: qwen_image_marker_def prefix_length hex_pad_digits)

lemma marker_no_0: "0 \<notin> set (qwen_image_marker h info)"
  using hex_pad_digits(3) by (auto simp: qwen_image_marker_def QWEN_IMAGE_CACHE_PREFIX_def lit_def)

lemma marker_at_marker: "qwen_image_cache_marker_at (qwen_image_marker h info @ r)"
proof -
  define P H1 H2 H3 H4 where "P = QWEN_IMAGE_CACHE_PREFIX" and "H1 = hex_pad 16 (unat h)"
    and "H2 = hex_pad 8 (unat (qi_grid_h info))" and "H3 = hex_pad 8 (unat (qi_grid_w info))"
    and "H4 = hex_pad 8 (unat (qi_token_count info))"
  have len: "length P = 9" "length H1 = 16" "length H2 = 8" "length H3 = 8" "length H4 = 8"
    by (simp_all add: P_def H1_def H2_def H3_def H4_def prefix_length hex_pad_digits)
  have hex: "i < 16 \<Longrightarrow> c_isxdigit (H1 ! i)" "i < 8 \<Longrightarrow> c_isxdigit (H2 ! i)" "i < 8 \<Longrightarrow> c_isxdigit (H3 ! i)"
    "i < 8 \<Longrightarrow> c_isxdigit (H4 ! i)" for i
    by (simp_all add: H1_def H2_def H3_def H4_def hex_pad_digits)
  define m where "m = P @ H1 @ [58] @ H2 @ [58] @ H3 @ [58] @ H4 @ [0xfe] @ r"
  have at: "m ! i = (if i < 9 then P ! i else if i < 25 then H1 ! (i - 9) else if i = 25 then 58
      else if i < 34 then H2 ! (i - 26) else if i = 34 then 58 else if i < 43 then H3 ! (i - 35)
      else if i = 43 then 58 else if i < 52 then H4 ! (i - 44) else if i = 52 then 0xfe else r ! (i - 53))" for i
    unfolding m_def by (auto simp: nth_append len nth_Cons')
  have digits: "\<forall>i \<in> set [9..<52]. i = 25 \<or> i = 34 \<or> i = 43 \<or> c_isxdigit (m ! i)"
  proof
    fix i assume "i \<in> set [9..<52]"
    then have i: "9 \<le> i" "i < 52" by auto
    then show "i = 25 \<or> i = 34 \<or> i = 43 \<or> c_isxdigit (m ! i)"
      unfolding at using hex(1) [of "i - 9"] hex(2) [of "i - 26"] hex(3) [of "i - 35"] hex(4) [of "i - 44"] by auto
  qed
  have "take 9 m = QWEN_IMAGE_CACHE_PREFIX" using len by (simp add: m_def P_def)
  moreover have "53 \<le> length m" using len by (simp add: m_def)
  moreover have "m ! 25 = 58" "m ! 34 = 58" "m ! 43 = 58" "m ! 52 = 0xfe" by (simp_all add: at)
  moreover have "qwen_image_marker h info @ r = m"
    by (simp add: m_def qwen_image_marker_def P_def H1_def H2_def H3_def H4_def)
  ultimately show ?thesis using digits by (simp add: qwen_image_cache_marker_at_def QWEN_IMAGE_CACHE_MARKER_LEN_def)
qed

lemma strip_marker: "qwen_cache_text_strip_loop (qwen_image_marker h info @ r) = qwen_cache_text_strip_loop r"
proof -
  obtain c s where m: "qwen_image_marker h info @ r = c # s"
    by (cases "qwen_image_marker h info @ r") (auto simp: qwen_image_marker_def QWEN_IMAGE_CACHE_PREFIX_def)
  have "drop 53 (qwen_image_marker h info @ r) = r" using marker_length [of h info] by simp
  then show ?thesis
    using marker_at_marker [of h info r] unfolding m by (simp add: QWEN_IMAGE_CACHE_MARKER_LEN_def)
qed

lemma strip_plain: "0xff \<notin> set t \<Longrightarrow> qwen_cache_text_strip_loop (t @ r) = t @ qwen_cache_text_strip_loop r"
proof (induction t)
  case (Cons c t)
  have "take 9 (c # t @ r) \<noteq> QWEN_IMAGE_CACHE_PREFIX"
    using Cons.prems by (auto simp: QWEN_IMAGE_CACHE_PREFIX_def numeral_eq_Suc)
  then show ?case using Cons by (simp add: qwen_image_cache_marker_at_def)
qed simp

text \<open>
  The loop, read off its result: the key is the text so far, the rest of the text with the markers
  of the images between its pieces, and each image records where its marker stands.
\<close>

lemma cache_text_loop_strip:
  assumes "qwen_cache_text_loop ph key cursor ims = Inr (res, ims')" and "0xff \<notin> set cursor" and "0 \<notin> set cursor"
  shows "\<exists>tail. res = key @ tail \<and> qwen_cache_text_strip_loop tail = cursor \<and> 0 \<notin> set tail \<and>
    length ims' = length ims \<and>
    (\<forall>im \<in> set ims'. length key \<le> ci_marker_start im \<and> ci_marker_end im = ci_marker_start im + 53 \<and>
       bslice (ci_marker_start im) 53 res = qwen_image_marker (ci_pixel_hash im) (ci_info im))"
  using assms
proof (induction ph key cursor ims arbitrary: res ims' rule: qwen_cache_text_loop.induct)
  case (1 ph key cursor)
  then show ?case using strip_plain [of cursor "[]"] by (intro exI [of _ cursor]) auto
next
  case (2 ph key cursor im ims)
  obtain k where k: "strstr cursor QWEN_IMAGE_PAD = Some k" using "2.prems"(1) by (auto split: option.splits)
  obtain h where h: "(if ci_pixel_hash im = 0 then ph (ci_data im) else Some (ci_pixel_hash im)) = Some h"
    using "2.prems"(1) k by (auto split: option.splits)
  define n where "n = k + length QWEN_IMAGE_PAD"
  define m where "m = qwen_image_marker h (ci_info im)"
  define key1 where "key1 = key @ take n cursor"
  obtain ims1 where rec: "qwen_cache_text_loop ph (key1 @ m) (drop n cursor) ims = Inr (res, ims1)"
    and ims': "ims' = im\<lparr>ci_pixel_hash := h, ci_marker_start := length key1, ci_marker_end := length (key1 @ m)\<rparr> # ims1"
    using "2.prems"(1) unfolding qwen_cache_text_loop.simps k option.case h
    by (auto simp: Let_def n_def m_def key1_def marker_length QWEN_IMAGE_CACHE_MARKER_LEN_def split: sum.splits)
  have "0xff \<notin> set (drop n cursor)" "0 \<notin> set (drop n cursor)" using "2.prems"(2,3) by (auto dest: in_set_dropD)
  then obtain tail where tail: "res = (key1 @ m) @ tail" "qwen_cache_text_strip_loop tail = drop n cursor" "0 \<notin> set tail"
    "length ims1 = length ims"
    "\<forall>im \<in> set ims1. length (key1 @ m) \<le> ci_marker_start im \<and> ci_marker_end im = ci_marker_start im + 53 \<and>
       bslice (ci_marker_start im) 53 res = qwen_image_marker (ci_pixel_hash im) (ci_info im)"
    using "2.IH" [OF k h n_def key1_def m_def refl refl] rec marker_length [of h "ci_info im"]
    by (auto simp: QWEN_IMAGE_CACHE_MARKER_LEN_def m_def)
  have plain: "0xff \<notin> set (take n cursor)" "0 \<notin> set (take n cursor)" using "2.prems"(2,3) by (auto dest: in_set_takeD)
  have lm: "length m = 53" by (simp add: m_def marker_length)
  have "qwen_cache_text_strip_loop (take n cursor @ m @ tail) = cursor"
    using strip_plain [OF plain(1)] strip_marker [of h "ci_info im" tail] tail(2) by (simp add: m_def)
  moreover have "res = key @ take n cursor @ m @ tail" using tail(1) by (simp add: key1_def)
  moreover have "0 \<notin> set (take n cursor @ m @ tail)" using plain(2) tail(3) marker_no_0 by (auto simp: m_def)
  moreover have "bslice (length key1) 53 res = m" using tail(1) lm by (simp add: bslice_def)
  ultimately show ?case
    using tail(4,5) lm unfolding ims' by (intro exI [of _ "take n cursor @ m @ tail"]) (auto simp: key1_def m_def)
qed

text \<open>
  The cache key of a prompt with images loses nothing. For a prompt text without the byte
  \<open>0xff\<close>, which no UTF-8 text has, stripping the key gives the text back, and at the place each
  image records the key holds the marker of that image's pixel hash, grid and token count.
\<close>

theorem qwen_cache_text_strip_build:
  assumes "qwen_image_cache_text_build ph (Some t) ims = Some (Inr (key, ims'))" and "0xff \<notin> set (cstr t)"
  shows "qwen_image_cache_text_strip (Some key) = Some (cstr t) \<and> length ims' = length ims \<and>
    (\<forall>im \<in> set ims'. ci_marker_end im = ci_marker_start im + 53 \<and>
       bslice (ci_marker_start im) 53 key = qwen_image_marker (ci_pixel_hash im) (ci_info im))"
proof -
  have loop: "qwen_cache_text_loop ph [] (cstr t) ims = Inr (key, ims')"
    using assms(1) by (auto simp: qwen_image_cache_text_build_def split: if_splits)
  obtain tail where tail: "key = [] @ tail" "qwen_cache_text_strip_loop tail = cstr t" "0 \<notin> set tail"
    "length ims' = length ims"
    "\<forall>im \<in> set ims'. length [] \<le> ci_marker_start im \<and> ci_marker_end im = ci_marker_start im + 53 \<and>
       bslice (ci_marker_start im) 53 key = qwen_image_marker (ci_pixel_hash im) (ci_info im)"
    using cache_text_loop_strip [OF loop assms(2)] by auto
  have "cstr tail = tail" using tail(3) by (auto simp: cstr_def takeWhile_eq_all_conv)
  then show ?thesis using tail by (simp add: qwen_image_cache_text_strip_def)
qed

definition wit_image :: chat_image where
  "wit_image = (chat_image_new CHAT_IMAGE_PNG [1])\<lparr>ci_info := \<lparr>qi_grid_h = 2, qi_grid_w = 3, qi_token_count = 6\<rparr>\<rparr>"

theorem qwen_cache_text_strip_build_witness:
  "\<exists>key ims. qwen_image_cache_text_build (\<lambda>d. Some 255) (Some (lit ''a<|image_pad|>b'')) [wit_image] = Some (Inr (key, ims)) \<and>
     qwen_image_cache_text_strip (Some key) = Some (lit ''a<|image_pad|>b'')"
proof -
  have c: "cstr (lit ''a<|image_pad|>b'') = lit ''a<|image_pad|>b''" by code_simp
  have s: "strstr (lit ''a<|image_pad|>b'') QWEN_IMAGE_PAD = Some 1" by code_simp
  have "\<exists>key ims. qwen_image_cache_text_build (\<lambda>d. Some 255) (Some (lit ''a<|image_pad|>b'')) [wit_image] = Some (Inr (key, ims))"
    unfolding qwen_image_cache_text_build_def option.case c
    by (simp add: CHAT_IMAGE_MAX_COUNT_def s Let_def marker_length QWEN_IMAGE_CACHE_MARKER_LEN_def wit_image_def chat_image_new_def)
  then obtain key ims where k: "qwen_image_cache_text_build (\<lambda>d. Some 255) (Some (lit ''a<|image_pad|>b'')) [wit_image] = Some (Inr (key, ims))"
    by blast
  have "0xff \<notin> set (cstr (lit ''a<|image_pad|>b''))" unfolding c by (simp add: lit_def)
  then show ?thesis using k qwen_cache_text_strip_build [OF k] c by auto
qed

subsection \<open>Expanding the placeholders of a prompt\<close>

definition QWEN_IMAGE_PAD_TOKEN_ID :: int where "QWEN_IMAGE_PAD_TOKEN_ID = 248056"

text \<open>
  The probes of all images, then the size of the expanded prompt: each image adds its token count
  less one, computed in 32 bits before it is added in 64.
\<close>

fun qwen_probe_images :: "(bytes \<Rightarrow> qwen_image_info option) \<Rightarrow> chat_image list \<Rightarrow> chat_image list option" where
  "qwen_probe_images probe [] = Some []"
| "qwen_probe_images probe (im # ims) =
     (case probe (ci_data im) of
        None \<Rightarrow> None
      | Some info \<Rightarrow> map_option ((#) (im\<lparr>ci_info := info\<rparr>)) (qwen_probe_images probe ims))"

fun qwen_expanded_len :: "u64 \<Rightarrow> chat_image list \<Rightarrow> u64" where
  "qwen_expanded_len n [] = n"
| "qwen_expanded_len n (im # ims) = qwen_expanded_len (n + ucast (qi_token_count (ci_info im) - 1)) ims"

text \<open>
  The copy of the prompt: the tokens written so far, the images already placed and those still
  to place.
\<close>

fun qwen_expand_loop :: "int list \<Rightarrow> int list \<Rightarrow> chat_image list \<Rightarrow> chat_image list \<Rightarrow>
    image_error + (int list \<times> chat_image list \<times> chat_image list)" where
  "qwen_expand_loop out [] placed ims = Inr (out, placed, ims)"
| "qwen_expand_loop out (t # ts) placed ims =
     (if t \<noteq> QWEN_IMAGE_PAD_TOKEN_ID then qwen_expand_loop (out @ [t]) ts placed ims
      else case ims of
             [] \<Rightarrow> Inl Err_ambiguous_pad
           | im # ims' \<Rightarrow>
               qwen_expand_loop (out @ replicate (unat (qi_token_count (ci_info im))) QWEN_IMAGE_PAD_TOKEN_ID) ts
                 (placed @ [im\<lparr>ci_token_offset := length out\<rparr>]) ims')"

definition request_expand_qwen_image_tokens :: "(bytes \<Rightarrow> qwen_image_info option) \<Rightarrow> (bytes \<Rightarrow> u64 option) \<Rightarrow>
    int list \<Rightarrow> bytes option \<Rightarrow> chat_image list \<Rightarrow> image_error + (int list \<times> bytes option \<times> chat_image list)" where
  "request_expand_qwen_image_tokens probe pixel_hash prompt prompt_text images =
     (if images = [] then Inr (prompt, None, images)
      else case qwen_probe_images probe images of
             None \<Rightarrow> Inl Err_pixels
           | Some ims \<Rightarrow>
               let expanded_len = qwen_expanded_len (of_nat (length prompt)) ims in
               if expanded_len > 2147483647 then Inl Err_prompt_too_large
               else case qwen_expand_loop [] prompt [] ims of
                      Inl e \<Rightarrow> Inl e
                    | Inr (out, placed, left) \<Rightarrow>
                        if left \<noteq> [] \<or> of_nat (length out) \<noteq> expanded_len then Inl Err_pad_count
                        else case qwen_image_cache_text_build pixel_hash prompt_text placed of
                               None \<Rightarrow> Inl Err_unavailable
                             | Some (Inl e) \<Rightarrow> Inl e
                             | Some (Inr (key, ims')) \<Rightarrow> Inr (out, Some key, ims'))"

text \<open>
  The copy stays inside the allocation: when the size check has passed, no prefix of the prompt
  makes the loop write more tokens than were allocated.
\<close>

lemma qwen_expanded_len_exact:
  assumes "qwen_expanded_len n ims \<le> 2147483647" and "unat n + length ims * 2 ^ 32 < 2 ^ 64"
  shows "(\<forall>im \<in> set ims. 1 \<le> unat (qi_token_count (ci_info im))) \<and>
    unat (qwen_expanded_len n ims) = unat n + (\<Sum>im \<leftarrow> ims. unat (qi_token_count (ci_info im)) - 1)"
  using assms
proof (induction ims arbitrary: n)
  case (Cons im ims)
  define c where "c = qi_token_count (ci_info im)"
  define m where "m = n + ucast (c - 1)"
  have m: "unat m = unat n + unat (c - 1)"
    using Cons.prems(2) unat_u32_bound [of "c - 1"] by (simp add: m_def unat_add_exact)
  have ih: "unat (qwen_expanded_len m ims) = unat m + (\<Sum>im \<leftarrow> ims. unat (qi_token_count (ci_info im)) - 1)"
    "\<forall>im \<in> set ims. 1 \<le> unat (qi_token_count (ci_info im))"
    using Cons.IH [of m] Cons.prems m unat_u32_bound [of "c - 1"] by (simp_all add: m_def c_def)
  have "c \<noteq> 0"
  proof
    assume "c = 0"
    then have "unat (c - 1) = 4294967295" by (simp add: unsigned_minus_1_eq_mask mask_eq_exp_minus_1)
    then have "4294967295 \<le> unat (qwen_expanded_len m ims)" using ih(1) m by simp
    then show False using Cons.prems(1) by (simp add: m_def c_def word_le_nat_alt)
  qed
  then have "1 \<le> c" by (simp add: word_le_nat_alt Suc_le_eq unat_gt_0)
  then have "unat (c - 1) = unat c - 1" "1 \<le> unat c" using unat_sub [of 1 c] by (simp_all add: word_le_nat_alt)
  then show ?case using ih m by (simp add: m_def c_def)
qed simp

lemma qwen_expand_loop_bound:
  assumes "qwen_expand_loop out ts placed ims = Inr (out', placed', left)"
    and "\<forall>im \<in> set ims. 1 \<le> unat (qi_token_count (ci_info im))"
  shows "length out' \<le> length out + length ts + (\<Sum>im \<leftarrow> ims. unat (qi_token_count (ci_info im)) - 1)"
  using assms
proof (induction out ts placed ims rule: qwen_expand_loop.induct)
  case (2 out t ts placed ims)
  then show ?case by (fastforce split: if_splits list.splits)
qed simp

lemma qwen_expand_in_bounds:
  assumes "qwen_expanded_len (of_nat (length prompt)) ims \<le> 2147483647" and "length prompt < 2 ^ 31" and "length ims \<le> 4"
    and "prompt = done @ todo" and "qwen_expand_loop [] done [] ims = Inr (out, placed, left)"
  shows "length out \<le> unat (qwen_expanded_len (of_nat (length prompt)) ims)"
proof -
  have n: "unat (of_nat (length prompt) :: u64) = length prompt"
    using assms(2) by (simp add: unat_of_nat take_bit_eq_mod)
  have "unat (of_nat (length prompt) :: u64) + length ims * 2 ^ 32 < 2 ^ 64" using n assms(2,3) by simp
  from qwen_expanded_len_exact [OF assms(1) this] qwen_expand_loop_bound [OF assms(5)] n assms(4)
  show ?thesis by auto
qed

end
