(* ===== verification/Lru_List.thy ===== *)
theory Lru_List
  imports C_Prelude
begin

section \<open>The doubly linked lists of the tool memory and the continuation registry\<close>

text \<open>
  The pointer code of \<open>tool_memory_link_head\<close>, \<open>tool_memory_unlink\<close> and \<open>tool_memory_touch\<close>, which
  the registry repeats for its records. The \<open>prev\<close> and \<open>next\<close> fields are maps from addresses to
  addresses, a null pointer is \<open>None\<close>. \<open>dll l xs\<close> says that the structure represents the list
  \<open>xs\<close>, head first; the operations are shown to be the list operations the other theories use.
\<close>

record lru =
  l_head :: "nat option"
  l_tail :: "nat option"
  l_prev :: "nat \<Rightarrow> nat option"
  l_next :: "nat \<Rightarrow> nat option"

definition lru_empty :: lru where
  "lru_empty = \<lparr>l_head = None, l_tail = None, l_prev = (\<lambda>_. None), l_next = (\<lambda>_. None)\<rparr>"

definition lru_link_head :: "nat \<Rightarrow> lru \<Rightarrow> lru" where
  "lru_link_head e m =
     (let m1 = m\<lparr>l_prev := (l_prev m)(e := None), l_next := (l_next m)(e := l_head m)\<rparr>;
          m2 = (case l_head m1 of
                  Some h \<Rightarrow> m1\<lparr>l_prev := (l_prev m1)(h := Some e)\<rparr>
                | None \<Rightarrow> m1\<lparr>l_tail := Some e\<rparr>)
      in m2\<lparr>l_head := Some e\<rparr>)"

definition lru_unlink :: "nat \<Rightarrow> lru \<Rightarrow> lru" where
  "lru_unlink e m =
     (let m1 = (case l_prev m e of
                  Some p \<Rightarrow> m\<lparr>l_next := (l_next m)(p := l_next m e)\<rparr>
                | None \<Rightarrow> m\<lparr>l_head := l_next m e\<rparr>);
          m2 = (case l_next m1 e of
                  Some n \<Rightarrow> m1\<lparr>l_prev := (l_prev m1)(n := l_prev m1 e)\<rparr>
                | None \<Rightarrow> m1\<lparr>l_tail := l_prev m1 e\<rparr>)
      in m2\<lparr>l_prev := (l_prev m2)(e := None), l_next := (l_next m2)(e := None)\<rparr>)"

definition lru_touch :: "nat \<Rightarrow> lru \<Rightarrow> lru" where
  "lru_touch e m = (if l_head m = Some e then m else lru_link_head e (lru_unlink e m))"

subsection \<open>The list a structure represents\<close>

definition first_of :: "'a list \<Rightarrow> 'a option" where
  "first_of xs = (case xs of [] \<Rightarrow> None | x # _ \<Rightarrow> Some x)"

definition last_of :: "'a list \<Rightarrow> 'a option" where
  "last_of xs = (if xs = [] then None else Some (last xs))"

text \<open>Around every occurrence of an element, its pointers are its neighbours.\<close>

definition dll :: "lru \<Rightarrow> nat list \<Rightarrow> bool" where
  "dll m xs \<longleftrightarrow> distinct xs \<and> l_head m = first_of xs \<and> l_tail m = last_of xs \<and>
     (\<forall>as e bs. xs = as @ e # bs \<longrightarrow> l_prev m e = last_of as \<and> l_next m e = first_of bs)"

lemma ends_simps [simp]:
  "first_of [] = None" "first_of (x # xs) = Some x" "last_of [] = None" "last_of (xs @ [x]) = Some x"
  by (simp_all add: first_of_def last_of_def)

lemma last_of_Cons: "last_of (x # xs) = (if xs = [] then Some x else last_of xs)"
  by (simp add: last_of_def)

lemma last_of_append: "last_of (xs @ ys) = (if ys = [] then last_of xs else last_of ys)"
  by (simp add: last_of_def)

lemma first_of_append: "first_of (xs @ ys) = (if xs = [] then first_of ys else first_of xs)"
  by (cases xs) simp_all

lemma dll_empty: "dll lru_empty []"
  by (simp add: dll_def lru_empty_def)

lemma dll_link_head:
  assumes "dll m xs" and "e \<notin> set xs"
  shows "dll (lru_link_head e m) (e # xs)"
proof -
  define m' where "m' = lru_link_head e m"
  have head: "l_head m' = Some e" and tail: "l_tail m' = last_of (e # xs)"
    using assms by (auto simp: m'_def lru_link_head_def Let_def dll_def last_of_Cons split: option.splits)
      (cases xs, simp_all)+
  have nxt: "l_next m' x = (if x = e then first_of xs else l_next m x)" for x
    using assms(1) by (auto simp: m'_def lru_link_head_def Let_def dll_def split: option.splits)
  have prv: "l_prev m' x = (if first_of xs = Some x then Some e else if x = e then None else l_prev m x)" for x
    using assms(1) by (auto simp: m'_def lru_link_head_def Let_def dll_def split: option.splits)
  have around: "l_prev m' x = last_of as \<and> l_next m' x = first_of bs" if split: "e # xs = as @ x # bs" for as x bs
  proof (cases as)
    case Nil
    then have "x = e" "bs = xs" using split by auto
    moreover have "first_of xs \<noteq> Some e" using assms(2) by (cases xs) auto
    ultimately show ?thesis using Nil nxt prv by simp
  next
    case (Cons a as')
    then have s: "a = e" "xs = as' @ x # bs" using split by auto
    then have old: "l_prev m x = last_of as'" "l_next m x = first_of bs" using assms(1) by (auto simp: dll_def)
    have "x \<noteq> e" using s(2) assms(2) by auto
    moreover have "first_of xs = Some x \<longleftrightarrow> as' = []"
      using s(2) assms(1) by (cases as') (auto simp: dll_def)
    ultimately show ?thesis using old Cons s(1) nxt prv by (auto simp: last_of_Cons)
  qed
  show ?thesis
    unfolding dll_def m'_def [symmetric] using assms head tail around by (auto simp: dll_def)
qed

lemma dll_unlink:
  assumes "dll m (as @ e # bs)"
  shows "dll (lru_unlink e m) (as @ bs)"
proof -
  define m' where "m' = lru_unlink e m"
  have d: "distinct (as @ e # bs)" and h: "l_head m = first_of (as @ e # bs)" and t: "l_tail m = last_of (as @ e # bs)"
    and e: "l_prev m e = last_of as" "l_next m e = first_of bs"
    using assms by (auto simp: dll_def)
  have ne: "last_of as \<noteq> Some e" "first_of bs \<noteq> Some e"
    using d by (auto simp: last_of_def first_of_def split: list.splits)
  have fields: "l_head m' = (if as = [] then first_of bs else l_head m)"
    "l_tail m' = (if bs = [] then last_of as else l_tail m)"
    "l_next m' x = (if x = e then None else if last_of as = Some x then first_of bs else l_next m x)"
    "l_prev m' x = (if x = e then None else if first_of bs = Some x then last_of as else l_prev m x)" for x
    using e ne by (auto simp: m'_def lru_unlink_def Let_def split: option.splits)
      (auto simp: last_of_def first_of_def split: list.splits if_splits)
  have around: "l_prev m' x = last_of cs \<and> l_next m' x = first_of ds" if split: "as @ bs = cs @ x # ds" for cs x ds
  proof -
    have "x \<in> set (as @ bs)" using split by simp
    then have x: "x \<noteq> e" using d by auto
    from split consider us where "as = cs @ x # us" "ds = us @ bs" | us where "bs = us @ x # ds" "cs = as @ us"
      by (auto simp: append_eq_append_conv2 Cons_eq_append_conv append_eq_Cons_conv)
    then show ?thesis
    proof cases
      case 1
      then have "as @ e # bs = cs @ x # (us @ e # bs)" by simp
      then have old: "l_prev m x = last_of cs" "l_next m x = first_of (us @ e # bs)" using assms unfolding dll_def by blast+
      have "first_of bs \<noteq> Some x" using 1 d by (cases bs) auto
      moreover have "last_of as = Some x \<longleftrightarrow> us = []" using 1 d by (auto simp: last_of_def)
      ultimately show ?thesis using old 1 x fields by (auto simp: first_of_append)
    next
      case 2
      then have "as @ e # bs = (as @ e # us) @ x # ds" by simp
      then have old: "l_prev m x = last_of (as @ e # us)" "l_next m x = first_of ds" using assms unfolding dll_def by blast+
      have "last_of as \<noteq> Some x" using 2 d by (auto simp: last_of_def)
      moreover have "first_of bs = Some x \<longleftrightarrow> us = []" using 2 d by (cases us) auto
      ultimately show ?thesis using old 2 x fields by (auto simp: last_of_append last_of_Cons)
    qed
  qed
  have "l_head m' = first_of (as @ bs)" "l_tail m' = last_of (as @ bs)"
    using h t fields by (auto simp: first_of_append last_of_append last_of_Cons)
  then show ?thesis unfolding dll_def m'_def [symmetric] using d around by auto
qed

subsection \<open>The contract\<close>

text \<open>
  What the clients of such a structure rely on: it represents a list without repetition, linking
  puts an element in front, unlinking removes it.
\<close>

locale recency_list =
  fixes rep :: "'s \<Rightarrow> 'e list \<Rightarrow> bool"
    and link :: "'e \<Rightarrow> 's \<Rightarrow> 's"
    and unlink :: "'e \<Rightarrow> 's \<Rightarrow> 's"
  assumes rep_distinct: "rep s xs \<Longrightarrow> distinct xs"
    and rep_link: "rep s xs \<Longrightarrow> e \<notin> set xs \<Longrightarrow> rep (link e s) (e # xs)"
    and rep_unlink: "rep s xs \<Longrightarrow> e \<in> set xs \<Longrightarrow> rep (unlink e s) (remove1 e xs)"
begin

lemma rep_move_front: "rep s xs \<Longrightarrow> e \<in> set xs \<Longrightarrow> rep (link e (unlink e s)) (e # remove1 e xs)"
  by (intro rep_link rep_unlink) (auto dest: rep_distinct)

text \<open>Touching distinct elements one after the other puts them in front, the last touched first.\<close>

lemma rep_touches:
  "rep s xs \<Longrightarrow> set es \<subseteq> set xs \<Longrightarrow> distinct es \<Longrightarrow>
   rep (fold (\<lambda>e s. link e (unlink e s)) es s) (rev es @ filter (\<lambda>x. x \<notin> set es) xs)"
proof (induction es rule: rev_induct)
  case (snoc e es)
  define ys where "ys = rev es @ filter (\<lambda>x. x \<notin> set es) xs"
  have ys: "rep (fold (\<lambda>e s. link e (unlink e s)) es s) ys" "e \<in> set ys"
    using snoc by (auto simp: ys_def)
  have "distinct (filter (\<lambda>x. x \<notin> set es) xs)" using rep_distinct [OF snoc.prems(1)] by simp
  then have "remove1 e ys = rev es @ filter (\<lambda>x. x \<notin> set (es @ [e])) xs"
    using snoc.prems(3)
    by (simp add: ys_def remove1_append distinct_remove1_removeAll removeAll_filter_not_eq filter_filter conj_commute
        eq_commute [of e])
  then show ?case using rep_move_front [OF ys] by simp
qed simp

end

interpretation lru_rep: recency_list dll lru_link_head lru_unlink
proof
  fix s e and xs :: "nat list"
  show "dll s xs \<Longrightarrow> distinct xs" by (simp add: dll_def)
  show "dll s xs \<Longrightarrow> e \<notin> set xs \<Longrightarrow> dll (lru_link_head e s) (e # xs)" by (rule dll_link_head)
  assume "dll s xs" "e \<in> set xs"
  moreover obtain as bs where "xs = as @ e # bs" "e \<notin> set as" using split_list_first [OF \<open>e \<in> set xs\<close>] by blast
  ultimately show "dll (lru_unlink e s) (remove1 e xs)" using dll_unlink by (simp add: remove1_append)
qed

text \<open>Walking back from the tail, as the eviction does, visits the list from its end.\<close>

lemma dll_walk_back:
  assumes "dll m (as @ e # bs)"
  shows "l_tail m = last_of (as @ e # bs)" and "l_prev m e = last_of as"
  using assms by (auto simp: dll_def)

text \<open>
  C38. The pointer operations are the list operations. On a structure that represents a list
  without repetition, linking a new element in front represents the longer list, unlinking an
  element of it represents the list without that element, and touching one moves it to the front,
  with the same order of the others.
\<close>

theorem lru_refines_list:
  assumes "dll m xs"
  shows "(e \<notin> set xs \<longrightarrow> dll (lru_link_head e m) (e # xs)) \<and>
    (e \<in> set xs \<longrightarrow> dll (lru_unlink e m) (remove1 e xs) \<and> dll (lru_touch e m) (e # remove1 e xs))"
proof -
  have "dll (lru_touch e m) (e # remove1 e xs)" if "e \<in> set xs"
  proof (cases "l_head m = Some e")
    case True
    then obtain ys where "xs = e # ys" using assms by (cases xs) (auto simp: dll_def)
    then show ?thesis using True assms by (simp add: lru_touch_def)
  next
    case False
    then show ?thesis using lru_rep.rep_move_front [OF assms that] by (simp add: lru_touch_def)
  qed
  then show ?thesis using lru_rep.rep_link [OF assms] lru_rep.rep_unlink [OF assms] by blast
qed

theorem lru_refines_list_witness:
  "dll (lru_link_head 5 (lru_link_head 3 lru_empty)) [5, 3] \<and>
   dll (lru_touch 3 (lru_link_head 5 (lru_link_head 3 lru_empty))) [3, 5]"
proof -
  have one: "dll (lru_link_head 3 lru_empty) [3]" using lru_refines_list [OF dll_empty, of 3] by simp
  have two: "dll (lru_link_head 5 (lru_link_head 3 lru_empty)) [5, 3]" using lru_refines_list [OF one, of 5] by simp
  show ?thesis using two lru_refines_list [OF two, of 3] by simp
qed

end
