(* ===== verification/Tool_Memory.thy ===== *)
theory Tool_Memory
  imports Server_Text Lru_List
begin

section \<open>The memory of exact tool-call texts\<close>

text \<open>
  \<open>tool_memory\<close> of \<open>ds4_server.c\<close>: under every tool-call id the exact text the model sampled, as an
  entry that shares a block with all ids of the same text, in an order of recency with bounds on
  the number of entries and on their bytes.

  The two radix trees are maps from byte strings. An entry is named by its id and a block by its
  text, which are their keys there; the chain of a block's entries and the list of recency are
  lists of ids, newest first, by the theory \<open>Lru_List\<close>. An entry may belong to a continuation
  record, whose address it holds; the registry has the records. Sizes are those of the 64-bit
  layout: 72 bytes for an entry and 48 for a block. \<open>xmalloc\<close> ends the process when memory runs
  out, so no operation here fails.
\<close>

datatype tool_memory_source = TOOL_MEMORY_RAM | TOOL_MEMORY_DISK

record tool_block =
  tb_bytes :: u64
  tb_refs :: int
  tb_seen :: u64
  tb_entries :: "bytes list"

record tool_entry =
  te_block :: bytes
  te_bytes :: u64
  te_stamp :: u64
  te_source :: tool_memory_source
  te_pins :: int
  te_rec :: "nat option"

record tool_memory =
  tm_by_id :: "bytes \<rightharpoonup> tool_entry"
  tm_by_block :: "bytes \<rightharpoonup> tool_block"
  tm_lru :: "bytes list"
  tm_entries :: int
  tm_max_entries :: int
  tm_bytes :: u64
  tm_max_bytes :: u64
  tm_clock :: u64
  tm_scan_clock :: u64
  tm_srv :: bool

definition tool_memory_max_entries :: "tool_memory \<Rightarrow> int" where
  "tool_memory_max_entries m = (if tm_max_entries m > 0 then tm_max_entries m else 100000)"

definition tool_memory_max_bytes :: "tool_memory \<Rightarrow> u64" where
  "tool_memory_max_bytes m = (if tm_max_bytes m > 0 then tm_max_bytes m else 536870912)"

definition sizeof_entry :: nat where "sizeof_entry = 72"
definition sizeof_block :: nat where "sizeof_block = 48"

text \<open>\<open>if (m->bytes >= n) m->bytes -= n; else m->bytes = 0\<close>.\<close>

definition bytes_sub :: "u64 \<Rightarrow> u64 \<Rightarrow> u64" where
  "bytes_sub a n = (if a \<ge> n then a - n else 0)"

definition tool_memory_touch :: "tool_memory \<Rightarrow> bytes \<Rightarrow> tool_memory" where
  "tool_memory_touch m cid =
     (case tm_by_id m cid of
        None \<Rightarrow> m
      | Some e \<Rightarrow> m\<lparr>tm_clock := tm_clock m + 1, tm_by_id := (tm_by_id m)(cid \<mapsto> e\<lparr>te_stamp := tm_clock m + 1\<rparr>),
                    tm_lru := cid # remove1 cid (tm_lru m)\<rparr>)"

definition tool_block_unlink_entry :: "tool_block \<Rightarrow> bytes \<Rightarrow> tool_block" where
  "tool_block_unlink_entry b cid = b\<lparr>tb_entries := remove1 cid (tb_entries b)\<rparr>"

definition tool_memory_find_block_locked :: "tool_memory \<Rightarrow> bytes \<Rightarrow> tool_block option" where
  "tool_memory_find_block_locked m dsml = (if dsml = [] then None else tm_by_block m dsml)"

definition tool_memory_get_block_locked :: "tool_memory \<Rightarrow> bytes \<Rightarrow> tool_memory" where
  "tool_memory_get_block_locked m dsml =
     (case tool_memory_find_block_locked m dsml of
        Some b \<Rightarrow> m
      | None \<Rightarrow>
          let n = of_nat (length dsml + 1 + sizeof_block)
          in m\<lparr>tm_by_block := (tm_by_block m)(dsml \<mapsto> \<lparr>tb_bytes = n, tb_refs = 0, tb_seen = 0, tb_entries = []\<rparr>),
               tm_bytes := tm_bytes m + n\<rparr>)"

definition tool_memory_release_block_locked :: "tool_memory \<Rightarrow> bytes \<Rightarrow> tool_memory" where
  "tool_memory_release_block_locked m k =
     (case tm_by_block m k of
        None \<Rightarrow> m
      | Some b \<Rightarrow>
          if tb_refs b - 1 > 0 then m\<lparr>tm_by_block := (tm_by_block m)(k \<mapsto> b\<lparr>tb_refs := tb_refs b - 1\<rparr>)\<rparr>
          else m\<lparr>tm_by_block := (tm_by_block m)(k := None), tm_bytes := bytes_sub (tm_bytes m) (tb_bytes b)\<rparr>)"

definition tool_memory_remove_entry_locked :: "tool_memory \<Rightarrow> bytes \<Rightarrow> tool_memory" where
  "tool_memory_remove_entry_locked m cid =
     (case tm_by_id m cid of
        None \<Rightarrow> m
      | Some e \<Rightarrow>
          let m1 = m\<lparr>tm_by_id := (tm_by_id m)(cid := None), tm_lru := remove1 cid (tm_lru m),
                     tm_by_block := (tm_by_block m)(te_block e :=
                       map_option (\<lambda>b. tool_block_unlink_entry b cid) (tm_by_block m (te_block e))),
                     tm_bytes := bytes_sub (tm_bytes m) (te_bytes e),
                     tm_entries := (if tm_entries m > 0 then tm_entries m - 1 else tm_entries m)\<rparr>
          in tool_memory_release_block_locked m1 (te_block e))"

definition tool_memory_find_entry_locked :: "tool_memory \<Rightarrow> bytes \<Rightarrow> tool_entry option" where
  "tool_memory_find_entry_locked m cid = (if cid = [] then None else tm_by_id m cid)"

text \<open>The new entry of a put, after a different one of the same id is gone and the block exists.\<close>

definition tool_memory_new_entry :: "tool_memory \<Rightarrow> bytes \<Rightarrow> bytes \<Rightarrow> tool_memory_source \<Rightarrow> tool_memory" where
  "tool_memory_new_entry m cid dsml source =
     (let m1 = tool_memory_get_block_locked m dsml;
          n = of_nat (length cid + 1 + sizeof_entry);
          e = \<lparr>te_block = dsml, te_bytes = n, te_stamp = tm_clock m1 + 1, te_source = source, te_pins = 0, te_rec = None\<rparr>
      in m1\<lparr>tm_clock := tm_clock m1 + 1,
            tm_by_block := (tm_by_block m1)(dsml :=
              map_option (\<lambda>b. b\<lparr>tb_entries := cid # tb_entries b, tb_refs := tb_refs b + 1\<rparr>) (tm_by_block m1 dsml)),
            tm_by_id := (tm_by_id m1)(cid \<mapsto> e), tm_lru := cid # tm_lru m1,
            tm_entries := tm_entries m1 + 1, tm_bytes := tm_bytes m1 + n\<rparr>)"

text \<open>A put up to its prune. Ids and texts are C strings.\<close>

definition tool_memory_put_entry :: "tool_memory \<Rightarrow> bytes \<Rightarrow> bytes \<Rightarrow> tool_memory_source \<Rightarrow> tool_memory" where
  "tool_memory_put_entry m cid dsml source =
     (case tool_memory_find_entry_locked m cid of
        Some old \<Rightarrow>
          if te_block old = dsml
          then tool_memory_touch
                 (if source = TOOL_MEMORY_RAM
                  then m\<lparr>tm_by_id := (tm_by_id m)(cid \<mapsto> old\<lparr>te_source := TOOL_MEMORY_RAM\<rparr>)\<rparr> else m) cid
          else tool_memory_new_entry (tool_memory_remove_entry_locked m cid) cid dsml source
      | None \<Rightarrow> tool_memory_new_entry m cid dsml source)"

text \<open>A lookup also marks the entry as recently used.\<close>

definition tool_memory_lookup_locked :: "tool_memory \<Rightarrow> bytes \<Rightarrow> (bytes \<times> tool_memory_source) option \<times> tool_memory" where
  "tool_memory_lookup_locked m cid =
     (case tool_memory_find_entry_locked m cid of
        None \<Rightarrow> (None, m)
      | Some e \<Rightarrow> (Some (te_block e, te_source e), tool_memory_touch m cid))"

subsection \<open>The invariant\<close>

text \<open>The bytes in use: ids and entries, texts and blocks, with the terminators of the strings.\<close>

definition keys_size :: "nat \<Rightarrow> (bytes \<rightharpoonup> 'a) \<Rightarrow> nat" where
  "keys_size c f = (\<Sum>k \<in> dom f. length k + c)"

definition tm_size :: "tool_memory \<Rightarrow> nat" where
  "tm_size m = keys_size 73 (tm_by_id m) + keys_size 49 (tm_by_block m)"

definition tm_inv :: "tool_memory \<Rightarrow> bool" where
  "tm_inv m \<longleftrightarrow> distinct (tm_lru m) \<and> set (tm_lru m) = dom (tm_by_id m) \<and> finite (dom (tm_by_block m)) \<and>
     tm_entries m = int (length (tm_lru m)) \<and> tm_bytes m = of_nat (tm_size m) \<and> tm_size m < 2 ^ 64 \<and>
     (\<forall>cid e. tm_by_id m cid = Some e \<longrightarrow> cid \<noteq> [] \<and> te_bytes e = of_nat (length cid + 73) \<and>
        (\<exists>b. tm_by_block m (te_block e) = Some b \<and> cid \<in> set (tb_entries b))) \<and>
     (\<forall>k b. tm_by_block m k = Some b \<longrightarrow> k \<noteq> [] \<and> tb_bytes b = of_nat (length k + 49) \<and>
        tb_entries b \<noteq> [] \<and> distinct (tb_entries b) \<and> tb_refs b = int (length (tb_entries b)) \<and>
        (\<forall>cid \<in> set (tb_entries b). \<exists>e. tm_by_id m cid = Some e \<and> te_block e = k))"

lemma tm_invD:
  assumes "tm_inv m"
  shows "distinct (tm_lru m)" "set (tm_lru m) = dom (tm_by_id m)" "finite (dom (tm_by_id m))" "finite (dom (tm_by_block m))"
    "tm_entries m = int (length (tm_lru m))" "tm_bytes m = of_nat (tm_size m)" "tm_size m < 2 ^ 64"
proof -
  show s: "set (tm_lru m) = dom (tm_by_id m)" using assms by (simp add: tm_inv_def)
  show "finite (dom (tm_by_id m))" unfolding s [symmetric] by simp
qed (use assms in \<open>simp_all add: tm_inv_def\<close>)

lemma tm_inv_entry:
  assumes "tm_inv m" and "tm_by_id m cid = Some e"
  shows "cid \<noteq> []" "te_bytes e = of_nat (length cid + 73)"
    "\<exists>b. tm_by_block m (te_block e) = Some b \<and> cid \<in> set (tb_entries b)"
  using assms by (auto simp: tm_inv_def)

lemma tm_inv_block:
  assumes "tm_inv m" and "tm_by_block m k = Some b"
  shows "k \<noteq> []" "tb_bytes b = of_nat (length k + 49)" "tb_entries b \<noteq> []" "distinct (tb_entries b)"
    "tb_refs b = int (length (tb_entries b))" "\<forall>cid \<in> set (tb_entries b). \<exists>e. tm_by_id m cid = Some e \<and> te_block e = k"
  using assms unfolding tm_inv_def by blast+

lemma bytes_sub_exact: "n \<le> s \<Longrightarrow> s < 2 ^ 64 \<Longrightarrow> bytes_sub (of_nat s) (of_nat n) = of_nat (s - n)"
proof -
  assume a: "n \<le> s" "s < 2 ^ 64"
  then have "unat (of_nat s :: u64) = s" "unat (of_nat n :: u64) = n" by (simp_all add: unat_of_nat take_bit_eq_mod)
  then show ?thesis using a by (simp add: bytes_sub_def word_le_nat_alt of_nat_diff)
qed

lemma keys_size_remove: "finite (dom f) \<Longrightarrow> k \<in> dom f \<Longrightarrow> keys_size c f = keys_size c (f(k := None)) + (length k + c)"
  using sum.remove [of "dom f" k "\<lambda>k. length k + c"] by (simp add: keys_size_def)

lemma keys_size_same: "k \<in> dom f \<Longrightarrow> keys_size c (f(k \<mapsto> v)) = keys_size c f"
  by (simp add: keys_size_def insert_absorb)

lemma keys_size_insert: "finite (dom f) \<Longrightarrow> k \<notin> dom f \<Longrightarrow> keys_size c (f(k \<mapsto> v)) = keys_size c f + (length k + c)"
  by (simp add: keys_size_def)

lemma int_length_remove1: "x \<in> set xs \<Longrightarrow> int (length (remove1 x xs)) = int (length xs) - 1"
  using length_pos_if_in_set [of x xs] by (simp add: length_remove1 of_nat_diff Suc_leI)

subsection \<open>Removing an entry\<close>

text \<open>The block of a removed entry: gone with its last entry, else one reference less.\<close>

definition block_without :: "tool_block \<Rightarrow> bytes \<Rightarrow> tool_block option" where
  "block_without b cid =
     (if tb_entries b = [cid] then None
      else Some (b\<lparr>tb_entries := remove1 cid (tb_entries b), tb_refs := tb_refs b - 1\<rparr>))"

lemma remove_entry_shape:
  assumes inv: "tm_inv m" and e: "tm_by_id m cid = Some e" and b: "tm_by_block m (te_block e) = Some b"
  defines "m' \<equiv> m\<lparr>tm_by_id := (tm_by_id m)(cid := None), tm_lru := remove1 cid (tm_lru m),
    tm_by_block := (tm_by_block m)(te_block e := block_without b cid), tm_entries := tm_entries m - 1\<rparr>"
  shows "tool_memory_remove_entry_locked m cid = m'\<lparr>tm_bytes := of_nat (tm_size m')\<rparr>" and "tm_size m' < tm_size m"
proof -
  note D = tm_invD [OF inv]
  have cid: "cid \<in> set (tb_entries b)" using tm_inv_entry(3) [OF inv e] b by auto
  have pos: "tm_entries m > 0" using D(2,5) e by (cases "tm_lru m") auto
  have ids: "keys_size 73 (tm_by_id m) = keys_size 73 ((tm_by_id m)(cid := None)) + (length cid + 73)"
    using D(3) e by (intro keys_size_remove) auto
  have sub: "bytes_sub (tm_bytes m) (te_bytes e) = of_nat (tm_size m - (length cid + 73))"
    unfolding D(6) tm_inv_entry(2) [OF inv e] using D(7) ids by (intro bytes_sub_exact) (simp_all add: tm_size_def)
  show "tool_memory_remove_entry_locked m cid = m'\<lparr>tm_bytes := of_nat (tm_size m')\<rparr>" "tm_size m' < tm_size m"
  proof (atomize (full), cases "tb_entries b = [cid]")
    case True
    have blk: "keys_size 49 (tm_by_block m) = keys_size 49 ((tm_by_block m)(te_block e := None)) + (length (te_block e) + 49)"
      using D(4) b by (intro keys_size_remove) auto
    have "bytes_sub (of_nat (tm_size m - (length cid + 73))) (tb_bytes b) = of_nat (tm_size m')"
      unfolding tm_inv_block(2) [OF inv b]
      using D(7) ids blk by (subst bytes_sub_exact) (auto simp: tm_size_def m'_def block_without_def True)
    moreover have "tb_refs b = 1" using tm_inv_block(5) [OF inv b] True by simp
    ultimately show "tool_memory_remove_entry_locked m cid = m'\<lparr>tm_bytes := of_nat (tm_size m')\<rparr> \<and> tm_size m' < tm_size m"
      using pos e b sub ids blk True
      by (simp add: tool_memory_remove_entry_locked_def tool_memory_release_block_locked_def Let_def m'_def
          block_without_def tool_block_unlink_entry_def tm_size_def)
  next
    case False
    have "length (tb_entries b) \<noteq> 1" using False cid by (cases "tb_entries b") auto
    then have "tb_refs b - 1 > 0" using tm_inv_block(5) [OF inv b] cid by (cases "tb_entries b") auto
    moreover have "keys_size 49 ((tm_by_block m)(te_block e \<mapsto> x)) = keys_size 49 (tm_by_block m)" for x
      using b by (intro keys_size_same) auto
    ultimately show "tool_memory_remove_entry_locked m cid = m'\<lparr>tm_bytes := of_nat (tm_size m')\<rparr> \<and> tm_size m' < tm_size m"
      using pos e b sub ids False
      by (simp add: tool_memory_remove_entry_locked_def tool_memory_release_block_locked_def Let_def m'_def
          block_without_def tool_block_unlink_entry_def tm_size_def)
  qed
qed

lemma remove_entry_inv:
  assumes inv: "tm_inv m" and e: "tm_by_id m cid = Some e"
  shows "tm_inv (tool_memory_remove_entry_locked m cid)"
    and "tm_by_id (tool_memory_remove_entry_locked m cid) = (tm_by_id m)(cid := None)"
    and "tm_lru (tool_memory_remove_entry_locked m cid) = remove1 cid (tm_lru m)"
    and "tm_size (tool_memory_remove_entry_locked m cid) < tm_size m"
    and "tm_max_entries (tool_memory_remove_entry_locked m cid) = tm_max_entries m"
    and "tm_max_bytes (tool_memory_remove_entry_locked m cid) = tm_max_bytes m"
    and "tm_srv (tool_memory_remove_entry_locked m cid) = tm_srv m"
proof -
  note D = tm_invD [OF inv]
  obtain b where b: "tm_by_block m (te_block e) = Some b" "cid \<in> set (tb_entries b)" using tm_inv_entry(3) [OF inv e] by blast
  define m' where "m' = m\<lparr>tm_by_id := (tm_by_id m)(cid := None), tm_lru := remove1 cid (tm_lru m),
    tm_by_block := (tm_by_block m)(te_block e := block_without b cid), tm_entries := tm_entries m - 1\<rparr>"
  define r where "r = tool_memory_remove_entry_locked m cid"
  have r: "r = m'\<lparr>tm_bytes := of_nat (tm_size m')\<rparr>" and less: "tm_size m' < tm_size m"
    using remove_entry_shape [OF inv e b(1)] by (simp_all add: r_def m'_def)
  have size: "tm_size r = tm_size m'" by (simp add: r tm_size_def)
  have ids: "tm_by_id r = (tm_by_id m)(cid := None)" and lru: "tm_lru r = remove1 cid (tm_lru m)"
    and blk: "tm_by_block r = (tm_by_block m)(te_block e := block_without b cid)" by (simp_all add: r m'_def)
  have mem: "cid \<in> set (tm_lru m)" using D(2) e by auto
  have entry: "x \<noteq> [] \<and> te_bytes f = of_nat (length x + 73) \<and> (\<exists>b. tm_by_block r (te_block f) = Some b \<and> x \<in> set (tb_entries b))"
    if f: "tm_by_id r x = Some f" for x f
  proof -
    have x: "x \<noteq> cid" "tm_by_id m x = Some f" using f ids by (auto split: if_splits)
    obtain c where c: "tm_by_block m (te_block f) = Some c" "x \<in> set (tb_entries c)" using tm_inv_entry(3) [OF inv x(2)] by blast
    have "\<exists>b. tm_by_block r (te_block f) = Some b \<and> x \<in> set (tb_entries b)"
    proof (cases "te_block f = te_block e")
      case True
      then have "x \<in> set (tb_entries b)" using c b by simp
      then show ?thesis using True x(1) by (auto simp: blk block_without_def in_set_remove1)
    qed (use c in \<open>simp add: blk\<close>)
    then show ?thesis using tm_inv_entry [OF inv x(2)] by simp
  qed
  have block: "k \<noteq> [] \<and> tb_bytes c = of_nat (length k + 49) \<and> tb_entries c \<noteq> [] \<and> distinct (tb_entries c) \<and>
      tb_refs c = int (length (tb_entries c)) \<and> (\<forall>x \<in> set (tb_entries c). \<exists>f. tm_by_id r x = Some f \<and> te_block f = k)"
    if c: "tm_by_block r k = Some c" for k c
  proof (cases "k = te_block e")
    case True
    then have ne: "tb_entries b \<noteq> [cid]" and c: "c = b\<lparr>tb_entries := remove1 cid (tb_entries b), tb_refs := tb_refs b - 1\<rparr>"
      using c by (auto simp: blk block_without_def split: if_splits)
    note B = tm_inv_block [OF inv b(1)]
    have "remove1 cid (tb_entries b) \<noteq> []" using ne b(2) by (cases "tb_entries b") (auto split: if_splits)
    moreover have "int (length (remove1 cid (tb_entries b))) = tb_refs b - 1"
      using B(5) b(2) by (simp add: int_length_remove1)
    ultimately show ?thesis using B True c by (auto simp: ids set_remove1_eq)
  next
    case False
    then have "tm_by_block m k = Some c" using c by (simp add: blk)
    note B = tm_inv_block [OF inv this]
    have "cid \<notin> set (tb_entries c)" using B(6) e False by auto
    then have "\<forall>x \<in> set (tb_entries c). \<exists>f. tm_by_id r x = Some f \<and> te_block f = k" using B(6) by (auto simp: ids)
    then show ?thesis using B by blast
  qed
  show "tm_inv (tool_memory_remove_entry_locked m cid)"
    unfolding tm_inv_def r_def [symmetric]
  proof (intro conjI allI impI)
    show "distinct (tm_lru r)" "set (tm_lru r) = dom (tm_by_id r)" using D(1,2) by (auto simp: lru ids)
    show "finite (dom (tm_by_block r))" using D(4) by (auto simp: blk)
    show "tm_entries r = int (length (tm_lru r))"
      using D(5) mem by (simp add: r m'_def int_length_remove1)
    show "tm_bytes r = of_nat (tm_size r)" by (simp add: size) (simp add: r)
    show "tm_size r < 2 ^ 64" using less D(7) size by simp
  qed (use entry block in blast)+
  show "tm_by_id (tool_memory_remove_entry_locked m cid) = (tm_by_id m)(cid := None)"
    "tm_lru (tool_memory_remove_entry_locked m cid) = remove1 cid (tm_lru m)"
    "tm_size (tool_memory_remove_entry_locked m cid) < tm_size m"
    using ids lru less size by (simp_all add: r_def)
  show "tm_max_entries (tool_memory_remove_entry_locked m cid) = tm_max_entries m"
    "tm_max_bytes (tool_memory_remove_entry_locked m cid) = tm_max_bytes m"
    "tm_srv (tool_memory_remove_entry_locked m cid) = tm_srv m"
    using r by (simp_all add: r_def m'_def)
qed

subsection \<open>Touching and adding entries\<close>

lemma touch_inv:
  assumes inv: "tm_inv m"
  shows "tm_inv (tool_memory_touch m cid)" and "tm_size (tool_memory_touch m cid) = tm_size m"
    and "tm_by_block (tool_memory_touch m cid) = tm_by_block m"
    and "set (tm_lru (tool_memory_touch m cid)) = set (tm_lru m)"
proof -
  note D = tm_invD [OF inv]
  show t: "tm_inv (tool_memory_touch m cid)" "tm_size (tool_memory_touch m cid) = tm_size m"
  proof (atomize (full), cases "tm_by_id m cid")
    case None
    then show "tm_inv (tool_memory_touch m cid) \<and> tm_size (tool_memory_touch m cid) = tm_size m"
      using inv by (simp add: tool_memory_touch_def)
  next
    case (Some e)
    define r where "r = tool_memory_touch m cid"
    have r: "r = m\<lparr>tm_clock := tm_clock m + 1, tm_by_id := (tm_by_id m)(cid \<mapsto> e\<lparr>te_stamp := tm_clock m + 1\<rparr>),
        tm_lru := cid # remove1 cid (tm_lru m)\<rparr>" by (simp add: r_def tool_memory_touch_def Some)
    have size: "tm_size r = tm_size m" using Some by (simp add: r tm_size_def keys_size_same domI)
    have mem: "cid \<in> set (tm_lru m)" using D(2) Some by auto
    have "tm_inv r"
      unfolding tm_inv_def
    proof (intro conjI allI impI)
      show "distinct (tm_lru r)" "set (tm_lru r) = dom (tm_by_id r)" using D(1,2) mem by (auto simp: r)
      show "tm_entries r = int (length (tm_lru r))" using D(5) mem by (simp add: r int_length_remove1)
      show "tm_bytes r = of_nat (tm_size r)" "tm_size r < 2 ^ 64" "finite (dom (tm_by_block r))"
        using D(4,6,7) size by (simp_all add: r)
    next
      fix x f assume "tm_by_id r x = Some f"
      then obtain f0 where "tm_by_id m x = Some f0" "te_block f = te_block f0" "te_bytes f = te_bytes f0"
        using Some by (auto simp: r split: if_splits)
      then show "x \<noteq> []" "te_bytes f = of_nat (length x + 73)"
        "\<exists>b. tm_by_block r (te_block f) = Some b \<and> x \<in> set (tb_entries b)"
        using tm_inv_entry [OF inv] by (simp_all add: r)
    next
      fix k b assume "tm_by_block r k = Some b"
      then have "tm_by_block m k = Some b" by (simp add: r)
      note B = tm_inv_block [OF inv this]
      then show "k \<noteq> []" "tb_bytes b = of_nat (length k + 49)" "tb_entries b \<noteq> []" "distinct (tb_entries b)"
        "tb_refs b = int (length (tb_entries b))" by simp_all
      show "\<forall>x \<in> set (tb_entries b). \<exists>f. tm_by_id r x = Some f \<and> te_block f = k"
        using B(6) Some by (fastforce simp: r)
    qed
    then show "tm_inv (tool_memory_touch m cid) \<and> tm_size (tool_memory_touch m cid) = tm_size m"
      using size by (simp add: r_def)
  qed
  show "tm_by_block (tool_memory_touch m cid) = tm_by_block m"
    by (simp add: tool_memory_touch_def split: option.splits)
  show "set (tm_lru (tool_memory_touch m cid)) = set (tm_lru m)"
    using tm_invD(2) [OF t(1)] D(2) by (auto simp: tool_memory_touch_def split: option.splits)
qed

lemma new_entry_inv:
  fixes m :: tool_memory and cid dsml :: bytes and source :: tool_memory_source
  assumes inv: "tm_inv m" and new: "tm_by_id m cid = None" and ne: "cid \<noteq> []" "dsml \<noteq> []"
    and fits: "tm_size m + length cid + length dsml + 122 < 2 ^ 64"
  defines "r \<equiv> tool_memory_new_entry m cid dsml source"
  shows "tm_inv r" and "tm_lru r = cid # tm_lru m" and "tm_size r \<le> tm_size m + length cid + length dsml + 122"
    and "tm_by_id r = (tm_by_id m)(cid \<mapsto> \<lparr>te_block = dsml, te_bytes = of_nat (length cid + 73), te_stamp = tm_clock m + 1,
      te_source = source, te_pins = 0, te_rec = None\<rparr>)"
    and "tm_max_entries r = tm_max_entries m" and "tm_max_bytes r = tm_max_bytes m" and "tm_srv r = tm_srv m"
proof -
  note D = tm_invD [OF inv]
  define m1 where "m1 = tool_memory_get_block_locked m dsml"
  define b1 where "b1 = (case tm_by_block m dsml of Some b \<Rightarrow> b
    | None \<Rightarrow> \<lparr>tb_bytes = of_nat (length dsml + 49), tb_refs = 0, tb_seen = 0, tb_entries = []\<rparr>)"
  have all: "(tm_by_id m1 = tm_by_id m \<and> tm_lru m1 = tm_lru m \<and> tm_entries m1 = tm_entries m \<and> tm_clock m1 = tm_clock m \<and>
      tm_by_block m1 = (tm_by_block m)(dsml \<mapsto> b1) \<and> tm_bytes m1 = of_nat (tm_size m1)) \<and>
      tm_size m1 \<le> tm_size m + length dsml + 49 \<and>
      (tb_bytes b1 = of_nat (length dsml + 49) \<and> tb_refs b1 = int (length (tb_entries b1)) \<and> distinct (tb_entries b1) \<and>
      (\<forall>x \<in> set (tb_entries b1). \<exists>f. tm_by_id m x = Some f \<and> te_block f = dsml)) \<and>
      tm_max_entries m1 = tm_max_entries m \<and> tm_max_bytes m1 = tm_max_bytes m \<and> tm_srv m1 = tm_srv m"
  proof (cases "tm_by_block m dsml")
    case None
    have "keys_size 49 ((tm_by_block m)(dsml \<mapsto> x)) = keys_size 49 (tm_by_block m) + (length dsml + 49)" for x
      using D(4) None by (intro keys_size_insert) auto
    then have "tm_size m1 = tm_size m + (length dsml + 49)"
      using None ne by (simp add: m1_def tool_memory_get_block_locked_def tool_memory_find_block_locked_def Let_def tm_size_def)
    moreover have "m1 = m\<lparr>tm_by_block := (tm_by_block m)(dsml \<mapsto> b1), tm_bytes := tm_bytes m + of_nat (length dsml + 49)\<rparr>"
      using None ne by (simp add: m1_def b1_def tool_memory_get_block_locked_def tool_memory_find_block_locked_def
          Let_def sizeof_block_def add.commute)
    ultimately show ?thesis
      using None D(6) by (simp add: b1_def)
  next
    case (Some b)
    have "m1 = m" "b1 = b"
      using Some ne by (simp_all add: m1_def b1_def tool_memory_get_block_locked_def tool_memory_find_block_locked_def)
    then show ?thesis
      using Some D(6) tm_inv_block [OF inv Some] by (simp add: map_upd_triv)
  qed
  have m1: "tm_by_id m1 = tm_by_id m" "tm_lru m1 = tm_lru m" "tm_entries m1 = tm_entries m" "tm_clock m1 = tm_clock m"
    "tm_by_block m1 = (tm_by_block m)(dsml \<mapsto> b1)" "tm_bytes m1 = of_nat (tm_size m1)"
    and size1: "tm_size m1 \<le> tm_size m + length dsml + 49"
    and b1: "tb_bytes b1 = of_nat (length dsml + 49)" "tb_refs b1 = int (length (tb_entries b1))" "distinct (tb_entries b1)"
      "\<forall>x \<in> set (tb_entries b1). \<exists>f. tm_by_id m x = Some f \<and> te_block f = dsml"
    and rest: "tm_max_entries m1 = tm_max_entries m" "tm_max_bytes m1 = tm_max_bytes m" "tm_srv m1 = tm_srv m"
    using all by blast+
  define e where "e = \<lparr>te_block = dsml, te_bytes = of_nat (length cid + 73), te_stamp = tm_clock m + 1,
      te_source = source, te_pins = 0, te_rec = None\<rparr>"
  define b2 where "b2 = b1\<lparr>tb_entries := cid # tb_entries b1, tb_refs := tb_refs b1 + 1\<rparr>"
  have r: "r = m1\<lparr>tm_clock := tm_clock m + 1, tm_by_block := (tm_by_block m)(dsml \<mapsto> b2), tm_by_id := (tm_by_id m)(cid \<mapsto> e),
      tm_lru := cid # tm_lru m, tm_entries := tm_entries m + 1, tm_bytes := of_nat (tm_size m1) + of_nat (length cid + 73)\<rparr>"
    using m1 by (simp add: r_def tool_memory_new_entry_def Let_def m1_def [symmetric] e_def b2_def sizeof_entry_def add.commute)
  have "keys_size 49 (tm_by_block r) = keys_size 49 (tm_by_block m1)" by (simp add: r m1 keys_size_def)
  moreover have "keys_size 73 (tm_by_id r) = keys_size 73 (tm_by_id m1) + (length cid + 73)"
    using D(3) new by (simp add: r m1) (intro keys_size_insert, auto)
  ultimately have size: "tm_size r = tm_size m1 + (length cid + 73)" by (simp add: tm_size_def)
  show "tm_inv r"
    unfolding tm_inv_def
  proof (intro conjI allI impI)
    show "distinct (tm_lru r)" "set (tm_lru r) = dom (tm_by_id r)" using D(1,2) new by (auto simp: r)
    show "tm_entries r = int (length (tm_lru r))" "finite (dom (tm_by_block r))" using D(4,5) by (simp_all add: r)
    show "tm_bytes r = of_nat (tm_size r)" by (simp add: size) (simp add: r)
    show "tm_size r < 2 ^ 64" using size size1 fits by simp
  next
    fix x f assume x: "tm_by_id r x = Some f"
    show "x \<noteq> []" "te_bytes f = of_nat (length x + 73)" "\<exists>b. tm_by_block r (te_block f) = Some b \<and> x \<in> set (tb_entries b)"
    proof (atomize (full), cases "x = cid")
      case True
      then show "x \<noteq> [] \<and> te_bytes f = of_nat (length x + 73) \<and> (\<exists>b. tm_by_block r (te_block f) = Some b \<and> x \<in> set (tb_entries b))"
        using x ne by (auto simp: r e_def b2_def)
    next
      case False
      then have f: "tm_by_id m x = Some f" using x by (simp add: r)
      obtain c where c: "tm_by_block m (te_block f) = Some c" "x \<in> set (tb_entries c)" using tm_inv_entry(3) [OF inv f] by blast
      then have "\<exists>b. tm_by_block r (te_block f) = Some b \<and> x \<in> set (tb_entries b)"
        by (cases "te_block f = dsml") (auto simp: r b2_def b1_def)
      then show "x \<noteq> [] \<and> te_bytes f = of_nat (length x + 73) \<and> (\<exists>b. tm_by_block r (te_block f) = Some b \<and> x \<in> set (tb_entries b))"
        using tm_inv_entry [OF inv f] by simp
    qed
  next
    fix k c assume k: "tm_by_block r k = Some c"
    have "k \<noteq> [] \<and> tb_bytes c = of_nat (length k + 49) \<and> tb_entries c \<noteq> [] \<and> distinct (tb_entries c) \<and>
        tb_refs c = int (length (tb_entries c)) \<and> (\<forall>x \<in> set (tb_entries c). \<exists>f. tm_by_id r x = Some f \<and> te_block f = k)"
    proof (cases "k = dsml")
      case True
      then have c: "c = b2" using k by (simp add: r)
      have "cid \<notin> set (tb_entries b1)" using b1(4) new by auto
      then show ?thesis using b1 ne True c by (auto simp: b2_def r e_def)
    next
      case False
      then have "tm_by_block m k = Some c" using k by (simp add: r)
      note B = tm_inv_block [OF inv this]
      have "cid \<notin> set (tb_entries c)" using B(6) new by auto
      then have "\<forall>x \<in> set (tb_entries c). \<exists>f. tm_by_id r x = Some f \<and> te_block f = k" using B(6) by (auto simp: r)
      then show ?thesis using B by blast
    qed
    then show "k \<noteq> []" "tb_bytes c = of_nat (length k + 49)" "tb_entries c \<noteq> []" "distinct (tb_entries c)"
      "tb_refs c = int (length (tb_entries c))" "\<forall>x \<in> set (tb_entries c). \<exists>f. tm_by_id r x = Some f \<and> te_block f = k" by blast+
  qed
  show "tm_lru r = cid # tm_lru m" "tm_size r \<le> tm_size m + length cid + length dsml + 122"
    "tm_by_id r = (tm_by_id m)(cid \<mapsto> \<lparr>te_block = dsml, te_bytes = of_nat (length cid + 73), te_stamp = tm_clock m + 1,
      te_source = source, te_pins = 0, te_rec = None\<rparr>)"
    using size size1 by (simp_all add: r e_def)
  show "tm_max_entries r = tm_max_entries m" "tm_max_bytes r = tm_max_bytes m" "tm_srv r = tm_srv m"
    using rest by (simp_all add: r)
qed

subsection \<open>Fields that do not belong to the structure\<close>

text \<open>Changing the pins, the record, the source or the stamp of an entry keeps the invariant.\<close>

lemma entry_update_inv:
  assumes inv: "tm_inv m" and e: "tm_by_id m cid = Some e" and same: "te_block e' = te_block e" "te_bytes e' = te_bytes e"
  shows "tm_inv (m\<lparr>tm_by_id := (tm_by_id m)(cid \<mapsto> e')\<rparr>)"
    and "tm_size (m\<lparr>tm_by_id := (tm_by_id m)(cid \<mapsto> e')\<rparr>) = tm_size m"
proof -
  define r where "r = m\<lparr>tm_by_id := (tm_by_id m)(cid \<mapsto> e')\<rparr>"
  note D = tm_invD [OF inv]
  have size: "tm_size r = tm_size m" using e by (simp add: r_def tm_size_def keys_size_same domI)
  have "tm_inv r"
    unfolding tm_inv_def
  proof (intro conjI allI impI)
    show "distinct (tm_lru r)" "set (tm_lru r) = dom (tm_by_id r)" using D(1,2) e by (auto simp: r_def)
    show "tm_entries r = int (length (tm_lru r))" "finite (dom (tm_by_block r))" using D(4,5) by (simp_all add: r_def)
    show "tm_bytes r = of_nat (tm_size r)" "tm_size r < 2 ^ 64" using D(6,7) size by (simp_all add: r_def)
  next
    fix x f assume "tm_by_id r x = Some f"
    then obtain f0 where "tm_by_id m x = Some f0" "te_block f = te_block f0" "te_bytes f = te_bytes f0"
      using e same by (auto simp: r_def split: if_splits)
    then show "x \<noteq> []" "te_bytes f = of_nat (length x + 73)"
      "\<exists>b. tm_by_block r (te_block f) = Some b \<and> x \<in> set (tb_entries b)"
      using tm_inv_entry [OF inv] by (simp_all add: r_def)
  next
    fix k b assume "tm_by_block r k = Some b"
    then have "tm_by_block m k = Some b" by (simp add: r_def)
    note B = tm_inv_block [OF inv this]
    then show "k \<noteq> []" "tb_bytes b = of_nat (length k + 49)" "tb_entries b \<noteq> []" "distinct (tb_entries b)"
      "tb_refs b = int (length (tb_entries b))" by simp_all
    show "\<forall>x \<in> set (tb_entries b). \<exists>f. tm_by_id r x = Some f \<and> te_block f = k"
      using B(6) e same by (fastforce simp: r_def)
  qed
  then show "tm_inv (m\<lparr>tm_by_id := (tm_by_id m)(cid \<mapsto> e')\<rparr>)"
    "tm_size (m\<lparr>tm_by_id := (tm_by_id m)(cid \<mapsto> e')\<rparr>) = tm_size m" using size by (simp_all add: r_def)
qed

lemma touch_fields:
  "tm_by_id (tool_memory_touch m cid) x =
     (if x = cid then map_option (\<lambda>e. e\<lparr>te_stamp := tm_clock m + 1\<rparr>) (tm_by_id m cid) else tm_by_id m x)"
  "tm_max_entries (tool_memory_touch m cid) = tm_max_entries m" "tm_max_bytes (tool_memory_touch m cid) = tm_max_bytes m"
  "tm_srv (tool_memory_touch m cid) = tm_srv m"
  by (simp_all add: tool_memory_touch_def split: option.splits)

lemma put_entry_cases:
  fixes m :: tool_memory and cid dsml :: bytes and source :: tool_memory_source
  assumes ne: "cid \<noteq> []"
  obtains (new) "tm_by_id m cid = None" "tool_memory_put_entry m cid dsml source = tool_memory_new_entry m cid dsml source"
  | (same) old old' where "tm_by_id m cid = Some old" "te_block old = dsml" "te_block old' = te_block old" "te_bytes old' = te_bytes old"
      "te_rec old' = te_rec old" "te_pins old' = te_pins old" "source = TOOL_MEMORY_RAM \<longrightarrow> te_source old' = TOOL_MEMORY_RAM"
      "tool_memory_put_entry m cid dsml source = tool_memory_touch (m\<lparr>tm_by_id := (tm_by_id m)(cid \<mapsto> old')\<rparr>) cid"
  | (other) old where "tm_by_id m cid = Some old"
      "tool_memory_put_entry m cid dsml source = tool_memory_new_entry (tool_memory_remove_entry_locked m cid) cid dsml source"
proof (cases "tm_by_id m cid")
  case None
  then show ?thesis using new ne by (simp add: tool_memory_put_entry_def tool_memory_find_entry_locked_def)
next
  case (Some old)
  show ?thesis
  proof (cases "te_block old = dsml")
    case True
    then show ?thesis
      using Some same [of old "if source = TOOL_MEMORY_RAM then old\<lparr>te_source := TOOL_MEMORY_RAM\<rparr> else old"] ne
      by (simp add: tool_memory_put_entry_def tool_memory_find_entry_locked_def map_upd_triv split: if_splits)
  next
    case False
    then show ?thesis using Some other ne by (simp add: tool_memory_put_entry_def tool_memory_find_entry_locked_def)
  qed
qed

text \<open>A put up to its prune: the id has the text, every other id keeps its entry.\<close>

lemma put_entry_inv:
  fixes m :: tool_memory and cid dsml :: bytes and source :: tool_memory_source
  assumes inv: "tm_inv m" and ne: "cid \<noteq> []" "dsml \<noteq> []" and fits: "tm_size m + length cid + length dsml + 122 < 2 ^ 64"
  defines "r \<equiv> tool_memory_put_entry m cid dsml source"
  shows "tm_inv r"
    and "\<exists>e. tm_by_id r cid = Some e \<and> te_block e = dsml \<and> (te_rec e = None \<and> te_pins e = 0 \<or>
      (\<exists>old. tm_by_id m cid = Some old \<and> te_block old = dsml \<and> te_rec e = te_rec old \<and> te_pins e = te_pins old))"
    and "x \<noteq> cid \<Longrightarrow> tm_by_id r x = tm_by_id m x"
    and "tm_max_entries r = tm_max_entries m \<and> tm_max_bytes r = tm_max_bytes m \<and> tm_srv r = tm_srv m"
    and "\<exists>xs. tm_lru r = cid # xs"
proof -
  have "tm_inv r \<and>
     (\<exists>e. tm_by_id r cid = Some e \<and> te_block e = dsml \<and> (te_rec e = None \<and> te_pins e = 0 \<or>
       (\<exists>old. tm_by_id m cid = Some old \<and> te_block old = dsml \<and> te_rec e = te_rec old \<and> te_pins e = te_pins old))) \<and>
     (\<forall>x. x \<noteq> cid \<longrightarrow> tm_by_id r x = tm_by_id m x) \<and>
     (tm_max_entries r = tm_max_entries m \<and> tm_max_bytes r = tm_max_bytes m \<and> tm_srv r = tm_srv m) \<and> (\<exists>xs. tm_lru r = cid # xs)"
  proof (cases rule: put_entry_cases [OF ne(1), of m dsml source, folded r_def, case_names new same other])
    case new
    note N = new_entry_inv [OF inv new(1) ne fits, of source, folded new(2)]
    show ?thesis using N by simp
  next
    case (same old old')
    note U = entry_update_inv [OF inv same(1,3,4)]
    have "\<exists>xs. tm_lru r = cid # xs" using same(1,8) by (simp add: tool_memory_touch_def)
    then show ?thesis using touch_inv(1) [OF U(1), of cid] same by (simp add: touch_fields)
  next
    case (other old)
    note R = remove_entry_inv [OF inv other(1)]
    have "tm_size (tool_memory_remove_entry_locked m cid) + length cid + length dsml + 122 < 2 ^ 64" using R(4) fits by simp
    note N = new_entry_inv [OF R(1) _ ne this, of source, folded other(2)]
    show ?thesis using N R by simp
  qed
  then show "tm_inv r" "\<exists>e. tm_by_id r cid = Some e \<and> te_block e = dsml \<and> (te_rec e = None \<and> te_pins e = 0 \<or>
      (\<exists>old. tm_by_id m cid = Some old \<and> te_block old = dsml \<and> te_rec e = te_rec old \<and> te_pins e = te_pins old))"
    "x \<noteq> cid \<Longrightarrow> tm_by_id r x = tm_by_id m x"
    "tm_max_entries r = tm_max_entries m \<and> tm_max_bytes r = tm_max_bytes m \<and> tm_srv r = tm_srv m" "\<exists>xs. tm_lru r = cid # xs"
    by blast+
qed

text \<open>How much a put can add, and that a put from memory marks the entry so.\<close>

lemma put_entry_size:
  fixes m :: tool_memory and cid dsml :: bytes and source :: tool_memory_source
  assumes inv: "tm_inv m" and ne: "cid \<noteq> []" "dsml \<noteq> []" and fits: "tm_size m + length cid + length dsml + 122 < 2 ^ 64"
  defines "r \<equiv> tool_memory_put_entry m cid dsml source"
  shows "tm_size r \<le> tm_size m + length cid + length dsml + 122 \<and> length (tm_lru r) \<le> Suc (length (tm_lru m)) \<and>
    (source = TOOL_MEMORY_RAM \<longrightarrow> map_option te_source (tm_by_id r cid) = Some TOOL_MEMORY_RAM)"
proof (cases rule: put_entry_cases [OF ne(1), of m dsml source, folded r_def, case_names new same other])
  case new
  show ?thesis using new_entry_inv [OF inv new(1) ne fits, of source, folded new(2)] by simp
next
  case (same old old')
  note U = entry_update_inv [OF inv same(1,3,4)]
  have "cid \<in> set (tm_lru m)" using tm_invD(2) [OF inv] same(1) by auto
  then have "length (tm_lru r) = length (tm_lru m)"
    using same(1,8) length_pos_if_in_set by (fastforce simp: tool_memory_touch_def length_remove1)
  then show ?thesis using touch_inv(2) [OF U(1), of cid] U(2) same by (simp add: touch_fields)
next
  case (other old)
  note R = remove_entry_inv [OF inv other(1)]
  have "tm_size (tool_memory_remove_entry_locked m cid) + length cid + length dsml + 122 < 2 ^ 64" using R(4) fits by simp
  note N = new_entry_inv [OF R(1) _ ne this, of source, folded other(2)]
  have "length (tm_lru (tool_memory_remove_entry_locked m cid)) \<le> length (tm_lru m)" by (simp add: R(3) length_remove1)
  then show ?thesis using N R by simp
qed

end
