(* ===== verification/Cont_Registry.thy ===== *)
theory Cont_Registry
  imports Tool_Memory C_Double
begin

section \<open>The continuation registry\<close>

text \<open>
  \<open>cont_registry\<close> of \<open>ds4_server.c\<close>: one record per tool-call turn, found by the call ids the turn
  minted, which says where the turn's live state is (the serial session or a bank of the batch
  context, with its generation and its committed length) and owns the turn's entries of the tool
  memory. Every function runs under \<open>tool_mu\<close>, so each is one atomic step on the pair of tool
  memory and registry.

  Records live in a heap from addresses to records, because the index, the entries of the tool
  memory, the field \<open>serial_live\<close> and the pins of queued requests all point at them and a record is
  freed while other structures stay: an address that is not in the heap is a dangling pointer. The
  publication order is a list of addresses, newest first, by the theory \<open>Lru_List\<close>; an allocation
  takes its address as an argument, of which \<open>malloc\<close> promises that it is not in the heap. The index
  is a map from keys to addresses. Times are doubles, read once by each function. Reference counts
  are unbounded: each is at most the number of requests in the server.
\<close>

datatype api_style = API_OPENAI | API_ANTHROPIC | API_RESPONSES
datatype cont_record_state = CONT_REC_LIVE_FRONTIER | CONT_REC_REPLAY_ONLY
datatype cont_record_owner = CONT_OWNER_SERIAL_SESSION | CONT_OWNER_BATCH_BANK

record cont_record =
  cr_state :: cont_record_state
  cr_owner :: cont_record_owner
  cr_protocol :: api_style
  cr_owner_id :: int
  cr_owner_gen :: u64
  cr_frontier :: int
  cr_call_ids :: "bytes list"
  cr_publish_time :: rat
  cr_hard_refs :: int
  cr_pin_expiry :: rat

record cont_registry =
  rg_heap :: "nat \<rightharpoonup> cont_record"
  rg_ready :: bool
  rg_by_call_id :: "bytes \<rightharpoonup> nat"
  rg_order :: "nat list"
  rg_n_records :: int
  rg_n_live :: int
  rg_max_records :: int
  rg_serial_live :: "nat option"
  rg_grace_s :: rat
  rg_ttl_s :: rat
  rg_pin_deadline_s :: rat
  rg_hold_shed_s :: rat

record server =
  sv_tool_mem :: tool_memory
  sv_creg :: cont_registry
  sv_disable_exact_dsml_tool_replay :: bool

text \<open>The tool calls of a turn; a null pointer and an empty string are treated alike everywhere.\<close>

record tool_calls =
  tc_ids :: "bytes list"
  tc_raw_dsml :: bytes
  tc_raw_tool_text :: bytes

definition d_sub :: "rat \<Rightarrow> rat \<Rightarrow> rat" where "d_sub x y = d_round (x - y)"

subsection \<open>Keys and id lists\<close>

definition api_code :: "api_style \<Rightarrow> u8" where
  "api_code p = (case p of API_OPENAI \<Rightarrow> 0 | API_ANTHROPIC \<Rightarrow> 1 | API_RESPONSES \<Rightarrow> 2)"

text \<open>Every caller passes a buffer of 96 bytes.\<close>

definition cont_registry_key :: "api_style \<Rightarrow> bytes \<Rightarrow> bytes" where
  "cont_registry_key proto cid =
     (let idlen = (if length cid > 96 - 2 then 96 - 2 else length cid)
      in [48 + api_code proto, 0x1f] @ take idlen cid)"

definition id_list_contains :: "bytes list \<Rightarrow> bytes \<Rightarrow> bool" where
  "id_list_contains ids cid \<longleftrightarrow> cid \<noteq> [] \<and> cid \<in> set ids"

definition id_list_push_unique :: "bytes list \<Rightarrow> bytes \<Rightarrow> bytes list" where
  "id_list_push_unique ids cid = (if cid = [] \<or> id_list_contains ids cid then ids else ids @ [cid])"

definition calls_id_list :: "bytes list \<Rightarrow> bytes list" where
  "calls_id_list cids = foldl (\<lambda>ids cid. if cid \<noteq> [] then id_list_push_unique ids cid else ids) [] cids"

definition cont_registry_init_locked :: "cont_registry \<Rightarrow> cont_registry" where
  "cont_registry_init_locked r =
     (if rg_ready r then r
      else r\<lparr>rg_ready := True, rg_by_call_id := Map.empty,
             rg_max_records := (if rg_max_records r \<le> 0 then 64 else rg_max_records r)\<rparr>)"

definition cont_registry_find_locked :: "cont_registry \<Rightarrow> api_style \<Rightarrow> bytes \<Rightarrow> nat option" where
  "cont_registry_find_locked r proto cid =
     (if \<not> rg_ready r \<or> cid = [] then None else rg_by_call_id r (cont_registry_key proto cid))"

subsection \<open>Demotion and removal\<close>

definition cont_registry_drop_index_locked :: "cont_registry \<Rightarrow> nat \<Rightarrow> cont_record \<Rightarrow> cont_registry" where
  "cont_registry_drop_index_locked r a rec =
     (if \<not> rg_ready r then r
      else foldl (\<lambda>r cid. let key = cont_registry_key (cr_protocol rec) cid
             in if rg_by_call_id r key = Some a then r\<lparr>rg_by_call_id := (rg_by_call_id r)(key := None)\<rparr> else r)
             r (cr_call_ids rec))"

definition entry_unpin :: "tool_memory \<Rightarrow> bytes \<Rightarrow> tool_memory" where
  "entry_unpin m cid =
     (case tool_memory_find_entry_locked m cid of
        Some e \<Rightarrow> if te_pins e > 0 then m\<lparr>tm_by_id := (tm_by_id m)(cid \<mapsto> e\<lparr>te_pins := te_pins e - 1\<rparr>)\<rparr> else m
      | None \<Rightarrow> m)"

definition cont_registry_demote_locked :: "server \<Rightarrow> nat \<Rightarrow> server" where
  "cont_registry_demote_locked s a =
     (case rg_heap (sv_creg s) a of
        None \<Rightarrow> s
      | Some rec \<Rightarrow>
          if cr_state rec \<noteq> CONT_REC_LIVE_FRONTIER then s
          else let r = sv_creg s
            in s\<lparr>sv_tool_mem := foldl entry_unpin (sv_tool_mem s) (cr_call_ids rec),
                 sv_creg := r\<lparr>rg_heap := (rg_heap r)(a \<mapsto> rec\<lparr>cr_state := CONT_REC_REPLAY_ONLY\<rparr>),
                              rg_serial_live := (if rg_serial_live r = Some a then None else rg_serial_live r),
                              rg_n_live := (if rg_n_live r > 0 then rg_n_live r - 1 else rg_n_live r)\<rparr>\<rparr>)"

definition entry_drop_owned :: "nat \<Rightarrow> tool_memory \<Rightarrow> bytes \<Rightarrow> tool_memory" where
  "entry_drop_owned a m cid =
     (case tool_memory_find_entry_locked m cid of
        Some e \<Rightarrow> if te_rec e = Some a
          then tool_memory_remove_entry_locked (m\<lparr>tm_by_id := (tm_by_id m)(cid \<mapsto> e\<lparr>te_rec := None\<rparr>)\<rparr>) cid else m
      | None \<Rightarrow> m)"

definition cont_registry_remove_locked :: "server \<Rightarrow> nat \<Rightarrow> server" where
  "cont_registry_remove_locked s0 a =
     (let s = cont_registry_demote_locked s0 a
      in case rg_heap (sv_creg s) a of
           None \<Rightarrow> s
         | Some rec \<Rightarrow>
             let r = cont_registry_drop_index_locked (sv_creg s) a rec
             in s\<lparr>sv_tool_mem := foldl (entry_drop_owned a) (sv_tool_mem s) (cr_call_ids rec),
                  sv_creg := r\<lparr>rg_order := remove1 a (rg_order r),
                               rg_n_records := (if rg_n_records r > 0 then rg_n_records r - 1 else rg_n_records r),
                               rg_heap := (rg_heap r)(a := None)\<rparr>\<rparr>)"

text \<open>What the caps may not evict: a record that is live or that a queued request has pinned.\<close>

definition rec_protected :: "cont_record \<Rightarrow> bool" where
  "rec_protected rec \<longleftrightarrow> \<not> (cr_state rec = CONT_REC_REPLAY_ONLY \<and> cr_hard_refs rec \<le> 0)"

text \<open>The walk from the tail, over the records that are left to visit.\<close>

fun cont_registry_prune_walk :: "server \<Rightarrow> nat list \<Rightarrow> server" where
  "cont_registry_prune_walk s [] = s"
| "cont_registry_prune_walk s (a # w) =
     (if rg_n_records (sv_creg s) > rg_max_records (sv_creg s)
      then cont_registry_prune_walk
             (case rg_heap (sv_creg s) a of
                None \<Rightarrow> s
              | Some rec \<Rightarrow> if rec_protected rec then s else cont_registry_remove_locked s a) w
      else s)"

definition cont_registry_prune_locked :: "server \<Rightarrow> server" where
  "cont_registry_prune_locked s = cont_registry_prune_walk s (rev (rg_order (sv_creg s)))"

subsection \<open>The prune of the tool memory\<close>

definition tool_memory_over :: "tool_memory \<Rightarrow> bool" where
  "tool_memory_over m \<longleftrightarrow> tm_entries m > tool_memory_max_entries m \<or> tm_bytes m > tool_memory_max_bytes m"

text \<open>
  The loop of \<open>tool_memory_prune_locked\<close>, over the entries from the cursor to the head. It restarts
  at the tail after a record went, so that it may run forever on a bad structure: then, and when it
  reads a freed record, it has no result.
\<close>

partial_function (option) tool_memory_prune_walk :: "server \<Rightarrow> bytes list \<Rightarrow> server option" where
  "tool_memory_prune_walk s w =
     (if \<not> tool_memory_over (sv_tool_mem s) then Some s
      else case w of
        [] \<Rightarrow> Some s
      | cid # prev \<Rightarrow>
          (case tm_by_id (sv_tool_mem s) cid of
             None \<Rightarrow> None
           | Some e \<Rightarrow>
               if te_pins e > 0 then tool_memory_prune_walk s prev
               else if te_rec e \<noteq> None \<and> tm_srv (sv_tool_mem s)
               then (case rg_heap (sv_creg s) (the (te_rec e)) of
                       None \<Rightarrow> None
                     | Some rec \<Rightarrow>
                         if rec_protected rec then tool_memory_prune_walk s prev
                         else tool_memory_prune_walk (cont_registry_remove_locked s (the (te_rec e)))
                                (rev (tm_lru (sv_tool_mem (cont_registry_remove_locked s (the (te_rec e)))))))
               else tool_memory_prune_walk
                      (s\<lparr>sv_tool_mem := tool_memory_remove_entry_locked (sv_tool_mem s) cid\<rparr>) prev))"

definition tool_memory_prune_locked :: "server \<Rightarrow> server option" where
  "tool_memory_prune_locked s = tool_memory_prune_walk s (rev (tm_lru (sv_tool_mem s)))"

definition tool_memory_put_locked :: "server \<Rightarrow> bytes \<Rightarrow> bytes \<Rightarrow> tool_memory_source \<Rightarrow> server option" where
  "tool_memory_put_locked s cid dsml source =
     (if cid = [] \<or> dsml = [] then Some s
      else tool_memory_prune_locked (s\<lparr>sv_tool_mem := tool_memory_put_entry (sv_tool_mem s) cid dsml source\<rparr>))"

definition tool_calls_exact_text :: "tool_calls \<Rightarrow> bytes option" where
  "tool_calls_exact_text calls =
     (if tc_raw_dsml calls \<noteq> [] then Some (tc_raw_dsml calls)
      else if tc_raw_tool_text calls \<noteq> [] then Some (tc_raw_tool_text calls) else None)"

fun put_all :: "server \<Rightarrow> bytes list \<Rightarrow> bytes \<Rightarrow> server option" where
  "put_all s [] dsml = Some s"
| "put_all s (cid # ids) dsml =
     (case tool_memory_put_locked s cid dsml TOOL_MEMORY_RAM of None \<Rightarrow> None | Some s' \<Rightarrow> put_all s' ids dsml)"

definition tool_memory_remember :: "server \<Rightarrow> tool_calls \<Rightarrow> server option" where
  "tool_memory_remember s calls =
     (case tool_calls_exact_text calls of
        None \<Rightarrow> Some s
      | Some exact \<Rightarrow> if sv_disable_exact_dsml_tool_replay s then Some s else put_all s (tc_ids calls) exact)"

definition tool_memory_put_source :: "server \<Rightarrow> bytes \<Rightarrow> bytes \<Rightarrow> tool_memory_source \<Rightarrow> server option" where
  "tool_memory_put_source s cid dsml source =
     (if sv_disable_exact_dsml_tool_replay s \<or> cid = [] \<or> dsml = [] then Some s
      else tool_memory_put_locked s cid dsml source)"

definition tool_memory_has_id :: "server \<Rightarrow> bytes \<Rightarrow> bool" where
  "tool_memory_has_id s cid \<longleftrightarrow>
     \<not> sv_disable_exact_dsml_tool_replay s \<and> tool_memory_find_entry_locked (sv_tool_mem s) cid \<noteq> None"

subsection \<open>Publication\<close>

definition bank_live_record :: "cont_registry \<Rightarrow> int \<Rightarrow> nat \<Rightarrow> bool" where
  "bank_live_record r bank a =
     (case rg_heap r a of
        None \<Rightarrow> False
      | Some rec \<Rightarrow> cr_state rec = CONT_REC_LIVE_FRONTIER \<and> cr_owner rec = CONT_OWNER_BATCH_BANK \<and> cr_owner_id rec = bank)"

text \<open>The owner's previous live record is superseded.\<close>

definition supersede_owner :: "server \<Rightarrow> cont_record_owner \<Rightarrow> int \<Rightarrow> server" where
  "supersede_owner s owner owner_id =
     (let r = sv_creg s
      in case (if owner = CONT_OWNER_SERIAL_SESSION then rg_serial_live r else find (bank_live_record r owner_id) (rg_order r)) of
           None \<Rightarrow> s
         | Some old \<Rightarrow> cont_registry_demote_locked s old)"

text \<open>One turn of the loop over the record's ids: the row of the index, and the entry's pin and owner.\<close>

definition entry_pin :: "nat \<Rightarrow> tool_memory \<Rightarrow> bytes \<Rightarrow> tool_memory" where
  "entry_pin a m cid =
     (case tool_memory_find_entry_locked m cid of
        Some e \<Rightarrow> m\<lparr>tm_by_id := (tm_by_id m)(cid \<mapsto> e\<lparr>te_pins := te_pins e + 1, te_rec := Some a\<rparr>)\<rparr>
      | None \<Rightarrow> m)"

definition bind_call_id :: "nat \<Rightarrow> api_style \<Rightarrow> server \<Rightarrow> bytes \<Rightarrow> server" where
  "bind_call_id a proto s cid =
     s\<lparr>sv_creg := (sv_creg s)\<lparr>rg_by_call_id := (rg_by_call_id (sv_creg s))(cont_registry_key proto cid \<mapsto> a)\<rparr>,
       sv_tool_mem := entry_pin a (sv_tool_mem s) cid\<rparr>"

definition cont_registry_publish ::
  "nat \<Rightarrow> rat \<Rightarrow> server \<Rightarrow> api_style \<Rightarrow> tool_calls \<Rightarrow> cont_record_owner \<Rightarrow> int \<Rightarrow> u64 \<Rightarrow> int \<Rightarrow> server" where
  "cont_registry_publish a now s proto calls owner owner_id gen frontier =
     (if tc_ids calls = [] \<or> gen = 0 \<or> frontier \<le> 0 then s
      else let s1 = supersede_owner (s\<lparr>sv_creg := cont_registry_init_locked (sv_creg s)\<rparr>) owner owner_id;
               ids = calls_id_list (tc_ids calls)
        in if ids = [] then s1
           else let rec = \<lparr>cr_state = CONT_REC_LIVE_FRONTIER, cr_owner = owner, cr_protocol = proto,
                           cr_owner_id = (if owner = CONT_OWNER_BATCH_BANK then owner_id else 0), cr_owner_gen = gen,
                           cr_frontier = frontier, cr_call_ids = ids, cr_publish_time = now, cr_hard_refs = 0, cr_pin_expiry = 0\<rparr>;
                    s2 = foldl (bind_call_id a proto) s1 ids;
                    r = sv_creg s2
                in cont_registry_prune_locked
                     (s2\<lparr>sv_tool_mem := (sv_tool_mem s2)\<lparr>tm_srv := True\<rparr>,
                         sv_creg := r\<lparr>rg_heap := (rg_heap r)(a \<mapsto> rec), rg_order := a # rg_order r,
                                      rg_n_records := rg_n_records r + 1, rg_n_live := rg_n_live r + 1,
                                      rg_serial_live := (if owner = CONT_OWNER_SERIAL_SESSION then Some a else rg_serial_live r)\<rparr>\<rparr>))"

definition cont_registry_publish_serial :: "nat \<Rightarrow> rat \<Rightarrow> server \<Rightarrow> api_style \<Rightarrow> tool_calls \<Rightarrow> u64 \<Rightarrow> int \<Rightarrow> server" where
  "cont_registry_publish_serial a now s proto calls gen frontier =
     cont_registry_publish a now s proto calls CONT_OWNER_SERIAL_SESSION 0 gen frontier"

definition cont_registry_publish_bank :: "nat \<Rightarrow> rat \<Rightarrow> server \<Rightarrow> api_style \<Rightarrow> tool_calls \<Rightarrow> int \<Rightarrow> u64 \<Rightarrow> int \<Rightarrow> server" where
  "cont_registry_publish_bank a now s proto calls bank gen frontier =
     (if bank < 0 then s else cont_registry_publish a now s proto calls CONT_OWNER_BATCH_BANK bank gen frontier)"

definition cont_registry_demote_serial :: "server \<Rightarrow> server" where
  "cont_registry_demote_serial s =
     (case rg_serial_live (sv_creg s) of None \<Rightarrow> s | Some a \<Rightarrow> cont_registry_demote_locked s a)"

subsection \<open>Expiry and pins\<close>

definition expire_step :: "rat \<Rightarrow> server \<Rightarrow> nat \<Rightarrow> server" where
  "expire_step now s a =
     (case rg_heap (sv_creg s) a of
        None \<Rightarrow> s
      | Some rec \<Rightarrow>
          if cr_state rec = CONT_REC_LIVE_FRONTIER \<and> d_sub now (cr_publish_time rec) > rg_ttl_s (sv_creg s)
          then cont_registry_demote_locked s a else s)"

definition cont_registry_expire_locked :: "server \<Rightarrow> rat \<Rightarrow> server" where
  "cont_registry_expire_locked s now =
     (if rg_ttl_s (sv_creg s) \<le> 0 \<or> rg_n_live (sv_creg s) = 0 then s
      else foldl (expire_step now) s (rg_order (sv_creg s)))"

definition cont_registry_pin_live :: "rat \<Rightarrow> server \<Rightarrow> api_style \<Rightarrow> bytes \<Rightarrow> nat option \<times> server" where
  "cont_registry_pin_live now s0 proto cid =
     (if cid = [] then (None, s0)
      else let s = cont_registry_expire_locked s0 now; r = sv_creg s
        in case cont_registry_find_locked r proto cid of
             None \<Rightarrow> (None, s)
           | Some a \<Rightarrow>
               (case rg_heap r a of
                  None \<Rightarrow> (None, s)
                | Some rec \<Rightarrow>
                    if cr_state rec \<noteq> CONT_REC_LIVE_FRONTIER then (None, s)
                    else let expiry = d_add now (rg_pin_deadline_s r);
                             rec' = rec\<lparr>cr_hard_refs := cr_hard_refs rec + 1,
                               cr_pin_expiry := (if rg_pin_deadline_s r > 0 \<and> expiry > cr_pin_expiry rec then expiry else cr_pin_expiry rec)\<rparr>
                         in (Some a, s\<lparr>sv_creg := r\<lparr>rg_heap := (rg_heap r)(a \<mapsto> rec')\<rparr>\<rparr>)))"

definition cont_registry_unpin :: "server \<Rightarrow> nat \<Rightarrow> server" where
  "cont_registry_unpin s a =
     (case rg_heap (sv_creg s) a of
        None \<Rightarrow> s
      | Some rec \<Rightarrow>
          if cr_hard_refs rec > 0
          then s\<lparr>sv_creg := (sv_creg s)\<lparr>rg_heap := (rg_heap (sv_creg s))(a \<mapsto> rec\<lparr>cr_hard_refs := cr_hard_refs rec - 1\<rparr>)\<rparr>\<rparr>
          else s)"

subsection \<open>What the loops over a record's ids do\<close>

lemma foldl_keeps: "P x \<Longrightarrow> (\<And>x y. P x \<Longrightarrow> y \<in> set ys \<Longrightarrow> P (f x y)) \<Longrightarrow> P (foldl f x ys)"
  by (induction ys arbitrary: x) auto

text \<open>Everything of the tool memory but the pins, the records and the stamps of its entries.\<close>

definition same_texts :: "tool_memory \<Rightarrow> tool_memory \<Rightarrow> bool" where
  "same_texts m m' \<longleftrightarrow> tm_lru m' = tm_lru m \<and> tm_by_block m' = tm_by_block m \<and> tm_size m' = tm_size m \<and>
     tm_max_entries m' = tm_max_entries m \<and> tm_max_bytes m' = tm_max_bytes m \<and> tm_srv m' = tm_srv m \<and>
     (\<forall>cid. map_option te_block (tm_by_id m' cid) = map_option te_block (tm_by_id m cid))"

lemma same_texts_refl [simp]: "same_texts m m"
  by (simp add: same_texts_def)

lemma same_texts_dom: "same_texts m m' \<Longrightarrow> dom (tm_by_id m') = dom (tm_by_id m)"
  unfolding same_texts_def by (auto simp: dom_def) (metis map_option_is_None not_Some_eq)+

definition pins_ok :: "tool_memory \<Rightarrow> bool" where
  "pins_ok m \<longleftrightarrow> (\<forall>cid e. tm_by_id m cid = Some e \<longrightarrow> 0 \<le> te_pins e)"

text \<open>Unpinning keeps which record each entry belongs to.\<close>

lemma unpin_all:
  assumes "tm_inv m" and "pins_ok m"
  shows "tm_inv (foldl entry_unpin m ids)" and "pins_ok (foldl entry_unpin m ids)" and "same_texts m (foldl entry_unpin m ids)"
    and "map_option te_rec (tm_by_id (foldl entry_unpin m ids) cid) = map_option te_rec (tm_by_id m cid)"
proof -
  define P where "P m' \<longleftrightarrow> tm_inv m' \<and> pins_ok m' \<and> same_texts m m' \<and>
    (\<forall>cid. map_option te_rec (tm_by_id m' cid) = map_option te_rec (tm_by_id m cid))" for m'
  have "P (entry_unpin m' c)" if P: "P m'" for m' c
  proof (cases "\<exists>e. tm_by_id m' c = Some e \<and> c \<noteq> [] \<and> te_pins e > 0")
    case True
    then obtain e where e: "tm_by_id m' c = Some e" "c \<noteq> []" "te_pins e > 0" by blast
    then have m'': "entry_unpin m' c = m'\<lparr>tm_by_id := (tm_by_id m')(c \<mapsto> e\<lparr>te_pins := te_pins e - 1\<rparr>)\<rparr>"
      by (simp add: entry_unpin_def tool_memory_find_entry_locked_def)
    have "tm_inv m'" using P by (simp add: P_def)
    note U = entry_update_inv [OF this e(1), of "e\<lparr>te_pins := te_pins e - 1\<rparr>"]
    have old: "map_option te_block (tm_by_id m c) = Some (te_block e)" "map_option te_rec (tm_by_id m c) = Some (te_rec e)"
      using P e(1) unfolding P_def same_texts_def by (metis option.simps(9))+
    show ?thesis using P U e old by (auto simp: P_def m'' same_texts_def pins_ok_def)
  next
    case False
    then have "entry_unpin m' c = m'"
      by (auto simp: entry_unpin_def tool_memory_find_entry_locked_def split: option.splits)
    then show ?thesis using P by simp
  qed
  moreover have "P m" using assms by (simp add: P_def)
  ultimately have "P (foldl entry_unpin m ids)" by (rule foldl_keeps [rotated])
  then show "tm_inv (foldl entry_unpin m ids)" "pins_ok (foldl entry_unpin m ids)" "same_texts m (foldl entry_unpin m ids)"
    "map_option te_rec (tm_by_id (foldl entry_unpin m ids) cid) = map_option te_rec (tm_by_id m cid)" by (simp_all add: P_def)
qed

text \<open>Dropping the entries a record owns: those and no other, and the bytes shrink.\<close>

definition owned_by :: "nat \<Rightarrow> tool_memory \<Rightarrow> bytes \<Rightarrow> bool" where
  "owned_by a m cid \<longleftrightarrow> (\<exists>e. tm_by_id m cid = Some e \<and> te_rec e = Some a)"

lemma drop_owned_step:
  assumes inv: "tm_inv m"
  shows "tm_inv (entry_drop_owned a m c) \<and>
    tm_by_id (entry_drop_owned a m c) x = (if x = c \<and> owned_by a m c then None else tm_by_id m x) \<and>
    tm_lru (entry_drop_owned a m c) = filter (\<lambda>x. \<not> (x = c \<and> owned_by a m c)) (tm_lru m) \<and>
    tm_size (entry_drop_owned a m c) \<le> tm_size m \<and>
    tm_max_entries (entry_drop_owned a m c) = tm_max_entries m \<and> tm_max_bytes (entry_drop_owned a m c) = tm_max_bytes m \<and>
      tm_srv (entry_drop_owned a m c) = tm_srv m"
proof (cases "owned_by a m c")
  case True
  then obtain e where e: "tm_by_id m c = Some e" "te_rec e = Some a" by (auto simp: owned_by_def)
  define m1 where "m1 = m\<lparr>tm_by_id := (tm_by_id m)(c \<mapsto> e\<lparr>te_rec := None\<rparr>)\<rparr>"
  have d: "entry_drop_owned a m c = tool_memory_remove_entry_locked m1 c"
    using e tm_inv_entry(1) [OF inv e(1)] by (simp add: entry_drop_owned_def tool_memory_find_entry_locked_def m1_def)
  note U = entry_update_inv [OF inv e(1), of "e\<lparr>te_rec := None\<rparr>", folded m1_def]
  have inv1: "tm_inv m1" and e1: "tm_by_id m1 c = Some (e\<lparr>te_rec := None\<rparr>)" using U by (simp_all add: m1_def)
  have "remove1 c (tm_lru m) = filter (\<lambda>x. x \<noteq> c) (tm_lru m)"
    using tm_invD(1) [OF inv] by (simp add: distinct_remove1_removeAll removeAll_filter_not_eq eq_commute [of c])
  then show ?thesis
    using remove_entry_inv [OF inv1 e1] U(2) True by (simp add: d) (simp add: m1_def)
next
  case False
  then have "entry_drop_owned a m c = m"
    by (auto simp: entry_drop_owned_def tool_memory_find_entry_locked_def owned_by_def split: option.splits)
  then show ?thesis
    using inv False by simp
qed

lemma drop_owned_all:
  "tm_inv m \<Longrightarrow> tm_inv (foldl (entry_drop_owned a) m ids) \<and>
   (\<forall>x. tm_by_id (foldl (entry_drop_owned a) m ids) x = (if x \<in> set ids \<and> owned_by a m x then None else tm_by_id m x)) \<and>
   tm_lru (foldl (entry_drop_owned a) m ids) = filter (\<lambda>x. \<not> (x \<in> set ids \<and> owned_by a m x)) (tm_lru m) \<and>
   tm_size (foldl (entry_drop_owned a) m ids) \<le> tm_size m \<and>
   tm_max_entries (foldl (entry_drop_owned a) m ids) = tm_max_entries m \<and>
   tm_max_bytes (foldl (entry_drop_owned a) m ids) = tm_max_bytes m \<and> tm_srv (foldl (entry_drop_owned a) m ids) = tm_srv m"
proof (induction ids arbitrary: m)
  case (Cons c ids)
  define m1 where "m1 = entry_drop_owned a m c"
  have S: "tm_inv m1" "tm_by_id m1 x = (if x = c \<and> owned_by a m c then None else tm_by_id m x)"
    "tm_lru m1 = filter (\<lambda>x. \<not> (x = c \<and> owned_by a m c)) (tm_lru m)" "tm_size m1 \<le> tm_size m"
    "tm_max_entries m1 = tm_max_entries m \<and> tm_max_bytes m1 = tm_max_bytes m \<and> tm_srv m1 = tm_srv m" for x
    using drop_owned_step [OF Cons.prems, of a c] by (auto simp: m1_def)
  note I = Cons.IH [OF S(1)]
  have own: "owned_by a m1 x \<longleftrightarrow> owned_by a m x \<and> x \<noteq> c" for x
    by (auto simp: owned_by_def S(2))
  have "(if x \<in> set ids \<and> owned_by a m1 x then None else tm_by_id m1 x) =
      (if x \<in> set (c # ids) \<and> owned_by a m x then None else tm_by_id m x)" for x
    by (auto simp: own S(2))
  moreover have "filter (\<lambda>x. \<not> (x \<in> set ids \<and> owned_by a m1 x)) (tm_lru m1) =
      filter (\<lambda>x. \<not> (x \<in> set (c # ids) \<and> owned_by a m x)) (tm_lru m)"
    unfolding S(3) filter_filter own by (rule filter_cong) auto
  ultimately show ?case using I S(4,5) by (auto simp: m1_def [symmetric])
qed simp

subsection \<open>The invariant\<close>

text \<open>
  The registry: the order lists the heap, the counts are right, every row of the index points at a
  record that has the id, \<open>serial_live\<close> is the one live record of the serial session and every bank
  has at most one live record. The entries: the record an entry points at exists and has its id.
\<close>

definition is_live :: "cont_registry \<Rightarrow> nat \<Rightarrow> bool" where
  "is_live r a \<longleftrightarrow> (case rg_heap r a of None \<Rightarrow> False | Some rec \<Rightarrow> cr_state rec = CONT_REC_LIVE_FRONTIER)"

definition rec_ok :: "cont_record \<Rightarrow> bool" where
  "rec_ok rec \<longleftrightarrow> cr_call_ids rec \<noteq> [] \<and> distinct (cr_call_ids rec) \<and> [] \<notin> set (cr_call_ids rec) \<and>
     cr_owner_gen rec \<noteq> 0 \<and> 0 < cr_frontier rec \<and> 0 \<le> cr_hard_refs rec"

definition index_ok :: "cont_registry \<Rightarrow> bool" where
  "index_ok r \<longleftrightarrow> (\<forall>k a. rg_ready r \<and> rg_by_call_id r k = Some a \<longrightarrow>
     (\<exists>rec. rg_heap r a = Some rec \<and> k \<in> cont_registry_key (cr_protocol rec) ` set (cr_call_ids rec)))"

definition owners_ok :: "cont_registry \<Rightarrow> bool" where
  "owners_ok r \<longleftrightarrow>
     (\<forall>a. rg_serial_live r = Some a \<longleftrightarrow>
        (\<exists>rec. rg_heap r a = Some rec \<and> cr_state rec = CONT_REC_LIVE_FRONTIER \<and> cr_owner rec = CONT_OWNER_SERIAL_SESSION)) \<and>
     (\<forall>a b bank. bank_live_record r bank a \<and> bank_live_record r bank b \<longrightarrow> a = b)"

definition reg_inv :: "cont_registry \<Rightarrow> bool" where
  "reg_inv r \<longleftrightarrow> distinct (rg_order r) \<and> set (rg_order r) = dom (rg_heap r) \<and>
     rg_n_records r = int (length (rg_order r)) \<and> rg_n_live r = int (card (Collect (is_live r))) \<and>
     (\<not> rg_ready r \<longrightarrow> rg_order r = []) \<and> (\<forall>a rec. rg_heap r a = Some rec \<longrightarrow> rec_ok rec) \<and> index_ok r \<and> owners_ok r"

definition backrefs_ok :: "server \<Rightarrow> bool" where
  "backrefs_ok s \<longleftrightarrow> (\<forall>cid e a. tm_by_id (sv_tool_mem s) cid = Some e \<and> te_rec e = Some a \<longrightarrow>
     tm_srv (sv_tool_mem s) \<and> (\<exists>rec. rg_heap (sv_creg s) a = Some rec \<and> cid \<in> set (cr_call_ids rec)))"

definition srv_inv :: "server \<Rightarrow> bool" where
  "srv_inv s \<longleftrightarrow> tm_inv (sv_tool_mem s) \<and> pins_ok (sv_tool_mem s) \<and> reg_inv (sv_creg s) \<and> backrefs_ok s"

lemma srv_invD:
  assumes "srv_inv s"
  shows "tm_inv (sv_tool_mem s)" "pins_ok (sv_tool_mem s)" "reg_inv (sv_creg s)" "backrefs_ok s"
  using assms by (simp_all add: srv_inv_def)

lemma reg_invD:
  assumes "reg_inv r"
  shows "distinct (rg_order r)" "set (rg_order r) = dom (rg_heap r)" "rg_n_records r = int (length (rg_order r))"
    "rg_n_live r = int (card (Collect (is_live r)))" "rg_ready r \<or> rg_order r = []" "rg_heap r a = Some rec \<Longrightarrow> rec_ok rec"
    "index_ok r" "owners_ok r" "finite (dom (rg_heap r))" "finite (Collect (is_live r))"
proof -
  show "rg_heap r a = Some rec \<Longrightarrow> rec_ok rec" using assms unfolding reg_inv_def by blast
  show s: "set (rg_order r) = dom (rg_heap r)" using assms by (simp add: reg_inv_def)
  show f: "finite (dom (rg_heap r))" unfolding s [symmetric] by simp
  have "Collect (is_live r) \<subseteq> dom (rg_heap r)" by (auto simp: is_live_def split: option.splits)
  then show "finite (Collect (is_live r))" using f by (rule finite_subset)
qed (use assms in \<open>auto simp: reg_inv_def\<close>)

lemma reg_inv_ready: "reg_inv r \<Longrightarrow> rg_heap r a = Some rec \<Longrightarrow> rg_ready r"
  using reg_invD(2,5) [of r] by auto

text \<open>The settings of the registry, which no operation changes.\<close>

definition same_policy :: "cont_registry \<Rightarrow> cont_registry \<Rightarrow> bool" where
  "same_policy r r' \<longleftrightarrow> rg_grace_s r' = rg_grace_s r \<and> rg_ttl_s r' = rg_ttl_s r \<and>
     rg_pin_deadline_s r' = rg_pin_deadline_s r \<and> rg_hold_shed_s r' = rg_hold_shed_s r"

subsection \<open>Demotion\<close>

definition demoted :: "cont_registry \<Rightarrow> nat \<Rightarrow> cont_record \<Rightarrow> cont_registry" where
  "demoted r a rec = r\<lparr>rg_heap := (rg_heap r)(a \<mapsto> rec\<lparr>cr_state := CONT_REC_REPLAY_ONLY\<rparr>),
     rg_serial_live := (if rg_serial_live r = Some a then None else rg_serial_live r), rg_n_live := rg_n_live r - 1\<rparr>"

lemma demoted_inv:
  assumes inv: "reg_inv r" and rec: "rg_heap r a = Some rec" and live: "cr_state rec = CONT_REC_LIVE_FRONTIER"
  shows "reg_inv (demoted r a rec)"
proof -
  note R = reg_invD [OF inv]
  define r' where "r' = demoted r a rec"
  have live': "Collect (is_live r') = Collect (is_live r) - {a}"
    by (auto simp: r'_def demoted_def is_live_def split: option.splits if_splits)
  have "a \<in> Collect (is_live r)" using rec live by (simp add: is_live_def)
  then have card: "int (card (Collect (is_live r'))) = int (card (Collect (is_live r))) - 1"
    using R(10) card_gt_0_iff [of "Collect (is_live r)"] by (auto simp: live' card_Diff_singleton of_nat_diff Suc_leI)
  have "index_ok r'" using R(7) rec by (fastforce simp: index_ok_def r'_def demoted_def)
  moreover have "owners_ok r'"
  proof -
    have serial: "rg_serial_live r' = Some b \<longleftrightarrow> (\<exists>rec. rg_heap r' b = Some rec \<and> cr_state rec = CONT_REC_LIVE_FRONTIER \<and>
        cr_owner rec = CONT_OWNER_SERIAL_SESSION)" for b
    proof (cases "b = a")
      case False
      have "(\<exists>rec. rg_heap r b = Some rec \<and> cr_state rec = CONT_REC_LIVE_FRONTIER \<and>
        cr_owner rec = CONT_OWNER_SERIAL_SESSION) \<longleftrightarrow> rg_serial_live r = Some b"
        using R(8) by (simp add: owners_ok_def)
      then show ?thesis using False by (auto simp: r'_def demoted_def)
    qed (simp add: r'_def demoted_def)
    have "bank_live_record r bank b" if "bank_live_record r' bank b" for bank b
      using that by (auto simp: bank_live_record_def r'_def demoted_def split: option.splits if_splits)
    then show ?thesis using R(8) serial unfolding owners_ok_def by blast
  qed
  moreover have "\<forall>b rc. rg_heap r' b = Some rc \<longrightarrow> rec_ok rc"
    using R(6) rec by (auto simp: r'_def demoted_def rec_ok_def)
  ultimately show ?thesis
    unfolding r'_def [symmetric] reg_inv_def using R card rec
    by (auto simp: r'_def demoted_def)
qed

lemma demote_live:
  assumes inv: "srv_inv s" and rec: "rg_heap (sv_creg s) a = Some rec" and live: "cr_state rec = CONT_REC_LIVE_FRONTIER"
  shows "sv_creg (cont_registry_demote_locked s a) = demoted (sv_creg s) a rec"
    and "sv_tool_mem (cont_registry_demote_locked s a) = foldl entry_unpin (sv_tool_mem s) (cr_call_ids rec)"
    and "srv_inv (cont_registry_demote_locked s a)"
proof -
  note I = srv_invD [OF inv] and R = reg_invD [OF srv_invD(3) [OF inv]]
  have "is_live (sv_creg s) a" using rec live by (simp add: is_live_def)
  then have "0 < card (Collect (is_live (sv_creg s)))" using R(10) by (auto simp: card_gt_0_iff)
  then have n: "rg_n_live (sv_creg s) > 0" using R(4) by simp
  show creg: "sv_creg (cont_registry_demote_locked s a) = demoted (sv_creg s) a rec"
    and mem: "sv_tool_mem (cont_registry_demote_locked s a) = foldl entry_unpin (sv_tool_mem s) (cr_call_ids rec)"
    using rec live n by (simp_all add: cont_registry_demote_locked_def Let_def demoted_def)
  note U = unpin_all [OF I(1,2), of "cr_call_ids rec"]
  have "backrefs_ok (cont_registry_demote_locked s a)"
    unfolding backrefs_ok_def creg mem
  proof (intro allI impI, elim conjE)
    fix cid e b
    assume e: "tm_by_id (foldl entry_unpin (sv_tool_mem s) (cr_call_ids rec)) cid = Some e" "te_rec e = Some b"
    then obtain e0 where "tm_by_id (sv_tool_mem s) cid = Some e0" "te_rec e0 = Some b"
      using U(4) [of cid] by (cases "tm_by_id (sv_tool_mem s) cid") auto
    then obtain rc where "tm_srv (sv_tool_mem s)" "rg_heap (sv_creg s) b = Some rc" "cid \<in> set (cr_call_ids rc)"
      using I(4) unfolding backrefs_ok_def by blast
    then show "tm_srv (foldl entry_unpin (sv_tool_mem s) (cr_call_ids rec)) \<and>
        (\<exists>rc. rg_heap (demoted (sv_creg s) a rec) b = Some rc \<and> cid \<in> set (cr_call_ids rc))"
      using U(3) rec by (auto simp: same_texts_def demoted_def)
  qed
  then show "srv_inv (cont_registry_demote_locked s a)"
    using U(1,2) demoted_inv [OF I(3) rec live] by (simp add: srv_inv_def creg mem)
qed

lemma demote_not_live: "\<not> is_live (sv_creg s) a \<Longrightarrow> cont_registry_demote_locked s a = s"
  by (auto simp: cont_registry_demote_locked_def is_live_def split: option.splits)

lemma demote_inv: "srv_inv s \<Longrightarrow> srv_inv (cont_registry_demote_locked s a)"
  using demote_live(3) [of s a] demote_not_live [of s a] by (cases "is_live (sv_creg s) a") (auto simp: is_live_def split: option.splits)

subsection \<open>Removal\<close>

definition removed :: "cont_registry \<Rightarrow> nat \<Rightarrow> cont_registry" where
  "removed r a = r\<lparr>rg_by_call_id := (\<lambda>k. if rg_by_call_id r k = Some a then None else rg_by_call_id r k),
     rg_order := remove1 a (rg_order r), rg_n_records := rg_n_records r - 1, rg_heap := (rg_heap r)(a := None)\<rparr>"

lemma drop_index_map:
  assumes "rg_ready r"
  shows "cont_registry_drop_index_locked r a rec =
    r\<lparr>rg_by_call_id := (\<lambda>k. if rg_by_call_id r k = Some a \<and> k \<in> cont_registry_key (cr_protocol rec) ` set (cr_call_ids rec)
       then None else rg_by_call_id r k)\<rparr>"
proof -
  define step where "step r cid = (let key = cont_registry_key (cr_protocol rec) cid
    in if rg_by_call_id r key = Some a then r\<lparr>rg_by_call_id := (rg_by_call_id r)(key := None)\<rparr> else r)" for r :: cont_registry and cid
  have "foldl step r ids = r\<lparr>rg_by_call_id := (\<lambda>k. if rg_by_call_id r k = Some a \<and> k \<in> cont_registry_key (cr_protocol rec) ` set ids
       then None else rg_by_call_id r k)\<rparr>" for ids
  proof (induction ids arbitrary: r)
    case (Cons c ids)
    have "step r c = r\<lparr>rg_by_call_id := (\<lambda>k. if rg_by_call_id r k = Some a \<and> k = cont_registry_key (cr_protocol rec) c
       then None else rg_by_call_id r k)\<rparr>" by (auto simp: step_def Let_def fun_eq_iff intro!: cont_registry.equality)
    then show ?case by (auto simp: Cons.IH fun_eq_iff intro!: cont_registry.equality)
  qed simp
  then show ?thesis using assms unfolding cont_registry_drop_index_locked_def step_def by simp
qed

lemma removed_inv:
  assumes inv: "reg_inv r" and rec: "rg_heap r a = Some rec" and replay: "cr_state rec = CONT_REC_REPLAY_ONLY"
  shows "reg_inv (removed r a)"
proof -
  note R = reg_invD [OF inv]
  define r' where "r' = removed r a"
  have live': "is_live r' = is_live r"
    using rec replay by (auto simp: fun_eq_iff r'_def removed_def is_live_def split: option.splits)
  have mem: "a \<in> set (rg_order r)" using R(2) rec by auto
  have "index_ok r'" using R(7) by (auto simp: index_ok_def r'_def removed_def split: if_splits)
  moreover have "owners_ok r'"
  proof -
    have "rg_serial_live r \<noteq> Some a" using R(8) rec replay by (auto simp: owners_ok_def)
    then have serial: "rg_serial_live r' = Some b \<longleftrightarrow> (\<exists>rec. rg_heap r' b = Some rec \<and> cr_state rec = CONT_REC_LIVE_FRONTIER \<and>
        cr_owner rec = CONT_OWNER_SERIAL_SESSION)" for b
      using R(8) by (cases "b = a") (auto simp: owners_ok_def r'_def removed_def)
    have "bank_live_record r bank b" if "bank_live_record r' bank b" for bank b
      using that by (auto simp: bank_live_record_def r'_def removed_def split: option.splits if_splits)
    then show ?thesis using R(8) serial unfolding owners_ok_def by blast
  qed
  moreover have "rg_n_records r' = int (length (rg_order r'))"
    using R(3) mem by (simp add: r'_def removed_def int_length_remove1)
  moreover have "set (rg_order r') = dom (rg_heap r')" using R(1,2) by (auto simp: r'_def removed_def)
  moreover have "\<forall>b rc. rg_heap r' b = Some rc \<longrightarrow> rec_ok rc" using R(6) by (auto simp: r'_def removed_def)
  ultimately show ?thesis
    unfolding r'_def [symmetric] reg_inv_def live' using R(1,4) reg_inv_ready [OF inv rec] by (auto simp: r'_def removed_def)
qed

lemma remove_locked:
  assumes inv: "srv_inv s" and rec: "rg_heap (sv_creg s) a = Some rec"
  defines "s1 \<equiv> cont_registry_demote_locked s a"
  shows "sv_creg (cont_registry_remove_locked s a) = removed (sv_creg s1) a"
    and "sv_tool_mem (cont_registry_remove_locked s a) = foldl (entry_drop_owned a) (sv_tool_mem s1) (cr_call_ids rec)"
    and "srv_inv (cont_registry_remove_locked s a)"
proof -
  have inv1: "srv_inv s1" unfolding s1_def by (rule demote_inv [OF inv])
  note I = srv_invD [OF inv1] and R = reg_invD [OF srv_invD(3) [OF inv1]]
  have "\<exists>rec1. rg_heap (sv_creg s1) a = Some rec1 \<and> cr_state rec1 = CONT_REC_REPLAY_ONLY \<and>
    cr_call_ids rec1 = cr_call_ids rec \<and> cr_protocol rec1 = cr_protocol rec"
  proof (cases "cr_state rec")
    case CONT_REC_LIVE_FRONTIER
    then show ?thesis using demote_live(1) [OF inv rec] by (simp add: s1_def demoted_def)
  next
    case CONT_REC_REPLAY_ONLY
    then have "s1 = s" using rec unfolding s1_def by (intro demote_not_live) (simp add: is_live_def)
    then show ?thesis using rec CONT_REC_REPLAY_ONLY by simp
  qed
  then obtain rec1 where rec1: "rg_heap (sv_creg s1) a = Some rec1" "cr_state rec1 = CONT_REC_REPLAY_ONLY"
    "cr_call_ids rec1 = cr_call_ids rec" "cr_protocol rec1 = cr_protocol rec" by blast
  have ready: "rg_ready (sv_creg s1)" by (rule reg_inv_ready [OF I(3) rec1(1)])
  have rows: "rg_by_call_id (sv_creg s1) k = Some a \<Longrightarrow> k \<in> cont_registry_key (cr_protocol rec1) ` set (cr_call_ids rec1)" for k
    using R(7) ready rec1(1) by (fastforce simp: index_ok_def)
  have idx: "cont_registry_drop_index_locked (sv_creg s1) a rec1 =
      (sv_creg s1)\<lparr>rg_by_call_id := (\<lambda>k. if rg_by_call_id (sv_creg s1) k = Some a then None else rg_by_call_id (sv_creg s1) k)\<rparr>"
    unfolding drop_index_map [OF ready] using rows by (auto simp: fun_eq_iff intro!: cont_registry.equality)
  have "a \<in> set (rg_order (sv_creg s1))" using R(2) rec1(1) by auto
  then have n: "rg_n_records (sv_creg s1) > 0" using R(3) length_pos_if_in_set by fastforce
  show creg: "sv_creg (cont_registry_remove_locked s a) = removed (sv_creg s1) a"
    and mem: "sv_tool_mem (cont_registry_remove_locked s a) = foldl (entry_drop_owned a) (sv_tool_mem s1) (cr_call_ids rec)"
    using rec1 n by (simp_all add: cont_registry_remove_locked_def s1_def [symmetric] Let_def idx removed_def)
  note D = drop_owned_all [OF I(1), of a "cr_call_ids rec"]
  have ids: "tm_by_id (sv_tool_mem (cont_registry_remove_locked s a)) cid = Some e \<Longrightarrow>
      tm_by_id (sv_tool_mem s1) cid = Some e \<and> \<not> (cid \<in> set (cr_call_ids rec) \<and> te_rec e = Some a)" for cid e
    using D by (auto simp: mem owned_by_def split: if_splits)
  have "backrefs_ok (cont_registry_remove_locked s a)"
    unfolding backrefs_ok_def
  proof (intro allI impI, elim conjE)
    fix cid e b
    assume "tm_by_id (sv_tool_mem (cont_registry_remove_locked s a)) cid = Some e" and b: "te_rec e = Some b"
    then have e: "tm_by_id (sv_tool_mem s1) cid = Some e" "\<not> (cid \<in> set (cr_call_ids rec) \<and> te_rec e = Some a)"
      using ids by blast+
    then obtain rc where "tm_srv (sv_tool_mem s1)" "rg_heap (sv_creg s1) b = Some rc" "cid \<in> set (cr_call_ids rc)"
      using I(4) b unfolding backrefs_ok_def by blast
    moreover have "b \<noteq> a" using calculation e b rec1 by auto
    ultimately show "tm_srv (sv_tool_mem (cont_registry_remove_locked s a)) \<and>
        (\<exists>rc. rg_heap (sv_creg (cont_registry_remove_locked s a)) b = Some rc \<and> cid \<in> set (cr_call_ids rc))"
      using D by (auto simp: creg mem removed_def)
  qed
  moreover have "pins_ok (sv_tool_mem (cont_registry_remove_locked s a))" using I(2) ids unfolding pins_ok_def by blast
  ultimately show "srv_inv (cont_registry_remove_locked s a)"
    using D removed_inv [OF I(3) rec1(1,2)] by (simp add: srv_inv_def creg mem)
qed

subsection \<open>Eviction\<close>

text \<open>
  What the two prunes do: the records \<open>A\<close> go, each with its rows of the index and all its entries,
  the entries \<open>E\<close> go alone, and nothing else changes.
\<close>

definition gone :: "server \<Rightarrow> nat set \<Rightarrow> bytes set \<Rightarrow> bytes \<Rightarrow> bool" where
  "gone s A E cid \<longleftrightarrow> cid \<in> E \<or> (\<exists>a \<in> A. owned_by a (sv_tool_mem s) cid)"

definition evicts :: "server \<Rightarrow> server \<Rightarrow> nat set \<Rightarrow> bytes set \<Rightarrow> bool" where
  "evicts s s' A E \<longleftrightarrow>
     (\<forall>a. rg_heap (sv_creg s') a = (if a \<in> A then None else rg_heap (sv_creg s) a)) \<and>
     (\<forall>k. rg_by_call_id (sv_creg s') k = (if rg_by_call_id (sv_creg s) k \<in> Some ` A then None else rg_by_call_id (sv_creg s) k)) \<and>
     rg_order (sv_creg s') = filter (\<lambda>a. a \<notin> A) (rg_order (sv_creg s)) \<and>
     rg_ready (sv_creg s') = rg_ready (sv_creg s) \<and> rg_max_records (sv_creg s') = rg_max_records (sv_creg s) \<and>
     rg_serial_live (sv_creg s') = rg_serial_live (sv_creg s) \<and> same_policy (sv_creg s) (sv_creg s') \<and>
     (\<forall>cid. tm_by_id (sv_tool_mem s') cid = (if gone s A E cid then None else tm_by_id (sv_tool_mem s) cid)) \<and>
     tm_lru (sv_tool_mem s') = filter (\<lambda>cid. \<not> gone s A E cid) (tm_lru (sv_tool_mem s)) \<and>
     tm_max_entries (sv_tool_mem s') = tm_max_entries (sv_tool_mem s) \<and>
     tm_max_bytes (sv_tool_mem s') = tm_max_bytes (sv_tool_mem s) \<and> tm_srv (sv_tool_mem s') = tm_srv (sv_tool_mem s) \<and>
     tm_size (sv_tool_mem s') \<le> tm_size (sv_tool_mem s) \<and>
     sv_disable_exact_dsml_tool_replay s' = sv_disable_exact_dsml_tool_replay s"

lemma evictsD:
  assumes "evicts s s' A E"
  shows "rg_heap (sv_creg s') a = (if a \<in> A then None else rg_heap (sv_creg s) a)"
    "rg_by_call_id (sv_creg s') k = (if rg_by_call_id (sv_creg s) k \<in> Some ` A then None else rg_by_call_id (sv_creg s) k)"
    "rg_order (sv_creg s') = filter (\<lambda>a. a \<notin> A) (rg_order (sv_creg s))"
    "rg_ready (sv_creg s') = rg_ready (sv_creg s)" "rg_max_records (sv_creg s') = rg_max_records (sv_creg s)"
    "rg_serial_live (sv_creg s') = rg_serial_live (sv_creg s)" "same_policy (sv_creg s) (sv_creg s')"
    "tm_by_id (sv_tool_mem s') cid = (if gone s A E cid then None else tm_by_id (sv_tool_mem s) cid)"
    "tm_lru (sv_tool_mem s') = filter (\<lambda>cid. \<not> gone s A E cid) (tm_lru (sv_tool_mem s))"
    "tm_max_entries (sv_tool_mem s') = tm_max_entries (sv_tool_mem s)"
    "tm_max_bytes (sv_tool_mem s') = tm_max_bytes (sv_tool_mem s)" "tm_srv (sv_tool_mem s') = tm_srv (sv_tool_mem s)"
    "tm_size (sv_tool_mem s') \<le> tm_size (sv_tool_mem s)"
    "sv_disable_exact_dsml_tool_replay s' = sv_disable_exact_dsml_tool_replay s"
  using assms unfolding evicts_def by blast+

lemma evicts_refl: "evicts s s {} {}"
  by (simp add: evicts_def gone_def same_policy_def)

lemma evicts_trans:
  assumes 1: "evicts s s' A E" and 2: "evicts s' s'' B F"
  shows "evicts s s'' (A \<union> B) (E \<union> F)"
proof -
  note D1 = evictsD [OF 1] and D2 = evictsD [OF 2]
  have own: "owned_by b (sv_tool_mem s') cid \<longleftrightarrow> owned_by b (sv_tool_mem s) cid \<and> \<not> gone s A E cid" for b cid
    by (auto simp: owned_by_def D1(8))
  then have gone: "gone s (A \<union> B) (E \<union> F) cid \<longleftrightarrow> gone s A E cid \<or> gone s' B F cid" for cid
    unfolding gone_def by blast
  show ?thesis
    unfolding evicts_def
  proof (intro conjI allI)
    show "rg_order (sv_creg s'') = filter (\<lambda>a. a \<notin> A \<union> B) (rg_order (sv_creg s))" using D1(3) D2(3) by (simp add: conj_commute)
    show "tm_lru (sv_tool_mem s'') = filter (\<lambda>cid. \<not> gone s (A \<union> B) (E \<union> F) cid) (tm_lru (sv_tool_mem s))"
      unfolding D2(9) D1(9) filter_filter gone by (rule filter_cong) auto
    show "same_policy (sv_creg s) (sv_creg s'')" using D1(7) D2(7) by (simp add: same_policy_def)
    show "tm_size (sv_tool_mem s'') \<le> tm_size (sv_tool_mem s)" using D1(13) D2(13) by simp
    show "tm_by_id (sv_tool_mem s'') cid = (if gone s (A \<union> B) (E \<union> F) cid then None else tm_by_id (sv_tool_mem s) cid)" for cid
      by (simp add: gone D2(8) D1(8))
    show "rg_heap (sv_creg s'') a = (if a \<in> A \<union> B then None else rg_heap (sv_creg s) a)" for a by (simp add: D2(1) D1(1))
    show "rg_by_call_id (sv_creg s'') k =
        (if rg_by_call_id (sv_creg s) k \<in> Some ` (A \<union> B) then None else rg_by_call_id (sv_creg s) k)" for k
      by (auto simp: D2(2) D1(2))
  qed (use D1 D2 in auto)
qed

lemma evicts_record:
  assumes inv: "srv_inv s" and rec: "rg_heap (sv_creg s) a = Some rec" and free: "\<not> rec_protected rec"
  shows "srv_inv (cont_registry_remove_locked s a)" and "evicts s (cont_registry_remove_locked s a) {a} {}"
proof -
  show "srv_inv (cont_registry_remove_locked s a)" by (rule remove_locked(3) [OF inv rec])
  note I = srv_invD [OF inv] and R = reg_invD [OF srv_invD(3) [OF inv]]
  have same: "cont_registry_demote_locked s a = s"
    using rec free by (intro demote_not_live) (auto simp: is_live_def rec_protected_def)
  note E = remove_locked(1,2) [OF inv rec, unfolded same]
  have own: "owned_by a (sv_tool_mem s) cid \<Longrightarrow> cid \<in> set (cr_call_ids rec)" for cid
    using I(4) rec by (fastforce simp: backrefs_ok_def owned_by_def)
  then have gone: "cid \<in> set (cr_call_ids rec) \<and> owned_by a (sv_tool_mem s) cid \<longleftrightarrow> gone s {a} {} cid" for cid
    by (auto simp: gone_def)
  have flag: "sv_disable_exact_dsml_tool_replay (cont_registry_remove_locked s a) = sv_disable_exact_dsml_tool_replay s"
    using rec by (simp add: cont_registry_remove_locked_def same Let_def)
  have "remove1 a (rg_order (sv_creg s)) = filter (\<lambda>x. x \<noteq> a) (rg_order (sv_creg s))"
    using R(1) by (simp add: distinct_remove1_removeAll removeAll_filter_not_eq eq_commute [of a])
  then show "evicts s (cont_registry_remove_locked s a) {a} {}"
    unfolding evicts_def using drop_owned_all [OF I(1), of a "cr_call_ids rec", unfolded gone] flag
    by (auto simp: E removed_def same_policy_def)
qed

lemma evicts_entry:
  assumes inv: "srv_inv s" and e: "tm_by_id (sv_tool_mem s) cid = Some e"
  defines "s' \<equiv> s\<lparr>sv_tool_mem := tool_memory_remove_entry_locked (sv_tool_mem s) cid\<rparr>"
  shows "srv_inv s'" and "evicts s s' {} {cid}"
proof -
  note I = srv_invD [OF inv] and M = remove_entry_inv [OF srv_invD(1) [OF inv] e]
  have "remove1 cid (tm_lru (sv_tool_mem s)) = filter (\<lambda>x. x \<noteq> cid) (tm_lru (sv_tool_mem s))"
    using tm_invD(1) [OF I(1)] by (simp add: distinct_remove1_removeAll removeAll_filter_not_eq eq_commute [of cid])
  then show "evicts s s' {} {cid}" using M by (auto simp: evicts_def s'_def gone_def same_policy_def)
  have "pins_ok (sv_tool_mem s')" "backrefs_ok s'"
    using I(2,4) M by (auto simp: pins_ok_def backrefs_ok_def s'_def split: if_splits)
  then show "srv_inv s'" using I(3) M(1) by (simp add: srv_inv_def s'_def)
qed

subsection \<open>The cap on records\<close>

definition rec_free :: "server \<Rightarrow> nat \<Rightarrow> bool" where
  "rec_free s a \<longleftrightarrow> (\<exists>rec. rg_heap (sv_creg s) a = Some rec \<and> \<not> rec_protected rec)"

text \<open>The walk evicts the free records of a part of it, from the oldest on, and stops at the cap.\<close>

lemma registry_prune_walk:
  assumes "srv_inv s" and "distinct w"
  shows "srv_inv (cont_registry_prune_walk s w) \<and>
    (\<exists>w1 w2. w = w1 @ w2 \<and> evicts s (cont_registry_prune_walk s w) {a \<in> set w1. rec_free s a} {} \<and>
      (w2 = [] \<or> rg_n_records (sv_creg (cont_registry_prune_walk s w)) \<le> rg_max_records (sv_creg s)))"
  using assms
proof (induction w arbitrary: s)
  case Nil
  then show ?case using evicts_refl by auto
next
  case (Cons a w)
  show ?case
  proof (cases "rg_n_records (sv_creg s) > rg_max_records (sv_creg s)")
    case False
    then have "cont_registry_prune_walk s (a # w) = s" by simp
    moreover have "evicts s s {x \<in> set []. rec_free s x} {}" using evicts_refl by simp
    ultimately show ?thesis using Cons.prems False by (metis append_Nil linorder_not_less)
  next
    case True
    define s1 where "s1 = (if rec_free s a then cont_registry_remove_locked s a else s)"
    have walk: "cont_registry_prune_walk s (a # w) = cont_registry_prune_walk s1 w"
      using True by (auto simp: s1_def rec_free_def split: option.splits)
    have s1: "srv_inv s1" "evicts s s1 {x. x = a \<and> rec_free s a} {}"
    proof (atomize (full), cases "rec_free s a")
      case True
      then obtain rec where "rg_heap (sv_creg s) a = Some rec" "\<not> rec_protected rec" by (auto simp: rec_free_def)
      from evicts_record [OF Cons.prems(1) this]
      show "srv_inv s1 \<and> evicts s s1 {x. x = a \<and> rec_free s a} {}" using True by (simp add: s1_def)
    qed (use Cons.prems(1) evicts_refl in \<open>simp add: s1_def\<close>)
    have free1: "x \<noteq> a \<Longrightarrow> rec_free s1 x = rec_free s x" for x using evictsD(1) [OF s1(2), of x] by (simp add: rec_free_def)
    obtain w1 w2 where IH: "srv_inv (cont_registry_prune_walk s1 w)" "w = w1 @ w2"
        "evicts s1 (cont_registry_prune_walk s1 w) {x \<in> set w1. rec_free s1 x} {}"
        "w2 = [] \<or> rg_n_records (sv_creg (cont_registry_prune_walk s1 w)) \<le> rg_max_records (sv_creg s1)"
      using Cons.IH [OF s1(1)] Cons.prems(2) by auto
    have "x \<in> set w1 \<Longrightarrow> rec_free s1 x = rec_free s x" for x using Cons.prems(2) IH(2) free1 [of x] by auto
    then have "{x. x = a \<and> rec_free s a} \<union> {x \<in> set w1. rec_free s1 x} = {x \<in> set (a # w1). rec_free s x}" by auto
    then have "evicts s (cont_registry_prune_walk s (a # w)) {x \<in> set (a # w1). rec_free s x} {}"
      unfolding walk using evicts_trans [OF s1(2) IH(3)] by simp
    moreover have "rg_max_records (sv_creg s1) = rg_max_records (sv_creg s)" by (rule evictsD(5) [OF s1(2)])
    ultimately have "a # w = (a # w1) @ w2 \<and> evicts s (cont_registry_prune_walk s (a # w)) {x \<in> set (a # w1). rec_free s x} {} \<and>
        (w2 = [] \<or> rg_n_records (sv_creg (cont_registry_prune_walk s (a # w))) \<le> rg_max_records (sv_creg s))"
      unfolding walk using IH(2,4) by simp
    then show ?thesis using IH(1) unfolding walk by blast
  qed
qed

lemma registry_prune:
  assumes inv: "srv_inv s"
  obtains old new where "rg_order (sv_creg s) = new @ old" and "srv_inv (cont_registry_prune_locked s)"
    and "evicts s (cont_registry_prune_locked s) {a \<in> set old. rec_free s a} {}"
    and "rg_n_records (sv_creg (cont_registry_prune_locked s)) \<le> rg_max_records (sv_creg s) \<or> new = []"
proof -
  have "distinct (rev (rg_order (sv_creg s)))" using reg_invD(1) [OF srv_invD(3) [OF inv]] by simp
  from registry_prune_walk [OF inv this, folded cont_registry_prune_locked_def]
  obtain w1 w2 where w: "srv_inv (cont_registry_prune_locked s)" "rev (rg_order (sv_creg s)) = w1 @ w2"
    "evicts s (cont_registry_prune_locked s) {a \<in> set w1. rec_free s a} {}"
    "w2 = [] \<or> rg_n_records (sv_creg (cont_registry_prune_locked s)) \<le> rg_max_records (sv_creg s)" by blast
  have "rg_order (sv_creg s) = rev w2 @ rev w1" using w(2) by (metis rev_append rev_rev_ident)
  then show thesis using that [of "rev w2" "rev w1"] w by auto
qed

subsection \<open>The prune of the tool memory returns\<close>

text \<open>An entry the prune may not take: it is pinned, or its record is live or pinned.\<close>

definition entry_kept :: "server \<Rightarrow> bytes \<Rightarrow> bool" where
  "entry_kept s cid \<longleftrightarrow> (\<exists>e. tm_by_id (sv_tool_mem s) cid = Some e \<and>
     (0 < te_pins e \<or> (\<exists>a rec. te_rec e = Some a \<and> rg_heap (sv_creg s) a = Some rec \<and> rec_protected rec)))"

definition all_kept :: "server \<Rightarrow> bool" where
  "all_kept s \<longleftrightarrow> (\<forall>cid \<in> dom (tm_by_id (sv_tool_mem s)). entry_kept s cid)"

text \<open>The entries the prune takes alone: without pin and without record.\<close>

definition entry_loose :: "server \<Rightarrow> bytes \<Rightarrow> bool" where
  "entry_loose s cid \<longleftrightarrow> (\<exists>e. tm_by_id (sv_tool_mem s) cid = Some e \<and> te_pins e = 0 \<and> te_rec e = None)"

definition prune_result :: "server \<Rightarrow> server \<Rightarrow> nat set \<Rightarrow> bytes set \<Rightarrow> bool" where
  "prune_result s s' A E \<longleftrightarrow> srv_inv s' \<and> evicts s s' A E \<and> (\<forall>a \<in> A. rec_free s a) \<and> (\<forall>cid \<in> E. entry_loose s cid) \<and>
     (all_kept s' \<or> \<not> tool_memory_over (sv_tool_mem s') \<and> (\<forall>cid xs. tm_lru (sv_tool_mem s) = cid # xs \<longrightarrow> cid \<notin> E))"

lemma prune_result_trans:
  assumes 1: "evicts s s1 A E" "\<forall>a \<in> A. rec_free s a" "\<forall>cid \<in> E. entry_loose s cid"
    and 2: "prune_result s1 s' B F"
    and head: "\<And>cid xs. tm_lru (sv_tool_mem s) = cid # xs \<Longrightarrow> all_kept s' \<or>
      cid \<notin> E \<and> (cid \<in> F \<longrightarrow> (\<exists>ys. tm_lru (sv_tool_mem s1) = cid # ys))"
  shows "prune_result s s' (A \<union> B) (E \<union> F)"
proof -
  have "rec_free s1 b \<Longrightarrow> rec_free s b" for b using evictsD(1) [OF 1(1), of b] by (auto simp: rec_free_def split: if_splits)
  moreover have "entry_loose s1 c \<Longrightarrow> entry_loose s c" for c
    using evictsD(8) [OF 1(1), of c] by (auto simp: entry_loose_def split: if_splits)
  moreover have "evicts s s' (A \<union> B) (E \<union> F)" using evicts_trans [OF 1(1)] 2 by (simp add: prune_result_def)
  ultimately show ?thesis using 1 2 head unfolding prune_result_def by (metis UnE)
qed

text \<open>One turn of the loop, by the entry under the cursor.\<close>

lemma prune_walk_turn:
  assumes "tool_memory_over (sv_tool_mem s)" and "tm_by_id (sv_tool_mem s) cid = Some e"
  shows "te_pins e > 0 \<Longrightarrow> tool_memory_prune_walk s (cid # prev) = tool_memory_prune_walk s prev"
    and "te_pins e \<le> 0 \<Longrightarrow> te_rec e = Some a \<Longrightarrow> tm_srv (sv_tool_mem s) \<Longrightarrow> rg_heap (sv_creg s) a = Some rec \<Longrightarrow> rec_protected rec \<Longrightarrow>
      tool_memory_prune_walk s (cid # prev) = tool_memory_prune_walk s prev"
    and "te_pins e \<le> 0 \<Longrightarrow> te_rec e = Some a \<Longrightarrow> tm_srv (sv_tool_mem s) \<Longrightarrow> rg_heap (sv_creg s) a = Some rec \<Longrightarrow> \<not> rec_protected rec \<Longrightarrow>
      tool_memory_prune_walk s (cid # prev) = tool_memory_prune_walk (cont_registry_remove_locked s a)
        (rev (tm_lru (sv_tool_mem (cont_registry_remove_locked s a))))"
    and "te_pins e \<le> 0 \<Longrightarrow> te_rec e = None \<Longrightarrow> tool_memory_prune_walk s (cid # prev) =
      tool_memory_prune_walk (s\<lparr>sv_tool_mem := tool_memory_remove_entry_locked (sv_tool_mem s) cid\<rparr>) prev"
  using assms by (subst tool_memory_prune_walk.simps, simp)+

text \<open>
  The walk at any moment: the entries it has passed are kept ones. It returns because a restart
  follows the removal of at least one entry and every other turn shortens what is left.
\<close>

lemma memory_prune_walk:
  assumes "srv_inv s" and "tm_lru (sv_tool_mem s) = rev w @ passed" and "\<forall>cid \<in> set passed. entry_kept s cid"
  shows "\<exists>s' A E. tool_memory_prune_walk s w = Some s' \<and> prune_result s s' A E"
  using assms
proof (induction "(length (tm_lru (sv_tool_mem s)), length w)" arbitrary: s w passed rule: wf_induct_rule
    [OF wf_lex_prod [OF wf_less wf_less]])
  case (1 s w passed)
  have IH: "\<exists>s' A E. tool_memory_prune_walk s1 w1 = Some s' \<and> prune_result s1 s' A E"
    if "length (tm_lru (sv_tool_mem s1)) < length (tm_lru (sv_tool_mem s)) \<or>
        length (tm_lru (sv_tool_mem s1)) = length (tm_lru (sv_tool_mem s)) \<and> length w1 < length w"
      "srv_inv s1" "tm_lru (sv_tool_mem s1) = rev w1 @ p1" "\<forall>cid \<in> set p1. entry_kept s1 cid" for s1 w1 p1
    by (rule "1.hyps" [OF _ that(2-4)]) (use that(1) in \<open>auto simp: lex_prod_def\<close>)
  note inv = "1.prems"(1) and lru = "1.prems"(2) and passed = "1.prems"(3)
  note I = srv_invD [OF inv] and D = tm_invD [OF srv_invD(1) [OF inv]]
  have stop: "prune_result s s {} {}" if "all_kept s \<or> \<not> tool_memory_over (sv_tool_mem s)"
    using inv that evicts_refl by (simp add: prune_result_def)
  show ?case
  proof (cases "tool_memory_over (sv_tool_mem s)")
    case False
    then show ?thesis using stop by (subst tool_memory_prune_walk.simps) auto
  next
    case over: True
    show ?thesis
    proof (cases w)
      case Nil
      then have "all_kept s" using lru passed D(2) by (auto simp: all_kept_def)
      then show ?thesis using stop Nil by (subst tool_memory_prune_walk.simps) auto
    next
      case (Cons c prev)
      have "c \<in> set (tm_lru (sv_tool_mem s))" using lru Cons by simp
      then obtain e where e: "tm_by_id (sv_tool_mem s) c = Some e" using D(2) by auto
      have skip: ?thesis if kept: "entry_kept s c" and run: "tool_memory_prune_walk s w = tool_memory_prune_walk s prev"
      proof -
        have "tm_lru (sv_tool_mem s) = rev prev @ c # passed" "\<forall>x \<in> set (c # passed). entry_kept s x"
          using lru Cons kept passed by simp_all
        then show ?thesis unfolding run by (intro IH) (use inv Cons in auto)
      qed
      consider (pinned) "te_pins e > 0" | (kept) a rec where "te_pins e \<le> 0" "te_rec e = Some a"
          "rg_heap (sv_creg s) a = Some rec" "rec_protected rec"
        | (free) a rec where "te_pins e \<le> 0" "te_rec e = Some a" "rg_heap (sv_creg s) a = Some rec" "\<not> rec_protected rec"
        | (loose) "te_pins e \<le> 0" "te_rec e = None"
        using I(4) e by (cases "te_rec e") (force simp: backrefs_ok_def)+
      then show ?thesis
      proof cases
        case pinned
        then show ?thesis using e prune_walk_turn(1) [OF over e] Cons by (intro skip) (auto simp: entry_kept_def)
      next
        case kept
        moreover have "tm_srv (sv_tool_mem s)" using I(4) e kept(2) by (auto simp: backrefs_ok_def)
        ultimately show ?thesis using e prune_walk_turn(2) [OF over e] Cons by (intro skip) (auto simp: entry_kept_def)
      next
        case free
        define s1 where "s1 = cont_registry_remove_locked s a"
        note S = evicts_record [OF inv free(3,4), folded s1_def]
        have "tm_srv (sv_tool_mem s)" using I(4) e free(2) by (auto simp: backrefs_ok_def)
        then have run: "tool_memory_prune_walk s w = tool_memory_prune_walk s1 (rev (tm_lru (sv_tool_mem s1)))"
          using prune_walk_turn(3) [OF over e free(1,2)] free(3,4) Cons by (simp add: s1_def)
        have lru1: "tm_lru (sv_tool_mem s1) = filter (\<lambda>x. \<not> gone s {a} {} x) (tm_lru (sv_tool_mem s))" by (rule evictsD(9) [OF S(2)])
        have "gone s {a} {} c" using e free(2) by (simp add: gone_def owned_by_def)
        then have "length (tm_lru (sv_tool_mem s1)) < length (tm_lru (sv_tool_mem s))"
          unfolding lru1 using \<open>c \<in> set (tm_lru (sv_tool_mem s))\<close> by (intro length_filter_less) auto
        then obtain s' A E where R: "tool_memory_prune_walk s w = Some s'" "prune_result s1 s' A E"
          using IH [of s1 "rev (tm_lru (sv_tool_mem s1))" "[]"] S(1) by (auto simp: run)
        have F: "cid \<in> E \<Longrightarrow> tm_by_id (sv_tool_mem s1) cid \<noteq> None" for cid
          using R(2) by (auto simp: prune_result_def entry_loose_def)
        have "prune_result s s' ({a} \<union> A) ({} \<union> E)"
        proof (rule prune_result_trans [OF S(2) _ _ R(2)])
          fix cid xs assume "tm_lru (sv_tool_mem s) = cid # xs"
          then show "all_kept s' \<or> cid \<notin> {} \<and> (cid \<in> E \<longrightarrow> (\<exists>ys. tm_lru (sv_tool_mem s1) = cid # ys))"
            using F [of cid] evictsD(8) [OF S(2), of cid] by (auto simp: lru1 split: if_splits)
        qed (use free in \<open>auto simp: rec_free_def\<close>)
        then show ?thesis using R(1) by blast
      next
        case loose
        define s1 where "s1 = s\<lparr>sv_tool_mem := tool_memory_remove_entry_locked (sv_tool_mem s) c\<rparr>"
        note S = evicts_entry [OF inv e, folded s1_def]
        have run: "tool_memory_prune_walk s w = tool_memory_prune_walk s1 prev"
          using prune_walk_turn(4) [OF over e loose] Cons by (simp add: s1_def)
        have d: "distinct (rev prev @ c # passed)" using D(1) lru Cons by simp
        have "tm_lru (sv_tool_mem s1) = filter (\<lambda>x. x \<noteq> c) (tm_lru (sv_tool_mem s))" using evictsD(9) [OF S(2)] by (simp add: gone_def)
        then have lru1: "tm_lru (sv_tool_mem s1) = rev prev @ passed"
          using d lru Cons by (auto simp: filter_id_conv intro!: arg_cong2 [of _ _ _ _ "(@)"])
        have kept1: "\<forall>x \<in> set passed. entry_kept s1 x"
          using passed d remove_entry_inv(2) [OF I(1) e] by (auto simp: entry_kept_def s1_def)
        have "length (tm_lru (sv_tool_mem s1)) < length (tm_lru (sv_tool_mem s))" using lru1 lru Cons by simp
        then obtain s' A E where R: "tool_memory_prune_walk s w = Some s'" "prune_result s1 s' A E"
          unfolding run using IH [of s1 prev passed] S(1) lru1 kept1 by blast
        have "te_pins e = 0" using I(2) e loose(1) by (auto simp: pins_ok_def intro: antisym)
        then have el: "\<forall>cid \<in> {c}. entry_loose s cid" using e loose by (simp add: entry_loose_def)
        have "prune_result s s' ({} \<union> A) ({c} \<union> E)"
        proof (rule prune_result_trans [OF S(2) _ el R(2)])
          fix cid xs assume head: "tm_lru (sv_tool_mem s) = cid # xs"
          show "all_kept s' \<or> cid \<notin> {c} \<and> (cid \<in> E \<longrightarrow> (\<exists>ys. tm_lru (sv_tool_mem s1) = cid # ys))"
          proof (cases prev rule: rev_cases)
            case Nil
            then have "all_kept s1" using lru1 kept1 tm_invD(2) [OF srv_invD(1) [OF S(1)]] by (auto simp: all_kept_def)
            moreover have "s' = s1" using R(1) Nil run by (subst (asm) run, subst (asm) tool_memory_prune_walk.simps) (auto split: if_splits)
            ultimately show ?thesis by simp
          next
            case (snoc zs z)
            then have "cid = z" using head lru Cons by simp
            then show ?thesis using snoc lru1 d by auto
          qed
        qed simp
        then show ?thesis using R(1) by blast
      qed
    qed
  qed
qed

end
