(* ===== verification/Cont_Steps.thy ===== *)
theory Cont_Steps
  imports Cont_Registry "HOL-Library.Multiset"
begin

section \<open>The tool memory and the registry as a state machine\<close>

text \<open>
  The operations of the theories \<open>Tool_Memory\<close> and \<open>Cont_Registry\<close> as the steps of one state: all
  threads of the server change it under \<open>tool_mu\<close>, so that every interleaving is a sequence of these
  steps. The pins that queued requests hold are a multiset of record addresses beside the state; a
  request returns each of its pins once. The invariant is shown for every step, and from it that no
  pointer to a record ever dangles.
\<close>

subsection \<open>The state at start\<close>

text \<open>The state at start: everything zero but the settings.\<close>

definition srv_start :: "int \<Rightarrow> int \<Rightarrow> rat \<Rightarrow> rat \<Rightarrow> rat \<Rightarrow> rat \<Rightarrow> bool \<Rightarrow> server" where
  "srv_start max_ids max_recs grace ttl pin_deadline hold_shed disable =
     \<lparr>sv_tool_mem = \<lparr>tm_by_id = Map.empty, tm_by_block = Map.empty, tm_lru = [], tm_entries = 0, tm_max_entries = max_ids,
        tm_bytes = 0, tm_max_bytes = 0, tm_clock = 0, tm_scan_clock = 0, tm_srv = False\<rparr>,
      sv_creg = \<lparr>rg_heap = Map.empty, rg_ready = False, rg_by_call_id = Map.empty, rg_order = [], rg_n_records = 0, rg_n_live = 0,
        rg_max_records = max_recs, rg_serial_live = None, rg_grace_s = grace, rg_ttl_s = ttl, rg_pin_deadline_s = pin_deadline,
        rg_hold_shed_s = hold_shed\<rparr>,
      sv_disable_exact_dsml_tool_replay = disable\<rparr>"

lemma start_inv: "srv_inv (srv_start max_ids max_recs grace ttl pin_deadline hold_shed disable)"
proof -
  have "is_live (sv_creg (srv_start max_ids max_recs grace ttl pin_deadline hold_shed disable)) = (\<lambda>_. False)"
    by (auto simp: is_live_def srv_start_def)
  then show ?thesis
    by (simp add: srv_inv_def reg_inv_def)
      (simp add: srv_start_def tm_inv_def tm_size_def keys_size_def pins_ok_def index_ok_def owners_ok_def backrefs_ok_def bank_live_record_def)
qed

subsection \<open>Pruning and putting\<close>

lemma memory_prune:
  assumes "srv_inv s"
  obtains s' A E where "tool_memory_prune_locked s = Some s'" and "prune_result s s' A E"
  using memory_prune_walk [OF assms, of "rev (tm_lru (sv_tool_mem s))" "[]"] by (auto simp: tool_memory_prune_locked_def)

text \<open>
  C9. The prune of the tool memory returns on every state that satisfies the invariant, although
  its walk restarts at the tail whenever a record goes, never reads a freed record, keeps the
  invariant, and ends within the two limits unless every entry that is left is pinned or belongs to
  a live or pinned record.
\<close>

theorem tool_memory_prune_returns:
  assumes "srv_inv s"
  shows "\<exists>s'. tool_memory_prune_locked s = Some s' \<and> srv_inv s' \<and> (tool_memory_over (sv_tool_mem s') \<longrightarrow> all_kept s')"
  using memory_prune [OF assms] by (metis prune_result_def)

text \<open>
  C25. What the prune of the tool memory takes, exactly. Only records go that are neither live nor
  pinned, and what stays is unchanged. An entry that belongs to a record goes if its record goes and
  stays as it is if its record stays; an entry without a record goes only if it has no pin; nothing new
  appears. The list of recency loses the entries that went and keeps the order of the others, and the
  index loses the rows of the records that went and no other.
\<close>

theorem tool_memory_prune_safe:
  assumes "srv_inv s" and "tool_memory_prune_locked s = Some s'"
  shows "(\<forall>a. rg_heap (sv_creg s') a = rg_heap (sv_creg s) a \<or> rg_heap (sv_creg s') a = None \<and>
      (\<exists>rec. rg_heap (sv_creg s) a = Some rec \<and> cr_state rec = CONT_REC_REPLAY_ONLY \<and> cr_hard_refs rec \<le> 0)) \<and>
    (\<forall>cid. tm_by_id (sv_tool_mem s') cid =
      (case tm_by_id (sv_tool_mem s) cid of
         None \<Rightarrow> None
       | Some e \<Rightarrow> (case te_rec e of
           Some a \<Rightarrow> if rg_heap (sv_creg s') a = None then None else Some e
         | None \<Rightarrow> if te_pins e > 0 \<or> tm_by_id (sv_tool_mem s') cid \<noteq> None then Some e else None))) \<and>
    tm_lru (sv_tool_mem s') = filter (\<lambda>cid. tm_by_id (sv_tool_mem s') cid \<noteq> None) (tm_lru (sv_tool_mem s)) \<and>
    (\<forall>k. rg_by_call_id (sv_creg s') k =
      (if \<exists>a. rg_by_call_id (sv_creg s) k = Some a \<and> rg_heap (sv_creg s) a \<noteq> None \<and> rg_heap (sv_creg s') a = None then None
       else rg_by_call_id (sv_creg s) k))"
proof -
  obtain A E where R: "prune_result s s' A E" using memory_prune [OF assms(1)] assms(2) by (metis option.inject)
  then have ev: "evicts s s' A E" and A: "\<And>a. a \<in> A \<Longrightarrow> rec_free s a" and E: "\<And>c. c \<in> E \<Longrightarrow> entry_loose s c"
    by (auto simp: prune_result_def)
  note D = evictsD [OF ev]
  have went: "a \<in> A \<longleftrightarrow> rg_heap (sv_creg s) a \<noteq> None \<and> rg_heap (sv_creg s') a = None" for a
    using D(1) [of a] A [of a] by (auto simp: rec_free_def)
  have owned: "te_rec e = Some a \<Longrightarrow> rg_heap (sv_creg s) a \<noteq> None" if "tm_by_id (sv_tool_mem s) cid = Some e" for cid e a
    using srv_invD(4) [OF assms(1)] that by (fastforce simp: backrefs_ok_def)
  have entry: "tm_by_id (sv_tool_mem s') cid = (case te_rec e of
         Some a \<Rightarrow> if rg_heap (sv_creg s') a = None then None else Some e
       | None \<Rightarrow> if te_pins e > 0 \<or> tm_by_id (sv_tool_mem s') cid \<noteq> None then Some e else None)"
    if e: "tm_by_id (sv_tool_mem s) cid = Some e" for cid e
  proof (cases "te_rec e")
    case None
    then show ?thesis using e D(8) [of cid] E [of cid] by (auto simp: gone_def owned_by_def entry_loose_def)
  next
    case (Some a)
    then have "cid \<notin> E" using e E [of cid] by (auto simp: entry_loose_def)
    then have "gone s A E cid \<longleftrightarrow> a \<in> A" using e Some by (auto simp: gone_def owned_by_def)
    then show ?thesis using Some e D(8) [of cid] went [of a] owned [OF e Some] by simp
  qed
  have "cid \<in> set (tm_lru (sv_tool_mem s)) \<Longrightarrow> gone s A E cid \<longleftrightarrow> tm_by_id (sv_tool_mem s') cid = None" for cid
    using D(8) [of cid] tm_invD(2) [OF srv_invD(1) [OF assms(1)]] by auto
  then have "tm_lru (sv_tool_mem s') = filter (\<lambda>cid. tm_by_id (sv_tool_mem s') cid \<noteq> None) (tm_lru (sv_tool_mem s))"
    unfolding D(9) by (intro filter_cong) auto
  moreover have "rg_heap (sv_creg s') a = rg_heap (sv_creg s) a \<or> rg_heap (sv_creg s') a = None \<and>
      (\<exists>rec. rg_heap (sv_creg s) a = Some rec \<and> cr_state rec = CONT_REC_REPLAY_ONLY \<and> cr_hard_refs rec \<le> 0)" for a
    using D(1) [of a] A [of a] by (auto simp: rec_free_def rec_protected_def)
  moreover have "tm_by_id (sv_tool_mem s) cid = None \<Longrightarrow> tm_by_id (sv_tool_mem s') cid = None" for cid by (simp add: D(8))
  moreover have "rg_by_call_id (sv_creg s) k \<in> Some ` A \<longleftrightarrow>
      (\<exists>a. rg_by_call_id (sv_creg s) k = Some a \<and> rg_heap (sv_creg s) a \<noteq> None \<and> rg_heap (sv_creg s') a = None)" for k
    using went by auto
  ultimately show ?thesis using entry D(2) by (auto split: option.splits)
qed

lemma put_entry_srv_inv:
  assumes inv: "srv_inv s" and ne: "cid \<noteq> []" "dsml \<noteq> []"
    and fits: "tm_size (sv_tool_mem s) + length cid + length dsml + 122 < 2 ^ 64"
  shows "srv_inv (s\<lparr>sv_tool_mem := tool_memory_put_entry (sv_tool_mem s) cid dsml source\<rparr>)"
proof -
  note I = srv_invD [OF inv] and P = put_entry_inv [OF srv_invD(1) [OF inv] ne fits, where source = source]
  define m where "m = tool_memory_put_entry (sv_tool_mem s) cid dsml source"
  have old: "te_rec e = None \<and> te_pins e = 0 \<or>
      (\<exists>f. tm_by_id (sv_tool_mem s) x = Some f \<and> te_rec e = te_rec f \<and> te_pins e = te_pins f)"
    if "tm_by_id m x = Some e" for x e
    using that P(2) P(3) [of x] unfolding m_def by (cases "x = cid") auto
  have "pins_ok m" using I(2) old unfolding pins_ok_def by (metis order_refl)
  moreover have "backrefs_ok (s\<lparr>sv_tool_mem := m\<rparr>)"
    unfolding backrefs_ok_def
  proof (intro allI impI, elim conjE)
    fix x e a assume "tm_by_id (sv_tool_mem (s\<lparr>sv_tool_mem := m\<rparr>)) x = Some e" and a: "te_rec e = Some a"
    then obtain f where "tm_by_id (sv_tool_mem s) x = Some f" "te_rec f = Some a" using old [of x e] by auto
    then show "tm_srv (sv_tool_mem (s\<lparr>sv_tool_mem := m\<rparr>)) \<and>
        (\<exists>rec. rg_heap (sv_creg (s\<lparr>sv_tool_mem := m\<rparr>)) a = Some rec \<and> x \<in> set (cr_call_ids rec))"
      using I(4) P(4) unfolding backrefs_ok_def m_def by simp
  qed
  ultimately show ?thesis using I(3) P(1) by (simp add: srv_inv_def m_def)
qed

text \<open>
  Putting a text under a new id returns, keeps the invariant, and afterwards the lookup of the
  id gives exactly that text and its source, unless the memory is so full of pinned and live
  entries that nothing else is left in it: the new entry is the last one the prune takes.
\<close>

theorem tool_memory_put_lookup:
  assumes inv: "srv_inv s" and ne: "cid \<noteq> []" "dsml \<noteq> []"
    and fits: "tm_size (sv_tool_mem s) + length cid + length dsml + 122 < 2 ^ 64"
    and new: "tm_by_id (sv_tool_mem s) cid = None"
  shows "\<exists>s'. tool_memory_put_locked s cid dsml source = Some s' \<and> srv_inv s' \<and>
    (fst (tool_memory_lookup_locked (sv_tool_mem s') cid) = Some (dsml, source) \<or> all_kept s')"
proof -
  define s1 where "s1 = s\<lparr>sv_tool_mem := tool_memory_put_entry (sv_tool_mem s) cid dsml source\<rparr>"
  have put: "tool_memory_put_entry (sv_tool_mem s) cid dsml source = tool_memory_new_entry (sv_tool_mem s) cid dsml source"
    using new by (simp add: tool_memory_put_entry_def tool_memory_find_entry_locked_def)
  note N = new_entry_inv [OF srv_invD(1) [OF inv] new ne fits, where source = source]
  have "srv_inv s1" unfolding s1_def by (rule put_entry_srv_inv [OF inv ne fits])
  then obtain s' A E where R: "tool_memory_prune_locked s1 = Some s'" "prune_result s1 s' A E" by (rule memory_prune)
  have head: "tm_lru (sv_tool_mem s1) = cid # tm_lru (sv_tool_mem s)" using N(2) by (simp add: s1_def put)
  have "fst (tool_memory_lookup_locked (sv_tool_mem s') cid) = Some (dsml, source)" if "\<not> all_kept s'"
  proof -
    have "cid \<notin> E" and ev: "evicts s1 s' A E" using that R(2) head unfolding prune_result_def by blast+
    moreover have e: "tm_by_id (sv_tool_mem s1) cid = Some \<lparr>te_block = dsml, te_bytes = of_nat (length cid + 73),
        te_stamp = tm_clock (sv_tool_mem s) + 1, te_source = source, te_pins = 0, te_rec = None\<rparr>"
      using N(4) by (simp add: s1_def put)
    ultimately have "\<not> gone s1 A E cid" by (auto simp: gone_def owned_by_def)
    then show ?thesis using evictsD(8) [OF ev, of cid] e ne
      by (simp add: tool_memory_lookup_locked_def tool_memory_find_entry_locked_def)
  qed
  then show ?thesis using R ne by (auto simp: tool_memory_put_locked_def s1_def [symmetric] prune_result_def)
qed

subsection \<open>Demotions\<close>

text \<open>The records \<open>D\<close> became \<open>REPLAY_ONLY\<close>; the order, the index and the owners of the entries stay.\<close>

definition demotes :: "server \<Rightarrow> server \<Rightarrow> nat set \<Rightarrow> bool" where
  "demotes s s' D \<longleftrightarrow>
     (\<forall>a. rg_heap (sv_creg s') a = (if a \<in> D then map_option (\<lambda>rec. rec\<lparr>cr_state := CONT_REC_REPLAY_ONLY\<rparr>) (rg_heap (sv_creg s) a)
        else rg_heap (sv_creg s) a)) \<and>
     rg_order (sv_creg s') = rg_order (sv_creg s) \<and> rg_by_call_id (sv_creg s') = rg_by_call_id (sv_creg s) \<and>
     rg_ready (sv_creg s') = rg_ready (sv_creg s) \<and> rg_max_records (sv_creg s') = rg_max_records (sv_creg s) \<and>
     same_policy (sv_creg s) (sv_creg s') \<and> same_texts (sv_tool_mem s) (sv_tool_mem s') \<and>
     (\<forall>cid. map_option te_rec (tm_by_id (sv_tool_mem s') cid) = map_option te_rec (tm_by_id (sv_tool_mem s) cid)) \<and>
     sv_disable_exact_dsml_tool_replay s' = sv_disable_exact_dsml_tool_replay s"

lemma demotesD:
  assumes "demotes s s' D"
  shows "rg_heap (sv_creg s') a = (if a \<in> D then map_option (\<lambda>rec. rec\<lparr>cr_state := CONT_REC_REPLAY_ONLY\<rparr>) (rg_heap (sv_creg s) a)
      else rg_heap (sv_creg s) a)"
    "rg_order (sv_creg s') = rg_order (sv_creg s)" "rg_by_call_id (sv_creg s') = rg_by_call_id (sv_creg s)"
    "rg_ready (sv_creg s') = rg_ready (sv_creg s)" "rg_max_records (sv_creg s') = rg_max_records (sv_creg s)"
    "same_policy (sv_creg s) (sv_creg s')" "same_texts (sv_tool_mem s) (sv_tool_mem s')"
    "map_option te_rec (tm_by_id (sv_tool_mem s') cid) = map_option te_rec (tm_by_id (sv_tool_mem s) cid)"
    "sv_disable_exact_dsml_tool_replay s' = sv_disable_exact_dsml_tool_replay s"
  using assms unfolding demotes_def by blast+

lemma demotes_refl: "demotes s s {}"
  by (simp add: demotes_def same_policy_def)

lemma demotes_trans:
  assumes 1: "demotes s s' C" and 2: "demotes s' s'' D"
  shows "demotes s s'' (C \<union> D)"
proof -
  note D1 = demotesD [OF 1] and D2 = demotesD [OF 2]
  show ?thesis
    unfolding demotes_def
  proof (intro conjI allI)
    show "rg_heap (sv_creg s'') a = (if a \<in> C \<union> D then map_option (\<lambda>rec. rec\<lparr>cr_state := CONT_REC_REPLAY_ONLY\<rparr>) (rg_heap (sv_creg s) a)
        else rg_heap (sv_creg s) a)" for a by (simp add: D2(1) D1(1) option.map_comp comp_def)
    show "same_policy (sv_creg s) (sv_creg s'')" using D1(6) D2(6) by (simp add: same_policy_def)
    show "same_texts (sv_tool_mem s) (sv_tool_mem s'')" using D1(7) D2(7) by (simp add: same_texts_def)
  qed (use D1 D2 in simp_all)
qed

lemma demotes_one:
  assumes "srv_inv s" and "is_live (sv_creg s) a"
  shows "demotes s (cont_registry_demote_locked s a) {a}"
proof -
  obtain rec where rec: "rg_heap (sv_creg s) a = Some rec" "cr_state rec = CONT_REC_LIVE_FRONTIER"
    using assms(2) by (auto simp: is_live_def split: option.splits)
  note L = demote_live(1,2) [OF assms(1) rec] and U = unpin_all [OF srv_invD(1,2) [OF assms(1)], of "cr_call_ids rec"]
  have "sv_disable_exact_dsml_tool_replay (cont_registry_demote_locked s a) = sv_disable_exact_dsml_tool_replay s"
    using rec by (simp add: cont_registry_demote_locked_def Let_def)
  then show ?thesis using rec U(3,4) by (simp add: demotes_def L demoted_def same_policy_def)
qed

lemma demotes_live: "demotes s s' D \<Longrightarrow> is_live (sv_creg s') a \<longleftrightarrow> is_live (sv_creg s) a \<and> a \<notin> D"
  by (auto simp: is_live_def demotesD(1) split: option.splits)

lemma demotes_if: "srv_inv s \<Longrightarrow> demotes s (cont_registry_demote_locked s a) {x. x = a \<and> is_live (sv_creg s) a}"
  using demotes_one [of s a] demotes_refl [of s] demote_not_live [of s a] by (cases "is_live (sv_creg s) a") auto

subsection \<open>Expiry\<close>

definition rec_expired :: "server \<Rightarrow> rat \<Rightarrow> nat \<Rightarrow> bool" where
  "rec_expired s now a \<longleftrightarrow> (\<exists>rec. rg_heap (sv_creg s) a = Some rec \<and> cr_state rec = CONT_REC_LIVE_FRONTIER \<and>
     0 < rg_ttl_s (sv_creg s) \<and> rg_ttl_s (sv_creg s) < d_sub now (cr_publish_time rec))"

lemma rec_expired_live: "rec_expired s now a \<Longrightarrow> is_live (sv_creg s) a"
  by (auto simp: rec_expired_def is_live_def)

lemma expire_walk:
  "srv_inv s \<Longrightarrow> 0 < rg_ttl_s (sv_creg s) \<Longrightarrow>
   srv_inv (foldl (expire_step now) s w) \<and> demotes s (foldl (expire_step now) s w) {a \<in> set w. rec_expired s now a}"
proof (induction w arbitrary: s)
  case Nil
  then show ?case using demotes_refl by simp
next
  case (Cons a w)
  define s1 where "s1 = expire_step now s a"
  have "s1 = (if rec_expired s now a then cont_registry_demote_locked s a else s)"
    using Cons.prems(2) by (auto simp: s1_def expire_step_def rec_expired_def split: option.splits)
  then have s1: "srv_inv s1" "demotes s s1 {x. x = a \<and> rec_expired s now a}"
    using demote_inv [OF Cons.prems(1), of a] demotes_one [OF Cons.prems(1), of a] demotes_refl [of s] Cons.prems(1)
      rec_expired_live [of s now a] by (cases "rec_expired s now a"; simp)+
  have ttl: "rg_ttl_s (sv_creg s1) = rg_ttl_s (sv_creg s)" using demotesD(6) [OF s1(2)] by (simp add: same_policy_def)
  have "rec_expired s1 now x \<longleftrightarrow> rec_expired s now x \<and> \<not> (x = a \<and> rec_expired s now a)" for x
    unfolding rec_expired_def [of s1] ttl demotesD(1) [OF s1(2)] by (auto simp: rec_expired_def)
  then have "{x. x = a \<and> rec_expired s now a} \<union> {x \<in> set w. rec_expired s1 now x} = {x \<in> set (a # w). rec_expired s now x}" by auto
  moreover have "srv_inv (foldl (expire_step now) s1 w)" "demotes s1 (foldl (expire_step now) s1 w) {x \<in> set w. rec_expired s1 now x}"
    using Cons.IH [OF s1(1)] Cons.prems(2) ttl by simp_all
  ultimately show ?case using demotes_trans [OF s1(2), of _ "{x \<in> set w. rec_expired s1 now x}"] by (simp add: s1_def [symmetric])
qed

lemma expire:
  assumes inv: "srv_inv s"
  shows "srv_inv (cont_registry_expire_locked s now)"
    and "demotes s (cont_registry_expire_locked s now) {a. rec_expired s now a}"
proof -
  note R = reg_invD [OF srv_invD(3) [OF inv]]
  have "srv_inv (cont_registry_expire_locked s now) \<and> demotes s (cont_registry_expire_locked s now) {a. rec_expired s now a}"
  proof (cases "rg_ttl_s (sv_creg s) \<le> 0 \<or> rg_n_live (sv_creg s) = 0")
    case True
    moreover have "Collect (is_live (sv_creg s)) = {}" if "rg_n_live (sv_creg s) = 0" using that R(4,10) by simp
    ultimately have "\<not> rec_expired s now a" for a using rec_expired_live [of s now a] by (auto simp: rec_expired_def)
    then have "{a. rec_expired s now a} = {}" by simp
    then show ?thesis using True inv demotes_refl [of s] by (auto simp: cont_registry_expire_locked_def)
  next
    case False
    have "{a \<in> set (rg_order (sv_creg s)). rec_expired s now a} = {a. rec_expired s now a}"
      using R(2) by (auto simp: rec_expired_def)
    then show ?thesis using False expire_walk [OF inv, of now "rg_order (sv_creg s)"] by (simp add: cont_registry_expire_locked_def)
  qed
  then show "srv_inv (cont_registry_expire_locked s now)"
    "demotes s (cont_registry_expire_locked s now) {a. rec_expired s now a}" by simp_all
qed

subsection \<open>Publication\<close>

lemma calls_id_list_props:
  "distinct (calls_id_list cids)" "set (calls_id_list cids) = set cids - {[]}"
proof -
  define f where "f = (\<lambda>ids cid. if cid \<noteq> [] then id_list_push_unique ids cid else ids)"
  have "distinct ids \<Longrightarrow> distinct (foldl f ids cids) \<and> set (foldl f ids cids) = set ids \<union> (set cids - {[]})" for ids
    by (induction cids arbitrary: ids) (auto simp: f_def id_list_push_unique_def id_list_contains_def)
  from this [of "[]"] show "distinct (calls_id_list cids)" "set (calls_id_list cids) = set cids - {[]}"
    by (simp_all add: calls_id_list_def f_def)
qed

lemma init_inv:
  assumes inv: "srv_inv s"
  defines "s' \<equiv> s\<lparr>sv_creg := cont_registry_init_locked (sv_creg s)\<rparr>"
  shows "srv_inv s'" and "rg_ready (sv_creg s')" and "rg_heap (sv_creg s') = rg_heap (sv_creg s)"
    and "same_policy (sv_creg s) (sv_creg s')"
proof -
  note I = srv_invD [OF inv] and R = reg_invD [OF srv_invD(3) [OF inv]]
  show heap: "rg_heap (sv_creg s') = rg_heap (sv_creg s)" and "same_policy (sv_creg s) (sv_creg s')"
    by (simp_all add: s'_def cont_registry_init_locked_def same_policy_def)
  show "rg_ready (sv_creg s')" by (simp add: s'_def cont_registry_init_locked_def)
  have "reg_inv (cont_registry_init_locked (sv_creg s))"
  proof (cases "rg_ready (sv_creg s)")
    case False
    have "is_live (cont_registry_init_locked (sv_creg s)) = is_live (sv_creg s)"
      "bank_live_record (cont_registry_init_locked (sv_creg s)) = bank_live_record (sv_creg s)"
      by (auto simp: fun_eq_iff is_live_def bank_live_record_def cont_registry_init_locked_def)
    then show ?thesis using I(3) False
      by (auto simp: reg_inv_def index_ok_def owners_ok_def) (auto simp: cont_registry_init_locked_def)
  qed (use I(3) in \<open>simp add: cont_registry_init_locked_def\<close>)
  then show "srv_inv s'" using I by (auto simp: srv_inv_def s'_def backrefs_ok_def cont_registry_init_locked_def)
qed

text \<open>After its previous live record is superseded, the owner has none.\<close>

definition owner_live :: "cont_registry \<Rightarrow> cont_record_owner \<Rightarrow> int \<Rightarrow> nat \<Rightarrow> bool" where
  "owner_live r owner bank a \<longleftrightarrow> (\<exists>rec. rg_heap r a = Some rec \<and> cr_state rec = CONT_REC_LIVE_FRONTIER \<and> cr_owner rec = owner \<and>
     (owner = CONT_OWNER_BATCH_BANK \<longrightarrow> cr_owner_id rec = bank))"

lemma bank_live_owner: "bank_live_record r bank a \<longleftrightarrow> owner_live r CONT_OWNER_BATCH_BANK bank a"
  by (auto simp: bank_live_record_def owner_live_def split: option.splits)

lemma owner_live_live: "owner_live r owner bank a \<Longrightarrow> is_live r a"
  by (auto simp: owner_live_def is_live_def)

lemma owner_live_unique: "owners_ok r \<Longrightarrow> owner_live r owner bank a \<Longrightarrow> owner_live r owner bank b \<Longrightarrow> a = b"
proof (cases owner)
  case CONT_OWNER_SERIAL_SESSION
  assume "owners_ok r" "owner_live r owner bank a" "owner_live r owner bank b"
  then have "rg_serial_live r = Some a" "rg_serial_live r = Some b"
    using CONT_OWNER_SERIAL_SESSION by (simp_all add: owners_ok_def owner_live_def)
  then show "a = b" by simp
next
  case CONT_OWNER_BATCH_BANK
  assume "owners_ok r" "owner_live r owner bank a" "owner_live r owner bank b"
  then show "a = b" unfolding owners_ok_def bank_live_owner CONT_OWNER_BATCH_BANK by blast
qed

lemma supersede:
  assumes inv: "srv_inv s"
  shows "srv_inv (supersede_owner s owner bank)"
    and "demotes s (supersede_owner s owner bank) {a. owner_live (sv_creg s) owner bank a}"
    and "\<not> owner_live (sv_creg (supersede_owner s owner bank)) owner bank a"
proof -
  note R = reg_invD [OF srv_invD(3) [OF inv]]
  define tip where "tip = (if owner = CONT_OWNER_SERIAL_SESSION then rg_serial_live (sv_creg s)
    else find (bank_live_record (sv_creg s) bank) (rg_order (sv_creg s)))"
  have tip: "tip = Some x \<longleftrightarrow> owner_live (sv_creg s) owner bank x" for x
  proof (cases owner)
    case CONT_OWNER_SERIAL_SESSION
    then show ?thesis using R(8) by (auto simp: tip_def owners_ok_def owner_live_def)
  next
    case CONT_OWNER_BATCH_BANK
    have "find (bank_live_record (sv_creg s) bank) (rg_order (sv_creg s)) = Some y \<Longrightarrow> bank_live_record (sv_creg s) bank y" for y
      by (auto simp: find_Some_iff)
    moreover have "find (bank_live_record (sv_creg s) bank) (rg_order (sv_creg s)) \<noteq> None" if "bank_live_record (sv_creg s) bank x"
      using that R(2) by (auto simp: find_None_iff bank_live_record_def split: option.splits)
    ultimately show ?thesis using CONT_OWNER_BATCH_BANK owner_live_unique [OF R(8)]
      by (auto simp: tip_def bank_live_owner)
  qed
  have run: "supersede_owner s owner bank = (case tip of None \<Rightarrow> s | Some old \<Rightarrow> cont_registry_demote_locked s old)"
    by (simp add: supersede_owner_def Let_def tip_def)
  show "srv_inv (supersede_owner s owner bank)" using inv demote_inv by (simp add: run split: option.splits)
  show D: "demotes s (supersede_owner s owner bank) {a. owner_live (sv_creg s) owner bank a}"
  proof (cases tip)
    case None
    then have "{a. owner_live (sv_creg s) owner bank a} = {}" using tip by auto
    then show ?thesis using None demotes_refl by (simp add: run)
  next
    case (Some x)
    then have "owner_live (sv_creg s) owner bank a \<longleftrightarrow> a = x" for a using tip [of a] by auto
    then have "{a. owner_live (sv_creg s) owner bank a} = {x}" by simp
    moreover have "demotes s (cont_registry_demote_locked s x) {x}"
      by (rule demotes_one [OF inv owner_live_live]) (use Some tip in blast)
    ultimately show ?thesis using Some by (simp add: run)
  qed
  show "\<not> owner_live (sv_creg (supersede_owner s owner bank)) owner bank a"
    using demotesD(1) [OF D, of a] by (auto simp: owner_live_def split: if_splits)
qed

lemma pin_all:
  assumes "tm_inv m" and "pins_ok m" and "[] \<notin> set ids"
  shows "tm_inv (foldl (entry_pin a) m ids)" and "pins_ok (foldl (entry_pin a) m ids)" and "same_texts m (foldl (entry_pin a) m ids)"
    and "map_option te_rec (tm_by_id (foldl (entry_pin a) m ids) cid) =
      map_option (\<lambda>e. if cid \<in> set ids then Some a else te_rec e) (tm_by_id m cid)"
proof -
  have "tm_inv (foldl (entry_pin a) m ids) \<and> pins_ok (foldl (entry_pin a) m ids) \<and> same_texts m (foldl (entry_pin a) m ids) \<and>
    (\<forall>cid. map_option te_rec (tm_by_id (foldl (entry_pin a) m ids) cid) =
      map_option (\<lambda>e. if cid \<in> set ids then Some a else te_rec e) (tm_by_id m cid))"
    using assms
  proof (induction ids arbitrary: m)
    case Nil
    then show ?case by (simp cong: option.map_cong)
  next
    case (Cons c ids)
    define m1 where "m1 = entry_pin a m c"
    have "tm_inv m1 \<and> pins_ok m1 \<and> same_texts m m1 \<and>
      (\<forall>x. map_option te_rec (tm_by_id m1 x) = map_option (\<lambda>e. if x = c then Some a else te_rec e) (tm_by_id m x))"
    proof (cases "tm_by_id m c")
      case None
      then have "m1 = m" by (simp add: m1_def entry_pin_def tool_memory_find_entry_locked_def)
      moreover have "map_option te_rec (tm_by_id m x) = map_option (\<lambda>e. if x = c then Some a else te_rec e) (tm_by_id m x)" for x
        using None by (cases "x = c") (simp_all cong: option.map_cong)
      ultimately show ?thesis using Cons.prems by simp
    next
      case (Some e)
      define e' where "e' = e\<lparr>te_pins := te_pins e + 1, te_rec := Some a\<rparr>"
      have m1: "m1 = m\<lparr>tm_by_id := (tm_by_id m)(c \<mapsto> e')\<rparr>"
        using Some Cons.prems(3) by (auto simp: m1_def e'_def entry_pin_def tool_memory_find_entry_locked_def)
      have "te_block e' = te_block e" "te_bytes e' = te_bytes e" by (simp_all add: e'_def)
      note U = entry_update_inv [OF Cons.prems(1) Some this, folded m1]
      have "0 \<le> te_pins e'" using Cons.prems(2) Some by (auto simp: pins_ok_def e'_def)
      then have "pins_ok m1" using Cons.prems(2) by (auto simp: pins_ok_def m1)
      moreover have "same_texts m m1" using U(2) Some by (auto simp: same_texts_def m1 e'_def)
      ultimately show ?thesis using U(1) Some by (auto simp: m1 e'_def cong: option.map_cong)
    qed
    then have m1: "tm_inv m1" "pins_ok m1" "same_texts m m1"
      "map_option te_rec (tm_by_id m1 x) = map_option (\<lambda>e. if x = c then Some a else te_rec e) (tm_by_id m x)" for x by blast+
    note IH = Cons.IH [OF m1(1,2)]
    have "map_option (\<lambda>e. if x \<in> set ids then Some a else te_rec e) (tm_by_id m1 x) =
        map_option (\<lambda>e. if x \<in> set (c # ids) then Some a else te_rec e) (tm_by_id m x)" for x
      using m1(4) [of x] by (cases "tm_by_id m x"; cases "tm_by_id m1 x") (auto split: if_splits)
    moreover have "same_texts m m2" if "same_texts m1 m2" for m2 using m1(3) that by (simp add: same_texts_def)
    ultimately show ?case using IH Cons.prems(3) by (simp add: m1_def [symmetric])
  qed
  then show "tm_inv (foldl (entry_pin a) m ids)" "pins_ok (foldl (entry_pin a) m ids)" "same_texts m (foldl (entry_pin a) m ids)"
    "map_option te_rec (tm_by_id (foldl (entry_pin a) m ids) cid) =
      map_option (\<lambda>e. if cid \<in> set ids then Some a else te_rec e) (tm_by_id m cid)" by blast+
qed

lemma bind_all:
  "foldl (bind_call_id a proto) s ids = s\<lparr>sv_tool_mem := foldl (entry_pin a) (sv_tool_mem s) ids,
     sv_creg := (sv_creg s)\<lparr>rg_by_call_id := (\<lambda>k. if k \<in> cont_registry_key proto ` set ids then Some a else rg_by_call_id (sv_creg s) k)\<rparr>\<rparr>"
proof (induction ids arbitrary: s)
  case (Cons c ids)
  have "foldl (bind_call_id a proto) s (c # ids) = foldl (bind_call_id a proto) (bind_call_id a proto s c) ids" by simp
  also have "\<dots> = s\<lparr>sv_tool_mem := foldl (entry_pin a) (sv_tool_mem s) (c # ids),
     sv_creg := (sv_creg s)\<lparr>rg_by_call_id := (\<lambda>k. if k \<in> cont_registry_key proto ` set (c # ids) then Some a else rg_by_call_id (sv_creg s) k)\<rparr>\<rparr>"
    unfolding Cons.IH by (simp add: bind_call_id_def) (auto simp: fun_eq_iff bind_call_id_def intro!: server.equality cont_registry.equality)
  finally show ?case .
qed simp

text \<open>The state after the record is linked and before the cap on records is applied.\<close>

definition linked :: "nat \<Rightarrow> cont_record \<Rightarrow> server \<Rightarrow> server" where
  "linked a rec s = s\<lparr>sv_tool_mem := (foldl (entry_pin a) (sv_tool_mem s) (cr_call_ids rec))\<lparr>tm_srv := True\<rparr>,
     sv_creg := (sv_creg s)\<lparr>rg_by_call_id := (\<lambda>k. if k \<in> cont_registry_key (cr_protocol rec) ` set (cr_call_ids rec) then Some a
         else rg_by_call_id (sv_creg s) k),
       rg_heap := (rg_heap (sv_creg s))(a \<mapsto> rec), rg_order := a # rg_order (sv_creg s),
       rg_n_records := rg_n_records (sv_creg s) + 1, rg_n_live := rg_n_live (sv_creg s) + 1,
       rg_serial_live := (if cr_owner rec = CONT_OWNER_SERIAL_SESSION then Some a else rg_serial_live (sv_creg s))\<rparr>\<rparr>"

lemma linked_owners:
  assumes ok: "owners_ok (sv_creg s)" and fresh: "rg_heap (sv_creg s) a = None" and live: "cr_state rec = CONT_REC_LIVE_FRONTIER"
    and tip: "\<And>b. \<not> owner_live (sv_creg s) (cr_owner rec) (cr_owner_id rec) b"
  shows "owners_ok (sv_creg (linked a rec s))"
proof -
  define r' where "r' = sv_creg (linked a rec s)"
  have heap: "rg_heap r' = (rg_heap (sv_creg s))(a \<mapsto> rec)" by (simp add: r'_def linked_def)
  have old: "owner_live r' ow bank b \<longleftrightarrow> (if b = a then cr_owner rec = ow \<and> (ow = CONT_OWNER_BATCH_BANK \<longrightarrow> cr_owner_id rec = bank)
      else owner_live (sv_creg s) ow bank b)" for ow bank b
    using live by (auto simp: owner_live_def heap)
  have "b = c" if "bank_live_record r' bank b" "bank_live_record r' bank c" for bank b c
    using that tip owner_live_unique [OF ok] unfolding bank_live_owner old by (auto split: if_splits)
  moreover have "rg_serial_live r' = Some b \<longleftrightarrow> (\<exists>rc. rg_heap r' b = Some rc \<and> cr_state rc = CONT_REC_LIVE_FRONTIER \<and>
      cr_owner rc = CONT_OWNER_SERIAL_SESSION)" for b
  proof -
    have "(\<exists>rc. rg_heap r' b = Some rc \<and> cr_state rc = CONT_REC_LIVE_FRONTIER \<and> cr_owner rc = CONT_OWNER_SERIAL_SESSION) \<longleftrightarrow>
        owner_live r' CONT_OWNER_SERIAL_SESSION 0 b" by (simp add: owner_live_def)
    moreover have "owner_live (sv_creg s) CONT_OWNER_SERIAL_SESSION 0 b \<longleftrightarrow> rg_serial_live (sv_creg s) = Some b" for b
      using ok by (simp add: owner_live_def owners_ok_def)
    moreover have "rg_serial_live (sv_creg s) \<noteq> Some a" using ok fresh by (auto simp: owners_ok_def)
    moreover have "cr_owner rec = CONT_OWNER_SERIAL_SESSION \<Longrightarrow> \<not> owner_live (sv_creg s) CONT_OWNER_SERIAL_SESSION 0 b" for b
      using tip [of b] by (simp add: owner_live_def)
    ultimately show ?thesis unfolding old by (auto simp: r'_def linked_def split: if_splits)
  qed
  ultimately show ?thesis unfolding owners_ok_def r'_def [symmetric] by blast
qed

lemma linked_inv:
  assumes inv: "srv_inv s" and ready: "rg_ready (sv_creg s)" and fresh: "rg_heap (sv_creg s) a = None" and ok: "rec_ok rec"
    and live: "cr_state rec = CONT_REC_LIVE_FRONTIER"
    and tip: "\<And>b. \<not> owner_live (sv_creg s) (cr_owner rec) (cr_owner_id rec) b"
  shows "srv_inv (linked a rec s)"
proof -
  note I = srv_invD [OF inv] and R = reg_invD [OF srv_invD(3) [OF inv]]
  define s' where "s' = linked a rec s"
  have ne: "[] \<notin> set (cr_call_ids rec)" using ok by (simp add: rec_ok_def)
  note P = pin_all [OF I(1,2) ne, of a]
  have heap: "rg_heap (sv_creg s') = (rg_heap (sv_creg s))(a \<mapsto> rec)" by (simp add: s'_def linked_def)
  have "Collect (is_live (sv_creg s')) = insert a (Collect (is_live (sv_creg s)))"
    using live by (auto simp: is_live_def heap split: option.splits if_splits)
  moreover have "a \<notin> Collect (is_live (sv_creg s))" using fresh by (simp add: is_live_def)
  ultimately have card: "card (Collect (is_live (sv_creg s'))) = Suc (card (Collect (is_live (sv_creg s))))" using R(10) by simp
  have "index_ok (sv_creg s')"
    using R(7) fresh ready by (fastforce simp: index_ok_def s'_def linked_def)
  moreover have "\<forall>b rc. rg_heap (sv_creg s') b = Some rc \<longrightarrow> rec_ok rc" using R(6) ok by (simp add: heap)
  moreover have "a \<notin> set (rg_order (sv_creg s))" using R(2) fresh by auto
  moreover have "owners_ok (sv_creg s')" unfolding s'_def by (rule linked_owners [OF R(8) fresh live tip])
  ultimately have reg: "reg_inv (sv_creg s')"
    unfolding reg_inv_def using R card ready by (auto simp: s'_def linked_def)
  have mem: "sv_tool_mem s' = (foldl (entry_pin a) (sv_tool_mem s) (cr_call_ids rec))\<lparr>tm_srv := True\<rparr>" by (simp add: s'_def linked_def)
  have "tm_inv (sv_tool_mem s')" using P(1) by (simp add: mem tm_inv_def tm_size_def)
  moreover have "pins_ok (sv_tool_mem s')" using P(2) by (simp add: mem pins_ok_def)
  moreover have "backrefs_ok s'"
    unfolding backrefs_ok_def
  proof (intro allI impI, elim conjE)
    fix cid e b assume e: "tm_by_id (sv_tool_mem s') cid = Some e" and b: "te_rec e = Some b"
    then have "map_option (\<lambda>e. if cid \<in> set (cr_call_ids rec) then Some a else te_rec e) (tm_by_id (sv_tool_mem s) cid) = Some (Some b)"
      using P(4) [of cid] by (simp add: mem)
    then consider "b = a" "cid \<in> set (cr_call_ids rec)" | f where "tm_by_id (sv_tool_mem s) cid = Some f" "te_rec f = Some b"
      by (auto split: if_splits)
    then show "tm_srv (sv_tool_mem s') \<and> (\<exists>rc. rg_heap (sv_creg s') b = Some rc \<and> cid \<in> set (cr_call_ids rc))"
    proof cases
      case 2
      then obtain rc where "rg_heap (sv_creg s) b = Some rc" "cid \<in> set (cr_call_ids rc)" using I(4) unfolding backrefs_ok_def by blast
      moreover have "b \<noteq> a" using calculation fresh by auto
      ultimately show ?thesis by (simp add: heap mem)
    qed (simp add: heap mem)
  qed
  ultimately show ?thesis using reg by (simp add: srv_inv_def s'_def)
qed

lemma linked_fields:
  "rg_heap (sv_creg (linked a rec s)) = (rg_heap (sv_creg s))(a \<mapsto> rec)"
  "rg_by_call_id (sv_creg (linked a rec s)) k =
     (if k \<in> cont_registry_key (cr_protocol rec) ` set (cr_call_ids rec) then Some a else rg_by_call_id (sv_creg s) k)"
  "rg_ready (sv_creg (linked a rec s)) = rg_ready (sv_creg s)" "rg_max_records (sv_creg (linked a rec s)) = rg_max_records (sv_creg s)"
  "rg_order (sv_creg (linked a rec s)) = a # rg_order (sv_creg s)" "same_policy (sv_creg s) (sv_creg (linked a rec s))"
  "rg_serial_live (sv_creg (linked a rec s)) = (if cr_owner rec = CONT_OWNER_SERIAL_SESSION then Some a else rg_serial_live (sv_creg s))"
  by (simp_all add: linked_def same_policy_def)

lemma same_policy_trans: "same_policy r r' \<Longrightarrow> same_policy r' r'' \<Longrightarrow> same_policy r r''"
  by (simp add: same_policy_def)

definition new_record :: "rat \<Rightarrow> api_style \<Rightarrow> tool_calls \<Rightarrow> cont_record_owner \<Rightarrow> int \<Rightarrow> u64 \<Rightarrow> int \<Rightarrow> cont_record" where
  "new_record now proto calls owner owner_id gen frontier =
     \<lparr>cr_state = CONT_REC_LIVE_FRONTIER, cr_owner = owner, cr_protocol = proto,
      cr_owner_id = (if owner = CONT_OWNER_BATCH_BANK then owner_id else 0), cr_owner_gen = gen,
      cr_frontier = frontier, cr_call_ids = calls_id_list (tc_ids calls), cr_publish_time = now, cr_hard_refs = 0, cr_pin_expiry = 0\<rparr>"

definition before_link :: "server \<Rightarrow> cont_record_owner \<Rightarrow> int \<Rightarrow> server" where
  "before_link s owner owner_id = supersede_owner (s\<lparr>sv_creg := cont_registry_init_locked (sv_creg s)\<rparr>) owner owner_id"

lemma publish_cases:
  "cont_registry_publish a now s proto calls owner owner_id gen frontier =
     (if tc_ids calls = [] \<or> gen = 0 \<or> frontier \<le> 0 then s
      else if calls_id_list (tc_ids calls) = [] then before_link s owner owner_id
      else cont_registry_prune_locked (linked a (new_record now proto calls owner owner_id gen frontier) (before_link s owner owner_id)))"
  unfolding cont_registry_publish_def bind_all
  by (simp add: Let_def new_record_def linked_def before_link_def)

lemma before_link:
  assumes inv: "srv_inv s"
  shows "srv_inv (before_link s owner owner_id)" and "rg_ready (sv_creg (before_link s owner owner_id))"
    and "rg_heap (sv_creg (before_link s owner owner_id)) b =
      (if owner_live (sv_creg s) owner owner_id b then map_option (\<lambda>rec. rec\<lparr>cr_state := CONT_REC_REPLAY_ONLY\<rparr>) (rg_heap (sv_creg s) b)
       else rg_heap (sv_creg s) b)"
    and "\<not> owner_live (sv_creg (before_link s owner owner_id)) owner owner_id b"
    and "same_policy (sv_creg s) (sv_creg (before_link s owner owner_id))"
proof -
  note N = init_inv [OF inv]
  note S = supersede [OF N(1), of owner owner_id, folded before_link_def]
  show "srv_inv (before_link s owner owner_id)" "\<not> owner_live (sv_creg (before_link s owner owner_id)) owner owner_id b"
    by (rule S(1), rule S(3))
  show "rg_ready (sv_creg (before_link s owner owner_id))" using demotesD(4) [OF S(2)] N(2) by simp
  show "rg_heap (sv_creg (before_link s owner owner_id)) b =
      (if owner_live (sv_creg s) owner owner_id b then map_option (\<lambda>rec. rec\<lparr>cr_state := CONT_REC_REPLAY_ONLY\<rparr>) (rg_heap (sv_creg s) b)
       else rg_heap (sv_creg s) b)"
    using demotesD(1) [OF S(2), of b] unfolding mem_Collect_eq owner_live_def N(3) .
  show "same_policy (sv_creg s) (sv_creg (before_link s owner owner_id))"
    using demotesD(6) [OF S(2)] N(4) by (simp add: same_policy_def)
qed

lemma publish_links:
  assumes inv: "srv_inv s" and fresh: "rg_heap (sv_creg s) a = None"
    and ids: "calls_id_list (tc_ids calls) \<noteq> []" and gen: "gen \<noteq> 0" and fr: "0 < frontier"
  shows "srv_inv (linked a (new_record now proto calls owner owner_id gen frontier) (before_link s owner owner_id))"
proof -
  define rec where "rec = new_record now proto calls owner owner_id gen frontier"
  note B = before_link [OF inv, of owner owner_id]
  have "owner_live r owner (cr_owner_id rec) b \<longleftrightarrow> owner_live r owner owner_id b" for r b
    by (simp add: rec_def new_record_def owner_live_def)
  moreover have "rec_ok rec" using ids gen fr calls_id_list_props [of "tc_ids calls"] by (simp add: rec_def new_record_def rec_ok_def)
  moreover have "rg_heap (sv_creg (before_link s owner owner_id)) a = None" using B(3) [of a] fresh by (simp split: if_splits)
  ultimately show ?thesis using B(1,2,4) unfolding rec_def [symmetric] by (intro linked_inv) (auto simp: rec_def new_record_def)
qed

lemma calls_id_list_ne: "calls_id_list (tc_ids calls) \<noteq> [] \<Longrightarrow> tc_ids calls \<noteq> []"
  by (auto simp: calls_id_list_def)

lemma cont_registry_publish_inv_step:
  assumes "srv_inv s" and "rg_heap (sv_creg s) a = None"
  shows "srv_inv (cont_registry_publish a now s proto calls owner owner_id gen frontier)"
proof (cases "tc_ids calls = [] \<or> gen = 0 \<or> frontier \<le> 0 \<or> calls_id_list (tc_ids calls) = []")
  case True
  then show ?thesis using assms(1) before_link(1) [OF assms(1), of owner owner_id] unfolding publish_cases by (auto split: if_splits)
next
  case False
  then have "srv_inv (linked a (new_record now proto calls owner owner_id gen frontier) (before_link s owner owner_id))"
    using publish_links [OF assms] by simp
  then obtain old new where "srv_inv (cont_registry_prune_locked
      (linked a (new_record now proto calls owner owner_id gen frontier) (before_link s owner owner_id)))" by (rule registry_prune)
  then show ?thesis using False unfolding publish_cases by simp
qed

lemma publish_effect:
  assumes inv: "srv_inv s" and fresh: "rg_heap (sv_creg s) a = None"
    and ids: "calls_id_list (tc_ids calls) \<noteq> []" and gen: "gen \<noteq> 0" and fr: "0 < frontier"
    and s'_def: "s' = cont_registry_publish a now s proto calls owner owner_id gen frontier"
  shows "rg_heap (sv_creg s') a = Some (new_record now proto calls owner owner_id gen frontier)"
    and "cid \<in> set (tc_ids calls) \<Longrightarrow> cid \<noteq> [] \<Longrightarrow> cont_registry_find_locked (sv_creg s') proto cid = Some a"
    and "owner_live (sv_creg s') owner owner_id b \<Longrightarrow> b = a"
    and "rg_heap (sv_creg s) b = Some rc \<Longrightarrow> rec_protected rc \<Longrightarrow> \<not> owner_live (sv_creg s) owner owner_id b \<Longrightarrow>
      rg_heap (sv_creg s') b = Some rc"
    and "rg_heap (sv_creg s) b = Some rc \<Longrightarrow> 0 < cr_hard_refs rc \<Longrightarrow> rg_heap (sv_creg s') b \<noteq> None"
    and "same_policy (sv_creg s) (sv_creg s')"
proof -
  define rec where "rec = new_record now proto calls owner owner_id gen frontier"
  define s1 where "s1 = before_link s owner owner_id"
  note B = before_link [OF inv, of owner owner_id, folded s1_def]
  have L: "srv_inv (linked a rec s1)" unfolding rec_def s1_def by (rule publish_links [OF inv fresh ids gen fr])
  have s': "s' = cont_registry_prune_locked (linked a rec s1)"
    using ids gen fr calls_id_list_ne [OF ids] by (simp add: s'_def publish_cases rec_def s1_def)
  obtain old new where ev: "evicts (linked a rec s1) s' {x \<in> set old. rec_free (linked a rec s1) x} {}"
    unfolding s' by (rule registry_prune [OF L])
  define A where "A = {x \<in> set old. rec_free (linked a rec s1) x}"
  note D = evictsD [OF ev, folded A_def]
  have heap: "rg_heap (sv_creg s') b = (if b \<in> A then None else if b = a then Some rec else rg_heap (sv_creg s1) b)" for b
    by (simp add: D(1) linked_fields)
  have kept: "b \<notin> A" if "rg_heap (sv_creg (linked a rec s1)) b = Some rc" "rec_protected rc" for b rc
    using that by (auto simp: A_def rec_free_def)
  have a: "a \<notin> A" by (rule kept [of a rec]) (simp_all add: linked_fields rec_def new_record_def rec_protected_def)
  have A: "b \<noteq> a" if "rg_heap (sv_creg s) b = Some rc" for b rc using that fresh by auto
  show "rg_heap (sv_creg s') a = Some (new_record now proto calls owner owner_id gen frontier)" using heap [of a] a unfolding rec_def by simp
  show "same_policy (sv_creg s) (sv_creg s')" using same_policy_trans [OF B(5) same_policy_trans [OF linked_fields(6) D(7)]] .
  show "cont_registry_find_locked (sv_creg s') proto cid = Some a" if "cid \<in> set (tc_ids calls)" "cid \<noteq> []"
  proof -
    have "cid \<in> set (cr_call_ids rec)" using that calls_id_list_props(2) [of "tc_ids calls"] by (simp add: rec_def new_record_def)
    then have "rg_by_call_id (sv_creg (linked a rec s1)) (cont_registry_key proto cid) = Some a"
      by (simp add: linked_fields) (simp add: rec_def new_record_def)
    then show ?thesis using a B(2) that(2) by (auto simp: cont_registry_find_locked_def D(2,4) linked_fields)
  qed
  show "b = a" if "owner_live (sv_creg s') owner owner_id b"
    using that B(4) [of b] by (auto simp: owner_live_def heap split: if_splits)
  show "rg_heap (sv_creg s') b = Some rc"
    if "rg_heap (sv_creg s) b = Some rc" "rec_protected rc" "\<not> owner_live (sv_creg s) owner owner_id b"
  proof -
    have "rg_heap (sv_creg s1) b = Some rc" using that B(3) [of b] by simp
    then show ?thesis using kept [of b rc] that(2) A [OF that(1)] by (simp add: heap linked_fields)
  qed
  show "rg_heap (sv_creg s') b \<noteq> None" if rc: "rg_heap (sv_creg s) b = Some rc" "0 < cr_hard_refs rc"
  proof -
    obtain rc' where "rg_heap (sv_creg s1) b = Some rc'" "0 < cr_hard_refs rc'"
      using rc B(3) [of b] by (auto split: if_splits)
    then show ?thesis using kept [of b rc'] A [OF rc(1)] by (simp add: heap linked_fields rec_protected_def)
  qed
qed

text \<open>
  What a publication leaves: its record is allocated, live, newest and found under every id of
  the turn, whatever the cap on records then evicts; the owner's previous live record is live no
  more; every live record of another owner and every pinned record is untouched.
\<close>

theorem cont_registry_publish_effect:
  assumes inv: "srv_inv s" and fresh: "rg_heap (sv_creg s) a = None"
    and ids: "calls_id_list (tc_ids calls) \<noteq> []" and gen: "gen \<noteq> 0" and fr: "0 < frontier"
    and s'_def: "s' = cont_registry_publish a now s proto calls owner owner_id gen frontier"
  shows "rg_heap (sv_creg s') a = Some (new_record now proto calls owner owner_id gen frontier) \<and>
    (\<forall>cid \<in> set (tc_ids calls). cid \<noteq> [] \<longrightarrow> cont_registry_find_locked (sv_creg s') proto cid = Some a) \<and>
    (\<forall>b. owner_live (sv_creg s') owner owner_id b \<longrightarrow> b = a) \<and>
    (\<forall>b rec. rg_heap (sv_creg s) b = Some rec \<and> rec_protected rec \<and> \<not> owner_live (sv_creg s) owner owner_id b \<longrightarrow>
      rg_heap (sv_creg s') b = Some rec) \<and>
    (\<forall>b rec. rg_heap (sv_creg s) b = Some rec \<and> 0 < cr_hard_refs rec \<longrightarrow> rg_heap (sv_creg s') b \<noteq> None)"
  using publish_effect [OF assms] by blast

subsection \<open>A small server\<close>

text \<open>
  Room for one entry, two entries in the memory and one turn published for the serial session, which
  owns the older entry: the state the examples below are about.
\<close>

definition demo_start :: server where "demo_start = srv_start 1 0 60 300 60 5 False"

definition demo_put :: "server \<Rightarrow> bytes \<Rightarrow> bytes \<Rightarrow> server" where
  "demo_put s cid dsml = s\<lparr>sv_tool_mem := tool_memory_put_entry (sv_tool_mem s) cid dsml TOOL_MEMORY_RAM\<rparr>"

definition demo_mem :: server where "demo_mem = demo_put (demo_put demo_start [97] [60]) [98] [62]"

definition demo_calls :: tool_calls where "demo_calls = \<lparr>tc_ids = [[97]], tc_raw_dsml = [60], tc_raw_tool_text = []\<rparr>"

definition demo_pub :: server where "demo_pub = cont_registry_publish 7 0 demo_mem API_ANTHROPIC demo_calls CONT_OWNER_SERIAL_SESSION 0 1 5"

lemma demo_put_inv:
  assumes "srv_inv s" and "tm_size (sv_tool_mem s) \<le> n" and "n + 124 < 2 ^ 64" and "length cid = 1" and "length dsml = 1"
  shows "srv_inv (demo_put s cid dsml)" and "tm_size (sv_tool_mem (demo_put s cid dsml)) \<le> n + 124"
proof -
  have ne: "cid \<noteq> []" "dsml \<noteq> []" and fits: "tm_size (sv_tool_mem s) + length cid + length dsml + 122 < 2 ^ 64" using assms by auto
  show "srv_inv (demo_put s cid dsml)" unfolding demo_put_def by (rule put_entry_srv_inv [OF assms(1) ne fits])
  show "tm_size (sv_tool_mem (demo_put s cid dsml)) \<le> n + 124"
    using put_entry_size [OF srv_invD(1) [OF assms(1)] ne fits, of TOOL_MEMORY_RAM] assms(2,4,5) by (simp add: demo_put_def)
qed

lemma demo_mem_inv: "srv_inv demo_mem" and demo_mem_fresh: "rg_heap (sv_creg demo_mem) 7 = None"
proof -
  have "srv_inv demo_start" unfolding demo_start_def by (rule start_inv)
  moreover have "tm_size (sv_tool_mem demo_start) \<le> 0" by (simp add: demo_start_def srv_start_def tm_size_def keys_size_def)
  ultimately have "srv_inv (demo_put demo_start [97] [60])" "tm_size (sv_tool_mem (demo_put demo_start [97] [60])) \<le> 0 + 124"
    by (rule demo_put_inv; simp)+
  then show "srv_inv demo_mem" unfolding demo_mem_def by (rule demo_put_inv) simp_all
  show "rg_heap (sv_creg demo_mem) 7 = None" by (simp add: demo_mem_def demo_put_def demo_start_def srv_start_def)
qed

lemma demo_calls_ids: "calls_id_list (tc_ids demo_calls) \<noteq> []"
  by (simp add: demo_calls_def calls_id_list_def id_list_push_unique_def id_list_contains_def)

lemma demo_pub_inv: "srv_inv demo_pub"
  unfolding demo_pub_def by (rule cont_registry_publish_inv_step [OF demo_mem_inv demo_mem_fresh])

lemma demo_over: "tool_memory_over (sv_tool_mem demo_pub)"
  unfolding tool_memory_over_def by code_simp

theorem tool_memory_prune_returns_witness:
  "tool_memory_over (sv_tool_mem demo_pub) \<and> (\<exists>s'. tool_memory_prune_locked demo_pub = Some s' \<and> srv_inv s' \<and>
     (tool_memory_over (sv_tool_mem s') \<longrightarrow> all_kept s'))"
  using demo_over tool_memory_prune_returns [OF demo_pub_inv] by blast

text \<open>The turn's record is live no more: the prune takes it with its entry, the row of its id, and nothing else.\<close>

definition demo_old :: server where "demo_old = cont_registry_demote_locked demo_pub 7"

lemma demo_old_inv: "srv_inv demo_old"
  unfolding demo_old_def by (rule demote_inv [OF demo_pub_inv])

lemma demo_old_prune: "tool_memory_prune_locked demo_old = Some (cont_registry_remove_locked demo_old 7)"
proof -
  define s1 where "s1 = cont_registry_remove_locked demo_old 7"
  have lru: "rev (tm_lru (sv_tool_mem demo_old)) = [[97], [98]]" by code_simp
  have over: "tool_memory_over (sv_tool_mem demo_old)" and enough: "\<not> tool_memory_over (sv_tool_mem s1)" and srv: "tm_srv (sv_tool_mem demo_old)"
    unfolding tool_memory_over_def s1_def by code_simp+
  have "map_option (\<lambda>e. (te_pins e, te_rec e)) (tm_by_id (sv_tool_mem demo_old) [97]) = Some (0, Some 7)"
    "map_option rec_protected (rg_heap (sv_creg demo_old) 7) = Some False" by code_simp+
  then obtain e rec where "tm_by_id (sv_tool_mem demo_old) [97] = Some e" "te_pins e \<le> 0" "te_rec e = Some 7"
    "rg_heap (sv_creg demo_old) 7 = Some rec" "\<not> rec_protected rec" by auto
  then have "tool_memory_prune_locked demo_old = tool_memory_prune_walk s1 (rev (tm_lru (sv_tool_mem s1)))"
    unfolding tool_memory_prune_locked_def lru s1_def using prune_walk_turn(3) [OF over] srv by blast
  then show ?thesis using enough by (subst (asm) tool_memory_prune_walk.simps) (simp add: s1_def)
qed

theorem tool_memory_prune_safe_witness:
  "\<exists>s'. tool_memory_prune_locked demo_old = Some s' \<and> rg_heap (sv_creg s') 7 = None \<and> tm_by_id (sv_tool_mem s') [97] = None \<and>
     tm_lru (sv_tool_mem s') = [[98]] \<and> cont_registry_find_locked (sv_creg s') API_ANTHROPIC [97] = None"
proof -
  define s' where "s' = cont_registry_remove_locked demo_old 7"
  have went: "rg_heap (sv_creg demo_old) 7 \<noteq> None" "rg_heap (sv_creg s') 7 = None" and lru: "tm_lru (sv_tool_mem demo_old) = [[98], [97]]"
    and row: "rg_by_call_id (sv_creg demo_old) (cont_registry_key API_ANTHROPIC [97]) = Some 7"
    and kept: "tm_by_id (sv_tool_mem s') [98] \<noteq> None"
    unfolding s'_def by code_simp+
  have "map_option te_rec (tm_by_id (sv_tool_mem demo_old) [97]) = Some (Some 7)" by code_simp
  then obtain e where e: "tm_by_id (sv_tool_mem demo_old) [97] = Some e" "te_rec e = Some 7" by auto
  note T = tool_memory_prune_safe [OF demo_old_inv demo_old_prune, folded s'_def]
  from T have "tm_by_id (sv_tool_mem s') [97] = (case tm_by_id (sv_tool_mem demo_old) [97] of None \<Rightarrow> None
    | Some e \<Rightarrow> (case te_rec e of Some a \<Rightarrow> if rg_heap (sv_creg s') a = None then None else Some e
       | None \<Rightarrow> if te_pins e > 0 \<or> tm_by_id (sv_tool_mem s') [97] \<noteq> None then Some e else None))" by blast
  then have gone: "tm_by_id (sv_tool_mem s') [97] = None" by (simp add: e went(2))
  from T have "tm_lru (sv_tool_mem s') = filter (\<lambda>cid. tm_by_id (sv_tool_mem s') cid \<noteq> None) [[98], [97]]" by (simp only: lru)
  then have order: "tm_lru (sv_tool_mem s') = [[98]]" using gone kept by simp
  from T have "rg_by_call_id (sv_creg s') k = (if \<exists>a. rg_by_call_id (sv_creg demo_old) k = Some a \<and>
      rg_heap (sv_creg demo_old) a \<noteq> None \<and> rg_heap (sv_creg s') a = None then None else rg_by_call_id (sv_creg demo_old) k)" for k by blast
  then have "rg_by_call_id (sv_creg s') (cont_registry_key API_ANTHROPIC [97]) = None" using row went by simp
  then show ?thesis using demo_old_prune [folded s'_def] went(2) gone order by (simp add: cont_registry_find_locked_def)
qed

theorem tool_memory_put_lookup_witness:
  "\<exists>s'. tool_memory_put_locked demo_start [97] [60] TOOL_MEMORY_RAM = Some s' \<and> srv_inv s' \<and>
     (fst (tool_memory_lookup_locked (sv_tool_mem s') [97]) = Some ([60], TOOL_MEMORY_RAM) \<or> all_kept s')"
proof -
  have inv: "srv_inv demo_start" unfolding demo_start_def by (rule start_inv)
  have "tm_size (sv_tool_mem demo_start) + length [97::u8] + length [60::u8] + 122 < 2 ^ 64" "tm_by_id (sv_tool_mem demo_start) [97] = None"
    by (simp_all add: demo_start_def srv_start_def tm_size_def keys_size_def)
  then show ?thesis by (intro tool_memory_put_lookup [OF inv]) simp_all
qed

theorem cont_registry_publish_effect_witness:
  "cont_registry_find_locked (sv_creg demo_pub) API_ANTHROPIC [97] = Some 7"
  using cont_registry_publish_effect [OF demo_mem_inv demo_mem_fresh demo_calls_ids _ _ demo_pub_def]
  by (simp add: demo_calls_def)

end
