(* ===== verification/Cont_Machine.thy ===== *)
theory Cont_Machine
  imports Cont_Steps
begin

section \<open>Reachable states of the tool memory and the registry\<close>

text \<open>
  The step relation over the operations of \<open>Cont_Registry\<close> and the pins that requests hold, its
  invariant by rule induction, and what follows for the pointers to records.
\<close>

subsection \<open>Pins\<close>

definition refs_ok :: "nat multiset \<Rightarrow> server \<Rightarrow> bool" where
  "refs_ok P s \<longleftrightarrow> (\<forall>a. int (count P a) = (case rg_heap (sv_creg s) a of None \<Rightarrow> 0 | Some rec \<Rightarrow> cr_hard_refs rec))"

text \<open>A step that neither takes nor gives back a pin.\<close>

definition refs_same :: "server \<Rightarrow> server \<Rightarrow> bool" where
  "refs_same s s' \<longleftrightarrow> (\<forall>a. (case rg_heap (sv_creg s') a of None \<Rightarrow> 0 | Some rec \<Rightarrow> cr_hard_refs rec) =
     (case rg_heap (sv_creg s) a of None \<Rightarrow> 0 | Some rec \<Rightarrow> cr_hard_refs rec))"

lemma refs_same_ok: "refs_same s s' \<Longrightarrow> refs_ok P s \<Longrightarrow> refs_ok P s'"
  by (simp add: refs_same_def refs_ok_def)

lemma refs_same_trans: "refs_same s s' \<Longrightarrow> refs_same s' s'' \<Longrightarrow> refs_same s s''"
  by (simp add: refs_same_def)

lemma refs_same_demotes: "demotes s s' D \<Longrightarrow> refs_same s s'"
  by (auto simp: refs_same_def demotesD(1) split: option.splits)

lemma refs_same_evicts:
  assumes "srv_inv s" and "evicts s s' A E" and "\<forall>a \<in> A. rec_free s a"
  shows "refs_same s s'"
  unfolding refs_same_def
proof
  fix a
  have "cr_hard_refs rec = 0" if "a \<in> A" "rg_heap (sv_creg s) a = Some rec" for rec
    using assms(3) that reg_invD(6) [OF srv_invD(3) [OF assms(1)] that(2)] by (auto simp: rec_free_def rec_protected_def rec_ok_def)
  then show "(case rg_heap (sv_creg s') a of None \<Rightarrow> 0 | Some rec \<Rightarrow> cr_hard_refs rec) =
      (case rg_heap (sv_creg s) a of None \<Rightarrow> 0 | Some rec \<Rightarrow> cr_hard_refs rec)"
    by (auto simp: evictsD(1) [OF assms(2)] split: option.splits)
qed

lemma publish_refs:
  assumes inv: "srv_inv s" and fresh: "rg_heap (sv_creg s) a = None"
  shows "refs_same s (cont_registry_publish a now s proto calls owner owner_id gen frontier)"
proof -
  define rec where "rec = new_record now proto calls owner owner_id gen frontier"
  define s1 where "s1 = before_link s owner owner_id"
  have s1: "refs_same s s1" using before_link(3) [OF inv] by (auto simp: refs_same_def s1_def split: option.splits)
  show ?thesis
  proof (cases "tc_ids calls = [] \<or> gen = 0 \<or> frontier \<le> 0 \<or> calls_id_list (tc_ids calls) = []")
    case True
    then show ?thesis using s1 unfolding publish_cases s1_def by (auto simp: refs_same_def)
  next
    case False
    then have L: "srv_inv (linked a rec s1)" unfolding rec_def s1_def using publish_links [OF inv fresh] by simp
    obtain old new where ev: "evicts (linked a rec s1) (cont_registry_prune_locked (linked a rec s1)) {x \<in> set old. rec_free (linked a rec s1) x} {}"
      by (rule registry_prune [OF L])
    have "rg_heap (sv_creg s1) a = None" using before_link(3) [OF inv, of owner owner_id a] fresh by (simp add: s1_def split: if_splits)
    then have "refs_same s1 (linked a rec s1)" by (auto simp: refs_same_def linked_fields rec_def new_record_def split: option.splits)
    moreover have "refs_same (linked a rec s1) (cont_registry_prune_locked (linked a rec s1))"
      by (rule refs_same_evicts [OF L ev]) simp
    ultimately have "refs_same s (cont_registry_prune_locked (linked a rec s1))" using s1 refs_same_trans by blast
    then show ?thesis using False unfolding publish_cases rec_def [symmetric] s1_def [symmetric] by simp
  qed
qed

subsection \<open>Other steps\<close>

lemma touch_srv_inv:
  assumes "srv_inv s"
  shows "srv_inv (s\<lparr>sv_tool_mem := tool_memory_touch (sv_tool_mem s) cid\<rparr>)"
proof -
  note I = srv_invD [OF assms]
  have old: "\<exists>f. tm_by_id (sv_tool_mem s) x = Some f \<and> te_rec e = te_rec f \<and> te_pins e = te_pins f"
    if "tm_by_id (tool_memory_touch (sv_tool_mem s) cid) x = Some e" for x e
    using that by (auto simp: touch_fields split: if_splits)
  have "pins_ok (tool_memory_touch (sv_tool_mem s) cid)" using I(2) old unfolding pins_ok_def by metis
  moreover have "backrefs_ok (s\<lparr>sv_tool_mem := tool_memory_touch (sv_tool_mem s) cid\<rparr>)"
    using I(4) old unfolding backrefs_ok_def by (simp add: touch_fields(4)) metis
  ultimately show ?thesis using I(3) touch_inv(1) [OF I(1)] by (simp add: srv_inv_def)
qed

lemma put_source_inv:
  assumes inv: "srv_inv s" and fits: "tm_size (sv_tool_mem s) + length cid + length dsml + 122 < 2 ^ 64"
    and put: "tool_memory_put_source s cid dsml source = Some s'"
  shows "srv_inv s'" and "refs_same s s'"
proof -
  have "srv_inv s' \<and> refs_same s s'"
  proof (cases "sv_disable_exact_dsml_tool_replay s \<or> cid = [] \<or> dsml = []")
    case True
    then show ?thesis using put inv by (auto simp: tool_memory_put_source_def refs_same_def)
  next
    case False
    define s1 where "s1 = s\<lparr>sv_tool_mem := tool_memory_put_entry (sv_tool_mem s) cid dsml source\<rparr>"
    have s1: "srv_inv s1" unfolding s1_def using False by (intro put_entry_srv_inv inv fits) simp_all
    have "tool_memory_prune_locked s1 = Some s'"
      using put False by (simp add: tool_memory_put_source_def tool_memory_put_locked_def s1_def)
    then obtain A E where R: "prune_result s1 s' A E" using memory_prune [OF s1] by (metis option.inject)
    then have "refs_same s1 s'" using refs_same_evicts [OF s1] unfolding prune_result_def by blast
    moreover have "refs_same s s1" by (simp add: refs_same_def s1_def)
    ultimately show ?thesis using R refs_same_trans by (auto simp: prune_result_def)
  qed
  then show "srv_inv s'" "refs_same s s'" by simp_all
qed

lemma heap_update_inv:
  assumes inv: "srv_inv s" and rec: "rg_heap (sv_creg s) a = Some rec"
    and same: "cr_state rec' = cr_state rec" "cr_owner rec' = cr_owner rec" "cr_owner_id rec' = cr_owner_id rec"
      "cr_call_ids rec' = cr_call_ids rec" "cr_protocol rec' = cr_protocol rec" and ok: "rec_ok rec'"
  shows "srv_inv (s\<lparr>sv_creg := (sv_creg s)\<lparr>rg_heap := (rg_heap (sv_creg s))(a \<mapsto> rec')\<rparr>\<rparr>)"
proof -
  note I = srv_invD [OF inv] and R = reg_invD [OF srv_invD(3) [OF inv]]
  define r where "r = (sv_creg s)\<lparr>rg_heap := (rg_heap (sv_creg s))(a \<mapsto> rec')\<rparr>"
  have "is_live r = is_live (sv_creg s)" "bank_live_record r = bank_live_record (sv_creg s)"
    using rec same by (auto simp: fun_eq_iff r_def is_live_def bank_live_record_def)
  moreover have "index_ok r" using R(7) rec same by (fastforce simp: index_ok_def r_def)
  moreover have "(\<exists>rc. rg_heap r b = Some rc \<and> cr_state rc = CONT_REC_LIVE_FRONTIER \<and> cr_owner rc = CONT_OWNER_SERIAL_SESSION) \<longleftrightarrow>
      (\<exists>rc. rg_heap (sv_creg s) b = Some rc \<and> cr_state rc = CONT_REC_LIVE_FRONTIER \<and> cr_owner rc = CONT_OWNER_SERIAL_SESSION)" for b
    using rec same by (auto simp: r_def)
  moreover have "dom (rg_heap r) = dom (rg_heap (sv_creg s))" using rec by (auto simp: r_def)
  moreover have "\<forall>b rc. rg_heap r b = Some rc \<longrightarrow> rec_ok rc" using R(6) ok by (simp add: r_def)
  ultimately have "reg_inv r" using R(1-5,8) unfolding reg_inv_def owners_ok_def by (auto simp: r_def)
  moreover have "backrefs_ok (s\<lparr>sv_creg := r\<rparr>)" using I(4) rec same by (fastforce simp: backrefs_ok_def r_def)
  ultimately show ?thesis using I(1,2) by (simp add: srv_inv_def r_def)
qed

lemma pin_live_inv:
  assumes inv: "srv_inv s" and refs: "refs_ok P s" and pin: "cont_registry_pin_live now s proto cid = (res, s')"
  shows "srv_inv s'" and "refs_ok (case res of None \<Rightarrow> P | Some a \<Rightarrow> add_mset a P) s'"
proof -
  define s1 where "s1 = cont_registry_expire_locked s now"
  note X = expire [OF inv, of now, folded s1_def]
  have refs1: "refs_ok P s1" using refs_same_ok [OF refs_same_demotes [OF X(2)] refs] .
  have "srv_inv s' \<and> refs_ok (case res of None \<Rightarrow> P | Some a \<Rightarrow> add_mset a P) s'"
  proof (cases res)
    case None
    then have "s' = s \<or> s' = s1"
      using pin by (auto simp: cont_registry_pin_live_def Let_def s1_def split: if_splits option.splits)
    then show ?thesis using None inv refs X(1) refs1 by auto
  next
    case (Some a)
    then obtain rec rec' where rec: "rg_heap (sv_creg s1) a = Some rec"
      and s': "s' = s1\<lparr>sv_creg := (sv_creg s1)\<lparr>rg_heap := (rg_heap (sv_creg s1))(a \<mapsto> rec')\<rparr>\<rparr>"
      and rec': "cr_state rec' = cr_state rec" "cr_owner rec' = cr_owner rec" "cr_owner_id rec' = cr_owner_id rec"
        "cr_call_ids rec' = cr_call_ids rec" "cr_protocol rec' = cr_protocol rec" "cr_owner_gen rec' = cr_owner_gen rec"
        "cr_frontier rec' = cr_frontier rec" "cr_hard_refs rec' = cr_hard_refs rec + 1"
      using pin by (auto simp: cont_registry_pin_live_def Let_def s1_def split: if_splits option.splits)
    have "rec_ok rec'" using reg_invD(6) [OF srv_invD(3) [OF X(1)] rec] rec' by (simp add: rec_ok_def)
    then have "srv_inv s'" unfolding s' using rec' by (intro heap_update_inv [OF X(1) rec]) simp_all
    moreover have "refs_ok (add_mset a P) s'" using refs1 rec rec'(8) by (auto simp: refs_ok_def s')
    ultimately show ?thesis using Some by simp
  qed
  then show "srv_inv s'" "refs_ok (case res of None \<Rightarrow> P | Some a \<Rightarrow> add_mset a P) s'" by simp_all
qed

lemma unpin_inv:
  assumes inv: "srv_inv s" and refs: "refs_ok (add_mset a P) s"
  shows "srv_inv (cont_registry_unpin s a)" and "refs_ok P (cont_registry_unpin s a)"
proof -
  have "int (count (add_mset a P) a) > 0" by simp
  then obtain rec where rec: "rg_heap (sv_creg s) a = Some rec" "cr_hard_refs rec = int (count P a) + 1"
    using refs [unfolded refs_ok_def, rule_format, of a] by (cases "rg_heap (sv_creg s) a") simp_all
  define rec' where "rec' = rec\<lparr>cr_hard_refs := cr_hard_refs rec - 1\<rparr>"
  have run: "cont_registry_unpin s a = s\<lparr>sv_creg := (sv_creg s)\<lparr>rg_heap := (rg_heap (sv_creg s))(a \<mapsto> rec')\<rparr>\<rparr>"
    using rec by (simp add: cont_registry_unpin_def rec'_def)
  have "rec_ok rec'" using reg_invD(6) [OF srv_invD(3) [OF inv] rec(1)] rec(2) by (simp add: rec_ok_def rec'_def)
  then show "srv_inv (cont_registry_unpin s a)" unfolding run by (intro heap_update_inv [OF inv rec(1)]) (simp_all add: rec'_def)
  show "refs_ok P (cont_registry_unpin s a)" using refs rec by (auto simp: refs_ok_def run rec'_def split: if_splits)
qed

subsection \<open>The step relation\<close>

text \<open>
  A step may take any argument its caller could pass. Putting a text needs the memory for it; the
  address of a new record is one that \<open>malloc\<close> does not have in use. Every read of the registry
  first demotes what has expired, which is the step \<open>step_expire\<close>.
\<close>

inductive srv_step :: "server \<times> nat multiset \<Rightarrow> server \<times> nat multiset \<Rightarrow> bool" where
  step_put: "tool_memory_put_source s cid dsml source = Some s' \<Longrightarrow>
     tm_size (sv_tool_mem s) + length cid + length dsml + 122 < 2 ^ 64 \<Longrightarrow> srv_step (s, P) (s', P)"
| step_lookup: "srv_step (s, P) (s\<lparr>sv_tool_mem := snd (tool_memory_lookup_locked (sv_tool_mem s) cid)\<rparr>, P)"
| step_publish_serial: "rg_heap (sv_creg s) a = None \<Longrightarrow>
     srv_step (s, P) (cont_registry_publish_serial a now s proto calls gen frontier, P)"
| step_publish_bank: "rg_heap (sv_creg s) a = None \<Longrightarrow>
     srv_step (s, P) (cont_registry_publish_bank a now s proto calls bank gen frontier, P)"
| step_demote_serial: "srv_step (s, P) (cont_registry_demote_serial s, P)"
| step_expire: "srv_step (s, P) (cont_registry_expire_locked s now, P)"
| step_pin: "cont_registry_pin_live now s proto cid = (Some a, s') \<Longrightarrow> srv_step (s, P) (s', add_mset a P)"
| step_pin_fails: "cont_registry_pin_live now s proto cid = (None, s') \<Longrightarrow> srv_step (s, P) (s', P)"
| step_unpin: "srv_step (s, add_mset a P) (cont_registry_unpin s a, P)"

inductive srv_reachable :: "server \<times> nat multiset \<Rightarrow> bool" where
  reach_start: "srv_reachable (srv_start max_ids max_recs grace ttl pin_deadline hold_shed disable, {#})"
| reach_step: "srv_reachable c \<Longrightarrow> srv_step c c' \<Longrightarrow> srv_reachable c'"

lemma step_inv:
  assumes "srv_step (s, P) (s', P')" and inv: "srv_inv s" and refs: "refs_ok P s"
  shows "srv_inv s' \<and> refs_ok P' s'"
  using assms(1)
proof cases
  case step_put
  then show ?thesis using put_source_inv [OF inv] refs_same_ok refs by blast
next
  case (step_lookup cid)
  have "sv_creg s' = sv_creg s" using step_lookup by simp
  moreover have "srv_inv s'"
    unfolding step_lookup(1) using inv touch_srv_inv [OF inv] by (auto simp: tool_memory_lookup_locked_def split: option.splits)
  ultimately show ?thesis using refs step_lookup by (simp add: refs_ok_def)
next
  case (step_publish_serial a now proto calls gen frontier)
  then show ?thesis unfolding cont_registry_publish_serial_def
    using cont_registry_publish_inv_step [OF inv] publish_refs [OF inv] refs_same_ok refs by metis
next
  case (step_publish_bank a now proto calls bank gen frontier)
  then show ?thesis unfolding cont_registry_publish_bank_def
    using cont_registry_publish_inv_step [OF inv] publish_refs [OF inv] refs_same_ok refs inv by metis
next
  case step_demote_serial
  then show ?thesis
    using inv refs demote_inv [OF inv] refs_same_ok [OF refs_same_demotes [OF demotes_if [OF inv]] refs]
    by (auto simp: cont_registry_demote_serial_def split: option.splits)
next
  case (step_expire now)
  then show ?thesis using expire [OF inv, of now] refs_same_ok [OF refs_same_demotes refs] by blast
next
  case (step_pin now proto cid a)
  then show ?thesis using pin_live_inv [OF inv refs] by fastforce
next
  case (step_pin_fails now proto cid)
  then show ?thesis using pin_live_inv [OF inv refs] by fastforce
next
  case (step_unpin a)
  then show ?thesis using unpin_inv [OF inv] refs by blast
qed

lemma reachable_inv: "srv_reachable (s, P) \<Longrightarrow> srv_inv s \<and> refs_ok P s"
proof (induction "(s, P)" arbitrary: s P rule: srv_reachable.induct)
  case reach_start
  show ?case using start_inv by (simp add: refs_ok_def) (simp add: srv_start_def)
next
  case (reach_step c)
  then show ?case using step_inv by (metis surj_pair)
qed

end
