(* ===== verification/Cont_Admit.thy ===== *)
theory Cont_Admit
  imports Cont_Machine
begin

unbundle bit_operations_syntax

section \<open>Admission by the continuation registry\<close>

text \<open>
  The questions the server asks the registry when it admits a request: does the request continue the
  live turn of the serial session or of a bank, must other work wait for that turn, which banks may be
  reused, which ids are free, and which exact texts the memory has for the calls of a conversation.

  A query for a bank's live reference is a function pointer in the code and an argument here, with
  \<open>None\<close> for a query that cannot answer; \<open>cont_engine_bank_reference_query\<close> is the one that the server
  passes, over the per-bank tables of the batch context.
\<close>

record request =
  rq_api :: api_style
  rq_responses_live_call_ids :: "bytes list"
  rq_anthropic_live_call_ids :: "bytes list"
  rq_cont_pin :: "nat option"
  rq_live_state_bank_owned :: bool

definition request_acquire_cont_pin ::
  "rat \<Rightarrow> server \<Rightarrow> 'a request_scheme \<Rightarrow> 'a request_scheme \<times> server" where
  "request_acquire_cont_pin now s r =
     (if rq_cont_pin r \<noteq> None then (r, s)
      else case (case rq_api r of API_RESPONSES \<Rightarrow> rq_responses_live_call_ids r
                   | API_ANTHROPIC \<Rightarrow> rq_anthropic_live_call_ids r | API_OPENAI \<Rightarrow> []) of
             [] \<Rightarrow> (r, s)
           | cid # _ \<Rightarrow>
               (case cont_registry_pin_live now s (rq_api r) cid of
                  (None, s') \<Rightarrow> (r, s')
                | (Some a, s') \<Rightarrow>
                    (r\<lparr>rq_cont_pin := Some a,
                       rq_live_state_bank_owned := (case rg_heap (sv_creg s') a of
                          None \<Rightarrow> False | Some rec \<Rightarrow> cr_owner rec = CONT_OWNER_BATCH_BANK)\<rparr>, s')))"

text \<open>\<open>request_free\<close> gives the pin back.\<close>

definition request_release_cont_pin :: "server \<Rightarrow> 'a request_scheme \<Rightarrow> server" where
  "request_release_cont_pin s r = (case rq_cont_pin r of None \<Rightarrow> s | Some a \<Rightarrow> cont_registry_unpin s a)"

subsection \<open>The serial session\<close>

text \<open>The loop that looks every id of a request up in a record's list.\<close>

definition ids_contained :: "cont_record \<Rightarrow> bytes list \<Rightarrow> bool" where
  "ids_contained rec ids = list_all (id_list_contains (cr_call_ids rec)) ids"

definition request_continues :: "cont_record \<Rightarrow> 'a request_scheme \<Rightarrow> bool" where
  "request_continues rec req =
     (case cr_protocol rec of
        API_RESPONSES \<Rightarrow> (let ids = rq_responses_live_call_ids req
          in length ids = length (cr_call_ids rec) \<and> ids \<noteq> [] \<and> ids_contained rec ids)
      | API_ANTHROPIC \<Rightarrow> (let ids = rq_anthropic_live_call_ids req
          in length ids = length (cr_call_ids rec) \<and> ids \<noteq> [] \<and> ids_contained rec ids)
      | API_OPENAI \<Rightarrow> False)"

text \<open>\<open>(int)(left + 0.999)\<close> with the double next to 0.999, and never below 1.\<close>

definition retry_seconds :: "rat \<Rightarrow> int" where
  "retry_seconds left = (let x = d_add left (d_round (999 / 1000)); n = (if x < 0 then \<lceil>x\<rceil> else \<lfloor>x\<rfloor>) in if n < 1 then 1 else n)"

definition pin_holds :: "cont_registry \<Rightarrow> rat \<Rightarrow> cont_record \<Rightarrow> bool" where
  "pin_holds r now rec \<longleftrightarrow> cr_hard_refs rec > 0 \<and> rg_pin_deadline_s r > 0 \<and> now < cr_pin_expiry rec"

definition cont_registry_serial_hold ::
  "server \<Rightarrow> 'a request_scheme \<Rightarrow> rat \<Rightarrow> (bool \<times> int) \<times> server" where
  "cont_registry_serial_hold s0 req now =
     (let s = cont_registry_expire_locked s0 now; r = sv_creg s
      in case rg_serial_live r of
           None \<Rightarrow> ((False, 1), s)
         | Some a \<Rightarrow>
             (case rg_heap r a of
                None \<Rightarrow> ((False, 1), s)
              | Some rec \<Rightarrow>
                  if request_continues rec req then ((False, 1), s)
                  else let shed_w = (if rg_hold_shed_s r < rg_grace_s r then rg_hold_shed_s r else rg_grace_s r);
                           shed_left = (if shed_w > 0 then d_sub shed_w (d_sub now (cr_publish_time rec)) else 0);
                           pinned = pin_holds r now rec
                       in if shed_left \<le> 0 \<and> \<not> pinned then ((False, 1), s)
                          else let left = (if pinned \<and> d_sub (cr_pin_expiry rec) now > shed_left
                                           then d_sub (cr_pin_expiry rec) now else shed_left)
                               in ((True, retry_seconds left), s)))"

definition cont_registry_live_has_id :: "rat \<Rightarrow> server \<Rightarrow> api_style \<Rightarrow> bytes \<Rightarrow> bool \<times> server" where
  "cont_registry_live_has_id now s0 proto cid =
     (if cid = [] then (False, s0)
      else let s = cont_registry_expire_locked s0 now
        in (case cont_registry_find_locked (sv_creg s) proto cid of None \<Rightarrow> False | Some a \<Rightarrow> is_live (sv_creg s) a, s))"

definition cont_registry_resolve_serial :: "rat \<Rightarrow> server \<Rightarrow> api_style \<Rightarrow> bytes list \<Rightarrow> u64 \<Rightarrow> int \<Rightarrow> bool \<times> server" where
  "cont_registry_resolve_serial now s0 proto ids session_gen live_pos =
     (case ids of
        [] \<Rightarrow> (False, s0)
      | cid # _ \<Rightarrow>
          if session_gen = 0 then (False, s0)
          else let s = cont_registry_expire_locked s0 now
            in (case cont_registry_find_locked (sv_creg s) proto cid of
                  None \<Rightarrow> False
                | Some a \<Rightarrow>
                    (case rg_heap (sv_creg s) a of
                       None \<Rightarrow> False
                     | Some rec \<Rightarrow>
                         cr_state rec = CONT_REC_LIVE_FRONTIER \<and> cr_owner rec = CONT_OWNER_SERIAL_SESSION \<and>
                         cr_protocol rec = proto \<and> length (cr_call_ids rec) = length ids \<and>
                         cr_owner_gen rec = session_gen \<and> cr_frontier rec = live_pos \<and> ids_contained rec ids), s))"

definition cont_registry_bank_claim :: "rat \<Rightarrow> server \<Rightarrow> api_style \<Rightarrow> bytes list \<Rightarrow> (int \<times> u64 \<times> int) option \<times> server" where
  "cont_registry_bank_claim now s0 proto ids =
     (case ids of
        [] \<Rightarrow> (None, s0)
      | cid # _ \<Rightarrow>
          let s = cont_registry_expire_locked s0 now
          in (case cont_registry_find_locked (sv_creg s) proto cid of
                None \<Rightarrow> None
              | Some a \<Rightarrow>
                  (case rg_heap (sv_creg s) a of
                     None \<Rightarrow> None
                   | Some rec \<Rightarrow>
                       if cr_state rec = CONT_REC_LIVE_FRONTIER \<and> cr_owner rec = CONT_OWNER_BATCH_BANK \<and>
                          cr_protocol rec = proto \<and> length (cr_call_ids rec) = length ids \<and> ids_contained rec ids
                       then Some (cr_owner_id rec, cr_owner_gen rec, cr_frontier rec) else None), s))"

subsection \<open>The banks\<close>

definition cont_record_bank_reference_matches :: "cont_record \<Rightarrow> u64 \<Rightarrow> int \<Rightarrow> bool" where
  "cont_record_bank_reference_matches rec live_gen live_frontier \<longleftrightarrow>
     cr_state rec = CONT_REC_LIVE_FRONTIER \<and> cr_owner rec = CONT_OWNER_BATCH_BANK \<and> live_gen \<noteq> 0 \<and>
     live_frontier > 0 \<and> cr_owner_gen rec = live_gen \<and> cr_frontier rec = live_frontier"

type_synonym bank_query = "int \<Rightarrow> (u64 \<times> int) option"

record batch_ctx =
  bc_max_seq :: nat
  bc_bank_hist_valid :: "bool list"
  bc_bank_hist_len :: "nat list"
  bc_bank_gen :: "u64 list option"

definition ds4_batch_ctx_bank_committed :: "batch_ctx option \<Rightarrow> int \<Rightarrow> int" where
  "ds4_batch_ctx_bank_committed co bank =
     (case co of
        None \<Rightarrow> 0
      | Some c \<Rightarrow>
          if bank < 0 \<or> nat bank \<ge> bc_max_seq c then 0
          else if \<not> bc_bank_hist_valid c ! nat bank \<or> bc_bank_hist_len c ! nat bank = 0 then 0
          else int (bc_bank_hist_len c ! nat bank))"

definition ds4_batch_ctx_bank_generation :: "batch_ctx option \<Rightarrow> int \<Rightarrow> u64" where
  "ds4_batch_ctx_bank_generation co bank =
     (case co of
        None \<Rightarrow> 0
      | Some c \<Rightarrow>
          if bank < 0 \<or> nat bank \<ge> bc_max_seq c then 0
          else (case bc_bank_gen c of None \<Rightarrow> 0 | Some g \<Rightarrow> g ! nat bank))"

definition cont_engine_bank_reference_query :: "batch_ctx option \<Rightarrow> int \<Rightarrow> bank_query" where
  "cont_engine_bank_reference_query ctx max_seq bank =
     (if ctx = None \<or> bank < 0 \<or> bank \<ge> max_seq then None
      else Some (ds4_batch_ctx_bank_generation ctx bank, ds4_batch_ctx_bank_committed ctx bank))"

definition cont_record_bank_reference_is_current :: "cont_record \<Rightarrow> bank_query option \<Rightarrow> bool" where
  "cont_record_bank_reference_is_current rec query =
     (case query of
        None \<Rightarrow> False
      | Some q \<Rightarrow>
          (case q (cr_owner_id rec) of
             None \<Rightarrow> False
           | Some (gen, frontier) \<Rightarrow> cont_record_bank_reference_matches rec gen frontier))"

definition cont_record_bank_protects :: "cont_registry \<Rightarrow> cont_record \<Rightarrow> rat \<Rightarrow> bank_query option \<Rightarrow> bool" where
  "cont_record_bank_protects r rec now query =
     (if cr_owner rec \<noteq> CONT_OWNER_BATCH_BANK \<or> cr_state rec \<noteq> CONT_REC_LIVE_FRONTIER then False
      else if (case query of
                 None \<Rightarrow> False
               | Some q \<Rightarrow> (case q (cr_owner_id rec) of
                   None \<Rightarrow> False | Some (gen, frontier) \<Rightarrow> \<not> cont_record_bank_reference_matches rec gen frontier))
      then False
      else (rg_grace_s r > 0 \<and> d_sub now (cr_publish_time rec) < rg_grace_s r) \<or> pin_holds r now rec)"

text \<open>The records in the order of the walks; every address of the order is allocated.\<close>

definition ordered_records :: "cont_registry \<Rightarrow> cont_record list" where
  "ordered_records r = List.map_filter (rg_heap r) (rg_order r)"

definition cont_registry_bank_protected_with_query :: "server \<Rightarrow> int \<Rightarrow> rat \<Rightarrow> bank_query option \<Rightarrow> bool" where
  "cont_registry_bank_protected_with_query s bank now query \<longleftrightarrow>
     0 \<le> bank \<and> list_ex (\<lambda>rec. cr_owner_id rec = bank \<and> cont_record_bank_protects (sv_creg s) rec now query) (ordered_records (sv_creg s))"

definition cont_registry_bank_protected :: "batch_ctx option \<Rightarrow> int \<Rightarrow> server \<Rightarrow> int \<Rightarrow> rat \<Rightarrow> bool" where
  "cont_registry_bank_protected ctx max_seq s bank now =
     cont_registry_bank_protected_with_query s bank now (Some (cont_engine_bank_reference_query ctx max_seq))"

text \<open>
  The bytes that were freed, and whether a protected bank stopped the reclaim. The reclaim changes a
  state of its own, which the callback maps to the next one.
\<close>

definition cont_registry_reclaim_unprotected_with_query ::
  "server \<Rightarrow> rat \<Rightarrow> bank_query option \<Rightarrow> ('b \<Rightarrow> u64 \<Rightarrow> u64 \<times> 'b) option \<Rightarrow> 'b \<Rightarrow> (u64 \<times> bool) \<times> 'b" where
  "cont_registry_reclaim_unprotected_with_query s now query reclaim banks =
     (case (query, reclaim) of
        (Some q, Some f) \<Rightarrow>
          if list_ex (\<lambda>rec. cont_record_bank_protects (sv_creg s) rec now query) (ordered_records (sv_creg s))
          then ((0, True), banks)
          else (let (freed, banks') = f banks u64_max in ((freed, False), banks'))
      | _ \<Rightarrow> ((0, False), banks))"

definition bank_left :: "cont_registry \<Rightarrow> rat \<Rightarrow> cont_record \<Rightarrow> rat" where
  "bank_left r now rec =
     (let grace_left = (if rg_grace_s r > 0 then d_sub (rg_grace_s r) (d_sub now (cr_publish_time rec)) else 0);
          pin_left = (if pin_holds r now rec then d_sub (cr_pin_expiry rec) now else 0)
      in if grace_left > pin_left then grace_left else pin_left)"

definition cont_registry_bank_hold_retry_with_query :: "server \<Rightarrow> rat \<Rightarrow> bank_query option \<Rightarrow> int" where
  "cont_registry_bank_hold_retry_with_query s now query =
     (let r = sv_creg s;
          left_min = foldl (\<lambda>left_min rec.
            if cont_record_bank_protects r rec now query
            then (let left = bank_left r now rec in if left > 0 \<and> (left_min < 0 \<or> left < left_min) then left else left_min)
            else left_min) (- 1) (ordered_records r)
      in if left_min \<le> 0 then 1 else retry_seconds left_min)"

definition cont_registry_bank_hold_retry :: "batch_ctx option \<Rightarrow> int \<Rightarrow> server \<Rightarrow> rat \<Rightarrow> int" where
  "cont_registry_bank_hold_retry ctx max_seq s now =
     cont_registry_bank_hold_retry_with_query s now (Some (cont_engine_bank_reference_query ctx max_seq))"

subsection \<open>Ids\<close>

definition cont_registry_id_known :: "server \<Rightarrow> bytes \<Rightarrow> bool" where
  "cont_registry_id_known s cid \<longleftrightarrow> cid \<noteq> [] \<and>
     list_ex (\<lambda>p. cont_registry_find_locked (sv_creg s) p cid \<noteq> None) [API_OPENAI, API_ANTHROPIC, API_RESPONSES]"

definition tool_id_in_use :: "server \<Rightarrow> bytes \<Rightarrow> bool" where
  "tool_id_in_use s cid \<longleftrightarrow> tool_memory_has_id s cid \<or> cont_registry_id_known s cid"

definition hex_digit :: "u8 \<Rightarrow> u8" where
  "hex_digit n = (if n < 10 then 48 + n else 87 + n)"

text \<open>An id from sixteen random bytes; the buffer of 64 bytes has room for all of it.\<close>

definition random_tool_id :: "api_style \<Rightarrow> bytes \<Rightarrow> bytes" where
  "random_tool_id api rnd =
     (if api = API_ANTHROPIC then [116, 111, 111, 108, 117, 95] else [99, 97, 108, 108, 95]) @
     concat (map (\<lambda>b. [hex_digit (drop_bit 4 b), hex_digit (b AND 15)]) rnd)"

definition tool_calls_contains_id :: "bytes list \<Rightarrow> bytes \<Rightarrow> int \<Rightarrow> bool" where
  "tool_calls_contains_id ids cid limit =
     (if cid = [] then False
      else cid \<in> set (take (nat (if limit > int (length ids) then int (length ids) else limit)) ids))"

text \<open>The mint loop over a source of random bytes, from its \<open>n\<close>-th value on. It may run forever.\<close>

partial_function (option) mint_tool_id :: "(bytes \<Rightarrow> bool) \<Rightarrow> api_style \<Rightarrow> (nat \<Rightarrow> bytes) \<Rightarrow> nat \<Rightarrow> (bytes \<times> nat) option" where
  "mint_tool_id taken api rnd n =
     (let cid = random_tool_id api (rnd n)
      in if taken cid then mint_tool_id taken api rnd (Suc n) else Some (cid, Suc n))"

text \<open>\<open>assign_tool_call_ids\<close>, from call \<open>i\<close> on; \<open>k\<close> calls are left.\<close>

fun assign_from :: "server \<Rightarrow> api_style \<Rightarrow> (nat \<Rightarrow> bytes) \<Rightarrow> nat \<Rightarrow> nat \<Rightarrow> bytes list \<Rightarrow> nat \<Rightarrow> (bytes list \<times> nat) option" where
  "assign_from s api rnd i 0 ids n = Some (ids, n)"
| "assign_from s api rnd i (Suc k) ids n =
     (if ids ! i \<noteq> [] then assign_from s api rnd (Suc i) k ids n
      else case mint_tool_id (\<lambda>cid. tool_calls_contains_id ids cid (int i) \<or> tool_id_in_use s cid) api rnd n of
             None \<Rightarrow> None
           | Some (cid, n') \<Rightarrow> assign_from s api rnd (Suc i) k (ids[i := cid]) n')"

definition assign_tool_call_ids :: "server \<Rightarrow> tool_calls \<Rightarrow> api_style \<Rightarrow> (nat \<Rightarrow> bytes) \<Rightarrow> nat \<Rightarrow> (tool_calls \<times> nat) option" where
  "assign_tool_call_ids s calls api rnd n =
     map_option (\<lambda>(ids, n'). (calls\<lparr>tc_ids := ids\<rparr>, n')) (assign_from s api rnd 0 (length (tc_ids calls)) (tc_ids calls) n)"

subsection \<open>Keys, lists of ids and times\<close>

lemma cont_registry_key_eq_iff:
  "cont_registry_key p c = cont_registry_key q d \<longleftrightarrow> p = q \<and> take 94 c = take 94 d"
  by (cases p; cases q) (auto simp: cont_registry_key_def api_code_def Let_def)

lemma find_record:
  assumes inv: "srv_inv s" and find: "cont_registry_find_locked (sv_creg s) proto cid = Some a"
  obtains rec c where "rg_heap (sv_creg s) a = Some rec" and "cr_protocol rec = proto" and "c \<in> set (cr_call_ids rec)"
    and "take 94 c = take 94 cid"
proof -
  have "rg_ready (sv_creg s)" "rg_by_call_id (sv_creg s) (cont_registry_key proto cid) = Some a"
    using find by (auto simp: cont_registry_find_locked_def split: if_splits)
  then obtain rec where "rg_heap (sv_creg s) a = Some rec"
      "cont_registry_key proto cid \<in> cont_registry_key (cr_protocol rec) ` set (cr_call_ids rec)"
    using reg_invD(7) [OF srv_invD(3) [OF inv]] unfolding index_ok_def by blast
  then show thesis using that by (auto simp: cont_registry_key_eq_iff)
qed

lemma ids_contained_set:
  assumes "rec_ok rec" and "distinct ids"
  shows "length (cr_call_ids rec) = length ids \<and> ids_contained rec ids \<longleftrightarrow> set ids = set (cr_call_ids rec)"
proof -
  have d: "distinct (cr_call_ids rec)" "[] \<notin> set (cr_call_ids rec)" using assms(1) by (simp_all add: rec_ok_def)
  have sub: "ids_contained rec ids \<longleftrightarrow> set ids \<subseteq> set (cr_call_ids rec)"
    using d(2) by (auto simp: ids_contained_def list_all_iff id_list_contains_def)
  have "length ids = card (set ids)" "length (cr_call_ids rec) = card (set (cr_call_ids rec))"
    using assms(2) d(1) by (simp_all add: distinct_card)
  then show ?thesis unfolding sub using card_subset_eq [of "set (cr_call_ids rec)" "set ids"] by auto
qed

lemma d_round_minus: "d_round (- x) = - d_round x"
  by (simp add: d_round_def Let_def)

lemma d_sub_pos_iff: "0 < d_sub x y \<longleftrightarrow> y < x"
proof -
  have "0 < d_round (x - y)" if "y < x" using that by (intro d_round_positive) simp
  moreover have "d_round (x - y) \<le> 0" if "\<not> y < x"
    using that d_round_nonneg [of "y - x"] d_round_minus [of "y - x"] by simp
  ultimately show ?thesis unfolding d_sub_def by fastforce
qed

lemma retry_at_least_one: "1 \<le> retry_seconds left"
  by (simp add: retry_seconds_def Let_def)

subsection \<open>After the expiry\<close>

lemma expire_find:
  assumes "srv_inv s"
  shows "cont_registry_find_locked (sv_creg (cont_registry_expire_locked s now)) = cont_registry_find_locked (sv_creg s)"
  using demotesD(3,4) [OF expire(2) [OF assms, of now]] by (auto simp: fun_eq_iff cont_registry_find_locked_def)

lemma expire_live:
  assumes "srv_inv s"
  shows "rg_heap (sv_creg (cont_registry_expire_locked s now)) a = Some rec \<and> cr_state rec = CONT_REC_LIVE_FRONTIER \<longleftrightarrow>
    rg_heap (sv_creg s) a = Some rec \<and> cr_state rec = CONT_REC_LIVE_FRONTIER \<and> \<not> rec_expired s now a"
  using demotesD(1) [OF expire(2) [OF assms, of now], of a] by auto

lemma serial_live_iff:
  assumes "srv_inv s"
  shows "rg_serial_live (sv_creg s) = Some a \<longleftrightarrow> (\<exists>rec. rg_heap (sv_creg s) a = Some rec \<and> cr_state rec = CONT_REC_LIVE_FRONTIER \<and>
    cr_owner rec = CONT_OWNER_SERIAL_SESSION)"
  using reg_invD(8) [OF srv_invD(3) [OF assms]] by (simp add: owners_ok_def)

lemma serial_live_rec:
  assumes "srv_inv s"
  shows "rg_serial_live (sv_creg s) = Some a \<and> rg_heap (sv_creg s) a = Some rec \<longleftrightarrow>
    rg_heap (sv_creg s) a = Some rec \<and> cr_state rec = CONT_REC_LIVE_FRONTIER \<and> cr_owner rec = CONT_OWNER_SERIAL_SESSION"
  using serial_live_iff [OF assms, of a] by auto

subsection \<open>Resolution\<close>

lemma resolve_serial_inv:
  assumes inv: "srv_inv s" and dist: "distinct ids"
  shows "fst (cont_registry_resolve_serial now s proto ids gen pos) \<longleftrightarrow>
    (\<exists>a rec cid rest. ids = cid # rest \<and> cont_registry_find_locked (sv_creg s) proto cid = Some a \<and>
       rg_heap (sv_creg s) a = Some rec \<and> cr_state rec = CONT_REC_LIVE_FRONTIER \<and> \<not> rec_expired s now a \<and>
       cr_owner rec = CONT_OWNER_SERIAL_SESSION \<and> cr_protocol rec = proto \<and> set ids = set (cr_call_ids rec) \<and>
       cr_owner_gen rec = gen \<and> cr_frontier rec = pos)"
proof (cases ids)
  case (Cons cid rest)
  define s1 where "s1 = cont_registry_expire_locked s now"
  have ok: "rec_ok rec" if "rg_heap (sv_creg s1) a = Some rec" for a rec
    using reg_invD(6) [OF srv_invD(3) [OF expire(1) [OF inv, of now]]] that unfolding s1_def .
  have ids: "length (cr_call_ids rec) = length ids \<and> ids_contained rec ids \<longleftrightarrow> set ids = set (cr_call_ids rec)"
    if "rg_heap (sv_creg s1) a = Some rec" for a rec using ids_contained_set [OF ok [OF that] dist] .
  have "fst (cont_registry_resolve_serial now s proto ids gen pos) \<longleftrightarrow> gen \<noteq> 0 \<and>
      (\<exists>a rec. cont_registry_find_locked (sv_creg s1) proto cid = Some a \<and> rg_heap (sv_creg s1) a = Some rec \<and>
        cr_state rec = CONT_REC_LIVE_FRONTIER \<and> cr_owner rec = CONT_OWNER_SERIAL_SESSION \<and> cr_protocol rec = proto \<and>
        (length (cr_call_ids rec) = length ids \<and> ids_contained rec ids) \<and> cr_owner_gen rec = gen \<and> cr_frontier rec = pos)"
    unfolding Cons cont_registry_resolve_serial_def s1_def by (auto simp: Let_def split: option.splits)
  also have "\<dots> \<longleftrightarrow> (\<exists>a rec. cont_registry_find_locked (sv_creg s) proto cid = Some a \<and>
        (rg_heap (sv_creg s1) a = Some rec \<and> cr_state rec = CONT_REC_LIVE_FRONTIER) \<and> cr_owner rec = CONT_OWNER_SERIAL_SESSION \<and>
        cr_protocol rec = proto \<and> set ids = set (cr_call_ids rec) \<and> cr_owner_gen rec = gen \<and> cr_frontier rec = pos)"
    using ids ok unfolding s1_def expire_find [OF inv] rec_ok_def by blast
  finally show ?thesis unfolding s1_def expire_live [OF inv] using Cons by blast
qed (simp add: cont_registry_resolve_serial_def)

text \<open>
  The serial resolution is exact. In every reachable state, a request with distinct ids resolves
  if and only if there is a live record of the serial session that has not outlived the retention,
  that the first id leads to, of the same protocol, with exactly the request's ids, and with the
  session's generation and committed length: equal length after a rebuild is not enough.
\<close>

theorem cont_registry_resolve_serial_exact:
  assumes "srv_reachable (s, P)" and "distinct ids"
  shows "fst (cont_registry_resolve_serial now s proto ids gen pos) \<longleftrightarrow>
    (\<exists>a rec. rg_serial_live (sv_creg s) = Some a \<and> rg_heap (sv_creg s) a = Some rec \<and> \<not> rec_expired s now a \<and>
       ids \<noteq> [] \<and> cont_registry_find_locked (sv_creg s) proto (hd ids) = Some a \<and> cr_protocol rec = proto \<and>
       set ids = set (cr_call_ids rec) \<and> gen = cr_owner_gen rec \<and> pos = cr_frontier rec)"
proof -
  have inv: "srv_inv s" using reachable_inv assms(1) by blast
  show ?thesis unfolding resolve_serial_inv [OF inv assms(2)]
    using serial_live_rec [OF inv] by (cases ids; simp; blast)
qed

lemma publish_serial_resolve:
  assumes reach: "srv_reachable (s, P)" and fresh: "rg_heap (sv_creg s) a = None"
    and calls: "calls_id_list (tc_ids calls) \<noteq> []" and gen: "gen \<noteq> 0" and fr: "0 < frontier"
    and s': "s' = cont_registry_publish_serial a now s proto calls gen frontier" and dist: "distinct ids"
    and time: "rg_ttl_s (sv_creg s) \<le> 0 \<or> d_sub now' now \<le> rg_ttl_s (sv_creg s)"
  shows "fst (cont_registry_resolve_serial now' s' proto' ids gen' pos') \<longleftrightarrow>
    proto' = proto \<and> set ids = set (tc_ids calls) - {[]} \<and> gen' = gen \<and> pos' = frontier"
proof -
  have inv: "srv_inv s" using reachable_inv reach by blast
  define rec where "rec = new_record now proto calls CONT_OWNER_SERIAL_SESSION 0 gen frontier"
  have pub: "s' = cont_registry_publish a now s proto calls CONT_OWNER_SERIAL_SESSION 0 gen frontier"
    using s' by (simp add: cont_registry_publish_serial_def)
  note E = publish_effect [OF inv fresh calls gen fr pub, folded rec_def]
  have inv': "srv_inv s'" unfolding pub by (rule cont_registry_publish_inv_step [OF inv fresh])
  have rec: "cr_call_ids rec = calls_id_list (tc_ids calls)" "cr_protocol rec = proto" "cr_owner_gen rec = gen" "cr_frontier rec = frontier"
    "cr_owner rec = CONT_OWNER_SERIAL_SESSION" "cr_state rec = CONT_REC_LIVE_FRONTIER" "cr_publish_time rec = now"
    by (simp_all add: rec_def new_record_def)
  have only: "b = a" if "rg_heap (sv_creg s') b = Some rc" "cr_state rc = CONT_REC_LIVE_FRONTIER" "cr_owner rc = CONT_OWNER_SERIAL_SESSION" for b rc
    using that E(3) [of b] by (simp add: owner_live_def)
  have ttl: "rg_ttl_s (sv_creg s') = rg_ttl_s (sv_creg s)" using E(6) by (simp add: same_policy_def)
  have fresh': "\<not> rec_expired s' now' a" using time by (auto simp: rec_expired_def ttl E(1) rec(7))
  have ne: "ids \<noteq> []" if "set ids = set (tc_ids calls) - {[]}"
  proof
    assume "ids = []"
    then have "set (calls_id_list (tc_ids calls)) = {}" unfolding calls_id_list_props(2) that [symmetric] by simp
    then show False using calls by simp
  qed
  have found: "cont_registry_find_locked (sv_creg s') proto cid = Some a" if "cid \<in> set (tc_ids calls) - {[]}" for cid
    using that E(2) by simp
  have set: "set (cr_call_ids rec) = set (tc_ids calls) - {[]}" by (simp add: rec(1) calls_id_list_props(2))
  show ?thesis
    unfolding resolve_serial_inv [OF inv' dist]
  proof (intro iffI; (elim exE conjE)?)
    fix b rc cid rest
    assume rc: "rg_heap (sv_creg s') b = Some rc" "cr_state rc = CONT_REC_LIVE_FRONTIER" "cr_owner rc = CONT_OWNER_SERIAL_SESSION"
      and eq: "cr_protocol rc = proto'" "set ids = set (cr_call_ids rc)" "cr_owner_gen rc = gen'" "cr_frontier rc = pos'"
    have "rc = rec" using rc(1) only [OF rc] E(1) by simp
    then show "proto' = proto \<and> set ids = set (tc_ids calls) - {[]} \<and> gen' = gen \<and> pos' = frontier"
      using eq rec set by simp
  next
    assume eq: "proto' = proto" "set ids = set (tc_ids calls) - {[]}" "gen' = gen" "pos' = frontier"
    obtain cid rest where ids: "ids = cid # rest" using ne [OF eq(2)] by (cases ids) auto
    then have "cid \<in> set (tc_ids calls) - {[]}" unfolding eq(2) [symmetric] by simp
    then have "cont_registry_find_locked (sv_creg s') proto' cid = Some a" using found eq(1) by simp
    then show "\<exists>b rc cid rest. ids = cid # rest \<and> cont_registry_find_locked (sv_creg s') proto' cid = Some b \<and>
       rg_heap (sv_creg s') b = Some rc \<and> cr_state rc = CONT_REC_LIVE_FRONTIER \<and> \<not> rec_expired s' now' b \<and>
       cr_owner rc = CONT_OWNER_SERIAL_SESSION \<and> cr_protocol rc = proto' \<and> set ids = set (cr_call_ids rc) \<and>
       cr_owner_gen rc = gen' \<and> cr_frontier rc = pos'"
      using ids E(1) rec set eq fresh' by blast
  qed
qed

text \<open>
  C4. A published turn is found again and nothing else is. After a publication for the serial
  session, and while the retention lasts, a request with distinct ids resolves exactly when it has
  the ids of the published calls and the session is still at the published generation and length.
\<close>

theorem publish_serial_resolves:
  assumes reach: "srv_reachable (s, P)" and fresh: "rg_heap (sv_creg s) a = None"
    and calls: "calls_id_list (tc_ids calls) \<noteq> []" and gen: "gen \<noteq> 0" and fr: "0 < frontier"
    and s': "s' = cont_registry_publish_serial a now s proto calls gen frontier" and dist: "distinct ids"
    and time: "rg_ttl_s (sv_creg s) \<le> 0 \<or> d_sub now' now \<le> rg_ttl_s (sv_creg s)"
  shows "fst (cont_registry_resolve_serial now' s' proto' ids gen' pos') \<longleftrightarrow>
    proto' = proto \<and> set ids = set (tc_ids calls) - {[]} \<and> gen' = gen \<and> pos' = frontier"
  by (rule publish_serial_resolve [OF assms])

text \<open>
  An id leads to a record of its own protocol that has the id. In every reachable state what the
  index returns is an allocated record of the protocol that was asked, and an id of fewer than 94
  bytes is one of the record's ids; longer ids are compared by their first 94 bytes.
\<close>

theorem cont_registry_find_scoped:
  assumes "srv_reachable (s, P)" and "cont_registry_find_locked (sv_creg s) proto cid = Some a"
  shows "\<exists>rec. rg_heap (sv_creg s) a = Some rec \<and> cr_protocol rec = proto \<and> (length cid < 94 \<longrightarrow> cid \<in> set (cr_call_ids rec)) \<and>
    take 94 cid \<in> take 94 ` set (cr_call_ids rec)"
proof -
  have "srv_inv s" using reachable_inv assms(1) by blast
  then obtain rec c where rec: "rg_heap (sv_creg s) a = Some rec" "cr_protocol rec = proto" "c \<in> set (cr_call_ids rec)"
    "take 94 c = take 94 cid" using find_record assms(2) by metis
  have "cid = c" if "length cid < 94"
  proof -
    have c: "take 94 c = cid" using that rec(4) by simp
    then have "length c < 94" using that by (cases "length c < 94") (auto simp: min_def split: if_splits)
    then show ?thesis using c by simp
  qed
  moreover have "take 94 cid \<in> take 94 ` set (cr_call_ids rec)" using rec(3,4) by (metis imageI)
  ultimately show ?thesis using rec by blast
qed

text \<open>
  C3. Every pointer to a record is valid. In every reachable state, whatever the caps have evicted:
  the record of every pin that a request still holds is allocated and counts exactly the pins held
  on it, \<open>serial_live\<close> and every entry of the tool memory point at allocated records, and no address
  that is not allocated is listed.
\<close>

theorem registry_pointers_valid:
  assumes "srv_reachable (s, P)"
  shows "(\<forall>a \<in># P. \<exists>rec. rg_heap (sv_creg s) a = Some rec \<and> cr_hard_refs rec = int (count P a)) \<and>
    (\<forall>a. rg_serial_live (sv_creg s) = Some a \<longrightarrow> rg_heap (sv_creg s) a \<noteq> None) \<and>
    (\<forall>cid e a. tm_by_id (sv_tool_mem s) cid = Some e \<and> te_rec e = Some a \<longrightarrow> rg_heap (sv_creg s) a \<noteq> None) \<and>
    set (rg_order (sv_creg s)) = dom (rg_heap (sv_creg s))"
proof (intro conjI ballI allI impI)
  have inv: "srv_inv s" and refs: "refs_ok P s" using reachable_inv assms by blast+
  show "\<exists>rec. rg_heap (sv_creg s) a = Some rec \<and> cr_hard_refs rec = int (count P a)" if "a \<in># P" for a
    using refs [unfolded refs_ok_def, rule_format, of a] that by (cases "rg_heap (sv_creg s) a") (auto simp: count_eq_zero_iff)
  show "rg_heap (sv_creg s) a \<noteq> None" if "rg_serial_live (sv_creg s) = Some a" for a using that serial_live_iff [OF inv] by auto
  show "rg_heap (sv_creg s) a \<noteq> None" if "tm_by_id (sv_tool_mem s) cid = Some e \<and> te_rec e = Some a" for cid e a
    using that srv_invD(4) [OF inv] by (fastforce simp: backrefs_ok_def)
  show "set (rg_order (sv_creg s)) = dom (rg_heap (sv_creg s))" by (rule reg_invD(2) [OF srv_invD(3) [OF inv]])
qed

subsection \<open>Holding the serial session\<close>

text \<open>
  Who waits for the serial session. In every reachable state a request is held back exactly when
  the session has a live record that has not outlived the retention, the request does not continue
  it, and either the record is younger than the smaller of the shed window and the grace period or a
  pin of a queued continuation is still in force. The retry time is at least one second.
\<close>

theorem cont_registry_serial_hold_iff:
  assumes "srv_reachable (s, P)"
  shows "(fst (fst (cont_registry_serial_hold s req now)) \<longleftrightarrow>
    (\<exists>a rec. rg_serial_live (sv_creg s) = Some a \<and> rg_heap (sv_creg s) a = Some rec \<and> \<not> rec_expired s now a \<and>
       \<not> request_continues rec req \<and>
       (d_sub now (cr_publish_time rec) < min (rg_hold_shed_s (sv_creg s)) (rg_grace_s (sv_creg s)) \<and>
          0 < min (rg_hold_shed_s (sv_creg s)) (rg_grace_s (sv_creg s)) \<or> pin_holds (sv_creg s) now rec))) \<and>
    1 \<le> snd (fst (cont_registry_serial_hold s req now))"
proof -
  have inv: "srv_inv s" using reachable_inv assms by blast
  define s1 where "s1 = cont_registry_expire_locked s now"
  define w where "w = min (rg_hold_shed_s (sv_creg s)) (rg_grace_s (sv_creg s))"
  have inv1: "srv_inv s1" unfolding s1_def by (rule expire(1) [OF inv])
  have pol: "same_policy (sv_creg s) (sv_creg s1)" unfolding s1_def by (rule demotesD(6) [OF expire(2) [OF inv]])
  have w1: "(if rg_hold_shed_s (sv_creg s1) < rg_grace_s (sv_creg s1) then rg_hold_shed_s (sv_creg s1) else rg_grace_s (sv_creg s1)) = w"
    using pol by (simp add: w_def same_policy_def min_def)
  have pin: "pin_holds (sv_creg s1) now rec = pin_holds (sv_creg s) now rec" for rec using pol by (simp add: pin_holds_def same_policy_def)
  have left: "(if 0 < w then d_sub w x else 0) \<le> 0 \<longleftrightarrow> \<not> (x < w \<and> 0 < w)" for x using d_sub_pos_iff [of w x] by auto
  have "fst (fst (cont_registry_serial_hold s req now)) \<longleftrightarrow>
      (\<exists>a rec. rg_serial_live (sv_creg s1) = Some a \<and> rg_heap (sv_creg s1) a = Some rec \<and> \<not> request_continues rec req \<and>
         (d_sub now (cr_publish_time rec) < w \<and> 0 < w \<or> pin_holds (sv_creg s) now rec))"
    unfolding cont_registry_serial_hold_def s1_def [symmetric] Let_def w1 left pin by (simp split: option.splits)
  also have "\<dots> \<longleftrightarrow> (\<exists>a rec. (rg_heap (sv_creg s1) a = Some rec \<and> cr_state rec = CONT_REC_LIVE_FRONTIER) \<and>
        cr_owner rec = CONT_OWNER_SERIAL_SESSION \<and> \<not> request_continues rec req \<and>
         (d_sub now (cr_publish_time rec) < w \<and> 0 < w \<or> pin_holds (sv_creg s) now rec))"
    using serial_live_rec [OF inv1] by blast
  also have "\<dots> \<longleftrightarrow> (\<exists>a rec. rg_serial_live (sv_creg s) = Some a \<and> rg_heap (sv_creg s) a = Some rec \<and> \<not> rec_expired s now a \<and>
       \<not> request_continues rec req \<and> (d_sub now (cr_publish_time rec) < w \<and> 0 < w \<or> pin_holds (sv_creg s) now rec))"
    unfolding s1_def expire_live [OF inv] using serial_live_rec [OF inv] by blast
  finally have "fst (fst (cont_registry_serial_hold s req now)) \<longleftrightarrow> \<dots>" .
  moreover have "1 \<le> snd (fst (cont_registry_serial_hold s req now))"
    unfolding cont_registry_serial_hold_def Let_def by (simp add: retry_at_least_one split: option.splits)
  ultimately show ?thesis unfolding w_def by blast
qed

subsection \<open>Banks\<close>

lemma set_ordered_records:
  assumes "srv_inv s"
  shows "set (ordered_records (sv_creg s)) = ran (rg_heap (sv_creg s))"
proof -
  have "rec \<in> set (List.map_filter h xs) \<longleftrightarrow> (\<exists>a \<in> set xs. h a = Some rec)" for h :: "nat \<rightharpoonup> cont_record" and rec xs
    by (induction xs) (auto simp: List.map_filter_simps split: option.splits)
  then have "rec \<in> set (ordered_records (sv_creg s)) \<longleftrightarrow> (\<exists>a. rg_heap (sv_creg s) a = Some rec)" for rec
    using reg_invD(2) [OF srv_invD(3) [OF assms]] unfolding ordered_records_def by (metis domI)
  then show ?thesis by (auto simp: ran_def)
qed

text \<open>Which banks a query lets the record of a publication protect: the reference is current or unknown.\<close>

lemma new_record_protects:
  assumes "gen \<noteq> 0" "0 < frontier"
  shows "cont_record_bank_protects r (new_record now proto calls CONT_OWNER_BATCH_BANK bank gen frontier) now' (Some q) \<longleftrightarrow>
    0 < rg_grace_s r \<and> d_sub now' now < rg_grace_s r \<and> (q bank = None \<or> q bank = Some (gen, frontier))"
  using assms by (auto simp: cont_record_bank_protects_def new_record_def cont_record_bank_reference_matches_def pin_holds_def
      split: option.splits)

text \<open>
  C34. A published turn protects its bank, for the grace period and as long as the bank is where the turn
  left it. In every reachable state, after a turn was published for a bank, that bank is
  protected exactly while the grace period has not passed since the publication and the query does not answer
  with another generation or another length of the bank; what was published for the bank before does not
  count. While it is protected the emergency reclaim is not called: every bank stays as it is and the
  caller is told. If the turn's record is the only live one of a bank, the reclaim runs as soon as the
  protection is over.
\<close>

theorem published_bank_protected:
  assumes reach: "srv_reachable (s, P)" and fresh: "rg_heap (sv_creg s) a = None"
    and calls: "calls_id_list (tc_ids calls) \<noteq> []" and gen: "gen \<noteq> 0" and fr: "0 < frontier" and bank: "0 \<le> bank"
    and s': "s' = cont_registry_publish_bank a now s proto calls bank gen frontier"
    and guard: "guard \<longleftrightarrow> 0 < rg_grace_s (sv_creg s) \<and> d_sub now' now < rg_grace_s (sv_creg s) \<and>
      (q bank = None \<or> q bank = Some (gen, frontier))"
  shows "(cont_registry_bank_protected_with_query s' bank now' (Some q) \<longleftrightarrow> guard) \<and>
    (guard \<longrightarrow> cont_registry_reclaim_unprotected_with_query s' now' (Some q) (Some f) banks = ((0, True), banks)) \<and>
    (\<not> guard \<and> (\<forall>b rec. rg_heap (sv_creg s') b = Some rec \<and> cr_state rec = CONT_REC_LIVE_FRONTIER \<and> cr_owner rec = CONT_OWNER_BATCH_BANK \<longrightarrow> b = a) \<longrightarrow>
      cont_registry_reclaim_unprotected_with_query s' now' (Some q) (Some f) banks =
        ((fst (f banks u64_max), False), snd (f banks u64_max)))"
proof -
  have inv: "srv_inv s" using reachable_inv reach by blast
  define rec where "rec = new_record now proto calls CONT_OWNER_BATCH_BANK bank gen frontier"
  have pub: "s' = cont_registry_publish a now s proto calls CONT_OWNER_BATCH_BANK bank gen frontier"
    using s' bank by (simp add: cont_registry_publish_bank_def)
  note E = publish_effect [OF inv fresh calls gen fr pub, folded rec_def]
  have inv': "srv_inv s'" unfolding pub by (rule cont_registry_publish_inv_step [OF inv fresh])
  have grace: "rg_grace_s (sv_creg s') = rg_grace_s (sv_creg s)" using E(6) by (simp add: same_policy_def)
  have prot: "cont_record_bank_protects (sv_creg s') rec now' (Some q) \<longleftrightarrow> guard"
    unfolding rec_def new_record_protects [OF gen fr] grace guard ..
  have rec: "rec \<in> set (ordered_records (sv_creg s'))" "cr_owner_id rec = bank"
    using E(1) by (auto simp: set_ordered_records [OF inv'] ran_def rec_def new_record_def)
  have live: "cr_state rc = CONT_REC_LIVE_FRONTIER \<and> cr_owner rc = CONT_OWNER_BATCH_BANK"
    if "cont_record_bank_protects (sv_creg s') rc now' (Some q)" for rc
    using that by (auto simp: cont_record_bank_protects_def split: if_splits)
  have only: "rc = rec" if rc: "rc \<in> set (ordered_records (sv_creg s'))" "cr_owner_id rc = bank"
      "cont_record_bank_protects (sv_creg s') rc now' (Some q)" for rc
  proof -
    obtain b where b: "rg_heap (sv_creg s') b = Some rc" using rc(1) by (auto simp: set_ordered_records [OF inv'] ran_def)
    then have "owner_live (sv_creg s') CONT_OWNER_BATCH_BANK bank b" using live [OF rc(3)] rc(2) by (simp add: owner_live_def)
    then have "b = a" by (rule E(3))
    then show "rc = rec" using b E(1) by simp
  qed
  have "cont_registry_bank_protected_with_query s' bank now' (Some q) \<longleftrightarrow> guard"
  proof
    assume "cont_registry_bank_protected_with_query s' bank now' (Some q)"
    then obtain rc where rc: "rc \<in> set (ordered_records (sv_creg s'))" "cr_owner_id rc = bank"
        "cont_record_bank_protects (sv_creg s') rc now' (Some q)"
      by (auto simp: cont_registry_bank_protected_with_query_def list_ex_iff)
    then show guard using only [OF rc] prot by simp
  next
    assume guard
    then have "cont_record_bank_protects (sv_creg s') rec now' (Some q)" using prot by simp
    then show "cont_registry_bank_protected_with_query s' bank now' (Some q)"
      unfolding cont_registry_bank_protected_with_query_def list_ex_iff using rec bank by blast
  qed
  moreover have "guard \<Longrightarrow> list_ex (\<lambda>rec. cont_record_bank_protects (sv_creg s') rec now' (Some q)) (ordered_records (sv_creg s'))"
    using rec(1) prot by (auto simp: list_ex_iff)
  moreover have "\<not> list_ex (\<lambda>rec. cont_record_bank_protects (sv_creg s') rec now' (Some q)) (ordered_records (sv_creg s'))"
    if "\<not> guard" "\<forall>b rec. rg_heap (sv_creg s') b = Some rec \<and> cr_state rec = CONT_REC_LIVE_FRONTIER \<and> cr_owner rec = CONT_OWNER_BATCH_BANK \<longrightarrow> b = a"
  proof
    assume "list_ex (\<lambda>rec. cont_record_bank_protects (sv_creg s') rec now' (Some q)) (ordered_records (sv_creg s'))"
    then obtain b rc where b: "rg_heap (sv_creg s') b = Some rc" "cont_record_bank_protects (sv_creg s') rc now' (Some q)"
      by (auto simp: list_ex_iff set_ordered_records [OF inv'] ran_def)
    then have "b = a" using that(2) live [OF b(2)] by blast
    then show False using b E(1) prot that(1) by simp
  qed
  ultimately show ?thesis
    by (auto simp: cont_registry_reclaim_unprotected_with_query_def split: prod.splits)
qed

subsection \<open>A published turn\<close>

definition demo_live :: server where
  "demo_live = cont_registry_publish_serial 7 0 demo_start API_ANTHROPIC demo_calls 1 5"

lemma demo_start_reach: "srv_reachable (demo_start, {#})"
  unfolding demo_start_def by (rule reach_start)

lemma demo_live_reach: "srv_reachable (demo_live, {#})"
  unfolding demo_live_def
  by (rule reach_step [OF demo_start_reach], rule step_publish_serial) (simp add: demo_start_def srv_start_def)

lemma demo_live_record:
  "rg_serial_live (sv_creg demo_live) = Some 7"
  "rg_heap (sv_creg demo_live) 7 = Some (new_record 0 API_ANTHROPIC demo_calls CONT_OWNER_SERIAL_SESSION 0 1 5)"
  "cont_registry_find_locked (sv_creg demo_live) API_ANTHROPIC [97] = Some 7"
  "rg_ttl_s (sv_creg demo_live) = 300" "rg_hold_shed_s (sv_creg demo_live) = 5" "rg_grace_s (sv_creg demo_live) = 60"
  by code_simp+

lemma demo_not_expired: "\<not> rec_expired demo_live 0 7"
  by (simp add: rec_expired_def demo_live_record new_record_def d_sub_def)

theorem cont_registry_resolve_serial_exact_witness:
  "fst (cont_registry_resolve_serial 0 demo_live API_ANTHROPIC [[97]] 1 5)"
proof -
  have "set [[97]] = set (cr_call_ids (new_record 0 API_ANTHROPIC demo_calls CONT_OWNER_SERIAL_SESSION 0 1 5))" by code_simp
  then show ?thesis
    unfolding cont_registry_resolve_serial_exact [OF demo_live_reach, of "[[97]]", simplified distinct_singleton True_implies_equals]
    using demo_live_record demo_not_expired by (auto simp: new_record_def)
qed

theorem publish_serial_resolves_witness:
  "fst (cont_registry_resolve_serial 0 demo_live API_ANTHROPIC [[97]] 1 5) \<and>
   \<not> fst (cont_registry_resolve_serial 0 demo_live API_ANTHROPIC [[97]] 2 5) \<and>
   \<not> fst (cont_registry_resolve_serial 0 demo_live API_RESPONSES [[97]] 1 5)"
proof -
  have "rg_heap (sv_creg demo_start) 7 = None" and ttl: "rg_ttl_s (sv_creg demo_start) \<le> 0 \<or> d_sub 0 0 \<le> rg_ttl_s (sv_creg demo_start)"
    by (simp_all add: demo_start_def srv_start_def d_sub_def)
  note T = publish_serial_resolves [OF demo_start_reach this(1) demo_calls_ids _ _ demo_live_def _ ttl]
  show ?thesis by (simp add: T) (simp add: demo_calls_def)
qed

theorem cont_registry_find_scoped_witness:
  "\<exists>rec. rg_heap (sv_creg demo_live) 7 = Some rec \<and> cr_protocol rec = API_ANTHROPIC \<and> [97] \<in> set (cr_call_ids rec)"
  using cont_registry_find_scoped [OF demo_live_reach demo_live_record(3)] by auto

theorem registry_pointers_valid_witness:
  "\<exists>s. srv_reachable (s, {#7#}) \<and> (\<exists>rec. rg_heap (sv_creg s) 7 = Some rec \<and> cr_hard_refs rec = 1)"
proof -
  obtain s where s: "cont_registry_pin_live 0 demo_live API_ANTHROPIC [97] = (Some 7, s)"
  proof -
    have "fst (cont_registry_pin_live 0 demo_live API_ANTHROPIC [97]) = Some 7" by code_simp
    then show thesis using that by (metis prod.collapse)
  qed
  then have "srv_reachable (s, {#7#})" using reach_step [OF demo_live_reach step_pin [OF s]] by simp
  then show ?thesis using registry_pointers_valid [of s "{#7#}"] by fastforce
qed

definition demo_request :: request where
  "demo_request = \<lparr>rq_api = API_ANTHROPIC, rq_responses_live_call_ids = [], rq_anthropic_live_call_ids = [],
     rq_cont_pin = None, rq_live_state_bank_owned = False\<rparr>"

theorem cont_registry_serial_hold_iff_witness:
  "fst (fst (cont_registry_serial_hold demo_live demo_request 0)) \<and> 1 \<le> snd (fst (cont_registry_serial_hold demo_live demo_request 0))"
proof -
  have "\<not> request_continues (new_record 0 API_ANTHROPIC demo_calls CONT_OWNER_SERIAL_SESSION 0 1 5) demo_request"
    by (simp add: request_continues_def new_record_def demo_request_def)
  moreover have "d_sub 0 (cr_publish_time (new_record 0 API_ANTHROPIC demo_calls CONT_OWNER_SERIAL_SESSION 0 1 5)) = 0"
    by (simp add: d_sub_def new_record_def)
  ultimately show ?thesis
    using cont_registry_serial_hold_iff [OF demo_live_reach, of demo_request 0] demo_live_record demo_not_expired by simp
qed

text \<open>A live record of bank 3, in a state with one record; the reclaim is a callback that frees 9 bytes.\<close>

definition demo_bank :: server where
  "demo_bank = cont_registry_publish_bank 8 0 demo_start API_ANTHROPIC demo_calls 3 4 5"

theorem published_bank_protected_witness:
  "cont_registry_reclaim_unprotected_with_query demo_bank 1 (Some (\<lambda>_. Some (4, 5))) (Some (\<lambda>b _. (9, b + 1))) (0::nat) = ((0, True), 0) \<and>
   cont_registry_reclaim_unprotected_with_query demo_bank 1 (Some (\<lambda>_. Some (4, 6))) (Some (\<lambda>b _. (9, b + 1))) (0::nat) = ((9, False), 1) \<and>
   cont_registry_reclaim_unprotected_with_query demo_bank 60 (Some (\<lambda>_. None)) (Some (\<lambda>b _. (9, b + 1))) (0::nat) = ((9, False), 1)"
proof -
  have fresh: "rg_heap (sv_creg demo_start) 8 = None" and grace: "rg_grace_s (sv_creg demo_start) = 60"
    by (simp_all add: demo_start_def srv_start_def)
  have "rg_order (sv_creg demo_bank) = [8]" unfolding demo_bank_def by code_simp
  then have "dom (rg_heap (sv_creg demo_bank)) = {8}"
    using reg_invD(2) [OF srv_invD(3), of demo_bank]
      cont_registry_publish_inv_step [OF start_inv [of 1 0 60 300 60 5 False, folded demo_start_def] fresh]
    by (simp add: demo_bank_def cont_registry_publish_bank_def)
  then have only: "\<forall>b rec. rg_heap (sv_creg demo_bank) b = Some rec \<and> cr_state rec = CONT_REC_LIVE_FRONTIER \<and> cr_owner rec = CONT_OWNER_BATCH_BANK \<longrightarrow> b = 8"
    by auto
  have d: "d_sub 1 0 = 1" "d_sub 60 0 = 60" by code_simp+
  note T = published_bank_protected [OF demo_start_reach fresh demo_calls_ids _ _ _ demo_bank_def refl, unfolded grace]
  show ?thesis
    using only T [where now' = 1 and q = "\<lambda>_. Some (4, 5)" and f = "\<lambda>b _. (9, b + 1)" and banks = "0::nat"]
      T [where now' = 1 and q = "\<lambda>_. Some (4, 6)" and f = "\<lambda>b _. (9, b + 1)" and banks = "0::nat"]
      T [where now' = 60 and q = "\<lambda>_. None" and f = "\<lambda>b _. (9, b + 1)" and banks = "0::nat"]
    by (simp add: d)
qed

end
