(* ===== verification/Tool_Replay.thy ===== *)
theory Tool_Replay
  imports Cont_Admit
begin

section \<open>Minting ids and replaying exact tool calls\<close>

text \<open>
  The two ends of a tool call: \<open>assign_tool_call_ids\<close> gives the calls of a turn fresh ids, and
  \<open>tool_memory_attach_to_messages\<close> gives the calls of a resent conversation the exact text that was
  sampled, when the memory has one text for all ids of the message.
\<close>

record tool_replay_stats =
  rs_mem :: int
  rs_disk :: int
  rs_canonical :: int
  rs_missing_ids :: int

record chat_msg =
  cm_tool_call_id :: bytes
  cm_tool_call_ids :: "bytes list"
  cm_calls :: tool_calls

definition collect_tool_call_ids :: "chat_msg list \<Rightarrow> bytes list \<Rightarrow> bytes list" where
  "collect_tool_call_ids msgs ids0 =
     foldl (\<lambda>ids m. foldl id_list_push_unique
       (foldl id_list_push_unique (id_list_push_unique ids (cm_tool_call_id m)) (cm_tool_call_ids m))
       (tc_ids (cm_calls m))) ids0 msgs"

text \<open>
  The loop over the calls of one message: the text all found ids agree on, its source, whether every
  id was found with the same text, and the number of ids that were not found. Two blocks are the same
  if and only if their texts are.
\<close>

record replay_scan =
  sc_mem :: tool_memory
  sc_matched :: "bytes option"
  sc_source :: tool_memory_source
  sc_exact :: bool
  sc_missing :: int

definition scan_call :: "replay_scan \<Rightarrow> bytes \<Rightarrow> replay_scan" where
  "scan_call z cid =
     (case tool_memory_lookup_locked (sc_mem z) cid of
        (None, m) \<Rightarrow> z\<lparr>sc_mem := m, sc_exact := False, sc_missing := sc_missing z + 1\<rparr>
      | (Some (dsml, source), m) \<Rightarrow>
          let z1 = (case sc_matched z of
                      None \<Rightarrow> z\<lparr>sc_mem := m, sc_matched := Some dsml, sc_source := source\<rparr>
                    | Some b \<Rightarrow> if b \<noteq> dsml then z\<lparr>sc_mem := m, sc_exact := False\<rparr> else z\<lparr>sc_mem := m\<rparr>)
          in if source = TOOL_MEMORY_RAM then z1\<lparr>sc_source := TOOL_MEMORY_RAM\<rparr> else z1)"

definition scan_start :: "tool_memory \<Rightarrow> replay_scan" where
  "scan_start m = \<lparr>sc_mem = m, sc_matched = None, sc_source = TOOL_MEMORY_DISK, sc_exact = True, sc_missing = 0\<rparr>"

definition attach_message :: "tool_memory \<Rightarrow> tool_replay_stats \<Rightarrow> chat_msg \<Rightarrow> tool_memory \<times> tool_replay_stats \<times> chat_msg" where
  "attach_message m st msg =
     (let calls = cm_calls msg
      in if tc_ids calls = [] \<or> tool_calls_exact_text calls \<noteq> None then (m, st, msg)
         else let z = foldl scan_call (scan_start m) (tc_ids calls)
           in case (if sc_exact z then sc_matched z else None) of
                Some dsml \<Rightarrow>
                  (sc_mem z,
                   (if sc_source z = TOOL_MEMORY_RAM then st\<lparr>rs_mem := rs_mem st + 1\<rparr> else st\<lparr>rs_disk := rs_disk st + 1\<rparr>),
                   msg\<lparr>cm_calls := calls\<lparr>tc_raw_dsml := dsml, tc_raw_tool_text := dsml\<rparr>\<rparr>)
              | None \<Rightarrow> (sc_mem z, st\<lparr>rs_canonical := rs_canonical st + 1, rs_missing_ids := rs_missing_ids st + sc_missing z\<rparr>, msg))"

fun attach_messages :: "tool_memory \<Rightarrow> tool_replay_stats \<Rightarrow> chat_msg list \<Rightarrow> tool_memory \<times> tool_replay_stats \<times> chat_msg list" where
  "attach_messages m st [] = (m, st, [])"
| "attach_messages m st (msg # msgs) =
     (let (m1, st1, msg1) = attach_message m st msg; (m2, st2, msgs2) = attach_messages m1 st1 msgs in (m2, st2, msg1 # msgs2))"

definition canonical_stats :: "tool_replay_stats \<Rightarrow> chat_msg \<Rightarrow> tool_replay_stats" where
  "canonical_stats st msg =
     (if tc_ids (cm_calls msg) = [] \<or> tool_calls_exact_text (cm_calls msg) \<noteq> None then st
      else st\<lparr>rs_canonical := rs_canonical st + 1, rs_missing_ids := rs_missing_ids st + int (length (tc_ids (cm_calls msg)))\<rparr>)"

definition tool_memory_attach_to_messages :: "server \<Rightarrow> chat_msg list \<Rightarrow> tool_replay_stats \<Rightarrow> server \<times> tool_replay_stats \<times> chat_msg list" where
  "tool_memory_attach_to_messages s msgs st =
     (if sv_disable_exact_dsml_tool_replay s then (s, foldl canonical_stats st msgs, msgs)
      else let (m, st', msgs') = attach_messages (sv_tool_mem s) st msgs in (s\<lparr>sv_tool_mem := m\<rparr>, st', msgs'))"

subsection \<open>Lookups do not change what is remembered\<close>

definition text_of :: "tool_memory \<Rightarrow> bytes \<Rightarrow> (bytes \<times> tool_memory_source) option" where
  "text_of m cid = (if cid = [] then None else map_option (\<lambda>e. (te_block e, te_source e)) (tm_by_id m cid))"

lemma lookup_fst: "fst (tool_memory_lookup_locked m cid) = text_of m cid"
  by (auto simp: tool_memory_lookup_locked_def tool_memory_find_entry_locked_def text_of_def split: option.splits)

lemma text_of_touch [simp]: "text_of (tool_memory_touch m cid) x = text_of m x"
  by (cases "tm_by_id m cid") (auto simp: text_of_def touch_fields)

lemma lookup_snd: "text_of (snd (tool_memory_lookup_locked m cid)) = text_of m"
  by (auto simp: fun_eq_iff tool_memory_lookup_locked_def split: option.splits)

lemma lookup_cases: "tool_memory_lookup_locked m cid = (text_of m cid, snd (tool_memory_lookup_locked m cid))"
  using lookup_fst [of m cid] by (simp add: prod_eq_iff)

lemma scan_call_cases:
  "scan_call z cid = (let m = snd (tool_memory_lookup_locked (sc_mem z) cid) in
     case text_of (sc_mem z) cid of
       None \<Rightarrow> z\<lparr>sc_mem := m, sc_exact := False, sc_missing := sc_missing z + 1\<rparr>
     | Some (dsml, source) \<Rightarrow>
          let z1 = (case sc_matched z of
                      None \<Rightarrow> z\<lparr>sc_mem := m, sc_matched := Some dsml, sc_source := source\<rparr>
                    | Some b \<Rightarrow> if b \<noteq> dsml then z\<lparr>sc_mem := m, sc_exact := False\<rparr> else z\<lparr>sc_mem := m\<rparr>)
          in if source = TOOL_MEMORY_RAM then z1\<lparr>sc_source := TOOL_MEMORY_RAM\<rparr> else z1)"
  unfolding scan_call_def by (subst lookup_cases) (simp add: Let_def split: option.splits)

text \<open>After the calls \<open>done\<close>, exactly when every one has the same text that text is the match.\<close>

definition scan_ok :: "tool_memory \<Rightarrow> bytes list \<Rightarrow> replay_scan \<Rightarrow> bool" where
  "scan_ok m ids z \<longleftrightarrow> text_of (sc_mem z) = text_of m \<and>
     (sc_matched z = None \<longleftrightarrow> (\<forall>cid \<in> set ids. text_of m cid = None)) \<and>
     (\<forall>b. sc_matched z = Some b \<longrightarrow> (sc_exact z \<longleftrightarrow> (\<forall>cid \<in> set ids. \<exists>src. text_of m cid = Some (b, src)))) \<and>
     (sc_matched z = None \<longrightarrow> (sc_exact z \<longleftrightarrow> ids = [])) \<and>
     sc_missing z = int (length (filter (\<lambda>cid. text_of m cid = None) ids))"

lemma scan_call_ok:
  assumes "scan_ok m ids z"
  shows "scan_ok m (ids @ [cid]) (scan_call z cid)"
proof -
  have t: "text_of (sc_mem z) = text_of m" using assms by (simp add: scan_ok_def)
  show ?thesis
  proof (cases "text_of m cid")
    case None
    then show ?thesis using assms by (auto simp: scan_ok_def scan_call_cases Let_def t lookup_snd)
  next
    case (Some x)
    obtain dsml source where x: "x = (dsml, source)" by (cases x)
    show ?thesis
    proof (cases "sc_matched z")
      case None
      then show ?thesis using assms Some x by (auto simp: scan_ok_def scan_call_cases Let_def t lookup_snd)
    next
      case (Some b)
      then show ?thesis using assms \<open>text_of m cid = Some x\<close> x by (auto simp: scan_ok_def scan_call_cases Let_def t lookup_snd)
    qed
  qed
qed

lemma scan_calls_ok: "scan_ok m ids (foldl scan_call (scan_start m) ids)"
proof (induction ids rule: rev_induct)
  case Nil
  show ?case by (simp add: scan_ok_def scan_start_def)
next
  case (snoc cid ids)
  then show ?case using scan_call_ok by simp
qed

text \<open>The match is the text of one of the calls.\<close>

lemma scan_matched:
  assumes "sc_matched (foldl scan_call (scan_start m) ids) = Some b"
  shows "\<exists>cid \<in> set ids. \<exists>src. text_of m cid = Some (b, src)"
  using assms
proof (induction ids arbitrary: b rule: rev_induct)
  case Nil
  then show ?case by (simp add: scan_start_def)
next
  case (snoc cid ids)
  define z where "z = foldl scan_call (scan_start m) ids"
  have t: "text_of (sc_mem z) = text_of m" using scan_calls_ok [of m ids] by (simp add: scan_ok_def z_def)
  have "sc_matched (scan_call z cid) = Some b" using snoc.prems by (simp add: z_def)
  then have "sc_matched z = Some b \<or> (\<exists>src. text_of m cid = Some (b, src))"
    by (auto simp: scan_call_cases Let_def t split: option.splits if_splits)
  then show ?case using snoc.IH by (auto simp: z_def)
qed

subsection \<open>What is attached\<close>

definition agreed_text :: "tool_memory \<Rightarrow> bytes list \<Rightarrow> bytes \<Rightarrow> bool" where
  "agreed_text m ids dsml \<longleftrightarrow> ids \<noteq> [] \<and> (\<forall>cid \<in> set ids. \<exists>src. text_of m cid = Some (dsml, src))"

lemma agreed_text_scan:
  fixes m :: tool_memory and ids :: "bytes list"
  assumes "ids \<noteq> []"
  defines "z \<equiv> foldl scan_call (scan_start m) ids"
  shows "(if sc_exact z then sc_matched z else None) = Some dsml \<longleftrightarrow> agreed_text m ids dsml"
proof -
  have z: "scan_ok m ids z" unfolding z_def by (rule scan_calls_ok)
  show ?thesis
  proof (cases "sc_matched z")
    case None
    then have "\<forall>cid \<in> set ids. text_of m cid = None" using z by (simp add: scan_ok_def)
    then show ?thesis using None assms(1) by (cases ids) (auto simp: agreed_text_def)
  next
    case (Some b)
    then obtain cid src where "cid \<in> set ids" "text_of m cid = Some (b, src)" using scan_matched unfolding z_def by blast
    then have "dsml = b" if "agreed_text m ids dsml" using that by (auto simp: agreed_text_def)
    then have "agreed_text m ids dsml \<longleftrightarrow> dsml = b \<and> agreed_text m ids b" by blast
    moreover have "sc_exact z \<longleftrightarrow> agreed_text m ids b" using z Some assms(1) by (simp add: scan_ok_def agreed_text_def)
    ultimately show ?thesis using Some by auto
  qed
qed

lemma attach_message_text:
  assumes "attach_message m st msg = (m', st', msg')"
  shows "text_of m' = text_of m"
    and "tc_ids (cm_calls msg) = [] \<or> tool_calls_exact_text (cm_calls msg) \<noteq> None \<or> (\<forall>dsml. \<not> agreed_text m (tc_ids (cm_calls msg)) dsml)
      \<Longrightarrow> msg' = msg"
    and "tool_calls_exact_text (cm_calls msg) = None \<Longrightarrow> agreed_text m (tc_ids (cm_calls msg)) dsml \<Longrightarrow>
      msg' = msg\<lparr>cm_calls := (cm_calls msg)\<lparr>tc_raw_dsml := dsml, tc_raw_tool_text := dsml\<rparr>\<rparr>"
proof -
  define ids where "ids = tc_ids (cm_calls msg)"
  define z where "z = foldl scan_call (scan_start m) ids"
  have z: "scan_ok m ids z" unfolding z_def by (rule scan_calls_ok)
  note A = agreed_text_scan [where m = m and ids = ids, folded z_def]
  show "text_of m' = text_of m"
    using assms z by (auto simp: attach_message_def Let_def ids_def [symmetric] z_def [symmetric] scan_ok_def split: if_splits option.splits)
  show "msg' = msg" if "tc_ids (cm_calls msg) = [] \<or> tool_calls_exact_text (cm_calls msg) \<noteq> None \<or>
      (\<forall>dsml. \<not> agreed_text m (tc_ids (cm_calls msg)) dsml)"
  proof (cases "ids = [] \<or> tool_calls_exact_text (cm_calls msg) \<noteq> None")
    case True
    then show ?thesis using assms by (auto simp: attach_message_def Let_def ids_def)
  next
    case False
    then have "(if sc_exact z then sc_matched z else None) \<noteq> Some dsml" for dsml using that A by (simp add: ids_def)
    then have "(if sc_exact z then sc_matched z else None) = None" by (meson not_Some_eq)
    then show ?thesis using assms False by (simp add: attach_message_def Let_def ids_def [symmetric] z_def [symmetric])
  qed
  show "msg' = msg\<lparr>cm_calls := (cm_calls msg)\<lparr>tc_raw_dsml := dsml, tc_raw_tool_text := dsml\<rparr>\<rparr>"
    if "tool_calls_exact_text (cm_calls msg) = None" "agreed_text m (tc_ids (cm_calls msg)) dsml"
  proof -
    have ne: "ids \<noteq> []" using that(2) by (simp add: agreed_text_def ids_def)
    then have "(if sc_exact z then sc_matched z else None) = Some dsml" using A that(2) by (simp add: ids_def)
    then show ?thesis using assms that(1) ne by (simp add: attach_message_def Let_def ids_def [symmetric] z_def [symmetric])
  qed
qed

lemma agreed_text_cong: "text_of m' = text_of m \<Longrightarrow> agreed_text m' = agreed_text m"
  by (simp add: fun_eq_iff agreed_text_def)

definition replayed :: "tool_memory \<Rightarrow> chat_msg \<Rightarrow> chat_msg \<Rightarrow> bool" where
  "replayed m msg msg' \<longleftrightarrow>
     (if tool_calls_exact_text (cm_calls msg) = None \<and> (\<exists>dsml. agreed_text m (tc_ids (cm_calls msg)) dsml)
      then \<exists>dsml. agreed_text m (tc_ids (cm_calls msg)) dsml \<and>
        msg' = msg\<lparr>cm_calls := (cm_calls msg)\<lparr>tc_raw_dsml := dsml, tc_raw_tool_text := dsml\<rparr>\<rparr>
      else msg' = msg)"

lemma attach_messages_replayed:
  "attach_messages m st msgs = (m', st', msgs') \<Longrightarrow> list_all2 (replayed m) msgs msgs' \<and> text_of m' = text_of m"
proof (induction msgs arbitrary: m st m' st' msgs')
  case (Cons msg msgs)
  obtain m1 st1 msg1 where 1: "attach_message m st msg = (m1, st1, msg1)" by (cases "attach_message m st msg")
  obtain m2 st2 msgs2 where 2: "attach_messages m1 st1 msgs = (m2, st2, msgs2)" by (cases "attach_messages m1 st1 msgs")
  have r: "m' = m2" "msgs' = msg1 # msgs2" using Cons.prems 1 2 by simp_all
  note T = attach_message_text [OF 1]
  have "replayed m msg msg1" using T(2,3) unfolding replayed_def by auto
  moreover have "replayed m1 = replayed m" using agreed_text_cong [OF T(1)] by (simp add: fun_eq_iff replayed_def)
  ultimately show ?case using Cons.IH [OF 2] T(1) r by simp
qed simp

text \<open>
  Attaching replays exactly what was sampled or nothing. A message gets a text only when it has
  calls without one and the memory has one and the same text under every id of its calls, and then
  it gets that text; every other message is unchanged; what the memory has under each id stays.
\<close>

theorem tool_memory_attach_exact:
  assumes "tool_memory_attach_to_messages s msgs st = (s', st', msgs')"
  shows "(if sv_disable_exact_dsml_tool_replay s then msgs' = msgs else list_all2 (replayed (sv_tool_mem s)) msgs msgs') \<and>
    text_of (sv_tool_mem s') = text_of (sv_tool_mem s)"
  using assms attach_messages_replayed
  by (fastforce simp: tool_memory_attach_to_messages_def split: if_splits prod.splits)

subsection \<open>Remembering and replaying\<close>

text \<open>Room for a list of ids under one text: neither limit is reached.\<close>

definition room_for :: "tool_memory \<Rightarrow> bytes list \<Rightarrow> bytes \<Rightarrow> bool" where
  "room_for m ids dsml \<longleftrightarrow> int (length (tm_lru m) + length ids) \<le> tool_memory_max_entries m \<and>
     tm_size m + (\<Sum>cid \<leftarrow> ids. length cid + length dsml + 122) \<le> unat (tool_memory_max_bytes m)"

lemma prune_in_room:
  assumes "tm_inv (sv_tool_mem s)" and "room_for (sv_tool_mem s) [] dsml"
  shows "tool_memory_prune_locked s = Some s"
proof -
  note D = tm_invD [OF assms(1)]
  have "unat (tm_bytes (sv_tool_mem s)) = tm_size (sv_tool_mem s)" using D(6,7) by (simp add: unat_of_nat take_bit_eq_mod)
  then have "\<not> tool_memory_over (sv_tool_mem s)"
    using assms(2) D(5) by (simp add: tool_memory_over_def room_for_def word_less_nat_alt)
  then show ?thesis unfolding tool_memory_prune_locked_def by (subst tool_memory_prune_walk.simps) simp
qed

lemma put_in_room:
  assumes inv: "srv_inv s" and ne: "cid \<noteq> []" "dsml \<noteq> []" and room: "room_for (sv_tool_mem s) (cid # ids) dsml"
  defines "s' \<equiv> s\<lparr>sv_tool_mem := tool_memory_put_entry (sv_tool_mem s) cid dsml TOOL_MEMORY_RAM\<rparr>"
  shows "tool_memory_put_locked s cid dsml TOOL_MEMORY_RAM = Some s'" and "srv_inv s'" and "room_for (sv_tool_mem s') ids dsml"
    and "text_of (sv_tool_mem s') cid = Some (dsml, TOOL_MEMORY_RAM)" and "x \<noteq> cid \<Longrightarrow> text_of (sv_tool_mem s') x = text_of (sv_tool_mem s) x"
proof -
  have fits: "tm_size (sv_tool_mem s) + length cid + length dsml + 122 < 2 ^ 64"
    using room unat_u64_bound [of "tool_memory_max_bytes (sv_tool_mem s)"] by (simp add: room_for_def)
  show inv': "srv_inv s'" unfolding s'_def by (rule put_entry_srv_inv [OF inv ne fits])
  note P = put_entry_inv [OF srv_invD(1) [OF inv] ne fits, where source = TOOL_MEMORY_RAM]
  note Z = put_entry_size [OF srv_invD(1) [OF inv] ne fits, of TOOL_MEMORY_RAM]
  have lim: "tool_memory_max_entries (sv_tool_mem s') = tool_memory_max_entries (sv_tool_mem s)"
    "tool_memory_max_bytes (sv_tool_mem s') = tool_memory_max_bytes (sv_tool_mem s)"
    using P(4) by (simp_all add: s'_def tool_memory_max_entries_def tool_memory_max_bytes_def)
  show room': "room_for (sv_tool_mem s') ids dsml"
    using room Z unfolding room_for_def lim by (simp add: s'_def)
  then have "room_for (sv_tool_mem s') [] dsml" by (simp add: room_for_def)
  from prune_in_room [OF srv_invD(1) [OF inv'] this]
  show "tool_memory_put_locked s cid dsml TOOL_MEMORY_RAM = Some s'" using ne by (simp add: tool_memory_put_locked_def s'_def)
  show "text_of (sv_tool_mem s') cid = Some (dsml, TOOL_MEMORY_RAM)" using P(2) Z ne by (auto simp: text_of_def s'_def)
  show "text_of (sv_tool_mem s') x = text_of (sv_tool_mem s) x" if "x \<noteq> cid" using P(3) [OF that] by (simp add: text_of_def s'_def)
qed

lemma put_all_in_room:
  assumes "srv_inv s" and "[] \<notin> set ids" and "dsml \<noteq> []" and "room_for (sv_tool_mem s) ids dsml"
  shows "\<exists>s'. put_all s ids dsml = Some s' \<and> srv_inv s' \<and> sv_disable_exact_dsml_tool_replay s' = sv_disable_exact_dsml_tool_replay s \<and>
    (\<forall>x. text_of (sv_tool_mem s') x = (if x \<in> set ids then Some (dsml, TOOL_MEMORY_RAM) else text_of (sv_tool_mem s) x))"
  using assms
proof (induction ids arbitrary: s)
  case (Cons cid ids)
  define s1 where "s1 = s\<lparr>sv_tool_mem := tool_memory_put_entry (sv_tool_mem s) cid dsml TOOL_MEMORY_RAM\<rparr>"
  have "cid \<noteq> []" using Cons.prems(2) by auto
  note P = put_in_room [OF Cons.prems(1) this Cons.prems(3,4), folded s1_def]
  from Cons.IH [OF P(2) _ Cons.prems(3) P(3)] Cons.prems(2)
  obtain s' where s': "put_all s1 ids dsml = Some s'" "srv_inv s'"
    "sv_disable_exact_dsml_tool_replay s' = sv_disable_exact_dsml_tool_replay s1"
    "\<And>x. text_of (sv_tool_mem s') x = (if x \<in> set ids then Some (dsml, TOOL_MEMORY_RAM) else text_of (sv_tool_mem s1) x)" by auto
  moreover have "sv_disable_exact_dsml_tool_replay s1 = sv_disable_exact_dsml_tool_replay s" by (simp add: s1_def)
  ultimately show ?case using P(1,4,5) by auto
qed simp

text \<open>
  C14. A remembered turn is replayed exactly. When the memory has room for the turn, remembering its
  calls returns, and attaching to a message that has the same call ids and no text of its own then
  gives it exactly the text that was sampled; other ids keep what they had.
\<close>

theorem tool_memory_remember_attach:
  assumes inv: "srv_inv s" and on: "\<not> sv_disable_exact_dsml_tool_replay s"
    and ids: "tc_ids calls \<noteq> []" "[] \<notin> set (tc_ids calls)" and exact: "tool_calls_exact_text calls = Some dsml"
    and room: "room_for (sv_tool_mem s) (tc_ids calls) dsml"
    and msg: "tc_ids (cm_calls msg) = tc_ids calls" "tool_calls_exact_text (cm_calls msg) = None"
  shows "\<exists>s' s'' st'. tool_memory_remember s calls = Some s' \<and> srv_inv s' \<and>
    tool_memory_attach_to_messages s' [msg] st =
      (s'', st', [msg\<lparr>cm_calls := (cm_calls msg)\<lparr>tc_raw_dsml := dsml, tc_raw_tool_text := dsml\<rparr>\<rparr>]) \<and>
    (\<forall>x. x \<notin> set (tc_ids calls) \<longrightarrow> text_of (sv_tool_mem s') x = text_of (sv_tool_mem s) x)"
proof -
  have dsml: "dsml \<noteq> []" using exact by (auto simp: tool_calls_exact_text_def split: if_splits)
  from put_all_in_room [OF inv ids(2) dsml room] obtain s' where s': "put_all s (tc_ids calls) dsml = Some s'" "srv_inv s'"
    "\<not> sv_disable_exact_dsml_tool_replay s'"
    "\<And>x. text_of (sv_tool_mem s') x = (if x \<in> set (tc_ids calls) then Some (dsml, TOOL_MEMORY_RAM) else text_of (sv_tool_mem s) x)"
    using on by auto
  have agreed: "agreed_text (sv_tool_mem s') (tc_ids (cm_calls msg)) dsml" using ids s'(4) msg(1) by (simp add: agreed_text_def)
  obtain m1 st1 msg1 where a: "attach_message (sv_tool_mem s') st msg = (m1, st1, msg1)" by (cases "attach_message (sv_tool_mem s') st msg")
  have "msg1 = msg\<lparr>cm_calls := (cm_calls msg)\<lparr>tc_raw_dsml := dsml, tc_raw_tool_text := dsml\<rparr>\<rparr>"
    by (rule attach_message_text(3) [OF a msg(2) agreed])
  then have "tool_memory_attach_to_messages s' [msg] st =
      (s'\<lparr>sv_tool_mem := m1\<rparr>, st1, [msg\<lparr>cm_calls := (cm_calls msg)\<lparr>tc_raw_dsml := dsml, tc_raw_tool_text := dsml\<rparr>\<rparr>])"
    using a s'(3) by (simp add: tool_memory_attach_to_messages_def)
  moreover have "tool_memory_remember s calls = Some s'" using exact on s'(1) by (simp add: tool_memory_remember_def)
  ultimately show ?thesis using s'(2,4) by auto
qed

subsection \<open>Minting\<close>

lemma mint_result:
  assumes "mint_tool_id taken api rnd n = Some y"
  shows "\<not> taken (fst y) \<and> (\<exists>k \<ge> n. y = (random_tool_id api (rnd k), Suc k))"
proof (rule mint_tool_id.raw_induct
    [where P = "\<lambda>taken api rnd n y. \<not> taken (fst y) \<and> (\<exists>k \<ge> n. y = (random_tool_id api (rnd k), Suc k))", OF _ assms])
  fix mint :: "(bytes \<Rightarrow> bool) \<Rightarrow> api_style \<Rightarrow> (nat \<Rightarrow> bytes) \<Rightarrow> nat \<Rightarrow> (bytes \<times> nat) option" and taken api rnd n y
  assume IH: "\<And>taken api rnd n y. mint taken api rnd n = Some y \<Longrightarrow>
      \<not> taken (fst y) \<and> (\<exists>k \<ge> n. y = (random_tool_id api (rnd k), Suc k))"
    and run: "(let cid = random_tool_id api (rnd n) in if taken cid then mint taken api rnd (Suc n) else Some (cid, Suc n)) = Some y"
  show "\<not> taken (fst y) \<and> (\<exists>k \<ge> n. y = (random_tool_id api (rnd k), Suc k))"
    using IH [of taken api rnd "Suc n" y] run by (fastforce simp: Let_def split: if_splits dest: Suc_leD)
qed

lemma mint_returns: "\<not> taken (random_tool_id api (rnd (n + k))) \<Longrightarrow> mint_tool_id taken api rnd n \<noteq> None"
proof (induction k arbitrary: n)
  case 0
  then show ?case by (subst mint_tool_id.simps) simp
next
  case (Suc k)
  then show ?case using Suc.IH [of "Suc n"] by (subst mint_tool_id.simps) (simp add: Let_def)
qed

text \<open>The ids from call \<open>i\<close> on: those that were there stay, and the new ones are unused and new in the turn.\<close>

lemma assign_from_result:
  assumes "assign_from s api rnd i k ids n = Some (ids', n')" and "i + k = length ids"
  shows "length ids' = length ids \<and> n \<le> n' \<and> (\<forall>j < length ids. ids ! j \<noteq> [] \<or> j < i \<longrightarrow> ids' ! j = ids ! j) \<and>
    (\<forall>j < length ids. i \<le> j \<and> ids ! j = [] \<longrightarrow> ids' ! j \<noteq> [] \<and> \<not> tool_id_in_use s (ids' ! j) \<and> ids' ! j \<notin> set (take j ids'))"
  using assms
proof (induction k arbitrary: i ids n)
  case (Suc k)
  have i: "i < length ids" using Suc.prems(2) by simp
  show ?case
  proof (cases "ids ! i = []")
    case False
    then have "assign_from s api rnd (Suc i) k ids n = Some (ids', n')" using Suc.prems(1) by simp
    note IH = Suc.IH [OF this]
    show ?thesis using IH Suc.prems(2) False by (auto simp: less_Suc_eq Suc_le_eq order.order_iff_strict)
  next
    case True
    define taken where "taken cid \<longleftrightarrow> tool_calls_contains_id ids cid (int i) \<or> tool_id_in_use s cid" for cid
    from Suc.prems(1) True obtain cid n1 where m: "mint_tool_id taken api rnd n = Some (cid, n1)"
      and rest: "assign_from s api rnd (Suc i) k (ids[i := cid]) n1 = Some (ids', n')"
      by (auto simp: taken_def [abs_def] split: option.splits)
    have free: "\<not> taken cid" and n1: "n \<le> n1" and ne: "cid \<noteq> []"
      using mint_result [OF m] by (auto simp: random_tool_id_def split: if_splits)
    note IH = Suc.IH [OF rest]
    have len: "length (ids[i := cid]) = length ids" by simp
    have J: "length ids' = length ids" "n1 \<le> n'" "\<forall>j < length ids. ids[i := cid] ! j \<noteq> [] \<or> j < Suc i \<longrightarrow> ids' ! j = ids[i := cid] ! j"
      "\<forall>j < length ids. Suc i \<le> j \<and> ids[i := cid] ! j = [] \<longrightarrow> ids' ! j \<noteq> [] \<and> \<not> tool_id_in_use s (ids' ! j) \<and> ids' ! j \<notin> set (take j ids')"
      using IH Suc.prems(2) by simp_all
    have "take i ids' = take i ids"
      using J(1,3) i by (intro nth_equalityI) auto
    moreover have "cid \<notin> set (take i ids)" using free ne i by (simp add: taken_def tool_calls_contains_id_def)
    moreover have "ids' ! i = cid" using J(3) i ne by auto
    ultimately have here: "ids' ! i \<noteq> [] \<and> \<not> tool_id_in_use s (ids' ! i) \<and> ids' ! i \<notin> set (take i ids')"
      using free ne by (simp add: taken_def)
    have "ids' ! j = ids ! j" if "j < length ids" "ids ! j \<noteq> [] \<or> j < i" for j
      using J(3) that True by (cases "j = i") auto
    moreover have "ids' ! j \<noteq> [] \<and> \<not> tool_id_in_use s (ids' ! j) \<and> ids' ! j \<notin> set (take j ids')"
      if "j < length ids" "i \<le> j" "ids ! j = []" for j
      using here J(4) that by (cases "j = i") auto
    ultimately show ?thesis using J(1,2) n1 by auto
  qed
qed simp

lemma assign_from_returns:
  assumes "i + k = length ids" and "\<And>j. j < k \<Longrightarrow> \<not> tool_id_in_use s (random_tool_id api (rnd (n + j)))"
    and "\<And>j. j < k \<Longrightarrow> random_tool_id api (rnd (n + j)) \<notin> set ids"
    and "inj_on (\<lambda>j. random_tool_id api (rnd (n + j))) {..<k}"
  shows "assign_from s api rnd i k ids n \<noteq> None"
  using assms
proof (induction k arbitrary: i ids n)
  case (Suc k)
  have sub: "inj_on (\<lambda>j. random_tool_id api (rnd (n + j))) {..<k}"
    using Suc.prems(4) by (rule inj_on_subset) auto
  show ?case
  proof (cases "ids ! i = []")
    case False
    then show ?thesis using Suc.IH [of "Suc i" ids n] Suc.prems sub by simp
  next
    case True
    let ?id = "random_tool_id api (rnd n)"
    define taken where "taken cid \<longleftrightarrow> tool_calls_contains_id ids cid (int i) \<or> tool_id_in_use s cid" for cid
    have "\<not> taken ?id" using Suc.prems(2,3) [of 0] by (auto simp: taken_def tool_calls_contains_id_def dest: in_set_takeD)
    then have m: "mint_tool_id taken api rnd n = Some (?id, Suc n)" by (subst mint_tool_id.simps) (simp add: Let_def)
    have "assign_from s api rnd (Suc i) k (ids[i := ?id]) (Suc n) \<noteq> None"
    proof (rule Suc.IH)
      show "Suc i + k = length (ids[i := ?id])" using Suc.prems(1) by simp
      fix j assume j: "j < k"
      show "\<not> tool_id_in_use s (random_tool_id api (rnd (Suc n + j)))" using Suc.prems(2) [of "Suc j"] j by simp
      have "random_tool_id api (rnd (n + Suc j)) \<noteq> ?id" using inj_onD [OF Suc.prems(4), of "Suc j" 0] j by auto
      then show "random_tool_id api (rnd (Suc n + j)) \<notin> set (ids[i := ?id])"
        using Suc.prems(3) [of "Suc j"] j set_update_subset_insert [of ids i ?id] by auto
    next
      show "inj_on (\<lambda>j. random_tool_id api (rnd (Suc n + j))) {..<k}"
        using Suc.prems(4) by (auto simp: inj_on_def) (metis Suc_less_eq Suc_inject add_Suc_right lessThan_iff)
    qed
    then show ?thesis using True m by (simp add: taken_def [abs_def])
  qed
qed simp

text \<open>
  Minted ids are fresh. Whenever the assignment of ids returns, ids that were there are kept and
  every call that had none has one that is not empty, that neither the tool memory nor the registry
  uses and that no earlier call of the turn has; and it returns when the random source gives as many
  different unused ids as there are calls.
\<close>

theorem assign_tool_call_ids_fresh:
  "(\<forall>calls' n'. assign_tool_call_ids s calls api rnd n = Some (calls', n') \<longrightarrow>
      length (tc_ids calls') = length (tc_ids calls) \<and>
      (\<forall>j < length (tc_ids calls). if tc_ids calls ! j \<noteq> [] then tc_ids calls' ! j = tc_ids calls ! j
        else tc_ids calls' ! j \<noteq> [] \<and> \<not> tool_id_in_use s (tc_ids calls' ! j) \<and> tc_ids calls' ! j \<notin> set (take j (tc_ids calls')))) \<and>
   ((\<forall>j < length (tc_ids calls). \<not> tool_id_in_use s (random_tool_id api (rnd (n + j))) \<and>
       random_tool_id api (rnd (n + j)) \<notin> set (tc_ids calls)) \<and>
    inj_on (\<lambda>j. random_tool_id api (rnd (n + j))) {..<length (tc_ids calls)} \<longrightarrow>
      assign_tool_call_ids s calls api rnd n \<noteq> None)"
proof (intro conjI allI impI)
  fix calls' n' assume "assign_tool_call_ids s calls api rnd n = Some (calls', n')"
  then obtain ids' where r: "assign_from s api rnd 0 (length (tc_ids calls)) (tc_ids calls) n = Some (ids', n')" "tc_ids calls' = ids'"
    by (auto simp: assign_tool_call_ids_def)
  note A = assign_from_result [OF r(1)]
  show "length (tc_ids calls') = length (tc_ids calls)" using A r(2) by simp
  fix j assume "j < length (tc_ids calls)"
  then show "if tc_ids calls ! j \<noteq> [] then tc_ids calls' ! j = tc_ids calls ! j
        else tc_ids calls' ! j \<noteq> [] \<and> \<not> tool_id_in_use s (tc_ids calls' ! j) \<and> tc_ids calls' ! j \<notin> set (take j (tc_ids calls'))"
    using A r(2) by simp
next
  assume "(\<forall>j < length (tc_ids calls). \<not> tool_id_in_use s (random_tool_id api (rnd (n + j))) \<and>
       random_tool_id api (rnd (n + j)) \<notin> set (tc_ids calls)) \<and>
    inj_on (\<lambda>j. random_tool_id api (rnd (n + j))) {..<length (tc_ids calls)}"
  then show "assign_tool_call_ids s calls api rnd n \<noteq> None"
    using assign_from_returns [of 0 "length (tc_ids calls)" "tc_ids calls" s api rnd n] by (simp add: assign_tool_call_ids_def)
qed

subsection \<open>Examples\<close>

definition demo_msg :: chat_msg where
  "demo_msg = \<lparr>cm_tool_call_id = [], cm_tool_call_ids = [], cm_calls = \<lparr>tc_ids = [[97]], tc_raw_dsml = [], tc_raw_tool_text = []\<rparr>\<rparr>"

definition demo_stats :: tool_replay_stats where
  "demo_stats = \<lparr>rs_mem = 0, rs_disk = 0, rs_canonical = 0, rs_missing_ids = 0\<rparr>"

theorem tool_memory_attach_exact_witness:
  "\<exists>s' st' msgs'. tool_memory_attach_to_messages demo_mem [demo_msg] demo_stats = (s', st', msgs') \<and>
     list_all2 (replayed (sv_tool_mem demo_mem)) [demo_msg] msgs' \<and> text_of (sv_tool_mem s') = text_of (sv_tool_mem demo_mem)"
proof -
  obtain s' st' msgs' where r: "tool_memory_attach_to_messages demo_mem [demo_msg] demo_stats = (s', st', msgs')"
    by (cases "tool_memory_attach_to_messages demo_mem [demo_msg] demo_stats")
  have "\<not> sv_disable_exact_dsml_tool_replay demo_mem" by (simp add: demo_mem_def demo_put_def demo_start_def srv_start_def)
  then show ?thesis using r tool_memory_attach_exact [OF r] by auto
qed

theorem tool_memory_remember_attach_witness:
  "\<exists>s' s'' st'. tool_memory_remember demo_start demo_calls = Some s' \<and> srv_inv s' \<and>
     tool_memory_attach_to_messages s' [demo_msg] demo_stats =
       (s'', st', [demo_msg\<lparr>cm_calls := (cm_calls demo_msg)\<lparr>tc_raw_dsml := [60], tc_raw_tool_text := [60]\<rparr>\<rparr>])"
proof -
  have inv: "srv_inv demo_start" unfolding demo_start_def by (rule start_inv)
  have room: "room_for (sv_tool_mem demo_start) (tc_ids demo_calls) [60]"
    by (simp add: room_for_def demo_start_def srv_start_def demo_calls_def tm_size_def keys_size_def
        tool_memory_max_entries_def tool_memory_max_bytes_def)
  have "\<not> sv_disable_exact_dsml_tool_replay demo_start" "tc_ids demo_calls \<noteq> []" "[] \<notin> set (tc_ids demo_calls)"
    "tool_calls_exact_text demo_calls = Some [60]" "tc_ids (cm_calls demo_msg) = tc_ids demo_calls"
    "tool_calls_exact_text (cm_calls demo_msg) = None"
    by (simp_all add: demo_start_def srv_start_def demo_calls_def demo_msg_def tool_calls_exact_text_def)
  from tool_memory_remember_attach [OF inv this(1-4) room this(5,6), of demo_stats] show ?thesis by blast
qed

theorem assign_tool_call_ids_fresh_witness:
  "assign_tool_call_ids demo_start \<lparr>tc_ids = [[], [97]], tc_raw_dsml = [], tc_raw_tool_text = []\<rparr> API_OPENAI (\<lambda>k. [of_nat k]) 0 \<noteq> None"
proof -
  have "\<forall>j < length [[], [97::u8]]. \<not> tool_id_in_use demo_start (random_tool_id API_OPENAI ((\<lambda>k. [of_nat k]) (0 + j))) \<and>
      random_tool_id API_OPENAI ((\<lambda>k. [of_nat k]) (0 + j)) \<notin> set [[], [97]]"
    by (auto simp: less_Suc_eq numeral_2_eq_2 tool_id_in_use_def tool_memory_has_id_def cont_registry_id_known_def demo_start_def srv_start_def
        tool_memory_find_entry_locked_def cont_registry_find_locked_def random_tool_id_def)
  moreover have "inj_on (\<lambda>j. random_tool_id API_OPENAI ((\<lambda>k. [of_nat k]) (0 + j))) {..<length [[], [97::u8]]}"
    by (simp add: lessThan_Suc random_tool_id_def hex_digit_def)
  ultimately show ?thesis
    using assign_tool_call_ids_fresh [of demo_start "\<lparr>tc_ids = [[], [97]], tc_raw_dsml = [], tc_raw_tool_text = []\<rparr>" API_OPENAI "\<lambda>k. [of_nat k]" 0]
    by simp
qed

end
