(* ===== verification/Route.thy ===== *)
theory Route
  imports Cont_Admit
begin

unbundle bit_operations_syntax

section \<open>Which lane serves a request\<close>

text \<open>
  The requirements word of a parsed request (\<open>request_compute_needs\<close>), the decision that both dispatch
  sites share (\<open>route_decide\<close>), the worker's dispatch on it, and the older predicates and tables that
  the test suite keeps as oracles. A request is the record of the admission theory with the fields that
  routing reads; of the stop strings, the images and the prompt only the lengths matter here.
\<close>

subsection \<open>Requests and their needs\<close>

datatype req_kind = REQ_CHAT | REQ_COMPLETION

datatype ds4_think_mode = DS4_THINK_NONE | DS4_THINK_LOW | DS4_THINK_HIGH | DS4_THINK_MAX

record route_request = request +
  rq_kind :: req_kind
  rq_prompt_len :: int
  rq_stops_len :: int
  rq_max_tokens :: int
  rq_max_tokens_set :: bool
  rq_temperature :: rat
  rq_stream :: bool
  rq_return_token_ids :: bool
  rq_think_mode :: ds4_think_mode
  rq_has_tools :: bool
  rq_responses_requires_live_tool_state :: bool
  rq_responses_requires_live_reasoning :: bool
  rq_anthropic_requires_live_tool_state :: bool
  rq_images_len :: int
  rq_needs :: u32

definition ds4_think_mode_enabled :: "ds4_think_mode \<Rightarrow> bool" where
  "ds4_think_mode_enabled m = (m \<noteq> DS4_THINK_NONE)"

text \<open>The budget of a request: an explicit non-positive one is zero, an absent one the server's.\<close>

definition request_decode_budget :: "'a route_request_scheme \<Rightarrow> int \<Rightarrow> int" where
  "request_decode_budget r server_default =
     (if rq_max_tokens_set r \<and> rq_max_tokens r \<le> 0 then 0
      else if rq_max_tokens r > 0 then rq_max_tokens r else server_default)"

datatype ds4_wire_surface = DS4_WIRE_OPENAI_CHAT | DS4_WIRE_OPENAI_COMPLETION | DS4_WIRE_ANTHROPIC | DS4_WIRE_RESPONSES

definition wire_surface_for :: "'a route_request_scheme \<Rightarrow> ds4_wire_surface" where
  "wire_surface_for r =
     (if rq_api r = API_ANTHROPIC then DS4_WIRE_ANTHROPIC
      else if rq_api r = API_RESPONSES then DS4_WIRE_RESPONSES
      else if rq_kind r = REQ_COMPLETION then DS4_WIRE_OPENAI_COMPLETION else DS4_WIRE_OPENAI_CHAT)"

definition NEED_STREAMING :: u32 where "NEED_STREAMING = push_bit 0 1"
definition NEED_PER_ROW_SAMPLING :: u32 where "NEED_PER_ROW_SAMPLING = push_bit 1 1"
definition NEED_THINKING :: u32 where "NEED_THINKING = push_bit 2 1"
definition NEED_STOP_SCAN :: u32 where "NEED_STOP_SCAN = push_bit 3 1"
definition NEED_TOOL_SCAN :: u32 where "NEED_TOOL_SCAN = push_bit 4 1"
definition NEED_TOKEN_IDS :: u32 where "NEED_TOKEN_IDS = push_bit 5 1"
definition NEED_LIVE_FRONTIER :: u32 where "NEED_LIVE_FRONTIER = push_bit 6 1"
definition NEED_CONTINUATION_PUBLISH :: u32 where "NEED_CONTINUATION_PUBLISH = push_bit 7 1"
definition NEED_CORRECTIVE_RECOVERY :: u32 where "NEED_CORRECTIVE_RECOVERY = push_bit 8 1"
definition NEED_DURABLE_RESPONSE :: u32 where "NEED_DURABLE_RESPONSE = push_bit 9 1"
definition NEED_PREFILL_ONLY :: u32 where "NEED_PREFILL_ONLY = push_bit 10 1"
definition NEED_BANK_FRONTIER :: u32 where "NEED_BANK_FRONTIER = push_bit 11 1"
definition NEED_IMAGE :: u32 where "NEED_IMAGE = push_bit 12 1"

lemmas need_defs = NEED_STREAMING_def NEED_PER_ROW_SAMPLING_def NEED_THINKING_def NEED_STOP_SCAN_def
  NEED_TOOL_SCAN_def NEED_TOKEN_IDS_def NEED_LIVE_FRONTIER_def NEED_CONTINUATION_PUBLISH_def
  NEED_CORRECTIVE_RECOVERY_def NEED_DURABLE_RESPONSE_def NEED_PREFILL_ONLY_def NEED_BANK_FRONTIER_def
  NEED_IMAGE_def

text \<open>The condition of the live-frontier bits: any of the three parsed continuation flags.\<close>

definition request_live :: "'a route_request_scheme \<Rightarrow> bool" where
  "request_live r = (rq_responses_requires_live_tool_state r \<or> rq_responses_requires_live_reasoning r \<or>
     rq_anthropic_requires_live_tool_state r)"

text \<open>The body of \<open>request_compute_needs\<close> is a sequence of statements \<open>if (c) n |= bit\<close>, in this order.\<close>

definition or_need :: "bool \<times> u32 \<Rightarrow> u32 \<Rightarrow> u32" where
  "or_need cm n = (if fst cm then n OR snd cm else n)"

definition request_compute_needs :: "'a route_request_scheme \<Rightarrow> u32" where
  "request_compute_needs r = fold or_need
    [(rq_stream r, NEED_STREAMING),
     (rq_temperature r > 0, NEED_PER_ROW_SAMPLING),
     (ds4_think_mode_enabled (rq_think_mode r), NEED_THINKING),
     (rq_stops_len r > 0, NEED_STOP_SCAN),
     (rq_has_tools r, NEED_TOOL_SCAN),
     (rq_return_token_ids r, NEED_TOKEN_IDS),
     (rq_images_len r > 0, NEED_IMAGE),
     (request_live r, if rq_live_state_bank_owned r then NEED_BANK_FRONTIER else NEED_LIVE_FRONTIER),
     (rq_has_tools r \<and> rq_api r \<noteq> API_OPENAI, NEED_CONTINUATION_PUBLISH),
     (rq_has_tools r \<and> rq_api r \<noteq> API_OPENAI \<and> \<not> rq_stream r, NEED_CORRECTIVE_RECOVERY),
     (rq_api r = API_ANTHROPIC \<and> rq_max_tokens_set r \<and> rq_max_tokens r \<le> 0, NEED_PREFILL_ONLY)] 0"

subsection \<open>The decision\<close>

definition ROUTE_CONT_MASK :: u32 where
  "ROUTE_CONT_MASK = NEED_STREAMING OR NEED_PER_ROW_SAMPLING OR NEED_THINKING OR NEED_STOP_SCAN OR
     NEED_TOOL_SCAN OR NEED_TOKEN_IDS OR NEED_IMAGE"

definition ROUTE_STATIC_MASK :: u32 where "ROUTE_STATIC_MASK = 0"

datatype route_lane = ROUTE_LANE_SERIAL | ROUTE_LANE_CONTINUOUS | ROUTE_LANE_STATIC | ROUTE_LANE_NONE

datatype route_reason =
    ROUTE_REASON_CONT
  | ROUTE_REASON_STATIC_NO_CONT
  | ROUTE_REASON_STATIC_PROMPT_BOUNDS
  | ROUTE_REASON_COALESCE_OFF
  | ROUTE_REASON_SURFACE
  | ROUTE_REASON_NEED_LIVE_FRONTIER
  | ROUTE_REASON_NEED_CONTINUATION_PUBLISH
  | ROUTE_REASON_NEED_CORRECTIVE_RECOVERY
  | ROUTE_REASON_NEED_DURABLE
  | ROUTE_REASON_NEED_PREFILL_ONLY
  | ROUTE_REASON_TOKEN_IDS_PROJECTION
  | ROUTE_REASON_TOOLS_COMPLETION
  | ROUTE_REASON_CONT_UNAVAILABLE
  | ROUTE_REASON_CONT_BANK

record ds4_route_env =
  re_coalesce :: bool
  re_have_cont :: bool
  re_cont_anthropic :: bool
  re_cont_responses :: bool
  re_cont_tools_anthropic :: bool
  re_cont_tools_responses :: bool
  re_seq_cap :: int
  re_prompt_len :: int

definition tools_promoted :: "ds4_wire_surface \<Rightarrow> ds4_route_env \<Rightarrow> bool" where
  "tools_promoted surf env =
     (re_cont_anthropic env \<and> re_cont_tools_anthropic env \<and> surf = DS4_WIRE_ANTHROPIC \<or>
      re_cont_responses env \<and> re_cont_tools_responses env \<and> surf = DS4_WIRE_RESPONSES)"

definition cont_promoted :: "ds4_wire_surface \<Rightarrow> ds4_route_env \<Rightarrow> bool" where
  "cont_promoted surf env =
     (re_cont_anthropic env \<and> surf = DS4_WIRE_ANTHROPIC \<or>
      re_cont_responses env \<and> surf = DS4_WIRE_RESPONSES)"

definition cont_mask_for :: "u32 \<Rightarrow> ds4_wire_surface \<Rightarrow> ds4_route_env \<Rightarrow> u32" where
  "cont_mask_for needs surf env =
     (if tools_promoted surf env
      then (if needs AND NEED_STREAMING \<noteq> 0 then ROUTE_CONT_MASK OR NEED_CONTINUATION_PUBLISH
            else ROUTE_CONT_MASK) OR NEED_BANK_FRONTIER
      else ROUTE_CONT_MASK)"

definition route_decide :: "u32 \<Rightarrow> ds4_wire_surface \<Rightarrow> ds4_route_env \<Rightarrow> route_lane \<times> route_reason" where
  "route_decide needs surf env =
    (if needs AND NEED_DURABLE_RESPONSE \<noteq> 0 then (ROUTE_LANE_NONE, ROUTE_REASON_NEED_DURABLE)
     else if needs AND NEED_LIVE_FRONTIER \<noteq> 0 then (ROUTE_LANE_SERIAL, ROUTE_REASON_NEED_LIVE_FRONTIER)
     else if needs AND NEED_BANK_FRONTIER \<noteq> 0 \<and> \<not> tools_promoted surf env
       then (ROUTE_LANE_SERIAL, ROUTE_REASON_NEED_LIVE_FRONTIER)
     else if needs AND NEED_CONTINUATION_PUBLISH \<noteq> 0 \<and>
             \<not> (needs AND NEED_STREAMING \<noteq> 0 \<and> tools_promoted surf env)
       then (ROUTE_LANE_SERIAL, ROUTE_REASON_NEED_CONTINUATION_PUBLISH)
     else if needs AND NEED_CORRECTIVE_RECOVERY \<noteq> 0
       then (ROUTE_LANE_SERIAL, ROUTE_REASON_NEED_CORRECTIVE_RECOVERY)
     else if needs AND NEED_PREFILL_ONLY \<noteq> 0 then (ROUTE_LANE_SERIAL, ROUTE_REASON_NEED_PREFILL_ONLY)
     else if needs AND NEED_TOKEN_IDS \<noteq> 0 \<and>
             \<not> (needs AND NEED_STREAMING \<noteq> 0 \<and> surf = DS4_WIRE_OPENAI_CHAT)
       then (ROUTE_LANE_SERIAL, ROUTE_REASON_TOKEN_IDS_PROJECTION)
     else if needs AND NEED_TOOL_SCAN \<noteq> 0 \<and> surf = DS4_WIRE_OPENAI_COMPLETION
       then (ROUTE_LANE_SERIAL, ROUTE_REASON_TOOLS_COMPLETION)
     else if needs AND NOT (cont_mask_for needs surf env) \<noteq> 0
       then (ROUTE_LANE_SERIAL, ROUTE_REASON_CONT_UNAVAILABLE)
     else if surf \<noteq> DS4_WIRE_OPENAI_CHAT \<and> surf \<noteq> DS4_WIRE_OPENAI_COMPLETION \<and> \<not> cont_promoted surf env
       then (ROUTE_LANE_SERIAL, ROUTE_REASON_SURFACE)
     else if \<not> re_coalesce env then (ROUTE_LANE_SERIAL, ROUTE_REASON_COALESCE_OFF)
     else if re_have_cont env \<and> re_prompt_len env > 0 \<and> re_prompt_len env \<le> re_seq_cap env
       then (ROUTE_LANE_CONTINUOUS,
             if needs AND NEED_BANK_FRONTIER \<noteq> 0 then ROUTE_REASON_CONT_BANK else ROUTE_REASON_CONT)
     else if needs AND NEED_IMAGE \<noteq> 0 then (ROUTE_LANE_NONE, ROUTE_REASON_CONT_UNAVAILABLE)
     else if needs AND NOT ROUTE_STATIC_MASK = 0 \<and>
             (surf = DS4_WIRE_OPENAI_CHAT \<or> surf = DS4_WIRE_OPENAI_COMPLETION \<or> cont_promoted surf env)
       then (ROUTE_LANE_STATIC,
             if re_have_cont env then ROUTE_REASON_STATIC_PROMPT_BOUNDS else ROUTE_REASON_STATIC_NO_CONT)
     else (ROUTE_LANE_SERIAL, ROUTE_REASON_CONT_UNAVAILABLE))"

text \<open>One counter per reason.\<close>

definition route_decision_record :: "(route_reason \<Rightarrow> u64) \<Rightarrow> route_lane \<times> route_reason \<Rightarrow> route_reason \<Rightarrow> u64" where
  "route_decision_record c d = c(snd d := c (snd d) + 1)"

text \<open>The worker's three-way dispatch: the last branch takes the serial lane and no lane alike.\<close>

datatype runner = GENERATE_CONTINUOUS_JOBS | COALESCE_GATHER | RUN_JOB_SINGLE

definition worker_dispatch :: "route_lane \<Rightarrow> runner" where
  "worker_dispatch l =
     (if l = ROUTE_LANE_CONTINUOUS then GENERATE_CONTINUOUS_JOBS
      else if l = ROUTE_LANE_STATIC then COALESCE_GATHER
      else RUN_JOB_SINGLE)"

subsection \<open>The predicates that the decision replaced\<close>

definition job_is_batchable :: "'a route_request_scheme \<Rightarrow> bool" where
  "job_is_batchable r =
     (if rq_api r \<noteq> API_OPENAI then False
      else if rq_kind r \<noteq> REQ_CHAT \<and> rq_kind r \<noteq> REQ_COMPLETION then False
      else if rq_return_token_ids r \<and> \<not> (rq_stream r \<and> rq_kind r = REQ_CHAT) then False
      else if rq_has_tools r \<and> rq_kind r \<noteq> REQ_CHAT then False
      else True)"

definition job_is_static_batchable :: "'a route_request_scheme \<Rightarrow> bool" where
  "job_is_static_batchable r =
     (job_is_batchable r \<and> \<not> rq_stream r \<and> rq_temperature r \<le> 0 \<and>
      \<not> ds4_think_mode_enabled (rq_think_mode r) \<and> \<not> rq_has_tools r \<and> rq_stops_len r = 0)"

text \<open>May a queued request join a static group; the switches are the server's.\<close>

definition job_static_peer_ok :: "bool \<Rightarrow> bool \<Rightarrow> 'a route_request_scheme \<Rightarrow> bool" where
  "job_static_peer_ok cont_anthropic cont_responses r =
     (if job_is_static_batchable r then True
      else if rq_kind r \<noteq> REQ_CHAT then False
      else if \<not> (cont_anthropic \<and> rq_api r = API_ANTHROPIC \<or> cont_responses \<and> rq_api r = API_RESPONSES) then False
      else request_compute_needs r = 0)"

text \<open>The tables of the test suite.\<close>

definition route_legacy_oracle :: "'a route_request_scheme \<Rightarrow> bool \<Rightarrow> bool \<Rightarrow> int \<Rightarrow> route_lane" where
  "route_legacy_oracle r coalesce_on have_cont seq_cap =
     (if coalesce_on \<and> job_is_batchable r
      then (if have_cont \<and> rq_prompt_len r > 0 \<and> rq_prompt_len r \<le> seq_cap then ROUTE_LANE_CONTINUOUS
            else if job_is_static_batchable r then ROUTE_LANE_STATIC
            else ROUTE_LANE_SERIAL)
      else ROUTE_LANE_SERIAL)"

definition oracle_promoted ::
  "u32 \<Rightarrow> 'a route_request_scheme \<Rightarrow> bool \<Rightarrow> bool \<Rightarrow> int \<Rightarrow> route_lane" where
  "oracle_promoted m r coalesce_on have_cont seq_cap =
     (let needs = request_compute_needs r
      in if coalesce_on \<and> (rq_api r = API_ANTHROPIC \<or> rq_api r = API_RESPONSES) \<and>
            needs AND NOT m = 0 \<and> needs AND NEED_TOKEN_IDS = 0
         then (if have_cont \<and> rq_prompt_len r > 0 \<and> rq_prompt_len r \<le> seq_cap then ROUTE_LANE_CONTINUOUS
               else if needs = 0 then ROUTE_LANE_STATIC
               else route_legacy_oracle r coalesce_on have_cont seq_cap)
         else route_legacy_oracle r coalesce_on have_cont seq_cap)"

definition route_inc5_oracle :: "'a route_request_scheme \<Rightarrow> bool \<Rightarrow> bool \<Rightarrow> int \<Rightarrow> route_lane" where
  "route_inc5_oracle r = oracle_promoted ROUTE_CONT_MASK r"

definition route_expected_oracle :: "'a route_request_scheme \<Rightarrow> bool \<Rightarrow> bool \<Rightarrow> int \<Rightarrow> route_lane" where
  "route_expected_oracle r =
     (let m = ROUTE_CONT_MASK OR NEED_BANK_FRONTIER;
          m = (if rq_stream r then m OR NEED_CONTINUATION_PUBLISH else m)
      in oracle_promoted m r)"

subsection \<open>The needs word, bit by bit\<close>

lemma and_push_bit_iff: "n AND push_bit k 1 \<noteq> 0 \<longleftrightarrow> bit n k" for n :: u32
  by (simp add: push_bit_eq_mult and_exp_eq_0_iff_not_bit)

lemma need_bits:
  "n AND NEED_STREAMING \<noteq> 0 \<longleftrightarrow> bit n 0"
  "n AND NEED_PER_ROW_SAMPLING \<noteq> 0 \<longleftrightarrow> bit n 1"
  "n AND NEED_THINKING \<noteq> 0 \<longleftrightarrow> bit n 2"
  "n AND NEED_STOP_SCAN \<noteq> 0 \<longleftrightarrow> bit n 3"
  "n AND NEED_TOOL_SCAN \<noteq> 0 \<longleftrightarrow> bit n 4"
  "n AND NEED_TOKEN_IDS \<noteq> 0 \<longleftrightarrow> bit n 5"
  "n AND NEED_LIVE_FRONTIER \<noteq> 0 \<longleftrightarrow> bit n 6"
  "n AND NEED_CONTINUATION_PUBLISH \<noteq> 0 \<longleftrightarrow> bit n 7"
  "n AND NEED_CORRECTIVE_RECOVERY \<noteq> 0 \<longleftrightarrow> bit n 8"
  "n AND NEED_DURABLE_RESPONSE \<noteq> 0 \<longleftrightarrow> bit n 9"
  "n AND NEED_PREFILL_ONLY \<noteq> 0 \<longleftrightarrow> bit n 10"
  "n AND NEED_BANK_FRONTIER \<noteq> 0 \<longleftrightarrow> bit n 11"
  "n AND NEED_IMAGE \<noteq> 0 \<longleftrightarrow> bit n 12"
  by (simp_all only: need_defs and_push_bit_iff)

lemma bit_push_bit_one: "k < 32 \<Longrightarrow> bit (push_bit k 1 :: u32) i \<longleftrightarrow> i = k"
  by (auto simp: bit_push_bit_iff bit_simps)

lemma bit_need:
  "bit NEED_STREAMING i \<longleftrightarrow> i = 0"
  "bit NEED_PER_ROW_SAMPLING i \<longleftrightarrow> i = 1"
  "bit NEED_THINKING i \<longleftrightarrow> i = 2"
  "bit NEED_STOP_SCAN i \<longleftrightarrow> i = 3"
  "bit NEED_TOOL_SCAN i \<longleftrightarrow> i = 4"
  "bit NEED_TOKEN_IDS i \<longleftrightarrow> i = 5"
  "bit NEED_LIVE_FRONTIER i \<longleftrightarrow> i = 6"
  "bit NEED_CONTINUATION_PUBLISH i \<longleftrightarrow> i = 7"
  "bit NEED_CORRECTIVE_RECOVERY i \<longleftrightarrow> i = 8"
  "bit NEED_DURABLE_RESPONSE i \<longleftrightarrow> i = 9"
  "bit NEED_PREFILL_ONLY i \<longleftrightarrow> i = 10"
  "bit NEED_BANK_FRONTIER i \<longleftrightarrow> i = 11"
  "bit NEED_IMAGE i \<longleftrightarrow> i = 12"
  unfolding need_defs by (rule bit_push_bit_one, simp)+

lemma bit_or_needs: "bit (fold or_need cms n) i \<longleftrightarrow> bit n i \<or> (\<exists>cm \<in> set cms. fst cm \<and> bit (snd cm) i)"
  by (induction cms arbitrary: n) (auto simp: or_need_def bit_or_iff)

lemma bit_compute_needs:
  "bit (request_compute_needs r) i \<longleftrightarrow>
     i = 0 \<and> rq_stream r \<or> i = 1 \<and> rq_temperature r > 0 \<or> i = 2 \<and> rq_think_mode r \<noteq> DS4_THINK_NONE \<or>
     i = 3 \<and> rq_stops_len r > 0 \<or> i = 4 \<and> rq_has_tools r \<or> i = 5 \<and> rq_return_token_ids r \<or>
     i = 6 \<and> request_live r \<and> \<not> rq_live_state_bank_owned r \<or>
     i = 7 \<and> rq_has_tools r \<and> rq_api r \<noteq> API_OPENAI \<or>
     i = 8 \<and> rq_has_tools r \<and> rq_api r \<noteq> API_OPENAI \<and> \<not> rq_stream r \<or>
     i = 10 \<and> rq_api r = API_ANTHROPIC \<and> rq_max_tokens_set r \<and> rq_max_tokens r \<le> 0 \<or>
     i = 11 \<and> request_live r \<and> rq_live_state_bank_owned r \<or> i = 12 \<and> rq_images_len r > 0"
  unfolding request_compute_needs_def bit_or_needs by (auto simp: bit_need ds4_think_mode_enabled_def)

lemma bit_needs_bound: "bit (request_compute_needs r) i \<Longrightarrow> i \<noteq> 9 \<and> i < 13"
  by (auto simp: bit_compute_needs)

text \<open>A mask covers a word exactly when it has every bit of it.\<close>

lemma and_not_eq_0_iff: "n AND NOT m = 0 \<longleftrightarrow> (\<forall>i. bit n i \<longrightarrow> bit m i)" for n m :: u32
proof
  show "n AND NOT m = 0 \<Longrightarrow> \<forall>i. bit n i \<longrightarrow> bit m i"
    by (metis bit_0_eq bit_and_iff bit_imp_le_length bit_not_iff bot_apply bot_bool_def not_less possible_bit_word)
  show "\<forall>i. bit n i \<longrightarrow> bit m i \<Longrightarrow> n AND NOT m = 0"
    by (intro bit_eqI) (simp add: bit_and_iff bit_not_iff)
qed

lemma bit_cont_mask: "bit ROUTE_CONT_MASK i \<longleftrightarrow> i \<in> {0, 1, 2, 3, 4, 5, 12}"
  by (auto simp: ROUTE_CONT_MASK_def bit_or_iff bit_need)

lemma bit_cont_mask_for:
  "bit (cont_mask_for needs surf env) i \<longleftrightarrow> i \<in> {0, 1, 2, 3, 4, 5, 12} \<or>
     tools_promoted surf env \<and> (i = 11 \<or> i = 7 \<and> bit needs 0)"
  by (auto simp: cont_mask_for_def bit_or_iff bit_need bit_cont_mask need_bits)

lemma needs_eq_0_iff: "request_compute_needs r = 0 \<longleftrightarrow>
    \<not> rq_stream r \<and> rq_temperature r \<le> 0 \<and> rq_think_mode r = DS4_THINK_NONE \<and> rq_stops_len r \<le> 0 \<and>
    \<not> rq_has_tools r \<and> \<not> rq_return_token_ids r \<and> \<not> request_live r \<and> rq_images_len r \<le> 0 \<and>
    \<not> (rq_api r = API_ANTHROPIC \<and> rq_max_tokens_set r \<and> rq_max_tokens r \<le> 0)"
  (is "_ \<longleftrightarrow> ?rhs")
proof -
  have "request_compute_needs r = 0 \<longleftrightarrow> (\<forall>i. \<not> bit (request_compute_needs r) i)"
    by (metis bit_eqI bit_0_eq bot_apply bot_bool_def)
  also have "\<dots> \<longleftrightarrow> ?rhs"
    unfolding bit_compute_needs de_Morgan_disj all_conj_distrib by (simp add: not_less) blast
  finally show ?thesis .
qed

subsection \<open>The decision as a capability table\<close>

text \<open>
  What the continuous lane can serve, and whether a prompt fits it. The ladder of \<open>route_decide\<close> computes
  the lane of this table.
\<close>

definition cont_serves :: "u32 \<Rightarrow> ds4_wire_surface \<Rightarrow> ds4_route_env \<Rightarrow> bool" where
  "cont_serves needs surf env =
     (needs AND NOT (cont_mask_for needs surf env) = 0 \<and>
      (bit needs 5 \<longrightarrow> bit needs 0 \<and> surf = DS4_WIRE_OPENAI_CHAT) \<and>
      (bit needs 4 \<longrightarrow> surf \<noteq> DS4_WIRE_OPENAI_COMPLETION) \<and>
      (surf = DS4_WIRE_OPENAI_CHAT \<or> surf = DS4_WIRE_OPENAI_COMPLETION \<or> cont_promoted surf env))"

definition cont_fits :: "ds4_route_env \<Rightarrow> bool" where
  "cont_fits env = (re_have_cont env \<and> 0 < re_prompt_len env \<and> re_prompt_len env \<le> re_seq_cap env)"

definition route_table :: "u32 \<Rightarrow> ds4_wire_surface \<Rightarrow> ds4_route_env \<Rightarrow> route_lane" where
  "route_table needs surf env =
     (if bit needs 9 then ROUTE_LANE_NONE
      else if \<not> cont_serves needs surf env \<or> \<not> re_coalesce env then ROUTE_LANE_SERIAL
      else if cont_fits env then ROUTE_LANE_CONTINUOUS
      else if bit needs 12 then ROUTE_LANE_NONE
      else if needs = 0 then ROUTE_LANE_STATIC
      else ROUTE_LANE_SERIAL)"

text \<open>The needs that stop a request before the mask is consulted are outside the mask.\<close>

lemma cont_serves_needs:
  assumes "cont_serves needs surf env"
  shows "\<not> bit needs 6" "\<not> bit needs 8" "\<not> bit needs 9" "\<not> bit needs 10"
    "bit needs 11 \<Longrightarrow> tools_promoted surf env" "bit needs 7 \<Longrightarrow> bit needs 0 \<and> tools_promoted surf env"
  using assms unfolding cont_serves_def and_not_eq_0_iff bit_cont_mask_for by fastforce+

text \<open>The ladder, once the checks of the capabilities have passed.\<close>

lemma route_decide_serves:
  assumes "cont_serves needs surf env"
  shows "route_decide needs surf env =
    (if \<not> re_coalesce env then (ROUTE_LANE_SERIAL, ROUTE_REASON_COALESCE_OFF)
     else if cont_fits env then (ROUTE_LANE_CONTINUOUS, if bit needs 11 then ROUTE_REASON_CONT_BANK else ROUTE_REASON_CONT)
     else if bit needs 12 then (ROUTE_LANE_NONE, ROUTE_REASON_CONT_UNAVAILABLE)
     else if needs = 0
       then (ROUTE_LANE_STATIC, if re_have_cont env then ROUTE_REASON_STATIC_PROMPT_BOUNDS else ROUTE_REASON_STATIC_NO_CONT)
     else (ROUTE_LANE_SERIAL, ROUTE_REASON_CONT_UNAVAILABLE))"
proof -
  note c = cont_serves_needs [OF assms]
  have m: "needs AND NOT (cont_mask_for needs surf env) = 0" and u: "\<not> (bit needs 4 \<and> surf = DS4_WIRE_OPENAI_COMPLETION)"
    and w: "surf = DS4_WIRE_OPENAI_CHAT \<or> surf = DS4_WIRE_OPENAI_COMPLETION \<or> cont_promoted surf env"
    and a: "\<not> (bit needs 11 \<and> \<not> tools_promoted surf env)" "\<not> (bit needs 7 \<and> \<not> (bit needs 0 \<and> tools_promoted surf env))"
      "\<not> (bit needs 5 \<and> \<not> (bit needs 0 \<and> surf = DS4_WIRE_OPENAI_CHAT))"
      "\<not> (surf \<noteq> DS4_WIRE_OPENAI_CHAT \<and> surf \<noteq> DS4_WIRE_OPENAI_COMPLETION \<and> \<not> cont_promoted surf env)"
    using assms c unfolding cont_serves_def by blast+
  show ?thesis
    using m w by (simp only: route_decide_def need_bits c a u) (simp add: cont_fits_def ROUTE_STATIC_MASK_def)
qed

lemma not_serves_cases:
  assumes "\<not> cont_serves needs surf env"
  obtains "needs AND NOT (cont_mask_for needs surf env) \<noteq> 0"
    | "bit needs 5 \<and> \<not> (bit needs 0 \<and> surf = DS4_WIRE_OPENAI_CHAT)"
    | "bit needs 4 \<and> surf = DS4_WIRE_OPENAI_COMPLETION"
    | "needs AND NOT (cont_mask_for needs surf env) = 0"
      "surf \<noteq> DS4_WIRE_OPENAI_CHAT \<and> surf \<noteq> DS4_WIRE_OPENAI_COMPLETION \<and> \<not> cont_promoted surf env"
  using assms unfolding cont_serves_def by blast

lemma route_decide_lane: "fst (route_decide needs surf env) = route_table needs surf env"
proof (cases "cont_serves needs surf env")
  case True
  then show ?thesis using cont_serves_needs(3) [OF True] by (simp add: route_decide_serves route_table_def)
next
  case False
  then show ?thesis
    by (cases rule: not_serves_cases)
      (use False in \<open>simp_all only: route_decide_def route_table_def need_bits simp_thms if_True if_cancel if_distrib [of fst] fst_conv\<close>)
qed

subsection \<open>What the routing of a request guarantees\<close>

text \<open>
  C8. The ladder of \<open>route_decide\<close> is the capability table. For every needs word, surface and environment
  the lane is: none for a durable reference; serial unless coalescing is on and the continuous lane has
  every capability asked for on that surface; then continuous if it exists and the prompt fits, none for an
  image, static for a request that needs nothing, and serial for the rest.
\<close>

theorem route_decide_table: "fst (route_decide needs surf env) = route_table needs surf env"
  by (rule route_decide_lane)

text \<open>The capabilities asked for, read off the request.\<close>

lemma cont_serves_request:
  "cont_serves (request_compute_needs r) (wire_surface_for r) env \<longleftrightarrow>
     \<not> (request_live r \<and> \<not> (rq_live_state_bank_owned r \<and> tools_promoted (wire_surface_for r) env)) \<and>
     \<not> (rq_has_tools r \<and> rq_api r \<noteq> API_OPENAI \<and> \<not> (rq_stream r \<and> tools_promoted (wire_surface_for r) env)) \<and>
     \<not> (rq_api r = API_ANTHROPIC \<and> rq_max_tokens_set r \<and> rq_max_tokens r \<le> 0) \<and>
     (rq_return_token_ids r \<longrightarrow> rq_stream r \<and> rq_api r = API_OPENAI \<and> rq_kind r = REQ_CHAT) \<and>
     (rq_has_tools r \<longrightarrow> \<not> (rq_api r = API_OPENAI \<and> rq_kind r = REQ_COMPLETION)) \<and>
     (rq_api r = API_OPENAI \<or> cont_promoted (wire_surface_for r) env)"
proof -
  have m: "request_compute_needs r AND NOT (cont_mask_for (request_compute_needs r) (wire_surface_for r) env) = 0 \<longleftrightarrow>
     \<not> (request_live r \<and> \<not> (rq_live_state_bank_owned r \<and> tools_promoted (wire_surface_for r) env)) \<and>
     \<not> (rq_has_tools r \<and> rq_api r \<noteq> API_OPENAI \<and> \<not> (rq_stream r \<and> tools_promoted (wire_surface_for r) env)) \<and>
     \<not> (rq_api r = API_ANTHROPIC \<and> rq_max_tokens_set r \<and> rq_max_tokens r \<le> 0)"
    unfolding and_not_eq_0_iff bit_cont_mask_for bit_compute_needs imp_disjL all_conj_distrib by simp blast
  have surf: "wire_surface_for r = DS4_WIRE_OPENAI_CHAT \<longleftrightarrow> rq_api r = API_OPENAI \<and> rq_kind r = REQ_CHAT"
    "wire_surface_for r = DS4_WIRE_OPENAI_COMPLETION \<longleftrightarrow> rq_api r = API_OPENAI \<and> rq_kind r = REQ_COMPLETION"
    by (cases "rq_api r"; cases "rq_kind r"; simp add: wire_surface_for_def)+
  have bits: "bit (request_compute_needs r) 5 \<longleftrightarrow> rq_return_token_ids r" "bit (request_compute_needs r) 4 \<longleftrightarrow> rq_has_tools r"
    "bit (request_compute_needs r) 0 \<longleftrightarrow> rq_stream r"
    by (simp_all add: bit_compute_needs)
  have kind: "rq_api r = API_OPENAI \<longleftrightarrow> rq_api r = API_OPENAI \<and> rq_kind r = REQ_CHAT \<or> rq_api r = API_OPENAI \<and> rq_kind r = REQ_COMPLETION"
    by (cases "rq_kind r") auto
  show ?thesis unfolding cont_serves_def m surf bits using kind by blast
qed

text \<open>No computed needs word has the durable bit.\<close>

lemma route_request_lane:
  "fst (route_decide (request_compute_needs r) (wire_surface_for r) env) =
     (if \<not> cont_serves (request_compute_needs r) (wire_surface_for r) env \<or> \<not> re_coalesce env then ROUTE_LANE_SERIAL
      else if cont_fits env then ROUTE_LANE_CONTINUOUS
      else if rq_images_len r > 0 then ROUTE_LANE_NONE
      else if request_compute_needs r = 0 then ROUTE_LANE_STATIC
      else ROUTE_LANE_SERIAL)"
  by (simp add: route_decide_lane route_table_def bit_compute_needs)

text \<open>The environment that a dispatch site builds for a request.\<close>

definition env_for :: "bool \<Rightarrow> bool \<Rightarrow> bool \<Rightarrow> bool \<Rightarrow> int \<Rightarrow> 'a route_request_scheme \<Rightarrow> ds4_route_env" where
  "env_for coalesce have_cont surfaces tools seq_cap r =
     \<lparr>re_coalesce = coalesce, re_have_cont = have_cont, re_cont_anthropic = surfaces, re_cont_responses = surfaces,
      re_cont_tools_anthropic = tools, re_cont_tools_responses = tools, re_seq_cap = seq_cap,
      re_prompt_len = rq_prompt_len r\<rparr>"

lemma env_for_simps [simp]:
  "re_coalesce (env_for c h s t q r) = c" "re_have_cont (env_for c h s t q r) = h"
  "cont_fits (env_for c h s t q r) \<longleftrightarrow> h \<and> 0 < rq_prompt_len r \<and> rq_prompt_len r \<le> q"
  "cont_promoted (wire_surface_for r) (env_for c h s t q r) \<longleftrightarrow> s \<and> rq_api r \<noteq> API_OPENAI"
  "tools_promoted (wire_surface_for r) (env_for c h s t q r) \<longleftrightarrow> s \<and> t \<and> rq_api r \<noteq> API_OPENAI"
  by (cases "rq_api r"; auto simp: env_for_def cont_fits_def cont_promoted_def tools_promoted_def wire_surface_for_def)+

subsection \<open>The tables of the test suite\<close>

text \<open>What the parsers guarantee of a request, and what the tables do not cover: images.\<close>

definition request_coherent :: "'a route_request_scheme \<Rightarrow> bool" where
  "request_coherent r = (0 \<le> rq_stops_len r \<and> rq_images_len r \<le> 0 \<and> \<not> (request_live r \<and> rq_api r = API_OPENAI))"

lemma batchable_iff: "job_is_batchable r \<longleftrightarrow> rq_api r = API_OPENAI \<and>
    (rq_return_token_ids r \<longrightarrow> rq_stream r \<and> rq_kind r = REQ_CHAT) \<and> (rq_has_tools r \<longrightarrow> rq_kind r \<noteq> REQ_COMPLETION)"
  by (cases "rq_kind r") (auto simp: job_is_batchable_def)

lemma static_batchable_iff:
  assumes "request_coherent r" "rq_api r = API_OPENAI"
  shows "job_is_static_batchable r \<longleftrightarrow> request_compute_needs r = 0"
proof -
  have "\<not> rq_stream r \<Longrightarrow> \<not> rq_has_tools r \<Longrightarrow> job_is_batchable r \<longleftrightarrow> \<not> rq_return_token_ids r"
    using assms(2) by (auto simp: batchable_iff)
  then show ?thesis
    using assms unfolding job_is_static_batchable_def needs_eq_0_iff request_coherent_def ds4_think_mode_enabled_def
    by (auto simp: batchable_iff)
qed

text \<open>Both routes agree on the OpenAI surfaces, whatever the switches are.\<close>

lemma route_openai:
  assumes "request_coherent r" "rq_api r = API_OPENAI"
  shows "fst (route_decide (request_compute_needs r) (wire_surface_for r) (env_for c h s t q r)) =
    route_legacy_oracle r c h q"
proof -
  have b: "cont_serves (request_compute_needs r) (wire_surface_for r) (env_for c h s t q r) \<longleftrightarrow> job_is_batchable r"
    using assms unfolding cont_serves_request batchable_iff request_coherent_def by (cases "rq_kind r") auto
  have st: "job_is_static_batchable r \<longleftrightarrow> request_compute_needs r = 0" "\<not> 0 < rq_images_len r"
    using assms static_batchable_iff by (auto simp: request_coherent_def)
  show ?thesis unfolding route_request_lane b route_legacy_oracle_def by (simp add: st)
qed

lemma oracle_openai: "rq_api r = API_OPENAI \<Longrightarrow> oracle_promoted m r c h q = route_legacy_oracle r c h q"
  by (simp add: oracle_promoted_def Let_def)

lemma legacy_other: "rq_api r \<noteq> API_OPENAI \<Longrightarrow> route_legacy_oracle r c h q = ROUTE_LANE_SERIAL"
  by (simp add: route_legacy_oracle_def batchable_iff)

text \<open>On the other surfaces a table that promotes the mask \<open>m\<close> is the decision, if \<open>m\<close> is what the lane serves.\<close>

lemma route_promoted:
  assumes "request_coherent r" "rq_api r \<noteq> API_OPENAI"
    and m: "cont_serves (request_compute_needs r) (wire_surface_for r) (env_for c h s t q r) \<longleftrightarrow>
      request_compute_needs r AND NOT m = 0 \<and> \<not> rq_return_token_ids r"
  shows "fst (route_decide (request_compute_needs r) (wire_surface_for r) (env_for c h s t q r)) = oracle_promoted m r c h q"
proof -
  have "rq_api r = API_ANTHROPIC \<or> rq_api r = API_RESPONSES" using assms(2) by (cases "rq_api r") auto
  moreover have "request_compute_needs r AND NEED_TOKEN_IDS \<noteq> 0 \<longleftrightarrow> rq_return_token_ids r"
    unfolding need_bits by (simp add: bit_compute_needs)
  ultimately show ?thesis
    using assms(1) unfolding route_request_lane m oracle_promoted_def Let_def legacy_other [OF assms(2)]
    by (auto simp: request_coherent_def)
qed

lemma needs_in_cont_mask:
  "request_compute_needs r AND NOT ROUTE_CONT_MASK = 0 \<longleftrightarrow> \<not> request_live r \<and>
     \<not> (rq_has_tools r \<and> rq_api r \<noteq> API_OPENAI) \<and> \<not> (rq_api r = API_ANTHROPIC \<and> rq_max_tokens_set r \<and> rq_max_tokens r \<le> 0)"
  unfolding and_not_eq_0_iff bit_cont_mask bit_compute_needs imp_disjL all_conj_distrib by simp blast

lemma needs_in_expected_mask:
  "request_compute_needs r AND NOT (if rq_stream r then (ROUTE_CONT_MASK OR NEED_BANK_FRONTIER) OR NEED_CONTINUATION_PUBLISH
       else ROUTE_CONT_MASK OR NEED_BANK_FRONTIER) = 0 \<longleftrightarrow> \<not> (request_live r \<and> \<not> rq_live_state_bank_owned r) \<and>
     \<not> (rq_has_tools r \<and> rq_api r \<noteq> API_OPENAI \<and> \<not> rq_stream r) \<and>
     \<not> (rq_api r = API_ANTHROPIC \<and> rq_max_tokens_set r \<and> rq_max_tokens r \<le> 0)"
  unfolding and_not_eq_0_iff bit_compute_needs imp_disjL all_conj_distrib
  by (simp add: bit_or_iff bit_cont_mask bit_need)

text \<open>
  Routing matches its tables. For every request without images that the parsers can produce and for
  every availability of the lanes, the decision with all switches on is the expected table of the test
  suite, with the tool switches off it is the previous table, and with the surface switches off it is the
  legacy dispatch tree, whatever the tool switches are.
\<close>

theorem route_matches_tables:
  assumes "request_coherent r"
  shows "fst (route_decide (request_compute_needs r) (wire_surface_for r) (env_for c h True True q r)) = route_expected_oracle r c h q \<and>
    fst (route_decide (request_compute_needs r) (wire_surface_for r) (env_for c h True False q r)) = route_inc5_oracle r c h q \<and>
    fst (route_decide (request_compute_needs r) (wire_surface_for r) (env_for c h False t q r)) = route_legacy_oracle r c h q"
proof (cases "rq_api r = API_OPENAI")
  case True
  then show ?thesis using route_openai [OF assms True]
    by (simp add: route_expected_oracle_def route_inc5_oracle_def Let_def oracle_openai)
next
  case False
  have "fst (route_decide (request_compute_needs r) (wire_surface_for r) (env_for c h True True q r)) = route_expected_oracle r c h q"
    unfolding route_expected_oracle_def Let_def
    by (rule route_promoted [OF assms False]) (use False in \<open>simp add: cont_serves_request needs_in_expected_mask; blast\<close>)
  moreover have "fst (route_decide (request_compute_needs r) (wire_surface_for r) (env_for c h True False q r)) = route_inc5_oracle r c h q"
    unfolding route_inc5_oracle_def
    by (rule route_promoted [OF assms False]) (use False in \<open>simp add: cont_serves_request needs_in_cont_mask; blast\<close>)
  moreover have "fst (route_decide (request_compute_needs r) (wire_surface_for r) (env_for c h False t q r)) = ROUTE_LANE_SERIAL"
    using False by (simp add: route_request_lane cont_serves_request)
  ultimately show ?thesis using legacy_other [OF False] by simp
qed

subsection \<open>Reasons, images, static groups and bank continuations\<close>

text \<open>A need outside the mask is one of those that a branch above the mask takes.\<close>

lemma needs_outside_mask:
  assumes "request_compute_needs r AND NOT (cont_mask_for (request_compute_needs r) surf env) \<noteq> 0"
  shows "bit (request_compute_needs r) 6 \<or> bit (request_compute_needs r) 8 \<or> bit (request_compute_needs r) 10 \<or>
    bit (request_compute_needs r) 11 \<and> \<not> tools_promoted surf env \<or>
    bit (request_compute_needs r) 7 \<and> \<not> (bit (request_compute_needs r) 0 \<and> tools_promoted surf env)"
proof -
  obtain i where i: "bit (request_compute_needs r) i"
    "\<not> (i \<in> {0, 1, 2, 3, 4, 5, 12} \<or> tools_promoted surf env \<and> (i = 11 \<or> i = 7 \<and> bit (request_compute_needs r) 0))"
    using assms unfolding and_not_eq_0_iff bit_cont_mask_for by blast
  moreover have "i \<noteq> 9 \<and> i < 13" using bit_needs_bound [OF i(1)] .
  then have "i \<in> {0, 1, 2, 3, 4, 5, 12} \<or> i = 6 \<or> i = 7 \<or> i = 8 \<or> i = 10 \<or> i = 11" by simp presburger
  ultimately show ?thesis by blast
qed

lemmas route_reason_ladder = route_decide_def need_bits simp_thms if_True if_False if_cancel route_reason.distinct snd_conv
  if_distrib [of "\<lambda>x. snd x = ROUTE_REASON_CONT_UNAVAILABLE"]

text \<open>
  The reason \<open>cont_unavailable\<close> is honest. For every request it is recorded exactly when the continuous
  lane could serve the request on a configured surface with coalescing on, but does not exist or does not
  hold the prompt, and the request needs something that the static lane lacks: the check that guards
  against a need without a branch never fires.
\<close>

theorem cont_unavailable_iff:
  "snd (route_decide (request_compute_needs r) (wire_surface_for r) env) = ROUTE_REASON_CONT_UNAVAILABLE \<longleftrightarrow>
     cont_serves (request_compute_needs r) (wire_surface_for r) env \<and> re_coalesce env \<and> \<not> cont_fits env \<and>
     request_compute_needs r \<noteq> 0"
proof -
  let ?n = "request_compute_needs r" and ?s = "wire_surface_for r"
  show ?thesis
  proof (cases "cont_serves ?n ?s env")
    case True
    moreover have "bit ?n 12 \<Longrightarrow> ?n \<noteq> 0" by (metis bit_0_eq bot_apply bot_bool_def)
    ultimately show ?thesis by (simp add: route_decide_serves)
  next
    case False
    have "snd (route_decide ?n ?s env) \<noteq> ROUTE_REASON_CONT_UNAVAILABLE"
      using False
    proof (cases rule: not_serves_cases)
      case 1
      from needs_outside_mask [OF this] show ?thesis
        by (elim disjE) (simp_all only: route_reason_ladder)
    qed (simp_all only: route_reason_ladder)
    then show ?thesis using False by simp
  qed
qed

text \<open>
  What a request asks for, in the words of the request and not of the needs: what the continuous lane
  can serve, with the switches of the two native surfaces, and what needs no lane of its own.
\<close>

definition surface_on :: "'a route_request_scheme \<Rightarrow> ds4_route_env \<Rightarrow> bool" where
  "surface_on r env =
     (case rq_api r of API_OPENAI \<Rightarrow> True | API_ANTHROPIC \<Rightarrow> re_cont_anthropic env | API_RESPONSES \<Rightarrow> re_cont_responses env)"

definition tools_on :: "'a route_request_scheme \<Rightarrow> ds4_route_env \<Rightarrow> bool" where
  "tools_on r env =
     (case rq_api r of API_OPENAI \<Rightarrow> False
      | API_ANTHROPIC \<Rightarrow> re_cont_anthropic env \<and> re_cont_tools_anthropic env
      | API_RESPONSES \<Rightarrow> re_cont_responses env \<and> re_cont_tools_responses env)"

definition request_served :: "'a route_request_scheme \<Rightarrow> ds4_route_env \<Rightarrow> bool" where
  "request_served r env \<longleftrightarrow> surface_on r env \<and>
     (request_live r \<longrightarrow> rq_live_state_bank_owned r \<and> tools_on r env) \<and>
     (rq_has_tools r \<longrightarrow> (if rq_api r = API_OPENAI then rq_kind r = REQ_CHAT else rq_stream r \<and> tools_on r env)) \<and>
     (rq_return_token_ids r \<longrightarrow> rq_stream r \<and> rq_api r = API_OPENAI \<and> rq_kind r = REQ_CHAT) \<and>
     \<not> (rq_api r = API_ANTHROPIC \<and> rq_max_tokens_set r \<and> rq_max_tokens r \<le> 0)"

definition request_plain :: "'a route_request_scheme \<Rightarrow> bool" where
  "request_plain r \<longleftrightarrow> \<not> rq_stream r \<and> rq_temperature r \<le> 0 \<and> rq_think_mode r = DS4_THINK_NONE \<and> rq_stops_len r \<le> 0 \<and>
     \<not> rq_has_tools r \<and> \<not> rq_return_token_ids r \<and> \<not> request_live r \<and> rq_images_len r \<le> 0 \<and>
     \<not> (rq_api r = API_ANTHROPIC \<and> rq_max_tokens_set r \<and> rq_max_tokens r \<le> 0)"

lemma request_served_iff: "cont_serves (request_compute_needs r) (wire_surface_for r) env \<longleftrightarrow> request_served r env"
proof -
  have "tools_promoted (wire_surface_for r) env \<longleftrightarrow> tools_on r env"
    "rq_api r = API_OPENAI \<or> cont_promoted (wire_surface_for r) env \<longleftrightarrow> surface_on r env"
    by (cases "rq_api r"; cases "rq_kind r"; simp add: wire_surface_for_def tools_promoted_def cont_promoted_def tools_on_def surface_on_def)+
  then show ?thesis
    unfolding cont_serves_request request_served_def by (cases "rq_kind r") auto
qed

text \<open>
  C33. Where a request goes and why, read off the request. It runs on the serial lane unless coalescing is on
  and everything it asks for is something the continuous lane does on that surface; then on the continuous
  lane, with a reason of its own for a bank's continuation, if that lane exists and the prompt fits;
  else no lane may run it if it has images, the static lane does if it asks for nothing at all, and the serial
  lane if it asks for anything else. The reason \<open>cont_unavailable\<close> is recorded for exactly those that the
  continuous lane could serve if it were there and that the static lane cannot. The worker nevertheless
  gives the requests with images that no lane may run to the serial runner.
\<close>

theorem route_request_exact:
  "(let d = route_decide (request_compute_needs r) (wire_surface_for r) env;
        served = request_served r env \<and> re_coalesce env;
        fits = re_have_cont env \<and> 0 < re_prompt_len env \<and> re_prompt_len env \<le> re_seq_cap env
    in fst d = (if \<not> served then ROUTE_LANE_SERIAL
                else if fits then ROUTE_LANE_CONTINUOUS
                else if rq_images_len r > 0 then ROUTE_LANE_NONE
                else if request_plain r then ROUTE_LANE_STATIC else ROUTE_LANE_SERIAL) \<and>
       (snd d = ROUTE_REASON_CONT_UNAVAILABLE \<longleftrightarrow> served \<and> \<not> fits \<and> \<not> request_plain r) \<and>
       (served \<and> fits \<longrightarrow> snd d = (if request_live r then ROUTE_REASON_CONT_BANK else ROUTE_REASON_CONT)) \<and>
       (fst d = ROUTE_LANE_NONE \<longrightarrow> worker_dispatch (fst d) = RUN_JOB_SINGLE))"
proof -
  let ?n = "request_compute_needs r" and ?s = "wire_surface_for r"
  have plain: "?n = 0 \<longleftrightarrow> request_plain r" unfolding needs_eq_0_iff request_plain_def ..
  have lane: "fst (route_decide ?n ?s env) = (if \<not> (request_served r env \<and> re_coalesce env) then ROUTE_LANE_SERIAL
      else if cont_fits env then ROUTE_LANE_CONTINUOUS
      else if rq_images_len r > 0 then ROUTE_LANE_NONE
      else if request_plain r then ROUTE_LANE_STATIC else ROUTE_LANE_SERIAL)"
    unfolding route_request_lane request_served_iff plain by simp
  have bank: "bit ?n 11 \<longleftrightarrow> request_live r" if "request_served r env"
    using that by (auto simp: bit_compute_needs request_served_def)
  have reason: "request_served r env \<and> re_coalesce env \<and> cont_fits env \<longrightarrow>
      snd (route_decide ?n ?s env) = (if request_live r then ROUTE_REASON_CONT_BANK else ROUTE_REASON_CONT)"
    using bank route_decide_serves [of ?n ?s env] by (simp add: request_served_iff)
  show ?thesis
    unfolding Let_def cont_fits_def [symmetric] lane cont_unavailable_iff request_served_iff plain
    using reason by (auto simp: worker_dispatch_def)
qed

text \<open>
  Who may join a static group. For a request without images that the parsers can produce, the check of
  the gather loop is the decision that the worker takes for a head job when there is no continuous lane:
  exactly the requests routed to the static lane join.
\<close>

theorem static_peer_iff_route:
  assumes "request_coherent r" and kind: "rq_api r = API_OPENAI \<or> rq_kind r = REQ_CHAT"
  shows "job_static_peer_ok s s r \<longleftrightarrow>
    fst (route_decide (request_compute_needs r) (wire_surface_for r) (env_for True False s t q r)) = ROUTE_LANE_STATIC"
proof (cases "rq_api r = API_OPENAI")
  case True
  then show ?thesis
    using route_openai [OF assms(1) True]
    by (simp add: job_static_peer_ok_def route_legacy_oracle_def job_is_static_batchable_def)
next
  case False
  have "job_static_peer_ok s s r \<longleftrightarrow> s \<and> request_compute_needs r = 0"
    using False kind by (cases "rq_api r") (auto simp: job_static_peer_ok_def job_is_static_batchable_def batchable_iff)
  then show ?thesis
    using assms(1) False by (auto simp: route_request_lane cont_serves_request request_coherent_def needs_eq_0_iff)
qed

text \<open>
  C30. A tool-result turn goes where its frontier is. A request that continues a live turn and holds no pin
  takes one before it is queued. If the pinned record belongs to a bank, the turn runs on the continuous lane
  exactly when the surface is tool-promoted and the lane serves and holds it, with the reason that says
  so; if no record was found, or it belongs to the serial session, the turn runs on the serial lane in
  every environment.
\<close>

theorem continuation_routes_to_owner:
  assumes "request_live r" "rq_cont_pin r = None" "\<not> rq_live_state_bank_owned r"
    and acq: "request_acquire_cont_pin now sv r = (r', sv')"
  shows "if (\<exists>a rec. rq_cont_pin r' = Some a \<and> rg_heap (sv_creg sv') a = Some rec \<and> cr_owner rec = CONT_OWNER_BATCH_BANK)
    then (fst (route_decide (request_compute_needs r') (wire_surface_for r') env) = ROUTE_LANE_CONTINUOUS \<longleftrightarrow>
        cont_serves (request_compute_needs r') (wire_surface_for r') env \<and> re_coalesce env \<and> cont_fits env) \<and>
      (fst (route_decide (request_compute_needs r') (wire_surface_for r') env) = ROUTE_LANE_CONTINUOUS \<longrightarrow>
        tools_promoted (wire_surface_for r') env \<and>
        snd (route_decide (request_compute_needs r') (wire_surface_for r') env) = ROUTE_REASON_CONT_BANK)
    else route_decide (request_compute_needs r') (wire_surface_for r') env = (ROUTE_LANE_SERIAL, ROUTE_REASON_NEED_LIVE_FRONTIER)"
proof -
  have live: "request_live r'"
    using acq assms(1) unfolding request_acquire_cont_pin_def request_live_def
    by (auto split: if_splits list.splits option.splits prod.splits api_style.splits)
  have own: "rq_live_state_bank_owned r' \<longleftrightarrow>
    (\<exists>a rec. rq_cont_pin r' = Some a \<and> rg_heap (sv_creg sv') a = Some rec \<and> cr_owner rec = CONT_OWNER_BATCH_BANK)"
    using acq assms(2,3) unfolding request_acquire_cont_pin_def
    by (auto split: if_splits list.splits option.splits prod.splits api_style.splits)
  show ?thesis
  proof (cases "rq_live_state_bank_owned r'")
    case True
    have b: "bit (request_compute_needs r') 11" using True live by (simp add: bit_compute_needs)
    let ?n = "request_compute_needs r'" and ?s = "wire_surface_for r'"
    have iff: "fst (route_decide ?n ?s env) = ROUTE_LANE_CONTINUOUS \<longleftrightarrow>
        cont_serves ?n ?s env \<and> re_coalesce env \<and> cont_fits env"
      by (auto simp: route_request_lane)
    have "cont_serves ?n ?s env \<and> re_coalesce env \<and> cont_fits env \<Longrightarrow>
        tools_promoted ?s env \<and> snd (route_decide ?n ?s env) = ROUTE_REASON_CONT_BANK"
      using b cont_serves_needs(5) [of ?n ?s env] by (auto simp: route_decide_serves)
    then show ?thesis using True iff unfolding own [symmetric] by simp
  next
    case False
    then have "bit (request_compute_needs r') 6" "\<not> bit (request_compute_needs r') 9" using live by (simp_all add: bit_compute_needs)
    then show ?thesis using False unfolding own [symmetric] by (simp add: route_decide_def need_bits)
  qed
qed

subsection \<open>Witnesses\<close>

definition demo_route :: route_request where
  "demo_route = \<lparr>rq_api = API_ANTHROPIC, rq_responses_live_call_ids = [], rq_anthropic_live_call_ids = [[97]],
     rq_cont_pin = None, rq_live_state_bank_owned = False, rq_kind = REQ_CHAT, rq_prompt_len = 16, rq_stops_len = 0,
     rq_max_tokens = 128, rq_max_tokens_set = True, rq_temperature = 0, rq_stream = True, rq_return_token_ids = False,
     rq_think_mode = DS4_THINK_NONE, rq_has_tools = True, rq_responses_requires_live_tool_state = False,
     rq_responses_requires_live_reasoning = False, rq_anthropic_requires_live_tool_state = True,
     rq_images_len = 0, rq_needs = 0\<rparr>"

definition demo_plain :: route_request where
  "demo_plain = demo_route\<lparr>rq_api := API_OPENAI, rq_stream := False, rq_has_tools := False,
     rq_anthropic_requires_live_tool_state := False\<rparr>"

theorem route_matches_tables_witness:
  "fst (route_decide (request_compute_needs demo_plain) (wire_surface_for demo_plain) (env_for True False True True 4096 demo_plain)) = ROUTE_LANE_STATIC"
proof -
  have "request_coherent demo_plain" by (simp add: request_coherent_def demo_plain_def demo_route_def request_live_def)
  moreover have "route_expected_oracle demo_plain True False 4096 = ROUTE_LANE_STATIC" by code_simp
  ultimately show ?thesis using route_matches_tables [of demo_plain True False 4096] by simp
qed

text \<open>
  Three requests and an environment without the continuous lane: one asks for nothing, one streams,
  one has an image.
\<close>

theorem route_request_exact_witness:
  "route_decide (request_compute_needs demo_plain) DS4_WIRE_OPENAI_CHAT (env_for True False True True 4096 demo_plain) =
     (ROUTE_LANE_STATIC, ROUTE_REASON_STATIC_NO_CONT) \<and>
   (let d = route_decide (request_compute_needs (demo_plain\<lparr>rq_stream := True, rq_images_len := 0\<rparr>)) DS4_WIRE_OPENAI_CHAT (env_for True False True True 4096 demo_plain)
    in d = (ROUTE_LANE_SERIAL, ROUTE_REASON_CONT_UNAVAILABLE)) \<and>
   (let d = route_decide (request_compute_needs (demo_plain\<lparr>rq_stream := False, rq_images_len := 1\<rparr>)) DS4_WIRE_OPENAI_CHAT (env_for True False True True 4096 demo_plain)
    in d = (ROUTE_LANE_NONE, ROUTE_REASON_CONT_UNAVAILABLE) \<and> worker_dispatch (fst d) = RUN_JOB_SINGLE)"
proof -
  let ?e = "env_for True False True True 4096 demo_plain"
  have surf: "wire_surface_for (demo_plain\<lparr>rq_stream := b, rq_images_len := i\<rparr>) = DS4_WIRE_OPENAI_CHAT" for b i
    by (simp add: wire_surface_for_def demo_plain_def demo_route_def)
  have served: "request_served (demo_plain\<lparr>rq_stream := b, rq_images_len := i\<rparr>) ?e"
    and plain: "request_plain (demo_plain\<lparr>rq_stream := b, rq_images_len := i\<rparr>) \<longleftrightarrow> \<not> b \<and> i \<le> 0" for b i
    by (auto simp: request_served_def request_plain_def surface_on_def request_live_def demo_plain_def demo_route_def)
  note T = route_request_exact [of "demo_plain\<lparr>rq_stream := True, rq_images_len := 0\<rparr>" ?e, unfolded surf]
    route_request_exact [of "demo_plain\<lparr>rq_stream := False, rq_images_len := 1\<rparr>" ?e, unfolded surf]
  have "route_decide (request_compute_needs demo_plain) DS4_WIRE_OPENAI_CHAT ?e = (ROUTE_LANE_STATIC, ROUTE_REASON_STATIC_NO_CONT)"
    by code_simp
  then show ?thesis
    using T served plain by (auto simp: Let_def prod_eq_iff env_for_def)
qed

theorem static_peer_iff_route_witness: "job_static_peer_ok True True demo_plain"
proof -
  have "request_coherent demo_plain" "rq_api demo_plain = API_OPENAI \<or> rq_kind demo_plain = REQ_CHAT"
    by (simp_all add: request_coherent_def demo_plain_def demo_route_def request_live_def)
  moreover have "fst (route_decide (request_compute_needs demo_plain) (wire_surface_for demo_plain)
     (env_for True False True True 4096 demo_plain)) = ROUTE_LANE_STATIC" by code_simp
  ultimately show ?thesis using static_peer_iff_route by metis
qed

text \<open>The check of the gather loop lets an image through where the decision does not.\<close>

lemma static_peer_image:
  "job_static_peer_ok True True (demo_plain\<lparr>rq_images_len := 1\<rparr>) \<and> request_compute_needs (demo_plain\<lparr>rq_images_len := 1\<rparr>) \<noteq> 0"
  by code_simp

theorem continuation_routes_to_owner_witness:
  "route_decide (request_compute_needs (fst (request_acquire_cont_pin 0 demo_bank demo_route))) DS4_WIRE_ANTHROPIC
     (env_for True True True True 4096 demo_route) = (ROUTE_LANE_CONTINUOUS, ROUTE_REASON_CONT_BANK)"
proof -
  define p where "p = request_acquire_cont_pin 0 demo_bank demo_route"
  have pin: "rq_cont_pin (fst p) = Some 8" "map_option cr_owner (rg_heap (sv_creg (snd p)) 8) = Some CONT_OWNER_BATCH_BANK"
    "cont_serves (request_compute_needs (fst p)) (wire_surface_for (fst p)) (env_for True True True True 4096 demo_route)"
    "wire_surface_for (fst p) = DS4_WIRE_ANTHROPIC" "cont_fits (env_for True True True True 4096 demo_route)"
    unfolding p_def by code_simp+
  have pre: "request_live demo_route" "rq_cont_pin demo_route = None" "\<not> rq_live_state_bank_owned demo_route"
    by (simp_all add: demo_route_def request_live_def)
  note T = continuation_routes_to_owner [OF pre, of 0 demo_bank "fst p" "snd p" "env_for True True True True 4096 demo_route"]
  have "\<exists>a rec. rq_cont_pin (fst p) = Some a \<and> rg_heap (sv_creg (snd p)) a = Some rec \<and> cr_owner rec = CONT_OWNER_BATCH_BANK"
    using pin(1,2) by auto
  then show ?thesis using T pin(3-5) by (simp add: p_def prod_eq_iff)
qed

end
