(* ===== verification/Job_Queue.thy ===== *)
theory Job_Queue
  imports Route
begin

section \<open>The job queue of the server\<close>

text \<open>
  Client threads submit jobs, one worker pulls them. The queue is a singly linked list through the
  \<open>next\<close> fields of the jobs with a head and a tail pointer, under the mutex \<open>mu\<close>; the counters beside
  it bound its depth and the request bytes held. A job lives in the frame of its client thread, so the
  store \<open>js_jobs\<close> maps the addresses of the jobs that were accepted and have not settled.

  What the socket says when it is probed and what the clock shows are the environment of a pull.
\<close>

datatype job_outcome = JOB_OUT_COMPLETED | JOB_OUT_FAILED | JOB_OUT_REFUSED_DEEP_SERIAL | JOB_OUT_CANCELED
  | JOB_OUT_SHED | JOB_OUT_SHED_CONT_HOLD

record job =
  jb_fd :: int
  jb_req :: route_request
  jb_done :: bool
  jb_next :: "nat option"
  jb_out :: bytes
  jb_client_gone :: bool
  jb_t_arrive :: rat
  jb_outcome :: job_outcome
  jb_body_bytes :: u64
  jb_slip_attempts :: int

datatype shed_reason = DS4_SHED_CLIENTS | DS4_SHED_QUEUE_DEPTH | DS4_SHED_QUEUE_BYTES | DS4_SHED_QUEUE_AGE
  | DS4_SHED_SLOW_READER | DS4_SHED_CONT_HOLD

record metrics =
  mx_requests_started :: u64
  mx_requests_inflight :: u64
  mx_requests_completed :: u64
  mx_requests_failed :: u64
  mx_requests_canceled :: u64
  mx_requests_refused_deep_serial :: u64
  mx_requests_shed :: "shed_reason \<Rightarrow> u64"
  mx_out_backlog_bytes :: u64

record jserver =
  js_jobs :: "nat \<Rightarrow> job option"
  js_head :: "nat option"
  js_tail :: "nat option"
  js_stopping :: bool
  js_max_clients :: int
  js_max_queue :: int
  js_max_queue_bytes :: u64
  js_max_queue_age :: rat
  js_queued :: int
  js_inflight_body_bytes :: u64
  js_cont_anthropic :: bool
  js_cont_responses :: bool
  js_cont_tools_anthropic :: bool
  js_cont_tools_responses :: bool
  js_default_tokens :: int
  js_metrics :: metrics

text \<open>\<open>*j\<close>, and an assignment to a field of it.\<close>

definition job_at :: "jserver \<Rightarrow> nat \<Rightarrow> job" where
  "job_at s a = the (js_jobs s a)"

definition upd_job :: "nat \<Rightarrow> (job \<Rightarrow> job) \<Rightarrow> jserver \<Rightarrow> jserver" where
  "upd_job a f s = s\<lparr>js_jobs := (js_jobs s)(a := map_option f (js_jobs s a))\<rparr>"

definition shed_record :: "shed_reason \<Rightarrow> jserver \<Rightarrow> jserver" where
  "shed_record r s = s\<lparr>js_metrics := (js_metrics s)\<lparr>mx_requests_shed :=
     (mx_requests_shed (js_metrics s))(r := mx_requests_shed (js_metrics s) r + 1)\<rparr>\<rparr>"

subsection \<open>Adding to the queue\<close>

datatype enq_verdict = ENQ_OK | ENQ_STOPPING | ENQ_SHED_QUEUE_DEPTH | ENQ_SHED_QUEUE_BYTES

definition enqueue :: "jserver \<Rightarrow> nat \<Rightarrow> enq_verdict \<times> jserver" where
  "enqueue s0 a =
    (let s = upd_job a (\<lambda>j. j\<lparr>jb_req := (jb_req j)\<lparr>rq_needs := request_compute_needs (jb_req j)\<rparr>\<rparr>) s0;
         body = jb_body_bytes (job_at s a)
     in if js_stopping s then (ENQ_STOPPING, s)
        else if js_max_queue s > 0 \<and> js_queued s \<ge> js_max_queue s then (ENQ_SHED_QUEUE_DEPTH, s)
        else if js_max_queue_bytes s > 0 \<and> js_inflight_body_bytes s + body > js_max_queue_bytes s
          then (ENQ_SHED_QUEUE_BYTES, s)
        else
          let s1 = (case js_tail s of
                      Some t \<Rightarrow> upd_job t (\<lambda>j. j\<lparr>jb_next := Some a\<rparr>) s
                    | None \<Rightarrow> s\<lparr>js_head := Some a\<rparr>)
          in (ENQ_OK, s1\<lparr>js_tail := Some a, js_queued := js_queued s1 + 1,
                js_inflight_body_bytes := js_inflight_body_bytes s1 + body\<rparr>))"

text \<open>
  The client thread around \<open>enqueue\<close>: it sets the job up, and on a refusal records the shed, answers and
  drops the job.
\<close>

definition client_submit :: "jserver \<Rightarrow> nat \<Rightarrow> job \<Rightarrow> enq_verdict \<times> jserver" where
  "client_submit s a j =
    (case enqueue (s\<lparr>js_jobs := (js_jobs s)(a \<mapsto> j)\<rparr>) a of
       (ENQ_OK, s1) \<Rightarrow> (ENQ_OK, s1\<lparr>js_metrics := (js_metrics s1)\<lparr>
            mx_requests_started := mx_requests_started (js_metrics s1) + 1,
            mx_requests_inflight := mx_requests_inflight (js_metrics s1) + 1\<rparr>\<rparr>)
     | (v, s1) \<Rightarrow>
         let s2 = (case v of ENQ_SHED_QUEUE_DEPTH \<Rightarrow> shed_record DS4_SHED_QUEUE_DEPTH s1
                     | ENQ_SHED_QUEUE_BYTES \<Rightarrow> shed_record DS4_SHED_QUEUE_BYTES s1
                     | _ \<Rightarrow> s1)
         in (v, s2\<lparr>js_jobs := (js_jobs s2)(a := None)\<rparr>))"

text \<open>The cheap bounds before the parse; the answer is the shed that the client gets, if any.\<close>

definition preparse_shed :: "jserver \<Rightarrow> bool \<Rightarrow> bool \<Rightarrow> int \<Rightarrow> u64 \<Rightarrow> shed_reason option \<times> jserver" where
  "preparse_shed s generation inference nclients body_len =
    (if generation \<and> js_max_clients s > 0 \<and> nclients > js_max_clients s
       then (Some DS4_SHED_CLIENTS, shed_record DS4_SHED_CLIENTS s)
     else if inference \<and> js_max_queue s > 0 \<and> js_queued s \<ge> js_max_queue s
       then (Some DS4_SHED_QUEUE_DEPTH, shed_record DS4_SHED_QUEUE_DEPTH s)
     else if inference \<and> js_max_queue_bytes s > 0 \<and> js_inflight_body_bytes s + body_len > js_max_queue_bytes s
       then (Some DS4_SHED_QUEUE_BYTES, shed_record DS4_SHED_QUEUE_BYTES s)
     else (None, s))"

definition requeue_job_head :: "nat \<Rightarrow> jserver \<Rightarrow> jserver" where
  "requeue_job_head a s =
    (let s1 = upd_job a (\<lambda>j. j\<lparr>jb_next := js_head s\<rparr>) s;
         s2 = s1\<lparr>js_head := Some a\<rparr>;
         s3 = (if js_tail s2 = None then s2\<lparr>js_tail := Some a\<rparr> else s2)
     in s3\<lparr>js_queued := js_queued s3 + 1\<rparr>)"

subsection \<open>Pulling from the queue\<close>

definition queue_unlink_head_locked :: "jserver \<Rightarrow> nat \<times> jserver" where
  "queue_unlink_head_locked s =
    (let a = the (js_head s);
         s1 = s\<lparr>js_head := jb_next (job_at s a)\<rparr>;
         s2 = (if js_head s1 = None then s1\<lparr>js_tail := None\<rparr> else s1);
         s3 = upd_job a (\<lambda>j. j\<lparr>jb_next := None\<rparr>) s2
     in (a, s3\<lparr>js_queued := js_queued s3 - 1\<rparr>))"

definition job_finish :: "nat \<Rightarrow> jserver \<Rightarrow> jserver" where
  "job_finish a s = upd_job a (\<lambda>j. j\<lparr>jb_done := True\<rparr>) s"

text \<open>
  The probe of a client's socket: what \<open>recv\<close> with \<open>MSG_PEEK\<close> answered. Only an orderly shutdown and a
  reset or missing connection mean that the client has left.
\<close>

datatype recv_result = RECV_BYTES | RECV_FIN | RECV_ECONNRESET | RECV_ENOTCONN | RECV_OTHER_ERROR

definition client_disconnected :: "recv_result \<Rightarrow> bool" where
  "client_disconnected r = (if r = RECV_FIN then True else r = RECV_ECONNRESET \<or> r = RECV_ENOTCONN)"

text \<open>
  The environment of a pull: the probe of a job's socket after it is unlinked, the clock when its age is
  checked, and the second probe that the shed of an over-age job makes.
\<close>

record pull_env =
  pe_recv :: "nat \<Rightarrow> recv_result"
  pe_now :: "nat \<Rightarrow> rat"
  pe_recv_shed :: "nat \<Rightarrow> recv_result"

definition pe_gone :: "pull_env \<Rightarrow> nat \<Rightarrow> bool" where
  "pe_gone env a = client_disconnected (pe_recv env a)"

definition pe_gone_shed :: "pull_env \<Rightarrow> nat \<Rightarrow> bool" where
  "pe_gone_shed env a = client_disconnected (pe_recv_shed env a)"

definition job_queue_aged :: "rat \<Rightarrow> jserver \<Rightarrow> nat \<Rightarrow> bool" where
  "job_queue_aged now s a =
     (if jb_slip_attempts (job_at s a) > 0 then False
      else js_max_queue_age s > 0 \<and> d_sub now (jb_t_arrive (job_at s a)) > js_max_queue_age s)"

definition set_outcome :: "nat \<Rightarrow> job_outcome \<Rightarrow> jserver \<Rightarrow> jserver" where
  "set_outcome a out s = upd_job a (\<lambda>j. j\<lparr>jb_outcome := out\<rparr>) s"

definition job_shed_aged :: "pull_env \<Rightarrow> nat \<Rightarrow> jserver \<Rightarrow> jserver" where
  "job_shed_aged env a s =
     (if pe_gone_shed env a then job_finish a (set_outcome a JOB_OUT_CANCELED s)
      else job_finish a (set_outcome a JOB_OUT_SHED s))"

datatype pull = PULL_WAIT | PULL_NULL | PULL_AGAIN | PULL_JOB nat

text \<open>One turn of the loop of \<open>dequeue\<close>; the waiting turn leaves the queue alone.\<close>

definition dequeue_turn :: "pull_env \<Rightarrow> jserver \<Rightarrow> pull \<times> jserver" where
  "dequeue_turn env s =
    (if js_head s = None \<and> \<not> js_stopping s then (PULL_WAIT, s)
     else if js_head s = None then (PULL_NULL, s)
     else case queue_unlink_head_locked s of
       (a, s1) \<Rightarrow>
         if pe_gone env a then (PULL_AGAIN, job_finish a (set_outcome a JOB_OUT_CANCELED s1))
         else if job_queue_aged (pe_now env a) s1 a then (PULL_AGAIN, job_shed_aged env a s1)
         else (PULL_JOB a, s1))"

text \<open>The loop of \<open>dequeue\<close>. It stops where the code blocks, so a caller can go on from there.\<close>

partial_function (option) dequeue :: "pull_env \<Rightarrow> jserver \<Rightarrow> (pull \<times> jserver) option" where
  "dequeue env s =
    (case dequeue_turn env s of
       (PULL_AGAIN, s') \<Rightarrow> dequeue env s'
     | (r, s') \<Rightarrow> Some (r, s'))"

text \<open>One turn of the pull of a running continuous group.\<close>

definition cont_pull_turn :: "pull_env \<Rightarrow> int \<Rightarrow> jserver \<Rightarrow> pull \<times> jserver" where
  "cont_pull_turn env seq_cap s =
    (case js_head s of
       None \<Rightarrow> (PULL_NULL, s)
     | Some h \<Rightarrow>
         if job_queue_aged (pe_now env h) s h
         then (case queue_unlink_head_locked s of (a, s1) \<Rightarrow> (PULL_AGAIN, job_shed_aged env a s1))
         else
           let r = jb_req (job_at s h);
               renv = \<lparr>re_coalesce = True, re_have_cont = True, re_cont_anthropic = js_cont_anthropic s,
                  re_cont_responses = js_cont_responses s, re_cont_tools_anthropic = js_cont_tools_anthropic s,
                  re_cont_tools_responses = js_cont_tools_responses s, re_seq_cap = seq_cap,
                  re_prompt_len = rq_prompt_len r\<rparr>
           in if fst (route_decide (rq_needs r) (wire_surface_for r) renv) = ROUTE_LANE_CONTINUOUS
              then (case queue_unlink_head_locked s of
                      (a, s1) \<Rightarrow> if pe_gone env a then (PULL_AGAIN, job_finish a (set_outcome a JOB_OUT_CANCELED s1))
                                  else (PULL_JOB a, s1))
              else (PULL_NULL, s))"

partial_function (option) cont_pull :: "pull_env \<Rightarrow> int \<Rightarrow> jserver \<Rightarrow> (pull \<times> jserver) option" where
  "cont_pull env seq_cap s =
    (case cont_pull_turn env seq_cap s of
       (PULL_AGAIN, s') \<Rightarrow> cont_pull env seq_cap s'
     | (r, s') \<Rightarrow> Some (r, s'))"

definition job_tok_footprint :: "jserver \<Rightarrow> nat \<Rightarrow> int" where
  "job_tok_footprint s a =
     rq_prompt_len (jb_req (job_at s a)) + request_decode_budget (jb_req (job_at s a)) (js_default_tokens s)"

text \<open>
  One turn of the gather loop, with the group so far and its token total; \<open>PULL_WAIT\<close> is the timed wait for
  stragglers, \<open>PULL_NULL\<close> a break.
\<close>

definition gather_turn :: "pull_env \<Rightarrow> int \<Rightarrow> int \<Rightarrow> nat list \<Rightarrow> int \<Rightarrow> jserver \<Rightarrow> pull \<times> (nat list \<times> int) \<times> jserver" where
  "gather_turn env wait_ms max_tok_total out tok_total s =
    (case js_head s of
       Some h \<Rightarrow>
         if job_static_peer_ok (js_cont_anthropic s) (js_cont_responses s) (jb_req (job_at s h))
         then (if max_tok_total > 0 \<and> tok_total + job_tok_footprint s h > max_tok_total then (PULL_NULL, (out, tok_total), s)
               else if job_queue_aged (pe_now env h) s h then (PULL_NULL, (out, tok_total), s)
               else case queue_unlink_head_locked s of
                 (g, s1) \<Rightarrow>
                   if pe_gone env g
                   then (PULL_AGAIN, (out, tok_total), job_finish g (set_outcome g JOB_OUT_CANCELED s1))
                   else (PULL_AGAIN, (out @ [g], tok_total + job_tok_footprint s1 g), s1))
         else (PULL_NULL, (out, tok_total), s)
     | None \<Rightarrow>
         if js_stopping s \<or> wait_ms \<le> 0 then (PULL_NULL, (out, tok_total), s)
         else (PULL_WAIT, (out, tok_total), s))"

text \<open>
  The loop. The list \<open>wake\<close> holds what happens at each timed wait: the jobs that clients submitted before
  the signal; when it is exhausted the wait times out.
\<close>

definition submit_all :: "(nat \<times> job) list \<Rightarrow> jserver \<Rightarrow> jserver" where
  "submit_all aj s = fold (\<lambda>(a, j) s. snd (client_submit s a j)) aj s"

partial_function (option) gather_loop ::
  "pull_env \<Rightarrow> int \<Rightarrow> int \<Rightarrow> int \<Rightarrow> (nat \<times> job) list list \<Rightarrow> nat list \<Rightarrow> int \<Rightarrow> jserver \<Rightarrow> (nat list \<times> jserver) option" where
  "gather_loop env cap wait_ms max_tok_total wake out tok_total s =
    (if \<not> int (length out) < cap then Some (out, s)
     else case gather_turn env wait_ms max_tok_total out tok_total s of
       (PULL_AGAIN, (out', tok'), s') \<Rightarrow> gather_loop env cap wait_ms max_tok_total wake out' tok' s'
     | (PULL_WAIT, _, s') \<Rightarrow>
         (case wake of [] \<Rightarrow> Some (out, s')
          | w # ws \<Rightarrow> gather_loop env cap wait_ms max_tok_total ws out tok_total (submit_all w s'))
     | (_, (out', _), s') \<Rightarrow> Some (out', s'))"

definition coalesce_gather ::
  "pull_env \<Rightarrow> int \<Rightarrow> int \<Rightarrow> int \<Rightarrow> (nat \<times> job) list list \<Rightarrow> nat \<Rightarrow> jserver \<Rightarrow> (nat list \<times> jserver) option" where
  "coalesce_gather env cap wait_ms max_tok_total wake j s =
     gather_loop env cap wait_ms max_tok_total wake [j] (job_tok_footprint s j) s"

subsection \<open>Settling\<close>

text \<open>The client thread after the worker is done with the job and its output is drained.\<close>

definition settle_metrics :: "job \<Rightarrow> metrics \<Rightarrow> metrics" where
  "settle_metrics j m0 =
    (let m = m0\<lparr>mx_requests_inflight := mx_requests_inflight m0 + - 1\<rparr>
     in if jb_outcome j = JOB_OUT_FAILED then m\<lparr>mx_requests_failed := mx_requests_failed m + 1\<rparr>
        else if jb_outcome j = JOB_OUT_REFUSED_DEEP_SERIAL
          then m\<lparr>mx_requests_refused_deep_serial := mx_requests_refused_deep_serial m + 1\<rparr>
        else if jb_outcome j = JOB_OUT_SHED
          then m\<lparr>mx_requests_shed := (mx_requests_shed m)(DS4_SHED_QUEUE_AGE := mx_requests_shed m DS4_SHED_QUEUE_AGE + 1)\<rparr>
        else if jb_outcome j = JOB_OUT_SHED_CONT_HOLD
          then m\<lparr>mx_requests_shed := (mx_requests_shed m)(DS4_SHED_CONT_HOLD := mx_requests_shed m DS4_SHED_CONT_HOLD + 1)\<rparr>
        else if jb_outcome j = JOB_OUT_CANCELED \<or> jb_client_gone j
          then m\<lparr>mx_requests_canceled := mx_requests_canceled m + 1\<rparr>
        else m\<lparr>mx_requests_completed := mx_requests_completed m + 1\<rparr>)"

definition client_settle :: "nat \<Rightarrow> jserver \<Rightarrow> jserver" where
  "client_settle a s =
    (let j = job_at s a
     in s\<lparr>js_inflight_body_bytes := js_inflight_body_bytes s - jb_body_bytes j,
          js_metrics := settle_metrics j (js_metrics s),
          js_jobs := (js_jobs s)(a := None)\<rparr>)"

subsection \<open>The list that the pointers represent\<close>

fun chain :: "(nat \<Rightarrow> job option) \<Rightarrow> nat option \<Rightarrow> nat list \<Rightarrow> bool" where
  "chain h p [] = (p = None)"
| "chain h p (a # xs) = (p = Some a \<and> (case h a of None \<Rightarrow> False | Some j \<Rightarrow> chain h (jb_next j) xs))"

text \<open>
  \<open>q_ok s xs\<close>: following \<open>next\<close> from the head visits \<open>xs\<close> and ends in a null pointer, the tail is its last
  job, the depth counter is its length, and a job that is not queued has no successor.
\<close>

definition q_ok :: "jserver \<Rightarrow> nat list \<Rightarrow> bool" where
  "q_ok s xs \<longleftrightarrow> chain (js_jobs s) (js_head s) xs \<and> distinct xs \<and> js_tail s = last_of xs \<and>
     js_queued s = int (length xs) \<and> (\<forall>a j. js_jobs s a = Some j \<longrightarrow> a \<notin> set xs \<longrightarrow> jb_next j = None)"

lemma chain_cong:
  "(\<And>a. a \<in> set xs \<Longrightarrow> map_option jb_next (h a) = map_option jb_next (h' a)) \<Longrightarrow> chain h p xs \<longleftrightarrow> chain h' p xs"
proof (induction xs arbitrary: p)
  case (Cons a xs)
  from Cons.prems [of a] have eq: "map_option jb_next (h a) = map_option jb_next (h' a)" by simp
  have IH: "chain h p xs \<longleftrightarrow> chain h' p xs" for p by (rule Cons.IH) (rule Cons.prems, simp)
  show ?case using eq by (cases "h a"; cases "h' a") (auto simp: IH)
qed simp

lemma chain_upd [simp]: "a \<notin> set xs \<Longrightarrow> chain (h(a := v)) p xs \<longleftrightarrow> chain h p xs"
  by (rule chain_cong) auto

lemma chain_dom: "chain h p xs \<Longrightarrow> a \<in> set xs \<Longrightarrow> \<exists>j. h a = Some j"
  by (induction xs arbitrary: p) (auto split: option.splits)

lemma chain_unique: "chain h p xs \<Longrightarrow> chain h p ys \<Longrightarrow> xs = ys"
proof (induction xs arbitrary: p ys)
  case Nil
  then show ?case by (cases ys) auto
next
  case (Cons a xs)
  then show ?case by (cases ys) (auto split: option.splits)
qed

lemma q_ok_unique: "q_ok s xs \<Longrightarrow> q_ok s ys \<Longrightarrow> xs = ys"
  unfolding q_ok_def using chain_unique by blast

lemma q_ok_dom: "q_ok s xs \<Longrightarrow> a \<in> set xs \<Longrightarrow> js_jobs s a = Some (job_at s a)"
  unfolding q_ok_def job_at_def using chain_dom by fastforce

lemma q_ok_head: "q_ok s xs \<Longrightarrow> js_head s = first_of xs"
  by (cases xs) (auto simp: q_ok_def split: option.splits)

text \<open>A change that leaves the pointers and the depth counter alone.\<close>

lemma q_ok_same:
  assumes "js_head s' = js_head s" "js_tail s' = js_tail s" "js_queued s' = js_queued s"
    and nx: "\<And>a. map_option jb_next (js_jobs s' a) = map_option jb_next (js_jobs s a)"
  shows "q_ok s' xs \<longleftrightarrow> q_ok s xs"
proof -
  have "chain (js_jobs s') p xs \<longleftrightarrow> chain (js_jobs s) p xs" for p by (rule chain_cong) (rule nx)
  moreover have "(\<forall>j. js_jobs s' a = Some j \<longrightarrow> jb_next j = None) \<longleftrightarrow> (\<forall>j. js_jobs s a = Some j \<longrightarrow> jb_next j = None)" for a
    using nx [of a] by (cases "js_jobs s a"; cases "js_jobs s' a") auto
  ultimately show ?thesis using assms(1-3) unfolding q_ok_def by metis
qed

lemma upd_job_simps [simp]:
  "js_head (upd_job a f s) = js_head s" "js_tail (upd_job a f s) = js_tail s" "js_queued (upd_job a f s) = js_queued s"
  "js_stopping (upd_job a f s) = js_stopping s" "js_max_queue (upd_job a f s) = js_max_queue s"
  "js_max_clients (upd_job a f s) = js_max_clients s"
  "js_max_queue_bytes (upd_job a f s) = js_max_queue_bytes s" "js_max_queue_age (upd_job a f s) = js_max_queue_age s"
  "js_inflight_body_bytes (upd_job a f s) = js_inflight_body_bytes s" "js_metrics (upd_job a f s) = js_metrics s"
  "js_cont_anthropic (upd_job a f s) = js_cont_anthropic s" "js_cont_responses (upd_job a f s) = js_cont_responses s"
  "js_cont_tools_anthropic (upd_job a f s) = js_cont_tools_anthropic s"
  "js_cont_tools_responses (upd_job a f s) = js_cont_tools_responses s" "js_default_tokens (upd_job a f s) = js_default_tokens s"
  "js_jobs (upd_job a f s) b = (if b = a then map_option f (js_jobs s a) else js_jobs s b)"
  by (simp_all add: upd_job_def)

lemma q_ok_upd_job: "(\<And>j. jb_next (f j) = jb_next j) \<Longrightarrow> q_ok (upd_job a f s) xs \<longleftrightarrow> q_ok s xs"
  by (rule q_ok_same) (auto simp: option.map_comp comp_def)

subsection \<open>The operations on the list\<close>

text \<open>What unlinking leaves alone.\<close>

definition unlinked :: "nat \<Rightarrow> jserver \<Rightarrow> jserver" where
  "unlinked a s = snd (queue_unlink_head_locked s)"

lemma unlink_spec:
  assumes "q_ok s (a # xs)"
  shows "queue_unlink_head_locked s = (a, unlinked a s)" "q_ok (unlinked a s) xs"
    "js_jobs (unlinked a s) = (js_jobs s)(a := map_option (\<lambda>j. j\<lparr>jb_next := None\<rparr>) (js_jobs s a))"
proof -
  obtain j where j: "js_head s = Some a" "js_jobs s a = Some j" "chain (js_jobs s) (jb_next j) xs" "a \<notin> set xs" "distinct xs"
    and t: "js_tail s = last_of (a # xs)" "js_queued s = int (length xs) + 1"
    and off: "\<And>b k. js_jobs s b = Some k \<Longrightarrow> b \<notin> set (a # xs) \<Longrightarrow> jb_next k = None"
    using assms by (auto simp: q_ok_def split: option.splits)
  show "queue_unlink_head_locked s = (a, unlinked a s)"
    using j(1) by (simp add: queue_unlink_head_locked_def unlinked_def Let_def)
  have nxt: "jb_next j = first_of xs" using j(3) by (cases xs) auto
  have flds: "js_head (unlinked a s) = first_of xs" "js_tail (unlinked a s) = last_of xs" "js_queued (unlinked a s) = int (length xs)"
    "js_jobs (unlinked a s) = (js_jobs s)(a := map_option (\<lambda>j. j\<lparr>jb_next := None\<rparr>) (js_jobs s a))"
    using j(1,2) t nxt
    by (auto simp: unlinked_def queue_unlink_head_locked_def Let_def job_at_def last_of_Cons fun_eq_iff)
      (cases xs; simp)+
  show "js_jobs (unlinked a s) = (js_jobs s)(a := map_option (\<lambda>j. j\<lparr>jb_next := None\<rparr>) (js_jobs s a))" by (rule flds(4))
  have "chain (js_jobs (unlinked a s)) (first_of xs) xs"
    using j(3,4) by (simp add: flds(4) nxt)
  moreover have "jb_next k = None" if "js_jobs (unlinked a s) b = Some k" "b \<notin> set xs" for b k
    using that off [of b] by (cases "b = a") (auto simp: flds(4))
  ultimately show "q_ok (unlinked a s) xs" using j(5) flds by (simp add: q_ok_def)
qed

lemma unlinked_simps [simp]:
  "js_stopping (unlinked a s) = js_stopping s" "js_max_queue (unlinked a s) = js_max_queue s"
  "js_max_clients (unlinked a s) = js_max_clients s"
  "js_max_queue_bytes (unlinked a s) = js_max_queue_bytes s" "js_max_queue_age (unlinked a s) = js_max_queue_age s"
  "js_inflight_body_bytes (unlinked a s) = js_inflight_body_bytes s" "js_metrics (unlinked a s) = js_metrics s"
  "js_cont_anthropic (unlinked a s) = js_cont_anthropic s" "js_cont_responses (unlinked a s) = js_cont_responses s"
  "js_cont_tools_anthropic (unlinked a s) = js_cont_tools_anthropic s"
  "js_cont_tools_responses (unlinked a s) = js_cont_tools_responses s" "js_default_tokens (unlinked a s) = js_default_tokens s"
  by (simp_all add: unlinked_def queue_unlink_head_locked_def Let_def)

lemma requeue_spec:
  assumes ok: "q_ok s xs" and a: "a \<notin> set xs" "js_jobs s a = Some j"
  shows "q_ok (requeue_job_head a s) (a # xs)"
proof -
  define s' where "s' = requeue_job_head a s"
  have hd: "js_head s = first_of xs" using q_ok_head [OF ok] .
  have jobs: "js_jobs s' = (js_jobs s)(a \<mapsto> j\<lparr>jb_next := first_of xs\<rparr>)"
    using a(2) by (auto simp: s'_def requeue_job_head_def Let_def hd fun_eq_iff)
  have "js_head s' = Some a" "js_queued s' = int (length (a # xs))" "js_tail s' = last_of (a # xs)"
    using ok by (auto simp: s'_def requeue_job_head_def Let_def q_ok_def last_of_Cons last_of_def)
  moreover have "chain (js_jobs s') (first_of xs) xs"
    using ok a(1) by (simp add: jobs q_ok_def hd)
  ultimately show ?thesis
    using ok a unfolding s'_def [symmetric] by (auto simp: q_ok_def jobs split: if_splits)
qed

text \<open>The job as \<open>enqueue\<close> leaves it when it computes the needs.\<close>

definition stamped :: "job \<Rightarrow> job" where
  "stamped j = j\<lparr>jb_req := (jb_req j)\<lparr>rq_needs := request_compute_needs (jb_req j)\<rparr>\<rparr>"

lemma stamped_simps [simp]:
  "jb_next (stamped j) = jb_next j" "jb_done (stamped j) = jb_done j" "jb_body_bytes (stamped j) = jb_body_bytes j"
  "jb_slip_attempts (stamped j) = jb_slip_attempts j" "jb_t_arrive (stamped j) = jb_t_arrive j" "jb_outcome (stamped j) = jb_outcome j"
  by (simp_all add: stamped_def)

definition enqueue_verdict :: "jserver \<Rightarrow> u64 \<Rightarrow> enq_verdict" where
  "enqueue_verdict s body =
     (if js_stopping s then ENQ_STOPPING
      else if js_max_queue s > 0 \<and> js_queued s \<ge> js_max_queue s then ENQ_SHED_QUEUE_DEPTH
      else if js_max_queue_bytes s > 0 \<and> js_inflight_body_bytes s + body > js_max_queue_bytes s then ENQ_SHED_QUEUE_BYTES
      else ENQ_OK)"

lemma enqueue_fields:
  assumes "js_jobs s a = Some j"
  shows "fst (enqueue s a) = enqueue_verdict s (jb_body_bytes j)"
    and "enqueue_verdict s (jb_body_bytes j) \<noteq> ENQ_OK \<Longrightarrow> snd (enqueue s a) = upd_job a stamped s"
  using assms by (auto simp: enqueue_def enqueue_verdict_def Let_def job_at_def stamped_def [abs_def] split: option.splits)

lemma enqueue_spec:
  assumes ok: "q_ok s xs" and a: "a \<notin> set xs" "js_jobs s a = Some j" and v: "enqueue_verdict s (jb_body_bytes j) = ENQ_OK"
  shows "q_ok (snd (enqueue s a)) (xs @ [a])"
    and "js_inflight_body_bytes (snd (enqueue s a)) = js_inflight_body_bytes s + jb_body_bytes j"
    and "js_metrics (snd (enqueue s a)) = js_metrics s"
    and "\<exists>nx. js_jobs (snd (enqueue s a)) = (\<lambda>b. if b = a then Some (stamped j) else map_option (\<lambda>k. k\<lparr>jb_next := nx b (jb_next k)\<rparr>) (js_jobs s b))"
proof -
  define s' where "s' = snd (enqueue s a)"
  have tl: "js_tail s = last_of xs" and nx: "jb_next j = None" and ch: "chain (js_jobs s) (js_head s) xs"
    using ok a by (auto simp: q_ok_def)
  have e: "js_head s' = (if xs = [] then Some a else js_head s)" "js_tail s' = Some a" "js_queued s' = js_queued s + 1"
    "js_inflight_body_bytes s' = js_inflight_body_bytes s + jb_body_bytes j" "js_metrics s' = js_metrics s"
    and jobs: "js_jobs s' = (\<lambda>b. if b = a then Some (stamped j)
        else if last_of xs = Some b then map_option (\<lambda>k. k\<lparr>jb_next := Some a\<rparr>) (js_jobs s b) else js_jobs s b)"
    using v a tl unfolding s'_def
    by (auto simp: enqueue_def enqueue_verdict_def Let_def job_at_def last_of_def stamped_def [abs_def] fun_eq_iff option.map_comp
        split: if_splits)
  have "chain (js_jobs s') (js_head s') (xs @ [a])"
  proof (cases xs rule: rev_cases)
    case Nil
    then show ?thesis using e(1) nx by (simp add: jobs)
  next
    case (snoc ys t)
    have "chain (js_jobs s) p (ys @ [t]) \<Longrightarrow> distinct (ys @ [t]) \<Longrightarrow> a \<notin> set (ys @ [t]) \<Longrightarrow> chain (js_jobs s') p (ys @ [t, a])" for p
    proof (induction ys arbitrary: p)
      case Nil
      then show ?case using nx by (auto simp: jobs snoc split: option.splits)
    next
      case (Cons y ys)
      then show ?case by (auto simp: jobs snoc split: option.splits)
    qed
    then show ?thesis using ch ok a(1) e(1) snoc by (auto simp: q_ok_def)
  qed
  moreover have "jb_next k = None" if "js_jobs s' b = Some k" "b \<notin> set (xs @ [a])" for b k
  proof -
    have "last_of xs \<noteq> Some b" using that(2) by (auto simp: last_of_def split: if_splits)
    then show ?thesis using that ok by (auto simp: q_ok_def jobs split: if_splits)
  qed
  ultimately show "q_ok (snd (enqueue s a)) (xs @ [a])"
    using ok a(1) e unfolding s'_def [symmetric] by (auto simp: q_ok_def)
  show "js_inflight_body_bytes (snd (enqueue s a)) = js_inflight_body_bytes s + jb_body_bytes j" "js_metrics (snd (enqueue s a)) = js_metrics s"
    using e by (simp_all add: s'_def)
  show "\<exists>nx. js_jobs (snd (enqueue s a)) = (\<lambda>b. if b = a then Some (stamped j) else map_option (\<lambda>k. k\<lparr>jb_next := nx b (jb_next k)\<rparr>) (js_jobs s b))"
    using jobs unfolding s'_def [symmetric]
    by (intro exI [of _ "\<lambda>b old. if last_of xs = Some b then Some a else old"]) (auto simp: fun_eq_iff option.map_ident_strong)
qed

end
