(* ===== verification/Job_Pull.thy ===== *)
theory Job_Pull
  imports Job_Queue
begin

section \<open>The loops that pull from the queue\<close>

text \<open>
  \<open>dequeue\<close> and the pull of a running group drop jobs from the head until a turn ends the loop: the
  locale \<open>pull_loop\<close> states what one turn has to do, and that then the loop returns, having dropped exactly
  the jobs in front of the first that it keeps. The gather loop takes a prefix of the queue.
\<close>

locale pull_loop =
  fixes rep :: "'s \<Rightarrow> 'a list \<Rightarrow> bool"
    and turn :: "'s \<Rightarrow> pull \<times> 's"
    and drops :: "'s \<Rightarrow> 'a \<Rightarrow> bool"
    and drop_job :: "'a \<Rightarrow> 's \<Rightarrow> 's"
    and loop :: "'s \<Rightarrow> (pull \<times> 's) option"
  assumes loop_turn: "loop s = (case turn s of (PULL_AGAIN, s') \<Rightarrow> loop s' | (r, s') \<Rightarrow> Some (r, s'))"
    and turn_drops: "rep s (a # xs) \<Longrightarrow> drops s a \<Longrightarrow> turn s = (PULL_AGAIN, drop_job a s)"
    and rep_drop: "rep s (a # xs) \<Longrightarrow> drops s a \<Longrightarrow> rep (drop_job a s) xs"
    and drops_drop: "rep s (a # xs) \<Longrightarrow> drops s a \<Longrightarrow> b \<in> set xs \<Longrightarrow> drops (drop_job a s) b = drops s b"
    and turn_stops: "rep s xs \<Longrightarrow> xs = [] \<or> \<not> drops s (hd xs) \<Longrightarrow> fst (turn s) \<noteq> PULL_AGAIN"
begin

lemma loop_spec:
  "rep s xs \<Longrightarrow> loop s = Some (turn (fold drop_job (takeWhile (drops s) xs) s)) \<and>
     rep (fold drop_job (takeWhile (drops s) xs) s) (dropWhile (drops s) xs) \<and>
     (\<forall>b \<in> set (dropWhile (drops s) xs). drops (fold drop_job (takeWhile (drops s) xs) s) b = drops s b)"
proof (induction xs arbitrary: s)
  case Nil
  then have "fst (turn s) \<noteq> PULL_AGAIN" by (rule turn_stops) simp
  then show ?case using Nil loop_turn [of s] by (auto split: prod.splits pull.splits)
next
  case (Cons a xs)
  show ?case
  proof (cases "drops s a")
    case True
    have eq: "b \<in> set xs \<Longrightarrow> drops (drop_job a s) b = drops s b" for b
      using drops_drop [OF Cons.prems True] .
    have "takeWhile (drops (drop_job a s)) xs = takeWhile (drops s) xs" "dropWhile (drops (drop_job a s)) xs = dropWhile (drops s) xs"
      using eq by (auto intro: takeWhile_cong dropWhile_cong)
    then show ?thesis
      using Cons.IH [OF rep_drop [OF Cons.prems True]] True loop_turn [of s] turn_drops [OF Cons.prems True] eq
      by (auto dest: set_dropWhileD)
  next
    case False
    then have "fst (turn s) \<noteq> PULL_AGAIN" using turn_stops [OF Cons.prems] by simp
    then show ?thesis using False Cons.prems loop_turn [of s] by (auto split: prod.splits pull.splits)
  qed
qed

end

subsection \<open>Dropping a job\<close>

text \<open>The two ways in which a pull settles a job itself.\<close>

definition drop_outcome :: "pull_env \<Rightarrow> nat \<Rightarrow> job_outcome" where
  "drop_outcome env a = (if pe_gone env a \<or> pe_gone_shed env a then JOB_OUT_CANCELED else JOB_OUT_SHED)"

definition finish_with :: "job_outcome \<Rightarrow> nat \<Rightarrow> jserver \<Rightarrow> jserver" where
  "finish_with out a s = job_finish a (set_outcome a out (unlinked a s))"

lemma finish_with_jobs:
  assumes "q_ok s (a # xs)"
  shows "js_jobs (finish_with out a s) =
    (js_jobs s)(a := map_option (\<lambda>j. j\<lparr>jb_next := None, jb_outcome := out, jb_done := True\<rparr>) (js_jobs s a))"
  by (auto simp: finish_with_def job_finish_def set_outcome_def fun_eq_iff unlink_spec(3) [OF assms] option.map_comp comp_def)

lemma finish_with_simps [simp]:
  "js_stopping (finish_with out a s) = js_stopping s" "js_max_queue (finish_with out a s) = js_max_queue s"
  "js_max_queue_bytes (finish_with out a s) = js_max_queue_bytes s" "js_max_queue_age (finish_with out a s) = js_max_queue_age s"
  "js_inflight_body_bytes (finish_with out a s) = js_inflight_body_bytes s" "js_metrics (finish_with out a s) = js_metrics s"
  "js_cont_anthropic (finish_with out a s) = js_cont_anthropic s" "js_cont_responses (finish_with out a s) = js_cont_responses s"
  "js_cont_tools_anthropic (finish_with out a s) = js_cont_tools_anthropic s"
  "js_cont_tools_responses (finish_with out a s) = js_cont_tools_responses s"
  "js_default_tokens (finish_with out a s) = js_default_tokens s"
  by (simp_all add: finish_with_def job_finish_def set_outcome_def)

lemma finish_with_ok: "q_ok s (a # xs) \<Longrightarrow> q_ok (finish_with out a s) xs"
  unfolding finish_with_def job_finish_def set_outcome_def using unlink_spec(2) by (simp add: q_ok_upd_job)

lemma finish_with_other:
  "q_ok s (a # xs) \<Longrightarrow> b \<in> set xs \<Longrightarrow> job_at (finish_with out a s) b = job_at s b"
  by (auto simp: job_at_def finish_with_jobs q_ok_def)

lemma unlinked_job_at:
  assumes "q_ok s (a # xs)"
  shows "job_at (unlinked a s) a = (job_at s a)\<lparr>jb_next := None\<rparr>" "b \<noteq> a \<Longrightarrow> job_at (unlinked a s) b = job_at s b"
proof -
  obtain j where "js_jobs s a = Some j" using q_ok_dom [OF assms, of a] by simp
  then show "job_at (unlinked a s) a = (job_at s a)\<lparr>jb_next := None\<rparr>" "b \<noteq> a \<Longrightarrow> job_at (unlinked a s) b = job_at s b"
    by (simp_all add: job_at_def unlink_spec(3) [OF assms])
qed

lemma aged_unlinked: "q_ok s (a # xs) \<Longrightarrow> job_queue_aged now (unlinked a s) a = job_queue_aged now s a"
  by (simp add: job_queue_aged_def unlinked_job_at)

lemma aged_finish_with: "q_ok s (a # xs) \<Longrightarrow> b \<in> set xs \<Longrightarrow> job_queue_aged now (finish_with out a s) b = job_queue_aged now s b"
  by (simp add: job_queue_aged_def finish_with_other)

text \<open>A run of such drops, whatever each of them answers.\<close>

lemma fold_finish:
  assumes that: "\<And>s a b xs. q_ok s (a # xs) \<Longrightarrow> b \<in> set xs \<Longrightarrow> out (finish_with (out s a) a s) b = out s b"
    and "q_ok s (ys @ zs)"
  shows "q_ok (fold (\<lambda>a s. finish_with (out s a) a s) ys s) zs \<and>
    (\<forall>b. js_jobs (fold (\<lambda>a s. finish_with (out s a) a s) ys s) b =
       (if b \<in> set ys then map_option (\<lambda>j. j\<lparr>jb_next := None, jb_outcome := out s b, jb_done := True\<rparr>) (js_jobs s b)
        else js_jobs s b))"
  using assms(2)
proof (induction ys arbitrary: s)
  case (Cons a ys)
  define s1 where "s1 = finish_with (out s a) a s"
  have ok1: "q_ok s1 (ys @ zs)" using finish_with_ok Cons.prems by (simp add: s1_def)
  have "a \<notin> set ys" using Cons.prems by (simp add: q_ok_def)
  have jobs1: "js_jobs s1 b = (if b = a then map_option (\<lambda>j. j\<lparr>jb_next := None, jb_outcome := out s a, jb_done := True\<rparr>) (js_jobs s a)
      else js_jobs s b)" for b
    using finish_with_jobs [of s a "ys @ zs" "out s a"] Cons.prems by (simp add: s1_def)
  have eq: "b \<in> set ys \<Longrightarrow> out s1 b = out s b" for b using that [of s a "ys @ zs" b] Cons.prems by (simp add: s1_def)
  show ?case
    using Cons.IH [OF ok1] jobs1 eq \<open>a \<notin> set ys\<close> by (auto simp: s1_def [symmetric])
qed simp

lemma fold_finish_fields [simp]:
  "js_stopping (fold (\<lambda>a s. finish_with (out s a) a s) ys s) = js_stopping s"
  "js_inflight_body_bytes (fold (\<lambda>a s. finish_with (out s a) a s) ys s) = js_inflight_body_bytes s"
  "js_metrics (fold (\<lambda>a s. finish_with (out s a) a s) ys s) = js_metrics s"
  by (induction ys arbitrary: s) simp_all

subsection \<open>dequeue\<close>

definition dq_drops :: "pull_env \<Rightarrow> jserver \<Rightarrow> nat \<Rightarrow> bool" where
  "dq_drops env s a = (pe_gone env a \<or> job_queue_aged (pe_now env a) s a)"

definition dq_drop :: "pull_env \<Rightarrow> nat \<Rightarrow> jserver \<Rightarrow> jserver" where
  "dq_drop env a s = finish_with (drop_outcome env a) a s"

lemma dequeue_turn_Cons:
  assumes "q_ok s (a # xs)"
  shows "dequeue_turn env s = (if dq_drops env s a then (PULL_AGAIN, dq_drop env a s) else (PULL_JOB a, unlinked a s))"
proof -
  have "js_head s = Some a" using q_ok_head [OF assms] by simp
  then show ?thesis
    using aged_unlinked [OF assms] unlink_spec(1) [OF assms]
    by (auto simp: dequeue_turn_def dq_drops_def dq_drop_def drop_outcome_def finish_with_def job_shed_aged_def)
qed

lemma dequeue_turn_Nil: "q_ok s [] \<Longrightarrow> dequeue_turn env s = (if js_stopping s then PULL_NULL else PULL_WAIT, s)"
  using q_ok_head [of s "[]"] by (simp add: dequeue_turn_def)

interpretation dq: pull_loop q_ok "dequeue_turn env" "dq_drops env" "dq_drop env" "dequeue env" for env
proof
  fix s a xs b
  assume ok: "q_ok s (a # xs)" and d: "dq_drops env s a"
  show "dequeue_turn env s = (PULL_AGAIN, dq_drop env a s)" using dequeue_turn_Cons [OF ok] d by simp
  show "q_ok (dq_drop env a s) xs" using finish_with_ok [OF ok] by (simp add: dq_drop_def)
  assume "b \<in> set xs"
  then show "dq_drops env (dq_drop env a s) b = dq_drops env s b"
    using aged_finish_with [OF ok] by (simp add: dq_drops_def dq_drop_def)
next
  fix s xs
  assume "q_ok s xs" "xs = [] \<or> \<not> dq_drops env s (hd xs)"
  then show "fst (dequeue_turn env s) \<noteq> PULL_AGAIN"
    by (cases xs) (auto simp: dequeue_turn_Nil dequeue_turn_Cons)
qed (simp add: dequeue.simps)

text \<open>
  C24. What \<open>dequeue\<close> returns. On a well-formed queue it never loops forever: it returns the first queued job
  whose client is still there and that has not outwaited the age bound, or the end-of-service value if
  there is none and the server is stopping, or it is about to block. The jobs in front of it are settled
  in place, as cancelled or shed, and no other job changes but in its links.
\<close>

theorem dequeue_first_live:
  assumes "q_ok s xs"
  shows "\<exists>s'. dequeue env s = Some (case dropWhile (dq_drops env s) xs of
        [] \<Rightarrow> if js_stopping s then PULL_NULL else PULL_WAIT | a # _ \<Rightarrow> PULL_JOB a, s') \<and>
      q_ok s' (tl (dropWhile (dq_drops env s) xs)) \<and>
      (\<forall>b \<in> set (takeWhile (dq_drops env s) xs). js_jobs s' b =
         Some ((job_at s b)\<lparr>jb_next := None, jb_outcome := drop_outcome env b, jb_done := True\<rparr>)) \<and>
      (\<forall>b. b \<notin> set (takeWhile (dq_drops env s) xs) \<longrightarrow> js_jobs s' b =
         map_option (\<lambda>j. j\<lparr>jb_next := if PULL_JOB b = fst (the (dequeue env s)) then None else jb_next j\<rparr>) (js_jobs s b))"
proof -
  define ys zs where ys: "ys = takeWhile (dq_drops env s) xs" and zs: "zs = dropWhile (dq_drops env s) xs"
  have ysD: "\<And>b. b \<in> set ys \<Longrightarrow> b \<in> set xs \<and> dq_drops env s b" unfolding ys by (metis set_takeWhileD)
  define s1 where "s1 = fold (dq_drop env) ys s"
  have fold_eq: "s1 = fold (\<lambda>a s. finish_with (drop_outcome env a) a s) ys s"
    by (simp add: s1_def dq_drop_def [abs_def])
  have run: "dequeue env s = Some (dequeue_turn env s1)" and ok1: "q_ok s1 zs"
    and keep: "\<And>b. b \<in> set zs \<Longrightarrow> dq_drops env s1 b = dq_drops env s b"
    using dq.loop_spec [OF assms] by (simp_all add: s1_def ys zs)
  have stop: "js_stopping s1 = js_stopping s" unfolding fold_eq by simp
  have F: "js_jobs s1 b = (if b \<in> set ys then map_option (\<lambda>j. j\<lparr>jb_next := None, jb_outcome := drop_outcome env b, jb_done := True\<rparr>) (js_jobs s b)
        else js_jobs s b)" for b
    using fold_finish [of "\<lambda>_. drop_outcome env" s ys zs] assms unfolding fold_eq by (simp add: ys zs)
  have G: "js_jobs s1 b = Some ((job_at s b)\<lparr>jb_next := None, jb_outcome := drop_outcome env b, jb_done := True\<rparr>)" if "b \<in> set ys" for b
    using that F [of b] q_ok_dom [OF assms, of b] ysD [OF that] by simp
  show ?thesis
  proof (cases zs)
    case Nil
    then have "q_ok s1 []" using ok1 by simp
    then have "dequeue env s = Some (if js_stopping s then PULL_NULL else PULL_WAIT, s1)"
      using run stop by (simp add: dequeue_turn_Nil)
    then show ?thesis unfolding ys [symmetric] zs [symmetric] using Nil ok1 F G by (auto simp: option.map_ident_strong)
  next
    case (Cons a zs')
    then have "\<not> dq_drops env s a" unfolding zs by (metis hd_dropWhile list.distinct(1) list.sel(1))
    then have nd: "\<not> dq_drops env s1 a" using keep Cons by simp
    have ok: "q_ok s1 (a # zs')" using ok1 Cons by simp
    have r: "dequeue env s = Some (PULL_JOB a, unlinked a s1)"
      using run nd by (simp add: dequeue_turn_Cons [OF ok])
    have "a \<notin> set ys" using \<open>\<not> dq_drops env s a\<close> ysD by blast
    then show ?thesis
      unfolding ys [symmetric] zs [symmetric] using r Cons unlink_spec(2,3) [OF ok] F G by (auto simp: option.map_ident_strong)
  qed
qed

subsection \<open>The pull of a continuous group\<close>

definition cp_env :: "int \<Rightarrow> jserver \<Rightarrow> nat \<Rightarrow> ds4_route_env" where
  "cp_env seq_cap s a = \<lparr>re_coalesce = True, re_have_cont = True, re_cont_anthropic = js_cont_anthropic s,
     re_cont_responses = js_cont_responses s, re_cont_tools_anthropic = js_cont_tools_anthropic s,
     re_cont_tools_responses = js_cont_tools_responses s, re_seq_cap = seq_cap,
     re_prompt_len = rq_prompt_len (jb_req (job_at s a))\<rparr>"

text \<open>The follower rides the continuous lane.\<close>

definition cp_rides :: "int \<Rightarrow> jserver \<Rightarrow> nat \<Rightarrow> bool" where
  "cp_rides seq_cap s a = (fst (route_decide (rq_needs (jb_req (job_at s a))) (wire_surface_for (jb_req (job_at s a)))
     (cp_env seq_cap s a)) = ROUTE_LANE_CONTINUOUS)"

definition cp_drops :: "pull_env \<Rightarrow> int \<Rightarrow> jserver \<Rightarrow> nat \<Rightarrow> bool" where
  "cp_drops env seq_cap s a = (job_queue_aged (pe_now env a) s a \<or> cp_rides seq_cap s a \<and> pe_gone env a)"

definition cp_drop :: "pull_env \<Rightarrow> nat \<Rightarrow> jserver \<Rightarrow> jserver" where
  "cp_drop env a s = finish_with
     (if job_queue_aged (pe_now env a) s a \<and> \<not> pe_gone_shed env a then JOB_OUT_SHED else JOB_OUT_CANCELED) a s"

lemma cont_pull_turn_Cons:
  assumes "q_ok s (a # xs)"
  shows "cont_pull_turn env seq_cap s =
    (if cp_drops env seq_cap s a then (PULL_AGAIN, cp_drop env a s)
     else if cp_rides seq_cap s a then (PULL_JOB a, unlinked a s) else (PULL_NULL, s))"
proof -
  have "js_head s = Some a" using q_ok_head [OF assms] by simp
  then show ?thesis
    using unlink_spec(1) [OF assms]
    by (auto simp: cont_pull_turn_def Let_def cp_drops_def cp_drop_def cp_rides_def cp_env_def finish_with_def job_shed_aged_def)
qed

lemma cont_pull_turn_Nil: "q_ok s [] \<Longrightarrow> cont_pull_turn env seq_cap s = (PULL_NULL, s)"
  using q_ok_head [of s "[]"] by (simp add: cont_pull_turn_def)

interpretation cp: pull_loop q_ok "cont_pull_turn env seq_cap" "cp_drops env seq_cap" "cp_drop env" "cont_pull env seq_cap" for env seq_cap
proof
  fix s a xs b
  assume ok: "q_ok s (a # xs)" and d: "cp_drops env seq_cap s a"
  show "cont_pull_turn env seq_cap s = (PULL_AGAIN, cp_drop env a s)" using cont_pull_turn_Cons [OF ok] d by simp
  show "q_ok (cp_drop env a s) xs" using finish_with_ok [OF ok] by (simp add: cp_drop_def)
  assume b: "b \<in> set xs"
  have "cp_rides seq_cap (cp_drop env a s) b = cp_rides seq_cap s b"
    using finish_with_other [OF ok b] by (simp add: cp_rides_def cp_env_def cp_drop_def)
  then show "cp_drops env seq_cap (cp_drop env a s) b = cp_drops env seq_cap s b"
    using aged_finish_with [OF ok b] by (simp add: cp_drops_def) (simp add: cp_drop_def)
next
  fix s xs
  assume "q_ok s xs" "xs = [] \<or> \<not> cp_drops env seq_cap s (hd xs)"
  then show "fst (cont_pull_turn env seq_cap s) \<noteq> PULL_AGAIN"
    by (cases xs) (auto simp: cont_pull_turn_Nil cont_pull_turn_Cons)
qed (simp add: cont_pull.simps)

subsection \<open>Submitting, as the pulls see it\<close>

text \<open>What all of these operations keep of the jobs that exist and of the configuration.\<close>

definition keeps :: "jserver \<Rightarrow> jserver \<Rightarrow> bool" where
  "keeps s s' \<longleftrightarrow> js_default_tokens s' = js_default_tokens s \<and> js_cont_anthropic s' = js_cont_anthropic s \<and>
     js_cont_responses s' = js_cont_responses s \<and>
     (\<forall>a j. js_jobs s a = Some j \<longrightarrow> (\<exists>j'. js_jobs s' a = Some j' \<and> jb_req j' = jb_req j))"

lemma keeps_refl [simp]: "keeps s s"
  by (simp add: keeps_def)

lemma keeps_trans: "keeps s s' \<Longrightarrow> keeps s' s'' \<Longrightarrow> keeps s s''"
  unfolding keeps_def by metis

lemma keeps_unlinked: "q_ok s (a # xs) \<Longrightarrow> keeps s (unlinked a s)"
  by (auto simp: keeps_def unlink_spec(3))

lemma keeps_finish: "q_ok s (a # xs) \<Longrightarrow> keeps s (finish_with out a s)"
  by (auto simp: keeps_def finish_with_jobs)

lemma keeps_req: "keeps s s' \<Longrightarrow> js_jobs s a = Some j \<Longrightarrow> jb_req (job_at s' a) = jb_req (job_at s a)"
  unfolding keeps_def job_at_def by (metis option.sel)

lemma keeps_footprint: "keeps s s' \<Longrightarrow> js_jobs s a = Some j \<Longrightarrow> job_tok_footprint s' a = job_tok_footprint s a"
  by (simp add: job_tok_footprint_def keeps_req) (simp add: keeps_def)

definition peer_ok :: "jserver \<Rightarrow> nat \<Rightarrow> bool" where
  "peer_ok s a = job_static_peer_ok (js_cont_anthropic s) (js_cont_responses s) (jb_req (job_at s a))"

lemma keeps_peer: "keeps s s' \<Longrightarrow> js_jobs s a = Some j \<Longrightarrow> peer_ok s' a = peer_ok s a"
  by (simp add: peer_ok_def keeps_req) (simp add: keeps_def)

lemma client_submit_spec:
  assumes ok: "q_ok s xs" and a: "js_jobs s a = None" "jb_next j = None"
  defines "v \<equiv> enqueue_verdict s (jb_body_bytes j)"
  shows "fst (client_submit s a j) = v"
    and "q_ok (snd (client_submit s a j)) (if v = ENQ_OK then xs @ [a] else xs)"
    and "v = ENQ_OK \<Longrightarrow> js_jobs (snd (client_submit s a j)) a = Some (stamped j)"
    and "v \<noteq> ENQ_OK \<Longrightarrow> js_jobs (snd (client_submit s a j)) = js_jobs s"
    and "b \<noteq> a \<Longrightarrow> \<exists>nx. js_jobs (snd (client_submit s a j)) b = map_option (\<lambda>k. k\<lparr>jb_next := nx (jb_next k)\<rparr>) (js_jobs s b)"
proof -
  define s0 where "s0 = s\<lparr>js_jobs := (js_jobs s)(a \<mapsto> j)\<rparr>"
  have ax: "a \<notin> set xs" using q_ok_dom [OF ok, of a] a(1) by auto
  have ok0: "q_ok s0 xs" using ok ax a(2) by (auto simp: q_ok_def s0_def)
  have s0f: "js_jobs s0 = (js_jobs s)(a \<mapsto> j)" "js_head s0 = js_head s" "js_tail s0 = js_tail s" "js_queued s0 = js_queued s"
    by (simp_all add: s0_def)
  have j0: "js_jobs s0 a = Some j" and v0: "enqueue_verdict s0 (jb_body_bytes j) = v"
    by (simp_all add: s0_def v_def enqueue_verdict_def)
  have fst_v: "fst (enqueue s0 a) = v" using enqueue_fields(1) [OF j0] v0 by simp
  have sub: "client_submit s a j = (if v = ENQ_OK then (ENQ_OK, (snd (enqueue s0 a))\<lparr>js_metrics := (js_metrics (snd (enqueue s0 a)))\<lparr>
            mx_requests_started := mx_requests_started (js_metrics (snd (enqueue s0 a))) + 1,
            mx_requests_inflight := mx_requests_inflight (js_metrics (snd (enqueue s0 a))) + 1\<rparr>\<rparr>)
      else (v, let s2 = (case v of ENQ_SHED_QUEUE_DEPTH \<Rightarrow> shed_record DS4_SHED_QUEUE_DEPTH (snd (enqueue s0 a))
                     | ENQ_SHED_QUEUE_BYTES \<Rightarrow> shed_record DS4_SHED_QUEUE_BYTES (snd (enqueue s0 a))
                     | _ \<Rightarrow> snd (enqueue s0 a)) in s2\<lparr>js_jobs := (js_jobs s2)(a := None)\<rparr>))"
    using fst_v unfolding client_submit_def s0_def [symmetric]
    by (cases "enqueue s0 a"; cases v) (auto simp: Let_def)
  show "fst (client_submit s a j) = v" by (simp add: sub)
  have shed: "js_jobs (shed_record r t) = js_jobs t" "js_head (shed_record r t) = js_head t" "js_tail (shed_record r t) = js_tail t"
    "js_queued (shed_record r t) = js_queued t" for r t by (simp_all add: shed_record_def)
  { assume v: "v = ENQ_OK"
    note E = enqueue_spec [OF ok0 ax j0, unfolded v0, OF v]
    have same: "q_ok (snd (client_submit s a j)) ys \<longleftrightarrow> q_ok (snd (enqueue s0 a)) ys" for ys
      by (rule q_ok_same) (simp_all add: sub v)
    obtain nx where nx: "js_jobs (snd (enqueue s0 a)) = (\<lambda>b. if b = a then Some (stamped j) else map_option (\<lambda>k. k\<lparr>jb_next := nx b (jb_next k)\<rparr>) (js_jobs s0 b))"
      using E(4) by blast
    have jobs: "js_jobs (snd (client_submit s a j)) = js_jobs (snd (enqueue s0 a))" by (simp add: sub v)
    have "q_ok (snd (client_submit s a j)) (if v = ENQ_OK then xs @ [a] else xs)" using E(1) v same by simp
    moreover have "js_jobs (snd (client_submit s a j)) a = Some (stamped j)" unfolding jobs nx by simp
    moreover have "\<exists>nx. js_jobs (snd (client_submit s a j)) b = map_option (\<lambda>k. k\<lparr>jb_next := nx (jb_next k)\<rparr>) (js_jobs s b)" if "b \<noteq> a"
      unfolding jobs nx using that by (intro exI [of _ "nx b"]) (simp add: s0_def)
    ultimately have "q_ok (snd (client_submit s a j)) (if v = ENQ_OK then xs @ [a] else xs)"
      "js_jobs (snd (client_submit s a j)) a = Some (stamped j)"
      "b \<noteq> a \<Longrightarrow> \<exists>nx. js_jobs (snd (client_submit s a j)) b = map_option (\<lambda>k. k\<lparr>jb_next := nx (jb_next k)\<rparr>) (js_jobs s b)"
      by blast+ }
  note acc = this
  { assume v: "v \<noteq> ENQ_OK"
    have e: "snd (enqueue s0 a) = upd_job a stamped s0" using enqueue_fields(2) [OF j0] v v0 by simp
    have jobs: "js_jobs (snd (client_submit s a j)) = js_jobs s"
      using v a(1) by (cases v) (auto simp: sub e Let_def shed fun_eq_iff s0f)
    moreover have "q_ok (snd (client_submit s a j)) xs \<longleftrightarrow> q_ok s xs"
      using v by (intro q_ok_same) (auto simp: jobs, (cases v; simp add: sub e Let_def shed s0f)+)
    ultimately have "q_ok (snd (client_submit s a j)) (if v = ENQ_OK then xs @ [a] else xs)" "js_jobs (snd (client_submit s a j)) = js_jobs s"
      using v ok by simp_all }
  note rej = this
  show "q_ok (snd (client_submit s a j)) (if v = ENQ_OK then xs @ [a] else xs)" using acc(1) rej(1) by blast
  show "v = ENQ_OK \<Longrightarrow> js_jobs (snd (client_submit s a j)) a = Some (stamped j)" by (rule acc(2))
  show "v \<noteq> ENQ_OK \<Longrightarrow> js_jobs (snd (client_submit s a j)) = js_jobs s" by (rule rej(2))
  show "b \<noteq> a \<Longrightarrow> \<exists>nx. js_jobs (snd (client_submit s a j)) b = map_option (\<lambda>k. k\<lparr>jb_next := nx (jb_next k)\<rparr>) (js_jobs s b)"
    using acc(3) rej(2) by (cases "v = ENQ_OK") (auto intro: exI [of _ id] simp: option.map_ident_strong)
qed

lemma submit_fields [simp]:
  "js_default_tokens (snd (client_submit s a j)) = js_default_tokens s" "js_cont_anthropic (snd (client_submit s a j)) = js_cont_anthropic s"
  "js_cont_responses (snd (client_submit s a j)) = js_cont_responses s" "js_stopping (snd (client_submit s a j)) = js_stopping s"
  by (auto simp: client_submit_def enqueue_def Let_def shed_record_def split: prod.splits option.splits enq_verdict.splits if_splits)

lemma submit_keeps: "q_ok s xs \<Longrightarrow> js_jobs s a = None \<Longrightarrow> jb_next j = None \<Longrightarrow> keeps s (snd (client_submit s a j))"
proof -
  assume *: "q_ok s xs" "js_jobs s a = None" "jb_next j = None"
  have "\<exists>k'. js_jobs (snd (client_submit s a j)) b = Some k' \<and> jb_req k' = jb_req k" if "js_jobs s b = Some k" for b k
  proof -
    have "b \<noteq> a" using that *(2) by auto
    from client_submit_spec(5) [OF * this] that show ?thesis by auto
  qed
  then show ?thesis unfolding keeps_def by simp
qed

text \<open>A batch of submissions of new jobs appends those that are accepted, in order.\<close>

definition new_jobs :: "jserver \<Rightarrow> (nat \<times> job) list \<Rightarrow> bool" where
  "new_jobs s w \<longleftrightarrow> distinct (map fst w) \<and> (\<forall>(a, j) \<in> set w. js_jobs s a = None \<and> jb_next j = None)"

lemma submit_all_spec:
  "q_ok s xs \<Longrightarrow> new_jobs s (w @ w') \<Longrightarrow>
     \<exists>arr. set arr \<subseteq> fst ` set w \<and> q_ok (submit_all w s) (xs @ arr) \<and> keeps s (submit_all w s) \<and> new_jobs (submit_all w s) w'"
proof (induction w arbitrary: s xs)
  case Nil
  then show ?case by (auto simp: submit_all_def intro: exI [of _ "[]"])
next
  case (Cons aj w)
  obtain a j where aj: "aj = (a, j)" by (cases aj)
  have new: "js_jobs s a = None" "jb_next j = None" "distinct (a # map fst (w @ w'))"
    "\<And>b k. (b, k) \<in> set (w @ w') \<Longrightarrow> js_jobs s b = None \<and> jb_next k = None"
    using Cons.prems(2) by (auto simp: aj new_jobs_def)
  note S = client_submit_spec [OF Cons.prems(1) new(1,2)]
  define s1 where "s1 = snd (client_submit s a j)"
  define ys where "ys = (if enqueue_verdict s (jb_body_bytes j) = ENQ_OK then [a] else [])"
  have ys: "set ys \<subseteq> {a}" "q_ok s1 (xs @ ys)"
    using S(2) unfolding s1_def by (simp_all add: ys_def split: if_splits)
  have "js_jobs s1 b = None" if "(b, k) \<in> set (w @ w')" for b k
  proof -
    have "b \<noteq> a" using that new(3) by (force simp: image_iff)
    then show ?thesis using S(5) [of b] new(4) [OF that] unfolding s1_def by auto
  qed
  then have "new_jobs s1 (w @ w')" using new(3,4) by (fastforce simp: new_jobs_def)
  from Cons.IH [OF ys(2) this] obtain arr where arr: "set arr \<subseteq> fst ` set w" "q_ok (submit_all w s1) ((xs @ ys) @ arr)"
    "keeps s1 (submit_all w s1)" "new_jobs (submit_all w s1) w'" by blast
  have "submit_all (aj # w) s = submit_all w s1" by (simp add: submit_all_def aj s1_def)
  moreover have "keeps s s1" unfolding s1_def by (rule submit_keeps [OF Cons.prems(1) new(1,2)])
  ultimately have "keeps s (submit_all (aj # w) s)" "submit_all (aj # w) s = submit_all w s1" using keeps_trans arr(3) by simp_all
  then show ?case using arr ys(1) by (intro exI [of _ "ys @ arr"]) (auto simp: aj)
qed

subsection \<open>Gathering a static group\<close>

text \<open>What a turn at a head does.\<close>

definition gt_blocks :: "pull_env \<Rightarrow> int \<Rightarrow> int \<Rightarrow> jserver \<Rightarrow> nat \<Rightarrow> bool" where
  "gt_blocks env max_tok tok s a = (\<not> peer_ok s a \<or> max_tok > 0 \<and> tok + job_tok_footprint s a > max_tok \<or> job_queue_aged (pe_now env a) s a)"

lemma gather_turn_Cons:
  assumes "q_ok s (a # xs)"
  shows "gather_turn env wait_ms max_tok out tok s =
    (if gt_blocks env max_tok tok s a then (PULL_NULL, (out, tok), s)
     else if pe_gone env a then (PULL_AGAIN, (out, tok), finish_with JOB_OUT_CANCELED a s)
     else (PULL_AGAIN, (out @ [a], tok + job_tok_footprint s a), unlinked a s))"
proof -
  have "js_head s = Some a" using q_ok_head [OF assms] by simp
  moreover have "job_tok_footprint (unlinked a s) a = job_tok_footprint s a"
    using keeps_footprint [OF keeps_unlinked [OF assms]] q_ok_dom [OF assms, of a] by simp
  ultimately show ?thesis
    using unlink_spec(1) [OF assms] by (auto simp: gather_turn_def gt_blocks_def peer_ok_def finish_with_def)
qed

lemma gather_turn_Nil:
  "q_ok s [] \<Longrightarrow> gather_turn env wait_ms max_tok out tok s =
     (if js_stopping s \<or> wait_ms \<le> 0 then PULL_NULL else PULL_WAIT, (out, tok), s)"
  using q_ok_head [of s "[]"] by (simp add: gather_turn_def)

text \<open>
  The result of the loop: \<open>ps\<close> were pulled from the queue, \<open>rest\<close> stayed, and \<open>arr\<close> arrived meanwhile.
\<close>

definition gathered ::
  "pull_env \<Rightarrow> int \<Rightarrow> int \<Rightarrow> (nat \<times> job) list \<Rightarrow> nat list \<Rightarrow> nat list \<Rightarrow> int \<Rightarrow> jserver \<Rightarrow> nat list \<Rightarrow> jserver \<Rightarrow> bool" where
  "gathered env cap max_tok new xs out tok s out' s' \<longleftrightarrow>
     (\<exists>arr ps rest. set arr \<subseteq> fst ` set new \<and> xs @ arr = ps @ rest \<and> q_ok s' rest \<and> keeps s s' \<and>
        out' = out @ filter (\<lambda>a. \<not> pe_gone env a) ps \<and> (\<forall>a \<in> set ps. peer_ok s' a) \<and>
        (int (length out) \<le> cap \<longrightarrow> int (length out') \<le> cap) \<and>
        (max_tok > 0 \<and> out' \<noteq> out \<longrightarrow> tok + sum_list (map (job_tok_footprint s') (drop (length out) out')) \<le> max_tok))"

lemma gathered_refl: "q_ok s xs \<Longrightarrow> gathered env cap max_tok new xs out tok s out s"
  unfolding gathered_def by (intro exI [of _ "[]"] exI [of _ xs]) simp

lemma gathered_wait:
  assumes "q_ok (submit_all w s) ys" "set ys \<subseteq> fst ` set w" "keeps s (submit_all w s)"
    and "gathered env cap max_tok new ys out tok (submit_all w s) out' s'"
  shows "gathered env cap max_tok (w @ new) [] out tok s out' s'"
proof -
  obtain arr ps rest where g: "set arr \<subseteq> fst ` set new" "ys @ arr = ps @ rest" "q_ok s' rest" "keeps (submit_all w s) s'"
    and r: "out' = out @ filter (\<lambda>a. \<not> pe_gone env a) ps" "\<forall>a \<in> set ps. peer_ok s' a"
      "int (length out) \<le> cap \<longrightarrow> int (length out') \<le> cap"
      "max_tok > 0 \<and> out' \<noteq> out \<longrightarrow> tok + sum_list (map (job_tok_footprint s') (drop (length out) out')) \<le> max_tok"
    using assms(4) unfolding gathered_def by blast
  have "set (ys @ arr) \<subseteq> fst ` set (w @ new)" using g(1) assms(2) by auto
  moreover have "[] @ (ys @ arr) = ps @ rest" using g(2) by simp
  ultimately show ?thesis
    unfolding gathered_def using g(3) keeps_trans [OF assms(3) g(4)] r by blast
qed

lemma gathered_step:
  assumes ok: "q_ok s (a # xs)" and s1: "q_ok s1 xs" "keeps s s1" and b: "\<not> gt_blocks env max_tok tok s a"
    and cap: "int (length out) < cap"
    and g: "gathered env cap max_tok new xs out1 tok1 s1 out' s'"
    and o: "if pe_gone env a then out1 = out \<and> tok1 = tok else out1 = out @ [a] \<and> tok1 = tok + job_tok_footprint s a"
  shows "gathered env cap max_tok new (a # xs) out tok s out' s'"
proof -
  obtain arr ps rest where g: "set arr \<subseteq> fst ` set new" "xs @ arr = ps @ rest" "q_ok s' rest" "keeps s1 s'"
    "out' = out1 @ filter (\<lambda>a. \<not> pe_gone env a) ps" "\<forall>a \<in> set ps. peer_ok s' a"
    "int (length out1) \<le> cap \<longrightarrow> int (length out') \<le> cap"
    "max_tok > 0 \<and> out' \<noteq> out1 \<longrightarrow> tok1 + sum_list (map (job_tok_footprint s') (drop (length out1) out')) \<le> max_tok"
    using g unfolding gathered_def by blast
  have k: "keeps s s'" using s1(2) g(4) keeps_trans by blast
  have ja: "js_jobs s a = Some (job_at s a)" using q_ok_dom [OF ok] by simp
  have p: "peer_ok s' a" using keeps_peer [OF k ja] b by (simp add: gt_blocks_def)
  have f: "job_tok_footprint s' a = job_tok_footprint s a" using keeps_footprint [OF k ja] .
  have t: "max_tok > 0 \<Longrightarrow> tok + job_tok_footprint s a \<le> max_tok" using b by (simp add: gt_blocks_def)
  let ?ks = "filter (\<lambda>a. \<not> pe_gone env a) ps"
  have out': "out' = out @ filter (\<lambda>a. \<not> pe_gone env a) (a # ps)" using g(5) o by (simp split: if_splits)
  have len: "int (length out') \<le> cap" using g(7) o cap by (simp split: if_splits)
  have tok: "tok + sum_list (map (job_tok_footprint s') (drop (length out) out')) \<le> max_tok" if "max_tok > 0" "out' \<noteq> out"
  proof (cases "pe_gone env a")
    case True
    then show ?thesis using g(8) o that by simp
  next
    case False
    then have "tok + job_tok_footprint s a + sum_list (map (job_tok_footprint s') ?ks) \<le> max_tok"
      using g(5,8) o that(1) t by (cases "?ks = []") simp_all
    then show ?thesis using False by (simp add: out' f)
  qed
  have "(a # xs) @ arr = (a # ps) @ rest" "\<forall>b \<in> set (a # ps). peer_ok s' b" using g(2,6) p by simp_all
  then show ?thesis unfolding gathered_def using g(1,3) k out' len tok by blast
qed

lemma new_jobs_mono: "new_jobs s w \<Longrightarrow> (\<And>a. js_jobs s a = None \<Longrightarrow> js_jobs s' a = None) \<Longrightarrow> new_jobs s' w"
  by (auto simp: new_jobs_def)

definition gathers ::
  "pull_env \<Rightarrow> int \<Rightarrow> int \<Rightarrow> int \<Rightarrow> (nat \<times> job) list list \<Rightarrow> nat list \<Rightarrow> nat list \<Rightarrow> int \<Rightarrow> jserver \<Rightarrow> bool" where
  "gathers env cap wait_ms max_tok wake xs out tok s \<longleftrightarrow>
     (\<exists>out' s'. gather_loop env cap wait_ms max_tok wake out tok s = Some (out', s') \<and>
        gathered env cap max_tok (concat wake) xs out tok s out' s')"

lemma gathersI:
  "gather_loop env cap wait_ms max_tok wake out tok s = Some (out', s') \<Longrightarrow>
     gathered env cap max_tok (concat wake) xs out tok s out' s' \<Longrightarrow> gathers env cap wait_ms max_tok wake xs out tok s"
  by (auto simp: gathers_def)

lemma gathers_queue:
  assumes nil: "\<And>s out tok. q_ok s [] \<Longrightarrow> new_jobs s (concat wake) \<Longrightarrow> gathers env cap wait_ms max_tok wake [] out tok s"
  shows "q_ok s xs \<Longrightarrow> new_jobs s (concat wake) \<Longrightarrow> gathers env cap wait_ms max_tok wake xs out tok s"
proof (induction xs arbitrary: out tok s)
  case Nil
  then show ?case by (rule nil)
next
  case (Cons a xs)
  note ok = Cons.prems(1)
  show ?case
  proof (cases "int (length out) < cap \<and> \<not> gt_blocks env max_tok tok s a")
    case False
    then have "gather_loop env cap wait_ms max_tok wake out tok s = Some (out, s)"
      by (subst gather_loop.simps) (auto simp: gather_turn_Cons [OF ok])
    then show ?thesis using gathered_refl [OF ok] by (rule gathersI)
  next
    case True
    define s1 where "s1 = (if pe_gone env a then finish_with JOB_OUT_CANCELED a s else unlinked a s)"
    define out1 where "out1 = (if pe_gone env a then out else out @ [a])"
    define tok1 where "tok1 = (if pe_gone env a then tok else tok + job_tok_footprint s a)"
    have ok1: "q_ok s1 xs" "keeps s s1" "\<And>b. js_jobs s b = None \<Longrightarrow> js_jobs s1 b = None"
      using finish_with_ok [OF ok] unlink_spec(2,3) [OF ok] keeps_finish [OF ok] keeps_unlinked [OF ok] finish_with_jobs [OF ok]
      by (auto simp: s1_def)
    have eq: "gather_loop env cap wait_ms max_tok wake out tok s = gather_loop env cap wait_ms max_tok wake out1 tok1 s1"
      using True by (subst gather_loop.simps) (simp add: gather_turn_Cons [OF ok] s1_def out1_def tok1_def)
    obtain out' s' where r: "gather_loop env cap wait_ms max_tok wake out1 tok1 s1 = Some (out', s')"
      "gathered env cap max_tok (concat wake) xs out1 tok1 s1 out' s'"
      using Cons.IH [OF ok1(1) new_jobs_mono [OF Cons.prems(2) ok1(3)], of out1 tok1] unfolding gathers_def by blast
    have "gathered env cap max_tok (concat wake) (a # xs) out tok s out' s'"
      using gathered_step [OF ok ok1(1,2) _ _ r(2)] True by (simp add: out1_def tok1_def)
    then show ?thesis using eq r(1) by (simp add: gathersI)
  qed
qed

lemma gather_loop_spec:
  "q_ok s xs \<Longrightarrow> new_jobs s (concat wake) \<Longrightarrow> gathers env cap wait_ms max_tok wake xs out tok s"
proof (induction wake arbitrary: xs out tok s)
  case Nil
  show ?case
  proof (rule gathers_queue [OF _ Nil])
    fix s out tok assume ok: "q_ok s []"
    then have "gather_loop env cap wait_ms max_tok [] out tok s = Some (out, s)"
      by (subst gather_loop.simps) (auto simp: gather_turn_Nil)
    then show "gathers env cap wait_ms max_tok [] [] out tok s" using gathered_refl [OF ok] by (rule gathersI)
  qed
next
  case (Cons w ws)
  show ?case
  proof (rule gathers_queue [OF _ Cons.prems])
    fix s out tok assume ok: "q_ok s []" and new: "new_jobs s (concat (w # ws))"
    obtain ys where ys: "set ys \<subseteq> fst ` set w" "q_ok (submit_all w s) ys" "keeps s (submit_all w s)"
      "new_jobs (submit_all w s) (concat ws)"
      using submit_all_spec [OF ok, of w "concat ws"] new by auto
    show "gathers env cap wait_ms max_tok (w # ws) [] out tok s"
    proof (cases "int (length out) < cap \<and> \<not> (js_stopping s \<or> wait_ms \<le> 0)")
      case True
      then have eq: "gather_loop env cap wait_ms max_tok (w # ws) out tok s = gather_loop env cap wait_ms max_tok ws out tok (submit_all w s)"
        by (subst gather_loop.simps) (simp add: gather_turn_Nil [OF ok])
      obtain out' s' where r: "gather_loop env cap wait_ms max_tok ws out tok (submit_all w s) = Some (out', s')"
        "gathered env cap max_tok (concat ws) ys out tok (submit_all w s) out' s'"
        using Cons.IH [OF ys(2,4), of out tok] unfolding gathers_def by blast
      show ?thesis
        using eq r(1) gathered_wait [OF ys(2,1,3) r(2)] by (simp add: gathersI)
    next
      case False
      then have "gather_loop env cap wait_ms max_tok (w # ws) out tok s = Some (out, s)"
        by (subst gather_loop.simps) (auto simp: gather_turn_Nil [OF ok])
      then show ?thesis using gathered_refl [OF ok] by (rule gathersI)
    qed
  qed
qed

text \<open>
  C28. What a static group is. Starting from a well-formed queue, with new jobs submitted by clients during
  the waits, the gather always returns. The group is the head job followed by a prefix of the queue and
  the arrivals, in order, without the jobs whose clients had left; every member besides the head passed
  the check of the static lane; the group has at most \<open>cap\<close> members; and if it has more than the
  head, its token footprint is within the budget.
\<close>

theorem coalesce_gather_prefix:
  assumes "q_ok s xs" "new_jobs s (concat wake)" "1 \<le> cap"
  shows "\<exists>out s' arr ps rest. coalesce_gather env cap wait_ms max_tok wake j s = Some (out, s') \<and>
    set arr \<subseteq> fst ` set (concat wake) \<and> xs @ arr = ps @ rest \<and> q_ok s' rest \<and>
    out = j # filter (\<lambda>a. \<not> pe_gone env a) ps \<and> (\<forall>a \<in> set ps. peer_ok s' a) \<and> int (length out) \<le> cap \<and>
    (max_tok > 0 \<and> 1 < length out \<longrightarrow>
       job_tok_footprint s j + sum_list (map (job_tok_footprint s') (tl out)) \<le> max_tok)"
proof -
  obtain out s' where r: "gather_loop env cap wait_ms max_tok wake [j] (job_tok_footprint s j) s = Some (out, s')"
    "gathered env cap max_tok (concat wake) xs [j] (job_tok_footprint s j) s out s'"
    using gather_loop_spec [OF assms(1,2)] unfolding gathers_def by blast
  obtain arr ps rest where g: "set arr \<subseteq> fst ` set (concat wake)" "xs @ arr = ps @ rest" "q_ok s' rest"
    "out = [j] @ filter (\<lambda>a. \<not> pe_gone env a) ps" "\<forall>a \<in> set ps. peer_ok s' a" "int (length [j]) \<le> cap \<longrightarrow> int (length out) \<le> cap"
    "max_tok > 0 \<and> out \<noteq> [j] \<longrightarrow> job_tok_footprint s j + sum_list (map (job_tok_footprint s') (drop (length [j]) out)) \<le> max_tok"
    using r(2) unfolding gathered_def by blast
  have "max_tok > 0 \<and> 1 < length out \<longrightarrow> job_tok_footprint s j + sum_list (map (job_tok_footprint s') (tl out)) \<le> max_tok"
    using g(4,7) by (auto simp: drop_Suc)
  moreover have "int (length out) \<le> cap" using g(6) assms(3) by simp
  moreover have "coalesce_gather env cap wait_ms max_tok wake j s = Some (out, s')" using r(1) by (simp add: coalesce_gather_def)
  ultimately show ?thesis using g(1-5) by (intro exI [of _ out] exI [of _ s'] exI [of _ arr] exI [of _ ps] exI [of _ rest]) simp
qed

subsection \<open>Witnesses\<close>

text \<open>A server with two plain jobs queued.\<close>

definition demo_job :: "u64 \<Rightarrow> job" where
  "demo_job body = \<lparr>jb_fd = 3, jb_req = demo_plain, jb_done = False, jb_next = None, jb_out = [], jb_client_gone = False,
     jb_t_arrive = 0, jb_outcome = JOB_OUT_COMPLETED, jb_body_bytes = body, jb_slip_attempts = 0\<rparr>"

definition demo_boot :: jserver where
  "demo_boot = \<lparr>js_jobs = (\<lambda>_. None), js_head = None, js_tail = None, js_stopping = False, js_max_clients = 8, js_max_queue = 4,
     js_max_queue_bytes = 100, js_max_queue_age = 60, js_queued = 0, js_inflight_body_bytes = 0, js_cont_anthropic = True,
     js_cont_responses = True, js_cont_tools_anthropic = True, js_cont_tools_responses = True, js_default_tokens = 128,
     js_metrics = \<lparr>mx_requests_started = 0, mx_requests_inflight = 0, mx_requests_completed = 0, mx_requests_failed = 0,
       mx_requests_canceled = 0, mx_requests_refused_deep_serial = 0, mx_requests_shed = (\<lambda>_. 0), mx_out_backlog_bytes = 0\<rparr>\<rparr>"

definition demo_one :: jserver where
  "demo_one = snd (client_submit demo_boot 1 (demo_job 10))"

definition demo_two :: jserver where
  "demo_two = snd (client_submit demo_one 2 (demo_job 20))"

lemma demo_jobs: "jb_next (demo_job b) = None" "js_jobs demo_boot 1 = None" "js_jobs demo_one 2 = None" "js_jobs demo_two 3 = None"
    apply (simp add: demo_job_def)
    apply (simp add: demo_boot_def)
   apply code_simp
  apply code_simp
  done

lemma demo_one_ok: "q_ok demo_one [1]"
proof -
  have "q_ok demo_boot []" by (simp add: q_ok_def demo_boot_def)
  moreover have "enqueue_verdict demo_boot (jb_body_bytes (demo_job 10)) = ENQ_OK" by code_simp
  ultimately show ?thesis
    using client_submit_spec(2) [of demo_boot "[]" 1 "demo_job 10"] demo_jobs by (simp add: demo_one_def)
qed

lemma demo_two_ok: "q_ok demo_two [1, 2]"
proof -
  have "enqueue_verdict demo_one (jb_body_bytes (demo_job 20)) = ENQ_OK" by code_simp
  then show ?thesis
    using client_submit_spec(2) [OF demo_one_ok, of 2 "demo_job 20"] demo_jobs by (simp add: demo_two_def)
qed

text \<open>The first client has left.\<close>

definition demo_env :: pull_env where
  "demo_env = \<lparr>pe_recv = (\<lambda>a. if a = 1 then RECV_FIN else RECV_OTHER_ERROR), pe_now = (\<lambda>_. 5), pe_recv_shed = (\<lambda>_. RECV_OTHER_ERROR)\<rparr>"

theorem dequeue_first_live_witness:
  "\<exists>s'. dequeue demo_env demo_two = Some (PULL_JOB 2, s') \<and> q_ok s' [] \<and> jb_outcome (job_at s' 1) = JOB_OUT_CANCELED"
proof -
  have d: "dq_drops demo_env demo_two 1" "\<not> dq_drops demo_env demo_two 2" "drop_outcome demo_env 1 = JOB_OUT_CANCELED"
    by code_simp+
  then have "dropWhile (dq_drops demo_env demo_two) [1, 2] = [2]" "takeWhile (dq_drops demo_env demo_two) [1, 2] = [1]" by simp_all
  with dequeue_first_live [OF demo_two_ok, of demo_env] d show ?thesis by (auto simp: job_at_def)
qed

theorem coalesce_gather_prefix_witness:
  "\<exists>s'. coalesce_gather demo_env 1 0 0 [] 7 demo_two = Some ([7], s')"
proof -
  have "new_jobs demo_two (concat [])" by (simp add: new_jobs_def)
  from coalesce_gather_prefix [OF demo_two_ok this, of 1 "demo_env" 0 0 7]
  show ?thesis by (fastforce simp: length_Suc_conv)
qed

end
