(* ===== verification/Job_Machine.thy ===== *)
theory Job_Machine
  imports Job_Pull
begin

section \<open>Clients and worker on the queue\<close>

text \<open>
  The interleavings of the client threads and the worker as a step relation: each step is one critical
  section of the code, or what a thread does between two of them with state of its own. Reachable states keep
  the counters equal to what they count, and within the configured bounds. The atomic counters that a thread
  updates right before or after a critical section are updated in the same step; what another thread could
  read of them in between is not a state of the model.

  A job that is neither queued nor done is held by the worker. \<open>MAX_BODY\<close> is the limit of the request reader.
\<close>

definition MAX_BODY :: u64 where "MAX_BODY = 64 * 1024 * 1024"

text \<open>A job as \<open>client_main\<close> sets it up.\<close>

definition fresh_job :: "job \<Rightarrow> bool" where
  "fresh_job j = (jb_next j = None \<and> \<not> jb_done j \<and> jb_slip_attempts j = 0 \<and> \<not> jb_client_gone j \<and> jb_out j = [] \<and>
     jb_outcome j = JOB_OUT_COMPLETED \<and> jb_body_bytes j \<le> MAX_BODY)"

definition held :: "jserver \<Rightarrow> nat list \<Rightarrow> nat \<Rightarrow> bool" where
  "held s xs a = (q_ok s xs \<and> a \<notin> set xs \<and> (case js_jobs s a of None \<Rightarrow> False | Some j \<Rightarrow> \<not> jb_done j))"

text \<open>The resample of a held job that has not been resampled.\<close>

definition slip_requeue :: "nat \<Rightarrow> jserver \<Rightarrow> jserver" where
  "slip_requeue a s = requeue_job_head a (upd_job a (\<lambda>j. j\<lparr>jb_slip_attempts := 1\<rparr>) s)"

text \<open>The end of a held job: the worker leaves an outcome, and possibly a client that is gone.\<close>

definition worker_finish :: "nat \<Rightarrow> job_outcome \<Rightarrow> bool \<Rightarrow> jserver \<Rightarrow> jserver" where
  "worker_finish a out left s = job_finish a (upd_job a (\<lambda>j. j\<lparr>jb_outcome := out, jb_client_gone := left\<rparr>) s)"

inductive job_step :: "jserver \<Rightarrow> jserver \<Rightarrow> bool" where
  step_submit: "js_jobs s a = None \<Longrightarrow> fresh_job j \<Longrightarrow> job_step s (snd (client_submit s a j))"
| step_dequeue: "job_step s (snd (dequeue_turn env s))"
| step_cont_pull: "job_step s (snd (cont_pull_turn env seq_cap s))"
| step_gather: "job_step s (snd (snd (gather_turn env wait_ms max_tok out tok s)))"
| step_slip: "held s xs a \<Longrightarrow> jb_slip_attempts (job_at s a) = 0 \<Longrightarrow> job_step s (slip_requeue a s)"
| step_finish: "held s xs a \<Longrightarrow> job_step s (worker_finish a out left s)"
| step_settle: "js_jobs s a = Some j \<Longrightarrow> jb_done j \<Longrightarrow> job_step s (client_settle a s)"
| step_stop: "job_step s (s\<lparr>js_stopping := True\<rparr>)"

text \<open>A server at boot: no jobs, all counters zero, a byte bound below half of the address space.\<close>

definition zero_metrics :: metrics where
  "zero_metrics = \<lparr>mx_requests_started = 0, mx_requests_inflight = 0, mx_requests_completed = 0, mx_requests_failed = 0,
     mx_requests_canceled = 0, mx_requests_refused_deep_serial = 0, mx_requests_shed = (\<lambda>_. 0), mx_out_backlog_bytes = 0\<rparr>"

definition at_boot :: "jserver \<Rightarrow> bool" where
  "at_boot s = (js_jobs s = (\<lambda>_. None) \<and> js_head s = None \<and> js_tail s = None \<and> js_queued s = 0 \<and> js_inflight_body_bytes s = 0 \<and>
     js_metrics s = zero_metrics \<and> js_max_queue_bytes s \<le> 2 ^ 63)"

inductive job_reachable :: "jserver \<Rightarrow> bool" where
  reach_boot: "at_boot s \<Longrightarrow> job_reachable s"
| reach_step: "job_reachable s \<Longrightarrow> job_step s s' \<Longrightarrow> job_reachable s'"

inductive_cases job_stepE: "job_step s s'"

subsection \<open>The invariant\<close>

text \<open>Bodies of the jobs that have not settled, and the requests that have.\<close>

definition body_of :: "jserver \<Rightarrow> nat \<Rightarrow> u64" where
  "body_of s a = jb_body_bytes (job_at s a)"

definition held_bytes :: "jserver \<Rightarrow> nat" where
  "held_bytes s = (\<Sum>a \<in> dom (js_jobs s). unat (body_of s a))"

definition settled_requests :: "metrics \<Rightarrow> u64" where
  "settled_requests m = mx_requests_completed m + mx_requests_failed m + mx_requests_canceled m + mx_requests_refused_deep_serial m +
     mx_requests_shed m DS4_SHED_QUEUE_AGE + mx_requests_shed m DS4_SHED_CONT_HOLD"

definition accounts :: "jserver \<Rightarrow> bool" where
  "accounts s \<longleftrightarrow> finite (dom (js_jobs s)) \<and> js_max_queue_bytes s \<le> 2 ^ 63 \<and>
     js_inflight_body_bytes s = of_nat (held_bytes s) \<and>
     (js_max_queue_bytes s > 0 \<longrightarrow> held_bytes s \<le> unat (js_max_queue_bytes s)) \<and>
     mx_requests_inflight (js_metrics s) = of_nat (card (dom (js_jobs s))) \<and>
     mx_requests_started (js_metrics s) = mx_requests_inflight (js_metrics s) + settled_requests (js_metrics s)"

text \<open>Only jobs that were submitted once count against the depth bound; a resample goes around it.\<close>

definition first_time :: "jserver \<Rightarrow> nat list \<Rightarrow> nat list" where
  "first_time s xs = filter (\<lambda>a. jb_slip_attempts (job_at s a) = 0) xs"

definition queue_inv :: "jserver \<Rightarrow> nat list \<Rightarrow> bool" where
  "queue_inv s xs \<longleftrightarrow> q_ok s xs \<and> (\<forall>a \<in> set xs. \<not> jb_done (job_at s a)) \<and>
     (js_max_queue s > 0 \<longrightarrow> int (length (first_time s xs)) \<le> js_max_queue s)"

definition job_inv :: "jserver \<Rightarrow> bool" where
  "job_inv s \<longleftrightarrow> accounts s \<and> (\<exists>xs. queue_inv s xs)"

text \<open>A step that changes neither the jobs' sizes nor the counters keeps the accounts.\<close>

lemma accounts_same:
  assumes "\<And>a. map_option jb_body_bytes (js_jobs s' a) = map_option jb_body_bytes (js_jobs s a)"
    and "js_max_queue_bytes s' = js_max_queue_bytes s" "js_inflight_body_bytes s' = js_inflight_body_bytes s" "js_metrics s' = js_metrics s"
  shows "accounts s' \<longleftrightarrow> accounts s"
proof -
  have "js_jobs s' a = None \<longleftrightarrow> js_jobs s a = None" for a
    using assms(1) [of a] by (cases "js_jobs s a"; cases "js_jobs s' a") auto
  then have d: "dom (js_jobs s') = dom (js_jobs s)" by (auto simp: dom_def)
  have "body_of s' a = body_of s a" if "a \<in> dom (js_jobs s)" for a
    using assms(1) [of a] that by (auto simp: body_of_def job_at_def dom_def)
  then have "held_bytes s' = held_bytes s" unfolding held_bytes_def d by simp
  then show ?thesis by (simp add: accounts_def d assms(2-4))
qed

lemma first_time_cong: "(\<And>a. a \<in> set xs \<Longrightarrow> jb_slip_attempts (job_at s' a) = jb_slip_attempts (job_at s a)) \<Longrightarrow> first_time s' xs = first_time s xs"
  unfolding first_time_def by (rule filter_cong) auto

lemma queue_inv_tail:
  assumes "queue_inv s (a # xs)" "q_ok s' xs" "\<And>b. b \<in> set xs \<Longrightarrow> job_at s' b = job_at s b" "js_max_queue s' = js_max_queue s"
  shows "queue_inv s' xs"
proof -
  have "first_time s' xs = first_time s xs" by (rule first_time_cong) (simp add: assms(3))
  moreover have "length (first_time s xs) \<le> length (first_time s (a # xs))" by (simp add: first_time_def)
  ultimately show ?thesis using assms by (auto simp: queue_inv_def)
qed

subsection \<open>Pulling keeps it\<close>

lemma job_inv_finish:
  assumes acc: "accounts s" and q: "queue_inv s (a # xs)"
  shows "job_inv (finish_with out a s)"
proof -
  have ok: "q_ok s (a # xs)" using q by (simp add: queue_inv_def)
  have "accounts (finish_with out a s)"
    using acc by (subst accounts_same) (auto simp: finish_with_jobs [OF ok] option.map_comp comp_def)
  moreover have "queue_inv (finish_with out a s) xs"
    by (rule queue_inv_tail [OF q finish_with_ok [OF ok]]) (simp_all add: finish_with_other [OF ok])
  ultimately show ?thesis unfolding job_inv_def by blast
qed

lemma job_inv_unlinked:
  assumes acc: "accounts s" and q: "queue_inv s (a # xs)"
  shows "job_inv (unlinked a s)"
proof -
  have ok: "q_ok s (a # xs)" and ax: "a \<notin> set xs" using q by (auto simp: queue_inv_def q_ok_def)
  have "accounts (unlinked a s)"
    using acc by (subst accounts_same) (auto simp: unlink_spec(3) [OF ok] option.map_comp comp_def)
  moreover have "queue_inv (unlinked a s) xs"
    by (rule queue_inv_tail [OF q unlink_spec(2) [OF ok]]) (metis ax unlinked_job_at(2) [OF ok], simp)
  ultimately show ?thesis unfolding job_inv_def by blast
qed

lemma pull_inv:
  assumes "job_inv s"
  shows "job_inv (snd (dequeue_turn env s))" "job_inv (snd (cont_pull_turn env seq_cap s))"
    "job_inv (snd (snd (gather_turn env wait_ms max_tok out tok s)))"
proof -
  obtain xs where acc: "accounts s" and q: "queue_inv s xs" using assms by (auto simp: job_inv_def)
  have "job_inv (snd (dequeue_turn env s)) \<and> job_inv (snd (cont_pull_turn env seq_cap s)) \<and>
      job_inv (snd (snd (gather_turn env wait_ms max_tok out tok s)))"
  proof (cases xs)
    case Nil
    then have "q_ok s []" using q by (simp add: queue_inv_def)
    then show ?thesis using assms by (simp add: dequeue_turn_Nil cont_pull_turn_Nil gather_turn_Nil)
  next
    case (Cons a ys)
    then have ok: "q_ok s (a # ys)" and q: "queue_inv s (a # ys)" using q by (simp_all add: queue_inv_def)
    show ?thesis
      using job_inv_finish [OF acc q] job_inv_unlinked [OF acc q] assms
      by (simp add: dequeue_turn_Cons [OF ok] cont_pull_turn_Cons [OF ok] gather_turn_Cons [OF ok] dq_drop_def cp_drop_def)
  qed
  then show "job_inv (snd (dequeue_turn env s))" "job_inv (snd (cont_pull_turn env seq_cap s))"
    "job_inv (snd (snd (gather_turn env wait_ms max_tok out tok s)))" by blast+
qed

subsection \<open>Submitting, resampling, finishing and settling keep it\<close>

lemma dom_upd_job [simp]: "dom (js_jobs (upd_job a f s)) = dom (js_jobs s)"
  by (auto simp: dom_def split: if_splits)

lemma upd_job_at: "job_at (upd_job a f s) b = (if b = a \<and> js_jobs s a \<noteq> None then f (job_at s a) else job_at s b)"
  by (auto simp: job_at_def)

lemma slip_inv:
  assumes inv: "job_inv s" and h: "held s xs a" and slip: "jb_slip_attempts (job_at s a) = 0"
  shows "job_inv (slip_requeue a s)"
proof -
  obtain j where ok: "q_ok s xs" and a: "a \<notin> set xs" "js_jobs s a = Some j" "\<not> jb_done j"
    using h by (auto simp: held_def split: option.splits)
  obtain ys where acc: "accounts s" and "queue_inv s ys" using inv by (auto simp: job_inv_def)
  then have q: "queue_inv s xs" using q_ok_unique [OF ok] by (auto simp: queue_inv_def)
  define s1 where "s1 = upd_job a (\<lambda>j. j\<lparr>jb_slip_attempts := 1\<rparr>) s"
  have ok1: "q_ok s1 xs" using ok by (simp add: s1_def q_ok_upd_job)
  have j1: "js_jobs s1 a = Some (j\<lparr>jb_slip_attempts := 1\<rparr>)" using a(2) by (simp add: s1_def)
  have rq: "js_metrics (requeue_job_head a s1) = js_metrics s" "js_inflight_body_bytes (requeue_job_head a s1) = js_inflight_body_bytes s"
    "js_max_queue_bytes (requeue_job_head a s1) = js_max_queue_bytes s" "js_max_queue (requeue_job_head a s1) = js_max_queue s"
    "js_jobs (requeue_job_head a s1) b = (if b = a then Some (j\<lparr>jb_slip_attempts := 1, jb_next := js_head s\<rparr>) else js_jobs s b)" for b
    using a(2) by (auto simp: requeue_job_head_def Let_def s1_def)
  have "accounts (slip_requeue a s)"
    using acc a(2) by (subst accounts_same) (auto simp: slip_requeue_def s1_def [symmetric] rq)
  moreover have at: "job_at (requeue_job_head a s1) b = (if b = a then j\<lparr>jb_slip_attempts := 1, jb_next := js_head s\<rparr> else job_at s b)" for b
    by (simp add: job_at_def rq)
  have "queue_inv (slip_requeue a s) (a # xs)"
  proof -
    have "first_time (requeue_job_head a s1) (a # xs) = first_time s xs"
      using a(1) by (simp add: first_time_def at) (rule filter_cong, auto simp: at)
    then show ?thesis
      using q requeue_spec [OF ok1 a(1) j1] a
      by (auto simp: queue_inv_def slip_requeue_def s1_def [symmetric] rq at)
  qed
  ultimately show ?thesis unfolding job_inv_def by blast
qed

lemma finish_inv:
  assumes inv: "job_inv s" and h: "held s xs a"
  shows "job_inv (worker_finish a out left s)"
proof -
  have ok: "q_ok s xs" and a: "a \<notin> set xs" using h by (auto simp: held_def split: option.splits)
  obtain ys where acc: "accounts s" and "queue_inv s ys" using inv by (auto simp: job_inv_def)
  then have q: "queue_inv s xs" using q_ok_unique [OF ok] by (auto simp: queue_inv_def)
  have "accounts (worker_finish a out left s)"
    using acc by (subst accounts_same) (auto simp: worker_finish_def job_finish_def option.map_comp comp_def)
  moreover have "job_at (worker_finish a out left s) b = job_at s b" if "b \<noteq> a" for b
    using that by (simp add: worker_finish_def job_finish_def job_at_def)
  then have at: "job_at (worker_finish a out left s) b = job_at s b" if "b \<in> set xs" for b using that a by metis
  then have "first_time (worker_finish a out left s) xs = first_time s xs" by (intro first_time_cong) simp
  then have "queue_inv (worker_finish a out left s) xs"
    using q at by (auto simp: queue_inv_def) (auto simp: worker_finish_def job_finish_def q_ok_upd_job)
  ultimately show ?thesis unfolding job_inv_def by blast
qed

lemma settle_started:
  "mx_requests_started (settle_metrics j m) = mx_requests_started m"
  "mx_requests_inflight (settle_metrics j m) = mx_requests_inflight m - 1"
  "settled_requests (settle_metrics j m) = settled_requests m + 1"
  by (auto simp: settle_metrics_def settled_requests_def Let_def)

lemma settle_inv:
  assumes inv: "job_inv s" and j: "js_jobs s a = Some j" "jb_done j"
  shows "job_inv (client_settle a s)"
proof -
  obtain xs where acc: "accounts s" and q: "queue_inv s xs" using inv by (auto simp: job_inv_def)
  define s' where "s' = client_settle a s"
  have at: "job_at s a = j" using j(1) by (simp add: job_at_def)
  have a: "a \<notin> set xs" using q j(2) at by (auto simp: queue_inv_def)
  have f: "js_jobs s' = (js_jobs s)(a := None)" "js_inflight_body_bytes s' = js_inflight_body_bytes s - jb_body_bytes j"
    "js_metrics s' = settle_metrics j (js_metrics s)" "js_max_queue_bytes s' = js_max_queue_bytes s" "js_max_queue s' = js_max_queue s"
    "js_head s' = js_head s" "js_tail s' = js_tail s" "js_queued s' = js_queued s"
    by (simp_all add: s'_def client_settle_def Let_def at)
  have fin: "finite (dom (js_jobs s))" and ad: "a \<in> dom (js_jobs s)" using acc j(1) by (auto simp: accounts_def)
  have d: "dom (js_jobs s') = dom (js_jobs s) - {a}" by (auto simp: f(1))
  have b: "body_of s' b = body_of s b" if "b \<noteq> a" for b using that by (simp add: body_of_def job_at_def f(1))
  have "held_bytes s = unat (body_of s a) + (\<Sum>b \<in> dom (js_jobs s) - {a}. unat (body_of s b))"
    unfolding held_bytes_def by (rule sum.remove [OF fin ad])
  then have h: "held_bytes s = unat (jb_body_bytes j) + held_bytes s'"
    unfolding held_bytes_def d using b at by (simp add: body_of_def)
  have c: "card (dom (js_jobs s)) = Suc (card (dom (js_jobs s')))" unfolding d using card.remove [OF fin ad] .
  have "accounts s'"
    using acc fin c h unfolding accounts_def f settle_started d by (auto simp: of_nat_add)
  moreover have at': "job_at s' b = job_at s b" if "b \<in> set xs" for b using that a by (auto simp: job_at_def f(1))
  have "queue_inv s' xs"
  proof -
    have "q_ok s' xs" using q a by (auto simp: queue_inv_def q_ok_def f)
    moreover have "first_time s' xs = first_time s xs" using at' by (intro first_time_cong) simp
    ultimately show ?thesis using q at' by (auto simp: queue_inv_def f(5))
  qed
  ultimately show ?thesis unfolding job_inv_def s'_def [symmetric] by blast
qed

text \<open>The byte check does not wrap: both summands are far below the word size.\<close>

lemma body_sum_exact:
  assumes "h \<le> 2 ^ 63" "body \<le> MAX_BODY"
  shows "unat (of_nat h + body :: u64) = h + unat body"
proof -
  have "unat body \<le> 67108864" using assms(2) by (simp add: MAX_BODY_def word_le_nat_alt)
  then have "h + unat body < 2 ^ 64" using assms(1) by simp
  then have "take_bit 64 (h + unat body) = h + unat body" by (simp only: take_bit_nat_eq_self_iff)
  then have "unat (of_nat (h + unat body) :: u64) = h + unat body" by (simp only: unsigned_of_nat) simp
  then show ?thesis by simp
qed

lemma submit_counters:
  fixes s :: jserver and a :: nat and j :: job
  assumes "js_jobs s a = None"
  defines "ok \<equiv> enqueue_verdict s (jb_body_bytes j) = ENQ_OK" and "s' \<equiv> snd (client_submit s a j)"
  shows "js_inflight_body_bytes s' = (if ok then js_inflight_body_bytes s + jb_body_bytes j else js_inflight_body_bytes s)"
    "mx_requests_started (js_metrics s') = (if ok then mx_requests_started (js_metrics s) + 1 else mx_requests_started (js_metrics s))"
    "mx_requests_inflight (js_metrics s') = (if ok then mx_requests_inflight (js_metrics s) + 1 else mx_requests_inflight (js_metrics s))"
    "settled_requests (js_metrics s') = settled_requests (js_metrics s)"
    "js_max_queue_bytes s' = js_max_queue_bytes s" "js_max_queue s' = js_max_queue s"
proof -
  define e where "e = enqueue (s\<lparr>js_jobs := (js_jobs s)(a \<mapsto> j)\<rparr>) a"
  have e: "fst e = enqueue_verdict s (jb_body_bytes j)" "js_metrics (snd e) = js_metrics s"
    "js_inflight_body_bytes (snd e) = (if ok then js_inflight_body_bytes s + jb_body_bytes j else js_inflight_body_bytes s)"
    "js_max_queue_bytes (snd e) = js_max_queue_bytes s" "js_max_queue (snd e) = js_max_queue s"
    by (auto simp: e_def enqueue_def enqueue_verdict_def ok_def Let_def job_at_def split: option.splits)
  have s': "s' = snd (case e of (ENQ_OK, s1) \<Rightarrow> (ENQ_OK, s1\<lparr>js_metrics := (js_metrics s1)\<lparr>
            mx_requests_started := mx_requests_started (js_metrics s1) + 1,
            mx_requests_inflight := mx_requests_inflight (js_metrics s1) + 1\<rparr>\<rparr>)
     | (v, s1) \<Rightarrow>
         let s2 = (case v of ENQ_SHED_QUEUE_DEPTH \<Rightarrow> shed_record DS4_SHED_QUEUE_DEPTH s1
                     | ENQ_SHED_QUEUE_BYTES \<Rightarrow> shed_record DS4_SHED_QUEUE_BYTES s1
                     | _ \<Rightarrow> s1)
         in (v, s2\<lparr>js_jobs := (js_jobs s2)(a := None)\<rparr>))"
    unfolding s'_def client_submit_def e_def ..
  show "js_inflight_body_bytes s' = (if ok then js_inflight_body_bytes s + jb_body_bytes j else js_inflight_body_bytes s)"
    "mx_requests_started (js_metrics s') = (if ok then mx_requests_started (js_metrics s) + 1 else mx_requests_started (js_metrics s))"
    "mx_requests_inflight (js_metrics s') = (if ok then mx_requests_inflight (js_metrics s) + 1 else mx_requests_inflight (js_metrics s))"
    "settled_requests (js_metrics s') = settled_requests (js_metrics s)"
    "js_max_queue_bytes s' = js_max_queue_bytes s" "js_max_queue s' = js_max_queue s"
    using e unfolding s' ok_def
    by (cases e; cases "fst e"; auto simp: Let_def shed_record_def settled_requests_def)+
qed

lemma submit_accounts:
  assumes acc: "accounts s" and ok: "q_ok s xs" and new: "js_jobs s a = None" "fresh_job j"
  shows "accounts (snd (client_submit s a j))"
proof -
  have nx: "jb_next j = None" and body: "jb_body_bytes j \<le> MAX_BODY" using new(2) by (auto simp: fresh_job_def)
  note S = client_submit_spec [OF ok new(1) nx] and C = submit_counters [OF new(1), of j]
  define s' where "s' = snd (client_submit s a j)"
  note S = S [folded s'_def] and C = C [folded s'_def]
  show ?thesis
  proof (cases "enqueue_verdict s (jb_body_bytes j) = ENQ_OK")
    case True
    have other: "map_option jb_body_bytes (js_jobs s' b) = map_option jb_body_bytes (js_jobs s b)" if "b \<noteq> a" for b
      using S(5) [OF that] by (auto simp: option.map_comp comp_def)
    have none: "js_jobs s' b = None \<longleftrightarrow> js_jobs s b = None" if "b \<noteq> a" for b
      using other [OF that] by (cases "js_jobs s b"; cases "js_jobs s' b") auto
    have "b \<in> dom (js_jobs s') \<longleftrightarrow> b \<in> insert a (dom (js_jobs s))" for b
      using S(3) [OF True] none [of b] by (cases "b = a") (auto simp: dom_def)
    then have d: "dom (js_jobs s') = insert a (dom (js_jobs s))" by blast
    have bo: "body_of s' b = body_of s b" if "b \<in> dom (js_jobs s)" for b
    proof -
      have "b \<noteq> a" using that new(1) by auto
      from other [OF this] that show ?thesis by (auto simp: body_of_def job_at_def dom_def)
    qed
    have fin: "finite (dom (js_jobs s))" and na: "a \<notin> dom (js_jobs s)" using acc new(1) by (auto simp: accounts_def)
    have h: "held_bytes s' = unat (jb_body_bytes j) + held_bytes s"
      unfolding held_bytes_def d using fin na bo S(3) [OF True] by (simp add: body_of_def job_at_def)
    have bound: "held_bytes s + unat (jb_body_bytes j) \<le> unat (js_max_queue_bytes s)" if m: "js_max_queue_bytes s > 0"
    proof -
      have "held_bytes s \<le> unat (js_max_queue_bytes s)" "unat (js_max_queue_bytes s) \<le> 2 ^ 63"
        using acc m by (auto simp: accounts_def word_le_nat_alt)
      then have "unat (of_nat (held_bytes s) + jb_body_bytes j) = held_bytes s + unat (jb_body_bytes j)"
        by (intro body_sum_exact body) simp
      moreover have "\<not> js_inflight_body_bytes s + jb_body_bytes j > js_max_queue_bytes s"
        using True m by (auto simp: enqueue_verdict_def split: if_splits)
      ultimately show ?thesis using acc by (simp add: accounts_def word_less_nat_alt)
    qed
    show ?thesis
      using acc fin na True C bound unfolding s'_def [symmetric] accounts_def d h by (auto simp: of_nat_add ac_simps)
  next
    case False
    have "dom (js_jobs s') = dom (js_jobs s)" "held_bytes s' = held_bytes s"
      using S(4) [OF False] by (simp_all add: held_bytes_def body_of_def job_at_def)
    then show ?thesis using acc C False unfolding s'_def [symmetric] accounts_def by simp
  qed
qed

lemma submit_inv:
  assumes inv: "job_inv s" and new: "js_jobs s a = None" "fresh_job j"
  shows "job_inv (snd (client_submit s a j))"
proof -
  obtain xs where acc: "accounts s" and q: "queue_inv s xs" using inv by (auto simp: job_inv_def)
  have ok: "q_ok s xs" and nx: "jb_next j = None" "\<not> jb_done j" using q new(2) by (auto simp: queue_inv_def fresh_job_def)
  define s' where "s' = snd (client_submit s a j)"
  note S = client_submit_spec [OF ok new(1) nx(1), folded s'_def] and C = submit_counters [OF new(1), of j, folded s'_def]
  have at: "jb_done (job_at s' b) = jb_done (job_at s b)" "jb_slip_attempts (job_at s' b) = jb_slip_attempts (job_at s b)" if "b \<in> set xs" for b
  proof -
    have "js_jobs s b = Some (job_at s b)" by (rule q_ok_dom [OF ok that])
    then obtain k where "js_jobs s b = Some k" by blast
    moreover from this have "b \<noteq> a" using new(1) by auto
    ultimately show "jb_done (job_at s' b) = jb_done (job_at s b)" "jb_slip_attempts (job_at s' b) = jb_slip_attempts (job_at s b)"
      using S(5) [of b] by (auto simp: job_at_def)
  qed
  have "queue_inv s' (if enqueue_verdict s (jb_body_bytes j) = ENQ_OK then xs @ [a] else xs)"
  proof (cases "enqueue_verdict s (jb_body_bytes j) = ENQ_OK")
    case True
    have "js_max_queue s > 0 \<Longrightarrow> int (length xs) < js_max_queue s"
      using True ok by (auto simp: enqueue_verdict_def q_ok_def split: if_splits)
    moreover have "length (first_time s' (xs @ [a])) \<le> length xs + 1" unfolding first_time_def by (metis Suc_eq_plus1 length_append_singleton length_filter_le)
    ultimately have "js_max_queue s > 0 \<Longrightarrow> int (length (first_time s' (xs @ [a]))) \<le> js_max_queue s" by fastforce
    then show ?thesis
      using True S(2) S(3) [OF True] q at(1) nx(2) C(6) by (auto simp: queue_inv_def job_at_def)
  next
    case False
    have "first_time s' xs = first_time s xs" using at(2) by (rule first_time_cong)
    then show ?thesis using False S(2) q at(1) C(6) by (auto simp: queue_inv_def)
  qed
  then show ?thesis using submit_accounts [OF acc ok new] unfolding s'_def [symmetric] job_inv_def by blast
qed

subsection \<open>Reachable states\<close>

lemma job_step_inv: "job_step s s' \<Longrightarrow> job_inv s \<Longrightarrow> job_inv s'"
proof (induction rule: job_step.induct)
  case (step_stop s)
  then obtain xs where "accounts s" "queue_inv s xs" by (auto simp: job_inv_def)
  moreover have "accounts (s\<lparr>js_stopping := True\<rparr>) \<longleftrightarrow> accounts s" by (rule accounts_same) simp_all
  moreover have "queue_inv (s\<lparr>js_stopping := True\<rparr>) xs \<longleftrightarrow> queue_inv s xs"
    by (simp add: queue_inv_def q_ok_def job_at_def first_time_def)
  ultimately show ?case unfolding job_inv_def by blast
qed (simp_all add: submit_inv pull_inv slip_inv finish_inv settle_inv)

lemma job_reachable_inv: "job_reachable s \<Longrightarrow> job_inv s"
proof (induction rule: job_reachable.induct)
  case (reach_boot s)
  then have "accounts s" by (simp add: at_boot_def accounts_def held_bytes_def zero_metrics_def settled_requests_def)
  moreover have "queue_inv s []" using reach_boot by (simp add: at_boot_def queue_inv_def q_ok_def first_time_def)
  ultimately show ?case unfolding job_inv_def by blast
next
  case (reach_step s s')
  then show ?case using job_step_inv by blast
qed

text \<open>
  C7. The bounds of the queue hold. In every state that clients and worker can reach, in any interleaving, the
  pointers form a list without repetition whose length is the depth counter and that holds no finished
  job; the byte counter is exactly the body bytes of the jobs that have not settled; when a byte bound is
  configured they are within it; and when a depth bound is configured, the queued jobs
  other than resampled ones are within it.
\<close>

theorem queue_within_bounds:
  assumes "job_reachable s"
  shows "\<exists>xs. q_ok s xs \<and> (\<forall>a \<in> set xs. \<not> jb_done (job_at s a)) \<and>
    js_inflight_body_bytes s = of_nat (held_bytes s) \<and>
    (js_max_queue_bytes s > 0 \<longrightarrow> held_bytes s \<le> unat (js_max_queue_bytes s)) \<and>
    (js_max_queue s > 0 \<longrightarrow> int (length (first_time s xs)) \<le> js_max_queue s)"
  using job_reachable_inv [OF assms] unfolding job_inv_def accounts_def queue_inv_def by blast

text \<open>
  C29. Every request is counted once. In every reachable state the started requests are the requests in
  flight, as many as there are jobs, plus those counted as completed, failed, cancelled, refused, or shed
  after they were queued.
\<close>

theorem requests_conserved:
  assumes "job_reachable s"
  shows "mx_requests_started (js_metrics s) = of_nat (card (dom (js_jobs s))) + settled_requests (js_metrics s) \<and>
    mx_requests_inflight (js_metrics s) = of_nat (card (dom (js_jobs s)))"
  using job_reachable_inv [OF assms] unfolding job_inv_def accounts_def by simp

subsection \<open>No job waits forever\<close>

text \<open>
  Runs of the machine with the pull turns of the worker and the resamples counted, in which the address \<open>a\<close>
  of the job observed is not given to a new job.
\<close>

inductive job_run :: "nat \<Rightarrow> jserver \<Rightarrow> nat \<Rightarrow> nat \<Rightarrow> jserver \<Rightarrow> bool" for a s0 where
  run_start: "job_run a s0 0 0 s0"
| run_pull: "job_run a s0 n k s \<Longrightarrow> job_run a s0 (Suc n) k (snd (dequeue_turn env s))"
| run_slip: "job_run a s0 n k s \<Longrightarrow> held s xs b \<Longrightarrow> jb_slip_attempts (job_at s b) = 0 \<Longrightarrow> job_run a s0 n (Suc k) (slip_requeue b s)"
| run_submit: "job_run a s0 n k s \<Longrightarrow> js_jobs s b = None \<Longrightarrow> b \<noteq> a \<Longrightarrow> fresh_job j \<Longrightarrow> job_run a s0 n k (snd (client_submit s b j))"
| run_cont_pull: "job_run a s0 n k s \<Longrightarrow> job_run a s0 n k (snd (cont_pull_turn env seq_cap s))"
| run_gather: "job_run a s0 n k s \<Longrightarrow> job_run a s0 n k (snd (snd (gather_turn env wait_ms max_tok out tok s)))"
| run_finish: "job_run a s0 n k s \<Longrightarrow> held s xs b \<Longrightarrow> job_run a s0 n k (worker_finish b out left s)"
| run_settle: "job_run a s0 n k s \<Longrightarrow> js_jobs s b = Some j \<Longrightarrow> jb_done j \<Longrightarrow> job_run a s0 n k (client_settle b s)"
| run_stop: "job_run a s0 n k s \<Longrightarrow> job_run a s0 n k (s\<lparr>js_stopping := True\<rparr>)"

lemma job_run_inv: "job_run a s0 n k s \<Longrightarrow> job_inv s0 \<Longrightarrow> job_inv s"
  by (induction rule: job_run.induct) (blast intro: job_step_inv job_step.intros)+

text \<open>Where the observed job waits: in the queue, not resampled.\<close>

definition waits :: "nat \<Rightarrow> jserver \<Rightarrow> nat list \<Rightarrow> bool" where
  "waits a s xs \<longleftrightarrow> q_ok s xs \<and> a \<in> set xs \<and> jb_slip_attempts (job_at s a) = 0"

definition ahead :: "nat \<Rightarrow> nat list \<Rightarrow> nat" where
  "ahead a xs = length (takeWhile (\<lambda>b. b \<noteq> a) xs)"

lemma ahead_simps: "ahead a (a # xs) = 0" "b \<noteq> a \<Longrightarrow> ahead a (b # xs) = Suc (ahead a xs)" "a \<in> set xs \<Longrightarrow> ahead a (xs @ ys) = ahead a xs"
  by (simp_all add: ahead_def takeWhile_append1)

text \<open>If the job still waits after a turn at a non-empty queue that unlinks the head, one job less is ahead.\<close>

lemma waits_unlink:
  assumes ok: "q_ok s (b # ys)" and w: "waits a s' xs'" and ok': "q_ok s' ys" and at: "\<And>c. c \<in> set ys \<Longrightarrow> job_at s' c = job_at s c"
  shows "waits a s (b # ys) \<and> ahead a (b # ys) = Suc (ahead a xs')"
proof -
  have x: "xs' = ys" using q_ok_unique [OF ok'] w by (auto simp: waits_def)
  then have "a \<in> set ys" "a \<noteq> b" using w ok by (auto simp: waits_def q_ok_def)
  then show ?thesis using w ok at x by (auto simp: waits_def ahead_simps)
qed

lemma waits_pull:
  assumes ok: "q_ok s xs" and w: "waits a s' xs'"
  shows "s' = snd (dequeue_turn env s) \<Longrightarrow> waits a s xs \<and> ahead a xs = Suc (ahead a xs')"
    and "s' = snd (cont_pull_turn env seq_cap s) \<Longrightarrow> waits a s xs \<and> ahead a xs' \<le> ahead a xs"
    and "s' = snd (snd (gather_turn env wait_ms max_tok out tok s)) \<Longrightarrow> waits a s xs \<and> ahead a xs' \<le> ahead a xs"
proof -
  have stay: "s' = s \<Longrightarrow> waits a s xs \<and> ahead a xs' = ahead a xs"
    using w q_ok_unique [OF ok] by (auto simp: waits_def)
  have fin: "s' = finish_with o' b s \<Longrightarrow> xs = b # ys \<Longrightarrow> waits a s xs \<and> ahead a xs = Suc (ahead a xs')" for o' b ys
    using waits_unlink [of s b ys a s' xs'] ok w finish_with_ok [of s b ys] finish_with_other [of s b ys] by simp
  have unl: "waits a s xs \<and> ahead a xs = Suc (ahead a xs')" if "s' = unlinked b s" "xs = b # ys" for b ys
  proof -
    have "b \<notin> set ys" using ok that by (simp add: q_ok_def)
    then have "\<And>c. c \<in> set ys \<Longrightarrow> job_at s' c = job_at s c" using unlinked_job_at(2) [of s b ys] ok that by metis
    then show ?thesis using waits_unlink [of s b ys a s' xs'] ok w that unlink_spec(2) [of s b ys] by simp
  qed
  have nonempty: "s' = snd (dequeue_turn env s) \<Longrightarrow> xs \<noteq> []"
    using ok w q_ok_unique [of s' xs'] by (auto simp: dequeue_turn_Nil waits_def)
  show "s' = snd (dequeue_turn env s) \<Longrightarrow> waits a s xs \<and> ahead a xs = Suc (ahead a xs')"
    using nonempty fin unl ok by (cases xs) (auto simp: dequeue_turn_Cons dq_drop_def split: if_splits)
  show "s' = snd (cont_pull_turn env seq_cap s) \<Longrightarrow> waits a s xs \<and> ahead a xs' \<le> ahead a xs"
    using stay fin unl ok
    by (cases xs) (fastforce simp: cont_pull_turn_Nil cont_pull_turn_Cons cp_drop_def split: if_splits)+
  show "s' = snd (snd (gather_turn env wait_ms max_tok out tok s)) \<Longrightarrow> waits a s xs \<and> ahead a xs' \<le> ahead a xs"
    using stay fin unl ok
    by (cases xs) (fastforce simp: gather_turn_Nil gather_turn_Cons split: if_splits)+
qed

text \<open>A step that leaves the queue and the job alone.\<close>

lemma waits_same:
  assumes "q_ok s xs" "q_ok s' xs" "jb_slip_attempts (job_at s' a) = jb_slip_attempts (job_at s a)" "waits a s' xs'"
  shows "waits a s xs \<and> ahead a xs' = ahead a xs"
proof -
  have "xs' = xs" using q_ok_unique [OF _ assms(2)] assms(4) by (simp add: waits_def)
  then show ?thesis using assms by (simp add: waits_def)
qed

lemma waits_finish:
  assumes "q_ok s xs" "waits a (worker_finish b out left s) xs'"
  shows "waits a s xs \<and> ahead a xs' = ahead a xs"
proof (rule waits_same [OF assms(1) _ _ assms(2)])
  show "q_ok (worker_finish b out left s) xs" using assms(1) by (simp add: worker_finish_def job_finish_def q_ok_upd_job)
  show "jb_slip_attempts (job_at (worker_finish b out left s) a) = jb_slip_attempts (job_at s a)"
    by (simp add: worker_finish_def job_finish_def upd_job_at)
qed

lemma waits_settle:
  assumes "queue_inv s xs" "js_jobs s b = Some j" "jb_done j" "waits a (client_settle b s) xs'"
  shows "waits a s xs \<and> ahead a xs' = ahead a xs"
proof -
  have b: "b \<notin> set xs" using assms(1-3) by (auto simp: queue_inv_def job_at_def)
  have ok: "q_ok s xs" using assms(1) by (simp add: queue_inv_def)
  have ok': "q_ok (client_settle b s) xs" using ok b by (auto simp: q_ok_def client_settle_def Let_def)
  have "a \<in> set xs" using assms(4) q_ok_unique [OF ok'] by (auto simp: waits_def)
  then have "jb_slip_attempts (job_at (client_settle b s) a) = jb_slip_attempts (job_at s a)"
    using b by (auto simp: client_settle_def Let_def job_at_def)
  then show ?thesis using waits_same [OF ok ok'] assms(4) by blast
qed

lemma waits_submit:
  assumes ok: "q_ok s xs" and new: "js_jobs s b = None" "fresh_job j" "b \<noteq> a" and w: "waits a (snd (client_submit s b j)) xs'"
  shows "waits a s xs \<and> ahead a xs' = ahead a xs"
proof -
  have nx: "jb_next j = None" using new(2) by (simp add: fresh_job_def)
  note S = client_submit_spec [OF ok new(1) nx]
  have x: "xs' = (if enqueue_verdict s (jb_body_bytes j) = ENQ_OK then xs @ [b] else xs)"
    using q_ok_unique [OF S(2)] w by (auto simp: waits_def)
  then have a: "a \<in> set xs" using w new(3) by (auto simp: waits_def split: if_splits)
  obtain k where "js_jobs s a = Some k" using q_ok_dom [OF ok a] by blast
  then have "jb_slip_attempts (job_at (snd (client_submit s b j)) a) = jb_slip_attempts (job_at s a)"
    using S(5) [of a] new(3) by (auto simp: job_at_def)
  then show ?thesis using w ok a x by (simp add: waits_def ahead_simps)
qed

lemma waits_slip:
  assumes h: "held s xs b" and w: "waits a (slip_requeue b s) xs'"
  shows "waits a s xs \<and> ahead a xs' = Suc (ahead a xs)"
proof -
  obtain j where ok: "q_ok s xs" and b: "b \<notin> set xs" "js_jobs s b = Some j" using h by (auto simp: held_def split: option.splits)
  define s1 where "s1 = upd_job b (\<lambda>j. j\<lparr>jb_slip_attempts := 1\<rparr>) s"
  have "q_ok s1 xs" "js_jobs s1 b = Some (j\<lparr>jb_slip_attempts := 1\<rparr>)" using ok b(2) by (simp_all add: s1_def q_ok_upd_job)
  from requeue_spec [OF this(1) b(1) this(2)] have ok': "q_ok (slip_requeue b s) (b # xs)" by (simp add: slip_requeue_def s1_def)
  have at: "jb_slip_attempts (job_at (slip_requeue b s) c) = (if c = b then 1 else jb_slip_attempts (job_at s c))" for c
    using b(2) by (simp add: slip_requeue_def requeue_job_head_def Let_def job_at_def)
  have x: "xs' = b # xs" using w q_ok_unique [OF ok'] by (auto simp: waits_def)
  have "a \<noteq> b" using w at by (auto simp: waits_def)
  then show ?thesis using w x at ok by (auto simp: waits_def ahead_simps)
qed

lemma job_run_ahead:
  assumes "job_run a s0 n k s" "job_inv s0" "q_ok s0 xs0" "waits a s xs"
  shows "waits a s0 xs0 \<and> n + ahead a xs \<le> ahead a xs0 + k"
  using assms
proof (induction arbitrary: xs rule: job_run.induct)
  case run_start
  then show ?case using q_ok_unique by (auto simp: waits_def)
next
  case (run_pull n k s env)
  obtain ys where ys: "queue_inv s ys" using job_run_inv [OF run_pull.hyps run_pull.prems(1)] by (auto simp: job_inv_def)
  then have "waits a s ys \<and> ahead a ys = Suc (ahead a xs)" using waits_pull(1) [OF _ run_pull.prems(3) refl] unfolding queue_inv_def by blast
  then show ?case using run_pull.IH [OF run_pull.prems(1,2), of ys] by simp
next
  case (run_slip n k s ys b)
  have "waits a s ys \<and> ahead a xs = Suc (ahead a ys)" using waits_slip [OF run_slip.hyps(2) run_slip.prems(3)] .
  then show ?case using run_slip.IH [OF run_slip.prems(1,2), of ys] by simp
next
  case (run_submit n k s b j)
  obtain ys where ys: "queue_inv s ys" using job_run_inv [OF run_submit.hyps(1) run_submit.prems(1)] by (auto simp: job_inv_def)
  then have "waits a s ys \<and> ahead a xs = ahead a ys"
    using waits_submit [OF _ run_submit.hyps(2,4,3) run_submit.prems(3)] by (simp add: queue_inv_def)
  then show ?case using run_submit.IH [OF run_submit.prems(1,2), of ys] by simp
next
  case (run_cont_pull n k s env seq_cap)
  obtain ys where ys: "queue_inv s ys" using job_run_inv [OF run_cont_pull.hyps run_cont_pull.prems(1)] by (auto simp: job_inv_def)
  then have "waits a s ys \<and> ahead a xs \<le> ahead a ys" using waits_pull(2) [OF _ run_cont_pull.prems(3) refl] unfolding queue_inv_def by blast
  then show ?case using run_cont_pull.IH [OF run_cont_pull.prems(1,2), of ys] by simp
next
  case (run_gather n k s env wait_ms max_tok out tok)
  obtain ys where ys: "queue_inv s ys" using job_run_inv [OF run_gather.hyps run_gather.prems(1)] by (auto simp: job_inv_def)
  then have "waits a s ys \<and> ahead a xs \<le> ahead a ys" using waits_pull(3) [OF _ run_gather.prems(3) refl] unfolding queue_inv_def by blast
  then show ?case using run_gather.IH [OF run_gather.prems(1,2), of ys] by simp
next
  case (run_finish n k s ys b out left)
  have "q_ok s ys" using run_finish.hyps(2) by (simp add: held_def)
  then have "waits a s ys \<and> ahead a xs = ahead a ys" using waits_finish run_finish.prems(3) by blast
  then show ?case using run_finish.IH [OF run_finish.prems(1,2), of ys] by simp
next
  case (run_settle n k s b j)
  obtain ys where "queue_inv s ys" using job_run_inv [OF run_settle.hyps(1) run_settle.prems(1)] by (auto simp: job_inv_def)
  then have "waits a s ys \<and> ahead a xs = ahead a ys" using waits_settle [OF _ run_settle.hyps(2,3) run_settle.prems(3)] by blast
  then show ?case using run_settle.IH [OF run_settle.prems(1,2), of ys] by simp
next
  case (run_stop n k s)
  then have "waits a s xs" by (simp add: waits_def q_ok_def job_at_def)
  then show ?case using run_stop.IH [OF run_stop.prems(1,2)] by blast
qed

text \<open>
  C12. No job waits forever. Take a reachable state with a job in the queue and any run of clients and
  worker from it, whatever they interleave. If the worker took more turns at \<open>dequeue\<close> than there were jobs
  ahead plus resampled jobs put in front, the job has left the queue: it was handed to a lane, cancelled or shed.
\<close>

theorem queued_job_leaves:
  assumes "job_reachable s0" "q_ok s0 (ys @ a # zs)" "job_run a s0 n k s" "n > length ys + k"
    and "jb_slip_attempts (job_at s0 a) = 0" "q_ok s xs" "a \<in> set xs"
  shows "jb_slip_attempts (job_at s a) \<noteq> 0"
proof
  assume "jb_slip_attempts (job_at s a) = 0"
  then have w: "waits a s xs" using assms(6,7) by (simp add: waits_def)
  have "a \<notin> set ys" using assms(2) by (simp add: q_ok_def)
  then have "takeWhile (\<lambda>b. b \<noteq> a) (ys @ a # zs) = ys" by (subst takeWhile_append2) auto
  then have "ahead a (ys @ a # zs) = length ys" by (simp add: ahead_def)
  then show False
    using job_run_ahead [OF assms(3) job_reachable_inv [OF assms(1)] assms(2) w] assms(4) by simp
qed

subsection \<open>Witnesses\<close>

lemma demo_fresh: "fresh_job (demo_job 10)" "fresh_job (demo_job 20)"
  by code_simp+

lemma demo_two_reach: "job_reachable demo_two"
proof -
  have "job_reachable demo_boot"
    by (rule reach_boot) (simp add: at_boot_def demo_boot_def zero_metrics_def)
  then have "job_reachable demo_one"
    unfolding demo_one_def using demo_jobs(2) demo_fresh by (blast intro: reach_step step_submit)
  then show ?thesis
    unfolding demo_two_def using demo_jobs(3) demo_fresh by (blast intro: reach_step step_submit)
qed

theorem queue_within_bounds_witness: "held_bytes demo_two \<le> 100 \<and> js_inflight_body_bytes demo_two = of_nat (held_bytes demo_two)"
proof -
  have "js_max_queue_bytes demo_two = 100" by code_simp
  then show ?thesis using queue_within_bounds [OF demo_two_reach] by auto
qed

theorem requests_conserved_witness: "of_nat (card (dom (js_jobs demo_two))) = (2::u64)"
proof -
  have "mx_requests_inflight (js_metrics demo_two) = 2" by code_simp
  then show ?thesis using requests_conserved [OF demo_two_reach] by simp
qed

theorem queued_job_leaves_witness:
  "\<exists>xs. q_ok (snd (dequeue_turn demo_env (snd (dequeue_turn demo_env demo_two)))) xs \<and> 2 \<notin> set xs"
proof -
  define t where "t = snd (dequeue_turn demo_env (snd (dequeue_turn demo_env demo_two)))"
  have r: "job_run 2 demo_two (Suc (Suc 0)) 0 t" unfolding t_def by (intro job_run.intros)
  have q: "q_ok demo_two ([1] @ 2 # [])" using demo_two_ok by simp
  have slip: "jb_slip_attempts (job_at demo_two 2) = 0" "jb_slip_attempts (job_at t 2) = 0" unfolding t_def by code_simp+
  obtain xs where ok: "q_ok t xs"
    using job_run_inv [OF r job_reachable_inv [OF demo_two_reach]] by (auto simp: job_inv_def queue_inv_def)
  then have "2 \<notin> set xs" using queued_job_leaves [OF demo_two_reach q r _ slip(1) ok] slip(2) by auto
  then show ?thesis using ok t_def by auto
qed

end
