(* ===== verification/Out_Sink.thy ===== *)
theory Out_Sink
  imports Job_Machine
begin

section \<open>The output of slow readers\<close>

text \<open>
  The continuous worker appends a job's output to a buffer that the job's client thread drains to the
  socket; a gauge counts all buffered bytes. A job whose own buffer or whose share of the total is too
  large loses its client. The terminal of a tool turn on the serial lane reserves its bytes in the same
  gauge before the turn is published to the continuation registry.

  \<open>out_cfg\<close> holds the two process-wide limits; zero turns the total limit off.
\<close>

record out_cfg =
  oc_agg_cap :: u64
  oc_agg_evict_min :: u64

definition DS4_JOB_OUT_CAP :: int where "DS4_JOB_OUT_CAP = 16 * 1024 * 1024"

definition backlog :: "jserver \<Rightarrow> u64" where
  "backlog s = mx_out_backlog_bytes (js_metrics s)"

definition backlog_add :: "u64 \<Rightarrow> jserver \<Rightarrow> jserver" where
  "backlog_add d s = s\<lparr>js_metrics := (js_metrics s)\<lparr>mx_out_backlog_bytes := mx_out_backlog_bytes (js_metrics s) + d\<rparr>\<rparr>"

definition evict_client :: "nat \<Rightarrow> jserver \<Rightarrow> jserver" where
  "evict_client a s = shed_record DS4_SHED_SLOW_READER (upd_job a (\<lambda>j. j\<lparr>jb_client_gone := True\<rparr>) s)"

definition job_emit :: "out_cfg \<Rightarrow> nat \<Rightarrow> bytes \<Rightarrow> jserver \<Rightarrow> bool \<times> jserver" where
  "job_emit cfg a p s =
    (let n = length p; len = length (jb_out (job_at s a));
         s' = (if jb_client_gone (job_at s a) then s
               else if int (len + n) > DS4_JOB_OUT_CAP then evict_client a s
               else if oc_agg_cap cfg > 0 \<and> backlog s + of_nat n > oc_agg_cap cfg \<and> of_nat (len + n) \<ge> oc_agg_evict_min cfg
                 then evict_client a s
               else backlog_add (of_nat n) (upd_job a (\<lambda>j. j\<lparr>jb_out := jb_out j @ p\<rparr>) s))
     in (\<not> jb_client_gone (job_at s' a), s'))"

text \<open>
  One turn of the drain loop of the client thread. Taking the buffer is a critical section; the gauge goes
  down and the bytes go out without the lock; then the thread takes the lock again and records a send that
  failed.
\<close>

definition drain_take :: "nat \<Rightarrow> jserver \<Rightarrow> (bytes \<times> bool) \<times> jserver" where
  "drain_take a s = ((jb_out (job_at s a), jb_client_gone (job_at s a)), upd_job a (\<lambda>j. j\<lparr>jb_out := []\<rparr>) s)"

definition drain_release :: "nat \<Rightarrow> jserver \<Rightarrow> jserver" where
  "drain_release n s = backlog_add (- of_nat n) s"

definition drain_close :: "nat \<Rightarrow> bool \<Rightarrow> bool \<Rightarrow> jserver \<Rightarrow> jserver" where
  "drain_close a was_gone sent s =
     (if was_gone \<or> \<not> sent then upd_job a (\<lambda>j. j\<lparr>jb_client_gone := True\<rparr>) s else s)"

text \<open>The loop ends when the worker is done and the buffer is empty.\<close>

definition drain_ends :: "nat \<Rightarrow> jserver \<Rightarrow> bool" where
  "drain_ends a s = (jb_done (job_at s a) \<and> jb_out (job_at s a) = [])"

definition terminal_sink_reserve :: "out_cfg \<Rightarrow> nat \<Rightarrow> jserver \<Rightarrow> bool \<times> jserver" where
  "terminal_sink_reserve cfg n s =
    (if int n > DS4_JOB_OUT_CAP \<or> oc_agg_cap cfg > 0 \<and> backlog s + of_nat n > oc_agg_cap cfg
     then (False, shed_record DS4_SHED_SLOW_READER s)
     else (True, backlog_add (of_nat n) s))"

definition terminal_sink_release :: "nat \<Rightarrow> jserver \<Rightarrow> jserver" where
  "terminal_sink_release n s = backlog_add (- of_nat n) s"

text \<open>
  The terminal of a tool turn: reserve, publish, then either send or take the publication back. \<open>addr\<close> is
  the address of the new record, \<open>disconnected\<close> what the probe of the socket says.
\<close>

definition serial_terminal_commit ::
  "out_cfg \<Rightarrow> nat \<Rightarrow> rat \<Rightarrow> bool \<Rightarrow> nat \<Rightarrow> api_style \<Rightarrow> tool_calls \<Rightarrow> u64 \<Rightarrow> int \<Rightarrow> bytes \<Rightarrow> jserver \<times> server \<Rightarrow> jserver \<times> server" where
  "serial_terminal_commit cfg addr now disconnected a proto calls gen frontier tb st =
    (case st of (s, sv) \<Rightarrow>
      case terminal_sink_reserve cfg (length tb) s of
        (False, s1) \<Rightarrow> (set_outcome a JOB_OUT_SHED (upd_job a (\<lambda>j. j\<lparr>jb_client_gone := True\<rparr>) s1), sv)
      | (True, s1) \<Rightarrow>
          let sv1 = cont_registry_publish_serial addr now sv proto calls gen frontier;
              (s2, sv2) = (if jb_client_gone (job_at s1 a) \<or> disconnected
                 then (upd_job a (\<lambda>j. j\<lparr>jb_client_gone := True\<rparr>) s1, cont_registry_demote_serial sv1)
                 else (s1, sv1))
          in (terminal_sink_release (length tb) s2, sv2))"

subsection \<open>Whether a serial session is reused\<close>

definition serial_session_reuse_ok :: "int \<Rightarrow> bool \<Rightarrow> int \<Rightarrow> int \<Rightarrow> bool \<Rightarrow> bool" where
  "serial_session_reuse_ok cur_ctx graph_pending need_min request_cap current_graph_fits =
     (if cur_ctx < need_min then False
      else if \<not> graph_pending then True
      else cur_ctx \<le> request_cap \<and> current_graph_fits)"

datatype serial_frame_kind = SERIAL_FRAME_CANONICAL | SERIAL_FRAME_RESOLVED_LIVE | SERIAL_FRAME_REQUIRED_MISS

datatype serial_fit_plan = SERIAL_FIT_REUSE | SERIAL_FIT_RESIZE | SERIAL_FIT_REFUSE_PRESERVE | SERIAL_FIT_PASS_NATIVE

definition serial_session_fit_plan ::
  "int \<Rightarrow> bool \<Rightarrow> int \<Rightarrow> int \<Rightarrow> bool \<Rightarrow> serial_frame_kind \<Rightarrow> serial_fit_plan" where
  "serial_session_fit_plan cur_ctx graph_pending need_min request_cap current_graph_fits frame_kind =
     (if frame_kind = SERIAL_FRAME_REQUIRED_MISS then SERIAL_FIT_PASS_NATIVE
      else if serial_session_reuse_ok cur_ctx graph_pending need_min request_cap current_graph_fits then SERIAL_FIT_REUSE
      else if frame_kind = SERIAL_FRAME_RESOLVED_LIVE then SERIAL_FIT_REFUSE_PRESERVE
      else SERIAL_FIT_RESIZE)"

subsection \<open>The worker and the client threads on the buffers\<close>

text \<open>
  The state: the server, how many taken bytes each client thread has not yet released, and the bytes
  reserved for terminals. What the queue does to the buffers is the frame: it adds jobs with an empty
  buffer, drops jobs whose buffer is empty and whose thread has released everything, and leaves the
  other buffers and the gauge alone. \<open>N\<close> bounds the jobs, as the connection limit does.
\<close>

definition queue_frame :: "nat \<Rightarrow> (nat \<Rightarrow> nat) \<Rightarrow> jserver \<Rightarrow> jserver \<Rightarrow> bool" where
  "queue_frame N pend s s' \<longleftrightarrow> backlog s' = backlog s \<and> finite (dom (js_jobs s')) \<and> card (dom (js_jobs s')) \<le> N \<and>
     (\<forall>a j. js_jobs s' a = Some j \<longrightarrow> jb_out j = (case js_jobs s a of None \<Rightarrow> [] | Some k \<Rightarrow> jb_out k)) \<and>
     (\<forall>a j. js_jobs s a = Some j \<longrightarrow> js_jobs s' a = None \<longrightarrow> jb_out j = [] \<and> pend a = 0)"

inductive sink_step :: "out_cfg \<Rightarrow> nat \<Rightarrow> jserver \<times> (nat \<Rightarrow> nat) \<times> nat \<Rightarrow> jserver \<times> (nat \<Rightarrow> nat) \<times> nat \<Rightarrow> bool" for cfg N where
  sink_queue: "queue_frame N pend s s' \<Longrightarrow> sink_step cfg N (s, pend, res) (s', pend, res)"
| sink_emit: "js_jobs s a \<noteq> None \<Longrightarrow> sink_step cfg N (s, pend, res) (snd (job_emit cfg a p s), pend, res)"
| sink_take: "js_jobs s a \<noteq> None \<Longrightarrow> pend a = 0 \<Longrightarrow> drain_take a s = ((p, g), s') \<Longrightarrow>
    sink_step cfg N (s, pend, res) (s', pend(a := length p), res)"
| sink_release: "sink_step cfg N (s, pend, res) (drain_release (pend a) s, pend(a := 0), res)"
| sink_reserve: "terminal_sink_reserve cfg n s = (True, s') \<Longrightarrow> sink_step cfg N (s, pend, res) (s', pend, res + n)"
| sink_refuse: "terminal_sink_reserve cfg n s = (False, s') \<Longrightarrow> sink_step cfg N (s, pend, res) (s', pend, res)"
| sink_unreserve: "n \<le> res \<Longrightarrow> sink_step cfg N (s, pend, res) (terminal_sink_release n s, pend, res - n)"

inductive sink_reachable :: "out_cfg \<Rightarrow> nat \<Rightarrow> jserver \<times> (nat \<Rightarrow> nat) \<times> nat \<Rightarrow> bool" for cfg N where
  sink_boot: "js_jobs s = (\<lambda>_. None) \<Longrightarrow> backlog s = 0 \<Longrightarrow> sink_reachable cfg N (s, \<lambda>_. 0, 0)"
| sink_next: "sink_reachable cfg N st \<Longrightarrow> sink_step cfg N st st' \<Longrightarrow> sink_reachable cfg N st'"

text \<open>Buffered and taken bytes of a job, the bytes that the gauge counts, and the part of them in large chunks.\<close>

definition out_len :: "jserver \<Rightarrow> nat \<Rightarrow> nat" where
  "out_len s a = (case js_jobs s a of None \<Rightarrow> 0 | Some j \<Rightarrow> length (jb_out j))"

definition total_out :: "jserver \<Rightarrow> (nat \<Rightarrow> nat) \<Rightarrow> nat \<Rightarrow> nat" where
  "total_out s pend res = (\<Sum>a \<in> dom (js_jobs s). out_len s a + pend a) + res"

definition big :: "nat \<Rightarrow> nat \<Rightarrow> nat" where
  "big m n = (if n < m then 0 else n)"

definition big_out :: "nat \<Rightarrow> jserver \<Rightarrow> (nat \<Rightarrow> nat) \<Rightarrow> nat \<Rightarrow> nat" where
  "big_out m s pend res = (\<Sum>a \<in> dom (js_jobs s). big m (out_len s a) + big m (pend a)) + res"

definition sink_inv :: "out_cfg \<Rightarrow> nat \<Rightarrow> jserver \<times> (nat \<Rightarrow> nat) \<times> nat \<Rightarrow> bool" where
  "sink_inv cfg N st \<longleftrightarrow> (case st of (s, pend, res) \<Rightarrow> finite (dom (js_jobs s)) \<and> card (dom (js_jobs s)) \<le> N \<and>
     (\<forall>a. js_jobs s a = None \<longrightarrow> pend a = 0) \<and> backlog s = of_nat (total_out s pend res) \<and>
     (oc_agg_cap cfg > 0 \<longrightarrow> big_out (unat (oc_agg_evict_min cfg)) s pend res \<le> unat (oc_agg_cap cfg)))"

lemma big_le: "big m n \<le> n"
  by (simp add: big_def)

lemma big_out_le: "big_out m s pend res \<le> total_out s pend res"
  unfolding big_out_def total_out_def by (simp add: add_mono big_le sum_mono)

lemma small_part: "n \<le> big m n + (m - 1)"
  by (auto simp: big_def)

lemma total_le_big:
  assumes "finite (dom (js_jobs s))"
  shows "total_out s pend res \<le> big_out m s pend res + 2 * card (dom (js_jobs s)) * (m - 1)"
proof -
  have "(\<Sum>a \<in> dom (js_jobs s). out_len s a + pend a) \<le>
      (\<Sum>a \<in> dom (js_jobs s). (big m (out_len s a) + big m (pend a)) + 2 * (m - 1))"
  proof (rule sum_mono)
    fix a
    show "out_len s a + pend a \<le> (big m (out_len s a) + big m (pend a)) + 2 * (m - 1)"
      using small_part [of "out_len s a" m] small_part [of "pend a" m] by linarith
  qed
  also have "\<dots> = (\<Sum>a \<in> dom (js_jobs s). big m (out_len s a) + big m (pend a)) + card (dom (js_jobs s)) * (2 * (m - 1))"
    by (simp only: sum.distrib sum_constant of_nat_id)
  finally show ?thesis unfolding total_out_def big_out_def by simp
qed

text \<open>A sum in which one summand changes.\<close>

lemma sum_change_one:
  fixes f g :: "nat \<Rightarrow> nat"
  assumes "finite D" "a \<in> D" "\<And>b. b \<in> D \<Longrightarrow> b \<noteq> a \<Longrightarrow> g b = f b"
  shows "sum g D + f a = sum f D + g a"
proof -
  have "sum g (D - {a}) = sum f (D - {a})" using assms(3) by (intro sum.cong) auto
  then show ?thesis using sum.remove [OF assms(1,2), of f] sum.remove [OF assms(1,2), of g] by simp
qed

lemma sink_simps [simp]:
  "backlog (backlog_add d s) = backlog s + d" "js_jobs (backlog_add d s) = js_jobs s"
  "js_jobs (shed_record r s) = js_jobs s" "backlog (shed_record r s) = backlog s" "backlog (upd_job a f s) = backlog s"
  by (simp_all add: backlog_def backlog_add_def shed_record_def)

lemma out_len_upd: "out_len (upd_job a f s) b = (if b = a then (case js_jobs s a of None \<Rightarrow> 0 | Some j \<Rightarrow> length (jb_out (f j))) else out_len s b)"
  by (auto simp: out_len_def split: option.splits)

lemma out_len_jobs: "js_jobs s' = js_jobs s \<Longrightarrow> out_len s' = out_len s"
  by (simp add: out_len_def fun_eq_iff)

lemma totals_jobs:
  "js_jobs s' = js_jobs s \<Longrightarrow> total_out s' pend res = total_out s pend res"
  "js_jobs s' = js_jobs s \<Longrightarrow> big_out m s' pend res = big_out m s pend res"
  using out_len_jobs [of s' s] by (simp_all add: total_out_def big_out_def)

text \<open>With the limits far below the word size, the gauge does not wrap.\<close>

definition limits_ok :: "out_cfg \<Rightarrow> nat \<Rightarrow> bool" where
  "limits_ok cfg N \<longleftrightarrow> int (unat (oc_agg_cap cfg) + 2 * N * unat (oc_agg_evict_min cfg)) + DS4_JOB_OUT_CAP < 2 ^ 64"

lemma sink_total:
  assumes "sink_inv cfg N (s, pend, res)" "oc_agg_cap cfg > 0"
  shows "total_out s pend res \<le> unat (oc_agg_cap cfg) + 2 * N * (unat (oc_agg_evict_min cfg) - 1)"
proof -
  let ?m = "unat (oc_agg_evict_min cfg)"
  have b: "big_out ?m s pend res \<le> unat (oc_agg_cap cfg)" and c: "card (dom (js_jobs s)) \<le> N" and f: "finite (dom (js_jobs s))"
    using assms by (simp_all add: sink_inv_def)
  have "2 * card (dom (js_jobs s)) * (?m - 1) \<le> 2 * N * (?m - 1)" using c by simp
  then show ?thesis using total_le_big [OF f, of pend res ?m] b by linarith
qed

lemma gauge_check:
  assumes inv: "sink_inv cfg N (s, pend, res)" and lim: "limits_ok cfg N" and n: "int n \<le> DS4_JOB_OUT_CAP" and cap: "oc_agg_cap cfg > 0"
  shows "backlog s + of_nat n > oc_agg_cap cfg \<longleftrightarrow> total_out s pend res + n > unat (oc_agg_cap cfg)"
proof -
  let ?m = "unat (oc_agg_evict_min cfg)"
  have "2 * N * (?m - 1) \<le> 2 * N * ?m" by simp
  then have "int (total_out s pend res + n) < 2 ^ 64"
    using sink_total [OF inv cap] lim n unfolding limits_ok_def by linarith
  then have "total_out s pend res + n < 2 ^ 64" by simp
  then have "take_bit 64 (total_out s pend res + n) = total_out s pend res + n" by (simp only: take_bit_nat_eq_self_iff)
  then have "unat (of_nat (total_out s pend res + n) :: u64) = total_out s pend res + n" by (simp only: unsigned_of_nat) simp
  moreover have "backlog s + of_nat n = of_nat (total_out s pend res + n)" using inv by (simp add: sink_inv_def)
  ultimately show ?thesis by (simp add: word_less_nat_alt)
qed

lemma emit_inv:
  assumes inv: "sink_inv cfg N (s, pend, res)" and lim: "limits_ok cfg N" and a: "js_jobs s a \<noteq> None"
  shows "sink_inv cfg N (snd (job_emit cfg a p s), pend, res)"
proof -
  obtain j where j: "js_jobs s a = Some j" using a by blast
  have gone: "sink_inv cfg N (evict_client a s, pend, res)"
  proof -
    have "dom (js_jobs (evict_client a s)) = dom (js_jobs s)" by (simp add: evict_client_def)
    moreover have "out_len (evict_client a s) = out_len s"
      using j by (auto simp: fun_eq_iff evict_client_def out_len_jobs [of "shed_record _ _"] out_len_upd) (simp add: out_len_def)
    moreover have "js_jobs (evict_client a s) b = None \<longleftrightarrow> js_jobs s b = None" for b using j by (simp add: evict_client_def)
    moreover have "backlog (evict_client a s) = backlog s" by (simp add: evict_client_def)
    ultimately show ?thesis using inv by (simp add: sink_inv_def total_out_def big_out_def)
  qed
  let ?n = "length p" and ?len = "length (jb_out j)" and ?m = "unat (oc_agg_evict_min cfg)"
  define s' where "s' = backlog_add (of_nat ?n) (upd_job a (\<lambda>j. j\<lparr>jb_out := jb_out j @ p\<rparr>) s)"
  have app: "sink_inv cfg N (s', pend, res)"
    if small: "int (?len + ?n) \<le> DS4_JOB_OUT_CAP"
      and agg: "oc_agg_cap cfg > 0 \<Longrightarrow> backlog s + of_nat ?n > oc_agg_cap cfg \<Longrightarrow> of_nat (?len + ?n) < oc_agg_evict_min cfg"
  proof -
    have d: "dom (js_jobs s') = dom (js_jobs s)" "finite (dom (js_jobs s))" "a \<in> dom (js_jobs s)"
      using inv j by (auto simp: s'_def sink_inv_def)
    have len: "out_len s' b = (if b = a then ?len + ?n else out_len s b)" for b
      using j by (simp add: s'_def out_len_jobs [of "backlog_add _ _"] out_len_upd)
    have old: "out_len s a = ?len" using j by (simp add: out_len_def)
    have tot: "total_out s' pend res = total_out s pend res + ?n"
      using sum_change_one [OF d(2,3), of "\<lambda>b. out_len s' b + pend b" "\<lambda>b. out_len s b + pend b"]
      by (simp add: total_out_def d(1) len old)
    have "big_out ?m s' pend res \<le> unat (oc_agg_cap cfg)" if cap: "oc_agg_cap cfg > 0"
    proof (cases "backlog s + of_nat ?n > oc_agg_cap cfg")
      case False
      then have "total_out s' pend res \<le> unat (oc_agg_cap cfg)"
        using gauge_check [OF inv lim _ cap, of ?n] small tot by simp
      then show ?thesis using big_out_le le_trans by blast
    next
      case True
      have "unat (of_nat (?len + ?n) :: u64) = ?len + ?n"
      proof -
        have "?len + ?n < 2 ^ 64" using small by (simp add: DS4_JOB_OUT_CAP_def)
        then have "take_bit 64 (?len + ?n) = ?len + ?n" by (simp only: take_bit_nat_eq_self_iff)
        then show ?thesis by (simp only: unsigned_of_nat) simp
      qed
      then have lt: "?len + ?n < ?m" using agg [OF cap True] by (simp only: word_less_nat_alt)
      have "big_out ?m s' pend res = big_out ?m s pend res"
        using sum_change_one [OF d(2,3), of "\<lambda>b. big ?m (out_len s' b) + big ?m (pend b)" "\<lambda>b. big ?m (out_len s b) + big ?m (pend b)"] lt
        by (simp add: big_out_def d(1) len old big_def)
      then show ?thesis using inv cap by (simp add: sink_inv_def)
    qed
    moreover have "js_jobs s' b = None \<longleftrightarrow> js_jobs s b = None" for b using j by (simp add: s'_def)
    moreover have "backlog s' = backlog s + of_nat ?n" by (simp add: s'_def)
    ultimately show ?thesis using inv tot d by (simp add: sink_inv_def)
  qed
  show ?thesis
    using inv gone app j unfolding job_emit_def by (auto simp: Let_def job_at_def s'_def not_le split: if_splits)
qed

lemma take_inv:
  assumes inv: "sink_inv cfg N (s, pend, res)" and a: "js_jobs s a \<noteq> None" "pend a = 0" and t: "drain_take a s = ((p, g), s')"
  shows "sink_inv cfg N (s', pend(a := length p), res)"
proof -
  obtain j where j: "js_jobs s a = Some j" using a(1) by blast
  have s': "s' = upd_job a (\<lambda>j. j\<lparr>jb_out := []\<rparr>) s" and p: "length p = out_len s a"
    using t j by (auto simp: drain_take_def job_at_def out_len_def)
  have d: "dom (js_jobs s') = dom (js_jobs s)" "finite (dom (js_jobs s))" "a \<in> dom (js_jobs s)"
    using inv j by (auto simp: s' sink_inv_def)
  have len: "out_len s' b = (if b = a then 0 else out_len s b)" for b using j by (simp add: s' out_len_upd)
  have "total_out s' (pend(a := length p)) res = total_out s pend res"
    using sum_change_one [OF d(2,3), of "\<lambda>b. out_len s' b + (pend(a := length p)) b" "\<lambda>b. out_len s b + pend b"] a(2)
    by (simp add: total_out_def d(1) len p)
  moreover have "big_out m s' (pend(a := length p)) res = big_out m s pend res" for m
    using sum_change_one [OF d(2,3), of "\<lambda>b. big m (out_len s' b) + big m ((pend(a := length p)) b)" "\<lambda>b. big m (out_len s b) + big m (pend b)"] a(2)
    by (simp add: big_out_def d(1) len p big_def)
  moreover have "js_jobs s' b = None \<longleftrightarrow> js_jobs s b = None" for b using j by (simp add: s')
  moreover have "backlog s' = backlog s" by (simp add: s')
  ultimately show ?thesis using inv d j by (auto simp: sink_inv_def)
qed

lemma release_inv:
  assumes inv: "sink_inv cfg N (s, pend, res)"
  shows "sink_inv cfg N (drain_release (pend a) s, pend(a := 0), res)"
proof (cases "js_jobs s a")
  case None
  then have "pend a = 0" "pend(a := 0) = pend" using inv by (auto simp: sink_inv_def fun_eq_iff)
  then show ?thesis
    using inv totals_jobs [of "drain_release 0 s" s] by (simp add: sink_inv_def drain_release_def)
next
  case (Some j)
  define s' where "s' = drain_release (pend a) s"
  have jobs: "js_jobs s' = js_jobs s" by (simp add: s'_def drain_release_def)
  have d: "finite (dom (js_jobs s))" "a \<in> dom (js_jobs s)" using inv Some by (auto simp: sink_inv_def)
  have tot: "total_out s pend res = total_out s' (pend(a := 0)) res + pend a"
    using sum_change_one [OF d, of "\<lambda>b. out_len s b + (pend(a := 0)) b" "\<lambda>b. out_len s b + pend b"]
    by (simp add: total_out_def jobs out_len_jobs [OF jobs])
  moreover have "big_out m s' (pend(a := 0)) res \<le> big_out m s pend res" for m
    unfolding big_out_def jobs out_len_jobs [OF jobs] by (intro add_mono sum_mono) (simp_all add: big_def)
  moreover have "backlog s' = backlog s - of_nat (pend a)" by (simp add: s'_def drain_release_def)
  ultimately show ?thesis using inv unfolding s'_def [symmetric] by (auto simp: sink_inv_def jobs intro: order_trans)
qed

lemma reserve_inv:
  assumes inv: "sink_inv cfg N (s, pend, res)" and lim: "limits_ok cfg N"
  shows "terminal_sink_reserve cfg n s = (True, s') \<Longrightarrow> sink_inv cfg N (s', pend, res + n)"
    and "terminal_sink_reserve cfg n s = (False, s') \<Longrightarrow> sink_inv cfg N (s', pend, res)"
    and "n \<le> res \<Longrightarrow> sink_inv cfg N (terminal_sink_release n s, pend, res - n)"
proof -
  assume r: "terminal_sink_reserve cfg n s = (True, s')"
  have s': "s' = backlog_add (of_nat n) s" and n: "int n \<le> DS4_JOB_OUT_CAP"
    and c: "oc_agg_cap cfg > 0 \<Longrightarrow> \<not> backlog s + of_nat n > oc_agg_cap cfg"
    using r by (auto simp: terminal_sink_reserve_def not_less split: if_splits)
  have jobs: "js_jobs s' = js_jobs s" by (simp add: s')
  have tot: "total_out s' pend (res + n) = total_out s pend res + n" by (simp add: total_out_def jobs out_len_jobs [OF jobs])
  have "big_out m s' pend (res + n) \<le> unat (oc_agg_cap cfg)" if cap: "oc_agg_cap cfg > 0" for m
  proof -
    have "total_out s' pend (res + n) \<le> unat (oc_agg_cap cfg)" using gauge_check [OF inv lim n cap] c [OF cap] tot by simp
    then show ?thesis using big_out_le le_trans by blast
  qed
  then show "sink_inv cfg N (s', pend, res + n)" using inv tot by (simp add: sink_inv_def jobs) (simp add: s')
next
  assume "terminal_sink_reserve cfg n s = (False, s')"
  then have "js_jobs s' = js_jobs s" "backlog s' = backlog s" by (auto simp: terminal_sink_reserve_def split: if_splits)
  then show "sink_inv cfg N (s', pend, res)" using inv totals_jobs [of s' s] by (simp add: sink_inv_def)
next
  assume n: "n \<le> res"
  define s' where "s' = terminal_sink_release n s"
  have jobs: "js_jobs s' = js_jobs s" by (simp add: s'_def terminal_sink_release_def)
  have "total_out s pend res = total_out s' pend (res - n) + n" "big_out m s' pend (res - n) \<le> big_out m s pend res" for m
    using n by (simp_all add: total_out_def big_out_def jobs out_len_jobs [OF jobs])
  moreover have "backlog s' = backlog s - of_nat n" by (simp add: s'_def terminal_sink_release_def)
  ultimately show "sink_inv cfg N (terminal_sink_release n s, pend, res - n)"
    using inv unfolding s'_def [symmetric] by (auto simp: sink_inv_def jobs intro: order_trans)
qed

lemma frame_inv:
  assumes inv: "sink_inv cfg N (s, pend, res)" and fr: "queue_frame N pend s s'"
  shows "sink_inv cfg N (s', pend, res)"
proof -
  let ?D = "dom (js_jobs s)" and ?D' = "dom (js_jobs s')"
  have f: "finite ?D" "finite ?D'" "card ?D' \<le> N" "backlog s' = backlog s"
    and out: "\<And>a j. js_jobs s' a = Some j \<Longrightarrow> jb_out j = (case js_jobs s a of None \<Rightarrow> [] | Some k \<Rightarrow> jb_out k)"
    and drop: "\<And>a j. js_jobs s a = Some j \<Longrightarrow> js_jobs s' a = None \<Longrightarrow> jb_out j = [] \<and> pend a = 0"
    and none: "\<And>a. js_jobs s a = None \<Longrightarrow> pend a = 0"
    using inv fr by (auto simp: sink_inv_def queue_frame_def)
  have len: "out_len s' a = out_len s a" for a
    using out [of a] drop [of a] by (cases "js_jobs s a"; cases "js_jobs s' a") (auto simp: out_len_def)
  have z: "out_len s a = 0 \<and> pend a = 0" if "a \<notin> ?D \<or> a \<notin> ?D'" for a
    using that drop [of a] none [of a] len [of a] by (auto simp: out_len_def domIff split: option.splits)
  have same: "(\<Sum>a \<in> ?D'. g (out_len s a) (pend a)) = (\<Sum>a \<in> ?D. g (out_len s a) (pend a))" if "g 0 0 = 0" for g :: "nat \<Rightarrow> nat \<Rightarrow> nat"
  proof -
    have zero: "g (out_len s a) (pend a) = 0" if "a \<notin> ?D \<inter> ?D'" for a using z [of a] that \<open>g 0 0 = 0\<close> by fastforce
    have "(\<Sum>a \<in> ?D'. g (out_len s a) (pend a)) = (\<Sum>a \<in> ?D \<inter> ?D'. g (out_len s a) (pend a))"
      using zero by (intro sum.mono_neutral_right f(2)) blast+
    also have "\<dots> = (\<Sum>a \<in> ?D. g (out_len s a) (pend a))" using zero by (intro sum.mono_neutral_left f(1)) blast+
    finally show ?thesis .
  qed
  have "total_out s' pend res = total_out s pend res" using same [of "\<lambda>x y. x + y"] by (simp add: total_out_def len)
  moreover have "big_out m s' pend res = big_out m s pend res" for m
    using same [of "\<lambda>x y. big m x + big m y"] by (simp add: big_out_def len big_def)
  moreover have "js_jobs s' a = None \<Longrightarrow> pend a = 0" for a using z [of a] by (simp add: domIff)
  ultimately show ?thesis using inv f by (simp add: sink_inv_def)
qed

lemma sink_step_inv:
  assumes "sink_step cfg N st st'" "limits_ok cfg N" "sink_inv cfg N st"
  shows "sink_inv cfg N st'"
  using assms
proof (induction rule: sink_step.induct)
  case (sink_queue pend s s' res) then show ?case using frame_inv by blast
next
  case (sink_emit s a pend res p) then show ?case using emit_inv by blast
next
  case (sink_take s a pend p g s' res) then show ?case using take_inv by blast
next
  case (sink_release s pend res a) then show ?case using release_inv by blast
next
  case (sink_reserve n s s' pend res) then show ?case using reserve_inv(1) by blast
next
  case (sink_refuse n s s' pend res) then show ?case using reserve_inv(2) by blast
next
  case (sink_unreserve n res s pend) then show ?case using reserve_inv(3) by blast
qed

lemma sink_reachable_inv:
  assumes "sink_reachable cfg N st" "limits_ok cfg N"
  shows "sink_inv cfg N st"
  using assms
proof (induction rule: sink_reachable.induct)
  case (sink_boot s)
  then show ?case by (simp add: sink_inv_def total_out_def big_out_def)
next
  case (sink_next st st')
  then show ?case using sink_step_inv by blast
qed

text \<open>
  C13. The memory of slow readers is bounded. In every interleaving of the worker's emissions, the client
  threads' drains, terminal reservations and the queue, the gauge is exactly the bytes buffered, taken but
  not yet released, and reserved; and with a total limit configured they never exceed the limit
  plus, for each of the at most \<open>N\<close> jobs, two chunks just below the eviction threshold.
\<close>

theorem out_backlog_bounded:
  assumes "sink_reachable cfg N (s, pend, res)" "limits_ok cfg N"
  shows "backlog s = of_nat (total_out s pend res) \<and>
    (oc_agg_cap cfg > 0 \<longrightarrow> total_out s pend res \<le> unat (oc_agg_cap cfg) + 2 * N * (unat (oc_agg_evict_min cfg) - 1))"
  using sink_reachable_inv [OF assms] sink_total by (simp add: sink_inv_def)

subsection \<open>The steps of the queue are within the frame\<close>

lemma settle_backlog: "mx_out_backlog_bytes (settle_metrics j m) = mx_out_backlog_bytes m"
  by (simp add: settle_metrics_def Let_def)

lemma submit_backlog: "backlog (snd (client_submit s a j)) = backlog s"
  by (auto simp: client_submit_def enqueue_def Let_def shed_record_def backlog_def split: prod.splits option.splits enq_verdict.splits if_splits)

definition keeps_out :: "jserver \<Rightarrow> jserver \<Rightarrow> bool" where
  "keeps_out s s' \<longleftrightarrow> backlog s' = backlog s \<and> (\<forall>a. map_option jb_out (js_jobs s' a) = map_option jb_out (js_jobs s a))"

lemma keeps_out_upd: "(\<And>j. jb_out (f j) = jb_out j) \<Longrightarrow> keeps_out s (upd_job a f s)"
  by (auto simp: keeps_out_def option.map_comp comp_def)

lemma keeps_out_trans: "keeps_out s s' \<Longrightarrow> keeps_out s' s'' \<Longrightarrow> keeps_out s s''"
  by (simp add: keeps_out_def)

lemma keeps_out_pull:
  assumes "q_ok s xs"
  shows "keeps_out s (snd (dequeue_turn env s))" "keeps_out s (snd (cont_pull_turn env seq_cap s))"
    "keeps_out s (snd (snd (gather_turn env wait_ms max_tok out tok s)))"
proof -
  have refl: "keeps_out s s" by (simp add: keeps_out_def)
  have "keeps_out s (snd (dequeue_turn env s)) \<and> keeps_out s (snd (cont_pull_turn env seq_cap s)) \<and>
    keeps_out s (snd (snd (gather_turn env wait_ms max_tok out tok s)))"
  proof (cases xs)
    case Nil
    then show ?thesis using assms refl by (simp add: dequeue_turn_Nil cont_pull_turn_Nil gather_turn_Nil)
  next
    case (Cons a ys)
    then have ok: "q_ok s (a # ys)" using assms by simp
    have "keeps_out s (unlinked a s)" by (auto simp: keeps_out_def backlog_def unlink_spec(3) [OF ok] option.map_comp comp_def)
    moreover have "keeps_out s (finish_with o' a s)" for o'
      by (auto simp: keeps_out_def backlog_def finish_with_jobs [OF ok] option.map_comp comp_def)
    ultimately show ?thesis
      using refl by (simp add: dequeue_turn_Cons [OF ok] cont_pull_turn_Cons [OF ok] gather_turn_Cons [OF ok] dq_drop_def cp_drop_def)
  qed
  then show "keeps_out s (snd (dequeue_turn env s))" "keeps_out s (snd (cont_pull_turn env seq_cap s))"
    "keeps_out s (snd (snd (gather_turn env wait_ms max_tok out tok s)))" by blast+
qed

lemma queue_frameI:
  assumes "backlog s' = backlog s" "finite (dom (js_jobs s'))" "card (dom (js_jobs s')) \<le> N"
    and "\<And>a j. js_jobs s' a = Some j \<Longrightarrow> jb_out j = (case js_jobs s a of None \<Rightarrow> [] | Some k \<Rightarrow> jb_out k)"
    and "\<And>a j. js_jobs s a = Some j \<Longrightarrow> js_jobs s' a \<noteq> None"
  shows "queue_frame N pend s s'"
  unfolding queue_frame_def using assms by blast

lemma keeps_out_frame:
  assumes "keeps_out s s'" "finite (dom (js_jobs s'))" "card (dom (js_jobs s')) \<le> N"
  shows "queue_frame N pend s s'"
proof -
  have m: "map_option jb_out (js_jobs s' a) = map_option jb_out (js_jobs s a)" for a using assms(1) by (simp add: keeps_out_def)
  show ?thesis
  proof (rule queue_frameI)
    show "backlog s' = backlog s" using assms(1) by (simp add: keeps_out_def)
    show "jb_out j = (case js_jobs s a of None \<Rightarrow> [] | Some k \<Rightarrow> jb_out k)" if "js_jobs s' a = Some j" for a j
      using m [of a] that by (cases "js_jobs s a") auto
    show "js_jobs s' a \<noteq> None" if "js_jobs s a = Some j" for a j using m [of a] that by (cases "js_jobs s' a") auto
  qed (rule assms(2,3))+
qed

text \<open>
  Every step of the queue is a step of the frame, if a client settles only once its buffer is drained, as
  the loop \<open>drain_ends\<close> guards it.
\<close>

lemma job_step_frame:
  assumes st: "job_step s s'" and inv: "job_inv s" "job_inv s'" and N: "card (dom (js_jobs s')) \<le> N"
    and drained: "\<And>a j. js_jobs s a = Some j \<Longrightarrow> js_jobs s' a = None \<Longrightarrow> drain_ends a s \<and> pend a = 0"
  shows "queue_frame N pend s s'"
proof -
  obtain xs where ok: "q_ok s xs" and fin: "finite (dom (js_jobs s'))"
    using inv by (auto simp: job_inv_def accounts_def queue_inv_def)
  from st show ?thesis
  proof cases
    case (step_submit a j)
    have nx: "jb_next j = None" and o: "jb_out j = []" using step_submit(3) by (simp_all add: fresh_job_def)
    note S = client_submit_spec [OF ok step_submit(2) nx]
    have "map_option jb_out (js_jobs s' b) = map_option jb_out (js_jobs s b)" if "b \<noteq> a" for b
      using S(5) [OF that] step_submit(1) by (auto simp: option.map_comp comp_def)
    moreover have "js_jobs s' a = Some k \<Longrightarrow> jb_out k = []" for k
      using S(3,4) step_submit(1,2) o by (cases "enqueue_verdict s (jb_body_bytes j) = ENQ_OK") (auto simp: stamped_def)
    ultimately have "js_jobs s' b = Some k \<Longrightarrow> jb_out k = (case js_jobs s b of None \<Rightarrow> [] | Some k \<Rightarrow> jb_out k)"
      "js_jobs s b = Some k \<Longrightarrow> js_jobs s' b \<noteq> None" for b k
      using step_submit(2) by (cases "b = a"; cases "js_jobs s b"; force)+
    then show ?thesis using fin N submit_backlog [of s a j] step_submit(1) by (intro queue_frameI) blast+
  next
    case (step_dequeue env)
    then show ?thesis using keeps_out_frame fin N keeps_out_pull(1) [OF ok] by blast
  next
    case (step_cont_pull env seq_cap)
    then show ?thesis using keeps_out_frame fin N keeps_out_pull(2) [OF ok] by blast
  next
    case (step_gather env wait_ms max_tok out tok)
    then show ?thesis using keeps_out_frame fin N keeps_out_pull(3) [OF ok] by blast
  next
    case (step_slip ys a)
    have "keeps_out s s'"
      by (auto simp: step_slip(1) slip_requeue_def requeue_job_head_def Let_def keeps_out_def backlog_def option.map_comp comp_def)
    then show ?thesis using keeps_out_frame fin N by blast
  next
    case (step_finish ys a out left)
    have "keeps_out s s'"
      unfolding step_finish(1) worker_finish_def job_finish_def by (intro keeps_out_trans [OF keeps_out_upd keeps_out_upd]) simp_all
    then show ?thesis using keeps_out_frame fin N by blast
  next
    case (step_settle a j)
    have jobs: "js_jobs s' = (js_jobs s)(a := None)" and b: "backlog s' = backlog s"
      by (simp_all add: step_settle(1) client_settle_def Let_def backlog_def settle_backlog)
    have "jb_out j = [] \<and> pend a = 0" using drained [OF step_settle(2)] step_settle(2) by (simp add: jobs drain_ends_def job_at_def)
    then show ?thesis using fin N b step_settle(2) by (auto simp: queue_frame_def jobs)
  next
    case step_stop
    then have "keeps_out s s'" by (simp add: keeps_out_def backlog_def)
    then show ?thesis using keeps_out_frame fin N by blast
  qed
qed

subsection \<open>The terminal of a tool turn\<close>

text \<open>After the publication was taken back, nothing resolves against the serial session.\<close>

lemma demoted_no_resolve:
  assumes inv: "srv_inv sv" and dist: "distinct ids"
  shows "\<not> fst (cont_registry_resolve_serial now (cont_registry_demote_serial sv) proto ids gen pos)"
proof -
  have live: "rg_serial_live (sv_creg (cont_registry_demote_serial sv)) = None"
  proof (cases "rg_serial_live (sv_creg sv)")
    case (Some b)
    then obtain rec where "rg_heap (sv_creg sv) b = Some rec" "cr_state rec = CONT_REC_LIVE_FRONTIER"
      using serial_live_iff [OF inv] by blast
    then show ?thesis using Some by (simp add: cont_registry_demote_serial_def cont_registry_demote_locked_def Let_def)
  qed (simp add: cont_registry_demote_serial_def)
  have inv': "srv_inv (cont_registry_demote_serial sv)"
    using inv demote_inv by (auto simp: cont_registry_demote_serial_def split: option.splits)
  show ?thesis unfolding resolve_serial_inv [OF inv' dist] using serial_live_iff [OF inv'] live by auto
qed

text \<open>
  C23. When a tool turn becomes visible. The terminal leaves the gauge as it was. If its bytes cannot be
  reserved, the registry is untouched and the job is shed; if the client is gone before the send
  starts, no request can continue the turn; otherwise exactly the requests with the ids of its calls, at its
  generation and length, continue it.
\<close>

theorem terminal_commit_visibility:
  assumes reach: "srv_reachable (sv, P)" and fresh: "rg_heap (sv_creg sv) addr = None"
    and calls: "calls_id_list (tc_ids calls) \<noteq> []" and gen: "gen \<noteq> 0" and fr: "0 < frontier"
    and j: "js_jobs s a = Some j" and dist: "distinct ids"
    and time: "rg_ttl_s (sv_creg sv) \<le> 0 \<or> d_sub now' now \<le> rg_ttl_s (sv_creg sv)"
    and r: "serial_terminal_commit cfg addr now disconnected a proto calls gen frontier tb (s, sv) = (s', sv')"
  shows "backlog s' = backlog s \<and>
    (if \<not> fst (terminal_sink_reserve cfg (length tb) s) then
       sv' = sv \<and> js_jobs s' a = Some (j\<lparr>jb_client_gone := True, jb_outcome := JOB_OUT_SHED\<rparr>)
     else if jb_client_gone j \<or> disconnected then
       \<not> fst (cont_registry_resolve_serial now' sv' proto' ids gen' pos') \<and> js_jobs s' a = Some (j\<lparr>jb_client_gone := True\<rparr>)
     else (fst (cont_registry_resolve_serial now' sv' proto' ids gen' pos') \<longleftrightarrow>
         proto' = proto \<and> set ids = set (tc_ids calls) - {[]} \<and> gen' = gen \<and> pos' = frontier) \<and> js_jobs s' a = Some j)"
proof -
  define sv1 where "sv1 = cont_registry_publish_serial addr now sv proto calls gen frontier"
  have inv1: "srv_inv sv1"
    using cont_registry_publish_inv_step [OF _ fresh] reachable_inv reach by (auto simp: sv1_def cont_registry_publish_serial_def)
  note res = publish_serial_resolve [OF reach fresh calls gen fr sv1_def dist time] and dem = demoted_no_resolve [OF inv1 dist]
  show ?thesis
  proof (cases "fst (terminal_sink_reserve cfg (length tb) s)")
    case False
    then have "terminal_sink_reserve cfg (length tb) s = (False, shed_record DS4_SHED_SLOW_READER s)"
      by (auto simp: terminal_sink_reserve_def split: if_splits)
    then show ?thesis using r j False by (auto simp: serial_terminal_commit_def set_outcome_def)
  next
    case True
    then have t: "terminal_sink_reserve cfg (length tb) s = (True, backlog_add (of_nat (length tb)) s)"
      by (auto simp: terminal_sink_reserve_def split: if_splits)
    have at: "jb_client_gone (job_at (backlog_add d s) a) = jb_client_gone j" for d using j by (simp add: job_at_def)
    show ?thesis
    proof (cases "jb_client_gone j \<or> disconnected")
      case True
      then have "s' = terminal_sink_release (length tb) (upd_job a (\<lambda>j. j\<lparr>jb_client_gone := True\<rparr>) (backlog_add (of_nat (length tb)) s))"
        "sv' = cont_registry_demote_serial sv1"
        using r t at by (auto simp: serial_terminal_commit_def sv1_def Let_def)
      then show ?thesis using True t dem j by (simp add: terminal_sink_release_def)
    next
      case False
      then have "s' = terminal_sink_release (length tb) (backlog_add (of_nat (length tb)) s)" "sv' = sv1"
        using r t at by (auto simp: serial_terminal_commit_def sv1_def Let_def)
      then show ?thesis using False t res j by (simp add: terminal_sink_release_def)
    qed
  qed
qed

text \<open>
  A live frontier is never rebuilt. The plan for the serial session replaces its graph exactly for a
  request that resolved no live turn and whose frame the session does not serve as it is; a request whose live turn
  resolved but does not fit is refused and the session preserved.
\<close>

theorem serial_fit_plan_preserves:
  "serial_session_fit_plan cur_ctx pending need_min request_cap fits kind = SERIAL_FIT_RESIZE \<longleftrightarrow>
     kind = SERIAL_FRAME_CANONICAL \<and> (cur_ctx < need_min \<or> pending \<and> (request_cap < cur_ctx \<or> \<not> fits))"
  by (cases kind) (auto simp: serial_session_fit_plan_def serial_session_reuse_ok_def)

subsection \<open>Witnesses\<close>

definition demo_cfg :: out_cfg where
  "demo_cfg = \<lparr>oc_agg_cap = 10, oc_agg_evict_min = 4\<rparr>"

text \<open>Two jobs that the worker holds; the first emits ten bytes, the second three.\<close>

definition demo_pair :: jserver where
  "demo_pair = demo_boot\<lparr>js_jobs := [1 \<mapsto> demo_job 10, 2 \<mapsto> demo_job 20]\<rparr>"

definition demo_out :: jserver where
  "demo_out = snd (job_emit demo_cfg 2 (replicate 3 0) (snd (job_emit demo_cfg 1 (replicate 10 0) demo_pair)))"

lemma demo_out_reach: "sink_reachable demo_cfg 3 (demo_out, \<lambda>_. 0, 0)"
proof -
  have j1: "js_jobs demo_boot = (\<lambda>_. None)" "backlog demo_boot = 0" by (simp_all add: demo_boot_def backlog_def)
  have "queue_frame 3 (\<lambda>_. 0) demo_boot demo_pair"
    by (rule queue_frameI) (auto simp: demo_pair_def demo_boot_def demo_job_def backlog_def split: if_splits)
  then have "sink_reachable demo_cfg 3 (demo_pair, \<lambda>_. 0, 0)"
    using sink_next [OF sink_boot [OF j1] sink_queue] by blast
  moreover have "js_jobs demo_pair 1 \<noteq> None" "js_jobs (snd (job_emit demo_cfg 1 (replicate 10 0) demo_pair)) 2 \<noteq> None"
    by code_simp+
  ultimately show ?thesis unfolding demo_out_def by (blast intro: sink_next sink_emit)
qed

lemma demo_out_total: "total_out demo_out (\<lambda>_. 0) 0 = 13"
proof -
  have "js_jobs demo_out c = None" if "c \<noteq> 1" "c \<noteq> 2" for c
    using that by (simp add: demo_out_def job_emit_def Let_def demo_pair_def evict_client_def)
  moreover have "out_len demo_out 1 = 10" "out_len demo_out 2 = 3" by code_simp+
  moreover have "js_jobs demo_out 1 \<noteq> None" "js_jobs demo_out 2 \<noteq> None" by code_simp+
  ultimately have "dom (js_jobs demo_out) = {1, 2}" unfolding dom_def by fastforce
  then show ?thesis using \<open>out_len demo_out 1 = 10\<close> \<open>out_len demo_out 2 = 3\<close> by (simp add: total_out_def)
qed

theorem out_backlog_bounded_witness: "backlog demo_out = 13 \<and> total_out demo_out (\<lambda>_. 0) 0 \<le> 10 + 2 * 3 * (4 - 1)"
proof -
  have "limits_ok demo_cfg 3" by (simp add: limits_ok_def demo_cfg_def DS4_JOB_OUT_CAP_def)
  moreover have "oc_agg_cap demo_cfg > 0" "unat (oc_agg_cap demo_cfg) = 10" "unat (oc_agg_evict_min demo_cfg) = 4" by code_simp+
  ultimately show ?thesis using out_backlog_bounded [OF demo_out_reach] demo_out_total by simp
qed

text \<open>The larger of the limit and \<open>N\<close> times the threshold is not a bound: thirteen bytes are held with three jobs.\<close>

lemma larger_is_no_bound:
  "sink_reachable demo_cfg 3 (demo_out, \<lambda>_. 0, 0) \<and>
   total_out demo_out (\<lambda>_. 0) 0 > max (unat (oc_agg_cap demo_cfg)) (3 * unat (oc_agg_evict_min demo_cfg))"
proof -
  have "unat (oc_agg_cap demo_cfg) = 10" "unat (oc_agg_evict_min demo_cfg) = 4" by code_simp+
  then show ?thesis using demo_out_reach demo_out_total by simp
qed

theorem terminal_commit_visibility_witness:
  "\<not> fst (cont_registry_resolve_serial 0 (snd (serial_terminal_commit demo_cfg 7 0 True 1 API_ANTHROPIC demo_calls 1 5 [0] (demo_pair, demo_start)))
      API_ANTHROPIC [[97]] 1 5)"
proof -
  have h: "rg_heap (sv_creg demo_start) 7 = None" and ttl: "rg_ttl_s (sv_creg demo_start) \<le> 0 \<or> d_sub 0 0 \<le> rg_ttl_s (sv_creg demo_start)"
    by (simp_all add: demo_start_def srv_start_def d_sub_def)
  have j: "js_jobs demo_pair 1 = Some (demo_job 10)" by (simp add: demo_pair_def)
  have r: "fst (terminal_sink_reserve demo_cfg (length [0 :: u8]) demo_pair)" by code_simp
  obtain s' sv' where c: "serial_terminal_commit demo_cfg 7 0 True 1 API_ANTHROPIC demo_calls 1 5 [0] (demo_pair, demo_start) = (s', sv')"
    by (cases "serial_terminal_commit demo_cfg 7 0 True 1 API_ANTHROPIC demo_calls 1 5 [0] (demo_pair, demo_start)")
  show ?thesis
    unfolding c using terminal_commit_visibility [OF demo_start_reach h demo_calls_ids _ _ j _ ttl c] r by simp
qed

end
