(* ===== verification/Gguf_Parse.thy ===== *)
theory Gguf_Parse
  imports Kv_Format
begin

section \<open>Reading model files\<close>

text \<open>
  The loader maps a model file once and reads its directory: a header, a table of typed metadata values
  that are skipped and left in place, and a table of tensor descriptors whose offsets are turned
  into positions of the mapping (\<open>cursor_*\<close>, \<open>skip_value\<close>, \<open>parse_metadata\<close>, \<open>parse_tensors\<close>, the \<open>model_get_*\<close> readers
  and the opening of split models in \<open>src/ds4.c\<close>).

  The mapping is a list of bytes, read as little-endian integers as on the hosts the engine supports. A
  string that points into the mapping is its content. Every \<open>ds4_die\<close> and every false return is an
  error value; the position in it is the one that \<open>cursor_error\<close> prints. Whether an allocation of a
  table succeeds is the parameter \<open>alloc\<close>.
\<close>

datatype gguf_error =
    Truncated_File u64
  | Nesting_Too_Deep u64
  | Array_Too_Large u64
  | Unknown_Metadata_Type u64
  | Out_Of_Memory
  | Not_Gguf
  | Bad_Version
  | Bad_Dimensions
  | Element_Overflow
  | Offset_Overflow
  | Outside_File

record cursor =
  cu_base :: bytes
  cu_size :: u64
  cu_pos :: u64

text \<open>Each reader fails or gives a value and the cursor after it.\<close>

definition bindE :: "gguf_error + 'a \<times> cursor \<Rightarrow> ('a \<Rightarrow> cursor \<Rightarrow> gguf_error + 'b) \<Rightarrow> gguf_error + 'b" where
  "bindE m f = (case m of Inl e \<Rightarrow> Inl e | Inr (v, c) \<Rightarrow> f v c)"

definition cursor_has :: "cursor \<Rightarrow> u64 \<Rightarrow> bool" where
  "cursor_has c n = (\<not> (n > cu_size c \<or> cu_pos c > cu_size c - n))"

definition cursor_read :: "cursor \<Rightarrow> u64 \<Rightarrow> gguf_error + bytes \<times> cursor" where
  "cursor_read c n =
     (if \<not> cursor_has c n then Inl (Truncated_File (cu_pos c))
      else Inr (take (unat n) (drop (unat (cu_pos c)) (cu_base c)), c\<lparr>cu_pos := cu_pos c + n\<rparr>))"

definition cursor_skip :: "cursor \<Rightarrow> u64 \<Rightarrow> gguf_error + unit \<times> cursor" where
  "cursor_skip c n =
     (if \<not> cursor_has c n then Inl (Truncated_File (cu_pos c)) else Inr ((), c\<lparr>cu_pos := cu_pos c + n\<rparr>))"

definition cursor_u32 :: "cursor \<Rightarrow> gguf_error + u32 \<times> cursor" where
  "cursor_u32 c = bindE (cursor_read c 4) (\<lambda>b c. Inr (le_get32 b, c))"

definition cursor_u64 :: "cursor \<Rightarrow> gguf_error + u64 \<times> cursor" where
  "cursor_u64 c = bindE (cursor_read c 8) (\<lambda>b c. Inr (kv_le_get64 b, c))"

definition cursor_string :: "cursor \<Rightarrow> gguf_error + bytes \<times> cursor" where
  "cursor_string c = bindE (cursor_u64 c) (\<lambda>len c.
     if \<not> cursor_has c len then Inl (Truncated_File (cu_pos c))
     else Inr (take (unat len) (drop (unat (cu_pos c)) (cu_base c)), c\<lparr>cu_pos := cu_pos c + len\<rparr>))"

definition align_up :: "u64 \<Rightarrow> u64 \<Rightarrow> u64" where
  "align_up value alignment =
     (let rem = value mod alignment in if rem = 0 then value else value + alignment - rem)"

subsection \<open>Metadata values\<close>

abbreviation (input) GGUF_VALUE_UINT8 :: u32 where "GGUF_VALUE_UINT8 \<equiv> 0"
abbreviation (input) GGUF_VALUE_INT8 :: u32 where "GGUF_VALUE_INT8 \<equiv> 1"
abbreviation (input) GGUF_VALUE_UINT16 :: u32 where "GGUF_VALUE_UINT16 \<equiv> 2"
abbreviation (input) GGUF_VALUE_INT16 :: u32 where "GGUF_VALUE_INT16 \<equiv> 3"
abbreviation (input) GGUF_VALUE_UINT32 :: u32 where "GGUF_VALUE_UINT32 \<equiv> 4"
abbreviation (input) GGUF_VALUE_INT32 :: u32 where "GGUF_VALUE_INT32 \<equiv> 5"
abbreviation (input) GGUF_VALUE_FLOAT32 :: u32 where "GGUF_VALUE_FLOAT32 \<equiv> 6"
abbreviation (input) GGUF_VALUE_BOOL :: u32 where "GGUF_VALUE_BOOL \<equiv> 7"
abbreviation (input) GGUF_VALUE_STRING :: u32 where "GGUF_VALUE_STRING \<equiv> 8"
abbreviation (input) GGUF_VALUE_ARRAY :: u32 where "GGUF_VALUE_ARRAY \<equiv> 9"
abbreviation (input) GGUF_VALUE_UINT64 :: u32 where "GGUF_VALUE_UINT64 \<equiv> 10"
abbreviation (input) GGUF_VALUE_INT64 :: u32 where "GGUF_VALUE_INT64 \<equiv> 11"
abbreviation (input) GGUF_VALUE_FLOAT64 :: u32 where "GGUF_VALUE_FLOAT64 \<equiv> 12"

definition scalar_value_size :: "u32 \<Rightarrow> u64" where
  "scalar_value_size type =
     (if type = GGUF_VALUE_UINT8 \<or> type = GGUF_VALUE_INT8 \<or> type = GGUF_VALUE_BOOL then 1
      else if type = GGUF_VALUE_UINT16 \<or> type = GGUF_VALUE_INT16 then 2
      else if type = GGUF_VALUE_UINT32 \<or> type = GGUF_VALUE_INT32 \<or> type = GGUF_VALUE_FLOAT32 then 4
      else if type = GGUF_VALUE_UINT64 \<or> type = GGUF_VALUE_INT64 \<or> type = GGUF_VALUE_FLOAT64 then 8
      else 0)"

text \<open>
  \<open>skip_items\<close> is the loop over the elements of an array. The nesting limit is what makes the recursion
  end.
\<close>

function skip_value :: "cursor \<Rightarrow> u32 \<Rightarrow> nat \<Rightarrow> gguf_error + unit \<times> cursor"
  and skip_items :: "nat \<Rightarrow> cursor \<Rightarrow> u32 \<Rightarrow> nat \<Rightarrow> gguf_error + unit \<times> cursor" where
  "skip_value c type depth =
     (if depth > 8 then Inl (Nesting_Too_Deep (cu_pos c))
      else if scalar_value_size type \<noteq> 0 then cursor_skip c (scalar_value_size type)
      else if type = GGUF_VALUE_STRING then bindE (cursor_string c) (\<lambda>_ c. Inr ((), c))
      else if type = GGUF_VALUE_ARRAY then
        bindE (cursor_u32 c) (\<lambda>item_type c.
        bindE (cursor_u64 c) (\<lambda>len c.
          let item_size = scalar_value_size item_type
          in if item_size \<noteq> 0
             then (if len > u64_max div item_size then Inl (Array_Too_Large (cu_pos c))
                   else cursor_skip c (len * item_size))
             else skip_items (unat len) c item_type (depth + 1)))
      else Inl (Unknown_Metadata_Type (cu_pos c)))"
| "skip_items n c type depth =
     (case n of 0 \<Rightarrow> Inr ((), c)
      | Suc k \<Rightarrow> bindE (skip_value c type depth) (\<lambda>_ c. skip_items k c type depth))"
  by pat_completeness auto

termination
  by (relation "inv_image (less_than <*lex*> less_than <*lex*> less_than)
       (\<lambda>x. case x of Inl (c, type, depth) \<Rightarrow> (9 - depth, 1, 0) | Inr (n, c, type, depth) \<Rightarrow> (9 - depth, 2, n))")
    auto

subsection \<open>Tensor types\<close>

record gguf_type_info =
  gi_name :: string
  gi_block_elems :: u32
  gi_block_bytes :: u32

definition type_info :: "string \<Rightarrow> u32 \<Rightarrow> u32 \<Rightarrow> gguf_type_info" where
  "type_info n e b = \<lparr>gi_name = n, gi_block_elems = e, gi_block_bytes = b\<rparr>"

text \<open>The table, with the positions that it leaves empty absent.\<close>

definition gguf_types :: "(u32 \<times> gguf_type_info) list" where
  "gguf_types =
    [(0, type_info ''f32'' 1 4), (1, type_info ''f16'' 1 2), (2, type_info ''q4_0'' 32 18), (3, type_info ''q4_1'' 32 20),
     (6, type_info ''q5_0'' 32 22), (7, type_info ''q5_1'' 32 24), (8, type_info ''q8_0'' 32 34), (9, type_info ''q8_1'' 32 40),
     (10, type_info ''q2_k'' 256 84), (11, type_info ''q3_k'' 256 110), (12, type_info ''q4_k'' 256 144),
     (13, type_info ''q5_k'' 256 176), (14, type_info ''q6_k'' 256 210), (15, type_info ''q8_k'' 256 292),
     (16, type_info ''iq2_xxs'' 256 66), (17, type_info ''iq2_xs'' 256 74), (18, type_info ''iq3_xxs'' 256 98),
     (19, type_info ''iq1_s'' 256 50), (20, type_info ''iq4_nl'' 256 50), (21, type_info ''iq3_s'' 256 110),
     (22, type_info ''iq2_s'' 256 82), (23, type_info ''iq4_xs'' 256 136), (24, type_info ''i8'' 1 1),
     (25, type_info ''i16'' 1 2), (26, type_info ''i32'' 1 4), (27, type_info ''i64'' 1 8), (28, type_info ''f64'' 1 8),
     (29, type_info ''iq1_m'' 256 56), (30, type_info ''bf16'' 1 2), (40, type_info ''go1b'' 256 34),
     (41, type_info ''go2b'' 256 68), (42, type_info ''vqblob'' 1 1), (43, type_info ''fp4x32'' 32 17),
     (44, type_info ''fp8_32x32'' 1024 1025), (142, type_info ''pq2_0'' 128 34)]"

definition tensor_type :: "u32 \<Rightarrow> gguf_type_info option" where
  "tensor_type type = map_of gguf_types type"

definition tensor_type_name :: "u32 \<Rightarrow> string" where
  "tensor_type_name type = (case tensor_type type of Some info \<Rightarrow> gi_name info | None \<Rightarrow> ''unknown'')"

definition tensor_nbytes :: "u32 \<Rightarrow> u64 \<Rightarrow> u64 option" where
  "tensor_nbytes type elements =
     (case tensor_type type of
        None \<Rightarrow> None
      | Some info \<Rightarrow>
          if gi_block_elems info = 0 then None
          else let be = ucast (gi_block_elems info); bb = ucast (gi_block_bytes info);
                   blocks = elements div be + (if elements mod be \<noteq> 0 then 1 else 0)
               in if blocks > u64_max div bb then None else Some (blocks * bb))"

subsection \<open>The model\<close>

record ds4_kv =
  kv_key :: bytes
  kv_type :: u32
  kv_value_pos :: u64

record ds4_tensor =
  t_name :: bytes
  t_ndim :: u32
  t_dim :: "u64 list"
  t_type :: u32
  t_rel_offset :: u64
  t_abs_offset :: u64
  t_elements :: u64
  t_bytes :: u64

record ds4_model =
  m_map :: bytes
  m_size :: u64
  m_version :: u32
  m_n_kv :: u64
  m_n_tensors :: u64
  m_alignment :: u64
  m_tensor_data_pos :: u64
  m_max_tensor_bytes :: u64
  m_kv :: "ds4_kv list"
  m_tensors :: "ds4_tensor list"

definition cursor_at :: "ds4_model \<Rightarrow> u64 \<Rightarrow> cursor" where
  "cursor_at m pos = \<lparr>cu_base = m_map m, cu_size = m_size m, cu_pos = pos\<rparr>"

definition DS4_MAX_DIMS :: u32 where "DS4_MAX_DIMS = 8"
definition DS4_GGUF_MAGIC :: u32 where "DS4_GGUF_MAGIC = 0x46554747"

definition ds4_streq :: "bytes \<Rightarrow> string \<Rightarrow> bool" where
  "ds4_streq s z = (s = map of_char z)"

text \<open>One turn of the metadata loop, and the loop. The tables grow at the end, as the index does.\<close>

definition parse_kv :: "ds4_model \<Rightarrow> cursor \<Rightarrow> gguf_error + ds4_model \<times> cursor" where
  "parse_kv m c =
    bindE (cursor_string c) (\<lambda>key c.
    bindE (cursor_u32 c) (\<lambda>type c.
      let kv = \<lparr>kv_key = key, kv_type = type, kv_value_pos = cu_pos c\<rparr>;
          al = (if ds4_streq key ''general.alignment'' \<and> type = GGUF_VALUE_UINT32
                then (case cursor_u32 (cursor_at m (cu_pos c)) of
                        Inr (a, _) \<Rightarrow> if a \<noteq> 0 then ucast a else m_alignment m
                      | Inl _ \<Rightarrow> m_alignment m)
                else m_alignment m)
      in bindE (skip_value c type 0) (\<lambda>_ c. Inr (m\<lparr>m_alignment := al, m_kv := m_kv m @ [kv]\<rparr>, c))))"

fun parse_kvs :: "nat \<Rightarrow> ds4_model \<Rightarrow> cursor \<Rightarrow> gguf_error + ds4_model \<times> cursor" where
  "parse_kvs 0 m c = Inr (m, c)"
| "parse_kvs (Suc n) m c = bindE (parse_kv m c) (\<lambda>m c. parse_kvs n m c)"

definition parse_metadata :: "(u64 \<Rightarrow> bool) \<Rightarrow> ds4_model \<Rightarrow> cursor \<Rightarrow> gguf_error + ds4_model \<times> cursor" where
  "parse_metadata alloc m c =
     (if \<not> alloc (m_n_kv m) then Inl Out_Of_Memory
      else parse_kvs (unat (m_n_kv m)) (m\<lparr>m_kv := [], m_alignment := 32\<rparr>) c)"

text \<open>The dimensions of a tensor and the product of them, each factor checked before it is multiplied.\<close>

fun parse_dims :: "nat \<Rightarrow> u64 list \<Rightarrow> u64 \<Rightarrow> cursor \<Rightarrow> gguf_error + (u64 list \<times> u64) \<times> cursor" where
  "parse_dims 0 dims elements c = Inr ((dims, elements), c)"
| "parse_dims (Suc n) dims elements c =
     bindE (cursor_u64 c) (\<lambda>d c.
       if d \<noteq> 0 \<and> elements > u64_max div d then Inl Element_Overflow
       else parse_dims n (dims @ [d]) (elements * d) c)"

definition parse_tensor :: "cursor \<Rightarrow> gguf_error + ds4_tensor \<times> cursor" where
  "parse_tensor c =
    bindE (cursor_string c) (\<lambda>name c.
    bindE (cursor_u32 c) (\<lambda>ndim c.
      if ndim = 0 \<or> ndim > DS4_MAX_DIMS then Inl Bad_Dimensions
      else bindE (parse_dims (unat ndim) [] 1 c) (\<lambda>de c.
           bindE (cursor_u32 c) (\<lambda>type c.
           bindE (cursor_u64 c) (\<lambda>rel c.
             Inr (\<lparr>t_name = name, t_ndim = ndim, t_dim = fst de, t_type = type, t_rel_offset = rel, t_abs_offset = 0,
                   t_elements = snd de,
                   t_bytes = (case tensor_nbytes type (snd de) of Some b \<Rightarrow> b | None \<Rightarrow> 0)\<rparr>, c))))))"

fun parse_tensor_list :: "nat \<Rightarrow> cursor \<Rightarrow> gguf_error + ds4_tensor list \<times> cursor" where
  "parse_tensor_list 0 c = Inr ([], c)"
| "parse_tensor_list (Suc n) c =
     bindE (parse_tensor c) (\<lambda>t c. bindE (parse_tensor_list n c) (\<lambda>ts c. Inr (t # ts, c)))"

text \<open>The second loop: absolute offsets, the check against the file, the largest tensor.\<close>

fun place_tensors :: "u64 \<Rightarrow> u64 \<Rightarrow> u64 \<Rightarrow> ds4_tensor list \<Rightarrow> gguf_error + ds4_tensor list \<times> u64" where
  "place_tensors data_pos fsize mx [] = Inr ([], mx)"
| "place_tensors data_pos fsize mx (t # ts) =
     (if t_rel_offset t > u64_max - data_pos then Inl Offset_Overflow
      else let t = t\<lparr>t_abs_offset := data_pos + t_rel_offset t\<rparr>
        in if t_bytes t \<noteq> 0 \<and> (t_abs_offset t > fsize \<or> t_bytes t > fsize - t_abs_offset t) then Inl Outside_File
           else case place_tensors data_pos fsize (if t_bytes t > mx then t_bytes t else mx) ts of
                  Inl e \<Rightarrow> Inl e | Inr (ts, mx) \<Rightarrow> Inr (t # ts, mx))"

definition parse_tensors :: "(u64 \<Rightarrow> bool) \<Rightarrow> ds4_model \<Rightarrow> cursor \<Rightarrow> gguf_error + ds4_model \<times> cursor" where
  "parse_tensors alloc m c =
     (if \<not> alloc (m_n_tensors m) then Inl Out_Of_Memory
      else bindE (parse_tensor_list (unat (m_n_tensors m)) c) (\<lambda>ts c.
        let data_pos = align_up (cu_pos c) (m_alignment m)
        in case place_tensors data_pos (m_size m) (m_max_tensor_bytes m) ts of
             Inl e \<Rightarrow> Inl e
           | Inr (ts, mx) \<Rightarrow> Inr (m\<lparr>m_tensors := ts, m_tensor_data_pos := data_pos, m_max_tensor_bytes := mx\<rparr>, c)))"

text \<open>A model whose record is cleared and whose mapping is set.\<close>

definition model_on :: "bytes \<Rightarrow> ds4_model" where
  "model_on b = \<lparr>m_map = b, m_size = of_nat (length b), m_version = 0, m_n_kv = 0, m_n_tensors = 0, m_alignment = 0,
     m_tensor_data_pos = 0, m_max_tensor_bytes = 0, m_kv = [], m_tensors = []\<rparr>"

text \<open>Magic, version, the two counts and the metadata, as \<open>model_open\<close>, \<open>model_open_split\<close> and \<open>model_parse_shard\<close> read them.\<close>

definition parse_header :: "(u64 \<Rightarrow> bool) \<Rightarrow> bytes \<Rightarrow> gguf_error + ds4_model \<times> cursor" where
  "parse_header alloc b =
    (let m = model_on b in
     bindE (cursor_u32 (cursor_at m 0)) (\<lambda>magic c.
       if magic \<noteq> DS4_GGUF_MAGIC then Inl Not_Gguf
       else bindE (cursor_u32 c) (\<lambda>version c.
            bindE (cursor_u64 c) (\<lambda>n_tensors c.
            bindE (cursor_u64 c) (\<lambda>n_kv c.
              if version \<noteq> 3 then Inl Bad_Version
              else parse_metadata alloc (m\<lparr>m_version := version, m_n_tensors := n_tensors, m_n_kv := n_kv\<rparr>) c)))))"

definition model_parse_shard :: "(u64 \<Rightarrow> bool) \<Rightarrow> bytes \<Rightarrow> gguf_error + ds4_model" where
  "model_parse_shard alloc b =
     bindE (parse_header alloc b) (\<lambda>m c. case parse_tensors alloc m c of Inl e \<Rightarrow> Inl e | Inr (m, _) \<Rightarrow> Inr m)"

subsection \<open>Reading metadata values\<close>

definition model_find_kv :: "ds4_model \<Rightarrow> string \<Rightarrow> ds4_kv option" where
  "model_find_kv m key = find (\<lambda>kv. ds4_streq (kv_key kv) key) (m_kv m)"

text \<open>The value of a key of a given type, read at its place; a failed read is an absent value.\<close>

definition value_of :: "gguf_error + 'a \<times> cursor \<Rightarrow> 'a option" where
  "value_of r = (case r of Inl _ \<Rightarrow> None | Inr (v, _) \<Rightarrow> Some v)"

definition model_get :: "ds4_model \<Rightarrow> string \<Rightarrow> u32 \<Rightarrow> (cursor \<Rightarrow> gguf_error + 'a \<times> cursor) \<Rightarrow> 'a option" where
  "model_get m key type rd =
     (case model_find_kv m key of
        None \<Rightarrow> None
      | Some kv \<Rightarrow> if kv_type kv \<noteq> type then None else value_of (rd (cursor_at m (kv_value_pos kv))))"

definition model_get_string :: "ds4_model \<Rightarrow> string \<Rightarrow> bytes option" where
  "model_get_string m key = model_get m key GGUF_VALUE_STRING cursor_string"

definition model_get_u16 :: "ds4_model \<Rightarrow> string \<Rightarrow> 16 word option" where
  "model_get_u16 m key = map_option (\<lambda>b. ucast (b ! 0) OR push_bit 8 (ucast (b ! 1)))
     (model_get m key GGUF_VALUE_UINT16 (\<lambda>c. cursor_read c 2))"

definition model_get_u32 :: "ds4_model \<Rightarrow> string \<Rightarrow> u32 option" where
  "model_get_u32 m key = model_get m key GGUF_VALUE_UINT32 cursor_u32"

definition model_get_u64 :: "ds4_model \<Rightarrow> string \<Rightarrow> u64 option" where
  "model_get_u64 m key = model_get m key GGUF_VALUE_UINT64 cursor_u64"

definition model_get_u64_compat :: "ds4_model \<Rightarrow> string \<Rightarrow> u64 option" where
  "model_get_u64_compat m key =
     (case model_find_kv m key of
        None \<Rightarrow> None
      | Some kv \<Rightarrow>
          let c = cursor_at m (kv_value_pos kv)
          in if kv_type kv = GGUF_VALUE_UINT64 then value_of (cursor_u64 c)
             else if kv_type kv = GGUF_VALUE_UINT32 then map_option ucast (value_of (cursor_u32 c))
             else None)"

definition model_get_bool :: "ds4_model \<Rightarrow> string \<Rightarrow> bool option" where
  "model_get_bool m key = map_option (\<lambda>b. b ! 0 \<noteq> 0) (model_get m key GGUF_VALUE_BOOL (\<lambda>c. cursor_read c 1))"

text \<open>\<open>INT_MAX\<close>. Signed values are read as words and tested by their sign.\<close>

definition model_get_token_id :: "ds4_model \<Rightarrow> string \<Rightarrow> int option" where
  "model_get_token_id m key =
     (case model_find_kv m key of
        None \<Rightarrow> None
      | Some kv \<Rightarrow>
          let c = cursor_at m (kv_value_pos kv)
          in if kv_type kv = GGUF_VALUE_UINT32
             then (case value_of (cursor_u32 c) of None \<Rightarrow> None | Some v \<Rightarrow> if v > 0x7FFFFFFF then None else Some (uint v))
             else if kv_type kv = GGUF_VALUE_INT32
             then (case value_of (cursor_u32 c) of None \<Rightarrow> None | Some v \<Rightarrow> if sint v < 0 then None else Some (sint v))
             else if kv_type kv = GGUF_VALUE_UINT64
             then (case value_of (cursor_u64 c) of None \<Rightarrow> None | Some v \<Rightarrow> if v > 0x7FFFFFFF then None else Some (uint v))
             else if kv_type kv = GGUF_VALUE_INT64
             then (case value_of (cursor_u64 c) of None \<Rightarrow> None
                   | Some v \<Rightarrow> if sint v < 0 \<or> sint v > 0x7FFFFFFF then None else Some (sint v))
             else None)"

record ds4_array_ref =
  ar_type :: u32
  ar_len :: u64
  ar_data_pos :: u64

definition model_get_array :: "ds4_model \<Rightarrow> string \<Rightarrow> ds4_array_ref option" where
  "model_get_array m key = model_get m key GGUF_VALUE_ARRAY (\<lambda>c.
     bindE (cursor_u32 c) (\<lambda>type c. bindE (cursor_u64 c) (\<lambda>len c.
       Inr (\<lparr>ar_type = type, ar_len = len, ar_data_pos = cu_pos c\<rparr>, c))))"

subsection \<open>Readers\<close>

text \<open>A cursor whose size is that of the mapping and whose position is inside it.\<close>

definition wf_cursor :: "cursor \<Rightarrow> bool" where
  "wf_cursor c \<longleftrightarrow> unat (cu_size c) = length (cu_base c) \<and> unat (cu_pos c) \<le> length (cu_base c)"

text \<open>The same position of a longer mapping.\<close>

definition extend :: "bytes \<Rightarrow> cursor \<Rightarrow> cursor" where
  "extend e c = c\<lparr>cu_base := cu_base c @ e, cu_size := of_nat (length (cu_base c @ e))\<rparr>"

text \<open>
  What all the parsing functions promise: a successful read stays in the mapping and moves forward, it does not
  depend on what follows the bytes it consumed.
\<close>

locale reader =
  fixes rd :: "cursor \<Rightarrow> gguf_error + 'a \<times> cursor"
  assumes keeps: "wf_cursor c \<Longrightarrow> rd c = Inr (v, c') \<Longrightarrow>
      wf_cursor c' \<and> cu_base c' = cu_base c \<and> cu_size c' = cu_size c \<and> unat (cu_pos c) \<le> unat (cu_pos c')"
    and extends: "wf_cursor c \<Longrightarrow> rd c = Inr (v, c') \<Longrightarrow> length (cu_base c @ e) < 2 ^ 64 \<Longrightarrow>
      rd (extend e c) = Inr (v, extend e c')"
begin

lemma wf_after: "wf_cursor c \<Longrightarrow> rd c = Inr (v, c') \<Longrightarrow> wf_cursor c'"
  by (blast dest: keeps)

lemma base_after: "wf_cursor c \<Longrightarrow> rd c = Inr (v, c') \<Longrightarrow> cu_base c' = cu_base c"
  by (blast dest: keeps)

lemma size_after: "wf_cursor c \<Longrightarrow> rd c = Inr (v, c') \<Longrightarrow> cu_size c' = cu_size c"
  by (blast dest: keeps)

end

named_theorems readers \<open>the parsing functions that are readers\<close>

lemma extend_simps [simp]:
  "cu_pos (extend e c) = cu_pos c" "cu_base (extend e c) = cu_base c @ e"
  "extend e (c\<lparr>cu_pos := p\<rparr>) = (extend e c)\<lparr>cu_pos := p\<rparr>"
  by (simp_all add: extend_def)

lemma wf_extend: "wf_cursor c \<Longrightarrow> length (cu_base c @ e) < 2 ^ 64 \<Longrightarrow> wf_cursor (extend e c)"
  by (simp add: wf_cursor_def extend_def unsigned_of_nat take_bit_nat_eq_self_iff del: of_nat_add)

lemma cursor_has_iff:
  assumes "wf_cursor c"
  shows "cursor_has c n \<longleftrightarrow> unat (cu_pos c) + unat n \<le> length (cu_base c)"
proof (cases "n \<le> cu_size c")
  case True
  then have "unat (cu_size c - n) = unat (cu_size c) - unat n" "unat n \<le> unat (cu_size c)"
    by (simp_all add: unat_sub word_le_nat_alt)
  then show ?thesis using assms by (auto simp: cursor_has_def wf_cursor_def word_less_nat_alt)
next
  case False
  then show ?thesis using assms by (auto simp: cursor_has_def wf_cursor_def word_less_nat_alt word_le_nat_alt)
qed

lemma unat_pos_add:
  assumes "wf_cursor c" "unat (cu_pos c) + unat n \<le> length (cu_base c)"
  shows "unat (cu_pos c + n) = unat (cu_pos c) + unat n"
  using assms unat_u64_bound [of "cu_size c"] by (intro unat_add_exact) (simp add: wf_cursor_def)

lemma bindE_simps [simp]: "bindE (Inl e) f = Inl e" "bindE (Inr (v, c)) f = f v c"
  by (simp_all add: bindE_def)

lemma bindE_Inr: "bindE r f = Inr y \<longleftrightarrow> (\<exists>v c. r = Inr (v, c) \<and> f v c = Inr y)"
  by (auto simp: bindE_def split: sum.splits)

lemma bindE_assoc: "bindE (bindE r f) g = bindE r (\<lambda>v c. bindE (f v c) g)"
  by (auto simp: bindE_def split: sum.splits)

lemma bindE_if: "bindE (if b then r else s) g = (if b then bindE r g else bindE s g)"
  by simp

lemma bindE_cong:
  assumes "reader rd" "wf_cursor c"
    and "\<And>v c'. wf_cursor c' \<Longrightarrow> cu_base c' = cu_base c \<Longrightarrow> cu_size c' = cu_size c \<Longrightarrow> f v c' = g v c'"
  shows "bindE (rd c) f = bindE (rd c) g"
proof (cases "rd c")
  case (Inr p)
  then obtain v c' where r: "rd c = Inr (v, c')" by (cases p) auto
  have "f v c' = g v c'" using reader.keeps [OF assms(1,2) r] by (intro assms(3)) auto
  then show ?thesis by (simp add: r)
qed simp

lemma reader_advance:
  assumes "\<And>c. rd c = (if cursor_has c n then Inr (g (bslice (unat (cu_pos c)) (unat n) (cu_base c)), c\<lparr>cu_pos := cu_pos c + n\<rparr>) else Inl (Truncated_File (cu_pos c)))"
  shows "reader rd"
proof
  fix c :: cursor and v c' assume w: "wf_cursor c" and r: "rd c = Inr (v, c')"
  then have h: "cursor_has c n" and c': "c' = c\<lparr>cu_pos := cu_pos c + n\<rparr>"
    and v: "v = g (bslice (unat (cu_pos c)) (unat n) (cu_base c))"
    by (auto simp: assms split: if_splits)
  have le: "unat (cu_pos c) + unat n \<le> length (cu_base c)" using h w by (simp add: cursor_has_iff)
  show "wf_cursor c' \<and> cu_base c' = cu_base c \<and> cu_size c' = cu_size c \<and> unat (cu_pos c) \<le> unat (cu_pos c')"
    using w le by (simp add: c' wf_cursor_def unat_pos_add)
  fix e :: bytes assume "length (cu_base c @ e) < 2 ^ 64"
  then have "cursor_has (extend e c) n" using w le by (simp add: cursor_has_iff wf_extend)
  then show "rd (extend e c) = Inr (v, extend e c')" using le by (simp add: assms v c' bslice_append_left)
qed

lemma cursor_read_reader [readers]: "reader (\<lambda>c. cursor_read c n)"
  by (rule reader_advance [of _ n "\<lambda>b. b"]) (simp add: cursor_read_def bslice_def)

lemma cursor_skip_reader [readers]: "reader (\<lambda>c. cursor_skip c n)"
  by (rule reader_advance [of _ n "\<lambda>_. ()"]) (simp add: cursor_skip_def)

lemma reader_ret [readers]: "reader (\<lambda>c. Inr (v, c))"
  by unfold_locales auto

lemma reader_ret_pos [readers]: "reader (\<lambda>c. Inr (g (cu_pos c), c))"
  by unfold_locales auto

lemma reader_fail [readers]: "reader (\<lambda>c. Inl (err c))"
  by unfold_locales auto

lemma reader_if [readers]: "reader r \<Longrightarrow> reader s \<Longrightarrow> reader (\<lambda>c. if b then r c else s c)"
  by (cases b) simp_all

lemma reader_bind [readers]:
  assumes r: "reader r" and f: "\<And>v. reader (f v)"
  shows "reader (\<lambda>c. bindE (r c) f)"
proof
  fix c v c' assume w: "wf_cursor c" and b: "bindE (r c) f = Inr (v, c')"
  then obtain u c1 where 1: "r c = Inr (u, c1)" and 2: "f u c1 = Inr (v, c')" by (auto simp: bindE_Inr)
  note k = reader.keeps [OF r w 1]
  then show "wf_cursor c' \<and> cu_base c' = cu_base c \<and> cu_size c' = cu_size c \<and> unat (cu_pos c) \<le> unat (cu_pos c')"
    using reader.keeps [OF f _ 2] by fastforce
  fix e assume "length (cu_base c @ e) < 2 ^ 64"
  then show "bindE (r (extend e c)) f = Inr (v, extend e c')"
    using reader.extends [OF r w 1] reader.extends [OF f _ 2] k by simp
qed

lemma cursor_u32_reader [readers]: "reader cursor_u32"
  unfolding cursor_u32_def by (intro readers)

lemma cursor_u64_reader [readers]: "reader cursor_u64"
  unfolding cursor_u64_def by (intro readers)

lemma cursor_string_reader [readers]: "reader cursor_string"
proof -
  have "reader (\<lambda>c. if \<not> cursor_has c n then Inl (Truncated_File (cu_pos c))
     else Inr (take (unat n) (drop (unat (cu_pos c)) (cu_base c)), c\<lparr>cu_pos := cu_pos c + n\<rparr>))" for n
    by (rule reader_advance [of _ n "\<lambda>b. b"]) (simp add: bslice_def)
  then show ?thesis unfolding cursor_string_def by (intro readers)
qed

text \<open>The readers that the directory is built from.\<close>

interpretation cu32: reader cursor_u32 by (rule cursor_u32_reader)
interpretation cu64: reader cursor_u64 by (rule cursor_u64_reader)
interpretation cstr: reader cursor_string by (rule cursor_string_reader)

declare skip_value.simps [simp del] skip_items.simps [simp del]

lemma skip_items_reader:
  assumes "reader (\<lambda>c. skip_value c type depth)"
  shows "reader (\<lambda>c. skip_items n c type depth)"
proof (induction n)
  case 0
  show ?case by (simp add: skip_items.simps reader_ret)
next
  case (Suc n)
  then show ?case using assms by (subst skip_items.simps) (simp only: nat.case, intro readers)
qed

lemma skip_value_reader [readers]: "reader (\<lambda>c. skip_value c type depth)"
proof (induction "9 - depth" arbitrary: type depth rule: less_induct)
  case less
  have "reader (\<lambda>c. skip_items n c ty (depth + 1))" if "\<not> depth > 8" for n ty
    using that by (intro skip_items_reader less) simp
  then show ?case
    by (cases "depth > 8")
      (subst skip_value.simps, simp add: reader_fail, subst skip_value.simps, unfold Let_def, simp only: if_False, intro readers, simp)
qed

interpretation skv: reader "\<lambda>c. skip_value c type depth" by (rule skip_value_reader)

subsection \<open>The directory as one reader\<close>

text \<open>
  \<open>parse_kv\<close> writes into the model. Read as a value, one entry is a descriptor and the alignment after it; the
  alignment is read through a second cursor on the same bytes that \<open>skip_value\<close> passes over.
\<close>

definition read_kv :: "u64 \<Rightarrow> cursor \<Rightarrow> gguf_error + (ds4_kv \<times> u64) \<times> cursor" where
  "read_kv al c =
    bindE (cursor_string c) (\<lambda>key c. bindE (cursor_u32 c) (\<lambda>type c.
    bindE (Inr (cu_pos c, c)) (\<lambda>pos c.
      if ds4_streq key ''general.alignment'' \<and> type = GGUF_VALUE_UINT32
      then bindE (cursor_u32 c) (\<lambda>a c. Inr ((\<lparr>kv_key = key, kv_type = type, kv_value_pos = pos\<rparr>, if a \<noteq> 0 then ucast a else al), c))
      else bindE (skip_value c type 0) (\<lambda>_ c. Inr ((\<lparr>kv_key = key, kv_type = type, kv_value_pos = pos\<rparr>, al), c)))))"

fun read_kvs :: "nat \<Rightarrow> u64 \<Rightarrow> cursor \<Rightarrow> gguf_error + (ds4_kv list \<times> u64) \<times> cursor" where
  "read_kvs 0 al c = Inr (([], al), c)"
| "read_kvs (Suc n) al c = bindE (read_kv al c) (\<lambda>(kv, al) c. bindE (read_kvs n al c) (\<lambda>(kvs, al) c. Inr ((kv # kvs, al), c)))"

lemma reader_prod [readers]: "(\<And>x y. reader (f x y)) \<Longrightarrow> reader (case_prod f p)"
  by (cases p) simp

lemma reader_pos: "reader (\<lambda>c. Inr (cu_pos c, c))"
  by (rule reader_ret_pos)

lemma read_kv_reader [readers]: "reader (read_kv al)"
  unfolding read_kv_def by (intro readers reader_pos)

lemma read_kvs_reader [readers]: "reader (read_kvs n al)"
proof (induction n arbitrary: al)
  case (Suc n)
  have "read_kvs (Suc n) al = (\<lambda>c. bindE (read_kv al c) (\<lambda>(kv, al) c. bindE (read_kvs n al c) (\<lambda>(kvs, al) c. Inr ((kv # kvs, al), c))))"
    by (simp add: fun_eq_iff)
  then show ?case by (simp only:) (intro readers Suc)
qed (simp add: reader_ret read_kvs.simps(1) [abs_def])

interpretation rkv: reader "read_kv al" by (rule read_kv_reader)

lemma skip_value_u32: "skip_value c GGUF_VALUE_UINT32 0 = cursor_skip c 4"
  by (subst skip_value.simps) (simp add: scalar_value_size_def)

lemma parse_kv_read:
  assumes "m_map m = cu_base c" "m_size m = cu_size c" "wf_cursor c"
  shows "parse_kv m c = bindE (read_kv (m_alignment m) c) (\<lambda>(kv, al) c. Inr (m\<lparr>m_alignment := al, m_kv := m_kv m @ [kv]\<rparr>, c))"
proof (cases "cursor_string c")
  case (Inr p)
  then obtain key c1 where 1: "cursor_string c = Inr (key, c1)" by (cases p) auto
  note k1 = cstr.keeps [OF assms(3) 1]
  show ?thesis
  proof (cases "cursor_u32 c1")
    case (Inr q)
    then obtain type c2 where 2: "cursor_u32 c1 = Inr (type, c2)" by (cases q) auto
    have k2: "cu_base c2 = cu_base c" "cu_size c2 = cu_size c" using cu32.keeps [OF _ 2] k1 by auto
    then have at: "cursor_at m (cu_pos c2) = c2" using assms by (simp add: cursor_at_def)
    show ?thesis
    proof (cases "ds4_streq key ''general.alignment'' \<and> type = GGUF_VALUE_UINT32")
      case True
      then show ?thesis using 1 2 at
        by (simp add: parse_kv_def read_kv_def Let_def skip_value_u32 cursor_u32_def [of c2] cursor_read_def cursor_skip_def)
    next
      case False
      then show ?thesis using 1 2 by (auto simp: parse_kv_def read_kv_def Let_def bindE_def split: sum.splits)
    qed
  qed (simp add: parse_kv_def read_kv_def 1)
qed (simp add: parse_kv_def read_kv_def)

lemma parse_kvs_read:
  assumes "m_map m = cu_base c" "m_size m = cu_size c" "wf_cursor c"
  shows "parse_kvs n m c = bindE (read_kvs n (m_alignment m) c) (\<lambda>(kvs, al) c. Inr (m\<lparr>m_alignment := al, m_kv := m_kv m @ kvs\<rparr>, c))"
  using assms
proof (induction n arbitrary: m c)
  case (Suc n)
  show ?case
  proof (cases "read_kv (m_alignment m) c")
    case (Inr p)
    then obtain kv al c1 where 1: "read_kv (m_alignment m) c = Inr ((kv, al), c1)" by (metis surj_pair)
    have "wf_cursor c1" "cu_base c1 = cu_base c" "cu_size c1 = cu_size c" using rkv.keeps [OF Suc.prems(3) 1] by auto
    then show ?thesis
      using Suc.IH [of "m\<lparr>m_alignment := al, m_kv := m_kv m @ [kv]\<rparr>" c1] Suc.prems
      by (simp add: parse_kv_read 1) (auto simp: bindE_def split: sum.splits)
  qed (simp add: parse_kv_read Suc.prems)
qed simp

lemma parse_dims_reader [readers]: "reader (parse_dims n dims elements)"
proof (induction n arbitrary: dims elements)
  case (Suc n)
  have "parse_dims (Suc n) dims elements = (\<lambda>c. bindE (cursor_u64 c) (\<lambda>d c.
       if d \<noteq> 0 \<and> elements > u64_max div d then Inl Element_Overflow else parse_dims n (dims @ [d]) (elements * d) c))"
    by (simp add: fun_eq_iff)
  then show ?case by (simp only:) (intro readers Suc)
qed (simp add: reader_ret parse_dims.simps(1) [abs_def])

lemma parse_tensor_reader [readers]: "reader parse_tensor"
  unfolding parse_tensor_def by (intro readers)

lemma parse_tensor_list_reader [readers]: "reader (parse_tensor_list n)"
proof (induction n)
  case (Suc n)
  have "parse_tensor_list (Suc n) =
      (\<lambda>c. bindE (parse_tensor c) (\<lambda>t c. bindE (parse_tensor_list n c) (\<lambda>ts c. Inr (t # ts, c))))"
    by (simp add: fun_eq_iff)
  then show ?case by (simp only:) (intro readers Suc)
qed (simp add: reader_ret parse_tensor_list.simps(1) [abs_def])

interpretation ptl: reader "parse_tensor_list n" by (rule parse_tensor_list_reader)

text \<open>The header and the metadata as one reader, and what \<open>parse_header\<close> makes of it.\<close>

definition read_header :: "(u64 \<Rightarrow> bool) \<Rightarrow> cursor \<Rightarrow> gguf_error + (u64 \<times> u64 \<times> ds4_kv list \<times> u64) \<times> cursor" where
  "read_header alloc c =
     bindE (cursor_u32 c) (\<lambda>magic c.
       if magic \<noteq> DS4_GGUF_MAGIC then Inl Not_Gguf
       else bindE (cursor_u32 c) (\<lambda>version c. bindE (cursor_u64 c) (\<lambda>n_tensors c. bindE (cursor_u64 c) (\<lambda>n_kv c.
              if version \<noteq> 3 then Inl Bad_Version
              else if \<not> alloc n_kv then Inl Out_Of_Memory
              else bindE (read_kvs (unat n_kv) 32 c) (\<lambda>(kvs, al) c. Inr ((n_tensors, n_kv, kvs, al), c))))))"

definition header_model :: "bytes \<Rightarrow> u64 \<times> u64 \<times> ds4_kv list \<times> u64 \<Rightarrow> ds4_model" where
  "header_model b = (\<lambda>(n_tensors, n_kv, kvs, al). (model_on b)
     \<lparr>m_version := 3, m_n_tensors := n_tensors, m_n_kv := n_kv, m_kv := kvs, m_alignment := al\<rparr>)"

lemma read_header_reader [readers]: "reader (read_header alloc)"
  unfolding read_header_def by (intro readers)

interpretation rh: reader "read_header alloc" by (rule read_header_reader)

definition cursor_on :: "bytes \<Rightarrow> cursor" where
  "cursor_on b = \<lparr>cu_base = b, cu_size = of_nat (length b), cu_pos = 0\<rparr>"

lemma cursor_on_simps [simp]: "cu_base (cursor_on b) = b" "cu_pos (cursor_on b) = 0" "cu_size (cursor_on b) = of_nat (length b)"
  "extend e (cursor_on b) = cursor_on (b @ e)"
  by (simp_all add: cursor_on_def extend_def)

lemma unat_of_length: "n < 2 ^ 64 \<Longrightarrow> unat (of_nat n :: u64) = n"
  by (simp add: unsigned_of_nat take_bit_nat_eq_self_iff)

lemma wf_cursor_on: "length b < 2 ^ 64 \<Longrightarrow> wf_cursor (cursor_on b)"
  by (simp add: wf_cursor_def unat_of_length)

lemma model_on_simps [simp]: "m_map (model_on b) = b" "m_size (model_on b) = of_nat (length b)"
  by (simp_all add: model_on_def)

lemma parse_header_read:
  assumes b: "length b < 2 ^ 64"
  shows "parse_header alloc b = bindE (read_header alloc (cursor_on b)) (\<lambda>x c. Inr (header_model b x, c))"
proof -
  have md: "parse_metadata alloc m c = (if \<not> alloc (m_n_kv m) then Inl Out_Of_Memory
      else bindE (read_kvs (unat (m_n_kv m)) 32 c) (\<lambda>(kvs, al) c. Inr (m\<lparr>m_kv := kvs, m_alignment := al\<rparr>, c)))"
    if "m_map m = cu_base c" "m_size m = cu_size c" "wf_cursor c" for m c
    using that parse_kvs_read [of "m\<lparr>m_kv := [], m_alignment := 32\<rparr>" c]
    by (auto simp: parse_metadata_def bindE_def split: sum.splits)
  have "cursor_at (model_on b) 0 = cursor_on b" by (simp add: cursor_at_def cursor_on_def)
  then show ?thesis
    unfolding parse_header_def read_header_def Let_def bindE_assoc bindE_if
    by (simp only:) (intro bindE_cong readers wf_cursor_on b if_cong refl;
      simp add: md header_model_def bindE_assoc bindE_if split_def)
qed

subsection \<open>Sizes and places of tensors\<close>

lemma unat_mult_guard:
  assumes "\<not> (d \<noteq> 0 \<and> e > u64_max div d)"
  shows "unat (e * d) = unat e * unat (d :: u64)"
proof (cases "d = 0")
  case False
  then have "unat e \<le> (2 ^ 64 - 1) div unat d" using assms by (auto simp: not_less word_le_nat_alt unat_div unat_u64_max)
  moreover have "0 < unat d" using False by (simp add: unat_gt_0)
  ultimately have "unat e * unat d \<le> 2 ^ 64 - 1" by (simp add: less_eq_div_iff_mult_less_eq)
  then show ?thesis by (simp add: unat_word_ariths)
qed simp

lemma parse_dims_exact:
  "parse_dims n dims elements c = Inr ((ds, es), c') \<Longrightarrow>
   \<exists>xs. ds = dims @ xs \<and> length xs = n \<and> unat es = unat elements * prod_list (map unat xs)"
proof (induction n arbitrary: dims elements c)
  case (Suc n)
  then obtain d c1 where d: "\<not> (d \<noteq> 0 \<and> elements > u64_max div d)"
    and r: "parse_dims n (dims @ [d]) (elements * d) c1 = Inr ((ds, es), c')"
    by (auto simp: bindE_Inr split: if_splits)
  from Suc.IH [OF r] show ?case using unat_mult_guard [OF d] by (auto simp: mult.assoc)
qed auto

text \<open>The bytes of \<open>n\<close> elements: whole blocks, where that number is a 64-bit one.\<close>

definition tensor_bytes_spec :: "u32 \<Rightarrow> nat \<Rightarrow> nat option" where
  "tensor_bytes_spec type n =
     (case tensor_type type of None \<Rightarrow> None
      | Some i \<Rightarrow> let k = (n + unat (gi_block_elems i) - 1) div unat (gi_block_elems i) * unat (gi_block_bytes i)
                  in if k < 2 ^ 64 then Some k else None)"

lemma gguf_types_pos: "list_all (\<lambda>(_, i). 0 < gi_block_elems i \<and> 0 < gi_block_bytes i) gguf_types"
  by code_simp

lemma tensor_type_pos: "tensor_type type = Some i \<Longrightarrow> 0 < gi_block_elems i \<and> 0 < gi_block_bytes i"
  using gguf_types_pos by (auto simp: tensor_type_def list_all_iff dest: map_of_SomeD)

lemma ceil_blocks: "0 < b \<Longrightarrow> (n + b - 1) div b = n div b + (if n mod b = 0 then 0 else 1)" for n b :: nat
proof -
  assume b: "0 < b"
  have "n + b - 1 = (n mod b + b - 1) + b * (n div b)" using b mod_mult_div_eq [of n b] by linarith
  then have "(n + b - 1) div b = (n mod b + b - 1 + b * (n div b)) div b" by simp
  also have "\<dots> = n div b + (n mod b + b - 1) div b" using b by (simp only: div_mult_self2 less_numeral_extra neq0_conv)
  also have "(n mod b + b - 1) div b = (if n mod b = 0 then 0 else 1)"
    using b mod_less_divisor [OF b, of n] by (auto intro!: div_nat_eqI)
  finally show ?thesis .
qed

lemma tensor_nbytes_spec: "map_option unat (tensor_nbytes type el) = tensor_bytes_spec type (unat el)"
proof (cases "tensor_type type")
  case (Some i)
  define be bb :: u64 where "be = ucast (gi_block_elems i)" and "bb = ucast (gi_block_bytes i)"
  have pos: "0 < gi_block_elems i" "0 < gi_block_bytes i" using tensor_type_pos [OF Some] by auto
  then have ne: "gi_block_elems i \<noteq> 0" by auto
  from pos have be: "unat be = unat (gi_block_elems i)" "0 < unat be" and bb: "unat bb = unat (gi_block_bytes i)" "0 < unat bb"
    by (simp_all add: be_def bb_def unat_gt_0)
  define bl where "bl = el div be + (if el mod be \<noteq> 0 then 1 else 0)"
  have mod0: "el mod be = 0 \<longleftrightarrow> unat el mod unat be = 0"
    by (metis unat_mod unat_eq_zero)
  have lt: "unat el div unat be + (if unat el mod unat be = 0 then 0 else 1) < 2 ^ 64"
  proof (cases "unat be = 1")
    case False
    then have "unat el div unat be \<le> unat el div 2" using be by (intro div_le_mono2) auto
    then show ?thesis using unat_u64_bound [of el] by auto
  qed (use unat_u64_bound [of el] in simp)
  have bl: "unat bl = (unat el + unat be - 1) div unat be"
  proof -
    have "unat bl = unat el div unat be + (if unat el mod unat be = 0 then 0 else 1)"
      using lt by (auto simp: bl_def mod0 unat_div unat_add_exact)
    then show ?thesis using ceil_blocks [OF be(2)] by simp
  qed
  have "(bl > u64_max div bb) \<longleftrightarrow> \<not> unat bl * unat bb < 2 ^ 64"
  proof -
    have "(bl > u64_max div bb) \<longleftrightarrow> (2 ^ 64 - 1) div unat bb < unat bl"
      by (simp add: word_less_nat_alt unat_div unat_u64_max)
    also have "\<dots> \<longleftrightarrow> \<not> unat bl * unat bb \<le> 2 ^ 64 - 1" by (simp only: less_eq_div_iff_mult_less_eq [OF bb(2), symmetric] not_le)
    finally show ?thesis by auto
  qed
  moreover have "unat (bl * bb) = unat bl * unat bb" if "unat bl * unat bb < 2 ^ 64"
    using that by (simp add: unat_word_ariths)
  moreover have "tensor_nbytes type el = (if bl > u64_max div bb then None else Some (bl * bb))"
    by (simp only: tensor_nbytes_def Some option.case Let_def be_def bb_def bl_def ne if_False)
  moreover have "tensor_bytes_spec type (unat el) = (if unat bl * unat bb < 2 ^ 64 then Some (unat bl * unat bb) else None)"
    by (simp only: tensor_bytes_spec_def Some option.case Let_def bl be(1) bb(1))
  ultimately show ?thesis by simp
qed (simp add: tensor_nbytes_def tensor_bytes_spec_def)

lemma place_tensors_Inr:
  assumes "place_tensors dp fs mx ts = Inr (ts', mx')"
  shows "ts' = map (\<lambda>t. t\<lparr>t_abs_offset := dp + t_rel_offset t\<rparr>) ts" (is ?a)
    and "\<forall>t\<in>set ts. unat (dp + t_rel_offset t) = unat dp + unat (t_rel_offset t) \<and> t_bytes t \<le> mx' \<and>
      (t_bytes t \<noteq> 0 \<longrightarrow> unat dp + unat (t_rel_offset t) + unat (t_bytes t) \<le> unat fs)" (is ?b)
    and "mx \<le> mx'" (is ?c)
proof -
  have "?a \<and> ?b \<and> ?c" using assms
  proof (induction ts arbitrary: mx ts')
    case (Cons t ts)
    define mx1 where "mx1 = (if t_bytes t > mx then t_bytes t else mx)"
    let ?abs = "dp + t_rel_offset t"
    have no: "\<not> u64_max - dp < t_rel_offset t"
      and inside: "\<not> (t_bytes t \<noteq> 0 \<and> (?abs > fs \<or> t_bytes t > fs - ?abs))"
      using Cons.prems by (auto simp: Let_def split: if_splits)
    with Cons.prems obtain ts1 where p: "place_tensors dp fs mx1 ts = Inr (ts1, mx')"
      and ts': "ts' = t\<lparr>t_abs_offset := ?abs\<rparr> # ts1"
      by (auto simp: Let_def mx1_def split: if_splits sum.splits prod.splits)
    have abs: "unat ?abs = unat dp + unat (t_rel_offset t)"
      using no by (intro unat_add_exact) (simp add: u64_overflow_iff)
    have "unat ?abs + unat (t_bytes t) \<le> unat fs" if "t_bytes t \<noteq> 0"
    proof -
      have "?abs \<le> fs" "t_bytes t \<le> fs - ?abs" using inside that by (auto simp: not_less)
      then show ?thesis by (simp add: word_le_nat_alt unat_sub)
    qed
    moreover have "mx \<le> mx1" "t_bytes t \<le> mx1" by (auto simp: mx1_def)
    ultimately show ?case using Cons.IH [OF p] ts' abs by auto
  qed simp
  then show ?a ?b ?c by auto
qed

lemma place_tensors_more:
  assumes "place_tensors dp fs mx ts = Inr r" "fs \<le> fs'"
  shows "place_tensors dp fs' mx ts = Inr r"
  using assms
proof (induction ts arbitrary: mx r)
  case (Cons t ts)
  let ?abs = "dp + t_rel_offset t"
  have "?abs \<le> fs \<Longrightarrow> t_bytes t \<le> fs - ?abs \<Longrightarrow> ?abs \<le> fs' \<and> t_bytes t \<le> fs' - ?abs"
    using Cons.prems(2) by (auto simp: word_le_nat_alt unat_sub)
  then show ?case using Cons.prems Cons.IH
    by (auto simp: Let_def not_less [symmetric] split: if_splits sum.splits prod.splits)
qed simp

lemma align_up_exact:
  assumes "a \<noteq> 0" "unat v + unat a < 2 ^ 64"
  shows "unat a dvd unat (align_up v a)" "unat v \<le> unat (align_up v a)" "unat (align_up v a) < unat v + unat a"
proof -
  have a: "0 < unat a" using assms by (simp add: unat_gt_0)
  have r: "unat (v mod a) = unat v mod unat a" "unat v mod unat a < unat a" using a by (simp_all add: unat_mod)
  have z: "unat v mod unat a = 0 \<longleftrightarrow> v mod a = 0" using r by (metis unat_eq_zero)
  have q: "unat v = unat a * (unat v div unat a) + unat v mod unat a" by simp
  have "unat a dvd unat (align_up v a) \<and> unat v \<le> unat (align_up v a) \<and> unat (align_up v a) < unat v + unat a"
  proof (cases "v mod a = 0")
    case True
    then show ?thesis using z a by (simp add: align_up_def dvd_eq_mod_eq_0)
  next
    case False
    have s: "unat (v + a) = unat v + unat a" using assms by (intro unat_add_exact)
    then have "v mod a \<le> v + a" using r by (simp add: word_le_nat_alt)
    then have u: "unat (align_up v a) = unat v + unat a - unat v mod unat a"
      using False r s by (simp add: align_up_def Let_def unat_sub)
    also have "\<dots> = unat a * (unat v div unat a) + unat a" using q by linarith
    finally have "unat a dvd unat (align_up v a)" by simp
    then show ?thesis using u r False z by linarith
  qed
  then show "unat a dvd unat (align_up v a)" "unat v \<le> unat (align_up v a)" "unat (align_up v a) < unat v + unat a"
    by blast+
qed

subsection \<open>A parsed model\<close>

text \<open>
  A descriptor: one to eight dimensions, the element count their exact product, the byte count that of whole
  blocks, or zero where the type is unknown or the count does not fit.
\<close>

definition desc_ok :: "ds4_tensor \<Rightarrow> bool" where
  "desc_ok t \<longleftrightarrow> 1 \<le> unat (t_ndim t) \<and> unat (t_ndim t) \<le> 8 \<and> length (t_dim t) = unat (t_ndim t) \<and>
     unat (t_elements t) = prod_list (map unat (t_dim t)) \<and>
     unat (t_bytes t) = (case tensor_bytes_spec (t_type t) (unat (t_elements t)) of Some k \<Rightarrow> k | None \<Rightarrow> 0)"

text \<open>A tensor of a model: its data starts at its offset from the data section and lies inside the file.\<close>

definition tensor_ok :: "ds4_model \<Rightarrow> ds4_tensor \<Rightarrow> bool" where
  "tensor_ok m t \<longleftrightarrow> desc_ok t \<and> unat (t_abs_offset t) = unat (m_tensor_data_pos m) + unat (t_rel_offset t) \<and>
     (t_bytes t \<noteq> 0 \<longrightarrow> unat (t_abs_offset t) + unat (t_bytes t) \<le> length (m_map m)) \<and> t_bytes t \<le> m_max_tensor_bytes m"

lemma parse_tensor_ok:
  assumes "parse_tensor c = Inr (t, c')"
  shows "desc_ok t"
proof -
  from assms obtain name ndim dims el type rel c1 c2 where nd: "ndim \<noteq> 0" "\<not> ndim > DS4_MAX_DIMS"
    and d: "parse_dims (unat ndim) [] 1 c1 = Inr ((dims, el), c2)"
    and t: "t = \<lparr>t_name = name, t_ndim = ndim, t_dim = dims, t_type = type, t_rel_offset = rel, t_abs_offset = 0,
              t_elements = el, t_bytes = (case tensor_nbytes type el of Some b \<Rightarrow> b | None \<Rightarrow> 0)\<rparr>"
    by (auto simp: parse_tensor_def bindE_Inr split: if_splits)
  have "length dims = unat ndim" "unat el = prod_list (map unat dims)" using parse_dims_exact [OF d] by auto
  moreover have "1 \<le> unat ndim" "unat ndim \<le> 8"
    using nd unat_gt_0 [of ndim] by (auto simp: DS4_MAX_DIMS_def word_less_nat_alt not_less)
  moreover have "unat (case tensor_nbytes type el of Some b \<Rightarrow> b | None \<Rightarrow> 0) =
      (case tensor_bytes_spec type (unat el) of Some k \<Rightarrow> k | None \<Rightarrow> 0)"
    by (simp add: tensor_nbytes_spec [symmetric] split: option.splits)
  ultimately show ?thesis by (simp add: desc_ok_def t)
qed

lemma parse_tensor_list_ok:
  "parse_tensor_list n c = Inr (ts, c') \<Longrightarrow> length ts = n \<and> (\<forall>t\<in>set ts. desc_ok t)"
  by (induction n arbitrary: c ts) (auto simp: bindE_Inr dest: parse_tensor_ok)

definition align_ok :: "u64 \<Rightarrow> bool" where
  "align_ok a \<longleftrightarrow> a \<noteq> 0 \<and> unat a < 2 ^ 32"

lemma read_kv_align: "read_kv al c = Inr ((kv, al'), c') \<Longrightarrow> align_ok al \<Longrightarrow> align_ok al'"
proof -
  have "align_ok (ucast a)" if "a \<noteq> 0" for a :: u32
    using that unat_u32_bound [of a] by (simp add: align_ok_def unat_eq_zero [symmetric])
  then show "read_kv al c = Inr ((kv, al'), c') \<Longrightarrow> align_ok al \<Longrightarrow> align_ok al'"
    by (auto simp: read_kv_def bindE_Inr split: if_splits)
qed

lemma read_kvs_align: "read_kvs n al c = Inr ((kvs, al'), c') \<Longrightarrow> align_ok al \<Longrightarrow> align_ok al' \<and> length kvs = n"
  by (induction n arbitrary: al c kvs) (auto simp: bindE_Inr dest: read_kv_align)

lemma read_header_align: "read_header alloc c = Inr ((nt, nk, kvs, al), c') \<Longrightarrow> align_ok al \<and> length kvs = unat nk"
proof -
  have "align_ok 32" by (simp add: align_ok_def)
  then show "read_header alloc c = Inr ((nt, nk, kvs, al), c') \<Longrightarrow> align_ok al \<and> length kvs = unat nk"
    by (auto simp: read_header_def bindE_Inr split: if_splits dest: read_kvs_align)
qed

text \<open>The steps of a successful parse.\<close>

lemma model_parse_shard_Inr:
  assumes "length b < 2 ^ 64"
  shows "model_parse_shard alloc b = Inr m \<longleftrightarrow>
    (\<exists>nt nk kvs al c ts c' ts' mx. read_header alloc (cursor_on b) = Inr ((nt, nk, kvs, al), c) \<and> alloc nt \<and>
       parse_tensor_list (unat nt) c = Inr (ts, c') \<and>
       place_tensors (align_up (cu_pos c') al) (of_nat (length b)) 0 ts = Inr (ts', mx) \<and>
       m = (header_model b (nt, nk, kvs, al))
         \<lparr>m_tensors := ts', m_tensor_data_pos := align_up (cu_pos c') al, m_max_tensor_bytes := mx\<rparr>)"
proof (cases "read_header alloc (cursor_on b)")
  case (Inr p)
  then obtain nt nk kvs al c where 1: "read_header alloc (cursor_on b) = Inr ((nt, nk, kvs, al), c)" by (metis prod.exhaust)
  have fields: "m_n_tensors (header_model b (nt, nk, kvs, al)) = nt" "m_alignment (header_model b (nt, nk, kvs, al)) = al"
    "m_size (header_model b (nt, nk, kvs, al)) = of_nat (length b)" "m_max_tensor_bytes (header_model b (nt, nk, kvs, al)) = 0"
    by (simp_all add: header_model_def model_on_def)
  show ?thesis
  proof (cases "parse_tensor_list (unat nt) c")
    case (Inr q)
    then obtain ts c' where 2: "parse_tensor_list (unat nt) c = Inr (ts, c')" by (cases q) auto
    show ?thesis
      by (cases "place_tensors (align_up (cu_pos c') al) (of_nat (length b)) 0 ts")
        (auto simp: model_parse_shard_def parse_header_read [OF assms] 1 2 parse_tensors_def fields Let_def)
  qed (simp add: model_parse_shard_def parse_header_read [OF assms] 1 parse_tensors_def fields)
qed (simp add: model_parse_shard_def parse_header_read [OF assms])

text \<open>A parse that succeeds does so, with the same result, when more bytes follow the file.\<close>

lemma model_parse_extend:
  assumes "model_parse_shard alloc b = Inr m" "length (b @ e) < 2 ^ 64"
  shows "model_parse_shard alloc (b @ e) = Inr (m\<lparr>m_map := b @ e, m_size := of_nat (length (b @ e))\<rparr>)"
proof -
  have b: "length b < 2 ^ 64" using assms(2) by simp
  from assms(1) obtain nt nk kvs al c ts c' ts' mx where
    h: "read_header alloc (cursor_on b) = Inr ((nt, nk, kvs, al), c)" and a: "alloc nt" and
    l: "parse_tensor_list (unat nt) c = Inr (ts, c')" and
    p: "place_tensors (align_up (cu_pos c') al) (of_nat (length b)) 0 ts = Inr (ts', mx)" and
    m: "m = (header_model b (nt, nk, kvs, al))\<lparr>m_tensors := ts', m_tensor_data_pos := align_up (cu_pos c') al, m_max_tensor_bytes := mx\<rparr>"
    unfolding model_parse_shard_Inr [OF b] by blast
  have kc: "wf_cursor c" "cu_base c = b" using rh.keeps [OF wf_cursor_on [OF b] h] by auto
  have "read_header alloc (cursor_on (b @ e)) = Inr ((nt, nk, kvs, al), extend e c)"
    using rh.extends [OF wf_cursor_on [OF b] h, of e] assms(2) by simp
  moreover have "parse_tensor_list (unat nt) (extend e c) = Inr (ts, extend e c')"
    using ptl.extends [OF kc(1) l] kc(2) assms(2) by simp
  moreover have "(of_nat (length b) :: u64) \<le> of_nat (length (b @ e))"
    unfolding word_le_nat_alt unat_of_length [OF b] unat_of_length [OF assms(2)] by simp
  then have "place_tensors (align_up (cu_pos (extend e c')) al) (of_nat (length (b @ e))) 0 ts = Inr (ts', mx)"
    using place_tensors_more [OF p] by (simp only: extend_simps)
  moreover have "m\<lparr>m_map := b @ e, m_size := of_nat (length (b @ e))\<rparr> = (header_model (b @ e) (nt, nk, kvs, al))
      \<lparr>m_tensors := ts', m_tensor_data_pos := align_up (cu_pos (extend e c')) al, m_max_tensor_bytes := mx\<rparr>"
    by (simp add: m header_model_def model_on_def)
  ultimately show ?thesis unfolding model_parse_shard_Inr [OF assms(2)] using a by blast
qed

lemma unat_header_model:
  "m_map (header_model b x) = b" "m_n_tensors (header_model b (nt, nk, kvs, al)) = nt" "m_n_kv (header_model b (nt, nk, kvs, al)) = nk"
  "m_kv (header_model b (nt, nk, kvs, al)) = kvs" "m_alignment (header_model b (nt, nk, kvs, al)) = al"
  by (simp_all add: header_model_def split_def)

text \<open>Where the directory ends: the position of the cursor behind the last descriptor.\<close>

definition directory_end :: "(u64 \<Rightarrow> bool) \<Rightarrow> bytes \<Rightarrow> u64 option" where
  "directory_end alloc b =
     (case parse_header alloc b of
        Inl _ \<Rightarrow> None
      | Inr (m, c) \<Rightarrow> (case parse_tensor_list (unat (m_n_tensors m)) c of Inl _ \<Rightarrow> None | Inr (_, c') \<Rightarrow> Some (cu_pos c')))"

text \<open>
  The size of a tensor is unknown when its type has no blocks or its size does not fit in 64 bits. Only then,
  or for a tensor without elements, is the size zero.
\<close>

definition size_unknown :: "ds4_tensor \<Rightarrow> bool" where
  "size_unknown t \<longleftrightarrow> tensor_bytes_spec (t_type t) (unat (t_elements t)) = None"

lemma tensor_bytes_spec_zero: "tensor_bytes_spec type n = Some 0 \<longleftrightarrow> n = 0 \<and> tensor_type type \<noteq> None"
proof (cases "tensor_type type")
  case (Some i)
  then have "gi_block_elems i \<noteq> 0" "gi_block_bytes i \<noteq> 0" using tensor_type_pos [OF Some] by auto
  then have pos: "0 < unat (gi_block_elems i)" "0 < unat (gi_block_bytes i)" by (simp_all add: unat_gt_0)
  then have "(n + unat (gi_block_elems i) - 1) div unat (gi_block_elems i) = 0 \<longleftrightarrow> n = 0"
    by (subst div_eq_0_iff) auto
  then show ?thesis using Some pos by (auto simp: tensor_bytes_spec_def Let_def)
qed (simp add: tensor_bytes_spec_def)

lemma desc_ok_zero: "desc_ok t \<Longrightarrow> t_bytes t = 0 \<longleftrightarrow> t_elements t = 0 \<or> size_unknown t"
proof -
  assume "desc_ok t"
  then have "t_bytes t = 0 \<longleftrightarrow> tensor_bytes_spec (t_type t) (unat (t_elements t)) \<in> {None, Some 0}"
    by (auto simp: desc_ok_def unat_eq_zero [symmetric] split: option.splits)
  moreover have "tensor_bytes_spec (t_type t) 0 \<in> {None, Some 0}"
    using tensor_bytes_spec_zero [of "t_type t" 0] by (cases "tensor_type (t_type t)") (auto simp: tensor_bytes_spec_def)
  ultimately show ?thesis
    using tensor_bytes_spec_zero [of "t_type t" "unat (t_elements t)"] by (auto simp: size_unknown_def unat_eq_zero)
qed

lemma model_parse_bounds:
  assumes "model_parse_shard alloc b = Inr m" "length b < 2 ^ 63"
  shows "length (m_kv m) = unat (m_n_kv m)" "length (m_tensors m) = unat (m_n_tensors m)"
    "m_alignment m \<noteq> 0" "unat (m_alignment m) dvd unat (m_tensor_data_pos m)"
    "\<exists>e. directory_end alloc b = Some e \<and> unat e \<le> length b \<and> unat e \<le> unat (m_tensor_data_pos m) \<and>
       unat (m_tensor_data_pos m) < unat e + unat (m_alignment m)"
    "\<forall>t\<in>set (m_tensors m). tensor_ok m t" "m_map m = b"
proof -
  have b: "length b < 2 ^ 64" using assms(2) by simp
  from assms(1) obtain nt nk kvs al c ts c' ts' mx where
    h: "read_header alloc (cursor_on b) = Inr ((nt, nk, kvs, al), c)" and
    l: "parse_tensor_list (unat nt) c = Inr (ts, c')" and
    p: "place_tensors (align_up (cu_pos c') al) (of_nat (length b)) 0 ts = Inr (ts', mx)" and
    m: "m = (header_model b (nt, nk, kvs, al))\<lparr>m_tensors := ts', m_tensor_data_pos := align_up (cu_pos c') al, m_max_tensor_bytes := mx\<rparr>"
    unfolding model_parse_shard_Inr [OF b] by blast
  have al: "al \<noteq> 0" "unat al < 2 ^ 32" "length kvs = unat nk" using read_header_align [OF h] by (auto simp: align_ok_def)
  have ts: "length ts = unat nt" "\<forall>t\<in>set ts. desc_ok t" using parse_tensor_list_ok [OF l] by auto
  have kc: "wf_cursor c" "cu_base c = b" using rh.keeps [OF wf_cursor_on [OF b] h] by auto
  have pos: "unat (cu_pos c') \<le> length b" using ptl.keeps [OF kc(1) l] kc by (auto simp: wf_cursor_def)
  then have "unat (cu_pos c') + unat al < 2 ^ 64" using al(2) assms(2) by simp
  note a = align_up_exact [OF al(1) this]
  note pl = place_tensors_Inr [OF p]
  have dir: "directory_end alloc b = Some (cu_pos c')"
    by (simp add: directory_end_def parse_header_read [OF b] h l unat_header_model)
  have "tensor_ok m t" if t: "t \<in> set ts'" for t
  proof -
    from t pl(1) obtain t0 where t0: "t0 \<in> set ts" "t = t0\<lparr>t_abs_offset := align_up (cu_pos c') al + t_rel_offset t0\<rparr>" by auto
    then have "desc_ok t" using ts(2) by (auto simp: desc_ok_def)
    then show ?thesis using t0 pl(2) unat_of_length [OF b] by (auto simp: tensor_ok_def m unat_header_model)
  qed
  then show "\<forall>t\<in>set (m_tensors m). tensor_ok m t" by (simp add: m)
  show "length (m_kv m) = unat (m_n_kv m)" "length (m_tensors m) = unat (m_n_tensors m)"
    "m_alignment m \<noteq> 0" "unat (m_alignment m) dvd unat (m_tensor_data_pos m)" "m_map m = b"
    using al ts(1) pl(1) a by (auto simp: m unat_header_model)
  show "\<exists>e. directory_end alloc b = Some e \<and> unat e \<le> length b \<and> unat e \<le> unat (m_tensor_data_pos m) \<and>
       unat (m_tensor_data_pos m) < unat e + unat (m_alignment m)"
    using dir pos a by (simp add: m unat_header_model)
qed

lemma model_parse_tensor_inside:
  assumes "model_parse_shard alloc b = Inr m" "length b < 2 ^ 63" "t \<in> set (m_tensors m)" "t_bytes t \<noteq> 0"
  shows "unat (t_abs_offset t) + unat (t_bytes t) \<le> length b"
  using model_parse_bounds(6,7) [OF assms(1,2)] assms(3,4) by (auto simp: tensor_ok_def)

text \<open>
  C17. What a model file that parses guarantees. The directory has as many entries as the header announced and
  ends inside the file; the data section starts at the first multiple of the alignment that is not before the end
  of the directory. Each tensor has one to eight dimensions, their exact product as the number of
  elements, and an offset that is the start of the data section plus the one of the descriptor, both
  without wrap-around. Its size is that of the whole blocks that many elements take, and zero only for a
  tensor without elements or of unknown size, where the type is not in the table or the size exceeds 64
  bits: the byte range of every other tensor lies inside the file. Nothing is checked of where a tensor of
  unknown size starts.
\<close>

theorem model_parse_in_bounds:
  assumes "model_parse_shard alloc b = Inr m" "length b < 2 ^ 63"
  shows "length (m_kv m) = unat (m_n_kv m) \<and> length (m_tensors m) = unat (m_n_tensors m) \<and> m_alignment m \<noteq> 0 \<and>
    (\<exists>e. directory_end alloc b = Some e \<and> unat e \<le> length b \<and> unat e \<le> unat (m_tensor_data_pos m) \<and>
       unat (m_tensor_data_pos m) < unat e + unat (m_alignment m) \<and> unat (m_alignment m) dvd unat (m_tensor_data_pos m)) \<and>
    (\<forall>t\<in>set (m_tensors m). 1 \<le> unat (t_ndim t) \<and> unat (t_ndim t) \<le> 8 \<and> length (t_dim t) = unat (t_ndim t) \<and>
       unat (t_elements t) = prod_list (map unat (t_dim t)) \<and>
       unat (t_abs_offset t) = unat (m_tensor_data_pos m) + unat (t_rel_offset t) \<and>
       (if size_unknown t then t_bytes t = 0
        else tensor_bytes_spec (t_type t) (unat (t_elements t)) = Some (unat (t_bytes t)) \<and>
          (t_elements t \<noteq> 0 \<longrightarrow> t_bytes t \<noteq> 0 \<and> unat (t_abs_offset t) + unat (t_bytes t) \<le> length b)) \<and>
       t_bytes t \<le> m_max_tensor_bytes m)"
proof -
  note B = model_parse_bounds [OF assms]
  have "if size_unknown t then t_bytes t = 0
      else tensor_bytes_spec (t_type t) (unat (t_elements t)) = Some (unat (t_bytes t)) \<and>
        (t_elements t \<noteq> 0 \<longrightarrow> t_bytes t \<noteq> 0 \<and> unat (t_abs_offset t) + unat (t_bytes t) \<le> length b)"
    if "tensor_ok m t" for t
    using that desc_ok_zero [of t] B(7) by (auto simp: tensor_ok_def desc_ok_def size_unknown_def)
  then show ?thesis using B(1-6) unfolding tensor_ok_def desc_ok_def by blast
qed

text \<open>A file with one 2 by 3 tensor of 32-bit floats: the directory ends at 65, the data section starts at 96.\<close>

definition small_gguf :: bytes where
  "small_gguf = [0x47, 0x47, 0x55, 0x46, 3, 0, 0, 0] @ [1, 0, 0, 0, 0, 0, 0, 0] @ replicate 8 0 @
     [1, 0, 0, 0, 0, 0, 0, 0, 0x77] @ [2, 0, 0, 0] @ [2, 0, 0, 0, 0, 0, 0, 0] @ [3, 0, 0, 0, 0, 0, 0, 0] @
     [0, 0, 0, 0] @ replicate 8 0 @ replicate 31 0 @ replicate 24 7"

definition small_model :: ds4_model where
  "small_model = (model_on small_gguf)\<lparr>m_version := 3, m_n_tensors := 1, m_alignment := 32, m_tensor_data_pos := 96,
     m_max_tensor_bytes := 24,
     m_tensors := [\<lparr>t_name = [0x77], t_ndim = 2, t_dim = [2, 3], t_type = 0, t_rel_offset = 0, t_abs_offset = 96,
       t_elements = 6, t_bytes = 24\<rparr>]\<rparr>"

lemma small_gguf_parses: "model_parse_shard (\<lambda>_. True) small_gguf = Inr small_model"
  by code_simp

theorem model_parse_in_bounds_witness:
  "directory_end (\<lambda>_. True) small_gguf = Some 65 \<and> unat (m_tensor_data_pos small_model) < 65 + 32 \<and>
   length (m_tensors small_model) = 1 \<and>
   list_all (\<lambda>t. t_bytes t = 24 \<and> unat (t_abs_offset t) + unat (t_bytes t) \<le> length small_gguf) (m_tensors small_model)"
proof -
  have e: "directory_end (\<lambda>_. True) small_gguf = Some 65" by code_simp
  have "tensor_type 0 = Some (type_info ''f32'' 1 4)" by code_simp
  then have "list_all (\<lambda>t. \<not> size_unknown t \<and> t_elements t \<noteq> 0) (m_tensors small_model)"
    by (simp add: size_unknown_def tensor_bytes_spec_def small_model_def type_info_def)
  moreover have "length small_gguf < 2 ^ 63" "m_alignment small_model = 32" by (simp_all add: small_gguf_def small_model_def)
  ultimately have "unat (m_tensor_data_pos small_model) < 65 + 32 \<and>
      (\<forall>t\<in>set (m_tensors small_model). unat (t_abs_offset t) + unat (t_bytes t) \<le> length small_gguf)"
    using e model_parse_in_bounds [OF small_gguf_parses] by (auto simp: list_all_iff)
  moreover have "length (m_tensors small_model) = 1" "list_all (\<lambda>t. t_bytes t = 24) (m_tensors small_model)"
    by (simp_all add: small_model_def)
  ultimately show ?thesis using e unfolding list_all_iff by blast
qed

end
