(* ===== verification/Gguf_Roundtrip.thy ===== *)
theory Gguf_Roundtrip
  imports Gguf_Parse
begin

section \<open>What a model file says and what is read from it\<close>

text \<open>
  The repository only reads model files. Here the format is written down as a writer, the values of the
  metadata as a datatype, and the parser is shown to recover what was written: every directory is accepted, each key is
  found with its value, each tensor with its name, shape and place.
\<close>

datatype gval = Scalar u32 bytes | Str bytes | Arr u32 "gval list"

fun vtype :: "gval \<Rightarrow> u32" where
  "vtype (Scalar ty _) = ty"
| "vtype (Str _) = GGUF_VALUE_STRING"
| "vtype (Arr _ _) = GGUF_VALUE_ARRAY"

fun put_value :: "gval \<Rightarrow> bytes" where
  "put_value (Scalar _ b) = b"
| "put_value (Str s) = kv_le_put64 (of_nat (length s)) @ s"
| "put_value (Arr ty xs) = le_put32 ty @ kv_le_put64 (of_nat (length xs)) @ concat (map put_value xs)"

text \<open>The nesting that \<open>skip_value\<close> counts: arrays of scalars are passed over in one step.\<close>

fun vdepth :: "gval \<Rightarrow> nat" where
  "vdepth (Arr ty xs) = (if scalar_value_size ty \<noteq> 0 then 0 else foldr (\<lambda>x n. max (Suc (vdepth x)) n) xs 0)"
| "vdepth _ = 0"

fun wf_value :: "gval \<Rightarrow> bool" where
  "wf_value (Scalar ty b) = (scalar_value_size ty \<noteq> 0 \<and> length b = unat (scalar_value_size ty))"
| "wf_value (Str s) = (length s < 2 ^ 64)"
| "wf_value (Arr ty xs) = (length xs < 2 ^ 64 \<and> list_all (\<lambda>x. vtype x = ty \<and> wf_value x) xs)"

subsection \<open>Reading what stands at a cursor\<close>

definition stands :: "cursor \<Rightarrow> bytes \<Rightarrow> bool" where
  "stands c bs \<longleftrightarrow> wf_cursor c \<and> drop (unat (cu_pos c)) (cu_base c) = bs"

definition adv :: "nat \<Rightarrow> cursor \<Rightarrow> cursor" where
  "adv n c = c\<lparr>cu_pos := cu_pos c + of_nat n\<rparr>"

lemma adv_adv [simp]: "adv n (adv m c) = adv (m + n) c"
  by (simp add: adv_def add.assoc)

lemma adv_simps [simp]: "cu_base (adv n c) = cu_base c" "cu_size (adv n c) = cu_size c"
  by (simp_all add: adv_def)

lemma stands_length: "stands c bs \<Longrightarrow> unat (cu_pos c) + length bs = length (cu_base c)"
  by (auto simp: stands_def wf_cursor_def)

lemma stands_bound: "stands c bs \<Longrightarrow> length bs < 2 ^ 64"
  using unat_u64_bound [of "cu_size c"] by (auto simp: stands_def wf_cursor_def)

lemma unat_adv:
  assumes "stands c (x @ rest)"
  shows "unat (cu_pos (adv (length x) c)) = unat (cu_pos c) + length x"
proof -
  have n: "unat (of_nat (length x) :: u64) = length x" using stands_bound [OF assms] by (intro unat_of_length) simp
  then show ?thesis
    using assms stands_length [OF assms] by (simp add: adv_def) (subst unat_pos_add; simp add: stands_def n)
qed

lemma stands_adv: "stands c (x @ rest) \<Longrightarrow> stands (adv (length x) c) rest"
proof -
  assume s: "stands c (x @ rest)"
  then have d: "drop (unat (cu_pos c)) (cu_base c) = x @ rest" by (simp add: stands_def)
  have "drop (unat (cu_pos c) + length x) (cu_base c) = drop (length x) (drop (unat (cu_pos c)) (cu_base c))"
    by (simp add: add.commute)
  also have "\<dots> = rest" by (simp add: d)
  finally show "stands (adv (length x) c) rest"
    using s stands_length [OF s] unat_adv [OF s] by (simp add: stands_def wf_cursor_def)
qed

lemma cursor_has_stands: "stands c bs \<Longrightarrow> cursor_has c n \<longleftrightarrow> unat n \<le> length bs"
  using stands_length [of c bs] by (auto simp: stands_def cursor_has_iff)

lemma cursor_read_stands:
  assumes "stands c (x @ rest)" "unat n = length x"
  shows "cursor_read c n = Inr (x, adv (length x) c)"
  using assms cursor_has_stands [OF assms(1), of n]
  by (simp add: cursor_read_def stands_def adv_def) (simp flip: assms(2))

lemma cursor_skip_stands:
  assumes "stands c (x @ rest)" "unat n = length x"
  shows "cursor_skip c n = Inr ((), adv (length x) c)"
  using assms cursor_has_stands [OF assms(1), of n]
  by (simp add: cursor_skip_def adv_def) (simp flip: assms(2))

lemma cursor_u32_stands: "stands c (le_put32 v @ rest) \<Longrightarrow> cursor_u32 c = Inr (v, adv 4 c)"
  by (simp add: cursor_u32_def cursor_read_stands le_get_put32)

lemma cursor_u64_stands: "stands c (kv_le_put64 v @ rest) \<Longrightarrow> cursor_u64 c = Inr (v, adv 8 c)"
  by (simp add: cursor_u64_def cursor_read_stands kv_le_get_put64)

definition put_string :: "bytes \<Rightarrow> bytes" where
  "put_string s = kv_le_put64 (of_nat (length s)) @ s"

lemma length_put_string [simp]: "length (put_string s) = 8 + length s"
  by (simp add: put_string_def)

lemma cursor_string_stands:
  assumes "stands c (put_string s @ rest)"
  shows "cursor_string c = Inr (s, adv (8 + length s) c)"
proof -
  have 1: "stands c (kv_le_put64 (of_nat (length s)) @ s @ rest)" using assms by (simp add: put_string_def)
  then have 2: "stands (adv 8 c) (s @ rest)" using stands_adv [OF 1] by simp
  have n: "unat (of_nat (length s) :: u64) = length s" using stands_bound [OF 2] by (intro unat_of_length) simp
  show ?thesis using 2 cursor_has_stands [OF 2] n
    by (simp add: cursor_string_def cursor_u64_stands [OF 1] stands_def adv_def)
qed

lemma skip_items_stands:
  assumes "\<And>x c rest. x \<in> set xs \<Longrightarrow> stands c (put_value x @ rest) \<Longrightarrow> skip_value c ty d = Inr ((), adv (length (put_value x)) c)"
    and "stands c (concat (map put_value xs) @ rest)"
  shows "skip_items (length xs) c ty d = Inr ((), adv (length (concat (map put_value xs))) c)"
  using assms
proof (induction xs arbitrary: c)
  case Nil
  then show ?case by (subst skip_items.simps) (simp add: adv_def)
next
  case (Cons x xs)
  have s: "stands c (put_value x @ concat (map put_value xs) @ rest)" using Cons.prems(2) by simp
  show ?case using Cons.IH [OF Cons.prems(1) stands_adv [OF s]] Cons.prems(1) [OF _ s]
    by (subst skip_items.simps) simp
qed

lemma scalar_items:
  assumes "scalar_value_size ty \<noteq> 0" "list_all (\<lambda>x. vtype x = ty \<and> wf_value x) xs"
  shows "length (concat (map put_value xs)) = length xs * unat (scalar_value_size ty)"
  using assms(2)
proof (induction xs)
  case (Cons x xs)
  have "length (put_value x) = unat (scalar_value_size ty)"
    using Cons.prems assms(1) by (cases x) (auto simp: scalar_value_size_def split: if_splits)
  then show ?case using Cons by simp
qed simp

lemma vdepth_item: "x \<in> set xs \<Longrightarrow> scalar_value_size ty = 0 \<Longrightarrow> Suc (vdepth x) \<le> vdepth (Arr ty xs)"
  by (induction xs) auto

lemma len_guard:
  assumes "n * unat k < 2 ^ 64" "k \<noteq> 0" "n < 2 ^ 64"
  shows "\<not> u64_max div k < of_nat n" "unat (of_nat n * k) = n * unat k"
proof -
  have k: "0 < unat k" using assms(2) by (simp add: unat_gt_0)
  have n: "unat (of_nat n :: u64) = n" using assms(3) by (rule unat_of_length)
  have "n \<le> (2 ^ 64 - 1) div unat k" using assms(1) unfolding less_eq_div_iff_mult_less_eq [OF k] by simp
  then show *: "\<not> u64_max div k < of_nat n" by (simp add: word_less_nat_alt unat_div n unat_u64_max)
  then show "unat (of_nat n * k) = n * unat k" using unat_mult_guard [of k "of_nat n"] n by simp
qed

lemma skip_value_stands:
  assumes "wf_value v" "d + vdepth v \<le> 8" "stands c (put_value v @ rest)"
  shows "skip_value c (vtype v) d = Inr ((), adv (length (put_value v)) c)"
  using assms
proof (induction v arbitrary: d c rest)
  case (Scalar ty b)
  then show ?case by (subst skip_value.simps) (simp add: cursor_skip_stands)
next
  case (Str s)
  then have "cursor_string c = Inr (s, adv (8 + length s) c)"
    by (intro cursor_string_stands) (simp add: put_string_def)
  then show ?case using Str by (subst skip_value.simps) (simp add: scalar_value_size_def)
next
  case (Arr ty xs)
  let ?items = "concat (map put_value xs)"
  have 1: "stands c (le_put32 ty @ kv_le_put64 (of_nat (length xs)) @ ?items @ rest)" using Arr.prems by simp
  have 2: "stands (adv 4 c) (kv_le_put64 (of_nat (length xs)) @ ?items @ rest)" using stands_adv [OF 1] by simp
  have 3: "stands (adv 12 c) (?items @ rest)" using stands_adv [OF 2] by simp
  have n: "unat (of_nat (length xs) :: u64) = length xs" using Arr.prems by (intro unat_of_length) simp
  have sz: "scalar_value_size GGUF_VALUE_ARRAY = 0" by (simp add: scalar_value_size_def)
  show ?case
  proof (cases "scalar_value_size ty = 0")
    case False
    have len: "length ?items = length xs * unat (scalar_value_size ty)"
      using scalar_items [OF False] Arr.prems by simp
    have "length xs * unat (scalar_value_size ty) < 2 ^ 64" using stands_bound [OF 3] len by simp
    note g = len_guard [OF this False]
    then show ?thesis using Arr.prems False len cursor_skip_stands [OF 3]
      by (subst skip_value.simps) (simp add: sz cursor_u32_stands [OF 1] cursor_u64_stands [OF 2] Let_def)
  next
    case True
    have "skip_value c ty (d + 1) = Inr ((), adv (length (put_value x)) c)"
      if x: "x \<in> set xs" and st: "stands c (put_value x @ rest)" for x c rest
    proof -
      have "vtype x = ty" "wf_value x" using Arr.prems x by (auto simp: list_all_iff)
      moreover have "Suc (vdepth x) \<le> vdepth (Arr ty xs)" using vdepth_item [OF x True] .
      ultimately show ?thesis using Arr.IH [OF x _ _ st, of "d + 1"] Arr.prems(2) by simp
    qed
    then have "skip_items (length xs) (adv 12 c) ty (d + 1) = Inr ((), adv (length ?items) (adv 12 c))"
      using 3 by (rule skip_items_stands)
    then show ?thesis using Arr.prems True
      by (subst skip_value.simps) (simp add: sz cursor_u32_stands [OF 1] cursor_u64_stands [OF 2] Let_def n)
  qed
qed

subsection \<open>The metadata table\<close>

definition put_kv :: "bytes \<times> gval \<Rightarrow> bytes" where
  "put_kv = (\<lambda>(k, v). put_string k @ le_put32 (vtype v) @ put_value v)"

definition wf_kv :: "bytes \<times> gval \<Rightarrow> bool" where
  "wf_kv = (\<lambda>(k, v). wf_value v \<and> vdepth v \<le> 8)"

text \<open>The alignment that an entry sets, if it does.\<close>

definition entry_align :: "u64 \<Rightarrow> bytes \<times> gval \<Rightarrow> u64" where
  "entry_align al = (\<lambda>(k, v). if ds4_streq k ''general.alignment'' \<and> vtype v = GGUF_VALUE_UINT32 \<and> le_get32 (put_value v) \<noteq> 0
     then ucast (le_get32 (put_value v)) else al)"

text \<open>A descriptor of the table points at the bytes of its value.\<close>

definition points :: "bytes \<Rightarrow> bytes \<times> gval \<Rightarrow> ds4_kv \<Rightarrow> bool" where
  "points b = (\<lambda>(k, v) kv. kv_key kv = k \<and> kv_type kv = vtype v \<and> wf_value v \<and>
     (\<exists>rest. stands ((cursor_on b)\<lparr>cu_pos := kv_value_pos kv\<rparr>) (put_value v @ rest)))"

lemma stands_on: "stands c bs \<Longrightarrow> cu_base c = b \<Longrightarrow> stands ((cursor_on b)\<lparr>cu_pos := cu_pos c\<rparr>) bs"
  using unat_u64_bound [of "cu_size c"] by (auto simp: stands_def wf_cursor_def unat_of_length)

lemma u32_value:
  assumes "wf_value v" "vtype v = GGUF_VALUE_UINT32" "stands c (put_value v @ rest)"
  shows "cursor_u32 c = Inr (le_get32 (put_value v), adv 4 c)" "length (put_value v) = 4"
proof -
  show l: "length (put_value v) = 4" using assms(1,2) by (cases v) (auto simp: scalar_value_size_def)
  show "cursor_u32 c = Inr (le_get32 (put_value v), adv 4 c)"
    using cursor_read_stands [OF assms(3), of 4] l by (simp add: cursor_u32_def)
qed

lemma read_kv_stands:
  assumes "wf_kv e" "stands c (put_kv e @ rest)" "cu_base c = b"
  shows "\<exists>kv. read_kv al c = Inr ((kv, entry_align al e), adv (length (put_kv e)) c) \<and> points b e kv"
proof -
  obtain k v where e: "e = (k, v)" by (cases e)
  have wf: "wf_value v" "vdepth v \<le> 8" using assms(1) by (auto simp: wf_kv_def e)
  define c1 c2 where "c1 = adv (8 + length k) c" and "c2 = adv 4 c1"
  have 1: "stands c (put_string k @ le_put32 (vtype v) @ put_value v @ rest)" using assms(2) by (simp add: put_kv_def e)
  have 2: "stands c1 (le_put32 (vtype v) @ put_value v @ rest)" using stands_adv [OF 1] by (simp add: c1_def)
  have 3: "stands c2 (put_value v @ rest)" using stands_adv [OF 2] by (simp add: c2_def)
  have r: "cursor_string c = Inr (k, c1)" "cursor_u32 c1 = Inr (vtype v, c2)"
    using cursor_string_stands [OF 1] cursor_u32_stands [OF 2] by (simp_all add: c1_def c2_def)
  have end_: "adv (length (put_value v)) c2 = adv (length (put_kv (k, v))) c"
    by (simp add: c1_def c2_def put_kv_def) (simp add: ac_simps)
  let ?kv = "\<lparr>kv_key = k, kv_type = vtype v, kv_value_pos = cu_pos c2\<rparr>"
  have "points b e ?kv" using stands_on [OF 3] wf assms(3) by (auto simp: points_def e c1_def c2_def)
  moreover have "read_kv al c = Inr ((?kv, entry_align al e), adv (length (put_kv e)) c)"
  proof (cases "ds4_streq k ''general.alignment'' \<and> vtype v = GGUF_VALUE_UINT32")
    case True
    then show ?thesis using u32_value [OF wf(1) _ 3] by (simp add: read_kv_def r entry_align_def e flip: end_)
  next
    case False
    then show ?thesis using skip_value_stands [OF wf(1) _ 3, of 0] wf(2)
      by (auto simp: read_kv_def r entry_align_def e simp flip: end_)
  qed
  ultimately show ?thesis by blast
qed

lemma read_kvs_stands:
  assumes "list_all wf_kv es" "stands c (concat (map put_kv es) @ rest)" "cu_base c = b"
  shows "\<exists>kvs. read_kvs (length es) al c = Inr ((kvs, foldl entry_align al es), adv (length (concat (map put_kv es))) c) \<and>
    list_all2 (points b) es kvs"
  using assms
proof (induction es arbitrary: c al)
  case Nil
  then show ?case by (simp add: adv_def)
next
  case (Cons e es)
  have s: "stands c (put_kv e @ concat (map put_kv es) @ rest)" using Cons.prems(2) by simp
  obtain kv where kv: "read_kv al c = Inr ((kv, entry_align al e), adv (length (put_kv e)) c)" "points b e kv"
    using read_kv_stands [OF _ s Cons.prems(3)] Cons.prems(1) by fastforce
  obtain kvs where "read_kvs (length es) (entry_align al e) (adv (length (put_kv e)) c) =
      Inr ((kvs, foldl entry_align (entry_align al e) es), adv (length (concat (map put_kv es))) (adv (length (put_kv e)) c))"
    "list_all2 (points b) es kvs"
    using Cons.IH [OF _ stands_adv [OF s]] Cons.prems(1,3) by fastforce
  then show ?case using kv by (auto simp: ac_simps)
qed

subsection \<open>The tensor table\<close>

record tensor_desc =
  d_name :: bytes
  d_dims :: "u64 list"
  d_type :: u32
  d_offset :: u64

definition put_tensor :: "tensor_desc \<Rightarrow> bytes" where
  "put_tensor t = put_string (d_name t) @ le_put32 (of_nat (length (d_dims t))) @ concat (map kv_le_put64 (d_dims t)) @
     le_put32 (d_type t) @ kv_le_put64 (d_offset t)"

text \<open>Every partial product of the dimensions is a 64-bit number.\<close>

definition wf_desc :: "tensor_desc \<Rightarrow> bool" where
  "wf_desc t \<longleftrightarrow> 1 \<le> length (d_dims t) \<and> length (d_dims t) \<le> 8 \<and>
     (\<forall>k\<le>length (d_dims t). prod_list (map unat (take k (d_dims t))) < 2 ^ 64)"

definition desc_bytes :: "tensor_desc \<Rightarrow> u64" where
  "desc_bytes t = (case tensor_nbytes (d_type t) (prod_list (d_dims t)) of Some b \<Rightarrow> b | None \<Rightarrow> 0)"

definition tensor_of :: "u64 \<Rightarrow> tensor_desc \<Rightarrow> ds4_tensor" where
  "tensor_of pos t = \<lparr>t_name = d_name t, t_ndim = of_nat (length (d_dims t)), t_dim = d_dims t, t_type = d_type t,
     t_rel_offset = d_offset t, t_abs_offset = pos, t_elements = prod_list (d_dims t), t_bytes = desc_bytes t\<rparr>"

lemma parse_dims_stands:
  assumes "stands c (concat (map kv_le_put64 xs) @ rest)"
    and "\<forall>k\<le>length xs. unat el * prod_list (map unat (take k xs)) < 2 ^ 64"
  shows "parse_dims (length xs) dims el c = Inr ((dims @ xs, el * prod_list xs), adv (8 * length xs) c)"
  using assms
proof (induction xs arbitrary: c dims el)
  case Nil
  then show ?case by (simp add: adv_def)
next
  case (Cons x xs)
  have s: "stands c (kv_le_put64 x @ concat (map kv_le_put64 xs) @ rest)" using Cons.prems(1) by simp
  have s': "stands (adv 8 c) (concat (map kv_le_put64 xs) @ rest)" using stands_adv [OF s] by simp
  have p: "unat el * unat x < 2 ^ 64" using Cons.prems(2) [rule_format, of 1] by simp
  have g: "\<not> (x \<noteq> 0 \<and> u64_max div x < el)" using p len_guard(1) [of "unat el" x] unat_u64_bound [of el] by auto
  have "\<forall>k\<le>length xs. unat (el * x) * prod_list (map unat (take k xs)) < 2 ^ 64"
    using Cons.prems(2) [rule_format, of "Suc k" for k] unat_mult_guard [OF g] by (auto simp: mult.assoc)
  note ih = Cons.IH [OF s' this, of "dims @ [x]"]
  show ?case using g ih by (auto simp: cursor_u64_stands [OF s] mult.assoc)
qed

lemma length_concat_put64: "length (concat (map kv_le_put64 xs)) = 8 * length xs"
  by (induction xs) simp_all

lemma parse_tensor_stands:
  assumes "wf_desc t" "stands c (put_tensor t @ rest)"
  shows "parse_tensor c = Inr (tensor_of 0 t, adv (length (put_tensor t)) c)"
proof -
  let ?n = "length (d_dims t)" let ?ds = "concat (map kv_le_put64 (d_dims t))"
  define c1 c2 c3 c4 where "c1 = adv (8 + length (d_name t)) c" and "c2 = adv 4 c1" and "c3 = adv (8 * ?n) c2" and "c4 = adv 4 c3"
  note d = c1_def c2_def c3_def c4_def
  have 1: "stands c (put_string (d_name t) @ le_put32 (of_nat ?n) @ ?ds @ le_put32 (d_type t) @ kv_le_put64 (d_offset t) @ rest)"
    using assms(2) by (simp add: put_tensor_def)
  have 2: "stands c1 (le_put32 (of_nat ?n) @ ?ds @ le_put32 (d_type t) @ kv_le_put64 (d_offset t) @ rest)"
    using stands_adv [OF 1] by (simp add: c1_def)
  have 3: "stands c2 (?ds @ le_put32 (d_type t) @ kv_le_put64 (d_offset t) @ rest)" using stands_adv [OF 2] by (simp add: c2_def)
  have 4: "stands c3 (le_put32 (d_type t) @ kv_le_put64 (d_offset t) @ rest)"
    using stands_adv [OF 3] by (simp add: c3_def length_concat_put64)
  have 5: "stands c4 (kv_le_put64 (d_offset t) @ rest)" using stands_adv [OF 4] by (simp add: c4_def)
  have n: "1 \<le> ?n" "?n \<le> 8" using assms(1) by (auto simp: wf_desc_def)
  then have u: "unat (of_nat ?n :: u32) = ?n" by (simp add: unsigned_of_nat take_bit_nat_eq_self_iff)
  then have "of_nat ?n \<noteq> (0 :: u32)" "\<not> of_nat ?n > DS4_MAX_DIMS"
    using n by (auto simp: DS4_MAX_DIMS_def word_less_nat_alt)
  moreover have "parse_dims (unat (of_nat ?n :: u32)) [] 1 c2 = Inr ((d_dims t, prod_list (d_dims t)), c3)"
    using parse_dims_stands [OF 3, of 1 "[]"] assms(1) u by (simp add: wf_desc_def c3_def)
  moreover have "adv 8 c4 = adv (length (put_tensor t)) c"
    by (simp add: d put_tensor_def length_concat_put64 ac_simps)
  ultimately show ?thesis
    using cursor_string_stands [OF 1] cursor_u32_stands [OF 2] cursor_u32_stands [OF 4] cursor_u64_stands [OF 5]
    by (simp add: parse_tensor_def tensor_of_def desc_bytes_def flip: c1_def c2_def c4_def)
qed

lemma parse_tensor_list_stands:
  assumes "list_all wf_desc ts" "stands c (concat (map put_tensor ts) @ rest)"
  shows "parse_tensor_list (length ts) c = Inr (map (tensor_of 0) ts, adv (length (concat (map put_tensor ts))) c)"
  using assms
proof (induction ts arbitrary: c)
  case Nil
  then show ?case by (simp add: adv_def)
next
  case (Cons t ts)
  have s: "stands c (put_tensor t @ concat (map put_tensor ts) @ rest)" using Cons.prems(2) by simp
  show ?case using Cons.prems(1) Cons.IH [OF _ stands_adv [OF s]] parse_tensor_stands [OF _ s] by simp
qed

lemma place_tensors_succeeds:
  assumes "\<forall>t\<in>set ts. unat dp + unat (t_rel_offset t) < 2 ^ 64 \<and>
      (t_bytes t \<noteq> 0 \<longrightarrow> unat dp + unat (t_rel_offset t) + unat (t_bytes t) \<le> unat fs)"
  shows "\<exists>mx'. place_tensors dp fs mx ts = Inr (map (\<lambda>t. t\<lparr>t_abs_offset := dp + t_rel_offset t\<rparr>) ts, mx')"
  using assms
proof (induction ts arbitrary: mx)
  case (Cons t ts)
  let ?abs = "dp + t_rel_offset t"
  have abs: "unat ?abs = unat dp + unat (t_rel_offset t)" using Cons.prems by (intro unat_add_exact) simp
  have "\<not> u64_max - dp < t_rel_offset t" using Cons.prems by (simp add: u64_overflow_iff)
  moreover have "\<not> (t_bytes t \<noteq> 0 \<and> (?abs > fs \<or> t_bytes t > fs - ?abs))"
  proof -
    have "?abs \<le> fs" "t_bytes t \<le> fs - ?abs" if "t_bytes t \<noteq> 0"
    proof -
      have le: "unat ?abs + unat (t_bytes t) \<le> unat fs" using Cons.prems that abs by simp
      then show "?abs \<le> fs" by (simp add: word_le_nat_alt)
      then show "t_bytes t \<le> fs - ?abs" using le by (simp add: word_le_nat_alt unat_sub)
    qed
    then show ?thesis by (auto simp: not_less)
  qed
  moreover obtain mx' where "place_tensors dp fs (if t_bytes t > mx then t_bytes t else mx) ts =
      Inr (map (\<lambda>t. t\<lparr>t_abs_offset := dp + t_rel_offset t\<rparr>) ts, mx')"
    using Cons.IH Cons.prems by fastforce
  ultimately show ?case by (auto simp: Let_def)
qed simp

subsection \<open>Files\<close>

definition gguf_dir :: "(bytes \<times> gval) list \<Rightarrow> tensor_desc list \<Rightarrow> bytes" where
  "gguf_dir es ts = le_put32 DS4_GGUF_MAGIC @ le_put32 3 @ kv_le_put64 (of_nat (length ts)) @ kv_le_put64 (of_nat (length es)) @
     concat (map put_kv es) @ concat (map put_tensor ts)"

definition data_start :: "(bytes \<times> gval) list \<Rightarrow> tensor_desc list \<Rightarrow> u64" where
  "data_start es ts = align_up (of_nat (length (gguf_dir es ts))) (foldl entry_align 32 es)"

text \<open>The tensors' data lies in the part of the file behind the directory.\<close>

definition fits :: "nat \<Rightarrow> u64 \<Rightarrow> tensor_desc \<Rightarrow> bool" where
  "fits n dp t \<longleftrightarrow> unat dp + unat (d_offset t) < 2 ^ 64 \<and>
     (desc_bytes t \<noteq> 0 \<longrightarrow> unat dp + unat (d_offset t) + unat (desc_bytes t) \<le> n)"

lemma length_le_concat: "(\<And>x. 1 \<le> length (f x)) \<Longrightarrow> length xs \<le> length (concat (map f xs))"
proof (induction xs)
  case (Cons x xs)
  show ?case using Cons.IH [OF Cons.prems] Cons.prems [of x] by simp
qed simp

lemma read_gguf_dir:
  fixes body :: bytes
  assumes es: "list_all wf_kv es" and ts: "list_all wf_desc ts"
    and b: "b = gguf_dir es ts @ body" "length b < 2 ^ 64"
    and al: "alloc (of_nat (length es))"
  obtains kvs c where "read_header alloc (cursor_on b) = Inr ((of_nat (length ts), of_nat (length es), kvs, foldl entry_align 32 es), c)"
    "parse_tensor_list (length ts) c = Inr (map (tensor_of 0) ts, adv (length (gguf_dir es ts)) (cursor_on b))"
    "list_all2 (points b) es kvs"
proof -
  let ?k = "concat (map put_kv es)" let ?t = "concat (map put_tensor ts)"
  have kv1: "1 \<le> length (put_kv e)" for e by (cases e) (simp add: put_kv_def)
  have "length es \<le> length ?k" by (intro length_le_concat kv1)
  then have les: "unat (of_nat (length es) :: u64) = length es" using b by (intro unat_of_length) (simp add: gguf_dir_def)
  define c0 c1 c2 c3 c4 where "c0 = cursor_on b" and "c1 = adv 4 c0" and "c2 = adv 4 c1" and "c3 = adv 8 c2" and "c4 = adv 8 c3"
  have 0: "stands c0 (le_put32 DS4_GGUF_MAGIC @ le_put32 3 @ kv_le_put64 (of_nat (length ts)) @ kv_le_put64 (of_nat (length es)) @ ?k @ ?t @ body)"
    using wf_cursor_on [OF b(2)] by (simp add: stands_def c0_def) (simp add: b(1) gguf_dir_def)
  have 1: "stands c1 (le_put32 3 @ kv_le_put64 (of_nat (length ts)) @ kv_le_put64 (of_nat (length es)) @ ?k @ ?t @ body)"
    using stands_adv [OF 0] by (simp add: c1_def)
  have 2: "stands c2 (kv_le_put64 (of_nat (length ts)) @ kv_le_put64 (of_nat (length es)) @ ?k @ ?t @ body)"
    using stands_adv [OF 1] by (simp add: c2_def)
  have 3: "stands c3 (kv_le_put64 (of_nat (length es)) @ ?k @ ?t @ body)" using stands_adv [OF 2] by (simp add: c3_def)
  have 4: "stands c4 (?k @ ?t @ body)" using stands_adv [OF 3] by (simp add: c4_def)
  have 5: "stands (adv (length ?k) c4) (?t @ body)" using stands_adv [OF 4] .
  have "cu_base c4 = b" by (simp add: c0_def c1_def c2_def c3_def c4_def)
  from read_kvs_stands [OF es 4 this, of 32] obtain kvs where
    kvs: "read_kvs (length es) 32 c4 = Inr ((kvs, foldl entry_align 32 es), adv (length ?k) c4)" "list_all2 (points b) es kvs" by blast
  have "read_header alloc (cursor_on b) = Inr ((of_nat (length ts), of_nat (length es), kvs, foldl entry_align 32 es), adv (length ?k) c4)"
    using cursor_u32_stands [OF 0] cursor_u32_stands [OF 1] cursor_u64_stands [OF 2] cursor_u64_stands [OF 3] kvs al les
    by (simp add: read_header_def flip: c0_def c1_def c2_def c3_def c4_def)
  moreover have "adv (length ?t) (adv (length ?k) c4) = adv (length (gguf_dir es ts)) (cursor_on b)"
    by (simp add: c0_def c1_def c2_def c3_def c4_def gguf_dir_def ac_simps)
  ultimately show ?thesis using that kvs(2) parse_tensor_list_stands [OF ts 5] by metis
qed

text \<open>The first entry with a key, as the readers search for it.\<close>

definition lookup_kv :: "(bytes \<times> gval) list \<Rightarrow> string \<Rightarrow> gval option" where
  "lookup_kv es key = map_option snd (find (\<lambda>e. ds4_streq (fst e) key) es)"

lemma find_points:
  "list_all2 (points b) es kvs \<Longrightarrow>
   rel_option (points b) (find (\<lambda>e. ds4_streq (fst e) key) es) (find (\<lambda>kv. ds4_streq (kv_key kv) key) kvs)"
  by (induction rule: list_all2_induct) (auto simp: points_def)

text \<open>A reader for values of one type finds the bytes of the value.\<close>

lemma model_get_points:
  assumes "list_all2 (points (m_map m)) es (m_kv m)" "m_size m = of_nat (length (m_map m))"
    and "\<And>v c rest. wf_value v \<Longrightarrow> vtype v = type \<Longrightarrow> stands c (put_value v @ rest) \<Longrightarrow> value_of (rd c) = Some (g v)"
  shows "model_get m key type rd = (case lookup_kv es key of Some v \<Rightarrow> if vtype v = type then Some (g v) else None | None \<Rightarrow> None)"
proof -
  have at: "cursor_at m p = (cursor_on (m_map m))\<lparr>cu_pos := p\<rparr>" for p
    using assms(2) by (simp add: cursor_at_def cursor_on_def)
  show ?thesis
    using find_points [OF assms(1), of key]
    by (cases rule: option.rel_cases)
      (auto simp: model_get_def model_find_kv_def lookup_kv_def points_def at intro: assms(3))
qed

lemma scalar_read:
  assumes "wf_value v" "vtype v = type" "scalar_value_size type = n" "n \<noteq> 0" "stands c (put_value v @ rest)"
  shows "cursor_read c n = Inr (put_value v, adv (unat n) c)"
proof -
  have "unat n = length (put_value v)" using assms(1-4) by (cases v) (auto simp: scalar_value_size_def)
  then show ?thesis using cursor_read_stands [OF assms(5), of n] by simp
qed

definition arr_head :: "gval \<Rightarrow> u32 \<times> u64" where
  "arr_head v = (case v of Arr ty xs \<Rightarrow> (ty, of_nat (length xs)) | _ \<Rightarrow> (0, 0))"

definition str_val :: "gval \<Rightarrow> bytes" where
  "str_val v = (case v of Str s \<Rightarrow> s | _ \<Rightarrow> [])"

text \<open>What each reader should return for a table of values.\<close>

definition get_spec :: "(bytes \<times> gval) list \<Rightarrow> string \<Rightarrow> u32 \<Rightarrow> (gval \<Rightarrow> 'a) \<Rightarrow> 'a option" where
  "get_spec es key type g = (case lookup_kv es key of Some v \<Rightarrow> if vtype v = type then Some (g v) else None | None \<Rightarrow> None)"

lemma get_points:
  assumes "list_all2 (points (m_map m)) es (m_kv m)" "m_size m = of_nat (length (m_map m))"
  shows "model_get_string m key = get_spec es key GGUF_VALUE_STRING str_val"
    and "model_get_u32 m key = get_spec es key GGUF_VALUE_UINT32 (\<lambda>v. le_get32 (put_value v))"
    and "model_get_u64 m key = get_spec es key GGUF_VALUE_UINT64 (\<lambda>v. kv_le_get64 (put_value v))"
    and "model_get_bool m key = get_spec es key GGUF_VALUE_BOOL (\<lambda>v. put_value v ! 0 \<noteq> 0)"
    and "map_option (\<lambda>r. (ar_type r, ar_len r)) (model_get_array m key) = get_spec es key GGUF_VALUE_ARRAY arr_head"
proof -
  note mg = model_get_points [OF assms]
  have str: "\<exists>s. v = Str s" if "wf_value v" "vtype v = GGUF_VALUE_STRING" for v
    using that by (cases v) (auto simp: scalar_value_size_def)
  have arr: "\<exists>ty xs. v = Arr ty xs" if "wf_value v" "vtype v = GGUF_VALUE_ARRAY" for v
    using that by (cases v) (auto simp: scalar_value_size_def)
  show "model_get_string m key = get_spec es key GGUF_VALUE_STRING str_val"
    unfolding model_get_string_def get_spec_def
    by (rule mg) (auto dest!: str simp: str_val_def value_of_def put_string_def [symmetric] cursor_string_stands)
  show "model_get_u32 m key = get_spec es key GGUF_VALUE_UINT32 (\<lambda>v. le_get32 (put_value v))"
    unfolding model_get_u32_def get_spec_def
    by (rule mg) (simp add: value_of_def u32_value)
  show "model_get_u64 m key = get_spec es key GGUF_VALUE_UINT64 (\<lambda>v. kv_le_get64 (put_value v))"
    unfolding model_get_u64_def get_spec_def
    by (rule mg) (simp add: value_of_def cursor_u64_def scalar_read [of _ GGUF_VALUE_UINT64] scalar_value_size_def)
  have "model_get m key GGUF_VALUE_BOOL (\<lambda>c. cursor_read c 1) = get_spec es key GGUF_VALUE_BOOL put_value"
    unfolding get_spec_def
    by (rule mg) (simp add: value_of_def scalar_read [of _ GGUF_VALUE_BOOL] scalar_value_size_def)
  then show "model_get_bool m key = get_spec es key GGUF_VALUE_BOOL (\<lambda>v. put_value v ! 0 \<noteq> 0)"
    by (simp add: model_get_bool_def get_spec_def split: option.splits)
  have "map_option f (model_get m key type rd) = model_get m key type (\<lambda>c. bindE (rd c) (\<lambda>x c. Inr (f x, c)))" for f :: "ds4_array_ref \<Rightarrow> u32 \<times> u64" and type rd
    by (auto simp: model_get_def value_of_def bindE_def split: option.splits sum.splits)
  then show "map_option (\<lambda>r. (ar_type r, ar_len r)) (model_get_array m key) = get_spec es key GGUF_VALUE_ARRAY arr_head"
    unfolding model_get_array_def get_spec_def
    apply (simp only:)
    apply (rule mg)
    subgoal for v c rest
      using arr [of v] cursor_u32_stands [of c] stands_adv [of c "le_put32 ty" for ty] cursor_u64_stands [of "adv 4 c"]
      by (fastforce simp: value_of_def arr_head_def)
    done
qed

text \<open>
  C19. Any well-formed directory is accepted and read back as it was written, whatever follows it: values of every type,
  nested to the depth the format allows, arrays and strings of any length. The readers return, for every key, the
  value of its first entry if it has the type asked for and nothing otherwise, so each stored position is that of
  the value behind it. The tensors come back in order with their names, shapes, types and element counts, at the
  aligned start of the data plus their offsets.
\<close>

theorem gguf_roundtrip:
  fixes body :: bytes
  assumes "list_all wf_kv es" "list_all wf_desc ts" "b = gguf_dir es ts @ body" "length b < 2 ^ 64"
    and "list_all (fits (length b) (data_start es ts)) ts" "alloc (of_nat (length es))" "alloc (of_nat (length ts))"
  shows "\<exists>m. model_parse_shard alloc b = Inr m \<and>
    m_tensors m = map (\<lambda>t. tensor_of (data_start es ts + d_offset t) t) ts \<and>
    (\<forall>key. model_get_string m key = get_spec es key GGUF_VALUE_STRING str_val \<and>
      model_get_u32 m key = get_spec es key GGUF_VALUE_UINT32 (\<lambda>v. le_get32 (put_value v)) \<and>
      model_get_u64 m key = get_spec es key GGUF_VALUE_UINT64 (\<lambda>v. kv_le_get64 (put_value v)) \<and>
      model_get_bool m key = get_spec es key GGUF_VALUE_BOOL (\<lambda>v. put_value v ! 0 \<noteq> 0) \<and>
      map_option (\<lambda>r. (ar_type r, ar_len r)) (model_get_array m key) = get_spec es key GGUF_VALUE_ARRAY arr_head)"
proof -
  obtain kvs c where h: "read_header alloc (cursor_on b) =
      Inr ((of_nat (length ts), of_nat (length es), kvs, foldl entry_align 32 es), c)"
    and l: "parse_tensor_list (length ts) c = Inr (map (tensor_of 0) ts, adv (length (gguf_dir es ts)) (cursor_on b))"
    and k: "list_all2 (points b) es kvs"
    using read_gguf_dir [OF assms(1-4), where alloc = alloc] assms(6) by blast
  have "1 \<le> length (put_tensor t)" for t by (simp add: put_tensor_def)
  then have "length ts \<le> length (concat (map put_tensor ts))" by (rule length_le_concat)
  then have n: "unat (of_nat (length ts) :: u64) = length ts" using assms(3,4) by (intro unat_of_length) (simp add: gguf_dir_def)
  have dp: "align_up (cu_pos (adv (length (gguf_dir es ts)) (cursor_on b))) (foldl entry_align 32 es) = data_start es ts"
    by (simp add: data_start_def adv_def)
  have "\<forall>t\<in>set (map (tensor_of 0) ts). unat (data_start es ts) + unat (t_rel_offset t) < 2 ^ 64 \<and>
      (t_bytes t \<noteq> 0 \<longrightarrow> unat (data_start es ts) + unat (t_rel_offset t) + unat (t_bytes t) \<le> unat (of_nat (length b) :: u64))"
    using assms(5) unat_of_length [OF assms(4)] by (auto simp: list_all_iff fits_def tensor_of_def)
  from place_tensors_succeeds [OF this, of 0] obtain mx where
    p: "place_tensors (data_start es ts) (of_nat (length b)) 0 (map (tensor_of 0) ts) =
      Inr (map (\<lambda>t. tensor_of (data_start es ts + d_offset t) t) ts, mx)"
    by (auto simp: comp_def tensor_of_def)
  define m where "m = (header_model b (of_nat (length ts), of_nat (length es), kvs, foldl entry_align 32 es))
    \<lparr>m_tensors := map (\<lambda>t. tensor_of (data_start es ts + d_offset t) t) ts, m_tensor_data_pos := data_start es ts, m_max_tensor_bytes := mx\<rparr>"
  have "model_parse_shard alloc b = Inr m"
    unfolding model_parse_shard_Inr [OF assms(4)] using h l p assms(7) n dp by (fastforce simp: m_def)
  moreover have mk: "list_all2 (points (m_map m)) es (m_kv m)" "m_size m = of_nat (length (m_map m))"
    using k by (simp_all add: m_def header_model_def)
  ultimately show ?thesis using get_points [OF mk] by (auto simp: m_def)
qed

definition sample_es :: "(bytes \<times> gval) list" where
  "sample_es = [(map of_char ''split.count'', Scalar GGUF_VALUE_UINT32 [3, 0, 0, 0]),
     (map of_char ''names'', Arr GGUF_VALUE_ARRAY [Arr GGUF_VALUE_STRING [Str [0x61], Str []], Arr GGUF_VALUE_STRING []]),
     (map of_char ''general.name'', Str [0x64, 0x73])]"

definition sample_ts :: "tensor_desc list" where
  "sample_ts = [\<lparr>d_name = [0x77], d_dims = [2, 3], d_type = 0, d_offset = 0\<rparr>]"

theorem gguf_roundtrip_witness:
  "\<exists>m. model_parse_shard (\<lambda>_. True) (gguf_dir sample_es sample_ts @ replicate 64 0) = Inr m \<and>
     model_get_u32 m ''split.count'' = Some 3 \<and> model_get_string m ''general.name'' = Some [0x64, 0x73]"
proof -
  have "list_all wf_kv sample_es" by (simp add: sample_es_def wf_kv_def scalar_value_size_def)
  moreover have "prod_list (map unat (take k [2, 3 :: u64])) < 2 ^ 64" if "k \<le> 2" for k
  proof -
    from that consider "k = 0" | "k = 1" | "k = 2" by linarith
    then show ?thesis by cases simp_all
  qed
  then have "list_all wf_desc sample_ts" by (simp add: sample_ts_def wf_desc_def)
  moreover have len: "length (gguf_dir sample_es sample_ts @ replicate 64 (0 :: u8)) = 260" by code_simp
  then have "length (gguf_dir sample_es sample_ts @ replicate 64 (0 :: u8)) < 2 ^ 64" by simp
  moreover have "list_all (fits (length (gguf_dir sample_es sample_ts @ replicate 64 (0 :: u8))) (data_start sample_es sample_ts)) sample_ts"
    unfolding len
  proof -
    have "data_start sample_es sample_ts = 224" by code_simp
    moreover have "list_all (\<lambda>t. d_offset t = 0 \<and> desc_bytes t = 24) sample_ts" by code_simp
    ultimately show "list_all (fits 260 (data_start sample_es sample_ts)) sample_ts" by (auto simp: list_all_iff fits_def)
  qed
  moreover have "get_spec sample_es ''split.count'' GGUF_VALUE_UINT32 (\<lambda>v. le_get32 (put_value v)) = Some 3"
    "get_spec sample_es ''general.name'' GGUF_VALUE_STRING str_val = Some [0x64, 0x73]"
    by code_simp+
  ultimately show ?thesis
    using gguf_roundtrip [OF _ _ refl, of sample_es sample_ts "replicate 64 0" "\<lambda>_. True"] by fastforce
qed

end
