(* ===== verification/Gguf_Split.thy ===== *)
theory Gguf_Split
  imports Gguf_Roundtrip Json_Text
begin

section \<open>Opening model files and split models\<close>

text \<open>
  \<open>model_open\<close> maps one file, reads its metadata and, when that announces more than one part, \<open>model_open_split\<close> maps all the
  parts into one address range and joins their tensor tables (\<open>src/ds4.c\<close>). Modelled for a host without a tensor
  directory of its own. The operating system is a record: the page size that \<open>sysconf\<close> reports, the content of each
  path that can be opened, and which allocations and mappings succeed; files do not change while the model is
  opened. A mapped file is its content, followed by zero bytes to the end of its last page.
\<close>

record os =
  os_page :: u64
  os_file :: "bytes \<Rightarrow> bytes option"
  os_alloc :: "u64 \<Rightarrow> bool"
  os_mmap :: "u64 \<Rightarrow> bool"

datatype open_error =
    Parse_Error gguf_error
  | Cannot_Open bytes
  | File_Too_Small
  | Cannot_Map
  | Shard_Count_Too_Large
  | Not_First_Shard
  | Bad_Shard_Name
  | Size_Overflow
  | Tensor_Count_Overflow
  | Tensor_Table_Too_Large
  | Allocation_Failed
  | Tensor_Count_Mismatch

subsection \<open>Names of the parts\<close>

fun dec_digits :: "nat \<Rightarrow> bytes" where
  "dec_digits n = (if n < 10 then [48 + of_nat n] else dec_digits (n div 10) @ [48 + of_nat (n mod 10)])"

declare dec_digits.simps [simp del]

text \<open>The conversions \<open>%05u\<close> of \<open>snprintf\<close> and of \<open>sscanf\<close>: zero padding to five characters, and at most five characters.\<close>

definition print_u05 :: "u32 \<Rightarrow> bytes" where
  "print_u05 n = (let ds = dec_digits (unat n) in replicate (5 - length ds) 48 @ ds)"

definition scan_u05 :: "bytes \<Rightarrow> u32 option" where
  "scan_u05 s =
     (let s = dropWhile c_isspace s;
          signed = (s \<noteq> [] \<and> (hd s = 43 \<or> hd s = 45));
          ds = takeWhile c_isdigit (take (if signed then 4 else 5) (if signed then tl s else s))
      in if ds = [] then None
         else Some (if signed \<and> hd s = 45 then - of_int (digits_val 10 ds) else of_int (digits_val 10 ds)))"

text \<open>\<open>strrchr (path, '-')\<close> as the number of characters before the last dash.\<close>

definition last_dash :: "bytes \<Rightarrow> nat option" where
  "last_dash p = (if 45 \<in> set p then Some (length p - length (takeWhile (\<lambda>c. c \<noteq> 45) (rev p)) - 1) else None)"

definition model_split_sibling_path :: "bytes \<Rightarrow> u32 \<Rightarrow> u32 \<Rightarrow> nat \<Rightarrow> bytes option" where
  "model_split_sibling_path path index count out_len =
     (case last_dash path of
        None \<Rightarrow> None
      | Some dash \<Rightarrow>
          if scan_u05 (drop (dash + 1) path) \<noteq> Some count then None
          else if dash < 9 then None
          else if bslice (dash - 3) 3 path \<noteq> lit ''-of'' then None
          else let num = dash - 8
            in if num < 1 \<or> path ! (num - 1) \<noteq> 45 then None
               else if \<not> list_all c_isdigit (bslice num 5 path) then None
               else let out = take num path @ print_u05 (index + 1) @ lit ''-of-'' @ print_u05 count @ lit ''.gguf''
                 in if length out < out_len then Some out else None)"

abbreviation (input) PATH_MAX :: nat where "PATH_MAX \<equiv> 4096"

subsection \<open>The address range of a split model\<close>

definition page_of :: "os \<Rightarrow> u64" where
  "page_of os = (if sint (os_page os) > 0 then os_page os else 4096)"

definition span_of :: "os \<Rightarrow> bytes \<Rightarrow> u64" where
  "span_of os b = align_up (of_nat (length b)) (page_of os)"

text \<open>The first loop: open each part, note its size and base.\<close>

fun open_shards :: "os \<Rightarrow> bytes \<Rightarrow> u32 \<Rightarrow> nat list \<Rightarrow> u64 \<Rightarrow> open_error + (bytes \<times> u64) list \<times> u64" where
  "open_shards os path count [] tot = Inr ([], tot)"
| "open_shards os path count (k # ks) tot =
     (case (if k > 0 then model_split_sibling_path path (of_nat k) count PATH_MAX else Some path) of
        None \<Rightarrow> Inl Bad_Shard_Name
      | Some shard_path \<Rightarrow>
          (case os_file os shard_path of
             None \<Rightarrow> Inl (Cannot_Open shard_path)
           | Some b \<Rightarrow>
               if length b < 32 then Inl File_Too_Small
               else let span = span_of os b
                 in if span > u64_max - tot then Inl Size_Overflow
                    else (case open_shards os path count ks (tot + span) of
                            Inl e \<Rightarrow> Inl e | Inr (shards, t) \<Rightarrow> Inr ((b, tot) # shards, t))))"

definition region_of :: "os \<Rightarrow> bytes list \<Rightarrow> bytes" where
  "region_of os bs = concat (map (\<lambda>b. b @ replicate (unat (span_of os b) - length b) 0) bs)"

text \<open>The tables of the other parts, each checked against its own file, with the running count of tensors.\<close>

fun parse_shards :: "os \<Rightarrow> (bytes \<times> u64) list \<Rightarrow> u64 \<Rightarrow> open_error + (ds4_model \<times> u64) list \<times> u64" where
  "parse_shards os [] tot = Inr ([], tot)"
| "parse_shards os ((b, base) # sh) tot =
     (case model_parse_shard (os_alloc os) b of
        Inl e \<Rightarrow> Inl (Parse_Error e)
      | Inr s \<Rightarrow>
          if m_n_tensors s > u64_max - tot then Inl Tensor_Count_Overflow
          else (case parse_shards os sh (tot + m_n_tensors s) of
                  Inl e \<Rightarrow> Inl e | Inr (ss, t) \<Rightarrow> Inr ((s, base) # ss, t)))"

definition rebase :: "u64 \<Rightarrow> ds4_tensor \<Rightarrow> ds4_tensor" where
  "rebase base t = t\<lparr>t_abs_offset := t_abs_offset t + base\<rparr>"

text \<open>The joining loop.\<close>

fun join_shards :: "(ds4_model \<times> u64) list \<Rightarrow> ds4_tensor list \<Rightarrow> u64 \<Rightarrow> ds4_tensor list \<times> u64" where
  "join_shards [] acc mx = (acc, mx)"
| "join_shards ((s, base) # ss) acc mx =
     join_shards ss (acc @ map (rebase base) (m_tensors s))
       (foldl (\<lambda>mx t. if t_bytes t > mx then t_bytes t else mx) mx (m_tensors s))"

definition expected_tensors :: "ds4_model \<Rightarrow> u32" where
  "expected_tensors m =
     (case model_find_kv m ''split.tensors.count'' of
        Some kv \<Rightarrow> if kv_type kv = GGUF_VALUE_INT32 \<or> kv_type kv = GGUF_VALUE_UINT32
                   then (case value_of (cursor_u32 (cursor_at m (kv_value_pos kv))) of Some v \<Rightarrow> v | None \<Rightarrow> 0) else 0
      | None \<Rightarrow> 0)"

text \<open>The size of a table entry on the 64-bit hosts.\<close>

definition sizeof_tensor :: u64 where "sizeof_tensor = 136"

definition model_open_split :: "os \<Rightarrow> bytes \<Rightarrow> u32 \<Rightarrow> open_error + ds4_model" where
  "model_open_split os path count =
     (if count > 99999 then Inl Shard_Count_Too_Large
      else if model_split_sibling_path path 0 count PATH_MAX \<noteq> Some path then Inl Not_First_Shard
      else case open_shards os path count [0..<unat count] 0 of
        Inl e \<Rightarrow> Inl e
      | Inr (shards, tot) \<Rightarrow>
          if \<not> os_mmap os tot \<or> \<not> list_all (\<lambda>(b, _). os_mmap os (of_nat (length b))) shards then Inl Cannot_Map
          else (case model_parse_shard (os_alloc os) (region_of os (map fst shards)) of
            Inl e \<Rightarrow> Inl (Parse_Error e)
          | Inr m \<Rightarrow>
              (case parse_shards os (tl shards) (m_n_tensors m) of
                Inl e \<Rightarrow> Inl e
              | Inr (ss, total_tensors) \<Rightarrow>
                  if total_tensors > u64_max div sizeof_tensor then Inl Tensor_Table_Too_Large
                  else if \<not> os_alloc os total_tensors then Inl Allocation_Failed
                  else let (all, mx) = join_shards ss (m_tensors m) (m_max_tensor_bytes m);
                           m = m\<lparr>m_tensors := all, m_max_tensor_bytes := mx, m_n_tensors := total_tensors\<rparr>;
                           expected = expected_tensors m
                    in if expected \<noteq> 0 \<and> ucast expected \<noteq> total_tensors then Inl Tensor_Count_Mismatch else Inr m)))"

text \<open>The number of parts, as written by the splitter in 16 bits or in 32.\<close>

definition split_count_of :: "ds4_model \<Rightarrow> u32" where
  "split_count_of m =
     (case model_get_u16 m ''split.count'' of Some n \<Rightarrow> ucast n
      | None \<Rightarrow> (case model_get_u32 m ''split.count'' of Some n \<Rightarrow> n | None \<Rightarrow> 0))"

definition model_open :: "os \<Rightarrow> bytes \<Rightarrow> open_error + ds4_model" where
  "model_open os path =
     (case os_file os path of
        None \<Rightarrow> Inl (Cannot_Open path)
      | Some b \<Rightarrow>
          if length b < 32 then Inl File_Too_Small
          else if \<not> os_mmap os (of_nat (length b)) then Inl Cannot_Map
          else (case parse_header (os_alloc os) b of
            Inl e \<Rightarrow> Inl (Parse_Error e)
          | Inr (m, c) \<Rightarrow>
              (case parse_tensors (os_alloc os) m c of
                Inl e \<Rightarrow> Inl (Parse_Error e)
              | Inr (m', _) \<Rightarrow>
                  if split_count_of m > 1 then model_open_split os path (split_count_of m) else Inr m')))"

subsection \<open>Bases and content of the range\<close>

lemma page_of_ok: "page_of os \<noteq> 0" "unat (page_of os) < 2 ^ 63"
proof -
  have "unat (page_of os) < 2 ^ 63 \<and> page_of os \<noteq> 0"
  proof (cases "sint (os_page os) > 0")
    case True
    have "sint (os_page os) < 2 ^ 63" using sint_lt [of "os_page os"] by simp
    moreover have "uint (os_page os) = sint (os_page os)"
      using True calculation by (subst uint_sint) (rule take_bit_int_eq_self; simp)
    ultimately have "int (unat (os_page os)) < int (2 ^ 63)" by simp
    then have "unat (os_page os) < 2 ^ 63" unfolding of_nat_less_iff .
    then show ?thesis using True by (auto simp: page_of_def)
  qed (simp add: page_of_def)
  then show "page_of os \<noteq> 0" "unat (page_of os) < 2 ^ 63" by auto
qed

lemma span_of_ge:
  assumes "length b < 2 ^ 63"
  shows "length b \<le> unat (span_of os b)" "unat (page_of os) dvd unat (span_of os b)"
proof -
  have n: "unat (of_nat (length b) :: u64) = length b" using assms by (intro unat_of_length) simp
  have "unat (of_nat (length b) :: u64) + unat (page_of os) < 2 ^ 64" using n assms page_of_ok(2) [of os] by simp
  from align_up_exact [OF page_of_ok(1) this]
  show "length b \<le> unat (span_of os b)" "unat (page_of os) dvd unat (span_of os b)" by (simp_all add: span_of_def n)
qed

lemma region_of_simps [simp]:
  "region_of os [] = []"
  "region_of os (b # bs) = b @ replicate (unat (span_of os b) - length b) 0 @ region_of os bs"
  by (simp_all add: region_of_def)

lemma region_of_append: "region_of os (xs @ ys) = region_of os xs @ region_of os ys"
  by (simp add: region_of_def)

definition base_of :: "os \<Rightarrow> bytes list \<Rightarrow> nat \<Rightarrow> u64" where
  "base_of os bs k = of_nat (length (region_of os (take k bs)))"

text \<open>What lies at a base is the part's own file.\<close>

lemma region_at:
  assumes "k < length bs"
  shows "\<exists>pre post. region_of os bs = pre @ bs ! k @ post \<and> length pre = length (region_of os (take k bs))"
proof -
  have "bs = take k bs @ bs ! k # drop (Suc k) bs" using assms by (rule id_take_nth_drop)
  then have "region_of os bs = region_of os (take k bs) @ bs ! k @
      replicate (unat (span_of os (bs ! k)) - length (bs ! k)) 0 @ region_of os (drop (Suc k) bs)"
    by (metis region_of_append region_of_simps(2))
  then show ?thesis by blast
qed

lemma region_slice:
  assumes "k < length bs" "off + n \<le> length (bs ! k)"
  shows "bslice (length (region_of os (take k bs)) + off) n (region_of os bs) = bslice off n (bs ! k)"
    and "length (region_of os (take k bs)) + length (bs ! k) \<le> length (region_of os bs)"
proof -
  obtain pre post where r: "region_of os bs = pre @ bs ! k @ post" "length pre = length (region_of os (take k bs))"
    using region_at [OF assms(1)] by blast
  show "bslice (length (region_of os (take k bs)) + off) n (region_of os bs) = bslice off n (bs ! k)"
    using assms(2) r by (simp add: bslice_append_right bslice_append_left)
  show "length (region_of os (take k bs)) + length (bs ! k) \<le> length (region_of os bs)" using r by simp
qed

text \<open>The opening loop: the parts in order, each based where the ones before it end, and the total exact.\<close>

lemma open_shards_Inr:
  assumes "open_shards os path count ks tot = Inr (shards, t)"
    and small: "\<forall>p b. os_file os p = Some b \<longrightarrow> length b < 2 ^ 63"
  shows "unat t = unat tot + length (region_of os (map fst shards)) \<and>
    shards = zip (map fst shards) (map (\<lambda>k. tot + base_of os (map fst shards) k) [0..<length shards]) \<and>
    list_all2 (\<lambda>k b. \<exists>p. (if k > 0 then model_split_sibling_path path (of_nat k) count PATH_MAX else Some path) = Some p \<and>
        os_file os p = Some b) ks (map fst shards)"
  using assms(1)
proof (induction ks arbitrary: tot shards)
  case (Cons k ks)
  let ?name = "if k > 0 then model_split_sibling_path path (of_nat k) count PATH_MAX else Some path"
  from Cons.prems obtain p b sh where p: "?name = Some p" and b: "os_file os p = Some b"
    and no: "\<not> span_of os b > u64_max - tot" and r: "open_shards os path count ks (tot + span_of os b) = Inr (sh, t)"
    and sh: "shards = (b, tot) # sh"
    by (auto simp: Let_def split: option.splits if_splits sum.splits prod.splits)
  have ge: "length b \<le> unat (span_of os b)" using span_of_ge(1) small b by blast
  have add: "unat (tot + span_of os b) = unat tot + unat (span_of os b)"
    using no by (intro unat_add_exact) (simp add: u64_overflow_iff)
  note ih = Cons.IH [OF r]
  have len: "length (region_of os (map fst shards)) = unat (span_of os b) + length (region_of os (map fst sh))"
    using ge by (simp add: sh)
  have "base_of os (map fst shards) (Suc j) = span_of os b + base_of os (map fst sh) j" for j
    using ge by (simp add: base_of_def sh)
  then have "map (\<lambda>k. tot + base_of os (map fst shards) k) [0..<length shards] =
      tot # map (\<lambda>k. tot + span_of os b + base_of os (map fst sh) k) [0..<length sh]"
    by (simp add: sh base_of_def add.assoc upt_conv_Cons map_Suc_upt [symmetric] comp_def del: upt.simps)
  then show ?case using ih p b sh len add by (simp add: algebra_simps)
qed simp

lemma join_shards_fst:
  "fst (join_shards ss acc mx) = acc @ concat (map (\<lambda>(s, base). map (rebase base) (m_tensors s)) ss)"
  by (induction ss acc mx rule: join_shards.induct) simp_all

lemma parse_shards_Inr:
  "parse_shards os sh tot = Inr (ss, t) \<Longrightarrow>
   list_all2 (\<lambda>(b, base) (s, base'). model_parse_shard (os_alloc os) b = Inr s \<and> base' = base) sh ss"
proof (induction os sh tot arbitrary: ss rule: parse_shards.induct)
  case (2 os b base sh tot)
  then show ?case by (auto split: sum.split_asm if_split_asm prod.split_asm)
qed auto

lemma rebase_0 [simp]: "rebase 0 t = t" "map (rebase 0) ts = ts"
  by (simp_all add: rebase_def map_idI)

text \<open>The joined table, part by part.\<close>

lemma concat_rebase:
  assumes "list_all2 (\<lambda>(b, base) (s, base'). P b s \<and> base' = base) (zip bs (map f [0..<length bs])) ss"
  shows "list_all2 P bs (map fst ss)"
    and "concat (map (\<lambda>(s, base). map (rebase base) (m_tensors s)) ss) =
      concat (map (\<lambda>k. map (rebase (f k)) (m_tensors (fst (ss ! k)))) [0..<length bs])"
proof -
  have len: "length ss = length bs" using list_all2_lengthD [OF assms] by simp
  have nth: "P (bs ! k) (fst (ss ! k)) \<and> snd (ss ! k) = f k" if "k < length bs" for k
    using list_all2_nthD [OF assms, of k] that len by (auto split: prod.splits)
  then show "list_all2 P bs (map fst ss)" using len by (auto simp: list_all2_conv_all_nth)
  have "map (\<lambda>(s, base). map (rebase base) (m_tensors s)) ss = map (\<lambda>k. map (rebase (f k)) (m_tensors (fst (ss ! k)))) [0..<length bs]"
    using nth len by (intro nth_equalityI) (auto simp: split_def)
  then show "concat (map (\<lambda>(s, base). map (rebase base) (m_tensors s)) ss) =
      concat (map (\<lambda>k. map (rebase (f k)) (m_tensors (fst (ss ! k)))) [0..<length bs])" by simp
qed

lemma model_open_split_steps:
  assumes "model_open_split os path count = Inr m"
  obtains shards tot m1 ss tt where "open_shards os path count [0..<unat count] 0 = Inr (shards, tot)"
    "model_parse_shard (os_alloc os) (region_of os (map fst shards)) = Inr m1"
    "parse_shards os (tl shards) (m_n_tensors m1) = Inr (ss, tt)"
    "m_tensors m = fst (join_shards ss (m_tensors m1) (m_max_tensor_bytes m1))" "m_map m = m_map m1"
    "model_split_sibling_path path 0 count PATH_MAX = Some path"
  using assms
  by (auto simp: model_open_split_def Let_def split_def split: if_split_asm sum.split_asm)

text \<open>The parts of a split model that opened, as the loops leave them.\<close>

definition parts_of :: "os \<Rightarrow> bytes \<Rightarrow> u32 \<Rightarrow> bytes list \<Rightarrow> bool" where
  "parts_of os path count bs \<longleftrightarrow> length bs = unat count \<and>
     (\<forall>k<length bs. \<exists>p. model_split_sibling_path path (of_nat k) count PATH_MAX = Some p \<and> os_file os p = Some (bs ! k))"

definition joined :: "os \<Rightarrow> bytes list \<Rightarrow> ds4_model list \<Rightarrow> ds4_tensor list" where
  "joined os bs shards = concat (map (\<lambda>k. map (rebase (base_of os bs k)) (m_tensors (shards ! k))) [0..<length bs])"

lemma upt_zero_Cons: "[0..<Suc n] = 0 # map Suc [0..<n]"
  by (simp add: map_Suc_upt upt_conv_Cons del: upt.simps)

lemma joined_Cons:
  "joined os (b # bs) (s # map fst ss) =
    m_tensors s @ concat (map (\<lambda>k. map (rebase (base_of os (b # bs) (Suc k))) (m_tensors (fst (ss ! k)))) [0..<length bs])"
  if "length ss = length bs"
  using that unfolding joined_def length_Cons upt_zero_Cons
  by (simp add: base_of_def comp_def del: upt.simps) (intro arg_cong [where f = concat] map_cong; simp)

lemma split_parts:
  assumes m: "model_open_split os path count = Inr m" and count: "0 < count"
    and b0: "os_file os path = Some b0" "model_parse_shard (os_alloc os) b0 = Inr m0"
    and small: "\<forall>p b. os_file os p = Some b \<longrightarrow> length b < 2 ^ 63"
  obtains bs shards where "parts_of os path count bs" "m_map m = region_of os bs" "length (region_of os bs) < 2 ^ 64"
    "list_all2 (\<lambda>b s. model_parse_shard (os_alloc os) b = Inr s) bs shards" "m_tensors m = joined os bs shards"
proof -
  obtain shards tot m1 ss tt where o: "open_shards os path count [0..<unat count] 0 = Inr (shards, tot)"
    and m1: "model_parse_shard (os_alloc os) (region_of os (map fst shards)) = Inr m1"
    and ps: "parse_shards os (tl shards) (m_n_tensors m1) = Inr (ss, tt)"
    and mt: "m_tensors m = fst (join_shards ss (m_tensors m1) (m_max_tensor_bytes m1))" "m_map m = m_map m1"
    and first: "model_split_sibling_path path 0 count PATH_MAX = Some path"
    using m by (rule model_open_split_steps)
  define bs where "bs = map fst shards"
  note op = open_shards_Inr [OF o small, folded bs_def]
  have len: "length bs = unat count" "length shards = length bs" using op by (auto simp: bs_def dest: list_all2_lengthD)
  have nth: "\<exists>p. model_split_sibling_path path (of_nat k) count PATH_MAX = Some p \<and> os_file os p = Some (bs ! k)" if "k < length bs" for k
    using list_all2_nthD2 [OF conjunct2 [OF conjunct2 [OF op]] that] that first len by (auto split: if_splits)
  then have parts: "parts_of os path count bs" using len by (simp add: parts_of_def)
  have "0 < length bs" using len count by (simp add: unat_gt_0)
  then obtain bs' where bs: "bs = b0 # bs'"
    using nth [of 0] first b0(1) by (cases bs) auto
  have reg: "length (region_of os bs) < 2 ^ 64" using op unat_u64_bound [of tot] by simp
  define e where "e = replicate (unat (span_of os b0) - length b0) 0 @ region_of os bs'"
  have be: "region_of os bs = b0 @ e" by (simp add: bs e_def)
  have m1': "m1 = m0\<lparr>m_map := b0 @ e, m_size := of_nat (length (b0 @ e))\<rparr>"
    using model_parse_extend [OF b0(2), of e] reg m1 be by (simp add: bs_def [symmetric])
  have "map (\<lambda>k. base_of os bs k) [0..<length shards] = 0 # map (\<lambda>k. base_of os bs (Suc k)) [0..<length bs']"
    using len(2) by (simp only: bs length_Cons upt_zero_Cons) (simp add: base_of_def [of _ _ 0] comp_def)
  then have "tl shards = zip bs' (map (\<lambda>k. base_of os bs (Suc k)) [0..<length bs'])"
    using op by (metis (no_types, lifting) add_0 bs list.map_cong0 list.sel(3) zip_Cons_Cons)
  note cr = concat_rebase [OF parse_shards_Inr [OF ps, unfolded this]]
  have "m_tensors m = joined os bs (m0 # map fst ss)"
    using list_all2_lengthD [OF cr(1)] cr(2) by (simp add: mt(1) join_shards_fst m1' bs joined_Cons)
  moreover have "list_all2 (\<lambda>b s. model_parse_shard (os_alloc os) b = Inr s) bs (m0 # map fst ss)" using cr(1) b0(2) bs by simp
  moreover have "m_map m = region_of os bs" by (simp add: mt(2) m1' be)
  ultimately show ?thesis using that parts reg by blast
qed

text \<open>
  C18. Opening a split model: when the first file announces more than one part and the model opens, its parts are the files
  with the conventional names, in order, each of them a valid file of its own; the tensor table is that of the
  parts, one after the other; and for every tensor the bytes at its address in the joined range are the bytes of its own
  part at the offset recorded there, wholly inside that part. This includes the first part, whose table is read again
  against the whole range: what was accepted for the file alone is read the same way from the range.
\<close>

theorem split_tensors_resolve:
  assumes "model_open os path = Inr m" "os_file os path = Some b" "parse_header (os_alloc os) b = Inr (m0, c)"
    and "split_count_of m0 = count" "1 < count" "\<forall>p b. os_file os p = Some b \<longrightarrow> length b < 2 ^ 63"
  shows "\<exists>bs shards. parts_of os path count bs \<and> m_map m = region_of os bs \<and>
    list_all2 (\<lambda>b s. model_parse_shard (os_alloc os) b = Inr s) bs shards \<and> m_tensors m = joined os bs shards \<and>
    (\<forall>k<length bs. \<forall>t\<in>set (m_tensors (shards ! k)). t_bytes t \<noteq> 0 \<longrightarrow>
      unat (t_abs_offset t) + unat (t_bytes t) \<le> length (bs ! k) \<and>
      bslice (unat (t_abs_offset (rebase (base_of os bs k) t))) (unat (t_bytes t)) (m_map m) =
      bslice (unat (t_abs_offset t)) (unat (t_bytes t)) (bs ! k))"
proof -
  from assms obtain m' c' where p: "parse_tensors (os_alloc os) m0 c = Inr (m', c')" and s: "model_open_split os path count = Inr m"
    by (auto simp: model_open_def split: if_split_asm sum.split_asm prod.split_asm)
  have "model_parse_shard (os_alloc os) b = Inr m'" using assms(3) p by (simp add: model_parse_shard_def)
  moreover have "0 < count" using assms(5) by (simp add: word_less_nat_alt)
  ultimately obtain bs shards where ps: "parts_of os path count bs" "m_map m = region_of os bs" "length (region_of os bs) < 2 ^ 64"
    "list_all2 (\<lambda>b s. model_parse_shard (os_alloc os) b = Inr s) bs shards" "m_tensors m = joined os bs shards"
    using split_parts [OF s _ assms(2) _ assms(6)] by blast
  have "unat (t_abs_offset t) + unat (t_bytes t) \<le> length (bs ! k) \<and>
      bslice (unat (t_abs_offset (rebase (base_of os bs k) t))) (unat (t_bytes t)) (m_map m) =
      bslice (unat (t_abs_offset t)) (unat (t_bytes t)) (bs ! k)"
    if k: "k < length bs" and t: "t \<in> set (m_tensors (shards ! k))" "t_bytes t \<noteq> 0" for k t
  proof -
    have small: "length (bs ! k) < 2 ^ 63" using ps(1) k assms(6) by (auto simp: parts_of_def)
    have "model_parse_shard (os_alloc os) (bs ! k) = Inr (shards ! k)" using list_all2_nthD [OF ps(4) k] .
    note in_file = model_parse_tensor_inside [OF this small t]
    have b: "length (region_of os (take k bs)) + length (bs ! k) \<le> length (region_of os bs)"
      using region_slice(2) [OF k, of 0 0] by simp
    then have "unat (base_of os bs k) = length (region_of os (take k bs))"
      using ps(3) unfolding base_of_def by (intro unat_of_length) linarith
    then have "unat (t_abs_offset (rebase (base_of os bs k) t)) = length (region_of os (take k bs)) + unat (t_abs_offset t)"
      using in_file b ps(3) by (simp add: rebase_def) (subst unat_add_exact; simp)
    then show ?thesis using region_slice(1) [OF k in_file] in_file ps(2) by simp
  qed
  then show ?thesis using ps by blast
qed

text \<open>Two parts, each with one tensor: the first announces both and the total number of tensors.\<close>

definition part_one :: bytes where
  "part_one = gguf_dir [(lit ''split.count'', Scalar GGUF_VALUE_UINT16 [2, 0]),
       (lit ''split.tensors.count'', Scalar GGUF_VALUE_INT32 [2, 0, 0, 0])]
     [\<lparr>d_name = lit ''a'', d_dims = [4], d_type = 24, d_offset = 0\<rparr>] @ replicate 64 1"

definition part_two :: bytes where
  "part_two = gguf_dir [] [\<lparr>d_name = lit ''b'', d_dims = [2, 2], d_type = 24, d_offset = 0\<rparr>] @ replicate 64 2"

definition two_files :: os where
  "two_files = \<lparr>os_page = 128,
     os_file = (\<lambda>p. if p = lit ''m-00001-of-00002.gguf'' then Some part_one
       else if p = lit ''m-00002-of-00002.gguf'' then Some part_two else None),
     os_alloc = (\<lambda>_. True), os_mmap = (\<lambda>_. True)\<rparr>"

lemma two_files_open:
  "(case parse_header (os_alloc two_files) part_one of Inr (m, _) \<Rightarrow> split_count_of m = 2 | Inl _ \<Rightarrow> False)"
  "(case model_open two_files (lit ''m-00001-of-00002.gguf'') of
      Inr m \<Rightarrow> map t_name (m_tensors m) = [lit ''a'', lit ''b''] | Inl _ \<Rightarrow> False)"
  by code_simp+

theorem split_tensors_resolve_witness:
  "\<exists>m bs shards. model_open two_files (lit ''m-00001-of-00002.gguf'') = Inr m \<and>
     parts_of two_files (lit ''m-00001-of-00002.gguf'') 2 bs \<and> m_tensors m = joined two_files bs shards \<and> length (m_tensors m) = 2"
proof -
  obtain m where m: "model_open two_files (lit ''m-00001-of-00002.gguf'') = Inr m" "map t_name (m_tensors m) = [lit ''a'', lit ''b'']"
    using two_files_open(2) by (auto split: sum.splits)
  obtain m0 c where h: "parse_header (os_alloc two_files) part_one = Inr (m0, c)" "split_count_of m0 = 2"
    using two_files_open(1) by (auto split: sum.splits)
  have f: "os_file two_files (lit ''m-00001-of-00002.gguf'') = Some part_one" by (simp add: two_files_def)
  have "length part_one = 181" "length part_two = 129" by code_simp+
  then have small: "\<forall>p b. os_file two_files p = Some b \<longrightarrow> length b < 2 ^ 63" by (simp add: two_files_def)
  have "(1 :: u32) < 2" by simp
  from split_tensors_resolve [OF m(1) f h this small] m show ?thesis
    by (metis length_map length_Cons list.size(3) numeral_2_eq_2)
qed

end
