(* ===== verification/Http_Read.thy ===== *)
theory Http_Read
  imports Json_Text
begin

section \<open>Reading HTTP requests\<close>

text \<open>
  \<open>read_http_request\<close> of \<open>src/ds4_server.c\<close> and what it calls: finding the end of the header, the header fields that
  matter, bodies with a declared length and chunked bodies.

  A socket is the list of what its \<open>recv\<close> calls will meet: bytes that have arrived together, interruptions by
  a signal, an error; after the list the peer has closed. \<open>recv\<close> with a buffer smaller than what has arrived takes a
  part and leaves the rest. A buffer is its content; it ends with a zero byte, as \<open>buf_append\<close> keeps it. Whether
  \<open>DS4_SERVER_CHUNKED\<close> allows chunked bodies is the parameter \<open>chunked_on\<close>.
\<close>

datatype sock_event = Seg bytes | Intr | Err

type_synonym sock = "sock_event list"

datatype recv_result = Got bytes sock | Interrupted sock | Failed

text \<open>No bytes in a segment are no event.\<close>

fun recv :: "nat \<Rightarrow> sock \<Rightarrow> recv_result" where
  "recv n [] = Failed"
| "recv n (Intr # sk) = Interrupted sk"
| "recv n (Err # sk) = Failed"
| "recv n (Seg bs # sk) =
     (if bs = [] then recv n sk
      else if length bs \<le> n then Got bs sk
      else Got (take n bs) (Seg (drop n bs) # sk))"

text \<open>The bytes that a socket has still to deliver, and a measure of the calls it can answer.\<close>

fun sock_bytes :: "sock \<Rightarrow> bytes" where
  "sock_bytes [] = []"
| "sock_bytes (Seg bs # sk) = bs @ sock_bytes sk"
| "sock_bytes (Intr # sk) = sock_bytes sk"
| "sock_bytes (Err # sk) = []"

fun sock_left :: "sock \<Rightarrow> nat" where
  "sock_left [] = 0"
| "sock_left (Seg bs # sk) = Suc (length bs + sock_left sk)"
| "sock_left (Intr # sk) = Suc (sock_left sk)"
| "sock_left (Err # sk) = Suc (sock_left sk)"

fun clean :: "sock \<Rightarrow> bool" where
  "clean [] = True"
| "clean (Err # sk) = False"
| "clean (_ # sk) = clean sk"

lemma recv_Got:
  "recv n sk = Got bs sk' \<Longrightarrow> 0 < n \<Longrightarrow> bs \<noteq> [] \<and> sock_bytes sk = bs @ sock_bytes sk' \<and> sock_left sk' < sock_left sk \<and>
   length bs + sock_left sk' \<le> sock_left sk \<and> (clean sk \<longrightarrow> clean sk')"
  by (induction n sk rule: recv.induct) (auto split: if_splits)

lemma recv_Interrupted:
  "recv n sk = Interrupted sk' \<Longrightarrow> sock_bytes sk' = sock_bytes sk \<and> sock_left sk' < sock_left sk \<and> (clean sk \<longrightarrow> clean sk')"
  by (induction n sk rule: recv.induct) (auto split: if_splits)

lemma recv_Failed: "recv n sk = Failed \<Longrightarrow> clean sk \<Longrightarrow> sock_bytes sk = []"
  by (induction n sk rule: recv.induct) (auto split: if_splits)

subsection \<open>Header fields\<close>

definition max_header :: int where "max_header = 64 * 1024"
definition max_body :: int where "max_body = 64 * 1024 * 1024"

text \<open>The first index at which one of the endings is complete: \<open>CR LF CR LF\<close> anywhere, else \<open>LF LF\<close>.\<close>

fun find_sub :: "bytes \<Rightarrow> bytes \<Rightarrow> nat option" where
  "find_sub pat [] = None"
| "find_sub pat (c # cs) = (if take (length pat) (c # cs) = pat then Some 0 else map_option Suc (find_sub pat cs))"

definition header_end :: "bytes \<Rightarrow> nat option" where
  "header_end b =
     (case find_sub [13, 10, 13, 10] b of Some i \<Rightarrow> Some (i + 4)
      | None \<Rightarrow> (case find_sub [10, 10] b of Some i \<Rightarrow> Some (i + 2) | None \<Rightarrow> None))"

definition strncaseeq :: "bytes \<Rightarrow> string \<Rightarrow> bool" where
  "strncaseeq p s = (map c_lower (take (length s) p) = map c_lower (lit s))"

text \<open>
  The loop over the lines of a header. The position is the rest \<open>p\<close> of the buffer, of which \<open>k\<close> bytes belong to the
  header; \<open>f\<close> looks at a line from its start, of the given length without its line ending.
\<close>

function header_scan :: "(bytes \<Rightarrow> nat \<Rightarrow> 'a option) \<Rightarrow> bytes \<Rightarrow> nat \<Rightarrow> 'a option" where
  "header_scan f p k =
     (if k = 0 then None
      else let n = length (takeWhile (\<lambda>c. c \<noteq> 10) (take k p));
               len = (if 0 < n \<and> p ! (n - 1) = 13 then n - 1 else n)
           in case f p len of Some v \<Rightarrow> Some v | None \<Rightarrow> header_scan f (drop (n + 1) p) (k - (n + 1)))"
  by pat_completeness auto

termination by (relation "measure (\<lambda>(f, p, k). k)") auto

declare header_scan.simps [simp del]

text \<open>\<open>strtol\<close> and \<open>strtoul\<close>, the latter in base 16 with its optional prefix and the rest it stops at.\<close>

definition strtol10 :: "bytes \<Rightarrow> int" where
  "strtol10 p =
     (let p = dropWhile c_isspace p; neg = (p \<noteq> [] \<and> hd p = 45); p = (if p \<noteq> [] \<and> (hd p = 45 \<or> hd p = 43) then tl p else p);
          v = digits_val 10 (takeWhile c_isdigit p)
      in if neg then max (- v) (- (2 ^ 63)) else min v (2 ^ 63 - 1))"

definition c_isxdigit8 :: "u8 \<Rightarrow> bool" where
  "c_isxdigit8 c \<longleftrightarrow> 0 \<le> json_hex c"

definition strtoul16 :: "bytes \<Rightarrow> int \<times> bytes" where
  "strtoul16 p =
     (let q = (case p of a # x # d # r \<Rightarrow> if a = 48 \<and> (x = 120 \<or> x = 88) \<and> c_isxdigit8 d then d # r else p | _ \<Rightarrow> p)
      in (min (digits_val 16 (takeWhile c_isxdigit8 q)) (2 ^ 64 - 1), dropWhile c_isxdigit8 q))"

definition header_accepts_json :: "bytes \<Rightarrow> nat \<Rightarrow> bool" where
  "header_accepts_json h n =
     (header_scan (\<lambda>line len. if len \<ge> 7 \<and> strncaseeq line ''Accept:'' \<and>
           list_ex (\<lambda>i. strncaseeq (drop i line) ''application/json'') [7..<len + 1 - 16] then Some () else None) h n \<noteq> None)"

definition content_length :: "bytes \<Rightarrow> nat \<Rightarrow> int" where
  "content_length h n =
     (case header_scan (\<lambda>line len. if len \<ge> 15 \<and> strncaseeq line ''Content-Length:''
           then let v = drop 15 line; ws = length (takeWhile c_isspace (take (len - 15) v)) in Some (strtol10 (drop ws v))
           else None) h n of
        Some v \<Rightarrow> v | None \<Rightarrow> 0)"

definition header_chunked :: "bytes \<Rightarrow> nat \<Rightarrow> bool" where
  "header_chunked h n =
     (header_scan (\<lambda>line len. if len \<ge> 18 \<and> strncaseeq line ''Transfer-Encoding:'' \<and>
           list_ex (\<lambda>i. strncaseeq (drop i line) ''chunked'') [18..<len + 1 - 7] then Some () else None) h n \<noteq> None)"

subsection \<open>Pulling bytes\<close>

text \<open>\<open>while (b->len < want)\<close> with its \<open>recv\<close>.\<close>

function pull_until :: "nat \<Rightarrow> sock \<Rightarrow> bytes \<Rightarrow> (bytes \<times> sock) option" where
  "pull_until want sk b =
     (if length b < want
      then (case recv 8192 sk of
              Interrupted sk' \<Rightarrow> pull_until want sk' b
            | Failed \<Rightarrow> None
            | Got bs sk' \<Rightarrow> pull_until want sk' (b @ bs))
      else Some (b, sk))"
  by pat_completeness auto

termination by (relation "measure (\<lambda>(want, sk, b). sock_left sk)") (auto dest: recv_Got recv_Interrupted)

declare pull_until.simps [simp del]

function chunk_line_end :: "sock \<Rightarrow> bytes \<Rightarrow> nat \<Rightarrow> nat \<Rightarrow> nat \<Rightarrow> (nat \<times> bytes \<times> sock) option" where
  "chunk_line_end sk b pos scan max_line =
     (case find_sub [10] (drop scan b) of
        Some i \<Rightarrow> Some (scan + i + 1, b, sk)
      | None \<Rightarrow>
          if length b - pos > max_line then None
          else (case recv 8192 sk of
                  Interrupted sk' \<Rightarrow> chunk_line_end sk' b pos (max scan (length b)) max_line
                | Failed \<Rightarrow> None
                | Got bs sk' \<Rightarrow> chunk_line_end sk' (b @ bs) pos (max scan (length b)) max_line))"
  by pat_completeness auto

termination by (relation "measure (\<lambda>(sk, b, pos, scan, max_line). sock_left sk)") (auto dest: recv_Got recv_Interrupted)

declare chunk_line_end.simps [simp del]

lemma find_sub_lf: "find_sub [10] b = Some i \<Longrightarrow> i < length b \<and> b ! i = 10 \<and> 10 \<notin> set (take i b)"
  by (induction b arbitrary: i) (auto simp: nth_Cons' split: if_splits)

lemma find_sub_lf_None: "find_sub [10] b = None \<longleftrightarrow> 10 \<notin> set b"
  by (induction b) auto

lemma chunk_line_end_left:
  assumes "chunk_line_end sk b pos scan mx = Some (le, b', sk')"
  shows "scan < le \<and> le \<le> length b' \<and> length b' + sock_left sk' \<le> length b + sock_left sk"
  using assms
proof (induction sk b pos scan mx rule: chunk_line_end.induct)
  case (1 sk b pos scan mx)
  show ?case
  proof (cases "find_sub [10] (drop scan b)")
    case None
    with "1.prems" have m: "\<not> length b - pos > mx" by (subst (asm) chunk_line_end.simps) (simp split: if_splits)
    show ?thesis
    proof (cases "recv 8192 sk")
      case (Got bs sk1)
      with "1.prems" None m have "chunk_line_end sk1 (b @ bs) pos (max scan (length b)) mx = Some (le, b', sk')"
        by (subst (asm) chunk_line_end.simps) simp
      from "1.IH"(1) [OF None m Got this] recv_Got [OF Got] show ?thesis by simp
    next
      case (Interrupted sk1)
      with "1.prems" None m have "chunk_line_end sk1 b pos (max scan (length b)) mx = Some (le, b', sk')"
        by (subst (asm) chunk_line_end.simps) simp
      from "1.IH"(2) [OF None m Interrupted this] recv_Interrupted [OF Interrupted] show ?thesis by simp
    next
      case Failed
      then show ?thesis using "1.prems" None m by (subst (asm) chunk_line_end.simps) simp
    qed
  next
    case (Some i)
    then show ?thesis using "1.prems" find_sub_lf [OF Some] by (subst (asm) chunk_line_end.simps) auto
  qed
qed

lemma pull_until_left:
  "pull_until want sk b = Some (b', sk') \<Longrightarrow> want \<le> length b' \<and> length b' + sock_left sk' \<le> length b + sock_left sk"
proof (induction want sk b rule: pull_until.induct)
  case (1 want sk b)
  have "(if length b < want then (case recv 8192 sk of Interrupted sk' \<Rightarrow> pull_until want sk' b | Failed \<Rightarrow> None
      | Got bs sk' \<Rightarrow> pull_until want sk' (b @ bs)) else Some (b, sk)) = Some (b', sk')"
    using "1.prems" by (subst (asm) pull_until.simps)
  then show ?case using "1.IH" by (fastforce dest: recv_Got recv_Interrupted split: if_splits recv_result.splits)
qed

subsection \<open>Chunked bodies\<close>

text \<open>
  The loop over the chunks: buffer, position and decoded body so far. A size line starts with a digit, so that
  \<open>strtoul\<close> meets neither blanks nor a sign; it stops inside the line, at the latest at the line feed.
\<close>

function chunked_loop :: "sock \<Rightarrow> bytes \<Rightarrow> nat \<Rightarrow> bytes \<Rightarrow> (bytes \<times> nat \<times> bytes \<times> sock) option" where
  "chunked_loop sk0 b0 pos0 body =
     (case chunk_line_end sk0 (drop pos0 b0) 0 0 8192 of
        None \<Rightarrow> None
      | Some (le, b, sk) \<Rightarrow>
          let (sz, endp) = strtoul16 b; c = cur (dropWhile (\<lambda>c. c = 32 \<or> c = 9) endp)
          in if \<not> c_isxdigit8 (b ! 0) then None
             else if c \<noteq> 59 \<and> c \<noteq> 13 \<and> c \<noteq> 10 then None
             else if sz = 0 then Some (b, le, body, sk)
             else if sz > max_body \<or> int (length body) + sz > max_body then None
             else (case pull_until (le + nat sz) sk b of
                     None \<Rightarrow> None
                   | Some (b1, sk1) \<Rightarrow>
                       (case chunk_line_end sk1 b1 (le + nat sz) (le + nat sz) 2 of
                          None \<Rightarrow> None
                        | Some (crlf, b2, sk2) \<Rightarrow>
                            let l2 = crlf - (le + nat sz)
                            in if \<not> (l2 = 1 \<or> l2 = 2 \<and> b2 ! (le + nat sz) = 13) then None
                               else chunked_loop sk2 b2 crlf (body @ bslice le (nat sz) b1))))"
  by pat_completeness auto

termination
proof (relation "measure (\<lambda>(sk, b, pos, body). length b - pos + sock_left sk)", goal_cases)
  case (2 sk0 b0 pos0 body x le y b sk z sz endp c w b1 sk1 v crlf u b2 sk2 l2)
  then show ?case
    by (auto dest!: chunk_line_end_left pull_until_left)
qed simp

declare chunked_loop.simps [simp del]

text \<open>The trailer: lines up to a blank one.\<close>

function trailer_loop :: "sock \<Rightarrow> bytes \<Rightarrow> nat \<Rightarrow> sock option" where
  "trailer_loop sk0 b0 pos =
     (case chunk_line_end sk0 b0 pos pos 8192 of
        None \<Rightarrow> None
      | Some (le, b, sk) \<Rightarrow>
          let linelen = le - pos
          in if linelen = 1 \<or> linelen = 2 \<and> b ! pos = 13 then Some sk else trailer_loop sk b le)"
  by pat_completeness auto

termination
  by (relation "measure (\<lambda>(sk, b, pos). length b - pos + sock_left sk)") (auto dest!: chunk_line_end_left)

declare trailer_loop.simps [simp del]

definition read_chunked_body :: "sock \<Rightarrow> bytes \<Rightarrow> nat \<Rightarrow> (bytes \<times> sock) option" where
  "read_chunked_body sk b pos =
     (case chunked_loop sk b pos [] of
        None \<Rightarrow> None
      | Some (b, pos, body, sk) \<Rightarrow> map_option (\<lambda>sk. (body, sk)) (trailer_loop sk b pos))"

subsection \<open>Requests\<close>

record http_request =
  hr_method :: bytes
  hr_path :: bytes
  hr_body :: bytes
  hr_accept_json :: bool

text \<open>\<open>sscanf (line, "%7s %255s")\<close> on the first line, cut to the buffer of 512 bytes and at a zero byte; the query is dropped.\<close>

definition scan_word :: "nat \<Rightarrow> bytes \<Rightarrow> (bytes \<times> bytes) option" where
  "scan_word n p =
     (let p = dropWhile c_isspace p; w = take n (takeWhile (\<lambda>c. \<not> c_isspace c) p)
      in if w = [] then None else Some (w, drop (length w) p))"

definition parse_request_line :: "bytes \<Rightarrow> (bytes \<times> bytes) option" where
  "parse_request_line line =
     (case scan_word 7 (cstr (take 511 line)) of
        None \<Rightarrow> None
      | Some (meth, p) \<Rightarrow> (case scan_word 255 p of None \<Rightarrow> None | Some (path, _) \<Rightarrow> Some (meth, takeWhile (\<lambda>c. c \<noteq> 63) path)))"

function read_head :: "sock \<Rightarrow> bytes \<Rightarrow> (bytes \<times> nat \<times> sock) option" where
  "read_head sk b =
     (if int (length b) < max_header
      then (case recv 4096 sk of
              Interrupted sk' \<Rightarrow> read_head sk' b
            | Failed \<Rightarrow> None
            | Got bs sk' \<Rightarrow> (case header_end (b @ bs) of Some hend \<Rightarrow> Some (b @ bs, hend, sk') | None \<Rightarrow> read_head sk' (b @ bs)))
      else None)"
  by pat_completeness auto

termination by (relation "measure (\<lambda>(sk, b). sock_left sk)") (auto dest: recv_Got recv_Interrupted)

declare read_head.simps [simp del]

definition read_http_request :: "bool \<Rightarrow> sock \<Rightarrow> (http_request \<times> sock) option" where
  "read_http_request chunked_on sk =
     (case read_head sk [] of
        None \<Rightarrow> None
      | Some (b, hend, sk) \<Rightarrow>
          (case parse_request_line (takeWhile (\<lambda>c. c \<noteq> 10) b) of
             None \<Rightarrow> None
           | Some (meth, path) \<Rightarrow>
               let clen = content_length b hend;
                   req = (\<lambda>body. \<lparr>hr_method = meth, hr_path = path, hr_body = body, hr_accept_json = header_accepts_json b hend\<rparr>)
               in if clen < 0 \<or> clen > max_body then None
                  else if header_chunked b hend \<and> chunked_on
                  then map_option (\<lambda>(body, sk). (req body, sk)) (read_chunked_body sk b hend)
                  else (case pull_until (hend + nat clen) sk b of
                          None \<Rightarrow> None
                        | Some (b, sk) \<Rightarrow> Some (req (bslice hend (nat clen) b), sk))))"

text \<open>Which handler a request reaches in \<open>client_main\<close>; \<open>known\<close> tells the model ids.\<close>

datatype endpoint = Ep_Options | Ep_Metrics | Ep_Stats | Ep_Models | Ep_Model bytes | Ep_Batch
  | Ep_Messages | Ep_Chat | Ep_Responses | Ep_Completions | Ep_Unknown

definition post_endpoint :: "http_request \<Rightarrow> endpoint" where
  "post_endpoint hr =
     (let post = (hr_method hr = lit ''POST''); path = hr_path hr
      in if post \<and> path = lit ''/v1/batch'' then Ep_Batch
         else if post \<and> path = lit ''/v1/messages'' then Ep_Messages
         else if post \<and> path = lit ''/v1/chat/completions'' then Ep_Chat
         else if post \<and> path = lit ''/v1/responses'' then Ep_Responses
         else if post \<and> path = lit ''/v1/completions'' then Ep_Completions
         else Ep_Unknown)"

definition client_endpoint :: "(bytes \<Rightarrow> bool) \<Rightarrow> http_request \<Rightarrow> endpoint" where
  "client_endpoint known hr =
     (let get = (hr_method hr = lit ''GET''); path = hr_path hr; pre = lit ''/v1/models/''
      in if hr_method hr = lit ''OPTIONS'' then Ep_Options
         else if get \<and> path = lit ''/metrics'' then Ep_Metrics
         else if get \<and> path = lit ''/v1/stats'' then Ep_Stats
         else if get \<and> path = lit ''/v1/models'' then Ep_Models
         else if get \<and> take (length pre) path = pre \<and> known (drop (length pre) path) then Ep_Model (drop (length pre) path)
         else post_endpoint hr)"

end
