(* ===== verification/Http_Stream.thy ===== *)
theory Http_Stream
  imports Http_Read
begin

section \<open>Requests arrive in pieces\<close>

text \<open>
  The reader sees a request in whatever pieces the network delivers it. Here it is shown to depend on the bytes
  alone, for requests as clients write them: whatever the pieces and interruptions, a request with a
  declared length or a chunked body is read as it was written.

  \<open>holds pos b sk S\<close>: the bytes from \<open>pos\<close> in the buffer and those the socket still has make up \<open>S\<close>.
\<close>

definition holds :: "nat \<Rightarrow> bytes \<Rightarrow> sock \<Rightarrow> bytes \<Rightarrow> bool" where
  "holds pos b sk S \<longleftrightarrow> clean sk \<and> pos \<le> length b \<and> drop pos b @ sock_bytes sk = S"

lemma holds_compact: "holds pos b sk S \<Longrightarrow> holds 0 (drop pos b) sk S"
  by (simp add: holds_def)

lemma holds_advance:
  "holds pos b sk (x @ S) \<Longrightarrow> pos + length x \<le> length b \<Longrightarrow> holds (pos + length x) b sk S \<and> bslice pos (length x) b = x"
proof -
  assume h: "holds pos b sk (x @ S)" and le: "pos + length x \<le> length b"
  from h have e: "drop pos b @ sock_bytes sk = x @ S" by (simp add: holds_def)
  have l: "length x \<le> length (drop pos b)" using le by simp
  then have t: "take (length x) (drop pos b) = x" using arg_cong [OF e, of "take (length x)"] by simp
  moreover have "drop (length x) (drop pos b) @ sock_bytes sk = S" using l arg_cong [OF e, of "drop (length x)"] by simp
  ultimately show ?thesis using h le by (simp add: holds_def bslice_def add.commute)
qed

lemma holds_recv_Got:
  "holds pos b sk S \<Longrightarrow> recv n sk = Got bs sk' \<Longrightarrow> 0 < n \<Longrightarrow> holds pos (b @ bs) sk' S"
  using recv_Got [of n sk bs sk'] by (simp add: holds_def)

lemma holds_recv_Interrupted:
  "holds pos b sk S \<Longrightarrow> recv n sk = Interrupted sk' \<Longrightarrow> holds pos b sk' S"
  using recv_Interrupted [of n sk sk'] by (simp add: holds_def)

lemma holds_recv_Failed: "holds pos b sk S \<Longrightarrow> recv n sk = Failed \<Longrightarrow> drop pos b = S"
  using recv_Failed [of n sk] by (simp add: holds_def)

lemma split_lf:
  assumes "xs @ 10 # ys = line @ 10 # rest" "10 \<notin> set xs" "(10 :: u8) \<notin> set line"
  shows "xs = line"
proof -
  have "takeWhile (\<lambda>c. c \<noteq> 10) (xs @ 10 # ys) = xs" "takeWhile (\<lambda>c. c \<noteq> 10) (line @ 10 # rest) = line"
    using assms(2,3) by (simp_all add: takeWhile_append)
  then show ?thesis using assms(1) by simp
qed

text \<open>The three loops that pull bytes, on a stream that has what they look for.\<close>

lemma chunk_line_end_stream:
  assumes "holds pos b sk (line @ 10 # rest)" "10 \<notin> set line" "length line \<le> mx"
    and "pos \<le> scan" "scan \<le> length b" "10 \<notin> set (take (scan - pos) (drop pos b))"
  shows "\<exists>b' sk'. chunk_line_end sk b pos scan mx = Some (pos + length line + 1, b', sk') \<and>
    holds pos b' sk' (line @ 10 # rest) \<and> pos + length line + 1 \<le> length b'"
  using assms
proof (induction sk b pos scan mx rule: chunk_line_end.induct)
  case (1 sk b pos scan mx)
  note h = "1.prems"(1)
  have sc: "drop pos b = take (scan - pos) (drop pos b) @ drop scan b"
    using "1.prems"(4) by (metis append_take_drop_id drop_drop le_add_diff_inverse2)
  have len: "length (take (scan - pos) (drop pos b)) = scan - pos" using "1.prems"(4,5) by simp
  show ?case
  proof (cases "find_sub [10] (drop scan b)")
    case (Some i)
    note f = find_sub_lf [OF Some]
    have "drop scan b = take i (drop scan b) @ 10 # drop (Suc i) (drop scan b)" using f by (metis id_take_nth_drop)
    then have "(take (scan - pos) (drop pos b) @ take i (drop scan b)) @ 10 # drop (Suc i) (drop scan b) @ sock_bytes sk = line @ 10 # rest"
      using h sc by (simp add: holds_def) (metis append.assoc append_Cons)
    then have "take (scan - pos) (drop pos b) @ take i (drop scan b) = line"
      by (rule split_lf) (use "1.prems"(2,6) f in auto)
    then have "length line = scan - pos + i" using len f by (metis length_append length_take min.absorb2 less_imp_le)
    then have "scan + i + 1 = pos + length line + 1" using "1.prems"(4) by simp
    then show ?thesis using Some h f by (subst chunk_line_end.simps) (auto simp: less_diff_conv)
  next
    case None
    then have no: "10 \<notin> set (drop pos b)" using "1.prems"(6) by (subst sc) (auto simp: find_sub_lf_None)
    have "length (drop pos b) \<le> length line"
    proof (rule ccontr)
      assume "\<not> length (drop pos b) \<le> length line"
      then have lt: "length line < length (drop pos b)" by simp
      have "(drop pos b @ sock_bytes sk) ! length line = 10" using h by (simp add: holds_def)
      then have "drop pos b ! length line = 10" using lt by (simp only: nth_append if_True)
      then show False using no lt by (metis nth_mem)
    qed
    then have m: "\<not> length b - pos > mx" using "1.prems"(3) by simp
    have no': "10 \<notin> set (take (max scan (length b) - pos) (drop pos (b @ bs)))" for bs
      using no "1.prems"(4,5) by (simp add: max_absorb2 take_append)
    show ?thesis
    proof (cases "recv 8192 sk")
      case (Got bs sk1)
      have "holds pos (b @ bs) sk1 (line @ 10 # rest)" using holds_recv_Got [OF h Got] by simp
      from "1.IH"(1) [OF None m Got this "1.prems"(2,3) _ _ no'] "1.prems"(4,5) show ?thesis
        using None m Got by (subst chunk_line_end.simps) (simp add: max_absorb2)
    next
      case (Interrupted sk1)
      have "holds pos b sk1 (line @ 10 # rest)" using holds_recv_Interrupted [OF h Interrupted] .
      from "1.IH"(2) [OF None m Interrupted this "1.prems"(2,3)] "1.prems"(4,5) no' [of "[]"] show ?thesis
        using None m Interrupted by (subst chunk_line_end.simps) (simp add: max_absorb2)
    next
      case Failed
      then have "10 \<in> set (drop pos b)" using holds_recv_Failed [OF h Failed] by simp
      then show ?thesis using no by simp
    qed
  qed
qed

corollary chunk_line_end_at:
  assumes "holds pos b sk (line @ 10 # rest)" "10 \<notin> set line" "length line \<le> mx"
  obtains b' sk' where "chunk_line_end sk b pos pos mx = Some (pos + length line + 1, b', sk')"
    "holds pos b' sk' (line @ 10 # rest)" "pos + length line + 1 \<le> length b'"
  using chunk_line_end_stream [OF assms, of pos] assms(1) that by (auto simp: holds_def)

lemma pull_until_stream:
  "holds pos b sk (x @ rest) \<Longrightarrow>
   \<exists>b' sk'. pull_until (pos + length x) sk b = Some (b', sk') \<and> holds pos b' sk' (x @ rest) \<and> pos + length x \<le> length b'"
proof (induction "pos + length x" sk b rule: pull_until.induct)
  case (1 sk b)
  show ?case
  proof (cases "length b < pos + length x")
    case True
    show ?thesis
    proof (cases "recv 8192 sk")
      case (Got bs sk1)
      from "1.hyps"(1) [OF True Got holds_recv_Got [OF "1.prems" Got]] show ?thesis
        using True Got by (subst pull_until.simps) simp
    next
      case (Interrupted sk1)
      from "1.hyps"(2) [OF True Interrupted holds_recv_Interrupted [OF "1.prems" Interrupted]] show ?thesis
        using True Interrupted by (subst pull_until.simps) simp
    next
      case Failed
      have "pos \<le> length b" "drop pos b = x @ rest" using holds_recv_Failed [OF "1.prems" Failed] "1.prems" by (auto simp: holds_def)
      then have "pos + length x \<le> length b" by (metis add_le_cancel_left le_add_diff_inverse length_append length_drop nat_le_iff_add)
      then show ?thesis using True by simp
    qed
  next
    case False
    then show ?thesis using "1.prems" by (subst pull_until.simps) simp
  qed
qed

subsection \<open>Chunked bodies as they are written\<close>

text \<open>A chunk: the digits of its size, what follows them on the line (blanks, extensions), and the data.\<close>

record chunk =
  ck_size :: bytes
  ck_ext :: bytes
  ck_data :: bytes

definition size_line :: "chunk \<Rightarrow> bytes" where
  "size_line c = ck_size c @ ck_ext c @ [13]"

definition wf_size_line :: "chunk \<Rightarrow> bool" where
  "wf_size_line c \<longleftrightarrow> ck_size c \<noteq> [] \<and> list_all c_isxdigit8 (ck_size c) \<and> 10 \<notin> set (ck_ext c) \<and> length (size_line c) \<le> 8192 \<and>
     digits_val 16 (ck_size c) = int (length (ck_data c)) \<and>
     (ck_ext c = [] \<or> hd (ck_ext c) \<in> {32, 9, 59}) \<and> hd (dropWhile (\<lambda>c. c = 32 \<or> c = 9) (ck_ext c @ [13])) \<in> {59, 13}"

definition wf_chunk :: "chunk \<Rightarrow> bool" where
  "wf_chunk c \<longleftrightarrow> wf_size_line c \<and> ck_data c \<noteq> []"

definition put_chunk :: "chunk \<Rightarrow> bytes" where
  "put_chunk c = size_line c @ [10] @ ck_data c @ [13, 10]"

definition wf_trailer :: "bytes \<Rightarrow> bool" where
  "wf_trailer t \<longleftrightarrow> t \<noteq> [] \<and> 10 \<notin> set t \<and> length t \<le> 8191"

definition put_chunked :: "chunk list \<Rightarrow> chunk \<Rightarrow> bytes list \<Rightarrow> bytes" where
  "put_chunked cs z ts = concat (map put_chunk cs) @ size_line z @ [10] @ concat (map (\<lambda>t. t @ [13, 10]) ts) @ [13, 10]"

lemma xdigit_no: "\<not> c_isxdigit8 10" "\<not> c_isxdigit8 13" "\<not> c_isxdigit8 32" "\<not> c_isxdigit8 9" "\<not> c_isxdigit8 59"
  "\<not> c_isxdigit8 120" "\<not> c_isxdigit8 88"
  by (simp_all add: c_isxdigit8_def json_hex_def)

lemma strtoul16_size:
  assumes "wf_size_line c" "length (ck_data c) < 2 ^ 64"
  shows "strtoul16 (size_line c @ 10 # rest) = (int (length (ck_data c)), ck_ext c @ 13 # 10 # rest)"
proof -
  let ?p = "size_line c @ 10 # rest"
  have nx: "ck_ext c @ 13 # 10 # rest = y # ys \<Longrightarrow> \<not> c_isxdigit8 y \<and> y \<noteq> 120 \<and> y \<noteq> 88" for y ys
    using assms(1) xdigit_no by (cases "ck_ext c") (auto simp: wf_size_line_def)
  have all: "\<forall>x\<in>set (ck_size c). c_isxdigit8 x" using assms(1) by (simp add: wf_size_line_def list_all_iff)
  have "\<not> (\<exists>a x d r. ?p = a # x # d # r \<and> (x = 120 \<or> x = 88))"
    using all nx assms(1) xdigit_no
    by (cases "ck_size c"; cases "tl (ck_size c)") (auto simp: size_line_def wf_size_line_def)
  then have q: "(case ?p of a # x # d # r \<Rightarrow> if a = 48 \<and> (x = 120 \<or> x = 88) \<and> c_isxdigit8 d then d # r else ?p | _ \<Rightarrow> ?p) = ?p"
    by (auto split: list.splits)
  have "takeWhile c_isxdigit8 ?p = ck_size c \<and> dropWhile c_isxdigit8 ?p = ck_ext c @ 13 # 10 # rest"
    using all nx by (cases "ck_ext c @ 13 # 10 # rest") (auto simp: size_line_def takeWhile_append dropWhile_append)
  then show ?thesis using q assms by (simp add: strtoul16_def Let_def wf_size_line_def)
qed

lemma size_line_ends:
  assumes "wf_size_line c"
  shows "cur (dropWhile (\<lambda>c. c = 32 \<or> c = 9) (ck_ext c @ 13 # 10 # rest)) \<in> {59, 13}"
proof -
  have "dropWhile (\<lambda>c. c = 32 \<or> c = 9) (ck_ext c @ 13 # 10 # rest) = dropWhile (\<lambda>c. c = 32 \<or> c = 9) (ck_ext c @ [13]) @ 10 # rest"
    by (simp add: dropWhile_append)
  moreover obtain y ys where "dropWhile (\<lambda>c. c = 32 \<or> c = 9) (ck_ext c @ [13]) = y # ys"
    by (cases "dropWhile (\<lambda>c. c = 32 \<or> c = 9) (ck_ext c @ [13])") (auto simp: dropWhile_append split: if_splits)
  ultimately show ?thesis using assms by (simp add: cur_def wf_size_line_def)
qed

lemma size_line_plain:
  assumes "wf_size_line c"
  shows "10 \<notin> set (size_line c)" "c_isxdigit8 (size_line c ! 0)" "size_line c \<noteq> []" "length (size_line c) \<le> 8192"
  using assms xdigit_no by (auto simp: wf_size_line_def size_line_def list_all_iff nth_append hd_conv_nth)

lemma trailer_loop_stream:
  assumes "holds pos b sk (concat (map (\<lambda>t. t @ [13, 10]) ts) @ [13, 10] @ rest)" "list_all wf_trailer ts"
  shows "\<exists>sk'. trailer_loop sk b pos = Some sk'"
  using assms
proof (induction ts arbitrary: sk b pos)
  case Nil
  then have "holds pos b sk ([13] @ 10 # rest)" by simp
  from chunk_line_end_at [OF this, of 8192] obtain b' sk' where c: "chunk_line_end sk b pos pos 8192 = Some (pos + 2, b', sk')"
    and h: "holds pos b' sk' ([13] @ 10 # rest)" "pos + 2 \<le> length b'" by auto
  have "b' ! pos = 13" using h by (simp add: holds_def) (metis Cons_nth_drop_Suc add_2_eq_Suc' append_Cons Suc_le_lessD Suc_leD list.inject)
  then show ?case using c by (subst trailer_loop.simps) simp
next
  case (Cons t ts)
  let ?rest = "concat (map (\<lambda>t. t @ [13, 10]) ts) @ [13, 10] @ rest"
  have t: "t \<noteq> []" "10 \<notin> set (t @ [13])" "length (t @ [13]) \<le> 8192" using Cons.prems(2) by (auto simp: wf_trailer_def)
  have "holds pos b sk ((t @ [13]) @ 10 # ?rest)" using Cons.prems(1) by simp
  from chunk_line_end_at [OF this t(2,3)] obtain b' sk' where
    c: "chunk_line_end sk b pos pos 8192 = Some (pos + length (t @ [13]) + 1, b', sk')"
    and h: "holds pos b' sk' ((t @ [13]) @ 10 # ?rest)" "pos + length (t @ [13]) + 1 \<le> length b'" by blast
  have "holds (pos + length (t @ [13, 10])) b' sk' ?rest" using holds_advance [of pos b' sk' "t @ [13, 10]" ?rest] h by simp
  from Cons.IH [OF this] Cons.prems(2) obtain sk2 where "trailer_loop sk' b' (pos + length (t @ [13, 10])) = Some sk2" by auto
  then show ?case using c t(1) by (subst trailer_loop.simps) (auto simp: Let_def neq_Nil_conv)
qed

text \<open>A turn of the loop reads a size line.\<close>

lemma size_line_read:
  assumes "holds pos b sk (size_line c @ 10 # R)" "wf_size_line c" "length (ck_data c) < 2 ^ 64"
  obtains b1 sk1 y where "chunk_line_end sk (drop pos b) 0 0 8192 = Some (length (size_line c) + 1, b1, sk1)"
    "holds (length (size_line c) + 1) b1 sk1 R" "b1 ! 0 = size_line c ! 0"
    "strtoul16 b1 = (int (length (ck_data c)), ck_ext c @ 13 # 10 # y)"
proof -
  note p = size_line_plain [OF assms(2)]
  from chunk_line_end_at [OF holds_compact [OF assms(1)] p(1,4)] obtain b1 sk1 where
    c: "chunk_line_end sk (drop pos b) 0 0 8192 = Some (length (size_line c) + 1, b1, sk1)"
    and h: "holds 0 b1 sk1 ((size_line c @ [10]) @ R)" "length (size_line c @ [10]) \<le> length b1" by auto
  note a = holds_advance [OF h(1)]
  have "take (length (size_line c @ [10])) b1 = size_line c @ [10]" using a h(2) by (simp add: bslice_def)
  then have b1: "b1 = size_line c @ 10 # drop (length (size_line c @ [10])) b1"
    by (metis append.assoc append_Cons append_Nil append_take_drop_id)
  have "strtoul16 b1 = (int (length (ck_data c)), ck_ext c @ 13 # 10 # drop (length (size_line c @ [10])) b1)"
    by (subst b1) (rule strtoul16_size [OF assms(2,3)])
  moreover have "b1 ! 0 = size_line c ! 0" using p(3) by (subst b1) (simp add: nth_append)
  ultimately show ?thesis using that c a h(2) by simp
qed

lemma bslice_two: "p + 2 \<le> length b \<Longrightarrow> bslice p 2 b = [x, y] \<Longrightarrow> b ! p = x"
  by (auto simp: bslice_def numeral_2_eq_2 take_Suc hd_drop_conv_nth split: if_splits)

lemma max_body_u64: "int n \<le> max_body \<Longrightarrow> n < 2 ^ 64"
  by (simp add: max_body_def)

lemma chunked_loop_last:
  assumes "holds pos b sk (size_line z @ 10 # rest)" "wf_size_line z" "ck_data z = []"
  shows "\<exists>b' le sk'. chunked_loop sk b pos body = Some (b', le, body, sk') \<and> holds le b' sk' rest"
proof -
  obtain b1 sk1 y where c: "chunk_line_end sk (drop pos b) 0 0 8192 = Some (length (size_line z) + 1, b1, sk1)"
    and h: "holds (length (size_line z) + 1) b1 sk1 rest" and b1: "b1 ! 0 = size_line z ! 0"
    and st: "strtoul16 b1 = (int (length (ck_data z)), ck_ext z @ 13 # 10 # y)"
    using size_line_read [OF assms(1,2)] assms(3) by auto
  have "chunked_loop sk b pos body = Some (b1, length (size_line z) + 1, body, sk1)"
    using c st b1 size_line_plain(2) [OF assms(2)] size_line_ends [OF assms(2), of y] assms(3)
    by (subst chunked_loop.simps) auto
  then show ?thesis using h by blast
qed

lemma chunked_loop_turn:
  assumes "holds pos b sk (put_chunk c @ R)" "wf_chunk c" "int (length body + length (ck_data c)) \<le> max_body"
  shows "\<exists>b' pos' sk'. chunked_loop sk b pos body = chunked_loop sk' b' pos' (body @ ck_data c) \<and> holds pos' b' sk' R"
proof -
  let ?n = "length (ck_data c)" let ?p = "length (size_line c) + 1"
  have wf: "wf_size_line c" "ck_data c \<noteq> []" using assms(2) by (auto simp: wf_chunk_def)
  have "holds pos b sk (size_line c @ 10 # ck_data c @ [13] @ 10 # R)" using assms(1) by (simp add: put_chunk_def)
  moreover have "?n < 2 ^ 64" using assms(3) by (intro max_body_u64) simp
  ultimately obtain b1 sk1 y where l: "chunk_line_end sk (drop pos b) 0 0 8192 = Some (?p, b1, sk1)"
    and h: "holds ?p b1 sk1 (ck_data c @ [13] @ 10 # R)" and b1: "b1 ! 0 = size_line c ! 0"
    and st: "strtoul16 b1 = (int ?n, ck_ext c @ 13 # 10 # y)"
    using size_line_read [OF _ wf(1)] by metis
  from pull_until_stream [OF h] obtain b2 sk2 where u: "pull_until (?p + ?n) sk1 b1 = Some (b2, sk2)"
    and h2: "holds ?p b2 sk2 (ck_data c @ [13] @ 10 # R)" "?p + ?n \<le> length b2" by blast
  note a = holds_advance [OF h2]
  from chunk_line_end_at [OF conjunct1 [OF a], of 2] obtain b3 sk3 where
    e: "chunk_line_end sk2 b2 (?p + ?n) (?p + ?n) 2 = Some (?p + ?n + 2, b3, sk3)"
    and h3: "holds (?p + ?n) b3 sk3 ([13, 10] @ R)" "?p + ?n + 2 \<le> length b3" by auto
  have a3: "holds (?p + ?n + 2) b3 sk3 R" "bslice (?p + ?n) 2 b3 = [13, 10]" using holds_advance [OF h3(1)] h3(2) by (auto simp: numeral_2_eq_2)
  then have "b3 ! (?p + ?n) = 13" using h3(2) by (simp add: bslice_two)
  then have "chunked_loop sk b pos body = chunked_loop sk3 b3 (?p + ?n + 2) (body @ ck_data c)"
    using l st b1 u e a wf(2) assms(3) size_line_plain(2) [OF wf(1)] size_line_ends [OF wf(1), of y]
    by (subst chunked_loop.simps) auto
  then show ?thesis using a3(1) by blast
qed

lemma chunked_loop_stream:
  assumes "holds pos b sk (concat (map put_chunk cs) @ size_line z @ 10 # rest)" "list_all wf_chunk cs"
    and "wf_size_line z" "ck_data z = []" "int (length body + length (concat (map ck_data cs))) \<le> max_body"
  shows "\<exists>b' le sk'. chunked_loop sk b pos body = Some (b', le, body @ concat (map ck_data cs), sk') \<and> holds le b' sk' rest"
  using assms(1,2,5)
proof (induction cs arbitrary: sk b pos body)
  case Nil
  then show ?case using chunked_loop_last assms(3,4) by simp
next
  case (Cons c cs)
  have "holds pos b sk (put_chunk c @ concat (map put_chunk cs) @ size_line z @ 10 # rest)" using Cons.prems(1) by simp
  from chunked_loop_turn [OF this, of body] Cons.prems obtain b' pos' sk' where
    "chunked_loop sk b pos body = chunked_loop sk' b' pos' (body @ ck_data c)"
    "holds pos' b' sk' (concat (map put_chunk cs) @ size_line z @ 10 # rest)" by auto
  then show ?case using Cons.IH [of pos' b' sk' "body @ ck_data c"] Cons.prems by simp
qed

lemma read_chunked_stream:
  assumes "holds pos b sk (put_chunked cs z ts @ rest)" "list_all wf_chunk cs" "wf_size_line z" "ck_data z = []"
    and "list_all wf_trailer ts" "int (length (concat (map ck_data cs))) \<le> max_body"
  shows "\<exists>sk'. read_chunked_body sk b pos = Some (concat (map ck_data cs), sk')"
proof -
  have "holds pos b sk (concat (map put_chunk cs) @ size_line z @ 10 # concat (map (\<lambda>t. t @ [13, 10]) ts) @ [13, 10] @ rest)"
    using assms(1) by (simp add: put_chunked_def)
  from chunked_loop_stream [OF this assms(2-4), of "[]"] assms(6) obtain b' le sk' where
    "chunked_loop sk b pos [] = Some (b', le, concat (map ck_data cs), sk')"
    "holds le b' sk' (concat (map (\<lambda>t. t @ [13, 10]) ts) @ [13, 10] @ rest)" by auto
  then show ?thesis using trailer_loop_stream [OF _ assms(5)] by (fastforce simp: read_chunked_body_def)
qed

end
