(* ===== verification/Http_Request.thy ===== *)
theory Http_Request
  imports Http_Stream
begin

section \<open>Whole requests\<close>

text \<open>
  The header of a request as its lines, each ended by \<open>CR LF\<close>, and a blank line: where it ends, what the three
  header scans find in it, and the reader on a whole request.
\<close>

definition render :: "bytes list \<Rightarrow> bytes" where
  "render ls = concat (map (\<lambda>l. l @ [13, 10]) ls) @ [13, 10]"

definition ok_line :: "bytes \<Rightarrow> bool" where
  "ok_line l \<longleftrightarrow> l \<noteq> [] \<and> 13 \<notin> set l \<and> 10 \<notin> set l"

lemma render_simps [simp]: "render [] = [13, 10]" "render (l # ls) = l @ 13 # 10 # render ls"
  by (simp_all add: render_def)

lemma length_render: "2 \<le> length (render ls)"
  by (simp add: render_def)

lemma render_start: "list_all ok_line ls \<Longrightarrow> \<exists>y ys. render ls = y # ys \<and> y \<noteq> 10 \<and> (ls \<noteq> [] \<longrightarrow> y \<noteq> 13)"
  by (cases ls; cases "hd ls") (auto simp: ok_line_def)

subsection \<open>The end of the header\<close>

lemma find_sub_skip: "p \<notin> set l \<Longrightarrow> find_sub (p # ps) (l @ s) = map_option (\<lambda>i. i + length l) (find_sub (p # ps) s)"
  by (induction l) (auto simp: option.map_comp comp_def option.map_ident)

lemma find_sub_short: "length s < length pat \<Longrightarrow> find_sub pat s = None"
proof (induction s)
  case (Cons c s)
  then have "take (length pat) (c # s) \<noteq> pat" by (metis length_take min.strict_order_iff nat_neq_iff)
  then show ?case using Cons by simp
qed simp

lemma find_sub_take:
  "pat \<noteq> [] \<Longrightarrow> find_sub pat s = Some i \<Longrightarrow> find_sub pat (take n s) = (if i + length pat \<le> n then Some i else None)"
proof (induction s arbitrary: i n)
  case (Cons c s)
  show ?case
  proof (cases "take (length pat) (c # s) = pat")
    case True
    then have i: "i = 0" using Cons.prems by simp
    show ?thesis
    proof (cases "length pat \<le> n")
      case le: True
      then have "take (length pat) (take n (c # s)) = pat" using True by (simp add: min_absorb1)
      then show ?thesis using i le Cons.prems by (cases n) (auto split: if_splits)
    next
      case False
      then show ?thesis using i by (simp add: find_sub_short)
    qed
  next
    case False
    then obtain j where j: "find_sub pat s = Some j" "i = Suc j" using Cons.prems by auto
    have ne: "take (length pat) (take n (c # s)) \<noteq> pat" if "find_sub pat (take n (c # s)) \<noteq> None"
    proof
      assume t: "take (length pat) (take n (c # s)) = pat"
      then have "length pat \<le> n" by (metis length_take min.bounded_iff order_refl)
      then show False using t False by (simp add: min_absorb1)
    qed
    show ?thesis
    proof (cases n)
      case (Suc m)
      then show ?thesis using Cons.IH [OF Cons.prems(1) j(1), of m] j(2) ne by (auto split: if_splits)
    qed (use Cons.prems in simp)
  qed
qed simp

lemma find_sub_take_None: "find_sub pat s = None \<Longrightarrow> find_sub pat (take n s) = None"
proof (induction s arbitrary: n)
  case (Cons c s)
  have "take (length pat) (take n (c # s)) \<noteq> pat"
  proof
    assume t: "take (length pat) (take n (c # s)) = pat"
    then have "length pat \<le> n" by (metis length_take min.bounded_iff order_refl)
    then show False using t Cons.prems by (simp add: min_absorb1 split: if_splits)
  qed
  then show ?case using Cons by (cases n) (auto split: if_splits)
qed simp

lemma render_crlf:
  assumes "list_all ok_line ls" "ls \<noteq> []"
  shows "find_sub [13, 10, 13, 10] (render ls @ rest) = Some (length (render ls) - 4)"
  using assms
proof (induction ls)
  case (Cons l ls)
  have l: "13 \<notin> set l" using Cons.prems by (auto simp: ok_line_def)
  show ?case
  proof (cases "ls = []")
    case True
    then show ?thesis by (simp add: find_sub_skip [OF l])
  next
    case False
    obtain y ys where y: "render ls = y # ys" "y \<noteq> 13" using render_start [of ls] Cons.prems False by auto
    have "length (render ls) \<ge> 4" using False length_render [of "tl ls"] by (cases ls) auto
    moreover have "find_sub [13, 10, 13, 10] (13 # 10 # render ls @ rest) =
        map_option (\<lambda>i. i + 2) (find_sub [13, 10, 13, 10] (render ls @ rest))"
      using y by (simp add: option.map_comp comp_def)
    ultimately show ?thesis using Cons False by (simp add: find_sub_skip [OF l] del: find_sub.simps)
  qed
qed simp

lemma render_lflf: "list_all ok_line ls \<Longrightarrow> find_sub [10, 10] (render ls) = None"
proof (induction ls)
  case (Cons l ls)
  have l: "10 \<notin> set l" using Cons.prems by (auto simp: ok_line_def)
  obtain y ys where "render ls = y # ys" "y \<noteq> 10" using render_start [of ls] Cons.prems by auto
  then show ?case using Cons by (simp add: find_sub_skip [OF l])
qed simp

lemma header_end_render:
  assumes "list_all ok_line ls" "ls \<noteq> []"
  shows "header_end (take n (render ls @ rest)) = (if length (render ls) \<le> n then Some (length (render ls)) else None)"
proof -
  have 4: "length (render ls) \<ge> 4" using assms(2) length_render [of "tl ls"] by (cases ls) auto
  have "find_sub [10, 10] (take n (render ls @ rest)) = None" if "n < length (render ls)"
    using that find_sub_take_None [OF render_lflf [OF assms(1)], of n] by simp
  then show ?thesis using find_sub_take [OF _ render_crlf [OF assms], of n rest] 4 by (auto simp: header_end_def)
qed

lemma read_head_stream:
  assumes "holds 0 b sk (render ls @ rest)" "length b < length (render ls)" "int (length (render ls)) \<le> max_header"
    and ls: "list_all ok_line ls" "ls \<noteq> []"
  shows "\<exists>b' sk'. read_head sk b = Some (b', length (render ls), sk') \<and> holds 0 b' sk' (render ls @ rest) \<and> length (render ls) \<le> length b'"
  using assms(1-3)
proof (induction sk b rule: read_head.induct)
  case (1 sk b)
  have m: "int (length b) < max_header" using "1.prems"(2,3) by linarith
  show ?case
  proof (cases "recv 4096 sk")
    case (Got bs sk1)
    have h: "holds 0 (b @ bs) sk1 (render ls @ rest)" using holds_recv_Got [OF "1.prems"(1) Got] by simp
    then have "(b @ bs) @ sock_bytes sk1 = render ls @ rest" by (simp add: holds_def)
    then have "b @ bs = take (length (b @ bs)) (render ls @ rest)" by (metis append_eq_conv_conj)
    from trans [OF arg_cong [OF this, of header_end] header_end_render [OF ls]]
    have e: "header_end (b @ bs) = (if length (render ls) \<le> length (b @ bs) then Some (length (render ls)) else None)" .
    show ?thesis
    proof (cases "length (render ls) \<le> length (b @ bs)")
      case True
      then show ?thesis using Got m e h by (subst read_head.simps) simp
    next
      case False
      then have "header_end (b @ bs) = None" "length (b @ bs) < length (render ls)" using e by auto
      from "1.IH"(1) [OF m Got this(1) h this(2) "1.prems"(3)] show ?thesis using Got m \<open>header_end (b @ bs) = None\<close>
        by (subst read_head.simps) simp
    qed
  next
    case (Interrupted sk1)
    from "1.IH"(2) [OF m Interrupted holds_recv_Interrupted [OF "1.prems"(1) Interrupted] "1.prems"(2,3)] show ?thesis
      using m Interrupted by (subst read_head.simps) simp
  next
    case Failed
    then show ?thesis using holds_recv_Failed [OF "1.prems"(1) Failed] "1.prems"(2) by simp
  qed
qed

subsection \<open>The fields of a header\<close>

fun first_of :: "('a \<Rightarrow> 'b option) \<Rightarrow> 'a list \<Rightarrow> 'b option" where
  "first_of g [] = None"
| "first_of g (l # ls) = (case g l of Some v \<Rightarrow> Some v | None \<Rightarrow> first_of g ls)"

text \<open>A scan whose test looks at the line only is the search through the lines.\<close>

lemma header_scan_render:
  assumes "list_all ok_line ls" "\<And>l x. l \<in> set ls \<Longrightarrow> f (l @ 13 # x) (length l) = g l" "\<And>x. f (13 # x) 0 = None"
  shows "header_scan f (render ls @ rest) (length (render ls)) = first_of g ls"
  using assms(1,2)
proof (induction ls)
  case Nil
  have "header_scan f (13 # 10 # rest) 2 = header_scan f rest 0"
  proof -
    have n: "length (takeWhile (\<lambda>c. c \<noteq> 10) (take 2 (13 # 10 # rest))) = 1" by simp
    show ?thesis using assms(3) [of "10 # rest"] by (subst header_scan.simps) (simp only: n Let_def, simp)
  qed
  then show ?case by (simp add: numeral_2_eq_2 header_scan.simps [of f rest 0])
next
  case (Cons l ls)
  let ?k = "length l + 2 + length (render ls)" let ?p = "l @ 13 # 10 # render ls @ rest"
  have l: "10 \<notin> set l" using Cons.prems(1) by (auto simp: ok_line_def)
  have "takeWhile (\<lambda>c. c \<noteq> 10) (take ?k ?p) = l @ [13]" using l by (simp add: takeWhile_append)
  then have n: "length (takeWhile (\<lambda>c. c \<noteq> 10) (take ?k ?p)) = length l + 1" by simp
  have d: "drop (length l + 1 + 1) ?p = render ls @ rest" "?k - (length l + 1 + 1) = length (render ls)" by simp_all
  have "header_scan f ?p ?k = (case g l of Some v \<Rightarrow> Some v | None \<Rightarrow> header_scan f (render ls @ rest) (length (render ls)))"
    using Cons.prems(2) [of l "10 # render ls @ rest"] by (subst header_scan.simps) (simp only: n d Let_def, simp add: nth_append)
  then show ?case using Cons by (simp add: ac_simps split: option.split)
qed

definition field_is :: "string \<Rightarrow> bytes \<Rightarrow> bool" where
  "field_is name l \<longleftrightarrow> length name \<le> length l \<and> strncaseeq l name"

definition field_has :: "string \<Rightarrow> string \<Rightarrow> bytes \<Rightarrow> bool" where
  "field_has name word l \<longleftrightarrow> field_is name l \<and> (\<exists>i. length name \<le> i \<and> i + length word \<le> length l \<and> strncaseeq (drop i l) word)"

lemma strncaseeq_append: "length s \<le> length l \<Longrightarrow> strncaseeq (l @ x) s = strncaseeq l s"
  by (simp add: strncaseeq_def)

lemma word_scan:
  assumes "list_all ok_line ls" "name \<noteq> []"
  shows "(header_scan (\<lambda>line len. if len \<ge> length name \<and> strncaseeq line name \<and>
       list_ex (\<lambda>i. strncaseeq (drop i line) word) [length name..<len + 1 - length word] then Some () else None)
     (render ls @ rest) (length (render ls)) \<noteq> None) = list_ex (field_has name word) ls" (is "(header_scan ?f _ _ \<noteq> None) = _")
proof -
  have "?f (l @ 13 # x) (length l) = (if field_has name word l then Some () else None)" for l x
  proof -
    have "strncaseeq (drop i (l @ 13 # x)) word = strncaseeq (drop i l) word" if "i < length l + 1 - length word" for i
    proof -
      have "drop i (l @ 13 # x) = drop i l @ 13 # x" using that by simp
      then show ?thesis using that strncaseeq_append [of word "drop i l" "13 # x"] by simp
    qed
    then have "list_ex (\<lambda>i. strncaseeq (drop i (l @ 13 # x)) word) [length name..<length l + 1 - length word] =
        (\<exists>i. length name \<le> i \<and> i + length word \<le> length l \<and> strncaseeq (drop i l) word)"
      by (auto simp: list_ex_iff less_diff_conv)
    then show ?thesis using strncaseeq_append [of name l "13 # x"] by (auto simp: field_has_def field_is_def)
  qed
  then have "header_scan ?f (render ls @ rest) (length (render ls)) = first_of (\<lambda>l. if field_has name word l then Some () else None) ls"
    by (intro header_scan_render assms(1)) (use assms(2) in auto)
  also have "(\<dots> \<noteq> None) = list_ex (field_has name word) ls" by (induction ls) auto
  finally show ?thesis by simp
qed

text \<open>The declared length: the first such field. Its value must not be blank, or \<open>strtol\<close> reads on behind the line.\<close>

definition declared_length :: "bytes list \<Rightarrow> int" where
  "declared_length ls = (case first_of (\<lambda>l. if field_is ''Content-Length:'' l then Some (strtol10 (drop 15 l)) else None) ls of
     Some v \<Rightarrow> v | None \<Rightarrow> 0)"

definition length_not_blank :: "bytes \<Rightarrow> bool" where
  "length_not_blank l \<longleftrightarrow> (field_is ''Content-Length:'' l \<longrightarrow> dropWhile c_isspace (drop 15 l) \<noteq> [])"

lemma strtol10_append:
  assumes "dropWhile c_isspace v \<noteq> []"
  shows "strtol10 (v @ 13 # x) = strtol10 v"
proof -
  have 1: "dropWhile c_isspace (v @ 13 # x) = dropWhile c_isspace v @ 13 # x" using assms by (auto simp: dropWhile_append)
  have 2: "takeWhile c_isdigit (w @ 13 # x) = takeWhile c_isdigit w" for w by (induction w) (auto simp: c_isdigit_def)
  obtain y ys where "dropWhile c_isspace v = y # ys" using assms by (cases "dropWhile c_isspace v") auto
  then show ?thesis using 2 [of ys] 2 [of "y # ys"] by (simp add: strtol10_def Let_def 1)
qed

lemma strtol10_skip: "strtol10 (drop (length (takeWhile c_isspace (take n v))) v) = strtol10 v"
proof -
  have "dropWhile c_isspace (drop (length (takeWhile c_isspace (take n v))) v) = dropWhile c_isspace v"
  proof (induction v arbitrary: n)
    case (Cons c v)
    then show ?case by (cases n) auto
  qed simp
  then show ?thesis by (simp add: strtol10_def)
qed

lemma content_length_render:
  assumes "list_all ok_line ls" "list_all length_not_blank ls"
  shows "content_length (render ls @ rest) (length (render ls)) = declared_length ls"
proof -
  let ?g = "\<lambda>l. if field_is ''Content-Length:'' l then Some (strtol10 (drop 15 l)) else None"
  have "(if length l \<ge> 15 \<and> strncaseeq (l @ 13 # x) ''Content-Length:''
      then let v = drop 15 (l @ 13 # x); ws = length (takeWhile c_isspace (take (length l - 15) v)) in Some (strtol10 (drop ws v))
      else None) = ?g l" if "l \<in> set ls" for l x
  proof (cases "field_is ''Content-Length:'' l")
    case True
    then have "dropWhile c_isspace (drop 15 l) \<noteq> []" using that assms(2) by (auto simp: list_all_iff length_not_blank_def)
    then show ?thesis using True strncaseeq_append [of "''Content-Length:''" l "13 # x"]
      by (simp add: field_is_def Let_def strtol10_skip strtol10_append)
  next
    case False
    then show ?thesis using strncaseeq_append [of "''Content-Length:''" l "13 # x"] by (auto simp: field_is_def)
  qed
  then show ?thesis unfolding content_length_def declared_length_def by (subst header_scan_render [OF assms(1), where g = ?g]) auto
qed

lemma header_accepts_json_render:
  assumes "list_all ok_line ls"
  shows "header_accepts_json (render ls @ rest) (length (render ls)) = list_ex (field_has ''Accept:'' ''application/json'') ls"
proof -
  have len: "length ''Accept:'' = 7" "length ''application/json'' = 16" "''Accept:'' \<noteq> []" by simp_all
  show ?thesis unfolding header_accepts_json_def using word_scan [OF assms len(3), unfolded len(1), of "''application/json''", unfolded len(2)] .
qed

lemma header_chunked_render:
  assumes "list_all ok_line ls"
  shows "header_chunked (render ls @ rest) (length (render ls)) = list_ex (field_has ''Transfer-Encoding:'' ''chunked'') ls"
proof -
  have len: "length ''Transfer-Encoding:'' = 18" "length ''chunked'' = 7" "''Transfer-Encoding:'' \<noteq> []" by simp_all
  show ?thesis unfolding header_chunked_def using word_scan [OF assms len(3), unfolded len(1), of "''chunked''", unfolded len(2)] .
qed

subsection \<open>A request as it is written\<close>

text \<open>The header: its lines, of a size that is accepted, with a request line and a length that is.\<close>

definition wf_head :: "bytes list \<Rightarrow> bool" where
  "wf_head ls \<longleftrightarrow> ls \<noteq> [] \<and> list_all ok_line ls \<and> list_all length_not_blank ls \<and> int (length (render ls)) \<le> max_header \<and>
     0 \<le> declared_length ls \<and> declared_length ls \<le> max_body"

text \<open>How the payload behind a header stands for a body: chunked if the header says so (and it is allowed), else as it is.\<close>

definition frames :: "bool \<Rightarrow> bytes list \<Rightarrow> bytes \<Rightarrow> bytes \<Rightarrow> bool" where
  "frames chunked_on ls payload body \<longleftrightarrow>
     (if list_ex (field_has ''Transfer-Encoding:'' ''chunked'') ls \<and> chunked_on
      then \<exists>cs z ts. payload = put_chunked cs z ts \<and> body = concat (map ck_data cs) \<and> list_all wf_chunk cs \<and>
             wf_size_line z \<and> ck_data z = [] \<and> list_all wf_trailer ts \<and> int (length body) \<le> max_body
      else payload = body \<and> int (length body) = declared_length ls)"

lemma takeWhile_render:
  "list_all ok_line ls \<Longrightarrow> ls \<noteq> [] \<Longrightarrow> takeWhile (\<lambda>c. c \<noteq> 10) (render ls @ rest) = hd ls @ [13]"
  by (cases ls) (auto simp: ok_line_def takeWhile_append)

text \<open>
  C16. A request is read as it was written, however the network cuts it: whatever the segments in which the bytes
  arrive and wherever a signal interrupts a receive, the reader returns the method and path of the request line
  and exactly the body, both for bodies of a declared length and for chunked ones with any
  chunk sizes, extensions and trailers, and whatever follows the request on the connection.
\<close>

theorem http_request_any_segments:
  assumes "clean sk" "sock_bytes sk = render ls @ payload @ rest" "wf_head ls"
    and "parse_request_line (hd ls @ [13]) = Some (meth, path)" "frames chunked_on ls payload body"
  shows "\<exists>sk'. read_http_request chunked_on sk =
    Some (\<lparr>hr_method = meth, hr_path = path, hr_body = body, hr_accept_json = list_ex (field_has ''Accept:'' ''application/json'') ls\<rparr>, sk')"
proof -
  let ?h = "length (render ls)"
  have wf: "list_all ok_line ls" "ls \<noteq> []" "list_all length_not_blank ls" "int ?h \<le> max_header"
    "0 \<le> declared_length ls" "declared_length ls \<le> max_body" using assms(3) by (auto simp: wf_head_def)
  have "holds 0 [] sk (render ls @ payload @ rest)" using assms(1,2) by (simp add: holds_def)
  moreover have "length ([] :: bytes) < ?h" using length_render [of ls] by (cases "render ls") simp_all
  ultimately obtain b sk1 where r: "read_head sk [] = Some (b, ?h, sk1)" and h: "holds 0 b sk1 (render ls @ payload @ rest)"
    and le: "?h \<le> length b" using read_head_stream [OF _ _ wf(4,1,2)] by blast
  have a: "holds ?h b sk1 (payload @ rest)" "take ?h b = render ls" using holds_advance [OF h] le by (auto simp: bslice_def)
  then have b: "b = render ls @ drop ?h b" by (metis append_take_drop_id)
  have f: "content_length b ?h = declared_length ls" "takeWhile (\<lambda>c. c \<noteq> 10) b = hd ls @ [13]"
    "header_accepts_json b ?h = list_ex (field_has ''Accept:'' ''application/json'') ls"
    "header_chunked b ?h = list_ex (field_has ''Transfer-Encoding:'' ''chunked'') ls"
    using content_length_render [OF wf(1,3)] header_accepts_json_render [OF wf(1)] header_chunked_render [OF wf(1)]
      takeWhile_render [OF wf(1,2)] b by metis+
  show ?thesis
  proof (cases "list_ex (field_has ''Transfer-Encoding:'' ''chunked'') ls \<and> chunked_on")
    case True
    then obtain cs z ts where c: "payload = put_chunked cs z ts" "body = concat (map ck_data cs)" "list_all wf_chunk cs"
      "wf_size_line z" "ck_data z = []" "list_all wf_trailer ts" "int (length body) \<le> max_body"
      using assms(5) unfolding frames_def by auto
    obtain sk2 where "read_chunked_body sk1 b ?h = Some (body, sk2)"
      using read_chunked_stream [OF a(1) [unfolded c(1)] c(3-6)] c(2,7) by blast
    then show ?thesis using True wf(5,6) assms(4) by (simp add: read_http_request_def r f)
  next
    case False
    then have p: "payload = body" "nat (declared_length ls) = length body" using assms(5) unfolding frames_def by auto
    from pull_until_stream [OF a(1)] p(1) obtain b' sk2 where u: "pull_until (?h + length body) sk1 b = Some (b', sk2)"
      and h': "holds ?h b' sk2 (body @ rest)" "?h + length body \<le> length b'" by blast
    have "bslice ?h (length body) b' = body" using holds_advance [OF h'] by simp
    then show ?thesis using False wf(5,6) assms(4) u p(2) by (auto simp: read_http_request_def r f)
  qed
qed

text \<open>A chunked post in two chunks that arrives in five pieces, two of them inside line endings.\<close>

definition sample_lines :: "bytes list" where
  "sample_lines = [lit ''POST /v1/messages?beta=true HTTP/1.1'', lit ''transfer-encoding: Chunked'', lit ''Accept: application/json'']"

definition sample_chunks :: "chunk list" where
  "sample_chunks = [\<lparr>ck_size = lit ''3'', ck_ext = lit '';a=b'', ck_data = [1, 10, 13]\<rparr>, \<lparr>ck_size = lit ''02'', ck_ext = lit '' '', ck_data = [4, 5]\<rparr>]"

definition sample_payload :: bytes where
  "sample_payload = put_chunked sample_chunks \<lparr>ck_size = lit ''0'', ck_ext = [], ck_data = []\<rparr> [lit ''X: y'']"

definition sample_sock :: sock where
  "sample_sock = (let s = render sample_lines @ sample_payload in [Seg (take 40 s), Intr, Seg (take 59 (drop 40 s)), Seg (take 4 (drop 99 s)), Intr, Seg (drop 103 s)])"

theorem http_request_any_segments_witness:
  "\<exists>sk'. read_http_request True sample_sock =
    Some (\<lparr>hr_method = lit ''POST'', hr_path = lit ''/v1/messages'', hr_body = [1, 10, 13, 4, 5], hr_accept_json = True\<rparr>, sk')"
proof -
  have wf: "wf_head sample_lines"
  proof -
    have "length (render sample_lines) = 94" "list_all ok_line sample_lines" "list_all length_not_blank sample_lines"
      "declared_length sample_lines = 0" by code_simp+
    then show ?thesis by (simp add: wf_head_def max_header_def max_body_def) (simp add: sample_lines_def)
  qed
  have te: "field_has ''Transfer-Encoding:'' ''chunked'' (lit ''transfer-encoding: Chunked'')"
    unfolding field_has_def by (intro conjI exI [of _ 19]) code_simp+
  have ac: "field_has ''Accept:'' ''application/json'' (lit ''Accept: application/json'')"
    unfolding field_has_def by (intro conjI exI [of _ 8]) code_simp+
  have "list_all wf_chunk sample_chunks" "wf_size_line \<lparr>ck_size = lit ''0'', ck_ext = [], ck_data = []\<rparr>" "list_all wf_trailer [lit ''X: y'']"
    by (simp_all add: sample_chunks_def wf_chunk_def wf_size_line_def wf_trailer_def size_line_def lit_def digits_val_def json_hex_def c_isxdigit8_def)
  then have fr: "frames True sample_lines sample_payload [1, 10, 13, 4, 5]"
    using te by (auto simp: frames_def sample_lines_def sample_payload_def sample_chunks_def max_body_def
        intro!: exI [of _ sample_chunks] exI [of _ "\<lparr>ck_size = lit ''0'', ck_ext = [], ck_data = []\<rparr>"] exI [of _ "[lit ''X: y'']"])
  have "clean sample_sock" "sock_bytes sample_sock = render sample_lines @ sample_payload @ []"
    "parse_request_line (hd sample_lines @ [13]) = Some (lit ''POST'', lit ''/v1/messages'')" by code_simp+
  from http_request_any_segments [OF this(1,2) wf this(3) fr] show ?thesis using ac by (simp add: sample_lines_def)
qed

subsection \<open>Bounds\<close>

lemma chunked_loop_bound:
  "chunked_loop sk b pos body = Some (b', le, out, sk') \<Longrightarrow> int (length body) \<le> max_body \<Longrightarrow> int (length out) \<le> max_body"
proof (induction "length b - pos + sock_left sk" arbitrary: sk b pos body rule: less_induct)
  case less
  obtain n b1 sk1 sz ep where l: "chunk_line_end sk (drop pos b) 0 0 8192 = Some (n, b1, sk1)" and st: "strtoul16 b1 = (sz, ep)"
    using less.prems(1) by (subst (asm) chunked_loop.simps) (auto split: option.splits prod.splits)
  show ?case
  proof (cases "sz = 0")
    case True
    then show ?thesis using less.prems l st by (subst (asm) chunked_loop.simps) (auto simp: Let_def split: if_splits)
  next
    case False
    with less.prems(1) l st obtain b2 sk2 c b3 sk3 where fit: "\<not> (sz > max_body \<or> int (length body) + sz > max_body)"
      and u: "pull_until (n + nat sz) sk1 b1 = Some (b2, sk2)"
      and e: "chunk_line_end sk2 b2 (n + nat sz) (n + nat sz) 2 = Some (c, b3, sk3)"
      and r: "chunked_loop sk3 b3 c (body @ bslice n (nat sz) b2) = Some (b', le, out, sk')"
      by (subst (asm) chunked_loop.simps) (auto simp: Let_def split: if_splits option.splits prod.splits)
    have "length b3 - c + sock_left sk3 < length b - pos + sock_left sk"
      using chunk_line_end_left [OF l] pull_until_left [OF u] chunk_line_end_left [OF e] by auto
    moreover have "int (length (body @ bslice n (nat sz) b2)) \<le> max_body" using fit less.prems(2) by (auto simp: bslice_def)
    ultimately show ?thesis using less.hyps [OF _ r] by simp
  qed
qed

text \<open>
  C26. Whatever a client sends, a request that is accepted has a method of at most 7 bytes, a path of at most 255, and a
  body of at most 64 MiB, also when the body is chunked.
\<close>

theorem http_request_bounded:
  assumes "read_http_request chunked_on sk = Some (r, sk')"
  shows "int (length (hr_body r)) \<le> max_body \<and> length (hr_method r) \<le> 7 \<and> length (hr_path r) \<le> 255"
proof -
  have w: "length x \<le> n" if "scan_word n p = Some (x, q)" for n p x q
    using that by (auto simp: scan_word_def Let_def split: if_splits)
  obtain b hend sk1 where h: "read_head sk [] = Some (b, hend, sk1)"
    using assms by (auto simp: read_http_request_def split: option.splits)
  obtain meth path where pl: "parse_request_line (takeWhile (\<lambda>c. c \<noteq> 10) b) = Some (meth, path)"
    using assms h by (auto simp: read_http_request_def split: option.splits)
  define n where "n = nat (content_length b hend)"
  have ok: "int n \<le> max_body" using assms h pl by (auto simp: read_http_request_def Let_def n_def split: if_splits)
  have r: "hr_method r = meth" "hr_path r = path"
    using assms h pl by (auto simp: read_http_request_def Let_def split: if_splits option.splits)
  have body: "(\<exists>sk2. read_chunked_body sk1 b hend = Some (hr_body r, sk2)) \<or> (\<exists>b'. hr_body r = bslice hend n b')"
    using assms h pl by (auto simp: read_http_request_def Let_def n_def split: if_splits option.splits)
  have "length meth \<le> 7 \<and> length path \<le> 255"
    using pl by (auto simp: parse_request_line_def split: option.splits dest!: w intro: order_trans [OF length_takeWhile_le])
  moreover have "int (length (hr_body r)) \<le> max_body"
    using body
  proof
    assume "\<exists>sk2. read_chunked_body sk1 b hend = Some (hr_body r, sk2)"
    then show ?thesis using chunked_loop_bound [of sk1 b hend "[]"]
      by (auto simp: read_chunked_body_def max_body_def split: option.splits)
  next
    assume "\<exists>b'. hr_body r = bslice hend n b'"
    then show ?thesis using ok by (auto simp: bslice_def)
  qed
  ultimately show ?thesis using r by simp
qed

text \<open>The end of a header that uses bare line feeds is looked for only where no \<open>CR LF CR LF\<close> follows: a body that has
  one moves it, if the two arrive together.\<close>

definition lf_head :: bytes where
  "lf_head = lit ''POST / HTTP/1.1'' @ [10] @ lit ''Content-Length: 6'' @ [10, 10]"

theorem lf_header_depends_on_segments:
  "sock_bytes [Seg lf_head, Seg [1, 13, 10, 13, 10, 2]] = sock_bytes [Seg (lf_head @ [1, 13, 10, 13, 10, 2])] \<and>
   map_option (\<lambda>(r, _). hr_body r) (read_http_request True [Seg lf_head, Seg [1, 13, 10, 13, 10, 2]]) = Some [1, 13, 10, 13, 10, 2] \<and>
   read_http_request True [Seg (lf_head @ [1, 13, 10, 13, 10, 2])] = None"
  by code_simp

text \<open>A length field without a value takes the number that the next line, or the body, starts with.\<close>

definition blank_length_head :: bytes where
  "blank_length_head = lit ''POST / HTTP/1.1'' @ [13, 10] @ lit ''Content-Length:'' @ [13, 10, 13, 10]"

theorem blank_length_reads_on:
  "content_length (blank_length_head @ lit ''12'') (length blank_length_head) = 12 \<and>
   content_length (blank_length_head @ lit ''x'') (length blank_length_head) = 0"
  by code_simp

text \<open>A chunked body in two chunks, read from two segments.\<close>

definition chunked_post :: sock where
  "chunked_post = [Seg (lit ''POST /v1/batch HTTP/1.1'' @ [13, 10] @ lit ''Transfer-Encoding: chunked'' @ [13, 10, 13, 10] @ lit ''3'' @ [13]),
     Seg ([10] @ lit ''abc'' @ [13, 10] @ lit ''1'' @ [13, 10] @ lit ''d'' @ [13, 10] @ lit ''0'' @ [13, 10, 13, 10])]"

lemma chunked_post_read:
  "read_http_request True chunked_post =
     Some (\<lparr>hr_method = lit ''POST'', hr_path = lit ''/v1/batch'', hr_body = lit ''abcd'', hr_accept_json = False\<rparr>, [])"
  by code_simp

theorem http_request_bounded_witness:
  "case read_http_request True chunked_post of
     None \<Rightarrow> False
   | Some (r, _) \<Rightarrow> hr_body r = lit ''abcd'' \<and> int (length (hr_body r)) \<le> max_body \<and> length (hr_method r) \<le> 7 \<and> length (hr_path r) \<le> 255"
  using http_request_bounded [OF chunked_post_read] by (simp add: chunked_post_read)

end
