(* ===== verification/Tool_Map.thy ===== *)
theory Tool_Map
  imports Tool_Replay Kv_Store
begin

section \<open>Tool texts beside a checkpoint\<close>

text \<open>
  The trailer that the server adds to a checkpoint file: the exact texts of the tool calls that occur in the
  checkpoint's text, under their ids, so that a restarted server can replay them (\<open>kv_tool_map_*\<close> and
  \<open>find_next_dsml_tool_block\<close> of \<open>src/ds4_server.c\<close>). Measuring and writing walk the same blocks: the blocks of the text in
  order, each once, then possibly the block that the text breaks off in. A block is marked as seen with the
  number of the scan.

  Whether the file takes what is written is the parameter \<open>disk_ok\<close>; a file that does not, fails at the header.
\<close>

record block_form =
  bf_start :: bytes
  bf_end :: bytes
  bf_repeat :: bytes

definition DS4_DSML :: bytes where "DS4_DSML = [0xEF, 0xBD, 0x9C] @ lit ''DSML'' @ [0xEF, 0xBD, 0x9C]"
definition DS4_DSML_SHORT :: bytes where "DS4_DSML_SHORT = lit ''DSML'' @ [0xEF, 0xBD, 0x9C]"

definition tool_calls_tag :: "string \<Rightarrow> bytes \<Rightarrow> bytes" where
  "tool_calls_tag open_with d = lit open_with @ d @ lit ''tool_calls>''"

text \<open>A null \<open>repeat_start\<close> is the empty string.\<close>

definition kv_tool_block_forms :: "block_form list" where
  "kv_tool_block_forms =
    [\<lparr>bf_start = [10, 10] @ tool_calls_tag ''<'' DS4_DSML, bf_end = tool_calls_tag ''</'' DS4_DSML, bf_repeat = []\<rparr>,
     \<lparr>bf_start = tool_calls_tag ''<'' DS4_DSML, bf_end = tool_calls_tag ''</'' DS4_DSML, bf_repeat = []\<rparr>,
     \<lparr>bf_start = [10, 10] @ tool_calls_tag ''<'' DS4_DSML_SHORT, bf_end = tool_calls_tag ''</'' DS4_DSML_SHORT, bf_repeat = []\<rparr>,
     \<lparr>bf_start = tool_calls_tag ''<'' DS4_DSML_SHORT, bf_end = tool_calls_tag ''</'' DS4_DSML_SHORT, bf_repeat = []\<rparr>,
     \<lparr>bf_start = [10, 10] @ lit ''<tool_calls>'', bf_end = lit ''</tool_calls>'', bf_repeat = []\<rparr>,
     \<lparr>bf_start = lit ''<tool_calls>'', bf_end = lit ''</tool_calls>'', bf_repeat = []\<rparr>,
     \<lparr>bf_start = lit ''<|tool_call:start|>'', bf_end = lit ''<|tool_call:end|>'', bf_repeat = lit ''<|tool_call:start|>''\<rparr>,
     \<lparr>bf_start = [10] @ lit ''<tool_call>'', bf_end = lit ''</tool_call>'', bf_repeat = lit ''<tool_call>''\<rparr>,
     \<lparr>bf_start = lit ''<tool_call>'', bf_end = lit ''</tool_call>'', bf_repeat = lit ''<tool_call>''\<rparr>]"

subsection \<open>The next block of a text\<close>

definition block_step :: "bytes \<Rightarrow> block_form \<Rightarrow> (nat \<times> nat \<times> block_form) option \<Rightarrow> (nat \<times> nat \<times> block_form) option" where
  "block_step p f best =
     (case strstr p (bf_start f) of
        None \<Rightarrow> best
      | Some s \<Rightarrow>
          if (case best of Some (b, _) \<Rightarrow> s \<ge> b | None \<Rightarrow> False) then best
          else (case strstr (drop s p) (bf_end f) of None \<Rightarrow> best | Some e \<Rightarrow> Some (s, s + e + length (bf_end f), f)))"

definition best_block :: "bytes \<Rightarrow> block_form list \<Rightarrow> (nat \<times> nat \<times> block_form) option" where
  "best_block p forms = foldl (\<lambda>best f. block_step p f best) None forms"

text \<open>How far adjacent calls of the same form extend a block: the number of bytes behind its end.\<close>

function repeat_len :: "bytes \<Rightarrow> bytes \<Rightarrow> bytes \<Rightarrow> nat" where
  "repeat_len rs re q =
     (if rs = [] then 0
      else let ws = length (takeWhile c_isspace q)
        in if take (length rs) (drop ws q) \<noteq> rs then 0
           else (case strstr (drop (ws + length rs) q) re of
                   None \<Rightarrow> 0
                 | Some e \<Rightarrow> let n = ws + length rs + e + length re in n + repeat_len rs re (drop n q)))"
  by pat_completeness auto

termination
proof (relation "measure (\<lambda>(rs, re, q). length q)", goal_cases)
  case (2 rs re q ws e n)
  then have "q \<noteq> []" by auto
  then show ?case using 2 by auto
qed simp

declare repeat_len.simps [simp del]

definition find_next_dsml_tool_block :: "bytes \<Rightarrow> (nat \<times> nat) option" where
  "find_next_dsml_tool_block p =
     (case best_block p kv_tool_block_forms of
        None \<Rightarrow> None
      | Some (s, e, f) \<Rightarrow> Some (s, e + repeat_len (bf_repeat f) (bf_end f) (drop e p)))"

lemma strstr_length: "strstr s needle = Some i \<Longrightarrow> i + length needle \<le> length s"
proof (induction s arbitrary: i)
  case (Cons c s)
  show ?case
  proof (cases "take (length needle) (c # s) = needle")
    case True
    then have "length needle \<le> length (c # s)" by (metis length_take min.cobounded1)
    then show ?thesis using Cons.prems True by simp
  next
    case False
    then show ?thesis using Cons by (auto split: option.splits)
  qed
qed (auto split: if_splits)

definition block_in :: "bytes \<Rightarrow> (nat \<times> nat \<times> block_form) option \<Rightarrow> bool" where
  "block_in p r = (case r of None \<Rightarrow> True | Some (s, e, f) \<Rightarrow> s < e \<and> e \<le> length p)"

lemma block_step_in: "block_in p best \<Longrightarrow> bf_end f \<noteq> [] \<Longrightarrow> block_in p (block_step p f best)"
  using strstr_length [of p "bf_start f"] strstr_length [of "drop s p" "bf_end f" for s]
  by (fastforce simp: block_in_def block_step_def split: option.splits)

lemma best_block_in: "list_all (\<lambda>f. bf_end f \<noteq> []) fs \<Longrightarrow> block_in p (best_block p fs)"
proof -
  assume fs: "list_all (\<lambda>f. bf_end f \<noteq> []) fs"
  have "block_in p best \<Longrightarrow> block_in p (foldl (\<lambda>best f. block_step p f best) best fs)" for best
    using fs by (induction fs arbitrary: best) (simp_all add: block_step_in)
  then show ?thesis by (simp add: best_block_def block_in_def [of p None])
qed

lemma forms_ends: "list_all (\<lambda>f. bf_end f \<noteq> []) kv_tool_block_forms"
  by (simp add: kv_tool_block_forms_def tool_calls_tag_def lit_def)

lemma find_next_advances: "find_next_dsml_tool_block p = Some (s, e) \<Longrightarrow> s < e \<and> p \<noteq> []"
  using best_block_in [OF forms_ends, of p]
  by (fastforce simp: find_next_dsml_tool_block_def block_in_def split: option.splits prod.splits)

subsection \<open>The block a text breaks off in\<close>

text \<open>The occurrences of a marker, from a position on, as the loops over \<open>strstr\<close> meet them.\<close>

definition occurs :: "bytes \<Rightarrow> bytes \<Rightarrow> nat \<Rightarrow> nat list" where
  "occurs marker s from_pos = filter (\<lambda>i. take (length marker) (drop i s) = marker) [from_pos..<length s]"

definition tail_candidate :: "bytes \<Rightarrow> bytes \<Rightarrow> bytes \<Rightarrow> nat \<Rightarrow> nat \<Rightarrow> nat \<Rightarrow> nat" where
  "tail_candidate txt dsml marker block_marker best text_marker =
     (if text_marker \<ge> block_marker
      then let candidate = text_marker - block_marker; suffix_len = length txt - candidate
        in if suffix_len \<le> length dsml \<and> suffix_len \<ge> block_marker + length marker \<and>
              take suffix_len (drop candidate txt) = take suffix_len dsml \<and> suffix_len > best
           then suffix_len else best
      else best)"

definition tail_marker :: "bytes \<Rightarrow> bytes \<Rightarrow> bytes \<Rightarrow> nat \<Rightarrow> nat \<Rightarrow> nat" where
  "tail_marker txt dsml marker best block_marker =
     (let min_candidate = (if length txt > length dsml then length txt - length dsml else 0)
      in if block_marker \<le> length txt - min_candidate \<and> min_candidate + block_marker \<le> length txt
         then foldl (tail_candidate txt dsml marker block_marker) best (occurs marker txt (min_candidate + block_marker))
         else best)"

definition kv_tool_map_tail_prefix_len :: "bytes \<Rightarrow> bytes \<Rightarrow> nat" where
  "kv_tool_map_tail_prefix_len txt dsml =
     (if txt = [] \<or> dsml = [] then 0
      else foldl (\<lambda>best f. foldl (tail_marker txt dsml (bf_start f)) best (occurs (bf_start f) dsml 0)) 0 kv_tool_block_forms)"

text \<open>The best block so far, its length, and whether another block matches as much.\<close>

definition tail_entry :: "tool_memory \<Rightarrow> bytes \<Rightarrow> u64 \<Rightarrow> bytes option \<times> nat \<times> bool \<Rightarrow> bytes \<Rightarrow> bytes option \<times> nat \<times> bool" where
  "tail_entry m txt scan = (\<lambda>(best, best_len, ambiguous) cid.
     (case tm_by_id m cid of
        None \<Rightarrow> (best, best_len, ambiguous)
      | Some e \<Rightarrow>
          (case tm_by_block m (te_block e) of
             None \<Rightarrow> (best, best_len, ambiguous)
           | Some b \<Rightarrow>
               if tb_seen b = scan \<or> best = Some (te_block e) then (best, best_len, ambiguous)
               else let matched = kv_tool_map_tail_prefix_len txt (te_block e)
                 in if matched > best_len then (Some (te_block e), matched, False)
                    else if matched \<noteq> 0 \<and> matched = best_len then (best, best_len, True)
                    else (best, best_len, ambiguous))))"

definition kv_tool_map_tail_block_locked :: "tool_memory \<Rightarrow> bytes \<Rightarrow> u64 \<Rightarrow> bytes option" where
  "kv_tool_map_tail_block_locked m txt scan =
     (let (best, _, ambiguous) = foldl (tail_entry m txt scan) (None, 0, False) (tm_lru m)
      in if ambiguous then None else best)"

subsection \<open>The walk over the blocks\<close>

text \<open>
  \<open>f\<close> is what is done with the entries of a block, given the text of the block; it may stop the walk, which is the result
  \<open>None\<close>. A block that the scan has seen is passed over.
\<close>

definition visit_block :: "(bytes \<Rightarrow> bytes list \<Rightarrow> 'a \<Rightarrow> 'a option) \<Rightarrow> u64 \<Rightarrow> bytes \<Rightarrow> tool_memory \<Rightarrow> 'a \<Rightarrow> tool_memory \<times> 'a option" where
  "visit_block f scan k m acc =
     (case tool_memory_find_block_locked m k of
        None \<Rightarrow> (m, Some acc)
      | Some b \<Rightarrow>
          if tb_seen b = scan then (m, Some acc)
          else (m\<lparr>tm_by_block := (tm_by_block m)(k \<mapsto> b\<lparr>tb_seen := scan\<rparr>)\<rparr>, f k (tb_entries b) acc))"

function walk_blocks :: "(bytes \<Rightarrow> bytes list \<Rightarrow> 'a \<Rightarrow> 'a option) \<Rightarrow> u64 \<Rightarrow> bytes \<Rightarrow> tool_memory \<Rightarrow> 'a \<Rightarrow> tool_memory \<times> 'a option" where
  "walk_blocks f scan p m acc =
     (case find_next_dsml_tool_block p of
        None \<Rightarrow> (m, Some acc)
      | Some (s, e) \<Rightarrow>
          (case visit_block f scan (bslice s (e - s) p) m acc of
             (m', None) \<Rightarrow> (m', None)
           | (m', Some acc') \<Rightarrow> walk_blocks f scan (drop e p) m' acc'))"
  by pat_completeness auto

termination
  by (relation "measure (\<lambda>(f, scan, p, m, acc). length p)") (auto dest!: find_next_advances)

declare walk_blocks.simps [simp del]

definition walk_text :: "(bytes \<Rightarrow> bytes list \<Rightarrow> 'a \<Rightarrow> 'a option) \<Rightarrow> bytes \<Rightarrow> tool_memory \<Rightarrow> 'a \<Rightarrow> tool_memory \<times> 'a option" where
  "walk_text f txt m acc =
     (let scan = tm_scan_clock m + 1
      in case walk_blocks f scan txt (m\<lparr>tm_scan_clock := scan\<rparr>) acc of
           (m', None) \<Rightarrow> (m', None)
         | (m', Some acc') \<Rightarrow>
             (case kv_tool_map_tail_block_locked m' txt scan of
                None \<Rightarrow> (m', Some acc')
              | Some k \<Rightarrow> visit_block f scan k m' acc'))"

abbreviation (input) UINT32_MAX :: nat where "UINT32_MAX \<equiv> 4294967295"
definition KV_TOOL_MAP_HEADER :: u64 where "KV_TOOL_MAP_HEADER = 8"

fun measure_entries :: "bytes \<Rightarrow> bytes list \<Rightarrow> u32 \<times> u64 \<Rightarrow> (u32 \<times> u64) option" where
  "measure_entries k [] acc = Some acc"
| "measure_entries k (cid # cids) (cnt, bytes) =
     (if length cid > UINT32_MAX \<or> length k > UINT32_MAX then measure_entries k cids (cnt, bytes)
      else if cnt = - 1 then None
      else if u64_max - bytes < 8 \<or> u64_max - bytes - 8 < of_nat (length cid) \<or>
              u64_max - bytes - 8 - of_nat (length cid) < of_nat (length k) then None
      else measure_entries k cids (cnt + 1, bytes + (8 + of_nat (length cid) + of_nat (length k))))"

definition kv_tool_map_measure_locked :: "tool_memory \<Rightarrow> bytes \<Rightarrow> tool_memory \<times> (u32 \<times> u64) option" where
  "kv_tool_map_measure_locked m txt =
     (let (m', r) = walk_text measure_entries txt m (0, KV_TOOL_MAP_HEADER)
      in (m', map_option (\<lambda>(cnt, bytes). (cnt, if cnt = 0 then 0 else bytes)) r))"

definition kv_tool_map_serialized_size :: "server \<Rightarrow> bytes \<Rightarrow> server \<times> bool \<times> u64" where
  "kv_tool_map_serialized_size s txt =
     (if sv_disable_exact_dsml_tool_replay s \<or> txt = [] then (s, True, 0)
      else let (m', r) = kv_tool_map_measure_locked (sv_tool_mem s) txt
        in (s\<lparr>sv_tool_mem := m'\<rparr>, r \<noteq> None, case r of Some (_, bytes) \<Rightarrow> bytes | None \<Rightarrow> 0))"

definition put_entry_bytes :: "bytes \<Rightarrow> bytes \<Rightarrow> bytes" where
  "put_entry_bytes k cid = le_put32 (of_nat (length cid)) @ le_put32 (of_nat (length k)) @ cid @ k"

fun write_entries :: "bytes \<Rightarrow> bytes list \<Rightarrow> bytes \<Rightarrow> bytes option" where
  "write_entries k [] out = Some out"
| "write_entries k (cid # cids) out =
     (if length cid > UINT32_MAX \<or> length k > UINT32_MAX then write_entries k cids out
      else write_entries k cids (out @ put_entry_bytes k cid))"

definition tool_map_header :: "u32 \<Rightarrow> bytes" where
  "tool_map_header cnt = lit ''KTM'' @ [1] @ le_put32 cnt"

text \<open>The result is success, the bytes that reached the file and the number reported.\<close>

definition kv_tool_map_write :: "bool \<Rightarrow> server \<Rightarrow> bytes \<Rightarrow> server \<times> bool \<times> bytes \<times> u64" where
  "kv_tool_map_write disk_ok s txt =
     (if sv_disable_exact_dsml_tool_replay s \<or> txt = [] then (s, True, [], 0)
      else let (m1, r) = kv_tool_map_measure_locked (sv_tool_mem s) txt
        in case r of
             None \<Rightarrow> (s\<lparr>sv_tool_mem := m1\<rparr>, False, [], 0)
           | Some (cnt, bytes) \<Rightarrow>
               if cnt = 0 then (s\<lparr>sv_tool_mem := m1\<rparr>, True, [], 0)
               else if \<not> disk_ok then (s\<lparr>sv_tool_mem := m1\<lparr>tm_scan_clock := tm_scan_clock m1 + 1\<rparr>\<rparr>, False, [], 0)
               else (case walk_text write_entries txt m1 (tool_map_header cnt) of
                       (m2, Some out) \<Rightarrow> (s\<lparr>sv_tool_mem := m2\<rparr>, True, out, bytes)
                     | (m2, None) \<Rightarrow> (s\<lparr>sv_tool_mem := m2\<rparr>, False, [], 0)))"

subsection \<open>Loading\<close>

definition DS4_TOOL_MEMORY_MAX_BYTES :: nat where "DS4_TOOL_MEMORY_MAX_BYTES = 512 * 1024 * 1024"

text \<open>Ids and texts become C strings. The result is the number of entries loaded.\<close>

fun load_entries :: "nat \<Rightarrow> server \<Rightarrow> bytes \<Rightarrow> bytes list option \<Rightarrow> int \<Rightarrow> (int \<times> server) option" where
  "load_entries 0 s fp wanted loaded = Some (loaded, s)"
| "load_entries (Suc n) s fp wanted loaded =
     (if length fp < 8 then Some (loaded, s)
      else let id_len = unat (le_get32 (bslice 0 4 fp)); dsml_len = unat (le_get32 (bslice 4 4 fp))
        in if id_len = 0 \<or> id_len > 256 \<or> dsml_len = 0 \<or> dsml_len > DS4_TOOL_MEMORY_MAX_BYTES then Some (loaded, s)
           else if length (drop 8 fp) < id_len + dsml_len then Some (loaded, s)
           else let cid = cstr (bslice 8 id_len fp); dsml = cstr (bslice (8 + id_len) dsml_len fp)
             in if wanted = None \<or> id_list_contains (the wanted) cid
                then (case tool_memory_put_source s cid dsml TOOL_MEMORY_DISK of
                        None \<Rightarrow> None
                      | Some s' \<Rightarrow> load_entries n s' (drop (8 + id_len + dsml_len) fp) wanted (loaded + 1))
                else load_entries n s (drop (8 + id_len + dsml_len) fp) wanted loaded)"

definition kv_tool_map_load_from_pos :: "server \<Rightarrow> bytes \<Rightarrow> bytes list option \<Rightarrow> (int \<times> server) option" where
  "kv_tool_map_load_from_pos s fp wanted =
     (if sv_disable_exact_dsml_tool_replay s then Some (0, s)
      else if length fp < 8 \<or> take 4 fp \<noteq> lit ''KTM'' @ [1] then Some (0, s)
      else let cnt = le_get32 (bslice 4 4 fp)
        in if int (unat cnt) > tool_memory_max_entries (sv_tool_mem s) * 4 then Some (0, s)
           else load_entries (unat cnt) s (drop 8 fp) wanted 0)"

subsection \<open>The hooks\<close>

definition kv_cache_tool_map_hooks :: "bool \<Rightarrow> server \<Rightarrow> trailer_hooks" where
  "kv_cache_tool_map_hooks disk_ok s =
     \<lparr>th_ext_flag = EXT_TOOL_MAP, th_serialized_size = Some (\<lambda>txt. snd (kv_tool_map_serialized_size s txt)),
      th_write = Some (\<lambda>txt. snd (kv_tool_map_write disk_ok s txt))\<rparr>"

subsection \<open>Which entries a walk meets\<close>

text \<open>The blocks of a text, and those among them that a memory has, each once.\<close>

function text_blocks :: "bytes \<Rightarrow> bytes list" where
  "text_blocks p = (case find_next_dsml_tool_block p of None \<Rightarrow> [] | Some (s, e) \<Rightarrow> bslice s (e - s) p # text_blocks (drop e p))"
  by pat_completeness auto

termination by (relation "measure length") (auto dest!: find_next_advances)

declare text_blocks.simps [simp del]

fun visits :: "bytes set \<Rightarrow> bytes list \<Rightarrow> bytes list" where
  "visits A [] = []"
| "visits A (k # ks) = (if k \<in> A then k # visits (A - {k}) ks else visits A ks)"

fun fold_blocks :: "(bytes \<Rightarrow> bytes list \<Rightarrow> 'a \<Rightarrow> 'a option) \<Rightarrow> (bytes \<Rightarrow> bytes list) \<Rightarrow> bytes list \<Rightarrow> 'a \<Rightarrow> 'a option" where
  "fold_blocks f E [] acc = Some acc"
| "fold_blocks f E (k # ks) acc = (case f k (E k) acc of None \<Rightarrow> None | Some a \<Rightarrow> fold_blocks f E ks a)"

definition ents :: "tool_memory \<Rightarrow> bytes \<Rightarrow> bytes list" where
  "ents m k = (case tm_by_block m k of Some b \<Rightarrow> tb_entries b | None \<Rightarrow> [])"

definition unseen :: "tool_memory \<Rightarrow> u64 \<Rightarrow> bytes set" where
  "unseen m scan = {k. \<exists>b. tm_by_block m k = Some b \<and> tb_seen b \<noteq> scan}"

text \<open>Equal but for the marks of the scans.\<close>

definition unmarked :: "tool_memory \<Rightarrow> tool_memory" where
  "unmarked m = m\<lparr>tm_scan_clock := 0, tm_by_block := (\<lambda>k. map_option (\<lambda>b. b\<lparr>tb_seen := 0\<rparr>) (tm_by_block m k))\<rparr>"

lemma unmarked_eqD:
  assumes "unmarked m = unmarked m'"
  shows "tm_by_id m = tm_by_id m'" "tm_lru m = tm_lru m'" "ents m = ents m'" "dom (tm_by_block m) = dom (tm_by_block m')"
proof -
  have b: "map_option (\<lambda>b. b\<lparr>tb_seen := 0\<rparr>) (tm_by_block m k) = map_option (\<lambda>b. b\<lparr>tb_seen := 0\<rparr>) (tm_by_block m' k)" for k
    using arg_cong [OF assms, of tm_by_block] by (simp add: unmarked_def fun_eq_iff)
  show "tm_by_id m = tm_by_id m'" "tm_lru m = tm_lru m'"
    using arg_cong [OF assms, of tm_by_id] arg_cong [OF assms, of tm_lru] by (simp_all add: unmarked_def)
  have "ents m k = ents m' k" for k
    using arg_cong [OF b [of k], of "map_option tb_entries"] by (auto simp: ents_def option.map_comp comp_def split: option.splits)
  then show "ents m = ents m'" by blast
  have "tm_by_block m k = None \<longleftrightarrow> tm_by_block m' k = None" for k
    using arg_cong [OF b [of k], of "\<lambda>x. x = None"] by simp
  then show "dom (tm_by_block m) = dom (tm_by_block m')" by (simp add: dom_def)
qed

lemma fold_blocks_append:
  "fold_blocks f E (ks @ ls) acc = (case fold_blocks f E ks acc of None \<Rightarrow> None | Some a \<Rightarrow> fold_blocks f E ls a)"
  by (induction ks arbitrary: acc) (auto split: option.split)

lemma visit_block_fold:
  assumes "visit_block f scan k m acc = (m', r)" "[] \<notin> dom (tm_by_block m)"
  shows "r = fold_blocks f (ents m) (if k \<in> unseen m scan then [k] else []) acc" "unmarked m' = unmarked m"
    "unseen m' scan = unseen m scan - {k}" "tm_scan_clock m' = tm_scan_clock m"
    "\<And>x b'. tm_by_block m' x = Some b' \<Longrightarrow> tb_seen b' = scan \<or> tm_by_block m x = Some b'"
proof -
  show "r = fold_blocks f (ents m) (if k \<in> unseen m scan then [k] else []) acc"
    using assms by (auto simp: visit_block_def tool_memory_find_block_locked_def unseen_def ents_def split: option.splits if_splits)
  show "unmarked m' = unmarked m"
    using assms(1) by (auto simp: visit_block_def tool_memory_find_block_locked_def unmarked_def fun_eq_iff split: option.splits if_splits)
  show "unseen m' scan = unseen m scan - {k}"
    using assms by (auto simp: visit_block_def tool_memory_find_block_locked_def unseen_def split: option.splits if_splits)
  show "tm_scan_clock m' = tm_scan_clock m"
    using assms(1) by (auto simp: visit_block_def split: option.splits if_splits)
  show "tb_seen b' = scan \<or> tm_by_block m x = Some b'" if "tm_by_block m' x = Some b'" for x b'
    using assms(1) that by (auto simp: visit_block_def split: option.splits if_splits)
qed

text \<open>After a scan every mark is at most the clock, so the next scan finds no block marked with its own number.\<close>

definition marks_ok :: "tool_memory \<Rightarrow> bool" where
  "marks_ok m \<longleftrightarrow> (\<forall>k b. tm_by_block m k = Some b \<longrightarrow> tb_seen b \<le> tm_scan_clock m)"

lemma walk_blocks_fold:
  assumes "walk_blocks f scan p m acc = (m', r)" "[] \<notin> dom (tm_by_block m)"
  shows "r = fold_blocks f (ents m) (visits (unseen m scan) (text_blocks p)) acc \<and> unmarked m' = unmarked m \<and>
    (r \<noteq> None \<longrightarrow> unseen m' scan = unseen m scan - set (text_blocks p)) \<and> tm_scan_clock m' = tm_scan_clock m \<and>
    (\<forall>x b'. tm_by_block m' x = Some b' \<longrightarrow> tb_seen b' = scan \<or> tm_by_block m x = Some b')"
  using assms
proof (induction f scan p m acc arbitrary: m' r rule: walk_blocks.induct)
  case (1 f scan p m acc)
  show ?case
  proof (cases "find_next_dsml_tool_block p")
    case None
    then show ?thesis using "1.prems"(1) by (subst (asm) walk_blocks.simps) (auto simp: text_blocks.simps [of p])
  next
    case (Some se)
    obtain s e where se: "find_next_dsml_tool_block p = Some (s, e)" using Some by (cases se) auto
    let ?k = "bslice s (e - s) p"
    have tb: "text_blocks p = ?k # text_blocks (drop e p)" using se by (subst text_blocks.simps) simp
    obtain m1 r1 where v: "visit_block f scan ?k m acc = (m1, r1)" by (cases "visit_block f scan ?k m acc")
    note V = visit_block_fold [OF v "1.prems"(2)]
    show ?thesis
    proof (cases r1)
      case None
      then have w: "m' = m1" "r = None" using "1.prems"(1) se v by (subst (asm) walk_blocks.simps, simp)+
      then show ?thesis using V None by (auto simp: tb split: if_splits option.splits)
    next
      case (Some a)
      have w: "walk_blocks f scan (drop e p) m1 a = (m', r)" using "1.prems"(1) se v Some by (subst (asm) walk_blocks.simps) simp
      note U = unmarked_eqD [OF V(2)]
      have "[] \<notin> dom (tm_by_block m1)" using U(4) "1.prems"(2) by simp
      from "1.IH" [OF se refl, of m1 r1 a m' r] w this v Some
      have ih: "r = fold_blocks f (ents m1) (visits (unseen m1 scan) (text_blocks (drop e p))) a \<and> unmarked m' = unmarked m1 \<and>
        (r \<noteq> None \<longrightarrow> unseen m' scan = unseen m1 scan - set (text_blocks (drop e p))) \<and> tm_scan_clock m' = tm_scan_clock m1 \<and>
        (\<forall>x b'. tm_by_block m' x = Some b' \<longrightarrow> tb_seen b' = scan \<or> tm_by_block m1 x = Some b')" by simp
      have "tb_seen b' = scan \<or> tm_by_block m x = Some b'" if "tm_by_block m' x = Some b'" for x b'
        using ih V(5) that by blast
      moreover have "r = fold_blocks f (ents m) (visits (unseen m scan) (text_blocks p)) acc"
        using ih V(1) V(3) U(3) Some by (auto simp: tb split: if_splits option.splits)
      ultimately show ?thesis using ih V(2-4) by (auto simp: tb)
    qed
  qed
qed

text \<open>The tail block depends on the marks only through the set of the unseen blocks.\<close>

lemma tail_entry_unseen:
  "tail_entry m txt scan (best, best_len, ambiguous) cid =
     (case tm_by_id m cid of
        None \<Rightarrow> (best, best_len, ambiguous)
      | Some e \<Rightarrow>
          if te_block e \<notin> unseen m scan \<or> best = Some (te_block e) then (best, best_len, ambiguous)
          else let matched = kv_tool_map_tail_prefix_len txt (te_block e)
            in if matched > best_len then (Some (te_block e), matched, False)
               else if matched \<noteq> 0 \<and> matched = best_len then (best, best_len, True)
               else (best, best_len, ambiguous))"
  by (auto simp: tail_entry_def unseen_def Let_def split: option.split)

lemma tail_block_cong:
  assumes "tm_by_id m = tm_by_id m'" "tm_lru m = tm_lru m'" "unseen m scan = unseen m' scan'"
  shows "kv_tool_map_tail_block_locked m txt scan = kv_tool_map_tail_block_locked m' txt scan'"
proof -
  have "tail_entry m txt scan st cid = tail_entry m' txt scan' st cid" for st cid
    using assms(3) by (cases st) (simp add: tail_entry_unseen assms(1) split: option.split)
  then have "tail_entry m txt scan = tail_entry m' txt scan'" by blast
  then show ?thesis by (simp add: kv_tool_map_tail_block_locked_def assms(2))
qed

lemma tail_entry_best:
  assumes "tail_entry m txt scan (best, n, a) cid = (best', n', a')" "\<And>k. best = Some k \<Longrightarrow> k \<in> unseen m scan" "best' = Some k"
  shows "k \<in> unseen m scan"
  using assms by (auto simp: tail_entry_unseen Let_def split: option.splits if_splits)

lemma tail_block_unseen: "kv_tool_map_tail_block_locked m txt scan = Some k \<Longrightarrow> k \<in> unseen m scan"
proof -
  have "(\<And>k. fst st = Some k \<Longrightarrow> k \<in> unseen m scan) \<Longrightarrow> fst (foldl (tail_entry m txt scan) st cids) = Some k \<Longrightarrow> k \<in> unseen m scan"
    for st cids k
  proof (induction cids arbitrary: st)
    case (Cons cid cids)
    obtain best n a where st: "st = (best, n, a)" by (cases st) auto
    have "k \<in> unseen m scan" if "fst (tail_entry m txt scan st cid) = Some k" for k
      using tail_entry_best [of m "txt" scan best n a cid "fst (tail_entry m txt scan st cid)"
          "fst (snd (tail_entry m txt scan st cid))" "snd (snd (tail_entry m txt scan st cid))" k] that Cons.prems(1)
      by (simp add: st)
    then show ?case using Cons.IH [of "tail_entry m txt scan st cid"] Cons.prems(2) by simp
  qed simp
  from this [of "(None, 0, False)" "tm_lru m" k]
  show "kv_tool_map_tail_block_locked m txt scan = Some k \<Longrightarrow> k \<in> unseen m scan"
    by (auto simp: kv_tool_map_tail_block_locked_def split: prod.splits if_splits)
qed

text \<open>The blocks that a walk visits in a memory without marks.\<close>

definition marked :: "bytes set \<Rightarrow> tool_memory \<Rightarrow> tool_memory" where
  "marked K m = m\<lparr>tm_by_block := (\<lambda>k. map_option (\<lambda>b. b\<lparr>tb_seen := (if k \<in> K then 1 else 0)\<rparr>) (tm_by_block m k))\<rparr>"

definition chosen :: "tool_memory \<Rightarrow> bytes \<Rightarrow> bytes list" where
  "chosen m txt = visits (dom (tm_by_block m)) (text_blocks txt) @
     (case kv_tool_map_tail_block_locked (marked (set (text_blocks txt)) m) txt 1 of None \<Rightarrow> [] | Some k \<Rightarrow> [k])"

lemma unseen_marked: "unseen (marked K m) 1 = dom (tm_by_block m) - K"
  by (auto simp: unseen_def marked_def split: if_splits)

lemma chosen_cong: "unmarked m = unmarked m' \<Longrightarrow> chosen m txt = chosen m' txt"
proof -
  assume "unmarked m = unmarked m'"
  note U = unmarked_eqD [OF this]
  have "kv_tool_map_tail_block_locked (marked K m) txt 1 = kv_tool_map_tail_block_locked (marked K m') txt 1" for K
    by (rule tail_block_cong) (simp_all add: unseen_marked U, simp_all add: marked_def U)
  then show ?thesis by (simp add: chosen_def U(4))
qed

lemma less_next: "c \<noteq> - 1 \<Longrightarrow> c < c + 1" for c :: u64
proof -
  assume "c \<noteq> - 1"
  then have "1 + c \<noteq> 0" by (metis add.commute add_eq_0_iff)
  from unatSuc [OF this] show ?thesis by (simp add: word_less_nat_alt add.commute)
qed

lemma unseen_fresh:
  assumes "marks_ok m" "tm_scan_clock m \<noteq> - 1"
  shows "unseen (m\<lparr>tm_scan_clock := c\<rparr>) (tm_scan_clock m + 1) = dom (tm_by_block m)"
proof -
  have "tb_seen b \<noteq> tm_scan_clock m + 1" if "tm_by_block m k = Some b" for k b
    using less_next [OF assms(2)] assms(1) that unfolding marks_ok_def by (metis leD)
  then show ?thesis by (auto simp: unseen_def)
qed

lemma walk_text_fold:
  assumes m: "marks_ok m" "tm_scan_clock m \<noteq> - 1" "[] \<notin> dom (tm_by_block m)" and w: "walk_text f txt m acc = (m', r)"
  shows "r = fold_blocks f (ents m) (chosen m txt) acc" "unmarked m' = unmarked m" "marks_ok m'"
    "tm_scan_clock m' = tm_scan_clock m + 1"
proof -
  define scan where "scan = tm_scan_clock m + 1"
  define m0 where "m0 = m\<lparr>tm_scan_clock := scan\<rparr>"
  have m0: "[] \<notin> dom (tm_by_block m0)" "ents m0 = ents m" "unmarked m0 = unmarked m" "tm_scan_clock m0 = scan"
    using m(3) by (simp_all add: m0_def ents_def fun_eq_iff unmarked_def)
  have un: "unseen m0 scan = dom (tm_by_block m)" using unseen_fresh [OF m(1,2)] by (simp add: m0_def scan_def)
  obtain m1 r1 where w1: "walk_blocks f scan txt m0 acc = (m1, r1)" by (cases "walk_blocks f scan txt m0 acc")
  from walk_blocks_fold [OF w1 m0(1)] have
    r1: "r1 = fold_blocks f (ents m) (visits (dom (tm_by_block m)) (text_blocks txt)) acc" and
    u1: "unmarked m1 = unmarked m" and c1: "tm_scan_clock m1 = scan" and
    s1: "r1 \<noteq> None \<Longrightarrow> unseen m1 scan = dom (tm_by_block m) - set (text_blocks txt)" and
    k1: "\<And>x b. tm_by_block m1 x = Some b \<Longrightarrow> tb_seen b = scan \<or> tm_by_block m x = Some b"
    using m0 un by (auto simp: m0_def)
  note U = unmarked_eqD [OF u1]
  have lt: "tm_scan_clock m \<le> scan" using less_next [OF m(2)] by (simp add: scan_def)
  have ok: "marks_ok m1" using k1 c1 m(1) lt by (fastforce simp: marks_ok_def)
  have tail: "kv_tool_map_tail_block_locked m1 txt scan = kv_tool_map_tail_block_locked (marked (set (text_blocks txt)) m) txt 1"
    if "r1 \<noteq> None" using U s1 [OF that] by (intro tail_block_cong) (simp_all add: unseen_marked, simp_all add: marked_def)
  have "r = fold_blocks f (ents m) (chosen m txt) acc \<and> unmarked m' = unmarked m \<and> marks_ok m' \<and> tm_scan_clock m' = scan"
  proof (cases "r1 = None \<or> kv_tool_map_tail_block_locked m1 txt scan = None")
    case True
    then have "m' = m1 \<and> r = r1" using w w1 by (auto simp: walk_text_def Let_def m0_def scan_def split: option.splits)
    then show ?thesis using True u1 c1 ok r1 tail by (auto simp: chosen_def fold_blocks_append split: option.splits)
  next
    case False
    then obtain a k where a: "r1 = Some a" and k: "kv_tool_map_tail_block_locked m1 txt scan = Some k" by auto
    have v: "visit_block f scan k m1 a = (m', r)" using w w1 a k by (simp add: walk_text_def Let_def m0_def scan_def)
    have "[] \<notin> dom (tm_by_block m1)" using U(4) m(3) by simp
    note V = visit_block_fold [OF v this]
    have "marks_ok m'" using V(4,5) ok c1 by (fastforce simp: marks_ok_def)
    moreover have "kv_tool_map_tail_block_locked (marked (set (text_blocks txt)) m) txt 1 = Some k" using tail a k by simp
    then have "r = fold_blocks f (ents m) (chosen m txt) acc"
      using V(1) tail_block_unseen [OF k] a U(3) r1 by (simp add: chosen_def fold_blocks_append)
    ultimately show ?thesis using V(2,4) u1 c1 by simp
  qed
  then show "r = fold_blocks f (ents m) (chosen m txt) acc" "unmarked m' = unmarked m" "marks_ok m'"
    "tm_scan_clock m' = tm_scan_clock m + 1" by (simp_all add: scan_def)
qed

subsection \<open>What is measured and what is written\<close>

text \<open>The entries of the chosen blocks whose lengths have 32 bits: text and id.\<close>

definition entry_fits :: "bytes \<times> bytes \<Rightarrow> bool" where
  "entry_fits = (\<lambda>(k, cid). length cid \<le> UINT32_MAX \<and> length k \<le> UINT32_MAX)"

definition block_pairs :: "(bytes \<Rightarrow> bytes list) \<Rightarrow> bytes list \<Rightarrow> (bytes \<times> bytes) list" where
  "block_pairs E ks = filter entry_fits (concat (map (\<lambda>k. map (Pair k) (E k)) ks))"

definition map_entries :: "tool_memory \<Rightarrow> bytes \<Rightarrow> (bytes \<times> bytes) list" where
  "map_entries m txt = block_pairs (ents m) (chosen m txt)"

definition entry_size :: "bytes \<times> bytes \<Rightarrow> nat" where
  "entry_size = (\<lambda>(k, cid). 8 + length cid + length k)"

definition trailer_bytes :: "(bytes \<times> bytes) list \<Rightarrow> bytes" where
  "trailer_bytes es = tool_map_header (of_nat (length es)) @ concat (map (\<lambda>(k, cid). put_entry_bytes k cid) es)"

definition trailer_size :: "(bytes \<times> bytes) list \<Rightarrow> nat" where
  "trailer_size es = 8 + (\<Sum>x\<leftarrow>es. entry_size x)"

text \<open>The loop over the entries on mathematical numbers.\<close>

definition measured :: "nat \<times> nat \<Rightarrow> (bytes \<times> bytes) list \<Rightarrow> (u32 \<times> u64) option" where
  "measured = (\<lambda>(n, b) es. if n + length es < 2 ^ 32 \<and> b + (\<Sum>x\<leftarrow>es. entry_size x) < 2 ^ 64
     then Some (of_nat (n + length es), of_nat (b + (\<Sum>x\<leftarrow>es. entry_size x))) else None)"

lemma measure_step:
  assumes "b < 2 ^ 64" "i \<le> UINT32_MAX" "l \<le> UINT32_MAX"
  shows "(u64_max - of_nat b < 8 \<or> u64_max - of_nat b - 8 < (of_nat i :: u64) \<or>
      u64_max - of_nat b - 8 - of_nat i < (of_nat l :: u64)) \<longleftrightarrow> b + (8 + i + l) \<ge> 2 ^ 64"
proof -
  have mx: "u64_max = (of_nat (2 ^ 64 - 1) :: u64)" by simp
  have sub: "u64_max - of_nat b = (of_nat (2 ^ 64 - 1 - b) :: u64)" using assms(1) unfolding mx by (subst of_nat_diff) simp_all
  have u: "unat (of_nat x :: u64) = x" if "x < 2 ^ 64" for x using that by (simp add: unat_of_nat take_bit_eq_mod)
  have s8: "u64_max - of_nat b - 8 = (of_nat (2 ^ 64 - 1 - b - 8) :: u64)" if "8 \<le> 2 ^ 64 - 1 - b"
    using that unfolding sub by (subst of_nat_diff) simp_all
  have si: "u64_max - of_nat b - 8 - of_nat i = (of_nat (2 ^ 64 - 1 - b - 8 - i) :: u64)" if "8 + i \<le> 2 ^ 64 - 1 - b"
  proof -
    have "8 \<le> 2 ^ 64 - 1 - b" "i \<le> 2 ^ 64 - 1 - b - 8" using that by linarith+
    then show ?thesis unfolding s8 [OF \<open>8 \<le> 2 ^ 64 - 1 - b\<close>] by (subst (2) of_nat_diff) simp_all
  qed
  have a: "u64_max - of_nat b < (8 :: u64) \<longleftrightarrow> 2 ^ 64 - 1 - b < (8 :: nat)"
    unfolding sub word_less_nat_alt by (subst u) simp_all
  have c: "u64_max - of_nat b - 8 < (of_nat i :: u64) \<longleftrightarrow> 2 ^ 64 - 1 - b - 8 < i" if "8 \<le> 2 ^ 64 - 1 - b"
    unfolding s8 [OF that] word_less_nat_alt using assms(2) by (subst u, simp, subst u) simp_all
  have d: "u64_max - of_nat b - 8 - of_nat i < (of_nat l :: u64) \<longleftrightarrow> 2 ^ 64 - 1 - b - 8 - i < l" if "8 + i \<le> 2 ^ 64 - 1 - b"
    unfolding si [OF that] word_less_nat_alt using assms(3) by (subst u, simp, subst u) simp_all
  show ?thesis
  proof (cases "8 + i \<le> 2 ^ 64 - 1 - b")
    case True
    then show ?thesis using a c d assms(1) by auto
  next
    case False
    then show ?thesis using a c assms(1) by fastforce
  qed
qed

lemma measured_append:
  "measured (n, b) (xs @ ys) =
     (if n + length xs < 2 ^ 32 \<and> b + (\<Sum>x\<leftarrow>xs. entry_size x) < 2 ^ 64
      then measured (n + length xs, b + (\<Sum>x\<leftarrow>xs. entry_size x)) ys else None)"
  by (auto simp: measured_def add_ac)

lemma measured_none: "b \<ge> 2 ^ 64 \<or> n \<ge> 2 ^ 32 \<Longrightarrow> measured (n, b) es = None"
  by (auto simp: measured_def)

lemma measure_entries_exact:
  assumes "n < 2 ^ 32" "b < 2 ^ 64"
  shows "measure_entries k cids (of_nat n, of_nat b) = measured (n, b) (filter entry_fits (map (Pair k) cids))"
  using assms
proof (induction cids arbitrary: n b)
  case Nil
  then show ?case by (simp add: measured_def)
next
  case (Cons cid cids)
  show ?case
  proof (cases "length cid > UINT32_MAX \<or> length k > UINT32_MAX")
    case True
    then have "\<not> entry_fits (k, cid)" by (auto simp: entry_fits_def)
    then show ?thesis using Cons True by simp
  next
    case False
    then have fits: "entry_fits (k, cid)" by (auto simp: entry_fits_def)
    have last: "(of_nat n :: u32) = - 1 \<longleftrightarrow> n + 1 \<ge> 2 ^ 32"
    proof -
      have "unat (of_nat x :: u32) = x" if "x < 2 ^ 32" for x using that by (simp add: unat_of_nat take_bit_eq_mod)
      from this [of n] this [of UINT32_MAX] have "unat (of_nat n :: u32) = n" "unat (of_nat UINT32_MAX :: u32) = 2 ^ 32 - 1"
        using Cons.prems(1) by simp_all
      moreover have "(of_nat UINT32_MAX :: u32) = - 1" by simp
      ultimately have "(of_nat n :: u32) = - 1 \<longleftrightarrow> n = 2 ^ 32 - 1" by (metis word_unat_eq_iff)
      then show ?thesis using Cons.prems(1) by auto
    qed
    note step = measure_step [OF Cons.prems(2), of "length cid" "length k"]
    have "measured (n, b) ((k, cid) # es) = (if n + 1 < 2 ^ 32 \<and> b + (8 + length cid + length k) < 2 ^ 64
        then measured (n + 1, b + (8 + length cid + length k)) es else None)" for es
      using measured_append [of n b "[(k, cid)]" es] by (simp add: entry_size_def add_ac)
    moreover have "measure_entries k cids (of_nat n + 1, of_nat b + (8 + of_nat (length cid) + of_nat (length k))) =
        measured (n + 1, b + (8 + length cid + length k)) (filter entry_fits (map (Pair k) cids))"
      if "n + 1 < 2 ^ 32" "b + (8 + length cid + length k) < 2 ^ 64"
      using Cons.IH [OF that] by (simp add: add_ac)
    ultimately show ?thesis using False fits last step by (auto simp: not_less not_le)
  qed
qed

lemma fold_measure_exact:
  assumes "n < 2 ^ 32" "b < 2 ^ 64"
  shows "fold_blocks measure_entries E ks (of_nat n, of_nat b) = measured (n, b) (block_pairs E ks)"
  using assms
proof (induction ks arbitrary: n b)
  case Nil
  then show ?case by (simp add: block_pairs_def measured_def)
next
  case (Cons k ks)
  define xs where "xs = filter entry_fits (map (Pair k) (E k))"
  have m: "measure_entries k (E k) (of_nat n, of_nat b) = measured (n, b) xs"
    unfolding xs_def by (rule measure_entries_exact [OF Cons.prems])
  have p: "block_pairs E (k # ks) = xs @ block_pairs E ks" by (simp add: block_pairs_def xs_def)
  show ?case
  proof (cases "n + length xs < 2 ^ 32 \<and> b + (\<Sum>x\<leftarrow>xs. entry_size x) < 2 ^ 64")
    case True
    then have "measured (n, b) xs = Some (of_nat (n + length xs), of_nat (b + (\<Sum>x\<leftarrow>xs. entry_size x)))"
      by (simp add: measured_def)
    then show ?thesis unfolding p measured_append using True m Cons.IH [of "n + length xs" "b + (\<Sum>x\<leftarrow>xs. entry_size x)"]
      by simp
  next
    case False
    then have "measured (n, b) xs = None" by (auto simp: measured_def)
    then show ?thesis unfolding p measured_append if_not_P [OF False] using m by simp
  qed
qed

lemma write_entries_exact:
  "write_entries k cids out = Some (out @ concat (map (\<lambda>(k, cid). put_entry_bytes k cid) (filter entry_fits (map (Pair k) cids))))"
  by (induction cids arbitrary: out) (auto simp: entry_fits_def)

lemma fold_write_exact:
  "fold_blocks write_entries E ks out = Some (out @ concat (map (\<lambda>(k, cid). put_entry_bytes k cid) (block_pairs E ks)))"
  by (induction ks arbitrary: out) (simp_all add: write_entries_exact block_pairs_def)

lemma length_put_entry: "length (put_entry_bytes k cid) = entry_size (k, cid)"
  by (simp add: put_entry_bytes_def entry_size_def)

lemma length_trailer: "length (trailer_bytes es) = trailer_size es"
proof -
  have "length (concat (map (\<lambda>(k, cid). put_entry_bytes k cid) es)) = (\<Sum>x\<leftarrow>es. entry_size x)"
    by (induction es) (auto simp: length_put_entry)
  then show ?thesis by (simp add: trailer_bytes_def trailer_size_def tool_map_header_def lit_def)
qed

lemma measure_locked_exact:
  assumes m: "marks_ok m" "tm_scan_clock m \<noteq> - 1" "[] \<notin> dom (tm_by_block m)"
    and r: "kv_tool_map_measure_locked m txt = (m', r)"
  shows "r = (let es = map_entries m txt in
      if length es < 2 ^ 32 \<and> trailer_size es < 2 ^ 64
      then Some (of_nat (length es), if es = [] then 0 else of_nat (trailer_size es)) else None)"
    "unmarked m' = unmarked m" "marks_ok m'" "tm_scan_clock m' = tm_scan_clock m + 1"
proof -
  obtain w where w: "walk_text measure_entries txt m (0, KV_TOOL_MAP_HEADER) = (m', w)"
    and rw: "r = map_option (\<lambda>(cnt, bytes). (cnt, if cnt = 0 then 0 else bytes)) w"
    using r by (auto simp: kv_tool_map_measure_locked_def split: prod.splits)
  note W = walk_text_fold [OF m w]
  show "unmarked m' = unmarked m" "marks_ok m'" "tm_scan_clock m' = tm_scan_clock m + 1" using W by simp_all
  have "w = measured (0, 8) (map_entries m txt)"
    using W(1) fold_measure_exact [of 0 8 "ents m" "chosen m txt"] by (simp add: KV_TOOL_MAP_HEADER_def map_entries_def)
  moreover have "(of_nat x :: u32) = 0 \<longleftrightarrow> x = 0" if "x < 2 ^ 32" for x
    using that by (simp add: word_unat_eq_iff unat_of_nat take_bit_eq_mod)
  ultimately show "r = (let es = map_entries m txt in
      if length es < 2 ^ 32 \<and> trailer_size es < 2 ^ 64
      then Some (of_nat (length es), if es = [] then 0 else of_nat (trailer_size es)) else None)"
    unfolding rw by (auto simp: measured_def trailer_size_def Let_def)
qed

lemma map_entries_cong: "unmarked m = unmarked m' \<Longrightarrow> map_entries m txt = map_entries m' txt"
  using chosen_cong [of m m' "txt"] unmarked_eqD(3) [of m m'] by (simp add: map_entries_def)

definition store_text :: "server \<Rightarrow> bytes \<Rightarrow> (bytes \<times> bytes) list" where
  "store_text s txt = (if sv_disable_exact_dsml_tool_replay s \<or> txt = [] then [] else map_entries (sv_tool_mem s) txt)"

definition scan_ready :: "tool_memory \<Rightarrow> bool" where
  "scan_ready m \<longleftrightarrow> tm_inv m \<and> marks_ok m \<and> unat (tm_scan_clock m) + 3 < 2 ^ 64"

lemma scan_readyD:
  assumes "scan_ready m"
  shows "marks_ok m" "[] \<notin> dom (tm_by_block m)" "unat (tm_scan_clock m) + 3 < 2 ^ 64"
  using assms tm_inv_block(1) [of m "[]"] by (auto simp: scan_ready_def)

lemma unat_minus_one_u64: "unat (- 1 :: u64) = 2 ^ 64 - 1"
proof -
  have "unat (of_nat (2 ^ 64 - 1) :: u64) = 2 ^ 64 - 1" by (subst unat_of_nat) (simp add: take_bit_eq_mod)
  moreover have "(of_nat (2 ^ 64 - 1) :: u64) = - 1" by simp
  ultimately show ?thesis by metis
qed

lemma clock_next:
  fixes c :: u64
  assumes "unat c + n < 2 ^ 64" "0 < n"
  shows "c \<noteq> - 1" "unat (c + 1) + (n - 1) < 2 ^ 64"
proof -
  show c: "c \<noteq> - 1" using assms by (auto simp: unat_minus_one_u64)
  then have "1 + c \<noteq> 0" by (metis add.commute add_eq_0_iff)
  then show "unat (c + 1) + (n - 1) < 2 ^ 64" using assms unatSuc [of c] by (simp add: add.commute)
qed

lemma serialized_size_exact:
  assumes "scan_ready (sv_tool_mem s)" "length (store_text s txt) < 2 ^ 32" "trailer_size (store_text s txt) < 2 ^ 64"
  shows "snd (kv_tool_map_serialized_size s txt) =
    (True, if store_text s txt = [] then 0 else of_nat (length (trailer_bytes (store_text s txt))))"
proof (cases "sv_disable_exact_dsml_tool_replay s \<or> txt = []")
  case True
  then show ?thesis by (simp add: kv_tool_map_serialized_size_def store_text_def)
next
  case False
  obtain m' r where r: "kv_tool_map_measure_locked (sv_tool_mem s) txt = (m', r)"
    by (cases "kv_tool_map_measure_locked (sv_tool_mem s) txt")
  show ?thesis
    using measure_locked_exact(1) [OF scan_readyD(1) [OF assms(1)] _ scan_readyD(2) [OF assms(1)] r]
      clock_next(1) [OF scan_readyD(3) [OF assms(1)]] assms(2,3) False r
    by (simp add: kv_tool_map_serialized_size_def store_text_def Let_def length_trailer)
qed

text \<open>Writing needs two scans, and does the same after a scan as before it.\<close>

lemma tool_map_write_exact:
  fixes s :: server and tx :: bytes
  defines "es \<equiv> store_text s tx"
  defines "out \<equiv> if es = [] then [] else trailer_bytes es"
  assumes m: "marks_ok (sv_tool_mem s)" "[] \<notin> dom (tm_by_block (sv_tool_mem s))" "unat (tm_scan_clock (sv_tool_mem s)) + 2 < 2 ^ 64"
    and fits: "length es < 2 ^ 32" "trailer_size es < 2 ^ 64"
  shows "snd (kv_tool_map_write True s tx) = (True, out, of_nat (length out))"
proof (cases "sv_disable_exact_dsml_tool_replay s \<or> tx = []")
  case True
  then show ?thesis by (simp add: kv_tool_map_write_def store_text_def out_def es_def)
next
  case False
  let ?m = "sv_tool_mem s"
  have es: "map_entries ?m tx = es" using False by (simp add: store_text_def es_def)
  obtain m1 r where r: "kv_tool_map_measure_locked ?m tx = (m1, r)" by (cases "kv_tool_map_measure_locked ?m tx")
  note c1 = clock_next [OF m(3)]
  note M = measure_locked_exact [OF m(1) _ m(2) r, unfolded es]
  have rs: "r = Some (of_nat (length es), if es = [] then 0 else of_nat (trailer_size es))"
    using M(1) fits c1(1) by simp
  have cnt: "(of_nat (length es) :: u32) = 0 \<longleftrightarrow> es = []"
    using fits(1) by (simp add: word_unat_eq_iff unat_of_nat take_bit_eq_mod)
  obtain m2 w where w: "walk_text write_entries tx m1 (tool_map_header (of_nat (length es))) = (m2, w)"
    by (cases "walk_text write_entries tx m1 (tool_map_header (of_nat (length es)))")
  have "w = Some (trailer_bytes es)"
    using walk_text_fold(1) [OF M(3) _ _ w] M(4) c1 clock_next(1) [OF c1(2)] m(2) unmarked_eqD(3,4) [OF M(2)]
      chosen_cong [OF M(2), of tx] es
    by (simp add: fold_write_exact trailer_bytes_def map_entries_def)
  then show ?thesis
    using False r rs cnt w by (simp add: kv_tool_map_write_def out_def length_trailer)
qed

lemma write_after_size:
  fixes s :: server and tx :: bytes
  assumes s: "scan_ready (sv_tool_mem s)"
  defines "s1 \<equiv> fst (kv_tool_map_serialized_size s tx)"
  shows "marks_ok (sv_tool_mem s1) \<and> [] \<notin> dom (tm_by_block (sv_tool_mem s1)) \<and>
    unat (tm_scan_clock (sv_tool_mem s1)) + 2 < 2 ^ 64 \<and> store_text s1 tx = store_text s tx"
proof (cases "sv_disable_exact_dsml_tool_replay s \<or> tx = []")
  case True
  then have "s1 = s" by (auto simp: s1_def kv_tool_map_serialized_size_def)
  then show ?thesis using scan_readyD [OF s] by simp
next
  case False
  obtain m1 r where r: "kv_tool_map_measure_locked (sv_tool_mem s) tx = (m1, r)"
    by (cases "kv_tool_map_measure_locked (sv_tool_mem s) tx")
  have s1: "s1 = s\<lparr>sv_tool_mem := m1\<rparr>" using False r by (simp add: s1_def kv_tool_map_serialized_size_def)
  note D = scan_readyD [OF s] and c = clock_next [OF scan_readyD(3) [OF s]]
  note M = measure_locked_exact(2-) [OF D(1) c(1) D(2) r, simplified]
  show ?thesis
    using M c D unmarked_eqD(4) [OF M(1)] map_entries_cong [OF M(1), of tx] by (simp add: s1 store_text_def)
qed

text \<open>
  C20. The hooks of the tool map keep what a store expects of a trailer. When the memory is well formed and the file takes
  the bytes, the size that is announced before the store is the number of bytes that is written and reported after it;
  the write chooses the same entries although measuring leaves its marks in the memory.
\<close>

theorem tool_map_hooks_exact:
  fixes s :: server and tx :: bytes
  defines "es \<equiv> store_text s tx"
  defines "out \<equiv> if es = [] then [] else trailer_bytes es"
  assumes s: "scan_ready (sv_tool_mem s)" and fits: "length es < 2 ^ 32" "trailer_size es < 2 ^ 64"
  shows "kv_trailer_serialized_size (Some (kv_cache_tool_map_hooks True s)) tx = (True, of_nat (length out)) \<and>
    kv_trailer_write (Some (kv_cache_tool_map_hooks True (fst (kv_tool_map_serialized_size s tx)))) tx =
      (True, out, of_nat (length out))"
proof
  show "kv_trailer_serialized_size (Some (kv_cache_tool_map_hooks True s)) tx = (True, of_nat (length out))"
    using serialized_size_exact [OF s] fits
    by (simp add: kv_trailer_serialized_size_def kv_cache_tool_map_hooks_def out_def es_def)
  note W = write_after_size [OF s, of tx]
  show "kv_trailer_write (Some (kv_cache_tool_map_hooks True (fst (kv_tool_map_serialized_size s tx)))) tx =
      (True, out, of_nat (length out))"
    using tool_map_write_exact [of "fst (kv_tool_map_serialized_size s tx)" tx] W fits
    by (simp add: kv_trailer_write_def kv_cache_tool_map_hooks_def out_def es_def)
qed

subsection \<open>Loading what was written\<close>

definition entry_loads :: "bytes \<times> bytes \<Rightarrow> bool" where
  "entry_loads = (\<lambda>(k, cid). cid \<noteq> [] \<and> length cid \<le> 256 \<and> k \<noteq> [] \<and> length k \<le> DS4_TOOL_MEMORY_MAX_BYTES \<and>
     0 \<notin> set cid \<and> 0 \<notin> set k)"

definition is_wanted :: "bytes list option \<Rightarrow> bytes \<times> bytes \<Rightarrow> bool" where
  "is_wanted wanted = (\<lambda>(k, cid). wanted = None \<or> id_list_contains (the wanted) cid)"

lemma cstr_id: "0 \<notin> set s \<Longrightarrow> cstr s = s"
  by (auto simp: cstr_def takeWhile_eq_all_conv)

lemma get_put32_nat: "x < 2 ^ 32 \<Longrightarrow> unat (le_get32 (le_put32 (of_nat x))) = x"
  by (simp add: le_get_put32 unat_of_nat take_bit_eq_mod)

lemma load_entry_step:
  assumes "entry_loads (k, cid)"
  shows "load_entries (Suc n) s (put_entry_bytes k cid @ rest) wanted loaded =
    (if is_wanted wanted (k, cid)
     then (case tool_memory_put_source s cid k TOOL_MEMORY_DISK of
             None \<Rightarrow> None | Some s' \<Rightarrow> load_entries n s' rest wanted (loaded + 1))
     else load_entries n s rest wanted loaded)"
proof -
  define fp where "fp = put_entry_bytes k cid @ rest"
  have E: "cid \<noteq> []" "length cid \<le> 256" "k \<noteq> []" "length k \<le> DS4_TOOL_MEMORY_MAX_BYTES" "0 \<notin> set cid" "0 \<notin> set k"
    using assms by (simp_all add: entry_loads_def)
  have fp: "fp = le_put32 (of_nat (length cid)) @ le_put32 (of_nat (length k)) @ cid @ k @ rest"
    by (simp add: fp_def put_entry_bytes_def)
  have b: "bslice 0 4 fp = le_put32 (of_nat (length cid))" "bslice 4 4 fp = le_put32 (of_nat (length k))"
    "bslice 8 (length cid) fp = cid" "bslice (8 + length cid) (length k) fp = k" "drop (8 + length cid + length k) fp = rest"
    by (simp_all add: fp bslice_def)
  have l: "unat (le_get32 (bslice 0 4 fp)) = length cid" "unat (le_get32 (bslice 4 4 fp)) = length k"
    unfolding b using E(2,4) by (simp_all add: get_put32_nat DS4_TOOL_MEMORY_MAX_BYTES_def)
  have "length fp = 8 + length cid + length k + length rest" by (simp add: fp)
  then show ?thesis
    unfolding fp_def [symmetric] load_entries.simps Let_def l b(3-5) cstr_id [OF E(5)] cstr_id [OF E(6)]
    using E(1-4) by (simp add: is_wanted_def)
qed

text \<open>Room for a list of entries: neither limit of the memory is reached.\<close>

definition room_pairs :: "tool_memory \<Rightarrow> (bytes \<times> bytes) list \<Rightarrow> bool" where
  "room_pairs m es \<longleftrightarrow> int (length (tm_lru m) + length es) \<le> tool_memory_max_entries m \<and>
     tm_size m + (\<Sum>(k, cid) \<leftarrow> es. length cid + length k + 122) \<le> unat (tool_memory_max_bytes m)"

lemma put_pair_in_room:
  fixes s :: server and k cid :: bytes
  assumes inv: "srv_inv s" and on: "\<not> sv_disable_exact_dsml_tool_replay s" and ne: "cid \<noteq> []" "k \<noteq> []"
    and room: "room_pairs (sv_tool_mem s) ((k, cid) # es)"
  defines "s' \<equiv> s\<lparr>sv_tool_mem := tool_memory_put_entry (sv_tool_mem s) cid k TOOL_MEMORY_DISK\<rparr>"
  shows "tool_memory_put_source s cid k TOOL_MEMORY_DISK = Some s'" "srv_inv s'" "room_pairs (sv_tool_mem s') es"
    "map_option fst (text_of (sv_tool_mem s') x) = (if x = cid then Some k else map_option fst (text_of (sv_tool_mem s) x))"
proof -
  have fits: "tm_size (sv_tool_mem s) + length cid + length k + 122 < 2 ^ 64"
    using room unat_u64_bound [of "tool_memory_max_bytes (sv_tool_mem s)"] by (simp add: room_pairs_def)
  show inv': "srv_inv s'" unfolding s'_def by (rule put_entry_srv_inv [OF inv ne fits])
  note P = put_entry_inv [OF srv_invD(1) [OF inv] ne fits, where source = TOOL_MEMORY_DISK]
  note Z = put_entry_size [OF srv_invD(1) [OF inv] ne fits, of TOOL_MEMORY_DISK]
  have lim: "tool_memory_max_entries (sv_tool_mem s') = tool_memory_max_entries (sv_tool_mem s)"
    "tool_memory_max_bytes (sv_tool_mem s') = tool_memory_max_bytes (sv_tool_mem s)"
    using P(4) by (simp_all add: s'_def tool_memory_max_entries_def tool_memory_max_bytes_def)
  show room': "room_pairs (sv_tool_mem s') es" using room Z unfolding room_pairs_def lim by (simp add: s'_def)
  then have "room_for (sv_tool_mem s') [] k" by (simp add: room_pairs_def room_for_def)
  from prune_in_room [OF srv_invD(1) [OF inv'] this]
  show "tool_memory_put_source s cid k TOOL_MEMORY_DISK = Some s'"
    using ne on by (simp add: tool_memory_put_source_def tool_memory_put_locked_def s'_def)
  show "map_option fst (text_of (sv_tool_mem s') x) = (if x = cid then Some k else map_option fst (text_of (sv_tool_mem s) x))"
    using P(2,3) ne by (auto simp: text_of_def s'_def)
qed

text \<open>Two entries of one id have one text.\<close>

definition one_text :: "(bytes \<times> bytes) list \<Rightarrow> bool" where
  "one_text es \<longleftrightarrow> (\<forall>k k' cid. (k, cid) \<in> set es \<longrightarrow> (k', cid) \<in> set es \<longrightarrow> k = k')"

text \<open>The wanted entries have their texts, every other id keeps what it had.\<close>

definition loaded_texts :: "bytes list option \<Rightarrow> (bytes \<times> bytes) list \<Rightarrow> tool_memory \<Rightarrow> tool_memory \<Rightarrow> bool" where
  "loaded_texts wanted es m m' \<longleftrightarrow>
     (\<forall>x k. (k, x) \<in> set es \<and> is_wanted wanted (k, x) \<longrightarrow> map_option fst (text_of m' x) = Some k) \<and>
     (\<forall>x. (\<forall>k. (k, x) \<in> set es \<longrightarrow> \<not> is_wanted wanted (k, x)) \<longrightarrow> map_option fst (text_of m' x) = map_option fst (text_of m x))"

lemma one_text_append: "one_text (es @ fs) \<Longrightarrow> one_text es \<and> one_text fs"
  by (auto simp: one_text_def)

lemma loaded_texts_append:
  assumes "one_text (es @ fs)" "loaded_texts wanted es m m1" "loaded_texts wanted fs m1 m'"
  shows "loaded_texts wanted (es @ fs) m m'"
  unfolding loaded_texts_def
proof (intro conjI allI impI)
  fix x k assume k: "(k, x) \<in> set (es @ fs) \<and> is_wanted wanted (k, x)"
  show "map_option fst (text_of m' x) = Some k"
  proof (cases "\<exists>k'. (k', x) \<in> set fs \<and> is_wanted wanted (k', x)")
    case True
    then obtain k' where k': "(k', x) \<in> set fs" "is_wanted wanted (k', x)" by blast
    then have "k' = k" using k assms(1) unfolding one_text_def by (metis Un_iff set_append)
    then show ?thesis using k' assms(3) by (auto simp: loaded_texts_def)
  next
    case False
    then have "(k, x) \<in> set es" "map_option fst (text_of m' x) = map_option fst (text_of m1 x)"
      using k assms(3) by (auto simp: loaded_texts_def)
    then show ?thesis using k assms(2) by (auto simp: loaded_texts_def)
  qed
next
  fix x assume "\<forall>k. (k, x) \<in> set (es @ fs) \<longrightarrow> \<not> is_wanted wanted (k, x)"
  then show "map_option fst (text_of m' x) = map_option fst (text_of m x)"
    using assms(2,3) by (auto simp: loaded_texts_def)
qed

text \<open>Loading the entries of a list leaves the room that there was behind them.\<close>

lemma load_entries_in_room:
  assumes "srv_inv s" "\<not> sv_disable_exact_dsml_tool_replay s" "list_all entry_loads es" "one_text es"
    "room_pairs (sv_tool_mem s) (es @ later)"
  shows "\<exists>s'. load_entries (length es) s (concat (map (\<lambda>(k, cid). put_entry_bytes k cid) es)) wanted loaded =
      Some (loaded + int (length (filter (is_wanted wanted) es)), s') \<and> srv_inv s' \<and>
    \<not> sv_disable_exact_dsml_tool_replay s' \<and> room_pairs (sv_tool_mem s') later \<and>
    loaded_texts wanted es (sv_tool_mem s) (sv_tool_mem s')"
  using assms
proof (induction es arbitrary: s loaded)
  case Nil
  then show ?case by (simp add: loaded_texts_def)
next
  case (Cons x es)
  obtain k cid where x: "x = (k, cid)" by (cases x)
  have el: "entry_loads (k, cid)" and ne: "cid \<noteq> []" "k \<noteq> []" and one: "one_text es"
    using Cons.prems(3,4) by (auto simp: x entry_loads_def one_text_def)
  have rest: "list_all entry_loads es" using Cons.prems(3) by simp
  have room: "room_pairs (sv_tool_mem s) ((k, cid) # (es @ later))" using Cons.prems(5) by (simp add: x)
  define s1 where "s1 = (if is_wanted wanted (k, cid)
    then s\<lparr>sv_tool_mem := tool_memory_put_entry (sv_tool_mem s) cid k TOOL_MEMORY_DISK\<rparr> else s)"
  define l1 where "l1 = (if is_wanted wanted (k, cid) then loaded + 1 else loaded)"
  have s1: "srv_inv s1" "\<not> sv_disable_exact_dsml_tool_replay s1" "room_pairs (sv_tool_mem s1) (es @ later)"
    "loaded_texts wanted [x] (sv_tool_mem s) (sv_tool_mem s1)"
    "load_entries (length (x # es)) s (concat (map (\<lambda>(k, cid). put_entry_bytes k cid) (x # es))) wanted loaded =
      load_entries (length es) s1 (concat (map (\<lambda>(k, cid). put_entry_bytes k cid) es)) wanted l1"
  proof -
    note P = put_pair_in_room [OF Cons.prems(1,2) ne room]
    show "srv_inv s1" "\<not> sv_disable_exact_dsml_tool_replay s1" using Cons.prems(1,2) P(2) by (simp_all add: s1_def)
    have "room_pairs (sv_tool_mem s) (es @ later)" using room by (auto simp: room_pairs_def)
    then show "room_pairs (sv_tool_mem s1) (es @ later)" using P(3) by (simp add: s1_def)
    have "map_option fst (text_of (sv_tool_mem s1) y) =
        (if y = cid \<and> is_wanted wanted (k, cid) then Some k else map_option fst (text_of (sv_tool_mem s) y))" for y
      using P(4) [of y] by (cases "y = cid") (simp_all add: s1_def)
    then show "loaded_texts wanted [x] (sv_tool_mem s) (sv_tool_mem s1)" by (simp add: loaded_texts_def x)
    show "load_entries (length (x # es)) s (concat (map (\<lambda>(k, cid). put_entry_bytes k cid) (x # es))) wanted loaded =
      load_entries (length es) s1 (concat (map (\<lambda>(k, cid). put_entry_bytes k cid) es)) wanted l1"
      using load_entry_step [OF el] P(1) by (simp add: s1_def l1_def x del: load_entries.simps)
  qed
  from Cons.IH [OF s1(1,2) rest one s1(3), of l1] obtain s' where
    s': "load_entries (length es) s1 (concat (map (\<lambda>(k, cid). put_entry_bytes k cid) es)) wanted l1 =
      Some (l1 + int (length (filter (is_wanted wanted) es)), s')" "srv_inv s'" "\<not> sv_disable_exact_dsml_tool_replay s'"
    "room_pairs (sv_tool_mem s') later" "loaded_texts wanted es (sv_tool_mem s1) (sv_tool_mem s')" by blast
  have "loaded_texts wanted (x # es) (sv_tool_mem s) (sv_tool_mem s')"
    using loaded_texts_append [of "[x]" es] Cons.prems(4) s1(4) s'(5) by simp
  moreover have "l1 + int (length (filter (is_wanted wanted) es)) = loaded + int (length (filter (is_wanted wanted) (x # es)))"
    by (simp add: l1_def x)
  ultimately show ?case using s1(5) s' by simp
qed

lemma load_header:
  assumes "\<not> sv_disable_exact_dsml_tool_replay s" "length es < 2 ^ 32" "int (length es) \<le> tool_memory_max_entries (sv_tool_mem s) * 4"
  shows "kv_tool_map_load_from_pos s (trailer_bytes es) wanted =
    load_entries (length es) s (concat (map (\<lambda>(k, cid). put_entry_bytes k cid) es)) wanted 0"
proof -
  define body where "body = concat (map (\<lambda>(k, cid). put_entry_bytes k cid) es)"
  have t: "trailer_bytes es = (lit ''KTM'' @ [1]) @ le_put32 (of_nat (length es)) @ body"
    by (simp add: trailer_bytes_def tool_map_header_def body_def)
  have l4: "length (lit ''KTM'' @ [1]) = 4" by (simp add: lit_def)
  have b: "take 4 (trailer_bytes es) = lit ''KTM'' @ [1]" "bslice 4 4 (trailer_bytes es) = le_put32 (of_nat (length es))"
    "drop 8 (trailer_bytes es) = body" "\<not> length (trailer_bytes es) < 8"
    unfolding t by (simp_all add: bslice_def lit_def)
  show ?thesis
    unfolding kv_tool_map_load_from_pos_def b Let_def body_def [symmetric] get_put32_nat [OF assms(2)] using assms(1,3) b(4) by simp
qed

lemma visits_mem: "k \<in> set (visits A ks) \<longleftrightarrow> k \<in> A \<and> k \<in> set ks"
  by (induction ks arbitrary: A) auto

lemma map_entries_mem:
  assumes "tm_inv m" "(k, cid) \<in> set (map_entries m tx)"
  shows "\<exists>e. tm_by_id m cid = Some e \<and> te_block e = k"
proof -
  from assms(2) have "cid \<in> set (ents m k)" by (auto simp: map_entries_def block_pairs_def)
  then obtain b where "tm_by_block m k = Some b" "cid \<in> set (tb_entries b)" by (cases "tm_by_block m k") (auto simp: ents_def)
  then show ?thesis using tm_inv_block(6) [OF assms(1)] by blast
qed

lemma map_entries_one_text: "tm_inv m \<Longrightarrow> one_text (map_entries m tx)"
  using map_entries_mem unfolding one_text_def by (metis option.inject)

lemma map_entries_has:
  assumes "tm_inv m" "tm_by_id m cid = Some e" "te_block e \<in> set (text_blocks tx)" "entry_fits (te_block e, cid)"
  shows "(te_block e, cid) \<in> set (map_entries m tx)"
proof -
  from tm_inv_entry(3) [OF assms(1,2)] obtain b where "tm_by_block m (te_block e) = Some b" "cid \<in> set (tb_entries b)" by blast
  then show ?thesis using assms(3,4) by (force simp: map_entries_def block_pairs_def chosen_def visits_mem ents_def)
qed

text \<open>
  Exact tool calls survive a restart. What a server writes beside a checkpoint is read back, by any server that has
  room for it, so that every id whose sampled text is one of the tool-call blocks of the checkpoint's text has exactly
  this text again; ids that are not asked for keep what they had. This is for ids of at most 256 bytes and texts of at
  most 512 MiB, the sizes the reader accepts.
\<close>

theorem tool_map_restart_exact:
  fixes s s2 :: server and tx :: bytes and wanted :: "bytes list option"
  defines "es \<equiv> store_text s tx"
  assumes s: "scan_ready (sv_tool_mem s)" and on: "\<not> sv_disable_exact_dsml_tool_replay s" "tx \<noteq> []"
    and fits: "length es < 2 ^ 32" "trailer_size es < 2 ^ 64" "list_all entry_loads es"
    and s2: "srv_inv s2" "\<not> sv_disable_exact_dsml_tool_replay s2" "room_pairs (sv_tool_mem s2) es"
  shows "\<exists>out s'. snd (kv_tool_map_write True s tx) = (True, out, of_nat (length out)) \<and>
    kv_tool_map_load_from_pos s2 out wanted = Some (int (length (filter (is_wanted wanted) es)), s') \<and> srv_inv s' \<and>
    (\<forall>cid k src. text_of (sv_tool_mem s) cid = Some (k, src) \<and> k \<in> set (text_blocks tx) \<and> entry_fits (k, cid) \<and>
       is_wanted wanted (k, cid) \<longrightarrow> map_option fst (text_of (sv_tool_mem s') cid) = Some k) \<and>
    (\<forall>cid. (\<forall>k. (k, cid) \<in> set es \<longrightarrow> \<not> is_wanted wanted (k, cid)) \<longrightarrow>
       map_option fst (text_of (sv_tool_mem s') cid) = map_option fst (text_of (sv_tool_mem s2) cid))"
proof -
  define out where "out = (if es = [] then [] else trailer_bytes es)"
  have inv: "tm_inv (sv_tool_mem s)" using s by (simp add: scan_ready_def)
  have es: "es = map_entries (sv_tool_mem s) tx" using on by (simp add: es_def store_text_def)
  note D = scan_readyD [OF s]
  have w: "snd (kv_tool_map_write True s tx) = (True, out, of_nat (length out))"
    using tool_map_write_exact [of s tx] D fits(1,2) by (simp add: out_def es_def)
  obtain s' where L: "load_entries (length es) s2 (concat (map (\<lambda>(k, cid). put_entry_bytes k cid) es)) wanted 0 =
      Some (int (length (filter (is_wanted wanted) es)), s')" and inv': "srv_inv s'" and
    got: "\<And>x k. (k, x) \<in> set es \<Longrightarrow> is_wanted wanted (k, x) \<Longrightarrow> map_option fst (text_of (sv_tool_mem s') x) = Some k" and
    kept: "\<And>x. (\<And>k. (k, x) \<in> set es \<Longrightarrow> \<not> is_wanted wanted (k, x)) \<Longrightarrow>
        map_option fst (text_of (sv_tool_mem s') x) = map_option fst (text_of (sv_tool_mem s2) x)"
    using load_entries_in_room [OF s2(1,2) fits(3), of "[]" wanted 0] s2(3) map_entries_one_text [OF inv, of tx]
    unfolding es [symmetric] loaded_texts_def by auto
  have "int (length es) \<le> tool_memory_max_entries (sv_tool_mem s2)" using s2(3) by (simp add: room_pairs_def)
  then have "kv_tool_map_load_from_pos s2 out wanted = Some (int (length (filter (is_wanted wanted) es)), s')"
    using load_header [OF s2(2) fits(1), of wanted] L s2(2) by (auto simp: out_def kv_tool_map_load_from_pos_def)
  moreover have "(k, cid) \<in> set es"
    if "text_of (sv_tool_mem s) cid = Some (k, src)" "k \<in> set (text_blocks tx)" "entry_fits (k, cid)" for cid k src
    using that map_entries_has [OF inv, of cid _ tx] by (auto simp: es text_of_def split: if_splits option.splits)
  ultimately show ?thesis using w inv' got kept by blast
qed

subsection \<open>The block a text breaks off in, specified\<close>

text \<open>A length of a common part: the end of the text is the start of the block, and has one of the opening marks whole.\<close>

definition tail_match :: "bytes \<Rightarrow> bytes \<Rightarrow> nat \<Rightarrow> bool" where
  "tail_match tx dsml n \<longleftrightarrow> n \<le> length tx \<and> n \<le> length dsml \<and> drop (length tx - n) tx = take n dsml \<and>
     (\<exists>f \<in> set kv_tool_block_forms. \<exists>j. j + length (bf_start f) \<le> n \<and> take (length (bf_start f)) (drop j dsml) = bf_start f)"

text \<open>A step that takes the best number of a set, and what folding such steps gives.\<close>

definition takes_best :: "nat set \<Rightarrow> nat \<Rightarrow> nat \<Rightarrow> bool" where
  "takes_best S best r \<longleftrightarrow> best \<le> r \<and> (r = best \<or> r \<in> S) \<and> (\<forall>n \<in> S. n \<le> r)"

lemma takes_best_foldl:
  assumes "\<And>best x. x \<in> set xs \<Longrightarrow> takes_best (S x) best (step best x)"
  shows "takes_best (\<Union>x \<in> set xs. S x) best (foldl step best xs)"
  using assms
proof (induction xs arbitrary: best)
  case (Cons x xs)
  have "takes_best (S x) best (step best x)" "takes_best (\<Union>x \<in> set xs. S x) (step best x) (foldl step (step best x) xs)"
    using Cons by simp_all
  then show ?case by (auto simp: takes_best_def)
qed (simp add: takes_best_def)

definition cand_len :: "bytes \<Rightarrow> bytes \<Rightarrow> bytes \<Rightarrow> nat \<Rightarrow> nat \<Rightarrow> nat set" where
  "cand_len tx dsml marker bm tm = {n. bm \<le> tm \<and> n = length tx - (tm - bm) \<and> n \<le> length dsml \<and> bm + length marker \<le> n \<and>
     take n (drop (tm - bm) tx) = take n dsml}"

lemma tail_candidate_best: "takes_best (cand_len tx dsml marker bm tm) best (tail_candidate tx dsml marker bm best tm)"
  by (auto simp: takes_best_def cand_len_def tail_candidate_def Let_def)

definition marker_len :: "bytes \<Rightarrow> bytes \<Rightarrow> bytes \<Rightarrow> nat \<Rightarrow> nat set" where
  "marker_len tx dsml marker bm =
     (if length tx - length dsml + bm \<le> length tx
      then (\<Union>tm \<in> set (occurs marker tx (length tx - length dsml + bm)). cand_len tx dsml marker bm tm) else {})"

lemma tail_marker_best: "takes_best (marker_len tx dsml marker bm) best (tail_marker tx dsml marker best bm)"
proof -
  have mn: "(if length tx > length dsml then length tx - length dsml else 0) = length tx - length dsml" by simp
  have c: "bm \<le> length tx - (length tx - length dsml) \<and> length tx - length dsml + bm \<le> length tx \<longleftrightarrow>
      length tx - length dsml + bm \<le> length tx" by auto
  show ?thesis
    unfolding tail_marker_def mn Let_def c marker_len_def
    by (auto intro!: takes_best_foldl tail_candidate_best simp: takes_best_def [of "{}"])
qed

lemma tail_match_iff:
  "tail_match tx dsml n \<longleftrightarrow> (\<exists>f \<in> set kv_tool_block_forms. \<exists>bm \<in> set (occurs (bf_start f) dsml 0). n \<in> marker_len tx dsml (bf_start f) bm)"
proof
  assume "tail_match tx dsml n"
  then obtain f j where f: "f \<in> set kv_tool_block_forms" and j: "j + length (bf_start f) \<le> n"
    "take (length (bf_start f)) (drop j dsml) = bf_start f"
    and n: "n \<le> length tx" "n \<le> length dsml" "drop (length tx - n) tx = take n dsml" by (auto simp: tail_match_def)
  have ne: "0 < length (bf_start f)" using f by (auto simp: kv_tool_block_forms_def tool_calls_tag_def lit_def)
  let ?tm = "length tx - n + j"
  have jn: "j < n" using j(1) ne by linarith
  have "take (length (bf_start f)) (drop ?tm tx) = take (length (bf_start f)) (drop j (take n dsml))"
    using n(3) by (metis add.commute drop_drop)
  also have "\<dots> = bf_start f" using j by (simp add: take_drop min_def)
  finally have "?tm \<in> set (occurs (bf_start f) tx (length tx - length dsml + j))"
    using jn n(1,2) by (auto simp: occurs_def)
  moreover have "n \<in> cand_len tx dsml (bf_start f) j ?tm" using j n by (simp add: cand_len_def)
  ultimately have "n \<in> marker_len tx dsml (bf_start f) j" using j n by (auto simp: marker_len_def)
  moreover have "j \<in> set (occurs (bf_start f) dsml 0)" using jn j(2) n(2) by (auto simp: occurs_def)
  ultimately show "\<exists>f \<in> set kv_tool_block_forms. \<exists>bm \<in> set (occurs (bf_start f) dsml 0). n \<in> marker_len tx dsml (bf_start f) bm"
    using f by blast
next
  assume "\<exists>f \<in> set kv_tool_block_forms. \<exists>bm \<in> set (occurs (bf_start f) dsml 0). n \<in> marker_len tx dsml (bf_start f) bm"
  then obtain f bm tm where f: "f \<in> set kv_tool_block_forms" and bm: "bm \<in> set (occurs (bf_start f) dsml 0)"
    and tm: "tm \<in> set (occurs (bf_start f) tx (length tx - length dsml + bm))" and n: "n \<in> cand_len tx dsml (bf_start f) bm tm"
    by (auto simp: marker_len_def split: if_splits)
  have "tm < length tx" using tm by (simp add: occurs_def)
  then have "length tx - n = tm - bm" "n \<le> length tx" using n by (auto simp: cand_len_def)
  then have "drop (length tx - n) tx = take n dsml" using n by (auto simp: cand_len_def)
  then show "tail_match tx dsml n"
    unfolding tail_match_def using n bm f \<open>n \<le> length tx\<close> by (auto simp: cand_len_def occurs_def)
qed

lemma tail_prefix_best: "takes_best {n. tail_match tx dsml n} 0 (kv_tool_map_tail_prefix_len tx dsml)"
proof (cases "tx = [] \<or> dsml = []")
  case True
  have "n = 0" if "tail_match tx dsml n" for n using that True by (auto simp: tail_match_def)
  then show ?thesis using True by (auto simp: takes_best_def kv_tool_map_tail_prefix_len_def)
next
  case False
  have "{n. tail_match tx dsml n} =
      (\<Union>f \<in> set kv_tool_block_forms. \<Union>bm \<in> set (occurs (bf_start f) dsml 0). marker_len tx dsml (bf_start f) bm)"
    using tail_match_iff by auto
  then show ?thesis
    unfolding kv_tool_map_tail_prefix_len_def using False by (auto intro!: takes_best_foldl tail_marker_best)
qed

text \<open>The unseen blocks of the entries, and when a state of the search stands for a set of them.\<close>

definition open_blocks :: "tool_memory \<Rightarrow> u64 \<Rightarrow> bytes list \<Rightarrow> bytes set" where
  "open_blocks m scan cids = {te_block e | e cid. cid \<in> set cids \<and> tm_by_id m cid = Some e \<and> te_block e \<in> unseen m scan}"

definition search_ok :: "(bytes \<Rightarrow> nat) \<Rightarrow> bytes set \<Rightarrow> bytes option \<times> nat \<times> bool \<Rightarrow> bool" where
  "search_ok L C = (\<lambda>(best, n, ambiguous).
     (\<forall>c \<in> C. L c \<le> n) \<and>
     (case best of
        None \<Rightarrow> n = 0 \<and> \<not> ambiguous
      | Some b \<Rightarrow> b \<in> C \<and> L b = n \<and> 0 < n \<and> (ambiguous \<longleftrightarrow> (\<exists>c \<in> C. c \<noteq> b \<and> L c = n))))"

lemma tail_entry_search:
  assumes "search_ok (kv_tool_map_tail_prefix_len tx) C st"
  shows "search_ok (kv_tool_map_tail_prefix_len tx) (C \<union> open_blocks m scan [cid]) (tail_entry m tx scan st cid)"
proof -
  obtain best n a where st: "st = (best, n, a)" by (cases st) auto
  show ?thesis
  proof (cases "\<exists>e. tm_by_id m cid = Some e \<and> te_block e \<in> unseen m scan")
    case True
    then obtain e where e: "tm_by_id m cid = Some e" "te_block e \<in> unseen m scan" by blast
    then have o: "C \<union> open_blocks m scan [cid] = insert (te_block e) C" by (auto simp: open_blocks_def)
    let ?b = "te_block e" and ?L = "kv_tool_map_tail_prefix_len tx"
    have ok: "\<forall>c \<in> C. ?L c \<le> n" "best = None \<Longrightarrow> n = 0 \<and> \<not> a"
      "\<And>k. best = Some k \<Longrightarrow> k \<in> C \<and> ?L k = n \<and> 0 < n \<and> (a \<longleftrightarrow> (\<exists>c \<in> C. c \<noteq> k \<and> ?L c = n))"
      using assms by (simp_all add: st search_ok_def)
    have t: "tail_entry m tx scan st cid = (if best = Some ?b then (best, n, a) else if ?L ?b > n then (Some ?b, ?L ?b, False)
        else if ?L ?b \<noteq> 0 \<and> ?L ?b = n then (best, n, True) else (best, n, a))"
      using e by (simp add: st tail_entry_unseen Let_def)
    consider "best = Some ?b" | "best \<noteq> Some ?b" "?L ?b > n" | "best \<noteq> Some ?b" "?L ?b \<noteq> 0" "?L ?b = n"
      | "best \<noteq> Some ?b" "?L ?b \<le> n" "?L ?b = 0 \<or> ?L ?b \<noteq> n" by linarith
    then show ?thesis
    proof cases
      case 1
      then have "insert ?b C = C" using ok(3) by blast
      then show ?thesis unfolding o t using 1 assms st by simp
    next
      case 2
      then show ?thesis unfolding o t using ok(1) by (fastforce simp: search_ok_def)
    next
      case 3
      then show ?thesis unfolding o t using ok by (cases best) (auto simp: search_ok_def)
    next
      case 4
      then show ?thesis unfolding o t using ok by (cases best) (auto simp: search_ok_def)
    qed
  next
    case False
    then have o: "C \<union> open_blocks m scan [cid] = C" by (auto simp: open_blocks_def)
    show ?thesis using assms False unfolding o st by (auto simp: tail_entry_unseen split: option.splits)
  qed
qed

lemma tail_search: "search_ok (kv_tool_map_tail_prefix_len tx) (open_blocks m scan cids) (foldl (tail_entry m tx scan) (None, 0, False) cids)"
proof (induction cids rule: rev_induct)
  case Nil
  show ?case by (simp add: search_ok_def open_blocks_def)
next
  case (snoc cid cids)
  have "open_blocks m scan (cids @ [cid]) = open_blocks m scan cids \<union> open_blocks m scan [cid]" by (auto simp: open_blocks_def)
  then show ?case using tail_entry_search [OF snoc.IH] by simp
qed

lemma search_ok_result:
  assumes "search_ok L C (best, n, a)"
  shows "(if a then None else best) = Some k \<longleftrightarrow> k \<in> C \<and> 0 < L k \<and> (\<forall>c \<in> C. c \<noteq> k \<longrightarrow> L c < L k)"
proof (cases best)
  case None
  then show ?thesis using assms by (auto simp: search_ok_def)
next
  case (Some b)
  then have o: "b \<in> C" "L b = n" "0 < n" "\<forall>c \<in> C. L c \<le> n" "a \<longleftrightarrow> (\<exists>c \<in> C. c \<noteq> b \<and> L c = n)"
    using assms by (auto simp: search_ok_def)
  show ?thesis
  proof (cases "k = b")
    case True
    have "a \<longleftrightarrow> \<not> (\<forall>c \<in> C. c \<noteq> k \<longrightarrow> L c < L k)" using o(2,4,5) True by (metis nat_less_le)
    then show ?thesis using Some o(1-3) True by auto
  next
    case False
    then have "\<not> (k \<in> C \<and> (\<forall>c \<in> C. c \<noteq> k \<longrightarrow> L c < L k))" using o(1,2,4) by (metis not_less)
    then show ?thesis using Some False by auto
  qed
qed

lemma tail_match_pos: "tail_match tx dsml n \<Longrightarrow> 0 < n"
  by (auto simp: tail_match_def kv_tool_block_forms_def tool_calls_tag_def lit_def)

text \<open>
  C21. The block a text breaks off in is found exactly when there is one. The search over the entries in their order of
  recency names a block if and only if the scan has not met the block, the end of the text is a start of the block that
  has an opening mark whole, and no other such block matches as long an end of the text.
\<close>

theorem tail_block_iff:
  "kv_tool_map_tail_block_locked m tx scan = Some k \<longleftrightarrow>
     k \<in> open_blocks m scan (tm_lru m) \<and>
     (\<exists>n. tail_match tx k n \<and> (\<forall>k' n'. k' \<in> open_blocks m scan (tm_lru m) \<and> tail_match tx k' n' \<longrightarrow> k' = k \<and> n' \<le> n \<or> n' < n))"
proof -
  let ?L = "kv_tool_map_tail_prefix_len tx" and ?C = "open_blocks m scan (tm_lru m)"
  obtain best n a where r: "foldl (tail_entry m tx scan) (None, 0, False) (tm_lru m) = (best, n, a)"
    by (cases "foldl (tail_entry m tx scan) (None, 0, False) (tm_lru m)") auto
  have ok: "search_ok ?L ?C (best, n, a)" using tail_search [of tx m scan "tm_lru m"] by (simp add: r)
  have L: "?L c = 0 \<and> (\<nexists>n. tail_match tx c n) \<or> tail_match tx c (?L c) \<and> 0 < ?L c" "\<And>n. tail_match tx c n \<Longrightarrow> n \<le> ?L c" for c
    using tail_prefix_best [of tx c] tail_match_pos [of tx c] unfolding takes_best_def
    by (metis le_zero_eq less_numeral_extra(3) mem_Collect_eq, simp)
  have "kv_tool_map_tail_block_locked m tx scan = Some k \<longleftrightarrow> k \<in> ?C \<and> 0 < ?L k \<and> (\<forall>c \<in> ?C. c \<noteq> k \<longrightarrow> ?L c < ?L k)"
    unfolding kv_tool_map_tail_block_locked_def r Let_def prod.case by (rule search_ok_result [OF ok])
  also have "\<dots> \<longleftrightarrow> k \<in> ?C \<and> (\<exists>n. tail_match tx k n \<and> (\<forall>k' n'. k' \<in> ?C \<and> tail_match tx k' n' \<longrightarrow> k' = k \<and> n' \<le> n \<or> n' < n))"
    (is "?A \<longleftrightarrow> ?B")
  proof
    assume ?A
    then show ?B using L by (metis le_less_trans less_irrefl)
  next
    assume ?B
    then obtain n where n: "k \<in> ?C" "tail_match tx k n"
      "\<And>k' n'. k' \<in> ?C \<Longrightarrow> tail_match tx k' n' \<Longrightarrow> k' = k \<and> n' \<le> n \<or> n' < n" by blast
    have "?L c < ?L k" if "c \<in> ?C" "c \<noteq> k" for c
      using L(1) [of c] L(1) [of k] L(2) [OF n(2)] n(2) n(3) [OF that(1)] that(2) by fastforce
    then show ?A using n(1,2) L(1) [of k] by auto
  qed
  finally show ?thesis .
qed

subsection \<open>Examples\<close>

text \<open>A memory with the text of one call under the id \<open>a\<close>, and a text with the call in it.\<close>

definition call_text :: bytes where "call_text = lit ''<tool_call>f</tool_call>''"
definition call_mem :: server where
  "call_mem = demo_start\<lparr>sv_tool_mem := tool_memory_put_entry (sv_tool_mem demo_start) [97] call_text TOOL_MEMORY_RAM\<rparr>"

definition call_form :: block_form where
  "call_form = \<lparr>bf_start = lit ''<tool_call>'', bf_end = lit ''</tool_call>'', bf_repeat = lit ''<tool_call>''\<rparr>"

lemma call_forms: "call_form \<in> set kv_tool_block_forms"
  by (simp add: kv_tool_block_forms_def call_form_def)

lemma call_find: "find_next_dsml_tool_block (lit ''hi'' @ call_text) = Some (2, 26)" "find_next_dsml_tool_block [] = None"
  by (simp_all add: find_next_dsml_tool_block_def best_block_def block_step_def kv_tool_block_forms_def tool_calls_tag_def
      DS4_DSML_def DS4_DSML_SHORT_def call_text_def lit_def repeat_len.simps)

lemma call_text_blocks: "text_blocks (lit ''hi'' @ call_text) = [call_text]"
proof -
  have "drop 26 (lit ''hi'' @ call_text) = []" "bslice 2 24 (lit ''hi'' @ call_text) = call_text"
    by (simp_all add: call_text_def lit_def bslice_def)
  then show ?thesis using call_find by (subst text_blocks.simps, simp) (subst text_blocks.simps, simp)
qed

lemma call_mem_fields:
  "tm_by_block (sv_tool_mem call_mem) = [call_text \<mapsto> \<lparr>tb_bytes = 73, tb_refs = 1, tb_seen = 0, tb_entries = [[97]]\<rparr>]"
  "tm_scan_clock (sv_tool_mem call_mem) = 0"  "tm_lru (sv_tool_mem call_mem) = [[97]]"
  "tm_by_id (sv_tool_mem call_mem) = [[97] \<mapsto> \<lparr>te_block = call_text, te_bytes = 74, te_stamp = 1, te_source = TOOL_MEMORY_RAM, te_pins = 0, te_rec = None\<rparr>]"
  "sv_disable_exact_dsml_tool_replay call_mem = False"
  by (simp_all add: call_mem_def call_text_def lit_def demo_start_def srv_start_def tool_memory_put_entry_def tool_memory_new_entry_def
      tool_memory_get_block_locked_def tool_memory_find_block_locked_def tool_memory_find_entry_locked_def Let_def
      sizeof_entry_def sizeof_block_def)

lemma call_mem_ready: "scan_ready (sv_tool_mem call_mem)"
proof -
  have "tm_inv (sv_tool_mem demo_start)" using start_inv srv_invD(1) unfolding demo_start_def by blast
  then have "tm_inv (sv_tool_mem call_mem)"
    unfolding call_mem_def by (simp add: put_entry_inv(1) call_text_def lit_def tm_size_def keys_size_def demo_start_def srv_start_def)
  then show ?thesis by (auto simp: scan_ready_def marks_ok_def call_mem_fields split: if_splits)
qed

lemma call_tail: "kv_tool_map_tail_block_locked (marked {call_text} (sv_tool_mem call_mem)) tx 1 = None"
  by (simp add: kv_tool_map_tail_block_locked_def call_mem_fields marked_def tail_entry_def)

lemma call_store: "store_text call_mem (lit ''hi'' @ call_text) = [(call_text, [97])]"
  by (simp add: store_text_def map_entries_def block_pairs_def chosen_def call_text_blocks call_tail call_mem_fields ents_def
      entry_fits_def) (simp add: call_text_def lit_def)

theorem tool_map_hooks_exact_witness:
  "kv_trailer_serialized_size (Some (kv_cache_tool_map_hooks True call_mem)) (lit ''hi'' @ call_text) = (True, 41)"
  using tool_map_hooks_exact [of call_mem "lit ''hi'' @ call_text"] call_mem_ready
  by (simp add: call_store length_trailer trailer_size_def entry_size_def) (simp add: call_text_def lit_def)

theorem tool_map_restart_exact_witness:
  "\<exists>out s'. snd (kv_tool_map_write True call_mem (lit ''hi'' @ call_text)) = (True, out, of_nat (length out)) \<and>
     kv_tool_map_load_from_pos demo_start out None = Some (1, s') \<and> map_option fst (text_of (sv_tool_mem s') [97]) = Some call_text"
proof -
  have inv: "srv_inv demo_start" unfolding demo_start_def by (rule start_inv)
  have on: "\<not> sv_disable_exact_dsml_tool_replay demo_start" by (simp add: demo_start_def srv_start_def)
  have room: "room_pairs (sv_tool_mem demo_start) [(call_text, [97])]"
    by (simp add: room_pairs_def demo_start_def srv_start_def tm_size_def keys_size_def tool_memory_max_entries_def
        tool_memory_max_bytes_def call_text_def lit_def)
  have loads: "list_all entry_loads [(call_text, [97])]" "entry_fits (call_text, [97])" "trailer_size [(call_text, [97])] < 2 ^ 64"
    by (simp_all add: entry_loads_def entry_fits_def call_text_def lit_def DS4_TOOL_MEMORY_MAX_BYTES_def trailer_size_def entry_size_def)
  have ne: "lit ''hi'' @ call_text \<noteq> []" by (simp add: lit_def)
  have old: "text_of (sv_tool_mem call_mem) [97] = Some (call_text, TOOL_MEMORY_RAM)" by (simp add: text_of_def call_mem_fields)
  from tool_map_restart_exact [of call_mem "lit ''hi'' @ call_text" demo_start None, unfolded call_store,
      OF call_mem_ready _ ne _ loads(3,1) inv on room] call_mem_fields(5)
  show ?thesis using old loads(2) call_text_blocks by (fastforce simp: is_wanted_def)
qed

theorem tail_block_iff_witness:
  "kv_tool_map_tail_block_locked (sv_tool_mem call_mem) (lit ''hi<tool_call>f</tool_'') 1 = Some call_text"
proof -
  let ?tx = "lit ''hi<tool_call>f</tool_''"
  have "tail_match ?tx call_text 19"
    unfolding tail_match_def
  proof (intro conjI bexI [OF _ call_forms] exI [of _ 0])
  qed (simp_all add: call_text_def lit_def call_form_def)
  moreover have "n' \<le> 19" if "tail_match ?tx call_text n'" for n'
  proof (rule ccontr)
    assume "\<not> n' \<le> 19"
    moreover have "n' \<le> 21" using that by (simp add: tail_match_def lit_def)
    ultimately have "n' = 20 \<or> n' = 21" by auto
    moreover have "drop (length ?tx - n') ?tx = take n' call_text" using that by (simp add: tail_match_def)
    ultimately show False by (elim disjE) (simp_all add: call_text_def lit_def)
  qed
  moreover have "open_blocks (sv_tool_mem call_mem) 1 (tm_lru (sv_tool_mem call_mem)) = {call_text}"
    by (auto simp: open_blocks_def unseen_def call_mem_fields)
  ultimately show ?thesis unfolding tail_block_iff by (metis singletonD singletonI)
qed

end
