(* ===== verification/Tool_Restore.thy ===== *)
theory Tool_Restore
  imports Tool_Map
begin

section \<open>Tool texts after a restart\<close>

text \<open>
  \<open>kv_cache_restore_tool_memory_for_messages\<close> of \<open>src/ds4_server.c\<close>: before a conversation is rendered, the texts of the
  tool calls that it names are read from the checkpoint files of the directory, of those that are of the model and have
  a tool map. The file is left at the end of its header; the texts and the payload are skipped. A seek past the end of a
  file succeeds and the read after it finds nothing.

  The identity of the model is an argument; a server without an engine has 0. A server is only given files through the
  disk of \<open>Kv_Files\<close>.
\<close>

definition tool_map_pos :: "os_env \<Rightarrow> files \<Rightarrow> string \<Rightarrow> u8 \<Rightarrow> string \<Rightarrow> bytes option" where
  "tool_map_pos os fs dir model_id n =
     (case kvstore_sha_hex_name n of
        None \<Rightarrow> None
      | Some _ \<Rightarrow>
          let path = kvstore_path_join dir n
          in if \<not> os_readable os path then None
             else case fs_get fs path of
               None \<Rightarrow> None
             | Some bs \<Rightarrow>
                 (case kvstore_read_header bs of
                    None \<Rightarrow> None
                  | Some (hdr, text_bytes, fp) \<Rightarrow>
                      let skip = ucast text_bytes + e_payload_bytes hdr :: u64
                      in if e_model_id hdr = model_id \<and> e_ext_flags hdr AND EXT_TOOL_MAP \<noteq> 0 \<and> skip \<le> 0x7FFFFFFFFFFFFFFF
                         then Some (drop (unat skip) fp) else None))"

fun restore_files :: "os_env \<Rightarrow> files \<Rightarrow> string \<Rightarrow> u8 \<Rightarrow> bytes list \<Rightarrow> string list \<Rightarrow> server \<Rightarrow> server option" where
  "restore_files os fs dir model_id wanted [] s = Some s"
| "restore_files os fs dir model_id wanted (n # ns) s =
     (case tool_map_pos os fs dir model_id n of
        None \<Rightarrow> restore_files os fs dir model_id wanted ns s
      | Some fp \<Rightarrow>
          (case kv_tool_map_load_from_pos s fp (Some wanted) of
             None \<Rightarrow> None
           | Some (_, s') \<Rightarrow> restore_files os fs dir model_id wanted ns s'))"

definition kv_cache_restore_tool_memory_for_messages :: "os_env \<Rightarrow> files \<Rightarrow> kvstore \<Rightarrow> u8 \<Rightarrow> server \<Rightarrow> chat_msg list \<Rightarrow> server option" where
  "kv_cache_restore_tool_memory_for_messages os fs kc model_id s msgs =
     (if sv_disable_exact_dsml_tool_replay s \<or> \<not> kc_enabled kc then Some s
      else let wanted = collect_tool_call_ids msgs []
        in if wanted = [] then Some s
           else if \<not> os_listable os (kc_dir kc) then Some s
           else restore_files os fs (kc_dir kc) model_id wanted (fs_names (kc_dir kc) fs) s)"

subsection \<open>What a directory holds\<close>

text \<open>A name of the directory that is passed over, or a complete checkpoint of the model with the trailer of some entries.\<close>

definition file_holds :: "os_env \<Rightarrow> files \<Rightarrow> string \<Rightarrow> u8 \<Rightarrow> string \<Rightarrow> (bytes \<times> bytes) list \<Rightarrow> bool" where
  "file_holds os fs dir model_id n es \<longleftrightarrow>
     tool_map_pos os fs dir model_id n = None \<and> es = [] \<or>
     tool_map_pos os fs dir model_id n = Some (trailer_bytes es)"

lemma record_file_holds:
  assumes "kvstore_sha_hex_name n \<noteq> None" "os_readable os (kvstore_path_join dir n)"
    "fs_get fs (kvstore_path_join dir n) = Some (kv_record_bytes model_id q r x t h c ca lu tx payload (trailer_bytes es))"
    "t \<noteq> 0" "q = 2 \<or> q = 4" "x AND EXT_TOOL_MAP \<noteq> 0" "length tx < 2 ^ 32" "length tx + length payload < 2 ^ 63"
  shows "file_holds os fs dir model_id n es"
proof -
  define skip :: u64 where "skip = ucast (of_nat (length tx) :: u32) + of_nat (length payload)"
  have "(ucast (of_nat (length tx) :: u32) :: u64) = of_nat (length tx)"
    using assms(7) by (simp add: unsigned_of_nat take_bit_nat_eq_self)
  then have skip: "skip = of_nat (length tx + length payload)" by (simp add: skip_def)
  have u: "unat skip = length tx + length payload" unfolding skip using assms(8) by (intro unat_of_nat_u64) simp
  then have "skip \<le> 0x7FFFFFFFFFFFFFFF" using assms(8) by (simp add: word_le_nat_alt)
  then have "tool_map_pos os fs dir model_id n = Some (trailer_bytes es)"
    using assms(1-3,6) u
    by (auto simp: tool_map_pos_def read_header_record [OF assms(4,5)] kv_header_entry_def skip_def Let_def)
  then show ?thesis by (simp add: file_holds_def)
qed

lemma restore_files_in_room:
  assumes "srv_inv s" "\<not> sv_disable_exact_dsml_tool_replay s"
    "list_all (\<lambda>n. file_holds os fs dir model_id n (E n) \<and> length (E n) < 2 ^ 32) ns"
    "list_all entry_loads (concat (map E ns))" "one_text (concat (map E ns))" "room_pairs (sv_tool_mem s) (concat (map E ns))"
  shows "\<exists>s'. restore_files os fs dir model_id wanted ns s = Some s' \<and> srv_inv s' \<and> \<not> sv_disable_exact_dsml_tool_replay s' \<and>
    loaded_texts (Some wanted) (concat (map E ns)) (sv_tool_mem s) (sv_tool_mem s')"
  using assms
proof (induction ns arbitrary: s)
  case Nil
  then show ?case by (simp add: loaded_texts_def)
next
  case (Cons n ns)
  have loads: "list_all entry_loads (E n)" "list_all entry_loads (concat (map E ns))" using Cons.prems(4) by simp_all
  have one: "one_text (E n)" "one_text (concat (map E ns))"
    using Cons.prems(5) one_text_append [of "E n" "concat (map E ns)"] by simp_all
  have rest: "list_all (\<lambda>n. file_holds os fs dir model_id n (E n) \<and> length (E n) < 2 ^ 32) ns" using Cons.prems(3) by simp
  have room: "room_pairs (sv_tool_mem s) (E n @ concat (map E ns))" using Cons.prems(6) by simp
  show ?case
  proof (cases "tool_map_pos os fs dir model_id n")
    case None
    then have "E n = []" using Cons.prems(3) by (simp add: file_holds_def)
    then show ?thesis using None Cons.IH [OF Cons.prems(1,2) rest loads(2) one(2)] Cons.prems(6) by simp
  next
    case (Some fp)
    then have fp: "fp = trailer_bytes (E n)" and len: "length (E n) < 2 ^ 32" using Cons.prems(3) by (auto simp: file_holds_def)
    have "int (length (E n)) \<le> tool_memory_max_entries (sv_tool_mem s) * 4" using room by (simp add: room_pairs_def)
    note H = load_header [OF Cons.prems(2) len this, of "Some wanted"]
    from load_entries_in_room [OF Cons.prems(1,2) loads(1) one(1) room, of "Some wanted" 0] obtain s1 where
      s1: "kv_tool_map_load_from_pos s fp (Some wanted) = Some (int (length (filter (is_wanted (Some wanted)) (E n))), s1)"
        "srv_inv s1" "\<not> sv_disable_exact_dsml_tool_replay s1" "room_pairs (sv_tool_mem s1) (concat (map E ns))"
        "loaded_texts (Some wanted) (E n) (sv_tool_mem s) (sv_tool_mem s1)"
      unfolding fp H by auto
    from Cons.IH [OF s1(2,3) rest loads(2) one(2) s1(4)] show ?thesis
      using Some s1(1) loaded_texts_append [OF _ s1(5)] Cons.prems(5) by auto
  qed
qed

lemma push_unique_mem: "x \<in> set (id_list_push_unique ids cid) \<longleftrightarrow> x \<in> set ids \<or> x = cid \<and> cid \<noteq> []"
  by (auto simp: id_list_push_unique_def id_list_contains_def)

lemma collect_mem:
  "x \<in> set (collect_tool_call_ids msgs ids) \<longleftrightarrow> x \<in> set ids \<or>
     x \<noteq> [] \<and> (\<exists>m \<in> set msgs. x = cm_tool_call_id m \<or> x \<in> set (cm_tool_call_ids m) \<or> x \<in> set (tc_ids (cm_calls m)))"
proof -
  have fold: "x \<in> set (foldl id_list_push_unique ids xs) \<longleftrightarrow> x \<in> set ids \<or> x \<noteq> [] \<and> x \<in> set xs" for ids xs
    by (induction xs arbitrary: ids) (auto simp: push_unique_mem)
  show ?thesis
  proof (induction msgs arbitrary: ids)
    case (Cons m msgs)
    show ?case unfolding collect_tool_call_ids_def foldl.simps
      unfolding collect_tool_call_ids_def [symmetric] Cons.IH by (auto simp: fold push_unique_mem)
  qed (simp add: collect_tool_call_ids_def)
qed


text \<open>
  C5. A tool call is replayed exactly by a restarted server. One server has written a checkpoint with its tool map; another
  finds it in its directory, among other names that it passes over or that hold tool maps which do not contradict it, and
  has room for all of them. A message of the conversation names calls of one turn, whose text is a tool-call block of the
  checkpoint's text. Restoring the memory for the message returns, and attaching then gives the message exactly the text
  that the first server sampled.
\<close>

theorem restart_replays_turn:
  fixes s s2 :: server and tx :: bytes and E :: "string \<Rightarrow> (bytes \<times> bytes) list" and fs :: files and kc :: kvstore and msg :: chat_msg
  defines "dir \<equiv> kc_dir kc" and "es \<equiv> concat (map E (fs_names (kc_dir kc) fs))"
  assumes s: "scan_ready (sv_tool_mem s)" "\<not> sv_disable_exact_dsml_tool_replay s" "E n0 = store_text s tx" "trailer_size (E n0) < 2 ^ 64"
    and rec: "n0 \<in> set (fs_names dir fs)" "kvstore_sha_hex_name n0 \<noteq> None" "os_readable os (kvstore_path_join dir n0)"
      "fs_get fs (kvstore_path_join dir n0) =
         Some (kv_record_bytes model_id q r x t h c ca lu tx payload (fst (snd (snd (kv_tool_map_write True s tx)))))"
      "t \<noteq> 0" "q = 2 \<or> q = 4" "x AND EXT_TOOL_MAP \<noteq> 0" "length tx < 2 ^ 32" "length tx + length payload < 2 ^ 63"
    and others: "\<forall>n \<in> set (fs_names dir fs). n \<noteq> n0 \<longrightarrow> file_holds os fs dir model_id n (E n)"
    and all: "\<forall>n \<in> set (fs_names dir fs). length (E n) < 2 ^ 32" "list_all entry_loads es" "one_text es"
    and s2: "srv_inv s2" "\<not> sv_disable_exact_dsml_tool_replay s2" "room_pairs (sv_tool_mem s2) es"
      "kc_enabled kc" "os_listable os dir"
    and msg: "agreed_text (sv_tool_mem s) (tc_ids (cm_calls msg)) dsml" "tool_calls_exact_text (cm_calls msg) = None"
      "dsml \<in> set (text_blocks tx)" "\<forall>cid \<in> set (tc_ids (cm_calls msg)). entry_fits (dsml, cid)"
  shows "\<exists>s1 s3 st'. kv_cache_restore_tool_memory_for_messages os fs kc model_id s2 [msg] = Some s1 \<and> srv_inv s1 \<and>
    tool_memory_attach_to_messages s1 [msg] st =
      (s3, st', [msg\<lparr>cm_calls := (cm_calls msg)\<lparr>tc_raw_dsml := dsml, tc_raw_tool_text := dsml\<rparr>\<rparr>])"
proof -
  define wanted where "wanted = collect_tool_call_ids [msg] []"
  have inv: "tm_inv (sv_tool_mem s)" using s(1) by (simp add: scan_ready_def)
  have "text_blocks [] = []" by (subst text_blocks.simps) (simp add: call_find(2))
  then have tx: "tx \<noteq> []" using msg(3) by auto
  have has: "(dsml, cid) \<in> set (E n0)" "cid \<noteq> []" if "cid \<in> set (tc_ids (cm_calls msg))" for cid
    using map_entries_has [OF inv, of cid _ tx] that msg(1,3,4) s(2,3) tx tm_inv_entry(1) [OF inv]
    by (auto simp: store_text_def agreed_text_def text_of_def tool_memory_find_entry_locked_def split: if_splits option.splits)
  have ne: "tc_ids (cm_calls msg) \<noteq> []" using msg(1) by (simp add: agreed_text_def)
  then obtain cid0 where cid0: "cid0 \<in> set (tc_ids (cm_calls msg))" by (meson list.set_sel(1))
  have E0: "E n0 \<noteq> []" using has(1) [OF cid0] by auto
  have "length (E n0) < 2 ^ 32" using all(1) rec(1) by blast
  then have w: "fst (snd (snd (kv_tool_map_write True s tx))) = trailer_bytes (E n0)"
    using tool_map_write_exact [of s tx] scan_readyD [OF s(1)] s(3,4) E0 by simp
  have "file_holds os fs dir model_id n (E n)" if "n \<in> set (fs_names dir fs)" for n
    using others that record_file_holds [OF rec(2-9) [unfolded w]] by (cases "n = n0") auto
  then have "list_all (\<lambda>n. file_holds os fs dir model_id n (E n) \<and> length (E n) < 2 ^ 32) (fs_names dir fs)"
    using all(1) by (simp add: list_all_iff)
  from restore_files_in_room [OF s2(1,2) this, of wanted] all(2,3) s2(3) obtain s1 where
    s1: "restore_files os fs dir model_id wanted (fs_names dir fs) s2 = Some s1" "srv_inv s1" "\<not> sv_disable_exact_dsml_tool_replay s1"
      "loaded_texts (Some wanted) es (sv_tool_mem s2) (sv_tool_mem s1)"
    unfolding es_def dir_def by blast
  have want: "cid \<in> set wanted" if "cid \<in> set (tc_ids (cm_calls msg))" for cid
    using that has(2) by (auto simp: wanted_def collect_mem)
  have "map_option fst (text_of (sv_tool_mem s1) cid) = Some dsml" if "cid \<in> set (tc_ids (cm_calls msg))" for cid
    using s1(4) has [OF that] want [OF that] rec(1)
    by (auto simp: loaded_texts_def es_def dir_def is_wanted_def id_list_contains_def)
  then have agreed: "agreed_text (sv_tool_mem s1) (tc_ids (cm_calls msg)) dsml" using ne by (fastforce simp: agreed_text_def)
  have r: "kv_cache_restore_tool_memory_for_messages os fs kc model_id s2 [msg] = Some s1"
    using s1(1) s2(2,4,5) want [OF cid0] by (auto simp: kv_cache_restore_tool_memory_for_messages_def Let_def dir_def wanted_def)
  obtain m1 st1 msg1 where a: "attach_message (sv_tool_mem s1) st msg = (m1, st1, msg1)" by (cases "attach_message (sv_tool_mem s1) st msg")
  have "msg1 = msg\<lparr>cm_calls := (cm_calls msg)\<lparr>tc_raw_dsml := dsml, tc_raw_tool_text := dsml\<rparr>\<rparr>"
    by (rule attach_message_text(3) [OF a msg(2) agreed])
  then show ?thesis using r s1(2,3) a by (simp add: tool_memory_attach_to_messages_def)
qed

subsection \<open>An example\<close>

definition call_tx :: bytes where "call_tx = lit ''hi'' @ call_text"

definition call_files :: files where
  "call_files = [(''/kv/'' @ wit_name,
     kv_record_bytes 0 2 1 1 7 3 4096 10 20 call_tx [1, 2, 3] (fst (snd (snd (kv_tool_map_write True call_mem call_tx)))))]"

lemma call_names: "fs_names ''/kv'' call_files = [wit_name]"
  by (simp add: fs_names_def call_files_def kvstore_path_join_def Let_def wit_name_def)

theorem restart_replays_turn_witness:
  "\<exists>s1 s3 st'. kv_cache_restore_tool_memory_for_messages os_fine call_files wit_store 0 demo_start [demo_msg] = Some s1 \<and> srv_inv s1 \<and>
    tool_memory_attach_to_messages s1 [demo_msg] demo_stats =
      (s3, st', [demo_msg\<lparr>cm_calls := (cm_calls demo_msg)\<lparr>tc_raw_dsml := call_text, tc_raw_tool_text := call_text\<rparr>\<rparr>])"
proof -
  let ?E = "\<lambda>_ :: string. [(call_text, [97 :: u8])]"
  have es: "store_text call_mem call_tx = [(call_text, [97])]" unfolding call_tx_def by (rule call_store)
  have path: "kvstore_path_join ''/kv'' wit_name = ''/kv/'' @ wit_name" by (simp add: kvstore_path_join_def)
  have get: "fs_get call_files (''/kv/'' @ wit_name) =
      Some (kv_record_bytes 0 2 1 1 7 3 4096 10 20 call_tx [1, 2, 3] (fst (snd (snd (kv_tool_map_write True call_mem call_tx)))))"
    by (simp add: call_files_def fs_get_def)
  have inv: "srv_inv demo_start" unfolding demo_start_def by (rule start_inv)
  have on: "\<not> sv_disable_exact_dsml_tool_replay demo_start" by (simp add: demo_start_def srv_start_def)
  have room: "room_pairs (sv_tool_mem demo_start) [(call_text, [97])]"
    by (simp add: room_pairs_def demo_start_def srv_start_def tm_size_def keys_size_def tool_memory_max_entries_def
        tool_memory_max_bytes_def call_text_def lit_def)
  have size: "trailer_size [(call_text, [97])] < 2 ^ 64" "length call_tx = 26"
    by (simp_all add: trailer_size_def entry_size_def call_text_def lit_def call_tx_def)
  have loads: "list_all entry_loads [(call_text, [97])]" "entry_fits (call_text, [97])"
    by (simp_all add: entry_loads_def entry_fits_def call_text_def lit_def DS4_TOOL_MEMORY_MAX_BYTES_def)
  have name: "kvstore_sha_hex_name wit_name \<noteq> None" by code_simp
  have msg: "agreed_text (sv_tool_mem call_mem) (tc_ids (cm_calls demo_msg)) call_text"
    "tool_calls_exact_text (cm_calls demo_msg) = None" "tc_ids (cm_calls demo_msg) = [[97]]"
    by (simp_all add: agreed_text_def demo_msg_def text_of_def call_mem_fields tool_calls_exact_text_def)
  have block: "call_text \<in> set (text_blocks call_tx)" by (simp add: call_tx_def call_text_blocks)
  show ?thesis
    using restart_replays_turn [of call_mem ?E wit_name call_tx wit_store call_files os_fine 0 2 1 1 7 3 4096 10 20 "[1, 2, 3]"
        demo_start demo_msg call_text demo_stats]
      call_mem_ready call_mem_fields(5) es path get inv on room size loads name msg block
    by (simp add: call_names EXT_TOOL_MAP_def one_text_def)
qed

end
