(* ===== verification/Dsml_Track.thy ===== *)
theory Dsml_Track
  imports Tool_Map
begin

section \<open>Where generation is inside a tool call\<close>

text \<open>
  The tracker of \<open>src/ds4_server.c\<close> that decides for every token whether it belongs to the syntax of a tool call or to its
  payload (\<open>dsml_decode_tracker_*\<close>). It is fed the whole text after every token and goes on from where it stopped.

  A syntax is the entry of the table \<open>dsml_syntaxes\<close> that its pointer points to; before a start is found the pointer is
  null and nothing reads it. One turn of a loop of \<open>dsml_decode_tracker_update\<close> is one step here: it returns or goes on.
\<close>

datatype dsml_decode_state = DSML_DECODE_OUTSIDE | DSML_DECODE_STRUCTURAL | DSML_DECODE_STRING_BODY
  | DSML_DECODE_JSON_STRUCTURAL | DSML_DECODE_JSON_STRING

datatype dsml_track_mode = DSML_TRACK_SEARCH | DSML_TRACK_STRUCTURAL | DSML_TRACK_STRING_BODY | DSML_TRACK_JSON_PARAM | DSML_TRACK_DONE

datatype dsml_syntax = SYN_DSML | SYN_DSML_SHORT | SYN_PLAIN

definition dsml_syntaxes :: "dsml_syntax list" where "dsml_syntaxes = [SYN_DSML, SYN_DSML_SHORT, SYN_PLAIN]"

fun syn_name :: "dsml_syntax \<Rightarrow> bytes" where
  "syn_name SYN_DSML = DS4_DSML"
| "syn_name SYN_DSML_SHORT = DS4_DSML_SHORT"
| "syn_name SYN_PLAIN = []"

definition tool_calls_start :: "dsml_syntax \<Rightarrow> bytes" where "tool_calls_start s = lit ''<'' @ syn_name s @ lit ''tool_calls>''"
definition tool_calls_end :: "dsml_syntax \<Rightarrow> bytes" where "tool_calls_end s = lit ''</'' @ syn_name s @ lit ''tool_calls>''"
definition invoke_start :: "dsml_syntax \<Rightarrow> bytes" where "invoke_start s = lit ''<'' @ syn_name s @ lit ''invoke''"
definition invoke_end :: "dsml_syntax \<Rightarrow> bytes" where "invoke_end s = lit ''</'' @ syn_name s @ lit ''invoke>''"
definition param_start :: "dsml_syntax \<Rightarrow> bytes" where "param_start s = lit ''<'' @ syn_name s @ lit ''parameter''"
definition param_end :: "dsml_syntax \<Rightarrow> bytes" where "param_end s = lit ''</'' @ syn_name s @ lit ''parameter>''"

lemmas syn_lits = tool_calls_start_def tool_calls_end_def invoke_start_def invoke_end_def param_start_def param_end_def
  DS4_DSML_def DS4_DSML_SHORT_def lit_def

record dsml_decode_tracker =
  dt_mode :: dsml_track_mode
  dt_decode :: dsml_decode_state
  dt_syn :: dsml_syntax
  dt_pos :: nat
  dt_json_in_string :: bool
  dt_json_escaped :: bool

definition dsml_decode_state_is_tool :: "dsml_decode_state \<Rightarrow> bool" where
  "dsml_decode_state_is_tool st \<longleftrightarrow> st \<noteq> DSML_DECODE_OUTSIDE"

definition dsml_decode_state_uses_payload_sampling :: "dsml_decode_state \<Rightarrow> bool" where
  "dsml_decode_state_uses_payload_sampling st \<longleftrightarrow> st = DSML_DECODE_STRING_BODY \<or> st = DSML_DECODE_JSON_STRING"

definition dsml_decode_tracker_init :: dsml_decode_tracker where
  "dsml_decode_tracker_init = \<lparr>dt_mode = DSML_TRACK_SEARCH, dt_decode = DSML_DECODE_OUTSIDE, dt_syn = SYN_DSML, dt_pos = 0,
     dt_json_in_string = False, dt_json_escaped = False\<rparr>"

subsection \<open>Literals\<close>

definition raw_full_lit :: "bytes \<Rightarrow> nat \<Rightarrow> bytes \<Rightarrow> bool" where
  "raw_full_lit raw pos l \<longleftrightarrow> pos \<le> length raw \<and> length raw - pos \<ge> length l \<and> take (length l) (drop pos raw) = l"

definition raw_partial_lit_min :: "bytes \<Rightarrow> nat \<Rightarrow> bytes \<Rightarrow> nat \<Rightarrow> bool" where
  "raw_partial_lit_min raw pos l min_len \<longleftrightarrow>
     \<not> (pos > length raw \<or> length raw - pos \<ge> length l) \<and>
     (let avail = length raw - pos in avail \<ge> min_len \<and> take avail (drop pos raw) = take avail l)"

definition dsml_max_tool_start_len :: nat where
  "dsml_max_tool_start_len = foldl (\<lambda>mx s. if length (tool_calls_start s) > mx then length (tool_calls_start s) else mx) 0 dsml_syntaxes"

definition dsml_find_tool_start :: "bytes \<Rightarrow> (nat \<times> dsml_syntax) option" where
  "dsml_find_tool_start raw =
     map_option (\<lambda>(p, s). (p + length (tool_calls_start s), s))
       (foldl (\<lambda>best s. case strstr raw (tool_calls_start s) of
                          None \<Rightarrow> best
                        | Some p \<Rightarrow> if (case best of None \<Rightarrow> True | Some (b, _) \<Rightarrow> p < b) then Some (p, s) else best)
          None dsml_syntaxes)"

definition dsml_find_tool_start_from :: "bytes \<Rightarrow> nat \<Rightarrow> (nat \<times> dsml_syntax) option" where
  "dsml_find_tool_start_from raw start =
     (if start > length raw then None
      else map_option (\<lambda>(rel, s). (start + rel, s)) (dsml_find_tool_start (drop start raw)))"

text \<open>\<open>memchr\<close> for the byte that closes a tag, from a position on.\<close>

definition tag_close :: "bytes \<Rightarrow> nat \<Rightarrow> nat option" where
  "tag_close raw pos = (let n = length (takeWhile (\<lambda>c. c \<noteq> 62) (drop pos raw)) in if pos + n < length raw then Some (pos + n) else None)"

subsection \<open>Attributes\<close>

fun dsml_unescape_text :: "bytes \<Rightarrow> bytes" where
  "dsml_unescape_text [] = []"
| "dsml_unescape_text (c # s) =
     (if c \<noteq> 38 then c # dsml_unescape_text s
      else if take 5 (c # s) = lit ''&amp;'' then 38 # dsml_unescape_text (drop 4 s)
      else if take 4 (c # s) = lit ''&lt;'' then 60 # dsml_unescape_text (drop 3 s)
      else if take 4 (c # s) = lit ''&gt;'' then 62 # dsml_unescape_text (drop 3 s)
      else if take 6 (c # s) = lit ''&quot;'' then 34 # dsml_unescape_text (drop 5 s)
      else if take 6 (c # s) = lit ''&apos;'' then 39 # dsml_unescape_text (drop 5 s)
      else 38 # dsml_unescape_text s)"

definition dsml_attr :: "bytes \<Rightarrow> bytes \<Rightarrow> bytes option" where
  "dsml_attr tag name =
     (let pat = name @ lit ''='' @ [34]
      in case strstr tag pat of
           None \<Rightarrow> None
         | Some i \<Rightarrow>
             let p = drop (i + length pat) tag
             in if 34 \<in> set p then Some (dsml_unescape_text (takeWhile (\<lambda>c. c \<noteq> 34) p)) else None)"

definition dsml_attr_is_string_true :: "bytes \<Rightarrow> nat \<Rightarrow> nat \<Rightarrow> bool" where
  "dsml_attr_is_string_true raw tag_start tag_end =
     (if tag_end \<le> tag_start \<or> tag_end > length raw then False
      else dsml_attr (cstr (bslice tag_start (tag_end - tag_start) raw)) (lit ''string'') = Some (lit ''true''))"

subsection \<open>The tracker\<close>

definition search_turn :: "dsml_decode_tracker \<Rightarrow> bytes \<Rightarrow> dsml_decode_tracker + dsml_decode_tracker" where
  "search_turn dt raw =
     (case dsml_find_tool_start_from raw (dt_pos dt) of
        None \<Rightarrow> Inl (dt\<lparr>dt_pos := (if length raw > dsml_max_tool_start_len then length raw - dsml_max_tool_start_len else 0),
                       dt_decode := DSML_DECODE_OUTSIDE\<rparr>)
      | Some (p, s) \<Rightarrow> Inr (dt\<lparr>dt_syn := s, dt_pos := p, dt_mode := DSML_TRACK_STRUCTURAL, dt_decode := DSML_DECODE_STRUCTURAL\<rparr>))"

definition string_turn :: "dsml_decode_tracker \<Rightarrow> bytes \<Rightarrow> dsml_decode_tracker + dsml_decode_tracker" where
  "string_turn dt raw =
     (if dt_pos dt < length raw
      then if raw_full_lit raw (dt_pos dt) (param_end (dt_syn dt))
           then Inr (dt\<lparr>dt_pos := dt_pos dt + length (param_end (dt_syn dt)), dt_mode := DSML_TRACK_STRUCTURAL,
                       dt_decode := DSML_DECODE_STRUCTURAL\<rparr>)
           else if raw_partial_lit_min raw (dt_pos dt) (param_end (dt_syn dt)) 2 then Inl (dt\<lparr>dt_decode := DSML_DECODE_STRUCTURAL\<rparr>)
           else Inr (dt\<lparr>dt_pos := dt_pos dt + 1\<rparr>)
      else Inl (dt\<lparr>dt_decode := DSML_DECODE_STRING_BODY\<rparr>))"

definition json_char :: "u8 \<Rightarrow> dsml_decode_tracker \<Rightarrow> dsml_decode_tracker" where
  "json_char c dt =
     (if dt_json_in_string dt
      then if dt_json_escaped dt then dt\<lparr>dt_json_escaped := False\<rparr>
           else if c = 92 then dt\<lparr>dt_json_escaped := True\<rparr>
           else if c = 34 then dt\<lparr>dt_json_in_string := False\<rparr> else dt
      else if c = 34 then dt\<lparr>dt_json_in_string := True\<rparr> else dt)"

definition json_turn :: "dsml_decode_tracker \<Rightarrow> bytes \<Rightarrow> dsml_decode_tracker + dsml_decode_tracker" where
  "json_turn dt raw =
     (if dt_pos dt < length raw
      then if \<not> dt_json_in_string dt \<and> raw_full_lit raw (dt_pos dt) (param_end (dt_syn dt))
           then Inr (dt\<lparr>dt_pos := dt_pos dt + length (param_end (dt_syn dt)), dt_mode := DSML_TRACK_STRUCTURAL,
                       dt_decode := DSML_DECODE_STRUCTURAL\<rparr>)
           else if \<not> dt_json_in_string dt \<and> raw_partial_lit_min raw (dt_pos dt) (param_end (dt_syn dt)) 2
           then Inl (dt\<lparr>dt_decode := DSML_DECODE_STRUCTURAL\<rparr>)
           else Inr (json_char (raw ! dt_pos dt) (dt\<lparr>dt_pos := dt_pos dt + 1\<rparr>))
      else Inl (dt\<lparr>dt_decode := (if dt_json_in_string dt then DSML_DECODE_JSON_STRING else DSML_DECODE_JSON_STRUCTURAL)\<rparr>))"

text \<open>The last branch stands for the two of the code, for a partial literal and for anything else, which return alike.\<close>

definition structural_turn :: "dsml_decode_tracker \<Rightarrow> bytes \<Rightarrow> dsml_decode_tracker + dsml_decode_tracker" where
  "structural_turn dt raw =
     (let pos = dt_pos dt; s = dt_syn dt; stay = dt\<lparr>dt_decode := DSML_DECODE_STRUCTURAL\<rparr>
      in if pos < length raw \<and> c_isspace (raw ! pos) then Inr (dt\<lparr>dt_pos := pos + 1\<rparr>)
         else if pos \<ge> length raw then Inl stay
         else if raw_full_lit raw pos (tool_calls_end s)
         then Inl (dt\<lparr>dt_mode := DSML_TRACK_DONE, dt_pos := pos + length (tool_calls_end s), dt_decode := DSML_DECODE_OUTSIDE\<rparr>)
         else if raw_full_lit raw pos (invoke_end s) then Inr (dt\<lparr>dt_pos := pos + length (invoke_end s)\<rparr>)
         else if raw_full_lit raw pos (invoke_start s)
         then (case tag_close raw pos of None \<Rightarrow> Inl stay | Some e \<Rightarrow> Inr (dt\<lparr>dt_pos := e + 1\<rparr>))
         else if raw_full_lit raw pos (param_start s)
         then (case tag_close raw pos of
                 None \<Rightarrow> Inl stay
               | Some e \<Rightarrow>
                   if dsml_attr_is_string_true raw pos (e + 1)
                   then Inr (dt\<lparr>dt_pos := e + 1, dt_mode := DSML_TRACK_STRING_BODY, dt_decode := DSML_DECODE_STRING_BODY\<rparr>)
                   else Inr (dt\<lparr>dt_pos := e + 1, dt_mode := DSML_TRACK_JSON_PARAM, dt_json_in_string := False,
                               dt_json_escaped := False, dt_decode := DSML_DECODE_JSON_STRUCTURAL\<rparr>))
         else Inl stay)"

definition track_turn :: "dsml_decode_tracker \<Rightarrow> bytes \<Rightarrow> dsml_decode_tracker + dsml_decode_tracker" where
  "track_turn dt raw =
     (case dt_mode dt of
        DSML_TRACK_DONE \<Rightarrow> Inl (dt\<lparr>dt_decode := DSML_DECODE_OUTSIDE\<rparr>)
      | DSML_TRACK_SEARCH \<Rightarrow> search_turn dt raw
      | DSML_TRACK_STRING_BODY \<Rightarrow> string_turn dt raw
      | DSML_TRACK_JSON_PARAM \<Rightarrow> json_turn dt raw
      | DSML_TRACK_STRUCTURAL \<Rightarrow> structural_turn dt raw)"

definition search_first :: "dsml_decode_tracker \<Rightarrow> nat" where
  "search_first dt = (if dt_mode dt = DSML_TRACK_SEARCH then 1 else 0)"

lemma syn_lits_pos: "0 < length (param_end s)" "0 < length (invoke_end s)"
  by (simp_all add: syn_lits)

lemma tag_close_at: "tag_close raw pos = Some e \<Longrightarrow> pos \<le> e \<and> e < length raw"
  by (auto simp: tag_close_def Let_def split: if_splits)

lemma json_char_keeps [simp]: "dt_pos (json_char c dt) = dt_pos dt" "dt_mode (json_char c dt) = dt_mode dt" "dt_syn (json_char c dt) = dt_syn dt"
  by (simp_all add: json_char_def)

lemma track_turn_advances:
  assumes "track_turn dt raw = Inr dt'"
  shows "search_first dt' < search_first dt \<or>
    search_first dt' = search_first dt \<and> dt_mode dt \<noteq> DSML_TRACK_SEARCH \<and> dt_pos dt < length raw \<and> dt_pos dt < dt_pos dt'"
proof (cases "dt_mode dt")
  case DSML_TRACK_SEARCH
  then show ?thesis using assms by (auto simp: track_turn_def search_turn_def search_first_def split: option.splits)
next
  case DSML_TRACK_STRUCTURAL
  then show ?thesis using assms syn_lits_pos tag_close_at
    by (auto simp: track_turn_def structural_turn_def search_first_def Let_def le_imp_less_Suc split: if_splits option.splits)
next
  case DSML_TRACK_STRING_BODY
  then show ?thesis using assms syn_lits_pos by (auto simp: track_turn_def string_turn_def search_first_def split: if_splits)
next
  case DSML_TRACK_JSON_PARAM
  then show ?thesis using assms syn_lits_pos by (auto simp: track_turn_def json_turn_def search_first_def split: if_splits)
qed (use assms in \<open>simp add: track_turn_def\<close>)

function dsml_decode_tracker_update :: "dsml_decode_tracker \<Rightarrow> bytes \<Rightarrow> dsml_decode_tracker" where
  "dsml_decode_tracker_update dt raw =
     (case track_turn dt raw of Inl r \<Rightarrow> r | Inr dt' \<Rightarrow> dsml_decode_tracker_update dt' raw)"
  by pat_completeness auto

termination
  by (relation "measures [\<lambda>(dt, raw). search_first dt, \<lambda>(dt, raw). length raw - dt_pos dt]")
    (auto dest: track_turn_advances)

declare dsml_decode_tracker_update.simps [simp del]

subsection \<open>Growing texts\<close>

lemma full_lit_grows: "raw_full_lit t pos l \<Longrightarrow> raw_full_lit (t @ u) pos l"
  by (auto simp: raw_full_lit_def)

lemma take_eq_iff: "k \<le> length xs \<Longrightarrow> k \<le> length ys \<Longrightarrow> take k xs = take k ys \<longleftrightarrow> (\<forall>i < k. xs ! i = ys ! i)"
  by (metis nth_take nth_take_lemma)

lemma full_lit_nth: "raw_full_lit t pos l \<longleftrightarrow> pos + length l \<le> length t \<and> (\<forall>i < length l. t ! (pos + i) = l ! i)"
proof (cases "pos + length l \<le> length t")
  case True
  then have "take (length l) (drop pos t) = take (length l) l \<longleftrightarrow> (\<forall>i < length l. drop pos t ! i = l ! i)" by (intro take_eq_iff) auto
  then show ?thesis using True unfolding raw_full_lit_def by auto
next
  case False
  then show ?thesis by (auto simp: raw_full_lit_def)
qed

lemma partial_lit_nth:
  "raw_partial_lit_min t pos l n \<longleftrightarrow> pos \<le> length t \<and> length t - pos < length l \<and> n \<le> length t - pos \<and>
     (\<forall>i < length t - pos. t ! (pos + i) = l ! i)"
proof (cases "pos \<le> length t \<and> length t - pos < length l")
  case True
  then have "take (length t - pos) (drop pos t) = take (length t - pos) l \<longleftrightarrow> (\<forall>i < length t - pos. drop pos t ! i = l ! i)"
    by (intro take_eq_iff) auto
  then show ?thesis using True unfolding raw_partial_lit_min_def Let_def by auto
next
  case False
  then show ?thesis by (auto simp: raw_partial_lit_min_def)
qed

text \<open>A position that is passed in a body stays passed, unless it is the last byte and the first of the literal.\<close>

lemma passed_stays:
  assumes "pos < length t" "\<not> raw_full_lit t pos l" "\<not> raw_partial_lit_min t pos l 2" "last t \<noteq> l ! 0" "l \<noteq> []"
  shows "\<not> raw_full_lit (t @ u) pos l" "\<not> raw_partial_lit_min (t @ u) pos l 2"
proof -
  have "\<exists>i. i < length l \<and> pos + i < length t \<and> t ! (pos + i) \<noteq> l ! i"
  proof (rule ccontr)
    assume n: "\<not> ?thesis"
    then have all: "t ! (pos + i) = l ! i" if "i < length l" "pos + i < length t" for i using that by blast
    show False
    proof (cases "length l \<le> length t - pos")
      case True
      then have "raw_full_lit t pos l" unfolding full_lit_nth using assms(1) by (auto intro!: all)
      then show False using assms(2) by blast
    next
      case False
      then have "\<not> 2 \<le> length t - pos" using assms(1,3) all unfolding partial_lit_nth by auto
      then have "pos = length t - 1" using assms(1) by linarith
      then have "last t = l ! 0" using all [of 0] assms(1,5) by (metis add_0_right last_conv_nth length_greater_0_conv list.size(3) not_less0)
      then show False using assms(4) by blast
    qed
  qed
  then obtain i where i: "i < length l" "pos + i < length t" "t ! (pos + i) \<noteq> l ! i" by blast
  then have g: "(t @ u) ! (pos + i) \<noteq> l ! i" by (simp add: nth_append)
  then show "\<not> raw_full_lit (t @ u) pos l" using i(1) by (auto simp: full_lit_nth)
  show "\<not> raw_partial_lit_min (t @ u) pos l 2" using g i(2) unfolding partial_lit_nth by (metis length_append less_diff_conv trans_less_add1 add.commute)
qed

text \<open>The literals that open and close things exclude each other at a position.\<close>

definition clash :: "bytes \<Rightarrow> bytes \<Rightarrow> bool" where
  "clash a b \<longleftrightarrow> (\<exists>i. i < length a \<and> i < length b \<and> a ! i \<noteq> b ! i)"

lemma clash_full: "clash a b \<Longrightarrow> raw_full_lit t pos a \<Longrightarrow> \<not> raw_full_lit t pos b"
  by (force simp: clash_def full_lit_nth)

lemma clash_take: "take n a \<noteq> take n b \<Longrightarrow> n \<le> length a \<Longrightarrow> n \<le> length b \<Longrightarrow> clash a b"
  using take_eq_iff [of n a b] unfolding clash_def by (meson order.strict_trans2)

lemma syn_clash:
  "clash (invoke_end s) (tool_calls_end s)" "clash (invoke_start s) (tool_calls_end s)" "clash (invoke_start s) (invoke_end s)"
  "clash (param_start s) (tool_calls_end s)" "clash (param_start s) (invoke_end s)" "clash (param_start s) (invoke_start s)"
  by (rule clash_take [where n = "length (syn_name s) + 3"]; cases s; simp add: syn_lits)+

lemma syn_first: "raw_full_lit t pos l \<Longrightarrow> l \<in> {tool_calls_end s, invoke_end s, invoke_start s, param_start s} \<Longrightarrow> pos < length t \<and> t ! pos = 60"
  by (auto simp: full_lit_nth syn_lits)

lemma tag_close_grows: "tag_close t pos = Some e \<Longrightarrow> tag_close (t @ u) pos = Some e"
proof -
  assume a: "tag_close t pos = Some e"
  then have l: "pos + length (takeWhile (\<lambda>c. c \<noteq> 62) (drop pos t)) < length t" "e = pos + length (takeWhile (\<lambda>c. c \<noteq> 62) (drop pos t))"
    by (auto simp: tag_close_def Let_def split: if_splits)
  then have "length (takeWhile (\<lambda>c. c \<noteq> 62) (drop pos t)) < length (drop pos t)" by simp
  then have "\<exists>x \<in> set (drop pos t). \<not> (x \<noteq> 62)" by (metis (mono_tags, lifting) nat_neq_iff takeWhile_eq_all_conv)
  then obtain x where "x \<in> set (drop pos t)" "\<not> x \<noteq> 62" by blast
  then have "takeWhile (\<lambda>c. c \<noteq> 62) (drop pos (t @ u)) = takeWhile (\<lambda>c. c \<noteq> 62) (drop pos t)"
    using l(1) by (simp add: takeWhile_append1)
  then show ?thesis using l by (simp add: tag_close_def Let_def)
qed

lemma attr_grows: "tag_end \<le> length t \<Longrightarrow> dsml_attr_is_string_true (t @ u) p tag_end = dsml_attr_is_string_true t p tag_end"
  by (simp add: dsml_attr_is_string_true_def bslice_def)

subsection \<open>Searching for the start\<close>

lemma start_len: "length (tool_calls_start s) \<le> dsml_max_tool_start_len" "tool_calls_start s \<noteq> []"
  by (cases s; simp add: dsml_max_tool_start_len_def dsml_syntaxes_def syn_lits)+

lemma strstr_from:
  assumes "l \<noteq> []" "p \<le> q" "\<forall>k. p \<le> k \<and> k < q \<longrightarrow> \<not> occurs_at t l k"
  shows "stop_pos t p l = stop_pos t q l"
proof -
  have sh: "occurs_at (drop n t) l k \<longleftrightarrow> occurs_at t l (n + k)" if "n \<le> length t" for n k
    using that by (auto simp: occurs_at_def add.commute)
  show ?thesis
  proof (cases "q \<le> length t")
    case True
    note P = strstr_spec [OF assms(1), of "drop p t"] and Q = strstr_spec [OF assms(1), of "drop q t"]
    show ?thesis
    proof (cases "strstr (drop q t) l")
      case None
      then have "\<not> occurs_at t l k" if "p \<le> k" for k
        using that Q assms(2,3) sh [OF True, of "k - q"] by (cases "k < q") auto
      then have "strstr (drop p t) l = None" using P sh [of p] True assms(2) by (auto split: option.splits)
      then show ?thesis using None by (simp add: stop_pos_def)
    next
      case (Some j)
      then have j: "occurs_at t l (q + j)" "\<And>i. i < j \<Longrightarrow> \<not> occurs_at t l (q + i)" using Q sh [OF True] by auto
      have pl: "p \<le> length t" using True assms(2) by simp
      have "strstr (drop p t) l \<noteq> None" using P sh [OF pl, of "q + j - p"] j(1) assms(2) by (auto split: option.splits)
      then obtain i where i: "strstr (drop p t) l = Some i" by blast
      then have oi: "occurs_at t l (p + i)" "\<And>h. h < i \<Longrightarrow> \<not> occurs_at t l (p + h)" using P sh [OF pl] by auto
      have "q \<le> p + i" using oi(1) assms(3) by (metis le_add1 not_le)
      then have "\<not> p + i < q + j" using j(2) [of "p + i - q"] oi(1)
        by (metis le_add_diff_inverse less_diff_conv2 add.commute)
      moreover have "\<not> q + j < p + i" using oi(2) [of "q + j - p"] j(1) assms(2)
        by (metis le_add_diff_inverse le_add1 less_diff_conv2 add.commute order_trans)
      ultimately show ?thesis using i Some by (simp add: stop_pos_def)
    qed
  next
    case False
    have "\<not> occurs_at t l k" if "p \<le> k" for k
      using that assms(3) False by (cases "k < q") (auto simp: occurs_at_def)
    then have "strstr (drop p t) l = None"
      using strstr_spec [OF assms(1), of "drop p t"] sh [of p] assms(1) by (cases "p \<le> length t") (auto split: option.splits)
    then show ?thesis using False assms(1) by (simp add: stop_pos_def)
  qed
qed

text \<open>The search from a position, in terms of absolute positions.\<close>

definition start_best :: "(dsml_syntax \<Rightarrow> nat option) \<Rightarrow> (nat \<times> dsml_syntax) option" where
  "start_best P = foldl (\<lambda>best s. case P s of
      None \<Rightarrow> best
    | Some p \<Rightarrow> if (case best of None \<Rightarrow> True | Some (b, _) \<Rightarrow> p < b) then Some (p, s) else best) None dsml_syntaxes"

lemma start_best_shift: "start_best (\<lambda>s. map_option ((+) n) (P s)) = map_option (\<lambda>(p, s). (n + p, s)) (start_best P)"
  by (auto simp: start_best_def dsml_syntaxes_def split: option.splits)

lemma find_from_stop_pos:
  "p \<le> length t \<Longrightarrow> dsml_find_tool_start_from t p =
     map_option (\<lambda>(k, s). (k + length (tool_calls_start s), s)) (start_best (\<lambda>s. stop_pos t p (tool_calls_start s)))"
  unfolding dsml_find_tool_start_from_def dsml_find_tool_start_def stop_pos_def start_best_shift
  unfolding start_best_def [symmetric] by (simp add: option.map_comp comp_def case_prod_unfold add.assoc)

lemma start_best_none: "start_best P = None \<longleftrightarrow> (\<forall>s. P s = None)"
proof -
  have "start_best P = None \<longleftrightarrow> P SYN_DSML = None \<and> P SYN_DSML_SHORT = None \<and> P SYN_PLAIN = None"
    by (auto simp: start_best_def dsml_syntaxes_def split: option.splits)
  then show ?thesis by (metis dsml_syntax.exhaust)
qed

lemma stop_pos_none:
  assumes "l \<noteq> []" "p \<le> length t" "stop_pos t p l = None" "p \<le> k"
  shows "\<not> occurs_at t l k"
proof -
  have "\<not> occurs_at (drop p t) l (k - p)" using strstr_spec [OF assms(1), of "drop p t"] assms(3) by (simp add: stop_pos_def split: option.splits)
  then show ?thesis using assms(2,4) by (auto simp: occurs_at_def)
qed

text \<open>What has been searched in vain need not be searched again, but for the length of a start.\<close>

lemma search_resumes:
  assumes none: "dsml_find_tool_start_from t p = None" and p: "p \<le> length t - dsml_max_tool_start_len"
  shows "dsml_find_tool_start_from (t @ u) p = dsml_find_tool_start_from (t @ u) (length t - dsml_max_tool_start_len)"
proof -
  let ?q = "length t - dsml_max_tool_start_len"
  have no: "\<not> occurs_at (t @ u) (tool_calls_start s) k" if "p \<le> k" "k < ?q" for s k
  proof
    assume o: "occurs_at (t @ u) (tool_calls_start s) k"
    have e: "k + length (tool_calls_start s) \<le> length t" using that(2) start_len(1) [of s] by linarith
    then have "occurs_at t (tool_calls_start s) k" using o by (simp add: occurs_at_def)
    moreover have "stop_pos t p (tool_calls_start s) = None"
      using none p by (simp add: find_from_stop_pos start_best_none)
    ultimately show False using stop_pos_none [OF start_len(2), of p t s k] that(1) p by auto
  qed
  have "stop_pos (t @ u) p (tool_calls_start s) = stop_pos (t @ u) ?q (tool_calls_start s)" for s
    using no by (intro strstr_from start_len p) auto
  then show ?thesis using p by (simp add: find_from_stop_pos)
qed

lemma start_best_iff:
  "start_best P = Some (k, s) \<Longrightarrow> P s = Some k \<and> (\<forall>s' k'. P s' = Some k' \<longrightarrow> k \<le> k')"
proof -
  assume a: "start_best P = Some (k, s)"
  have "P s = Some k \<and> (\<forall>k'. P SYN_DSML = Some k' \<longrightarrow> k \<le> k') \<and> (\<forall>k'. P SYN_DSML_SHORT = Some k' \<longrightarrow> k \<le> k') \<and>
      (\<forall>k'. P SYN_PLAIN = Some k' \<longrightarrow> k \<le> k')"
    using a by (cases "P SYN_DSML"; cases "P SYN_DSML_SHORT"; cases "P SYN_PLAIN")
      (auto simp: start_best_def dsml_syntaxes_def split: if_splits)
  then show ?thesis by (metis dsml_syntax.exhaust)
qed

lemma start_best_unique:
  assumes "P s = Some k" "\<And>s' k'. s' \<noteq> s \<Longrightarrow> P s' = Some k' \<Longrightarrow> k < k'"
  shows "start_best P = Some (k, s)"
proof (cases "start_best P")
  case None
  then show ?thesis using assms(1) by (simp add: start_best_none)
next
  case (Some b)
  obtain k' s' where b: "b = (k', s')" by (cases b)
  note B = start_best_iff [OF Some [unfolded b]]
  have "k' \<le> k" using B assms(1) by blast
  then have "s' = s" using assms(2) [of s' k'] B by fastforce
  then show ?thesis using Some b B assms(1) by simp
qed

text \<open>A start holds its first byte nowhere else, so no two starts overlap.\<close>

lemma start_first: "0 < i \<Longrightarrow> i < length (tool_calls_start s) \<Longrightarrow> tool_calls_start s ! i \<noteq> 60" "tool_calls_start s ! 0 = 60"
proof -
  have "60 \<notin> set (tl (tool_calls_start s))" by (cases s) (simp_all add: syn_lits)
  then show "tool_calls_start s ! i \<noteq> 60" if "0 < i" "i < length (tool_calls_start s)"
    using that by (cases "tool_calls_start s"; cases i) (auto dest: nth_mem)
  show "tool_calls_start s ! 0 = 60" by (simp add: syn_lits)
qed

lemma start_clash: "s \<noteq> s' \<Longrightarrow> clash (tool_calls_start s) (tool_calls_start s')"
  by (rule clash_take [where n = 2]; cases s; cases s'; simp add: syn_lits)

lemma occurs_full: "occurs_at t l k \<longleftrightarrow> raw_full_lit t k l"
  unfolding occurs_at_def raw_full_lit_def using le_diff_conv2 by fastforce

lemma starts_apart:
  assumes "occurs_at t (tool_calls_start s) k" "occurs_at t (tool_calls_start s') k'" "k' < k + length (tool_calls_start s)"
  shows "k' \<le> k" "k' = k \<Longrightarrow> s' = s"
proof -
  have A: "\<forall>i < length (tool_calls_start s). t ! (k + i) = tool_calls_start s ! i"
    and B: "t ! k' = 60" using assms(1,2) start_len(2) [of s'] start_first(2) [of s'] by (auto simp: occurs_full full_lit_nth)
  show "k' \<le> k"
  proof (rule ccontr)
    assume "\<not> k' \<le> k"
    then show False using A B start_first(1) [of "k' - k" s] assms(3) by (metis add_diff_inverse_nat less_diff_conv2 nat_le_linear not_le zero_less_diff add.commute)
  qed
  show "s' = s" if "k' = k"
    using clash_full [OF start_clash, of s s' t k] assms(1,2) that by (auto simp: occurs_full)
qed

lemma stop_pos_Some:
  assumes "l \<noteq> []" "p \<le> length t" "stop_pos t p l = Some k"
  shows "occurs_at t l k" "p \<le> k" "\<And>j. p \<le> j \<Longrightarrow> j < k \<Longrightarrow> \<not> occurs_at t l j"
proof -
  obtain i where i: "strstr (drop p t) l = Some i" "k = p + i" using assms(3) by (auto simp: stop_pos_def)
  have sh: "occurs_at (drop p t) l j \<longleftrightarrow> occurs_at t l (p + j)" for j using assms(2) by (auto simp: occurs_at_def add.commute)
  note P = strstr_spec [OF assms(1), of "drop p t", unfolded i(1) option.case sh]
  show "occurs_at t l k" "p \<le> k" using P i by simp_all
  show "\<not> occurs_at t l j" if "p \<le> j" "j < k" for j using P that i(2) by (metis le_add_diff_inverse nat_add_left_cancel_less)
qed

lemma search_found_grows:
  assumes "dsml_find_tool_start_from t p = Some (e, s)"
  shows "dsml_find_tool_start_from (t @ u) p = Some (e, s)"
proof -
  have p: "p \<le> length t" using assms by (auto simp: dsml_find_tool_start_from_def split: if_splits)
  obtain k where k: "start_best (\<lambda>s. stop_pos t p (tool_calls_start s)) = Some (k, s)" "e = k + length (tool_calls_start s)"
    using assms by (auto simp: find_from_stop_pos [OF p])
  note B = start_best_iff [OF k(1)]
  note S = stop_pos_Some [OF start_len(2) p conjunct1 [OF B]]
  have g: "occurs_at (t @ u) l j" if "occurs_at t l j" for l j using that by (auto simp: occurs_at_def)
  have inner: "occurs_at t l j" if "occurs_at (t @ u) l j" "j + length l \<le> length t" for l j using that by (simp add: occurs_at_def)
  have pu: "p \<le> length (t @ u)" using p by simp
  have same: "stop_pos (t @ u) p (tool_calls_start s) = Some k"
  proof (cases "stop_pos (t @ u) p (tool_calls_start s)")
    case None
    then show ?thesis using stop_pos_none [OF start_len(2) pu None S(2)] g S(1) by blast
  next
    case (Some j)
    note J = stop_pos_Some [OF start_len(2) pu Some]
    have "\<not> k < j" using J(3) [OF S(2)] g S(1) by blast
    moreover have "\<not> j < k" using S(3) [OF J(2)] inner [OF J(1)] S(1) by (auto simp: occurs_at_def)
    ultimately show ?thesis using Some by simp
  qed
  have "k < k'" if "s' \<noteq> s" "stop_pos (t @ u) p (tool_calls_start s') = Some k'" for s' k'
  proof (rule ccontr)
    assume n: "\<not> k < k'"
    note J = stop_pos_Some [OF start_len(2) pu that(2)]
    have "k' \<noteq> k" using starts_apart(2) [OF g [OF S(1)] J(1)] that(1) start_len(2) [of s] by auto
    then have lt: "k' < k" using n by simp
    show False
    proof (cases "k' + length (tool_calls_start s') \<le> length t")
      case True
      then have o: "occurs_at t (tool_calls_start s') k'" using inner J(1) by blast
      then show False using B lt stop_pos_none [OF start_len(2) p _ J(2)] stop_pos_Some(3) [OF start_len(2) p _ J(2)]
        by (metis le_less_trans not_le option.exhaust)
    next
      case False
      then have "k < k' + length (tool_calls_start s')" using S(1) by (auto simp: occurs_at_def)
      then show False using starts_apart(1) [OF J(1) g [OF S(1)]] lt by simp
    qed
  qed
  then show ?thesis using start_best_unique [of "\<lambda>s. stop_pos (t @ u) p (tool_calls_start s)"] same k(2)
    by (simp add: find_from_stop_pos [OF pu])
qed

subsection \<open>Feeding in pieces\<close>

text \<open>The state of the decoder is set by every return, so a turn does not depend on it.\<close>

lemma turn_decode:
  "\<exists>y. track_turn (dt\<lparr>dt_decode := x\<rparr>) raw = map_sum id (\<lambda>d. d\<lparr>dt_decode := y\<rparr>) (track_turn dt raw)"
proof (cases "track_turn dt raw")
  case (Inl r)
  then have "track_turn (dt\<lparr>dt_decode := x\<rparr>) raw = Inl r"
    by (cases "dt_mode dt") (auto simp: track_turn_def search_turn_def string_turn_def json_turn_def structural_turn_def Let_def
        split: option.splits if_splits)
  then show ?thesis using Inl by simp
next
  case (Inr d)
  then have "\<exists>y. track_turn (dt\<lparr>dt_decode := x\<rparr>) raw = Inr (d\<lparr>dt_decode := y\<rparr>)"
    by (cases dt; cases "dt_mode dt") (auto simp: track_turn_def search_turn_def string_turn_def json_turn_def structural_turn_def
        json_char_def Let_def split: option.splits if_splits)
  then show ?thesis using Inr by auto
qed

lemma update_decode: "dsml_decode_tracker_update (dt\<lparr>dt_decode := x\<rparr>) raw = dsml_decode_tracker_update dt raw"
proof (induction dt raw arbitrary: x rule: dsml_decode_tracker_update.induct)
  case (1 dt raw)
  obtain y where y: "track_turn (dt\<lparr>dt_decode := x\<rparr>) raw = map_sum id (\<lambda>d. d\<lparr>dt_decode := y\<rparr>) (track_turn dt raw)"
    using turn_decode by blast
  show ?case
  proof (cases "track_turn dt raw")
    case (Inl r)
    then show ?thesis using y by (subst (1 2) dsml_decode_tracker_update.simps) simp
  next
    case (Inr d)
    then show ?thesis using y "1.IH" [OF Inr, of y] by (subst (1 2) dsml_decode_tracker_update.simps) simp
  qed
qed

lemma param_end_first: "param_end s ! 0 = 60" "param_end s \<noteq> []"
  by (simp_all add: syn_lits)

text \<open>A turn that goes on does the same on a longer text.\<close>

lemma structural_grows:
  assumes "structural_turn dt t = Inr d"
  shows "structural_turn dt (t @ u) = Inr d"
proof -
  let ?p = "dt_pos dt" and ?s = "dt_syn dt"
  have lt: "?p < length t" using assms by (auto simp: structural_turn_def Let_def split: if_splits)
  then have nth: "(t @ u) ! ?p = t ! ?p" by (simp add: nth_append)
  have sp: "\<not> c_isspace 60" by (simp add: c_isspace_def)
  have ex: "raw_full_lit t ?p l \<Longrightarrow> clash l l' \<Longrightarrow> \<not> raw_full_lit (t @ u) ?p l'" for l l'
    using clash_full full_lit_grows by blast
  consider "c_isspace (t ! ?p)" | "raw_full_lit t ?p (invoke_end ?s)" "\<not> c_isspace (t ! ?p)"
    | "raw_full_lit t ?p (invoke_start ?s)" "\<not> c_isspace (t ! ?p)" | "raw_full_lit t ?p (param_start ?s)" "\<not> c_isspace (t ! ?p)"
    using assms by (auto simp: structural_turn_def Let_def split: if_splits)
  then show ?thesis
  proof cases
    case 1
    then show ?thesis using assms lt by (simp add: structural_turn_def Let_def nth)
  next
    case 2
    note n = ex [OF 2(1) syn_clash(1)] ex [OF 2(1)]
    show ?thesis using assms lt 2 n(1) full_lit_grows [OF 2(1), of u] by (simp add: structural_turn_def Let_def nth split: if_splits)
  next
    case 3
    note n = ex [OF 3(1) syn_clash(2)] ex [OF 3(1) syn_clash(3)]
    show ?thesis using assms lt 3 n full_lit_grows [OF 3(1), of u] clash_full [OF syn_clash(2) 3(1)] clash_full [OF syn_clash(3) 3(1)]
      by (auto simp: structural_turn_def Let_def nth tag_close_grows split: if_splits option.splits)
  next
    case 4
    note n = ex [OF 4(1) syn_clash(4)] ex [OF 4(1) syn_clash(5)] ex [OF 4(1) syn_clash(6)]
    show ?thesis using assms lt 4 n full_lit_grows [OF 4(1), of u] clash_full [OF syn_clash(4) 4(1)] clash_full [OF syn_clash(5) 4(1)]
        clash_full [OF syn_clash(6) 4(1)]
      by (auto simp: structural_turn_def Let_def nth tag_close_grows attr_grows Suc_leI dest!: tag_close_at split: if_splits option.splits)
  qed
qed

lemma turn_grows:
  assumes turn: "track_turn dt t = Inr d" and cut: "t = [] \<or> last t \<noteq> 60"
  shows "track_turn dt (t @ u) = Inr d"
proof (cases "dt_mode dt")
  case DSML_TRACK_SEARCH
  then show ?thesis using turn by (auto simp: track_turn_def search_turn_def search_found_grows split: option.splits prod.splits)
next
  case DSML_TRACK_STRUCTURAL
  then show ?thesis using turn by (simp add: track_turn_def structural_grows)
next
  case DSML_TRACK_STRING_BODY
  then have lt: "dt_pos dt < length t" using turn by (auto simp: track_turn_def string_turn_def split: if_splits)
  show ?thesis
    using turn DSML_TRACK_STRING_BODY lt passed_stays [OF lt, of "param_end (dt_syn dt)" u] cut param_end_first
    by (auto simp: track_turn_def string_turn_def full_lit_grows split: if_splits)
next
  case DSML_TRACK_JSON_PARAM
  then have lt: "dt_pos dt < length t" using turn by (auto simp: track_turn_def json_turn_def split: if_splits)
  show ?thesis
    using turn DSML_TRACK_JSON_PARAM lt passed_stays [OF lt, of "param_end (dt_syn dt)" u] cut param_end_first
    by (auto simp: track_turn_def json_turn_def full_lit_grows nth_append split: if_splits)
qed (use turn in \<open>simp add: track_turn_def\<close>)

text \<open>While it searches, the tracker stays the length of a start behind the end.\<close>

definition behind_ok :: "dsml_decode_tracker \<Rightarrow> bytes \<Rightarrow> bool" where
  "behind_ok dt t \<longleftrightarrow> (dt_mode dt = DSML_TRACK_SEARCH \<longrightarrow> dt_pos dt \<le> length t - dsml_max_tool_start_len)"

lemma turn_leaves_search: "track_turn dt t = Inr d \<Longrightarrow> dt_mode d \<noteq> DSML_TRACK_SEARCH"
  by (cases "dt_mode dt") (auto simp: track_turn_def search_turn_def string_turn_def json_turn_def structural_turn_def Let_def
      split: option.splits if_splits)

lemma update_behind: "behind_ok (dsml_decode_tracker_update dt t) t"
proof (induction dt t rule: dsml_decode_tracker_update.induct)
  case (1 dt t)
  show ?case
  proof (cases "track_turn dt t")
    case (Inl r)
    then have "behind_ok r t"
      by (cases "dt_mode dt") (auto simp: behind_ok_def track_turn_def search_turn_def string_turn_def json_turn_def structural_turn_def Let_def
          split: option.splits if_splits)
    then show ?thesis using Inl by (subst dsml_decode_tracker_update.simps) simp
  next
    case (Inr d)
    then show ?thesis using "1.IH" by (subst dsml_decode_tracker_update.simps) simp
  qed
qed

lemma behind_grows: "behind_ok dt t \<Longrightarrow> behind_ok dt (t @ u)"
  by (auto simp: behind_ok_def)

lemma update_turn_eq: "track_turn dt t = track_turn d t \<Longrightarrow> dsml_decode_tracker_update dt t = dsml_decode_tracker_update d t"
  by (subst (1 2) dsml_decode_tracker_update.simps) simp

lemma return_resumes:
  assumes turn: "track_turn dt t = Inl r" and ok: "behind_ok dt t"
  shows "dsml_decode_tracker_update r (t @ u) = dsml_decode_tracker_update dt (t @ u)"
proof (cases "\<exists>x. r = dt\<lparr>dt_decode := x\<rparr>")
  case True
  then show ?thesis using update_decode by auto
next
  case False
  then consider (search) "dt_mode dt = DSML_TRACK_SEARCH" | (ended) "dt_mode dt = DSML_TRACK_STRUCTURAL"
    using turn by (cases "dt_mode dt") (auto simp: track_turn_def string_turn_def json_turn_def split: if_splits)
  then show ?thesis
  proof cases
    case search
    let ?q = "length t - dsml_max_tool_start_len"
    have none: "dsml_find_tool_start_from t (dt_pos dt) = None" and r: "r = dt\<lparr>dt_pos := ?q, dt_decode := DSML_DECODE_OUTSIDE\<rparr>"
      using turn search by (auto simp: track_turn_def search_turn_def split: option.splits)
    have "dsml_find_tool_start_from (t @ u) (dt_pos dt) = dsml_find_tool_start_from (t @ u) ?q"
      using search_resumes [OF none] ok search by (simp add: behind_ok_def)
    then have "track_turn (dt\<lparr>dt_pos := ?q\<rparr>) (t @ u) = track_turn dt (t @ u)"
      using search by (simp add: track_turn_def search_turn_def split: option.split)
    then show ?thesis unfolding r update_decode by (rule update_turn_eq)
  next
    case ended
    have e: "raw_full_lit t (dt_pos dt) (tool_calls_end (dt_syn dt))" "\<not> c_isspace (t ! dt_pos dt)"
      and r: "r = dt\<lparr>dt_mode := DSML_TRACK_DONE, dt_pos := dt_pos dt + length (tool_calls_end (dt_syn dt)), dt_decode := DSML_DECODE_OUTSIDE\<rparr>"
      using turn ended False by (auto simp: track_turn_def structural_turn_def Let_def split: if_splits option.splits)
    have lt: "dt_pos dt < length t" using syn_first [OF e(1), of "dt_syn dt"] by simp
    have "track_turn dt (t @ u) = Inl r"
      using ended e lt full_lit_grows [OF e(1), of u] by (simp add: track_turn_def structural_turn_def Let_def r nth_append)
    moreover have "track_turn r (t @ u) = Inl r" by (simp add: r track_turn_def)
    ultimately show ?thesis by (subst (1 2) dsml_decode_tracker_update.simps) simp
  qed
qed

lemma update_resumes:
  assumes "t = [] \<or> last t \<noteq> 60" "behind_ok dt t"
  shows "dsml_decode_tracker_update (dsml_decode_tracker_update dt t) (t @ u) = dsml_decode_tracker_update dt (t @ u)"
  using assms
proof (induction dt t rule: dsml_decode_tracker_update.induct)
  case (1 dt t)
  show ?case
  proof (cases "track_turn dt t")
    case (Inl r)
    then show ?thesis using return_resumes [OF Inl "1.prems"(2)] by (subst dsml_decode_tracker_update.simps [of dt t]) simp
  next
    case (Inr d)
    have "behind_ok d t" using turn_leaves_search [OF Inr] by (simp add: behind_ok_def)
    then have "dsml_decode_tracker_update (dsml_decode_tracker_update d t) (t @ u) = dsml_decode_tracker_update d (t @ u)"
      using "1.IH" [OF Inr "1.prems"(1)] by blast
    moreover have "dsml_decode_tracker_update dt t = dsml_decode_tracker_update d t" using Inr by (subst dsml_decode_tracker_update.simps) simp
    moreover have "dsml_decode_tracker_update dt (t @ u) = dsml_decode_tracker_update d (t @ u)"
      using turn_grows [OF Inr "1.prems"(1), of u] by (subst dsml_decode_tracker_update.simps) simp
    ultimately show ?thesis by simp
  qed
qed

text \<open>The tracker after every piece of a generation.\<close>

fun tracker_feeds :: "dsml_decode_tracker \<Rightarrow> bytes \<Rightarrow> bytes list \<Rightarrow> dsml_decode_tracker" where
  "tracker_feeds dt t [] = dt"
| "tracker_feeds dt t (p # ps) = tracker_feeds (dsml_decode_tracker_update dt (t @ p)) (t @ p) ps"

lemma feeds_resume:
  assumes "ps \<noteq> []" "behind_ok dt t" "\<forall>k < length ps. 0 < k \<longrightarrow> t @ concat (take k ps) = [] \<or> last (t @ concat (take k ps)) \<noteq> 60"
  shows "tracker_feeds dt t ps = dsml_decode_tracker_update dt (t @ concat ps)"
  using assms
proof (induction ps arbitrary: dt t)
  case (Cons p ps)
  show ?case
  proof (cases "ps = []")
    case True
    then show ?thesis by simp
  next
    case False
    let ?d = "dsml_decode_tracker_update dt (t @ p)"
    have cut: "t @ p = [] \<or> last (t @ p) \<noteq> 60" using Cons.prems(3) [rule_format, of 1] False by simp
    have "\<forall>k < length ps. 0 < k \<longrightarrow> (t @ p) @ concat (take k ps) = [] \<or> last ((t @ p) @ concat (take k ps)) \<noteq> 60"
    proof (intro allI impI)
      fix k assume "k < length ps" "0 < k"
      then show "(t @ p) @ concat (take k ps) = [] \<or> last ((t @ p) @ concat (take k ps)) \<noteq> 60"
        using Cons.prems(3) [rule_format, of "Suc k"] by simp
    qed
    then have "tracker_feeds ?d (t @ p) ps = dsml_decode_tracker_update ?d ((t @ p) @ concat ps)"
      by (rule Cons.IH [OF False update_behind])
    also have "\<dots> = dsml_decode_tracker_update dt ((t @ p) @ concat ps)"
      by (rule update_resumes [OF cut behind_grows [OF Cons.prems(2)]])
    finally show ?thesis by simp
  qed
qed simp

text \<open>
  C36. The tracker does not depend on how the text is cut into tokens. Fed after every piece, it ends in the same state as when
  it is fed the whole text at once, provided that no text before the last piece ends in the byte that opens a tag.
\<close>

theorem tracker_any_pieces:
  assumes "ps \<noteq> []" "\<forall>k < length ps. 0 < k \<longrightarrow> concat (take k ps) = [] \<or> last (concat (take k ps)) \<noteq> 60"
  shows "tracker_feeds dsml_decode_tracker_init [] ps = dsml_decode_tracker_update dsml_decode_tracker_init (concat ps)"
  using feeds_resume [of ps dsml_decode_tracker_init "[]"] assms by (simp add: behind_ok_def dsml_decode_tracker_init_def)

text \<open>
  The proviso is needed. In a body the first byte of the closing tag alone is passed as payload, so when a token ends there
  the closing tag is never seen: the decoder keeps sampling payload where, fed at once, it is back in the syntax.
\<close>

definition cut_text :: bytes where
  "cut_text = lit ''<tool_calls><parameter string='' @ [34] @ lit ''true'' @ [34] @ lit ''>x<''"

theorem tracker_loses_closing_tag:
  "dt_decode (tracker_feeds dsml_decode_tracker_init [] [cut_text, lit ''/parameter>'']) = DSML_DECODE_STRING_BODY \<and>
   dt_decode (dsml_decode_tracker_update dsml_decode_tracker_init (cut_text @ lit ''/parameter>'')) = DSML_DECODE_STRUCTURAL"
  by code_simp

theorem tracker_any_pieces_witness:
  "tracker_feeds dsml_decode_tracker_init [] [lit ''<tool_'', lit ''calls>''] =
     dsml_decode_tracker_update dsml_decode_tracker_init (lit ''<tool_calls>'')"
  using tracker_any_pieces [of "[lit ''<tool_'', lit ''calls>'']"] by (auto simp: less_Suc_eq lit_def)

end
