(* ===== verification/Sem_Accum.thy ===== *)
theory Sem_Accum
  imports Dsml_Track Route "HOL-Library.Sublist"
begin

section \<open>The meaning of generated text\<close>

text \<open>
  The accumulator of \<open>src/ds4_server.c\<close> that both generation loops feed with the text of every token (\<open>sem_accum_*\<close>,
  \<open>thinking_state_*\<close>, the marker scans): it says how much of the text may be sent, when the generation ends, and how
  the next token is sampled.

  The text is searched as a C string; the text of a token has no zero byte. A buffer that nothing was appended to is
  the empty text. Of a request there are the fields that the accumulator reads.
\<close>

datatype ds4_chat_format = DS4_CHAT_FORMAT_DSML | DS4_CHAT_FORMAT_SOLAR_OPEN2 | DS4_CHAT_FORMAT_EXAONE | DS4_CHAT_FORMAT_QWEN4EXP

datatype tool_choice_mode = TOOL_CHOICE_AUTO | TOOL_CHOICE_NONE | TOOL_CHOICE_REQUIRED

record gen_request =
  gr_is_chat :: bool
  gr_has_tools :: bool
  gr_has_tool_results :: bool
  gr_think_mode :: ds4_think_mode
  gr_chat_format :: ds4_chat_format
  gr_tool_choice :: tool_choice_mode
  gr_stops :: stop_list
  gr_prompt_text :: "bytes option"
  gr_max_tokens :: int
  gr_required_tool_prefix :: "int list"
  gr_required_think_end_prefix :: "int list"

definition DS4_SOLAR_THINK_START :: bytes where "DS4_SOLAR_THINK_START = lit ''<|think:start|>''"
definition DS4_SOLAR_THINK_END :: bytes where "DS4_SOLAR_THINK_END = lit ''<|think:end|>''"
definition DS4_SOLAR_TOOL_CALL_START :: bytes where "DS4_SOLAR_TOOL_CALL_START = lit ''<|tool_call:start|>''"
definition DS4_SOLAR_TOOL_CALL_END :: bytes where "DS4_SOLAR_TOOL_CALL_END = lit ''<|tool_call:end|>''"

definition chat_think_end :: "ds4_chat_format \<Rightarrow> bytes" where
  "chat_think_end fmt = (if fmt = DS4_CHAT_FORMAT_SOLAR_OPEN2 then DS4_SOLAR_THINK_END else lit ''</think>'')"

subsection \<open>Thinking\<close>

record thinking_state =
  ts_inside :: bool
  ts_tail :: bytes

definition thinking_tail_ends_with :: "thinking_state \<Rightarrow> bytes \<Rightarrow> bool" where
  "thinking_tail_ends_with st s \<longleftrightarrow> length (ts_tail st) \<ge> length s \<and> drop (length (ts_tail st) - length s) (ts_tail st) = s"

definition thinking_byte :: "thinking_state \<Rightarrow> u8 \<Rightarrow> thinking_state" where
  "thinking_byte st c =
     (let st1 = st\<lparr>ts_tail := (if length (ts_tail st) = 16 then drop 1 (ts_tail st) else ts_tail st) @ [c]\<rparr>
      in if thinking_tail_ends_with st1 (lit ''<think>'') \<or> thinking_tail_ends_with st1 DS4_SOLAR_THINK_START
         then st1\<lparr>ts_inside := True\<rparr>
         else if thinking_tail_ends_with st1 (lit ''</think>'') \<or> thinking_tail_ends_with st1 DS4_SOLAR_THINK_END
         then st1\<lparr>ts_inside := False\<rparr> else st1)"

definition thinking_state_feed :: "thinking_state \<Rightarrow> bytes \<Rightarrow> thinking_state" where
  "thinking_state_feed st p = foldl thinking_byte st p"

definition thinking_state_from_prompt :: "gen_request \<Rightarrow> thinking_state" where
  "thinking_state_from_prompt r =
     (let st = \<lparr>ts_inside = False, ts_tail = []\<rparr>
      in case gr_prompt_text r of
           Some t \<Rightarrow> thinking_state_feed st t
         | None \<Rightarrow> if ds4_think_mode_enabled (gr_think_mode r) then st\<lparr>ts_inside := True\<rparr> else st)"

subsection \<open>Markers\<close>

text \<open>The earliest of several strings: the candidates in their order, an earlier one replacing the best.\<close>

definition first_of :: "bytes list \<Rightarrow> bytes \<Rightarrow> nat option" where
  "first_of marks s = foldl (\<lambda>best m. case strstr s m of
      None \<Rightarrow> best
    | Some p \<Rightarrow> (case best of None \<Rightarrow> Some p | Some b \<Rightarrow> if p < b then Some p else best)) None marks"

definition find_any_tool_start :: "bytes \<Rightarrow> nat option" where
  "find_any_tool_start s = first_of [tool_calls_start SYN_DSML, tool_calls_start SYN_DSML_SHORT, lit ''<tool_calls>'', lit ''<tool_call>'',
     lit ''<dots_function_call>''] s"

definition find_tool_start_format :: "bytes \<Rightarrow> ds4_chat_format \<Rightarrow> nat option" where
  "find_tool_start_format s fmt =
     (if fmt = DS4_CHAT_FORMAT_SOLAR_OPEN2 then strstr s DS4_SOLAR_TOOL_CALL_START
      else if fmt = DS4_CHAT_FORMAT_EXAONE \<or> fmt = DS4_CHAT_FORMAT_QWEN4EXP then strstr s (lit ''<tool_call>'')
      else find_any_tool_start s)"

definition find_any_tool_end :: "bytes \<Rightarrow> nat option" where
  "find_any_tool_end s = first_of [tool_calls_end SYN_DSML, tool_calls_end SYN_DSML_SHORT, lit ''</tool_calls>'', lit ''</tool_call>'',
     lit ''</dots_function_call>''] s"

definition find_tool_end_format :: "bytes \<Rightarrow> ds4_chat_format \<Rightarrow> nat option" where
  "find_tool_end_format s fmt =
     (if fmt = DS4_CHAT_FORMAT_SOLAR_OPEN2 then strstr s DS4_SOLAR_TOOL_CALL_END
      else if fmt = DS4_CHAT_FORMAT_EXAONE \<or> fmt = DS4_CHAT_FORMAT_QWEN4EXP then strstr s (lit ''</tool_call>'')
      else find_any_tool_end s)"

text \<open>The flags of a start and of an end that were seen, and whether an end came without a start.\<close>

definition observe_tool_markers_format :: "bytes \<Rightarrow> bool \<Rightarrow> bool \<Rightarrow> ds4_chat_format \<Rightarrow> bool \<times> bool \<times> bool" where
  "observe_tool_markers_format scan saw_start saw_end fmt =
     (let start = find_tool_start_format scan fmt;
          end_scan = (if saw_start then Some scan else map_option (\<lambda>i. drop i scan) start);
          e = (case end_scan of None \<Rightarrow> None | Some es \<Rightarrow> find_tool_end_format es fmt)
      in (saw_start \<or> start \<noteq> None, saw_end \<or> e \<noteq> None,
          e = None \<and> \<not> saw_start \<and> start = None \<and> find_tool_end_format scan fmt \<noteq> None))"

definition find_last_substr :: "bytes \<Rightarrow> bytes \<Rightarrow> nat option" where
  "find_last_substr s needle =
     (if needle = [] then None
      else case filter (\<lambda>i. take (length needle) (drop i s) = needle) [0..<length s] of [] \<Rightarrow> None | is \<Rightarrow> Some (last is))"

definition hold_marks :: "ds4_chat_format \<Rightarrow> bytes list" where
  "hold_marks fmt =
     (if fmt = DS4_CHAT_FORMAT_SOLAR_OPEN2 then [DS4_SOLAR_TOOL_CALL_START]
      else if fmt = DS4_CHAT_FORMAT_EXAONE \<or> fmt = DS4_CHAT_FORMAT_QWEN4EXP then [lit ''<tool_call>'']
      else [tool_calls_start SYN_DSML, tool_calls_start SYN_DSML_SHORT, lit ''<tool_call>'', lit ''<dots_function_call>''])"

text \<open>The longest proper start of a marker that the text ends in.\<close>

definition hold_len :: "bytes \<Rightarrow> bytes \<Rightarrow> nat option" where
  "hold_len t m = List.find (\<lambda>k. drop (length t - k) t = take k m) (rev [1..<Suc (if length m - 1 < length t then length m - 1 else length t)])"

definition tool_marker_stream_safe_len :: "bytes \<Rightarrow> ds4_chat_format \<Rightarrow> nat" where
  "tool_marker_stream_safe_len t fmt =
     (if t = [] then length t
      else foldl (\<lambda>safe m. case hold_len t m of None \<Rightarrow> safe | Some k \<Rightarrow> if length t - k < safe then length t - k else safe)
             (length t) (hold_marks fmt))"

subsection \<open>The accumulator\<close>

record sem_accum =
  sa_text :: bytes
  sa_thinking :: thinking_state
  sa_dsml :: dsml_decode_tracker
  sa_track_tools :: bool
  sa_cut_tool_syntax :: bool
  sa_think_gates_markers :: bool
  sa_count_reasoning :: bool
  sa_chat_format :: ds4_chat_format
  sa_waiting_for_think_close :: bool
  sa_stop_scan_from :: nat
  sa_tool_scan_from :: nat
  sa_saw_tool_start :: bool
  sa_saw_tool_end :: bool
  sa_saw_orphan_tool_end :: bool
  sa_required_tool_prefix_pos :: nat
  sa_required_think_end_prefix_pos :: nat
  sa_matched_stop :: "bytes option"
  sa_verdict :: "string option"
  sa_completion :: int
  sa_reasoning_tokens :: int

record sem_feed =
  sf_emit_limit :: nat
  sf_hit_stop :: bool
  sf_tool_block_closed :: bool
  sf_entered_tool_block :: bool
  sf_orphan_tool_end :: bool
  sf_tool_syntax_cut :: bool

definition sem_accum_init :: "gen_request \<Rightarrow> sem_accum" where
  "sem_accum_init r =
     (let th = thinking_state_from_prompt r; gates = ds4_think_mode_enabled (gr_think_mode r)
      in \<lparr>sa_text = [], sa_thinking = th, sa_dsml = dsml_decode_tracker_init, sa_track_tools = (gr_is_chat r \<and> gr_has_tools r),
          sa_cut_tool_syntax = (gr_is_chat r \<and> \<not> gr_has_tools r), sa_think_gates_markers = gates, sa_count_reasoning = gates,
          sa_chat_format = gr_chat_format r, sa_waiting_for_think_close = (gates \<and> ts_inside th), sa_stop_scan_from = 0,
          sa_tool_scan_from = 0, sa_saw_tool_start = False, sa_saw_tool_end = False, sa_saw_orphan_tool_end = False,
          sa_required_tool_prefix_pos = 0, sa_required_think_end_prefix_pos = 0, sa_matched_stop = None, sa_verdict = None,
          sa_completion = 0, sa_reasoning_tokens = 0\<rparr>)"

text \<open>The first part of a feed: the text, the thinking state, the tracker and the counters.\<close>

definition feed_text :: "sem_accum \<Rightarrow> bytes \<Rightarrow> sem_accum" where
  "feed_text a piece =
     (let t = sa_text a @ piece
      in a\<lparr>sa_reasoning_tokens := sa_reasoning_tokens a + (if sa_count_reasoning a \<and> ts_inside (sa_thinking a) then 1 else 0),
           sa_text := t, sa_thinking := thinking_state_feed (sa_thinking a) piece,
           sa_dsml := (if sa_track_tools a \<and> sa_chat_format a = DS4_CHAT_FORMAT_DSML then dsml_decode_tracker_update (sa_dsml a) t else sa_dsml a),
           sa_completion := sa_completion a + 1\<rparr>)"

text \<open>How much may be sent, for a stop that was hit or not.\<close>

definition feed_limit :: "sem_accum \<Rightarrow> gen_request \<Rightarrow> (nat \<times> nat) option \<Rightarrow> nat" where
  "feed_limit a r hit =
     (let n = length (sa_text a);
          l0 = (case hit of Some (pos, _) \<Rightarrow> pos | None \<Rightarrow> stop_list_stream_safe_len (gr_stops r) n);
          l1 = (if l0 > n then n else l0)
      in if sa_cut_tool_syntax a
         then let safe = tool_marker_stream_safe_len (sa_text a) (sa_chat_format a) in if l1 > safe then safe else l1
         else l1)"

definition feed_stop_scan :: "sem_accum \<Rightarrow> gen_request \<Rightarrow> (nat \<times> nat) option \<Rightarrow> sem_accum" where
  "feed_stop_scan a r hit =
     (if hit = None \<and> sl_max_len (gr_stops r) > 1
      then let hold = sl_max_len (gr_stops r) - 1; n = length (sa_text a)
        in a\<lparr>sa_stop_scan_from := (if n > hold then n - hold else 0)\<rparr>
      else a)"

text \<open>Where the scan for markers starts: behind the end of a thinking block that has just been closed.\<close>

definition feed_scan_from :: "sem_accum \<Rightarrow> nat" where
  "feed_scan_from a =
     (let n = length (sa_text a);
          from_think = (if sa_waiting_for_think_close a
            then (let mk = chat_think_end (sa_chat_format a)
                  in case find_last_substr (sa_text a) mk of Some i \<Rightarrow> i + length mk | None \<Rightarrow> n)
            else sa_tool_scan_from a)
      in if from_think > n then n else from_think)"

text \<open>The scan for markers; the result has the flags of the feed and the place of a cut.\<close>

definition feed_markers :: "sem_accum \<Rightarrow> sem_feed \<Rightarrow> sem_accum \<times> sem_feed \<times> nat option" where
  "feed_markers a f =
     (let n = length (sa_text a)
      in if \<not> (sa_track_tools a \<or> sa_cut_tool_syntax a) then (a, f, None)
         else if sa_think_gates_markers a \<and> ts_inside (sa_thinking a)
         then (a\<lparr>sa_waiting_for_think_close := True, sa_tool_scan_from := n\<rparr>, f, None)
         else let from_pos = feed_scan_from a; scan = drop from_pos (sa_text a);
                  (st, en, orphan) = observe_tool_markers_format scan (sa_saw_tool_start a) (sa_saw_tool_end a) (sa_chat_format a);
                  entered = (st \<and> \<not> sa_saw_tool_start a);
                  f' = f\<lparr>sf_orphan_tool_end := (orphan \<and> \<not> sa_saw_orphan_tool_end a), sf_entered_tool_block := entered,
                         sf_tool_block_closed := (en \<and> \<not> sa_saw_tool_end a)\<rparr>;
                  cut_pos = (if entered \<and> sa_cut_tool_syntax a
                             then map_option ((+) from_pos) (find_tool_start_format scan (sa_chat_format a)) else None);
                  hold_from = (if n > 80 then n - 80 else 0)
              in (a\<lparr>sa_waiting_for_think_close := False, sa_saw_tool_start := st, sa_saw_tool_end := en,
                    sa_saw_orphan_tool_end := (sa_saw_orphan_tool_end a \<or> orphan),
                    sa_tool_scan_from := (if hold_from > from_pos then hold_from else from_pos)\<rparr>, f', cut_pos))"

definition feed_verdict :: "sem_accum \<Rightarrow> sem_feed \<Rightarrow> (nat \<times> nat) option \<Rightarrow> nat option \<Rightarrow> sem_accum \<times> sem_feed" where
  "feed_verdict a f hit cut_pos =
     (case hit of
        Some (pos, len) \<Rightarrow>
          (a\<lparr>sa_matched_stop := Some (bslice pos len (sa_text a)), sa_text := take pos (sa_text a), sa_verdict := Some ''stop''\<rparr>,
           f\<lparr>sf_hit_stop := True\<rparr>)
      | None \<Rightarrow>
          if sa_cut_tool_syntax a \<and> cut_pos \<noteq> None \<and> sa_verdict a = None
          then (a\<lparr>sa_text := take (the cut_pos) (sa_text a), sa_verdict := Some ''stop''\<rparr>,
                f\<lparr>sf_hit_stop := True, sf_tool_syntax_cut := True,
                  sf_emit_limit := (if sf_emit_limit f > the cut_pos then the cut_pos else sf_emit_limit f)\<rparr>)
          else if sa_track_tools a \<and> sa_saw_tool_end a \<and> sa_verdict a = None \<and> sa_chat_format a = DS4_CHAT_FORMAT_DSML
          then (a\<lparr>sa_verdict := Some ''tool_calls''\<rparr>, f)
          else (a, f))"

definition sem_accum_feed :: "sem_accum \<Rightarrow> gen_request \<Rightarrow> bytes \<Rightarrow> sem_accum \<times> sem_feed" where
  "sem_accum_feed a0 r piece =
     (let a1 = feed_text a0 piece;
          hit = stop_list_find_from (gr_stops r) (Some (sa_text a1)) (sa_stop_scan_from a1);
          f = \<lparr>sf_emit_limit = feed_limit a1 r hit, sf_hit_stop = False, sf_tool_block_closed = False, sf_entered_tool_block = False,
               sf_orphan_tool_end = False, sf_tool_syntax_cut = False\<rparr>;
          (a2, f', cut_pos) = feed_markers (feed_stop_scan a1 r hit) f
      in feed_verdict a2 f' hit cut_pos)"

subsection \<open>Sampling\<close>

datatype sample_override = OVERRIDE_NONE | OVERRIDE_GREEDY | OVERRIDE_TOKEN int

definition sem_accum_dsml_state :: "sem_accum \<Rightarrow> dsml_decode_state" where
  "sem_accum_dsml_state a =
     (if sa_track_tools a \<and> sa_chat_format a = DS4_CHAT_FORMAT_DSML then dt_decode (sa_dsml a) else DSML_DECODE_OUTSIDE)"

definition agent_turn_reasoning_cap :: "gen_request \<Rightarrow> int" where
  "agent_turn_reasoning_cap r =
     (let reserve = 64; budget_cap = (if gr_max_tokens r > reserve then gr_max_tokens r - reserve else 0);
          effort_cap = (if gr_think_mode r = DS4_THINK_HIGH then 256 else if gr_think_mode r = DS4_THINK_MAX then 512 else 64)
      in if budget_cap < effort_cap then budget_cap else effort_cap)"

definition sem_accum_sampling_override :: "sem_accum \<Rightarrow> gen_request \<Rightarrow> sample_override \<times> sem_accum" where
  "sem_accum_sampling_override a r =
     (let required_pending = (gr_tool_choice r = TOOL_CHOICE_REQUIRED \<and> sa_track_tools a \<and> \<not> sa_saw_tool_start a)
      in if (required_pending \<or> gr_has_tool_results r) \<and> ts_inside (sa_thinking a)
         then let i = sa_required_think_end_prefix_pos a
           in if sa_completion a \<ge> agent_turn_reasoning_cap r \<and> i < length (gr_required_think_end_prefix r)
              then (OVERRIDE_TOKEN (gr_required_think_end_prefix r ! i), a\<lparr>sa_required_think_end_prefix_pos := i + 1\<rparr>)
              else (OVERRIDE_NONE, a)
         else if required_pending \<and> sa_required_tool_prefix_pos a < length (gr_required_tool_prefix r)
         then let i = sa_required_tool_prefix_pos a
           in (OVERRIDE_TOKEN (gr_required_tool_prefix r ! i), a\<lparr>sa_required_tool_prefix_pos := i + 1\<rparr>)
         else let st = sem_accum_dsml_state a
           in (if dsml_decode_state_is_tool st \<and> \<not> dsml_decode_state_uses_payload_sampling st then OVERRIDE_GREEDY else OVERRIDE_NONE, a))"

definition sem_accum_terminal_finish :: "sem_accum \<Rightarrow> string option \<Rightarrow> string" where
  "sem_accum_terminal_finish a finish = (case finish of None \<Rightarrow> ''stop'' | Some s \<Rightarrow> s)"

subsection \<open>Thinking, from the whole text\<close>

definition opens_think :: "bytes \<Rightarrow> bool" where
  "opens_think t \<longleftrightarrow> suffix (lit ''<think>'') t \<or> suffix DS4_SOLAR_THINK_START t"

definition closes_think :: "bytes \<Rightarrow> bool" where
  "closes_think t \<longleftrightarrow> suffix (lit ''</think>'') t \<or> suffix DS4_SOLAR_THINK_END t"

lemma suffix_iff_drop: "suffix m t \<longleftrightarrow> length m \<le> length t \<and> drop (length t - length m) t = m"
  using suffix_drop [of "length t - length m" t] by (auto simp: suffix_def)

text \<open>The tail holds the last 16 bytes, enough for every marker.\<close>

lemma tail_ends:
  assumes "ts_tail st = drop (length t - 16) t" "length m \<le> 16"
  shows "thinking_tail_ends_with st m \<longleftrightarrow> suffix m t"
proof (cases "length m \<le> length t")
  case True
  then have "length t - 16 + (length t - (length t - 16) - length m) = length t - length m" using assms(2) by linarith
  then have "drop (length (ts_tail st) - length m) (ts_tail st) = drop (length t - length m) t"
    unfolding assms(1) by (simp add: add.commute)
  then show ?thesis using True assms by (auto simp: thinking_tail_ends_with_def suffix_iff_drop)
next
  case False
  then show ?thesis using assms by (simp add: thinking_tail_ends_with_def suffix_iff_drop)
qed

lemma thinking_byte_tail:
  assumes "ts_tail st = drop (length t - 16) t"
  shows "ts_tail (thinking_byte st c) = drop (length (t @ [c]) - 16) (t @ [c])"
    "ts_inside (thinking_byte st c) \<longleftrightarrow> opens_think (t @ [c]) \<or> \<not> closes_think (t @ [c]) \<and> ts_inside st"
proof -
  let ?tail = "(if length (ts_tail st) = 16 then drop 1 (ts_tail st) else ts_tail st) @ [c]"
  have tail: "?tail = drop (length (t @ [c]) - 16) (t @ [c])"
  proof (cases "length t \<ge> 16")
    case True
    then have "length (ts_tail st) = 16" "Suc (length t) - 16 = Suc (length t - 16)" using assms by simp_all
    then show ?thesis using assms by simp
  next
    case False
    then show ?thesis using assms by simp
  qed
  then show "ts_tail (thinking_byte st c) = drop (length (t @ [c]) - 16) (t @ [c])"
    by (simp add: thinking_byte_def Let_def)
  have e: "thinking_tail_ends_with (st\<lparr>ts_tail := ?tail\<rparr>) m \<longleftrightarrow> suffix m (t @ [c])" if "length m \<le> 16" for m
    using tail_ends [of "st\<lparr>ts_tail := ?tail\<rparr>" "t @ [c]" m] tail that by simp
  have "length (lit ''<think>'') \<le> 16" "length (lit ''</think>'') \<le> 16" "length DS4_SOLAR_THINK_START \<le> 16" "length DS4_SOLAR_THINK_END \<le> 16"
    by (simp_all add: lit_def DS4_SOLAR_THINK_START_def DS4_SOLAR_THINK_END_def)
  note E = this [THEN e]
  show "ts_inside (thinking_byte st c) \<longleftrightarrow> opens_think (t @ [c]) \<or> \<not> closes_think (t @ [c]) \<and> ts_inside st"
    unfolding thinking_byte_def Let_def E opens_think_def closes_think_def by (simp del: suffix_snoc)
qed

text \<open>
  C37. The thinking state is that of the whole text: however the text is cut into tokens, and with only the last 16 bytes
  kept, the model counts as thinking exactly if some opening mark has been completed and no closing mark after it, or if
  it was thinking at the start and no closing mark has been completed.
\<close>

theorem thinking_inside_iff:
  "ts_inside (foldl thinking_state_feed \<lparr>ts_inside = b, ts_tail = []\<rparr> pieces) \<longleftrightarrow>
     (let t = concat pieces
      in (\<exists>k \<le> length t. opens_think (take k t) \<and> \<not> (\<exists>j > k. j \<le> length t \<and> closes_think (take j t))) \<or>
         b \<and> \<not> (\<exists>j \<le> length t. closes_think (take j t)))"
proof -
  let ?st = "\<lparr>ts_inside = b, ts_tail = []\<rparr>"
  have feeds: "foldl thinking_state_feed ?st pieces = foldl thinking_byte ?st (concat pieces)"
    by (induction pieces rule: rev_induct) (simp_all add: thinking_state_feed_def)
  have nil: "\<not> opens_think []" "\<not> closes_think []"
    by (auto simp: opens_think_def closes_think_def lit_def DS4_SOLAR_THINK_START_def DS4_SOLAR_THINK_END_def)
  have tail: "ts_tail (foldl thinking_byte ?st t) = drop (length t - 16) t" for t
    by (induction t rule: rev_induct) (simp_all add: thinking_byte_tail(1))
  have "ts_inside (foldl thinking_byte ?st t) \<longleftrightarrow>
      (\<exists>k \<le> length t. opens_think (take k t) \<and> \<not> (\<exists>j > k. j \<le> length t \<and> closes_think (take j t))) \<or>
      b \<and> \<not> (\<exists>j \<le> length t. closes_think (take j t))" for t
  proof (induction t rule: rev_induct)
    case Nil
    then show ?case using nil by simp
  next
    case (snoc c t)
    let ?n = "Suc (length t)"
    have tk: "take j (t @ [c]) = (if j \<le> length t then take j t else t @ [c])" for j by (simp add: not_le Suc_leI)
    note B = thinking_byte_tail(2) [OF tail, of t c]
    have ex: "(\<exists>j \<le> ?n. P j) \<longleftrightarrow> (\<exists>j \<le> length t. P j) \<or> P ?n" for P by (metis le_Suc_eq)
    show ?case
    proof (cases "opens_think (t @ [c])")
      case True
      then show ?thesis using B by (auto intro!: exI [of _ ?n])
    next
      case False
      show ?thesis
      proof (cases "closes_think (t @ [c])")
        case True
        have "\<exists>j > k. j \<le> ?n \<and> closes_think (take j (t @ [c]))" if "k \<le> ?n" "opens_think (take k (t @ [c]))" for k
          using that True False by (intro exI [of _ ?n]) (auto simp: tk le_Suc_eq simp del: take_append)
        moreover have "\<exists>j \<le> ?n. closes_think (take j (t @ [c]))" using True by (intro exI [of _ ?n]) simp
        ultimately show ?thesis using B False True by (auto simp del: take_append)
      next
        case no: False
        have "(\<exists>k \<le> ?n. opens_think (take k (t @ [c])) \<and> \<not> (\<exists>j > k. j \<le> ?n \<and> closes_think (take j (t @ [c])))) \<longleftrightarrow>
            (\<exists>k \<le> length t. opens_think (take k t) \<and> \<not> (\<exists>j > k. j \<le> length t \<and> closes_think (take j t)))"
          using False no by (simp add: ex tk le_Suc_eq del: take_append) metis
        moreover have "(\<exists>j \<le> ?n. closes_think (take j (t @ [c]))) \<longleftrightarrow> (\<exists>j \<le> length t. closes_think (take j t))"
          using no by (auto simp: ex tk simp del: take_append)
        ultimately show ?thesis using B False no snoc.IH by simp
      qed
    qed
  qed
  then show ?thesis by (simp add: feeds Let_def)
qed

subsection \<open>Markers and what is held back\<close>















subsection \<open>What has been sent is never taken back\<close>

text \<open>
  The feeds of a generation: they end with a verdict. The result has the accumulator and what every feed returned.
\<close>

fun sem_run :: "sem_accum \<Rightarrow> gen_request \<Rightarrow> bytes list \<Rightarrow> sem_accum \<times> sem_feed list" where
  "sem_run a r [] = (a, [])"
| "sem_run a r (p # ps) =
     (let (a1, f) = sem_accum_feed a r p
      in if sa_verdict a1 \<noteq> None then (a1, [f]) else let (a2, fs) = sem_run a1 r ps in (a2, f # fs))"




















lemma feed_stop_scan_fields [simp]:
  "sa_text (feed_stop_scan a r hit) = sa_text a" "sa_verdict (feed_stop_scan a r hit) = sa_verdict a"
  "sa_think_gates_markers (feed_stop_scan a r hit) = sa_think_gates_markers a"
  "sa_cut_tool_syntax (feed_stop_scan a r hit) = sa_cut_tool_syntax a" "sa_chat_format (feed_stop_scan a r hit) = sa_chat_format a"
  "sa_tool_scan_from (feed_stop_scan a r hit) = sa_tool_scan_from a"
  "sa_saw_tool_start (feed_stop_scan a r hit) = sa_saw_tool_start a"
  "sa_waiting_for_think_close (feed_stop_scan a r hit) = sa_waiting_for_think_close a"
  by (simp_all add: feed_stop_scan_def Let_def)








text \<open>
  The bare start of tool calls is recognised but not held back. When a token ends before its last byte, eleven bytes of the
  syntax are sent before the text is cut off in front of them.
\<close>

definition plain_request :: gen_request where
  "plain_request = \<lparr>gr_is_chat = True, gr_has_tools = False, gr_has_tool_results = False, gr_think_mode = DS4_THINK_NONE,
     gr_chat_format = DS4_CHAT_FORMAT_DSML, gr_tool_choice = TOOL_CHOICE_AUTO, gr_stops = stop_list_clear \<lparr>sl_v = [], sl_max_len = 0\<rparr>,
     gr_prompt_text = None, gr_max_tokens = 100, gr_required_tool_prefix = [], gr_required_think_end_prefix = []\<rparr>"

theorem bare_start_is_sent:
  "let (a, fs) = sem_run (sem_accum_init plain_request) plain_request [lit ''<tool_calls'', lit ''>'']
   in map sf_emit_limit fs = [11, 0] \<and> sa_text a = []"
  by code_simp


end
