(* ===== verification/Image_Messages.thy ===== *)
theory Image_Messages
  imports Image_Input Sem_Accum
begin

section \<open>Images and the messages that show them\<close>

text \<open>
  The parts of a message and the check that every image of a request is shown by a user message
  (\<open>chat_msg_append_*_part\<close>, \<open>chat_msgs_validate_images\<close> of \<open>src/ds4_server.c\<close>).

  The check keeps one flag per image in an array of four; an access behind its end is the result \<open>None\<close>.
\<close>

datatype chat_part = CHAT_PART_TEXT bytes | CHAT_PART_IMAGE int

record image_msg =
  im_role :: "bytes option"
  im_content :: "bytes option"
  im_parts :: "chat_part list"

definition str_or_empty :: "bytes option \<Rightarrow> bytes" where
  "str_or_empty t = (case t of None \<Rightarrow> [] | Some s \<Rightarrow> s)"

definition chat_msg_append_text_part :: "image_msg \<Rightarrow> bytes option \<Rightarrow> image_msg" where
  "chat_msg_append_text_part m t =
     m\<lparr>im_parts := im_parts m @ [CHAT_PART_TEXT (str_or_empty t)], im_content := Some (str_or_empty (im_content m) @ str_or_empty t)\<rparr>"

definition chat_msg_append_image_part :: "image_msg \<Rightarrow> int \<Rightarrow> image_msg" where
  "chat_msg_append_image_part m i = m\<lparr>im_parts := im_parts m @ [CHAT_PART_IMAGE i]\<rparr>"

text \<open>The flags and their number; the loop over the parts of one message.\<close>

fun validate_parts :: "bool \<Rightarrow> int \<Rightarrow> chat_part list \<Rightarrow> bool list \<times> nat \<Rightarrow> (image_error + bool list \<times> nat) option" where
  "validate_parts user n [] st = Some (Inr st)"
| "validate_parts user n (CHAT_PART_TEXT t # ps) st = validate_parts user n ps st"
| "validate_parts user n (CHAT_PART_IMAGE i # ps) (seen, cnt) =
     (if \<not> user then Some (Inl Err_role)
      else if i < 0 \<or> i \<ge> n then Some (Inl Err_reference)
      else if nat i \<ge> length seen then None
      else if seen ! nat i then validate_parts user n ps (seen, cnt)
      else validate_parts user n ps (seen[nat i := True], cnt + 1))"

fun validate_msgs :: "int \<Rightarrow> image_msg list \<Rightarrow> bool list \<times> nat \<Rightarrow> (image_error + bool list \<times> nat) option" where
  "validate_msgs n [] st = Some (Inr st)"
| "validate_msgs n (m # ms) st =
     (case validate_parts (im_role m = Some (lit ''user'')) n (im_parts m) st of
        Some (Inr st') \<Rightarrow> validate_msgs n ms st'
      | r \<Rightarrow> r)"

definition chat_msgs_validate_images :: "image_msg list \<Rightarrow> chat_images \<Rightarrow> ds4_chat_format \<Rightarrow> (image_error + unit) option" where
  "chat_msgs_validate_images msgs images fmt =
     (if cs_v images = [] then Some (Inr ())
      else if fmt \<noteq> DS4_CHAT_FORMAT_QWEN4EXP then Some (Inl Err_format)
      else case validate_msgs (int (length (cs_v images))) msgs (replicate CHAT_IMAGE_MAX_COUNT False, 0) of
             None \<Rightarrow> None
           | Some (Inl e) \<Rightarrow> Some (Inl e)
           | Some (Inr (seen, cnt)) \<Rightarrow> if cnt \<noteq> length (cs_v images) then Some (Inl Err_unreferenced) else Some (Inr ()))"

subsection \<open>What is accepted\<close>

text \<open>The images that the messages show, and whether each is shown where it may be.\<close>

definition part_images :: "chat_part list \<Rightarrow> int list" where
  "part_images ps = List.map_filter (\<lambda>p. case p of CHAT_PART_IMAGE i \<Rightarrow> Some i | _ \<Rightarrow> None) ps"

definition shown_ok :: "int \<Rightarrow> image_msg \<Rightarrow> bool" where
  "shown_ok n m \<longleftrightarrow> (\<forall>i \<in> set (part_images (im_parts m)). im_role m = Some (lit ''user'') \<and> 0 \<le> i \<and> i < n)"

definition flags_ok :: "nat \<Rightarrow> nat set \<Rightarrow> bool list \<times> nat \<Rightarrow> bool" where
  "flags_ok l A = (\<lambda>(seen, cnt). length seen = l \<and> A = {i. i < l \<and> seen ! i} \<and> cnt = card A)"

lemma part_images_simps [simp]:
  "part_images [] = []" "part_images (CHAT_PART_TEXT t # ps) = part_images ps" "part_images (CHAT_PART_IMAGE i # ps) = i # part_images ps"
  by (simp_all add: part_images_def map_filter_simps)

lemma flags_set:
  assumes "flags_ok l A (seen, cnt)" "i < l"
  shows "flags_ok l (insert i A) (if seen ! i then (seen, cnt) else (seen[i := True], cnt + 1))"
proof (cases "seen ! i")
  case True
  then have "insert i A = A" using assms by (auto simp: flags_ok_def)
  then show ?thesis using assms True by simp
next
  case False
  have A: "length seen = l" "A = {j. j < l \<and> seen ! j}" "cnt = card A" using assms(1) by (auto simp: flags_ok_def)
  have "i \<notin> A" "finite A" using A False by auto
  then show ?thesis using A False assms(2) by (auto simp: flags_ok_def nth_list_update)
qed

lemma validate_parts_result:
  assumes "flags_ok l A st" "n \<le> int l"
  shows "\<exists>r. validate_parts user n ps st = Some r \<and>
    (case r of
       Inl e \<Rightarrow> \<not> (\<forall>i \<in> set (part_images ps). user \<and> 0 \<le> i \<and> i < n)
     | Inr st' \<Rightarrow> (\<forall>i \<in> set (part_images ps). user \<and> 0 \<le> i \<and> i < n) \<and> flags_ok l (A \<union> nat ` set (part_images ps)) st')"
  using assms
proof (induction user n ps st arbitrary: A rule: validate_parts.induct)
  case (3 user n i ps seen cnt)
  show ?case
  proof (cases "user \<and> 0 \<le> i \<and> i < n")
    case True
    have i: "nat i < l" using True "3.prems"(2) by linarith
    have len: "length seen = l" using "3.prems"(1) by (simp add: flags_ok_def)
    note F = flags_set [OF "3.prems"(1) i]
    have un: "insert (nat i) A \<union> nat ` set (part_images ps) = A \<union> nat ` set (part_images (CHAT_PART_IMAGE i # ps))" by auto
    show ?thesis
    proof (cases "seen ! nat i")
      case seen: True
      from "3.IH"(1) [of "insert (nat i) A"] True i len seen F "3.prems"(2) show ?thesis unfolding un by (auto split: sum.splits)
    next
      case seen: False
      from "3.IH"(2) [of "insert (nat i) A"] True i len seen F "3.prems"(2) show ?thesis unfolding un by (auto split: sum.splits)
    qed
  next
    case False
    then show ?thesis by auto
  qed
next
  case (2 user n t ps st)
  then show ?case unfolding part_images_simps validate_parts.simps by blast
qed auto

lemma validate_msgs_result:
  assumes "flags_ok l A st" "n \<le> int l"
  shows "\<exists>r. validate_msgs n ms st = Some r \<and>
    (case r of
       Inl e \<Rightarrow> \<not> (\<forall>m \<in> set ms. shown_ok n m)
     | Inr st' \<Rightarrow> (\<forall>m \<in> set ms. shown_ok n m) \<and> flags_ok l (A \<union> (\<Union>m \<in> set ms. nat ` set (part_images (im_parts m)))) st')"
  using assms
proof (induction ms arbitrary: A st)
  case (Cons m ms)
  obtain r where r: "validate_parts (im_role m = Some (lit ''user'')) n (im_parts m) st = Some r" and
    R: "case r of Inl e \<Rightarrow> \<not> shown_ok n m | Inr st' \<Rightarrow> shown_ok n m \<and> flags_ok l (A \<union> nat ` set (part_images (im_parts m))) st'"
    using validate_parts_result [OF Cons.prems, of "im_role m = Some (lit ''user'')" "im_parts m"] unfolding shown_ok_def by auto
  show ?case
  proof (cases r)
    case (Inl e)
    then show ?thesis using r R by auto
  next
    case (Inr st')
    from Cons.IH [of "A \<union> nat ` set (part_images (im_parts m))" st'] R Inr Cons.prems(2) r show ?thesis
      by (auto simp: Un_assoc split: sum.splits)
  qed
qed simp

text \<open>
  The check of a list of images within the limit ends and never reaches behind its flags. It accepts exactly when there are
  no images, or the grammar is that of Qwen, every image part is in a user message and names an image of the list, and every
  image of the list is named.
\<close>

theorem images_validated_iff:
  assumes "length (cs_v images) \<le> CHAT_IMAGE_MAX_COUNT"
  shows "chat_msgs_validate_images msgs images fmt \<noteq> None \<and>
    (chat_msgs_validate_images msgs images fmt = Some (Inr ()) \<longleftrightarrow>
       cs_v images = [] \<or>
       fmt = DS4_CHAT_FORMAT_QWEN4EXP \<and> (\<forall>m \<in> set msgs. shown_ok (int (length (cs_v images))) m) \<and>
       (\<Union>m \<in> set msgs. nat ` set (part_images (im_parts m))) = {..<length (cs_v images)})"
proof (cases "cs_v images = [] \<or> fmt \<noteq> DS4_CHAT_FORMAT_QWEN4EXP")
  case True
  then show ?thesis by (auto simp: chat_msgs_validate_images_def)
next
  case False
  let ?l = CHAT_IMAGE_MAX_COUNT and ?n = "length (cs_v images)" and ?S = "\<Union>m \<in> set msgs. nat ` set (part_images (im_parts m))"
  have "flags_ok ?l {} (replicate ?l False, 0)" by (simp add: flags_ok_def)
  from validate_msgs_result [OF this, of "int ?n" msgs, unfolded Un_empty_left] assms obtain r where
    r: "validate_msgs (int ?n) msgs (replicate ?l False, 0) = Some r" and
    R: "case r of Inl e \<Rightarrow> \<not> (\<forall>m \<in> set msgs. shown_ok (int ?n) m) | Inr st' \<Rightarrow> (\<forall>m \<in> set msgs. shown_ok (int ?n) m) \<and> flags_ok ?l ?S st'"
    by auto
  show ?thesis
  proof (cases r)
    case (Inl e)
    then show ?thesis using r R False by (auto simp: chat_msgs_validate_images_def)
  next
    case (Inr st)
    obtain seen cnt where st: "st = (seen, cnt)" by (cases st)
    have ok: "\<forall>m \<in> set msgs. shown_ok (int ?n) m" and cnt: "cnt = card ?S" using R Inr st by (auto simp: flags_ok_def)
    have "?S \<subseteq> {..<?n}" using ok by (fastforce simp: shown_ok_def)
    then have "cnt = ?n \<longleftrightarrow> ?S = {..<?n}" unfolding cnt by (metis card_lessThan card_subset_eq finite_lessThan)
    then show ?thesis using r Inr st False ok by (auto simp: chat_msgs_validate_images_def)
  qed
qed

end
