(* ===== verification/Spec2Isabelle.thy ===== *)
theory Spec2Isabelle
  imports C_Prelude C_Double Kv_Lookup Mem_Gov Mem_Seqlock Weight_Identity Image_Input Tool_Replay Out_Sink
    Gguf_Split Http_Request Tool_Restore Image_Messages
begin

text \<open>
  A verification development for the C core of the ds4 inference server.

  \<^bold>\<open>The program.\<close> The server keeps the key-value state of conversations as checkpoint files in
  a directory, so that a later prompt that starts with a stored text skips its prefill
  (\<open>src/ds4_kvstore.c\<close>). It accounts for device memory in a census of allocation cells
  (\<open>src/ds4_mem_census.h\<close>), lets a governor decide from the census whether a consumer may
  grow (\<open>src/ds4_mem_gov.h\<close>), and identifies weight files by a sampled fingerprint
  (\<open>src/ds4_weight_identity.h\<close>). The server proper (\<open>src/ds4_server.c\<close>) reads JSON requests, remembers the
  exact text of the tool calls it answered with, keeps a registry of the turns that a later request may
  continue, decides which lane serves a request, queues the requests of many client threads for one
  worker, and buffers the output of readers that are slower than the model. The weights themselves come from
  model files that the engine maps and whose directory it reads (\<open>src/ds4.c\<close>).

  \<^bold>\<open>The theories of the checkpoint store and the memory accounting.\<close>
  \<^item> \<open>C_Prelude\<close>: machine integers, byte strings, C strings, the best-candidate scan shared by the
    eviction and the two lookups (locale \<open>best_scan\<close>).
  \<^item> \<open>C_Double\<close>: IEEE doubles as rounded rationals, monotonicity of rounded arithmetic.
  \<^item> \<open>Kv_Sha1\<close>: \<open>sha1_init\<close>, \<open>sha1_update\<close>, \<open>sha1_final\<close>, \<open>sha1_transform\<close>; equal to the SHA-1 of FIPS
    180-4, which \<open>Sha1_Standard\<close> states from the standard with the digest of its first test message.
  \<^item> \<open>Kv_Format\<close>: the 48-byte header, \<open>fill_header\<close> and \<open>read_header\<close> with their round trip, file names.
  \<^item> \<open>Kv_Policy\<close>: when to store and how long, the pacing of continued checkpoints, budget arithmetic.
  \<^item> \<open>Kv_Files\<close>: the directory as a store from paths to bytes; the operating system's answers
    (can this be listed, opened, unlinked, renamed; what time is it) are the parameter \<open>os_env\<close>;
    locale \<open>file_disk\<close> states the laws of reading, writing, removing and renaming.
  \<^item> \<open>Kv_Evict\<close>: the score and the eviction loop.
  \<^item> \<open>Kv_Store\<close>: opening the store, the key text, staging the payload, writing and publishing. The
    engine, the session and the trailer callbacks are parameters: their code is CUDA, Metal or
    the caller's.
  \<^item> \<open>Kv_Lookup\<close>: both lookups, loading into a session, restoring into a bank.
  \<^item> \<open>Mem_Census\<close>, \<open>Mem_Gov\<close>, \<open>Mem_Seqlock\<close>: cells, model sources, residency, reconciliation; the
    governor's quote; the versioned snapshot protocol as a step relation of one writer and one
    reader.
  \<^item> \<open>Weight_Identity\<close>: the fingerprint.

  \<^bold>\<open>The theories of the server.\<close>
  \<^item> \<open>Http_Read\<close>, \<open>Http_Stream\<close>, \<open>Http_Request\<close>: receiving a request from a socket, whose receives cut the bytes anywhere:
    the functions, the loops that pull bytes on a stream that has what they look for, and whole requests.
  \<^item> \<open>Json_Text\<close>: the cursor parser of requests and the string escapers, with the reference grammar that
    the skipper accepts.
  \<^item> \<open>Server_Text\<close>: growing buffers, stop strings, and how much of a growing text may be sent.
  \<^item> \<open>Image_Input\<close>, \<open>Image_Messages\<close>: base64, image lists and their limits, the image cache key, placeholder expansion;
    the parts of a message and the check that the messages show exactly the images of the request.
  \<^item> \<open>Lru_List\<close>: the doubly linked recency list as pointers, equal to the list that the others use.
  \<^item> \<open>Tool_Memory\<close>: entries, shared blocks, limits, put and lookup.
  \<^item> \<open>Cont_Registry\<close>, \<open>Cont_Steps\<close>, \<open>Cont_Machine\<close>: the registry of continuable turns together with the tool
    memory whose entries it pins: definitions and the invariant, the effect of each operation, and the
    step relation of all operations on both.
  \<^item> \<open>Cont_Admit\<close>: what admission asks of the registry: resolution, holds, bank claims, protection, free
    ids.
  \<^item> \<open>Tool_Replay\<close>: attaching remembered texts to a resent conversation.
  \<^item> \<open>Tool_Map\<close>, \<open>Tool_Restore\<close>: the trailer that a checkpoint has for the exact tool calls of its text (finding the
    blocks, measuring, writing, loading), which are the hooks that \<open>Kv_Store\<close> takes as a parameter, and the
    restoring of the memory from the directory.
  \<^item> \<open>Dsml_Track\<close>, \<open>Sem_Accum\<close>: what the generation loops do with the text of a token: the tracker of tool-call syntax, the
    thinking state, the scans for stops and markers, how much may be sent, the verdict, the override of the sampler.
  \<^item> \<open>Route\<close>: \<open>request_compute_needs\<close>, \<open>route_decide\<close>, the dispatch of the worker, and the older predicates
    that the test suite keeps as oracles.
  \<^item> \<open>Job_Queue\<close>: the linked queue with its counters, \<open>enqueue\<close>, the pulls, the settling of a job.
  \<^item> \<open>Job_Pull\<close>: \<open>dequeue\<close>, the pull of a running group and \<open>coalesce_gather\<close> as loops; locale \<open>pull_loop\<close> states what
    one turn does and is interpreted for the two loops that drop jobs.
  \<^item> \<open>Job_Machine\<close>: clients and worker as a step relation on the queue.
  \<^item> \<open>Out_Sink\<close>: \<open>job_emit\<close>, the drain of the client threads, reservations, \<open>serial_terminal_commit\<close> over the registry.

  \<^bold>\<open>The theories of the model files.\<close>
  \<^item> \<open>Gguf_Parse\<close>: the cursor, \<open>skip_value\<close>, \<open>parse_metadata\<close>, \<open>parse_tensors\<close>, the typed \<open>model_get_*\<close> readers; locale
    \<open>reader\<close> states what every parsing function promises (it stays inside the mapping, moves forward and
    does not depend on what follows) and is interpreted for the readers of the format.
  \<^item> \<open>Gguf_Roundtrip\<close>: the format as a writer of typed values, and that the parser recovers what was written.
  \<^item> \<open>Gguf_Split\<close>: \<open>model_open\<close>, \<open>model_open_split\<close>, the names of the parts and the joined address range.

  \<^bold>\<open>How state corresponds.\<close> Each struct is a record with the fields of the C type, prefixed
  (\<open>kc_\<close> for \<open>ds4_kvstore\<close>, \<open>e_\<close> for \<open>ds4_kvstore_entry\<close>, \<open>gq_\<close> for \<open>ds4_gov_quote\<close>, \<open>rg_\<close> and \<open>cr_\<close> for the
  registry and its records, \<open>rq_\<close> for a request, \<open>jb_\<close> and \<open>js_\<close> for a job and the server's queue). An operation
  takes the records it may change and returns them. A pointer that may be null is an option; objects
  that are shared through pointers live in a map from addresses. Unsigned fields
  are words of their width, so wrap-around is that of the code; \<open>int\<close> fields are unbounded integers
  with the casts of the code written out where they matter. What the operating system answers (sockets, clock,
  file system) is an argument. A critical section under a mutex is one step of a step relation.

  \<^bold>\<open>What is shown.\<close> The checkpoint store: a loaded checkpoint is a whole record whose text is a prefix of
  the prompt and whose identity fits; a store leaves every file of the directory either as it was,
  removed, or a complete record; eviction brings the directory under the budget and removes what
  ranks lowest; the lookups return the best candidate; what was stored is found. The census and the
  governor: exact ledgers, exact admission, coherent snapshots. Requests: read as written, however the
  network cuts them, and within the limits. Text: the JSON skipper consumes exactly a
  value, escaping round-trips, text that may become a stop string is held back. The registry: its
  pointers and pins are valid in every reachable state, the prune loops end and spare what is
  protected, a published turn resolves exactly for its own ids at its own frontier and protects its bank from
  the emergency reclaim for the grace period. Exact tool calls: they are replayed
  as sampled, also by a restarted server from a checkpoint; the trailer has exactly the size announced for it. Generated text: the thinking state and the tracker are those of
  the whole text, however it is cut into tokens (for the tracker, unless a token ends where a tag opens); what has been
  sent is never taken back by a stop or a cut. Routing: the ladder is a
  capability table, the lane and the reason of a request are read off the request, and the predicates of
  the test suite agree; a continuation goes to the owner of its
  frontier. The queue: its counters are what they count and stay within the bounds in every interleaving,
  every request is counted once, \<open>dequeue\<close> returns the first live job, a static group is a prefix within its
  budgets, and no queued job waits for more turns than jobs are ahead of it. The output: the
  gauge is exact and bounded, and a tool turn becomes continuable only if its client can have seen it. Model
  files: the data of a file that parses starts within one alignment of its directory and every tensor whose size
  is known lies inside the file, with exact sizes; every well-formed directory is
  accepted and read back as written; the tensors of a split model resolve to the bytes of their own parts.

  \<^bold>\<open>Termination and fuel.\<close> No definition uses fuel. Loops over data are structural recursions or have a
  measure: the eviction loop shrinks the entry list, the hash loops consume bytes. Loops over
  pointers, and the minting of random ids, are partial functions into an option (\<open>tool_memory_prune_walk\<close>,
  \<open>cont_registry_prune_walk\<close>, \<open>mint_tool_id\<close>, \<open>dequeue\<close>, \<open>cont_pull\<close>, \<open>gather_loop\<close>); that they return on well-formed states
  is proved, not assumed.

  \<^bold>\<open>Not modelled.\<close> The CUDA and Metal backends and their kernels, the tensor engine of \<open>ds4.c\<close> (of which the reader
  of model files is modelled, without the tensor directory of a Rust host and the copy into huge pages), sockets
  and the writers of responses and event streams, the request schemas of the four endpoints, the generation loops of the
  worker, the distributed transport, the command-line tools and the Rust host. Waiting on
  condition variables and log lines are left out of the operations that are modelled.
\<close>

end
